(* ===== verification/Emela_Prelude.thy ===== *)
theory Emela_Prelude
  imports Main "HOL-Library.Char_ord" "HOL-Library.List_Lexorder" "HOL-Library.Multiset"
    "HOL-Library.Word"
begin

text \<open>
  Shared vocabulary of the development: the pieces of Rust's standard library that the
  compiler and the package manager use on strings, integers and orderings, with the lemmas the
  component theories need about them.

  A Rust \<open>String\<close> is a sequence of UTF-8 bytes and its \<open>len\<close>, \<open>split\<close>,
  \<open>strip_prefix\<close> and \<open>cmp\<close> work on those bytes, so a string is a
  \<^typ>\<open>char list\<close> whose elements are the bytes. The library's lexicographic order on such
  lists is Rust's \<open>Ord\<close> on strings.
\<close>

named_theorems rust_str \<open>equations of the string operations of the Rust standard library\<close>

section \<open>Bytes\<close>

definition byte :: "char \<Rightarrow> nat" where
  "byte c = of_char c"

definition is_ascii_digit :: "char \<Rightarrow> bool" where
  "is_ascii_digit c \<longleftrightarrow> 48 \<le> byte c \<and> byte c \<le> 57"

definition is_ascii_lowercase :: "char \<Rightarrow> bool" where
  "is_ascii_lowercase c \<longleftrightarrow> 97 \<le> byte c \<and> byte c \<le> 122"

definition is_ascii_uppercase :: "char \<Rightarrow> bool" where
  "is_ascii_uppercase c \<longleftrightarrow> 65 \<le> byte c \<and> byte c \<le> 90"

definition is_ascii_alphanumeric :: "char \<Rightarrow> bool" where
  "is_ascii_alphanumeric c \<longleftrightarrow>
     is_ascii_digit c \<or> is_ascii_lowercase c \<or> is_ascii_uppercase c"

definition to_ascii_lowercase :: "char \<Rightarrow> char" where
  "to_ascii_lowercase c = (if is_ascii_uppercase c then char_of (byte c + 32) else c)"

definition to_ascii_uppercase :: "char \<Rightarrow> char" where
  "to_ascii_uppercase c = (if is_ascii_lowercase c then char_of (byte c - 32) else c)"

lemmas ascii_defs =
  byte_def is_ascii_digit_def is_ascii_lowercase_def is_ascii_uppercase_def
  is_ascii_alphanumeric_def

lemma byte_inject: "byte a = byte b \<longleftrightarrow> a = b"
  by (simp add: byte_def)

lemma byte_less_256: "byte c < 256"
  by (simp add: byte_def)

lemma byte_char_of: "n < 256 \<Longrightarrow> byte (char_of n) = n"
  by (simp add: byte_def)

text \<open>The bytes of a string, for hashing. SHA-256 is a function on them.\<close>

type_synonym bytes = "8 word list"
type_synonym sha = "bytes \<Rightarrow> bytes"

definition as_bytes :: "string \<Rightarrow> bytes" where
  "as_bytes s = map (\<lambda>c. word_of_nat (byte c)) s"

definition sha_len :: "sha \<Rightarrow> bool" where
  "sha_len sha \<longleftrightarrow> (\<forall>x. length (sha x) = 32)"

definition no_second_preimage :: "sha \<Rightarrow> bytes set \<Rightarrow> bool" where
  "no_second_preimage sha X \<longleftrightarrow> (\<forall>x\<in>X. \<forall>y. sha y = sha x \<longrightarrow> y = x)"

lemma byte_word_inject: "(word_of_nat (byte a) :: 8 word) = word_of_nat (byte b) \<longleftrightarrow> a = b"
proof -
  have "unat (word_of_nat (byte c) :: 8 word) = byte c" for c
    using byte_less_256 [of c] by (simp add: unat_of_nat)
  then show ?thesis by (metis byte_inject)
qed

lemma as_bytes_inject [simp]: "as_bytes s = as_bytes t \<longleftrightarrow> s = t"
  unfolding as_bytes_def by (rule inj_map_eq_map) (auto simp: inj_on_def byte_word_inject)

lemma as_bytes_append [simp]: "as_bytes (s @ t) = as_bytes s @ as_bytes t"
  by (simp add: as_bytes_def)

section \<open>Splitting and joining strings\<close>

text \<open>\<open>str::split\<close> on one character: there is always at least one part.\<close>

fun split_on :: "'a \<Rightarrow> 'a list \<Rightarrow> 'a list list" where
  "split_on c [] = [[]]"
| "split_on c (x # xs) =
     (if x = c then [] # split_on c xs
      else (x # hd (split_on c xs)) # tl (split_on c xs))"

fun join_with :: "'a list \<Rightarrow> 'a list list \<Rightarrow> 'a list" where
  "join_with sep [] = []"
| "join_with sep [p] = p"
| "join_with sep (p # q # ps) = p @ sep @ join_with sep (q # ps)"

text \<open>\<open>str::split_once\<close> and \<open>str::rsplit_once\<close> on one character.\<close>

fun split_once :: "'a \<Rightarrow> 'a list \<Rightarrow> ('a list \<times> 'a list) option" where
  "split_once c [] = None"
| "split_once c (x # xs) =
     (if x = c then Some ([], xs)
      else map_option (\<lambda>(a, b). (x # a, b)) (split_once c xs))"

definition rsplit_once :: "'a \<Rightarrow> 'a list \<Rightarrow> ('a list \<times> 'a list) option" where
  "rsplit_once c s = map_option (\<lambda>(a, b). (rev b, rev a)) (split_once c (rev s))"

fun strip_prefix :: "'a list \<Rightarrow> 'a list \<Rightarrow> 'a list option" where
  "strip_prefix [] s = Some s"
| "strip_prefix (p # ps) [] = None"
| "strip_prefix (p # ps) (x # xs) = (if p = x then strip_prefix ps xs else None)"

definition starts_with :: "'a list \<Rightarrow> 'a list \<Rightarrow> bool" where
  "starts_with p s \<longleftrightarrow> strip_prefix p s \<noteq> None"

definition strip_suffix :: "'a list \<Rightarrow> 'a list \<Rightarrow> 'a list option" where
  "strip_suffix p s = map_option rev (strip_prefix (rev p) (rev s))"

definition ends_with :: "'a list \<Rightarrow> 'a list \<Rightarrow> bool" where
  "ends_with p s \<longleftrightarrow> strip_suffix p s \<noteq> None"

lemma split_on_not_Nil [simp]: "split_on c s \<noteq> []"
  by (cases s) auto

lemma split_on_eval [code]:
  "split_on c [] = [[]]"
  "split_on c (x # xs) =
     (case split_on c xs of [] \<Rightarrow> [] | p # ps \<Rightarrow> if x = c then [] # p # ps else (x # p) # ps)"
  using split_on_not_Nil [of c xs] by (auto split: list.split)

lemma join_with_Cons: "ps \<noteq> [] \<Longrightarrow> join_with sep (p # ps) = p @ sep @ join_with sep ps"
  by (cases ps) auto

lemma join_with_hd_Cons: "ps \<noteq> [] \<Longrightarrow> join_with sep ((x # hd ps) # tl ps) = x # join_with sep ps"
  by (cases ps; cases "tl ps") auto

lemma join_split [rust_str]: "join_with [c] (split_on c s) = s"
  by (induction s) (auto simp: join_with_Cons join_with_hd_Cons)

lemma split_on_parts: "p \<in> set (split_on c s) \<Longrightarrow> c \<notin> set p"
proof (induction s arbitrary: p)
  case (Cons x xs)
  then show ?case
    by (cases "split_on c xs") (auto split: if_splits)
qed simp

lemma split_on_free: "c \<notin> set s \<Longrightarrow> split_on c s = [s]"
  by (induction s) auto

lemma split_on_append: "c \<notin> set p \<Longrightarrow> split_on c (p @ c # s) = p # split_on c s"
  by (induction p) auto

lemma split_join [rust_str]:
  "ps \<noteq> [] \<Longrightarrow> (\<And>p. p \<in> set ps \<Longrightarrow> c \<notin> set p) \<Longrightarrow> split_on c (join_with [c] ps) = ps"
proof (induction ps)
  case (Cons p ps)
  then show ?case
    by (cases "ps = []") (auto simp: join_with_Cons split_on_append split_on_free)
qed simp

lemma split_once_SomeD: "split_once c s = Some (a, b) \<Longrightarrow> s = a @ c # b \<and> c \<notin> set a"
  by (induction s arbitrary: a) (auto split: if_splits)

lemma split_once_NoneD: "split_once c s = None \<longleftrightarrow> c \<notin> set s"
  by (induction s) auto

lemma split_once_append [rust_str]: "c \<notin> set a \<Longrightarrow> split_once c (a @ c # b) = Some (a, b)"
  by (induction a) auto

lemma rsplit_once_SomeD: "rsplit_once c s = Some (a, b) \<Longrightarrow> s = a @ c # b \<and> c \<notin> set b"
proof -
  assume "rsplit_once c s = Some (a, b)"
  then have "split_once c (rev s) = Some (rev b, rev a)"
    by (auto simp: rsplit_once_def)
  from split_once_SomeD [OF this] show ?thesis
    by (auto simp: rev_swap)
qed

lemma rsplit_once_append [rust_str]: "c \<notin> set b \<Longrightarrow> rsplit_once c (a @ c # b) = Some (a, b)"
  using split_once_append [of c "rev b" "rev a"] by (simp add: rsplit_once_def)

lemma rsplit_once_NoneD: "rsplit_once c s = None \<longleftrightarrow> c \<notin> set s"
  by (simp add: rsplit_once_def split_once_NoneD)

lemma strip_prefix_SomeD: "strip_prefix p s = Some r \<longleftrightarrow> s = p @ r"
  by (induction p s rule: strip_prefix.induct) auto

lemma strip_prefix_append [simp]: "strip_prefix p (p @ r) = Some r"
  by (simp add: strip_prefix_SomeD)

lemma starts_with_iff: "starts_with p s \<longleftrightarrow> (\<exists>r. s = p @ r)"
  by (auto simp: starts_with_def strip_prefix_SomeD)

lemma strip_suffix_SomeD: "strip_suffix p s = Some r \<longleftrightarrow> s = r @ p"
proof -
  have "strip_suffix p s = Some r \<longleftrightarrow> strip_prefix (rev p) (rev s) = Some (rev r)"
    by (auto simp: strip_suffix_def)
  also have "\<dots> \<longleftrightarrow> rev s = rev (r @ p)"
    by (simp add: strip_prefix_SomeD)
  also have "\<dots> \<longleftrightarrow> s = r @ p"
    by (rule rev_is_rev_conv)
  finally show ?thesis .
qed

lemma ends_with_iff: "ends_with p s \<longleftrightarrow> (\<exists>r. s = r @ p)"
  by (auto simp: ends_with_def strip_suffix_SomeD)

section \<open>Unicode white space\<close>

text \<open>
  The UTF-8 forms of the characters with the property \<open>White_Space\<close>, which
  \<open>char::is_whitespace\<close> and \<open>str::trim_start\<close> use; a string is searched for them byte by
  byte, which is exact because UTF-8 is self-synchronizing.
\<close>

definition whitespace_chars :: "string list" where
  "whitespace_chars =
     [[CHR 0x09], [CHR 0x0A], [CHR 0x0B], [CHR 0x0C], [CHR 0x0D], [CHR 0x20],
      [CHR 0xC2, CHR 0x85], [CHR 0xC2, CHR 0xA0], [CHR 0xE1, CHR 0x9A, CHR 0x80],
      [CHR 0xE2, CHR 0x80, CHR 0x80], [CHR 0xE2, CHR 0x80, CHR 0x81], [CHR 0xE2, CHR 0x80, CHR 0x82],
      [CHR 0xE2, CHR 0x80, CHR 0x83], [CHR 0xE2, CHR 0x80, CHR 0x84], [CHR 0xE2, CHR 0x80, CHR 0x85],
      [CHR 0xE2, CHR 0x80, CHR 0x86], [CHR 0xE2, CHR 0x80, CHR 0x87], [CHR 0xE2, CHR 0x80, CHR 0x88],
      [CHR 0xE2, CHR 0x80, CHR 0x89], [CHR 0xE2, CHR 0x80, CHR 0x8A], [CHR 0xE2, CHR 0x80, CHR 0xA8],
      [CHR 0xE2, CHR 0x80, CHR 0xA9], [CHR 0xE2, CHR 0x80, CHR 0xAF], [CHR 0xE2, CHR 0x81, CHR 0x9F],
      [CHR 0xE3, CHR 0x80, CHR 0x80]]"

fun strip_any :: "string list \<Rightarrow> string \<Rightarrow> string option" where
  "strip_any [] s = None"
| "strip_any (w # ws) s = (case strip_prefix w s of Some r \<Rightarrow> Some r | None \<Rightarrow> strip_any ws s)"

lemma strip_any_SomeD: "strip_any ws s = Some r \<Longrightarrow> \<exists>w\<in>set ws. s = w @ r"
  by (induction ws) (auto simp: strip_prefix_SomeD split: option.splits)

lemma strip_ws_shorter: "strip_any whitespace_chars s = Some r \<Longrightarrow> length r < length s"
  by (drule strip_any_SomeD) (auto simp: whitespace_chars_def)

function trim_start :: "string \<Rightarrow> string" where
  "trim_start s = (case strip_any whitespace_chars s of None \<Rightarrow> s | Some r \<Rightarrow> trim_start r)"
  by auto
termination
  by (relation "measure length") (auto dest: strip_ws_shorter)

declare trim_start.simps [simp del]

fun contains :: "'a list \<Rightarrow> 'a list \<Rightarrow> bool" where
  "contains p [] = (p = [])"
| "contains p (x # xs) = (starts_with p (x # xs) \<or> contains p xs)"

definition has_whitespace :: "string \<Rightarrow> bool" where
  "has_whitespace s = list_ex (\<lambda>w. contains w s) whitespace_chars"

text \<open>\<open>str::lines\<close>: no last empty line, and no carriage return at the end of a line.\<close>

definition lines :: "string \<Rightarrow> string list" where
  "lines s =
     (let ls = split_on CHR 0x0A s;
          ls = (if last ls = [] then butlast ls else ls)
      in map (\<lambda>l. case strip_suffix [CHR 0x0D] l of Some r \<Rightarrow> r | None \<Rightarrow> l) ls)"

section \<open>Decimal integers\<close>

text \<open>
  A \<open>u64\<close> that is only parsed, printed and compared is a \<^typ>\<open>nat\<close>; the parser keeps it
  below \<open>2 ^ 64\<close>. \<open>str::parse::<u64>\<close> accepts one leading \<open>+\<close>, then one or more digits,
  and fails on overflow.
\<close>

definition dec_val :: "string \<Rightarrow> nat" where
  "dec_val s = foldl (\<lambda>n c. 10 * n + (byte c - 48)) 0 s"

definition u64_bound :: nat where
  "u64_bound = 2 ^ 64"

definition parse_u64 :: "string \<Rightarrow> nat option" where
  "parse_u64 s =
     (let d = (case s of [] \<Rightarrow> [] | c # r \<Rightarrow> if c = CHR ''+'' then r else s)
      in if d \<noteq> [] \<and> list_all is_ascii_digit d \<and> dec_val d < u64_bound
         then Some (dec_val d) else None)"

definition digit_char :: "nat \<Rightarrow> char" where
  "digit_char n = char_of (48 + n)"

fun show_nat :: "nat \<Rightarrow> string" where
  "show_nat n = (if n < 10 then [digit_char n] else show_nat (n div 10) @ [digit_char (n mod 10)])"

declare show_nat.simps [simp del]

text \<open>Digits without a leading zero, the canonical form of a decimal number.\<close>

definition canonical_dec :: "string \<Rightarrow> bool" where
  "canonical_dec s \<longleftrightarrow>
     s \<noteq> [] \<and> list_all is_ascii_digit s \<and> (s = ''0'' \<or> hd s \<noteq> CHR ''0'')"

lemma dec_val_Nil [simp]: "dec_val [] = 0"
  by (simp add: dec_val_def)

lemma dec_val_snoc [simp]: "dec_val (s @ [c]) = 10 * dec_val s + (byte c - 48)"
  by (simp add: dec_val_def)

lemma byte_digit_char: "n < 10 \<Longrightarrow> byte (digit_char n) = 48 + n"
  by (simp add: digit_char_def byte_char_of)

lemma is_ascii_digit_digit_char: "n < 10 \<Longrightarrow> is_ascii_digit (digit_char n)"
  by (simp add: is_ascii_digit_def byte_digit_char)

lemma digit_char_byte: "is_ascii_digit c \<Longrightarrow> digit_char (byte c - 48) = c"
  by (auto simp: is_ascii_digit_def digit_char_def byte_def)

lemma dec_val_show_nat [rust_str]: "dec_val (show_nat n) = n"
proof (induction n rule: show_nat.induct)
  case (1 n)
  then show ?case
    by (cases "n < 10")
      (auto simp: show_nat.simps [of n] byte_digit_char dec_val_def)
qed

lemma show_nat_inject: "show_nat m = show_nat n \<longleftrightarrow> m = n"
  using dec_val_show_nat by metis

lemma show_nat_digits: "list_all is_ascii_digit (show_nat n)"
proof (induction n rule: show_nat.induct)
  case (1 n)
  then show ?case
    by (cases "n < 10") (auto simp: show_nat.simps [of n] is_ascii_digit_digit_char)
qed

lemma show_nat_not_Nil [simp]: "show_nat n \<noteq> []"
  by (subst show_nat.simps) simp

lemma digit_char_zero_iff: "n < 10 \<Longrightarrow> digit_char n = CHR ''0'' \<longleftrightarrow> n = 0"
  using byte_digit_char [of n] byte_inject [of "digit_char n" "CHR ''0''"] by (simp add: byte_def)

lemma hd_show_nat: "0 < n \<Longrightarrow> hd (show_nat n) \<noteq> CHR ''0''"
proof (induction n rule: show_nat.induct)
  case (1 n)
  then show ?case
    by (cases "n < 10") (auto simp: show_nat.simps [of n] digit_char_zero_iff)
qed

lemma show_nat_0: "show_nat 0 = ''0''"
  by (simp add: show_nat.simps digit_char_zero_iff)

lemma canonical_show_nat: "canonical_dec (show_nat n)"
  using hd_show_nat [of n] show_nat_digits [of n]
  by (cases "n = 0") (auto simp: canonical_dec_def show_nat_0)

lemma canonical_dec_butlast:
  assumes "canonical_dec (s @ [c])" "s \<noteq> []"
  shows "canonical_dec s \<and> 0 < dec_val s"
  using assms
proof (induction s arbitrary: c rule: rev_induct)
  case (snoc d s)
  show ?case
  proof (cases "s = []")
    case True
    with snoc.prems have "is_ascii_digit d" "d \<noteq> CHR ''0''"
      by (auto simp: canonical_dec_def)
    then have "48 \<le> byte d" "byte d \<noteq> 48"
      using byte_inject [of d "CHR ''0''"] by (auto simp: is_ascii_digit_def byte_def)
    with True snoc.prems show ?thesis
      by (auto simp: canonical_dec_def dec_val_def)
  next
    case False
    with snoc.prems have "canonical_dec (s @ [d])"
      by (auto simp: canonical_dec_def)
    with snoc.IH False have "0 < dec_val s" by blast
    with \<open>canonical_dec (s @ [d])\<close> show ?thesis by simp
  qed
qed simp

lemma show_nat_dec_val [rust_str]: "canonical_dec s \<Longrightarrow> show_nat (dec_val s) = s"
proof (induction s rule: rev_induct)
  case Nil
  then show ?case by (simp add: canonical_dec_def)
next
  case (snoc c s)
  have c: "is_ascii_digit c" "byte c - 48 < 10"
    using snoc.prems by (auto simp: canonical_dec_def is_ascii_digit_def)
  show ?case
  proof (cases "s = []")
    case True
    with c show ?thesis
      by (subst show_nat.simps) (simp add: dec_val_def digit_char_byte)
  next
    case False
    with snoc canonical_dec_butlast have "show_nat (dec_val s) = s" "0 < dec_val s"
      by blast+
    with c show ?thesis
      by (subst show_nat.simps) (simp add: digit_char_byte)
  qed
qed

lemma parse_u64_digits:
  assumes "s \<noteq> []" "list_all is_ascii_digit s"
  shows "parse_u64 s = (if dec_val s < u64_bound then Some (dec_val s) else None)"
proof -
  have "hd s \<noteq> CHR ''+''"
    using assms by (cases s) (auto simp: is_ascii_digit_def byte_def)
  with assms show ?thesis
    by (cases s) (auto simp: parse_u64_def)
qed

lemma parse_u64_canonical:
  "canonical_dec s \<Longrightarrow> parse_u64 s = (if dec_val s < u64_bound then Some (dec_val s) else None)"
  by (simp add: canonical_dec_def parse_u64_digits)

lemma parse_u64_show_nat: "n < u64_bound \<Longrightarrow> parse_u64 (show_nat n) = Some n"
  by (simp add: parse_u64_canonical canonical_show_nat dec_val_show_nat)

lemma parse_u64_bound: "parse_u64 s = Some n \<Longrightarrow> n < u64_bound"
  by (auto simp: parse_u64_def Let_def split: if_splits)

lemma parse_u64_not_Nil: "parse_u64 s = Some n \<Longrightarrow> s \<noteq> []"
  by (auto simp: parse_u64_def)

text \<open>Evaluation on literals.\<close>

lemmas str_eval =
  ascii_defs dec_val_def u64_bound_def parse_u64_def to_ascii_lowercase_def
  starts_with_def strip_suffix_def ends_with_def rsplit_once_def

section \<open>Orderings\<close>

datatype ordering = Less | Equal | Greater

definition then_with :: "ordering \<Rightarrow> ordering \<Rightarrow> ordering" where
  "then_with a b = (if a = Equal then b else a)"

fun reverse_ord :: "ordering \<Rightarrow> ordering" where
  "reverse_ord Less = Greater"
| "reverse_ord Equal = Equal"
| "reverse_ord Greater = Less"

text \<open>\<open>Ord::cmp\<close> of a type whose order is the library's: integers and strings.\<close>

definition cmp_of :: "'a::linorder \<Rightarrow> 'a \<Rightarrow> ordering" where
  "cmp_of a b = (if a < b then Less else if a = b then Equal else Greater)"

text \<open>\<open>slice::sort_by\<close>, a stable sort.\<close>

fun insert_by :: "('a \<Rightarrow> 'a \<Rightarrow> ordering) \<Rightarrow> 'a \<Rightarrow> 'a list \<Rightarrow> 'a list" where
  "insert_by cmp x [] = [x]"
| "insert_by cmp x (y # ys) =
     (if cmp x y = Greater then y # insert_by cmp x ys else x # y # ys)"

definition sort_by :: "('a \<Rightarrow> 'a \<Rightarrow> ordering) \<Rightarrow> 'a list \<Rightarrow> 'a list" where
  "sort_by cmp xs = foldr (insert_by cmp) xs []"

lemma cmp_of_simps [simp]:
  "cmp_of a b = Less \<longleftrightarrow> a < b"
  "cmp_of a b = Equal \<longleftrightarrow> a = b"
  "cmp_of a b = Greater \<longleftrightarrow> b < a"
  by (auto simp: cmp_of_def)

lemma cmp_of_eval [simp]:
  "cmp_of a a = Equal" "a < b \<Longrightarrow> cmp_of a b = Less" "b < a \<Longrightarrow> cmp_of a b = Greater"
  by (auto simp: cmp_of_def)

lemma then_with_simps [simp]:
  "then_with Equal b = b" "then_with Less b = Less" "then_with Greater b = Greater"
  "then_with a b = Equal \<longleftrightarrow> a = Equal \<and> b = Equal"
  by (auto simp: then_with_def)

lemma reverse_then_with [simp]:
  "reverse_ord (then_with a b) = then_with (reverse_ord a) (reverse_ord b)"
  by (cases a; cases b) (auto simp: then_with_def)

lemma reverse_reverse [simp]: "reverse_ord (reverse_ord a) = a"
  by (cases a) auto

lemma reverse_ord_iff [simp]:
  "reverse_ord a = Less \<longleftrightarrow> a = Greater"
  "reverse_ord a = Greater \<longleftrightarrow> a = Less"
  "reverse_ord a = Equal \<longleftrightarrow> a = Equal"
  "Less = reverse_ord a \<longleftrightarrow> a = Greater"
  "Greater = reverse_ord a \<longleftrightarrow> a = Less"
  "Equal = reverse_ord a \<longleftrightarrow> a = Equal"
  by (cases a; simp)+

lemma reverse_cmp_of [simp]: "reverse_ord (cmp_of a b) = cmp_of b a"
  by (auto simp: cmp_of_def)

lemma mset_insert_by [simp]: "mset (insert_by cmp x xs) = add_mset x (mset xs)"
  by (induction xs) auto

lemma mset_sort_by [simp]: "mset (sort_by cmp xs) = mset xs"
  by (induction xs) (auto simp: sort_by_def)

lemma set_sort_by [simp]: "set (sort_by cmp xs) = set xs"
  using mset_sort_by [of cmp xs] by (metis set_mset_mset)

lemma length_sort_by [simp]: "length (sort_by cmp xs) = length xs"
  using mset_sort_by [of cmp xs] by (metis size_mset)

text \<open>
  The contract of \<open>Ord::cmp\<close>: a total preorder. What sorting with such a comparison promises
  is proved here once, for every comparison of the development.
\<close>

locale total_cmp =
  fixes cmp :: "'a \<Rightarrow> 'a \<Rightarrow> ordering"
  assumes cmp_flip: "cmp y x = reverse_ord (cmp x y)"
    and cmp_trans: "cmp x y \<noteq> Greater \<Longrightarrow> cmp y z \<noteq> Greater \<Longrightarrow> cmp x z \<noteq> Greater"
begin

lemma cmp_refl: "cmp x x = Equal"
  using cmp_flip [of x x] by (cases "cmp x x") auto

lemma cmp_Less_trans: "cmp x y = Less \<Longrightarrow> cmp y z \<noteq> Greater \<Longrightarrow> cmp x z = Less"
proof -
  assume xy: "cmp x y = Less" and yz: "cmp y z \<noteq> Greater"
  have "cmp x z \<noteq> Greater"
    using cmp_trans [of x y z] xy yz by simp
  moreover have "cmp x z \<noteq> Equal"
  proof
    assume "cmp x z = Equal"
    then have "cmp z x \<noteq> Greater" using cmp_flip [of z x] by simp
    with yz have "cmp y x \<noteq> Greater" by (rule cmp_trans)
    with xy show False using cmp_flip [of y x] by simp
  qed
  ultimately show ?thesis by (cases "cmp x z") auto
qed

lemma cmp_Equal_cong: "cmp x y = Equal \<Longrightarrow> cmp x z = cmp y z"
proof -
  assume e: "cmp x y = Equal"
  then have e': "cmp y x = Equal" using cmp_flip [of y x] by simp
  have "cmp x z \<noteq> Greater \<longleftrightarrow> cmp y z \<noteq> Greater"
    using cmp_trans [of x y z] cmp_trans [of y x z] e e' by auto
  moreover have "cmp z x \<noteq> Greater \<longleftrightarrow> cmp z y \<noteq> Greater"
    using cmp_trans [of z x y] cmp_trans [of z y x] e e' by auto
  ultimately show ?thesis
    using cmp_flip [of z x] cmp_flip [of z y] by (cases "cmp x z"; cases "cmp y z") auto
qed

lemma cmp_total: "cmp x y \<noteq> Greater \<or> cmp y x \<noteq> Greater"
  using cmp_flip [of x y] by (cases "cmp x y") auto

lemma sorted_insert_by:
  "sorted_wrt (\<lambda>a b. cmp a b \<noteq> Greater) xs \<Longrightarrow>
   sorted_wrt (\<lambda>a b. cmp a b \<noteq> Greater) (insert_by cmp x xs)"
proof (induction xs)
  case (Cons y ys)
  have set: "set (insert_by cmp x ys) = insert x (set ys)"
    using mset_insert_by [of cmp x ys] by (metis set_mset_add_mset_insert set_mset_mset)
  show ?case
  proof (cases "cmp x y = Greater")
    case True
    then have "cmp y x \<noteq> Greater" using cmp_flip [of y x] by simp
    with True Cons set show ?thesis by auto
  next
    case False
    with Cons.prems cmp_trans show ?thesis by auto
  qed
qed simp

lemma sorted_sort_by: "sorted_wrt (\<lambda>a b. cmp a b \<noteq> Greater) (sort_by cmp xs)"
  by (induction xs) (auto simp: sort_by_def sorted_insert_by)

lemma insert_by_sorted:
  assumes "\<And>y. y \<in> set ys \<Longrightarrow> cmp x y \<noteq> Greater"
  shows "insert_by cmp x ys = x # ys"
  using assms by (cases ys) auto

lemma sort_by_sorted:
  "sorted_wrt (\<lambda>a b. cmp a b \<noteq> Greater) xs \<Longrightarrow> sort_by cmp xs = xs"
proof (induction xs)
  case (Cons x xs)
  then show ?case
    using insert_by_sorted [of xs x] by (simp add: sort_by_def)
qed (simp add: sort_by_def)

end

text \<open>A comparison that is \<open>Equal\<close> only on equal values, as \<open>Ord\<close> with \<open>Eq\<close> asks.\<close>

locale linear_cmp = total_cmp +
  assumes cmp_Equal_eq: "cmp x y = Equal \<Longrightarrow> x = y"
begin

lemma cmp_antisym: "cmp x y \<noteq> Greater \<Longrightarrow> cmp y x \<noteq> Greater \<Longrightarrow> x = y"
  using cmp_flip [of y x] cmp_Equal_eq [of x y] by (cases "cmp x y") auto

lemma sorted_wrt_unique:
  assumes "mset xs = mset ys"
    "sorted_wrt (\<lambda>a b. cmp a b \<noteq> Greater) xs" "sorted_wrt (\<lambda>a b. cmp a b \<noteq> Greater) ys"
  shows "xs = ys"
  using assms
proof (induction xs arbitrary: ys)
  case (Cons x xs)
  from Cons.prems(1) have eq_set: "insert x (set xs) = set ys"
    by (metis list.simps(15) set_mset_mset)
  then obtain y zs where ys: "ys = y # zs"
    by (cases ys) auto
  have "x = y"
  proof (rule ccontr)
    assume "x \<noteq> y"
    with eq_set ys have "y \<in> set xs" "x \<in> set zs" by auto
    with Cons.prems ys have "cmp x y \<noteq> Greater" "cmp y x \<noteq> Greater" by auto
    with \<open>x \<noteq> y\<close> show False using cmp_antisym by blast
  qed
  with Cons ys show ?case by auto
qed simp

lemma sort_by_unique: "mset xs = mset ys \<Longrightarrow> sort_by cmp xs = sort_by cmp ys"
  by (rule sorted_wrt_unique) (auto simp: sorted_sort_by)

end

interpretation linorder_cmp: linear_cmp "cmp_of :: 'a::linorder \<Rightarrow> 'a \<Rightarrow> ordering"
  by unfold_locales auto

section \<open>Lists\<close>

lemma list_all2_right: "list_all2 P xs ys \<Longrightarrow> y \<in> set ys \<Longrightarrow> \<exists>x\<in>set xs. P x y"
  by (induction rule: list_all2_induct) auto

lemma list_all2_left: "list_all2 P xs ys \<Longrightarrow> x \<in> set xs \<Longrightarrow> \<exists>y\<in>set ys. P x y"
  by (induction rule: list_all2_induct) auto

lemma list_all_set: "list_all P xs \<longleftrightarrow> (\<forall>x\<in>set xs. P x)"
  by (rule list_all_iff)

text \<open>\<open>Vec::contains\<close> before \<open>push\<close>: lists without duplicates that only grow at the end.\<close>

definition push_new :: "'a \<Rightarrow> 'a list \<Rightarrow> 'a list" where
  "push_new x xs = (if x \<in> set xs then xs else xs @ [x])"

lemma set_push_new [simp]: "set (push_new x xs) = insert x (set xs)"
  by (auto simp: push_new_def)

lemma distinct_push_new [simp]: "distinct xs \<Longrightarrow> distinct (push_new x xs)"
  by (auto simp: push_new_def)

end
