(* ===== verification/Pome_Version.thy ===== *)
theory Pome_Version
  imports Emela_Prelude "HOL-Library.Product_Lexorder"
begin

text \<open>
  Versions of Pomes, \<^verbatim>\<open>crates/emela-pome/src/version.rs\<close>: semver tags with a leading
  \<open>v\<close>. The theory models parsing, the semver precedence and the order in which
  \<open>@latest\<close> tries versions, and shows that parsing accepts exactly the canonical tags (so a
  tag and its fields determine each other), that precedence is a total preorder that agrees
  with equality on parsed versions, and that the textual comparison of numeric identifiers is
  the numeric one.
\<close>

section \<open>Data\<close>

record version =
  major :: nat
  minor :: nat
  patch :: nat
  prerelease :: "string list"
  raw :: string

datatype version_error = VersionError string

section \<open>Operations\<close>

text \<open>Digits without a leading zero (\<open>0\<close> itself is fine).\<close>

definition is_numeric :: "string \<Rightarrow> bool" where
  "is_numeric s \<longleftrightarrow>
     s \<noteq> [] \<and> list_all is_ascii_digit s \<and> (s = ''0'' \<or> \<not> starts_with ''0'' s)"

text \<open>A prerelease identifier with at least one non-digit.\<close>

definition is_alphanumeric_id :: "string \<Rightarrow> bool" where
  "is_alphanumeric_id s \<longleftrightarrow>
     s \<noteq> [] \<and> list_all (\<lambda>b. is_ascii_alphanumeric b \<or> b = CHR ''-'') s
     \<and> list_ex (\<lambda>b. \<not> is_ascii_digit b) s"

definition version_num :: "string \<Rightarrow> nat option" where
  "version_num s = (if is_numeric s then parse_u64 s else None)"

definition version_prerelease :: "string option \<Rightarrow> string list option" where
  "version_prerelease pre =
     (case pre of
        Some p \<Rightarrow>
          (let ids = split_on CHR ''.'' p
           in if list_all (\<lambda>i. is_numeric i \<or> is_alphanumeric_id i) ids then Some ids else None)
      | None \<Rightarrow> Some [])"

definition version_parse :: "string \<Rightarrow> version_error + version" where
  "version_parse input =
     (case strip_prefix ''v'' input of
        None \<Rightarrow> Inl (VersionError input)
      | Some rest \<Rightarrow>
          (let (core, pre) =
                 (case split_once CHR ''-'' rest of
                    Some (core, pre) \<Rightarrow> (core, Some pre)
                  | None \<Rightarrow> (rest, None))
           in case split_on CHR ''.'' core of
                [ma, mi, pa] \<Rightarrow>
                  (case version_prerelease pre of
                     None \<Rightarrow> Inl (VersionError input)
                   | Some ids \<Rightarrow>
                       (case (version_num ma, version_num mi, version_num pa) of
                          (Some x, Some y, Some z) \<Rightarrow>
                            Inr \<lparr>major = x, minor = y, patch = z, prerelease = ids, raw = input\<rparr>
                        | _ \<Rightarrow> Inl (VersionError input)))
              | _ \<Rightarrow> Inl (VersionError input)))"

definition without_v :: "version \<Rightarrow> string" where
  "without_v v = drop 1 (raw v)"

definition is_prerelease :: "version \<Rightarrow> bool" where
  "is_prerelease v \<longleftrightarrow> prerelease v \<noteq> []"

definition compare_id :: "string \<Rightarrow> string \<Rightarrow> ordering" where
  "compare_id x y =
     (case (is_numeric x, is_numeric y) of
        (True, True) \<Rightarrow> then_with (cmp_of (length x) (length y)) (cmp_of x y)
      | (True, False) \<Rightarrow> Less
      | (False, True) \<Rightarrow> Greater
      | (False, False) \<Rightarrow> cmp_of x y)"

text \<open>The loop over the zipped identifiers: the first difference, if any.\<close>

fun compare_ids :: "string list \<Rightarrow> string list \<Rightarrow> ordering" where
  "compare_ids (x # xs) (y # ys) =
     (let ord = compare_id x y in if ord \<noteq> Equal then ord else compare_ids xs ys)"
| "compare_ids _ _ = Equal"

definition compare_prerelease :: "string list \<Rightarrow> string list \<Rightarrow> ordering" where
  "compare_prerelease a b =
     (case (a = [], b = []) of
        (True, True) \<Rightarrow> Equal
      | (True, False) \<Rightarrow> Greater
      | (False, True) \<Rightarrow> Less
      | (False, False) \<Rightarrow>
          (let ord = compare_ids a b
           in if ord \<noteq> Equal then ord else cmp_of (length a) (length b)))"

definition version_cmp :: "version \<Rightarrow> version \<Rightarrow> ordering" where
  "version_cmp a b =
     then_with (cmp_of (major a, minor a, patch a) (major b, minor b, patch b))
       (compare_prerelease (prerelease a) (prerelease b))"

definition latest_candidates :: "version list \<Rightarrow> version list" where
  "latest_candidates versions =
     (let desc = sort_by (\<lambda>a b. version_cmp b a) versions;
          pre = filter is_prerelease desc;
          rel = filter (\<lambda>v. \<not> is_prerelease v) desc
      in rel @ pre)"

section \<open>The canonical text of a version\<close>

definition version_text :: "nat \<Rightarrow> nat \<Rightarrow> nat \<Rightarrow> string list \<Rightarrow> string" where
  "version_text x y z ids =
     ''v'' @ join_with ''.'' [show_nat x, show_nat y, show_nat z]
       @ (if ids = [] then [] else ''-'' @ join_with ''.'' ids)"

definition version_wf :: "version \<Rightarrow> bool" where
  "version_wf v \<longleftrightarrow>
     major v < u64_bound \<and> minor v < u64_bound \<and> patch v < u64_bound
     \<and> list_all (\<lambda>i. is_numeric i \<or> is_alphanumeric_id i) (prerelease v)
     \<and> raw v = version_text (major v) (minor v) (patch v) (prerelease v)"

lemma is_numeric_canonical: "is_numeric s \<longleftrightarrow> canonical_dec s"
  by (cases s) (auto simp: is_numeric_def canonical_dec_def starts_with_def)

lemma version_num_SomeD: "version_num s = Some n \<Longrightarrow> s = show_nat n \<and> n < u64_bound"
  by (auto simp: version_num_def is_numeric_canonical parse_u64_canonical show_nat_dec_val
      split: if_splits)

lemma version_num_show: "n < u64_bound \<Longrightarrow> version_num (show_nat n) = Some n"
  by (simp add: version_num_def is_numeric_canonical canonical_show_nat parse_u64_show_nat)

lemma show_nat_no_sep [simp]: "CHR ''.'' \<notin> set (show_nat n)" "CHR ''-'' \<notin> set (show_nat n)"
  using show_nat_digits [of n] by (auto simp: list_all_iff is_ascii_digit_def byte_def)

lemma id_no_dot: "is_numeric i \<or> is_alphanumeric_id i \<Longrightarrow> CHR ''.'' \<notin> set i"
  by (auto simp: is_numeric_def is_alphanumeric_id_def list_all_iff ascii_defs)

lemma version_parse_wf:
  assumes "version_parse s = Inr v"
  shows "version_wf v \<and> raw v = s"
proof -
  from assms obtain rest where rest: "s = ''v'' @ rest"
    by (auto simp: version_parse_def strip_prefix_SomeD split: option.splits)
  obtain core pre where cp: "(case split_once CHR ''-'' rest of
        Some (core, pre) \<Rightarrow> (core, Some pre) | None \<Rightarrow> (rest, None)) = (core, pre)"
    by (cases "case split_once CHR ''-'' rest of
        Some (core, pre) \<Rightarrow> (core, Some pre) | None \<Rightarrow> (rest, None)") auto
  from assms rest cp obtain ma mi pa ids x y z where
    parts: "split_on CHR ''.'' core = [ma, mi, pa]" and ids: "version_prerelease pre = Some ids" and
    nums: "version_num ma = Some x" "version_num mi = Some y" "version_num pa = Some z" and
    v: "v = \<lparr>major = x, minor = y, patch = z, prerelease = ids, raw = s\<rparr>"
    by (auto simp: version_parse_def split: list.splits option.splits)
  have core: "core = join_with ''.'' [show_nat x, show_nat y, show_nat z]"
    using join_split [of "CHR ''.''" core] parts nums [THEN version_num_SomeD] by simp
  have rest': "rest = core @ (if ids = [] then [] else ''-'' @ join_with ''.'' ids)"
    using cp ids join_split [of "CHR ''.''" "the pre"] split_on_not_Nil [of "CHR ''.''" "the pre"]
    by (auto simp: version_prerelease_def Let_def dest: split_once_SomeD
        split: option.splits if_splits)
  have "list_all (\<lambda>i. is_numeric i \<or> is_alphanumeric_id i) ids"
    using ids by (auto simp: version_prerelease_def Let_def split: option.splits if_splits)
  then show ?thesis
    using v core rest rest' nums [THEN version_num_SomeD]
    by (auto simp: version_wf_def version_text_def)
qed

lemma split_once_core:
  "split_once CHR ''-'' (join_with ''.'' [show_nat x, show_nat y, show_nat z]
     @ (if ids = [] then [] else ''-'' @ t)) =
   (if ids = [] then None else Some (join_with ''.'' [show_nat x, show_nat y, show_nat z], t))"
  using split_once_append [of "CHR ''-''" "join_with ''.'' [show_nat x, show_nat y, show_nat z]" t]
  by (auto simp: split_once_NoneD)

lemma split_on_core:
  "split_on CHR ''.'' (join_with ''.'' [show_nat x, show_nat y, show_nat z])
     = [show_nat x, show_nat y, show_nat z]"
  by (rule split_join) auto

lemma version_prerelease_join:
  assumes "list_all (\<lambda>i. is_numeric i \<or> is_alphanumeric_id i) ids" "ids \<noteq> []"
  shows "version_prerelease (Some (join_with ''.'' ids)) = Some ids"
proof -
  have "split_on CHR ''.'' (join_with ''.'' ids) = ids"
    using assms id_no_dot by (intro split_join) (auto simp: list_all_iff)
  with assms show ?thesis by (simp add: version_prerelease_def)
qed

lemma version_parse_text:
  assumes "version_wf v"
  shows "version_parse (raw v) = Inr v"
proof -
  let ?core = "join_with ''.'' [show_nat (major v), show_nat (minor v), show_nat (patch v)]"
  let ?pre = "if prerelease v = [] then None else Some (join_with ''.'' (prerelease v))"
  have raw: "raw v = ''v'' @ ?core
      @ (if prerelease v = [] then [] else ''-'' @ join_with ''.'' (prerelease v))"
    using assms by (simp add: version_wf_def version_text_def)
  have pre: "version_prerelease ?pre = Some (prerelease v)"
    using assms version_prerelease_join [of "prerelease v"]
    by (auto simp: version_wf_def version_prerelease_def)
  have cp: "(case split_once CHR ''-'' (?core
        @ (if prerelease v = [] then [] else ''-'' @ join_with ''.'' (prerelease v))) of
      Some (core, pre) \<Rightarrow> (core, Some pre)
    | None \<Rightarrow> (?core @ (if prerelease v = [] then [] else ''-'' @ join_with ''.'' (prerelease v)), None))
      = (?core, ?pre)"
    unfolding split_once_core by simp
  have nums: "version_num (show_nat (major v)) = Some (major v)"
    "version_num (show_nat (minor v)) = Some (minor v)"
    "version_num (show_nat (patch v)) = Some (patch v)"
    using assms by (auto simp: version_wf_def version_num_show)
  have "version_parse (raw v) = Inr \<lparr>major = major v, minor = minor v, patch = patch v,
      prerelease = prerelease v, raw = raw v\<rparr>"
    unfolding version_parse_def raw strip_prefix_append option.case cp
    by (simp add: split_on_core pre nums del: join_with.simps)
  then show ?thesis by simp
qed

text \<open>
  C30: parsing accepts exactly the canonical tags, and a tag and the parsed fields determine each
  other.
\<close>

theorem version_parse_exact: "version_parse s = Inr v \<longleftrightarrow> version_wf v \<and> raw v = s"
  using version_parse_wf version_parse_text by blast

lemma version_wf_raw_inject:
  assumes "version_wf a" "version_wf b"
    and "major a = major b" "minor a = minor b" "patch a = patch b" "prerelease a = prerelease b"
  shows "a = b"
  using assms by (auto simp: version_wf_def)

section \<open>Precedence\<close>

text \<open>
  Semver precedence is the order of a key: the three numbers, releases above prereleases, then
  the identifiers one by one (numeric ones first, by length and then by digits), a proper prefix
  below.
\<close>

definition id_key :: "string \<Rightarrow> nat \<times> nat \<times> string" where
  "id_key x = (if is_numeric x then (0, length x, x) else (1, 0, x))"

definition version_key ::
    "version \<Rightarrow> (nat \<times> nat \<times> nat) \<times> bool \<times> (nat \<times> nat \<times> string) list" where
  "version_key v =
     ((major v, minor v, patch v), prerelease v = [], map id_key (prerelease v))"

lemma cmp_of_Pair: "cmp_of (a, b) (c, d) = then_with (cmp_of a c) (cmp_of b d)"
  by (auto simp: cmp_of_def then_with_def)

lemma cmp_of_Cons: "cmp_of (x # xs) (y # ys) = then_with (cmp_of x y) (cmp_of xs ys)"
  by (auto simp: cmp_of_def then_with_def)

lemma cmp_of_Nil [simp]: "cmp_of [] (y # ys) = Less" "cmp_of (x # xs) [] = Greater"
  by auto

lemma id_key_inject [simp]: "id_key x = id_key y \<longleftrightarrow> x = y"
  by (auto simp: id_key_def)

lemma compare_id_key: "compare_id x y = cmp_of (id_key x) (id_key y)"
  by (auto simp: compare_id_def id_key_def cmp_of_Pair split: bool.splits)

lemma compare_ids_key:
  "(let ord = compare_ids a b in if ord \<noteq> Equal then ord else cmp_of (length a) (length b))
    = cmp_of (map id_key a) (map id_key b)"
proof (induction a b rule: compare_ids.induct)
  case (1 x xs y ys)
  then show ?case
    by (cases "compare_id x y = Equal")
      (auto simp: cmp_of_Cons compare_id_key Let_def then_with_def cmp_of_def [of "Suc _"]
        cmp_of_def [of "length _"])
qed (auto simp: Let_def cmp_of_def neq_Nil_conv)

lemma compare_prerelease_key:
  "compare_prerelease a b = cmp_of (a = [], map id_key a) (b = [], map id_key b)"
  by (auto simp: compare_prerelease_def compare_ids_key cmp_of_Pair split: bool.splits)

lemma version_cmp_key: "version_cmp a b = cmp_of (version_key a) (version_key b)"
  by (simp add: version_cmp_def version_key_def compare_prerelease_key cmp_of_Pair)

lemma map_id_key_inject: "map id_key a = map id_key b \<longleftrightarrow> a = b"
  by (rule inj_map_eq_map) (simp add: inj_on_def)

lemma version_cmp_Equal:
  "version_cmp a b = Equal \<longleftrightarrow>
     major a = major b \<and> minor a = minor b \<and> patch a = patch b \<and> prerelease a = prerelease b"
  by (auto simp: version_cmp_key version_key_def map_id_key_inject)

interpretation ver_cmp: total_cmp version_cmp
  by unfold_locales (auto simp: version_cmp_key)

interpretation ver_desc: total_cmp "\<lambda>a b. version_cmp b a"
  by unfold_locales (auto simp: version_cmp_key)

subsection \<open>Numeric identifiers compare as numbers\<close>

lemma dec_val_Cons: "dec_val (c # s) = (byte c - 48) * 10 ^ length s + dec_val s"
  by (induction s rule: rev_induct) (auto simp: dec_val_def algebra_simps)

lemma dec_val_bound: "list_all is_ascii_digit s \<Longrightarrow> dec_val s < 10 ^ length s"
proof (induction s rule: rev_induct)
  case (snoc c s)
  then have "dec_val s < 10 ^ length s" "byte c - 48 < 10"
    by (auto simp: is_ascii_digit_def)
  then show ?case by simp
qed simp

lemma canonical_dec_lower:
  assumes "canonical_dec s" "1 < length s"
  shows "10 ^ (length s - 1) \<le> dec_val s"
proof -
  obtain c r where s: "s = c # r" using assms by (cases s) auto
  with assms have "is_ascii_digit c" "c \<noteq> CHR ''0''"
    by (auto simp: canonical_dec_def)
  then have "1 \<le> byte c - 48"
    using byte_inject [of c "CHR ''0''"] by (auto simp: is_ascii_digit_def byte_def)
  then have "1 * 10 ^ length r \<le> (byte c - 48) * 10 ^ length r"
    by (rule mult_le_mono1)
  also have "\<dots> \<le> dec_val s" using s by (simp add: dec_val_Cons)
  finally show ?thesis using s by simp
qed

lemma dec_val_length_less:
  assumes "canonical_dec s" "canonical_dec t" "length s < length t"
  shows "dec_val s < dec_val t"
proof -
  have "dec_val s < 10 ^ length s" using assms(1) by (simp add: canonical_dec_def dec_val_bound)
  also have "(10::nat) ^ length s \<le> 10 ^ (length t - 1)"
    using assms(3) by (intro power_increasing) auto
  also have "\<dots> \<le> dec_val t"
  proof (rule canonical_dec_lower [OF assms(2)])
    have "s \<noteq> []" using assms(1) by (simp add: canonical_dec_def)
    then have "0 < length s" by simp
    with assms(3) show "1 < length t" by linarith
  qed
  finally show ?thesis .
qed

lemma dec_val_lex:
  assumes "length s = length t" "list_all is_ascii_digit s" "list_all is_ascii_digit t" "s < t"
  shows "dec_val s < dec_val t"
  using assms
proof (induction s t rule: list_induct2)
  case (Cons c s d t)
  have b: "dec_val s < 10 ^ length s" using Cons.prems by (simp add: dec_val_bound)
  show ?case
  proof (cases "c = d")
    case True
    with Cons show ?thesis by (simp add: dec_val_Cons)
  next
    case False
    with Cons.prems have "byte c < byte d"
      by (simp add: byte_def less_char_def)
    then have "Suc (byte c - 48) \<le> byte d - 48"
      using Cons.prems by (auto simp: is_ascii_digit_def)
    then have "Suc (byte c - 48) * 10 ^ length s \<le> (byte d - 48) * 10 ^ length t"
      using Cons.hyps by (simp del: mult_Suc)
    with b show ?thesis by (simp add: dec_val_Cons)
  qed
qed simp

lemma numeric_cmp_Less:
  assumes "canonical_dec s" "canonical_dec t"
    and "length s < length t \<or> length s = length t \<and> s < t"
  shows "dec_val s < dec_val t"
  using assms dec_val_length_less dec_val_lex by (auto simp: canonical_dec_def)

text \<open>
  comparing two numeric identifiers by length and then by their digits, which the code does
  so that identifiers of any size compare without overflow, is comparing the numbers.
\<close>

theorem compare_id_numeric:
  assumes "is_numeric x" "is_numeric y"
  shows "compare_id x y = cmp_of (dec_val x) (dec_val y)"
proof -
  have c: "canonical_dec x" "canonical_dec y"
    using assms by (simp_all add: is_numeric_canonical)
  consider "length x < length y \<or> length x = length y \<and> x < y" | "x = y"
    | "length y < length x \<or> length y = length x \<and> y < x"
    by (metis linorder_cases)
  then show ?thesis
  proof cases
    case 1
    with numeric_cmp_Less c assms show ?thesis
      by (auto simp: compare_id_def cmp_of_def then_with_def)
  next
    case 2
    with assms show ?thesis by (auto simp: compare_id_def cmp_of_def then_with_def)
  next
    case 3
    from numeric_cmp_Less [OF c(2,1) 3] 3 assms show ?thesis
      by (auto simp: compare_id_def cmp_of_def then_with_def)
  qed
qed

section \<open>The candidates of \<open>@latest\<close>\<close>

lemma latest_candidates_mset: "mset (latest_candidates vs) = mset vs"
proof -
  have "mset (filter (\<lambda>v. \<not> is_prerelease v) d) + mset (filter is_prerelease d) = mset d" for d
    by (metis add.commute mset_filter multiset_partition)
  then show ?thesis by (simp add: latest_candidates_def Let_def)
qed

lemma latest_candidates_sorted:
  "sorted_wrt (\<lambda>a b. is_prerelease b \<and> \<not> is_prerelease a
      \<or> is_prerelease a = is_prerelease b \<and> version_cmp b a \<noteq> Greater) (latest_candidates vs)"
proof -
  let ?d = "sort_by (\<lambda>a b. version_cmp b a) vs"
  have s: "sorted_wrt (\<lambda>a b. version_cmp b a \<noteq> Greater) ?d"
    by (rule ver_desc.sorted_sort_by)
  let ?R = "\<lambda>a b. is_prerelease b \<and> \<not> is_prerelease a
      \<or> is_prerelease a = is_prerelease b \<and> version_cmp b a \<noteq> Greater"
  have "sorted_wrt ?R (filter (\<lambda>v. \<not> is_prerelease v) ?d)"
    by (rule sorted_wrt_mono_rel [OF _ sorted_wrt_filter [OF s]]) auto
  moreover have "sorted_wrt ?R (filter is_prerelease ?d)"
    by (rule sorted_wrt_mono_rel [OF _ sorted_wrt_filter [OF s]]) auto
  ultimately show ?thesis
    by (simp add: latest_candidates_def Let_def sorted_wrt_append)
qed

text \<open>
  precedence of parsed versions is a linear order on their tags: \<open>cmp\<close> answers \<open>Equal\<close>
  only for one and the same tag, so sorting never has to choose between two spellings.
\<close>

theorem version_cmp_linear:
  assumes "version_parse s = Inr a" "version_parse t = Inr b"
  shows "version_cmp a b = Equal \<longleftrightarrow> s = t"
proof -
  have wf: "version_wf a" "version_wf b" "raw a = s" "raw b = t"
    using version_parse_wf assms by blast+
  then have "version_cmp a b = Equal \<longleftrightarrow> a = b"
    using version_wf_raw_inject [OF wf(1,2)] by (auto simp: version_cmp_Equal)
  then show ?thesis using wf assms by auto
qed

theorem version_cmp_linear_witness:
  "\<exists>a b. version_parse ''v1.2.0'' = Inr a \<and> version_parse ''v1.2.0-rc.1'' = Inr b
     \<and> version_cmp a b \<noteq> Equal"
proof -
  have "version_parse ''v1.2.0'' = Inr \<lparr>major = 1, minor = 2, patch = 0, prerelease = [], raw = ''v1.2.0''\<rparr>"
    "version_parse ''v1.2.0-rc.1''
       = Inr \<lparr>major = 1, minor = 2, patch = 0, prerelease = [''rc'', ''1''], raw = ''v1.2.0-rc.1''\<rparr>"
    by (simp_all add: version_parse_def version_num_def version_prerelease_def is_numeric_def
        is_alphanumeric_id_def str_eval)
  then show ?thesis using version_cmp_linear by fastforce
qed

text \<open>
  the candidates of \<open>@latest\<close> are the given versions, releases first and prereleases after
  them, each group from the newest to the oldest.
\<close>

theorem latest_candidates_correct:
  "mset (latest_candidates vs) = mset vs
   \<and> sorted_wrt (\<lambda>a b. is_prerelease b \<and> \<not> is_prerelease a
       \<or> is_prerelease a = is_prerelease b \<and> version_cmp b a \<noteq> Greater) (latest_candidates vs)"
  by (simp add: latest_candidates_mset latest_candidates_sorted)

theorem compare_id_numeric_witness: "compare_id ''9'' ''10'' = Less"
  using compare_id_numeric [of "''9''" "''10''"] by (simp add: is_numeric_def str_eval)

end
