(* ===== verification/Pome_Source_Path.thy ===== *)
theory Pome_Source_Path
  imports Pome_Version
begin

text \<open>
  Source paths, \<^verbatim>\<open>crates/emela-pome/src/source_path.rs\<close>: the canonical names
  \<open>host/path\<close> of Pomes, with the \<open>/vN\<close> suffix of a major version, the repository and
  directory they name, the git tags of their versions and the escaped form of caches and
  proxies. The lemmas show that a path is recomposed from its parts, that tags and versions
  determine each other, that two majors of one location share no version, and that escaping
  keeps paths apart even on case-insensitive storage.
\<close>

section \<open>Data\<close>

datatype source_path = SourcePath string

fun path_str :: "source_path \<Rightarrow> string" where
  "path_str (SourcePath s) = s"

lemma path_str_inject: "path_str p = path_str q \<longleftrightarrow> p = q"
  by (cases p; cases q) simp

text \<open>\<open>derive(PartialOrd, Ord)\<close> on the wrapper: the order of the strings.\<close>

instantiation source_path :: linorder
begin

definition less_eq_source_path :: "source_path \<Rightarrow> source_path \<Rightarrow> bool" where
  "less_eq_source_path p q \<longleftrightarrow> path_str p \<le> path_str q"

definition less_source_path :: "source_path \<Rightarrow> source_path \<Rightarrow> bool" where
  "less_source_path p q \<longleftrightarrow> path_str p < path_str q"

instance
  by standard
    (auto simp: less_eq_source_path_def less_source_path_def less_le path_str_inject)

end

record source_path_error =
  input :: string
  reason :: string

section \<open>Operations\<close>

definition MAX_LENGTH :: nat where
  "MAX_LENGTH = 255"

definition GITHUB :: string where
  "GITHUB = ''github.com''"

text \<open>The digits of a trailing \<open>/v<digits>\<close>.\<close>

definition major_digits :: "string \<Rightarrow> string option" where
  "major_digits path =
     (case rsplit_once CHR ''/'' path of
        None \<Rightarrow> None
      | Some (_, elem) \<Rightarrow>
          (case strip_prefix ''v'' elem of
             None \<Rightarrow> None
           | Some digits \<Rightarrow>
               if digits \<noteq> [] \<and> list_all is_ascii_digit digits then Some digits else None))"

definition is_host :: "string \<Rightarrow> bool" where
  "is_host host =
     (let labels = split_on CHR ''.'' host
      in 2 \<le> length labels
         \<and> list_all (\<lambda>l. l \<noteq> [] \<and> \<not> starts_with ''-'' l \<and> \<not> ends_with ''-'' l
              \<and> list_all (\<lambda>b. is_ascii_lowercase b \<or> is_ascii_digit b \<or> b = CHR ''-'') l) labels)"

definition is_element :: "string \<Rightarrow> bool" where
  "is_element e \<longleftrightarrow>
     (case e of [] \<Rightarrow> False | b # _ \<Rightarrow> is_ascii_alphanumeric b)
     \<and> \<not> ends_with ''.'' e
     \<and> list_all (\<lambda>b. is_ascii_alphanumeric b \<or> b \<in> {CHR ''.'', CHR ''_'', CHR ''-''}) e"

definition source_path_parse :: "string \<Rightarrow> source_path_error + source_path" where
  "source_path_parse s =
     (let err = (\<lambda>r. Inl \<lparr>input = s, reason = r\<rparr>);
          host = hd (split_on CHR ''/'' s);
          rest = tl (split_on CHR ''/'' s)
      in if s = [] \<or> MAX_LENGTH < length s then err ''length must be 1..255''
         else if \<not> is_host host then err ''host must be a lowercase domain name''
         else if rest = [] then err ''path is missing''
         else if \<not> list_all is_element rest then
           err ''a path element is empty or has characters other than letters, digits, `.`, `_` and `-`''
         else if ends_with ''.git'' s then err ''must not end with `.git`''
         else if (case major_digits s of
                    Some d \<Rightarrow> starts_with ''0'' d
                      \<or> (case parse_u64 d of None \<Rightarrow> True | Some n \<Rightarrow> n < 2)
                  | None \<Rightarrow> False)
           then err ''a major suffix must be `/v2` or above, without leading zeros''
         else if major_digits s \<noteq> None \<and> length rest < 2
           then err ''repository path is missing before the major suffix''
         else if host = GITHUB
             \<and> length rest - (if major_digits s \<noteq> None then 1 else 0) < 2
           then err ''a github.com path needs the owner and the repository''
         else Inr (SourcePath s))"

definition from_input :: "string \<Rightarrow> source_path_error + source_path" where
  "from_input s =
     (let t = (case strip_prefix ''github:'' s of
                 Some rest \<Rightarrow> ''github.com/'' @ rest
               | None \<Rightarrow> (case strip_prefix ''https://'' s of Some r \<Rightarrow> r | None \<Rightarrow> s))
      in source_path_parse (case strip_suffix ''.git'' t of Some r \<Rightarrow> r | None \<Rightarrow> t))"

definition path_host :: "source_path \<Rightarrow> string" where
  "path_host p = hd (split_on CHR ''/'' (path_str p))"

definition path_major :: "source_path \<Rightarrow> nat option" where
  "path_major p = Option.bind (major_digits (path_str p)) parse_u64"

definition location :: "source_path \<Rightarrow> string" where
  "location p =
     (case major_digits (path_str p) of
        Some d \<Rightarrow> take (length (path_str p) - length d - 2) (path_str p)
      | None \<Rightarrow> path_str p)"

text \<open>\<open>s.match_indices(c).nth(k)\<close>: the index of the \<open>k\<close>-th (from 0) occurrence of \<open>c\<close>.\<close>

fun nth_match :: "'a \<Rightarrow> nat \<Rightarrow> 'a list \<Rightarrow> nat option" where
  "nth_match c k [] = None"
| "nth_match c k (x # xs) =
     (if x = c then (case k of 0 \<Rightarrow> Some 0 | Suc j \<Rightarrow> map_option Suc (nth_match c j xs))
      else map_option Suc (nth_match c k xs))"

definition repository :: "source_path \<Rightarrow> string" where
  "repository p =
     (if path_host p \<noteq> GITHUB then location p
      else case nth_match CHR ''/'' 2 (location p) of
             Some i \<Rightarrow> take i (location p)
           | None \<Rightarrow> location p)"

definition directory :: "source_path \<Rightarrow> string option" where
  "directory p = Option.bind (strip_prefix (repository p) (location p)) (strip_prefix ''/'')"

definition tag :: "source_path \<Rightarrow> version \<Rightarrow> string" where
  "tag p v = (case directory p of Some dir \<Rightarrow> dir @ ''/'' @ raw v | None \<Rightarrow> raw v)"

definition is_version_of :: "source_path \<Rightarrow> version \<Rightarrow> bool" where
  "is_version_of p v = (case path_major p of Some n \<Rightarrow> major v = n | None \<Rightarrow> major v \<le> 1)"

definition version_of_tag :: "source_path \<Rightarrow> string \<Rightarrow> version option" where
  "version_of_tag p t =
     Option.bind
       (case directory p of
          Some dir \<Rightarrow> Option.bind (strip_prefix dir t) (strip_prefix ''/'')
        | None \<Rightarrow> Some t)
       (\<lambda>s. case version_parse s of
              Inl _ \<Rightarrow> None
            | Inr v \<Rightarrow> if is_version_of p v then Some v else None)"

definition last_element :: "source_path \<Rightarrow> string" where
  "last_element p = last (split_on CHR ''/'' (location p))"

fun escape_path :: "string \<Rightarrow> string" where
  "escape_path [] = []"
| "escape_path (c # cs) =
     (if is_ascii_uppercase c then CHR ''!'' # to_ascii_lowercase c # escape_path cs
      else c # escape_path cs)"

definition escaped :: "source_path \<Rightarrow> string" where
  "escaped p = escape_path (path_str p)"

section \<open>What a parsed path is\<close>

definition path_parsed :: "source_path \<Rightarrow> bool" where
  "path_parsed p \<longleftrightarrow> source_path_parse (path_str p) = Inr p"

lemma source_path_parse_str: "source_path_parse s = Inr p \<Longrightarrow> p = SourcePath s"
  by (auto simp: source_path_parse_def Let_def split: if_splits option.splits)

lemma path_parsedI: "source_path_parse s = Inr p \<Longrightarrow> path_parsed p"
  using source_path_parse_str [of s p] by (simp add: path_parsed_def)

lemma path_parsedD:
  assumes "path_parsed p"
  shows "is_host (path_host p)"
    and "list_all is_element (tl (split_on CHR ''/'' (path_str p)))"
    and "tl (split_on CHR ''/'' (path_str p)) \<noteq> []"
    and "\<not> ends_with ''.git'' (path_str p)"
    and "path_str p \<noteq> []" and "length (path_str p) \<le> MAX_LENGTH"
  using assms
  by (auto simp: path_parsed_def source_path_parse_def path_host_def Let_def
      split: if_splits option.splits)

lemma path_parsed_major:
  assumes "path_parsed p" "major_digits (path_str p) = Some d"
  shows "\<exists>n. d = show_nat n \<and> 2 \<le> n \<and> n < u64_bound \<and> path_major p = Some n"
proof -
  from assms(1) have s: "\<not> (starts_with ''0'' d
      \<or> (case parse_u64 d of None \<Rightarrow> True | Some n \<Rightarrow> n < 2))"
    by (auto simp: path_parsed_def source_path_parse_def Let_def assms(2)
        split: if_splits option.splits)
  then obtain n where n: "parse_u64 d = Some n" "2 \<le> n"
    by (auto split: option.splits)
  have "d \<noteq> []" "list_all is_ascii_digit d"
    using assms(2) by (auto simp: major_digits_def split: option.splits if_splits prod.splits)
  with s have c: "canonical_dec d"
    by (cases d) (auto simp: canonical_dec_def starts_with_def)
  with n(1) have "d = show_nat n"
    by (auto simp: parse_u64_canonical show_nat_dec_val split: if_splits)
  with n assms(2) parse_u64_bound show ?thesis
    by (auto simp: path_major_def)
qed

lemma major_digits_path: "major_digits s = Some d \<Longrightarrow> \<exists>l. s = l @ ''/v'' @ d"
  by (auto simp: major_digits_def strip_prefix_SomeD dest!: rsplit_once_SomeD
      split: option.splits if_splits prod.splits)

lemma location_major_digits: "major_digits (l @ ''/v'' @ d) = Some d \<Longrightarrow>
    location (SourcePath (l @ ''/v'' @ d)) = l"
  by (simp add: location_def)

lemma parsed_recompose:
  assumes "path_parsed p"
  shows "path_str p = location p @ (case path_major p of Some n \<Rightarrow> ''/v'' @ show_nat n | None \<Rightarrow> [])"
proof (cases "major_digits (path_str p)")
  case None
  then show ?thesis by (simp add: location_def path_major_def)
next
  case (Some d)
  obtain l where l: "path_str p = l @ ''/v'' @ d" using major_digits_path [OF Some] by blast
  have "location p = l"
    using location_major_digits [of l d] Some l by (cases p) simp
  moreover obtain n where "path_major p = Some n" "d = show_nat n"
    using path_parsed_major [OF assms Some] by blast
  ultimately show ?thesis using l by simp
qed

lemma parsed_major_ge_2: "path_parsed p \<Longrightarrow> path_major p = Some n \<Longrightarrow> 2 \<le> n"
  using path_parsed_major [of p]
  by (cases "major_digits (path_str p)") (auto simp: path_major_def)

lemma nth_match_Some: "nth_match c k s = Some i \<Longrightarrow> i < length s \<and> s ! i = c"
  by (induction c k s arbitrary: i rule: nth_match.induct)
    (auto split: if_splits nat.splits)

lemma location_repository:
  "location p = repository p @ (case directory p of Some d \<Rightarrow> ''/'' @ d | None \<Rightarrow> [])"
proof (cases "path_host p \<noteq> GITHUB \<or> nth_match CHR ''/'' 2 (location p) = None")
  case True
  then have "repository p = location p" by (auto simp: repository_def split: option.splits)
  then show ?thesis
    using strip_prefix_append [of "location p" "[]"] by (simp add: directory_def)
next
  case False
  then obtain i where i: "nth_match CHR ''/'' 2 (location p) = Some i" by auto
  have r: "repository p = take i (location p)"
    using False i by (simp add: repository_def)
  have l: "location p = take i (location p) @ CHR ''/'' # drop (Suc i) (location p)"
    using nth_match_Some [OF i] id_take_nth_drop [of i "location p"] by simp
  have "strip_prefix (repository p) (location p) = Some (CHR ''/'' # drop (Suc i) (location p))"
    using l r by (simp add: strip_prefix_SomeD)
  then have "directory p = Some (drop (Suc i) (location p))"
    by (simp add: directory_def)
  with l r show ?thesis by simp
qed

text \<open>
  a parsed path is recomposed from the repository to fetch, the directory of the Pome in it
  and the suffix of its major version, which is at least 2.
\<close>

theorem source_path_recompose:
  assumes "source_path_parse s = Inr p"
  shows "s = repository p @ (case directory p of Some d \<Rightarrow> ''/'' @ d | None \<Rightarrow> [])
           @ (case path_major p of Some n \<Rightarrow> ''/v'' @ show_nat n | None \<Rightarrow> [])
         \<and> path_major p \<notin> {Some 0, Some 1}"
proof -
  have p: "path_parsed p" "path_str p = s"
    using assms source_path_parse_str [OF assms] by (auto intro: path_parsedI)
  then show ?thesis
    using parsed_recompose [OF p(1)] location_repository [of p] parsed_major_ge_2 [OF p(1)]
    by (auto split: option.splits)
qed

section \<open>Tags and versions\<close>

lemma version_of_tag_Some:
  "version_of_tag p t = Some v \<longleftrightarrow> t = tag p v \<and> version_wf v \<and> is_version_of p v"
proof (cases "directory p")
  case None
  then show ?thesis
    using version_parse_wf [of t v] version_parse_text [of v]
    by (auto simp: version_of_tag_def tag_def split: sum.splits if_splits)
next
  case (Some dir)
  show ?thesis
  proof
    assume "version_of_tag p t = Some v"
    then obtain s where s: "t = dir @ ''/'' @ s"
      "(case version_parse s of Inl _ \<Rightarrow> None
        | Inr v \<Rightarrow> if is_version_of p v then Some v else None) = Some v"
      using Some by (auto simp: version_of_tag_def strip_prefix_SomeD bind_eq_Some_conv)
    then have "version_parse s = Inr v" "is_version_of p v"
      by (auto split: sum.splits if_splits)
    note s(1) this
    then show "t = tag p v \<and> version_wf v \<and> is_version_of p v"
      using Some version_parse_wf [of s v] by (auto simp: tag_def)
  next
    assume a: "t = tag p v \<and> version_wf v \<and> is_version_of p v"
    then have "strip_prefix dir t = Some (''/'' @ raw v)"
      using Some by (simp add: tag_def)
    then show "version_of_tag p t = Some v"
      using a Some version_parse_text [of v] by (simp add: version_of_tag_def)
  qed
qed

text \<open>
  the git tags of a Pome and its versions determine each other: reading a tag gives back
  exactly the version it was made from, and every other string names no version of the Pome.
\<close>

theorem version_of_tag_exact:
  "version_of_tag p t = Some v \<longleftrightarrow>
     t = tag p v \<and> version_parse (raw v) = Inr v \<and> is_version_of p v"
  using version_of_tag_Some [of p t v] version_parse_text [of v] version_parse_wf [of "raw v" v]
  by blast

text \<open>two source paths of one location never share a version, so majors are kept apart.\<close>

theorem majors_apart:
  assumes "source_path_parse s = Inr p" "source_path_parse t = Inr q"
    and "location p = location q" "is_version_of p v" "is_version_of q v"
  shows "p = q"
proof -
  have pq: "path_parsed p" "path_parsed q" using assms(1,2) by (auto intro: path_parsedI)
  have "path_major p = path_major q"
    using assms(4,5) parsed_major_ge_2 [OF pq(1)] parsed_major_ge_2 [OF pq(2)]
    by (auto simp: is_version_of_def split: option.splits)
  with assms(3) parsed_recompose [OF pq(1)] parsed_recompose [OF pq(2)] show ?thesis
    by (metis path_str_inject)
qed

section \<open>Characters of a parsed path\<close>

lemma set_split_on: "x \<in> set s \<Longrightarrow> x = c \<or> (\<exists>p\<in>set (split_on c s). x \<in> set p)"
proof (induction s)
  case (Cons y s)
  then show ?case
    by (cases "split_on c s") auto
qed simp

lemma host_chars:
  assumes "is_host h" "c \<in> set h"
  shows "is_ascii_lowercase c \<or> is_ascii_digit c \<or> c \<in> {CHR ''-'', CHR ''.''}"
  using assms set_split_on [of c h "CHR ''.''"]
  by (auto simp: is_host_def Let_def list_all_iff)

lemma element_chars:
  "is_element e \<Longrightarrow> c \<in> set e \<Longrightarrow>
     is_ascii_alphanumeric c \<or> c \<in> {CHR ''.'', CHR ''_'', CHR ''-''}"
  by (auto simp: is_element_def list_all_iff)

lemma parsed_chars:
  assumes "path_parsed p" "c \<in> set (path_str p)"
  shows "is_ascii_alphanumeric c \<or> c \<in> {CHR ''.'', CHR ''_'', CHR ''-'', CHR ''/''}"
proof -
  have parts: "split_on CHR ''/'' (path_str p) = path_host p # tl (split_on CHR ''/'' (path_str p))"
    by (simp add: path_host_def)
  from set_split_on [OF assms(2), of "CHR ''/''"] consider "c = CHR ''/''" | "c \<in> set (path_host p)"
    | e where "e \<in> set (tl (split_on CHR ''/'' (path_str p)))" "c \<in> set e"
    using parts by (metis set_ConsD)
  then show ?thesis
  proof cases
    case 2
    with host_chars path_parsedD(1) [OF assms(1)] show ?thesis
      by (auto simp: is_ascii_alphanumeric_def)
  next
    case 3
    with element_chars path_parsedD(2) [OF assms(1)] show ?thesis
      by (auto simp: list_all_iff)
  qed simp
qed

lemma parsed_no_special: "path_parsed p \<Longrightarrow> CHR ''!'' \<notin> set (path_str p) \<and> CHR '':'' \<notin> set (path_str p)"
  using parsed_chars [of p "CHR ''!''"] parsed_chars [of p "CHR '':''"] by (auto simp: ascii_defs)

section \<open>Escaping\<close>

lemma lower_not_upper: "\<not> is_ascii_uppercase (to_ascii_lowercase c)"
  by (auto simp: to_ascii_lowercase_def is_ascii_uppercase_def byte_def)

lemma to_ascii_lowercase_inject:
  assumes "is_ascii_uppercase c" "is_ascii_uppercase d" "to_ascii_lowercase c = to_ascii_lowercase d"
  shows "c = d"
proof -
  have b: "byte c + 32 < 256" "byte d + 32 < 256"
    using assms by (auto simp: is_ascii_uppercase_def)
  have "byte (to_ascii_lowercase c) = byte (to_ascii_lowercase d)"
    using assms(3) by simp
  then have "byte c = byte d"
    using assms(1,2) b by (simp add: to_ascii_lowercase_def byte_char_of)
  then show ?thesis by (simp add: byte_inject)
qed

lemma lower_id: "\<not> is_ascii_uppercase c \<Longrightarrow> to_ascii_lowercase c = c"
  by (simp add: to_ascii_lowercase_def)

lemma escape_path_lower: "map to_ascii_lowercase (escape_path s) = escape_path s"
proof -
  have "to_ascii_lowercase CHR ''!'' = CHR ''!''"
    by (rule lower_id) (simp add: is_ascii_uppercase_def byte_def)
  then show ?thesis
    by (induction s) (auto simp: lower_id lower_not_upper)
qed

lemma escape_path_inject:
  assumes "CHR ''!'' \<notin> set s" "CHR ''!'' \<notin> set t" "escape_path s = escape_path t"
  shows "s = t"
  using assms
proof (induction s arbitrary: t)
  case Nil
  then show ?case by (cases t) (auto split: if_splits)
next
  case (Cons c s)
  then obtain d t' where t: "t = d # t'" by (cases t) (auto split: if_splits)
  show ?case
    using Cons t to_ascii_lowercase_inject [of c d] by (auto split: if_splits)
qed

text \<open>
  C31: two different source paths have different escaped forms, even after the storage folds
  case: the cache never mixes up Pomes.
\<close>

theorem escaped_case_insensitive_inject:
  assumes "source_path_parse s = Inr p" "source_path_parse t = Inr q"
    and "map to_ascii_lowercase (escaped p) = map to_ascii_lowercase (escaped q)"
  shows "p = q"
proof -
  have "CHR ''!'' \<notin> set (path_str p)" "CHR ''!'' \<notin> set (path_str q)"
    using assms(1,2) parsed_no_special by (auto dest: path_parsedI)
  then have "path_str p = path_str q"
    using assms(3) escape_path_inject by (simp add: escaped_def escape_path_lower)
  then show ?thesis by (simp add: path_str_inject)
qed

section \<open>Command input\<close>

lemma strip_suffix_None: "\<not> ends_with p s \<Longrightarrow> strip_suffix p s = None"
  by (simp add: ends_with_def)

lemma parsed_no_scheme:
  assumes "path_parsed p"
  shows "strip_prefix ''github:'' (path_str p @ u) = None"
    and "strip_prefix ''https://'' (path_str p @ u) = None"
proof -
  have colon: "\<not> (CHR '':'' \<in> set (path_str p))" using parsed_no_special [OF assms] by simp
  have at: "CHR ''/'' \<in> set (path_str p)"
    using path_parsedD(3) [OF assms] split_on_free [of "CHR ''/''" "path_str p"]
    by (cases "CHR ''/'' \<in> set (path_str p)") simp_all
  have "strip_prefix (w @ '':'' @ w') (path_str p @ u) = None" if "CHR ''/'' \<notin> set w" for w w'
  proof (rule ccontr)
    assume "strip_prefix (w @ '':'' @ w') (path_str p @ u) \<noteq> None"
    then obtain r where "path_str p @ u = (w @ '':'' @ w') @ r"
      by (auto simp: strip_prefix_SomeD)
    then have "(\<exists>k. path_str p = w @ '':'' @ k) \<or> (\<exists>k. path_str p @ k = w)"
      by (auto simp: append_eq_append_conv2 append_eq_Cons_conv Cons_eq_append_conv)
    with colon at that show False by (metis UnCI list.set_intros(1) append_Cons set_append)
  qed
  from this [of "''github''" "[]"] this [of "''https''" "''//''"]
  show "strip_prefix ''github:'' (path_str p @ u) = None"
    and "strip_prefix ''https://'' (path_str p @ u) = None"
    by simp_all
qed

lemma from_input_forms:
  assumes "path_parsed p" "u \<in> {[], ''.git''}"
  shows "from_input (path_str p @ u) = Inr p" "from_input (''https://'' @ path_str p @ u) = Inr p"
    "path_str p = ''github.com/'' @ r \<Longrightarrow> from_input (''github:'' @ r @ u) = Inr p"
proof -
  have strip: "(case strip_suffix ''.git'' (path_str p @ u) of Some r \<Rightarrow> r | None \<Rightarrow> path_str p @ u)
      = path_str p"
    using assms path_parsedD(4) [OF assms(1)] strip_suffix_SomeD [of "''.git''" "path_str p @ ''.git''" "path_str p"]
    by (auto simp: strip_suffix_None)
  have parse: "source_path_parse (path_str p) = Inr p"
    using assms(1) by (simp add: path_parsed_def)
  show "from_input (path_str p @ u) = Inr p"
    unfolding from_input_def parsed_no_scheme [OF assms(1)] using strip parse by simp
  have "strip_prefix ''github:'' (''https://'' @ path_str p @ u) = None" by simp
  moreover have "strip_prefix ''https://'' (''https://'' @ path_str p @ u) = Some (path_str p @ u)"
    by (rule strip_prefix_append)
  ultimately show "from_input (''https://'' @ path_str p @ u) = Inr p"
    unfolding from_input_def using strip parse by simp
  show "from_input (''github:'' @ r @ u) = Inr p" if "path_str p = ''github.com/'' @ r"
  proof -
    have "strip_prefix ''github:'' (''github:'' @ r @ u) = Some (r @ u)"
      by (rule strip_prefix_append)
    moreover have "''github.com/'' @ r @ u = path_str p @ u" using that by simp
    ultimately show ?thesis
      by (simp only: from_input_def option.case Let_def strip parse)
  qed
qed

text \<open>
  every form a command accepts for a Pome (the path itself, with \<open>https://\<close>, with
  \<open>.git\<close>, and the shorthand \<open>github:\<close>) is read as its canonical path.
\<close>

theorem from_input_accepts_forms:
  assumes "source_path_parse s = Inr p"
  shows "from_input s = Inr p \<and> from_input (s @ ''.git'') = Inr p
     \<and> from_input (''https://'' @ s) = Inr p \<and> from_input (''https://'' @ s @ ''.git'') = Inr p
     \<and> (\<forall>r. s = ''github.com/'' @ r \<longrightarrow> from_input (''github:'' @ r) = Inr p)"
  using from_input_forms [OF path_parsedI [OF assms], of "[]"]
    from_input_forms [OF path_parsedI [OF assms], of "''.git''"] source_path_parse_str [OF assms]
  by simp

section \<open>Examples\<close>

lemma example_facts:
  "split_on CHR ''/'' ''github.com/Ab/c/d/v2'' = [''github.com'', ''Ab'', ''c'', ''d'', ''v2'']"
  "is_host ''github.com''" "list_all is_element [''Ab'', ''c'', ''d'', ''v2'']"
  "\<not> ends_with ''.git'' ''github.com/Ab/c/d/v2''"
  "major_digits ''github.com/Ab/c/d/v2'' = Some ''2''" "\<not> starts_with ''0'' ''2''"
  by code_simp+

lemma parse_u64_2: "parse_u64 ''2'' = Some 2"
  by (simp add: str_eval)

lemma example_path: "source_path_parse ''github.com/Ab/c/d/v2'' = Inr (SourcePath ''github.com/Ab/c/d/v2'')"
  unfolding source_path_parse_def Let_def example_facts(1) list.sel
  using example_facts(2-6) by (simp add: parse_u64_2 MAX_LENGTH_def)

theorem source_path_recompose_witness:
  "repository (SourcePath ''github.com/Ab/c/d/v2'') = ''github.com/Ab/c''
   \<and> path_major (SourcePath ''github.com/Ab/c/d/v2'') \<notin> {Some 0, Some 1}"
proof
  show "repository (SourcePath ''github.com/Ab/c/d/v2'') = ''github.com/Ab/c''" by code_simp
  show "path_major (SourcePath ''github.com/Ab/c/d/v2'') \<notin> {Some 0, Some 1}"
    using source_path_recompose [OF example_path] by blast
qed

theorem majors_apart_witness:
  "SourcePath ''github.com/Ab/c/d/v2'' = SourcePath ''github.com/Ab/c/d/v2''
   \<and> is_version_of (SourcePath ''github.com/Ab/c/d/v2'')
       \<lparr>major = 2, minor = 0, patch = 0, prerelease = [], raw = ''v2.0.0''\<rparr>"
proof -
  have v: "is_version_of (SourcePath ''github.com/Ab/c/d/v2'')
      \<lparr>major = 2, minor = 0, patch = 0, prerelease = [], raw = ''v2.0.0''\<rparr>"
    by (simp add: is_version_of_def path_major_def example_facts(5) parse_u64_2)
  from majors_apart [OF example_path example_path refl v v] v show ?thesis by blast
qed

theorem escaped_case_insensitive_inject_witness:
  "escaped (SourcePath ''github.com/Ab/c/d/v2'') = ''github.com/!ab/c/d/v2''
   \<and> SourcePath ''github.com/Ab/c/d/v2'' = SourcePath ''github.com/Ab/c/d/v2''"
proof -
  have "escaped (SourcePath ''github.com/Ab/c/d/v2'') = ''github.com/!ab/c/d/v2''"
    by code_simp
  with escaped_case_insensitive_inject [OF example_path example_path refl] show ?thesis by blast
qed

theorem from_input_accepts_forms_witness:
  "from_input ''github:Ab/c/d/v2'' = Inr (SourcePath ''github.com/Ab/c/d/v2'')"
  using from_input_accepts_forms [OF example_path] by simp

end
