(* ===== verification/Pome_Mvs.thy ===== *)
theory Pome_Mvs
  imports Pome_Source_Path
begin

text \<open>
  Minimal version selection, \<^verbatim>\<open>crates/emela-pome/src/mvs.rs\<close>. The trait
  \<open>Requirements\<close> is a parameter \<open>graph\<close>: the \<open>[dependencies]\<close> of one version of a Pome, or
  the error of reading them. The worklist loops of \<open>build_list\<close> and \<open>reached\<close> may run
  forever on an infinite graph, so they are partial functions; the lemmas show that they return
  whenever finitely many versions are reachable, and that the result is the abstract one:
  every reachable Pome at the largest version required anywhere.
\<close>

type_synonym requirement = "source_path \<times> version"
type_synonym 'e requirements = "source_path \<Rightarrow> version \<Rightarrow> 'e + requirement list"
type_synonym selection = "source_path \<rightharpoonup> version"

section \<open>Operations\<close>

definition select_version :: "selection \<Rightarrow> source_path \<Rightarrow> version \<Rightarrow> selection" where
  "select_version selected path v =
     (case selected path of
        Some current \<Rightarrow>
          if version_cmp current v \<noteq> Less then selected else selected(path \<mapsto> v)
      | None \<Rightarrow> selected(path \<mapsto> v))"

partial_function (option) build_list_loop ::
    "'e requirements \<Rightarrow> selection \<Rightarrow> (source_path \<times> string) set \<Rightarrow> requirement list
     \<Rightarrow> ('e + selection) option" where
  "build_list_loop graph selected visited queue =
     (case queue of
        [] \<Rightarrow> Some (Inr selected)
      | r # rest \<Rightarrow>
          (if (fst r, raw (snd r)) \<in> visited
           then build_list_loop graph selected visited rest
           else (case graph (fst r) (snd r) of
                   Inl e \<Rightarrow> Some (Inl e)
                 | Inr reqs \<Rightarrow>
                     build_list_loop graph (select_version selected (fst r) (snd r))
                       (insert (fst r, raw (snd r)) visited) (rest @ reqs))))"

definition build_list :: "requirement list \<Rightarrow> 'e requirements \<Rightarrow> ('e + selection) option" where
  "build_list root graph = build_list_loop graph Map.empty {} root"

text \<open>The inner loop of \<open>reached\<close>: paths not seen before are pushed onto the stack.\<close>

fun visit_requirements ::
    "requirement list \<Rightarrow> source_path set \<Rightarrow> source_path list \<Rightarrow> source_path set \<times> source_path list"
    where
  "visit_requirements [] seen queue = (seen, queue)"
| "visit_requirements ((p, _) # reqs) seen queue =
     (if p \<in> seen then visit_requirements reqs seen queue
      else visit_requirements reqs (insert p seen) (queue @ [p]))"

partial_function (option) reached_loop ::
    "selection \<Rightarrow> 'e requirements \<Rightarrow> source_path set \<Rightarrow> source_path list
     \<Rightarrow> ('e + source_path set) option" where
  "reached_loop selected graph seen queue =
     (if queue = [] then Some (Inr seen)
      else (case selected (last queue) of
              None \<Rightarrow> reached_loop selected graph seen (butlast queue)
            | Some v \<Rightarrow>
                (case graph (last queue) v of
                   Inl e \<Rightarrow> Some (Inl e)
                 | Inr reqs \<Rightarrow>
                     reached_loop selected graph
                       (fst (visit_requirements reqs seen (butlast queue)))
                       (snd (visit_requirements reqs seen (butlast queue))))))"

definition reached ::
    "requirement list \<Rightarrow> selection \<Rightarrow> 'e requirements \<Rightarrow> ('e + source_path set) option" where
  "reached roots selected graph =
     (case build_list roots graph of
        None \<Rightarrow> None
      | Some (Inl e) \<Rightarrow> Some (Inl e)
      | Some (Inr m) \<Rightarrow> reached_loop selected graph (dom m) (sorted_list_of_set (dom m)))"

section \<open>Specification\<close>

text \<open>The versions that are required anywhere: by the root, or by a version required.\<close>

inductive required :: "requirement list \<Rightarrow> 'e requirements \<Rightarrow> requirement \<Rightarrow> bool"
  for root graph where
  root: "r \<in> set root \<Longrightarrow> required root graph r"
| step: "required root graph (p, v) \<Longrightarrow> graph p v = Inr reqs \<Longrightarrow> r \<in> set reqs \<Longrightarrow>
     required root graph r"

definition well_formed_graph :: "requirement list \<Rightarrow> 'e requirements \<Rightarrow> bool" where
  "well_formed_graph root graph \<longleftrightarrow>
     finite {r. required root graph r} \<and> (\<forall>p v. required root graph (p, v) \<longrightarrow> version_wf v)"

text \<open>The largest required version of every Pome required.\<close>

definition minimal_selection :: "requirement list \<Rightarrow> 'e requirements \<Rightarrow> selection \<Rightarrow> bool" where
  "minimal_selection root graph m \<longleftrightarrow>
     (\<forall>p. (p \<in> dom m \<longleftrightarrow> (\<exists>v. required root graph (p, v))))
     \<and> (\<forall>p v. m p = Some v \<longrightarrow>
          required root graph (p, v)
          \<and> (\<forall>w. required root graph (p, w) \<longrightarrow> version_cmp w v \<noteq> Greater))"

lemma minimal_selection_unique:
  assumes "minimal_selection root graph m" "minimal_selection root graph n"
    and "well_formed_graph root graph"
  shows "m = n"
proof
  fix p
  have dom: "p \<in> dom m \<longleftrightarrow> p \<in> dom n"
    using assms(1,2) by (simp add: minimal_selection_def)
  show "m p = n p"
  proof (cases "m p")
    case None
    with dom show ?thesis by (cases "n p") auto
  next
    case (Some v)
    with dom obtain w where w: "n p = Some w" by auto
    from Some w assms(1,2) have "version_cmp w v \<noteq> Greater" "version_cmp v w \<noteq> Greater"
      and wf: "version_wf v" "version_wf w"
      using assms(3) unfolding minimal_selection_def well_formed_graph_def by blast+
    then have "version_cmp v w = Equal"
      using ver_cmp.cmp_flip [of v w] by (cases "version_cmp v w") auto
    then have "v = w"
      using version_wf_raw_inject [OF wf] by (simp add: version_cmp_Equal)
    with Some w show ?thesis by simp
  qed
qed

section \<open>The loop of \<open>build_list\<close>\<close>

abbreviation key :: "requirement \<Rightarrow> source_path \<times> string" where
  "key r \<equiv> (fst r, raw (snd r))"

text \<open>Visited, or still to be.\<close>

definition pending :: "(source_path \<times> string) set \<Rightarrow> requirement list \<Rightarrow> requirement \<Rightarrow> bool" where
  "pending visited queue x \<longleftrightarrow> key x \<in> visited \<or> x \<in> set queue"

lemma pending_Nil [simp]: "pending visited [] x \<longleftrightarrow> key x \<in> visited"
  by (simp add: pending_def)

lemma pending_skip: "key r \<in> visited \<Longrightarrow> pending visited (r # rest) x \<Longrightarrow> pending visited rest x"
  by (auto simp: pending_def)

lemma pending_visit:
  "pending visited (r # rest) x \<Longrightarrow> pending (insert (key r) visited) (rest @ reqs) x"
  by (auto simp: pending_def)

lemma pending_new: "x \<in> set reqs \<Longrightarrow> pending visited (rest @ reqs) x"
  by (simp add: pending_def)

definition build_inv ::
    "requirement list \<Rightarrow> 'e requirements \<Rightarrow> selection \<Rightarrow> (source_path \<times> string) set
     \<Rightarrow> requirement list \<Rightarrow> bool" where
  "build_inv root graph selected visited queue \<longleftrightarrow>
     (\<forall>r\<in>set queue. required root graph r)
     \<and> visited \<subseteq> key ` {r. required root graph r}
     \<and> (\<forall>r. required root graph r \<longrightarrow> key r \<in> visited \<longrightarrow>
          (\<exists>reqs. graph (fst r) (snd r) = Inr reqs
             \<and> (\<forall>x\<in>set reqs. pending visited queue x)))
     \<and> (\<forall>x\<in>set root. pending visited queue x)
     \<and> dom selected = fst ` visited
     \<and> (\<forall>p v. selected p = Some v \<longrightarrow> required root graph (p, v) \<and> key (p, v) \<in> visited
          \<and> (\<forall>w. required root graph (p, w) \<longrightarrow> key (p, w) \<in> visited \<longrightarrow>
                version_cmp w v \<noteq> Greater))"

lemma build_invI:
  assumes "\<And>r. r \<in> set queue \<Longrightarrow> required root graph r"
    and "visited \<subseteq> key ` {r. required root graph r}"
    and "\<And>r. required root graph r \<Longrightarrow> key r \<in> visited \<Longrightarrow>
          \<exists>reqs. graph (fst r) (snd r) = Inr reqs \<and> (\<forall>x\<in>set reqs. pending visited queue x)"
    and "\<And>x. x \<in> set root \<Longrightarrow> pending visited queue x"
    and "dom selected = fst ` visited"
    and "\<And>p v. selected p = Some v \<Longrightarrow> required root graph (p, v) \<and> key (p, v) \<in> visited"
    and "\<And>p v w. selected p = Some v \<Longrightarrow> required root graph (p, w) \<Longrightarrow> key (p, w) \<in> visited \<Longrightarrow>
          version_cmp w v \<noteq> Greater"
  shows "build_inv root graph selected visited queue"
  using assms unfolding build_inv_def by blast

lemma build_invD:
  assumes "build_inv root graph selected visited queue"
  shows "\<And>r. r \<in> set queue \<Longrightarrow> required root graph r"
    and "visited \<subseteq> key ` {r. required root graph r}"
    and "\<And>r. required root graph r \<Longrightarrow> key r \<in> visited \<Longrightarrow>
          \<exists>reqs. graph (fst r) (snd r) = Inr reqs \<and> (\<forall>x\<in>set reqs. pending visited queue x)"
    and "\<And>x. x \<in> set root \<Longrightarrow> pending visited queue x"
    and "dom selected = fst ` visited"
    and "\<And>p v. selected p = Some v \<Longrightarrow> required root graph (p, v) \<and> key (p, v) \<in> visited"
    and "\<And>p v w. selected p = Some v \<Longrightarrow> required root graph (p, w) \<Longrightarrow> key (p, w) \<in> visited \<Longrightarrow>
          version_cmp w v \<noteq> Greater"
proof -
  show "required root graph r" if "r \<in> set queue" for r
    using assms that unfolding build_inv_def by (elim conjE) (rule bspec)
  show "\<exists>reqs. graph (fst r) (snd r) = Inr reqs \<and> (\<forall>x\<in>set reqs. pending visited queue x)"
    if "required root graph r" "key r \<in> visited" for r
    using assms that unfolding build_inv_def by meson
qed (use assms in \<open>unfold build_inv_def, blast\<close>)+

lemma build_inv_init: "build_inv root graph Map.empty {} root"
  by (rule build_invI) (auto simp: pending_def intro: required.root)

lemma key_inject:
  assumes "version_wf v" "version_wf w" "key (p, v) = key (q, w)"
  shows "(p, v) = (q, w)"
proof -
  have "version_parse (raw v) = Inr v" "version_parse (raw v) = Inr w"
    using assms version_parse_text [of v] version_parse_text [of w] by (simp_all only: snd_conv prod.inject)
  then have "v = w" by (simp only: sum.inject)
  with assms(3) show ?thesis by simp
qed

lemma build_inv_skip:
  assumes inv: "build_inv root graph selected visited (r # rest)" and r: "key r \<in> visited"
  shows "build_inv root graph selected visited rest"
proof (rule build_invI)
  note D = build_invD [OF inv]
  show "required root graph x" if "x \<in> set rest" for x using D(1) that by simp
  show "\<exists>reqs. graph (fst x) (snd x) = Inr reqs \<and> (\<forall>y\<in>set reqs. pending visited rest y)"
    if "required root graph x" "key x \<in> visited" for x
    using D(3) [OF that] pending_skip [OF r] by blast
  show "pending visited rest x" if "x \<in> set root" for x using D(4) pending_skip [OF r] that by blast
qed (use build_invD [OF inv] in blast)+

lemma select_version_dom [simp]: "dom (select_version s p v) = insert p (dom s)"
  by (auto simp: select_version_def split: option.splits)

lemma select_version_max:
  assumes "\<And>u w. s p = Some u \<Longrightarrow> P w \<Longrightarrow> version_cmp w u \<noteq> Greater"
    and "select_version s p v p = Some u" "P w \<or> w = v" "s p = None \<Longrightarrow> \<not> P w"
  shows "version_cmp w u \<noteq> Greater"
proof (cases "s p")
  case None
  with assms show ?thesis by (auto simp: select_version_def ver_cmp.cmp_refl)
next
  case (Some c)
  show ?thesis
  proof (cases "version_cmp c v = Less")
    case True
    with Some assms(2) have u: "u = v" by (simp add: select_version_def)
    show ?thesis
    proof (cases "w = v")
      case False
      with assms(3) have "version_cmp w c \<noteq> Greater" using assms(1) Some by blast
      with True have "version_cmp w v \<noteq> Greater"
        by (intro ver_cmp.cmp_trans [of w c v]) auto
      with u show ?thesis by simp
    qed (simp add: u ver_cmp.cmp_refl)
  next
    case False
    with Some assms(2) have u: "u = c" by (simp add: select_version_def)
    show ?thesis
    proof (cases "w = v")
      case True
      with False u show ?thesis using ver_cmp.cmp_flip [of v c] by simp
    next
      case False
      with assms(1,3) Some u show ?thesis by blast
    qed
  qed
qed

lemma select_version_cases:
  "select_version s p v q = Some u \<Longrightarrow> s q = Some u \<or> q = p \<and> u = v"
  by (auto simp: select_version_def split: option.splits if_splits)

lemma build_inv_visit:
  assumes inv: "build_inv root graph selected visited (r # rest)"
    and g: "graph (fst r) (snd r) = Inr reqs" and wf: "well_formed_graph root graph"
  shows "build_inv root graph (select_version selected (fst r) (snd r))
           (insert (key r) visited) (rest @ reqs)"
proof (rule build_invI)
  note D = build_invD [OF inv]
  let ?sel = "select_version selected (fst r) (snd r)"
  have r: "required root graph r" using D(1) by simp
  have same: "x = r" if "required root graph x" "key x = key r" for x
    using key_inject [of "snd x" "snd r" "fst x" "fst r"] that r wf
    by (metis prod.collapse well_formed_graph_def)
  show "required root graph x" if "x \<in> set (rest @ reqs)" for x
    using D(1) [of x] required.step [of root graph "fst r" "snd r" reqs x] r g that by auto
  show "insert (key r) visited \<subseteq> key ` {r. required root graph r}"
    using D(2) r by simp
  show "\<exists>reqs'. graph (fst x) (snd x) = Inr reqs'
      \<and> (\<forall>y\<in>set reqs'. pending (insert (key r) visited) (rest @ reqs) y)"
    if "required root graph x" "key x \<in> insert (key r) visited" for x
  proof (cases "key x = key r")
    case True
    with same that(1) have "x = r" by blast
    with g show ?thesis by (auto simp: pending_def)
  next
    case False
    with D(3) [OF that(1)] that(2) show ?thesis using pending_visit by blast
  qed
  show "pending (insert (key r) visited) (rest @ reqs) x" if "x \<in> set root" for x
    using D(4) [OF that] by (rule pending_visit)
  show "dom ?sel = fst ` insert (key r) visited" using D(5) by simp
  show "required root graph (p, v) \<and> key (p, v) \<in> insert (key r) visited"
    if "?sel p = Some v" for p v
    using select_version_cases [OF that] D(6) [of p v] r by auto
  show "version_cmp w v \<noteq> Greater"
    if m: "?sel p = Some v" and w: "required root graph (p, w)" "key (p, w) \<in> insert (key r) visited"
    for p v w
  proof (cases "p = fst r")
    case True
    let ?P = "\<lambda>w. required root graph (p, w) \<and> key (p, w) \<in> visited"
    show ?thesis
    proof (rule select_version_max [where s = selected and p = p and v = "snd r" and P = ?P])
      show "version_cmp w' u \<noteq> Greater" if "selected p = Some u" "?P w'" for u w'
        using D(7) that by blast
      show "select_version selected p (snd r) p = Some v" using m True by simp
      show "?P w \<or> w = snd r" using w same [of "(p, w)"] True by (metis insertE snd_conv)
      show "\<not> ?P w" if "selected p = None"
        using D(5) that by (metis domIff fst_conv imageI)
    qed
  next
    case False
    then have "selected p = Some v" "key (p, w) \<in> visited"
      using select_version_cases [OF m] w(2) by auto
    then show ?thesis using D(7) w(1) by blast
  qed
qed

lemma build_inv_exit_visited:
  assumes "build_inv root graph selected visited []" "required root graph r"
  shows "key r \<in> visited \<and> (\<exists>reqs. graph (fst r) (snd r) = Inr reqs)"
proof -
  note D = build_invD [OF assms(1), unfolded pending_Nil]
  from assms(2) have "key r \<in> visited"
  proof (induction rule: required.induct)
    case (root r)
    then show ?case by (rule D(4))
  next
    case (step p v reqs r)
    with D(3) [of "(p, v)"] show ?case by auto
  qed
  with D(3) [OF assms(2)] show ?thesis by blast
qed

lemma build_inv_exit:
  assumes "build_inv root graph selected visited []"
  shows "minimal_selection root graph selected"
proof -
  note D = build_invD [OF assms]
  have all: "key r \<in> visited" if "required root graph r" for r
    using build_inv_exit_visited [OF assms that] by blast
  have "p \<in> dom selected \<longleftrightarrow> (\<exists>v. required root graph (p, v))" for p
  proof
    assume "p \<in> dom selected"
    then show "\<exists>v. required root graph (p, v)" using D(6) by blast
  next
    assume "\<exists>v. required root graph (p, v)"
    then obtain v where "key (p, v) \<in> visited" using all by blast
    then show "p \<in> dom selected" using D(5) by (metis fst_conv imageI)
  qed
  with D(6,7) all show ?thesis
    unfolding minimal_selection_def by blast
qed

text \<open>What the loop returns, for the induction and for the caller.\<close>

definition build_outcome ::
    "requirement list \<Rightarrow> 'e requirements \<Rightarrow> ('e + selection) option \<Rightarrow> bool" where
  "build_outcome root graph res \<longleftrightarrow>
     (\<exists>m. res = Some (Inr m) \<and> minimal_selection root graph m
          \<and> (\<forall>p v. required root graph (p, v) \<longrightarrow> (\<exists>reqs. graph p v = Inr reqs)))
     \<or> (\<exists>e p v. res = Some (Inl e) \<and> required root graph (p, v) \<and> graph p v = Inl e)"

lemma build_list_loop_outcome:
  assumes "well_formed_graph root graph" "build_inv root graph selected visited queue"
  shows "build_outcome root graph (build_list_loop graph selected visited queue)"
  using assms(2)
proof (induction "(card (key ` {r. required root graph r} - visited), length queue)"
    arbitrary: selected visited queue rule: wf_induct_rule [OF wf_lex_prod [OF wf_less_than wf_less_than]])
  case 1
  have fin: "finite (key ` {r. required root graph r})"
    using assms(1) by (simp add: well_formed_graph_def)
  show ?case
  proof (cases queue)
    case Nil
    with 1(2) show ?thesis
      using build_inv_exit [of root graph selected visited]
        build_inv_exit_visited [of root graph selected visited "(_, _)"]
      by (simp add: build_outcome_def build_list_loop.simps)
  next
    case (Cons r rest)
    note inv = 1(2) [unfolded Cons] and unfold = build_list_loop.simps [of graph selected visited "r # rest"]
    have r: "required root graph r" using inv by (simp add: build_inv_def)
    show ?thesis
    proof (cases "key r \<in> visited")
      case True
      have "build_outcome root graph (build_list_loop graph selected visited rest)"
        using 1(1) [OF _ build_inv_skip [OF inv True]] Cons by simp
      with True show ?thesis by (simp add: Cons unfold)
    next
      case False
      show ?thesis
      proof (cases "graph (fst r) (snd r)")
        case (Inl e)
        with False r have "build_list_loop graph selected visited queue = Some (Inl e)"
          by (simp add: Cons unfold)
        with Inl r show ?thesis unfolding build_outcome_def by (metis prod.collapse)
      next
        case (Inr reqs)
        have "card (key ` {r. required root graph r} - insert (key r) visited)
            < card (key ` {r. required root graph r} - visited)"
          using fin r False by (intro psubset_card_mono) auto
        then have "build_outcome root graph (build_list_loop graph
            (select_version selected (fst r) (snd r)) (insert (key r) visited) (rest @ reqs))"
          using 1(1) [OF _ build_inv_visit [OF inv Inr assms(1)]] by simp
        with False Inr show ?thesis by (simp add: Cons unfold)
      qed
    qed
  qed
qed

lemma build_list_outcome:
  "well_formed_graph root graph \<Longrightarrow> build_outcome root graph (build_list root graph)"
  unfolding build_list_def by (rule build_list_loop_outcome [OF _ build_inv_init])

lemma required_mono:
  assumes "required root graph r" "set root \<subseteq> set root'"
    and "\<And>p v reqs. required root' graph' (p, v) \<Longrightarrow> graph p v = Inr reqs \<Longrightarrow>
           \<exists>reqs'. graph' p v = Inr reqs' \<and> set reqs \<subseteq> set reqs'"
  shows "required root' graph' r"
  using assms(1)
proof (induction rule: required.induct)
  case (root r)
  then show ?case using assms(2) by (blast intro: required.root)
next
  case (step p v reqs r)
  with assms(3) obtain reqs' where "graph' p v = Inr reqs'" "r \<in> set reqs'" by blast
  with step.IH show ?case by (rule required.step)
qed

text \<open>
  C7: on a graph in which finitely many versions are reachable, \<open>build_list\<close> always returns. If
  every reachable version can be read, the result holds exactly the Pomes required anywhere,
  each at the largest version required, and it is the only such selection; otherwise it is the
  error of reading a reachable version.
\<close>

theorem build_list_correct:
  assumes "well_formed_graph root graph"
  shows "(if \<forall>p v. required root graph (p, v) \<longrightarrow> (\<exists>reqs. graph p v = Inr reqs)
          then \<exists>m. build_list root graph = Some (Inr m)
                 \<and> (\<forall>n. minimal_selection root graph n \<longleftrightarrow> n = m)
          else \<exists>e p v. build_list root graph = Some (Inl e)
                 \<and> required root graph (p, v) \<and> graph p v = Inl e)"
proof (cases "\<forall>p v. required root graph (p, v) \<longrightarrow> (\<exists>reqs. graph p v = Inr reqs)")
  case True
  then obtain m where "build_list root graph = Some (Inr m)" "minimal_selection root graph m"
    using build_list_outcome [OF assms] unfolding build_outcome_def by (metis sum.distinct(1))
  then show ?thesis using True minimal_selection_unique [OF _ _ assms] by auto
next
  case False
  then have "\<exists>e p v. build_list root graph = Some (Inl e)
       \<and> required root graph (p, v) \<and> graph p v = Inl e"
    using build_list_outcome [OF assms] unfolding build_outcome_def by metis
  then show ?thesis by (subst if_not_P [OF False])
qed

lemma build_list_Inr:
  assumes "well_formed_graph root graph" "build_list root graph = Some (Inr m)"
  shows "minimal_selection root graph m
     \<and> (\<forall>p v. required root graph (p, v) \<longrightarrow> (\<exists>reqs. graph p v = Inr reqs))"
  using build_list_outcome [OF assms(1)] assms(2) by (auto simp: build_outcome_def)

text \<open>
  C29: the build list depends only on what the reachable versions require: another order of the
  root requirements and other answers for versions nobody requires (new tags) do not change it.
\<close>

theorem build_list_stable:
  assumes "well_formed_graph root graph" "build_list root graph = Some (Inr m)"
    and "set root' = set root"
    and "\<forall>p v. required root graph (p, v) \<longrightarrow> graph' p v = graph p v"
  shows "build_list root' graph' = Some (Inr m)"
proof -
  note ok = build_list_Inr [OF assms(1,2)]
  have 1: "required root' graph' r" if "required root graph r" for r
    using that
  proof (induction rule: required.induct)
    case (step p v reqs r)
    with assms(4) have "graph' p v = Inr reqs" by simp
    with step show ?case by (blast intro: required.step)
  qed (use assms(3) in \<open>auto intro: required.root\<close>)
  have 2: "required root graph r" if "required root' graph' r" for r
    using that
  proof (induction rule: required.induct)
    case (step p v reqs r)
    with assms(4) have "graph p v = Inr reqs" by simp
    with step show ?case by (blast intro: required.step)
  qed (use assms(3) in \<open>auto intro: required.root\<close>)
  have req: "required root' graph' = required root graph" using 1 2 by blast
  then have wf: "well_formed_graph root' graph'"
    using assms(1) by (simp add: well_formed_graph_def)
  from ok have "minimal_selection root' graph' m"
    by (simp add: minimal_selection_def req)
  moreover from ok assms(4) have "\<exists>reqs. graph' p v = Inr reqs" if "required root' graph' (p, v)" for p v
    using that unfolding req by metis
  then obtain m' where "build_list root' graph' = Some (Inr m')" "minimal_selection root' graph' m'"
    using build_list_outcome [OF wf] unfolding build_outcome_def by (metis sum.distinct(1))
  ultimately show ?thesis using minimal_selection_unique [OF _ _ wf] by blast
qed

text \<open>
  Raising requirements never lowers a selected version: with more root requirements, every
  Pome of the old build list stays in the new one, at the same version or a larger one.
\<close>

theorem build_list_monotone:
  assumes "well_formed_graph root' graph" "set root \<subseteq> set root'"
    and "build_list root graph = Some (Inr m)" "build_list root' graph = Some (Inr m')"
    and "m p = Some v"
  shows "\<exists>w. m' p = Some w \<and> version_cmp v w \<noteq> Greater"
proof -
  have sub: "required root' graph r" if "required root graph r" for r
    by (rule required_mono [OF that assms(2)]) blast
  have wf: "well_formed_graph root graph"
    using assms(1) sub finite_subset [of "{r. required root graph r}" "{r. required root' graph r}"]
    unfolding well_formed_graph_def by blast
  have v: "required root' graph (p, v)"
    using build_list_Inr [OF wf assms(3)] assms(5) sub unfolding minimal_selection_def by blast
  note m' = build_list_Inr [OF assms(1,4), THEN conjunct1, unfolded minimal_selection_def]
  from m' v obtain w where "m' p = Some w" by blast
  with m' v show ?thesis by blast
qed

section \<open>The loop of \<open>reached\<close>\<close>

text \<open>
  The Pomes reached: those of the build list of \<open>roots\<close>, and those required by the selected
  version of a Pome reached.
\<close>

inductive reaches :: "source_path set \<Rightarrow> selection \<Rightarrow> 'e requirements \<Rightarrow> source_path \<Rightarrow> bool"
  for start selected graph where
  start: "p \<in> start \<Longrightarrow> reaches start selected graph p"
| step: "reaches start selected graph p \<Longrightarrow> selected p = Some v \<Longrightarrow> graph p v = Inr reqs \<Longrightarrow>
     (q, w) \<in> set reqs \<Longrightarrow> reaches start selected graph q"

lemma visit_requirements_spec:
  "fst (visit_requirements reqs seen queue) = seen \<union> fst ` set reqs
   \<and> set (snd (visit_requirements reqs seen queue)) = set queue \<union> (fst ` set reqs - seen)"
  by (induction reqs seen queue rule: visit_requirements.induct) auto

definition reached_inv ::
    "source_path set \<Rightarrow> selection \<Rightarrow> 'e requirements \<Rightarrow> source_path set \<Rightarrow> source_path list \<Rightarrow> bool"
    where
  "reached_inv start selected graph seen queue \<longleftrightarrow>
     start \<subseteq> seen \<and> (\<forall>p\<in>seen. reaches start selected graph p) \<and> set queue \<subseteq> seen
     \<and> (\<forall>p\<in>seen - set queue. \<forall>v. selected p = Some v \<longrightarrow>
          (\<exists>reqs. graph p v = Inr reqs \<and> fst ` set reqs \<subseteq> seen))"

lemma reached_invI:
  assumes "start \<subseteq> seen" "\<And>p. p \<in> seen \<Longrightarrow> reaches start selected graph p" "set queue \<subseteq> seen"
    and "\<And>p v. p \<in> seen - set queue \<Longrightarrow> selected p = Some v \<Longrightarrow>
           \<exists>reqs. graph p v = Inr reqs \<and> fst ` set reqs \<subseteq> seen"
  shows "reached_inv start selected graph seen queue"
  unfolding reached_inv_def using assms by (intro conjI ballI allI impI) simp_all

lemma set_butlast_last: "q \<noteq> [] \<Longrightarrow> set q = insert (last q) (set (butlast q))"
  by (induction q rule: rev_induct) auto

lemma reached_inv_step:
  assumes inv: "reached_inv start selected graph seen queue" and q: "queue \<noteq> []"
    and g: "selected (last queue) = Some v" "graph (last queue) v = Inr reqs"
  shows "reached_inv start selected graph (fst (visit_requirements reqs seen (butlast queue)))
           (snd (visit_requirements reqs seen (butlast queue)))"
proof -
  let ?seen = "seen \<union> fst ` set reqs" and ?p = "last queue"
  let ?queue = "snd (visit_requirements reqs seen (butlast queue))"
  note spec = visit_requirements_spec [of reqs seen "butlast queue"]
  have p: "reaches start selected graph ?p"
    using inv last_in_set [OF q] unfolding reached_inv_def by blast
  have closed: "\<forall>p\<in>seen - set queue. \<forall>v. selected p = Some v \<longrightarrow>
      (\<exists>reqs. graph p v = Inr reqs \<and> fst ` set reqs \<subseteq> seen)"
    using inv unfolding reached_inv_def by (elim conjE)
  have old: "start \<subseteq> seen" "set queue \<subseteq> seen" "\<And>x. x \<in> seen \<Longrightarrow> reaches start selected graph x"
    using inv unfolding reached_inv_def by blast+
  have "reaches start selected graph x" if "x \<in> ?seen" for x
  proof (cases "x \<in> seen")
    case False
    with that obtain w where "(x, w) \<in> set reqs" by auto
    then show ?thesis by (rule reaches.step [OF p g])
  qed (rule old(3))
  moreover have "\<exists>reqs'. graph x u = Inr reqs' \<and> fst ` set reqs' \<subseteq> ?seen"
    if "x \<in> ?seen - set ?queue" "selected x = Some u" for x u
  proof (cases "x = ?p")
    case True
    with g that(2) show ?thesis by auto
  next
    case False
    from that spec have "x \<in> seen" "x \<notin> set (butlast queue)" by blast+
    with False set_butlast_last [OF q] have "x \<in> seen - set queue" by blast
    from closed [rule_format, OF this that(2)] show ?thesis by blast
  qed
  moreover have "set ?queue \<subseteq> ?seen"
    using old(2) spec set_butlast_last [OF q] by auto
  moreover have "start \<subseteq> ?seen" using old(1) by blast
  ultimately have "reached_inv start selected graph ?seen ?queue" by (intro reached_invI)
  then show ?thesis using spec by simp
qed

lemma reached_loop_outcome:
  assumes fin: "finite {p. reaches start selected graph p}"
    and inv: "reached_inv start selected graph seen queue"
  shows "(\<exists>e. reached_loop selected graph seen queue = Some (Inl e)
            \<and> (\<exists>p v. reaches start selected graph p \<and> selected p = Some v \<and> graph p v = Inl e))
      \<or> (reached_loop selected graph seen queue = Some (Inr {p. reaches start selected graph p}))"
  using inv
proof (induction "(card ({p. reaches start selected graph p} - seen), length queue)"
    arbitrary: seen queue rule: wf_induct_rule [OF wf_lex_prod [OF wf_less_than wf_less_than]])
  case 1
  note inv = 1(2)
  show ?case
  proof (cases "queue = []")
    case True
    have "reaches start selected graph p \<Longrightarrow> p \<in> seen" for p
    proof (induction rule: reaches.induct)
      case (step p v reqs q w)
      with inv True obtain reqs' where "graph p v = Inr reqs'" "fst ` set reqs' \<subseteq> seen"
        by (auto simp: reached_inv_def)
      with step show ?case by force
    qed (use inv in \<open>auto simp: reached_inv_def\<close>)
    with inv have "seen = {p. reaches start selected graph p}"
      by (auto simp: reached_inv_def)
    with True show ?thesis by (simp add: reached_loop.simps)
  next
    case False
    let ?p = "last queue"
    have p: "reaches start selected graph ?p" using inv last_in_set [OF False] unfolding reached_inv_def by blast
    note unfold = reached_loop.simps [of selected graph seen queue]
    have shorter: "length (butlast queue) < length queue" using False by simp
    show ?thesis
    proof (cases "selected ?p")
      case None
      have "reached_inv start selected graph seen (butlast queue)"
        using inv set_butlast_last [OF False] None unfolding reached_inv_def by auto
      from 1(1) [OF _ this] shorter None False show ?thesis by (simp add: unfold)
    next
      case (Some v)
      show ?thesis
      proof (cases "graph ?p v")
        case (Inl e)
        with Some False p show ?thesis by (auto simp: unfold)
      next
        case (Inr reqs)
        let ?vr = "visit_requirements reqs seen (butlast queue)"
        note spec = visit_requirements_spec [of reqs seen "butlast queue"]
        note inv' = reached_inv_step [OF inv False Some Inr]
        have new: "fst ` set reqs \<subseteq> {p. reaches start selected graph p}"
          using inv' spec by (auto simp: reached_inv_def)
        have "card ({p. reaches start selected graph p} - fst ?vr) < card ({p. reaches start selected graph p} - seen)
            \<or> (fst ?vr = seen \<and> length (snd ?vr) < length queue)"
        proof (cases "fst ` set reqs \<subseteq> seen")
          case True
          then have "fst ?vr = seen" using spec by auto
          moreover have "snd (visit_requirements reqs s q) = q" if "fst ` set reqs \<subseteq> s" for s q
            using that by (induction reqs s q rule: visit_requirements.induct) auto
          ultimately show ?thesis using True shorter by simp
        next
          case False
          then obtain q where "q \<in> fst ` set reqs" "q \<notin> seen" by blast
          with new spec have "{p. reaches start selected graph p} - fst ?vr
              \<subset> {p. reaches start selected graph p} - seen"
            by blast
          with fin have "card ({p. reaches start selected graph p} - fst ?vr)
              < card ({p. reaches start selected graph p} - seen)"
            by (intro psubset_card_mono) auto
          then show ?thesis ..
        qed
        then have "(\<exists>e. reached_loop selected graph (fst ?vr) (snd ?vr) = Some (Inl e)
            \<and> (\<exists>p v. reaches start selected graph p \<and> selected p = Some v \<and> graph p v = Inl e))
          \<or> reached_loop selected graph (fst ?vr) (snd ?vr)
              = Some (Inr {p. reaches start selected graph p})"
          using 1(1) [OF _ inv'] by auto
        with Some Inr False show ?thesis by (simp add: unfold)
      qed
    qed
  qed
qed

text \<open>
  \<open>reached\<close> returns, and its result is exactly the Pomes of the build list of \<open>roots\<close>
  and those that the selected versions of reached Pomes require, or the error of reading one.
\<close>

theorem reached_correct:
  assumes "well_formed_graph roots graph" "build_list roots graph = Some (Inr m)"
    and "finite {p. reaches (dom m) selected graph p}"
  shows "reached roots selected graph = Some (Inr {p. reaches (dom m) selected graph p})
     \<or> (\<exists>e p v. reached roots selected graph = Some (Inl e)
          \<and> reaches (dom m) selected graph p \<and> selected p = Some v \<and> graph p v = Inl e)"
proof -
  have "finite (dom m)"
    by (rule finite_subset [OF _ assms(3)]) (auto intro: reaches.start)
  then have "reached_inv (dom m) selected graph (dom m) (sorted_list_of_set (dom m))"
    by (auto simp: reached_inv_def intro: reaches.start)
  from reached_loop_outcome [OF assms(3) this] show ?thesis
    by (auto simp: reached_def assms(2))
qed

section \<open>An example graph\<close>

text \<open>
  The root requires B and C; B requires D 1.3 and C requires D 1.4. Reading any other version is
  an error.
\<close>

definition ver :: "nat \<Rightarrow> version" where
  "ver n = \<lparr>major = 1, minor = n, patch = 0, prerelease = [], raw = version_text 1 n 0 []\<rparr>"

definition pome :: "string \<Rightarrow> source_path" where
  "pome s = SourcePath (''example.com/'' @ s)"

definition example_root :: "requirement list" where
  "example_root = [(pome ''b'', ver 2), (pome ''c'', ver 2)]"

definition example_graph :: "string requirements" where
  "example_graph p v =
     (if (p, v) = (pome ''b'', ver 2) then Inr [(pome ''d'', ver 3)]
      else if (p, v) = (pome ''c'', ver 2) then Inr [(pome ''d'', ver 4)]
      else if p = pome ''d'' then Inr [] else Inl ''unknown'')"

lemma pome_inject [simp]: "pome s = pome t \<longleftrightarrow> s = t"
  by (simp add: pome_def)

lemma ver_simps [simp]: "minor (ver n) = n" "ver m = ver n \<longleftrightarrow> m = n"
  using arg_cong [of "ver m" "ver n" minor] by (auto simp: ver_def)

lemma version_wf_ver: "n < 10 \<Longrightarrow> version_wf (ver n)"
  by (simp add: version_wf_def ver_def u64_bound_def)

lemma example_required:
  "required example_root example_graph r \<Longrightarrow>
   r \<in> {(pome ''b'', ver 2), (pome ''c'', ver 2), (pome ''d'', ver 3), (pome ''d'', ver 4)}"
  by (induction rule: required.induct)
    (auto simp: example_root_def example_graph_def split: if_splits)

lemma example_wf: "well_formed_graph example_root example_graph"
proof -
  have "finite {r. required example_root example_graph r}"
    by (rule finite_subset [of _ "{(pome ''b'', ver 2), (pome ''c'', ver 2), (pome ''d'', ver 3), (pome ''d'', ver 4)}"])
      (use example_required in auto)
  then show ?thesis
    unfolding well_formed_graph_def using example_required version_wf_ver by fastforce
qed

lemma raw_ver [simp]: "m < 10 \<Longrightarrow> n < 10 \<Longrightarrow> raw (ver m) = raw (ver n) \<longleftrightarrow> m = n"
  using version_wf_raw_inject version_parse_text version_wf_ver by (metis sum.inject(2) ver_simps(2))

definition example_build :: selection where
  "example_build = [pome ''b'' \<mapsto> ver 2, pome ''c'' \<mapsto> ver 2, pome ''d'' \<mapsto> ver 4]"

lemma version_cmp_ver [simp]: "version_cmp (ver m) (ver n) = cmp_of m n"
  by (simp add: version_cmp_def ver_def cmp_of_def compare_prerelease_def then_with_def)

lemma example_build_list: "build_list example_root example_graph = Some (Inr example_build)"
  by (simp add: build_list_def build_list_loop.simps example_root_def example_graph_def
      select_version_def example_build_def)

lemma required_eval:
  "required example_root example_graph (pome ''b'', ver 2)"
  "required example_root example_graph (pome ''c'', ver 2)"
  "required example_root example_graph (pome ''d'', ver 3)"
  "required example_root example_graph (pome ''d'', ver 4)"
proof -
  show b: "required example_root example_graph (pome ''b'', ver 2)"
    and c: "required example_root example_graph (pome ''c'', ver 2)"
    by (auto intro: required.root simp: example_root_def)
  show "required example_root example_graph (pome ''d'', ver 3)"
    by (rule required.step [OF b]) (auto simp: example_graph_def)
  show "required example_root example_graph (pome ''d'', ver 4)"
    by (rule required.step [OF c]) (auto simp: example_graph_def)
qed

lemma example_readable:
  "\<forall>p v. required example_root example_graph (p, v) \<longrightarrow> (\<exists>reqs. example_graph p v = Inr reqs)"
  using example_required by (fastforce simp: example_graph_def)

theorem build_list_correct_witness:
  "\<exists>m. build_list example_root example_graph = Some (Inr m)
     \<and> (\<forall>n. minimal_selection example_root example_graph n \<longleftrightarrow> n = m)"
  using build_list_correct [OF example_wf] unfolding if_P [OF example_readable] .

theorem build_list_stable_witness:
  "build_list (rev example_root) example_graph = Some (Inr example_build)"
  using build_list_stable [OF example_wf example_build_list, of "rev example_root" example_graph]
  by simp

theorem build_list_monotone_witness:
  "\<exists>w. example_build (pome ''d'') = Some w \<and> version_cmp (ver 3) w \<noteq> Greater"
proof -
  let ?root = "[(pome ''b'', ver 2)]" and ?m = "[pome ''b'' \<mapsto> ver 2, pome ''d'' \<mapsto> ver 3]"
  have old: "build_list ?root example_graph = Some (Inr ?m)"
    by (simp add: build_list_def build_list_loop.simps example_graph_def select_version_def)
  have "set ?root \<subseteq> set example_root" by (simp add: example_root_def)
  from build_list_monotone [OF example_wf this old example_build_list, of "pome ''d''" "ver 3"]
  show ?thesis by simp
qed

lemma example_reaches: "finite {p. reaches (dom example_build) example_build example_graph p}"
proof (rule finite_subset [of _ "{pome ''b'', pome ''c'', pome ''d''}"])
  have "reaches (dom example_build) example_build example_graph p \<Longrightarrow>
      p \<in> {pome ''b'', pome ''c'', pome ''d''}" for p
    by (induction rule: reaches.induct)
      (auto simp: example_build_def example_graph_def split: if_splits)
  then show "{p. reaches (dom example_build) example_build example_graph p}
      \<subseteq> {pome ''b'', pome ''c'', pome ''d''}" by blast
qed simp

theorem reached_correct_witness:
  "reached example_root example_build example_graph
     = Some (Inr {p. reaches (dom example_build) example_build example_graph p})
   \<or> (\<exists>e p v. reached example_root example_build example_graph = Some (Inl e)
        \<and> reaches (dom example_build) example_build example_graph p
        \<and> example_build p = Some v \<and> example_graph p v = Inl e)"
  by (rule reached_correct [OF example_wf example_build_list example_reaches])

end
