(* ===== verification/Pome_Hash.thy ===== *)
theory Pome_Hash
  imports Emela_Prelude "HOL-Library.Monad_Syntax"
begin

text \<open>
  The content hash of a Pome: \<open>crates/emela-pome/src/hash.rs\<close>.

  SHA-256 and the base64 engine are arguments. The hash of a tree is shown not to depend on the
  order the files come in, and to name the tree: two trees with one hash are the same tree,
  unless one of the strings hashed has a second preimage.
\<close>

section \<open>Operations\<close>

definition MANIFEST_FILE :: string where
  "MANIFEST_FILE = ''Pome.toml''"

datatype h1 = H1 string

fun h1_str :: "h1 \<Rightarrow> string" where
  "h1_str (H1 s) = s"

datatype hash_error = Malformed string | BadPath string string

definition h1_parse :: "(string \<Rightarrow> bytes option) \<Rightarrow> string \<Rightarrow> hash_error + h1" where
  "h1_parse b64d s =
     (if (case strip_prefix ''h1:'' s of
            None \<Rightarrow> False
          | Some b \<Rightarrow> length b = 44 \<and> ends_with ''='' b
              \<and> (case b64d b of None \<Rightarrow> False | Some d \<Rightarrow> length d = 32))
      then Inr (H1 s) else Inl (Malformed s))"

definition check_path :: "string \<Rightarrow> hash_error + unit" where
  "check_path p =
     (if p = [] then Inl (BadPath p ''empty'')
      else if CHR 0x0A \<in> set p \<or> CHR 0x0D \<in> set p then Inl (BadPath p ''contains a newline'')
      else if CHR 0x5C \<in> set p then Inl (BadPath p ''contains a backslash'')
      else if list_ex (\<lambda>e. e = [] \<or> e = ''.'' \<or> e = ''..'') (split_on CHR ''/'' p)
        then Inl (BadPath p ''must be a clean relative path'')
      else if p = ''.git'' \<or> starts_with ''.git/'' p
        then Inl (BadPath p ''`.git` is not part of the tree'')
      else Inr ())"

text \<open>The loop that checks the paths and digests the contents.\<close>

fun tree_entries :: "sha \<Rightarrow> (string \<times> bytes) list \<Rightarrow> hash_error + (string \<times> bytes) list" where
  "tree_entries sha [] = Inr []"
| "tree_entries sha ((p, c) # fs) =
     (case check_path p of
        Inl e \<Rightarrow> Inl e
      | Inr _ \<Rightarrow>
          (case tree_entries sha fs of
             Inl e \<Rightarrow> Inl e
           | Inr es \<Rightarrow> Inr ((p, sha c) # es)))"

text \<open>\<open>windows(2).find\<close> with equal neighbours.\<close>

fun adjacent_dup :: "('a \<Rightarrow> 'b) \<Rightarrow> 'a list \<Rightarrow> 'a option" where
  "adjacent_dup f (a # b # xs) = (if f a = f b then Some a else adjacent_dup f (b # xs))"
| "adjacent_dup f _ = None"

definition hex_digit :: "nat \<Rightarrow> char" where
  "hex_digit n = (if n < 10 then digit_char n else char_of (87 + n))"

definition hex_byte :: "8 word \<Rightarrow> string" where
  "hex_byte b = [hex_digit (unat b div 16), hex_digit (unat b mod 16)]"

definition summary_line :: "string \<times> bytes \<Rightarrow> string" where
  "summary_line e = concat (map hex_byte (snd e)) @ ''  '' @ fst e @ [CHR 0x0A]"

definition by_path :: "string \<times> bytes \<Rightarrow> string \<times> bytes \<Rightarrow> ordering" where
  "by_path a b = cmp_of (fst a) (fst b)"

definition tree_hash ::
    "sha \<Rightarrow> (bytes \<Rightarrow> string) \<Rightarrow> (string \<times> bytes) list \<Rightarrow> hash_error + h1" where
  "tree_hash sha b64e files =
     (case tree_entries sha files of
        Inl e \<Rightarrow> Inl e
      | Inr es \<Rightarrow>
          (let sorted = sort_by by_path es in
           case adjacent_dup fst sorted of
             Some w \<Rightarrow> Inl (BadPath (fst w) ''duplicate path'')
           | None \<Rightarrow>
               Inr (H1 (''h1:'' @ b64e (sha (as_bytes (concat (map summary_line sorted))))))))"

definition manifest_hash :: "sha \<Rightarrow> (bytes \<Rightarrow> string) \<Rightarrow> bytes \<Rightarrow> h1 option" where
  "manifest_hash sha b64e content =
     (case tree_hash sha b64e [(MANIFEST_FILE, content)] of Inl _ \<Rightarrow> None | Inr h \<Rightarrow> Some h)"

section \<open>Sorting by path\<close>

interpretation path_cmp: total_cmp by_path
  by unfold_locales (auto simp: by_path_def)

lemma adjacent_dup_sorted:
  assumes "sorted_wrt (\<lambda>a b. by_path a b \<noteq> Greater) xs"
  shows "adjacent_dup fst xs = None \<longleftrightarrow> distinct (map fst xs)"
  using assms
proof (induction xs rule: induct_list012)
  case (3 a b xs)
  show ?case
  proof (cases "fst a = fst b")
    case False
    have "fst a \<noteq> fst c" if "c \<in> set xs" for c
      using 3(3) False that by (auto simp: by_path_def)
    with False 3 show ?thesis by auto
  qed auto
qed simp_all

lemma sort_by_path_unique:
  assumes "mset es = mset es'" "distinct (map fst es)"
  shows "sort_by by_path es = sort_by by_path es'"
proof (rule map_sorted_distinct_set_unique [of fst])
  have sorted: "sorted (map fst (sort_by by_path xs))" for xs :: "(string \<times> bytes) list"
    using path_cmp.sorted_sort_by [of xs] by (simp add: sorted_map sorted_wrt_map by_path_def not_less)
  show "sorted (map fst (sort_by by_path es))" "sorted (map fst (sort_by by_path es'))"
    by (rule sorted)+
  have d: "distinct (map fst xs) \<longleftrightarrow> distinct (map fst ys)" if "mset xs = mset ys" for xs ys :: "(string \<times> bytes) list"
    using that by (metis mset_map mset_eq_imp_distinct_iff)
  show "distinct (map fst (sort_by by_path es))" "distinct (map fst (sort_by by_path es'))"
    using assms d [of "sort_by by_path es" es] d [of "sort_by by_path es'" es] by auto
  show "set (sort_by by_path es) = set (sort_by by_path es')"
    using mset_eq_setD [OF assms(1)] by simp
  show "inj_on fst (set (sort_by by_path es) \<union> set (sort_by by_path es'))"
    using assms mset_eq_setD [OF assms(1)] by (simp add: distinct_map)
qed

section \<open>Entries\<close>

lemma tree_entries_ok:
  "tree_entries sha fs = Inr es \<longleftrightarrow>
     (\<forall>f\<in>set fs. check_path (fst f) = Inr ()) \<and> es = map (\<lambda>f. (fst f, sha (snd f))) fs"
proof (induction fs arbitrary: es)
  case (Cons f fs)
  obtain p c where f: "f = (p, c)" by (cases f)
  show ?case
  proof (cases "tree_entries sha fs")
    case (Inl e)
    with Cons.IH [of "map (\<lambda>f. (fst f, sha (snd f))) fs"] f show ?thesis
      by (auto split: sum.splits)
  next
    case (Inr es')
    with Cons.IH [of es'] f show ?thesis by (auto split: sum.splits)
  qed
qed auto

lemma tree_hash_ok:
  "tree_hash sha b64e fs = Inr h \<longleftrightarrow>
     (\<forall>f\<in>set fs. check_path (fst f) = Inr ()) \<and> distinct (map fst fs)
     \<and> h = H1 (''h1:'' @ b64e (sha (as_bytes (concat (map summary_line
           (sort_by by_path (map (\<lambda>f. (fst f, sha (snd f))) fs)))))))"
proof -
  let ?es = "map (\<lambda>f. (fst f, sha (snd f))) fs"
  have "distinct (map fst (sort_by by_path ?es)) \<longleftrightarrow> distinct (map fst fs)"
    using mset_eq_imp_distinct_iff [of "map fst (sort_by by_path ?es)" "map fst ?es"]
    by (simp add: multiset.map_comp comp_def)
  then have "adjacent_dup fst (sort_by by_path ?es) = None \<longleftrightarrow> distinct (map fst fs)"
    using adjacent_dup_sorted [OF path_cmp.sorted_sort_by] by blast
  note dup = this
  show ?thesis
  proof (cases "\<forall>f\<in>set fs. check_path (fst f) = Inr ()")
    case True
    then have "tree_entries sha fs = Inr ?es" using tree_entries_ok by blast
    with True dup show ?thesis by (auto simp: tree_hash_def Let_def split: option.splits)
  next
    case False
    then obtain e where "tree_entries sha fs = Inl e"
      using tree_entries_ok by (cases "tree_entries sha fs") blast+
    with False show ?thesis by (simp add: tree_hash_def)
  qed
qed

section \<open>The summary determines its entries\<close>

lemma hex_digit_inject: "m < 16 \<Longrightarrow> n < 16 \<Longrightarrow> hex_digit m = hex_digit n \<longleftrightarrow> m = n"
proof -
  have b: "byte (hex_digit k) = (if k < 10 then 48 + k else 87 + k)" if "k < 16" for k
    using that by (simp add: hex_digit_def byte_digit_char byte_char_of)
  assume m: "m < 16" and n: "n < 16"
  show ?thesis unfolding byte_inject [symmetric] b [OF m] b [OF n] using m n by simp
qed

lemma hex_byte_inject: "hex_byte a = hex_byte b \<longleftrightarrow> a = b"
proof
  assume "hex_byte a = hex_byte b"
  moreover have "unat x div 16 < 16" for x :: "8 word"
  proof -
    have "unat x < 2 ^ LENGTH(8)" by (rule unsigned_less)
    then show ?thesis by (simp add: less_mult_imp_div_less)
  qed
  ultimately have "unat a div 16 = unat b div 16" "unat a mod 16 = unat b mod 16"
    by (auto simp: hex_byte_def hex_digit_inject)
  then have "unat a = unat b" by (metis div_mult_mod_eq)
  then show "a = b" by (rule unsigned_word_eqI)
qed simp

lemma hex_inject:
  "length a = length b \<Longrightarrow> concat (map hex_byte a) @ s = concat (map hex_byte b) @ t \<Longrightarrow> a = b \<and> s = t"
proof (induction a b rule: list_induct2)
  case (Cons x a y b)
  then have "hex_byte x @ concat (map hex_byte a) @ s = hex_byte y @ concat (map hex_byte b) @ t" by simp
  then have "hex_byte x = hex_byte y" "concat (map hex_byte a) @ s = concat (map hex_byte b) @ t"
    by (auto simp: hex_byte_def)
  with Cons.IH show ?case by (simp add: hex_byte_inject)
qed simp

lemma split_newline:
  assumes "c \<notin> set p" "c \<notin> set q" "p @ c # s = q @ c # t"
  shows "p = q \<and> s = t"
  using arg_cong [OF assms(3), of "split_once c"] assms(1,2) by (simp add: split_once_append)

lemma summary_inject:
  assumes "\<forall>e\<in>set es. length (snd e) = 32 \<and> CHR 0x0A \<notin> set (fst e)"
    and "\<forall>e\<in>set es'. length (snd e) = 32 \<and> CHR 0x0A \<notin> set (fst e)"
    and "concat (map summary_line es) = concat (map summary_line es')"
  shows "es = es'"
  using assms
proof (induction es arbitrary: es')
  case Nil
  then show ?case by (cases es') (auto simp: summary_line_def)
next
  case (Cons e es)
  then obtain e' es'' where es': "es' = e' # es''" by (cases es') (auto simp: summary_line_def)
  have "concat (map hex_byte (snd e)) @ (''  '' @ fst e @ CHR 0x0A # concat (map summary_line es))
      = concat (map hex_byte (snd e')) @ (''  '' @ fst e' @ CHR 0x0A # concat (map summary_line es''))"
    using Cons.prems(3) es' by (simp add: summary_line_def [of e] summary_line_def [of e'])
  moreover have "length (snd e) = length (snd e')" using Cons.prems es' by simp
  ultimately have snd: "snd e = snd e'"
    and "''  '' @ fst e @ CHR 0x0A # concat (map summary_line es)
      = ''  '' @ fst e' @ CHR 0x0A # concat (map summary_line es'')"
    using hex_inject by blast+
  then have rest: "fst e @ CHR 0x0A # concat (map summary_line es) = fst e' @ CHR 0x0A # concat (map summary_line es'')"
    by simp
  note snd
  moreover from split_newline [OF _ _ rest] Cons.prems es' have "fst e = fst e'"
    "concat (map summary_line es) = concat (map summary_line es'')" by auto
  ultimately show ?case using Cons.IH [of es''] Cons.prems es' by (simp add: prod_eq_iff)
qed

section \<open>What a hash stands for\<close>

lemma check_path_no_newline: "check_path p = Inr () \<Longrightarrow> CHR 0x0A \<notin> set p"
  by (auto simp: check_path_def split: if_splits)

text \<open>
  the order in which the files of a tree are given does not matter: a tree that has a hash has
  the same one in every order.
\<close>

theorem tree_hash_order:
  assumes "tree_hash sha b64e files = Inr h" "mset files' = mset files"
  shows "tree_hash sha b64e files' = Inr h"
proof -
  let ?e = "\<lambda>f. (fst f, sha (snd f))"
  have d: "distinct (map fst files)" "distinct (map fst files')"
    using assms mset_eq_imp_distinct_iff [of "map fst files" "map fst files'"]
    by (auto simp: tree_hash_ok)
  have "sort_by by_path (map ?e files) = sort_by by_path (map ?e files')"
    using d(1) assms(2) by (intro sort_by_path_unique) (auto simp: comp_def)
  then show ?thesis
    using assms d(2) mset_eq_setD [OF assms(2)] by (simp add: tree_hash_ok)
qed

lemma same_hash_same_files:
  assumes "tree_hash sha b64e files = Inr h" "tree_hash sha b64e files' = Inr h"
    and "inj b64e" "sha_len sha" "no_second_preimage sha (snd ` set files)"
    and "no_second_preimage sha {as_bytes (concat (map summary_line
           (sort_by by_path (map (\<lambda>f. (fst f, sha (snd f))) files))))}"
  shows "mset files = mset files'"
proof -
  let ?e = "\<lambda>f. (fst f, sha (snd f))"
  let ?s = "\<lambda>fs. sort_by by_path (map ?e fs)"
  have ok: "\<forall>f\<in>set files. check_path (fst f) = Inr ()" "\<forall>f\<in>set files'. check_path (fst f) = Inr ()"
    "distinct (map fst files)" "distinct (map fst files')"
    using assms(1,2) by (auto simp: tree_hash_ok)
  have "b64e (sha (as_bytes (concat (map summary_line (?s files'))))) =
      b64e (sha (as_bytes (concat (map summary_line (?s files)))))"
    using assms(1,2) by (auto simp: tree_hash_ok)
  then have "as_bytes (concat (map summary_line (?s files'))) = as_bytes (concat (map summary_line (?s files)))"
    using assms(3,6) unfolding no_second_preimage_def by (auto dest: injD)
  then have "concat (map summary_line (?s files)) = concat (map summary_line (?s files'))" by simp
  moreover have "\<forall>e\<in>set (?s fs). length (snd e) = 32 \<and> CHR 0x0A \<notin> set (fst e)"
    if "\<forall>f\<in>set fs. check_path (fst f) = Inr ()" for fs :: "(string \<times> bytes) list"
    using that assms(4) check_path_no_newline by (auto simp: sha_len_def)
  ultimately have eq: "?s files = ?s files'" using ok(1,2) by (intro summary_inject) auto
  have entries: "?e ` set files = ?e ` set files'"
    using arg_cong [OF eq, of set] unfolding set_sort_by set_map .
  have "f \<in> set files" if f': "f \<in> set files'" for f
  proof -
    have "?e f \<in> ?e ` set files" unfolding entries using f' by (rule imageI)
    then obtain g where g: "g \<in> set files" "fst g = fst f" "sha (snd f) = sha (snd g)" by auto
    with assms(5) have "snd f = snd g" unfolding no_second_preimage_def by blast
    with g show ?thesis by (metis prod.collapse)
  qed
  moreover have "length files = length files'" using arg_cong [OF eq, of length] by simp
  moreover have dd: "distinct files" "distinct files'" using ok(3,4) by (auto simp: distinct_map)
  ultimately have "set files' = set files"
    by (intro card_subset_eq) (auto simp: distinct_card)
  with dd show ?thesis by (simp add: set_eq_iff_mset_eq_distinct)
qed

text \<open>
  C24: a hash stands for one tree: if two trees have the same hash, then they have the same files
  with the same contents, provided that base64 is injective and neither the contents nor the
  summary of the first have a second preimage under SHA-256.
\<close>

theorem tree_hash_inject:
  assumes "tree_hash sha b64e files = Inr h" "tree_hash sha b64e files' = Inr h"
    and "inj b64e" "sha_len sha" "no_second_preimage sha (snd ` set files)"
    and "no_second_preimage sha {as_bytes (concat (map summary_line
           (sort_by by_path (map (\<lambda>f. (fst f, sha (snd f))) files))))}"
  shows "mset files = mset files'"
  using assms by (rule same_hash_same_files)

text \<open>\<open>manifest_hash\<close> never panics: \<open>Pome.toml\<close> is a valid path.\<close>

theorem manifest_hash_total:
  "\<exists>h. manifest_hash sha b64e content = Some h
     \<and> tree_hash sha b64e [(MANIFEST_FILE, content)] = Inr h"
proof -
  have "check_path MANIFEST_FILE = Inr ()"
    by (simp add: check_path_def MANIFEST_FILE_def starts_with_def)
  then have "\<exists>h. tree_hash sha b64e [(MANIFEST_FILE, content)] = Inr h"
    by (simp add: tree_hash_ok)
  then show ?thesis by (auto simp: manifest_hash_def)
qed

section \<open>An example tree\<close>

definition toy_summary :: string where
  "toy_summary = summary_line (''a'', replicate 32 1)"

definition tree_sha :: sha where
  "tree_sha x = (if x = [7] then replicate 32 1
                 else if x = as_bytes toy_summary then replicate 32 2 else replicate 32 0)"

definition toy_b64 :: "bytes \<Rightarrow> string" where
  "toy_b64 = map (\<lambda>w. char_of (unat w))"

lemma toy_b64_inj: "inj toy_b64"
proof -
  have "inj (\<lambda>w::8 word. char_of (unat w) :: char)"
  proof (rule injI)
    fix x y :: "8 word"
    assume "(char_of (unat x) :: char) = char_of (unat y)"
    moreover have "unat w < 256" for w :: "8 word"
      using unsigned_less [of w] by (simp add: unsigned_less)
    ultimately have "unat x = unat y" by (metis byte_char_of)
    then show "x = y" by (rule unsigned_word_eqI)
  qed
  then show ?thesis unfolding toy_b64_def by (rule inj_mapI)
qed

lemma replicate_neq: "a \<noteq> b \<Longrightarrow> replicate 32 a \<noteq> replicate 32 b"
  using replicate_eq_replicate [of 32 a 32 b] by simp

lemma tree_sha_ok:
  "sha_len tree_sha" "no_second_preimage tree_sha {[7]}" "no_second_preimage tree_sha {as_bytes toy_summary}"
proof -
  have "as_bytes toy_summary \<noteq> [7]" by (simp add: toy_summary_def summary_line_def as_bytes_def)
  then show "sha_len tree_sha" "no_second_preimage tree_sha {[7]}"
    "no_second_preimage tree_sha {as_bytes toy_summary}"
    by (auto simp: sha_len_def no_second_preimage_def tree_sha_def replicate_neq split: if_splits)
qed

lemma toy_tree_hash: "\<exists>h. tree_hash tree_sha toy_b64 [(''a'', [7])] = Inr h"
  by (simp add: tree_hash_ok check_path_def starts_with_def)

theorem tree_hash_inject_witness: "mset [(''a'', [7::8 word])] = mset [(''a'', [7])]"
proof -
  obtain h where h: "tree_hash tree_sha toy_b64 [(''a'', [7])] = Inr h" using toy_tree_hash by blast
  show ?thesis
    by (rule tree_hash_inject [OF h h toy_b64_inj tree_sha_ok(1)])
      (use tree_sha_ok(2,3) in \<open>simp_all add: sort_by_def tree_sha_def toy_summary_def\<close>)
qed

theorem tree_hash_order_witness:
  "tree_hash tree_sha toy_b64 [(''b'', [9]), (''a'', [7])] = tree_hash tree_sha toy_b64 [(''a'', [7]), (''b'', [9])]"
proof -
  have "\<exists>h. tree_hash tree_sha toy_b64 [(''a'', [7]), (''b'', [9])] = Inr h"
    by (simp add: tree_hash_ok check_path_def starts_with_def)
  then obtain h where h: "tree_hash tree_sha toy_b64 [(''a'', [7]), (''b'', [9])] = Inr h" by blast
  from tree_hash_order [OF h, of "[(''b'', [9]), (''a'', [7])]"] h show ?thesis by simp
qed

end
