(* ===== verification/Pome_Lock.thy ===== *)
theory Pome_Lock
  imports Pome_Source_Path Pome_Hash
begin

text \<open>
  The lock file: \<open>crates/emela-pome/src/lock.rs\<close>.

  Reading and writing TOML is the \<open>toml\<close> crate with the derived \<open>serde\<close> code, which parses
  each field with the functions of the other theories; both directions are arguments. What is
  modelled is everything the file does around them.
\<close>

section \<open>Operations\<close>

definition LOCK_FORMAT_VERSION :: nat where
  "LOCK_FORMAT_VERSION = 1"

record locked =
  locked_path :: source_path
  locked_version :: version
  commit :: string
  hash :: h1
  locked_manifest :: h1
  external :: "string list"
  dev :: bool

record lock = pomes :: "locked list"

datatype lock_error = LockError string

record lock_file =
  file_version :: nat
  file_pomes :: "locked list"

definition lock_new :: "locked list \<Rightarrow> lock" where
  "lock_new ps = \<lparr>pomes = sort_by (\<lambda>a b. cmp_of (locked_path a) (locked_path b)) ps\<rparr>"

definition is_commit :: "string \<Rightarrow> bool" where
  "is_commit c \<longleftrightarrow>
     length c = 40 \<and> list_all (\<lambda>b. is_ascii_digit b \<or> (97 \<le> byte b \<and> byte b \<le> 102)) c"

definition lock_parse :: "(string \<Rightarrow> string + lock_file) \<Rightarrow> string \<Rightarrow> lock_error + lock" where
  "lock_parse from_toml text =
     (case from_toml text of
        Inl e \<Rightarrow> Inl (LockError e)
      | Inr file \<Rightarrow>
          if file_version file \<noteq> LOCK_FORMAT_VERSION
          then Inl (LockError (''unknown format version '' @ show_nat (file_version file)))
          else (case find (\<lambda>p. \<not> is_commit (commit p)) (file_pomes file) of
                  Some p \<Rightarrow> Inl (LockError (''`'' @ path_str (locked_path p)
                              @ ''`: commit must be 40 hex digits''))
                | None \<Rightarrow>
                    (let l = lock_new (file_pomes file) in
                     case adjacent_dup locked_path (pomes l) of
                       Some w \<Rightarrow> Inl (LockError (''`'' @ path_str (locked_path w) @ ''` appears twice''))
                     | None \<Rightarrow> Inr l)))"

definition lock_header :: string where
  "lock_header = ''# Written by `emela pome`. Do not edit.'' @ [CHR 0x0A]"

definition to_toml :: "(lock_file \<Rightarrow> string) \<Rightarrow> lock \<Rightarrow> string" where
  "to_toml print_toml l =
     lock_header @ print_toml \<lparr>file_version = LOCK_FORMAT_VERSION, file_pomes = pomes l\<rparr>"

definition lock_get :: "lock \<Rightarrow> source_path \<Rightarrow> locked option" where
  "lock_get l p = find (\<lambda>e. locked_path e = p) (pomes l)"

definition has_external :: "string \<Rightarrow> bool" where
  "has_external content =
     list_ex (\<lambda>l. starts_with ''@external'' (trim_start l)) (lines content)"

definition lock_external_files :: "(string \<times> string) list \<Rightarrow> string list" where
  "lock_external_files files =
     sort_by cmp_of
       (map fst (filter (\<lambda>f. has_external (snd f))
          (filter (\<lambda>f. ends_with ''.emel'' (fst f) \<and> \<not> starts_with ''test/'' (fst f)) files)))"

section \<open>Locks\<close>

interpretation locked_cmp: total_cmp "\<lambda>a b. cmp_of (locked_path a) (locked_path b)"
  by unfold_locales auto

text \<open>What every lock that is read promises: one entry per Pome, sorted, with real commits.\<close>

definition lock_wf :: "lock \<Rightarrow> bool" where
  "lock_wf l \<longleftrightarrow>
     sorted_wrt (<) (map locked_path (pomes l)) \<and> (\<forall>p\<in>set (pomes l). is_commit (commit p))"

lemma adjacent_dup_strict:
  assumes "sorted_wrt (\<lambda>a b. f a \<le> f b) xs"
  shows "adjacent_dup f xs = None \<longleftrightarrow> sorted_wrt (<) (map f (xs :: 'a list) :: ('b::linorder) list)"
  using assms
proof (induction xs rule: induct_list012)
  case (3 a b xs)
  show ?case
  proof (cases "f a = f b")
    case False
    with 3 have "f a < f b" by (simp add: order.strict_iff_order)
    moreover have "f b \<le> f c" if "c \<in> set xs" for c using 3(3) that by simp
    ultimately show ?thesis using 3 False by fastforce
  qed simp
qed simp_all

lemma lock_new_sorted: "sorted_wrt (\<lambda>a b. locked_path a \<le> locked_path b) (pomes (lock_new ps))"
  using locked_cmp.sorted_sort_by [of ps] by (simp add: lock_new_def not_less)

lemma lock_parse_Inr:
  "lock_parse from_toml text = Inr l \<longleftrightarrow>
     (\<exists>file. from_toml text = Inr file \<and> file_version file = LOCK_FORMAT_VERSION
        \<and> (\<forall>p\<in>set (file_pomes file). is_commit (commit p))
        \<and> l = lock_new (file_pomes file) \<and> sorted_wrt (<) (map locked_path (pomes l)))"
proof (cases "from_toml text")
  case (Inr f)
  have commits: "find (\<lambda>p. \<not> is_commit (commit p)) (file_pomes f) = None \<longleftrightarrow>
      (\<forall>p\<in>set (file_pomes f). is_commit (commit p))" by (auto simp: find_None_iff)
  note dup = adjacent_dup_strict [OF lock_new_sorted [of "file_pomes f"]]
  show ?thesis
  proof (cases "find (\<lambda>p. \<not> is_commit (commit p)) (file_pomes f)")
    case None
    with commits dup Inr show ?thesis
      by (cases "adjacent_dup locked_path (pomes (lock_new (file_pomes f)))")
        (auto simp: lock_parse_def Let_def)
  next
    case (Some p)
    with commits have "\<not> (\<forall>p\<in>set (file_pomes f). is_commit (commit p))" by simp
    with Inr Some show ?thesis by (auto simp: lock_parse_def)
  qed
qed (simp add: lock_parse_def)

text \<open>
  a lock that is read is well formed: one entry per Pome, sorted by source path, every commit
  40 hex digits; and \<open>get\<close> finds exactly its entries.
\<close>

theorem lock_parse_wf:
  assumes "lock_parse from_toml text = Inr l"
  shows "lock_wf l \<and> (\<forall>p e. lock_get l p = Some e \<longleftrightarrow> e \<in> set (pomes l) \<and> locked_path e = p)"
proof -
  from assms have "\<exists>ps. (\<forall>p\<in>set ps. is_commit (commit p)) \<and> l = lock_new ps
      \<and> sorted_wrt (<) (map locked_path (pomes l))"
    unfolding lock_parse_Inr by fast
  then obtain ps where commits: "\<forall>p\<in>set ps. is_commit (commit p)" "l = lock_new ps"
    and sorted: "sorted_wrt (<) (map locked_path (pomes l))" by fast
  from commits sorted have wf: "lock_wf l" by (auto simp: lock_wf_def lock_new_def)
  have inj: "e = e'" if "e \<in> set (pomes l)" "e' \<in> set (pomes l)" "locked_path e = locked_path e'" for e e'
    using that sorted by (metis distinct_map inj_onD strict_sorted_iff)
  have "lock_get l p = Some e \<longleftrightarrow> e \<in> set (pomes l) \<and> locked_path e = p" for p e
  proof
    assume "lock_get l p = Some e"
    then show "e \<in> set (pomes l) \<and> locked_path e = p" by (auto simp: lock_get_def find_Some_iff)
  next
    assume e: "e \<in> set (pomes l) \<and> locked_path e = p"
    then obtain e' where "lock_get l p = Some e'"
      unfolding lock_get_def by (cases "find (\<lambda>e. locked_path e = p) (pomes l)") (auto simp: find_None_iff)
    moreover from this have "e' \<in> set (pomes l)" "locked_path e' = p"
      by (auto simp: lock_get_def find_Some_iff)
    ultimately show "lock_get l p = Some e" using inj e by metis
  qed
  with wf show ?thesis by blast
qed


text \<open>
  \<open>external_files\<close> lists, in order, exactly the \<open>.emel\<close> files outside \<open>test/\<close> with a line
  that starts with \<open>@external\<close>.
\<close>

theorem external_files_correct:
  "sorted (lock_external_files files)
   \<and> (\<forall>p. p \<in> set (lock_external_files files) \<longleftrightarrow>
        (\<exists>c. (p, c) \<in> set files \<and> ends_with ''.emel'' p \<and> \<not> starts_with ''test/'' p \<and> has_external c))"
proof
  have "sorted (sort_by cmp_of (xs :: string list))" for xs
    using linorder_cmp.sorted_sort_by [of xs] by (simp add: sorted_wrt_iff_nth_less sorted_iff_nth_mono_less not_less)
  then show "sorted (lock_external_files files)" by (simp add: lock_external_files_def)
  show "\<forall>p. p \<in> set (lock_external_files files) \<longleftrightarrow>
        (\<exists>c. (p, c) \<in> set files \<and> ends_with ''.emel'' p \<and> \<not> starts_with ''test/'' p \<and> has_external c)"
    by (force simp: lock_external_files_def)
qed

section \<open>An example lock\<close>

definition toy_locked :: "string \<Rightarrow> locked" where
  "toy_locked s =
     \<lparr>locked_path = SourcePath s,
      locked_version = \<lparr>major = 1, minor = 0, patch = 0, prerelease = [], raw = ''v1.0.0''\<rparr>,
      commit = replicate 40 CHR ''0'', hash = H1 [], locked_manifest = H1 [], external = [], dev = False\<rparr>"

definition toy_lock :: lock where
  "toy_lock = \<lparr>pomes = [toy_locked ''a.b/c'', toy_locked ''a.b/d'']\<rparr>"

text \<open>A TOML library that knows one document.\<close>

definition toy_from_toml :: "lock_file \<Rightarrow> string \<Rightarrow> string + lock_file" where
  "toy_from_toml f s = (if s = lock_header then Inr f else Inl ''syntax'')"

lemma is_commit_toy: "is_commit (replicate 40 CHR ''0'')"
  by (simp add: is_commit_def list_all_iff is_ascii_digit_def byte_def)

lemma toy_lock_wf: "lock_wf toy_lock"
  by (simp add: lock_wf_def toy_lock_def toy_locked_def is_commit_toy less_source_path_def)

theorem lock_parse_wf_witness:
  "lock_wf toy_lock \<and> lock_get toy_lock (SourcePath ''a.b/d'') = Some (toy_locked ''a.b/d'')"
proof -
  let ?f = "\<lparr>file_version = 1, file_pomes = [toy_locked ''a.b/d'', toy_locked ''a.b/c'']\<rparr>"
  have "lock_new (file_pomes ?f) = toy_lock"
    by (simp add: lock_new_def sort_by_def toy_lock_def toy_locked_def cmp_of_def less_source_path_def)
  moreover have "sorted_wrt (<) (map locked_path (pomes toy_lock))"
    using toy_lock_wf by (simp add: lock_wf_def)
  ultimately have "lock_parse (toy_from_toml ?f) lock_header = Inr toy_lock"
    by (auto simp: lock_parse_Inr toy_from_toml_def LOCK_FORMAT_VERSION_def toy_locked_def is_commit_toy)
  from lock_parse_wf [OF this] show ?thesis by (simp add: toy_lock_def) (simp add: toy_locked_def)
qed


end
