(* ===== verification/Core_Types.thy ===== *)
theory Core_Types
  imports Emela_Prelude "HOL-Library.Monad_Syntax" "HOL-Library.Sublist"
begin

text \<open>
  The types of the Core IR: the hash-consed type table of \<open>crates/emela-core/src/ir.rs\<close>, with
  substitution of type parameters (\<open>subst_type\<close>) and the erasure of sets (\<open>erase_sets\<close>).

  A table is threaded through every operation that may add a type. \<open>None\<close> stands for a panic (an
  index out of range, a full table, an \<open>unreachable!\<close>) and for the end of the fuel; the theorems show
  that neither happens on a well-formed table with room.
\<close>

section \<open>Operations\<close>

type_synonym type_id = nat
type_synonym enum_id = nat
type_synonym effect_id = nat

definition TYPE_INT :: type_id where "TYPE_INT = 0"
definition TYPE_INT64 :: type_id where "TYPE_INT64 = 1"
definition TYPE_FLOAT :: type_id where "TYPE_FLOAT = 2"
definition TYPE_BOOL :: type_id where "TYPE_BOOL = 3"
definition TYPE_STRING :: type_id where "TYPE_STRING = 4"
definition TYPE_UNIT :: type_id where "TYPE_UNIT = 5"
definition TYPE_NEVER :: type_id where "TYPE_NEVER = 6"
definition TYPE_EVIDENCE :: type_id where "TYPE_EVIDENCE = 7"
definition TYPE_FIBER_SCOPE :: type_id where "TYPE_FIBER_SCOPE = 8"
definition TYPE_ANY :: type_id where "TYPE_ANY = 9"
definition TYPE_BYTES :: type_id where "TYPE_BYTES = 10"

lemmas TYPE_defs = TYPE_INT_def TYPE_INT64_def TYPE_FLOAT_def TYPE_BOOL_def TYPE_STRING_def
  TYPE_UNIT_def TYPE_NEVER_def TYPE_EVIDENCE_def TYPE_FIBER_SCOPE_def TYPE_ANY_def TYPE_BYTES_def

record set_summary =
  set_fails :: bool
  set_suspends :: bool
  set_ev :: bool
  set_params :: "type_id list"

record fn_sets =
  fs_errors :: type_id
  fs_effects :: type_id

record fn_type =
  ft_params :: "type_id list"
  ft_ret :: type_id
  ft_fails :: bool
  ft_suspends :: bool
  ft_ev :: bool
  ft_sets :: "fn_sets option"

datatype core_type =
    TyInt | TyInt64 | TyFloat | TyBool | TyString | TyBytes
  | TyArray type_id
  | TyUnit | TyNever
  | TyTuple "type_id list"
  | TyList type_id
  | TyEnum enum_id "type_id list"
  | TyParam nat
  | TyFn fn_type
  | TyHandler effect_id
  | TyEvidence
  | TyCell type_id
  | TyFiberScope | TyAny
  | TySet set_summary

definition set_unknown :: set_summary where
  "set_unknown = \<lparr>set_fails = True, set_suspends = True, set_ev = True, set_params = []\<rparr>"

definition set_merge :: "set_summary \<Rightarrow> set_summary \<Rightarrow> set_summary" where
  "set_merge s other =
     \<lparr>set_fails = set_fails s \<or> set_fails other, set_suspends = set_suspends s \<or> set_suspends other,
      set_ev = set_ev s \<or> set_ev other, set_params = set_params s @ set_params other\<rparr>"

definition fn_pure :: "type_id list \<Rightarrow> type_id \<Rightarrow> fn_type" where
  "fn_pure params ret =
     \<lparr>ft_params = params, ft_ret = ret, ft_fails = False, ft_suspends = False, ft_ev = False,
      ft_sets = None\<rparr>"

record type_table =
  types :: "core_type list"
  param_flags :: "bool list"
  ids :: "core_type \<rightharpoonup> type_id"

definition tt_index :: "type_table \<Rightarrow> type_id \<Rightarrow> core_type option" where
  "tt_index t i = (if i < length (types t) then Some (types t ! i) else None)"

definition has_param :: "type_table \<Rightarrow> type_id \<Rightarrow> bool option" where
  "has_param t i = (if i < length (param_flags t) then Some (param_flags t ! i) else None)"

fun any_param :: "type_table \<Rightarrow> type_id list \<Rightarrow> bool option" where
  "any_param t [] = Some False"
| "any_param t (i # is) = do { b \<leftarrow> has_param t i; if b then Some True else any_param t is }"

fun type_has_param :: "type_table \<Rightarrow> core_type \<Rightarrow> bool option" where
  "type_has_param t (TyParam i) = Some True"
| "type_has_param t (TyTuple ts) = any_param t ts"
| "type_has_param t (TyEnum e ts) = any_param t ts"
| "type_has_param t (TyList i) = has_param t i"
| "type_has_param t (TyArray i) = has_param t i"
| "type_has_param t (TyCell i) = has_param t i"
| "type_has_param t (TyFn f) =
     do { b \<leftarrow> any_param t (ft_params f);
          if b then Some True
          else do { c \<leftarrow> has_param t (ft_ret f); Some (c \<or> ft_sets f \<noteq> None) } }"
| "type_has_param t (TySet s) = Some (set_params s \<noteq> [])"
| "type_has_param t _ = Some False"

definition u32_bound :: nat where
  "u32_bound = 2 ^ 32"

definition intern :: "type_table \<Rightarrow> core_type \<Rightarrow> (type_id \<times> type_table) option" where
  "intern t ty =
     (case ids t ty of
        Some i \<Rightarrow> Some (i, t)
      | None \<Rightarrow>
          if length (types t) < u32_bound then
            do { b \<leftarrow> type_has_param t ty;
                 Some (length (types t),
                       \<lparr>types = types t @ [ty], param_flags = param_flags t @ [b],
                        ids = (ids t)(ty \<mapsto> length (types t))\<rparr>) }
          else None)"

fun intern_each :: "type_table \<Rightarrow> core_type list \<Rightarrow> type_table option" where
  "intern_each t [] = Some t"
| "intern_each t (ty # tys) = do { (i, t) \<leftarrow> intern t ty; intern_each t tys }"

definition base_types :: "core_type list" where
  "base_types = [TyInt, TyInt64, TyFloat, TyBool, TyString, TyUnit, TyNever, TyEvidence,
     TyFiberScope, TyAny, TyBytes]"

definition default_table :: "type_table option" where
  "default_table = intern_each \<lparr>types = [], param_flags = [], ids = Map.empty\<rparr> base_types"

definition tt_get :: "type_table \<Rightarrow> core_type \<Rightarrow> type_id option" where
  "tt_get t ty = ids t ty"

definition tt_len :: "type_table \<Rightarrow> nat" where
  "tt_len t = length (types t)"

definition tt_is_empty :: "type_table \<Rightarrow> bool" where
  "tt_is_empty t = (types t = [])"

definition tt_list :: "type_table \<Rightarrow> type_id \<Rightarrow> (type_id \<times> type_table) option" where
  "tt_list t elem = intern t (TyList elem)"

definition tt_tuple :: "type_table \<Rightarrow> type_id list \<Rightarrow> (type_id \<times> type_table) option" where
  "tt_tuple t elems = intern t (TyTuple elems)"

definition tt_enum_type ::
  "type_table \<Rightarrow> enum_id \<Rightarrow> type_id list \<Rightarrow> (type_id \<times> type_table) option" where
  "tt_enum_type t e args = intern t (TyEnum e args)"

definition tt_func :: "type_table \<Rightarrow> fn_type \<Rightarrow> (type_id \<times> type_table) option" where
  "tt_func t f = intern t (TyFn f)"

definition tt_cell :: "type_table \<Rightarrow> type_id \<Rightarrow> (type_id \<times> type_table) option" where
  "tt_cell t content = intern t (TyCell content)"

definition tt_type_param :: "type_table \<Rightarrow> nat \<Rightarrow> (type_id \<times> type_table) option" where
  "tt_type_param t i = intern t (TyParam i)"

definition tt_handler :: "type_table \<Rightarrow> effect_id \<Rightarrow> (type_id \<times> type_table) option" where
  "tt_handler t e = intern t (TyHandler e)"

fun erase_sets :: "nat \<Rightarrow> type_table \<Rightarrow> type_id \<Rightarrow> (type_id \<times> type_table) option"
  and erase_all :: "nat \<Rightarrow> type_table \<Rightarrow> type_id list \<Rightarrow> (type_id list \<times> type_table) option" where
  "erase_sets 0 t ty = None"
| "erase_sets (Suc n) t ty =
     do { c \<leftarrow> tt_index t ty;
          case c of
            TySet s \<Rightarrow> Some (TYPE_UNIT, t)
          | TyTuple ts \<Rightarrow> do { (ts', t) \<leftarrow> erase_all n t ts; intern t (TyTuple ts') }
          | TyList i \<Rightarrow> do { (i', t) \<leftarrow> erase_sets n t i; intern t (TyList i') }
          | TyArray i \<Rightarrow> do { (i', t) \<leftarrow> erase_sets n t i; intern t (TyArray i') }
          | TyEnum e ts \<Rightarrow> do { (ts', t) \<leftarrow> erase_all n t ts; intern t (TyEnum e ts') }
          | TyCell i \<Rightarrow> do { (i', t) \<leftarrow> erase_sets n t i; intern t (TyCell i') }
          | TyFn f \<Rightarrow>
              do { (ps, t) \<leftarrow> erase_all n t (ft_params f);
                   (r, t) \<leftarrow> erase_sets n t (ft_ret f);
                   intern t (TyFn (f\<lparr>ft_params := ps, ft_ret := r, ft_sets := None\<rparr>)) }
          | _ \<Rightarrow> Some (ty, t) }"
| "erase_all n t [] = Some ([], t)"
| "erase_all n t (ty # tys) =
     do { (i, t) \<leftarrow> erase_sets n t ty; (is, t) \<leftarrow> erase_all n t tys; Some (i # is, t) }"

definition arg_or :: "type_id list \<Rightarrow> nat \<Rightarrow> type_id \<Rightarrow> type_id" where
  "arg_or args i ty = (if i < length args then args ! i else ty)"

fun subst_set_loop :: "type_table \<Rightarrow> type_id list \<Rightarrow> set_summary \<Rightarrow> type_id list \<Rightarrow> set_summary option" where
  "subst_set_loop t args out [] = Some out"
| "subst_set_loop t args out (p # ps) =
     do { c \<leftarrow> tt_index t p;
          let arg = (case c of TyParam i \<Rightarrow> arg_or args i p | _ \<Rightarrow> p);
          d \<leftarrow> tt_index t arg;
          subst_set_loop t args
            (case d of
               TySet a \<Rightarrow> set_merge out a
             | TyParam _ \<Rightarrow> out\<lparr>set_params := set_params out @ [arg]\<rparr>
             | _ \<Rightarrow> set_merge out set_unknown) ps }"

definition subst_set :: "type_table \<Rightarrow> set_summary \<Rightarrow> type_id list \<Rightarrow> set_summary option" where
  "subst_set t s args =
     do { out \<leftarrow> subst_set_loop t args (s\<lparr>set_params := []\<rparr>) (set_params s);
          Some (out\<lparr>set_params := remdups_adj (sort (set_params out))\<rparr>) }"

definition fn_with_sets ::
  "type_table \<Rightarrow> type_id list \<Rightarrow> type_id \<Rightarrow> fn_type \<Rightarrow> type_id \<Rightarrow> type_id \<Rightarrow> fn_type option" where
  "fn_with_sets t params ret old errors effects =
     (case (tt_index t errors, tt_index t effects) of
        (Some (TySet e), Some (TySet r)) \<Rightarrow>
          if set_params e = [] \<and> set_params r = [] then
            Some \<lparr>ft_params = params, ft_ret = ret, ft_fails = set_fails e, ft_suspends = set_suspends r,
                  ft_ev = set_ev r, ft_sets = None\<rparr>
          else
            Some \<lparr>ft_params = params, ft_ret = ret, ft_fails = ft_fails old \<or> set_fails e,
                  ft_suspends = ft_suspends old \<or> set_suspends r, ft_ev = ft_ev old \<or> set_ev r,
                  ft_sets = Some \<lparr>fs_errors = errors, fs_effects = effects\<rparr>\<rparr>
      | _ \<Rightarrow> None)"

text \<open>
  \<open>subst_type\<close> for the store that is the table itself: \<open>may_change\<close> is \<open>has_param\<close> and
  \<open>map_effect\<close> the identity, the defaults of the trait \<open>TypeStore\<close>.
\<close>

definition may_change :: "type_table \<Rightarrow> type_id \<Rightarrow> bool option" where
  "may_change t ty = has_param t ty"

definition map_effect :: "effect_id \<Rightarrow> effect_id" where
  "map_effect e = e"

fun subst_type :: "nat \<Rightarrow> type_table \<Rightarrow> type_id \<Rightarrow> type_id list \<Rightarrow> (type_id \<times> type_table) option"
  and subst_all ::
    "nat \<Rightarrow> type_table \<Rightarrow> type_id list \<Rightarrow> type_id list \<Rightarrow> (type_id list \<times> type_table) option" where
  "subst_type 0 t ty args = None"
| "subst_type (Suc n) t ty args =
     do { b \<leftarrow> may_change t ty;
          if \<not> b then Some (ty, t)
          else do { c \<leftarrow> tt_index t ty;
            case c of
              TyParam i \<Rightarrow> Some (arg_or args i ty, t)
            | TyTuple ts \<Rightarrow> do { (ts', t) \<leftarrow> subst_all n t ts args; intern t (TyTuple ts') }
            | TyList i \<Rightarrow> do { (i', t) \<leftarrow> subst_type n t i args; intern t (TyList i') }
            | TyArray i \<Rightarrow> do { (i', t) \<leftarrow> subst_type n t i args; intern t (TyArray i') }
            | TyEnum e ts \<Rightarrow> do { (ts', t) \<leftarrow> subst_all n t ts args; intern t (TyEnum e ts') }
            | TyCell i \<Rightarrow> do { (i', t) \<leftarrow> subst_type n t i args; intern t (TyCell i') }
            | TyHandler e \<Rightarrow> intern t (TyHandler (map_effect e))
            | TySet s \<Rightarrow> do { s' \<leftarrow> subst_set t s args; intern t (TySet s') }
            | TyFn f \<Rightarrow>
                do { (ps, t) \<leftarrow> subst_all n t (ft_params f) args;
                     (r, t) \<leftarrow> subst_type n t (ft_ret f) args;
                     case ft_sets f of
                       None \<Rightarrow> intern t (TyFn (f\<lparr>ft_params := ps, ft_ret := r\<rparr>))
                     | Some sets \<Rightarrow>
                         do { (e, t) \<leftarrow> subst_type n t (fs_errors sets) args;
                              (x, t) \<leftarrow> subst_type n t (fs_effects sets) args;
                              g \<leftarrow> fn_with_sets t ps r f e x;
                              intern t (TyFn g) } }
            | _ \<Rightarrow> Some (ty, t) } }"
| "subst_all n t [] args = Some ([], t)"
| "subst_all n t (ty # tys) args =
     do { (i, t) \<leftarrow> subst_type n t ty args; (is, t) \<leftarrow> subst_all n t tys args; Some (i # is, t) }"

section \<open>The meaning of a type\<close>

text \<open>
  The specification: a type is a tree. \<open>trees\<close> reads a table in the order of its IDs, so a component
  is looked up among the types before it.
\<close>

datatype ty_tree =
    TLeaf core_type
  | TParam nat
  | TArray ty_tree
  | TTuple "ty_tree list"
  | TList ty_tree
  | TEnum enum_id "ty_tree list"
  | TCell ty_tree
  | TFn "ty_tree list" ty_tree bool bool bool "(ty_tree \<times> ty_tree) option"
  | TSet bool bool bool "nat set"

fun param_index :: "ty_tree \<Rightarrow> nat" where
  "param_index (TParam i) = i"
| "param_index _ = 0"

fun node :: "ty_tree list \<Rightarrow> core_type \<Rightarrow> ty_tree" where
  "node acc (TyParam i) = TParam i"
| "node acc (TyArray i) = TArray (acc ! i)"
| "node acc (TyTuple ts) = TTuple (map (nth acc) ts)"
| "node acc (TyList i) = TList (acc ! i)"
| "node acc (TyEnum e ts) = TEnum e (map (nth acc) ts)"
| "node acc (TyCell i) = TCell (acc ! i)"
| "node acc (TyFn f) =
     TFn (map (nth acc) (ft_params f)) (acc ! ft_ret f) (ft_fails f) (ft_suspends f) (ft_ev f)
       (map_option (\<lambda>s. (acc ! fs_errors s, acc ! fs_effects s)) (ft_sets f))"
| "node acc (TySet s) =
     TSet (set_fails s) (set_suspends s) (set_ev s) ((\<lambda>p. param_index (acc ! p)) ` set (set_params s))"
| "node acc c = TLeaf c"

definition trees :: "core_type list \<Rightarrow> ty_tree list" where
  "trees cs = foldl (\<lambda>acc c. acc @ [node acc c]) [] cs"

definition tree :: "type_table \<Rightarrow> type_id \<Rightarrow> ty_tree" where
  "tree t i = trees (types t) ! i"

text \<open>The contract of a table entry: its components are earlier types of the right kind.\<close>

definition is_TyParam :: "core_type \<Rightarrow> bool" where
  "is_TyParam c \<longleftrightarrow> (\<exists>i. c = TyParam i)"

definition is_TySet :: "core_type \<Rightarrow> bool" where
  "is_TySet c \<longleftrightarrow> (\<exists>s. c = TySet s)"

fun comps_ok :: "core_type list \<Rightarrow> core_type \<Rightarrow> bool" where
  "comps_ok cs (TyArray i) = (i < length cs)"
| "comps_ok cs (TyTuple ts) = (\<forall>i\<in>set ts. i < length cs)"
| "comps_ok cs (TyList i) = (i < length cs)"
| "comps_ok cs (TyEnum e ts) = (\<forall>i\<in>set ts. i < length cs)"
| "comps_ok cs (TyCell i) = (i < length cs)"
| "comps_ok cs (TyFn f) =
     ((\<forall>i\<in>set (ft_params f). i < length cs) \<and> ft_ret f < length cs
      \<and> (\<forall>s. ft_sets f = Some s \<longrightarrow>
            (fs_errors s < length cs \<and> is_TySet (cs ! fs_errors s)
             \<and> fs_effects s < length cs \<and> is_TySet (cs ! fs_effects s))))"
| "comps_ok cs (TySet s) =
     (sorted_wrt (<) (set_params s)
      \<and> (\<forall>p\<in>set (set_params s). p < length cs \<and> is_TyParam (cs ! p)))"
| "comps_ok cs _ = True"

fun has_tparam :: "ty_tree \<Rightarrow> bool" where
  "has_tparam (TLeaf c) = False"
| "has_tparam (TParam i) = True"
| "has_tparam (TArray t) = has_tparam t"
| "has_tparam (TTuple ts) = (\<exists>t\<in>set ts. has_tparam t)"
| "has_tparam (TList t) = has_tparam t"
| "has_tparam (TEnum e ts) = (\<exists>t\<in>set ts. has_tparam t)"
| "has_tparam (TCell t) = has_tparam t"
| "has_tparam (TFn ps r f s e sets) = ((\<exists>t\<in>set ps. has_tparam t) \<or> has_tparam r \<or> sets \<noteq> None)"
| "has_tparam (TSet f s e ps) = (ps \<noteq> {})"

definition table_ok :: "type_table \<Rightarrow> bool" where
  "table_ok t \<longleftrightarrow>
     length (param_flags t) = length (types t) \<and> prefix base_types (types t) \<and> distinct (types t)
     \<and> (\<forall>c i. ids t c = Some i \<longleftrightarrow> i < length (types t) \<and> types t ! i = c)
     \<and> (\<forall>i < length (types t). comps_ok (take i (types t)) (types t ! i))
     \<and> (\<forall>i < length (types t). param_flags t ! i = has_tparam (tree t i))"

lemma nth_trees: "nth (trees (types t)) = tree t"
  by (simp add: tree_def fun_eq_iff)

lemma trees_simps [simp]: "trees [] = []" "trees (cs @ [c]) = trees cs @ [node (trees cs) c]"
  by (simp_all add: trees_def)

lemma length_trees [simp]: "length (trees cs) = length cs"
  by (induction cs rule: rev_induct) simp_all

lemma trees_append: "\<exists>ts. trees (cs @ ds) = trees cs @ ts"
proof (induction ds rule: rev_induct)
  case (snoc d ds)
  then obtain ts where "trees (cs @ ds) = trees cs @ ts" by blast
  then show ?case using trees_simps(2) [of "cs @ ds" d] by simp
qed simp

lemma nth_trees_append [simp]: "i < length cs \<Longrightarrow> trees (cs @ ds) ! i = trees cs ! i"
  using trees_append [of cs ds] by (auto simp: nth_append)

lemma nth_trees_take: "j < i \<Longrightarrow> i \<le> length cs \<Longrightarrow> trees (take i cs) ! j = trees cs ! j"
  by (metis append_take_drop_id length_take min.absorb2 nth_trees_append)

lemma comps_ok_append: "comps_ok cs c \<Longrightarrow> comps_ok (cs @ ds) c"
  by (cases c) (auto simp: nth_append dest: bspec)

lemma node_cong:
  assumes "comps_ok cs c" "\<And>i. i < length cs \<Longrightarrow> acc ! i = acc' ! i"
  shows "node acc c = node acc' c"
  using assms by (cases c) (auto simp: image_def intro!: option.map_cong0)

lemma tree_node:
  assumes "i < length cs" "comps_ok (take i cs) (cs ! i)"
  shows "trees cs ! i = node (trees cs) (cs ! i)"
proof -
  have "trees cs ! i = trees (take (Suc i) cs) ! i"
    using assms(1) nth_trees_take [of i "Suc i" cs] by simp
  also have "\<dots> = node (trees (take i cs)) (cs ! i)"
    using assms(1) by (simp add: take_Suc_conv_app_nth nth_append)
  also have "\<dots> = node (trees cs) (cs ! i)"
    using assms by (intro node_cong [OF assms(2)]) (simp add: nth_trees_take)
  finally show ?thesis .
qed

section \<open>Types and IDs\<close>

lemma map_nth_inject:
  assumes "distinct acc" "\<forall>i\<in>set is. i < length acc" "\<forall>i\<in>set js. i < length acc"
  shows "map (nth acc) is = map (nth acc) js \<longleftrightarrow> is = js"
proof
  assume "map (nth acc) is = map (nth acc) js"
  moreover have "inj_on (nth acc) (set is \<union> set js)"
    using assms by (intro inj_onI) (auto simp: nth_eq_iff_index_eq)
  ultimately show "is = js" by (rule map_inj_on)
qed simp

lemma set_params_inject:
  assumes "distinct acc" "length acc = length cs"
    and params: "\<And>i. i < length cs \<Longrightarrow> is_TyParam (cs ! i) \<Longrightarrow> acc ! i = TParam (param_index (acc ! i))"
    and "comps_ok cs (TySet s)" "comps_ok cs (TySet s')"
    and eq: "(\<lambda>p. param_index (acc ! p)) ` set (set_params s) = (\<lambda>p. param_index (acc ! p)) ` set (set_params s')"
  shows "set_params s = set_params s'"
proof -
  let ?A = "set (set_params s) \<union> set (set_params s')"
  have "inj_on (\<lambda>p. param_index (acc ! p)) ?A"
  proof (rule inj_onI)
    fix p q assume pq: "p \<in> ?A" "q \<in> ?A" "param_index (acc ! p) = param_index (acc ! q)"
    with assms(4,5) params [of p] params [of q] have "acc ! p = acc ! q" by force
    with pq assms show "p = q" by (auto simp: nth_eq_iff_index_eq)
  qed
  then have "set (set_params s) = set (set_params s')" using eq by (simp add: inj_on_Un_image_eq_iff)
  then show ?thesis using assms(4,5) by (simp add: strict_sorted_equal)
qed

lemma node_inject:
  assumes "distinct acc" "length acc = length cs"
    and params: "\<And>i. i < length cs \<Longrightarrow> is_TyParam (cs ! i) \<Longrightarrow> acc ! i = TParam (param_index (acc ! i))"
    and ok: "comps_ok cs c" "comps_ok cs d" and eq: "node acc c = node acc d"
  shows "c = d"
proof -
  note inj = map_nth_inject [OF assms(1)] nth_eq_iff_index_eq [OF assms(1)]
  show ?thesis
  proof (cases c)
    case (TySet s)
    with eq obtain s' where d: "d = TySet s'" by (cases d) auto
    with TySet have "set_params s = set_params s'"
      using eq ok by (intro set_params_inject [OF assms(1,2) params]) auto
    with TySet d eq show ?thesis by simp
  next
    case (TyFn f)
    with eq obtain g where d: "d = TyFn g" by (cases d) auto
    have "ft_params f = ft_params g" "ft_ret f = ft_ret g"
      using eq ok assms(2) unfolding TyFn d by (simp_all add: inj)
    moreover have "ft_sets f = ft_sets g"
      using eq ok assms(2) unfolding TyFn d
      by (cases "ft_sets f"; cases "ft_sets g") (simp_all add: inj)
    ultimately show ?thesis using eq unfolding TyFn d by simp
  qed (use eq ok assms(2) in \<open>cases d; simp add: inj\<close>)+
qed

lemma trees_distinct:
  assumes "distinct cs" "\<forall>i < length cs. comps_ok (take i cs) (cs ! i)"
  shows "distinct (trees cs)"
  using assms
proof (induction cs rule: rev_induct)
  case (snoc c cs)
  have "comps_ok (take i cs) (cs ! i)" if "i < length cs" for i
    using snoc.prems(2) [rule_format, of i] that by (simp add: nth_append)
  then have ok: "\<forall>i < length cs. comps_ok (take i cs) (cs ! i)" by blast
  have c: "comps_ok cs c" using snoc.prems(2) by (auto dest: spec [of _ "length cs"])
  have ok': "comps_ok cs (cs ! i)" if "i < length cs" for i
    using ok that comps_ok_append [of "take i cs" _ "drop i cs"] by simp
  have nodes: "trees cs ! i = node (trees cs) (cs ! i)" if "i < length cs" for i
    using ok that by (simp add: tree_node)
  have params: "trees cs ! i = TParam (param_index (trees cs ! i))"
    if "i < length cs" "is_TyParam (cs ! i)" for i
    using nodes [OF that(1)] that(2) by (auto simp: is_TyParam_def)
  have dist: "distinct (trees cs)" using snoc.IH snoc.prems(1) ok by simp
  have "trees cs ! i \<noteq> node (trees cs) c" if "i < length cs" for i
  proof
    assume "trees cs ! i = node (trees cs) c"
    then have "node (trees cs) c = node (trees cs) (cs ! i)" using nodes that by simp
    then have "c = cs ! i" using node_inject [OF dist length_trees params c ok' [OF that]] by blast
    with snoc.prems(1) that show False by auto
  qed
  then have "node (trees cs) c \<notin> set (trees cs)" by (auto simp: in_set_conv_nth)
  with dist show ?case by simp
qed simp

lemma table_okD:
  assumes "table_ok t"
  shows table_ok_length: "length (param_flags t) = length (types t)"
    and table_ok_ids: "ids t c = Some i \<longleftrightarrow> i < length (types t) \<and> types t ! i = c"
    and table_ok_distinct: "distinct (types t)"
    and table_ok_take: "i < length (types t) \<Longrightarrow> comps_ok (take i (types t)) (types t ! i)"
    and table_ok_flag: "i < length (types t) \<Longrightarrow> has_param t i = Some (has_tparam (tree t i))"
  using assms by (simp_all add: table_ok_def has_param_def)

lemma table_ok_comps:
  assumes "table_ok t" "i < length (types t)"
  shows "comps_ok (types t) (types t ! i)"
  using table_ok_take [OF assms] comps_ok_append [of "take i (types t)" _ "drop i (types t)"]
  by simp

lemma table_ok_node:
  assumes "table_ok t" "i < length (types t)"
  shows "tree t i = node (trees (types t)) (types t ! i)"
  using assms by (simp add: tree_def tree_node table_ok_take)

lemma table_ok_distinct_trees: "table_ok t \<Longrightarrow> distinct (trees (types t))"
  by (simp add: trees_distinct table_ok_def)

lemma tree_inject:
  assumes "table_ok t" "i < length (types t)" "j < length (types t)"
  shows "tree t i = tree t j \<longleftrightarrow> i = j"
  using assms table_ok_distinct_trees [OF assms(1)] by (simp add: tree_def nth_eq_iff_index_eq)

lemma any_param_eq:
  assumes "table_ok t" "\<forall>i\<in>set is. i < length (types t)"
  shows "any_param t is = Some (\<exists>i\<in>set is. has_tparam (tree t i))"
  using assms(2) by (induction "is") (auto simp: table_ok_flag [OF assms(1)])

lemma type_has_param_eq:
  assumes "table_ok t" "comps_ok (types t) c"
  shows "type_has_param t c = Some (has_tparam (node (trees (types t)) c))"
  using assms(2)
  by (cases c) (auto simp: any_param_eq [OF assms(1)] table_ok_flag [OF assms(1)] tree_def)

text \<open>One table extends another: every ID keeps its type.\<close>

definition extends :: "type_table \<Rightarrow> type_table \<Rightarrow> bool" where
  "extends t t' \<longleftrightarrow> prefix (types t) (types t')"

lemma extends_refl [simp]: "extends t t"
  by (simp add: extends_def)

lemma extends_trans: "extends t u \<Longrightarrow> extends u v \<Longrightarrow> extends t v"
  by (simp add: extends_def)

lemma extends_length: "extends t t' \<Longrightarrow> i < length (types t) \<Longrightarrow> i < length (types t')"
  by (auto simp: extends_def prefix_def)

lemma extends_types: "extends t t' \<Longrightarrow> i < length (types t) \<Longrightarrow> types t' ! i = types t ! i"
  by (auto simp: extends_def prefix_def nth_append)

lemma extends_tree: "extends t t' \<Longrightarrow> i < length (types t) \<Longrightarrow> tree t' i = tree t i"
  by (auto simp: extends_def prefix_def tree_def)

lemma extends_tree_map:
  "extends t t' \<Longrightarrow> \<forall>i\<in>set is. i < length (types t) \<Longrightarrow> map (tree t') is = map (tree t) is"
  by (simp add: extends_tree)

lemma extends_comps: "extends t t' \<Longrightarrow> comps_ok (types t) c \<Longrightarrow> comps_ok (types t') c"
  unfolding extends_def prefix_def using comps_ok_append by metis

lemma extends_node:
  assumes "extends t t'" "comps_ok (types t) c"
  shows "node (trees (types t')) c = node (trees (types t)) c"
  using assms by (intro node_cong [OF assms(2)]) (auto simp: extends_def prefix_def)

text \<open>\<open>grown t U t'\<close>: \<open>t'\<close> is well formed, extends \<open>t\<close>, and the types it adds are all in \<open>U\<close>.\<close>

definition grown :: "type_table \<Rightarrow> ty_tree set \<Rightarrow> type_table \<Rightarrow> bool" where
  "grown t U t' \<longleftrightarrow>
     table_ok t' \<and> extends t t'
     \<and> (\<forall>i. length (types t) \<le> i \<and> i < length (types t') \<longrightarrow> tree t' i \<in> U)"

lemma grownD: "grown t U t' \<Longrightarrow> table_ok t'" "grown t U t' \<Longrightarrow> extends t t'"
  by (simp_all add: grown_def)

lemma grown_refl: "table_ok t \<Longrightarrow> grown t U t"
  by (auto simp: grown_def)

lemma grown_length:
  assumes "grown t U t'" "finite U"
  shows "length (types t') \<le> length (types t) + card U"
proof -
  let ?new = "{length (types t)..<length (types t')}"
  have "inj_on (tree t') ?new" using assms(1) by (auto simp: inj_on_def tree_inject grown_def)
  moreover have "tree t' ` ?new \<subseteq> U" using assms(1) by (auto simp: grown_def)
  ultimately have "card ?new \<le> card U" using assms(2) by (metis card_image card_mono)
  then show ?thesis by simp
qed

lemma table_ok_snoc:
  assumes "table_ok t" "c \<notin> set (types t)" "comps_ok (types t) c"
  shows "table_ok \<lparr>types = types t @ [c], param_flags = param_flags t @ [has_tparam (node (trees (types t)) c)],
                   ids = (ids t)(c \<mapsto> length (types t))\<rparr>"
    (is "table_ok ?t'")
proof -
  have "ids ?t' d = Some i \<longleftrightarrow> i < length (types ?t') \<and> types ?t' ! i = d" for d i
    using assms by (auto simp: table_ok_ids nth_append less_Suc_eq in_set_conv_nth)
  moreover have "comps_ok (take i (types ?t')) (types ?t' ! i)" if "i < length (types ?t')" for i
    using that assms table_ok_take [OF assms(1), of i] by (cases "i = length (types t)") (simp_all add: nth_append)
  moreover have "param_flags ?t' ! i = has_tparam (tree ?t' i)" if "i < length (types ?t')" for i
    using that assms(1) by (cases "i = length (types t)") (simp_all add: nth_append table_ok_def tree_def)
  ultimately show ?thesis
    using assms(1,2) by (simp add: table_ok_def prefix_def) (metis append_assoc)
qed

lemma intern_known:
  assumes "table_ok t" "c \<in> set (types t)"
  obtains i where "intern t c = Some (i, t)" "i < length (types t)" "types t ! i = c"
proof -
  obtain i where "i < length (types t)" "types t ! i = c" using assms(2) by (auto simp: in_set_conv_nth)
  moreover from this have "ids t c = Some i" using assms(1) by (simp add: table_ok_ids)
  ultimately show ?thesis using that by (simp add: intern_def)
qed

lemma ids_None: "table_ok t \<Longrightarrow> c \<notin> set (types t) \<Longrightarrow> ids t c = None"
  by (cases "ids t c") (auto simp: table_ok_ids)

lemma intern_new:
  assumes "table_ok t" "c \<notin> set (types t)" "comps_ok (types t) c" "length (types t) < u32_bound"
  obtains t' where "intern t c = Some (length (types t), t')" "table_ok t'" "types t' = types t @ [c]"
proof -
  from ids_None [OF assms(1,2)] assms show ?thesis using that table_ok_snoc [OF assms(1-3)]
    by (simp add: intern_def type_has_param_eq)
qed

lemma intern_grown:
  assumes "grown b U t" "comps_ok (types t) c" "node (trees (types t)) c \<in> U"
    and "finite U" "length (types b) + card U \<le> u32_bound"
  obtains i t' where "intern t c = Some (i, t')" "grown b U t'" "extends t t'" "i < length (types t')"
    "types t' ! i = c" "tree t' i = node (trees (types t)) c"
proof (cases "c \<in> set (types t)")
  case True
  then obtain i where "intern t c = Some (i, t)" "i < length (types t)" "types t ! i = c"
    using intern_known assms(1) grownD(1) by metis
  then show ?thesis using that [of i t] assms(1) by (simp add: table_ok_node grownD)
next
  case False
  have ok: "table_ok t" using assms(1) by (rule grownD)
  have "node (trees (types t)) c \<noteq> tree t i" if "i < length (types t)" for i
  proof
    assume "node (trees (types t)) c = tree t i"
    then have "node (trees (types t)) c = node (trees (types t)) (types t ! i)"
      using ok that by (simp add: table_ok_node)
    then have "c = types t ! i"
      using node_inject [OF table_ok_distinct_trees [OF ok] length_trees _ assms(2) table_ok_comps [OF ok that]]
        table_ok_node [OF ok] unfolding is_TyParam_def tree_def by force
    with False that show False by simp
  qed
  moreover have "length (types t) \<le> length (types b) + card (tree t ` {length (types b)..<length (types t)})"
    by (rule grown_length [of b _ t]) (use assms(1) in \<open>auto simp: grown_def\<close>)
  moreover have "card (tree t ` {length (types b)..<length (types t)}) < card U"
  proof (rule psubset_card_mono [OF assms(4)])
    have "node (trees (types t)) c \<notin> tree t ` {length (types b)..<length (types t)}"
      using calculation(1) by (metis atLeastLessThan_iff image_iff)
    then show "tree t ` {length (types b)..<length (types t)} \<subset> U"
      using assms(1,3) by (auto simp: grown_def)
  qed
  ultimately have "length (types t) < u32_bound" using assms(5) by linarith
  then obtain t' where t': "intern t c = Some (length (types t), t')" "table_ok t'" "types t' = types t @ [c]"
    using intern_new [OF ok False assms(2)] by blast
  moreover have "tree t' (length (types t)) = node (trees (types t)) c"
    using t'(3) by (simp add: tree_def nth_append)
  moreover have "extends t t'" using t'(3) by (simp add: extends_def)
  moreover have "grown b U t'"
    using assms(1,3) t' calculation extends_tree [of t t']
    by (auto simp: grown_def less_Suc_eq intro: extends_trans)
  ultimately show ?thesis using that by simp
qed

section \<open>Substitution\<close>

text \<open>The specification: substitution on trees, with no table.\<close>

definition tree_arg :: "ty_tree list \<Rightarrow> nat \<Rightarrow> ty_tree" where
  "tree_arg \<sigma> i = (if i < length \<sigma> then \<sigma> ! i else TParam i)"

fun tset_flags :: "ty_tree \<Rightarrow> bool \<times> bool \<times> bool" where
  "tset_flags (TSet f s e ps) = (f, s, e)"
| "tset_flags (TParam i) = (False, False, False)"
| "tset_flags _ = (True, True, True)"

fun tset_params :: "ty_tree \<Rightarrow> nat set" where
  "tset_params (TSet f s e ps) = ps"
| "tset_params (TParam i) = {i}"
| "tset_params _ = {}"

fun tree_with_sets :: "ty_tree list \<Rightarrow> ty_tree \<Rightarrow> bool \<Rightarrow> bool \<Rightarrow> bool \<Rightarrow> ty_tree \<Rightarrow> ty_tree \<Rightarrow> ty_tree" where
  "tree_with_sets ps r f s e (TSet f1 s1 e1 p1) (TSet f2 s2 e2 p2) =
     (if p1 = {} \<and> p2 = {} then TFn ps r f1 s2 e2 None
      else TFn ps r (f \<or> f1) (s \<or> s2) (e \<or> e2) (Some (TSet f1 s1 e1 p1, TSet f2 s2 e2 p2)))"
| "tree_with_sets ps r f s e x y = TFn ps r f s e (Some (x, y))"

fun subst_tree :: "ty_tree list \<Rightarrow> ty_tree \<Rightarrow> ty_tree" where
  "subst_tree \<sigma> (TLeaf c) = TLeaf c"
| "subst_tree \<sigma> (TParam i) = tree_arg \<sigma> i"
| "subst_tree \<sigma> (TArray t) = TArray (subst_tree \<sigma> t)"
| "subst_tree \<sigma> (TTuple ts) = TTuple (map (subst_tree \<sigma>) ts)"
| "subst_tree \<sigma> (TList t) = TList (subst_tree \<sigma> t)"
| "subst_tree \<sigma> (TEnum e ts) = TEnum e (map (subst_tree \<sigma>) ts)"
| "subst_tree \<sigma> (TCell t) = TCell (subst_tree \<sigma> t)"
| "subst_tree \<sigma> (TFn ps r f s e None) = TFn (map (subst_tree \<sigma>) ps) (subst_tree \<sigma> r) f s e None"
| "subst_tree \<sigma> (TFn ps r f s e (Some (x, y))) =
     tree_with_sets (map (subst_tree \<sigma>) ps) (subst_tree \<sigma> r) f s e (subst_tree \<sigma> x) (subst_tree \<sigma> y)"
| "subst_tree \<sigma> (TSet f s e ps) =
     TSet (f \<or> (\<exists>i\<in>ps. fst (tset_flags (tree_arg \<sigma> i))))
       (s \<or> (\<exists>i\<in>ps. fst (snd (tset_flags (tree_arg \<sigma> i)))))
       (e \<or> (\<exists>i\<in>ps. snd (snd (tset_flags (tree_arg \<sigma> i)))))
       (\<Union>i\<in>ps. tset_params (tree_arg \<sigma> i))"

text \<open>What an operation that maps one type promises, whatever types were added before.\<close>

definition maps_type ::
  "type_table \<Rightarrow> ty_tree set \<Rightarrow> (ty_tree \<Rightarrow> ty_tree) \<Rightarrow> (type_table \<Rightarrow> type_id \<Rightarrow> (type_id \<times> type_table) option)
     \<Rightarrow> type_id \<Rightarrow> bool" where
  "maps_type b U g op ty \<longleftrightarrow>
     (\<forall>t. grown b U t \<longrightarrow>
        (\<exists>i t'. op t ty = Some (i, t') \<and> grown b U t' \<and> extends t t' \<and> i < length (types t')
            \<and> tree t' i = g (tree b ty)))"

lemma maps_typeE:
  assumes "maps_type b U g op ty" "grown b U t"
  obtains i t' where "op t ty = Some (i, t')" "grown b U t'" "extends t t'" "i < length (types t')"
    "tree t' i = g (tree b ty)"
  using assms unfolding maps_type_def by blast

lemma subst_tree_id: "\<not> has_tparam t \<Longrightarrow> subst_tree \<sigma> t = t"
  by (induction \<sigma> t rule: subst_tree.induct) (simp_all add: map_idI)

lemma grown_index:
  assumes "grown b U t" "i < length (types b)"
  shows "i < length (types t)" "tt_index t i = Some (types b ! i)" "tree t i = tree b i"
    "has_param t i = Some (has_tparam (tree b i))"
  using assms table_ok_flag [of t i] extends_types [of b t i] extends_tree [of b t i] extends_length [of b t i]
  by (simp_all add: tt_index_def grownD)

lemma tree_TSetD:
  assumes "table_ok t" "i < length (types t)" "tree t i = TSet f s e ps"
  obtains r where "types t ! i = TySet r" "set_fails r = f" "set_suspends r = s" "set_ev r = e"
    "ps = {} \<longleftrightarrow> set_params r = []"
proof -
  have "node (trees (types t)) (types t ! i) = TSet f s e ps" using assms by (simp add: table_ok_node)
  then show ?thesis using that by (cases "types t ! i") auto
qed

lemma tree_TParam_iff:
  assumes "table_ok t" "i < length (types t)"
  shows "tree t i = TParam k \<longleftrightarrow> types t ! i = TyParam k"
  using table_ok_node [OF assms] by (cases "types t ! i") auto

lemma tset_of_type:
  assumes "table_ok t" "i < length (types t)" "types t ! i = TySet r"
  shows "tree t i = TSet (set_fails r) (set_suspends r) (set_ev r) ((\<lambda>p. param_index (tree t p)) ` set (set_params r))"
  using table_ok_node [OF assms(1,2)] assms(3) by (simp add: tree_def)

text \<open>What one set type parameter brings into a set: what its argument \<open>arg\<close> stands for.\<close>

definition set_contribution :: "type_table \<Rightarrow> type_id \<Rightarrow> set_summary" where
  "set_contribution t arg =
     (case types t ! arg of
        TySet a \<Rightarrow> a
      | TyParam _ \<Rightarrow> \<lparr>set_fails = False, set_suspends = False, set_ev = False, set_params = [arg]\<rparr>
      | _ \<Rightarrow> set_unknown)"

definition params_ok :: "type_table \<Rightarrow> type_id list \<Rightarrow> bool" where
  "params_ok t ps \<longleftrightarrow> (\<forall>p\<in>set ps. p < length (types t) \<and> is_TyParam (types t ! p))"

abbreviation (input) param_names :: "type_table \<Rightarrow> type_id list \<Rightarrow> nat set" where
  "param_names t ps \<equiv> (\<lambda>p. param_index (tree t p)) ` set ps"

lemma set_contribution_spec:
  assumes "table_ok t" "arg < length (types t)"
  shows "tset_flags (tree t arg) = (set_fails (set_contribution t arg),
           set_suspends (set_contribution t arg), set_ev (set_contribution t arg))"
    and "params_ok t (set_params (set_contribution t arg))"
    and "param_names t (set_params (set_contribution t arg)) = tset_params (tree t arg)"
proof -
  have ok: "comps_ok (types t) (types t ! arg)" using assms by (rule table_ok_comps)
  have node: "tree t arg = node (trees (types t)) (types t ! arg)" using assms by (rule table_ok_node)
  show "tset_flags (tree t arg) = (set_fails (set_contribution t arg),
           set_suspends (set_contribution t arg), set_ev (set_contribution t arg))"
    unfolding node by (cases "types t ! arg") (auto simp: set_contribution_def set_unknown_def)
  show "params_ok t (set_params (set_contribution t arg))"
    using ok assms(2)
    by (cases "types t ! arg") (auto simp: set_contribution_def set_unknown_def params_ok_def is_TyParam_def)
  show "param_names t (set_params (set_contribution t arg)) = tset_params (tree t arg)"
    unfolding node using node
    by (cases "types t ! arg") (auto simp: set_contribution_def set_unknown_def tree_def)
qed

lemma subst_set_loop_Cons:
  assumes "p < length (types t)" "types t ! p = TyParam i" "arg_or args i p < length (types t)"
  shows "subst_set_loop t args out (p # ps) =
           subst_set_loop t args (set_merge out (set_contribution t (arg_or args i p))) ps"
  using assms
  by (cases out; cases "types t ! arg_or args i p")
     (simp_all add: tt_index_def set_contribution_def set_merge_def)

lemma subst_set_loop_spec:
  assumes ok: "table_ok t" and args: "\<forall>a\<in>set args. a < length (types t)"
    and "params_ok t ps" "params_ok t (set_params out)"
  shows "\<exists>out'. subst_set_loop t args out ps = Some out'
    \<and> (set_fails out' \<longleftrightarrow> set_fails out \<or> (\<exists>i\<in>param_names t ps. fst (tset_flags (tree_arg (map (tree t) args) i))))
    \<and> (set_suspends out' \<longleftrightarrow> set_suspends out \<or> (\<exists>i\<in>param_names t ps. fst (snd (tset_flags (tree_arg (map (tree t) args) i)))))
    \<and> (set_ev out' \<longleftrightarrow> set_ev out \<or> (\<exists>i\<in>param_names t ps. snd (snd (tset_flags (tree_arg (map (tree t) args) i)))))
    \<and> params_ok t (set_params out')
    \<and> param_names t (set_params out') =
        param_names t (set_params out) \<union> (\<Union>i\<in>param_names t ps. tset_params (tree_arg (map (tree t) args) i))"
  using assms(3,4)
proof (induction ps arbitrary: out)
  case (Cons p ps)
  then obtain i where p: "p < length (types t)" "types t ! p = TyParam i"
    by (auto simp: params_ok_def is_TyParam_def)
  let ?a = "arg_or args i p"
  have a: "?a < length (types t)" using p args by (auto simp: arg_or_def)
  have i: "param_index (tree t p) = i" using ok p tree_TParam_iff [of t p i] by simp
  have arg: "tree_arg (map (tree t) args) i = tree t ?a"
    using p ok tree_TParam_iff [of t p i] by (simp add: tree_arg_def arg_or_def)
  note c = set_contribution_spec [OF ok a]
  have "params_ok t (set_params (set_merge out (set_contribution t ?a)))"
    using Cons.prems(2) c(2) by (auto simp: params_ok_def set_merge_def)
  from Cons.IH [OF _ this] Cons.prems(1) obtain out' where
    "subst_set_loop t args (set_merge out (set_contribution t ?a)) ps = Some out'"
    and spec: "set_fails out' \<longleftrightarrow> set_fails (set_merge out (set_contribution t ?a)) \<or> (\<exists>i\<in>param_names t ps. fst (tset_flags (tree_arg (map (tree t) args) i)))"
    "set_suspends out' \<longleftrightarrow> set_suspends (set_merge out (set_contribution t ?a)) \<or> (\<exists>i\<in>param_names t ps. fst (snd (tset_flags (tree_arg (map (tree t) args) i))))"
    "set_ev out' \<longleftrightarrow> set_ev (set_merge out (set_contribution t ?a)) \<or> (\<exists>i\<in>param_names t ps. snd (snd (tset_flags (tree_arg (map (tree t) args) i))))"
    "params_ok t (set_params out')"
    "param_names t (set_params out') = param_names t (set_params (set_merge out (set_contribution t ?a)))
       \<union> (\<Union>i\<in>param_names t ps. tset_params (tree_arg (map (tree t) args) i))"
    by (auto simp: params_ok_def)
  then have "subst_set_loop t args out (p # ps) = Some out'" using subst_set_loop_Cons [OF p a] by simp
  moreover have "set_fails out' \<longleftrightarrow> set_fails out \<or> (\<exists>i\<in>param_names t (p # ps). fst (tset_flags (tree_arg (map (tree t) args) i)))"
    using spec(1) c(1) i arg by (simp add: set_merge_def disj_assoc)
  moreover have "set_suspends out' \<longleftrightarrow> set_suspends out \<or> (\<exists>i\<in>param_names t (p # ps). fst (snd (tset_flags (tree_arg (map (tree t) args) i))))"
    using spec(2) c(1) i arg by (simp add: set_merge_def disj_assoc)
  moreover have "set_ev out' \<longleftrightarrow> set_ev out \<or> (\<exists>i\<in>param_names t (p # ps). snd (snd (tset_flags (tree_arg (map (tree t) args) i))))"
    using spec(3) c(1) i arg by (simp add: set_merge_def disj_assoc)
  moreover have "param_names t (set_params out') =
      param_names t (set_params out) \<union> (\<Union>i\<in>param_names t (p # ps). tset_params (tree_arg (map (tree t) args) i))"
    unfolding spec(5) using c(3) i arg by (simp add: set_merge_def image_Un Un_assoc)
  ultimately show ?case using spec(4) by blast
qed simp

lemma strict_sorted_dedup: "sorted xs \<Longrightarrow> sorted_wrt (<) (remdups_adj (xs :: nat list))"
  by (induction xs rule: remdups_adj.induct) (auto simp: le_less)

lemma strict_sort_dedup: "sorted_wrt (<) (remdups_adj (sort (xs :: nat list)))"
  by (simp add: strict_sorted_dedup)

lemma subst_set_spec:
  assumes ok: "table_ok t" and "\<forall>a\<in>set args. a < length (types t)" "comps_ok (types t) (TySet s)"
  obtains s' where "subst_set t s args = Some s'" "comps_ok (types t) (TySet s')"
    "node (trees (types t)) (TySet s') = subst_tree (map (tree t) args) (node (trees (types t)) (TySet s))"
proof -
  have "params_ok t (set_params s)" using assms(3) by (simp add: params_ok_def)
  from subst_set_loop_spec [OF assms(1,2) this, of "s\<lparr>set_params := []\<rparr>"]
  obtain out where "subst_set_loop t args (s\<lparr>set_params := []\<rparr>) (set_params s) = Some out"
    and spec: "set_fails out \<longleftrightarrow> set_fails s \<or> (\<exists>i\<in>param_names t (set_params s). fst (tset_flags (tree_arg (map (tree t) args) i)))"
    "set_suspends out \<longleftrightarrow> set_suspends s \<or> (\<exists>i\<in>param_names t (set_params s). fst (snd (tset_flags (tree_arg (map (tree t) args) i))))"
    "set_ev out \<longleftrightarrow> set_ev s \<or> (\<exists>i\<in>param_names t (set_params s). snd (snd (tset_flags (tree_arg (map (tree t) args) i))))"
    "params_ok t (set_params out)"
    "param_names t (set_params out) = (\<Union>i\<in>param_names t (set_params s). tset_params (tree_arg (map (tree t) args) i))"
    by (auto simp: params_ok_def)
  then have "subst_set t s args = Some (out\<lparr>set_params := remdups_adj (sort (set_params out))\<rparr>)"
    by (simp add: subst_set_def)
  then show ?thesis
  proof (rule that)
    show "comps_ok (types t) (TySet (out\<lparr>set_params := remdups_adj (sort (set_params out))\<rparr>))"
      using spec(4) by (simp add: strict_sort_dedup params_ok_def)
    show "node (trees (types t)) (TySet (out\<lparr>set_params := remdups_adj (sort (set_params out))\<rparr>)) =
        subst_tree (map (tree t) args) (node (trees (types t)) (TySet s))"
      using spec by (simp add: nth_trees)
  qed
qed

definition maps_types ::
  "type_table \<Rightarrow> ty_tree set \<Rightarrow> (ty_tree \<Rightarrow> ty_tree) \<Rightarrow> (type_table \<Rightarrow> (type_id list \<times> type_table) option)
     \<Rightarrow> type_id list \<Rightarrow> bool" where
  "maps_types b U g op tys \<longleftrightarrow>
     (\<forall>t. grown b U t \<longrightarrow>
        (\<exists>is t'. op t = Some (is, t') \<and> grown b U t' \<and> extends t t'
            \<and> (\<forall>i\<in>set is. i < length (types t')) \<and> map (tree t') is = map (\<lambda>ty. g (tree b ty)) tys))"

lemma maps_typesE:
  assumes "maps_types b U g op tys" "grown b U t"
  obtains "is" t' where "op t = Some (is, t')" "grown b U t'" "extends t t'"
    "\<forall>i\<in>set is. i < length (types t')" "map (tree t') is = map (\<lambda>ty. g (tree b ty)) tys"
  using assms unfolding maps_types_def by blast

lemma maps_types_Nil: "maps_types b U g (\<lambda>t. Some ([], t)) []"
  by (simp add: maps_types_def)

lemma maps_types_Cons:
  assumes "maps_type b U g op ty" "maps_types b U g ops tys"
  shows "maps_types b U g (\<lambda>t. do { (i, t) \<leftarrow> op t ty; (is, t) \<leftarrow> ops t; Some (i # is, t) }) (ty # tys)"
  unfolding maps_types_def
proof (intro allI impI)
  fix t assume "grown b U t"
  with assms(1) obtain i t' where i: "op t ty = Some (i, t')" "grown b U t'" "extends t t'"
    "i < length (types t')" "tree t' i = g (tree b ty)" by (rule maps_typeE)
  from assms(2) this(2) obtain "is" t'' where
    "ops t' = Some (is, t'')" "grown b U t''" "extends t' t''"
    "\<forall>i\<in>set is. i < length (types t'')" "map (tree t'') is = map (\<lambda>ty. g (tree b ty)) tys"
    by (rule maps_typesE)
  with i show "\<exists>is t'. do { (i, t) \<leftarrow> op t ty; (is, t) \<leftarrow> ops t; Some (i # is, t) } = Some (is, t')
      \<and> grown b U t' \<and> extends t t' \<and> (\<forall>i\<in>set is. i < length (types t'))
      \<and> map (tree t') is = map (\<lambda>ty. g (tree b ty)) (ty # tys)"
    by (auto simp: extends_tree extends_length intro: extends_trans)
qed

lemma subst_all_maps:
  "\<forall>ty\<in>set tys. maps_type b U g (\<lambda>t ty. subst_type n t ty args) ty \<Longrightarrow>
   maps_types b U g (\<lambda>t. subst_all n t tys args) tys"
proof (induction tys)
  case (Cons ty tys)
  then show ?case
    using maps_types_Cons [of b U g "\<lambda>t ty. subst_type n t ty args" ty "\<lambda>t. subst_all n t tys args" tys] by simp
qed (simp add: maps_types_Nil)

text \<open>Interning a type made of mapped components.\<close>

definition gives :: "type_table \<Rightarrow> ty_tree set \<Rightarrow> type_table \<Rightarrow> (type_id \<times> type_table) option \<Rightarrow> ty_tree \<Rightarrow> bool" where
  "gives b U t r x \<longleftrightarrow>
     (\<exists>i t'. r = Some (i, t') \<and> grown b U t' \<and> extends t t' \<and> i < length (types t') \<and> tree t' i = x)"

lemma maps_type_gives: "maps_type b U g op ty \<longleftrightarrow> (\<forall>t. grown b U t \<longrightarrow> gives b U t (op t ty) (g (tree b ty)))"
  by (simp add: maps_type_def gives_def)

lemma gives_intern:
  assumes "grown b U t" "comps_ok (types t) c" "node (trees (types t)) c = x" "x \<in> U"
    and "finite U" "length (types b) + card U \<le> u32_bound"
  shows "gives b U t (intern t c) x"
  using intern_grown [of b U t c] assms unfolding gives_def by metis

lemma gives_trans: "gives b U t' r x \<Longrightarrow> extends t t' \<Longrightarrow> gives b U t r x"
  by (auto simp: gives_def intro: extends_trans)

lemma gives_intern1:
  assumes "maps_type b U g op i" "grown b U t" "finite U" "length (types b) + card U \<le> u32_bound"
    and "\<And>cs j. j < length cs \<Longrightarrow> comps_ok cs (K j)" "\<And>acc j. node acc (K j) = G (acc ! j)"
    and "G (g (tree b i)) \<in> U"
  shows "gives b U t (do { (j, t) \<leftarrow> op t i; intern t (K j) }) (G (g (tree b i)))"
proof -
  obtain j t' where j: "op t i = Some (j, t')" "grown b U t'" "extends t t'" "j < length (types t')"
    "tree t' j = g (tree b i)" using assms(1,2) by (rule maps_typeE)
  then have "gives b U t' (intern t' (K j)) (G (g (tree b i)))"
    using assms(3-) by (intro gives_intern) (simp_all add: nth_trees)
  with j show ?thesis by (auto intro: gives_trans)
qed

lemma gives_internN:
  assumes "maps_types b U g op tys" "grown b U t" "finite U" "length (types b) + card U \<le> u32_bound"
    and "\<And>cs is. \<forall>i\<in>set is. i < length cs \<Longrightarrow> comps_ok cs (K is)"
    and "\<And>acc is. node acc (K is) = G (map (nth acc) is)"
    and "G (map (\<lambda>ty. g (tree b ty)) tys) \<in> U"
  shows "gives b U t (do { (is, t) \<leftarrow> op t; intern t (K is) }) (G (map (\<lambda>ty. g (tree b ty)) tys))"
proof -
  obtain "is" t' where is': "op t = Some (is, t')" "grown b U t'" "extends t t'"
    "\<forall>i\<in>set is. i < length (types t')" "map (tree t') is = map (\<lambda>ty. g (tree b ty)) tys"
    using assms(1,2) by (rule maps_typesE)
  then have "gives b U t' (intern t' (K is)) (G (map (\<lambda>ty. g (tree b ty)) tys))"
    using assms(3-) by (intro gives_intern) (simp_all add: nth_trees)
  with is' show ?thesis by (auto intro: gives_trans)
qed

lemma grown_node:
  assumes "grown b U t" "comps_ok (types b) c"
  shows "node (trees (types t)) c = node (trees (types b)) c"
  using assms extends_node grownD by blast

text \<open>\<open>fn_with_sets\<close> is its specification on trees.\<close>

lemma fn_with_sets_spec:
  assumes ok: "table_ok t"
    and e: "e < length (types t)" "tree t e = TSet f1 s1 e1 p1"
    and x: "x < length (types t)" "tree t x = TSet f2 s2 e2 p2"
    and ps: "\<forall>i\<in>set ps. i < length (types t)" "r < length (types t)"
  obtains h where "fn_with_sets t ps r f e x = Some h" "comps_ok (types t) (TyFn h)"
    "node (trees (types t)) (TyFn h) =
       tree_with_sets (map (tree t) ps) (tree t r) (ft_fails f) (ft_suspends f) (ft_ev f) (tree t e) (tree t x)"
proof -
  obtain re where re: "types t ! e = TySet re" "set_fails re = f1" "p1 = {} \<longleftrightarrow> set_params re = []"
    using tree_TSetD [OF ok e] by blast
  obtain rx where rx: "types t ! x = TySet rx" "set_suspends rx = s2" "set_ev rx = e2"
    "p2 = {} \<longleftrightarrow> set_params rx = []"
    using tree_TSetD [OF ok x] by blast
  show ?thesis
  proof (cases "p1 = {} \<and> p2 = {}")
    case True
    with re rx e x ps show ?thesis
      by (intro that [of "\<lparr>ft_params = ps, ft_ret = r, ft_fails = f1, ft_suspends = s2, ft_ev = e2, ft_sets = None\<rparr>"])
         (simp_all add: fn_with_sets_def tt_index_def nth_trees)
  next
    case False
    with re rx e x ps show ?thesis
      by (intro that [of "\<lparr>ft_params = ps, ft_ret = r, ft_fails = ft_fails f \<or> f1, ft_suspends = ft_suspends f \<or> s2,
            ft_ev = ft_ev f \<or> e2, ft_sets = Some \<lparr>fs_errors = e, fs_effects = x\<rparr>\<rparr>"])
         (auto simp: fn_with_sets_def tt_index_def nth_trees is_TySet_def)
  qed
qed

lemma comps_below:
  assumes "table_ok b" "ty < length (types b)"
  shows "types b ! ty = TyArray i \<or> types b ! ty = TyList i \<or> types b ! ty = TyCell i \<Longrightarrow> i < ty"
    and "types b ! ty = TyTuple ts \<or> types b ! ty = TyEnum e ts \<Longrightarrow> i \<in> set ts \<Longrightarrow> i < ty"
    and "types b ! ty = TyFn f \<Longrightarrow> i \<in> set (ft_params f) \<Longrightarrow> i < ty"
    and "types b ! ty = TyFn f \<Longrightarrow> ft_ret f < ty"
    and "types b ! ty = TyFn f \<Longrightarrow> ft_sets f = Some s \<Longrightarrow>
           fs_errors s < ty \<and> is_TySet (types b ! fs_errors s) \<and> fs_effects s < ty \<and> is_TySet (types b ! fs_effects s)"
  using table_ok_take [OF assms] assms(2) by auto

lemma subst_fn_gives:
  assumes "table_ok b" "ty < length (types b)" and f: "types b ! ty = TyFn f"
    and U: "finite U" "length (types b) + card U \<le> u32_bound" "subst_tree \<sigma> (tree b ty) \<in> U"
    and IH: "\<And>i. i < ty \<Longrightarrow> maps_type b U (subst_tree \<sigma>) (\<lambda>t i. subst_type n t i args) i"
    and t: "grown b U t"
  shows "gives b U t
    (do { (ps, t) \<leftarrow> subst_all n t (ft_params f) args;
          (r, t) \<leftarrow> subst_type n t (ft_ret f) args;
          case ft_sets f of
            None \<Rightarrow> intern t (TyFn (f\<lparr>ft_params := ps, ft_ret := r\<rparr>))
          | Some sets \<Rightarrow>
              do { (e, t) \<leftarrow> subst_type n t (fs_errors sets) args;
                   (x, t) \<leftarrow> subst_type n t (fs_effects sets) args;
                   g \<leftarrow> fn_with_sets t ps r f e x;
                   intern t (TyFn g) } })
    (subst_tree \<sigma> (tree b ty))"
proof -
  note below = comps_below [OF assms(1,2)]
  have node: "tree b ty = TFn (map (tree b) (ft_params f)) (tree b (ft_ret f)) (ft_fails f) (ft_suspends f) (ft_ev f)
       (map_option (\<lambda>s. (tree b (fs_errors s), tree b (fs_effects s))) (ft_sets f))"
    using table_ok_node [OF assms(1,2)] f by (simp add: nth_trees)
  have "maps_types b U (subst_tree \<sigma>) (\<lambda>t. subst_all n t (ft_params f) args) (ft_params f)"
    using IH below(3) [OF f] by (intro subst_all_maps) blast
  from maps_typesE [OF this t] obtain ps t1 where ps: "subst_all n t (ft_params f) args = Some (ps, t1)"
    "grown b U t1" "extends t t1" "\<forall>i\<in>set ps. i < length (types t1)"
    "map (tree t1) ps = map (\<lambda>ty. subst_tree \<sigma> (tree b ty)) (ft_params f)" by auto
  from maps_typeE [OF IH [OF below(4) [OF f]] ps(2)] obtain r t2 where
    r: "subst_type n t1 (ft_ret f) args = Some (r, t2)"
    "grown b U t2" "extends t1 t2" "r < length (types t2)" "tree t2 r = subst_tree \<sigma> (tree b (ft_ret f))" by auto
  have ps2: "\<forall>i\<in>set ps. i < length (types t2)"
    "map (tree t2) ps = map (\<lambda>ty. subst_tree \<sigma> (tree b ty)) (ft_params f)"
    using ps(4,5) extends_length [OF r(3)] extends_tree_map [OF r(3) ps(4)] by auto
  have t2: "extends t t2" using ps(3) r(3) by (rule extends_trans)
  show ?thesis
  proof (cases "ft_sets f")
    case None
    then have "gives b U t2 (intern t2 (TyFn (f\<lparr>ft_params := ps, ft_ret := r\<rparr>))) (subst_tree \<sigma> (tree b ty))"
      using ps2 r(4,5) U node by (intro gives_intern [OF r(2)]) (simp_all add: nth_trees comp_def)
    then show ?thesis using None ps(1) r(1) t2 by (simp add: gives_trans)
  next
    case (Some sets)
    note s = below(5) [OF f Some]
    from s assms(2) have lt: "fs_errors sets < length (types b)" "fs_effects sets < length (types b)" by simp_all
    obtain f1 s1 e1 p1 where E: "subst_tree \<sigma> (tree b (fs_errors sets)) = TSet f1 s1 e1 p1"
      using s tset_of_type [OF assms(1) lt(1)] by (auto simp: is_TySet_def)
    obtain f2 s2 e2 p2 where X: "subst_tree \<sigma> (tree b (fs_effects sets)) = TSet f2 s2 e2 p2"
      using s tset_of_type [OF assms(1) lt(2)] by (auto simp: is_TySet_def)
    from maps_typeE [OF IH [OF conjunct1 [OF s]] r(2)] obtain e t3 where
      e: "subst_type n t2 (fs_errors sets) args = Some (e, t3)"
      "grown b U t3" "extends t2 t3" "e < length (types t3)" "tree t3 e = TSet f1 s1 e1 p1" using E by auto
    have "fs_effects sets < ty" using s by simp
    from maps_typeE [OF IH [OF this] e(2)] obtain x t4 where
      x: "subst_type n t3 (fs_effects sets) args = Some (x, t4)"
      "grown b U t4" "extends t3 t4" "x < length (types t4)" "tree t4 x = TSet f2 s2 e2 p2" using X by auto
    have t4: "extends t2 t4" using e(3) x(3) by (rule extends_trans)
    have up: "e < length (types t4)" "tree t4 e = TSet f1 s1 e1 p1" "r < length (types t4)"
      "tree t4 r = tree t2 r" "\<forall>i\<in>set ps. i < length (types t4)" "map (tree t4) ps = map (tree t2) ps"
      using e(4,5) r(4) ps2(1) extends_length [OF x(3)] extends_tree [OF x(3)] extends_length [OF t4]
        extends_tree [OF t4] extends_tree_map [OF t4 ps2(1)] by auto
    obtain h where h: "fn_with_sets t4 ps r f e x = Some h" "comps_ok (types t4) (TyFn h)"
      "node (trees (types t4)) (TyFn h) = tree_with_sets (map (tree t4) ps) (tree t4 r) (ft_fails f)
         (ft_suspends f) (ft_ev f) (tree t4 e) (tree t4 x)"
      using fn_with_sets_spec [OF grownD(1) [OF x(2)] up(1,2) x(4,5) up(5,3), of f] by blast
    have "gives b U t4 (intern t4 (TyFn h)) (subst_tree \<sigma> (tree b ty))"
    proof (rule gives_intern [OF x(2) h(2) _ U(3,1,2)])
      show "node (trees (types t4)) (TyFn h) = subst_tree \<sigma> (tree b ty)"
        unfolding h(3) node Some using up ps2 r(5) x(5) E X by (simp add: comp_def)
    qed
    then have "gives b U t (intern t4 (TyFn h)) (subst_tree \<sigma> (tree b ty))"
      by (rule gives_trans) (rule extends_trans [OF t2 t4])
    then show ?thesis using Some ps(1) r(1) e(1) x(1) h(1) by simp
  qed
qed

lemma gives_same:
  assumes "grown b U t" "ty < length (types b)" "x = tree b ty"
  shows "gives b U t (Some (ty, t)) x"
  using assms grown_index [OF assms(1,2)] by (simp add: gives_def)

lemma subst_type_maps:
  assumes ok: "table_ok b" and args: "\<forall>a\<in>set args. a < length (types b)"
    and U: "finite U" "length (types b) + card U \<le> u32_bound"
  shows "ty < length (types b) \<Longrightarrow> ty < n \<Longrightarrow>
    \<forall>i\<le>ty. subst_tree (map (tree b) args) (tree b i) \<in> U \<Longrightarrow>
    maps_type b U (subst_tree (map (tree b) args)) (\<lambda>t i. subst_type n t i args) ty"
proof (induction n arbitrary: ty)
  case (Suc n)
  let ?\<sigma> = "map (tree b) args"
  let ?g = "subst_tree ?\<sigma>"
  have IH: "maps_type b U ?g (\<lambda>t i. subst_type n t i args) i" if "i < ty" for i
    using that Suc by simp
  have inU: "?g (tree b ty) \<in> U" using Suc.prems by simp
  have node: "tree b ty = node (trees (types b)) (types b ! ty)" using ok Suc.prems(1) by (rule table_ok_node)
  note below = comps_below [OF ok Suc.prems(1)]
  have "gives b U t (subst_type (Suc n) t ty args) (?g (tree b ty))" if t: "grown b U t" for t
  proof (cases "has_tparam (tree b ty)")
    case False
    then show ?thesis using Suc.prems(1) t subst_tree_id [OF False]
      by (simp add: may_change_def grown_index gives_same)
  next
    case True
    note step = True grown_index [OF t Suc.prems(1)]
    note one = gives_intern1 [OF IH t U]
    note all = gives_internN [OF _ t U]
    show ?thesis
    proof (cases "types b ! ty")
      case (TyParam i)
      with node have "?g (tree b ty) = tree b (arg_or args i ty)"
        by (simp add: tree_arg_def arg_or_def)
      moreover have "arg_or args i ty < length (types b)" using args Suc.prems(1) by (simp add: arg_or_def)
      ultimately show ?thesis using TyParam step t by (simp add: may_change_def gives_same)
    next
      case (TyTuple ts)
      then have "maps_types b U ?g (\<lambda>t. subst_all n t ts args) ts"
        using IH below(2) by (intro subst_all_maps) blast
      from all [OF this, of TyTuple TTuple] TyTuple inU step node show ?thesis
        by (simp add: may_change_def nth_trees comp_def)
    next
      case (TyEnum e ts)
      then have "maps_types b U ?g (\<lambda>t. subst_all n t ts args) ts"
        using IH below(2) by (intro subst_all_maps) blast
      from all [OF this, of "TyEnum e" "TEnum e"] TyEnum inU step node show ?thesis
        by (simp add: may_change_def nth_trees comp_def)
    next
      case (TyArray i)
      from one [of i TyArray TArray] TyArray inU step node below(1) show ?thesis
        by (simp add: may_change_def nth_trees)
    next
      case (TyList i)
      from one [of i TyList TList] TyList inU step node below(1) show ?thesis
        by (simp add: may_change_def nth_trees)
    next
      case (TyCell i)
      from one [of i TyCell TCell] TyCell inU step node below(1) show ?thesis
        by (simp add: may_change_def nth_trees)
    next
      case (TyFn f)
      from subst_fn_gives [OF ok Suc.prems(1) TyFn U inU IH t] TyFn step show ?thesis
        by (simp add: may_change_def)
    next
      case (TySet s)
      have args': "\<forall>a\<in>set args. a < length (types t)" using args t by (simp add: grown_index)
      have okb: "comps_ok (types b) (TySet s)" using table_ok_comps [OF ok Suc.prems(1)] TySet by simp
      then have "comps_ok (types t) (TySet s)"
        using grownD(2) [OF t] extends_comps by blast
      then obtain s' where s': "subst_set t s args = Some s'" "comps_ok (types t) (TySet s')"
        "node (trees (types t)) (TySet s') = subst_tree (map (tree t) args) (node (trees (types t)) (TySet s))"
        using subst_set_spec [OF grownD(1) [OF t] args'] by blast
      have "map (tree t) args = ?\<sigma>" using extends_tree_map [OF grownD(2) [OF t] args] .
      then have "node (trees (types t)) (TySet s') = ?g (tree b ty)"
        by (simp only: s'(3) node TySet grown_node [OF t okb])
      from gives_intern [OF t s'(2) this inU U] s'(1) TySet step show ?thesis
        by (simp add: may_change_def)
    qed (use True node in auto)
  qed
  then show ?case by (simp add: maps_type_gives)
qed simp

text \<open>Erasure on trees.\<close>

fun erase_tree :: "ty_tree \<Rightarrow> ty_tree" where
  "erase_tree (TLeaf c) = TLeaf c"
| "erase_tree (TParam i) = TParam i"
| "erase_tree (TArray t) = TArray (erase_tree t)"
| "erase_tree (TTuple ts) = TTuple (map erase_tree ts)"
| "erase_tree (TList t) = TList (erase_tree t)"
| "erase_tree (TEnum e ts) = TEnum e (map erase_tree ts)"
| "erase_tree (TCell t) = TCell (erase_tree t)"
| "erase_tree (TFn ps r f s e sets) = TFn (map erase_tree ps) (erase_tree r) f s e None"
| "erase_tree (TSet f s e ps) = TLeaf TyUnit"

lemma erase_all_maps:
  "\<forall>ty\<in>set tys. maps_type b U g (erase_sets n) ty \<Longrightarrow> maps_types b U g (\<lambda>t. erase_all n t tys) tys"
proof (induction tys)
  case (Cons ty tys)
  then show ?case
    using maps_types_Cons [of b U g "erase_sets n" ty "\<lambda>t. erase_all n t tys" tys] by simp
qed (simp add: maps_types_Nil)

lemma table_ok_unit:
  assumes "table_ok t"
  shows "TYPE_UNIT < length (types t)" "types t ! TYPE_UNIT = TyUnit" "tree t TYPE_UNIT = TLeaf TyUnit"
proof -
  show *: "TYPE_UNIT < length (types t)" "types t ! TYPE_UNIT = TyUnit"
    using assms by (auto simp: table_ok_def prefix_def base_types_def TYPE_UNIT_def)
  show "tree t TYPE_UNIT = TLeaf TyUnit" using table_ok_node [OF assms *(1)] *(2) by simp
qed

lemma erase_sets_maps:
  assumes ok: "table_ok b" and U: "finite U" "length (types b) + card U \<le> u32_bound"
  shows "ty < length (types b) \<Longrightarrow> ty < n \<Longrightarrow> \<forall>i\<le>ty. erase_tree (tree b i) \<in> U \<Longrightarrow>
    maps_type b U erase_tree (erase_sets n) ty"
proof (induction n arbitrary: ty)
  case (Suc n)
  have IH: "maps_type b U erase_tree (erase_sets n) i" if "i < ty" for i
    using that Suc by simp
  have inU: "erase_tree (tree b ty) \<in> U" using Suc.prems by simp
  have node: "tree b ty = node (trees (types b)) (types b ! ty)" using ok Suc.prems(1) by (rule table_ok_node)
  note below = comps_below [OF ok Suc.prems(1)]
  have "gives b U t (erase_sets (Suc n) t ty) (erase_tree (tree b ty))" if t: "grown b U t" for t
  proof -
    note step = grown_index [OF t Suc.prems(1)]
    note one = gives_intern1 [OF IH t U]
    note all = gives_internN [OF erase_all_maps [where n = n] t U]
    show ?thesis
    proof (cases "types b ! ty")
      case (TyTuple ts)
      from all [of ts erase_tree TyTuple TTuple] TyTuple IH below(2) inU step node show ?thesis
        by (simp add: nth_trees comp_def)
    next
      case (TyEnum e ts)
      from all [of ts erase_tree "TyEnum e" "TEnum e"] TyEnum IH below(2) inU step node show ?thesis
        by (simp add: nth_trees comp_def)
    next
      case (TyArray i)
      from one [of i TyArray TArray] TyArray inU step node below(1) show ?thesis by (simp add: nth_trees)
    next
      case (TyList i)
      from one [of i TyList TList] TyList inU step node below(1) show ?thesis by (simp add: nth_trees)
    next
      case (TyCell i)
      from one [of i TyCell TCell] TyCell inU step node below(1) show ?thesis by (simp add: nth_trees)
    next
      case (TySet s)
      with node have "erase_tree (tree b ty) = tree b TYPE_UNIT" using ok by (simp add: table_ok_unit)
      then show ?thesis using TySet step t ok by (simp add: gives_same table_ok_unit)
    next
      case (TyFn f)
      have "maps_types b U erase_tree (\<lambda>t. erase_all n t (ft_params f)) (ft_params f)"
        using IH below(3) [OF TyFn] by (intro erase_all_maps) blast
      from maps_typesE [OF this t] obtain ps t1 where ps: "erase_all n t (ft_params f) = Some (ps, t1)"
        "grown b U t1" "extends t t1" "\<forall>i\<in>set ps. i < length (types t1)"
        "map (tree t1) ps = map (\<lambda>ty. erase_tree (tree b ty)) (ft_params f)" by auto
      from maps_typeE [OF IH [OF below(4) [OF TyFn]] ps(2)] obtain r t2 where
        r: "erase_sets n t1 (ft_ret f) = Some (r, t2)"
        "grown b U t2" "extends t1 t2" "r < length (types t2)" "tree t2 r = erase_tree (tree b (ft_ret f))" by auto
      have "\<forall>i\<in>set ps. i < length (types t2)" "map (tree t2) ps = map (\<lambda>ty. erase_tree (tree b ty)) (ft_params f)"
        using ps(4,5) extends_length [OF r(3)] extends_tree_map [OF r(3) ps(4)] by auto
      then have "gives b U t2 (intern t2 (TyFn (f\<lparr>ft_params := ps, ft_ret := r, ft_sets := None\<rparr>))) (erase_tree (tree b ty))"
        using r(4,5) U inU node TyFn by (intro gives_intern [OF r(2)]) (simp_all add: nth_trees comp_def)
      then have "gives b U t (intern t2 (TyFn (f\<lparr>ft_params := ps, ft_ret := r, ft_sets := None\<rparr>))) (erase_tree (tree b ty))"
        by (rule gives_trans) (rule extends_trans [OF ps(3) r(3)])
      then show ?thesis using ps(1) r(1) TyFn step by simp
    qed (use t step Suc.prems(1) node in \<open>simp_all add: gives_same\<close>)
  qed
  then show ?case by (simp add: maps_type_gives)
qed simp

section \<open>Theorems\<close>

text \<open>The tables a compiler run can have: the default one, and what interning makes of it.\<close>

inductive table_reach :: "type_table \<Rightarrow> bool" where
  start: "default_table = Some t \<Longrightarrow> table_reach t"
| step: "table_reach t \<Longrightarrow> comps_ok (types t) c \<Longrightarrow> intern t c = Some (i, t') \<Longrightarrow> table_reach t'"

lemma default_table_eq:
  "default_table = Some \<lparr>types = base_types, param_flags = replicate 11 False,
     ids = [TyInt \<mapsto> 0, TyInt64 \<mapsto> 1, TyFloat \<mapsto> 2, TyBool \<mapsto> 3, TyString \<mapsto> 4, TyUnit \<mapsto> 5, TyNever \<mapsto> 6,
            TyEvidence \<mapsto> 7, TyFiberScope \<mapsto> 8, TyAny \<mapsto> 9, TyBytes \<mapsto> 10]\<rparr>"
  by (simp add: default_table_def base_types_def intern_def u32_bound_def) (simp add: numeral_eq_Suc)

lemma default_table_ok:
  assumes "default_table = Some t"
  shows "table_ok t"
proof -
  let ?base = "[TyInt, TyInt64, TyFloat, TyBool, TyString, TyUnit, TyNever, TyEvidence, TyFiberScope, TyAny, TyBytes]"
  from assms have t: "types t = ?base" "param_flags t = replicate 11 False"
    "ids t = [TyInt \<mapsto> 0, TyInt64 \<mapsto> 1, TyFloat \<mapsto> 2, TyBool \<mapsto> 3, TyString \<mapsto> 4, TyUnit \<mapsto> 5, TyNever \<mapsto> 6,
            TyEvidence \<mapsto> 7, TyFiberScope \<mapsto> 8, TyAny \<mapsto> 9, TyBytes \<mapsto> 10]"
    unfolding default_table_eq base_types_def by auto
  have lt: "i < length (types t) \<longleftrightarrow> i = 0 \<or> i = 1 \<or> i = 2 \<or> i = 3 \<or> i = 4 \<or> i = 5 \<or> i = 6 \<or> i = 7 \<or> i = 8 \<or> i = 9 \<or> i = 10" for i
    unfolding t(1) by (simp, arith)
  have "ids t c = Some i \<longleftrightarrow> i < length (types t) \<and> types t ! i = c" for c i
  proof
    assume "ids t c = Some i"
    then show "i < length (types t) \<and> types t ! i = c" unfolding t by (auto split: if_splits)
  next
    assume "i < length (types t) \<and> types t ! i = c"
    then show "ids t c = Some i" unfolding lt unfolding t by (elim conjE disjE) auto
  qed
  moreover have "comps_ok (take i (types t)) (types t ! i)" "\<not> has_tparam (tree t i)" "\<not> param_flags t ! i"
    if "i < length (types t)" for i
    using that unfolding lt unfolding t tree_def trees_def by auto
  moreover have "distinct (types t)" "prefix base_types (types t)" "length (param_flags t) = length (types t)"
    unfolding t base_types_def by simp_all
  ultimately show ?thesis unfolding table_ok_def by blast
qed

lemma intern_cases:
  assumes "table_ok t" "comps_ok (types t) c" "intern t c = Some (i, t')"
  shows "table_ok t' \<and> extends t t' \<and> i < length (types t') \<and> types t' ! i = c"
proof (cases "c \<in> set (types t)")
  case True
  then obtain j where "intern t c = Some (j, t)" "j < length (types t)" "types t ! j = c"
    using intern_known assms(1) by blast
  with assms(1,3) show ?thesis by simp
next
  case False
  have "length (types t) < u32_bound"
    using assms(3) ids_None [OF assms(1) False] by (simp add: intern_def split: if_splits)
  then obtain u where "intern t c = Some (length (types t), u)" "table_ok u" "types u = types t @ [c]"
    using intern_new [OF assms(1) False assms(2)] by blast
  with assms(3) show ?thesis by (auto simp: extends_def)
qed

lemma table_reach_ok: "table_reach t \<Longrightarrow> table_ok t"
  by (induction rule: table_reach.induct) (auto simp: default_table_ok dest: intern_cases)

lemma grown_summary:
  assumes "grown t (g ` tree t ` {..ty}) t'"
  shows "table_ok t' \<and> extends t t' \<and> length (types t') \<le> length (types t) + Suc ty"
proof -
  have "card (g ` tree t ` {..ty}) \<le> Suc ty"
    by (metis card_atMost card_image_le finite_atMost finite_imageI le_trans)
  with grown_length [OF assms] assms show ?thesis by (simp add: grown_def)
qed

lemma room:
  assumes "length (types t) + Suc ty \<le> u32_bound"
  shows "length (types t) + card (g ` tree t ` {..ty}) \<le> u32_bound"
  using assms by (metis add_left_mono card_atMost card_image_le finite_atMost finite_imageI le_trans)

text \<open>
  C33: a type table of a run is canonical: two IDs are equal exactly when they stand for the same
  type, the recorded flag of an ID tells whether its type mentions a type parameter, and the fixed
  IDs are those of the types without components.
\<close>

theorem type_ids_canonical:
  assumes "table_reach t" "i < length (types t)" "j < length (types t)"
  shows "(i = j \<longleftrightarrow> tree t i = tree t j) \<and> has_param t i = Some (has_tparam (tree t i))
    \<and> map (tt_index t) [TYPE_INT, TYPE_INT64, TYPE_FLOAT, TYPE_BOOL, TYPE_STRING, TYPE_UNIT, TYPE_NEVER,
         TYPE_EVIDENCE, TYPE_FIBER_SCOPE, TYPE_ANY, TYPE_BYTES] = map Some base_types"
proof -
  have ok: "table_ok t" using assms(1) by (rule table_reach_ok)
  then obtain zs where "types t = base_types @ zs" by (auto simp: table_ok_def prefix_def)
  then have "map (tt_index t) [TYPE_INT, TYPE_INT64, TYPE_FLOAT, TYPE_BOOL, TYPE_STRING, TYPE_UNIT, TYPE_NEVER,
         TYPE_EVIDENCE, TYPE_FIBER_SCOPE, TYPE_ANY, TYPE_BYTES] = map Some base_types"
    by (simp add: tt_index_def TYPE_defs base_types_def)
  with ok assms(2,3) show ?thesis by (simp add: tree_inject table_ok_flag)
qed

text \<open>
  interning never changes what an ID stands for and gives the same ID again; the only way for
  it to panic is a new type in a table with \<open>2\<^sup>3\<^sup>2\<close> types.
\<close>

theorem intern_errors:
  assumes "table_reach t" "comps_ok (types t) c"
  shows "(intern t c = None \<longleftrightarrow> c \<notin> set (types t) \<and> u32_bound \<le> length (types t))
    \<and> (\<forall>i t'. intern t c = Some (i, t') \<longrightarrow>
         extends t t' \<and> tt_index t' i = Some c \<and> intern t' c = Some (i, t') \<and> tt_get t' c = Some i)"
proof -
  have ok: "table_ok t" using assms(1) by (rule table_reach_ok)
  have "intern t c = None \<longleftrightarrow> c \<notin> set (types t) \<and> u32_bound \<le> length (types t)"
  proof (cases "c \<in> set (types t)")
    case True
    then show ?thesis using intern_known [OF ok] by (metis option.distinct(1))
  next
    case False
    with ids_None [OF ok False] ok assms(2) show ?thesis by (auto simp: intern_def type_has_param_eq)
  qed
  moreover have "extends t t' \<and> tt_index t' i = Some c \<and> intern t' c = Some (i, t') \<and> tt_get t' c = Some i"
    if "intern t c = Some (i, t')" for i t'
  proof -
    have t': "table_ok t'" "extends t t'" "i < length (types t')" "types t' ! i = c"
      using intern_cases [OF ok assms(2) that] by simp_all
    from this(3,4) have "ids t' c = Some i" using table_ok_ids [OF t'(1)] by simp
    with t' show ?thesis by (simp add: tt_index_def tt_get_def intern_def)
  qed
  ultimately show ?thesis by blast
qed

text \<open>
  C12: substitution on the table refines substitution on trees. With room for as many types as there
  are IDs up to the given one, \<open>subst_type\<close> returns (no panic, recursion no deeper than the ID), the
  result stands for the substituted type, every old ID keeps its type, and at most that many types
  are added.
\<close>

theorem subst_type_refines:
  assumes "table_reach t" "ty < length (types t)" "\<forall>a\<in>set args. a < length (types t)"
    and "length (types t) + Suc ty \<le> u32_bound" "ty < n"
  shows "\<exists>i t'. subst_type n t ty args = Some (i, t') \<and> i < length (types t')
    \<and> tree t' i = subst_tree (map (tree t) args) (tree t ty)
    \<and> table_ok t' \<and> extends t t' \<and> length (types t') \<le> length (types t) + Suc ty"
proof -
  have ok: "table_ok t" using assms(1) by (rule table_reach_ok)
  let ?g = "subst_tree (map (tree t) args)"
  have "maps_type t (?g ` tree t ` {..ty}) ?g (\<lambda>t i. subst_type n t i args) ty"
    using subst_type_maps [OF ok assms(3) _ room [OF assms(4)] assms(2,5)] by simp
  from maps_typeE [OF this grown_refl [OF ok]] obtain i t' where
    "subst_type n t ty args = Some (i, t')" "grown t (?g ` tree t ` {..ty}) t'" "i < length (types t')"
    "tree t' i = ?g (tree t ty)" by blast
  with grown_summary show ?thesis by blast
qed

text \<open>
  in the same way \<open>erase_sets\<close> refines the erasure of the sets in a tree.
\<close>

theorem erase_sets_refines:
  assumes "table_reach t" "ty < length (types t)" "length (types t) + Suc ty \<le> u32_bound" "ty < n"
  shows "\<exists>i t'. erase_sets n t ty = Some (i, t') \<and> i < length (types t')
    \<and> tree t' i = erase_tree (tree t ty)
    \<and> table_ok t' \<and> extends t t' \<and> length (types t') \<le> length (types t) + Suc ty"
proof -
  have ok: "table_ok t" using assms(1) by (rule table_reach_ok)
  have "maps_type t (erase_tree ` tree t ` {..ty}) erase_tree (erase_sets n) ty"
    using erase_sets_maps [OF ok _ room [OF assms(3)] assms(2,4)] by simp
  from maps_typeE [OF this grown_refl [OF ok]] obtain i t' where
    "erase_sets n t ty = Some (i, t')" "grown t (erase_tree ` tree t ` {..ty}) t'" "i < length (types t')"
    "tree t' i = erase_tree (tree t ty)" by blast
  with grown_summary show ?thesis by blast
qed

section \<open>An example\<close>

text \<open>\<open>fn() -> Int\<close> with the set parameter \<open>$0\<close> as its E and R, and a set that fails and nothing more.\<close>

definition toy_sets :: "core_type list" where
  "toy_sets =
     [TyParam 0, TySet \<lparr>set_fails = False, set_suspends = False, set_ev = False, set_params = [11]\<rparr>,
      TyFn \<lparr>ft_params = [], ft_ret = 0, ft_fails = True, ft_suspends = True, ft_ev = True,
            ft_sets = Some \<lparr>fs_errors = 12, fs_effects = 12\<rparr>\<rparr>,
      TySet \<lparr>set_fails = True, set_suspends = False, set_ev = False, set_params = []\<rparr>]"

lemma intern_reach:
  assumes "table_reach t" "comps_ok (types t) c" "c \<notin> set (types t)" "length (types t) < u32_bound"
  obtains t' where "table_reach t'" "types t' = types t @ [c]"
proof -
  obtain t' where "intern t c = Some (length (types t), t')" "types t' = types t @ [c]"
    using intern_new [OF table_reach_ok [OF assms(1)] assms(3,2,4)] by blast
  with that assms table_reach.step show ?thesis by blast
qed

lemma toy_table_reach: "\<exists>t. table_reach t \<and> types t = base_types @ toy_sets"
proof -
  obtain t0 where t0: "table_reach t0" "types t0 = base_types"
    using default_table_eq table_reach.start by fastforce
  obtain t1 where t1: "table_reach t1" "types t1 = types t0 @ [toy_sets ! 0]"
    by (rule intern_reach [OF t0(1), of "toy_sets ! 0"]) (simp_all add: t0 base_types_def toy_sets_def u32_bound_def)
  obtain t2 where t2: "table_reach t2" "types t2 = types t1 @ [toy_sets ! 1]"
    by (rule intern_reach [OF t1(1), of "toy_sets ! 1"])
       (simp_all add: t0 t1 base_types_def toy_sets_def u32_bound_def is_TyParam_def)
  obtain t3 where t3: "table_reach t3" "types t3 = types t2 @ [toy_sets ! 2]"
    by (rule intern_reach [OF t2(1), of "toy_sets ! 2"])
       (simp_all add: t0 t1 t2 base_types_def toy_sets_def u32_bound_def is_TySet_def)
  obtain t4 where t4: "table_reach t4" "types t4 = types t3 @ [toy_sets ! 3]"
    by (rule intern_reach [OF t3(1), of "toy_sets ! 3"])
       (simp_all add: t0 t1 t2 t3 base_types_def toy_sets_def u32_bound_def)
  then show ?thesis using t0 t1 t2 t3 by (intro exI [of _ t4]) (simp add: toy_sets_def)
qed

theorem type_ids_canonical_witness:
  "\<exists>t. types t = base_types @ toy_sets \<and> tree t 12 \<noteq> tree t 14 \<and> has_param t 12 = Some True"
proof -
  obtain t where t: "table_reach t" "types t = base_types @ toy_sets" using toy_table_reach by blast
  then have len: "12 < length (types t)" "14 < length (types t)" by (simp_all add: base_types_def toy_sets_def)
  moreover have "has_tparam (tree t 12)"
    using t by (simp add: tree_def trees_def base_types_def toy_sets_def)
  moreover from type_ids_canonical [OF t(1) len]
  have "(12 :: nat) = 14 \<longleftrightarrow> tree t 12 = tree t 14" "has_param t 12 = Some (has_tparam (tree t 12))" by blast+
  ultimately have "tree t 12 \<noteq> tree t 14" "has_param t 12 = Some True" by simp_all
  with t(2) show ?thesis by (intro exI [of _ t] conjI)
qed

theorem intern_errors_witness:
  "\<exists>t. types t = base_types @ toy_sets \<and> intern t (TyList 0) \<noteq> None"
proof -
  obtain t where t: "table_reach t" "types t = base_types @ toy_sets" using toy_table_reach by blast
  then have "comps_ok (types t) (TyList 0)" by (simp add: base_types_def)
  then have "intern t (TyList 0) = None \<longleftrightarrow> TyList 0 \<notin> set (types t) \<and> u32_bound \<le> length (types t)"
    by (rule conjunct1 [OF intern_errors [OF t(1)]])
  moreover have "\<not> u32_bound \<le> length (types t)"
    using t(2) by (simp add: base_types_def toy_sets_def u32_bound_def)
  ultimately show ?thesis using t(2) by (intro exI [of _ t] conjI) simp_all
qed

theorem subst_type_refines_witness:
  "\<exists>t i t'. types t = base_types @ toy_sets \<and> subst_type 14 t 13 [14] = Some (i, t')
     \<and> tree t' i = TFn [] (TLeaf TyInt) True False False None"
proof -
  obtain t where t: "table_reach t" "types t = base_types @ toy_sets" using toy_table_reach by blast
  have "13 < length (types t)" "\<forall>a\<in>set [14]. a < length (types t)"
    "length (types t) + Suc 13 \<le> u32_bound" "13 < (14 :: nat)"
    by (simp_all add: t base_types_def toy_sets_def u32_bound_def)
  from subst_type_refines [OF t(1) this] obtain i t' where
    "subst_type 14 t 13 [14] = Some (i, t')" "tree t' i = subst_tree (map (tree t) [14]) (tree t 13)" by blast
  moreover have "subst_tree (map (tree t) [14]) (tree t 13) = TFn [] (TLeaf TyInt) True False False None"
    using t(2) by (simp add: tree_def trees_def base_types_def toy_sets_def tree_arg_def)
  ultimately show ?thesis using t(2) by metis
qed

theorem erase_sets_refines_witness:
  "\<exists>t i t'. types t = base_types @ toy_sets \<and> erase_sets 14 t 13 = Some (i, t')
     \<and> tree t' i = TFn [] (TLeaf TyInt) True True True None"
proof -
  obtain t where t: "table_reach t" "types t = base_types @ toy_sets" using toy_table_reach by blast
  have "13 < length (types t)" "length (types t) + Suc 13 \<le> u32_bound" "13 < (14 :: nat)"
    by (simp_all add: t base_types_def toy_sets_def u32_bound_def)
  from erase_sets_refines [OF t(1) this] obtain i t' where
    "erase_sets 14 t 13 = Some (i, t')" "tree t' i = erase_tree (tree t 13)" by blast
  moreover have "erase_tree (tree t 13) = TFn [] (TLeaf TyInt) True True True None"
    using t(2) by (simp add: tree_def trees_def base_types_def toy_sets_def)
  ultimately show ?thesis using t(2) by metis
qed

end
