(* ===== verification/Sumdb_Tlog.thy ===== *)
theory Sumdb_Tlog
  imports Emela_Prelude "HOL-Library.Word" "HOL-Library.Monad_Syntax"
begin

text \<open>
  The checksum database's Merkle tree: \<open>crates/emela-pome/src/sumdb/tlog.rs\<close>.

  SHA-256 is an argument \<open>sha\<close>: what is relied on is that a digest has 32 bytes and, where a
  theorem says so, that the strings the log itself hashed have no second preimage. A tile source
  is a function of the tile: \<open>TreeReader\<close> keeps every tile it got and stops at the first
  failure, so it never asks for one twice. Sizes and indices are natural numbers; every
  subtraction, slice and shift that could panic is a \<open>None\<close> branch. The second half relates the
  reader to the hash of RFC 6962 and says what an accepted proof implies.
\<close>

section \<open>Operations\<close>

definition TILE_HEIGHT :: nat where
  "TILE_HEIGHT = 8"

definition TILE_WIDTH :: nat where
  "TILE_WIDTH = 2 ^ TILE_HEIGHT"

definition record_hash :: "sha \<Rightarrow> bytes \<Rightarrow> bytes" where
  "record_hash sha r = sha (0 # r)"

definition node_hash :: "sha \<Rightarrow> bytes \<Rightarrow> bytes \<Rightarrow> bytes" where
  "node_hash sha l r = sha (1 # l @ r)"

record tile =
  tile_level :: nat
  tile_index :: nat
  tile_width :: nat

text \<open>\<open>format!("{:03}", n % 1000)\<close> and the loop that collects the groups, from the last one.\<close>

definition pad3 :: "nat \<Rightarrow> string" where
  "pad3 n = [digit_char (n div 100 mod 10), digit_char (n div 10 mod 10), digit_char (n mod 10)]"

fun path_groups :: "nat \<Rightarrow> string list" where
  "path_groups n = (if n div 1000 = 0 then [pad3 (n mod 1000)]
                    else pad3 (n mod 1000) # path_groups (n div 1000))"

declare path_groups.simps [simp del]

definition tile_path :: "tile \<Rightarrow> string" where
  "tile_path t =
     (let groups = rev (path_groups (tile_index t));
          index = map ((#) CHR ''x'') (butlast groups) @ [last groups];
          partial = (if tile_width t < TILE_WIDTH then ''.p/'' @ show_nat (tile_width t) else [])
      in ''tile/'' @ show_nat (tile_level t) @ ''/'' @ join_with ''/'' index @ partial)"

datatype 'e proof_error = Source 'e | BadTile tile | Mismatch

type_synonym 'e tile_source = "tile \<Rightarrow> 'e + bytes"
type_synonym tile_cache = "tile \<rightharpoonup> bytes"

text \<open>
  \<open>None\<close> is a panic; \<open>Some (Inl e)\<close> an error; otherwise the value and the reader's tiles.
\<close>

type_synonym ('e, 'a) reader = "('e proof_error + 'a \<times> tile_cache) option"

text \<open>\<open>63 - leading_zeros\<close> of a positive number, which is also \<open>trailing_zeros\<close> of a power of two.\<close>

fun ilog2 :: "nat \<Rightarrow> nat" where
  "ilog2 n = (if n < 2 then 0 else Suc (ilog2 (n div 2)))"

declare ilog2.simps [simp del]

definition is_power_of_two :: "nat \<Rightarrow> bool" where
  "is_power_of_two n \<longleftrightarrow> n \<noteq> 0 \<and> n = 2 ^ ilog2 n"

fun fold_pairs :: "sha \<Rightarrow> bytes list \<Rightarrow> bytes list option" where
  "fold_pairs sha [] = Some []"
| "fold_pairs sha [h] = None"
| "fold_pairs sha (a # b # hs) = map_option ((#) (node_hash sha a b)) (fold_pairs sha hs)"

lemma fold_pairs_length: "fold_pairs sha hs = Some hs' \<Longrightarrow> 2 * length hs' = length hs"
  by (induction sha hs arbitrary: hs' rule: fold_pairs.induct) auto

function fold_hashes :: "sha \<Rightarrow> bytes list \<Rightarrow> bytes option" where
  "fold_hashes sha hs =
     (if 1 < length hs
      then do { hs' \<leftarrow> fold_pairs sha hs; fold_hashes sha hs' }
      else (case hs of [] \<Rightarrow> None | h # _ \<Rightarrow> Some h))"
  by auto
termination
  by (relation "measure (length \<circ> snd)") (auto dest: fold_pairs_length)

declare fold_hashes.simps [simp del]

definition slice_hash :: "bytes \<Rightarrow> nat \<Rightarrow> bytes option" where
  "slice_hash d i = (if i * 32 + 32 \<le> length d then Some (take 32 (drop (i * 32) d)) else None)"

fun slice_hashes :: "bytes \<Rightarrow> nat list \<Rightarrow> bytes list option" where
  "slice_hashes d [] = Some []"
| "slice_hashes d (i # is) = do { h \<leftarrow> slice_hash d i; hs \<leftarrow> slice_hashes d is; Some (h # hs) }"

definition read_tile :: "'e tile_source \<Rightarrow> tile_cache \<Rightarrow> tile \<Rightarrow> ('e, bytes) reader" where
  "read_tile src tiles t =
     (case tiles t of
        Some d \<Rightarrow> Some (Inr (d, tiles))
      | None \<Rightarrow>
          (case src t of
             Inl e \<Rightarrow> Some (Inl (Source e))
           | Inr d \<Rightarrow>
               if length d \<noteq> tile_width t * 32 then Some (Inl (BadTile t))
               else Some (Inr (d, tiles(t \<mapsto> d)))))"

definition subtree_tile :: "nat \<Rightarrow> nat \<Rightarrow> nat \<Rightarrow> tile option" where
  "subtree_tile sz height index =
     (let level = height div TILE_HEIGHT;
          span = 2 ^ (height mod TILE_HEIGHT);
          ti = index * span div TILE_WIDTH;
          count = sz div 2 ^ (level * TILE_HEIGHT)
      in if ti * TILE_WIDTH \<le> count
         then Some \<lparr>tile_level = level, tile_index = ti,
                    tile_width = min (count - ti * TILE_WIDTH) TILE_WIDTH\<rparr>
         else None)"

definition subtree ::
    "sha \<Rightarrow> 'e tile_source \<Rightarrow> nat \<Rightarrow> tile_cache \<Rightarrow> nat \<Rightarrow> nat \<Rightarrow> ('e, bytes) reader" where
  "subtree sha src sz tiles height index =
     (case subtree_tile sz height index of
        None \<Rightarrow> None
      | Some t \<Rightarrow>
          (case read_tile src tiles t of
             None \<Rightarrow> None
           | Some (Inl e) \<Rightarrow> Some (Inl e)
           | Some (Inr (d, tiles')) \<Rightarrow>
               (let span = 2 ^ (height mod TILE_HEIGHT);
                    start = index * span - tile_index t * TILE_WIDTH
                in case Option.bind (slice_hashes d [start..<start + span]) (fold_hashes sha) of
                     None \<Rightarrow> None
                   | Some h \<Rightarrow> Some (Inr (h, tiles')))))"

definition leaf_in :: "nat \<Rightarrow> nat \<Rightarrow> (nat \<times> bytes) option \<Rightarrow> (nat \<times> bytes) option" where
  "leaf_in lo hi leaf =
     (case leaf of Some (i, h) \<Rightarrow> if lo \<le> i \<and> i < hi then Some (i, h) else None | None \<Rightarrow> None)"

lemma ilog2_le: "0 < n \<Longrightarrow> 2 ^ ilog2 n \<le> n"
proof (induction n rule: ilog2.induct)
  case (1 n)
  then show ?case by (subst ilog2.simps) auto
qed

lemma ilog2_less: "n < 2 * 2 ^ ilog2 n"
proof (induction n rule: ilog2.induct)
  case (1 n)
  then show ?case by (subst ilog2.simps) auto
qed

lemma split_point:
  assumes "1 < (w::nat)"
  shows "0 < (2::nat) ^ ilog2 (w - 1)" "2 ^ ilog2 (w - 1) < w" "w \<le> 2 * 2 ^ ilog2 (w - 1)"
  using ilog2_le [of "w - 1"] ilog2_less [of "w - 1"] assms by auto

text \<open>The width is checked first, so the recursion ends: both halves are narrower.\<close>

function tree_range ::
    "sha \<Rightarrow> 'e tile_source \<Rightarrow> nat \<Rightarrow> tile_cache \<Rightarrow> nat \<Rightarrow> nat \<Rightarrow> (nat \<times> bytes) option \<Rightarrow> ('e, bytes) reader" where
  "tree_range sha src sz tiles lo hi leaf0 =
     (if hi < lo then None
      else let width = hi - lo; leaf = leaf_in lo hi leaf0 in
        if leaf \<noteq> None \<and> width = 1 then Some (Inr (snd (the leaf), tiles))
        else if leaf = None \<and> is_power_of_two width \<and> lo mod width = 0
          then subtree sha src sz tiles (ilog2 width) (lo div width)
        else if width \<le> 1 then None
        else let k = 2 ^ ilog2 (width - 1) in
          (case tree_range sha src sz tiles lo (lo + k) leaf of
             None \<Rightarrow> None
           | Some (Inl e) \<Rightarrow> Some (Inl e)
           | Some (Inr (l, tiles1)) \<Rightarrow>
               (case tree_range sha src sz tiles1 (lo + k) hi leaf of
                  None \<Rightarrow> None
                | Some (Inl e) \<Rightarrow> Some (Inl e)
                | Some (Inr (r, tiles2)) \<Rightarrow> Some (Inr (node_hash sha l r, tiles2)))))"
  by auto
termination
proof (relation "measure (\<lambda>(sha, src, sz, tiles, lo, hi, leaf). hi - lo)", goal_cases)
  case (2 sha src sz tiles lo hi leaf width leaf' k)
  then have "1 < hi - lo" "k = 2 ^ ilog2 (hi - lo - 1)" by auto
  with split_point [of "hi - lo"] show ?case by simp
qed (auto intro!: diff_less_mono2)

declare tree_range.simps [simp del]

definition tree_root :: "sha \<Rightarrow> 'e tile_source \<Rightarrow> nat \<Rightarrow> tile_cache \<Rightarrow> nat \<Rightarrow> ('e, bytes) reader" where
  "tree_root sha src sz tiles n =
     (if n = 0 then Some (Inr (sha [], tiles)) else tree_range sha src sz tiles 0 n None)"

definition root_with_leaf ::
    "sha \<Rightarrow> 'e tile_source \<Rightarrow> nat \<Rightarrow> tile_cache \<Rightarrow> nat \<Rightarrow> nat \<Rightarrow> bytes \<Rightarrow> ('e, bytes) reader" where
  "root_with_leaf sha src sz tiles n index leaf = tree_range sha src sz tiles 0 n (Some (index, leaf))"

definition verify_inclusion ::
    "sha \<Rightarrow> 'e tile_source \<Rightarrow> nat \<Rightarrow> bytes \<Rightarrow> nat \<Rightarrow> bytes \<Rightarrow> ('e proof_error + unit) option" where
  "verify_inclusion sha src sz rt index record =
     (if sz \<le> index then Some (Inl Mismatch)
      else (case root_with_leaf sha src sz Map.empty sz index (record_hash sha record) of
              None \<Rightarrow> None
            | Some (Inl e) \<Rightarrow> Some (Inl e)
            | Some (Inr (rebuilt, _)) \<Rightarrow>
                Some (if rebuilt = rt then Inr () else Inl Mismatch)))"

definition verify_consistency ::
    "sha \<Rightarrow> 'e tile_source \<Rightarrow> nat \<Rightarrow> bytes \<Rightarrow> nat \<Rightarrow> bytes \<Rightarrow> ('e proof_error + unit) option" where
  "verify_consistency sha src old_size old_root new_size new_root =
     (if new_size < old_size then Some (Inl Mismatch)
      else (case tree_root sha src new_size Map.empty new_size of
              None \<Rightarrow> None
            | Some (Inl e) \<Rightarrow> Some (Inl e)
            | Some (Inr (h, tiles)) \<Rightarrow>
                if h \<noteq> new_root then Some (Inl Mismatch)
                else (case tree_root sha src new_size tiles old_size of
                        None \<Rightarrow> None
                      | Some (Inl e) \<Rightarrow> Some (Inl e)
                      | Some (Inr (h', _)) \<Rightarrow>
                          Some (if h' \<noteq> old_root then Inl Mismatch else Inr ()))))"

section \<open>The tree of RFC 6962\<close>

text \<open>The hash of the tree over given leaf hashes, and over records.\<close>

function lth :: "sha \<Rightarrow> bytes list \<Rightarrow> bytes" where
  "lth sha hs =
     (case hs of
        [] \<Rightarrow> sha []
      | [h] \<Rightarrow> h
      | _ \<Rightarrow> let k = 2 ^ ilog2 (length hs - 1)
            in node_hash sha (lth sha (take k hs)) (lth sha (drop k hs)))"
  by auto
termination
proof (relation "measure (length \<circ> snd)", goal_cases)
  case (2 sha hs x xs y ys k)
  with split_point(2) [of "length hs"] show ?case by simp
next
  case (3 sha hs x xs y ys k)
  with split_point(1) [of "length hs"] show ?case by simp
qed simp

declare lth.simps [simp del]

definition mth :: "sha \<Rightarrow> bytes list \<Rightarrow> bytes" where
  "mth sha ds = lth sha (map (record_hash sha) ds)"

lemma lth_simps [simp]: "lth sha [] = sha []" "lth sha [h] = h"
  by (simp_all add: lth.simps)

lemma lth_node:
  assumes "1 < length hs" "k = 2 ^ ilog2 (length hs - 1)"
  shows "lth sha hs = node_hash sha (lth sha (take k hs)) (lth sha (drop k hs))"
  using assms by (subst lth.simps) (auto split: list.split simp: Let_def)

text \<open>The elements \<open>lo..<hi\<close>.\<close>

definition between :: "'a list \<Rightarrow> nat \<Rightarrow> nat \<Rightarrow> 'a list" where
  "between hs lo hi = take (hi - lo) (drop lo hs)"

lemma length_between [simp]: "hi \<le> length hs \<Longrightarrow> length (between hs lo hi) = hi - lo"
  by (simp add: between_def)

lemma between_split:
  assumes "lo \<le> mid" "mid \<le> hi" "hi \<le> length hs"
  shows "take (mid - lo) (between hs lo hi) = between hs lo mid"
    and "drop (mid - lo) (between hs lo hi) = between hs mid hi"
  using assms by (auto simp: between_def min_def drop_take)

lemma between_all [simp]: "between hs 0 n = take n hs"
  by (simp add: between_def)

lemma between_single: "i < length hs \<Longrightarrow> between hs i (Suc i) = [hs ! i]"
  by (simp add: between_def take_Suc_conv_app_nth hd_drop_conv_nth take_Suc)

lemma ilog2_power [simp]: "ilog2 (2 ^ n) = n"
proof (induction n)
  case (Suc n)
  then show ?case by (subst ilog2.simps) simp
qed (simp add: ilog2.simps)

lemma two_powers: "1 < 2 * (2::nat) ^ n" "1 < (2::nat) ^ n + 2 ^ n"
  using one_le_power [of "2::nat" n] by linarith+

lemma ilog2_unique: "2 ^ n \<le> m \<Longrightarrow> m < 2 * 2 ^ n \<Longrightarrow> ilog2 m = n"
proof (induction n arbitrary: m)
  case (Suc n)
  then have "ilog2 (m div 2) = n" by (intro Suc.IH) auto
  moreover have "\<not> m < 2" using Suc.prems(1) two_powers(1) [of n] by simp
  ultimately show ?case by (subst ilog2.simps) auto
qed (simp add: ilog2.simps)

lemma lth_between_split:
  assumes "lo + 1 < hi" "hi \<le> length hs" "k = 2 ^ ilog2 (hi - lo - 1)"
  shows "lth sha (between hs lo hi)
    = node_hash sha (lth sha (between hs lo (lo + k))) (lth sha (between hs (lo + k) hi))"
proof -
  have k: "k < hi - lo" using split_point(2) [of "hi - lo"] assms by simp
  have "lth sha (between hs lo hi)
      = node_hash sha (lth sha (take k (between hs lo hi))) (lth sha (drop k (between hs lo hi)))"
    using assms by (intro lth_node) auto
  moreover have "take k (between hs lo hi) = between hs lo (lo + k)"
    "drop k (between hs lo hi) = between hs (lo + k) hi"
    using between_split [of lo "lo + k" hi hs] k assms by auto
  ultimately show ?thesis by simp
qed

lemma lth_double:
  assumes "(i + 2) * 2 ^ h \<le> length hs"
  shows "lth sha (between hs (i * 2 ^ h) ((i + 2) * 2 ^ h))
    = node_hash sha (lth sha (between hs (i * 2 ^ h) ((i + 1) * 2 ^ h)))
        (lth sha (between hs ((i + 1) * 2 ^ h) ((i + 2) * 2 ^ h)))"
proof -
  have w: "(i + 2) * 2 ^ h - i * 2 ^ h = (2::nat) ^ Suc h" by (simp add: algebra_simps)
  have "ilog2 ((i + 2) * 2 ^ h - i * 2 ^ h - 1) = h"
    unfolding w by (rule ilog2_unique) auto
  then show ?thesis
    using lth_between_split [of "i * 2 ^ h" "(i + 2) * 2 ^ h" hs "2 ^ h" sha] assms
      two_powers(2) [of h] by (simp add: algebra_simps)
qed

text \<open>Folding the hashes of neighbouring complete subtrees.\<close>

definition subtree_hash :: "sha \<Rightarrow> bytes list \<Rightarrow> nat \<Rightarrow> nat \<Rightarrow> bytes" where
  "subtree_hash sha hs h i = lth sha (between hs (i * 2 ^ h) ((i + 1) * 2 ^ h))"

lemma fold_pairs_subtrees:
  assumes "(i + 2 * n) * 2 ^ h \<le> length hs" "even i"
  shows "fold_pairs sha (map (subtree_hash sha hs h) [i..<i + 2 * n])
    = Some (map (subtree_hash sha hs (Suc h)) [i div 2..<i div 2 + n])"
  using assms
proof (induction n arbitrary: i)
  case (Suc n)
  have up: "[i..<i + 2 * Suc n] = i # Suc i # [i + 2..<i + 2 + 2 * n]"
    by (simp add: upt_conv_Cons)
  have up': "[i div 2..<i div 2 + Suc n] = i div 2 # [(i + 2) div 2..<(i + 2) div 2 + n]"
    by (simp add: upt_conv_Cons)
  have len: "(i + 2) * 2 ^ h \<le> length hs"
    using Suc.prems(1) by (rule order_trans [rotated]) simp
  have "node_hash sha (subtree_hash sha hs h i) (subtree_hash sha hs h (Suc i))
      = lth sha (between hs (i * 2 ^ h) ((i + 2) * 2 ^ h))"
    using lth_double [OF len] by (simp add: subtree_hash_def)
  also have "\<dots> = subtree_hash sha hs (Suc h) (i div 2)"
  proof -
    obtain j where "i = 2 * j" using Suc.prems(2) by blast
    then show ?thesis by (simp add: subtree_hash_def algebra_simps)
  qed
  finally have hash: "node_hash sha (subtree_hash sha hs h i) (subtree_hash sha hs h (Suc i))
      = subtree_hash sha hs (Suc h) (i div 2)" .
  have "fold_pairs sha (map (subtree_hash sha hs h) [i + 2..<i + 2 + 2 * n])
      = Some (map (subtree_hash sha hs (Suc h)) [(i + 2) div 2..<(i + 2) div 2 + n])"
    using Suc.prems by (intro Suc.IH) (auto simp: algebra_simps)
  then show ?case unfolding up up' by (simp add: hash)
qed simp

lemma fold_hashes_subtrees:
  assumes "(i + 1) * 2 ^ (h + m) \<le> length hs"
  shows "fold_hashes sha (map (subtree_hash sha hs h) [i * 2 ^ m..<i * 2 ^ m + 2 ^ m])
    = Some (subtree_hash sha hs (h + m) i)"
  using assms
proof (induction m arbitrary: h)
  case 0
  then show ?case by (simp add: fold_hashes.simps)
next
  case (Suc m)
  have "fold_pairs sha (map (subtree_hash sha hs h) [i * 2 ^ Suc m..<i * 2 ^ Suc m + 2 * 2 ^ m])
      = Some (map (subtree_hash sha hs (Suc h)) [i * 2 ^ Suc m div 2..<i * 2 ^ Suc m div 2 + 2 ^ m])"
    using Suc.prems by (intro fold_pairs_subtrees) (auto simp: algebra_simps power_add)
  moreover have "i * 2 ^ Suc m div 2 = i * 2 ^ m" by simp
  moreover have "fold_hashes sha (map (subtree_hash sha hs (Suc h)) [i * 2 ^ m..<i * 2 ^ m + 2 ^ m])
      = Some (subtree_hash sha hs (Suc h + m) i)"
    using Suc.prems by (intro Suc.IH) simp
  ultimately show ?case using two_powers(1) [of m] by (subst fold_hashes.simps) simp
qed

section \<open>Reading the tree from an honest source\<close>

definition honest_tile :: "sha \<Rightarrow> bytes list \<Rightarrow> tile \<Rightarrow> bytes" where
  "honest_tile sha hs t =
     concat (map (subtree_hash sha hs (tile_level t * TILE_HEIGHT))
       [tile_index t * TILE_WIDTH..<tile_index t * TILE_WIDTH + tile_width t])"

text \<open>The source answers every tile that a complete subtree of the tree needs.\<close>

definition serves :: "sha \<Rightarrow> bytes list \<Rightarrow> 'e tile_source \<Rightarrow> bool" where
  "serves sha hs src \<longleftrightarrow>
     (\<forall>height index t. (index + 1) * 2 ^ height \<le> length hs \<longrightarrow>
        subtree_tile (length hs) height index = Some t \<longrightarrow> src t = Inr (honest_tile sha hs t))"

definition cache_ok :: "'e tile_source \<Rightarrow> tile_cache \<Rightarrow> bool" where
  "cache_ok src tiles \<longleftrightarrow>
     (\<forall>t d. tiles t = Some d \<longrightarrow> src t = Inr d \<and> length d = tile_width t * 32)"

lemma lth_length:
  "sha_len sha \<Longrightarrow> \<forall>h\<in>set hs. length h = 32 \<Longrightarrow> length (lth sha hs) = 32"
  by (subst lth.simps) (auto simp: sha_len_def node_hash_def Let_def split: list.split)

lemma set_between: "set (between xs lo hi) \<subseteq> set xs"
  by (auto simp: between_def dest: in_set_takeD in_set_dropD)

lemma subtree_hash_length:
  "sha_len sha \<Longrightarrow> \<forall>h\<in>set hs. length h = 32 \<Longrightarrow> length (subtree_hash sha hs h i) = 32"
  unfolding subtree_hash_def using set_between [of hs] by (intro lth_length) blast+

lemma slice_concat:
  assumes "\<forall>h\<in>set hs. length h = 32" "i < length hs"
  shows "slice_hash (concat hs) i = Some (hs ! i)"
  using assms
proof (induction hs arbitrary: i)
  case (Cons h hs)
  have len: "length (concat hs) = 32 * length hs" if "\<forall>h\<in>set hs. length h = 32" for hs :: "bytes list"
    using that by (induction hs) auto
  show ?case
  proof (cases i)
    case 0
    with Cons.prems show ?thesis by (simp add: slice_hash_def)
  next
    case (Suc j)
    with Cons.prems Cons.IH [of j] len [of hs] show ?thesis
      by (auto simp: slice_hash_def split: if_splits)
  qed
qed simp

lemma slice_hashes_concat:
  assumes "\<forall>h\<in>set hs. length h = 32" "\<forall>i\<in>set is. i < length hs"
  shows "slice_hashes (concat hs) is = Some (map ((!) hs) is)"
  using assms(2) by (induction "is") (auto simp: slice_concat [OF assms(1)])

lemma length_concat_32: "\<forall>h\<in>set hs. length h = 32 \<Longrightarrow> length (concat hs) = length hs * 32"
  by (induction hs) auto

text \<open>The tile of a complete subtree: where its hashes are, and that they are in range.\<close>

lemma slot_room:
  assumes "m < 8"
  shows "index * 2 ^ m mod TILE_WIDTH + 2 ^ m \<le> TILE_WIDTH"
proof -
  define k :: nat where "k = 2 ^ (8 - m)"
  have "(2::nat) ^ 8 = 2 ^ (m + (8 - m))" using assms by (simp del: power_numeral)
  then have W: "TILE_WIDTH = 2 ^ m * k" unfolding TILE_WIDTH_def TILE_HEIGHT_def k_def power_add .
  have k: "0 < k" by (simp add: k_def)
  have "index * 2 ^ m mod TILE_WIDTH = 2 ^ m * (index mod k)"
    unfolding W by (metis mult.commute mult_mod_right)
  also have "\<dots> + 2 ^ m = 2 ^ m * Suc (index mod k)" by simp
  also have "\<dots> \<le> TILE_WIDTH" unfolding W using k by (intro mult_le_mono2) (simp add: Suc_leI)
  finally show ?thesis .
qed

lemma subtree_tile_range:
  assumes "(index + 1) * 2 ^ height \<le> sz"
  obtains t where "subtree_tile sz height index = Some t"
    and "tile_level t = height div TILE_HEIGHT"
    and "tile_index t * TILE_WIDTH \<le> index * 2 ^ (height mod TILE_HEIGHT)"
    and "index * 2 ^ (height mod TILE_HEIGHT) - tile_index t * TILE_WIDTH + 2 ^ (height mod TILE_HEIGHT)
           \<le> tile_width t"
    and "tile_width t \<le> TILE_WIDTH"
proof -
  let ?L = "height div TILE_HEIGHT" and ?m = "height mod TILE_HEIGHT"
  let ?first = "index * 2 ^ ?m" and ?count = "sz div 2 ^ (?L * TILE_HEIGHT)"
  let ?ti = "?first div TILE_WIDTH"
  have m: "?m < 8" by (simp add: TILE_HEIGHT_def)
  have h: "?L * TILE_HEIGHT + ?m = height" by simp
  have "(index * 2 ^ m + 2 ^ m) * 2 ^ a = (index + 1) * (2::nat) ^ (a + m)" for m a
    by (simp add: power_add algebra_simps)
  from this [of ?m "?L * TILE_HEIGHT"] assms h have "(?first + 2 ^ ?m) * 2 ^ (?L * TILE_HEIGHT) \<le> sz" by simp
  then have count: "?first + 2 ^ ?m \<le> ?count" by (simp add: less_eq_div_iff_mult_less_eq)
  have "?first mod TILE_WIDTH + 2 ^ ?m \<le> TILE_WIDTH" using slot_room m by blast
  then have room: "?first - ?ti * TILE_WIDTH + 2 ^ ?m \<le> TILE_WIDTH"
    by (simp only: minus_div_mult_eq_mod)
  have le: "?ti * TILE_WIDTH \<le> ?first" by simp
  have fits: "?first - ?ti * TILE_WIDTH + 2 ^ ?m \<le> ?count - ?ti * TILE_WIDTH"
    and some: "?ti * TILE_WIDTH \<le> ?count"
    using count le by linarith+
  let ?t = "\<lparr>tile_level = ?L, tile_index = ?ti, tile_width = min (?count - ?ti * TILE_WIDTH) TILE_WIDTH\<rparr>"
  show ?thesis
  proof (rule that [of ?t])
    show "subtree_tile sz height index = Some ?t"
      unfolding subtree_tile_def Let_def using some by (rule if_P)
  qed (use room fits le in \<open>simp_all only: tile.select_convs min.bounded_iff simp_thms min.cobounded2\<close>)
qed

text \<open>The cache changes nothing but the number of requests.\<close>

lemma read_tile_uncached:
  assumes "cache_ok src tiles"
  shows "read_tile src tiles t =
     Some (case src t of
        Inl e \<Rightarrow> Inl (Source e)
      | Inr d \<Rightarrow> if length d \<noteq> tile_width t * 32 then Inl (BadTile t) else Inr (d, tiles(t \<mapsto> d)))"
  using assms by (cases "tiles t") (auto simp: read_tile_def cache_ok_def fun_upd_idem split: sum.split)

lemma cache_ok_update:
  "cache_ok src tiles \<Longrightarrow> src t = Inr d \<Longrightarrow> length d = tile_width t * 32 \<Longrightarrow> cache_ok src (tiles(t \<mapsto> d))"
  by (auto simp: cache_ok_def)

lemma fold_pairs_total:
  "length hs = 2 * n \<Longrightarrow> \<exists>hs'. fold_pairs sha hs = Some hs' \<and> length hs' = n
     \<and> (sha_len sha \<longrightarrow> (\<forall>h\<in>set hs'. length h = 32))"
proof (induction n arbitrary: hs)
  case (Suc n)
  then obtain a b hs0 where hs: "hs = a # b # hs0" "length hs0 = 2 * n"
    by (auto simp: length_Suc_conv)
  from Suc.IH [OF hs(2)] hs(1) show ?case by (auto simp: node_hash_def sha_len_def)
qed simp

lemma fold_hashes_total:
  "length hs = 2 ^ m \<Longrightarrow> sha_len sha \<Longrightarrow> \<forall>h\<in>set hs. length h = 32 \<Longrightarrow>
   \<exists>h. fold_hashes sha hs = Some h \<and> length h = 32"
proof (induction m arbitrary: hs)
  case 0
  then show ?case by (cases hs) (auto simp: fold_hashes.simps)
next
  case (Suc m)
  then obtain hs' where "fold_pairs sha hs = Some hs'" "length hs' = 2 ^ m" "\<forall>h\<in>set hs'. length h = 32"
    using fold_pairs_total [of hs "2 ^ m" sha] by auto
  with Suc.IH [of hs'] Suc.prems two_powers(1) [of m] show ?case
    by (subst fold_hashes.simps) simp
qed

lemma slice_hashes_total:
  "\<forall>i\<in>set is. i * 32 + 32 \<le> length d \<Longrightarrow>
   \<exists>hs. slice_hashes d is = Some hs \<and> length hs = length is \<and> (\<forall>h\<in>set hs. length h = 32)"
proof (induction "is")
  case (Cons i "is")
  then show ?case by (auto simp: slice_hash_def)
qed simp

lemma subtree_total:
  assumes "(index + 1) * 2 ^ height \<le> sz" "cache_ok src tiles" "sha_len sha"
  shows "\<exists>r. subtree sha src sz tiles height index = Some r
     \<and> (\<forall>h tiles'. r = Inr (h, tiles') \<longrightarrow> cache_ok src tiles' \<and> length h = 32)"
proof -
  obtain t where t: "subtree_tile sz height index = Some t"
    and fits: "index * 2 ^ (height mod TILE_HEIGHT) - tile_index t * TILE_WIDTH + 2 ^ (height mod TILE_HEIGHT)
       \<le> tile_width t"
    using assms(1) by (rule subtree_tile_range)
  show ?thesis
  proof (cases "\<exists>d. src t = Inr d \<and> length d = tile_width t * 32")
    case False
    then show ?thesis
      using t by (auto simp: subtree_def read_tile_uncached [OF assms(2)] split: sum.split)
  next
    case True
    then obtain d where d: "src t = Inr d" "length d = tile_width t * 32" by blast
    let ?span = "2 ^ (height mod TILE_HEIGHT)"
    let ?start = "index * ?span - tile_index t * TILE_WIDTH"
    have "\<forall>i\<in>set [?start..<?start + ?span]. i * 32 + 32 \<le> length d"
      using fits d(2) by auto
    from slice_hashes_total [OF this] obtain hs where
      hs: "slice_hashes d [?start..<?start + ?span] = Some hs" "length hs = ?span"
        "\<forall>h\<in>set hs. length h = 32"
      unfolding length_upt add_diff_cancel_left' by blast
    from fold_hashes_total [OF hs(2) assms(3) hs(3)] obtain h where
      "fold_hashes sha hs = Some h" "length h = 32" by blast
    with t d hs(1) cache_ok_update [OF assms(2) d] show ?thesis
      by (simp add: subtree_def read_tile_uncached [OF assms(2)] Let_def)
  qed
qed

lemma subtree_honest:
  assumes "(index + 1) * 2 ^ height \<le> length hs" "cache_ok src tiles" "sha_len sha"
    and "serves sha hs src" "\<forall>h\<in>set hs. length h = 32"
  shows "\<exists>tiles'. subtree sha src (length hs) tiles height index
      = Some (Inr (subtree_hash sha hs height index, tiles')) \<and> cache_ok src tiles'"
proof -
  let ?m = "height mod TILE_HEIGHT" and ?L = "height div TILE_HEIGHT * TILE_HEIGHT"
  obtain t where t: "subtree_tile (length hs) height index = Some t"
    and level: "tile_level t = height div TILE_HEIGHT"
    and le: "tile_index t * TILE_WIDTH \<le> index * 2 ^ ?m"
    and fits: "index * 2 ^ ?m - tile_index t * TILE_WIDTH + 2 ^ ?m \<le> tile_width t"
    using assms(1) by (rule subtree_tile_range)
  let ?first = "tile_index t * TILE_WIDTH"
  let ?start = "index * 2 ^ ?m - ?first"
  let ?ths = "map (subtree_hash sha hs ?L) [?first..<?first + tile_width t]"
  have src: "src t = Inr (concat ?ths)"
    using assms(1,4) t level by (auto simp: serves_def honest_tile_def)
  have len: "\<forall>h\<in>set ?ths. length h = 32" using subtree_hash_length [OF assms(3,5)] by auto
  have "length (concat ?ths) = length ?ths * 32" using len by (rule length_concat_32)
  then have d: "length (concat ?ths) = tile_width t * 32" by simp
  have "slice_hashes (concat ?ths) [?start..<?start + 2 ^ ?m] = Some (map ((!) ?ths) [?start..<?start + 2 ^ ?m])"
    using len fits by (intro slice_hashes_concat) auto
  also have "map ((!) ?ths) [?start..<?start + 2 ^ ?m]
      = map (subtree_hash sha hs ?L) [index * 2 ^ ?m..<index * 2 ^ ?m + 2 ^ ?m]"
    using fits le by (intro nth_equalityI) auto
  finally have slices: "slice_hashes (concat ?ths) [?start..<?start + 2 ^ ?m]
      = Some (map (subtree_hash sha hs ?L) [index * 2 ^ ?m..<index * 2 ^ ?m + 2 ^ ?m])" .
  have h: "?L + ?m = height" by simp
  have "fold_hashes sha (map (subtree_hash sha hs ?L) [index * 2 ^ ?m..<index * 2 ^ ?m + 2 ^ ?m])
      = Some (subtree_hash sha hs height index)"
    using fold_hashes_subtrees [of index ?L ?m hs sha] assms(1) unfolding h by blast
  with t src d slices cache_ok_update [OF assms(2) src d] show ?thesis
    by (simp add: subtree_def read_tile_uncached [OF assms(2)] Let_def)
qed

section \<open>Ranges\<close>

text \<open>The three ways a range is computed.\<close>

lemma is_power_of_two_1 [simp]: "is_power_of_two (Suc 0)"
  by (simp add: is_power_of_two_def ilog2.simps)

lemma range_cases:
  assumes "lo < hi"
  obtains (leaf) i h where "leaf_in lo hi lf = Some (i, h)" "hi = lo + 1" "i = lo"
      "\<And>tiles. tree_range sha src sz tiles lo hi lf = Some (Inr (h, tiles))"
  | (subtree) n where "leaf_in lo hi lf = None" "lo = lo div 2 ^ n * 2 ^ n" "hi = (lo div 2 ^ n + 1) * 2 ^ n"
      "\<And>tiles. tree_range sha src sz tiles lo hi lf = subtree sha src sz tiles n (lo div 2 ^ n)"
  | (split) k where "k = 2 ^ ilog2 (hi - lo - 1)" "lo + 1 < hi" "0 < k" "lo + k < hi"
      "\<And>tiles. tree_range sha src sz tiles lo hi lf =
         (case tree_range sha src sz tiles lo (lo + k) (leaf_in lo hi lf) of
            None \<Rightarrow> None
          | Some (Inl e) \<Rightarrow> Some (Inl e)
          | Some (Inr (l, tiles1)) \<Rightarrow>
              (case tree_range sha src sz tiles1 (lo + k) hi (leaf_in lo hi lf) of
                 None \<Rightarrow> None
               | Some (Inl e) \<Rightarrow> Some (Inl e)
               | Some (Inr (r, tiles2)) \<Rightarrow> Some (Inr (node_hash sha l r, tiles2))))"
proof -
  let ?leaf = "leaf_in lo hi lf" and ?w = "hi - lo"
  consider (1) i h where "?leaf = Some (i, h)" "?w = 1"
    | (2) "?leaf = None" "is_power_of_two ?w" "lo mod ?w = 0"
    | (3) "\<not> (?leaf \<noteq> None \<and> ?w = 1)" "\<not> (?leaf = None \<and> is_power_of_two ?w \<and> lo mod ?w = 0)"
    by (cases ?leaf) auto
  then show thesis
  proof cases
    case 1
    then have hi: "hi = lo + 1" by simp
    moreover from 1 hi have "i = lo" by (auto simp: leaf_in_def split: option.splits if_splits)
    moreover have "tree_range sha src sz tiles lo hi lf = Some (Inr (h, tiles))" for tiles
      using 1 hi by (subst tree_range.simps) simp
    ultimately show thesis using leaf 1 by blast
  next
    case 2
    then have w: "2 ^ ilog2 ?w = ?w" by (simp add: is_power_of_two_def)
    have lo: "lo = lo div ?w * ?w" using 2(3) by (metis div_mult_mod_eq add_0_right)
    then have hi: "hi = (lo div ?w + 1) * ?w" using assms by simp
    have "tree_range sha src sz tiles lo hi lf = subtree sha src sz tiles (ilog2 ?w) (lo div ?w)" for tiles
      using 2 assms by (subst tree_range.simps) (simp add: Let_def)
    with subtree [of "ilog2 ?w"] lo hi 2(1) w show thesis by simp
  next
    case 3
    have w: "1 < ?w"
    proof (rule ccontr)
      assume "\<not> 1 < ?w"
      then have "?w = Suc 0" using assms by simp
      with 3 show False by simp
    qed
    show thesis
    proof (rule split [of "2 ^ ilog2 (?w - 1)"])
      show "lo + 2 ^ ilog2 (?w - 1) < hi" using split_point(2) [OF w] by linarith
      fix tiles
      show "tree_range sha src sz tiles lo hi lf =
         (case tree_range sha src sz tiles lo (lo + 2 ^ ilog2 (?w - 1)) ?leaf of
            None \<Rightarrow> None
          | Some (Inl e) \<Rightarrow> Some (Inl e)
          | Some (Inr (l, tiles1)) \<Rightarrow>
              (case tree_range sha src sz tiles1 (lo + 2 ^ ilog2 (?w - 1)) hi ?leaf of
                 None \<Rightarrow> None
               | Some (Inl e) \<Rightarrow> Some (Inl e)
               | Some (Inr (r, tiles2)) \<Rightarrow> Some (Inr (node_hash sha l r, tiles2))))"
        using assms w
        by (subst tree_range.simps)
          (simp only: Let_def if_not_P [OF 3(1)] if_not_P [OF 3(2)] not_less_iff_gr_or_eq
            simp_thms if_False not_le [symmetric] less_imp_le)
    qed (use w in auto)
  qed
qed

lemma leaf_in_Some: "leaf_in lo hi leaf = Some (i, h) \<longleftrightarrow> leaf = Some (i, h) \<and> lo \<le> i \<and> i < hi"
  by (auto simp: leaf_in_def split: option.splits if_splits)

definition leaf_len :: "(nat \<times> bytes) option \<Rightarrow> bool" where
  "leaf_len leaf \<longleftrightarrow> (\<forall>i h. leaf = Some (i, h) \<longrightarrow> length h = 32)"

lemma leaf_len_in: "leaf_len leaf \<Longrightarrow> leaf_len (leaf_in lo hi leaf)"
  by (auto simp: leaf_len_def leaf_in_Some)

lemma range_total:
  assumes "lo < hi" "hi \<le> sz" "cache_ok src tiles" "sha_len sha" "leaf_len leaf"
  shows "\<exists>r. tree_range sha src sz tiles lo hi leaf = Some r
     \<and> (\<forall>h tiles'. r = Inr (h, tiles') \<longrightarrow> cache_ok src tiles' \<and> length h = 32)"
  using assms
proof (induction "hi - lo" arbitrary: lo hi tiles leaf rule: less_induct)
  case less
  from less.prems(1) show ?case
  proof (cases rule: range_cases [where lf = leaf and sha = sha and src = src and sz = sz])
    case (leaf i h)
    with less.prems(3,5) show ?thesis by (auto simp: leaf_len_def leaf_in_Some)
  next
    case (subtree n)
    then show ?thesis
      using subtree_total [of "lo div 2 ^ n" n sz src tiles sha] less.prems by simp
  next
    case (split k)
    have "\<exists>r. tree_range sha src sz tiles lo (lo + k) (leaf_in lo hi leaf) = Some r
        \<and> (\<forall>h tiles'. r = Inr (h, tiles') \<longrightarrow> cache_ok src tiles' \<and> length h = 32)"
      using split(2-4) less.prems by (intro less.hyps leaf_len_in) auto
    then obtain l where l: "tree_range sha src sz tiles lo (lo + k) (leaf_in lo hi leaf) = Some l"
      "\<And>h tiles'. l = Inr (h, tiles') \<Longrightarrow> cache_ok src tiles'" by blast
    show ?thesis
    proof (cases l)
      case (Inl e)
      with l split(5) show ?thesis by simp
    next
      case (Inr p)
      obtain hl tiles1 where p: "p = (hl, tiles1)" by (cases p)
      with l(2) Inr have "cache_ok src tiles1" by blast
      then have "\<exists>r. tree_range sha src sz tiles1 (lo + k) hi (leaf_in lo hi leaf) = Some r
          \<and> (\<forall>h tiles'. r = Inr (h, tiles') \<longrightarrow> cache_ok src tiles' \<and> length h = 32)"
        using split(2-4) less.prems by (intro less.hyps leaf_len_in) auto
      then obtain r where r: "tree_range sha src sz tiles1 (lo + k) hi (leaf_in lo hi leaf) = Some r"
        "\<forall>h tiles'. r = Inr (h, tiles') \<longrightarrow> cache_ok src tiles' \<and> length h = 32" by blast
      show ?thesis
        using l(1) Inr p r less.prems(4) split(5)
        by (cases r) (auto simp: node_hash_def sha_len_def)
    qed
  qed
qed

lemma range_honest:
  assumes "lo < hi" "hi \<le> length hs" "cache_ok src tiles" "sha_len sha" "serves sha hs src"
    and "\<forall>h\<in>set hs. length h = 32" "\<forall>i h. leaf = Some (i, h) \<longrightarrow> h = hs ! i"
  shows "\<exists>tiles'. tree_range sha src (length hs) tiles lo hi leaf
     = Some (Inr (lth sha (between hs lo hi), tiles')) \<and> cache_ok src tiles'"
  using assms
proof (induction "hi - lo" arbitrary: lo hi tiles leaf rule: less_induct)
  case less
  from less.prems(1) show ?case
  proof (cases rule: range_cases [where lf = leaf and sha = sha and src = src and sz = "length hs"])
    case (leaf i h)
    with less.prems between_single [of lo hs] show ?thesis by (auto simp: leaf_in_Some)
  next
    case (subtree n)
    then have "subtree_hash sha hs n (lo div 2 ^ n) = lth sha (between hs lo hi)"
      unfolding subtree_hash_def by simp
    with subtree subtree_honest [of "lo div 2 ^ n" n hs src tiles sha] less.prems show ?thesis by simp
  next
    case (split k)
    have leaf: "\<forall>i h. leaf_in lo hi leaf = Some (i, h) \<longrightarrow> h = hs ! i"
      using less.prems(7) by (simp add: leaf_in_Some)
    have "\<exists>tiles'. tree_range sha src (length hs) tiles lo (lo + k) (leaf_in lo hi leaf)
        = Some (Inr (lth sha (between hs lo (lo + k)), tiles')) \<and> cache_ok src tiles'"
      using split(2-4) less.prems leaf by (intro less.hyps) auto
    then obtain tiles1 where l: "tree_range sha src (length hs) tiles lo (lo + k) (leaf_in lo hi leaf)
        = Some (Inr (lth sha (between hs lo (lo + k)), tiles1))" "cache_ok src tiles1" by blast
    have "\<exists>tiles'. tree_range sha src (length hs) tiles1 (lo + k) hi (leaf_in lo hi leaf)
        = Some (Inr (lth sha (between hs (lo + k) hi), tiles')) \<and> cache_ok src tiles'"
      using split(2-4) less.prems leaf l(2) by (intro less.hyps) auto
    then obtain tiles2 where r: "tree_range sha src (length hs) tiles1 (lo + k) hi (leaf_in lo hi leaf)
        = Some (Inr (lth sha (between hs (lo + k) hi), tiles2))" "cache_ok src tiles2" by blast
    have "lth sha (between hs lo hi)
        = node_hash sha (lth sha (between hs lo (lo + k))) (lth sha (between hs (lo + k) hi))"
      using split(2) less.prems(2) split(1) by (rule lth_between_split)
    with l r split(5) show ?thesis by simp
  qed
qed

lemma cache_ok_empty [simp]: "cache_ok src Map.empty"
  by (simp add: cache_ok_def)

lemma record_hash_length: "sha_len sha \<Longrightarrow> length (record_hash sha r) = 32"
  by (simp add: sha_len_def record_hash_def)

lemma root_honest:
  assumes "n \<le> length hs" "cache_ok src tiles" "sha_len sha" "serves sha hs src" "\<forall>h\<in>set hs. length h = 32"
  shows "\<exists>tiles'. tree_root sha src (length hs) tiles n = Some (Inr (lth sha (take n hs), tiles'))
     \<and> cache_ok src tiles'"
  using range_honest [of 0 n hs src tiles sha None] assms by (cases "n = 0") (auto simp: tree_root_def)

lemma inclusion_total:
  assumes "sha_len sha"
  shows "verify_inclusion sha src sz rt index record \<noteq> None"
proof (cases "index < sz")
  case True
  then have "\<exists>r. tree_range sha src sz Map.empty 0 sz (Some (index, record_hash sha record)) = Some r"
    using range_total [of 0 sz sz src Map.empty sha "Some (index, record_hash sha record)"] assms
    by (auto simp: leaf_len_def record_hash_length)
  then show ?thesis by (auto simp: verify_inclusion_def root_with_leaf_def split: sum.split)
qed (simp add: verify_inclusion_def)

lemma consistency_total:
  assumes "sha_len sha"
  shows "verify_consistency sha src old_size old_root new_size new_root \<noteq> None"
proof (cases "new_size < old_size")
  case False
  have r: "\<exists>r. tree_root sha src new_size tiles n = Some r
      \<and> (\<forall>h tiles'. r = Inr (h, tiles') \<longrightarrow> cache_ok src tiles')"
    if "n \<le> new_size" "cache_ok src tiles" for n tiles
    using that range_total [of 0 n new_size src tiles sha None] assms
    by (cases "n = 0") (auto simp: tree_root_def leaf_len_def)
  from r [of new_size Map.empty] obtain x where x: "tree_root sha src new_size Map.empty new_size = Some x"
    "\<And>h tiles. x = Inr (h, tiles) \<Longrightarrow> cache_ok src tiles" by auto
  then show ?thesis
    using r [of old_size] False
    by (cases x) (fastforce simp: verify_consistency_def split: sum.split option.split)+
qed (simp add: verify_consistency_def)

text \<open>
  C28: with any tile source, honest or not, neither proof panics: no subtraction underflows, no
  slice of a tile is out of range and no fold is left with an odd hash.
\<close>

theorem proofs_total:
  assumes "sha_len sha"
  shows "verify_inclusion sha src sz rt index record \<noteq> None
     \<and> verify_consistency sha src old_size old_root new_size new_root \<noteq> None"
  using inclusion_total [OF assms] consistency_total [OF assms] by blast

section \<open>What an accepted proof means\<close>

text \<open>
  C25: a client never rejects an honest log: with the tiles of the tree of \<open>ds\<close>, the inclusion of
  every record is accepted against the tree's root, and so is its consistency with each of its
  own prefixes. The roots are those of RFC 6962.
\<close>

theorem honest_log_accepted:
  assumes "sha_len sha" "serves sha (map (record_hash sha) ds) src"
  shows "(\<forall>i<length ds. verify_inclusion sha src (length ds) (mth sha ds) i (ds ! i) = Some (Inr ()))
     \<and> (\<forall>n\<le>length ds. verify_consistency sha src n (mth sha (take n ds)) (length ds) (mth sha ds)
          = Some (Inr ()))"
proof (intro conjI allI impI)
  let ?hs = "map (record_hash sha) ds"
  have len: "\<forall>h\<in>set ?hs. length h = 32" using record_hash_length [OF assms(1)] by auto
  fix i
  assume i: "i < length ds"
  then have "\<exists>tiles'. tree_range sha src (length ?hs) Map.empty 0 (length ds)
      (Some (i, record_hash sha (ds ! i))) = Some (Inr (lth sha (between ?hs 0 (length ds)), tiles'))"
    using range_honest [of 0 "length ds" ?hs src Map.empty sha "Some (i, record_hash sha (ds ! i))"]
      assms len by (cases "ds = []") auto
  then show "verify_inclusion sha src (length ds) (mth sha ds) i (ds ! i) = Some (Inr ())"
    using i by (auto simp: verify_inclusion_def root_with_leaf_def mth_def)
next
  let ?hs = "map (record_hash sha) ds"
  have len: "\<forall>h\<in>set ?hs. length h = 32" using record_hash_length [OF assms(1)] by auto
  fix n
  assume n: "n \<le> length ds"
  obtain tiles where t: "tree_root sha src (length ds) Map.empty (length ds) = Some (Inr (mth sha ds, tiles))"
    "cache_ok src tiles"
    using root_honest [of "length ds" ?hs src Map.empty sha] assms len by (auto simp: mth_def)
  obtain tiles' where "tree_root sha src (length ds) tiles n = Some (Inr (mth sha (take n ds), tiles'))"
    using root_honest [of n ?hs src tiles sha] assms len t(2) n by (auto simp: mth_def take_map)
  with t n show "verify_consistency sha src n (mth sha (take n ds)) (length ds) (mth sha ds) = Some (Inr ())"
    by (simp add: verify_consistency_def)
qed

text \<open>
  What the log itself hashed: its records as leaves and the two halves of every split. No second
  preimage of these strings is what the soundness of a proof rests on.
\<close>

inductive_set node_inputs :: "sha \<Rightarrow> bytes list \<Rightarrow> bytes set" for sha hs where
  node: "lo + 1 < hi \<Longrightarrow> hi \<le> length hs \<Longrightarrow> k = 2 ^ ilog2 (hi - lo - 1) \<Longrightarrow>
     1 # lth sha (between hs lo (lo + k)) @ lth sha (between hs (lo + k) hi) \<in> node_inputs sha hs"

definition hashed :: "sha \<Rightarrow> bytes list \<Rightarrow> bytes set" where
  "hashed sha ds = (#) 0 ` set ds \<union> node_inputs sha (map (record_hash sha) ds)"

lemma node_hash_cancel:
  assumes "no_second_preimage sha (node_inputs sha hs)" "lo + 1 < hi" "hi \<le> length hs"
    and "k = 2 ^ ilog2 (hi - lo - 1)" "node_hash sha l r = lth sha (between hs lo hi)"
    and "length l = length (lth sha (between hs lo (lo + k)))"
  shows "l = lth sha (between hs lo (lo + k))" "r = lth sha (between hs (lo + k) hi)"
proof -
  let ?x = "1 # lth sha (between hs lo (lo + k)) @ lth sha (between hs (lo + k) hi)"
  have "?x \<in> node_inputs sha hs" using assms(2-4) by (rule node_inputs.node)
  moreover have "sha (1 # l @ r) = sha ?x"
    using assms(5) lth_between_split [OF assms(2-4)] by (simp add: node_hash_def)
  ultimately have "1 # l @ r = ?x" using assms(1) unfolding no_second_preimage_def by blast
  with assms(6) show "l = lth sha (between hs lo (lo + k))" "r = lth sha (between hs (lo + k) hi)"
    by auto
qed

text \<open>A range that hashes to the log's subtree has the log's leaf in the replaced position.\<close>

lemma range_sound:
  assumes "lo < hi" "hi \<le> length hs" "cache_ok src tiles" "sha_len sha"
    and "no_second_preimage sha (node_inputs sha hs)" "\<forall>h\<in>set hs. length h = 32"
    and "tree_range sha src sz tiles lo hi (Some (i, h)) = Some (Inr (lth sha (between hs lo hi), tiles'))"
    and "lo \<le> i" "i < hi" "length h = 32" "hi \<le> sz"
  shows "h = hs ! i"
  using assms
proof (induction "hi - lo" arbitrary: lo hi tiles tiles' rule: less_induct)
  case less
  have len: "length (lth sha (between hs a b)) = 32" for a b
    using lth_length [OF less.prems(4)] less.prems(6) set_between [of hs a b] by blast
  have lf: "leaf_in lo hi (Some (i, h)) = Some (i, h)"
    using less.prems(8,9) by (simp add: leaf_in_def)
  have ll: "leaf_len (Some (i, h))" using less.prems(10) by (simp add: leaf_len_def)
  from less.prems(1) show ?case
  proof (cases rule: range_cases [where lf = "Some (i, h)" and sha = sha and src = src and sz = sz])
    case (leaf j h')
    with less.prems lf between_single [of lo hs] have "h = hs ! lo" "i = lo" by auto
    then show ?thesis by simp
  next
    case (subtree n)
    with lf show ?thesis by simp
  next
    case (split k)
    note eq = split(5) [of tiles, unfolded less.prems(7) lf]
    obtain l tiles1 where l: "tree_range sha src sz tiles lo (lo + k) (Some (i, h)) = Some (Inr (l, tiles1))"
      using eq by (auto split: option.splits sum.splits)
    have l_ok: "cache_ok src tiles1" "length l = 32"
      using range_total [of lo "lo + k" sz src tiles sha "Some (i, h)"] l split(3,4) less.prems(3,4,11) ll
      by auto
    obtain r tiles2 where r: "tree_range sha src sz tiles1 (lo + k) hi (Some (i, h)) = Some (Inr (r, tiles2))"
      and n: "node_hash sha l r = lth sha (between hs lo hi)"
      using eq l by (auto split: option.splits sum.splits)
    note halves = node_hash_cancel [OF less.prems(5) split(2) less.prems(2) split(1) n]
    have l': "l = lth sha (between hs lo (lo + k))" and r': "r = lth sha (between hs (lo + k) hi)"
      using halves l_ok(2) len by simp_all
    show ?thesis
    proof (cases "i < lo + k")
      case True
      from less.hyps [OF _ _ _ less.prems(3-6) l [unfolded l'] less.prems(8) True less.prems(10)]
      show ?thesis using split(3,4) less.prems(2,11) by simp
    next
      case False
      then have "lo + k \<le> i" by simp
      from less.hyps [OF _ split(4) less.prems(2) l_ok(1) less.prems(4-6) r [unfolded r'] this less.prems(9-11)]
      show ?thesis using split(3,4) by simp
    qed
  qed
qed

lemma inclusion_sound:
  assumes "sha_len sha" "no_second_preimage sha (hashed sha ds)"
    and "verify_inclusion sha src (length ds) (mth sha ds) index record = Some (Inr ())"
  shows "index < length ds \<and> ds ! index = record"
proof -
  let ?hs = "map (record_hash sha) ds"
  have i: "index < length ds"
    using assms(3) by (auto simp: verify_inclusion_def split: if_splits)
  have "\<exists>tiles'. tree_range sha src (length ds) Map.empty 0 (length ds)
      (Some (index, record_hash sha record)) = Some (Inr (lth sha (between ?hs 0 (length ds)), tiles'))"
    using assms(3) i by (auto simp: verify_inclusion_def root_with_leaf_def mth_def
        split: option.splits sum.splits if_splits)
  moreover have "no_second_preimage sha (node_inputs sha ?hs)"
    using assms(2) by (auto simp: hashed_def no_second_preimage_def)
  moreover have "\<forall>h\<in>set ?hs. length h = 32" "0 < length ds"
    using i record_hash_length [OF assms(1)] by auto
  ultimately have "record_hash sha record = ?hs ! index"
    using range_sound [of 0 "length ds" ?hs src Map.empty sha "length ds" index "record_hash sha record"]
      assms(1) i record_hash_length [OF assms(1)] by (metis cache_ok_empty le0 le_refl length_map)
  then have "sha (0 # record) = sha (0 # ds ! index)" using i by (simp add: record_hash_def)
  moreover have "0 # ds ! index \<in> hashed sha ds" using i by (simp add: hashed_def)
  ultimately have "(0::8 word) # record = 0 # ds ! index"
    using assms(2) unfolding no_second_preimage_def by blast
  then show ?thesis using i by simp
qed

text \<open>
  C9: an accepted inclusion proof is sound whatever the tile source answers: if the signed root is
  that of a log with records \<open>ds\<close>, and the strings that log hashed have no second preimage, then
  the record is the log's record at that index.
\<close>

theorem verify_inclusion_sound:
  assumes "sha_len sha" "no_second_preimage sha (hashed sha ds)"
    and "verify_inclusion sha src (length ds) (mth sha ds) index record = Some (Inr ())"
  shows "index < length ds \<and> ds ! index = record"
  using assms by (rule inclusion_sound)

section \<open>Consistency\<close>

text \<open>Equal roots of equally many leaves have equal leaves.\<close>

lemma between_lth_inject:
  assumes "lo < hi" "hi \<le> length hs" "length hs' = length hs" "sha_len sha"
    and "no_second_preimage sha (node_inputs sha hs)"
    and "\<forall>h\<in>set hs. length h = 32" "\<forall>h\<in>set hs'. length h = 32"
    and "lth sha (between hs' lo hi) = lth sha (between hs lo hi)" "lo \<le> i" "i < hi"
  shows "hs' ! i = hs ! i"
  using assms
proof (induction "hi - lo" arbitrary: lo hi rule: less_induct)
  case less
  have len: "length (lth sha (between xs a b)) = 32" if "xs = hs \<or> xs = hs'" for xs a b
    using lth_length [OF less.prems(4)] less.prems(6,7) set_between [of xs a b] that by blast
  show ?case
  proof (cases "hi = lo + 1")
    case True
    with less.prems(9,10) have "i = lo" by simp
    with True less.prems(2,3,8) between_single [of lo hs] between_single [of lo hs'] show ?thesis by simp
  next
    case False
    define k where "k = (2::nat) ^ ilog2 (hi - lo - 1)"
    have w: "lo + 1 < hi" using False less.prems(1) by simp
    have "1 < hi - lo" using w by simp
    from split_point(1,2) [OF this] have k: "0 < k" "lo + k < hi" unfolding k_def by linarith+
    have n: "node_hash sha (lth sha (between hs' lo (lo + k))) (lth sha (between hs' (lo + k) hi))
        = lth sha (between hs lo hi)"
      using lth_between_split [of lo hi hs' k sha] w less.prems(2,3,8) k_def by simp
    note halves = node_hash_cancel [OF less.prems(5) w less.prems(2) k_def n]
    have l: "lth sha (between hs' lo (lo + k)) = lth sha (between hs lo (lo + k))"
      and r: "lth sha (between hs' (lo + k) hi) = lth sha (between hs (lo + k) hi)"
      using halves len by simp_all
    show ?thesis
    proof (cases "i < lo + k")
      case True
      from less.hyps [OF _ _ _ less.prems(3-7) l less.prems(9) True] show ?thesis
        using k less.prems(2) by simp
    next
      case False
      then have "lo + k \<le> i" by simp
      from less.hyps [OF _ k(2) less.prems(2-7) r this less.prems(10)] show ?thesis
        using k by simp
    qed
  qed
qed

lemma mth_inject:
  assumes "sha_len sha" "no_second_preimage sha (hashed sha ds)" "length hs = length ds"
    and "\<forall>h\<in>set hs. length h = 32" "lth sha hs = mth sha ds"
  shows "hs = map (record_hash sha) ds"
proof (rule nth_equalityI)
  fix i
  assume i: "i < length hs"
  have "no_second_preimage sha (node_inputs sha (map (record_hash sha) ds))"
    using assms(2) by (auto simp: hashed_def no_second_preimage_def)
  with between_lth_inject [of 0 "length ds" "map (record_hash sha) ds" hs sha i] assms i
  show "hs ! i = map (record_hash sha) ds ! i"
    by (cases "ds = []") (simp_all add: mth_def record_hash_length)
qed (use assms in simp)

text \<open>A tree of fewer than 256 leaves is one tile, which every subtree is read from.\<close>

lemma subtree_tile_small:
  assumes "sz < TILE_WIDTH" "(index + 1) * 2 ^ height \<le> sz"
  shows "subtree_tile sz height index = Some \<lparr>tile_level = 0, tile_index = 0, tile_width = sz\<rparr>"
proof -
  have "2 ^ height \<le> (index + 1) * 2 ^ height" by simp
  with assms have "(2::nat) ^ height < 2 ^ 8" unfolding TILE_WIDTH_def TILE_HEIGHT_def by linarith
  then have h: "height < 8" by (rule power_less_imp_less_exp [rotated]) simp
  have "index * 2 ^ height < TILE_WIDTH" using assms by simp
  with h assms(1) show ?thesis by (simp add: subtree_tile_def Let_def TILE_HEIGHT_def)
qed

definition tile_hashes :: "bytes \<Rightarrow> nat \<Rightarrow> bytes list" where
  "tile_hashes d n = map (\<lambda>i. take 32 (drop (i * 32) d)) [0..<n]"

lemma concat_tile_hashes: "length d = n * 32 \<Longrightarrow> concat (tile_hashes d n) = d"
proof (induction n arbitrary: d)
  case (Suc n)
  have "tile_hashes d (Suc n) = tile_hashes (take (n * 32) d) n @ [take 32 (drop (n * 32) d)]"
    by (auto simp: tile_hashes_def drop_take min_def)
  with Suc.IH [of "take (n * 32) d"] Suc.prems show ?case by simp
qed (simp add: tile_hashes_def)

lemma small_serves:
  assumes "sz < TILE_WIDTH" "src \<lparr>tile_level = 0, tile_index = 0, tile_width = sz\<rparr> = Inr d"
    and "length d = sz * 32"
  shows "serves sha (tile_hashes d sz) src"
proof -
  have "map (subtree_hash sha (tile_hashes d sz) 0) [0..<sz] = tile_hashes d sz"
    by (intro nth_equalityI) (auto simp: subtree_hash_def between_single tile_hashes_def)
  then have "honest_tile sha (tile_hashes d sz) \<lparr>tile_level = 0, tile_index = 0, tile_width = sz\<rparr> = d"
    using concat_tile_hashes [OF assms(3)] by (simp add: honest_tile_def)
  with assms(1,2) show ?thesis
    by (auto simp: serves_def subtree_tile_small tile_hashes_def)
qed

lemma small_fails:
  assumes "sz < TILE_WIDTH" "cache_ok src tiles" "lo < hi" "hi \<le> sz"
    and "\<nexists>d. src \<lparr>tile_level = 0, tile_index = 0, tile_width = sz\<rparr> = Inr d \<and> length d = sz * 32"
  shows "\<exists>e. tree_range sha src sz tiles lo hi None = Some (Inl e)"
  using assms(3,4)
proof (induction "hi - lo" arbitrary: lo hi rule: less_induct)
  case less
  have none: "leaf_in lo hi None = None" by (simp add: leaf_in_def)
  from less.prems(1) show ?case
  proof (cases rule: range_cases [where lf = None and sha = sha and src = src and sz = sz])
    case (leaf i h)
    with none show ?thesis by simp
  next
    case (subtree n)
    then have t: "subtree_tile sz n (lo div 2 ^ n) = Some \<lparr>tile_level = 0, tile_index = 0, tile_width = sz\<rparr>"
      using assms(1) less.prems(2) by (intro subtree_tile_small) simp_all
    show ?thesis using assms(5) unfolding subtree(4) subtree_def t
      by (auto simp: read_tile_uncached [OF assms(2)] split: sum.split)
  next
    case (split k)
    then have "\<exists>e. tree_range sha src sz tiles lo (lo + k) None = Some (Inl e)"
      using less.prems(2) by (intro less.hyps) simp_all
    with split(5) [of tiles] none show ?thesis by auto
  qed
qed

text \<open>
  C27: below 256 leaves consistency is sound too, whatever the source answers: if both signed roots
  are roots of logs whose hashes have no second preimage, an accepted proof means that the old log
  is a prefix of the new one.
\<close>

theorem verify_consistency_sound_small:
  assumes "sha_len sha" "no_second_preimage sha (hashed sha old)" "no_second_preimage sha (hashed sha new)"
    and "length new < TILE_WIDTH"
    and "verify_consistency sha src (length old) (mth sha old) (length new) (mth sha new) = Some (Inr ())"
  shows "old = take (length old) new"
proof (cases "old = []")
  case False
  let ?n = "length new" and ?t = "\<lparr>tile_level = 0, tile_index = 0, tile_width = length new\<rparr>"
  have le: "length old \<le> ?n" using assms(5) by (auto simp: verify_consistency_def split: if_splits)
  with False have n: "0 < ?n" by (cases new) auto
  obtain tiles where new_root: "tree_root sha src ?n Map.empty ?n = Some (Inr (mth sha new, tiles))"
    and old_root: "\<exists>tiles'. tree_root sha src ?n tiles (length old) = Some (Inr (mth sha old, tiles'))"
    using assms(5) le
    by (auto simp: verify_consistency_def split: option.splits sum.splits if_splits)
  have "\<exists>d. src ?t = Inr d \<and> length d = ?n * 32"
  proof (rule ccontr)
    assume "\<not> ?thesis"
    from small_fails [of ?n src Map.empty 0 ?n sha, OF assms(4) cache_ok_empty n order_refl this]
    show False using new_root n by (auto simp: tree_root_def)
  qed
  then obtain d where d: "src ?t = Inr d" "length d = ?n * 32" by blast
  let ?hs = "tile_hashes d ?n"
  have hs: "length ?hs = ?n" "\<forall>h\<in>set ?hs. length h = 32"
    using d(2) by (auto simp: tile_hashes_def)
  note serves = small_serves [of ?n src d sha, OF assms(4) d]
  have root: "tree_root sha src ?n ts m = Some (Inr (h, ts')) \<Longrightarrow> h = lth sha (take m ?hs) \<and> cache_ok src ts'"
    if "m \<le> ?n" "cache_ok src ts" for ts m h ts'
    using root_honest [of m ?hs src ts sha] that hs assms(1) serves by auto
  have "lth sha ?hs = mth sha new" "cache_ok src tiles"
    using root [OF order_refl cache_ok_empty new_root] hs(1) by simp_all
  then have new: "?hs = map (record_hash sha) new"
    using mth_inject [OF assms(1,3) hs] by blast
  have "lth sha (take (length old) ?hs) = mth sha old"
    using old_root root [OF le \<open>cache_ok src tiles\<close>] by metis
  moreover have "\<forall>h\<in>set (take (length old) ?hs). length h = 32"
    using hs(2) by (auto dest: in_set_takeD)
  ultimately have old: "take (length old) ?hs = map (record_hash sha) old"
    using mth_inject [OF assms(1,2)] hs(1) le by simp
  have "old ! i = new ! i" if "i < length old" for i
  proof -
    have "map (record_hash sha) old ! i = ?hs ! i" using old that by (metis nth_take)
    then have eq: "sha (0 # new ! i) = sha (0 # old ! i)"
      using new that le by (simp add: record_hash_def)
    have "0 # old ! i \<in> hashed sha old" using that by (simp add: hashed_def)
    from assms(2) [unfolded no_second_preimage_def, rule_format, OF this eq] show ?thesis by simp
  qed
  then show ?thesis using le by (intro nth_equalityI) auto
qed simp


section \<open>An example log\<close>

text \<open>
  Two records, with a hash function of 32 bytes that is injective on what this log hashes.
\<close>

definition toy_sha :: sha where
  "toy_sha x =
     (if x = [0, 7] then replicate 32 1
      else if x = [0, 9] then replicate 32 2
      else if x = 1 # replicate 32 1 @ replicate 32 2 then replicate 32 3
      else replicate 32 0)"

definition toy_log :: "bytes list" where
  "toy_log = [[7], [9]]"

definition toy_source :: "unit tile_source" where
  "toy_source t = Inr (honest_tile toy_sha (map (record_hash toy_sha) toy_log) t)"

lemma toy_sha_len: "sha_len toy_sha"
  by (simp add: sha_len_def toy_sha_def)

lemma toy_serves: "serves toy_sha (map (record_hash toy_sha) toy_log) toy_source"
  by (simp add: serves_def toy_source_def)

lemma toy_leaves: "map (record_hash toy_sha) toy_log = [replicate 32 1, replicate 32 2]"
  by (simp add: toy_log_def record_hash_def toy_sha_def)

lemma toy_leaf_32: "\<forall>h\<in>set (map (record_hash toy_sha) toy_log). length h = 32"
  by (simp add: toy_leaves)

lemma toy_hashed: "hashed toy_sha toy_log = {[0, 7], [0, 9], 1 # replicate 32 1 @ replicate 32 2}"
proof -
  have inputs: "node_inputs toy_sha [a, b] = {1 # a @ b}" for a b
  proof (intro equalityI subsetI)
    fix x
    assume "x \<in> node_inputs toy_sha [a, b]"
    then show "x \<in> {1 # a @ b}"
    proof cases
      case (node lo hi k)
      then have "lo = 0" "hi = 2" "k = 1" by (auto simp: ilog2.simps)
      with node show ?thesis by (simp add: between_def)
    qed
  next
    fix x
    assume "x \<in> {1 # a @ b}"
    then show "x \<in> node_inputs toy_sha [a, b]"
      using node_inputs.node [of 0 2 "[a, b]" 1 toy_sha] by (simp add: between_def ilog2.simps)
  qed
  show ?thesis unfolding hashed_def toy_leaves inputs by (auto simp: toy_log_def)
qed

lemma replicate_32_neq: "a \<noteq> b \<Longrightarrow> replicate 32 a \<noteq> replicate 32 b"
  using replicate_eq_replicate [of 32 a 32 b] by simp

lemma toy_no_second_preimage: "no_second_preimage toy_sha (hashed toy_sha toy_log)"
  unfolding toy_hashed no_second_preimage_def
  by (auto simp: toy_sha_def replicate_32_neq split: if_splits)

lemma toy_old_no_second_preimage: "no_second_preimage toy_sha (hashed toy_sha [[7]])"
proof -
  have "node_inputs toy_sha [h] = {}" for h by (auto elim: node_inputs.cases)
  then show ?thesis
    by (auto simp: hashed_def no_second_preimage_def toy_sha_def replicate_32_neq
        split: if_splits)
qed

theorem proofs_total_witness:
  "verify_inclusion toy_sha toy_source 2 [] 1 [9] \<noteq> None
   \<and> verify_consistency toy_sha toy_source 1 [] 2 [] \<noteq> None"
  by (rule proofs_total [OF toy_sha_len])

theorem honest_log_accepted_witness:
  "verify_inclusion toy_sha toy_source 2 (mth toy_sha toy_log) 1 [9] = Some (Inr ())
   \<and> verify_consistency toy_sha toy_source 1 (mth toy_sha [[7]]) 2 (mth toy_sha toy_log) = Some (Inr ())"
proof -
  have log: "length toy_log = 2" "toy_log ! 1 = [9]" "take 1 toy_log = [[7]]"
    by (simp_all add: toy_log_def)
  note accepted = honest_log_accepted [OF toy_sha_len toy_serves, unfolded log(1)]
  have "verify_inclusion toy_sha toy_source 2 (mth toy_sha toy_log) 1 (toy_log ! 1) = Some (Inr ())"
    by (rule accepted [THEN conjunct1, rule_format]) simp
  moreover have "verify_consistency toy_sha toy_source 1 (mth toy_sha (take 1 toy_log)) 2
      (mth toy_sha toy_log) = Some (Inr ())"
    by (rule accepted [THEN conjunct2, rule_format]) simp
  ultimately show ?thesis by (simp only: log simp_thms)
qed

lemma toy_inclusion:
  "verify_inclusion toy_sha toy_source (length toy_log) (mth toy_sha toy_log) 1 [9] = Some (Inr ())"
proof -
  have leaf: "\<forall>i h. Some (1, record_hash toy_sha [9]) = Some (i, h) \<longrightarrow>
      h = map (record_hash toy_sha) toy_log ! i" by (simp add: toy_log_def)
  have len: "length (map (record_hash toy_sha) toy_log) = 2" by (simp add: toy_log_def)
  from range_honest [of 0 2 "map (record_hash toy_sha) toy_log" toy_source Map.empty, OF _ _ _
      toy_sha_len toy_serves toy_leaf_32 leaf]
  show ?thesis unfolding len
    by (auto simp: verify_inclusion_def root_with_leaf_def mth_def toy_log_def numeral_2_eq_2)
qed

theorem verify_inclusion_sound_witness: "1 < length toy_log \<and> toy_log ! 1 = [9]"
  by (rule verify_inclusion_sound [OF toy_sha_len toy_no_second_preimage toy_inclusion])

lemma toy_consistency:
  "verify_consistency toy_sha toy_source (length [[7::8 word]]) (mth toy_sha [[7]])
     (length toy_log) (mth toy_sha toy_log) = Some (Inr ())"
proof -
  let ?hs = "map (record_hash toy_sha) toy_log"
  have len: "length ?hs = 2" by (simp add: toy_log_def)
  from root_honest [of 2 ?hs toy_source Map.empty, OF _ _ toy_sha_len toy_serves toy_leaf_32] len
  obtain tiles where t: "tree_root toy_sha toy_source 2 Map.empty 2 = Some (Inr (lth toy_sha ?hs, tiles))"
    "cache_ok toy_source tiles" by auto
  from root_honest [of 1 ?hs toy_source tiles, OF _ t(2) toy_sha_len toy_serves toy_leaf_32] len
  obtain tiles' where
    "tree_root toy_sha toy_source 2 tiles 1 = Some (Inr (lth toy_sha (take 1 ?hs), tiles'))" by auto
  with t show ?thesis by (simp add: verify_consistency_def mth_def toy_log_def numeral_2_eq_2)
qed

theorem verify_consistency_sound_small_witness: "[[7]] = take (length [[7::8 word]]) toy_log"
  by (rule verify_consistency_sound_small [OF toy_sha_len toy_old_no_second_preimage
        toy_no_second_preimage _ toy_consistency])
    (simp add: toy_log_def TILE_WIDTH_def TILE_HEIGHT_def)


section \<open>Tile paths\<close>

lemma pad3_digits: "list_all is_ascii_digit (pad3 n)" "length (pad3 n) = 3"
  by (simp_all add: pad3_def is_ascii_digit_digit_char)

lemma dec_val_append: "dec_val (a @ b) = dec_val a * 10 ^ length b + dec_val b"
proof (induction b rule: rev_induct)
  case (snoc c b)
  have "dec_val (a @ b @ [c]) = 10 * dec_val (a @ b) + (byte c - 48)"
    using dec_val_snoc [of "a @ b" c] by simp
  then show ?case using snoc.IH by (simp add: algebra_simps)
qed simp

lemma dec_val_pad3: "n < 1000 \<Longrightarrow> dec_val (pad3 n) = n"
proof -
  assume "n < 1000"
  then have "dec_val (pad3 n) = 100 * (n div 100) + 10 * (n div 10 mod 10) + n mod 10"
    by (simp add: pad3_def dec_val_def byte_digit_char)
  also have "\<dots> = n"
    using div_mult2_eq [of n 10 10, simplified] div_mult_mod_eq [of n 10] div_mult_mod_eq [of "n div 10" 10]
    by linarith
  finally show ?thesis .
qed

lemma dec_val_groups: "dec_val (concat (rev (path_groups n))) = n"
proof (induction n rule: path_groups.induct)
  case (1 n)
  have "dec_val (pad3 (n mod 1000)) = n mod 1000" by (rule dec_val_pad3) simp
  with 1 show ?case
    by (subst path_groups.simps) (auto simp: dec_val_append pad3_digits(2))
qed

abbreviation index_text :: "string list \<Rightarrow> string" where
  "index_text gs \<equiv> join_with ''/'' (map ((#) CHR ''x'') (butlast gs) @ [last gs])"

lemma index_text_digits:
  assumes "gs \<noteq> []" "\<forall>g\<in>set gs. list_all is_ascii_digit g"
  shows "filter is_ascii_digit (index_text gs) = concat gs \<and> CHR ''.'' \<notin> set (index_text gs)"
  using assms
proof (induction gs)
  case (Cons g gs)
  have g: "filter is_ascii_digit g = g" "CHR ''.'' \<notin> set g"
    using Cons.prems(2) by (auto simp: filter_id_conv list_all_iff is_ascii_digit_def byte_def)
  show ?case
  proof (cases "gs = []")
    case False
    then have "index_text (g # gs) = CHR ''x'' # g @ ''/'' @ index_text gs"
      by (simp add: join_with_Cons)
    moreover have "\<not> is_ascii_digit CHR ''x''" "\<not> is_ascii_digit CHR ''/''"
      by (simp_all add: is_ascii_digit_def byte_def)
    ultimately show ?thesis using Cons.IH [OF False] Cons.prems(2) g by simp
  qed (use g in simp)
qed simp

lemma path_groups_ok: "path_groups n \<noteq> [] \<and> (\<forall>g\<in>set (path_groups n). list_all is_ascii_digit g)"
proof (induction n rule: path_groups.induct)
  case (1 n)
  then show ?case by (subst (1 2) path_groups.simps) (auto simp: pad3_digits(1))
qed

lemma show_nat_free: "\<not> is_ascii_digit c \<Longrightarrow> c \<notin> set (show_nat n)"
  using show_nat_digits [of n] by (auto simp: list_all_iff)

text \<open>
  the path of a tile names the tile: two tiles, none wider than a full one, never share a URL.
\<close>

theorem tile_path_inject:
  assumes "tile_path a = tile_path b" "tile_width a \<le> TILE_WIDTH" "tile_width b \<le> TILE_WIDTH"
  shows "a = b"
proof -
  let ?gs = "\<lambda>t. rev (path_groups (tile_index t))"
  let ?part = "\<lambda>t. if tile_width t < TILE_WIDTH then ''.p/'' @ show_nat (tile_width t) else []"
  have path: "tile_path t = ''tile/'' @ show_nat (tile_level t) @ CHR ''/'' # (index_text (?gs t) @ ?part t)" for t
    by (simp add: tile_path_def Let_def)
  have slash: "CHR ''/'' \<notin> set (show_nat n)" for n
    by (rule show_nat_free) (simp add: is_ascii_digit_def byte_def)
  have gs: "filter is_ascii_digit (index_text (?gs t)) = concat (?gs t)" "CHR ''.'' \<notin> set (index_text (?gs t))" for t
    using index_text_digits [of "?gs t"] path_groups_ok [of "tile_index t"] by auto
  have "split_once CHR ''/'' (show_nat (tile_level t) @ CHR ''/'' # (index_text (?gs t) @ ?part t))
      = Some (show_nat (tile_level t), index_text (?gs t) @ ?part t)" for t
    using slash by (rule split_once_append)
  note split = this
  have "show_nat (tile_level a) @ CHR ''/'' # (index_text (?gs a) @ ?part a)
      = show_nat (tile_level b) @ CHR ''/'' # (index_text (?gs b) @ ?part b)"
    using assms(1) unfolding path same_append_eq .
  from arg_cong [OF this, of "split_once CHR ''/''", unfolded split]
  have eq: "tile_level a = tile_level b" "index_text (?gs a) @ ?part a = index_text (?gs b) @ ?part b"
    by (simp_all only: option.inject prod.inject show_nat_inject)
  have "takeWhile ((\<noteq>) CHR ''.'') (index_text (?gs t) @ ?part t) = index_text (?gs t)" for t
  proof -
    have "\<forall>c\<in>set (index_text (?gs t)). CHR ''.'' \<noteq> c" using gs(2) by metis
    then show ?thesis by (subst takeWhile_append2) auto
  qed
  with eq(2) have idx: "index_text (?gs a) = index_text (?gs b)" by metis
  with eq(2) have part: "?part a = ?part b" by simp
  from idx gs(1) have "concat (?gs a) = concat (?gs b)" by metis
  then have "tile_index a = tile_index b" using dec_val_groups by metis
  moreover have "tile_width a = tile_width b"
    using part assms(2,3) by (auto simp: show_nat_inject split: if_splits)
  ultimately show ?thesis using eq(1) by simp
qed

theorem tile_path_inject_witness:
  "tile_path \<lparr>tile_level = 0, tile_index = 1234067, tile_width = 256\<rparr> = ''tile/0/x001/x234/067''
   \<and> tile_path \<lparr>tile_level = 0, tile_index = 1234067, tile_width = 255\<rparr> \<noteq> ''tile/0/x001/x234/067''"
proof -
  have digits: "map digit_char [0, 1, 2, 3, 4, 5, 6, 7] = ''01234567''" by code_simp
  have full: "tile_path \<lparr>tile_level = 0, tile_index = 1234067, tile_width = 256\<rparr> = ''tile/0/x001/x234/067''"
    using digits by (simp add: tile_path_def path_groups.simps pad3_def show_nat.simps
        TILE_WIDTH_def TILE_HEIGHT_def)
  from tile_path_inject [of "\<lparr>tile_level = 0, tile_index = 1234067, tile_width = 255\<rparr>"
      "\<lparr>tile_level = 0, tile_index = 1234067, tile_width = 256\<rparr>"] full
  show ?thesis by (auto simp: TILE_WIDTH_def TILE_HEIGHT_def)
qed

end
