(* ===== verification/Types_Exhaustiveness.thy ===== *)
theory Types_Exhaustiveness
  imports Emela_Prelude "HOL-Library.Word" "HOL-Library.Monad_Syntax"
begin

text \<open>
  Match exhaustiveness and redundant arms: \<open>crates/emela-types/src/exhaustiveness.rs\<close>.

  The definitions follow the file: patterns, literals, the shapes a \<open>CtorTable\<close> returns,
  \<open>split_ctors\<close>, \<open>covers\<close>, \<open>specialize\<close>, \<open>wrap\<close>, the usefulness recursion and
  \<open>check_match\<close>. \<open>None\<close> is a panic: an index out of range, the \<open>unreachable!\<close> of
  \<open>covers\<close>, an \<open>expect\<close>. The table is an argument of the definitions, as it is a trait in
  the code. The second half gives the values a type has and when a pattern matches one, and
  shows that the check decides exactly which values no arm matches.
\<close>

section \<open>Literals\<close>

text \<open>A literal \<open>f64\<close> is its 64 bits; \<open>==\<close> is IEEE equality.\<close>

datatype lit = LInt int | LFloat "64 word" | LStr string

definition f64_is_nan :: "64 word \<Rightarrow> bool" where
  "f64_is_nan b \<longleftrightarrow> uint b mod 2 ^ 63 > 2047 * 2 ^ 52"

definition f64_is_zero :: "64 word \<Rightarrow> bool" where
  "f64_is_zero b \<longleftrightarrow> uint b mod 2 ^ 63 = 0"

definition f64_eq :: "64 word \<Rightarrow> 64 word \<Rightarrow> bool" where
  "f64_eq a b \<longleftrightarrow>
     \<not> f64_is_nan a \<and> \<not> f64_is_nan b \<and> (a = b \<or> (f64_is_zero a \<and> f64_is_zero b))"

fun lit_eq :: "lit \<Rightarrow> lit \<Rightarrow> bool" where
  "lit_eq (LInt a) (LInt b) \<longleftrightarrow> a = b"
| "lit_eq (LFloat a) (LFloat b) \<longleftrightarrow> f64_eq a b \<or> (f64_is_nan a \<and> f64_is_nan b)"
| "lit_eq (LStr a) (LStr b) \<longleftrightarrow> a = b"
| "lit_eq _ _ \<longleftrightarrow> False"

section \<open>Patterns, shapes and witnesses\<close>

datatype pat =
    Wild
  | PLit lit
  | PVariant nat "(nat \<times> pat) list"
  | PTuple "pat list"
  | PList "pat list" bool

record 'ty variant_shape =
  variant_name :: string
  variant_fields :: "'ty list"

datatype 'ty ty_shape =
    Opaque
  | Enum "'ty variant_shape list"
  | Tuple "'ty list"
  | ListOf 'ty

record arm =
  arm_pat :: pat
  guarded :: bool

datatype witness =
    WWild
  | WLit lit
  | WVariant string "witness list"
  | WTuple "witness list"
  | WList "witness list" bool

record match_check =
  missing :: "witness list"
  redundant :: "nat list"

datatype ctor =
    CVariant nat
  | CTuple
  | ListFixed nat
  | ListAtLeast nat
  | CLit lit
  | Other

type_synonym row = "pat list"

definition WITNESS_LIMIT :: nat where
  "WITNESS_LIMIT = 64"

definition is_exhaustive :: "match_check \<Rightarrow> bool" where
  "is_exhaustive m \<longleftrightarrow> missing m = []"

definition pat_variant :: "nat \<Rightarrow> pat list \<Rightarrow> pat" where
  "pat_variant v args = PVariant v (zip [0..<length args] args)"

section \<open>Splitting a column\<close>

fun list_bound :: "pat list \<Rightarrow> nat \<Rightarrow> nat" where
  "list_bound [] n = n"
| "list_bound (PList prefix rest # ps) n =
     list_bound ps (max n (if rest then length prefix else length prefix + 1))"
| "list_bound (_ # ps) n = list_bound ps n"

fun column_lits :: "pat list \<Rightarrow> lit list \<Rightarrow> lit list" where
  "column_lits [] lits = lits"
| "column_lits (PLit l # ps) lits =
     column_lits ps (if list_ex (\<lambda>l'. lit_eq l' l) lits then lits else lits @ [l])"
| "column_lits (_ # ps) lits = column_lits ps lits"

definition split_ctors :: "'ty ty_shape \<Rightarrow> pat list \<Rightarrow> ctor list" where
  "split_ctors shape heads =
     (case shape of
        Enum variants \<Rightarrow> map CVariant [0..<length variants]
      | Tuple _ \<Rightarrow> [CTuple]
      | ListOf _ \<Rightarrow> (let n = list_bound heads 0 in map ListFixed [0..<n] @ [ListAtLeast n])
      | Opaque \<Rightarrow> map CLit (column_lits heads []) @ [Other])"

fun covers :: "pat \<Rightarrow> ctor \<Rightarrow> bool option" where
  "covers Wild _ = Some True"
| "covers (PVariant variant _) (CVariant v) = Some (variant = v)"
| "covers (PTuple _) CTuple = Some True"
| "covers (PList prefix False) (ListFixed n) = Some (length prefix = n)"
| "covers (PList _ False) (ListAtLeast _) = Some False"
| "covers (PList prefix True) (ListFixed n) = Some (length prefix \<le> n)"
| "covers (PList prefix True) (ListAtLeast n) = Some (length prefix \<le> n)"
| "covers (PLit a) (CLit b) = Some (lit_eq a b)"
| "covers (PLit _) Other = Some False"
| "covers _ _ = None"

definition nth_opt :: "'a list \<Rightarrow> nat \<Rightarrow> 'a option" where
  "nth_opt xs i = (if i < length xs then Some (xs ! i) else None)"

definition arity :: "'ty ty_shape \<Rightarrow> ctor \<Rightarrow> nat option" where
  "arity shape c =
     (case (shape, c) of
        (Enum variants, CVariant v) \<Rightarrow> map_option (length \<circ> variant_fields) (nth_opt variants v)
      | (Tuple tys, CTuple) \<Rightarrow> Some (length tys)
      | (_, ListFixed n) \<Rightarrow> Some n
      | (_, ListAtLeast n) \<Rightarrow> Some n
      | _ \<Rightarrow> Some 0)"

definition field_tys :: "'ty ty_shape \<Rightarrow> ctor \<Rightarrow> 'ty list option" where
  "field_tys shape c =
     (case (shape, c) of
        (Enum variants, CVariant v) \<Rightarrow> map_option variant_fields (nth_opt variants v)
      | (Tuple tys, CTuple) \<Rightarrow> Some tys
      | (ListOf elem, ListFixed n) \<Rightarrow> Some (replicate n elem)
      | (ListOf elem, ListAtLeast n) \<Rightarrow> Some (replicate n elem)
      | _ \<Rightarrow> Some [])"

text \<open>\<open>out[i] = p\<close> panics out of range; \<open>zip\<close> stops at the shorter list.\<close>

fun set_fields :: "(nat \<times> pat) list \<Rightarrow> row \<Rightarrow> row option" where
  "set_fields [] out = Some out"
| "set_fields ((i, p) # fs) out =
     (if i < length out then set_fields fs (out[i := p]) else None)"

fun zip_slots :: "pat list \<Rightarrow> row \<Rightarrow> row" where
  "zip_slots (p # ps) (_ # out) = p # zip_slots ps out"
| "zip_slots _ out = out"

definition specialize :: "row \<Rightarrow> nat \<Rightarrow> row option" where
  "specialize row n =
     (let out = replicate n Wild in
      case row of
        [] \<Rightarrow> None
      | p # rest \<Rightarrow>
          (case p of
             Wild \<Rightarrow> Some (out @ rest)
           | PLit _ \<Rightarrow> Some (out @ rest)
           | PVariant _ fs \<Rightarrow> map_option (\<lambda>out. out @ rest) (set_fields fs out)
           | PTuple ps \<Rightarrow> Some (zip_slots ps out @ rest)
           | PList prefix _ \<Rightarrow> Some (zip_slots prefix out @ rest)))"

section \<open>Witnesses\<close>

definition wrap :: "'ty ty_shape \<Rightarrow> ctor \<Rightarrow> witness list \<Rightarrow> witness list option" where
  "wrap shape c ws =
     do {
       n \<leftarrow> arity shape c;
       if n \<le> length ws
       then (let args = take n ws; rest = drop n ws in
         case (shape, c) of
           (Enum variants, CVariant v) \<Rightarrow>
             map_option (\<lambda>s. WVariant (variant_name s) args # rest) (nth_opt variants v)
         | (_, CTuple) \<Rightarrow> Some (WTuple args # rest)
         | (_, ListFixed _) \<Rightarrow> Some (WList args False # rest)
         | (_, ListAtLeast _) \<Rightarrow> Some (WList args True # rest)
         | (_, CLit l) \<Rightarrow> Some (WLit l # rest)
         | _ \<Rightarrow> Some (WWild # rest))
       else None
     }"

definition wild_witness :: "'ty ty_shape \<Rightarrow> ctor \<Rightarrow> witness option" where
  "wild_witness shape c =
     do {
       n \<leftarrow> arity shape c;
       out \<leftarrow> wrap shape c (replicate n WWild);
       if out = [] then None else Some (last out)
     }"

section \<open>Usefulness\<close>

text \<open>The closures of \<open>any\<close>, \<open>filter\<close> and \<open>map\<close>, with the panics of their bodies.\<close>

fun any_ctor_covers :: "row list \<Rightarrow> ctor \<Rightarrow> bool option" where
  "any_ctor_covers [] c = Some False"
| "any_ctor_covers ([] # rows) c = None"
| "any_ctor_covers ((p # r) # rows) c =
     (if p = Wild then any_ctor_covers rows c
      else do { b \<leftarrow> covers p c; if b then Some True else any_ctor_covers rows c })"

fun spec_rows :: "row list \<Rightarrow> ctor \<Rightarrow> nat \<Rightarrow> row list option" where
  "spec_rows [] c n = Some []"
| "spec_rows ([] # rows) c n = None"
| "spec_rows ((p # r) # rows) c n =
     do {
       b \<leftarrow> covers p c;
       if b
       then do { s \<leftarrow> specialize (p # r) n; ss \<leftarrow> spec_rows rows c n; Some (s # ss) }
       else spec_rows rows c n
     }"

fun column_heads :: "row list \<Rightarrow> pat list option" where
  "column_heads [] = Some []"
| "column_heads ([] # rows) = None"
| "column_heads ((p # r) # rows) = map_option ((#) p) (column_heads rows)"

definition default_rows :: "row list \<Rightarrow> row list" where
  "default_rows rows = map tl (filter (\<lambda>r. hd r = Wild) rows)"

fun map_opt :: "('a \<Rightarrow> 'b option) \<Rightarrow> 'a list \<Rightarrow> 'b list option" where
  "map_opt f [] = Some []"
| "map_opt f (x # xs) = do { y \<leftarrow> f x; ys \<leftarrow> map_opt f xs; Some (y # ys) }"

text \<open>The inner loops that turn the witnesses of the default matrix into ones of this column.\<close>

definition default_witnesses ::
    "'ty ty_shape \<Rightarrow> bool \<Rightarrow> ctor list \<Rightarrow> witness list list \<Rightarrow> witness list list option" where
  "default_witnesses shape column_has_ctor miss wss =
     (if \<not> column_has_ctor then Some (map ((#) WWild) wss)
      else map_option concat
        (map_opt (\<lambda>ws. map_opt (\<lambda>c. map_option (\<lambda>w. w # ws) (wild_witness shape c)) miss) wss))"

text \<open>
  The size that decreases: constructor patterns count, wildcards do not.
\<close>

fun pat_size :: "pat \<Rightarrow> nat" where
  "pat_size Wild = 0"
| "pat_size (PLit _) = 1"
| "pat_size (PVariant _ fs) = 1 + sum_list (map (\<lambda>(i, p). pat_size p) fs)"
| "pat_size (PTuple ps) = 1 + sum_list (map pat_size ps)"
| "pat_size (PList ps _) = 1 + sum_list (map pat_size ps)"

definition row_size :: "row \<Rightarrow> nat" where
  "row_size r = sum_list (map pat_size r)"

definition rows_size :: "row list \<Rightarrow> nat" where
  "rows_size rows = sum_list (map row_size rows)"

lemma row_size_simps [simp]:
  "row_size [] = 0" "row_size (p # r) = pat_size p + row_size r"
  "row_size (r @ s) = row_size r + row_size s" "row_size (replicate n Wild) = 0"
  by (simp_all add: row_size_def sum_list_replicate)

lemma rows_size_simps [simp]:
  "rows_size [] = 0" "rows_size (r # rows) = row_size r + rows_size rows"
  by (simp_all add: rows_size_def)

lemma pat_size_0: "pat_size p = 0 \<longleftrightarrow> p = Wild"
  by (cases p) auto

lemma row_size_update: "i < length out \<Longrightarrow> row_size (out[i := p]) \<le> row_size out + pat_size p"
proof (induction out arbitrary: i)
  case (Cons q out)
  then show ?case by (cases i) (auto simp: add.assoc)
qed simp

lemma row_size_set_fields:
  "set_fields fs out = Some out' \<Longrightarrow>
   row_size out' \<le> row_size out + sum_list (map (\<lambda>(i, p). pat_size p) fs)"
proof (induction fs arbitrary: out)
  case (Cons f fs)
  obtain i p where f: "f = (i, p)" by (cases f)
  with Cons.prems have i: "i < length out" and s: "set_fields fs (out[i := p]) = Some out'"
    by (auto split: if_splits)
  from Cons.IH [OF s] row_size_update [OF i, of p] f show ?case by simp
qed simp

lemma row_size_zip_slots: "row_size (zip_slots ps out) \<le> row_size ps + row_size out"
  by (induction ps out rule: zip_slots.induct) auto

lemma specialize_size:
  assumes "specialize (p # r) n = Some s"
  shows "if p = Wild then row_size s = row_size r else row_size s < row_size (p # r)"
proof (cases p)
  case (PVariant v fs)
  with assms obtain out where "set_fields fs (replicate n Wild) = Some out" "s = out @ r"
    by (auto simp: specialize_def)
  with row_size_set_fields [of fs "replicate n Wild" out] PVariant show ?thesis by simp
next
  case (PTuple ps)
  with assms row_size_zip_slots [of ps "replicate n Wild"] show ?thesis
    by (auto simp: specialize_def simp flip: row_size_def)
next
  case (PList ps b)
  with assms row_size_zip_slots [of ps "replicate n Wild"] show ?thesis
    by (auto simp: specialize_def simp flip: row_size_def)
qed (use assms in \<open>auto simp: specialize_def\<close>)

lemma spec_rows_size:
  assumes "spec_rows rows c n = Some ss"
  shows "rows_size ss \<le> rows_size rows
     \<and> (any_ctor_covers rows c = Some True \<longrightarrow> rows_size ss < rows_size rows)"
  using assms
proof (induction rows arbitrary: ss)
  case (Cons r rows)
  then obtain p r' where r: "r = p # r'" by (cases r) auto
  show ?case
  proof (cases "covers p c = Some True")
    case True
    with Cons.prems r obtain s ss' where
      s: "specialize (p # r') n = Some s" "spec_rows rows c n = Some ss'" "ss = s # ss'"
      by (auto split: Option.bind_splits)
    with Cons.IH [OF s(2)] specialize_size [OF s(1)] r True show ?thesis
      by (cases "p = Wild") auto
  next
    case False
    with Cons.prems r obtain b where "covers p c = Some b" "\<not> b" "spec_rows rows c n = Some ss"
      by (auto split: Option.bind_splits if_splits)
    with Cons.IH [of ss] r show ?thesis by auto
  qed
qed auto

lemma default_rows_size: "rows_size (default_rows rows) \<le> rows_size rows"
proof (induction rows)
  case (Cons r rows)
  then show ?case by (cases r) (auto simp: default_rows_def)
qed (simp add: default_rows_def)


lemma useful_spec_decreases:
  assumes "spec_rows rows c n = Some rows'" "specialize (head # q) n = Some q'"
    and "(if head = Wild then any_ctor_covers rows c else Some True) = Some True"
  shows "rows_size rows' + row_size q' < rows_size rows + row_size (head # q)"
  using spec_rows_size [OF assms(1)] specialize_size [OF assms(2)] assms(3)
  by (cases "head = Wild") auto

text \<open>
  \<open>useful\<close> and its loop over the constructors of the column, which carries \<open>out\<close> and
  \<open>missing\<close>. A row without a head or a missing type is a panic. The slices \<open>tys[1..]\<close>
  cannot fail once \<open>tys[0]\<close> did not.
\<close>

function (sequential) useful ::
    "('ty \<Rightarrow> 'ty ty_shape) \<Rightarrow> row list \<Rightarrow> row \<Rightarrow> 'ty list \<Rightarrow> nat \<Rightarrow> witness list list option"
  and useful_ctors ::
    "('ty \<Rightarrow> 'ty ty_shape) \<Rightarrow> row list \<Rightarrow> row \<Rightarrow> 'ty list \<Rightarrow> nat \<Rightarrow> ctor list \<Rightarrow>
     witness list list \<Rightarrow> ctor list \<Rightarrow> (witness list list \<times> ctor list) option" where
  "useful table rows [] tys limit = Some (if rows = [] then [[]] else [])"
| "useful table rows (head # q_rest) [] limit = None"
| "useful table rows (head # q_rest) (ty # tys) limit =
     do {
       heads \<leftarrow> column_heads rows;
       (out, miss) \<leftarrow> useful_ctors table rows (head # q_rest) (ty # tys) limit
          (split_ctors (table ty) (heads @ [head])) [] [];
       if miss \<noteq> [] \<and> length out < limit
       then do {
         wss \<leftarrow> useful table (default_rows rows) q_rest tys (limit - length out);
         more \<leftarrow> default_witnesses (table ty) (list_ex (\<lambda>p. p \<noteq> Wild) heads) miss wss;
         Some (take limit (out @ more))
       }
       else Some (take limit out)
     }"
| "useful_ctors table rows q tys limit [] out miss = Some (out, miss)"
| "useful_ctors table rows (head # q_rest) (ty # tys) limit (c # cs) out miss =
     (if limit \<le> length out then Some (out, miss)
      else do {
        b \<leftarrow> covers head c;
        if \<not> b then useful_ctors table rows (head # q_rest) (ty # tys) limit cs out miss
        else do {
          kept \<leftarrow> (if head = Wild then any_ctor_covers rows c else Some True);
          if \<not> kept
          then useful_ctors table rows (head # q_rest) (ty # tys) limit cs out (miss @ [c])
          else do {
            n \<leftarrow> arity (table ty) c;
            rows' \<leftarrow> spec_rows rows c n;
            q' \<leftarrow> specialize (head # q_rest) n;
            fs \<leftarrow> field_tys (table ty) c;
            wss \<leftarrow> useful table rows' q' (fs @ tys) (limit - length out);
            new \<leftarrow> map_opt (wrap (table ty) c) wss;
            useful_ctors table rows (head # q_rest) (ty # tys) limit cs (out @ new) miss
          }
        }
      })"
| "useful_ctors table rows q tys limit cs out miss = None"
  by pat_completeness auto

termination
proof (relation "inv_image (less_than <*lex*> less_than <*lex*> less_than)
    (\<lambda>x. case x of
        Inl (table, rows, q, tys, limit) \<Rightarrow> (rows_size rows + row_size q, 2 * length q + 1, 0)
      | Inr (table, rows, q, tys, limit, cs, out, miss) \<Rightarrow>
          (rows_size rows + row_size q, 2 * length q, length cs))", goal_cases)
  case (3 table rows head q_rest ty tys limit heads x out miss)
  then show ?case using default_rows_size [of rows] by auto
next
  case (6 table rows head q_rest ty tys limit c cs out miss b kept n rows' q' fs)
  then show ?case using useful_spec_decreases [of rows c n rows' head q_rest q'] by simp
qed auto

section \<open>The check\<close>

text \<open>\<open>Vec::pop\<close> with the \<open>expect\<close> on it.\<close>

definition pop_last :: "'a list \<Rightarrow> 'a option" where
  "pop_last xs = (if xs = [] then None else Some (last xs))"

fun check_match_arms ::
    "('ty \<Rightarrow> 'ty ty_shape) \<Rightarrow> 'ty \<Rightarrow> nat \<Rightarrow> arm list \<Rightarrow> row list \<Rightarrow> nat list \<Rightarrow>
     (row list \<times> nat list) option" where
  "check_match_arms table ty i [] rows red = Some (rows, red)"
| "check_match_arms table ty i (a # arms) rows red =
     do {
       wss \<leftarrow> useful table rows [arm_pat a] [ty] 1;
       check_match_arms table ty (i + 1) arms
         (if guarded a then rows else rows @ [[arm_pat a]])
         (if wss = [] then red @ [i] else red)
     }"

definition check_match :: "('ty \<Rightarrow> 'ty ty_shape) \<Rightarrow> 'ty \<Rightarrow> arm list \<Rightarrow> match_check option" where
  "check_match table ty arms =
     do {
       (rows, red) \<leftarrow> check_match_arms table ty 0 arms [] [];
       wss \<leftarrow> useful table rows [Wild] [ty] WITNESS_LIMIT;
       ms \<leftarrow> map_opt pop_last wss;
       Some \<lparr>missing = ms, redundant = red\<rparr>
     }"

section \<open>Values and matching\<close>

text \<open>
  A value is a literal, a constructor of an enum or \<open>type\<close> with its fields, a tuple, a list, or
  something no pattern looks into (a function, a resource).
\<close>

datatype val = VLit lit | VVariant nat "val list" | VTuple "val list" | VList "val list" | VOther nat

fun pat_matches :: "pat \<Rightarrow> val \<Rightarrow> bool" where
  "pat_matches Wild v \<longleftrightarrow> True"
| "pat_matches (PLit a) (VLit b) \<longleftrightarrow> lit_eq a b"
| "pat_matches (PVariant i fs) (VVariant j vs) \<longleftrightarrow>
     i = j \<and> (\<forall>(k, p)\<in>set fs. k < length vs \<and> pat_matches p (vs ! k))"
| "pat_matches (PTuple ps) (VTuple vs) \<longleftrightarrow> list_all2 pat_matches ps vs"
| "pat_matches (PList ps rest) (VList vs) \<longleftrightarrow>
     (if rest then length ps \<le> length vs else length ps = length vs)
     \<and> list_all2 pat_matches ps (take (length ps) vs)"
| "pat_matches _ _ \<longleftrightarrow> False"

text \<open>
  The values of a type. \<open>inh\<close> says which values an opaque type has; the other shapes say it
  themselves.
\<close>

inductive val_of :: "('ty \<Rightarrow> 'ty ty_shape) \<Rightarrow> ('ty \<Rightarrow> val \<Rightarrow> bool) \<Rightarrow> 'ty \<Rightarrow> val \<Rightarrow> bool"
  for table inh where
  opaque: "table ty = Opaque \<Longrightarrow> inh ty v \<Longrightarrow> val_of table inh ty v"
| variant: "table ty = Enum variants \<Longrightarrow> i < length variants \<Longrightarrow>
     list_all2 (val_of table inh) (variant_fields (variants ! i)) vs \<Longrightarrow>
     val_of table inh ty (VVariant i vs)"
| tuple: "table ty = Tuple tys \<Longrightarrow> list_all2 (val_of table inh) tys vs \<Longrightarrow>
     val_of table inh ty (VTuple vs)"
| list: "table ty = ListOf elem \<Longrightarrow> \<forall>v\<in>set vs. val_of table inh elem v \<Longrightarrow>
     val_of table inh ty (VList vs)"

text \<open>
  A pattern that fits a type, as type checking leaves them: constructors of the type, field
  positions in range and written once, literals of the type. \<open>L\<close> holds the literals written.
\<close>

fun pat_ok :: "('ty \<Rightarrow> 'ty ty_shape) \<Rightarrow> ('ty \<Rightarrow> val \<Rightarrow> bool) \<Rightarrow> lit set \<Rightarrow> 'ty \<Rightarrow> pat \<Rightarrow> bool" where
  "pat_ok table inh L ty Wild \<longleftrightarrow> True"
| "pat_ok table inh L ty (PLit l) \<longleftrightarrow> table ty = Opaque \<and> inh ty (VLit l) \<and> l \<in> L"
| "pat_ok table inh L ty (PVariant i fs) \<longleftrightarrow>
     (case table ty of
        Enum variants \<Rightarrow> i < length variants \<and> distinct (map fst fs)
          \<and> (\<forall>(k, p)\<in>set fs. k < length (variant_fields (variants ! i))
               \<and> pat_ok table inh L (variant_fields (variants ! i) ! k) p)
      | _ \<Rightarrow> False)"
| "pat_ok table inh L ty (PTuple ps) \<longleftrightarrow>
     (case table ty of
        Tuple tys \<Rightarrow> list_all2 (\<lambda>t p. pat_ok table inh L t p) tys ps
      | _ \<Rightarrow> False)"
| "pat_ok table inh L ty (PList ps rest) \<longleftrightarrow>
     (case table ty of ListOf elem \<Rightarrow> \<forall>p\<in>set ps. pat_ok table inh L elem p | _ \<Rightarrow> False)"

text \<open>Values a reported example stands for: \<open>_\<close> is any value, \<open>..\<close> any further elements.\<close>

inductive witness_of :: "('ty \<Rightarrow> 'ty ty_shape) \<Rightarrow> 'ty \<Rightarrow> witness \<Rightarrow> val \<Rightarrow> bool"
  for table where
  wild: "witness_of table ty WWild v"
| lit: "lit_eq l l' \<Longrightarrow> witness_of table ty (WLit l) (VLit l')"
| variant: "table ty = Enum variants \<Longrightarrow> i < length variants \<Longrightarrow> tys = variant_fields (variants ! i) \<Longrightarrow>
     length ws = length tys \<Longrightarrow> length vs = length tys \<Longrightarrow>
     \<forall>k<length tys. witness_of table (tys ! k) (ws ! k) (vs ! k) \<Longrightarrow>
     witness_of table ty (WVariant (variant_name (variants ! i)) ws) (VVariant i vs)"
| tuple: "table ty = Tuple tys \<Longrightarrow> length ws = length tys \<Longrightarrow> length vs = length tys \<Longrightarrow>
     \<forall>k<length tys. witness_of table (tys ! k) (ws ! k) (vs ! k) \<Longrightarrow>
     witness_of table ty (WTuple ws) (VTuple vs)"
| list: "table ty = ListOf elem \<Longrightarrow>
     if rest then length ws \<le> length vs else length ws = length vs \<Longrightarrow>
     \<forall>k<length ws. witness_of table elem (ws ! k) (vs ! k) \<Longrightarrow>
     witness_of table ty (WList ws rest) (VList vs)"

definition witnesses_of :: "('ty \<Rightarrow> 'ty ty_shape) \<Rightarrow> 'ty list \<Rightarrow> witness list \<Rightarrow> val list \<Rightarrow> bool" where
  "witnesses_of table tys ws vs \<longleftrightarrow>
     length ws = length tys \<and> length vs = length tys
     \<and> (\<forall>k<length tys. witness_of table (tys ! k) (ws ! k) (vs ! k))"

text \<open>
  Every type has a value, and an opaque one has a value beside the literals written: what makes
  a reported example one that can occur.
\<close>

definition inhabited :: "('ty \<Rightarrow> 'ty ty_shape) \<Rightarrow> ('ty \<Rightarrow> val \<Rightarrow> bool) \<Rightarrow> lit set \<Rightarrow> bool" where
  "inhabited table inh L \<longleftrightarrow>
     (\<forall>ty. \<exists>v. val_of table inh ty v)
     \<and> (\<forall>ty. table ty = Opaque \<longrightarrow> (\<exists>v. inh ty v \<and> (\<forall>l\<in>L. \<not> pat_matches (PLit l) v)))"

section \<open>Constructors partition the values of a column\<close>

fun in_ctor :: "lit set \<Rightarrow> ctor \<Rightarrow> val \<Rightarrow> bool" where
  "in_ctor lits (CVariant i) v \<longleftrightarrow> (\<exists>vs. v = VVariant i vs)"
| "in_ctor lits CTuple v \<longleftrightarrow> (\<exists>vs. v = VTuple vs)"
| "in_ctor lits (ListFixed n) v \<longleftrightarrow> (\<exists>vs. v = VList vs \<and> length vs = n)"
| "in_ctor lits (ListAtLeast n) v \<longleftrightarrow> (\<exists>vs. v = VList vs \<and> n \<le> length vs)"
| "in_ctor lits (CLit l) v \<longleftrightarrow> pat_matches (PLit l) v"
| "in_ctor lits Other v \<longleftrightarrow> (\<forall>l\<in>lits. \<not> pat_matches (PLit l) v)"

fun fields_of :: "ctor \<Rightarrow> val \<Rightarrow> val list" where
  "fields_of (CVariant _) (VVariant _ vs) = vs"
| "fields_of CTuple (VTuple vs) = vs"
| "fields_of (ListFixed n) (VList vs) = vs"
| "fields_of (ListAtLeast n) (VList vs) = take n vs"
| "fields_of _ _ = []"

lemma f64_eq_sym: "f64_eq a b \<longleftrightarrow> f64_eq b a"
  by (auto simp: f64_eq_def)

lemma lit_eq_refl [simp]: "lit_eq a a"
  by (cases a) (auto simp: f64_eq_def)

lemma lit_eq_sym: "lit_eq a b \<longleftrightarrow> lit_eq b a"
  by (cases a; cases b) (auto simp: f64_eq_sym)

lemma lit_eq_trans: "lit_eq a b \<Longrightarrow> lit_eq b c \<Longrightarrow> lit_eq a c"
  by (cases a; cases b; cases c) (auto simp: f64_eq_def)

lemma lit_eq_right: "lit_eq a c \<Longrightarrow> lit_eq b c \<Longrightarrow> lit_eq a b"
  using lit_eq_sym [of b c] lit_eq_trans [of a c b] by blast

lemma column_lits_keeps: "set lits \<subseteq> set (column_lits ps lits)"
  by (induction ps lits rule: column_lits.induct) auto

lemma column_lits_sound: "set (column_lits ps lits) \<subseteq> set lits \<union> {l. PLit l \<in> set ps}"
  by (induction ps lits rule: column_lits.induct) (auto split: if_splits)

lemma column_lits_complete:
  "PLit l \<in> set ps \<Longrightarrow> \<exists>l'\<in>set (column_lits ps lits). lit_eq l' l"
proof (induction ps lits rule: column_lits.induct)
  case (2 k ps lits)
  show ?case
  proof (cases "k = l")
    case True
    then show ?thesis
      using column_lits_keeps [of lits ps] column_lits_keeps [of "lits @ [l]" ps]
      by (auto simp: list_ex_iff intro: bexI [of _ l])
  qed (use 2 in auto)
qed auto

lemma list_bound_ge: "n \<le> list_bound ps n"
  by (induction ps n rule: list_bound.induct) (auto simp: le_max_iff_disj intro: order_trans)

lemma list_bound_list:
  "PList prefix rest \<in> set ps \<Longrightarrow>
   (if rest then length prefix \<le> list_bound ps n else length prefix < list_bound ps n)"
proof (induction ps n rule: list_bound.induct)
  case (2 prefix' rest' ps n)
  show ?case
  proof (cases "PList prefix rest \<in> set ps")
    case False
    with 2 have "prefix' = prefix" "rest' = rest" by auto
    then show ?thesis
      using list_bound_ge [of "max n (if rest then length prefix else length prefix + 1)" ps]
      by (cases rest) auto
  qed (use 2 in auto)
qed auto

text \<open>\<open>ctor_at\<close>: a constructor that the split of this column yields.\<close>

definition ctor_at :: "'ty ty_shape \<Rightarrow> pat list \<Rightarrow> ctor \<Rightarrow> bool" where
  "ctor_at shape heads c \<longleftrightarrow> c \<in> set (split_ctors shape heads)"

lemma ctor_at_simps:
  "ctor_at (Enum variants) heads c \<longleftrightarrow> (\<exists>i<length variants. c = CVariant i)"
  "ctor_at (Tuple tys) heads c \<longleftrightarrow> c = CTuple"
  "ctor_at (ListOf t) heads c \<longleftrightarrow>
     (\<exists>n<list_bound heads 0. c = ListFixed n) \<or> c = ListAtLeast (list_bound heads 0)"
  "ctor_at Opaque heads c \<longleftrightarrow> (\<exists>l\<in>set (column_lits heads []). c = CLit l) \<or> c = Other"
  by (auto simp: ctor_at_def split_ctors_def Let_def)

lemma split_ctors_total:
  assumes "val_of table inh ty v"
  shows "\<exists>c. ctor_at (table ty) heads c \<and> in_ctor (set (column_lits heads [])) c v"
  using assms
proof cases
  case opaque
  show ?thesis
  proof (cases "\<exists>l\<in>set (column_lits heads []). pat_matches (PLit l) v")
    case True
    then obtain l where "l \<in> set (column_lits heads [])" "pat_matches (PLit l) v" by blast
    with opaque show ?thesis by (intro exI [of _ "CLit l"]) (simp add: ctor_at_simps)
  qed (use opaque in \<open>auto simp: ctor_at_simps intro!: exI [of _ Other]\<close>)
next
  case (list elem vs)
  then show ?thesis
    by (cases "length vs < list_bound heads 0") (auto simp: ctor_at_simps)
qed (auto simp: ctor_at_simps)

section \<open>Specialization\<close>

lemma set_fields_spec:
  assumes "distinct (map fst fs)" "\<forall>(k, p)\<in>set fs. k < length out"
  shows "\<exists>s. set_fields fs out = Some s \<and> length s = length out
     \<and> (\<forall>k<length out. s ! k = (case map_of fs k of None \<Rightarrow> out ! k | Some p \<Rightarrow> p))"
  using assms
proof (induction fs arbitrary: out)
  case (Cons f fs)
  obtain i p where f: "f = (i, p)" by (cases f)
  from Cons.prems f have i: "i < length out" "i \<notin> fst ` set fs" by auto
  with Cons.prems f have "\<forall>(k, q)\<in>set fs. k < length (out[i := p])" by auto
  from Cons.IH [OF _ this] Cons.prems(1) obtain s where
    s: "set_fields fs (out[i := p]) = Some s" "length s = length out"
      "\<forall>k<length out. s ! k = (case map_of fs k of None \<Rightarrow> out[i := p] ! k | Some p \<Rightarrow> p)"
    by auto
  moreover have "map_of fs i = None" using i(2) by (simp add: map_of_eq_None_iff)
  ultimately show ?case using f i by (auto simp: nth_list_update split: option.splits)
qed simp

lemma zip_slots_replicate:
  "length ps \<le> n \<Longrightarrow> zip_slots ps (replicate n Wild) = ps @ replicate (n - length ps) Wild"
proof (induction ps arbitrary: n)
  case (Cons p ps)
  then show ?case by (cases n) auto
qed simp

lemma list_all2_Wild: "list_all2 pat_matches (replicate n Wild) vs \<longleftrightarrow> length vs = n"
  by (auto simp: list_all2_conv_all_nth)

lemma list_all2_ok_Wild: "list_all2 (pat_ok table inh L) tys (replicate n Wild) \<longleftrightarrow> length tys = n"
  by (auto simp: list_all2_conv_all_nth)

lemma list_all2_slots:
  assumes "length vs = n" "length ps \<le> n"
  shows "list_all2 pat_matches (ps @ replicate (n - length ps) Wild) vs
     \<longleftrightarrow> list_all2 pat_matches ps (take (length ps) vs)"
proof -
  have "list_all2 pat_matches (ps @ replicate (n - length ps) Wild)
      (take (length ps) vs @ drop (length ps) vs)
    \<longleftrightarrow> list_all2 pat_matches ps (take (length ps) vs)
      \<and> list_all2 pat_matches (replicate (n - length ps) Wild) (drop (length ps) vs)"
    using assms by (intro list_all2_append) simp
  then show ?thesis using assms by (simp add: list_all2_Wild)
qed

lemma covers_total:
  assumes "pat_ok table inh L ty p" "ctor_at (table ty) heads c"
  shows "covers p c \<noteq> None"
proof (cases p)
  case (PList ps rest)
  with assms show ?thesis by (cases rest; cases "table ty") (auto simp: ctor_at_simps)
qed (use assms in \<open>auto simp: ctor_at_simps split: ty_shape.splits\<close>)

lemma arity_field_tys:
  assumes "ctor_at (table ty) heads c"
  obtains fts where "field_tys (table ty) c = Some fts" "arity (table ty) c = Some (length fts)"
proof -
  have "\<exists>fts. field_tys (table ty) c = Some fts \<and> arity (table ty) c = Some (length fts)"
    using assms
    by (cases "table ty") (auto simp: ctor_at_simps field_tys_def arity_def nth_opt_def)
  with that show ?thesis by blast
qed

lemma fields_of_length:
  assumes "val_of table inh ty v" "ctor_at (table ty) heads c" "in_ctor lits c v"
    and "field_tys (table ty) c = Some fts"
  shows "list_all2 (val_of table inh) fts (fields_of c v)"
  using assms
proof cases
  case (list elem vs)
  then show ?thesis
    using assms by (auto simp: ctor_at_simps field_tys_def list_all2_conv_all_nth min_def)
qed (use assms in \<open>auto simp: ctor_at_simps field_tys_def nth_opt_def\<close>)

lemma covers_False:
  assumes "pat_ok table inh L ty p" "p \<in> set heads" "ctor_at (table ty) heads c"
    and "in_ctor (set (column_lits heads [])) c v" "covers p c = Some False"
  shows "\<not> pat_matches p v"
proof (cases p)
  case (PLit l)
  with assms(1) have t: "table ty = Opaque" by simp
  from column_lits_complete [of l heads "[]"] PLit assms(2) obtain l' where
    l': "l' \<in> set (column_lits heads [])" "lit_eq l' l" by blast
  show ?thesis
  proof
    assume m: "pat_matches p v"
    then obtain k where k: "v = VLit k" "lit_eq l k" using PLit by (cases v) auto
    with l' have "lit_eq l' k" by (blast intro: lit_eq_trans)
    with assms(3-5) t PLit l' k lit_eq_right [OF k(2)] show False
      by (auto simp: ctor_at_simps)
  qed
next
  case (PList ps rest)
  with assms(1) obtain elem where t: "table ty = ListOf elem" by (auto split: ty_shape.splits)
  with assms(3-5) PList list_bound_list [of ps rest heads 0] assms(2) show ?thesis
    by (cases rest) (auto simp: ctor_at_simps)
qed (use assms in \<open>auto split: ty_shape.splits simp: ctor_at_simps\<close>)


text \<open>
  A covering pattern and its specialization: the fields fit the field types, and match the
  fields of a value of the constructor exactly when the pattern matches the value.
\<close>

definition spec_head ::
    "('ty \<Rightarrow> 'ty ty_shape) \<Rightarrow> ('ty \<Rightarrow> val \<Rightarrow> bool) \<Rightarrow> lit set \<Rightarrow> 'ty \<Rightarrow> lit set \<Rightarrow> ctor \<Rightarrow>
     'ty list \<Rightarrow> pat \<Rightarrow> pat list \<Rightarrow> bool" where
  "spec_head table inh L ty lits c fts p s \<longleftrightarrow>
     list_all2 (pat_ok table inh L) fts s
     \<and> (\<forall>v. val_of table inh ty v \<longrightarrow> in_ctor lits c v \<longrightarrow>
          (list_all2 pat_matches s (fields_of c v) \<longleftrightarrow> pat_matches p v))"

lemma fields_match:
  assumes "distinct (map fst fs)" "\<forall>(k, p)\<in>set fs. k < n" "length vs = n" "length s = n"
    and "\<forall>k<n. s ! k = (case map_of fs k of None \<Rightarrow> Wild | Some p \<Rightarrow> p)"
  shows "list_all2 pat_matches s vs \<longleftrightarrow> (\<forall>(k, p)\<in>set fs. k < length vs \<and> pat_matches p (vs ! k))"
proof
  assume "list_all2 pat_matches s vs"
  then have m: "\<forall>k<n. pat_matches (s ! k) (vs ! k)" using assms(4) by (simp add: list_all2_conv_all_nth)
  have "pat_matches p (vs ! k)" if "(k, p) \<in> set fs" for k p
  proof -
    from that assms(2) have "k < n" by auto
    moreover from map_of_is_SomeI [OF assms(1) that] have "map_of fs k = Some p" .
    ultimately show ?thesis using m assms(5) by fastforce
  qed
  with assms(2,3) show "\<forall>(k, p)\<in>set fs. k < length vs \<and> pat_matches p (vs ! k)" by auto
next
  assume "\<forall>(k, p)\<in>set fs. k < length vs \<and> pat_matches p (vs ! k)"
  with assms show "list_all2 pat_matches s vs"
    by (auto simp: list_all2_conv_all_nth split: option.splits dest!: map_of_SomeD)
qed

lemma specialize_variant:
  assumes "pat_ok table inh L ty (PVariant i fs)" "ctor_at (table ty) heads c"
    and "covers (PVariant i fs) c = Some True" "field_tys (table ty) c = Some fts"
  shows "\<exists>s. specialize (PVariant i fs # r) (length fts) = Some (s @ r)
     \<and> spec_head table inh L ty lits c fts (PVariant i fs) s"
proof -
  from assms(1) obtain variants where t: "table ty = Enum variants"
    and i: "i < length variants" and d: "distinct (map fst fs)"
    and ok: "\<forall>(k, p)\<in>set fs. k < length (variant_fields (variants ! i))
        \<and> pat_ok table inh L (variant_fields (variants ! i) ! k) p"
    by (auto split: ty_shape.splits)
  with assms have c: "c = CVariant i" and fts: "fts = variant_fields (variants ! i)"
    by (auto simp: ctor_at_simps field_tys_def nth_opt_def)
  have r: "\<forall>(k, p)\<in>set fs. k < length fts" using ok fts by auto
  then have "\<forall>(k, p)\<in>set fs. k < length (replicate (length fts) Wild)" by simp
  from set_fields_spec [OF d this] obtain s where
    s: "set_fields fs (replicate (length fts) Wild) = Some s" "length s = length fts"
      "\<forall>k<length fts. s ! k = (case map_of fs k of None \<Rightarrow> replicate (length fts) Wild ! k | Some p \<Rightarrow> p)"
    by auto
  then have s': "\<forall>k<length fts. s ! k = (case map_of fs k of None \<Rightarrow> Wild | Some p \<Rightarrow> p)"
    by (auto split: option.splits)
  have "pat_ok table inh L (fts ! k) (s ! k)" if "k < length fts" for k
    using that s' ok fts by (auto split: option.splits dest!: map_of_SomeD)
  then have "list_all2 (pat_ok table inh L) fts s" using s(2) by (simp add: list_all2_conv_all_nth)
  moreover have "list_all2 pat_matches s (fields_of c v) \<longleftrightarrow> pat_matches (PVariant i fs) v"
    if v: "val_of table inh ty v" "in_ctor lits c v" for v
  proof -
    from v c obtain vs where vs: "v = VVariant i vs" by auto
    from fields_of_length [OF v(1) assms(2) v(2) assms(4)] vs c
    have "length vs = length fts" by (auto dest: list_all2_lengthD)
    from fields_match [OF d r this s(2) s'] vs c show ?thesis by simp
  qed
  ultimately show ?thesis using s(1) by (auto simp: specialize_def spec_head_def)
qed

lemma specialize_list:
  assumes "pat_ok table inh L ty (PList ps rest)" "ctor_at (table ty) heads c"
    and "covers (PList ps rest) c = Some True" "field_tys (table ty) c = Some fts"
  shows "\<exists>s. specialize (PList ps rest # r) (length fts) = Some (s @ r)
     \<and> spec_head table inh L ty lits c fts (PList ps rest) s"
proof -
  from assms(1) obtain elem where t: "table ty = ListOf elem"
    and ok: "\<forall>p\<in>set ps. pat_ok table inh L elem p" by (auto split: ty_shape.splits)
  have le: "length ps \<le> length fts" and fts: "fts = replicate (length fts) elem"
    using assms(2-4) t by (cases rest; auto simp: ctor_at_simps field_tys_def)+
  let ?s = "ps @ replicate (length fts - length ps) Wild"
  have "pat_ok table inh L (fts ! k) (?s ! k)" if "k < length fts" for k
    using that ok fts by (metis (no_types, lifting) length_replicate nth_append nth_mem nth_replicate
        pat_ok.simps(1) le add_diff_inverse_nat nat_add_left_cancel_less not_less)
  then have "list_all2 (pat_ok table inh L) fts ?s"
    using le by (simp add: list_all2_conv_all_nth)
  moreover have "list_all2 pat_matches ?s (fields_of c v) \<longleftrightarrow> pat_matches (PList ps rest) v"
    if v: "val_of table inh ty v" "in_ctor lits c v" for v
  proof -
    have "length (fields_of c v) = length fts"
      using fields_of_length [OF v(1) assms(2) v(2) assms(4)] by (simp add: list_all2_lengthD)
    from list_all2_slots [OF this le] assms(2,3) v(2) t show ?thesis
      by (cases rest) (auto simp: ctor_at_simps min_def)
  qed
  ultimately show ?thesis
    using zip_slots_replicate [OF le] by (auto simp: specialize_def spec_head_def)
qed

lemma specialize_head:
  assumes "pat_ok table inh L ty p" "ctor_at (table ty) heads c"
    and "covers p c = Some True" "field_tys (table ty) c = Some fts"
  shows "\<exists>s. specialize (p # r) (length fts) = Some (s @ r)
     \<and> spec_head table inh L ty lits c fts p s"
proof (cases p)
  case Wild
  have "list_all2 pat_matches (replicate (length fts) Wild) (fields_of c v)"
    if v: "val_of table inh ty v" "in_ctor lits c v" for v
    using fields_of_length [OF v(1) assms(2) v(2) assms(4)]
    by (simp add: list_all2_Wild list_all2_lengthD)
  with Wild show ?thesis by (auto simp: specialize_def spec_head_def list_all2_ok_Wild)
next
  case (PLit l)
  with assms(1) have t: "table ty = Opaque" by simp
  with assms(2-4) PLit obtain l' where l': "c = CLit l'" "lit_eq l l'" "fts = []"
    by (auto simp: ctor_at_simps field_tys_def)
  have "pat_matches (PLit l) v" if "pat_matches (PLit l') v" for v
    using that lit_eq_trans [OF l'(2)] by (cases v) auto
  with l' PLit show ?thesis by (auto simp: specialize_def spec_head_def)
next
  case (PTuple ps)
  with assms(1) obtain tys where t: "table ty = Tuple tys"
    and ok: "list_all2 (pat_ok table inh L) tys ps" by (auto split: ty_shape.splits)
  with assms(2,4) have c: "c = CTuple" "fts = tys" by (auto simp: ctor_at_simps field_tys_def)
  moreover from ok have "length ps = length tys" by (simp add: list_all2_lengthD)
  ultimately show ?thesis
    using PTuple ok zip_slots_replicate [of ps "length tys"]
    by (auto simp: specialize_def spec_head_def)
next
  case (PVariant i fs)
  then show ?thesis using specialize_variant assms by metis
next
  case (PList ps rest)
  then show ?thesis using specialize_list assms by metis
qed

section \<open>Rows\<close>

abbreviation row_matches :: "row \<Rightarrow> val list \<Rightarrow> bool" where
  "row_matches r vs \<equiv> list_all2 pat_matches r vs"

abbreviation rows_match :: "row list \<Rightarrow> val list \<Rightarrow> bool" where
  "rows_match rows vs \<equiv> \<exists>r\<in>set rows. row_matches r vs"

abbreviation row_ok ::
    "('ty \<Rightarrow> 'ty ty_shape) \<Rightarrow> ('ty \<Rightarrow> val \<Rightarrow> bool) \<Rightarrow> lit set \<Rightarrow> 'ty list \<Rightarrow> row \<Rightarrow> bool" where
  "row_ok table inh L tys r \<equiv> list_all2 (pat_ok table inh L) tys r"

abbreviation rows_ok ::
    "('ty \<Rightarrow> 'ty ty_shape) \<Rightarrow> ('ty \<Rightarrow> val \<Rightarrow> bool) \<Rightarrow> lit set \<Rightarrow> 'ty list \<Rightarrow> row list \<Rightarrow> bool" where
  "rows_ok table inh L tys rows \<equiv> \<forall>r\<in>set rows. row_ok table inh L tys r"

lemma column_heads_ok:
  "rows_ok table inh L (ty # tys) rows \<Longrightarrow> column_heads rows = Some (map hd rows)"
proof (induction rows)
  case (Cons r rows)
  then show ?case by (cases r) auto
qed simp

lemma any_ctor_covers_ok:
  assumes "rows_ok table inh L (ty # tys) rows" "ctor_at (table ty) heads c"
  shows "any_ctor_covers rows c
     = Some (\<exists>r\<in>set rows. hd r \<noteq> Wild \<and> covers (hd r) c = Some True)"
  using assms(1)
proof (induction rows)
  case (Cons r rows)
  then obtain p r' where r: "r = p # r'" "pat_ok table inh L ty p" by (cases r) auto
  with covers_total [OF r(2) assms(2)] obtain b where "covers p c = Some b" by auto
  with Cons r show ?case by (cases b) auto
qed simp

text \<open>One row, specialized: it matches the fields followed by the rest, or does not match.\<close>

lemma specialize_row:
  assumes "row_ok table inh L (ty # tys) (p # r)" "ctor_at (table ty) heads c"
    and "covers p c = Some True" "field_tys (table ty) c = Some fts"
  obtains s where "specialize (p # r) (length fts) = Some s" "row_ok table inh L (fts @ tys) s"
    and "\<And>v vs. val_of table inh ty v \<Longrightarrow> in_ctor lits c v \<Longrightarrow>
           row_matches s (fields_of c v @ vs) \<longleftrightarrow> row_matches (p # r) (v # vs)"
proof -
  from assms(1) have p: "pat_ok table inh L ty p" and r: "row_ok table inh L tys r" by auto
  from specialize_head [OF p assms(2-4), of r lits] obtain s where
    s: "specialize (p # r) (length fts) = Some (s @ r)" "row_ok table inh L fts s"
      "\<And>v. val_of table inh ty v \<Longrightarrow> in_ctor lits c v \<Longrightarrow>
          row_matches s (fields_of c v) \<longleftrightarrow> pat_matches p v"
    unfolding spec_head_def by blast
  have "row_ok table inh L (fts @ tys) (s @ r)" using s(2) r by (rule list_all2_appendI)
  moreover have "row_matches (s @ r) (fields_of c v @ vs) \<longleftrightarrow> row_matches (p # r) (v # vs)"
    if v: "val_of table inh ty v" "in_ctor lits c v" for v vs
  proof -
    have "length s = length (fields_of c v)"
      using s(2) fields_of_length [OF v(1) assms(2) v(2) assms(4)] by (metis list_all2_lengthD)
    then show ?thesis using s(3) [OF v] by (simp add: list_all2_append)
  qed
  ultimately show ?thesis using that s(1) by blast
qed

lemma spec_rows_ok:
  assumes "rows_ok table inh L (ty # tys) rows" "ctor_at (table ty) heads c"
    and "hd ` set rows \<subseteq> set heads" "field_tys (table ty) c = Some fts"
  shows "\<exists>rows'. spec_rows rows c (length fts) = Some rows' \<and> rows_ok table inh L (fts @ tys) rows'
     \<and> (\<forall>v vs. val_of table inh ty v \<longrightarrow> in_ctor (set (column_lits heads [])) c v \<longrightarrow>
          (rows_match rows' (fields_of c v @ vs) \<longleftrightarrow> rows_match rows (v # vs)))"
  using assms(1,3)
proof (induction rows)
  case (Cons r rows)
  then obtain rows' where rows': "spec_rows rows c (length fts) = Some rows'"
      "rows_ok table inh L (fts @ tys) rows'"
      "\<And>v vs. val_of table inh ty v \<Longrightarrow> in_ctor (set (column_lits heads [])) c v \<Longrightarrow>
          rows_match rows' (fields_of c v @ vs) \<longleftrightarrow> rows_match rows (v # vs)" by auto
  from Cons.prems obtain p r' where r: "r = p # r'" "pat_ok table inh L ty p" "p \<in> set heads"
    by (cases r) auto
  from covers_total [OF r(2) assms(2)] obtain b where b: "covers p c = Some b" by auto
  show ?case
  proof (cases b)
    case True
    with b have covered: "covers p c = Some True" by simp
    have ok: "row_ok table inh L (ty # tys) (p # r')" using Cons.prems(1) r(1) by simp
    show ?thesis
    proof (rule specialize_row [OF ok assms(2) covered assms(4),
          of "set (column_lits heads [])"])
      fix s
      assume "specialize (p # r') (length fts) = Some s" "row_ok table inh L (fts @ tys) s"
        and "\<And>v vs. val_of table inh ty v \<Longrightarrow> in_ctor (set (column_lits heads [])) c v \<Longrightarrow>
           row_matches s (fields_of c v @ vs) \<longleftrightarrow> row_matches (p # r') (v # vs)"
      with rows' covered r(1) show ?thesis by simp
    qed
  next
    case False
    with covers_False [OF r(2,3) assms(2)] b rows' r(1) show ?thesis by auto
  qed
qed simp

section \<open>Witnesses are values\<close>

lemma witness_listI:
  assumes "table ty = ListOf elem" "witnesses_of table (replicate n elem) ws (take n vs)"
    and "if rest then n \<le> length vs else n = length vs"
  shows "witness_of table ty (WList ws rest) (VList vs)"
  using assms by (intro witness_of.list) (auto simp: witnesses_of_def)

lemma wrap_ok:
  assumes "ctor_at (table ty) heads c" "field_tys (table ty) c = Some fts"
    and "length fts \<le> length ws"
  shows "\<exists>w. wrap (table ty) c ws = Some (w # drop (length fts) ws)
     \<and> (\<forall>v. val_of table inh ty v \<longrightarrow> in_ctor lits c v \<longrightarrow>
          witnesses_of table fts (take (length fts) ws) (fields_of c v) \<longrightarrow> witness_of table ty w v)"
proof (cases "table ty")
  case Opaque
  have "witness_of table ty (WLit l) v" if "pat_matches (PLit l) v" for l v
    using that by (cases v) (auto intro: witness_of.lit)
  with Opaque assms show ?thesis
    by (auto simp: ctor_at_simps field_tys_def wrap_def arity_def witness_of.wild)
next
  case (Enum variants)
  with assms show ?thesis
    by (auto simp: ctor_at_simps field_tys_def wrap_def arity_def nth_opt_def witnesses_of_def
        intro!: witness_of.variant)
next
  case (Tuple tys)
  with assms show ?thesis
    by (auto simp: ctor_at_simps field_tys_def wrap_def arity_def witnesses_of_def
        intro!: witness_of.tuple)
next
  case (ListOf elem)
  note list = witness_listI [of table ty elem, OF ListOf]
  show ?thesis
  proof (cases "\<exists>n. c = ListFixed n")
    case True
    then obtain n where "c = ListFixed n" by blast
    with ListOf assms list [of n "take n ws" _ False] show ?thesis
      by (auto simp: field_tys_def wrap_def arity_def)
  next
    case False
    with ListOf assms(1) obtain n where "c = ListAtLeast n" by (auto simp: ctor_at_simps)
    with ListOf assms list [of n "take n ws" _ True] show ?thesis
      by (auto simp: field_tys_def wrap_def arity_def)
  qed
qed

lemma wild_witness_ok:
  assumes "ctor_at (table ty) heads c"
  shows "\<exists>w. wild_witness (table ty) c = Some w
     \<and> (\<forall>v. val_of table inh ty v \<longrightarrow> in_ctor lits c v \<longrightarrow> witness_of table ty w v)"
proof -
  obtain fts where fts: "field_tys (table ty) c = Some fts" "arity (table ty) c = Some (length fts)"
    using assms by (rule arity_field_tys)
  from wrap_ok [of table ty heads c fts "replicate (length fts) WWild" inh lits, OF assms fts(1)]
  obtain w where
    w: "wrap (table ty) c (replicate (length fts) WWild) = Some [w]"
      "\<forall>v. val_of table inh ty v \<longrightarrow> in_ctor lits c v \<longrightarrow>
        witnesses_of table fts (replicate (length fts) WWild) (fields_of c v) \<longrightarrow> witness_of table ty w v"
    by auto
  have "witnesses_of table fts (replicate (length fts) WWild) (fields_of c v)"
    if "val_of table inh ty v" "in_ctor lits c v" for v
    using fields_of_length [OF that(1) assms that(2) fts(1)]
    by (auto simp: witnesses_of_def witness_of.wild dest: list_all2_lengthD)
  with w fts show ?thesis by (auto simp: wild_witness_def)
qed

text \<open>Every constructor of the split has a value with any fields of the right types.\<close>

lemma ctor_value:
  assumes "inhabited table inh L" "ctor_at (table ty) heads c" "\<forall>p\<in>set heads. pat_ok table inh L ty p"
    and "field_tys (table ty) c = Some fts" "list_all2 (val_of table inh) fts fs"
  shows "\<exists>v. val_of table inh ty v \<and> in_ctor (set (column_lits heads [])) c v \<and> fields_of c v = fs"
proof (cases "table ty")
  case Opaque
  have lits: "l \<in> L \<and> inh ty (VLit l)" if "l \<in> set (column_lits heads [])" for l
    using that column_lits_sound [of heads "[]"] assms(3) by force
  from assms(1) Opaque obtain v where "inh ty v" "\<forall>l\<in>L. \<not> pat_matches (PLit l) v"
    by (auto simp: inhabited_def)
  then have v: "val_of table inh ty v" "in_ctor (set (column_lits heads [])) Other v"
    using lits Opaque by (auto intro: val_of.opaque)
  have l: "val_of table inh ty (VLit l)" if "l \<in> set (column_lits heads [])" for l
    using lits [OF that] Opaque by (auto intro: val_of.opaque)
  have "fs = []" using Opaque assms(2,4,5) by (auto simp: ctor_at_simps field_tys_def)
  moreover have "c = Other \<or> (\<exists>l\<in>set (column_lits heads []). c = CLit l)"
    using Opaque assms(2) by (auto simp: ctor_at_simps)
  ultimately show ?thesis using v l by fastforce
next
  case (Enum variants)
  with assms(2,4,5) obtain i where "i < length variants" "c = CVariant i"
      "fts = variant_fields (variants ! i)"
    by (auto simp: ctor_at_simps field_tys_def nth_opt_def)
  with Enum assms(5) show ?thesis by (intro exI [of _ "VVariant i fs"]) (auto intro: val_of.variant)
next
  case (Tuple tys)
  with assms(2,4,5) show ?thesis
    by (intro exI [of _ "VTuple fs"]) (auto simp: ctor_at_simps field_tys_def intro: val_of.tuple)
next
  case (ListOf elem)
  with assms(2,4) obtain n where n: "fts = replicate n elem" "c = ListFixed n \<or> c = ListAtLeast n"
    by (auto simp: ctor_at_simps field_tys_def)
  with assms(5) have "length fs = n" "\<forall>v\<in>set fs. val_of table inh elem v"
    by (auto simp: list_all2_conv_all_nth in_set_conv_nth)
  with n ListOf show ?thesis by (intro exI [of _ "VList fs"]) (auto intro: val_of.list)
qed

lemma inhabited_list: "inhabited table inh L \<Longrightarrow> \<exists>fs. list_all2 (val_of table inh) fts fs"
proof (induction fts)
  case (Cons t fts)
  then obtain fs where "list_all2 (val_of table inh) fts fs" by blast
  moreover from Cons.prems obtain v where "val_of table inh t v" unfolding inhabited_def by blast
  ultimately have "list_all2 (val_of table inh) (t # fts) (v # fs)" by simp
  then show ?case by blast
qed (auto intro: exI [of _ "[]"])

section \<open>What usefulness decides\<close>

text \<open>
  \<open>genuine\<close>: an example that stands for well-typed values matching \<open>q\<close> and no row.
  \<open>all_covered\<close>: there are no such values.
\<close>

definition genuine ::
    "('ty \<Rightarrow> 'ty ty_shape) \<Rightarrow> ('ty \<Rightarrow> val \<Rightarrow> bool) \<Rightarrow> 'ty list \<Rightarrow> row list \<Rightarrow> row \<Rightarrow> witness list \<Rightarrow> bool" where
  "genuine table inh tys rows q ws \<longleftrightarrow>
     (\<exists>vs. list_all2 (val_of table inh) tys vs \<and> row_matches q vs \<and> \<not> rows_match rows vs
        \<and> witnesses_of table tys ws vs)"

definition all_covered ::
    "('ty \<Rightarrow> 'ty ty_shape) \<Rightarrow> ('ty \<Rightarrow> val \<Rightarrow> bool) \<Rightarrow> 'ty list \<Rightarrow> row list \<Rightarrow> row \<Rightarrow> bool" where
  "all_covered table inh tys rows q \<longleftrightarrow>
     (\<forall>vs. list_all2 (val_of table inh) tys vs \<longrightarrow> row_matches q vs \<longrightarrow> rows_match rows vs)"

definition useful_good ::
    "('ty \<Rightarrow> 'ty ty_shape) \<Rightarrow> ('ty \<Rightarrow> val \<Rightarrow> bool) \<Rightarrow> lit set \<Rightarrow> 'ty list \<Rightarrow> row list \<Rightarrow> row \<Rightarrow> nat \<Rightarrow>
     witness list list option \<Rightarrow> bool" where
  "useful_good table inh L tys rows q limit res \<longleftrightarrow>
     (\<exists>out. res = Some out \<and> length out \<le> limit \<and> (\<forall>ws\<in>set out. length ws = length tys)
        \<and> (out = [] \<longrightarrow> all_covered table inh tys rows q)
        \<and> (inhabited table inh L \<longrightarrow> (\<forall>ws\<in>set out. genuine table inh tys rows q ws)))"

lemma map_opt_Some:
  "(\<And>x. x \<in> set xs \<Longrightarrow> \<exists>y. f x = Some y \<and> P x y) \<Longrightarrow>
   \<exists>ys. map_opt f xs = Some ys \<and> list_all2 P xs ys"
proof (induction xs)
  case (Cons x xs)
  then obtain y ys where "f x = Some y" "P x y" "map_opt f xs = Some ys" "list_all2 P xs ys"
    by (metis list.set_intros)
  then show ?case by auto
qed simp

text \<open>The column of a well-typed matrix, with a constructor of its split.\<close>

definition column_at ::
    "('ty \<Rightarrow> 'ty ty_shape) \<Rightarrow> ('ty \<Rightarrow> val \<Rightarrow> bool) \<Rightarrow> lit set \<Rightarrow> 'ty \<Rightarrow> 'ty list \<Rightarrow> row list \<Rightarrow> row \<Rightarrow>
     pat list \<Rightarrow> bool" where
  "column_at table inh L ty tys rows q heads \<longleftrightarrow>
     rows_ok table inh L (ty # tys) rows \<and> row_ok table inh L (ty # tys) q
     \<and> heads = map hd rows @ [hd q]"

lemma column_at_heads:
  assumes "column_at table inh L ty tys rows q heads"
  shows "hd ` set rows \<subseteq> set heads" "hd q \<in> set heads" "\<forall>p\<in>set heads. pat_ok table inh L ty p"
proof -
  have "pat_ok table inh L ty (hd r)" if "row_ok table inh L (ty # tys) r" for r
    using that by (cases r) auto
  then show "\<forall>p\<in>set heads. pat_ok table inh L ty p"
    using assms by (auto simp: column_at_def)
qed (use assms in \<open>auto simp: column_at_def\<close>)

text \<open>What is known of the values of one constructor.\<close>

definition ctor_covered ::
    "('ty \<Rightarrow> 'ty ty_shape) \<Rightarrow> ('ty \<Rightarrow> val \<Rightarrow> bool) \<Rightarrow> 'ty \<Rightarrow> 'ty list \<Rightarrow> row list \<Rightarrow> row \<Rightarrow> lit set \<Rightarrow>
     ctor \<Rightarrow> bool" where
  "ctor_covered table inh ty tys rows q lits c \<longleftrightarrow>
     (\<forall>v vs. val_of table inh ty v \<longrightarrow> in_ctor lits c v \<longrightarrow> list_all2 (val_of table inh) tys vs \<longrightarrow>
        row_matches q (v # vs) \<longrightarrow> rows_match rows (v # vs))"

lemma spec_matches:
  assumes col: "column_at table inh L ty tys rows (head # q) heads"
    and c: "ctor_at (table ty) heads c" "covers head c = Some True"
    and fts: "field_tys (table ty) c = Some fts"
    and rows': "spec_rows rows c (length fts) = Some rows'"
    and q': "specialize (head # q) (length fts) = Some q'"
    and v: "val_of table inh ty v" "in_ctor (set (column_lits heads [])) c v"
  shows "rows_match rows' (fields_of c v @ vs) \<longleftrightarrow> rows_match rows (v # vs)"
    and "row_matches q' (fields_of c v @ vs) \<longleftrightarrow> row_matches (head # q) (v # vs)"
proof -
  from col have ok: "rows_ok table inh L (ty # tys) rows" "row_ok table inh L (ty # tys) (head # q)"
    by (auto simp: column_at_def)
  show "rows_match rows' (fields_of c v @ vs) \<longleftrightarrow> rows_match rows (v # vs)"
    using spec_rows_ok [OF ok(1) c(1) column_at_heads(1) [OF col] fts] rows' v by auto
  show "row_matches q' (fields_of c v @ vs) \<longleftrightarrow> row_matches (head # q) (v # vs)"
  proof (rule specialize_row [OF ok(2) c fts, of "set (column_lits heads [])"])
    fix s
    assume "specialize (head # q) (length fts) = Some s"
      and "\<And>v vs. val_of table inh ty v \<Longrightarrow> in_ctor (set (column_lits heads [])) c v \<Longrightarrow>
        row_matches s (fields_of c v @ vs) \<longleftrightarrow> row_matches (head # q) (v # vs)"
    with q' v show ?thesis by simp
  qed
qed

text \<open>\<open>wraps\<close>: how a witness of the specialized columns becomes one of the column.\<close>

definition wraps ::
    "('ty \<Rightarrow> 'ty ty_shape) \<Rightarrow> ('ty \<Rightarrow> val \<Rightarrow> bool) \<Rightarrow> 'ty \<Rightarrow> lit set \<Rightarrow> ctor \<Rightarrow> 'ty list \<Rightarrow>
     witness list \<Rightarrow> witness list \<Rightarrow> bool" where
  "wraps table inh ty lits c fts ws ws' \<longleftrightarrow>
     (\<exists>w. ws' = w # drop (length fts) ws \<and> (\<forall>v. val_of table inh ty v \<longrightarrow> in_ctor lits c v \<longrightarrow>
        witnesses_of table fts (take (length fts) ws) (fields_of c v) \<longrightarrow> witness_of table ty w v))"

lemma witnesses_of_Cons [simp]:
  "witnesses_of table (t # ts) (w # ws) (v # vs) \<longleftrightarrow>
     witness_of table t w v \<and> witnesses_of table ts ws vs"
  by (auto simp: witnesses_of_def nth_Cons split: nat.splits)

lemma witnesses_of_appendD:
  assumes "witnesses_of table (ts @ us) ws (vs @ xs)" "length vs = length ts"
  shows "witnesses_of table ts (take (length ts) ws) vs" "witnesses_of table us (drop (length ts) ws) xs"
proof -
  have w: "witness_of table ((ts @ us) ! k) (ws ! k) ((vs @ xs) ! k)" if "k < length (ts @ us)" for k
    using assms that unfolding witnesses_of_def by blast
  have l: "length ws = length ts + length us" "length xs = length us"
    using assms by (auto simp: witnesses_of_def)
  have "witness_of table (ts ! k) (ws ! k) (vs ! k)" if "k < length ts" for k
    using w [of k] that assms(2) by (simp add: nth_append)
  then show "witnesses_of table ts (take (length ts) ws) vs"
    using assms(2) l by (auto simp: witnesses_of_def)
  have "witness_of table (us ! k) (ws ! (length ts + k)) (xs ! k)" if "k < length us" for k
    using w [of "length ts + k"] that assms(2) by (simp add: nth_append)
  then show "witnesses_of table us (drop (length ts) ws) xs"
    using l by (auto simp: witnesses_of_def)
qed

lemma genuine_wrap:
  assumes col: "column_at table inh L ty tys rows (head # q) heads"
    and c: "ctor_at (table ty) heads c" "covers head c = Some True"
    and fts: "field_tys (table ty) c = Some fts"
    and rows': "spec_rows rows c (length fts) = Some rows'"
    and q': "specialize (head # q) (length fts) = Some q'"
    and "inhabited table inh L" "genuine table inh (fts @ tys) rows' q' ws"
    and "wraps table inh ty (set (column_lits heads [])) c fts ws ws'"
  shows "genuine table inh (ty # tys) rows (head # q) ws'"
proof -
  from assms(8) obtain us where us: "list_all2 (val_of table inh) (fts @ tys) us"
      "row_matches q' us" "\<not> rows_match rows' us" "witnesses_of table (fts @ tys) ws us"
    unfolding genuine_def by blast
  from us(1) obtain fs vs where fs: "us = fs @ vs" "list_all2 (val_of table inh) fts fs"
      "list_all2 (val_of table inh) tys vs" by (auto simp: list_all2_append1)
  from ctor_value [OF assms(7) c(1) column_at_heads(3) [OF col] fts fs(2)] obtain v where
    v: "val_of table inh ty v" "in_ctor (set (column_lits heads [])) c v" and f: "fields_of c v = fs"
    by blast
  note m = spec_matches [OF col c fts rows' q' v, of vs]
  have len: "length fs = length fts" using fs(2) by (simp add: list_all2_lengthD)
  note ws = witnesses_of_appendD [OF us(4) [unfolded fs(1)] len]
  from assms(9) obtain w where w: "ws' = w # drop (length fts) ws" "witness_of table ty w v"
    using v ws(1) unfolding wraps_def f [symmetric] by blast
  have "witnesses_of table (ty # tys) ws' (v # vs)" using w ws(2) by simp
  moreover have "list_all2 (val_of table inh) (ty # tys) (v # vs)" using v(1) fs(3) by simp
  ultimately show ?thesis
    using m us(2,3) unfolding genuine_def f fs(1) by blast
qed

lemma spec_ctor_good:
  assumes col: "column_at table inh L ty tys rows (head # q) heads"
    and c: "ctor_at (table ty) heads c" "covers head c = Some True"
    and fts: "field_tys (table ty) c = Some fts"
    and rows': "spec_rows rows c (length fts) = Some rows'"
    and q': "specialize (head # q) (length fts) = Some q'"
    and good: "useful_good table inh L (fts @ tys) rows' q' limit res"
  shows "\<exists>wss new. res = Some wss \<and> map_opt (wrap (table ty) c) wss = Some new \<and> length new \<le> limit
     \<and> (\<forall>ws\<in>set new. length ws = length (ty # tys))
     \<and> (new = [] \<longrightarrow> ctor_covered table inh ty tys rows (head # q) (set (column_lits heads [])) c)
     \<and> (inhabited table inh L \<longrightarrow> (\<forall>ws\<in>set new. genuine table inh (ty # tys) rows (head # q) ws))"
proof -
  let ?lits = "set (column_lits heads [])"
  from good obtain wss where wss: "res = Some wss" "length wss \<le> limit"
      "\<forall>ws\<in>set wss. length ws = length (fts @ tys)"
      "wss = [] \<longrightarrow> all_covered table inh (fts @ tys) rows' q'"
      "inhabited table inh L \<longrightarrow> (\<forall>ws\<in>set wss. genuine table inh (fts @ tys) rows' q' ws)"
    unfolding useful_good_def by blast
  have "\<exists>ws'. wrap (table ty) c ws = Some ws' \<and> wraps table inh ty ?lits c fts ws ws'"
    if "ws \<in> set wss" for ws
    using wrap_ok [of table ty heads c fts ws inh ?lits, OF c(1) fts] wss(3) that
    by (auto simp: wraps_def)
  with map_opt_Some [of wss "wrap (table ty) c" "wraps table inh ty ?lits c fts"] obtain new where
    new: "map_opt (wrap (table ty) c) wss = Some new"
      "list_all2 (wraps table inh ty ?lits c fts) wss new" by blast
  have old: "\<exists>ws\<in>set wss. wraps table inh ty ?lits c fts ws ws'" if "ws' \<in> set new" for ws'
    by (rule list_all2_right [OF new(2) that])
  have "length ws' = length (ty # tys)" if "ws' \<in> set new" for ws'
    using old [OF that] wss(3) by (auto simp: wraps_def)
  moreover have "ctor_covered table inh ty tys rows (head # q) ?lits c" if "new = []"
    unfolding ctor_covered_def
  proof (intro allI impI)
    fix v vs
    assume v: "val_of table inh ty v" "in_ctor ?lits c v" "list_all2 (val_of table inh) tys vs"
      and m: "row_matches (head # q) (v # vs)"
    note sm = spec_matches [OF col c fts rows' q' v(1,2), of vs]
    have "list_all2 (val_of table inh) (fts @ tys) (fields_of c v @ vs)"
      using fields_of_length [OF v(1) c(1) v(2) fts] v(3) by (rule list_all2_appendI)
    with that new(2) wss(4) sm m show "rows_match rows (v # vs)"
      unfolding all_covered_def by auto
  qed
  moreover have "genuine table inh (ty # tys) rows (head # q) ws'"
    if "inhabited table inh L" "ws' \<in> set new" for ws'
    using old [OF that(2)] genuine_wrap [OF col c fts rows' q' that(1)] wss(5) that(1) by blast
  moreover have "length new \<le> limit" using new(2) wss(2) by (simp add: list_all2_lengthD)
  ultimately show ?thesis using wss(1) new(1) by blast
qed

text \<open>The default matrix, which stands for every constructor that no pattern of the column names.\<close>

definition uncovered :: "'ty ty_shape \<Rightarrow> pat list \<Rightarrow> row list \<Rightarrow> ctor \<Rightarrow> bool" where
  "uncovered shape heads rows c \<longleftrightarrow>
     ctor_at shape heads c \<and> \<not> (\<exists>r\<in>set rows. hd r \<noteq> Wild \<and> covers (hd r) c = Some True)"

lemma default_rows_ok:
  "rows_ok table inh L (ty # tys) rows \<Longrightarrow> rows_ok table inh L tys (default_rows rows)"
  by (auto simp: default_rows_def list_all2_Cons1)

lemma default_rows_match:
  assumes col: "column_at table inh L ty tys rows q heads" and c: "uncovered (table ty) heads rows c"
    and v: "in_ctor (set (column_lits heads [])) c v"
  shows "rows_match rows (v # vs) \<longleftrightarrow> rows_match (default_rows rows) vs"
proof
  assume "rows_match rows (v # vs)"
  then obtain p r where r: "p # r \<in> set rows" "pat_matches p v" "row_matches r vs"
    by (auto simp: list_all2_Cons2)
  then have p: "p \<in> set heads" "pat_ok table inh L ty p"
    using column_at_heads [OF col] by force+
  from c have ca: "ctor_at (table ty) heads c" by (simp add: uncovered_def)
  with covers_total [OF p(2)] obtain b where "covers p c = Some b" by blast
  with covers_False [OF p(2,1) ca v] r c have "p = Wild"
    by (cases b) (force simp: uncovered_def)+
  with r show "rows_match (default_rows rows) vs" by (force simp: default_rows_def)
next
  assume "rows_match (default_rows rows) vs"
  then obtain r where r: "r \<in> set rows" "hd r = Wild" "row_matches (tl r) vs"
    by (auto simp: default_rows_def)
  from r(1) col have "r \<noteq> []" unfolding column_at_def by fastforce
  with r(2) have "r = Wild # tl r" by (metis list.collapse)
  with r(3) have "row_matches r (v # vs)" by (metis list_all2_Cons pat_matches.simps(1))
  with r show "rows_match rows (v # vs)" by blast
qed

lemma default_witnesses_ok:
  assumes "\<forall>c\<in>set miss. ctor_at (table ty) heads c" "miss \<noteq> []"
  shows "\<exists>more. default_witnesses (table ty) b miss wss = Some more \<and> (more = [] \<longrightarrow> wss = [])
     \<and> (\<forall>ws'\<in>set more. \<exists>ws\<in>set wss. \<exists>w. \<exists>c\<in>set miss. ws' = w # ws
          \<and> (\<forall>v. val_of table inh ty v \<longrightarrow> in_ctor lits c v \<longrightarrow> witness_of table ty w v))"
proof (cases b)
  case False
  with assms(2) show ?thesis
    by (auto simp: default_witnesses_def witness_of.wild neq_Nil_conv)
next
  case True
  let ?P = "\<lambda>c w. \<forall>v. val_of table inh ty v \<longrightarrow> in_ctor lits c v \<longrightarrow> witness_of table ty w v"
  let ?f = "\<lambda>ws c. map_option (\<lambda>w. w # ws) (wild_witness (table ty) c)"
  have "\<exists>wss'. map_opt (?f ws) miss = Some wss' \<and> list_all2 (\<lambda>c ws'. \<exists>w. ws' = w # ws \<and> ?P c w) miss wss'"
    for ws
    by (rule map_opt_Some) (use wild_witness_ok assms(1) in fastforce)
  then have "\<exists>more. map_opt (\<lambda>ws. map_opt (?f ws) miss) wss = Some more
      \<and> list_all2 (\<lambda>ws wss'. list_all2 (\<lambda>c ws'. \<exists>w. ws' = w # ws \<and> ?P c w) miss wss') wss more"
    by (rule map_opt_Some)
  then obtain more where more: "map_opt (\<lambda>ws. map_opt (?f ws) miss) wss = Some more"
    and rel: "list_all2 (\<lambda>ws wss'. list_all2 (\<lambda>c ws'. \<exists>w. ws' = w # ws \<and> ?P c w) miss wss') wss more"
    by blast
  have "\<exists>ws\<in>set wss. \<exists>w. \<exists>c\<in>set miss. ws' = w # ws \<and> ?P c w" if ws': "ws' \<in> set (concat more)" for ws'
  proof -
    from ws' obtain wss' where w: "wss' \<in> set more" "ws' \<in> set wss'" by auto
    obtain ws where ws: "ws \<in> set wss"
      "list_all2 (\<lambda>c ws'. \<exists>w. ws' = w # ws \<and> ?P c w) miss wss'"
      using list_all2_right [OF rel w(1)] by blast
    from list_all2_right [OF ws(2) w(2)] ws(1) show ?thesis by blast
  qed
  moreover have "wss = []" if "concat more = []"
    using that rel assms(2) by (cases wss; cases more) (auto dest: list_all2_lengthD)
  ultimately show ?thesis
    using True more by (auto simp: default_witnesses_def)
qed

lemma default_good:
  assumes col: "column_at table inh L ty tys rows (Wild # q) heads"
    and miss: "\<forall>c\<in>set miss. uncovered (table ty) heads rows c" "miss \<noteq> []"
    and good: "useful_good table inh L tys (default_rows rows) q limit res"
  shows "\<exists>wss more. res = Some wss \<and> default_witnesses (table ty) b miss wss = Some more
     \<and> (\<forall>ws\<in>set more. length ws = length (ty # tys))
     \<and> (more = [] \<longrightarrow> (\<forall>c\<in>set miss.
          ctor_covered table inh ty tys rows (Wild # q) (set (column_lits heads [])) c))
     \<and> (inhabited table inh L \<longrightarrow> (\<forall>ws\<in>set more. genuine table inh (ty # tys) rows (Wild # q) ws))"
proof -
  let ?lits = "set (column_lits heads [])"
  from good obtain wss where wss: "res = Some wss"
      "\<forall>ws\<in>set wss. length ws = length tys"
      "wss = [] \<longrightarrow> all_covered table inh tys (default_rows rows) q"
      "inhabited table inh L \<longrightarrow> (\<forall>ws\<in>set wss. genuine table inh tys (default_rows rows) q ws)"
    unfolding useful_good_def by blast
  have at: "\<forall>c\<in>set miss. ctor_at (table ty) heads c" using miss(1) by (simp add: uncovered_def)
  obtain more where more: "default_witnesses (table ty) b miss wss = Some more" "more = [] \<longrightarrow> wss = []"
    and w: "\<forall>ws'\<in>set more. \<exists>ws\<in>set wss. \<exists>w. \<exists>c\<in>set miss. ws' = w # ws
      \<and> (\<forall>v. val_of table inh ty v \<longrightarrow> in_ctor ?lits c v \<longrightarrow> witness_of table ty w v)"
    using default_witnesses_ok [of miss table ty heads b wss inh ?lits, OF at miss(2)] by blast
  have "length ws = length (ty # tys)" if "ws \<in> set more" for ws
    using w wss(2) that by fastforce
  moreover have "ctor_covered table inh ty tys rows (Wild # q) ?lits c"
    if "more = []" "c \<in> set miss" for c
    using that more(2) wss(3) default_rows_match [OF col] miss(1)
    unfolding ctor_covered_def all_covered_def by (metis list_all2_Cons)
  moreover have "genuine table inh (ty # tys) rows (Wild # q) ws'"
    if inh: "inhabited table inh L" and ws': "ws' \<in> set more" for ws'
  proof -
    from w ws' obtain ws w c where ws: "ws \<in> set wss" "ws' = w # ws" and c: "c \<in> set miss"
      and wv: "\<And>v. val_of table inh ty v \<Longrightarrow> in_ctor ?lits c v \<Longrightarrow> witness_of table ty w v" by blast
    from wss(4) inh ws(1) obtain vs where vs: "list_all2 (val_of table inh) tys vs"
      "row_matches q vs" "\<not> rows_match (default_rows rows) vs" "witnesses_of table tys ws vs"
      unfolding genuine_def by blast
    obtain fts where fts: "field_tys (table ty) c = Some fts"
      using arity_field_tys at c by metis
    obtain fs where "list_all2 (val_of table inh) fts fs" using inhabited_list [OF inh] by blast
    from ctor_value [OF inh _ column_at_heads(3) [OF col] fts this] at c obtain v where
      v: "val_of table inh ty v" "in_ctor ?lits c v" by blast
    have "\<not> rows_match rows (v # vs)"
      using default_rows_match [OF col _ v(2)] miss(1) c vs(3) by blast
    moreover have "witnesses_of table (ty # tys) ws' (v # vs)" using ws(2) wv [OF v] vs(4) by simp
    moreover have "list_all2 (val_of table inh) (ty # tys) (v # vs)" using v(1) vs(1) by simp
    moreover have "row_matches (Wild # q) (v # vs)" using vs(2) by simp
    ultimately show ?thesis unfolding genuine_def by blast
  qed
  ultimately show ?thesis using wss(1) more(1) by blast
qed

section \<open>The loop over the constructors\<close>

definition ctors_good ::
    "('ty \<Rightarrow> 'ty ty_shape) \<Rightarrow> ('ty \<Rightarrow> val \<Rightarrow> bool) \<Rightarrow> lit set \<Rightarrow> 'ty \<Rightarrow> 'ty list \<Rightarrow> row list \<Rightarrow> row \<Rightarrow>
     pat list \<Rightarrow> ctor list \<Rightarrow> witness list list \<Rightarrow> ctor list \<Rightarrow>
     (witness list list \<times> ctor list) option \<Rightarrow> bool" where
  "ctors_good table inh L ty tys rows q heads cs out miss res \<longleftrightarrow>
     (\<exists>new mnew. res = Some (out @ new, miss @ mnew)
        \<and> (\<forall>ws\<in>set new. length ws = length (ty # tys))
        \<and> (\<forall>c\<in>set mnew. hd q = Wild \<and> uncovered (table ty) heads rows c)
        \<and> (out @ new = [] \<longrightarrow> (\<forall>c\<in>set cs. c \<in> set mnew
             \<or> ctor_covered table inh ty tys rows q (set (column_lits heads [])) c))
        \<and> (inhabited table inh L \<longrightarrow> (\<forall>ws\<in>set new. genuine table inh (ty # tys) rows q ws)))"

lemma ctors_good_extend:
  assumes "ctors_good table inh L ty tys rows q heads cs (out @ new) (miss @ mnew) res"
    and "\<forall>ws\<in>set new. length ws = length (ty # tys)"
    and "\<forall>c\<in>set mnew. hd q = Wild \<and> uncovered (table ty) heads rows c"
    and "out @ new = [] \<Longrightarrow> c \<in> set mnew
      \<or> ctor_covered table inh ty tys rows q (set (column_lits heads [])) c"
    and "inhabited table inh L \<longrightarrow> (\<forall>ws\<in>set new. genuine table inh (ty # tys) rows q ws)"
  shows "ctors_good table inh L ty tys rows q heads (c # cs) out miss res"
proof -
  from assms(1) obtain new' mnew' where n: "res = Some (out @ new @ new', miss @ mnew @ mnew')"
      "\<forall>ws\<in>set new'. length ws = length (ty # tys)"
      "\<forall>c\<in>set mnew'. hd q = Wild \<and> uncovered (table ty) heads rows c"
      "out @ new @ new' = [] \<longrightarrow> (\<forall>c\<in>set cs. c \<in> set mnew'
         \<or> ctor_covered table inh ty tys rows q (set (column_lits heads [])) c)"
      "inhabited table inh L \<longrightarrow> (\<forall>ws\<in>set new'. genuine table inh (ty # tys) rows q ws)"
    unfolding ctors_good_def by auto
  show ?thesis unfolding ctors_good_def
  proof (rule exI [of _ "new @ new'"], rule exI [of _ "mnew @ mnew'"], intro conjI)
    show "out @ new @ new' = [] \<longrightarrow> (\<forall>d\<in>set (c # cs). d \<in> set (mnew @ mnew')
        \<or> ctor_covered table inh ty tys rows q (set (column_lits heads [])) d)"
      using n(4) assms(4) by auto
  qed (use n assms in auto)
qed

lemma useful_ctors_good:
  assumes col: "column_at table inh L ty tys rows (head # q) heads" and limit: "0 < limit"
    and IH: "\<And>rows' q' tys' limit'. rows_size rows' + row_size q' < rows_size rows + row_size (head # q) \<Longrightarrow>
        rows_ok table inh L tys' rows' \<Longrightarrow> row_ok table inh L tys' q' \<Longrightarrow> 0 < limit' \<Longrightarrow>
        useful_good table inh L tys' rows' q' limit' (useful table rows' q' tys' limit')"
    and "\<forall>c\<in>set cs. ctor_at (table ty) heads c"
  shows "ctors_good table inh L ty tys rows (head # q) heads cs out miss
     (useful_ctors table rows (head # q) (ty # tys) limit cs out miss)"
  using assms(4)
proof (induction cs arbitrary: out miss)
  case Nil
  then show ?case by (simp add: ctors_good_def)
next
  case (Cons c cs)
  from Cons.prems have c: "ctor_at (table ty) heads c" by simp
  note loop = Cons.IH [OF list.set_intros(2) [THEN Cons.prems [THEN bspec], THEN ballI]]
  from col have ok: "rows_ok table inh L (ty # tys) rows" "row_ok table inh L (ty # tys) (head # q)"
    by (auto simp: column_at_def)
  then have head: "pat_ok table inh L ty head" by simp
  from covers_total [OF head c] obtain b where b: "covers head c = Some b" by auto
  note any = any_ctor_covers_ok [OF ok(1) c]
  obtain fts where fts: "field_tys (table ty) c = Some fts" "arity (table ty) c = Some (length fts)"
    using c by (rule arity_field_tys)
  show ?case
  proof (cases "limit \<le> length out")
    case True
    with limit show ?thesis by (auto simp: ctors_good_def)
  next
    case False
    consider (skip) "\<not> b" | (missing) "b" "head = Wild" "any_ctor_covers rows c = Some False"
      | (spec) "b" "(if head = Wild then any_ctor_covers rows c else Some True) = Some True"
      using any by (cases b; cases "head = Wild"; cases "any_ctor_covers rows c") auto
    then show ?thesis
    proof cases
      case skip
      have "\<not> pat_matches head v" if "in_ctor (set (column_lits heads [])) c v" for v
        using covers_False [OF head _ c that] column_at_heads(2) [OF col] b skip by simp
      then have "ctor_covered table inh ty tys rows (head # q) (set (column_lits heads [])) c"
        by (simp add: ctor_covered_def)
      with loop [of out miss] skip False b show ?thesis
        by (simp add: ctors_good_extend [of _ _ _ _ _ _ _ _ _ _ "[]" _ "[]"])
    next
      case missing
      with any c have "uncovered (table ty) heads rows c" by (simp add: uncovered_def)
      with loop [of out "miss @ [c]"] missing False b show ?thesis
        by (simp add: ctors_good_extend [of _ _ _ _ _ _ _ _ _ _ "[]" _ "[c]"])
    next
      case spec
      with b have bT: "covers head c = Some True" by simp
      obtain rows' where rows': "spec_rows rows c (length fts) = Some rows'"
        "rows_ok table inh L (fts @ tys) rows'"
        using spec_rows_ok [OF ok(1) c column_at_heads(1) [OF col] fts(1)] by blast
      obtain q' where q': "specialize (head # q) (length fts) = Some q'"
        "row_ok table inh L (fts @ tys) q'"
        using specialize_row [OF ok(2) c bT fts(1)] by metis
      have "useful_good table inh L (fts @ tys) rows' q' (limit - length out)
          (useful table rows' q' (fts @ tys) (limit - length out))"
        using IH [OF useful_spec_decreases [OF rows'(1) q'(1) spec(2)] rows'(2) q'(2)] False by simp
      from spec_ctor_good [OF col c bT fts(1) rows'(1) q'(1) this] obtain wss new where
        wss: "useful table rows' q' (fts @ tys) (limit - length out) = Some wss"
          "map_opt (wrap (table ty) c) wss = Some new"
        and new: "\<forall>ws\<in>set new. length ws = length (ty # tys)"
          "new = [] \<longrightarrow> ctor_covered table inh ty tys rows (head # q) (set (column_lits heads [])) c"
          "inhabited table inh L \<longrightarrow> (\<forall>ws\<in>set new. genuine table inh (ty # tys) rows (head # q) ws)"
        by blast
      have step: "useful_ctors table rows (head # q) (ty # tys) limit (c # cs) out miss
          = useful_ctors table rows (head # q) (ty # tys) limit cs (out @ new) miss"
        using spec False bT rows'(1) q'(1) wss fts by simp
      show ?thesis unfolding step
        by (rule ctors_good_extend [of _ _ _ _ _ _ _ _ _ _ new _ "[]"])
          (use loop [of "out @ new" miss] new in auto)
    qed
  qed
qed

lemma ctors_good_start:
  assumes "ctors_good table inh L ty tys rows (head # q) heads cs [] [] res"
  obtains out miss where "res = Some (out, miss)"
    "\<forall>ws\<in>set out. length ws = length (ty # tys)"
    "inhabited table inh L \<longrightarrow> (\<forall>ws\<in>set out. genuine table inh (ty # tys) rows (head # q) ws)"
    "\<forall>c\<in>set miss. head = Wild \<and> uncovered (table ty) heads rows c"
    "out = [] \<longrightarrow> (\<forall>c\<in>set cs. c \<in> set miss
       \<or> ctor_covered table inh ty tys rows (head # q) (set (column_lits heads [])) c)"
  using assms unfolding ctors_good_def append_Nil list.sel by blast

lemma take_good:
  assumes "0 < limit" "\<forall>ws\<in>set out. length ws = length tys"
    and "out = [] \<Longrightarrow> all_covered table inh tys rows q"
    and "inhabited table inh L \<Longrightarrow> \<forall>ws\<in>set out. genuine table inh tys rows q ws"
  shows "useful_good table inh L tys rows q limit (Some (take limit out))"
  using assms by (auto simp: useful_good_def dest: in_set_takeD)

lemma all_covered_Cons:
  assumes "\<And>c. ctor_at (table ty) heads c \<Longrightarrow>
     ctor_covered table inh ty tys rows q (set (column_lits heads [])) c"
  shows "all_covered table inh (ty # tys) rows q"
  using assms split_ctors_total [of table inh ty _ heads]
  unfolding all_covered_def ctor_covered_def by (metis list_all2_Cons1)

lemma useful_good_all:
  assumes "rows_ok table inh L tys rows" "row_ok table inh L tys q" "0 < limit"
  shows "useful_good table inh L tys rows q limit (useful table rows q tys limit)"
  using assms
proof (induction "(rows_size rows + row_size q, length q)" arbitrary: rows q tys limit
    rule: wf_induct_rule [OF wf_lex_prod [OF wf_less_than wf_less_than]])
  case 1
  show ?case
  proof (cases q)
    case Nil
    with 1(2-4) show ?thesis
      by (cases rows)
        (auto simp: useful_good_def all_covered_def genuine_def witnesses_of_def)
  next
    case q: (Cons head q_rest)
    with 1(3) obtain ty tys' where tys: "tys = ty # tys'" by (cases tys) auto
    define heads where "heads = map hd rows @ [head]"
    have col: "column_at table inh L ty tys' rows (head # q_rest) heads"
      using 1(2,3) q tys by (simp add: column_at_def heads_def)
    have at: "\<forall>c\<in>set (split_ctors (table ty) heads). ctor_at (table ty) heads c"
      by (simp add: ctor_at_def)
    have IH: "useful_good table inh L tys'' rows' q' limit' (useful table rows' q' tys'' limit')"
      if "rows_size rows' + row_size q' < rows_size rows + row_size (head # q_rest)"
        "rows_ok table inh L tys'' rows'" "row_ok table inh L tys'' q'" "0 < limit'"
      for rows' q' tys'' limit'
      using 1(1) [OF _ that(2-4)] that(1) q by simp
    have cg: "ctors_good table inh L ty tys' rows (head # q_rest) heads (split_ctors (table ty) heads) [] []
        (useful_ctors table rows (head # q_rest) (ty # tys') limit (split_ctors (table ty) heads) [] [])"
      using col 1(4) IH at by (rule useful_ctors_good)
    obtain out miss where
      loop: "useful_ctors table rows (head # q_rest) (ty # tys') limit (split_ctors (table ty) heads) [] []
          = Some (out, miss)"
      and out: "\<forall>ws\<in>set out. length ws = length (ty # tys')"
        "inhabited table inh L \<longrightarrow> (\<forall>ws\<in>set out. genuine table inh (ty # tys') rows (head # q_rest) ws)"
      and miss: "\<forall>c\<in>set miss. head = Wild \<and> uncovered (table ty) heads rows c"
      and covered: "out = [] \<longrightarrow> (\<forall>c\<in>set (split_ctors (table ty) heads). c \<in> set miss
          \<or> ctor_covered table inh ty tys' rows (head # q_rest) (set (column_lits heads [])) c)"
      by (rule ctors_good_start [of table inh L ty tys' rows head q_rest heads, OF cg]) (rule that)
    have heads: "column_heads rows = Some (map hd rows)"
      by (rule column_heads_ok [of rows table inh L ty tys']) (use 1(2) tys in simp)
    show ?thesis
    proof (cases "miss \<noteq> [] \<and> length out < limit")
      case False
      have "all_covered table inh (ty # tys') rows (head # q_rest)" if "out = []"
        using covered False that 1(4) by (intro all_covered_Cons) (auto simp: ctor_at_def)
      then have "useful_good table inh L (ty # tys') rows (head # q_rest) limit (Some (take limit out))"
        using take_good [OF 1(4) out(1)] out(2) by blast
      with False loop heads q tys heads_def show ?thesis by auto
    next
      case True
      with miss have head: "head = Wild" by (cases miss) auto
      have dr: "rows_ok table inh L tys' (default_rows rows)" "row_ok table inh L tys' q_rest"
        using default_rows_ok [of rows table inh L ty tys'] 1(2,3) q tys by auto
      have "((rows_size (default_rows rows) + row_size q_rest, length q_rest),
          (rows_size rows + row_size q, length q)) \<in> less_than <*lex*> less_than"
        using default_rows_size [of rows] q head by auto
      from 1(1) [OF this dr, of "limit - length out"] True
      have "useful_good table inh L tys' (default_rows rows) q_rest (limit - length out)
          (useful table (default_rows rows) q_rest tys' (limit - length out))" by simp
      from default_good [OF col [unfolded head] _ _ this, of miss
          "list_ex (\<lambda>p. p \<noteq> Wild) (map hd rows)"] miss True
      obtain wss more where wss: "useful table (default_rows rows) q_rest tys' (limit - length out) = Some wss"
          "default_witnesses (table ty) (list_ex (\<lambda>p. p \<noteq> Wild) (map hd rows)) miss wss = Some more"
        and more: "\<forall>ws\<in>set more. length ws = length (ty # tys')"
          "more = [] \<longrightarrow> (\<forall>c\<in>set miss. ctor_covered table inh ty tys' rows (Wild # q_rest)
              (set (column_lits heads [])) c)"
          "inhabited table inh L \<longrightarrow> (\<forall>ws\<in>set more. genuine table inh (ty # tys') rows (Wild # q_rest) ws)"
        by blast
      have "all_covered table inh (ty # tys') rows (head # q_rest)" if "out @ more = []"
        using covered more(2) that head by (intro all_covered_Cons) (auto simp: ctor_at_def)
      then have "useful_good table inh L (ty # tys') rows (head # q_rest) limit
          (Some (take limit (out @ more)))"
        using out more head by (intro take_good [OF 1(4)]) auto
      moreover have "useful table rows q tys limit = Some (take limit (out @ more))"
        using True loop heads q tys heads_def wss by simp
      ultimately show ?thesis using q tys by simp
    qed
  qed
qed

section \<open>What the check reports\<close>

text \<open>The arms that count for the ones below: those without a guard.\<close>

definition arm_rows :: "arm list \<Rightarrow> row list" where
  "arm_rows arms = map (\<lambda>a. [arm_pat a]) (filter (\<lambda>a. \<not> guarded a) arms)"

definition arm_redundant ::
    "('ty \<Rightarrow> 'ty ty_shape) \<Rightarrow> ('ty \<Rightarrow> val \<Rightarrow> bool) \<Rightarrow> 'ty \<Rightarrow> arm list \<Rightarrow> nat \<Rightarrow> bool" where
  "arm_redundant table inh ty arms i \<longleftrightarrow>
     (\<forall>v. val_of table inh ty v \<longrightarrow> pat_matches (arm_pat (arms ! i)) v \<longrightarrow>
        (\<exists>a\<in>set (take i arms). \<not> guarded a \<and> pat_matches (arm_pat a) v))"

lemma arm_rows_simps [simp]:
  "arm_rows [] = []"
  "arm_rows (arms @ [a]) = (if guarded a then arm_rows arms else arm_rows arms @ [[arm_pat a]])"
  by (auto simp: arm_rows_def)

lemma arm_rows_match:
  "rows_match (arm_rows arms) [v] \<longleftrightarrow> (\<exists>a\<in>set arms. \<not> guarded a \<and> pat_matches (arm_pat a) v)"
  by (auto simp: arm_rows_def)

lemma arm_rows_ok:
  "\<forall>a\<in>set arms. pat_ok table inh L ty (arm_pat a) \<Longrightarrow> rows_ok table inh L [ty] (arm_rows arms)"
  by (auto simp: arm_rows_def)

lemma all_covered_single:
  "all_covered table inh [ty] (arm_rows arms) [p] \<longleftrightarrow>
     (\<forall>v. val_of table inh ty v \<longrightarrow> pat_matches p v \<longrightarrow>
        (\<exists>a\<in>set arms. \<not> guarded a \<and> pat_matches (arm_pat a) v))"
  unfolding all_covered_def arm_rows_match [symmetric] by (auto simp: list_all2_Cons1)

lemma genuine_not_covered: "genuine table inh tys rows q ws \<Longrightarrow> \<not> all_covered table inh tys rows q"
  by (auto simp: genuine_def all_covered_def)

lemma check_match_arms_ok:
  assumes "\<forall>a\<in>set (done @ arms). pat_ok table inh L ty (arm_pat a)"
  shows "\<exists>red'. check_match_arms table ty (length done) arms (arm_rows done) red
       = Some (arm_rows (done @ arms), red @ red')
     \<and> (\<forall>i\<in>set red'. length done \<le> i \<and> i < length (done @ arms)
          \<and> arm_redundant table inh ty (done @ arms) i)
     \<and> (inhabited table inh L \<longrightarrow> (\<forall>i. length done \<le> i \<longrightarrow> i < length (done @ arms) \<longrightarrow>
          arm_redundant table inh ty (done @ arms) i \<longrightarrow> i \<in> set red'))"
  using assms
proof (induction arms arbitrary: "done" red)
  case Nil
  then show ?case by simp
next
  case (Cons a arms)
  have good: "useful_good table inh L [ty] (arm_rows done) [arm_pat a] 1
      (useful table (arm_rows done) [arm_pat a] [ty] 1)"
    using Cons.prems by (intro useful_good_all arm_rows_ok) auto
  then obtain wss where wss: "useful table (arm_rows done) [arm_pat a] [ty] 1 = Some wss"
      "wss = [] \<longrightarrow> all_covered table inh [ty] (arm_rows done) [arm_pat a]"
      "inhabited table inh L \<longrightarrow> (\<forall>ws\<in>set wss. genuine table inh [ty] (arm_rows done) [arm_pat a] ws)"
    unfolding useful_good_def by blast
  have red: "all_covered table inh [ty] (arm_rows done) [arm_pat a]
      \<longleftrightarrow> arm_redundant table inh ty (done @ a # arms) (length done)"
    by (simp add: all_covered_single arm_redundant_def)
  have here: "wss = [] \<longrightarrow> arm_redundant table inh ty (done @ a # arms) (length done)"
      "inhabited table inh L \<longrightarrow> arm_redundant table inh ty (done @ a # arms) (length done) \<longrightarrow> wss = []"
    using wss(2,3) genuine_not_covered red by (blast, metis list.set_intros(1) neq_Nil_conv)
  let ?red = "if wss = [] then [length done] else []"
  from Cons.IH [of "done @ [a]" "red @ ?red"] Cons.prems obtain red' where
    red': "check_match_arms table ty (Suc (length done)) arms (arm_rows (done @ [a])) (red @ ?red)
        = Some (arm_rows (done @ a # arms), (red @ ?red) @ red')"
      "\<forall>i\<in>set red'. Suc (length done) \<le> i \<and> i < length (done @ a # arms)
          \<and> arm_redundant table inh ty (done @ a # arms) i"
      "inhabited table inh L \<longrightarrow> (\<forall>i. Suc (length done) \<le> i \<longrightarrow> i < length (done @ a # arms) \<longrightarrow>
          arm_redundant table inh ty (done @ a # arms) i \<longrightarrow> i \<in> set red')"
    by auto
  have "check_match_arms table ty (length done) (a # arms) (arm_rows done) red
      = Some (arm_rows (done @ a # arms), red @ ?red @ red')"
    using red'(1) wss(1) by (cases "guarded a"; cases "wss = []") auto
  moreover have "length done \<le> i \<and> i < length (done @ a # arms)
      \<and> arm_redundant table inh ty (done @ a # arms) i" if "i \<in> set (?red @ red')" for i
    using that red'(2) here(1) by (auto split: if_splits)
  moreover have "i \<in> set (?red @ red')" if "inhabited table inh L" "length done \<le> i"
      "i < length (done @ a # arms)" "arm_redundant table inh ty (done @ a # arms) i" for i
    using that red'(3) here(2) by (cases "i = length done") (auto simp: Suc_le_eq)
  ultimately show ?case by blast
qed

lemma check_match_ok:
  assumes "\<forall>a\<in>set arms. pat_ok table inh L ty (arm_pat a)"
  shows "\<exists>m wss. check_match table ty arms = Some m
     \<and> useful_good table inh L [ty] (arm_rows arms) [Wild] WITNESS_LIMIT (Some wss)
     \<and> list_all2 (\<lambda>ws w. ws = [w]) wss (missing m)
     \<and> (\<forall>i\<in>set (redundant m). i < length arms \<and> arm_redundant table inh ty arms i)
     \<and> (inhabited table inh L \<longrightarrow> (\<forall>i<length arms. arm_redundant table inh ty arms i \<longrightarrow>
          i \<in> set (redundant m)))"
proof -
  from check_match_arms_ok [of "[]" arms, simplified, OF assms, of "[]"] obtain red where
    red: "check_match_arms table ty 0 arms [] [] = Some (arm_rows arms, red)"
      "\<forall>i\<in>set red. i < length arms \<and> arm_redundant table inh ty arms i"
      "inhabited table inh L \<longrightarrow> (\<forall>i<length arms. arm_redundant table inh ty arms i \<longrightarrow> i \<in> set red)"
    by auto
  have good: "useful_good table inh L [ty] (arm_rows arms) [Wild] WITNESS_LIMIT
      (useful table (arm_rows arms) [Wild] [ty] WITNESS_LIMIT)"
    using assms by (intro useful_good_all arm_rows_ok) (auto simp: WITNESS_LIMIT_def)
  then obtain wss where wss: "useful table (arm_rows arms) [Wild] [ty] WITNESS_LIMIT = Some wss"
      "\<forall>ws\<in>set wss. length ws = 1" by (auto simp: useful_good_def)
  have "\<exists>ms. map_opt pop_last wss = Some ms \<and> list_all2 (\<lambda>ws w. ws = [w]) wss ms"
    by (rule map_opt_Some) (use wss(2) in \<open>auto simp: pop_last_def length_Suc_conv\<close>)
  then obtain ms where ms: "map_opt pop_last wss = Some ms" "list_all2 (\<lambda>ws w. ws = [w]) wss ms"
    by blast
  have "check_match table ty arms = Some \<lparr>missing = ms, redundant = red\<rparr>"
    using red(1) wss(1) ms(1) by (simp add: check_match_def del: useful.simps)
  then show ?thesis using good wss(1) ms(2) red(2,3) by auto
qed

text \<open>
  C20: the check of well-typed arms always returns, without a panic and also on recursive types.
  If it reports no missing value then every value of the type matches an arm without a guard,
  and an arm it reports as redundant matches no value that reaches it.
\<close>

theorem check_match_sound:
  assumes "\<forall>a\<in>set arms. pat_ok table inh L ty (arm_pat a)"
  shows "\<exists>m. check_match table ty arms = Some m
     \<and> (is_exhaustive m \<longrightarrow> (\<forall>v. val_of table inh ty v \<longrightarrow>
          (\<exists>a\<in>set arms. \<not> guarded a \<and> pat_matches (arm_pat a) v)))
     \<and> (\<forall>i\<in>set (redundant m). i < length arms \<and> (\<forall>v. val_of table inh ty v \<longrightarrow>
          pat_matches (arm_pat (arms ! i)) v \<longrightarrow>
          (\<exists>a\<in>set (take i arms). \<not> guarded a \<and> pat_matches (arm_pat a) v)))"
proof -
  from check_match_ok [of arms table inh L ty, OF assms] obtain m wss where
    m: "check_match table ty arms = Some m"
      "useful_good table inh L [ty] (arm_rows arms) [Wild] WITNESS_LIMIT (Some wss)"
      "list_all2 (\<lambda>ws w. ws = [w]) wss (missing m)"
      "\<forall>i\<in>set (redundant m). i < length arms \<and> arm_redundant table inh ty arms i" by blast
  have "all_covered table inh [ty] (arm_rows arms) [Wild]" if "is_exhaustive m"
    using that m(2,3) by (auto simp: is_exhaustive_def useful_good_def)
  then show ?thesis using m(1,4) unfolding all_covered_single arm_redundant_def by auto
qed

text \<open>
  C1: when every type has a value, and an opaque type one beside the literals written, the check
  is exact: it reports a missing value iff some value matches no arm without a guard, and an arm
  as redundant iff the arms without a guard above it already match all its values. There are at
  most \<open>WITNESS_LIMIT\<close> examples and each stands for a value no such arm matches.
\<close>

theorem check_match_exact:
  assumes "\<forall>a\<in>set arms. pat_ok table inh L ty (arm_pat a)" "inhabited table inh L"
  shows "\<exists>m. check_match table ty arms = Some m
     \<and> (is_exhaustive m \<longleftrightarrow> (\<forall>v. val_of table inh ty v \<longrightarrow>
          (\<exists>a\<in>set arms. \<not> guarded a \<and> pat_matches (arm_pat a) v)))
     \<and> (\<forall>i. i \<in> set (redundant m) \<longleftrightarrow> i < length arms \<and> arm_redundant table inh ty arms i)
     \<and> length (missing m) \<le> WITNESS_LIMIT
     \<and> (\<forall>w\<in>set (missing m). \<exists>v. val_of table inh ty v \<and> witness_of table ty w v
          \<and> (\<forall>a\<in>set arms. guarded a \<or> \<not> pat_matches (arm_pat a) v))"
proof -
  from check_match_ok [of arms table inh L ty, OF assms(1)] assms(2) obtain m wss where
    m: "check_match table ty arms = Some m"
      "useful_good table inh L [ty] (arm_rows arms) [Wild] WITNESS_LIMIT (Some wss)"
      "list_all2 (\<lambda>ws w. ws = [w]) wss (missing m)"
      "\<forall>i\<in>set (redundant m). i < length arms \<and> arm_redundant table inh ty arms i"
      "\<forall>i<length arms. arm_redundant table inh ty arms i \<longrightarrow> i \<in> set (redundant m)" by blast
  have gen: "genuine table inh [ty] (arm_rows arms) [Wild] ws" if "ws \<in> set wss" for ws
    using that m(2) assms(2) by (auto simp: useful_good_def)
  have ex: "is_exhaustive m \<longleftrightarrow> all_covered table inh [ty] (arm_rows arms) [Wild]"
  proof
    assume "is_exhaustive m"
    then show "all_covered table inh [ty] (arm_rows arms) [Wild]"
      using m(2,3) by (auto simp: is_exhaustive_def useful_good_def)
  next
    assume c: "all_covered table inh [ty] (arm_rows arms) [Wild]"
    with gen genuine_not_covered have "wss = []" by (metis list.set_intros(1) neq_Nil_conv)
    with m(3) show "is_exhaustive m" by (simp add: is_exhaustive_def)
  qed
  have "\<exists>v. val_of table inh ty v \<and> witness_of table ty w v
      \<and> (\<forall>a\<in>set arms. guarded a \<or> \<not> pat_matches (arm_pat a) v)" if "w \<in> set (missing m)" for w
  proof -
    from list_all2_right [OF m(3) that] gen have "genuine table inh [ty] (arm_rows arms) [Wild] [w]"
      by blast
    then obtain v where "val_of table inh ty v" "\<not> rows_match (arm_rows arms) [v]"
      "witness_of table ty w v"
      by (auto simp: genuine_def list_all2_Cons1 witnesses_of_def)
    then show ?thesis unfolding arm_rows_match by blast
  qed
  moreover have "length (missing m) \<le> WITNESS_LIMIT"
    using m(2,3) by (auto simp: useful_good_def dest: list_all2_lengthD)
  ultimately show ?thesis using m(1,4,5) ex unfolding all_covered_single by auto
qed

text \<open>
  A match on \<open>Option(Int)\<close>: types are numbered, \<open>0\<close> is the option and the others are
  \<open>Int\<close>.
\<close>

definition option_table :: "nat \<Rightarrow> nat ty_shape" where
  "option_table t =
     (if t = 0 then Enum [\<lparr>variant_name = ''None'', variant_fields = []\<rparr>,
                          \<lparr>variant_name = ''Some'', variant_fields = [1]\<rparr>]
      else Opaque)"

definition int_values :: "nat \<Rightarrow> val \<Rightarrow> bool" where
  "int_values t v \<longleftrightarrow> (\<exists>i. v = VLit (LInt i))"

definition option_arms :: "arm list" where
  "option_arms = [\<lparr>arm_pat = PVariant 1 [(0, PLit (LInt 0))], guarded = False\<rparr>,
                  \<lparr>arm_pat = PVariant 0 [], guarded = False\<rparr>]"

lemma option_arms_ok:
  "\<forall>a\<in>set option_arms. pat_ok option_table int_values {LInt 0} 0 (arm_pat a)"
  by (simp add: option_arms_def option_table_def int_values_def)

lemma option_inhabited: "inhabited option_table int_values {LInt 0}"
proof -
  have "\<exists>v. val_of option_table int_values ty v" for ty
  proof (cases "ty = 0")
    case True
    then have "val_of option_table int_values ty (VVariant 0 [])"
      by (intro val_of.variant) (auto simp: option_table_def)
    then show ?thesis ..
  next
    case False
    then have "val_of option_table int_values ty (VLit (LInt 0))"
      by (intro val_of.opaque) (auto simp: option_table_def int_values_def)
    then show ?thesis ..
  qed
  moreover have "int_values ty (VLit (LInt 1)) \<and> \<not> pat_matches (PLit (LInt 0)) (VLit (LInt 1))" for ty
    by (simp add: int_values_def)
  ultimately show ?thesis unfolding inhabited_def by blast
qed

lemma option_check:
  "check_match option_table 0 option_arms
     = Some \<lparr>missing = [WVariant ''Some'' [WWild]], redundant = []\<rparr>"
  by code_simp

definition total_arms :: "arm list" where
  "total_arms = [\<lparr>arm_pat = PVariant 1 [(0, Wild)], guarded = False\<rparr>,
                 \<lparr>arm_pat = PVariant 0 [], guarded = False\<rparr>,
                 \<lparr>arm_pat = PVariant 1 [(0, PLit (LInt 0))], guarded = False\<rparr>]"

lemma total_arms_ok: "\<forall>a\<in>set total_arms. pat_ok option_table int_values {LInt 0} 0 (arm_pat a)"
  by (simp add: total_arms_def option_table_def int_values_def)

lemma total_check: "check_match option_table 0 total_arms = Some \<lparr>missing = [], redundant = [2]\<rparr>"
  by code_simp

lemma some_5: "val_of option_table int_values 0 (VVariant 1 [VLit (LInt 5)])"
  by (intro val_of.variant [where variants = "[\<lparr>variant_name = ''None'', variant_fields = []\<rparr>,
      \<lparr>variant_name = ''Some'', variant_fields = [1]\<rparr>]"])
    (auto simp: option_table_def int_values_def intro: val_of.opaque)

theorem check_match_sound_witness:
  "val_of option_table int_values 0 (VVariant 1 [VLit (LInt 5)])
   \<and> (\<exists>a\<in>set total_arms. \<not> guarded a \<and> pat_matches (arm_pat a) (VVariant 1 [VLit (LInt 5)]))"
  using check_match_sound [OF total_arms_ok] total_check some_5 by (auto simp: is_exhaustive_def)

theorem check_match_exact_witness:
  "\<exists>v. val_of option_table int_values 0 v
     \<and> witness_of option_table 0 (WVariant ''Some'' [WWild]) v
     \<and> \<not> (\<exists>a\<in>set option_arms. \<not> guarded a \<and> pat_matches (arm_pat a) v)"
  using check_match_exact [OF option_arms_ok option_inhabited] option_check by auto

end
