(* ===== verification/Emela_Utf8.thy ===== *)
theory Emela_Utf8
  imports Emela_Prelude
begin

text \<open>
  What the fetching code uses of Rust's strings beyond the prelude: decoding UTF-8
  (\<open>String::from_utf8\<close>, \<open>String::from_utf8_lossy\<close>) and \<open>str::trim\<close>.
\<close>

section \<open>Decoding\<close>

text \<open>
  \<open>utf8_step\<close>: whether the bytes begin with a well-formed character, and how many bytes that is;
  otherwise the length of the ill-formed part that the lossy decoder replaces.
\<close>

definition cont :: "nat \<Rightarrow> nat list \<Rightarrow> bool" where
  "cont i bs \<longleftrightarrow> i < length bs \<and> 128 \<le> bs ! i \<and> bs ! i < 192"

definition second_ok :: "nat list \<Rightarrow> bool" where
  "second_ok bs \<longleftrightarrow>
     cont 1 bs \<and> (bs ! 0 = 224 \<longrightarrow> 160 \<le> bs ! 1) \<and> (bs ! 0 = 237 \<longrightarrow> bs ! 1 < 160)
     \<and> (bs ! 0 = 240 \<longrightarrow> 144 \<le> bs ! 1) \<and> (bs ! 0 = 244 \<longrightarrow> bs ! 1 < 144)"

definition utf8_step :: "nat list \<Rightarrow> bool \<times> nat" where
  "utf8_step bs =
     (let b = bs ! 0 in
      if b < 128 then (True, 1)
      else if b < 194 \<or> 244 < b \<or> \<not> second_ok bs then (False, 1)
      else if b < 224 then (True, 2)
      else if \<not> cont 2 bs then (False, 2)
      else if b < 240 then (True, 3)
      else if \<not> cont 3 bs then (False, 3)
      else (True, 4))"

lemma utf8_step_pos: "0 < snd (utf8_step bs)"
  by (auto simp: utf8_step_def Let_def)

lemma utf8_step_shrinks: "bs \<noteq> [] \<Longrightarrow> length bs - snd (utf8_step bs) < length bs"
  by (rule diff_less [OF utf8_step_pos]) simp

function valid_utf8 :: "nat list \<Rightarrow> bool" where
  "valid_utf8 bs =
     (if bs = [] then True else fst (utf8_step bs) \<and> valid_utf8 (drop (snd (utf8_step bs)) bs))"
  by auto
termination
  by (relation "measure length") (simp_all add: utf8_step_shrinks)

declare valid_utf8.simps [simp del]

text \<open>An ill-formed part becomes U+FFFD, the bytes EF BF BD.\<close>

function utf8_lossy :: "nat list \<Rightarrow> nat list" where
  "utf8_lossy bs =
     (if bs = [] then []
      else (let n = snd (utf8_step bs) in
            (if fst (utf8_step bs) then take n bs else [239, 191, 189]) @ utf8_lossy (drop n bs)))"
  by auto
termination
  by (relation "measure length") (simp_all add: utf8_step_shrinks)

declare utf8_lossy.simps [simp del]

definition bytes_str :: "bytes \<Rightarrow> string" where
  "bytes_str d = map (\<lambda>b. char_of (unat b)) d"

definition from_utf8 :: "bytes \<Rightarrow> string option" where
  "from_utf8 d = (if valid_utf8 (map unat d) then Some (bytes_str d) else None)"

definition from_utf8_lossy :: "bytes \<Rightarrow> string" where
  "from_utf8_lossy d = map char_of (utf8_lossy (map unat d))"

section \<open>Trimming\<close>

fun strip_any_end :: "string list \<Rightarrow> string \<Rightarrow> string option" where
  "strip_any_end [] s = None"
| "strip_any_end (w # ws) s = (case strip_suffix w s of Some r \<Rightarrow> Some r | None \<Rightarrow> strip_any_end ws s)"

lemma strip_any_end_shorter: "strip_any_end ws s = Some r \<Longrightarrow> [] \<notin> set ws \<Longrightarrow> length r < length s"
  by (induction ws) (auto simp: strip_suffix_SomeD split: option.splits)

lemma whitespace_nonempty: "[] \<notin> set whitespace_chars"
  by (simp add: whitespace_chars_def)

function trim_end :: "string \<Rightarrow> string" where
  "trim_end s = (case strip_any_end whitespace_chars s of None \<Rightarrow> s | Some r \<Rightarrow> trim_end r)"
  by auto
termination
  by (relation "measure length") (simp_all add: strip_any_end_shorter [OF _ whitespace_nonempty])

declare trim_end.simps [simp del]

definition trim :: "string \<Rightarrow> string" where
  "trim s = trim_end (trim_start s)"

text \<open>\<open>trim_end_matches\<close> of one character.\<close>

definition trim_end_char :: "char \<Rightarrow> string \<Rightarrow> string" where
  "trim_end_char c s = rev (dropWhile (\<lambda>x. x = c) (rev s))"

text \<open>\<open>split_once(char::is_whitespace)\<close>.\<close>

fun split_once_ws :: "string \<Rightarrow> (string \<times> string) option" where
  "split_once_ws [] = None"
| "split_once_ws (c # s) =
     (case strip_any whitespace_chars (c # s) of
        Some r \<Rightarrow> Some ([], r)
      | None \<Rightarrow> map_option (apfst ((#) c)) (split_once_ws s))"

lemma split_once_ws_shorter: "split_once_ws s = Some (a, r) \<Longrightarrow> length r < length s"
proof (induction s arbitrary: a)
  case (Cons c s)
  then show ?case
    using strip_ws_shorter [of "c # s"] by (fastforce split: option.splits)
qed simp

text \<open>\<open>split_whitespace\<close>: the parts between white space that are not empty.\<close>

function split_whitespace :: "string \<Rightarrow> string list" where
  "split_whitespace s =
     (case split_once_ws s of
        None \<Rightarrow> if s = [] then [] else [s]
      | Some (a, r) \<Rightarrow> (if a = [] then [] else [a]) @ split_whitespace r)"
  by auto
termination
  by (relation "measure length") (auto dest: split_once_ws_shorter)

declare split_whitespace.simps [simp del]

section \<open>Lemmas\<close>

lemma bytes_str_as_bytes [simp]: "bytes_str (as_bytes s) = s"
proof -
  have "char_of (unat (word_of_nat (byte c) :: 8 word)) = c" for c
    using byte_less_256 [of c] by (simp add: unat_of_nat take_bit_nat_eq_self byte_def)
  then show ?thesis by (simp add: bytes_str_def as_bytes_def comp_def)
qed

lemma as_bytes_bytes_str [simp]: "as_bytes (bytes_str d) = d"
proof -
  have "unat b < 256" for b :: "8 word" using unsigned_less [of b] by simp
  then have "word_of_nat (byte (char_of (unat b))) = b" for b :: "8 word"
    by (simp add: byte_char_of)
  then show ?thesis by (simp add: bytes_str_def as_bytes_def comp_def)
qed

definition utf8_str :: "string \<Rightarrow> bool" where
  "utf8_str s \<longleftrightarrow> valid_utf8 (map byte s)"

lemma map_unat_as_bytes: "map unat (as_bytes s) = map byte s"
proof -
  have "unat (word_of_nat (byte c) :: 8 word) = byte c" for c
    using byte_less_256 [of c] by (simp add: unat_of_nat take_bit_nat_eq_self)
  then show ?thesis by (simp add: as_bytes_def comp_def)
qed

lemma from_utf8_as_bytes: "from_utf8 (as_bytes s) = (if utf8_str s then Some s else None)"
  by (simp add: from_utf8_def utf8_str_def map_unat_as_bytes)

lemma from_utf8_str: "from_utf8 d = Some s \<Longrightarrow> utf8_str s \<and> as_bytes s = d"
  using map_unat_as_bytes [of "bytes_str d"] by (auto simp: from_utf8_def utf8_str_def split: if_splits)

text \<open>A line break is a character of its own, so what follows it is well-formed too.\<close>

lemma utf8_step_within:
  assumes "fst (utf8_step (xs @ 10 # ys))" "xs \<noteq> []"
  shows "snd (utf8_step (xs @ 10 # ys)) \<le> length xs"
proof (rule ccontr)
  let ?bs = "xs @ 10 # ys"
  assume "\<not> ?thesis"
  then have n: "length xs < snd (utf8_step ?bs)" by simp
  have "cont i ?bs" if "0 < i" "i < snd (utf8_step ?bs)" for i
  proof -
    have "snd (utf8_step ?bs) \<le> 4" by (simp add: utf8_step_def Let_def)
    with that consider "i = 1" | "i = 2" | "i = 3" by linarith
    then show ?thesis using assms(1) that by cases (auto simp: utf8_step_def second_ok_def Let_def split: if_splits)
  qed
  from this [of "length xs"] n assms(2) show False by (simp add: cont_def nth_append)
qed

lemma valid_utf8_after_newline: "valid_utf8 (xs @ 10 # ys) \<Longrightarrow> valid_utf8 ys"
proof (induction "length xs" arbitrary: xs rule: less_induct)
  case less
  let ?bs = "xs @ 10 # ys"
  have step: "fst (utf8_step ?bs)" "valid_utf8 (drop (snd (utf8_step ?bs)) ?bs)"
    using less.prems by (simp_all add: valid_utf8.simps [of ?bs])
  show ?case
  proof (cases "xs = []")
    case True
    with step(2) show ?thesis by (simp add: utf8_step_def)
  next
    case False
    let ?n = "snd (utf8_step ?bs)"
    have n: "?n \<le> length xs" "0 < ?n" using utf8_step_within [OF step(1) False] utf8_step_pos by simp_all
    then have "drop ?n ?bs = drop ?n xs @ 10 # ys" by simp
    with less.hyps [of "drop ?n xs"] step(2) n False show ?thesis by simp
  qed
qed

lemma utf8_str_after_newline: "utf8_str (a @ CHR 0x0A # b) \<Longrightarrow> utf8_str b"
  using valid_utf8_after_newline [of "map byte a" "map byte b"] by (simp add: utf8_str_def byte_def)

text \<open>Well-formed text is decoded as it is, and ASCII is well-formed.\<close>

lemma utf8_lossy_valid: "valid_utf8 bs \<Longrightarrow> utf8_lossy bs = bs"
proof (induction bs rule: valid_utf8.induct)
  case (1 bs)
  then show ?case by (subst utf8_lossy.simps) (auto simp: valid_utf8.simps [of bs] Let_def)
qed

lemma from_utf8_lossy_str: "utf8_str s \<Longrightarrow> from_utf8_lossy (as_bytes s) = s"
  by (simp add: from_utf8_lossy_def map_unat_as_bytes utf8_str_def utf8_lossy_valid byte_def comp_def)

lemma utf8_str_ascii: "list_all (\<lambda>c. byte c < 128) s \<Longrightarrow> utf8_str s"
proof (induction s)
  case (Cons c s)
  then show ?case
    by (simp add: utf8_str_def valid_utf8.simps [of "byte c # map byte s"] utf8_step_def)
qed (simp add: utf8_str_def valid_utf8.simps)

end
