(* ===== verification/Sumdb_Note.thy ===== *)
theory Sumdb_Note
  imports Emela_Prelude "HOL-Library.Monad_Syntax"
begin

text \<open>
  Signed notes and checkpoints of the checksum database: \<open>crates/emela-pome/src/sumdb/note.rs\<close>.

  SHA-256, base64 and Ed25519 are third-party code: one record of functions, an argument of the
  operations. Strings are their UTF-8 bytes, as everywhere in the development.
\<close>

section \<open>Parameters\<close>

record ('k, 's) crypto =
  cr_sha :: sha
  cr_b64d :: "string \<Rightarrow> bytes option"
  cr_b64e :: "bytes \<Rightarrow> string"
  cr_key :: "bytes \<Rightarrow> 'k option"
  cr_sig :: "bytes \<Rightarrow> 's option"
  cr_verify :: "'k \<Rightarrow> bytes \<Rightarrow> 's \<Rightarrow> bool"

text \<open>What is documented of base64: decoding inverts encoding, and the alphabet has no separator.\<close>

definition base64_ok :: "('k, 's) crypto \<Rightarrow> bool" where
  "base64_ok cr \<longleftrightarrow>
     (\<forall>b. cr_b64d cr (cr_b64e cr b) = Some b) \<and> (\<forall>b. CHR 0x0A \<notin> set (cr_b64e cr b) \<and> CHR '' '' \<notin> set (cr_b64e cr b))"

section \<open>Verifier keys\<close>

definition ALG_ED25519 :: "8 word" where
  "ALG_ED25519 = 1"

definition SIG_PREFIX :: string where
  "SIG_PREFIX = [CHR 0xE2, CHR 0x80, CHR 0x94, CHR '' '']"

datatype note_error = NoteError string

record 'k verifier =
  vf_name :: string
  vf_key_hash :: nat
  vf_key :: 'k

text \<open>\<open>u32::from_be_bytes\<close> of the first four bytes.\<close>

definition be32 :: "bytes \<Rightarrow> nat" where
  "be32 d = foldl (\<lambda>n b. 256 * n + unat b) 0 (take 4 d)"

definition key_hash :: "('k, 's) crypto \<Rightarrow> string \<Rightarrow> bytes \<Rightarrow> nat" where
  "key_hash cr name alg_and_key = be32 (cr_sha cr (as_bytes name @ [10] @ alg_and_key))"

text \<open>\<open>u32::from_str_radix(s, 16)\<close>: an optional \<open>+\<close>, then hexadecimal digits of either case.\<close>

definition hex_val :: "char \<Rightarrow> nat option" where
  "hex_val c =
     (if is_ascii_digit c then Some (byte c - 48)
      else if 97 \<le> byte c \<and> byte c \<le> 102 then Some (byte c - 87)
      else if 65 \<le> byte c \<and> byte c \<le> 70 then Some (byte c - 55)
      else None)"

fun hex_digits :: "nat \<Rightarrow> string \<Rightarrow> nat option" where
  "hex_digits n [] = Some n"
| "hex_digits n (c # s) = do { v \<leftarrow> hex_val c; hex_digits (16 * n + v) s }"

definition parse_hex_u32 :: "string \<Rightarrow> nat option" where
  "parse_hex_u32 s =
     (let d = (case s of [] \<Rightarrow> [] | c # r \<Rightarrow> if c = CHR ''+'' then r else s) in
      if d = [] then None
      else do { n \<leftarrow> hex_digits 0 d; if n < 2 ^ 32 then Some n else None })"

definition vkey_err :: "string \<Rightarrow> note_error + 'a" where
  "vkey_err m = Inl (NoteError (''verifier key: '' @ m))"

definition verifier_parse :: "('k, 's) crypto \<Rightarrow> string \<Rightarrow> note_error + 'k verifier" where
  "verifier_parse cr vkey =
     (case split_once CHR ''+'' vkey of
        None \<Rightarrow> vkey_err ''expected `<name>+<hash>+<key>`''
      | Some (name, rest) \<Rightarrow>
          (case split_once CHR ''+'' rest of
             None \<Rightarrow> vkey_err ''expected `<name>+<hash>+<key>`''
           | Some (hash, key) \<Rightarrow>
               if name = [] \<or> has_whitespace name then vkey_err ''bad name''
               else (case cr_b64d cr key of
                       None \<Rightarrow> vkey_err ''key is not base64''
                     | Some raw \<Rightarrow>
                         (case raw of
                            [] \<Rightarrow> vkey_err ''empty key''
                          | alg # public \<Rightarrow>
                              if alg \<noteq> ALG_ED25519 then vkey_err ''unknown algorithm''
                              else if length public \<noteq> 32 then vkey_err ''key must be 32 bytes''
                              else (case cr_key cr public of
                                      None \<Rightarrow> vkey_err ''not an Ed25519 key''
                                    | Some k \<Rightarrow>
                                        (let h = key_hash cr name raw in
                                         if length hash \<noteq> 8 \<or> parse_hex_u32 hash \<noteq> Some h
                                         then vkey_err ''key hash does not match''
                                         else Inr \<lparr>vf_name = name, vf_key_hash = h, vf_key = k\<rparr>))))))"

section \<open>Notes\<close>

text \<open>\<open>rfind\<close> of a blank line: the last place where two newlines meet.\<close>

definition rfind_blank :: "string \<Rightarrow> nat option" where
  "rfind_blank s =
     (let is = filter (\<lambda>i. s ! i = CHR 0x0A \<and> s ! Suc i = CHR 0x0A) [0..<length s - 1] in
      if is = [] then None else Some (last is))"

text \<open>
  A control character other than the newline: below U+0020, U+007F, or U+0080 to U+009F, which are
  the bytes C2 80 to C2 9F.
\<close>

fun has_control :: "string \<Rightarrow> bool" where
  "has_control [] = False"
| "has_control (c # s) =
     ((byte c < 32 \<and> c \<noteq> CHR 0x0A) \<or> byte c = 127
      \<or> (byte c = 194 \<and> (case s of [] \<Rightarrow> False | d # _ \<Rightarrow> 128 \<le> byte d \<and> byte d < 160)) \<or> has_control s)"

text \<open>One signature line: \<open>Inl\<close> ends the search with an error, \<open>Inr\<close> says whether it is valid.\<close>

definition check_line :: "('k, 's) crypto \<Rightarrow> 'k verifier \<Rightarrow> string \<Rightarrow> string \<Rightarrow> note_error + bool" where
  "check_line cr v txt line =
     (let bad = Inl (NoteError (''bad signature line `'' @ line @ ''`'')) in
      case strip_prefix SIG_PREFIX line of
        None \<Rightarrow> bad
      | Some sig \<Rightarrow>
          (case split_once CHR '' '' sig of
             None \<Rightarrow> bad
           | Some (name, b64) \<Rightarrow>
               Inr (name = vf_name v
                    \<and> (case cr_b64d cr b64 of
                         None \<Rightarrow> False
                       | Some blob \<Rightarrow>
                           4 \<le> length blob \<and> be32 (take 4 blob) = vf_key_hash v
                           \<and> (case cr_sig cr (drop 4 blob) of
                                None \<Rightarrow> False
                              | Some sg \<Rightarrow> cr_verify cr (vf_key v) (as_bytes txt) sg)))))"

fun open_lines :: "('k, 's) crypto \<Rightarrow> 'k verifier \<Rightarrow> string \<Rightarrow> string list \<Rightarrow> note_error + string" where
  "open_lines cr v txt [] = Inl (NoteError (''no valid signature by `'' @ vf_name v @ ''`''))"
| "open_lines cr v txt (line # ls) =
     (case check_line cr v txt line of
        Inl e \<Rightarrow> Inl e
      | Inr ok \<Rightarrow> if ok then Inr txt else open_lines cr v txt ls)"

definition note_open :: "('k, 's) crypto \<Rightarrow> string \<Rightarrow> 'k verifier \<Rightarrow> note_error + string" where
  "note_open cr msg v =
     (case rfind_blank msg of
        None \<Rightarrow> Inl (NoteError ''missing signature block'')
      | Some split \<Rightarrow>
          (let txt = take (split + 1) msg in
           if has_control txt then Inl (NoteError ''text has control characters'')
           else (case strip_suffix [CHR 0x0A] (drop (split + 2) msg) of
                   None \<Rightarrow> Inl (NoteError ''signature block must end with a newline'')
                 | Some block \<Rightarrow> open_lines cr v txt (split_on CHR 0x0A block))))"

section \<open>Checkpoints\<close>

record checkpoint =
  cp_origin :: string
  cp_size :: nat
  cp_root :: bytes

definition checkpoint_parse :: "('k, 's) crypto \<Rightarrow> string \<Rightarrow> note_error + checkpoint" where
  "checkpoint_parse cr txt =
     (let err = Inl (NoteError ''bad checkpoint'') in
      case strip_suffix [CHR 0x0A] txt of
        None \<Rightarrow> err
      | Some body \<Rightarrow>
          (case split_on CHR 0x0A body of
             origin # sz # root # _ \<Rightarrow>
               if origin = [] \<or> sz = [] \<or> (1 < length sz \<and> starts_with ''0'' sz) then err
               else (case parse_u64 sz of
                       None \<Rightarrow> err
                     | Some n \<Rightarrow>
                         (case cr_b64d cr root of
                            None \<Rightarrow> err
                          | Some r \<Rightarrow>
                              if length r = 32 then Inr \<lparr>cp_origin = origin, cp_size = n, cp_root = r\<rparr> else err))
           | _ \<Rightarrow> err))"

definition checkpoint_to_text :: "('k, 's) crypto \<Rightarrow> checkpoint \<Rightarrow> string" where
  "checkpoint_to_text cr c =
     cp_origin c @ [CHR 0x0A] @ show_nat (cp_size c) @ [CHR 0x0A] @ cr_b64e cr (cp_root c) @ [CHR 0x0A]"

section \<open>Lemmas\<close>

lemma open_lines_Inr:
  "open_lines cr v txt ls = Inr t \<Longrightarrow> t = txt \<and> (\<exists>sg. cr_verify cr (vf_key v) (as_bytes txt) sg)"
proof (induction ls)
  case (Cons l ls)
  show ?case
  proof (cases "check_line cr v txt l")
    case (Inr ok)
    with Cons show ?thesis
      by (auto simp: check_line_def Let_def split: option.splits prod.splits if_splits)
  qed (use Cons.prems in simp)
qed simp

text \<open>What an opened note is: a text the key signed, without control characters.\<close>

lemma note_open_signed:
  assumes "note_open cr msg v = Inr t"
  shows "\<exists>sg. cr_verify cr (vf_key v) (as_bytes t) sg" "\<not> has_control t" "\<exists>r. msg = t @ r"
proof -
  obtain i block where i: "rfind_blank msg = Some i" "\<not> has_control (take (i + 1) msg)"
    "open_lines cr v (take (i + 1) msg) (split_on CHR 0x0A block) = Inr t"
    using assms by (auto simp: note_open_def Let_def split: option.splits if_splits)
  from open_lines_Inr [OF i(3)] i(2)
  show "\<exists>sg. cr_verify cr (vf_key v) (as_bytes t) sg" "\<not> has_control t" "\<exists>r. msg = t @ r"
    by (auto intro: exI [of _ "drop (i + 1) msg"])
qed

lemma parse_u64_not_newline: "parse_u64 s = Some n \<Longrightarrow> CHR 0x0A \<notin> set s"
  by (cases s) (auto simp: parse_u64_def Let_def list_all_set ascii_defs byte_def split: if_splits)

text \<open>
  a checkpoint that is written is read back unchanged, and what is read is what the first three
  lines say: any other lines are ignored.
\<close>

theorem checkpoint_round_trip:
  assumes "base64_ok cr" "cp_origin c \<noteq> []" "CHR 0x0A \<notin> set (cp_origin c)" "cp_size c < u64_bound" "length (cp_root c) = 32"
    and "ext = [] \<or> last ext = CHR 0x0A"
  shows "checkpoint_parse cr (checkpoint_to_text cr c @ ext) = Inr c"
proof -
  let ?b = "cp_origin c @ CHR 0x0A # show_nat (cp_size c) @ CHR 0x0A # cr_b64e cr (cp_root c)"
  let ?body = "if ext = [] then ?b else ?b @ CHR 0x0A # butlast ext"
  have "checkpoint_to_text cr c @ ext = ?body @ [CHR 0x0A]"
    using assms(6) append_butlast_last_id [of ext] by (auto simp: checkpoint_to_text_def simp del: append_butlast_last_id)
  then have body: "strip_suffix [CHR 0x0A] (checkpoint_to_text cr c @ ext) = Some ?body" by (simp add: strip_suffix_SomeD)
  have digits: "CHR 0x0A \<notin> set (show_nat (cp_size c))"
    by (rule parse_u64_not_newline [OF parse_u64_show_nat [OF assms(4)]])
  have b64: "CHR 0x0A \<notin> set (cr_b64e cr (cp_root c))" "cr_b64d cr (cr_b64e cr (cp_root c)) = Some (cp_root c)"
    using assms(1) by (simp_all add: base64_ok_def)
  have lines: "\<exists>more. split_on CHR 0x0A ?body = cp_origin c # show_nat (cp_size c) # cr_b64e cr (cp_root c) # more"
    using assms(3) digits b64(1) by (simp add: split_on_append split_on_free)
  have canon: "\<not> (1 < length (show_nat (cp_size c)) \<and> starts_with ''0'' (show_nat (cp_size c)))"
    using canonical_show_nat [of "cp_size c"] by (auto simp: canonical_dec_def starts_with_iff)
  from lines obtain more where "split_on CHR 0x0A ?body = cp_origin c # show_nat (cp_size c) # cr_b64e cr (cp_root c) # more" by blast
  then show ?thesis
    unfolding checkpoint_parse_def Let_def body
    using assms(2,5) canon parse_u64_show_nat [OF assms(4)] b64(2) by simp
qed

text \<open>
  The size is parsed as an integer of Rust, which may begin with a plus sign: a checkpoint is not
  determined by what it says.
\<close>

lemma checkpoint_plus_sign:
  assumes "base64_ok cr" "length r = 32"
  shows "checkpoint_parse cr (''o'' @ [CHR 0x0A] @ ''+7'' @ [CHR 0x0A] @ cr_b64e cr r @ [CHR 0x0A])
    = Inr \<lparr>cp_origin = ''o'', cp_size = 7, cp_root = r\<rparr>"
proof -
  have "strip_suffix [CHR 0x0A] (''o'' @ [CHR 0x0A] @ ''+7'' @ [CHR 0x0A] @ cr_b64e cr r @ [CHR 0x0A])
      = Some (''o'' @ CHR 0x0A # ''+7'' @ CHR 0x0A # cr_b64e cr r)" by (simp add: strip_suffix_SomeD)
  moreover have "split_on CHR 0x0A (''o'' @ CHR 0x0A # ''+7'' @ CHR 0x0A # cr_b64e cr r) = [''o'', ''+7'', cr_b64e cr r]"
    using assms(1) by (simp add: base64_ok_def split_on_append split_on_free)
  moreover have "parse_u64 ''+7'' = Some 7"
    by (simp add: parse_u64_def Let_def ascii_defs byte_def dec_val_def u64_bound_def)
  ultimately show ?thesis
    using assms by (simp add: checkpoint_parse_def base64_ok_def starts_with_iff)
qed

section \<open>An example\<close>

text \<open>A code with the laws of base64: two letters for a byte.\<close>

definition two_letters :: "bytes \<Rightarrow> string" where
  "two_letters d = concat (map (\<lambda>b. [char_of (65 + unat b div 16), char_of (65 + unat b mod 16)]) d)"

fun from_letters :: "string \<Rightarrow> bytes option" where
  "from_letters [] = Some []"
| "from_letters [c] = None"
| "from_letters (a # b # s) =
     map_option ((#) (word_of_nat (16 * (byte a - 65) + (byte b - 65)))) (from_letters s)"

definition letters_crypto :: "(unit, unit) crypto" where
  "letters_crypto =
     \<lparr>cr_sha = (\<lambda>_. []), cr_b64d = from_letters, cr_b64e = two_letters, cr_key = (\<lambda>_. None), cr_sig = (\<lambda>_. None),
      cr_verify = (\<lambda>_ _ _. False)\<rparr>"

lemma letters_ok: "base64_ok letters_crypto"
proof -
  have b: "unat b < 256" for b :: "8 word" using unsigned_less [of b] by simp
  have byte_letter: "n < 16 \<Longrightarrow> byte (char_of (65 + n)) = 65 + n" for n by (simp add: byte_char_of)
  have nib: "unat b div 16 < 16" "unat b mod 16 < 16" for b :: "8 word" using b [of b] by simp_all
  have "word_of_nat (16 * (unat b div 16) + unat b mod 16) = b" for b :: "8 word" by simp
  then have "from_letters (two_letters d) = Some d" for d
    by (induction d) (simp_all add: two_letters_def byte_letter nib)
  moreover have "c \<in> set (two_letters d) \<Longrightarrow> 65 \<le> byte c" for c d
    using nib by (auto simp: two_letters_def byte_letter)
  ultimately show ?thesis by (force simp: base64_ok_def letters_crypto_def byte_def)
qed

theorem checkpoint_round_trip_witness:
  "checkpoint_parse letters_crypto (checkpoint_to_text letters_crypto
      \<lparr>cp_origin = ''o'', cp_size = 7, cp_root = replicate 32 0\<rparr> @ [CHR ''x'', CHR 0x0A])
    = Inr \<lparr>cp_origin = ''o'', cp_size = 7, cp_root = replicate 32 0\<rparr>"
  by (rule checkpoint_round_trip [OF letters_ok]) (simp_all add: u64_bound_def)

end
