(* ===== verification/Sumdb_Record.thy ===== *)
theory Sumdb_Record
  imports Pome_Source_Path Pome_Hash
begin

text \<open>
  The records of the checksum database and the bodies of its lookups:
  \<open>crates/emela-pome/src/sumdb/record.rs\<close>. A record is shown to be determined by its text and its
  text by the record, so that the bytes of a leaf of the log name one version with one content.
\<close>

section \<open>Operations\<close>

record sum_record =
  rec_path :: source_path
  rec_version :: version
  rec_tree :: h1
  rec_manifest :: h1

definition record_to_text :: "sum_record \<Rightarrow> string" where
  "record_to_text r =
     path_str (rec_path r) @ '' '' @ raw (rec_version r) @ '' '' @ h1_str (rec_tree r) @ [CHR 0x0A]
     @ path_str (rec_path r) @ '' '' @ raw (rec_version r) @ ''/'' @ MANIFEST_FILE @ '' '' @ h1_str (rec_manifest r) @ [CHR 0x0A]"

definition line_fields :: "string \<Rightarrow> (string \<times> string \<times> string) option" where
  "line_fields line = (case split_on CHR '' '' line of [a, b, c] \<Rightarrow> Some (a, b, c) | _ \<Rightarrow> None)"

definition res_ok :: "'e + 'a \<Rightarrow> 'a option" where
  "res_ok r = (case r of Inl _ \<Rightarrow> None | Inr a \<Rightarrow> Some a)"

definition record_parse :: "(string \<Rightarrow> bytes option) \<Rightarrow> string \<Rightarrow> sum_record option" where
  "record_parse b64d tx =
     do { body \<leftarrow> strip_suffix [CHR 0x0A] tx;
          (tree, manifest) \<leftarrow> (case split_on CHR 0x0A body of [a, b] \<Rightarrow> Some (a, b) | _ \<Rightarrow> None);
          (path, version, tree) \<leftarrow> line_fields tree;
          (path2, version2, manifest) \<leftarrow> line_fields manifest;
          if path \<noteq> path2 \<or> version2 \<noteq> version @ ''/'' @ MANIFEST_FILE then None
          else do { p \<leftarrow> res_ok (source_path_parse path);
                    v \<leftarrow> res_ok (version_parse version);
                    t \<leftarrow> res_ok (h1_parse b64d tree);
                    m \<leftarrow> res_ok (h1_parse b64d manifest);
                    let record = \<lparr>rec_path = p, rec_version = v, rec_tree = t, rec_manifest = m\<rparr>;
                    if record_to_text record = tx then Some record else None } }"

record lookup =
  lk_index :: nat
  lk_record :: sum_record
  lk_data :: string
  lk_checkpoint :: string

definition lookup_parse :: "(string \<Rightarrow> bytes option) \<Rightarrow> string \<Rightarrow> lookup option" where
  "lookup_parse b64d body =
     do { (index, rest) \<leftarrow> split_once CHR 0x0A body;
          if index = [] \<or> (1 < length index \<and> starts_with ''0'' index) then None
          else do { index \<leftarrow> parse_u64 index;
                    (line1, rest1) \<leftarrow> split_once CHR 0x0A rest;
                    (line2, rest2) \<leftarrow> split_once CHR 0x0A rest1;
                    let data = line1 @ [CHR 0x0A] @ line2 @ [CHR 0x0A];
                    note \<leftarrow> strip_prefix [CHR 0x0A] rest2;
                    record \<leftarrow> record_parse b64d data;
                    Some \<lparr>lk_index = index, lk_record = record, lk_data = data, lk_checkpoint = note\<rparr> } }"

section \<open>Round trips\<close>

text \<open>What is documented of the base64 decoder: it accepts no separator.\<close>

definition b64d_strict :: "(string \<Rightarrow> bytes option) \<Rightarrow> bool" where
  "b64d_strict b64d \<longleftrightarrow> (\<forall>s d. b64d s = Some d \<longrightarrow> CHR '' '' \<notin> set s \<and> CHR 0x0A \<notin> set s)"

definition record_valid :: "(string \<Rightarrow> bytes option) \<Rightarrow> sum_record \<Rightarrow> bool" where
  "record_valid b64d r \<longleftrightarrow>
     source_path_parse (path_str (rec_path r)) = Inr (rec_path r)
     \<and> version_parse (raw (rec_version r)) = Inr (rec_version r)
     \<and> h1_parse b64d (h1_str (rec_tree r)) = Inr (rec_tree r)
     \<and> h1_parse b64d (h1_str (rec_manifest r)) = Inr (rec_manifest r)"

lemma res_ok_Some: "res_ok r = Some a \<longleftrightarrow> r = Inr a"
  by (cases r) (simp_all add: res_ok_def)

lemma set_join_with: "set (join_with sep ps) \<subseteq> set sep \<union> \<Union> (set ` set ps)"
  by (induction sep ps rule: join_with.induct) auto

lemma version_no_sep:
  assumes "version_parse s = Inr v"
  shows "CHR '' '' \<notin> set s" "CHR 0x0A \<notin> set s"
proof -
  have wf: "version_wf v" "raw v = s" using version_parse_wf [OF assms] by simp_all
  have id: "CHR '' '' \<notin> set i \<and> CHR 0x0A \<notin> set i" if "is_numeric i \<or> is_alphanumeric_id i" for i
    using that by (auto simp: is_numeric_def is_alphanumeric_id_def list_all_iff ascii_defs byte_def)
  have num: "CHR '' '' \<notin> set (show_nat n) \<and> CHR 0x0A \<notin> set (show_nat n)" for n
    using show_nat_digits [of n] by (auto simp: list_all_iff ascii_defs byte_def)
  have "s = version_text (major v) (minor v) (patch v) (prerelease v)" using wf by (simp add: version_wf_def)
  moreover have "CHR '' '' \<notin> set (join_with ''.'' ps) \<and> CHR 0x0A \<notin> set (join_with ''.'' ps)"
    if "\<And>p. p \<in> set ps \<Longrightarrow> CHR '' '' \<notin> set p \<and> CHR 0x0A \<notin> set p" for ps
    using set_join_with [of "''.''" ps] that by fastforce
  ultimately show "CHR '' '' \<notin> set s" "CHR 0x0A \<notin> set s"
    using wf(1) id num by (auto simp: version_text_def version_wf_def list_all_iff)
qed

lemma path_no_sep:
  assumes "source_path_parse s = Inr p"
  shows "CHR '' '' \<notin> set s" "CHR 0x0A \<notin> set s"
  using parsed_chars [OF path_parsedI [OF assms], of "CHR '' ''"] parsed_chars [OF path_parsedI [OF assms], of "CHR 0x0A"]
    source_path_parse_str [OF assms]
  by (auto simp: ascii_defs byte_def)

lemma h1_no_sep:
  assumes "b64d_strict b64d" "h1_parse b64d s = Inr h"
  shows "CHR '' '' \<notin> set s" "CHR 0x0A \<notin> set s" "h = H1 s"
  using assms by (auto simp: h1_parse_def b64d_strict_def strip_prefix_SomeD split: option.splits if_splits)

lemma record_parse_valid: "record_parse b64d tx = Some r \<Longrightarrow> record_to_text r = tx \<and> record_valid b64d r"
proof -
  assume "record_parse b64d tx = Some r"
  then obtain path ver tree manifest p v t m where
    ok: "source_path_parse path = Inr p" "version_parse ver = Inr v" "h1_parse b64d tree = Inr t" "h1_parse b64d manifest = Inr m"
    and r: "r = \<lparr>rec_path = p, rec_version = v, rec_tree = t, rec_manifest = m\<rparr>" "record_to_text r = tx"
    by (auto simp: record_parse_def Let_def bind_eq_Some_conv res_ok_Some split: if_splits)
  have "path_str p = path" using source_path_parse_str [OF ok(1)] by simp
  moreover have "raw v = ver" using version_parse_wf [OF ok(2)] by simp
  moreover have "h1_str t = tree" "h1_str m = manifest" using ok(3,4) by (auto simp: h1_parse_def split: option.splits if_splits)
  ultimately show ?thesis using ok r by (simp add: record_valid_def)
qed

lemma fields_join:
  assumes "CHR '' '' \<notin> set a" "CHR '' '' \<notin> set b" "CHR '' '' \<notin> set c"
  shows "line_fields (a @ CHR '' '' # b @ CHR '' '' # c) = Some (a, b, c)"
  using assms by (simp add: line_fields_def split_on_append split_on_free)

lemma record_text_parse:
  assumes "b64d_strict b64d" "record_valid b64d r"
  shows "record_parse b64d (record_to_text r) = Some r"
proof -
  let ?p = "path_str (rec_path r)" and ?v = "raw (rec_version r)"
  let ?t = "h1_str (rec_tree r)" and ?m = "h1_str (rec_manifest r)"
  have valid: "source_path_parse ?p = Inr (rec_path r)" "version_parse ?v = Inr (rec_version r)"
    "h1_parse b64d ?t = Inr (rec_tree r)" "h1_parse b64d ?m = Inr (rec_manifest r)"
    using assms(2) by (simp_all add: record_valid_def)
  note seps = path_no_sep [OF valid(1)] version_no_sep [OF valid(2)] h1_no_sep(1,2) [OF assms(1) valid(3)]
    h1_no_sep(1,2) [OF assms(1) valid(4)]
  let ?l1 = "?p @ CHR '' '' # ?v @ CHR '' '' # ?t"
  let ?w = "?v @ ''/'' @ MANIFEST_FILE"
  let ?l2 = "?p @ CHR '' '' # ?w @ CHR '' '' # ?m"
  have tx: "record_to_text r = (?l1 @ CHR 0x0A # ?l2) @ [CHR 0x0A]" by (simp add: record_to_text_def)
  have w: "CHR '' '' \<notin> set ?w" "CHR 0x0A \<notin> set ?w" using seps by (simp_all add: MANIFEST_FILE_def)
  have "split_on CHR 0x0A (?l1 @ CHR 0x0A # ?l2) = [?l1, ?l2]"
    using seps w by (subst split_on_append) (simp_all add: split_on_free)
  moreover have "line_fields ?l1 = Some (?p, ?v, ?t)" "line_fields ?l2 = Some (?p, ?w, ?m)"
    using seps w by (intro fields_join; simp)+
  moreover have "strip_suffix [CHR 0x0A] (record_to_text r) = Some (?l1 @ CHR 0x0A # ?l2)"
    unfolding tx by (simp add: strip_suffix_SomeD)
  ultimately show ?thesis
    using valid by (cases r) (simp add: record_parse_def Let_def res_ok_def)
qed

text \<open>
  a record and its text determine each other: what is read is exactly the text of a valid record,
  so two leaves of the log with different bytes are different records.
\<close>

theorem record_parse_exact:
  assumes "b64d_strict b64d"
  shows "record_parse b64d tx = Some r \<longleftrightarrow> record_valid b64d r \<and> tx = record_to_text r"
  using record_parse_valid [of b64d tx r] record_text_parse [OF assms, of r] by auto

lemma split_once_lines:
  assumes "CHR 0x0A \<notin> set a" "CHR 0x0A \<notin> set b"
  shows "split_once CHR 0x0A (a @ CHR 0x0A # b @ CHR 0x0A # c) = Some (a, b @ CHR 0x0A # c)"
    "split_once CHR 0x0A (b @ CHR 0x0A # c) = Some (b, c)"
  using assms by (simp_all add: split_once_append)

lemma lookup_parse_data:
  assumes "lookup_parse b64d body = Some l"
  shows "lk_data l = record_to_text (lk_record l)" "record_valid b64d (lk_record l)" "lk_index l < u64_bound"
    "\<exists>index. parse_u64 index = Some (lk_index l) \<and> body = index @ [CHR 0x0A] @ lk_data l @ [CHR 0x0A] @ lk_checkpoint l"
proof -
  obtain index rest line1 rest1 line2 rest2 nt n r where
    x: "split_once CHR 0x0A body = Some (index, rest)" "parse_u64 index = Some n" "split_once CHR 0x0A rest = Some (line1, rest1)"
      "split_once CHR 0x0A rest1 = Some (line2, rest2)" "strip_prefix [CHR 0x0A] rest2 = Some nt"
      "record_parse b64d (line1 @ [CHR 0x0A] @ line2 @ [CHR 0x0A]) = Some r"
      "l = \<lparr>lk_index = n, lk_record = r, lk_data = line1 @ [CHR 0x0A] @ line2 @ [CHR 0x0A], lk_checkpoint = nt\<rparr>"
    using assms by (auto simp: lookup_parse_def Let_def bind_eq_Some_conv split: if_splits)
  have "body = index @ CHR 0x0A # rest" "rest = line1 @ CHR 0x0A # rest1" "rest1 = line2 @ CHR 0x0A # rest2" "rest2 = CHR 0x0A # nt"
    using split_once_SomeD [OF x(1)] split_once_SomeD [OF x(3)] split_once_SomeD [OF x(4)] x(5) by (simp_all add: strip_prefix_SomeD)
  with x(2,7) show "\<exists>index. parse_u64 index = Some (lk_index l) \<and> body = index @ [CHR 0x0A] @ lk_data l @ [CHR 0x0A] @ lk_checkpoint l"
    by (intro exI [of _ index]) simp
  show "lk_data l = record_to_text (lk_record l)" "record_valid b64d (lk_record l)" "lk_index l < u64_bound"
    using record_parse_valid [OF x(6)] parse_u64_bound [OF x(2)] x(7) by simp_all
qed

lemma record_lines:
  assumes "b64d_strict b64d" "record_valid b64d r"
  obtains l1 l2 where "record_to_text r = l1 @ CHR 0x0A # l2 @ [CHR 0x0A]" "CHR 0x0A \<notin> set l1" "CHR 0x0A \<notin> set l2"
proof -
  have valid: "source_path_parse (path_str (rec_path r)) = Inr (rec_path r)" "version_parse (raw (rec_version r)) = Inr (rec_version r)"
    "h1_parse b64d (h1_str (rec_tree r)) = Inr (rec_tree r)" "h1_parse b64d (h1_str (rec_manifest r)) = Inr (rec_manifest r)"
    using assms(2) by (simp_all add: record_valid_def)
  note seps = path_no_sep(2) [OF valid(1)] version_no_sep(2) [OF valid(2)] h1_no_sep(2) [OF assms(1) valid(3)]
    h1_no_sep(2) [OF assms(1) valid(4)]
  show thesis
    by (rule that [of "path_str (rec_path r) @ '' '' @ raw (rec_version r) @ '' '' @ h1_str (rec_tree r)"
          "path_str (rec_path r) @ '' '' @ raw (rec_version r) @ ''/'' @ MANIFEST_FILE @ '' '' @ h1_str (rec_manifest r)"])
      (use seps in \<open>simp_all add: record_to_text_def MANIFEST_FILE_def\<close>)
qed

text \<open>The body of a lookup is read as it was made.\<close>

lemma lookup_parse_text:
  assumes "b64d_strict b64d" "record_valid b64d r" "n < u64_bound"
  shows "lookup_parse b64d (show_nat n @ [CHR 0x0A] @ record_to_text r @ [CHR 0x0A] @ nt)
    = Some \<lparr>lk_index = n, lk_record = r, lk_data = record_to_text r, lk_checkpoint = nt\<rparr>"
proof -
  obtain l1 l2 where l: "record_to_text r = l1 @ CHR 0x0A # l2 @ [CHR 0x0A]" "CHR 0x0A \<notin> set l1" "CHR 0x0A \<notin> set l2"
    using record_lines [OF assms(1,2)] .
  have digits: "CHR 0x0A \<notin> set (show_nat n)"
    using show_nat_digits [of n] by (auto simp: list_all_iff ascii_defs byte_def)
  have canon: "show_nat n \<noteq> []" "\<not> (1 < length (show_nat n) \<and> starts_with ''0'' (show_nat n))"
    using canonical_show_nat [of n] by (auto simp: canonical_dec_def starts_with_iff)
  have "split_once CHR 0x0A (show_nat n @ [CHR 0x0A] @ record_to_text r @ [CHR 0x0A] @ nt)
      = Some (show_nat n, record_to_text r @ CHR 0x0A # nt)" using digits by (simp add: split_once_append)
  moreover have "split_once CHR 0x0A (record_to_text r @ CHR 0x0A # nt) = Some (l1, l2 @ CHR 0x0A # CHR 0x0A # nt)"
    "split_once CHR 0x0A (l2 @ CHR 0x0A # CHR 0x0A # nt) = Some (l2, CHR 0x0A # nt)"
    using l by (simp_all add: split_once_append)
  moreover have "record_parse b64d (l1 @ [CHR 0x0A] @ l2 @ [CHR 0x0A]) = Some r"
    using record_text_parse [OF assms(1,2)] l(1) by simp
  ultimately show ?thesis
    using canon parse_u64_show_nat [OF assms(3)] l(1) by (simp add: lookup_parse_def Let_def)
qed

section \<open>An example\<close>

definition toy_b64d :: "string \<Rightarrow> bytes option" where
  "toy_b64d s = (if s = replicate 43 CHR ''A'' @ ''='' then Some (replicate 32 0) else None)"

definition toy_h1 :: h1 where
  "toy_h1 = H1 (''h1:'' @ replicate 43 CHR ''A'' @ ''='')"

definition toy_record :: sum_record where
  "toy_record =
     \<lparr>rec_path = SourcePath ''a.io/x'', rec_version = \<lparr>major = 1, minor = 0, patch = 0, prerelease = [], raw = ''v1.0.0''\<rparr>,
      rec_tree = toy_h1, rec_manifest = toy_h1\<rparr>"

lemma toy_b64d_strict: "b64d_strict toy_b64d"
  by (auto simp: b64d_strict_def toy_b64d_def)

lemma toy_version: "version_parse ''v1.0.0'' = Inr \<lparr>major = 1, minor = 0, patch = 0, prerelease = [], raw = ''v1.0.0''\<rparr>"
  by (simp add: version_parse_def version_num_def version_prerelease_def is_numeric_def is_alphanumeric_id_def str_eval)

lemma toy_path: "source_path_parse ''a.io/x'' = Inr (SourcePath ''a.io/x'')"
  by code_simp

lemma toy_record_valid: "record_valid toy_b64d toy_record"
proof -
  have "h1_parse toy_b64d (h1_str toy_h1) = Inr toy_h1"
    by (simp add: h1_parse_def toy_h1_def toy_b64d_def ends_with_iff)
  then show ?thesis by (simp add: record_valid_def toy_record_def toy_version toy_path)
qed

theorem record_parse_exact_witness: "record_parse toy_b64d (record_to_text toy_record) = Some toy_record"
  by (rule iffD2 [OF record_parse_exact [OF toy_b64d_strict]]) (simp add: toy_record_valid)

end
