(* ===== verification/Fetch_World.thy ===== *)
theory Fetch_World
  imports Emela_Utf8
begin

text \<open>
  What the fetching code acts on: \<open>crates/emela-pome/src/fetch/transport.rs\<close>, \<open>cache.rs\<close> and the
  errors of \<open>fetch/mod.rs\<close>.

  An operation is a function of the world: the cache on disk and a clock. The network, \<open>git\<close> and
  the file system answer through the environment, whose answers may differ at every tick of the clock, so
  that no two exchanges are assumed to agree. A panic is \<open>None\<close>.
\<close>

section \<open>Errors and answers\<close>

datatype fetch_error =
    NotFound string
  | Verify string
  | Network string
  | Cache string
  | Manifest string
  | NoSource string

fun fetch_error_text :: "fetch_error \<Rightarrow> string" where
  "fetch_error_text (NotFound m) = m"
| "fetch_error_text (Verify m) = m"
| "fetch_error_text (Network m) = m"
| "fetch_error_text (Cache m) = m"
| "fetch_error_text (Manifest m) = m"
| "fetch_error_text (NoSource m) = m"

record response =
  res_status :: nat
  res_body :: bytes

definition response_text :: "response \<Rightarrow> string" where
  "response_text res = trim (from_utf8_lossy (res_body res))"

type_synonym dir_files = "(string \<times> bytes) list"

text \<open>
  How putting a directory into the cache ends once its files are written to a temporary one: it is
  renamed into place, another process has put the directory there first, or there is an error.
\<close>

datatype dir_result = Renamed | Raced dir_files | DirFailed string

record environment =
  env_get :: "nat \<Rightarrow> string \<Rightarrow> string + response"
  env_git :: "nat \<Rightarrow> string list \<Rightarrow> bytes \<Rightarrow> string + bytes"
  env_tempdir :: "nat \<Rightarrow> string option"
  env_put_file :: "nat \<Rightarrow> string \<Rightarrow> string option"
  env_put_dir :: "nat \<Rightarrow> string \<Rightarrow> dir_result"

record world =
  clock :: nat
  cache_files :: "string \<rightharpoonup> bytes"
  cache_dirs :: "string \<rightharpoonup> dir_files"

section \<open>Actions\<close>

type_synonym 'a act = "world \<Rightarrow> ((fetch_error + 'a) \<times> world) option"

definition ret :: "'a \<Rightarrow> 'a act" where
  "ret a = (\<lambda>w. Some (Inr a, w))"

definition fail :: "fetch_error \<Rightarrow> 'a act" where
  "fail e = (\<lambda>w. Some (Inl e, w))"

definition lift_result :: "fetch_error + 'a \<Rightarrow> 'a act" where
  "lift_result r = (\<lambda>w. Some (r, w))"

text \<open>The operator \<open>?\<close>.\<close>

definition and_then :: "'a act \<Rightarrow> ('a \<Rightarrow> 'b act) \<Rightarrow> 'b act" where
  "and_then m f = (\<lambda>w. case m w of
     None \<Rightarrow> None
   | Some (r, w') \<Rightarrow> (case r of Inl e \<Rightarrow> Some (Inl e, w') | Inr a \<Rightarrow> f a w'))"

definition tick :: "world \<Rightarrow> world" where
  "tick w = w\<lparr>clock := clock w + 1\<rparr>"

definition http_get :: "environment \<Rightarrow> string \<Rightarrow> response act" where
  "http_get env url = (\<lambda>w.
     Some (case env_get env (clock w) url of Inl e \<Rightarrow> Inl (Network e) | Inr res \<Rightarrow> Inr res, tick w))"

text \<open>\<open>git\<close> with the given arguments and standard input: its output, or the message of the failure.\<close>

definition run_git :: "environment \<Rightarrow> (string \<Rightarrow> fetch_error) \<Rightarrow> string list \<Rightarrow> bytes \<Rightarrow> bytes act" where
  "run_git env f args input = (\<lambda>w.
     Some (case env_git env (clock w) args input of Inl e \<Rightarrow> Inl (f e) | Inr out \<Rightarrow> Inr out, tick w))"

text \<open>A result that may be a panic.\<close>

definition lift_panic :: "(fetch_error + 'a) option \<Rightarrow> 'a act" where
  "lift_panic r = (\<lambda>w. map_option (\<lambda>x. (x, w)) r)"

section \<open>The cache\<close>

text \<open>\<open>Path::join\<close>: an absolute path replaces the first one.\<close>

definition path_join :: "string \<Rightarrow> string \<Rightarrow> string" where
  "path_join a b =
     (if starts_with ''/'' b \<or> a = [] then b
      else if ends_with ''/'' a then a @ b
      else a @ ''/'' @ b)"

definition checkpoint_file :: "string \<Rightarrow> string \<Rightarrow> string" where
  "checkpoint_file root key_name = path_join (path_join (path_join root ''sumdb'') key_name) ''latest''"

definition read_file :: "string \<Rightarrow> world \<Rightarrow> bytes option" where
  "read_file path w = cache_files w path"

definition put_file :: "environment \<Rightarrow> string \<Rightarrow> bytes \<Rightarrow> unit act" where
  "put_file env path content = (\<lambda>w.
     case env_put_file env (clock w) path of
       Some e \<Rightarrow> Some (Inl (Cache e), tick w)
     | None \<Rightarrow> Some (Inr (), (tick w)\<lparr>cache_files := (cache_files w)(path \<mapsto> content)\<rparr>))"

definition outside :: "string \<Rightarrow> bool" where
  "outside name \<longleftrightarrow>
     starts_with ''/'' name \<or> list_ex (\<lambda>e. e = [] \<or> e = ''.'' \<or> e = ''..'') (split_on CHR ''/'' name)"

definition put_dir :: "environment \<Rightarrow> string \<Rightarrow> dir_files \<Rightarrow> string act" where
  "put_dir env dir files = (\<lambda>w.
     if cache_dirs w dir \<noteq> None then Some (Inr dir, w)
     else (case find (\<lambda>f. outside (fst f)) files of
             Some f \<Rightarrow>
               Some (Inl (Cache (''refusing to write `'' @ fst f @ ''` outside the version's directory'')), tick w)
           | None \<Rightarrow>
               (case env_put_dir env (clock w) dir of
                  Renamed \<Rightarrow> Some (Inr dir, (tick w)\<lparr>cache_dirs := (cache_dirs w)(dir \<mapsto> files)\<rparr>)
                | Raced other \<Rightarrow> Some (Inr dir, (tick w)\<lparr>cache_dirs := (cache_dirs w)(dir \<mapsto> other)\<rparr>)
                | DirFailed e \<Rightarrow> Some (Inl (Cache e), tick w))))"

section \<open>Reasoning about actions\<close>

lemma and_then_Inr:
  "and_then m f w = Some (Inr b, w2) \<longleftrightarrow> (\<exists>a w1. m w = Some (Inr a, w1) \<and> f a w1 = Some (Inr b, w2))"
  by (auto simp: and_then_def split: option.splits sum.splits)

lemma and_then_Some:
  "and_then m f w = Some (r, w2) \<longleftrightarrow>
     (\<exists>e. m w = Some (Inl e, w2) \<and> r = Inl e) \<or> (\<exists>a w1. m w = Some (Inr a, w1) \<and> f a w1 = Some (r, w2))"
  by (auto simp: and_then_def split: option.splits sum.splits)

lemma act_simps [simp]:
  "ret a w = Some (Inr a, w)" "fail e w = Some (Inl e, w)" "lift_result r w = Some (r, w)"
  by (simp_all add: ret_def fail_def lift_result_def)

lemma tick_simps [simp]:
  "cache_files (tick w) = cache_files w" "cache_dirs (tick w) = cache_dirs w" "clock (tick w) = Suc (clock w)"
  by (simp_all add: tick_def)

text \<open>
  What every action keeps of the world: a relation of the world before and after, whatever the
  result. It is proved of the basic actions and carried over by \<open>and_then\<close>.
\<close>

definition keeps :: "(world \<Rightarrow> world \<Rightarrow> bool) \<Rightarrow> 'a act \<Rightarrow> bool" where
  "keeps R m \<longleftrightarrow> (\<forall>w r w'. m w = Some (r, w') \<longrightarrow> R w w')"

lemma keepsI: "(\<And>w r w'. m w = Some (r, w') \<Longrightarrow> R w w') \<Longrightarrow> keeps R m"
  by (simp add: keeps_def)

lemma keepsD: "keeps R m \<Longrightarrow> m w = Some (r, w') \<Longrightarrow> R w w'"
  by (simp add: keeps_def)

locale world_order =
  fixes R :: "world \<Rightarrow> world \<Rightarrow> bool"
  assumes refl: "R w w"
    and trans: "R w1 w2 \<Longrightarrow> R w2 w3 \<Longrightarrow> R w1 w3"
    and ticks: "R w (tick w)"
begin

lemma keeps_pure: "keeps R (ret a)" "keeps R (fail e)" "keeps R (lift_result r)"
  by (auto intro!: keepsI simp: refl)

lemma keeps_and_then:
  assumes "keeps R m" "\<And>a w w'. m w = Some (Inr a, w') \<Longrightarrow> keeps R (f a)"
  shows "keeps R (and_then m f)"
proof (rule keepsI)
  fix w r w'
  assume "and_then m f w = Some (r, w')"
  then consider e where "m w = Some (Inl e, w')" | a w1 where "m w = Some (Inr a, w1)" "f a w1 = Some (r, w')"
    by (auto simp: and_then_Some)
  then show "R w w'"
  proof cases
    case 1
    then show ?thesis by (rule keepsD [OF assms(1)])
  next
    case 2
    then show ?thesis
      using trans [OF keepsD [OF assms(1) 2(1)]] keepsD [OF assms(2) [OF 2(1)] 2(2)] by blast
  qed
qed

lemma keeps_panic: "keeps R (lift_panic r)"
  by (auto intro!: keepsI simp: lift_panic_def refl)

lemma keeps_get: "keeps R (http_get env url)"
  by (rule keepsI) (auto simp: http_get_def ticks)

lemma keeps_git: "keeps R (run_git env f args input)"
  by (rule keepsI) (auto simp: run_git_def ticks)

end

text \<open>The directories of the cache are never changed once they are there.\<close>

definition dirs_stay :: "world \<Rightarrow> world \<Rightarrow> bool" where
  "dirs_stay w w' \<longleftrightarrow> (\<forall>d files. cache_dirs w d = Some files \<longrightarrow> cache_dirs w' d = Some files)"

interpretation dirs: world_order dirs_stay
  by unfold_locales (auto simp: dirs_stay_def)

lemma dirs_put_file: "keeps dirs_stay (put_file env p c)"
  by (rule keepsI) (auto simp: put_file_def dirs_stay_def split: option.splits)

lemma dirs_put_dir: "keeps dirs_stay (put_dir env d fs)"
  by (rule keepsI) (auto simp: put_dir_def dirs_stay_def split: option.splits dir_result.splits if_splits)

end
