(* ===== verification/Sumdb_Client.thy ===== *)
theory Sumdb_Client
  imports Fetch_World Sumdb_Note Sumdb_Record Sumdb_Tlog
begin

text \<open>
  The client of the checksum database: \<open>crates/emela-pome/src/fetch/sumdb.rs\<close>. A lookup is accepted
  only when its record is in the tree that the database's key signed, and the largest checkpoint
  seen is kept in the cache and never replaced by a smaller one.
\<close>

section \<open>Operations\<close>

record 'k sumdb_config =
  sd_verifier :: "'k verifier"
  sd_url :: string

fun note_error_text :: "note_error \<Rightarrow> string" where
  "note_error_text (NoteError m) = ''invalid note: '' @ m"

definition client_bad :: "'k sumdb_config \<Rightarrow> string \<Rightarrow> fetch_error" where
  "client_bad cfg message =
     Verify (''checksum database '' @ vf_name (sd_verifier cfg) @ '': '' @ message)"

definition client_proof :: "'k sumdb_config \<Rightarrow> fetch_error proof_error \<Rightarrow> string \<Rightarrow> fetch_error" where
  "client_proof cfg e mismatch =
     (case e of
        Source e \<Rightarrow> e
      | BadTile t \<Rightarrow> client_bad cfg (tile_path t @ '' has the wrong size'')
      | Mismatch \<Rightarrow> client_bad cfg mismatch)"

text \<open>
  The tiles of one proof. Its reader asks for a tile at most once, so that one tick of the clock
  stands for the whole proof.
\<close>

definition client_tile :: "environment \<Rightarrow> 'k sumdb_config \<Rightarrow> nat \<Rightarrow> fetch_error tile_source" where
  "client_tile env cfg now t =
     (let url = sd_url cfg @ ''/'' @ tile_path t in
      case env_get env now url of
        Inl e \<Rightarrow> Inl (Network e)
      | Inr res \<Rightarrow>
          if res_status res \<noteq> 200
          then Inl (Network (''GET '' @ url @ '': '' @ show_nat (res_status res)))
          else Inr (res_body res))"

definition run_proof ::
    "environment \<Rightarrow> 'k sumdb_config \<Rightarrow> (fetch_error tile_source \<Rightarrow> (fetch_error proof_error + unit) option)
     \<Rightarrow> string \<Rightarrow> unit act" where
  "run_proof env cfg check mismatch = (\<lambda>w.
     case check (client_tile env cfg (clock w)) of
       None \<Rightarrow> None
     | Some (Inl e) \<Rightarrow> Some (Inl (client_proof cfg e mismatch), tick w)
     | Some (Inr _) \<Rightarrow> Some (Inr (), tick w))"

definition client_open :: "('k, 's) crypto \<Rightarrow> 'k sumdb_config \<Rightarrow> string \<Rightarrow> fetch_error + checkpoint" where
  "client_open cr cfg note_text =
     (case note_open cr note_text (sd_verifier cfg) of
        Inl e \<Rightarrow> Inl (client_bad cfg (note_error_text e))
      | Inr txt \<Rightarrow>
          (case checkpoint_parse cr txt of
             Inl e \<Rightarrow> Inl (client_bad cfg (note_error_text e))
           | Inr checkpoint \<Rightarrow>
               if cp_origin checkpoint \<noteq> vf_name (sd_verifier cfg)
               then Inl (client_bad cfg (''checkpoint of `'' @ cp_origin checkpoint @ ''`''))
               else Inr checkpoint))"

definition client_seen ::
    "('k, 's) crypto \<Rightarrow> string \<Rightarrow> 'k sumdb_config \<Rightarrow> world \<Rightarrow> fetch_error + checkpoint option" where
  "client_seen cr root cfg w =
     (case Option.bind (read_file (checkpoint_file root (vf_name (sd_verifier cfg))) w) from_utf8 of
        None \<Rightarrow> Inr None
      | Some s \<Rightarrow> (case client_open cr cfg s of Inl e \<Rightarrow> Inl e | Inr c \<Rightarrow> Inr (Some c)))"

definition advance ::
    "('k, 's) crypto \<Rightarrow> environment \<Rightarrow> string \<Rightarrow> 'k sumdb_config \<Rightarrow> checkpoint \<Rightarrow> string \<Rightarrow> unit act" where
  "advance cr env root cfg new note_text = (\<lambda>w.
     let file = checkpoint_file root (vf_name (sd_verifier cfg)) in
     case client_seen cr root cfg w of
       Inl e \<Rightarrow> Some (Inl e, w)
     | Inr None \<Rightarrow> put_file env file (as_bytes note_text) w
     | Inr (Some seen) \<Rightarrow>
         (let (old, newer) = (if cp_size seen \<le> cp_size new then (seen, new) else (new, seen)) in
          and_then
            (run_proof env cfg
               (\<lambda>src. verify_consistency (cr_sha cr) src (cp_size old) (cp_root old) (cp_size newer) (cp_root newer))
               ''the checksum database's tree is not consistent with the one seen before'')
            (\<lambda>_. if cp_size seen < cp_size new then put_file env file (as_bytes note_text) else ret ()) w))"

definition client_status :: "string \<Rightarrow> response \<Rightarrow> fetch_error + unit" where
  "client_status url res =
     (if res_status res = 200 then Inr ()
      else if res_status res = 404 \<or> res_status res = 410
      then Inl (NotFound (''checksum database: '' @ response_text res))
      else Inl (Network (''GET '' @ url @ '': '' @ show_nat (res_status res) @ '' '' @ response_text res)))"

definition client_body ::
    "('k, 's) crypto \<Rightarrow> 'k sumdb_config \<Rightarrow> source_path \<Rightarrow> version \<Rightarrow> bytes \<Rightarrow> fetch_error + lookup" where
  "client_body cr cfg path v body =
     (case from_utf8 body of
        None \<Rightarrow> Inl (client_bad cfg ''the lookup is not UTF-8'')
      | Some tx \<Rightarrow>
          (case lookup_parse (cr_b64d cr) tx of
             None \<Rightarrow> Inl (client_bad cfg ''malformed lookup'')
           | Some l \<Rightarrow>
               if rec_path (lk_record l) \<noteq> path \<or> rec_version (lk_record l) \<noteq> v
               then Inl (client_bad cfg (''asked for '' @ path_str path @ ''@'' @ raw v @ '', got ''
                           @ path_str (rec_path (lk_record l)) @ ''@'' @ raw (rec_version (lk_record l))))
               else Inr l))"

definition client_lookup ::
    "('k, 's) crypto \<Rightarrow> environment \<Rightarrow> string \<Rightarrow> 'k sumdb_config \<Rightarrow> source_path \<Rightarrow> version \<Rightarrow> sum_record act" where
  "client_lookup cr env root cfg path v =
     (let url = sd_url cfg @ ''/lookup/'' @ escaped path @ ''@'' @ raw v in
      and_then (http_get env url) (\<lambda>res.
      and_then (lift_result (client_status url res)) (\<lambda>_.
      and_then (lift_result (client_body cr cfg path v (res_body res))) (\<lambda>l.
      and_then (lift_result (client_open cr cfg (lk_checkpoint l))) (\<lambda>checkpoint.
      and_then
        (run_proof env cfg
           (\<lambda>src. verify_inclusion (cr_sha cr) src (cp_size checkpoint) (cp_root checkpoint) (lk_index l) (as_bytes (lk_data l)))
           ''the record is not in the signed tree'') (\<lambda>_.
      and_then (advance cr env root cfg checkpoint (lk_checkpoint l)) (\<lambda>_.
      ret (lk_record l))))))))"

section \<open>What an accepted lookup means\<close>

text \<open>
  The signer is honest about \<open>log\<close>: every checkpoint of its name that its key verifies is the root of
  a prefix of the log.
\<close>

definition honest_signer :: "('k, 's) crypto \<Rightarrow> 'k sumdb_config \<Rightarrow> bytes list \<Rightarrow> bool" where
  "honest_signer cr cfg log \<longleftrightarrow>
     (\<forall>txt sg c. cr_verify cr (vf_key (sd_verifier cfg)) (as_bytes txt) sg \<longrightarrow> checkpoint_parse cr txt = Inr c \<longrightarrow>
        cp_origin c = vf_name (sd_verifier cfg) \<longrightarrow>
        cp_size c \<le> length log \<and> cp_root c = mth (cr_sha cr) (take (cp_size c) log))"

definition log_hashed :: "sha \<Rightarrow> bytes list \<Rightarrow> bytes set" where
  "log_hashed sha log = (\<Union>n\<le>length log. hashed sha (take n log))"

lemma run_proof_Inr:
  "run_proof env cfg check m w = Some (Inr u, w') \<longleftrightarrow> check (client_tile env cfg (clock w)) = Some (Inr ()) \<and> w' = tick w"
  by (cases "check (client_tile env cfg (clock w))"; cases "the (check (client_tile env cfg (clock w)))")
    (auto simp: run_proof_def)

lemma run_proof_Inl: "run_proof env cfg check m w = Some (Inl e, w') \<Longrightarrow> w' = tick w"
  by (auto simp: run_proof_def split: option.splits sum.splits)

lemma client_open_honest:
  assumes "honest_signer cr cfg log" "client_open cr cfg note_text = Inr c"
  shows "cp_size c \<le> length log" "cp_root c = mth (cr_sha cr) (take (cp_size c) log)"
proof -
  obtain body where t: "note_open cr note_text (sd_verifier cfg) = Inr body" "checkpoint_parse cr body = Inr c"
    "cp_origin c = vf_name (sd_verifier cfg)"
    using assms(2) by (auto simp: client_open_def split: sum.splits if_splits)
  obtain sg where "cr_verify cr (vf_key (sd_verifier cfg)) (as_bytes body) sg"
    using note_open_signed(1) [OF t(1)] by blast
  with assms(1) t(2,3) show "cp_size c \<le> length log" "cp_root c = mth (cr_sha cr) (take (cp_size c) log)"
    unfolding honest_signer_def by blast+
qed

lemma client_body_Inr:
  assumes "client_body cr cfg path v body = Inr l"
  shows "rec_path (lk_record l) = path" "rec_version (lk_record l) = v" "record_valid (cr_b64d cr) (lk_record l)"
    "lk_data l = record_to_text (lk_record l)" "utf8_str (lk_checkpoint l)"
proof -
  obtain tx where tx: "from_utf8 body = Some tx" "lookup_parse (cr_b64d cr) tx = Some l"
    and asked: "rec_path (lk_record l) = path" "rec_version (lk_record l) = v"
    using assms by (auto simp: client_body_def split: option.splits if_splits)
  show "rec_path (lk_record l) = path" "rec_version (lk_record l) = v" by fact+
  show "lk_data l = record_to_text (lk_record l)" "record_valid (cr_b64d cr) (lk_record l)"
    by (rule lookup_parse_data [OF tx(2)])+
  obtain index where "tx = (index @ [CHR 0x0A] @ lk_data l) @ CHR 0x0A # lk_checkpoint l"
    using lookup_parse_data(4) [OF tx(2)] by auto
  with from_utf8_str [OF tx(1)] show "utf8_str (lk_checkpoint l)"
    using utf8_str_after_newline by metis
qed

lemma client_lookup_Inr:
  assumes "client_lookup cr env root cfg path v w = Some (Inr r, w')"
  obtains body l c and src :: "fetch_error tile_source" where "client_body cr cfg path v body = Inr l" "client_open cr cfg (lk_checkpoint l) = Inr c"
    "verify_inclusion (cr_sha cr) src (cp_size c) (cp_root c) (lk_index l) (as_bytes (lk_data l)) = Some (Inr ())"
    "r = lk_record l"
  using assms
  by (auto simp: client_lookup_def Let_def and_then_Inr run_proof_Inr)

lemma lookup_in_log:
  assumes "sha_len (cr_sha cr)" "no_second_preimage (cr_sha cr) (log_hashed (cr_sha cr) log)"
    and "honest_signer cr cfg log" "client_lookup cr env root cfg path v w = Some (Inr r, w')"
  shows "rec_path r = path" "rec_version r = v" "record_valid (cr_b64d cr) r" "as_bytes (record_to_text r) \<in> set log"
proof -
  from client_lookup_Inr [OF assms(4)] obtain body l c and src :: "fetch_error tile_source" where
    x: "client_body cr cfg path v body = Inr l" "client_open cr cfg (lk_checkpoint l) = Inr c"
      "verify_inclusion (cr_sha cr) src (cp_size c) (cp_root c) (lk_index l) (as_bytes (lk_data l)) = Some (Inr ())"
      "r = lk_record l" .
  note b = client_body_Inr [OF x(1)]
  show "rec_path r = path" "rec_version r = v" "record_valid (cr_b64d cr) r" using b x(4) by simp_all
  let ?ds = "take (cp_size c) log"
  note h = client_open_honest [OF assms(3) x(2)]
  have "no_second_preimage (cr_sha cr) (hashed (cr_sha cr) ?ds)"
    using assms(2) h(1) by (auto simp: no_second_preimage_def log_hashed_def)
  from inclusion_sound [OF assms(1) this] x(3) h
  have "lk_index l < length ?ds \<and> ?ds ! lk_index l = as_bytes (lk_data l)" by (simp add: min_absorb2)
  then have "as_bytes (lk_data l) \<in> set ?ds" by (metis nth_mem)
  then show "as_bytes (record_to_text r) \<in> set log" using b(4) x(4) in_set_takeD by fastforce
qed

text \<open>
  C8: a record the client accepts is in the log: when the key signs only roots of prefixes of the
  log, whatever the network answers, an accepted lookup returns a valid record of the Pome and the version
  that were asked for, and its bytes are a leaf of the log.
\<close>

theorem lookup_sound:
  assumes "sha_len (cr_sha cr)" "no_second_preimage (cr_sha cr) (log_hashed (cr_sha cr) log)"
    and "honest_signer cr cfg log" "client_lookup cr env root cfg path v w = Some (Inr r, w')"
  shows "rec_path r = path \<and> rec_version r = v \<and> as_bytes (record_to_text r) \<in> set log"
  using lookup_in_log [OF assms] by blast

text \<open>
  The lookup returns, with a record or an error: the proofs do not panic.
\<close>

lemma run_proof_total: "(\<And>src. check src \<noteq> None) \<Longrightarrow> \<exists>r w'. run_proof env cfg check m w = Some (r, w')"
  by (auto simp: run_proof_def split: option.split sum.split)

lemma and_then_total:
  assumes "\<exists>r w'. m w = Some (r, w')" "\<And>a w. \<exists>r w'. f a w = Some (r, w')"
  shows "\<exists>r w'. and_then m f w = Some (r, w')"
  using assms by (auto simp: and_then_def split: sum.split)

lemma advance_total:
  assumes "sha_len (cr_sha cr)"
  shows "\<exists>r w'. advance cr env root cfg new note_text w = Some (r, w')"
proof -
  have put: "\<exists>r w'. put_file env f c w = Some (r, w')" for f c w by (simp add: put_file_def split: option.split)
  then show ?thesis
    by (auto simp: advance_def Let_def put split: option.split sum.split
        intro!: and_then_total run_proof_total consistency_total [OF assms])
qed

lemma client_lookup_total:
  assumes "sha_len (cr_sha cr)"
  shows "\<exists>r w'. client_lookup cr env root cfg path v w = Some (r, w')"
  unfolding client_lookup_def Let_def
  by (intro and_then_total run_proof_total inclusion_total assms advance_total) (simp_all add: http_get_def)

text \<open>What every action of the client keeps, when writing the checkpoint keeps it.\<close>

context world_order
begin

lemma keeps_run_proof: "keeps R (run_proof env cfg check m)"
  by (rule keepsI) (auto simp: run_proof_def ticks split: option.splits sum.splits)

lemma keeps_advance:
  assumes "\<And>c. keeps R (put_file env (checkpoint_file root (vf_name (sd_verifier cfg))) c)"
  shows "keeps R (advance cr env root cfg new nt)"
proof (rule keepsI)
  fix w r w'
  assume run: "advance cr env root cfg new nt w = Some (r, w')"
  let ?file = "checkpoint_file root (vf_name (sd_verifier cfg))"
  have put: "put_file env ?file c w1 = Some (r, w') \<Longrightarrow> R w1 w'" for c w1
    by (rule keepsD [OF assms])
  from run show "R w w'"
    by (auto simp: advance_def Let_def and_then_Some run_proof_Inr refl ticks dest!: run_proof_Inl
        intro: put trans [OF ticks put] split: sum.splits option.splits if_splits)
qed

lemma keeps_client_lookup:
  assumes "\<And>c. keeps R (put_file env (checkpoint_file root (vf_name (sd_verifier cfg))) c)"
  shows "keeps R (client_lookup cr env root cfg path v)"
  unfolding client_lookup_def Let_def
  by (intro keeps_and_then keeps_get keeps_pure keeps_run_proof keeps_advance assms)

end

section \<open>The kept checkpoint\<close>

text \<open>
  One checkpoint follows another: its tree is larger, and the consistency of the two was checked.
\<close>

definition follows :: "sha \<Rightarrow> checkpoint \<Rightarrow> checkpoint \<Rightarrow> bool" where
  "follows sha c c' \<longleftrightarrow>
     cp_size c < cp_size c'
     \<and> (\<exists>src :: fetch_error tile_source. verify_consistency sha src (cp_size c) (cp_root c) (cp_size c') (cp_root c') = Some (Inr ()))"

definition checkpoint_grows :: "('k, 's) crypto \<Rightarrow> string \<Rightarrow> 'k sumdb_config \<Rightarrow> world \<Rightarrow> world \<Rightarrow> bool" where
  "checkpoint_grows cr root cfg w w' \<longleftrightarrow>
     (\<forall>c. client_seen cr root cfg w = Inr (Some c) \<longrightarrow>
        (\<exists>c'. client_seen cr root cfg w' = Inr (Some c') \<and> (follows (cr_sha cr))\<^sup>*\<^sup>* c c'))"

lemma client_seen_tick [simp]: "client_seen cr root cfg (tick w) = client_seen cr root cfg w"
  by (simp add: client_seen_def read_file_def)

interpretation grows: world_order "checkpoint_grows cr root cfg" for cr root cfg
proof
  fix w1 w2 w3
  assume "checkpoint_grows cr root cfg w1 w2" "checkpoint_grows cr root cfg w2 w3"
  then show "checkpoint_grows cr root cfg w1 w3" unfolding checkpoint_grows_def by (meson rtranclp_trans)
qed (auto simp: checkpoint_grows_def)

lemma seen_after_put:
  assumes "client_open cr cfg note_text = Inr c" "utf8_str note_text"
    and "put_file env (checkpoint_file root (vf_name (sd_verifier cfg))) (as_bytes note_text) w = Some (r, w')"
  shows "client_seen cr root cfg w' = Inr (Some c) \<or> w' = tick w"
  using assms
  by (auto simp: put_file_def client_seen_def read_file_def from_utf8_as_bytes split: option.splits)

lemma advance_grows:
  assumes "client_open cr cfg note_text = Inr new" "utf8_str note_text"
  shows "keeps (checkpoint_grows cr root cfg) (advance cr env root cfg new note_text)"
proof (rule keepsI)
  fix w r w'
  assume run: "advance cr env root cfg new note_text w = Some (r, w')"
  show "checkpoint_grows cr root cfg w w'"
    unfolding checkpoint_grows_def
  proof (intro allI impI)
    fix c
    assume seen: "client_seen cr root cfg w = Inr (Some c)"
    show "\<exists>c'. client_seen cr root cfg w' = Inr (Some c') \<and> (follows (cr_sha cr))\<^sup>*\<^sup>* c c'"
    proof (cases "cp_size c < cp_size new")
      case False
      with run seen have "w' = tick w"
        by (auto simp: advance_def Let_def and_then_Some run_proof_Inr dest: run_proof_Inl split: if_splits)
      with seen show ?thesis by auto
    next
      case True
      with run seen consider "w' = tick w"
        | src :: "fetch_error tile_source" where
          "verify_consistency (cr_sha cr) src (cp_size c) (cp_root c) (cp_size new) (cp_root new) = Some (Inr ())"
          "put_file env (checkpoint_file root (vf_name (sd_verifier cfg))) (as_bytes note_text) (tick w) = Some (r, w')"
        by (auto simp: advance_def Let_def and_then_Some run_proof_Inr dest: run_proof_Inl split: if_splits)
      then show ?thesis
      proof cases
        case 1
        with seen show ?thesis by auto
      next
        case 2
        from 2(1) True have "follows (cr_sha cr) c new" by (auto simp: follows_def)
        with seen_after_put [OF assms 2(2)] seen show ?thesis by auto
      qed
    qed
  qed
qed

lemma client_lookup_grows: "keeps (checkpoint_grows cr root cfg) (client_lookup cr env root cfg path v)"
  unfolding client_lookup_def Let_def
  by (intro grows.keeps_and_then grows.keeps_get grows.keeps_pure grows.keeps_run_proof advance_grows)
    (auto dest: client_body_Inr)

text \<open>Any number of lookups, whatever they return.\<close>

inductive lookups :: "('k, 's) crypto \<Rightarrow> environment \<Rightarrow> string \<Rightarrow> 'k sumdb_config \<Rightarrow> world \<Rightarrow> world \<Rightarrow> bool"
  for cr env root cfg where
  none: "lookups cr env root cfg w w"
| more: "lookups cr env root cfg w w1 \<Longrightarrow> client_lookup cr env root cfg path v w1 = Some (r, w2) \<Longrightarrow>
     lookups cr env root cfg w w2"

lemma lookups_grow: "lookups cr env root cfg w w' \<Longrightarrow> checkpoint_grows cr root cfg w w'"
  by (induction rule: lookups.induct) (auto intro: grows.refl grows.trans keepsD [OF client_lookup_grows])

lemma follows_size: "(follows sha)\<^sup>*\<^sup>* c c' \<Longrightarrow> cp_size c \<le> cp_size c'"
  by (induction rule: rtranclp_induct) (auto simp: follows_def)

text \<open>
  the checkpoint kept in the cache stays one that the key signed and never gets smaller, over any
  number of lookups and whatever the network answers and they return: it is only replaced by a
  larger one whose consistency with it was checked.
\<close>

theorem kept_checkpoint_grows:
  assumes "lookups cr env root cfg w w'" "client_seen cr root cfg w = Inr (Some c)"
  shows "\<exists>c'. client_seen cr root cfg w' = Inr (Some c') \<and> cp_size c \<le> cp_size c' \<and> (follows (cr_sha cr))\<^sup>*\<^sup>* c c'"
  using lookups_grow [OF assms(1)] assms(2) follows_size unfolding checkpoint_grows_def by blast

section \<open>An example\<close>

text \<open>
  A log of one record, the record of a Pome with one file, and a network that answers everything
  with its lookup. The hash function is injective on what matters, and the code of digests has the
  length of base64.
\<close>

definition ex_manifest :: bytes where
  "ex_manifest = [7]"

definition ex_summary :: string where
  "ex_summary = summary_line (MANIFEST_FILE, replicate 32 66)"

definition ex_tail :: string where
  "ex_tail = replicate 11 CHR ''A'' @ ''=''"

definition ex_b64e :: "bytes \<Rightarrow> string" where
  "ex_b64e d = bytes_str d @ ex_tail"

definition ex_b64d :: "string \<Rightarrow> bytes option" where
  "ex_b64d s =
     (if s = ''r'' then Some (replicate 32 68)
      else if s = ''s'' then Some [0, 0, 0, 0]
      else (case strip_suffix ex_tail s of
              None \<Rightarrow> None
            | Some r \<Rightarrow> if CHR '' '' \<in> set r \<or> CHR 0x0A \<in> set r then None else Some (as_bytes r)))"

definition ex_h1 :: h1 where
  "ex_h1 = H1 (''h1:'' @ ex_b64e (replicate 32 67))"

definition ex_version :: version where
  "ex_version = \<lparr>major = 1, minor = 0, patch = 0, prerelease = [], raw = ''v1.0.0''\<rparr>"

definition ex_path :: source_path where
  "ex_path = SourcePath ''a.io/x''"

definition ex_record :: sum_record where
  "ex_record = \<lparr>rec_path = ex_path, rec_version = ex_version, rec_tree = ex_h1, rec_manifest = ex_h1\<rparr>"

definition ex_leaf :: bytes where
  "ex_leaf = as_bytes (record_to_text ex_record)"

definition ex_sha :: sha where
  "ex_sha x =
     (if x = ex_manifest then replicate 32 66
      else if x = as_bytes ex_summary then replicate 32 67
      else if x = 0 # ex_leaf then replicate 32 68
      else replicate 32 65)"

definition ex_checkpoint :: string where
  "ex_checkpoint = [CHR ''o'', CHR 0x0A, CHR ''1'', CHR 0x0A, CHR ''r'', CHR 0x0A]"

definition ex_note :: string where
  "ex_note = ex_checkpoint @ [CHR 0x0A] @ SIG_PREFIX @ [CHR ''o'', CHR '' '', CHR ''s'', CHR 0x0A]"

definition ex_crypto :: "(unit, unit) crypto" where
  "ex_crypto =
     \<lparr>cr_sha = ex_sha, cr_b64d = ex_b64d, cr_b64e = ex_b64e, cr_key = (\<lambda>_. Some ()), cr_sig = (\<lambda>_. Some ()),
      cr_verify = (\<lambda>_ m _. m = as_bytes ex_checkpoint)\<rparr>"

definition ex_sumdb :: "unit sumdb_config" where
  "ex_sumdb = \<lparr>sd_verifier = \<lparr>vf_name = ''o'', vf_key_hash = 0, vf_key = ()\<rparr>, sd_url = ''u''\<rparr>"

definition ex_body :: string where
  "ex_body = show_nat 0 @ [CHR 0x0A] @ record_to_text ex_record @ [CHR 0x0A] @ ex_note"

definition ex_env :: environment where
  "ex_env =
     \<lparr>env_get = (\<lambda>_ _. Inr \<lparr>res_status = 200, res_body = as_bytes ex_body\<rparr>), env_git = (\<lambda>_ _ _. Inl []),
      env_tempdir = (\<lambda>_. None), env_put_file = (\<lambda>_ _. None), env_put_dir = (\<lambda>_ _. Renamed)\<rparr>"

definition ex_world :: world where
  "ex_world = \<lparr>clock = 0, cache_files = Map.empty, cache_dirs = Map.empty\<rparr>"

abbreviation ex_root :: checkpoint where
  "ex_root \<equiv> \<lparr>cp_origin = ''o'', cp_size = 1, cp_root = replicate 32 68\<rparr>"

lemma ex_parse: "checkpoint_parse ex_crypto ex_checkpoint = Inr ex_root"
proof -
  have "strip_suffix [CHR 0x0A] ex_checkpoint = Some [CHR ''o'', CHR 0x0A, CHR ''1'', CHR 0x0A, CHR ''r'']"
    by (simp add: ex_checkpoint_def strip_suffix_SomeD)
  moreover have "parse_u64 ''1'' = Some 1"
    by (simp add: parse_u64_def Let_def ascii_defs byte_def dec_val_def u64_bound_def)
  ultimately show ?thesis by (simp add: checkpoint_parse_def ex_crypto_def ex_b64d_def)
qed

lemma ex_open: "client_open ex_crypto ex_sumdb ex_note = Inr ex_root"
proof -
  have "note_open ex_crypto ex_note (sd_verifier ex_sumdb) = Inr ex_checkpoint" by code_simp
  then show ?thesis by (simp add: client_open_def ex_parse) (simp add: ex_sumdb_def)
qed

lemma ex_utf8: "utf8_str ex_body" "utf8_str ex_note"
  by code_simp+

lemma ex_sha_len: "sha_len (cr_sha ex_crypto)"
  by (simp add: sha_len_def ex_crypto_def ex_sha_def)

lemma ex_b64d_strict: "b64d_strict (cr_b64d ex_crypto)"
  by (auto simp: b64d_strict_def ex_crypto_def ex_b64d_def ex_tail_def strip_suffix_SomeD split: if_splits option.splits)

lemma ex_record_valid: "record_valid (cr_b64d ex_crypto) ex_record"
proof -
  have "ex_b64d (ex_b64e (replicate 32 67)) = Some (replicate 32 67)" by code_simp
  moreover have "ends_with ''='' (ex_b64e (replicate 32 67))" by code_simp
  ultimately have "h1_parse (cr_b64d ex_crypto) (h1_str ex_h1) = Inr ex_h1"
    by (simp add: h1_parse_def ex_h1_def ex_crypto_def) (simp add: ex_b64e_def ex_tail_def bytes_str_def)
  then show ?thesis
    by (simp add: record_valid_def ex_record_def ex_path_def ex_version_def toy_version toy_path)
qed

lemma ex_client_body:
  "client_body ex_crypto ex_sumdb ex_path ex_version (as_bytes ex_body)
     = Inr \<lparr>lk_index = 0, lk_record = ex_record, lk_data = record_to_text ex_record, lk_checkpoint = ex_note\<rparr>"
proof -
  have "lookup_parse (cr_b64d ex_crypto) ex_body
      = Some \<lparr>lk_index = 0, lk_record = ex_record, lk_data = record_to_text ex_record, lk_checkpoint = ex_note\<rparr>"
    unfolding ex_body_def by (rule lookup_parse_text [OF ex_b64d_strict ex_record_valid]) (simp add: u64_bound_def)
  then show ?thesis
    by (simp add: client_body_def from_utf8_as_bytes ex_utf8) (simp add: ex_record_def)
qed

lemma ex_leaf_other: "0 # ex_leaf \<noteq> ex_manifest" "0 # ex_leaf \<noteq> as_bytes ex_summary" "ex_manifest \<noteq> as_bytes ex_summary"
  by code_simp+

lemma ex_leaf_hash: "record_hash (cr_sha ex_crypto) ex_leaf = replicate 32 68"
  using ex_leaf_other by (simp add: record_hash_def ex_crypto_def ex_sha_def)

lemma ex_lookup:
  assumes "client_seen ex_crypto root ex_sumdb w = Inr None"
  shows "\<exists>w'. client_lookup ex_crypto ex_env root ex_sumdb ex_path ex_version w = Some (Inr ex_record, w')"
proof -
  have get: "http_get ex_env url w = Some (Inr \<lparr>res_status = 200, res_body = as_bytes ex_body\<rparr>, tick w)" for url w
    by (simp add: http_get_def ex_env_def)
  have "verify_inclusion (cr_sha ex_crypto) src 1 (replicate 32 68) 0 ex_leaf = Some (Inr ())" for src :: "fetch_error tile_source"
    by (simp add: verify_inclusion_def root_with_leaf_def tree_range.simps leaf_in_def ex_leaf_hash)
  then have incl: "run_proof ex_env ex_sumdb
      (\<lambda>src. verify_inclusion (cr_sha ex_crypto) src 1 (replicate 32 68) 0 ex_leaf) m w = Some (Inr (), tick w)" for m w
    by (simp only: run_proof_Inr simp_thms)
  have put: "\<exists>w'. put_file ex_env f c w = Some (Inr (), w')" for f c w by (simp add: put_file_def ex_env_def)
  have seen: "client_seen ex_crypto root ex_sumdb (tick (tick w)) = Inr None" using assms by simp
  have adv: "\<exists>w'. advance ex_crypto ex_env root ex_sumdb c ex_note (tick (tick w)) = Some (Inr (), w')" for c
    by (simp only: advance_def seen Let_def sum.case option.case put)
  show ?thesis
    by (simp add: client_lookup_def Let_def and_then_Inr get client_status_def ex_client_body ex_open
        incl [simplified] adv [simplified] flip: ex_leaf_def)
qed

lemma ex_signer: "honest_signer ex_crypto ex_sumdb [ex_leaf]"
proof -
  have "as_bytes t = as_bytes ex_checkpoint \<Longrightarrow> t = ex_checkpoint" for t by (metis bytes_str_as_bytes)
  moreover have "mth (cr_sha ex_crypto) [ex_leaf] = replicate 32 68" by (simp add: mth_def ex_leaf_hash)
  moreover have "checkpoint_parse ex_crypto ex_checkpoint = Inr c \<Longrightarrow> c = ex_root" for c
    using ex_parse by simp
  ultimately show ?thesis
    unfolding honest_signer_def by (fastforce simp: ex_crypto_def)
qed

lemma ex_preimage: "no_second_preimage ex_sha {ex_manifest, as_bytes ex_summary, 0 # ex_leaf}"
  using ex_leaf_other by (auto simp: no_second_preimage_def ex_sha_def replicate_32_neq split: if_splits)

lemma ex_log_hashed: "no_second_preimage (cr_sha ex_crypto) (log_hashed (cr_sha ex_crypto) [ex_leaf])"
proof -
  have "node_inputs sha hs = {}" if "length hs \<le> 1" for sha hs using that by (auto elim!: node_inputs.cases)
  then have "log_hashed (cr_sha ex_crypto) [ex_leaf] \<subseteq> {0 # ex_leaf}"
    by (auto simp: log_hashed_def hashed_def take_Cons' split: if_splits)
  with ex_preimage show ?thesis by (auto simp: no_second_preimage_def ex_crypto_def)
qed

theorem lookup_sound_witness:
  "rec_path ex_record = ex_path \<and> rec_version ex_record = ex_version
   \<and> as_bytes (record_to_text ex_record) \<in> set [ex_leaf]"
proof -
  have "client_seen ex_crypto ''c'' ex_sumdb ex_world = Inr None"
    by (simp add: client_seen_def read_file_def ex_world_def)
  then obtain w' where "client_lookup ex_crypto ex_env ''c'' ex_sumdb ex_path ex_version ex_world = Some (Inr ex_record, w')"
    using ex_lookup by blast
  then show ?thesis by (rule lookup_sound [OF ex_sha_len ex_log_hashed ex_signer])
qed

theorem kept_checkpoint_grows_witness:
  "\<exists>w r w' c'. client_seen ex_crypto ''c'' ex_sumdb w = Inr (Some ex_root)
     \<and> client_lookup ex_crypto ex_env ''c'' ex_sumdb ex_path ex_version w = Some (r, w')
     \<and> client_seen ex_crypto ''c'' ex_sumdb w' = Inr (Some c') \<and> 1 \<le> cp_size c'"
proof -
  let ?w = "ex_world\<lparr>cache_files := [checkpoint_file ''c'' ''o'' \<mapsto> as_bytes ex_note]\<rparr>"
  have seen: "client_seen ex_crypto ''c'' ex_sumdb ?w = Inr (Some ex_root)"
    by (simp add: client_seen_def read_file_def from_utf8_as_bytes ex_utf8 ex_open) (simp add: ex_sumdb_def)
  obtain r w' where run: "client_lookup ex_crypto ex_env ''c'' ex_sumdb ex_path ex_version ?w = Some (r, w')"
    using client_lookup_total [OF ex_sha_len] by blast
  have l: "lookups ex_crypto ex_env ''c'' ex_sumdb ?w w'"
    by (rule lookups.more [OF lookups.none run])
  from kept_checkpoint_grows [OF l seen] seen run show ?thesis by auto
qed

end
