(* ===== verification/Fetch_Sources.thy ===== *)
theory Fetch_Sources
  imports Fetch_World Pome_Source_Path
begin

text \<open>
  The two ways a version's files are read: the proxy's archive,
  \<open>crates/emela-pome/src/fetch/archive.rs\<close>, and the repository itself, \<open>fetch/direct.rs\<close>.

  Decompressing and the format of tar are third-party code: an archive is the sequence of entries, or of
  errors, that the tar reader yields. \<open>git\<close> is part of the environment.
\<close>

section \<open>The archive\<close>

definition MAX_FILES :: nat where
  "MAX_FILES = 10000"

definition MAX_TREE_BYTES :: nat where
  "MAX_TREE_BYTES = 32 * 1024 * 1024"

datatype entry_type = Regular | Continuous | OtherType string

record tar_entry =
  te_type :: entry_type
  te_path :: "string + bytes"
  te_size :: nat
  te_content :: "string + bytes"

type_synonym tar_reader = "bytes \<Rightarrow> string + (string + tar_entry) list"

text \<open>
  The loop. A sum of sizes over \<open>u64\<close> panics; where it would wrap instead, so does the
  allocation of that many bytes.
\<close>

fun read_entries :: "(string + tar_entry) list \<Rightarrow> dir_files \<Rightarrow> nat \<Rightarrow> (string + dir_files) option" where
  "read_entries [] files tot = Some (Inr files)"
| "read_entries (Inl e # es) files tot = Some (Inl (''archive: '' @ e))"
| "read_entries (Inr entry # es) files tot =
     (case te_type entry of
        OtherType other \<Rightarrow> Some (Inl (''archive: unexpected entry type '' @ other))
      | _ \<Rightarrow>
          (case te_path entry of
             Inl e \<Rightarrow> Some (Inl (''archive: '' @ e))
           | Inr p \<Rightarrow>
               (case from_utf8 p of
                  None \<Rightarrow> Some (Inl ''archive: a path is not UTF-8'')
                | Some path \<Rightarrow>
                    (let tot = tot + te_size entry in
                     if u64_bound \<le> tot then None
                     else if MAX_FILES \<le> length files \<or> MAX_TREE_BYTES < tot
                     then Some (Inl (''archive: more than '' @ show_nat MAX_FILES @ '' files or ''
                                  @ show_nat MAX_TREE_BYTES @ '' bytes''))
                     else (case te_content entry of
                             Inl e \<Rightarrow> Some (Inl (''archive: '' @ e))
                           | Inr content \<Rightarrow> read_entries es (files @ [(path, content)]) tot)))))"

definition read_tar_gz :: "tar_reader \<Rightarrow> bytes \<Rightarrow> (string + dir_files) option" where
  "read_tar_gz tar d =
     (case tar d of
        Inl e \<Rightarrow> Some (Inl (''archive: '' @ e))
      | Inr es \<Rightarrow> read_entries es [] 0)"

section \<open>The repository\<close>

text \<open>
  \<open>to_lowercase\<close> as far as searching for ASCII text can tell: beside the capital letters, only
  U+0130 and U+212A become text with an ASCII letter.
\<close>

fun lower_for_ascii :: "string \<Rightarrow> string" where
  "lower_for_ascii [] = []"
| "lower_for_ascii (c # s) =
     (case strip_prefix [CHR 0x84, CHR 0xAA] s of
        Some r \<Rightarrow> if c = CHR 0xE2 then CHR ''k'' # lower_for_ascii (tl (tl s))
                  else to_ascii_lowercase c # lower_for_ascii s
      | None \<Rightarrow>
          if c = CHR 0xC4 \<and> starts_with [CHR 0xB0] s
          then CHR ''i'' # CHR 0xCC # CHR 0x87 # lower_for_ascii (tl s)
          else to_ascii_lowercase c # lower_for_ascii s)"

definition not_found_or :: "source_path \<Rightarrow> string \<Rightarrow> fetch_error" where
  "not_found_or path e =
     (let lower = lower_for_ascii e;
          missing = [''couldn't find remote ref'', ''not found'', ''does not appear to be a git repository'',
                     ''could not read username'', ''authentication failed''] in
      if list_ex (\<lambda>m. contains m lower) missing then NotFound (path_str path @ '': '' @ e) else Network e)"

definition refused :: "string \<Rightarrow> fetch_error" where
  "refused message = NotFound message"

definition bad_git :: "string \<Rightarrow> fetch_error" where
  "bad_git what = Network (''unexpected output of git '' @ what)"

definition tag_of_line :: "string \<Rightarrow> string option" where
  "tag_of_line l =
     (case split_on CHR 0x09 l of
        _ # r # _ \<Rightarrow> strip_prefix ''refs/tags/'' r
      | _ \<Rightarrow> None)"

definition direct_versions :: "environment \<Rightarrow> (string \<Rightarrow> string) \<Rightarrow> source_path \<Rightarrow> version list act" where
  "direct_versions env url path =
     and_then
       (run_git env (not_found_or path) [''ls-remote'', ''--tags'', ''--refs'', url (repository path)] [])
       (\<lambda>out. ret (sort_by version_cmp
          (List.map_filter (version_of_tag path) (List.map_filter tag_of_line (lines (from_utf8_lossy out))))))"

text \<open>One record of \<open>ls-tree\<close>: its name and object, and its size.\<close>

definition ls_tree_record :: "string \<Rightarrow> bytes \<Rightarrow> fetch_error + (string \<times> string \<times> nat)" where
  "ls_tree_record pv record =
     (case split_once 9 record of
        None \<Rightarrow> Inl (bad_git ''ls-tree'')
      | Some (meta, nm) \<Rightarrow>
          (case from_utf8 nm of
             None \<Rightarrow> Inl (refused (pv @ '': a path is not UTF-8''))
           | Some name \<Rightarrow>
               (case split_whitespace (from_utf8_lossy meta) of
                  [mode, kind, object, sz] \<Rightarrow>
                    if mode = ''120000'' then Inl (refused (pv @ '': '' @ name @ '' is a symbolic link''))
                    else if kind = ''commit'' then Inl (refused (pv @ '': '' @ name @ '' is a submodule''))
                    else if kind \<noteq> ''blob'' then Inl (refused (pv @ '': '' @ name @ '' is a '' @ kind))
                    else (case parse_u64 sz of
                            None \<Rightarrow> Inl (bad_git ''ls-tree size'')
                          | Some n \<Rightarrow> Inr (name, object, n))
                | _ \<Rightarrow> Inl (bad_git ''ls-tree''))))"

fun ls_tree :: "string \<Rightarrow> bytes list \<Rightarrow> nat \<Rightarrow> (fetch_error + (string \<times> string) list \<times> nat) option" where
  "ls_tree pv [] tot = Some (Inr ([], tot))"
| "ls_tree pv (r # rs) tot =
     (case ls_tree_record pv r of
        Inl e \<Rightarrow> Some (Inl e)
      | Inr (name, object, n) \<Rightarrow>
          if u64_bound \<le> tot + n then None
          else map_option (map_sum (\<lambda>e. e) (apfst ((#) (name, object)))) (ls_tree pv rs (tot + n)))"

definition header_size :: "bytes \<Rightarrow> nat option" where
  "header_size h =
     (case split_on CHR '' '' (from_utf8_lossy h) of
        _ # _ # s # _ \<Rightarrow> parse_u64 s
      | _ \<Rightarrow> None)"

text \<open>The contents in the output of \<open>cat-file --batch\<close>, from position \<open>at\<close>.\<close>

fun cat_file :: "(string \<times> string) list \<Rightarrow> bytes \<Rightarrow> nat \<Rightarrow> (fetch_error + dir_files) option" where
  "cat_file [] out at = Some (Inr [])"
| "cat_file ((name, object) # es) out at =
     (if length out < at then None
      else (case split_once 10 (drop at out) of
              None \<Rightarrow> Some (Inl (bad_git ''cat-file''))
            | Some (h, _) \<Rightarrow>
                (case header_size h of
                   None \<Rightarrow> Some (Inl (bad_git ''cat-file''))
                 | Some sz \<Rightarrow>
                     (let nl = at + length h in
                      if length out < nl + 1 + sz then None
                      else map_option (map_sum (\<lambda>e. e) ((#) (name, take sz (drop (nl + 1) out))))
                             (cat_file es out (nl + 1 + sz + 1))))))"

definition direct_tempdir :: "environment \<Rightarrow> unit act" where
  "direct_tempdir env = (\<lambda>w.
     Some (case env_tempdir env (clock w) of Some e \<Rightarrow> Inl (Cache e) | None \<Rightarrow> Inr (), tick w))"

definition direct_fetch ::
    "environment \<Rightarrow> (string \<Rightarrow> string) \<Rightarrow> source_path \<Rightarrow> version \<Rightarrow> (string \<times> dir_files) act" where
  "direct_fetch env url path v =
     (let tg = ''refs/tags/'' @ tag path v;
          pv = path_str path @ ''@'' @ raw v in
      and_then (direct_tempdir env) (\<lambda>_.
      and_then (run_git env Network [''init'', ''--quiet'', ''--bare'', ''.''] []) (\<lambda>_.
      and_then (run_git env (not_found_or path)
                  [''fetch'', ''--quiet'', ''--depth=1'', ''--no-tags'', url (repository path), ''+'' @ tg @ '':'' @ tg] [])
        (\<lambda>_.
      and_then (run_git env Network [''rev-parse'', ''--verify'', tg @ ''^{commit}''] []) (\<lambda>out.
      let commit = trim (from_utf8_lossy out);
          treeish = (case directory path of Some dir \<Rightarrow> commit @ '':'' @ dir | None \<Rightarrow> commit) in
      and_then (run_git env (\<lambda>e. case directory path of
                    Some dir \<Rightarrow> NotFound (pv @ '': no directory `'' @ dir @ ''` at the tag ('' @ e @ '')'')
                  | None \<Rightarrow> Network e) [''ls-tree'', ''-r'', ''-l'', ''-z'', treeish] []) (\<lambda>tree.
      and_then (lift_panic (ls_tree pv (filter (\<lambda>r. r \<noteq> []) (split_on 0 tree)) 0)) (\<lambda>(entries, tot).
      if MAX_FILES < length entries \<or> MAX_TREE_BYTES < tot
      then fail (refused (pv @ '': more than '' @ show_nat MAX_FILES @ '' files or '' @ show_nat MAX_TREE_BYTES @ '' bytes''))
      else
      and_then (run_git env Network [''cat-file'', ''--batch'']
                  (as_bytes (concat (map (\<lambda>e. snd e @ [CHR 0x0A]) entries)))) (\<lambda>out.
      and_then (lift_panic (cat_file entries out 0)) (\<lambda>files.
      ret (commit, files))))))))))"

section \<open>Bounds\<close>

text \<open>What is documented of the tar reader: an entry yields at most as many bytes as its header says.\<close>

definition tar_ok :: "tar_reader \<Rightarrow> bool" where
  "tar_ok tar \<longleftrightarrow>
     (\<forall>d es entry c. tar d = Inr es \<longrightarrow> Inr entry \<in> set es \<longrightarrow> te_content entry = Inr c \<longrightarrow> length c \<le> te_size entry)"

definition files_bytes :: "dir_files \<Rightarrow> nat" where
  "files_bytes files = sum_list (map (length \<circ> snd) files)"

lemma files_bytes_simps [simp]:
  "files_bytes [] = 0" "files_bytes (f # fs) = length (snd f) + files_bytes fs"
  "files_bytes (fs @ gs) = files_bytes fs + files_bytes gs"
  by (simp_all add: files_bytes_def)

lemma read_entries_bounds:
  assumes "read_entries es files tot = Some (Inr out)"
    and "\<And>entry c. Inr entry \<in> set es \<Longrightarrow> te_content entry = Inr c \<Longrightarrow> length c \<le> te_size entry"
    and "length files \<le> MAX_FILES" "files_bytes files \<le> tot" "tot \<le> MAX_TREE_BYTES"
  shows "length out \<le> MAX_FILES \<and> files_bytes out \<le> MAX_TREE_BYTES"
  using assms
proof (induction es arbitrary: files tot)
  case (Cons e es)
  show ?case
  proof (cases e)
    case (Inr entry)
    obtain path content where x: "te_content entry = Inr content" "length files < MAX_FILES"
      "tot + te_size entry \<le> MAX_TREE_BYTES"
      "read_entries es (files @ [(path, content)]) (tot + te_size entry) = Some (Inr out)"
      using Cons.prems(1) unfolding Inr
      by (auto simp: Let_def not_le not_less split: entry_type.splits sum.splits option.splits if_splits)
    have "length content \<le> te_size entry" using Cons.prems(2) [of entry content] x(1) by (simp add: Inr)
    with x Cons.prems show ?thesis by (intro Cons.IH [OF x(4)]) simp_all
  qed (use Cons.prems(1) in simp)
qed simp

text \<open>
  C36: an archive that is accepted has at most 10,000 files and at most 32 MiB of content, however its
  headers are written.
\<close>

theorem archive_bounds:
  assumes "tar_ok tar" "read_tar_gz tar d = Some (Inr files)"
  shows "length files \<le> MAX_FILES \<and> files_bytes files \<le> MAX_TREE_BYTES"
proof -
  obtain es where es: "tar d = Inr es" "read_entries es [] 0 = Some (Inr files)"
    using assms(2) by (auto simp: read_tar_gz_def split: sum.splits)
  from es(2) show ?thesis
    by (rule read_entries_bounds) (use assms(1) es(1) in \<open>auto simp: tar_ok_def\<close>)
qed

section \<open>Reading the repository\<close>

text \<open>
  The output of \<open>cat-file --batch\<close>: for each object a line with its name, its type and its size, then its
  content and a line break.
\<close>

definition batch_object :: "string \<times> string \<Rightarrow> bytes \<Rightarrow> bytes" where
  "batch_object e content =
     as_bytes (snd e @ '' blob '' @ show_nat (length content)) @ 10 # content @ [10]"

definition object_name :: "string \<Rightarrow> bool" where
  "object_name s \<longleftrightarrow> list_all (\<lambda>c. is_ascii_digit c \<or> is_ascii_lowercase c) s"

lemma object_name_chars: "object_name s \<Longrightarrow> c \<in> set s \<Longrightarrow> byte c < 128 \<and> c \<noteq> CHR '' '' \<and> c \<noteq> CHR 0x0A"
  by (auto simp: object_name_def list_all_iff ascii_defs byte_def)

lemma show_nat_chars: "c \<in> set (show_nat n) \<Longrightarrow> byte c < 128 \<and> c \<noteq> CHR '' '' \<and> c \<noteq> CHR 0x0A"
  using show_nat_digits [of n] by (auto simp: list_all_iff ascii_defs byte_def)

lemma as_bytes_newline: "CHR 0x0A \<notin> set s \<Longrightarrow> 10 \<notin> set (as_bytes s)"
proof
  assume "CHR 0x0A \<notin> set s" "10 \<in> set (as_bytes s)"
  then obtain c where c: "c \<in> set s" "word_of_nat (byte c) = (10 :: 8 word)" by (auto simp: as_bytes_def)
  then have "unat (word_of_nat (byte c) :: 8 word) = 10" by simp
  then have "byte c = 10" using byte_less_256 [of c] by (simp add: unat_of_nat take_bit_nat_eq_self)
  also have "10 = byte CHR 0x0A" by (simp add: byte_def)
  finally have "c = CHR 0x0A" by (simp only: byte_def of_char_eq_iff)
  with \<open>CHR 0x0A \<notin> set s\<close> c(1) show False by simp
qed

lemma header_size_object:
  assumes "object_name obj" "n < u64_bound"
  shows "header_size (as_bytes (obj @ '' blob '' @ show_nat n)) = Some n"
    "10 \<notin> set (as_bytes (obj @ '' blob '' @ show_nat n))"
proof -
  let ?h = "obj @ '' blob '' @ show_nat n"
  have "list_all (\<lambda>c. byte c < 128) ?h"
    using object_name_chars [OF assms(1)] show_nat_chars [of _ n] by (auto simp: list_all_iff byte_def)
  then have "from_utf8_lossy (as_bytes ?h) = ?h" by (intro from_utf8_lossy_str utf8_str_ascii)
  moreover have "split_on CHR '' '' ?h = [obj, ''blob'', show_nat n]"
  proof -
    have "CHR '' '' \<notin> set obj" "CHR '' '' \<notin> set (show_nat n)"
      using object_name_chars [OF assms(1)] show_nat_chars [of _ n] by blast+
    then show ?thesis by (simp add: split_on_append split_on_free)
  qed
  ultimately show "header_size (as_bytes ?h) = Some n"
    using parse_u64_show_nat [OF assms(2)] by (simp add: header_size_def)
  show "10 \<notin> set (as_bytes ?h)"
    by (rule as_bytes_newline) (use object_name_chars [OF assms(1)] show_nat_chars [of _ n] in auto)
qed

lemma cat_file_step:
  assumes "10 \<notin> set h" "header_size h = Some (length c)"
  shows "cat_file ((name, obj) # es) (pre @ (h @ 10 # c @ [10]) @ r) (length pre)
    = map_option (map_sum (\<lambda>e. e) ((#) (name, c)))
        (cat_file es ((pre @ (h @ 10 # c @ [10])) @ r) (length (pre @ (h @ 10 # c @ [10]))))"
  using assms by (simp add: split_once_append Let_def add_ac)

lemma cat_file_from:
  assumes "list_all2 (\<lambda>e c. object_name (snd e) \<and> length c < u64_bound) es cs"
  shows "cat_file es (pre @ concat (map2 batch_object es cs)) (length pre) = Some (Inr (zip (map fst es) cs))"
  using assms
proof (induction es cs arbitrary: pre rule: list_all2_induct)
  case (Cons e es c cs)
  obtain name obj where e: "e = (name, obj)" by (cases e)
  let ?h = "as_bytes (obj @ '' blob '' @ show_nat (length c))"
  have h: "header_size ?h = Some (length c)" "10 \<notin> set ?h"
    using Cons.hyps by (intro header_size_object; simp add: e)+
  have b: "batch_object (name, obj) c = ?h @ 10 # c @ [10]" by (simp only: batch_object_def snd_conv)
  from Cons.IH [of "pre @ batch_object (name, obj) c"] show ?case
    using cat_file_step [OF h(2,1), of name obj es pre "concat (map2 batch_object es cs)", folded b]
    by (simp add: e)
qed simp

text \<open>
  the files of a repository are read exactly: from what \<open>cat-file\<close> prints for the objects asked
  for, every file gets the content of its own object, whatever bytes it has.
\<close>

theorem cat_file_exact:
  assumes "list_all2 (\<lambda>e c. object_name (snd e) \<and> length c < u64_bound) es cs"
  shows "cat_file es (concat (map2 batch_object es cs)) 0 = Some (Inr (zip (map fst es) cs))"
  using cat_file_from [OF assms, of "[]"] by simp

section \<open>Examples\<close>

definition toy_tar :: tar_reader where
  "toy_tar d = Inr [Inr \<lparr>te_type = Regular, te_path = Inr [97], te_size = 2, te_content = Inr [7, 8]\<rparr>]"

lemma toy_tar_read: "read_tar_gz toy_tar [] = Some (Inr [(''a'', [7, 8])])"
proof -
  have "from_utf8 [97] = Some ''a''" by code_simp
  then show ?thesis by (simp add: read_tar_gz_def toy_tar_def u64_bound_def MAX_FILES_def MAX_TREE_BYTES_def)
qed

theorem archive_bounds_witness:
  "length [(''a'', [7, 8 :: 8 word])] \<le> MAX_FILES \<and> files_bytes [(''a'', [7, 8])] \<le> MAX_TREE_BYTES"
  by (rule archive_bounds [OF _ toy_tar_read]) (simp add: tar_ok_def toy_tar_def)

theorem cat_file_exact_witness:
  "cat_file [(''f'', ''ab''), (''g'', ''c0'')]
     (batch_object (''f'', ''ab'') [10, 7] @ batch_object (''g'', ''c0'') []) 0 = Some (Inr [(''f'', [10, 7]), (''g'', [])])"
  using cat_file_exact [of "[(''f'', ''ab''), (''g'', ''c0'')]" "[[10, 7], []]"]
  by (simp add: object_name_def ascii_defs byte_def u64_bound_def)

end
