(* ===== verification/Pome_Config.thy ===== *)
theory Pome_Config
  imports Sumdb_Client
begin

text \<open>
  Where Pomes come from: \<open>crates/emela-pome/src/fetch/config.rs\<close>. The environment variables are an
  argument; a path is the string of its bytes.
\<close>

section \<open>Operations\<close>

definition DEFAULT_PROXY :: string where
  "DEFAULT_PROXY = ''https://pomes.emela.dev,direct''"

definition DEFAULT_SUMDB :: string where
  "DEFAULT_SUMDB =
     ''sum.emela.ab2m.link+ad5364f4+AUu8x/imsHpAJe8Ee9U5GwuaVqG9hijmecEfo53D/FnS https://sum.emela.dev''"

datatype fetch_source = Proxy string | Direct

record 'k config =
  cf_sources :: "fetch_source list"
  cf_sumdb :: "'k sumdb_config option"
  cf_private :: "string list"
  cf_cache_dir :: string

definition parse_source :: "string \<Rightarrow> string + fetch_source" where
  "parse_source s =
     (if s = ''direct'' then Inr Direct
      else if starts_with ''https://'' s \<or> starts_with ''http://'' s then Inr (Proxy (trim_end_char CHR ''/'' s))
      else Inl (''EMELA_POMEPROXY: `'' @ s @ ''` is neither a URL nor `direct`''))"

fun collect_results :: "('e + 'a) list \<Rightarrow> 'e + 'a list" where
  "collect_results [] = Inr []"
| "collect_results (r # rs) =
     (case r of
        Inl e \<Rightarrow> Inl e
      | Inr a \<Rightarrow> (case collect_results rs of Inl e \<Rightarrow> Inl e | Inr xs \<Rightarrow> Inr (a # xs)))"

definition parse_sources :: "string \<Rightarrow> string + fetch_source list" where
  "parse_sources proxy =
     (if trim proxy = ''off'' then Inr []
      else collect_results (map parse_source (filter (\<lambda>s. s \<noteq> []) (map trim (split_on CHR '','' proxy)))))"

definition parse_sumdb :: "('k, 's) crypto \<Rightarrow> string \<Rightarrow> string + 'k sumdb_config option" where
  "parse_sumdb cr s =
     (if trim s = ''off'' then Inr None
      else (let (key, url) =
                  (case split_once_ws (trim s) of
                     Some (key, url) \<Rightarrow> (key, Some (trim_end_char CHR ''/'' (trim url)))
                   | None \<Rightarrow> (trim s, None))
            in case verifier_parse cr key of
                 Inl e \<Rightarrow> Inl (''EMELA_POMESUMDB: '' @ note_error_text e)
               | Inr v \<Rightarrow>
                   Inr (Some \<lparr>sd_verifier = v,
                              sd_url = (case url of Some u \<Rightarrow> u | None \<Rightarrow> ''https://'' @ vf_name v)\<rparr>)))"

definition parse_private :: "string option \<Rightarrow> string list" where
  "parse_private v =
     (case v of
        None \<Rightarrow> []
      | Some v \<Rightarrow> filter (\<lambda>p. p \<noteq> []) (map (\<lambda>p. trim_end_char CHR ''/'' (trim p)) (split_on CHR '','' v)))"

definition from_env :: "('k, 's) crypto \<Rightarrow> (string \<Rightarrow> string option) \<Rightarrow> string option \<Rightarrow> string + 'k config" where
  "from_env cr var home =
     (case parse_sources (case var ''EMELA_POMEPROXY'' of None \<Rightarrow> DEFAULT_PROXY | Some p \<Rightarrow> p) of
        Inl e \<Rightarrow> Inl e
      | Inr sources \<Rightarrow>
          (case parse_sumdb cr (case var ''EMELA_POMESUMDB'' of None \<Rightarrow> DEFAULT_SUMDB | Some s \<Rightarrow> s) of
             Inl e \<Rightarrow> Inl e
           | Inr sumdb \<Rightarrow>
               (let private = parse_private (var ''EMELA_POMEPRIVATE'');
                    cache_dir = (case var ''EMELA_POME_CACHE'' of
                                   Some dir \<Rightarrow> Inr dir
                                 | None \<Rightarrow>
                                     (case home of
                                        None \<Rightarrow> Inl ''cannot find the home directory; set EMELA_POME_CACHE''
                                      | Some h \<Rightarrow> Inr (path_join (path_join h ''.emela'') ''pomes'')))
                in case cache_dir of
                     Inl e \<Rightarrow> Inl e
                   | Inr dir \<Rightarrow>
                       Inr \<lparr>cf_sources = sources, cf_sumdb = sumdb, cf_private = private, cf_cache_dir = dir\<rparr>)))"

definition is_private :: "'k config \<Rightarrow> source_path \<Rightarrow> bool" where
  "is_private cf path =
     list_ex (\<lambda>prefix. path_str path = prefix
                \<or> (case strip_prefix prefix (path_str path) of None \<Rightarrow> False | Some rest \<Rightarrow> starts_with ''/'' rest))
       (cf_private cf)"

definition sources_for :: "'k config \<Rightarrow> source_path \<Rightarrow> fetch_source list" where
  "sources_for cf path =
     (if is_private cf path then filter (\<lambda>s. s = Direct) (cf_sources cf) else cf_sources cf)"

definition sumdb_for :: "'k config \<Rightarrow> source_path \<Rightarrow> 'k sumdb_config option" where
  "sumdb_for cf path = (if is_private cf path then None else cf_sumdb cf)"

section \<open>Private Pomes\<close>

lemma split_on_glue: "split_on c (p @ c # s) = split_on c p @ split_on c s"
  by (induction p) (auto simp: hd_append tl_append split: list.split)

lemma join_with_append:
  "ps \<noteq> [] \<Longrightarrow> qs \<noteq> [] \<Longrightarrow> join_with sep (ps @ qs) = join_with sep ps @ sep @ join_with sep qs"
proof (induction ps)
  case (Cons p ps)
  then show ?case by (cases "ps = []") (simp_all add: join_with_Cons)
qed simp

text \<open>
  C37: a Pome is private exactly when the elements of some private prefix begin the elements of its source path: a
  prefix never matches half an element.
\<close>

theorem is_private_elements:
  "is_private cf path \<longleftrightarrow>
     (\<exists>prefix rest. prefix \<in> set (cf_private cf) \<and> split_on CHR ''/'' (path_str path) = split_on CHR ''/'' prefix @ rest)"
proof -
  have "(path_str path = prefix
      \<or> (case strip_prefix prefix (path_str path) of None \<Rightarrow> False | Some rest \<Rightarrow> starts_with ''/'' rest))
    \<longleftrightarrow> (\<exists>rest. split_on CHR ''/'' (path_str path) = split_on CHR ''/'' prefix @ rest)" (is "?l \<longleftrightarrow> ?r") for prefix
  proof
    assume ?l
    then consider "path_str path = prefix" | r where "path_str path = prefix @ CHR ''/'' # r"
      by (auto simp: strip_prefix_SomeD starts_with_iff split: option.splits)
    then show ?r by cases (auto simp: split_on_glue)
  next
    assume ?r
    then obtain rest where r: "split_on CHR ''/'' (path_str path) = split_on CHR ''/'' prefix @ rest" by blast
    have join: "join_with ''/'' (split_on CHR ''/'' s) = s" for s by (rule join_split)
    show ?l
    proof (cases "rest = []")
      case True
      with r join [of prefix] join [of "path_str path"] show ?thesis by simp
    next
      case False
      have "path_str path = join_with ''/'' (split_on CHR ''/'' prefix @ rest)" using join r by metis
      also have "\<dots> = prefix @ ''/'' @ join_with ''/'' rest"
        using join [of prefix] False by (simp add: join_with_append)
      finally show ?thesis by (simp add: starts_with_iff)
    qed
  qed
  then show ?thesis by (auto simp: is_private_def list_ex_iff)
qed

end
