(* ===== verification/Pome_Manifest.thy ===== *)
theory Pome_Manifest
  imports Pome_Source_Path
begin

text \<open>
  \<open>Pome.toml\<close>: \<open>crates/emela-pome/src/manifest.rs\<close>.

  Reading TOML into the derived structures is third-party code, an argument of the parser. The
  \<open>BTreeMap\<close>s are the lists of their entries in the order of their keys.
\<close>

section \<open>Operations\<close>

datatype requirement_entry = EntryVersion version | EntryTable version "string option"

record requirement =
  rq_version :: version
  rq_module :: "string option"

record manifest =
  mf_name :: source_path
  mf_version :: version
  mf_emela :: string
  mf_module :: "string option"
  mf_targets :: "string list option"
  mf_dependencies :: "(source_path \<times> requirement) list"
  mf_dev_dependencies :: "(source_path \<times> requirement) list"
  mf_replace :: "(source_path \<times> string) list"
  mf_external :: "source_path list"

record pome_section =
  ps_name :: source_path
  ps_version :: string
  ps_emela :: string
  ps_module :: "string option"
  ps_targets :: "string list option"

record manifest_file =
  mff_pome :: pome_section
  mff_dependencies :: "(source_path \<times> requirement_entry) list"
  mff_dev_dependencies :: "(source_path \<times> requirement_entry) list"
  mff_replace :: "(source_path \<times> string) list"
  mff_external :: "source_path list"

datatype manifest_error = ManifestError string

definition TARGETS :: "string list" where
  "TARGETS = [''js'', ''wasm'', ''c'', ''c-embedded'']"

fun entry_requirement :: "requirement_entry \<Rightarrow> requirement" where
  "entry_requirement (EntryVersion v) = \<lparr>rq_version = v, rq_module = None\<rparr>"
| "entry_requirement (EntryTable v m) = \<lparr>rq_version = v, rq_module = m\<rparr>"

fun manifest_requirements ::
    "(source_path \<times> requirement_entry) list \<Rightarrow> manifest_error + (source_path \<times> requirement) list" where
  "manifest_requirements [] = Inr []"
| "manifest_requirements ((path, entry) # es) =
     (let r = entry_requirement entry in
      if \<not> is_version_of path (rq_version r)
      then Inl (ManifestError (''`'' @ path_str path @ ''` = \"'' @ raw (rq_version r)
             @ ''\": the major does not match the path (v2 and above end in `/vN`)''))
      else (case manifest_requirements es of Inl e \<Rightarrow> Inl e | Inr rs \<Rightarrow> Inr ((path, r) # rs)))"

definition manifest_parse :: "(string \<Rightarrow> string + manifest_file) \<Rightarrow> string \<Rightarrow> manifest_error + manifest" where
  "manifest_parse from_toml tx =
     (case from_toml tx of
        Inl e \<Rightarrow> Inl (ManifestError e)
      | Inr file \<Rightarrow>
          (let pome = mff_pome file in
           case version_parse (''v'' @ ps_version pome) of
             Inl _ \<Rightarrow> Inl (ManifestError (''`[pome].version` `'' @ ps_version pome @ ''` is not a semver such as `0.3.2`''))
           | Inr v \<Rightarrow>
               if \<not> is_version_of (ps_name pome) v
               then Inl (ManifestError (''`[pome].version` '' @ ps_version pome @ '' does not match the major of `''
                      @ path_str (ps_name pome) @ ''` (v2 and above end in `/vN`)''))
               else (case manifest_requirements (mff_dependencies file) of
                       Inl e \<Rightarrow> Inl e
                     | Inr deps \<Rightarrow>
                         (case manifest_requirements (mff_dev_dependencies file) of
                            Inl e \<Rightarrow> Inl e
                          | Inr dev_deps \<Rightarrow>
                              (case find (\<lambda>p. p \<in> set (map fst deps)) (map fst dev_deps) of
                                 Some both \<Rightarrow>
                                   Inl (ManifestError (''`'' @ path_str both @ ''` is in both [dependencies] and [dev-dependencies]''))
                               | None \<Rightarrow>
                                   (case find (\<lambda>t. t \<notin> set TARGETS) (case ps_targets pome of None \<Rightarrow> [] | Some ts \<Rightarrow> ts) of
                                      Some unknown \<Rightarrow>
                                        Inl (ManifestError (''`[pome].targets`: unknown target `'' @ unknown
                                               @ ''` (expected one of '' @ join_with '', '' TARGETS @ '')''))
                                    | None \<Rightarrow>
                                        Inr \<lparr>mf_name = ps_name pome, mf_version = v, mf_emela = ps_emela pome,
                                             mf_module = ps_module pome, mf_targets = ps_targets pome,
                                             mf_dependencies = deps, mf_dev_dependencies = dev_deps,
                                             mf_replace = mff_replace file, mf_external = mff_external file\<rparr>))))))"

section \<open>What a manifest promises\<close>

definition manifest_wf :: "manifest \<Rightarrow> bool" where
  "manifest_wf m \<longleftrightarrow>
     version_wf (mf_version m) \<and> is_version_of (mf_name m) (mf_version m)
     \<and> (\<forall>(p, r)\<in>set (mf_dependencies m @ mf_dev_dependencies m). is_version_of p (rq_version r))
     \<and> (\<forall>p\<in>set (map fst (mf_dev_dependencies m)). p \<notin> set (map fst (mf_dependencies m)))
     \<and> (\<forall>ts. mf_targets m = Some ts \<longrightarrow> set ts \<subseteq> set TARGETS)"

text \<open>The file a manifest would be written as.\<close>

definition requirement_entries :: "(source_path \<times> requirement) list \<Rightarrow> (source_path \<times> requirement_entry) list" where
  "requirement_entries rs = map (\<lambda>(p, r). (p, EntryTable (rq_version r) (rq_module r))) rs"

definition manifest_file_of :: "manifest \<Rightarrow> manifest_file" where
  "manifest_file_of m =
     \<lparr>mff_pome = \<lparr>ps_name = mf_name m, ps_version = tl (raw (mf_version m)), ps_emela = mf_emela m,
                  ps_module = mf_module m, ps_targets = mf_targets m\<rparr>,
      mff_dependencies = requirement_entries (mf_dependencies m),
      mff_dev_dependencies = requirement_entries (mf_dev_dependencies m),
      mff_replace = mf_replace m, mff_external = mf_external m\<rparr>"

lemma case_find_Inr:
  "(case find P xs of None \<Rightarrow> a | Some x \<Rightarrow> Inl (f x)) = Inr m \<longleftrightarrow> (\<forall>x\<in>set xs. \<not> P x) \<and> a = Inr m"
proof (cases "find P xs")
  case (Some x)
  then have "x \<in> set xs" "P x" by (auto simp: find_Some_iff)
  with Some show ?thesis by auto
next
  case None
  then have "\<forall>x\<in>set xs. \<not> P x" by (auto simp: find_None_iff)
  with None show ?thesis by simp
qed

lemma manifest_requirements_Inr:
  "manifest_requirements es = Inr rs \<longleftrightarrow>
     rs = map (\<lambda>(p, e). (p, entry_requirement e)) es \<and> (\<forall>(p, r)\<in>set rs. is_version_of p (rq_version r))"
proof (induction es arbitrary: rs)
  case (Cons pe es)
  obtain p e where pe: "pe = (p, e)" by (cases pe)
  let ?rest = "map (\<lambda>(p, e). (p, entry_requirement e)) es"
  show ?case
  proof (cases "manifest_requirements es")
    case (Inl err)
    with Cons.IH [of ?rest] have "\<not> (\<forall>(p, r)\<in>set ?rest. is_version_of p (rq_version r))" by simp
    with Inl show ?thesis by (auto simp: pe Let_def)
  next
    case (Inr b)
    with Cons.IH [of b] have "b = ?rest" "\<forall>(p, r)\<in>set ?rest. is_version_of p (rq_version r)" by auto
    with Inr show ?thesis by (auto simp: pe Let_def)
  qed
qed auto

lemma manifest_parse_Inr:
  "manifest_parse from_toml tx = Inr m \<longleftrightarrow>
     (\<exists>file. from_toml tx = Inr file
        \<and> version_parse (''v'' @ ps_version (mff_pome file)) = Inr (mf_version m)
        \<and> is_version_of (mf_name m) (mf_version m)
        \<and> manifest_requirements (mff_dependencies file) = Inr (mf_dependencies m)
        \<and> manifest_requirements (mff_dev_dependencies file) = Inr (mf_dev_dependencies m)
        \<and> (\<forall>p\<in>set (map fst (mf_dev_dependencies m)). p \<notin> set (map fst (mf_dependencies m)))
        \<and> (\<forall>ts. mf_targets m = Some ts \<longrightarrow> set ts \<subseteq> set TARGETS)
        \<and> mf_name m = ps_name (mff_pome file) \<and> mf_emela m = ps_emela (mff_pome file)
        \<and> mf_module m = ps_module (mff_pome file) \<and> mf_targets m = ps_targets (mff_pome file)
        \<and> mf_replace m = mff_replace file \<and> mf_external m = mff_external file)"
  by (cases m)
    (auto simp: manifest_parse_def Let_def case_find_Inr simp del: set_map split: sum.splits option.splits; metis subsetD)

text \<open>
  a manifest that is read is well-formed: its version and every requirement have the major of their
  source path, no Pome is both a dependency and a dependency of the tests, and every target is known.
  Every well-formed manifest can be read: from the file that says what it holds, it is read unchanged.
\<close>

theorem manifest_parse_wf:
  "(manifest_parse from_toml tx = Inr m \<longrightarrow> manifest_wf m)
   \<and> (manifest_wf m \<longrightarrow> manifest_parse (\<lambda>_. Inr (manifest_file_of m)) tx = Inr m)"
proof (intro conjI impI)
  assume "manifest_parse from_toml tx = Inr m"
  from iffD1 [OF manifest_parse_Inr this] show "manifest_wf m"
  proof (elim exE conjE, goal_cases)
    case (1 fl)
    from 1(4,5) have "\<forall>(p, r)\<in>set (mf_dependencies m @ mf_dev_dependencies m). is_version_of p (rq_version r)"
      by (auto simp: manifest_requirements_Inr)
    with 1(3,6,7) version_parse_wf [OF 1(2)] show ?case by (simp add: manifest_wf_def)
  qed
next
  assume wf: "manifest_wf m"
  then have v: "version_wf (mf_version m)" by (simp add: manifest_wf_def)
  then have raw: "raw (mf_version m) = ''v'' @ tl (raw (mf_version m))"
    by (simp add: version_wf_def version_text_def)
  have version: "version_parse (''v'' @ tl (raw (mf_version m))) = Inr (mf_version m)"
    unfolding raw [symmetric] by (rule version_parse_text [OF v])
  have again: "map (\<lambda>(p, e). (p, entry_requirement e)) (requirement_entries rs) = rs" for rs
    by (induction rs) (auto simp: requirement_entries_def)
  have "\<forall>(p, r)\<in>set (mf_dependencies m). is_version_of p (rq_version r)"
    "\<forall>(p, r)\<in>set (mf_dev_dependencies m). is_version_of p (rq_version r)"
    using wf by (auto simp: manifest_wf_def)
  then have "manifest_requirements (requirement_entries (mf_dependencies m)) = Inr (mf_dependencies m)"
    "manifest_requirements (requirement_entries (mf_dev_dependencies m)) = Inr (mf_dev_dependencies m)"
    by (simp_all add: manifest_requirements_Inr again)
  with wf version show "manifest_parse (\<lambda>_. Inr (manifest_file_of m)) tx = Inr m"
    by (simp add: manifest_parse_Inr manifest_wf_def manifest_file_of_def)
qed

definition toy_manifest :: manifest where
  "toy_manifest =
     \<lparr>mf_name = SourcePath ''a.io/x'',
      mf_version = \<lparr>major = 1, minor = 0, patch = 0, prerelease = [], raw = ''v1.0.0''\<rparr>, mf_emela = ''0.20.1'',
      mf_module = None, mf_targets = Some [''js''],
      mf_dependencies = [(SourcePath ''github.com/Ab/c/d/v2'',
        \<lparr>rq_version = \<lparr>major = 2, minor = 0, patch = 0, prerelease = [], raw = ''v2.0.0''\<rparr>, rq_module = None\<rparr>)],
      mf_dev_dependencies = [], mf_replace = [], mf_external = []\<rparr>"

theorem manifest_parse_wf_witness:
  "manifest_wf toy_manifest \<and> manifest_parse (\<lambda>_. Inr (manifest_file_of toy_manifest)) [] = Inr toy_manifest"
proof -
  have "version_wf (mf_version toy_manifest)"
  proof -
    have "version_parse ''v1.0.0'' = Inr (mf_version toy_manifest)"
      by (simp add: toy_manifest_def version_parse_def version_num_def version_prerelease_def is_numeric_def
          is_alphanumeric_id_def str_eval)
    then show ?thesis by (simp add: version_parse_wf)
  qed
  moreover have "is_version_of (SourcePath ''a.io/x'') (mf_version toy_manifest)"
    "is_version_of (SourcePath ''github.com/Ab/c/d/v2'') \<lparr>major = 2, minor = 0, patch = 0, prerelease = [], raw = ''v2.0.0''\<rparr>"
  proof -
    have "major_digits ''a.io/x'' = None" by code_simp
    then show "is_version_of (SourcePath ''a.io/x'') (mf_version toy_manifest)"
      by (simp add: is_version_of_def path_major_def toy_manifest_def)
    show "is_version_of (SourcePath ''github.com/Ab/c/d/v2'') \<lparr>major = 2, minor = 0, patch = 0, prerelease = [], raw = ''v2.0.0''\<rparr>"
      by (simp add: is_version_of_def path_major_def example_facts(5) parse_u64_2)
  qed
  ultimately have "manifest_wf toy_manifest"
    by (simp add: manifest_wf_def) (simp add: toy_manifest_def TARGETS_def)
  with manifest_parse_wf [of "\<lambda>_. Inl []" "[]" toy_manifest] show ?thesis by simp
qed

end
