(* ===== verification/Pome_Fetch.thy ===== *)
theory Pome_Fetch
  imports Pome_Config Pome_Manifest Pome_Lock Fetch_Sources
begin

text \<open>
  The fetcher: \<open>crates/emela-pome/src/fetch/mod.rs\<close>. Every operation is an action on the world of
  \<open>Fetch_World\<close>; JSON, TOML and tar are third-party code, fields of the fetcher beside the cryptography.
\<close>

section \<open>The fetcher\<close>

record info =
  info_version :: string
  info_commit :: string

record ('k, 's) fetcher =
  ft_config :: "'k config"
  ft_env :: environment
  ft_url :: "string \<Rightarrow> string"
  ft_crypto :: "('k, 's) crypto"
  ft_json :: "bytes \<Rightarrow> string + info"
  ft_tar :: tar_reader
  ft_toml :: "string \<Rightarrow> string + manifest_file"

definition LOCK_FILE :: string where
  "LOCK_FILE = ''Pome.lock''"

definition cache_dir :: "string \<Rightarrow> source_path \<Rightarrow> version \<Rightarrow> string" where
  "cache_dir root path v = path_join root (escaped path @ ''@'' @ raw v)"

definition manifest_path :: "string \<Rightarrow> source_path \<Rightarrow> version \<Rightarrow> string" where
  "manifest_path root path v =
     path_join (path_join (path_join (path_join root ''download'') (escaped path)) ''@v'') (raw v @ ''.toml'')"

fun first_of :: "(fetch_source \<Rightarrow> 'a act) \<Rightarrow> fetch_source list \<Rightarrow> string option \<Rightarrow> 'a act" where
  "first_of f [] lst = fail (NotFound (case lst of Some m \<Rightarrow> m | None \<Rightarrow> []))"
| "first_of f (s # ss) lst = (\<lambda>w.
     case f s w of
       Some (Inl (NotFound m), w') \<Rightarrow> first_of f ss (Some m) w'
     | other \<Rightarrow> other)"

definition first_source :: "('k, 's) fetcher \<Rightarrow> source_path \<Rightarrow> (fetch_source \<Rightarrow> 'a act) \<Rightarrow> 'a act" where
  "first_source ft path f =
     (let sources = sources_for (ft_config ft) path in
      if sources = [] then fail (NoSource (path_str path @ '': nowhere to get it from (EMELA_POMEPROXY)''))
      else first_of f sources None)"

definition proxy_get :: "('k, 's) fetcher \<Rightarrow> string \<Rightarrow> string \<Rightarrow> bytes act" where
  "proxy_get ft base rest =
     (let url = base @ ''/'' @ rest in
      and_then (http_get (ft_env ft) url) (\<lambda>res.
      if res_status res = 200 then ret (res_body res)
      else if res_status res = 404 \<or> res_status res = 410 then fail (NotFound (response_text res))
      else fail (Network (''GET '' @ url @ '': '' @ show_nat (res_status res) @ '' '' @ response_text res))))"

definition ft_lookup :: "('k, 's) fetcher \<Rightarrow> source_path \<Rightarrow> version \<Rightarrow> sum_record option act" where
  "ft_lookup ft path v =
     (case sumdb_for (ft_config ft) path of
        Some cfg \<Rightarrow>
          and_then (client_lookup (ft_crypto ft) (ft_env ft) (cf_cache_dir (ft_config ft)) cfg path v) (\<lambda>r. ret (Some r))
      | None \<Rightarrow> ret None)"

definition at_version :: "source_path \<Rightarrow> version \<Rightarrow> string" where
  "at_version path v = path_str path @ ''@'' @ raw v"

definition manifest_of :: "source_path \<Rightarrow> version \<Rightarrow> dir_files \<Rightarrow> fetch_error + bytes" where
  "manifest_of path v files =
     (case find (\<lambda>f. fst f = MANIFEST_FILE) files of
        Some f \<Rightarrow> Inr (snd f)
      | None \<Rightarrow> Inl (NotFound (at_version path v @ '': no '' @ MANIFEST_FILE)))"

fun hash_error_text :: "hash_error \<Rightarrow> string" where
  "hash_error_text (Malformed s) = ''invalid hash `'' @ s @ ''`: expected `h1:` and 44 characters of base64''"
| "hash_error_text (BadPath path why) = ''invalid path `'' @ path @ ''` in tree: '' @ why"

definition ft_tree_hash :: "('k, 's) fetcher \<Rightarrow> dir_files \<Rightarrow> hash_error + h1" where
  "ft_tree_hash ft files = tree_hash (cr_sha (ft_crypto ft)) (cr_b64e (ft_crypto ft)) files"

definition ft_manifest_hash :: "('k, 's) fetcher \<Rightarrow> bytes \<Rightarrow> h1 option" where
  "ft_manifest_hash ft content = manifest_hash (cr_sha (ft_crypto ft)) (cr_b64e (ft_crypto ft)) content"

definition hashes :: "('k, 's) fetcher \<Rightarrow> source_path \<Rightarrow> version \<Rightarrow> dir_files \<Rightarrow> (h1 \<times> h1) act" where
  "hashes ft path v files =
     (case ft_tree_hash ft files of
        Inl e \<Rightarrow> fail (Verify (at_version path v @ '': '' @ hash_error_text e))
      | Inr tree \<Rightarrow>
          and_then (lift_result (manifest_of path v files)) (\<lambda>content.
          lift_panic (map_option (\<lambda>h. Inr (tree, h)) (ft_manifest_hash ft content))))"

definition mismatch :: "source_path \<Rightarrow> version \<Rightarrow> string \<Rightarrow> h1 \<Rightarrow> h1 \<Rightarrow> string \<Rightarrow> fetch_error" where
  "mismatch path v what got want by_whom =
     Verify (at_version path v @ '': the '' @ what @ '' hash '' @ h1_str got @ '' differs from '' @ h1_str want
       @ '' in '' @ by_whom @ ''; the download may have been tampered with'')"

section \<open>Versions\<close>

definition ft_versions :: "('k, 's) fetcher \<Rightarrow> source_path \<Rightarrow> version list act" where
  "ft_versions ft path =
     first_source ft path (\<lambda>source.
       case source of
         Proxy base \<Rightarrow>
           and_then (proxy_get ft base (escaped path @ ''/@v/list'')) (\<lambda>body.
           ret (sort_by version_cmp
             (filter (is_version_of path) (List.map_filter (\<lambda>l. res_ok (version_parse (trim l))) (lines (from_utf8_lossy body))))))
       | Direct \<Rightarrow> direct_versions (ft_env ft) (ft_url ft) path)"

definition version_error_text :: "string \<Rightarrow> string" where
  "version_error_text s = ''invalid version `'' @ s @ ''`: expected a semver tag such as `v1.2.3`''"

definition ft_latest :: "('k, 's) fetcher \<Rightarrow> source_path \<Rightarrow> version act" where
  "ft_latest ft path =
     first_source ft path (\<lambda>source.
       case source of
         Proxy base \<Rightarrow>
           and_then (proxy_get ft base (escaped path @ ''/@latest'')) (\<lambda>body.
           case ft_json ft body of
             Inl e \<Rightarrow> fail (Network (base @ '': bad @latest of '' @ path_str path @ '': '' @ e))
           | Inr info \<Rightarrow>
               (case version_parse (info_version info) of
                  Inl _ \<Rightarrow> fail (Network (base @ '': '' @ version_error_text (info_version info)))
                | Inr v \<Rightarrow> ret v))
       | Direct \<Rightarrow>
           and_then (direct_versions (ft_env ft) (ft_url ft) path) (\<lambda>vs.
           case latest_candidates vs of
             [] \<Rightarrow> fail (NotFound (path_str path @ '': no version tags''))
           | v # _ \<Rightarrow> ret v))"

section \<open>Contents\<close>

definition ft_files :: "('k, 's) fetcher \<Rightarrow> source_path \<Rightarrow> version \<Rightarrow> (string \<times> dir_files) act" where
  "ft_files ft path v =
     first_source ft path (\<lambda>source.
       case source of
         Proxy base \<Rightarrow>
           and_then (proxy_get ft base (escaped path @ ''/@v/'' @ raw v @ ''.info'')) (\<lambda>body.
           case ft_json ft body of
             Inl e \<Rightarrow> fail (Network (base @ '': bad .info of '' @ at_version path v @ '': '' @ e))
           | Inr info \<Rightarrow>
               if \<not> is_commit (info_commit info)
               then fail (Network (base @ '': bad commit in .info of '' @ at_version path v))
               else
               and_then (proxy_get ft base (escaped path @ ''/@v/'' @ raw v @ ''.tar.gz'')) (\<lambda>archive.
               case read_tar_gz (ft_tar ft) archive of
                 None \<Rightarrow> lift_panic None
               | Some (Inl e) \<Rightarrow> fail (Verify (at_version path v @ '' from '' @ base @ '': '' @ e))
               | Some (Inr files) \<Rightarrow> ret (info_commit info, files)))
       | Direct \<Rightarrow> direct_fetch (ft_env ft) (ft_url ft) path v)"

text \<open>\<open>Fetcher::manifest\<close> after the cache was read: what to return, to check and to store.\<close>

definition manifest_source :: "('k, 's) fetcher \<Rightarrow> source_path \<Rightarrow> version \<Rightarrow> bytes act" where
  "manifest_source ft path v =
     first_source ft path (\<lambda>source.
       case source of
         Proxy base \<Rightarrow> proxy_get ft base (escaped path @ ''/@v/'' @ raw v @ ''.toml'')
       | Direct \<Rightarrow>
           and_then (direct_fetch (ft_env ft) (ft_url ft) path v) (\<lambda>(cm, files).
           lift_result (manifest_of path v files)))"

definition manifest_check ::
    "('k, 's) fetcher \<Rightarrow> source_path \<Rightarrow> version \<Rightarrow> h1 option \<Rightarrow> bytes option \<Rightarrow> h1 \<Rightarrow> unit act" where
  "manifest_check ft path v locked cached got =
     (case locked of
        Some want \<Rightarrow>
          if got \<noteq> want then fail (mismatch path v MANIFEST_FILE got want LOCK_FILE) else ret ()
      | None \<Rightarrow>
          if cached = None
          then and_then (ft_lookup ft path v) (\<lambda>rec.
               case rec of
                 Some r \<Rightarrow>
                   if got \<noteq> rec_manifest r
                   then fail (mismatch path v MANIFEST_FILE got (rec_manifest r) ''the checksum database'') else ret ()
               | None \<Rightarrow> ret ())
          else ret ())"

definition manifest_with :: "('k, 's) fetcher \<Rightarrow> source_path \<Rightarrow> version \<Rightarrow> h1 option \<Rightarrow> bytes option \<Rightarrow> bytes act" where
  "manifest_with ft path v locked cached =
     and_then (case cached of Some c \<Rightarrow> ret c | None \<Rightarrow> manifest_source ft path v) (\<lambda>content.
     and_then (lift_panic (map_option Inr (ft_manifest_hash ft content))) (\<lambda>got.
     and_then (manifest_check ft path v locked cached got) (\<lambda>_.
     and_then
       (if cached = None
        then put_file (ft_env ft) (manifest_path (cf_cache_dir (ft_config ft)) path v) content
        else ret ()) (\<lambda>_.
     ret content))))"

definition ft_manifest :: "('k, 's) fetcher \<Rightarrow> source_path \<Rightarrow> version \<Rightarrow> h1 option \<Rightarrow> bytes act" where
  "ft_manifest ft path v locked = (\<lambda>w.
     manifest_with ft path v locked (read_file (manifest_path (cf_cache_dir (ft_config ft)) path v) w) w)"

definition requirements_of ::
    "('k, 's) fetcher \<Rightarrow> source_path \<Rightarrow> version \<Rightarrow> h1 option \<Rightarrow> (source_path \<times> version) list act" where
  "requirements_of ft path v locked =
     and_then (ft_manifest ft path v locked) (\<lambda>content.
     case from_utf8 content of
       None \<Rightarrow> fail (Manifest (at_version path v @ '': Pome.toml is not UTF-8''))
     | Some tx \<Rightarrow>
         (case manifest_parse (ft_toml ft) tx of
            Inl (ManifestError e) \<Rightarrow> fail (Manifest (at_version path v @ '': '' @ e))
          | Inr m \<Rightarrow>
              if mf_name m \<noteq> path
              then fail (Manifest (at_version path v @ '': Pome.toml names `'' @ path_str (mf_name m) @ ''`''))
              else ret (map (\<lambda>(p, r). (p, rq_version r)) (mf_dependencies m))))"

definition download_checked :: "('k, 's) fetcher \<Rightarrow> source_path \<Rightarrow> version \<Rightarrow> h1 \<Rightarrow> h1 \<Rightarrow> unit act" where
  "download_checked ft path v tree manifest =
     and_then (ft_lookup ft path v) (\<lambda>rec.
     case rec of
       Some r \<Rightarrow>
         if tree \<noteq> rec_tree r
         then fail (mismatch path v ''content'' tree (rec_tree r) ''the checksum database'')
         else if manifest \<noteq> rec_manifest r
         then fail (mismatch path v MANIFEST_FILE manifest (rec_manifest r) ''the checksum database'')
         else ret ()
     | None \<Rightarrow> ret ())"

definition download :: "('k, 's) fetcher \<Rightarrow> source_path \<Rightarrow> version \<Rightarrow> locked act" where
  "download ft path v =
     (let root = cf_cache_dir (ft_config ft) in
      and_then (ft_files ft path v) (\<lambda>(cm, files).
      and_then (hashes ft path v files) (\<lambda>(tree, manifest).
      and_then (download_checked ft path v tree manifest) (\<lambda>_.
      and_then (put_dir (ft_env ft) (cache_dir root path v) files) (\<lambda>_.
      and_then (lift_result (manifest_of path v files)) (\<lambda>content.
      and_then (put_file (ft_env ft) (manifest_path root path v) content) (\<lambda>_.
      ret \<lparr>locked_path = path, locked_version = v, commit = cm, hash = tree, locked_manifest = manifest,
           external = lock_external_files (map (apsnd from_utf8_lossy) files), dev = False\<rparr>)))))))"

definition ensure :: "('k, 's) fetcher \<Rightarrow> locked \<Rightarrow> string act" where
  "ensure ft l = (\<lambda>w.
     let path = locked_path l; v = locked_version l; dir = cache_dir (cf_cache_dir (ft_config ft)) path v in
     if cache_dirs w dir \<noteq> None then Some (Inr dir, w)
     else
       and_then (ft_files ft path v) (\<lambda>(cm, files).
       and_then (hashes ft path v files) (\<lambda>(tree, manifest).
       if tree \<noteq> hash l then fail (mismatch path v ''content'' tree (hash l) LOCK_FILE)
       else put_dir (ft_env ft) dir files)) w)"

definition rehash :: "('k, 's) fetcher \<Rightarrow> source_path \<Rightarrow> version \<Rightarrow> h1 option act" where
  "rehash ft path v = (\<lambda>w.
     case cache_dirs w (cache_dir (cf_cache_dir (ft_config ft)) path v) of
       None \<Rightarrow> Some (Inr None, w)
     | Some files \<Rightarrow>
         (case ft_tree_hash ft files of
            Inl e \<Rightarrow> Some (Inl (Verify (at_version path v @ '' in the cache: '' @ hash_error_text e)), w)
          | Inr h \<Rightarrow> Some (Inr (Some h), w)))"

section \<open>What every operation keeps\<close>

context world_order
begin

lemma keeps_first_of: "(\<And>s. keeps R (f s)) \<Longrightarrow> keeps R (first_of f ss lst)"
proof (induction ss arbitrary: lst)
  case (Cons s ss)
  show ?case
  proof (rule keepsI)
    fix w r w'
    assume run: "first_of f (s # ss) lst w = Some (r, w')"
    show "R w w'"
    proof (cases "\<exists>m w1. f s w = Some (Inl (NotFound m), w1)")
      case True
      then obtain m w1 where m: "f s w = Some (Inl (NotFound m), w1)" by blast
      with run have "first_of f ss (Some m) w1 = Some (r, w')" by simp
      with m keepsD [OF Cons.prems m] keepsD [OF Cons.IH [OF Cons.prems]] show ?thesis by (blast intro: trans)
    next
      case False
      with run have "f s w = Some (r, w')" by (auto split: option.splits sum.splits fetch_error.splits)
      then show ?thesis by (rule keepsD [OF Cons.prems])
    qed
  qed
qed (simp add: keeps_pure)

lemma keeps_first_source: "(\<And>s. keeps R (f s)) \<Longrightarrow> keeps R (first_source ft path f)"
  by (simp add: first_source_def Let_def keeps_first_of keeps_pure)

lemma keeps_proxy: "keeps R (proxy_get ft base rest)"
  by (simp add: proxy_get_def Let_def keeps_and_then keeps_get keeps_pure)

lemma keeps_direct_versions: "keeps R (direct_versions env url path)"
  by (simp add: direct_versions_def keeps_and_then keeps_git keeps_pure)

lemma keeps_tempdir: "keeps R (direct_tempdir env)"
  by (rule keepsI) (auto simp: direct_tempdir_def ticks)

lemma keeps_direct_fetch: "keeps R (direct_fetch env url path v)"
  unfolding direct_fetch_def Let_def
  by (intro keeps_and_then keeps_git keeps_tempdir keeps_panic keeps_pure)
    (auto intro!: keeps_and_then keeps_git keeps_panic keeps_pure split: prod.split)

lemma keeps_hashes: "keeps R (hashes ft path v files)"
  by (auto simp: hashes_def intro!: keeps_and_then keeps_panic keeps_pure split: sum.split)

lemmas keeps_basic = keeps_and_then keeps_pure keeps_panic keeps_proxy keeps_direct_versions keeps_direct_fetch keeps_hashes

lemma keeps_versions: "keeps R (ft_versions ft path)"
  unfolding ft_versions_def
  by (intro keeps_first_source) (auto intro!: keeps_basic split: fetch_source.split)

lemma keeps_latest: "keeps R (ft_latest ft path)"
  unfolding ft_latest_def
  by (intro keeps_first_source) (auto intro!: keeps_basic split: fetch_source.split sum.split list.split)

lemma keeps_files: "keeps R (ft_files ft path v)"
  unfolding ft_files_def
  by (intro keeps_first_source) (auto intro!: keeps_basic split: fetch_source.split sum.split option.split)

lemma keeps_rehash: "keeps R (rehash ft path v)"
  by (rule keepsI) (auto simp: rehash_def refl split: option.splits sum.splits)

end

text \<open>
  What the operations that write rely on: a relation of worlds that the three writes keep. Both laws
  of the cache below, that directories stay and that the checkpoint grows, are instances.
\<close>

locale fetch_order = world_order +
  fixes ft :: "('k, 's) fetcher"
  assumes put_manifest: "keeps R (put_file (ft_env ft) (manifest_path (cf_cache_dir (ft_config ft)) path v) content)"
    and put_version: "keeps R (put_dir (ft_env ft) dir files)"
    and looks_up: "cf_sumdb (ft_config ft) = Some cfg \<Longrightarrow>
      keeps R (client_lookup (ft_crypto ft) (ft_env ft) (cf_cache_dir (ft_config ft)) cfg path v)"
begin

lemma keeps_lookup: "keeps R (ft_lookup ft path v)"
  by (auto simp: ft_lookup_def sumdb_for_def intro!: keeps_basic looks_up split: option.split)

lemma keeps_manifest: "keeps R (ft_manifest ft path v locked)"
proof -
  have "keeps R (manifest_source ft path v)"
    unfolding manifest_source_def
    by (intro keeps_first_source) (auto intro!: keeps_basic split: fetch_source.split prod.split)
  moreover have "keeps R (manifest_check ft path v locked cached got)" for cached got
    by (auto simp: manifest_check_def intro!: keeps_basic keeps_lookup split: option.split)
  ultimately have "keeps R (manifest_with ft path v locked cached)" for cached
    by (auto simp: manifest_with_def intro!: keeps_basic put_manifest split: option.split)
  then show ?thesis by (auto simp: keeps_def ft_manifest_def)
qed

lemma keeps_requirements: "keeps R (requirements_of ft path v locked)"
  by (auto simp: requirements_of_def intro!: keeps_basic keeps_manifest
      split: option.split sum.split manifest_error.split)

lemma keeps_download: "keeps R (download ft path v)"
  unfolding download_def Let_def download_checked_def
  by (auto intro!: keeps_basic keeps_files keeps_lookup put_version put_manifest split: prod.split option.split)

lemma keeps_ensure: "keeps R (ensure ft l)"
proof (rule keepsI)
  fix w r w'
  assume "ensure ft l w = Some (r, w')"
  moreover have "keeps R (and_then (ft_files ft (locked_path l) (locked_version l)) (\<lambda>(cm, files).
       and_then (hashes ft (locked_path l) (locked_version l) files) (\<lambda>(tree, manifest).
       if tree \<noteq> hash l then fail (mismatch (locked_path l) (locked_version l) ''content'' tree (hash l) LOCK_FILE)
       else put_dir (ft_env ft) (cache_dir (cf_cache_dir (ft_config ft)) (locked_path l) (locked_version l)) files)))"
    by (auto intro!: keeps_basic keeps_files put_version split: prod.split)
  ultimately show "R w w'"
    by (auto simp: ensure_def Let_def refl dest: keepsD split: if_splits)
qed

end

section \<open>The cache over any sequence of operations\<close>

inductive fetch_step :: "('k, 's) fetcher \<Rightarrow> world \<Rightarrow> world \<Rightarrow> bool" for ft where
  versions: "ft_versions ft path w = Some (r, w') \<Longrightarrow> fetch_step ft w w'"
| latest: "ft_latest ft path w = Some (r, w') \<Longrightarrow> fetch_step ft w w'"
| manifest: "ft_manifest ft path v locked w = Some (r, w') \<Longrightarrow> fetch_step ft w w'"
| requirements: "requirements_of ft path v locked w = Some (r, w') \<Longrightarrow> fetch_step ft w w'"
| download: "download ft path v w = Some (r, w') \<Longrightarrow> fetch_step ft w w'"
| ensure: "ensure ft l w = Some (r, w') \<Longrightarrow> fetch_step ft w w'"
| rehash: "rehash ft path v w = Some (r, w') \<Longrightarrow> fetch_step ft w w'"

context fetch_order
begin

lemma step_keeps: "fetch_step ft w w' \<Longrightarrow> R w w'"
  by (induction rule: fetch_step.induct)
    (blast dest: keepsD [OF keeps_versions] keepsD [OF keeps_latest] keepsD [OF keeps_manifest]
      keepsD [OF keeps_requirements] keepsD [OF keeps_download] keepsD [OF keeps_ensure] keepsD [OF keeps_rehash])+

lemma steps_keep: "(fetch_step ft)\<^sup>*\<^sup>* w w' \<Longrightarrow> R w w'"
  by (induction rule: rtranclp_induct) (auto intro: refl trans step_keeps)

end

text \<open>Directories stay.\<close>

interpretation dirs_fetch: fetch_order dirs_stay ft for ft
  by unfold_locales (auto intro: dirs_put_file dirs_put_dir dirs.keeps_client_lookup)

text \<open>The checkpoint grows.\<close>

definition ft_checkpoint_grows :: "('k, 's) fetcher \<Rightarrow> world \<Rightarrow> world \<Rightarrow> bool" where
  "ft_checkpoint_grows ft w w' \<longleftrightarrow>
     (\<forall>cfg. cf_sumdb (ft_config ft) = Some cfg \<longrightarrow>
        checkpoint_grows (ft_crypto ft) (cf_cache_dir (ft_config ft)) cfg w w')"

lemma path_join_ends: "\<exists>p. path_join a b = p @ b"
  by (auto simp: path_join_def)

lemma manifest_not_checkpoint: "manifest_path root path v \<noteq> checkpoint_file root' key"
proof -
  obtain p where p: "manifest_path root path v = p @ raw v @ ''.toml''"
    using path_join_ends unfolding manifest_path_def by blast
  obtain q where q: "checkpoint_file root' key = q @ ''latest''"
    using path_join_ends unfolding checkpoint_file_def by blast
  have "last (manifest_path root path v) \<noteq> last (checkpoint_file root' key)" by (simp add: p q)
  then show ?thesis by auto
qed

lemma seen_manifest:
  assumes "put_file env (manifest_path root' path v) content w = Some (r, w')"
  shows "client_seen cr root cfg w' = client_seen cr root cfg w"
  using assms manifest_not_checkpoint [of root' path v root "vf_name (sd_verifier cfg)"]
  by (auto simp: put_file_def client_seen_def read_file_def split: option.splits)

lemma seen_put_dir:
  assumes "put_dir env dir files w = Some (r, w')"
  shows "client_seen cr root cfg w' = client_seen cr root cfg w"
  using assms
  by (auto simp: put_dir_def client_seen_def read_file_def split: option.splits if_splits dir_result.splits)

interpretation grows_fetch: fetch_order "ft_checkpoint_grows ft" ft for ft
proof unfold_locales
  show "ft_checkpoint_grows ft w w" "ft_checkpoint_grows ft w (tick w)" for w
    by (simp_all add: ft_checkpoint_grows_def grows.refl grows.ticks)
  show "ft_checkpoint_grows ft w1 w3" if "ft_checkpoint_grows ft w1 w2" "ft_checkpoint_grows ft w2 w3" for w1 w2 w3
    using that by (auto simp: ft_checkpoint_grows_def intro: grows.trans)
  show "keeps (ft_checkpoint_grows ft) (put_file (ft_env ft) (manifest_path (cf_cache_dir (ft_config ft)) path v) content)"
    for path v content
    by (rule keepsI) (auto simp: ft_checkpoint_grows_def checkpoint_grows_def seen_manifest)
  show "keeps (ft_checkpoint_grows ft) (put_dir (ft_env ft) dir files)" for dir files
    by (rule keepsI) (auto simp: ft_checkpoint_grows_def checkpoint_grows_def seen_put_dir)
  show "keeps (ft_checkpoint_grows ft) (client_lookup (ft_crypto ft) (ft_env ft) (cf_cache_dir (ft_config ft)) cfg path v)"
    if "cf_sumdb (ft_config ft) = Some cfg" for cfg path v
    by (rule keepsI) (use that in \<open>auto simp: ft_checkpoint_grows_def intro: keepsD [OF client_lookup_grows]\<close>)
qed


section \<open>Verified content\<close>

text \<open>
  What a fetcher that is configured with a checksum database relies on: the key is honest about the
  log, and the log has one record for a version.
\<close>

definition log_functional :: "('k, 's) crypto \<Rightarrow> bytes list \<Rightarrow> bool" where
  "log_functional cr log \<longleftrightarrow>
     (\<forall>r r'. record_valid (cr_b64d cr) r \<longrightarrow> record_valid (cr_b64d cr) r'
        \<longrightarrow> as_bytes (record_to_text r) \<in> set log \<longrightarrow> as_bytes (record_to_text r') \<in> set log
        \<longrightarrow> rec_path r = rec_path r' \<longrightarrow> rec_version r = rec_version r' \<longrightarrow> r = r')"

definition trusts :: "('k, 's) crypto \<Rightarrow> 'k sumdb_config \<Rightarrow> bytes list \<Rightarrow> bool" where
  "trusts cr cfg log \<longleftrightarrow>
     sha_len (cr_sha cr) \<and> no_second_preimage (cr_sha cr) (log_hashed (cr_sha cr) log)
     \<and> honest_signer cr cfg log \<and> log_functional cr log"

lemma hashes_Inr:
  assumes "hashes ft path v files w = Some (Inr (tree, manifest), w')"
  shows "ft_tree_hash ft files = Inr tree" "w' = w"
    "\<exists>content. manifest_of path v files = Inr content \<and> ft_manifest_hash ft content = Some manifest"
  using assms by (auto simp: hashes_def and_then_Inr lift_panic_def split: sum.splits)

lemma ft_lookup_Some:
  assumes "ft_lookup ft path v w = Some (Inr rec, w')" "sumdb_for (ft_config ft) path = Some cfg"
    and "trusts (ft_crypto ft) cfg log"
  obtains r where "rec = Some r" "rec_path r = path" "rec_version r = v" "record_valid (cr_b64d (ft_crypto ft)) r"
    "as_bytes (record_to_text r) \<in> set log"
proof -
  obtain r where r: "rec = Some r" "client_lookup (ft_crypto ft) (ft_env ft) (cf_cache_dir (ft_config ft)) cfg path v w = Some (Inr r, w')"
    using assms(1,2) by (auto simp: ft_lookup_def and_then_Inr)
  with lookup_in_log [OF _ _ _ r(2), of log] assms(3) show thesis by (intro that) (simp_all add: trusts_def)
qed

lemma put_dir_Inr:
  assumes "put_dir env dir files w = Some (Inr d, w')"
  shows "d = dir" "cache_dirs w dir = Some fs \<Longrightarrow> w' = w"
    "cache_dirs w dir = None \<Longrightarrow> (\<And>n. env_put_dir env n dir = Renamed \<or> (\<exists>e. env_put_dir env n dir = DirFailed e))
      \<Longrightarrow> cache_dirs w' dir = Some files"
  using assms by (auto simp: put_dir_def split: if_splits option.splits dir_result.splits) (metis dir_result.distinct)+

text \<open>What a successful download did, step by step.\<close>

lemma download_Inr:
  assumes "download ft path v w = Some (Inr l, w')"
  obtains cm files w1 w2 w3 content where
    "ft_files ft path v w = Some (Inr (cm, files), w1)"
    "hashes ft path v files w1 = Some (Inr (hash l, locked_manifest l), w1)"
    "download_checked ft path v (hash l) (locked_manifest l) w1 = Some (Inr (), w2)"
    "put_dir (ft_env ft) (cache_dir (cf_cache_dir (ft_config ft)) path v) files w2
       = Some (Inr (cache_dir (cf_cache_dir (ft_config ft)) path v), w3)"
    "put_file (ft_env ft) (manifest_path (cf_cache_dir (ft_config ft)) path v) content w3 = Some (Inr (), w')"
    "locked_path l = path" "locked_version l = v" "manifest_of path v files = Inr content"
proof -
  let ?root = "cf_cache_dir (ft_config ft)"
  from assms obtain cm files w1 tree manifest w1' w2 d w3 content where x:
    "ft_files ft path v w = Some (Inr (cm, files), w1)"
    "hashes ft path v files w1 = Some (Inr (tree, manifest), w1')"
    "download_checked ft path v tree manifest w1' = Some (Inr (), w2)"
    "put_dir (ft_env ft) (cache_dir ?root path v) files w2 = Some (Inr d, w3)"
    "manifest_of path v files = Inr content"
    "put_file (ft_env ft) (manifest_path ?root path v) content w3 = Some (Inr (), w')"
    "l = \<lparr>locked_path = path, locked_version = v, commit = cm, hash = tree, locked_manifest = manifest,
          external = lock_external_files (map (apsnd from_utf8_lossy) files), dev = False\<rparr>"
    by (auto simp: download_def Let_def and_then_Inr split: prod.splits)
  with hashes_Inr(2) [OF x(2)] put_dir_Inr(1) [OF x(4)] show thesis by (intro that [of cm files w1]) simp_all
qed

lemma download_in_log:
  assumes "download ft path v w = Some (Inr l, w')" "sumdb_for (ft_config ft) path = Some cfg"
    and "trusts (ft_crypto ft) cfg log"
  obtains r where "rec_path r = path" "rec_version r = v" "rec_tree r = hash l" "rec_manifest r = locked_manifest l"
    "record_valid (cr_b64d (ft_crypto ft)) r" "as_bytes (record_to_text r) \<in> set log"
proof -
  from download_Inr [OF assms(1)] obtain w1 w2 where
    "download_checked ft path v (hash l) (locked_manifest l) w1 = Some (Inr (), w2)" by metis
  then obtain rec w3 where x: "ft_lookup ft path v w1 = Some (Inr rec, w3)"
    "\<And>r. rec = Some r \<Longrightarrow> hash l = rec_tree r \<and> locked_manifest l = rec_manifest r"
    by (auto simp: download_checked_def and_then_Inr split: option.splits if_splits)
  from ft_lookup_Some [OF x(1) assms(2,3)] x(2) that show thesis by metis
qed

text \<open>No other process puts the directory into the cache at the same time.\<close>

definition no_race :: "environment \<Rightarrow> string \<Rightarrow> bool" where
  "no_race env dir \<longleftrightarrow> (\<forall>n. env_put_dir env n dir = Renamed \<or> (\<exists>e. env_put_dir env n dir = DirFailed e))"

definition version_dir :: "('k, 's) fetcher \<Rightarrow> source_path \<Rightarrow> version \<Rightarrow> string" where
  "version_dir ft path v = cache_dir (cf_cache_dir (ft_config ft)) path v"

lemma put_file_dirs: "put_file env p c w = Some (r, w') \<Longrightarrow> cache_dirs w' = cache_dirs w"
  by (auto simp: put_file_def split: option.splits)

interpretation same_dirs: world_order "\<lambda>w w'. cache_dirs w' = cache_dirs w"
  by unfold_locales simp_all

lemma client_lookup_dirs:
  "client_lookup cr env root cfg path v w = Some (r, w') \<Longrightarrow> cache_dirs w' = cache_dirs w"
  by (rule keepsD [OF same_dirs.keeps_client_lookup]) (blast intro: keepsI put_file_dirs)+

lemma ft_files_dirs: "ft_files ft path v w = Some (r, w') \<Longrightarrow> cache_dirs w' = cache_dirs w"
  by (rule keepsD [OF same_dirs.keeps_files])

lemma download_checked_dirs:
  "download_checked ft path v t m w = Some (r, w') \<Longrightarrow> cache_dirs w' = cache_dirs w"
  by (auto simp: download_checked_def ft_lookup_def and_then_Some dest!: client_lookup_dirs
      split: option.splits if_splits)

lemma download_stores:
  assumes "download ft path v w = Some (Inr l, w')" "cache_dirs w (version_dir ft path v) = None"
    and "no_race (ft_env ft) (version_dir ft path v)"
  shows "\<exists>files. cache_dirs w' (version_dir ft path v) = Some files \<and> ft_tree_hash ft files = Inr (hash l)"
proof -
  from download_Inr [OF assms(1)] obtain cm files w1 w2 w3 content where
    x: "ft_files ft path v w = Some (Inr (cm, files), w1)"
      "hashes ft path v files w1 = Some (Inr (hash l, locked_manifest l), w1)"
      "download_checked ft path v (hash l) (locked_manifest l) w1 = Some (Inr (), w2)"
      "put_dir (ft_env ft) (version_dir ft path v) files w2 = Some (Inr (version_dir ft path v), w3)"
      "put_file (ft_env ft) (manifest_path (cf_cache_dir (ft_config ft)) path v) content w3 = Some (Inr (), w')"
    unfolding version_dir_def by metis
  have "cache_dirs w2 (version_dir ft path v) = None"
    using ft_files_dirs [OF x(1)] download_checked_dirs [OF x(3)] assms(2) by simp
  then have "cache_dirs w3 (version_dir ft path v) = Some files"
    using put_dir_Inr(3) [OF x(4)] assms(3) by (simp add: no_race_def)
  with put_file_dirs [OF x(5)] hashes_Inr(1) [OF x(2)] show ?thesis by simp
qed

text \<open>
  C6: everyone gets the same bytes. When two fetchers, with their own proxies, caches and networks, check
  against databases that are honest about one log, with one record for a version, then two downloads of a version that succeed
  write the same hashes into their locks, and put the same files with the same contents into their caches.
\<close>

theorem downloads_agree:
  assumes "download ft path v w = Some (Inr l, w')" "download ft2 path v w2 = Some (Inr l2, w2')"
    and "ft_crypto ft2 = ft_crypto ft"
    and "sumdb_for (ft_config ft) path = Some cfg" "trusts (ft_crypto ft) cfg log"
    and "sumdb_for (ft_config ft2) path = Some cfg2" "trusts (ft_crypto ft) cfg2 log"
    and "cache_dirs w (version_dir ft path v) = None" "no_race (ft_env ft) (version_dir ft path v)"
    and "cache_dirs w2 (version_dir ft2 path v) = None" "no_race (ft_env ft2) (version_dir ft2 path v)"
    and "cache_dirs w' (version_dir ft path v) = Some files"
    and "inj (cr_b64e (ft_crypto ft))" "no_second_preimage (cr_sha (ft_crypto ft)) (snd ` set files)"
    and "no_second_preimage (cr_sha (ft_crypto ft)) {as_bytes (concat (map summary_line
           (sort_by by_path (map (\<lambda>f. (fst f, cr_sha (ft_crypto ft) (snd f))) files))))}"
  shows "hash l2 = hash l \<and> locked_manifest l2 = locked_manifest l
     \<and> (\<exists>files2. cache_dirs w2' (version_dir ft2 path v) = Some files2 \<and> mset files2 = mset files)"
proof -
  obtain r where r: "rec_path r = path" "rec_version r = v" "rec_tree r = hash l" "rec_manifest r = locked_manifest l"
    "record_valid (cr_b64d (ft_crypto ft)) r" "as_bytes (record_to_text r) \<in> set log"
    using download_in_log [OF assms(1,4,5)] .
  have trust2: "trusts (ft_crypto ft2) cfg2 log" using assms(3,7) by simp
  obtain r2 where r2: "rec_path r2 = path" "rec_version r2 = v" "rec_tree r2 = hash l2" "rec_manifest r2 = locked_manifest l2"
    "record_valid (cr_b64d (ft_crypto ft)) r2" "as_bytes (record_to_text r2) \<in> set log"
    using download_in_log [OF assms(2,6) trust2] assms(3) by metis
  have "r2 = r" using assms(5) r r2 by (simp add: trusts_def log_functional_def)
  with r r2 have same: "hash l2 = hash l" "locked_manifest l2 = locked_manifest l" by simp_all
  have h: "ft_tree_hash ft files = Inr (hash l)"
    using download_stores [OF assms(1,8,9)] assms(12) by simp
  obtain files2 where f2: "cache_dirs w2' (version_dir ft2 path v) = Some files2" "ft_tree_hash ft2 files2 = Inr (hash l2)"
    using download_stores [OF assms(2,10,11)] by blast
  have len: "sha_len (cr_sha (ft_crypto ft))" using assms(5) by (simp add: trusts_def)
  have "mset files = mset files2"
    using same_hash_same_files [OF h [unfolded ft_tree_hash_def] _ assms(13) len assms(14,15)] f2(2) same(1)
    by (simp add: ft_tree_hash_def assms(3))
  with same f2(1) show ?thesis by auto
qed

text \<open>
  C21: a directory that \<open>ensure\<close> fetched has the hash in the lock: nothing that differs is ever put
  into the cache for it.
\<close>

theorem ensure_verified:
  assumes "ensure ft l w = Some (Inr d, w')" "cache_dirs w d = None" "no_race (ft_env ft) d"
  shows "\<exists>files. cache_dirs w' d = Some files \<and> ft_tree_hash ft files = Inr (hash l)"
proof -
  let ?d = "cache_dir (cf_cache_dir (ft_config ft)) (locked_path l) (locked_version l)"
  have d: "d = ?d"
    using assms(1) by (auto simp: ensure_def Let_def and_then_Inr dest: put_dir_Inr(1) split: if_splits prod.splits)
  obtain cm files w1 m where x: "ft_files ft (locked_path l) (locked_version l) w = Some (Inr (cm, files), w1)"
    "hashes ft (locked_path l) (locked_version l) files w1 = Some (Inr (hash l, m), w1)"
    "put_dir (ft_env ft) ?d files w1 = Some (Inr d, w')"
    using assms(1,2) hashes_Inr(2)
    by (fastforce simp: ensure_def Let_def and_then_Inr d split: if_splits prod.splits)
  have "cache_dirs w1 d = None" using ft_files_dirs [OF x(1)] assms(2) by simp
  then have "cache_dirs w' d = Some files"
    using put_dir_Inr(3) [OF x(3)] assms(3) by (simp add: no_race_def d)
  with hashes_Inr(1) [OF x(2)] show ?thesis by blast
qed

text \<open>
  C35: a download never replaces a directory that is in the cache, and \<open>ensure\<close> then returns that directory
  for the new entry of the lock without looking at it: the entry's hash is that of the files that were just fetched,
  whatever the directory holds.
\<close>

theorem download_keeps_old_dir:
  assumes "download ft path v w = Some (Inr l, w')" "cache_dirs w (version_dir ft path v) = Some old"
  shows "cache_dirs w' (version_dir ft path v) = Some old
     \<and> ensure ft l w' = Some (Inr (version_dir ft path v), w')"
proof -
  from download_Inr [OF assms(1)] have l: "locked_path l = path" "locked_version l = v" by metis+
  have "cache_dirs w' (version_dir ft path v) = Some old"
    using keepsD [OF dirs_fetch.keeps_download assms(1)] assms(2) by (simp add: dirs_stay_def)
  with l show ?thesis by (simp add: ensure_def version_dir_def)
qed

section \<open>Manifests\<close>

lemma manifest_with_Inr:
  assumes "manifest_with ft path v locked cached w = Some (Inr content, w')"
  obtains got w1 w2 where "ft_manifest_hash ft content = Some got"
    "manifest_check ft path v locked cached got w1 = Some (Inr (), w2)" "cached = None \<or> cached = Some content"
  using assms by (auto simp: manifest_with_def and_then_Inr lift_panic_def split: option.splits if_splits)


section \<open>Private Pomes\<close>

text \<open>The same fetcher on another network.\<close>

definition with_net :: "('k, 's) fetcher \<Rightarrow> (nat \<Rightarrow> string \<Rightarrow> string + response) \<Rightarrow> ('k, 's) fetcher" where
  "with_net ft g = ft\<lparr>ft_env := (ft_env ft)\<lparr>env_get := g\<rparr>\<rparr>"

lemma with_net_fields [simp]:
  "ft_config (with_net ft g) = ft_config ft" "ft_url (with_net ft g) = ft_url ft"
  "ft_crypto (with_net ft g) = ft_crypto ft" "ft_toml (with_net ft g) = ft_toml ft"
  "ft_env (with_net ft g) = (ft_env ft)\<lparr>env_get := g\<rparr>"
  by (simp_all add: with_net_def)

lemma no_net_basic [simp]:
  "put_file (env\<lparr>env_get := g\<rparr>) = put_file env" "put_dir (env\<lparr>env_get := g\<rparr>) = put_dir env"
  "run_git (env\<lparr>env_get := g\<rparr>) = run_git env" "direct_tempdir (env\<lparr>env_get := g\<rparr>) = direct_tempdir env"
  "ft_tree_hash (with_net ft g) = ft_tree_hash ft" "ft_manifest_hash (with_net ft g) = ft_manifest_hash ft"
  by (simp_all add: fun_eq_iff put_file_def put_dir_def run_git_def direct_tempdir_def ft_tree_hash_def
      ft_manifest_hash_def split: option.split)

lemma no_net [simp]:
  "direct_versions (env\<lparr>env_get := g\<rparr>) = direct_versions env" "direct_fetch (env\<lparr>env_get := g\<rparr>) = direct_fetch env"
  "hashes (with_net ft g) = hashes ft"
  unfolding fun_eq_iff direct_versions_def direct_fetch_def hashes_def Let_def no_net_basic by simp_all

lemma first_of_cong: "(\<And>s. s \<in> set ss \<Longrightarrow> f s = g s) \<Longrightarrow> first_of f ss lst = first_of g ss lst"
  by (induction ss arbitrary: lst) (auto simp: fun_eq_iff split: option.splits sum.splits fetch_error.splits)

lemma first_source_private:
  assumes "is_private (ft_config ft) path" "f Direct = g Direct" "ft_config ft2 = ft_config ft"
  shows "first_source ft path f = first_source ft2 path g"
proof -
  have "s \<in> set (sources_for (ft_config ft) path) \<Longrightarrow> f s = g s" for s
    using assms(1,2) by (auto simp: sources_for_def)
  then show ?thesis
    unfolding first_source_def Let_def assms(3) by (simp cong: first_of_cong)
qed

lemma private_lookup: "is_private (ft_config ft) path \<Longrightarrow> ft_lookup ft path v = ret None"
  by (simp add: ft_lookup_def sumdb_for_def)

lemma private_reads:
  assumes "is_private (ft_config ft) path"
  shows "ft_versions (with_net ft g) path = ft_versions ft path" "ft_latest (with_net ft g) path = ft_latest ft path"
    "ft_files (with_net ft g) path v = ft_files ft path v"
    "manifest_source (with_net ft g) path v = manifest_source ft path v"
  unfolding ft_versions_def ft_latest_def ft_files_def manifest_source_def
  using assms by (intro first_source_private; simp)+

lemma private_manifest:
  assumes "is_private (ft_config ft) path"
  shows "ft_manifest (with_net ft g) path v locked = ft_manifest ft path v locked"
proof -
  have look: "ft_lookup (with_net ft g) path v = ft_lookup ft path v" using assms by (simp add: private_lookup)
  have check: "manifest_check (with_net ft g) path v locked cached = manifest_check ft path v locked cached" for cached
    unfolding manifest_check_def look ..
  have "manifest_with (with_net ft g) path v locked cached = manifest_with ft path v locked cached" for cached
    unfolding manifest_with_def check private_reads [OF assms] with_net_fields no_net_basic ..
  then show ?thesis by (simp add: ft_manifest_def)
qed

text \<open>
  C23: a private Pome is got without the proxies and the checksum database: what every operation on it
  returns and does to the cache is the same whatever the network answers.
\<close>

theorem private_offline:
  assumes "is_private (ft_config ft) path" "locked_path l = path"
  shows "ft_versions (with_net ft g) path = ft_versions ft path
     \<and> ft_latest (with_net ft g) path = ft_latest ft path
     \<and> ft_manifest (with_net ft g) path v m = ft_manifest ft path v m
     \<and> requirements_of (with_net ft g) path v m = requirements_of ft path v m
     \<and> download (with_net ft g) path v = download ft path v
     \<and> ensure (with_net ft g) l = ensure ft l"
proof -
  note reads = private_reads [OF assms(1)] private_manifest [OF assms(1)]
  have look: "ft_lookup (with_net ft g) path v = ft_lookup ft path v" using assms(1) by (simp add: private_lookup)
  have "requirements_of (with_net ft g) path v m = requirements_of ft path v m"
    unfolding requirements_of_def reads with_net_fields ..
  moreover have "download_checked (with_net ft g) path v t h = download_checked ft path v t h" for t h
    unfolding download_checked_def look ..
  then have "download (with_net ft g) path v = download ft path v"
    unfolding download_def Let_def reads with_net_fields no_net no_net_basic by presburger
  moreover have "ensure (with_net ft g) l = ensure ft l"
    unfolding ensure_def Let_def assms(2) reads with_net_fields no_net no_net_basic ..
  ultimately show ?thesis using reads by blast
qed

section \<open>An example\<close>

text \<open>The fetcher of the example database, from one proxy.\<close>

definition ex_config :: "unit config" where
  "ex_config = \<lparr>cf_sources = [Proxy ''p''], cf_sumdb = Some ex_sumdb, cf_private = [''b.io''], cf_cache_dir = ''c''\<rparr>"

definition ex_commit :: string where
  "ex_commit = replicate 40 CHR ''a''"

definition ex_fetcher :: "(unit, unit) fetcher" where
  "ex_fetcher =
     \<lparr>ft_config = ex_config, ft_env = ex_env, ft_url = (\<lambda>r. r), ft_crypto = ex_crypto,
      ft_json = (\<lambda>_. Inr \<lparr>info_version = ''v1.0.0'', info_commit = ex_commit\<rparr>),
      ft_tar = (\<lambda>_. Inr [Inr \<lparr>te_type = Regular, te_path = Inr (as_bytes MANIFEST_FILE), te_size = 1,
                              te_content = Inr ex_manifest\<rparr>]),
      ft_toml = (\<lambda>_. Inl [])\<rparr>"

definition ex_files :: dir_files where
  "ex_files = [(MANIFEST_FILE, ex_manifest)]"

lemma ex_fields [simp]:
  "ft_config ex_fetcher = ex_config" "ft_env ex_fetcher = ex_env" "ft_crypto ex_fetcher = ex_crypto"
  "cf_cache_dir ex_config = ''c''"
  by (simp_all add: ex_fetcher_def ex_config_def)

lemma ex_sources: "sources_for ex_config ex_path = [Proxy ''p'']" "sumdb_for ex_config ex_path = Some ex_sumdb"
proof -
  have "\<not> is_private ex_config ex_path" by code_simp
  then show "sources_for ex_config ex_path = [Proxy ''p'']" "sumdb_for ex_config ex_path = Some ex_sumdb"
    by (simp_all add: sources_for_def sumdb_for_def ex_config_def)
qed

lemma ex_get: "proxy_get ex_fetcher base rest w = Some (Inr (as_bytes ex_body), tick w)"
  by (simp add: proxy_get_def Let_def and_then_def http_get_def) (simp add: ex_env_def)

lemma ex_get_files: "ft_files ex_fetcher ex_path ex_version w = Some (Inr (ex_commit, ex_files), tick (tick w))"
proof -
  have "from_utf8 (as_bytes MANIFEST_FILE) = Some MANIFEST_FILE" by code_simp
  then have tar: "read_tar_gz (ft_tar ex_fetcher) d = Some (Inr ex_files)" for d
    by (simp add: ex_fetcher_def read_tar_gz_def u64_bound_def MAX_FILES_def MAX_TREE_BYTES_def ex_files_def)
  have commit: "is_commit ex_commit" by code_simp
  have json: "ft_json ex_fetcher b = Inr \<lparr>info_version = ''v1.0.0'', info_commit = ex_commit\<rparr>" for b
    by (simp add: ex_fetcher_def)
  show ?thesis
    by (simp add: ft_files_def first_source_def ex_sources and_then_def ex_get json commit tar)
qed

lemma ex_tree_hash: "ft_tree_hash ex_fetcher ex_files = Inr ex_h1" "ft_manifest_hash ex_fetcher ex_manifest = Some ex_h1"
proof -
  have sums: "as_bytes ex_summary \<noteq> ex_manifest" using ex_leaf_other by simp
  have "check_path MANIFEST_FILE = Inr ()" by code_simp
  then have "tree_hash ex_sha ex_b64e [(MANIFEST_FILE, ex_manifest)] = Inr ex_h1"
    using sums by (simp add: tree_hash_ok sort_by_def ex_sha_def ex_h1_def flip: ex_summary_def)
  then show "ft_tree_hash ex_fetcher ex_files = Inr ex_h1" "ft_manifest_hash ex_fetcher ex_manifest = Some ex_h1"
    by (simp_all add: ft_tree_hash_def ft_manifest_hash_def manifest_hash_def ex_files_def)
      (simp_all add: ex_crypto_def)
qed

lemma ex_hashes: "hashes ex_fetcher ex_path ex_version ex_files w = Some (Inr (ex_h1, ex_h1), w)"
  by (simp add: hashes_def ex_tree_hash and_then_Inr manifest_of_def lift_panic_def) (simp add: ex_files_def ex_tree_hash)

definition ex_locked :: locked where
  "ex_locked = \<lparr>locked_path = ex_path, locked_version = ex_version, commit = ex_commit, hash = ex_h1,
                locked_manifest = ex_h1, external = [], dev = False\<rparr>"

lemma ex_put_file: "\<exists>w'. put_file ex_env p c w = Some (Inr (), w')"
  by (simp add: put_file_def ex_env_def)

lemma ex_put_dir: "\<exists>w'. put_dir ex_env d ex_files w = Some (Inr d, w')"
proof -
  have "\<not> outside MANIFEST_FILE" by code_simp
  then show ?thesis by (simp add: put_dir_def ex_env_def ex_files_def)
qed

lemma ex_download:
  assumes "client_seen ex_crypto ''c'' ex_sumdb w = Inr None"
  shows "\<exists>w'. download ex_fetcher ex_path ex_version w = Some (Inr ex_locked, w')"
proof -
  obtain w1 where w1: "client_lookup ex_crypto ex_env ''c'' ex_sumdb ex_path ex_version (tick (tick w)) = Some (Inr ex_record, w1)"
    using ex_lookup [of "''c''" "tick (tick w)"] assms by auto
  have checked: "download_checked ex_fetcher ex_path ex_version ex_h1 ex_h1 (tick (tick w)) = Some (Inr (), w1)"
    by (simp add: download_checked_def ft_lookup_def ex_sources and_then_Inr w1) (simp add: ex_record_def)
  obtain w2 where w2: "put_dir ex_env (cache_dir ''c'' ex_path ex_version) ex_files w1
      = Some (Inr (cache_dir ''c'' ex_path ex_version), w2)" using ex_put_dir by blast
  have content: "manifest_of ex_path ex_version ex_files = Inr ex_manifest" by (simp add: manifest_of_def ex_files_def)
  obtain w3 where w3: "put_file ex_env (manifest_path ''c'' ex_path ex_version) ex_manifest w2 = Some (Inr (), w3)"
    using ex_put_file by blast
  have ext: "lock_external_files (map (apsnd from_utf8_lossy) ex_files) = []" by code_simp
  have "download ex_fetcher ex_path ex_version w = Some (Inr ex_locked, w3)"
    by (simp add: download_def Let_def and_then_def ex_get_files ex_hashes checked w2 content w3 ext ex_locked_def)
  then show ?thesis by blast
qed

lemma ex_seen: "client_seen ex_crypto ''c'' ex_sumdb (ex_world\<lparr>cache_dirs := m\<rparr>) = Inr None"
  "client_seen ex_crypto ''c'' ex_sumdb ex_world = Inr None"
  by (simp_all add: client_seen_def read_file_def ex_world_def)

lemma ex_trusts: "trusts ex_crypto ex_sumdb [ex_leaf]"
proof -
  have "as_bytes (record_to_text r) = ex_leaf \<Longrightarrow> record_valid (cr_b64d ex_crypto) r \<Longrightarrow> r = ex_record" for r
    using record_text_parse [OF ex_b64d_strict, of r] record_text_parse [OF ex_b64d_strict ex_record_valid]
    unfolding ex_leaf_def by (metis bytes_str_as_bytes option.inject)
  then have "log_functional ex_crypto [ex_leaf]" unfolding log_functional_def by auto
  with ex_sha_len ex_log_hashed ex_signer show ?thesis by (simp add: trusts_def)
qed


theorem downloads_agree_witness:
  "\<exists>w' files. download ex_fetcher ex_path ex_version ex_world = Some (Inr ex_locked, w')
     \<and> cache_dirs w' (version_dir ex_fetcher ex_path ex_version) = Some files \<and> mset files = mset ex_files"
proof -
  let ?d = "version_dir ex_fetcher ex_path ex_version"
  obtain w' where w': "download ex_fetcher ex_path ex_version ex_world = Some (Inr ex_locked, w')"
    using ex_download [OF ex_seen(2)] by blast
  have fresh: "cache_dirs ex_world ?d = None" "no_race (ft_env ex_fetcher) ?d"
    by (simp_all add: ex_world_def no_race_def) (simp add: ex_env_def)
  have inj: "inj (cr_b64e (ft_crypto ex_fetcher))"
    by (rule injI) (simp add: ex_crypto_def ex_b64e_def, metis as_bytes_bytes_str)
  have pre: "no_second_preimage (cr_sha (ft_crypto ex_fetcher)) (snd ` set ex_files)"
    "no_second_preimage (cr_sha (ft_crypto ex_fetcher)) {as_bytes (concat (map summary_line
      (sort_by by_path (map (\<lambda>f. (fst f, cr_sha (ft_crypto ex_fetcher) (snd f))) ex_files))))}"
  proof -
    have sub: "no_second_preimage ex_sha S" if "S \<subseteq> {ex_manifest, as_bytes ex_summary, 0 # ex_leaf}" for S
      using ex_preimage that unfolding no_second_preimage_def by blast
    have sha: "cr_sha (ft_crypto ex_fetcher) = ex_sha" by (simp add: ex_crypto_def)
    have "ex_sha ex_manifest = replicate 32 66" by (simp add: ex_sha_def)
    then have "concat (map summary_line (sort_by by_path (map (\<lambda>f. (fst f, ex_sha (snd f))) ex_files))) = ex_summary"
      by (simp only: ex_files_def list.map fst_conv snd_conv sort_by_def foldr.simps fold.simps comp_apply id_apply
          insert_by.simps concat.simps append_Nil2 ex_summary_def)
    then show "no_second_preimage (cr_sha (ft_crypto ex_fetcher)) {as_bytes (concat (map summary_line
      (sort_by by_path (map (\<lambda>f. (fst f, cr_sha (ft_crypto ex_fetcher) (snd f))) ex_files))))}"
      unfolding sha by (intro sub) simp
    show "no_second_preimage (cr_sha (ft_crypto ex_fetcher)) (snd ` set ex_files)"
      unfolding sha by (intro sub) (simp add: ex_files_def)
  qed
  obtain files where f: "cache_dirs w' ?d = Some files" "ft_tree_hash ex_fetcher files = Inr ex_h1"
    using download_stores [OF w' fresh] by (auto simp: ex_locked_def)
  have "mset ex_files = mset files"
    using same_hash_same_files [OF ex_tree_hash(1) [unfolded ft_tree_hash_def] f(2) [unfolded ft_tree_hash_def] inj _ pre]
      ex_sha_len by simp
  then have stored: "cache_dirs w' ?d = Some ex_files" using f(1) by (simp add: ex_files_def)
  have "trusts (ft_crypto ex_fetcher) ex_sumdb [ex_leaf]" using ex_trusts by simp
  from downloads_agree [OF w' w' _ _ this _ this fresh fresh stored inj pre] w' show ?thesis
    by (simp add: ex_sources)
qed

theorem ensure_verified_witness:
  "\<exists>d w' files. ensure ex_fetcher ex_locked ex_world = Some (Inr d, w')
     \<and> cache_dirs w' d = Some files \<and> ft_tree_hash ex_fetcher files = Inr (hash ex_locked)"
proof -
  let ?d = "cache_dir ''c'' ex_path ex_version"
  obtain w' where "put_dir ex_env ?d ex_files (tick (tick ex_world)) = Some (Inr ?d, w')" using ex_put_dir by blast
  then have run: "ensure ex_fetcher ex_locked ex_world = Some (Inr ?d, w')"
    by (simp add: ensure_def Let_def ex_locked_def and_then_def ex_get_files ex_hashes) (simp add: ex_world_def)
  have "cache_dirs ex_world ?d = None" "no_race (ft_env ex_fetcher) ?d"
    by (simp_all add: ex_world_def no_race_def) (simp add: ex_env_def)
  from ensure_verified [OF run this] run show ?thesis by blast
qed

text \<open>The directory is empty, and the lock says otherwise.\<close>

theorem download_keeps_old_dir_witness:
  "\<exists>w'. download ex_fetcher ex_path ex_version (ex_world\<lparr>cache_dirs := [version_dir ex_fetcher ex_path ex_version \<mapsto> []]\<rparr>)
       = Some (Inr ex_locked, w')
     \<and> cache_dirs w' (version_dir ex_fetcher ex_path ex_version) = Some []
     \<and> ensure ex_fetcher ex_locked w' = Some (Inr (version_dir ex_fetcher ex_path ex_version), w')
     \<and> ft_tree_hash ex_fetcher [] \<noteq> Inr (hash ex_locked)"
proof -
  let ?w = "ex_world\<lparr>cache_dirs := [version_dir ex_fetcher ex_path ex_version \<mapsto> []]\<rparr>"
  obtain w' where w': "download ex_fetcher ex_path ex_version ?w = Some (Inr ex_locked, w')"
    using ex_download [OF ex_seen(1)] by blast
  have "ft_tree_hash ex_fetcher [] \<noteq> Inr (hash ex_locked)" by code_simp
  with download_keeps_old_dir [OF w', of "[]"] w' show ?thesis by auto
qed


theorem private_offline_witness:
  "download (with_net ex_fetcher (\<lambda>_ _. Inl [])) (SourcePath ''b.io/y'') ex_version
     = download ex_fetcher (SourcePath ''b.io/y'') ex_version"
proof -
  have "is_private (ft_config ex_fetcher) (SourcePath ''b.io/y'')" by code_simp
  from private_offline [OF this, of "ex_locked\<lparr>locked_path := SourcePath ''b.io/y''\<rparr>"] show ?thesis by simp
qed

end
