(* ===== verification/Lir_Ir.thy ===== *)
theory Lir_Ir
  imports Core_Types
begin

text \<open>
  The data of the LIR, the intermediate language between Core and the native backends
  (\<open>crates/emela-lir/src/ir.rs\<close>, \<open>repr.rs\<close>), with the definitions of the Core IR it refers to
  (\<open>crates/emela-core/src/ir.rs\<close>, \<open>intrinsics.rs\<close>).

  A function is a flat store: its variables, statements, sequences and labels are lists (the arenas)
  and refer to each other by index. Reading an arena out of range is a panic, \<open>None\<close> here.
\<close>

section \<open>Core definitions\<close>

text \<open>The builtin functions, one constructor per row of the source's enum, prefixed with \<open>B\<close>.\<close>

datatype (plugins only: size code) builtin =
    BStringLength | BStringByteSize | BStringAppend | BStringContains | BStringStartsWith
  | BStringEndsWith | BStringSplit | BStringChars | BStringJoin | BStringTrim | BStringCodePoints
  | BStringFromCodePoint | BShowNested | BIntToString | BIntParse | BIntCheckedAdd | BIntBitAnd
  | BIntBitOr | BIntBitXor | BIntBitNot | BIntShiftLeft | BIntShiftRight | BIntShiftRightUnsigned
  | BInt64FromInt | BInt64ToString | BInt64ToInt | BInt64BitAnd | BInt64BitOr | BInt64BitXor
  | BInt64BitNot | BInt64ShiftLeft | BInt64ShiftRight | BInt64ShiftRightUnsigned | BFloatToString
  | BFloatFromInt | BFloatParse | BFloatFloor | BFloatCeil | BFloatRound | BFloatTruncate
  | BBytesFromList | BBytesToList | BBytesSize | BBytesGet | BBytesSlice | BBytesConcat
  | BBytesEncodeUtf8 | BBytesDecodeValidUtf8 | BArrayFromList | BArrayToList | BArraySize
  | BArrayGet | BArraySet | BArraySlice | BArrayConcat | BPanic | BTodo | BDbg | BInspect
  | BCellNew | BCellGet | BCellSet | BShowString | BDebugPrint | BAssertFail

datatype host_module = HostNamed string | HostFile string | HostBundled string

datatype host_ref = HostGlobal string | HostImport host_module string

record external_binding =
  eb_target :: string
  eb_host :: host_ref

record external_fn =
  eb_bindings :: "external_binding list"

definition external_binding_for :: "external_fn \<Rightarrow> string \<Rightarrow> external_binding option" where
  "external_binding_for e target = find (\<lambda>b. eb_target b = target) (eb_bindings e)"

record op_def =
  op_name :: string
  op_suspend :: bool
  op_type_params :: nat
  op_params :: "type_id list"
  op_ret :: type_id
  op_fails :: bool

record effect_def =
  eff_name :: string
  eff_decl :: string
  eff_args :: "type_id list"
  eff_ops :: "op_def list"
  eff_label_of :: "effect_id option"

datatype variant_fields = FieldsUnit | FieldsPositional nat | FieldsNamed "string list"

fun fields_len :: "variant_fields \<Rightarrow> nat" where
  "fields_len FieldsUnit = 0"
| "fields_len (FieldsPositional n) = n"
| "fields_len (FieldsNamed names) = length names"

definition fields_is_empty :: "variant_fields \<Rightarrow> bool" where
  "fields_is_empty fs \<longleftrightarrow> fields_len fs = 0"

record variant_def =
  vd_name :: string
  vd_fields :: variant_fields
  vd_tys :: "type_id list"

record enum_def =
  ed_name :: string
  ed_params :: nat
  ed_variants :: "variant_def list"
  ed_error :: bool
  ed_external :: bool

record ctor_ref =
  cr_enum :: enum_id
  cr_variant :: nat

text \<open>The parts of a Core module that LIR reads: its enums, its effects and its type table.\<close>

record core_module =
  core_enums :: "enum_def list"
  core_effects :: "effect_def list"
  core_types :: type_table

datatype fiber_op =
    FScope bool | FFork | FDeferred | FJoin | FAwait enum_id | FInterrupt | FAttempt enum_id bool
  | FComplete | FDeferredAwait | FPoll | FCauseKind enum_id | FCauseToString | FCauseRaise bool

fun fiber_arity :: "fiber_op \<Rightarrow> nat" where
  "fiber_arity FFork = 2"
| "fiber_arity FComplete = 2"
| "fiber_arity _ = 1"

fun fiber_suspends :: "fiber_op \<Rightarrow> bool" where
  "fiber_suspends (FScope _) = True"
| "fiber_suspends FJoin = True"
| "fiber_suspends (FAwait _) = True"
| "fiber_suspends FInterrupt = True"
| "fiber_suspends FDeferredAwait = True"
| "fiber_suspends (FAttempt _ s) = s"
| "fiber_suspends _ = False"

fun fiber_fails :: "fiber_op \<Rightarrow> bool" where
  "fiber_fails (FScope f) = f"
| "fiber_fails (FCauseRaise f) = f"
| "fiber_fails _ = False"

section \<open>Representations\<close>

datatype repr = I32 | I64 | F64 | Ref | Void

definition enum_repr :: "core_module \<Rightarrow> enum_id \<Rightarrow> repr option" where
  "enum_repr core e =
     (if e < length (core_enums core) then
        (let def = core_enums core ! e in
         Some (if \<not> ed_error def \<and> \<not> ed_external def \<and> ed_variants def \<noteq> []
                  \<and> list_all (\<lambda>v. fields_is_empty (vd_fields v)) (ed_variants def)
               then I32 else Ref))
      else None)"

definition repr_of :: "core_module \<Rightarrow> type_id \<Rightarrow> repr option" where
  "repr_of core ty =
     do { c \<leftarrow> tt_index (core_types core) ty;
          case c of
            TyInt \<Rightarrow> Some I32
          | TyBool \<Rightarrow> Some I32
          | TyInt64 \<Rightarrow> Some I64
          | TyFloat \<Rightarrow> Some F64
          | TyUnit \<Rightarrow> Some Void
          | TyNever \<Rightarrow> Some Void
          | TySet _ \<Rightarrow> Some Void
          | TyEnum e _ \<Rightarrow> enum_repr core e
          | _ \<Rightarrow> Some Ref }"

definition repr_of_subst :: "core_module \<Rightarrow> type_id \<Rightarrow> type_id list \<Rightarrow> repr option" where
  "repr_of_subst core ty args =
     do { c \<leftarrow> tt_index (core_types core) ty;
          case c of
            TyParam i \<Rightarrow> (if i < length args then repr_of core (args ! i) else repr_of core ty)
          | _ \<Rightarrow> repr_of core ty }"

section \<open>The LIR\<close>

type_synonym fn_id = nat
type_synonym var_id = nat
type_synonym stmt_id = nat
type_synonym seq_id = nat
type_synonym label_id = nat

datatype stage = Flow | ClosuresConverted | DefectsExplicit | StateMachines | RefCounted

datatype const =
    CInt "32 word" | CInt64 "64 word" | CFloat "64 word" | CBool bool | CString string | CUnit

fun const_repr :: "const \<Rightarrow> repr" where
  "const_repr (CInt _) = I32"
| "const_repr (CBool _) = I32"
| "const_repr (CInt64 _) = I64"
| "const_repr (CFloat _) = F64"
| "const_repr (CString _) = Ref"
| "const_repr CUnit = Void"

datatype operand = OVar var_id | OConst const

datatype prim_op = PAdd | PSub | PMul | PDiv | PRem | PNeg | PNot | PEq | PNe | PLt | PLe | PGt | PGe

fun prim_arity :: "prim_op \<Rightarrow> nat" where
  "prim_arity PNeg = 1"
| "prim_arity PNot = 1"
| "prim_arity _ = 2"

definition is_comparison :: "prim_op \<Rightarrow> bool" where
  "is_comparison p \<longleftrightarrow> p \<in> {PEq, PNe, PLt, PLe, PGt, PGe}"

datatype prim_ty = PI32 | PI64 | PF64 | PString

fun prim_repr :: "prim_ty \<Rightarrow> repr" where
  "prim_repr PI32 = I32"
| "prim_repr PI64 = I64"
| "prim_repr PF64 = F64"
| "prim_repr PString = Ref"

datatype runtime_op =
    RShowString | RDebugPrint | RRetire | RDefect | RDefectAt | RDefectTake | RDefectResume
  | RHold | RUnhold | RYield | RYieldPerform

fun runtime_sig :: "runtime_op \<Rightarrow> repr list \<times> repr" where
  "runtime_sig RShowString = ([Ref], Ref)"
| "runtime_sig RDebugPrint = ([Ref], Void)"
| "runtime_sig RRetire = ([Ref, Ref], Void)"
| "runtime_sig RDefectAt = ([Ref, Ref], Void)"
| "runtime_sig RDefect = ([Ref], Void)"
| "runtime_sig RDefectResume = ([Ref], Void)"
| "runtime_sig RDefectTake = ([], Ref)"
| "runtime_sig RHold = ([], Void)"
| "runtime_sig RUnhold = ([], Void)"
| "runtime_sig RYield = ([], Void)"
| "runtime_sig RYieldPerform = ([], Void)"

record closure =
  cl_params :: "var_id list"
  cl_captures :: "var_id list"
  cl_body :: seq_id
  cl_suspends :: bool

datatype callee = Direct fn_id | Indirect var_id | CallOp var_id effect_id nat

datatype on_fail = FailBreak label_id | FailPropagate | FailHandle var_id seq_id

datatype lir_value =
    VConst const
  | VPrim prim_op prim_ty "operand list"
  | VCall callee "operand list" bool "on_fail option"
  | VBuiltin builtin "operand list"
  | VMake ctor_ref "operand list"
  | VField var_id ctor_ref nat
  | VTag var_id
  | VTuple "operand list"
  | VTupleGet var_id nat
  | VList "operand list" "operand option"
  | VListIsEmpty var_id
  | VListHead var_id
  | VListTail var_id
  | VFnRef fn_id
  | VClosure closure
  | VMakeClosure fn_id "var_id list"
  | VEnvGet var_id nat
  | VEvLookup var_id effect_id
  | VEvExtend "var_id option" "(effect_id \<times> var_id) list"
  | VHandler string effect_id "var_id list"
  | VFiber fiber_op "operand list" "on_fail option"
  | VIsError var_id enum_id
  | VAsError var_id enum_id
  | VRuntime runtime_op "operand list"
  | VCoerce var_id

record suspend =
  su_state :: nat
  su_saved :: "var_id list"

datatype switch_on = OnTag var_id | OnLit var_id

datatype case_key = KeyVariant nat | KeyLit const

record switch_case =
  sc_key :: case_key
  sc_body :: seq_id

datatype lir_term =
    Yield "operand option"
  | Return "operand option"
  | Fail operand
  | Break label_id "operand option"
  | Recur "operand list"
  | Defect operand "string option"
  | Unwind
  | Unreachable

datatype lir_stmt =
    SLet "var_id option" lir_value "seq_id option" "suspend option"
  | SIf "var_id option" operand seq_id seq_id
  | SSwitch "var_id option" switch_on "switch_case list" "seq_id option"
  | SLoop "var_id option" "var_id list" "operand list" seq_id
  | SBlock "var_id option" label_id seq_id
  | SProtect "var_id option" seq_id seq_id
  | SDup var_id
  | SDrop var_id

fun stmt_dst :: "lir_stmt \<Rightarrow> var_id option" where
  "stmt_dst (SLet d _ _ _) = d"
| "stmt_dst (SIf d _ _ _) = d"
| "stmt_dst (SSwitch d _ _ _) = d"
| "stmt_dst (SLoop d _ _ _) = d"
| "stmt_dst (SBlock d _ _) = d"
| "stmt_dst (SProtect d _ _) = d"
| "stmt_dst (SDup _) = None"
| "stmt_dst (SDrop _) = None"

record lir_seq =
  sq_stmts :: "stmt_id list"
  sq_term :: lir_term

record var_data =
  vd_hint :: string
  vd_repr :: repr
  vd_ty :: type_id

record label_data =
  ld_hint :: string

record lir_fn =
  f_name :: string
  f_exported :: bool
  f_params :: "var_id list"
  f_ret :: type_id
  f_fails :: bool
  f_suspends :: bool
  f_constant :: bool
  f_external :: "external_fn option"
  f_env :: "type_id list option"
  f_defects :: bool
  f_body :: "seq_id option"
  f_vars :: "var_data list"
  f_stmts :: "lir_stmt list"
  f_seqs :: "lir_seq list"
  f_labels :: "label_data list"

definition fn_new :: "string \<Rightarrow> lir_fn" where
  "fn_new name =
     \<lparr>f_name = name, f_exported = False, f_params = [], f_ret = TYPE_UNIT, f_fails = False,
      f_suspends = False, f_constant = False, f_external = None, f_env = None, f_defects = False,
      f_body = None, f_vars = [], f_stmts = [], f_seqs = [], f_labels = []\<rparr>"

record lir_module =
  m_core :: core_module
  m_functions :: "lir_fn list"
  m_stage :: stage
  m_error_shows :: "(enum_id \<times> fn_id) list"

definition module_new :: "core_module \<Rightarrow> lir_module" where
  "module_new core = \<lparr>m_core = core, m_functions = [], m_stage = Flow, m_error_shows = []\<rparr>"

text \<open>\<open>None\<close> is a failed \<open>debug_assert\<close> or an index out of range.\<close>

definition module_declare :: "lir_module \<Rightarrow> string \<Rightarrow> (fn_id \<times> lir_module) option" where
  "module_declare m name =
     (if list_all (\<lambda>f. f_name f \<noteq> name) (m_functions m)
      then Some (length (m_functions m), m\<lparr>m_functions := m_functions m @ [fn_new name]\<rparr>)
      else None)"

definition module_define :: "lir_module \<Rightarrow> fn_id \<Rightarrow> lir_fn \<Rightarrow> lir_module option" where
  "module_define m i f =
     (if i < length (m_functions m) \<and> f_name (m_functions m ! i) = f_name f
      then Some (m\<lparr>m_functions := (m_functions m)[i := f]\<rparr>) else None)"

definition module_add :: "lir_module \<Rightarrow> lir_fn \<Rightarrow> (fn_id \<times> lir_module) option" where
  "module_add m f =
     do { (i, m) \<leftarrow> module_declare m (f_name f);
          Some (i, m\<lparr>m_functions := (m_functions m)[i := f]\<rparr>) }"

section \<open>The variables of a value\<close>

fun operand_var :: "operand \<Rightarrow> var_id list" where
  "operand_var (OVar v) = [v]"
| "operand_var (OConst c) = []"

definition ops_vars :: "operand list \<Rightarrow> var_id list" where
  "ops_vars os = concat (map operand_var os)"

fun callee_vars :: "callee \<Rightarrow> var_id list" where
  "callee_vars (Direct f) = []"
| "callee_vars (Indirect v) = [v]"
| "callee_vars (CallOp v e i) = [v]"

definition opt_list :: "'a option \<Rightarrow> 'a list" where
  "opt_list x = (case x of None \<Rightarrow> [] | Some a \<Rightarrow> [a])"

text \<open>\<open>for_each_var\<close>, as the list of the variables it visits.\<close>

fun value_vars :: "lir_value \<Rightarrow> var_id list" where
  "value_vars (VConst _) = []"
| "value_vars (VFnRef _) = []"
| "value_vars (VPrim _ _ args) = ops_vars args"
| "value_vars (VBuiltin _ args) = ops_vars args"
| "value_vars (VMake _ args) = ops_vars args"
| "value_vars (VTuple args) = ops_vars args"
| "value_vars (VFiber _ args _) = ops_vars args"
| "value_vars (VRuntime _ args) = ops_vars args"
| "value_vars (VCall c args _ _) = callee_vars c @ ops_vars args"
| "value_vars (VField v _ _) = [v]"
| "value_vars (VTag v) = [v]"
| "value_vars (VTupleGet v _) = [v]"
| "value_vars (VListIsEmpty v) = [v]"
| "value_vars (VListHead v) = [v]"
| "value_vars (VListTail v) = [v]"
| "value_vars (VEvLookup v _) = [v]"
| "value_vars (VIsError v _) = [v]"
| "value_vars (VAsError v _) = [v]"
| "value_vars (VCoerce v) = [v]"
| "value_vars (VList elems tail) = ops_vars elems @ ops_vars (opt_list tail)"
| "value_vars (VClosure c) = cl_captures c"
| "value_vars (VMakeClosure _ captures) = captures"
| "value_vars (VEnvGet env _) = [env]"
| "value_vars (VEvExtend base bindings) = opt_list base @ map snd bindings"
| "value_vars (VHandler _ _ ops) = ops"

text \<open>\<open>for_each_var_mut\<close>, replacing every variable it visits.\<close>

fun map_operand :: "(var_id \<Rightarrow> var_id) \<Rightarrow> operand \<Rightarrow> operand" where
  "map_operand g (OVar v) = OVar (g v)"
| "map_operand g (OConst c) = OConst c"

fun map_callee :: "(var_id \<Rightarrow> var_id) \<Rightarrow> callee \<Rightarrow> callee" where
  "map_callee g (Direct f) = Direct f"
| "map_callee g (Indirect v) = Indirect (g v)"
| "map_callee g (CallOp v e i) = CallOp (g v) e i"

fun value_map_vars :: "(var_id \<Rightarrow> var_id) \<Rightarrow> lir_value \<Rightarrow> lir_value" where
  "value_map_vars g (VConst c) = VConst c"
| "value_map_vars g (VFnRef f) = VFnRef f"
| "value_map_vars g (VPrim p t args) = VPrim p t (map (map_operand g) args)"
| "value_map_vars g (VBuiltin op args) = VBuiltin op (map (map_operand g) args)"
| "value_map_vars g (VMake c args) = VMake c (map (map_operand g) args)"
| "value_map_vars g (VTuple args) = VTuple (map (map_operand g) args)"
| "value_map_vars g (VFiber op args fl) = VFiber op (map (map_operand g) args) fl"
| "value_map_vars g (VRuntime op args) = VRuntime op (map (map_operand g) args)"
| "value_map_vars g (VCall c args s fl) = VCall (map_callee g c) (map (map_operand g) args) s fl"
| "value_map_vars g (VField v c i) = VField (g v) c i"
| "value_map_vars g (VTag v) = VTag (g v)"
| "value_map_vars g (VTupleGet v i) = VTupleGet (g v) i"
| "value_map_vars g (VListIsEmpty v) = VListIsEmpty (g v)"
| "value_map_vars g (VListHead v) = VListHead (g v)"
| "value_map_vars g (VListTail v) = VListTail (g v)"
| "value_map_vars g (VEvLookup v e) = VEvLookup (g v) e"
| "value_map_vars g (VIsError v e) = VIsError (g v) e"
| "value_map_vars g (VAsError v e) = VAsError (g v) e"
| "value_map_vars g (VCoerce v) = VCoerce (g v)"
| "value_map_vars g (VList elems tail) = VList (map (map_operand g) elems) (map_option (map_operand g) tail)"
| "value_map_vars g (VClosure c) = VClosure (c\<lparr>cl_captures := map g (cl_captures c)\<rparr>)"
| "value_map_vars g (VMakeClosure f captures) = VMakeClosure f (map g captures)"
| "value_map_vars g (VEnvGet env i) = VEnvGet (g env) i"
| "value_map_vars g (VEvExtend base bindings) =
     VEvExtend (map_option g base) (map (\<lambda>(e, v). (e, g v)) bindings)"
| "value_map_vars g (VHandler n e ops) = VHandler n e (map g ops)"

lemma ops_vars_map: "ops_vars (map (map_operand g) os) = map g (ops_vars os)"
proof -
  have "operand_var (map_operand g oo) = map g (operand_var oo)" for oo by (cases oo) simp_all
  then show ?thesis by (simp add: ops_vars_def map_concat comp_def)
qed

lemma opt_list_map: "opt_list (map_option g x) = map g (opt_list x)"
  by (cases x) (simp_all add: opt_list_def)

text \<open>The two traversals of a value visit the same variables in the same order.\<close>

lemma value_vars_map: "value_vars (value_map_vars g v) = map g (value_vars v)"
proof (cases v)
  case (VCall c args s fl)
  then show ?thesis by (cases c) (simp_all add: ops_vars_map)
qed (simp_all add: ops_vars_map opt_list_map case_prod_unfold comp_def)

section \<open>Reading the arenas\<close>

definition get_seq :: "lir_fn \<Rightarrow> seq_id \<Rightarrow> lir_seq option" where
  "get_seq f i = (if i < length (f_seqs f) then Some (f_seqs f ! i) else None)"

definition get_stmt :: "lir_fn \<Rightarrow> stmt_id \<Rightarrow> lir_stmt option" where
  "get_stmt f i = (if i < length (f_stmts f) then Some (f_stmts f ! i) else None)"

section \<open>The sequences of a statement\<close>

text \<open>The failure landing of a value: \<open>on_fail: Some(OnFail::Handle { error, body })\<close>.\<close>

fun handle_of :: "on_fail option \<Rightarrow> (var_id \<times> seq_id) option" where
  "handle_of (Some (FailHandle e b)) = Some (e, b)"
| "handle_of _ = None"

fun fail_landing :: "lir_value \<Rightarrow> (var_id \<times> seq_id) option" where
  "fail_landing (VCall _ _ _ fl) = handle_of fl"
| "fail_landing (VFiber _ _ fl) = handle_of fl"
| "fail_landing _ = None"

fun switch_var :: "switch_on \<Rightarrow> var_id" where
  "switch_var (OnTag v) = v"
| "switch_var (OnLit v) = v"

text \<open>\<open>children\<close> of \<open>heap/suspend.rs\<close>: the sequences directly inside a statement, in order.\<close>

fun children :: "lir_stmt \<Rightarrow> seq_id list" where
  "children (SLet d value on_defect su) = map snd (opt_list (fail_landing value)) @ opt_list on_defect"
| "children (SIf d c a b) = [a, b]"
| "children (SSwitch d on cases dflt) = map sc_body cases @ opt_list dflt"
| "children (SLoop d vs inits b) = [b]"
| "children (SBlock d l b) = [b]"
| "children (SProtect d b cleanup) = [b, cleanup]"
| "children (SDup v) = []"
| "children (SDrop v) = []"

end
