(* ===== verification/Lir_Path.thy ===== *)
theory Lir_Path
  imports Lir_Ir
begin

text \<open>
  What an analysis of the LIR is about: the paths of a function. A path is the list of the events
  on it, with every branch, landing and loop iteration possible; it may stop anywhere, so that
  every finite part of a run is a path. The analyses of the other theories are proved against it.

  The shape of a function is the one the verifier checks (\<open>crates/emela-lir/src/verify.rs\<close>): a tree in
  which no statement occurs twice, \<open>break\<close> targets an enclosing block, labels are not reused inside
  their block, landings do not yield, and (from the stage \<open>DefectsExplicit\<close> on) there is no \<open>protect\<close>.
\<close>

section \<open>Events and paths\<close>

datatype event =
    ELet stmt_id            \<comment> \<open>the value of a \<open>let\<close> is computed\<close>
  | EDst stmt_id            \<comment> \<open>and its destination defined\<close>
  | ESuspend stmt_id        \<comment> \<open>or it came back suspended\<close>
  | EOwn var_id             \<comment> \<open>another variable is defined\<close>
  | ERead "var_id list"     \<comment> \<open>a condition or scrutinee is read\<close>
  | EInit "operand list"    \<comment> \<open>the initial values of a loop\<close>
  | EDup var_id
  | EDrop var_id
  | ETerm lir_term

datatype outcome = OYield | OBreak label_id | ORecur | OLeave | OStop

fun term_outcome :: "lir_term \<Rightarrow> outcome" where
  "term_outcome (Yield v) = OYield"
| "term_outcome (Break l v) = OBreak l"
| "term_outcome (Recur args) = ORecur"
| "term_outcome (Return v) = OLeave"
| "term_outcome (Fail v) = OLeave"
| "term_outcome (Defect v l) = OLeave"
| "term_outcome Unwind = OLeave"
| "term_outcome Unreachable = OStop"

fun dst_events :: "stmt_id \<Rightarrow> var_id option \<Rightarrow> event list" where
  "dst_events s None = []"
| "dst_events s (Some d) = [EDst s]"

fun own_events :: "var_id option \<Rightarrow> event list" where
  "own_events None = []"
| "own_events (Some d) = [EOwn d]"

text \<open>\<open>if\<close> and \<open>switch\<close>: what is read, the destination and the branches.\<close>

fun branches :: "lir_stmt \<Rightarrow> (var_id list \<times> var_id option \<times> seq_id list) option" where
  "branches (SIf d c a b) = Some (operand_var c, d, [a, b])"
| "branches (SSwitch d on cases dflt) = Some ([switch_var on], d, map sc_body cases @ opt_list dflt)"
| "branches _ = None"

inductive path_seq :: "lir_fn \<Rightarrow> seq_id \<Rightarrow> event list \<Rightarrow> outcome \<Rightarrow> bool"
  and path_stmts :: "lir_fn \<Rightarrow> stmt_id list \<Rightarrow> lir_term \<Rightarrow> event list \<Rightarrow> outcome \<Rightarrow> bool"
  and path_stmt :: "lir_fn \<Rightarrow> stmt_id \<Rightarrow> event list \<Rightarrow> outcome option \<Rightarrow> bool"
  and path_loop :: "lir_fn \<Rightarrow> var_id list \<Rightarrow> seq_id \<Rightarrow> event list \<Rightarrow> outcome \<Rightarrow> bool"
  for f where
  seq: "get_seq f i = Some q \<Longrightarrow> path_stmts f (sq_stmts q) (sq_term q) tr out \<Longrightarrow> path_seq f i tr out"
| stop: "path_stmts f ss t [] OStop"
| finish: "path_stmts f [] t [ETerm t] (term_outcome t)"
| step: "path_stmt f s tr None \<Longrightarrow> path_stmts f ss t tr' out \<Longrightarrow> path_stmts f (s # ss) t (tr @ tr') out"
| leave: "path_stmt f s tr (Some out) \<Longrightarrow> path_stmts f (s # ss) t tr out"
| let_ok: "get_stmt f s = Some (SLet d v df su) \<Longrightarrow> path_stmt f s (ELet s # dst_events s d) None"
| let_fail: "get_stmt f s = Some (SLet d v df su) \<Longrightarrow> fail_landing v = Some (e, b) \<Longrightarrow>
    path_seq f b tr out \<Longrightarrow> out \<noteq> OYield \<Longrightarrow> path_stmt f s (ELet s # EOwn e # tr) (Some out)"
| let_defect: "get_stmt f s = Some (SLet d v (Some b) su) \<Longrightarrow>
    path_seq f b tr out \<Longrightarrow> out \<noteq> OYield \<Longrightarrow> path_stmt f s (ELet s # tr) (Some out)"
| let_suspend: "get_stmt f s = Some (SLet d v df (Some su)) \<Longrightarrow> path_stmt f s [ELet s, ESuspend s] (Some OLeave)"
| dup: "get_stmt f s = Some (SDup v) \<Longrightarrow> path_stmt f s [EDup v] None"
| drop: "get_stmt f s = Some (SDrop v) \<Longrightarrow> path_stmt f s [EDrop v] None"
| branch: "get_stmt f s = Some stmt \<Longrightarrow> branches stmt = Some (vs, d, bs) \<Longrightarrow> b \<in> set bs \<Longrightarrow>
    path_seq f b tr OYield \<Longrightarrow> path_stmt f s (ERead vs # tr @ own_events d) None"
| branch_out: "get_stmt f s = Some stmt \<Longrightarrow> branches stmt = Some (vs, d, bs) \<Longrightarrow> b \<in> set bs \<Longrightarrow>
    path_seq f b tr out \<Longrightarrow> out \<noteq> OYield \<Longrightarrow> path_stmt f s (ERead vs # tr) (Some out)"
| block: "get_stmt f s = Some (SBlock d l b) \<Longrightarrow> path_seq f b tr out \<Longrightarrow> out = OYield \<or> out = OBreak l \<Longrightarrow>
    path_stmt f s (tr @ own_events d) None"
| block_out: "get_stmt f s = Some (SBlock d l b) \<Longrightarrow> path_seq f b tr out \<Longrightarrow> out \<noteq> OYield \<Longrightarrow> out \<noteq> OBreak l \<Longrightarrow>
    path_stmt f s tr (Some out)"
| loop: "get_stmt f s = Some (SLoop d vs inits b) \<Longrightarrow> path_loop f vs b tr OYield \<Longrightarrow>
    path_stmt f s (EInit inits # tr @ own_events d) None"
| loop_out: "get_stmt f s = Some (SLoop d vs inits b) \<Longrightarrow> path_loop f vs b tr out \<Longrightarrow> out \<noteq> OYield \<Longrightarrow>
    path_stmt f s (EInit inits # tr) (Some out)"
| last: "path_seq f b tr out \<Longrightarrow> out \<noteq> ORecur \<Longrightarrow> path_loop f vs b (map EOwn vs @ tr) out"
| again: "path_seq f b tr ORecur \<Longrightarrow> path_loop f vs b tr' out \<Longrightarrow>
    path_loop f vs b (map EOwn vs @ tr @ tr') out"

inductive_cases path_seqE: "path_seq f i tr out"
inductive_cases path_stmts_NilE: "path_stmts f [] t tr out"
inductive_cases path_stmts_ConsE: "path_stmts f (s # ss) t tr out"
inductive_cases path_stmtE: "path_stmt f s tr out"

lemma path_loop_induct [consumes 1, case_names last again]:
  assumes "path_loop f vs b tr out"
    and "\<And>tr out. path_seq f b tr out \<Longrightarrow> out \<noteq> ORecur \<Longrightarrow> P (map EOwn vs @ tr) out"
    and "\<And>tr tr' out. path_seq f b tr ORecur \<Longrightarrow> path_loop f vs b tr' out \<Longrightarrow> P tr' out \<Longrightarrow> P (map EOwn vs @ tr @ tr') out"
  shows "P tr out"
proof -
  have "path_seq f i tr1 out1 \<Longrightarrow> True" and "path_stmts f ss t tr2 out2 \<Longrightarrow> True"
    and "path_stmt f s tr3 out3 \<Longrightarrow> True" and "path_loop f vs' b' tr' out' \<Longrightarrow> b' = b \<longrightarrow> vs' = vs \<longrightarrow> P tr' out'"
    for i tr1 out1 ss t tr2 out2 s tr3 out3 vs' b' tr' out'
    by (induction rule: path_seq_path_stmts_path_stmt_path_loop.inducts) (use assms(2,3) in auto)
  with assms(1) show ?thesis by blast
qed

lemma path_loop_not_recur: "path_loop f vs b tr out \<Longrightarrow> out \<noteq> ORecur"
  by (induction rule: path_loop_induct) auto

text \<open>The paths of a function from its body on.\<close>

definition fn_path :: "lir_fn \<Rightarrow> event list \<Rightarrow> outcome \<Rightarrow> bool" where
  "fn_path f tr out \<longleftrightarrow> (\<exists>b. f_body f = Some b \<and> path_seq f b tr out)"

section \<open>The shape of a function\<close>

text \<open>\<open>all_disj P xs S\<close>: \<open>S\<close> is the disjoint union of sets that \<open>P\<close> gives to the elements of \<open>xs\<close>.\<close>

fun all_disj :: "('a \<Rightarrow> 'b set \<Rightarrow> bool) \<Rightarrow> 'a list \<Rightarrow> 'b set \<Rightarrow> bool" where
  "all_disj P [] S \<longleftrightarrow> S = {}"
| "all_disj P (x # xs) S \<longleftrightarrow> (\<exists>A B. P x A \<and> all_disj P xs B \<and> A \<inter> B = {} \<and> S = A \<union> B)"

lemma all_disj_ConsI:
  "P x A \<Longrightarrow> all_disj P xs B \<Longrightarrow> A \<inter> B = {} \<Longrightarrow> all_disj P (x # xs) (A \<union> B)"
  by auto

lemma all_disj_mono [mono]:
  "(\<And>x S. P x S \<longrightarrow> Q x S) \<Longrightarrow> all_disj P xs S \<longrightarrow> all_disj Q xs S"
proof (induction xs arbitrary: S)
  case (Cons x xs)
  show ?case
  proof
    assume "all_disj P (x # xs) S"
    then obtain A B where "P x A" "all_disj P xs B" "A \<inter> B = {}" "S = A \<union> B" by auto
    moreover from this Cons have "Q x A" "all_disj Q xs B" by blast+
    ultimately show "all_disj Q (x # xs) S" by auto
  qed
qed simp

lemma all_disj_in: "all_disj P xs S \<Longrightarrow> x \<in> set xs \<Longrightarrow> \<exists>A \<subseteq> S. P x A"
proof (induction xs arbitrary: S)
  case (Cons y ys)
  then obtain A B where AB: "P y A" "all_disj P ys B" "S = A \<union> B" by auto
  show ?case
  proof (cases "x = y")
    case True
    with AB show ?thesis by blast
  next
    case False
    with Cons.IH [OF AB(2)] Cons.prems(2) AB(3) show ?thesis by auto
  qed
qed simp

lemma all_disj_append:
  "all_disj P (xs @ ys) S \<longleftrightarrow> (\<exists>A B. all_disj P xs A \<and> all_disj P ys B \<and> A \<inter> B = {} \<and> S = A \<union> B)"
proof (induction xs arbitrary: S)
  case (Cons x xs)
  show ?case
  proof
    assume "all_disj P ((x # xs) @ ys) S"
    then obtain A B C where "P x A" "all_disj P xs B" "all_disj P ys C" "B \<inter> C = {}" "A \<inter> (B \<union> C) = {}"
      "S = A \<union> (B \<union> C)" using Cons by auto
    then show "\<exists>A B. all_disj P (x # xs) A \<and> all_disj P ys B \<and> A \<inter> B = {} \<and> S = A \<union> B"
      by (intro exI [of _ "A \<union> B"] exI [of _ C]) auto
  next
    assume "\<exists>A B. all_disj P (x # xs) A \<and> all_disj P ys B \<and> A \<inter> B = {} \<and> S = A \<union> B"
    then obtain A B C where "P x A" "all_disj P xs B" "all_disj P ys C" "A \<inter> B = {}" "(A \<union> B) \<inter> C = {}"
      "S = (A \<union> B) \<union> C" by auto
    then show "all_disj P ((x # xs) @ ys) S"
      unfolding append_Cons all_disj.simps Cons by (intro exI [of _ A] exI [of _ "B \<union> C"]) auto
  qed
qed simp

fun term_labels :: "lir_term \<Rightarrow> label_id set" where
  "term_labels (Break l v) = {l}"
| "term_labels _ = {}"

fun stmt_labels :: "lir_stmt \<Rightarrow> label_id set" where
  "stmt_labels (SBlock d l b) = {l}"
| "stmt_labels _ = {}"

fun is_protect :: "lir_stmt \<Rightarrow> bool" where
  "is_protect (SProtect d b c) = True"
| "is_protect _ = False"

text \<open>
  \<open>tree_seq f L i S\<close>: the sequence \<open>i\<close>, inside the blocks with the labels \<open>L\<close>, is a tree with the
  statements \<open>S\<close>.
\<close>

definition tree_stmt ::
  "(label_id set \<Rightarrow> seq_id \<Rightarrow> stmt_id set \<Rightarrow> bool) \<Rightarrow> lir_fn \<Rightarrow> label_id set \<Rightarrow> stmt_id \<Rightarrow> stmt_id set \<Rightarrow> bool" where
  "tree_stmt T f L s S \<longleftrightarrow>
     (\<exists>stmt S'. get_stmt f s = Some stmt \<and> \<not> is_protect stmt \<and> stmt_labels stmt \<inter> L = {}
        \<and> s \<notin> S' \<and> S = insert s S' \<and> all_disj (T (L \<union> stmt_labels stmt)) (children stmt) S')"

lemma tree_stmt_mono [mono]:
  "(\<And>L i S. T L i S \<longrightarrow> U L i S) \<Longrightarrow> tree_stmt T f L s S \<longrightarrow> tree_stmt U f L s S"
proof
  assume TU: "\<And>L i S. T L i S \<longrightarrow> U L i S" and "tree_stmt T f L s S"
  then obtain stmt S' where "get_stmt f s = Some stmt" "\<not> is_protect stmt" "stmt_labels stmt \<inter> L = {}"
    "s \<notin> S'" "S = insert s S'" "all_disj (T (L \<union> stmt_labels stmt)) (children stmt) S'"
    by (auto simp: tree_stmt_def)
  moreover from this(6) have "all_disj (U (L \<union> stmt_labels stmt)) (children stmt) S'"
    using all_disj_mono [of "T (L \<union> stmt_labels stmt)" "U (L \<union> stmt_labels stmt)"] TU by blast
  ultimately show "tree_stmt U f L s S" unfolding tree_stmt_def by blast
qed

lemma tree_stmtE:
  assumes "tree_stmt T f L s S"
  obtains stmt S' where "get_stmt f s = Some stmt" "\<not> is_protect stmt" "stmt_labels stmt \<inter> L = {}"
    "s \<notin> S'" "S = insert s S'" "all_disj (T (L \<union> stmt_labels stmt)) (children stmt) S'"
  using assms by (auto simp: tree_stmt_def)

lemma tree_stmts_mono:
  assumes "all_disj (tree_stmt T f L) ss S" "\<And>L i S. T L i S \<Longrightarrow> U L i S"
  shows "all_disj (tree_stmt U f L) ss S"
proof -
  have "tree_stmt T f L s S \<longrightarrow> tree_stmt U f L s S" for s S
    using tree_stmt_mono [of T U] assms(2) by blast
  then show ?thesis using all_disj_mono [of "tree_stmt T f L" "tree_stmt U f L"] assms(1) by blast
qed

inductive tree_seq :: "lir_fn \<Rightarrow> label_id set \<Rightarrow> seq_id \<Rightarrow> stmt_id set \<Rightarrow> bool" for f where
  "get_seq f i = Some q \<Longrightarrow> term_labels (sq_term q) \<subseteq> L \<Longrightarrow>
   all_disj (tree_stmt (tree_seq f) f L) (sq_stmts q) S \<Longrightarrow> tree_seq f L i S"

definition tree_fn :: "lir_fn \<Rightarrow> bool" where
  "tree_fn f \<longleftrightarrow> (\<exists>b S. f_body f = Some b \<and> tree_seq f {} b S)"

end
