(* ===== verification/Lir_Live.thy ===== *)
theory Lir_Live
  imports Lir_Path
begin

text \<open>
  The liveness analysis of the LIR (\<open>crates/emela-lir/src/heap/live.rs\<close>): a backward pass over the
  structured control with a fixpoint at loops. The state machine pass saves what it finds live into
  a frame, so a variable it misses is lost when a fiber is resumed.

  The recursion follows IDs through the arenas and iterates at loops, so it takes fuel; \<open>None\<close> is the
  end of the fuel or a panic. For the functions the verifier accepts the analysis returns.
\<close>

section \<open>The analysis\<close>

record live_state =
  after_label :: "label_id \<rightharpoonup> var_id set"
  live_on :: "stmt_id \<rightharpoonup> var_id set"

definition live_operands :: "operand list \<Rightarrow> var_id set \<Rightarrow> var_id set" where
  "live_operands os out = out \<union> set (ops_vars os)"

fun term_uses :: "lir_term \<Rightarrow> var_id set \<Rightarrow> var_id set" where
  "term_uses (Yield v) out = live_operands (opt_list v) out"
| "term_uses (Return v) out = live_operands (opt_list v) out"
| "term_uses (Break l v) out = live_operands (opt_list v) out"
| "term_uses (Fail v) out = live_operands [v] out"
| "term_uses (Defect v l) out = live_operands [v] out"
| "term_uses (Recur args) out = live_operands args out"
| "term_uses Unwind out = out"
| "term_uses Unreachable out = out"

definition or_empty :: "'a set option \<Rightarrow> 'a set" where
  "or_empty x = (case x of None \<Rightarrow> {} | Some s \<Rightarrow> s)"

fun term_start :: "live_state \<Rightarrow> lir_term \<Rightarrow> var_id set \<Rightarrow> var_id set option \<Rightarrow> var_id set" where
  "term_start st (Yield v) yl lh = yl"
| "term_start st (Break l v) yl lh = or_empty (after_label st l)"
| "term_start st (Recur args) yl lh = or_empty lh"
| "term_start st _ yl lh = {}"

text \<open>
  \<open>Live::seq\<close> and \<open>Live::stmt\<close> call each other. \<open>call\<close> stands for the calls of \<open>seq\<close> in \<open>stmt\<close>;
  \<open>live_seq\<close> ties the knot. \<open>n\<close> bounds the depth and the iterations of each loop.
\<close>

type_synonym live_call =
  "live_state \<Rightarrow> seq_id \<Rightarrow> var_id set \<Rightarrow> var_id set option \<Rightarrow> (var_id set \<times> live_state) option"

definition live_fail ::
  "live_call \<Rightarrow> live_state \<Rightarrow> (var_id \<times> seq_id) option \<Rightarrow> var_id set \<Rightarrow> var_id set \<Rightarrow> var_id set option
     \<Rightarrow> (var_id set \<times> live_state) option" where
  "live_fail call st fail after yl lh =
     (case fail of
        None \<Rightarrow> Some (after, st)
      | Some (e, b) \<Rightarrow> do { (l, st) \<leftarrow> call st b yl lh; Some (after \<union> (l - {e}), st) })"

definition live_defect ::
  "live_call \<Rightarrow> live_state \<Rightarrow> seq_id option \<Rightarrow> var_id set \<Rightarrow> var_id set \<Rightarrow> var_id set option
     \<Rightarrow> (var_id set \<times> live_state) option" where
  "live_defect call st on_defect after yl lh =
     (case on_defect of
        None \<Rightarrow> Some (after, st)
      | Some b \<Rightarrow> do { (l, st) \<leftarrow> call st b yl lh; Some (after \<union> l, st) })"

fun live_bodies ::
  "live_call \<Rightarrow> live_state \<Rightarrow> seq_id list \<Rightarrow> var_id set \<Rightarrow> var_id set option \<Rightarrow> var_id set
     \<Rightarrow> (var_id set \<times> live_state) option" where
  "live_bodies call st [] after lh l = Some (l, st)"
| "live_bodies call st (b # bs) after lh l =
     do { (l', st) \<leftarrow> call st b after lh; live_bodies call st bs after lh (l \<union> l') }"

fun live_loop ::
  "nat \<Rightarrow> live_call \<Rightarrow> live_state \<Rightarrow> var_id list \<Rightarrow> seq_id \<Rightarrow> var_id set \<Rightarrow> var_id set
     \<Rightarrow> (var_id set \<times> live_state) option" where
  "live_loop 0 call st vs b after h = None"
| "live_loop (Suc n) call st vs b after h =
     do { (l, st) \<leftarrow> call st b after (Some h);
          if l - set vs = h then Some (h, st) else live_loop n call st vs b after (l - set vs) }"

definition live_stmt ::
  "nat \<Rightarrow> live_call \<Rightarrow> lir_fn \<Rightarrow> live_state \<Rightarrow> stmt_id \<Rightarrow> var_id set \<Rightarrow> var_id set \<Rightarrow> var_id set option
     \<Rightarrow> (var_id set \<times> live_state) option" where
  "live_stmt n call f st s after yl lh =
     do { stmt \<leftarrow> get_stmt f s;
          let after = after - set (opt_list (stmt_dst stmt));
          case stmt of
            SLet d value on_defect su \<Rightarrow>
              do { (after, st) \<leftarrow> live_fail call st (fail_landing value) after yl lh;
                   (after, st) \<leftarrow> live_defect call st on_defect after yl lh;
                   Some (after \<union> set (value_vars value), st\<lparr>live_on := (live_on st)(s \<mapsto> after)\<rparr>) }
          | SDup v \<Rightarrow> Some (insert v after, st)
          | SDrop v \<Rightarrow> Some (insert v after, st)
          | SIf d c a b \<Rightarrow>
              do { (l1, st) \<leftarrow> call st a after lh;
                   (l2, st) \<leftarrow> call st b after lh;
                   Some (live_operands [c] (l1 \<union> l2), st) }
          | SSwitch d on cases dflt \<Rightarrow>
              do { (l, st) \<leftarrow> live_bodies call st (map sc_body cases @ opt_list dflt) after lh {};
                   Some (insert (switch_var on) l, st) }
          | SBlock d label b \<Rightarrow>
              call (st\<lparr>after_label := (after_label st)(label \<mapsto> after)\<rparr>) b after lh
          | SLoop d vs inits b \<Rightarrow>
              do { (h, st) \<leftarrow> live_loop n call st vs b after {};
                   Some (live_operands inits h, st) }
          | SProtect d b cleanup \<Rightarrow>
              do { (after_cleanup, st) \<leftarrow> call st cleanup after lh;
                   (l, st) \<leftarrow> call st b after_cleanup lh;
                   Some (l \<union> after_cleanup, st) } }"

fun live_stmts ::
  "nat \<Rightarrow> live_call \<Rightarrow> lir_fn \<Rightarrow> live_state \<Rightarrow> stmt_id list \<Rightarrow> var_id set \<Rightarrow> var_id set \<Rightarrow> var_id set option
     \<Rightarrow> (var_id set \<times> live_state) option" where
  "live_stmts n call f st [] live yl lh = Some (live, st)"
| "live_stmts n call f st (s # ss) live yl lh =
     do { (live, st) \<leftarrow> live_stmt n call f st s live yl lh; live_stmts n call f st ss live yl lh }"

fun live_seq :: "nat \<Rightarrow> lir_fn \<Rightarrow> live_call" where
  "live_seq 0 f st i yl lh = None"
| "live_seq (Suc n) f st i yl lh =
     do { q \<leftarrow> get_seq f i;
          live_stmts n (live_seq n f) f st (rev (sq_stmts q))
            (term_uses (sq_term q) (term_start st (sq_term q) yl lh)) yl lh }"

definition live_on_lets :: "nat \<Rightarrow> lir_fn \<Rightarrow> (stmt_id \<rightharpoonup> var_id set) option" where
  "live_on_lets n f =
     (case f_body f of
        None \<Rightarrow> Some Map.empty
      | Some b \<Rightarrow>
          do { (l, st) \<leftarrow> live_seq n f \<lparr>after_label = Map.empty, live_on = Map.empty\<rparr> b {} None;
               Some (live_on st) })"

section \<open>What liveness means\<close>

text \<open>
  \<open>needed f tr K\<close>: the variables whose value is needed at the start of the path \<open>tr\<close>, if those of \<open>K\<close>
  are needed at its end: used on it before they are defined.
\<close>

fun let_value :: "lir_stmt \<Rightarrow> lir_value option" where
  "let_value (SLet d v df su) = Some v"
| "let_value _ = None"

fun event_uses :: "lir_fn \<Rightarrow> event \<Rightarrow> var_id set" where
  "event_uses f (ELet s) = (case Option.bind (get_stmt f s) let_value of None \<Rightarrow> {} | Some v \<Rightarrow> set (value_vars v))"
| "event_uses f (ERead vs) = set vs"
| "event_uses f (EInit os) = set (ops_vars os)"
| "event_uses f (EDup v) = {v}"
| "event_uses f (EDrop v) = {v}"
| "event_uses f (ETerm t) = term_uses t {}"
| "event_uses f _ = {}"

fun event_defs :: "lir_fn \<Rightarrow> event \<Rightarrow> var_id set" where
  "event_defs f (EDst s) = (case Option.bind (get_stmt f s) stmt_dst of None \<Rightarrow> {} | Some d \<Rightarrow> {d})"
| "event_defs f (EOwn v) = {v}"
| "event_defs f _ = {}"

fun needed :: "lir_fn \<Rightarrow> event list \<Rightarrow> var_id set \<Rightarrow> var_id set" where
  "needed f [] K = K"
| "needed f (e # tr) K = event_uses f e \<union> (needed f tr K - event_defs f e)"

text \<open>\<open>covered f m tr K\<close>: after every \<open>let\<close> on the path, \<open>m\<close> has all that is needed from there on.\<close>

fun covered :: "lir_fn \<Rightarrow> (stmt_id \<rightharpoonup> var_id set) \<Rightarrow> event list \<Rightarrow> var_id set \<Rightarrow> bool" where
  "covered f m [] K = True"
| "covered f m (e # tr) K =
     (covered f m tr K \<and>
      (case e of ELet s \<Rightarrow> needed f tr K \<subseteq> or_empty (m s) \<and> m s \<noteq> None | _ \<Rightarrow> True))"

lemma needed_append [simp]: "needed f (tr @ tr') K = needed f tr (needed f tr' K)"
  by (induction tr) simp_all

lemma covered_append [simp]:
  "covered f m (tr @ tr') K \<longleftrightarrow> covered f m tr (needed f tr' K) \<and> covered f m tr' K"
  by (induction tr) (auto split: event.splits)

lemma needed_mono: "K \<subseteq> K' \<Longrightarrow> needed f tr K \<subseteq> needed f tr K'"
  by (induction tr) auto

lemma covered_mono: "covered f m tr K' \<Longrightarrow> K \<subseteq> K' \<Longrightarrow> covered f m tr K"
  by (induction tr) (auto split: event.splits dest: needed_mono)

lemma covered_split:
  "covered f m (pre @ ELet s # post) K \<Longrightarrow> needed f post K \<subseteq> or_empty (m s) \<and> m s \<noteq> None"
  by simp

lemma covered_cong:
  assumes "\<And>s. ELet s \<in> set tr \<Longrightarrow> m' s = m s"
  shows "covered f m' tr K = covered f m tr K"
  using assms by (induction tr) (auto split: event.splits)

lemma needed_owns [simp]: "needed f (map EOwn vs) K = K - set vs"
  by (induction vs) auto

lemma covered_owns [simp]: "covered f m (map EOwn vs) K"
  by (induction vs) auto

lemma needed_own_events [simp]: "needed f (own_events d) K = K - set (opt_list d)"
  by (cases d) (auto simp: opt_list_def)

lemma covered_own_events [simp]: "covered f m (own_events d) K"
  by (cases d) auto

lemma needed_dst_events:
  "get_stmt f s = Some stmt \<Longrightarrow> needed f (dst_events s (stmt_dst stmt)) K = K - set (opt_list (stmt_dst stmt))"
  by (cases "stmt_dst stmt") (auto simp: opt_list_def)

lemma covered_dst_events [simp]: "covered f m (dst_events s d) K"
  by (cases d) auto

lemma term_uses_eq: "term_uses t K = term_uses t {} \<union> K"
  by (cases t) (auto simp: live_operands_def)

section \<open>What the analysis leaves unchanged\<close>

text \<open>
  \<open>frame L S st st'\<close>: the labels in scope keep their sets and only the statements of \<open>S\<close> are
  recorded anew.
\<close>

definition frame :: "label_id set \<Rightarrow> stmt_id set \<Rightarrow> live_state \<Rightarrow> live_state \<Rightarrow> bool" where
  "frame L S st st' \<longleftrightarrow>
     (\<forall>l\<in>L. after_label st' l = after_label st l) \<and> (\<forall>s. s \<notin> S \<longrightarrow> live_on st' s = live_on st s)"

definition call_frame :: "live_call \<Rightarrow> label_id set \<Rightarrow> seq_id \<Rightarrow> stmt_id set \<Rightarrow> bool" where
  "call_frame call L i S \<longleftrightarrow>
     (\<forall>st yl lh l st'. call st i yl lh = Some (l, st') \<longrightarrow> frame L S st st')"

lemma frame_refl [simp]: "frame L S st st"
  by (simp add: frame_def)

lemma frame_trans: "frame L S st st' \<Longrightarrow> frame L S st' st'' \<Longrightarrow> frame L S st st''"
  by (simp add: frame_def)

lemma frame_mono: "frame L' S' st st' \<Longrightarrow> L \<subseteq> L' \<Longrightarrow> S' \<subseteq> S \<Longrightarrow> frame L S st st'"
  by (auto simp: frame_def)

lemma call_frameD:
  "call_frame call L' i S' \<Longrightarrow> call st i yl lh = Some (l, st') \<Longrightarrow> L \<subseteq> L' \<Longrightarrow> S' \<subseteq> S \<Longrightarrow> frame L S st st'"
  using frame_mono unfolding call_frame_def by blast

lemma live_bodies_frame:
  "\<forall>b\<in>set bs. \<exists>S'\<subseteq>S. call_frame call L b S' \<Longrightarrow>
   live_bodies call st bs after lh l = Some (l', st') \<Longrightarrow> frame L S st st'"
proof (induction bs arbitrary: st l)
  case (Cons b bs)
  from Cons.prems(2) obtain lb st1 where b: "call st b after lh = Some (lb, st1)"
    and bs: "live_bodies call st1 bs after lh (l \<union> lb) = Some (l', st')"
    by (auto simp: bind_eq_Some_conv)
  from Cons.prems(1) obtain S' where "S' \<subseteq> S" "call_frame call L b S'" by auto
  then have "frame L S st st1" using call_frameD [of call L b S' st after lh] b by blast
  moreover have "frame L S st1 st'" using Cons.IH [OF _ bs] Cons.prems(1) by simp
  ultimately show ?case by (rule frame_trans)
qed simp

lemma live_loop_frame:
  assumes "call_frame call L b S"
  shows "live_loop n call st vs b after h = Some (h', st') \<Longrightarrow> frame L S st st'"
proof (induction n arbitrary: st h)
  case (Suc n)
  from Suc.prems obtain l st1 where c: "call st b after (Some h) = Some (l, st1)"
    and rest: "(if l - set vs = h then Some (h, st1) else live_loop n call st1 vs b after (l - set vs)) = Some (h', st')"
    by (auto simp: bind_eq_Some_conv)
  have "frame L S st st1" using call_frameD [OF assms c] by simp
  with rest Suc.IH [of st1 "l - set vs"] show ?case by (auto split: if_splits intro: frame_trans)
qed simp

lemma live_fail_frame:
  assumes "\<And>e b. fail = Some (e, b) \<Longrightarrow> \<exists>S'\<subseteq>S. call_frame call L b S'"
    and "live_fail call st fail after yl lh = Some (l, st')"
  shows "frame L S st st'"
proof (cases fail)
  case (Some p)
  obtain e b where "p = (e, b)" by fastforce
  with Some assms(2) obtain lb where "call st b yl lh = Some (lb, st')"
    by (auto simp: live_fail_def bind_eq_Some_conv)
  moreover from assms(1) Some \<open>p = (e, b)\<close> obtain S' where "S' \<subseteq> S" "call_frame call L b S'" by blast
  ultimately show ?thesis using call_frameD [of call L b S' st yl lh] by blast
qed (use assms in \<open>simp add: live_fail_def\<close>)

lemma live_defect_frame:
  assumes "\<And>b. df = Some b \<Longrightarrow> \<exists>S'\<subseteq>S. call_frame call L b S'"
    and "live_defect call st df after yl lh = Some (l, st')"
  shows "frame L S st st'"
proof (cases df)
  case (Some b)
  with assms(2) obtain lb where "call st b yl lh = Some (lb, st')"
    by (auto simp: live_defect_def bind_eq_Some_conv)
  moreover from assms(1) Some obtain S' where "S' \<subseteq> S" "call_frame call L b S'" by blast
  ultimately show ?thesis using call_frameD [of call L b S' st yl lh] by blast
qed (use assms in \<open>simp add: live_defect_def\<close>)

lemma live_stmt_frame:
  assumes "tree_stmt (call_frame call) f L s S"
    and "live_stmt n call f st s after yl lh = Some (l, st')"
  shows "frame L S st st'"
proof -
  obtain stmt S' where stmt: "get_stmt f s = Some stmt" "\<not> is_protect stmt" "stmt_labels stmt \<inter> L = {}"
    "S = insert s S'" "all_disj (call_frame call (L \<union> stmt_labels stmt)) (children stmt) S'"
    using assms(1) by (auto simp: tree_stmt_def)
  have ch: "\<exists>S'\<subseteq>S. call_frame call (L \<union> stmt_labels stmt) b S'" if "b \<in> set (children stmt)" for b
    using all_disj_in [OF stmt(5) that] stmt(4) by blast
  have chD: "frame L S st st1"
    if "b \<in> set (children stmt)" "call st b x y = Some (lb, st1)" for b x y lb st st1
    using ch [OF that(1)] call_frameD [of call _ b _ st x y lb st1] that(2) by blast
  let ?after = "after - set (opt_list (stmt_dst stmt))"
  show ?thesis
  proof (cases stmt)
    case (SLet d v df su)
    have lb: "stmt_labels stmt = {}" using SLet by simp
    obtain a1 st1 a2 st2 where l: "live_fail call st (fail_landing v) ?after yl lh = Some (a1, st1)"
      "live_defect call st1 df a1 yl lh = Some (a2, st2)" "st' = st2\<lparr>live_on := (live_on st2)(s \<mapsto> a2)\<rparr>"
      using assms(2) stmt(1) SLet by (auto simp: live_stmt_def Let_def bind_eq_Some_conv)
    have "frame L S st st1"
      using ch SLet lb by (intro live_fail_frame [OF _ l(1)]) (auto simp: opt_list_def)
    moreover have "frame L S st1 st2"
      using ch SLet lb by (intro live_defect_frame [OF _ l(2)]) (auto simp: opt_list_def)
    moreover have "frame L S st2 st'" unfolding l(3) stmt(4) by (simp add: frame_def)
    ultimately show ?thesis by (blast intro: frame_trans)
  next
    case (SIf d c a b)
    obtain l1 st1 l2 where l: "call st a ?after lh = Some (l1, st1)" "call st1 b ?after lh = Some (l2, st')"
      using assms(2) stmt(1) SIf by (auto simp: live_stmt_def Let_def bind_eq_Some_conv)
    show ?thesis using chD [OF _ l(1)] chD [OF _ l(2)] SIf by (auto intro: frame_trans)
  next
    case (SSwitch d on cs df)
    obtain l1 where "live_bodies call st (map sc_body cs @ opt_list df) ?after lh {} = Some (l1, st')"
      using assms(2) stmt(1) SSwitch by (auto simp: live_stmt_def Let_def bind_eq_Some_conv)
    then show ?thesis using ch SSwitch by (intro live_bodies_frame) auto
  next
    case (SLoop d vs inits b)
    obtain h where "live_loop n call st vs b ?after {} = Some (h, st')"
      using assms(2) stmt(1) SLoop by (auto simp: live_stmt_def Let_def bind_eq_Some_conv)
    moreover obtain S'' where "S'' \<subseteq> S" "call_frame call (L \<union> stmt_labels stmt) b S''" using ch SLoop by auto
    ultimately show ?thesis using live_loop_frame frame_mono by (metis Un_upper1)
  next
    case (SBlock d lb b)
    have "call (st\<lparr>after_label := (after_label st)(lb \<mapsto> ?after)\<rparr>) b ?after lh = Some (l, st')"
      using assms(2) stmt(1) SBlock by (simp add: live_stmt_def Let_def)
    from chD [OF _ this] SBlock have "frame L S (st\<lparr>after_label := (after_label st)(lb \<mapsto> ?after)\<rparr>) st'" by simp
    moreover have "frame L S st (st\<lparr>after_label := (after_label st)(lb \<mapsto> ?after)\<rparr>)"
      using stmt(3) SBlock by (auto simp: frame_def)
    ultimately show ?thesis by (blast intro: frame_trans)
  qed (use assms(2) stmt in \<open>auto simp: live_stmt_def\<close>)
qed

lemma live_stmts_frame:
  assumes "all_disj (tree_stmt (call_frame call) f L) ss S"
  shows "set ss' \<subseteq> set ss \<Longrightarrow> live_stmts n call f st ss' live yl lh = Some (l, st') \<Longrightarrow> frame L S st st'"
proof (induction ss' arbitrary: st live)
  case (Cons s ss')
  from Cons.prems(2) obtain l1 st1 where s: "live_stmt n call f st s live yl lh = Some (l1, st1)"
    and rest: "live_stmts n call f st1 ss' l1 yl lh = Some (l, st')"
    by (auto simp: bind_eq_Some_conv)
  obtain A where "A \<subseteq> S" "tree_stmt (call_frame call) f L s A"
    using all_disj_in [OF assms, of s] Cons.prems(1) by force
  then have "frame L S st st1" using live_stmt_frame [OF _ s] frame_mono by blast
  moreover have "frame L S st1 st'" using Cons.IH [OF _ rest] Cons.prems(1) by simp
  ultimately show ?case by (rule frame_trans)
qed simp

lemma live_seq_frame: "tree_seq f L i S \<Longrightarrow> call_frame (live_seq n f) L i S"
proof (induction arbitrary: n rule: tree_seq.induct)
  case (1 i q L S)
  show ?case unfolding call_frame_def
  proof (intro allI impI)
    fix st yl lh l st' assume "live_seq n f st i yl lh = Some (l, st')"
    then obtain m where m: "n = Suc m" "live_stmts m (live_seq m f) f st (rev (sq_stmts q))
        (term_uses (sq_term q) (term_start st (sq_term q) yl lh)) yl lh = Some (l, st')"
      using 1(1) by (cases n) auto
    have "all_disj (tree_stmt (call_frame (live_seq m f)) f L) (sq_stmts q) S"
      by (rule tree_stmts_mono [OF 1(3)]) blast
    from live_stmts_frame [OF this _ m(2)] show "frame L S st st'" by simp
  qed
qed

section \<open>Every needed variable is found live\<close>

text \<open>What is needed where a path ends.\<close>

fun cont :: "live_state \<Rightarrow> var_id set \<Rightarrow> var_id set option \<Rightarrow> outcome \<Rightarrow> var_id set" where
  "cont st yl lh OYield = yl"
| "cont st yl lh (OBreak l) = or_empty (after_label st l)"
| "cont st yl lh ORecur = or_empty lh"
| "cont st yl lh OLeave = {}"
| "cont st yl lh OStop = {}"

text \<open>\<open>sound f L S m K tr out l\<close>: what the analysis owes to one path.\<close>

definition sound ::
  "lir_fn \<Rightarrow> label_id set \<Rightarrow> stmt_id set \<Rightarrow> (stmt_id \<rightharpoonup> var_id set) \<Rightarrow> var_id set \<Rightarrow> event list \<Rightarrow> var_id set \<Rightarrow> bool" where
  "sound f L S m K tr l \<longleftrightarrow>
     needed f tr K \<subseteq> l \<and> covered f m tr K \<and> (\<forall>s. ELet s \<in> set tr \<longrightarrow> s \<in> S)"

definition label_in :: "label_id set \<Rightarrow> outcome \<Rightarrow> bool" where
  "label_in L out \<longleftrightarrow> (\<forall>l. out = OBreak l \<longrightarrow> l \<in> L)"

definition call_sound :: "live_call \<Rightarrow> lir_fn \<Rightarrow> label_id set \<Rightarrow> seq_id \<Rightarrow> stmt_id set \<Rightarrow> bool" where
  "call_sound call f L i S \<longleftrightarrow>
     call_frame call L i S \<and>
     (\<forall>st yl lh l st' tr out. call st i yl lh = Some (l, st') \<longrightarrow> path_seq f i tr out \<longrightarrow>
        label_in L out \<and> sound f L S (live_on st') (cont st yl lh out) tr l)"

lemma call_soundD:
  assumes "call_sound call f L i S" "call st i yl lh = Some (l, st')" "path_seq f i tr out"
  shows "label_in L out" "sound f L S (live_on st') (cont st yl lh out) tr l"
  using assms by (auto simp: call_sound_def)

lemma call_sound_frame: "call_sound call f L i S \<Longrightarrow> call_frame call L i S"
  by (simp add: call_sound_def)

lemma cont_frame: "frame L S st st' \<Longrightarrow> label_in L out \<Longrightarrow> cont st' yl lh out = cont st yl lh out"
  by (cases out) (auto simp: frame_def label_in_def)

text \<open>Later parts of the analysis do not touch what was recorded for a path.\<close>

lemma sound_later:
  assumes "sound f L S m K tr l" "\<And>s. s \<in> S \<Longrightarrow> m' s = m s" "S \<subseteq> S'" "l \<subseteq> l'"
  shows "sound f L S' m' K tr l'"
proof -
  have "covered f m' tr K = covered f m tr K"
    using assms(1,2) by (intro covered_cong) (auto simp: sound_def)
  with assms show ?thesis by (auto simp: sound_def)
qed

lemma frame_live_on: "frame L S st st' \<Longrightarrow> A \<inter> S = {} \<Longrightarrow> s \<in> A \<Longrightarrow> live_on st' s = live_on st s"
  by (auto simp: frame_def)

lemma live_bodies_grows: "live_bodies call st bs after lh l = Some (l', st') \<Longrightarrow> l \<subseteq> l'"
  by (induction bs arbitrary: st l) (fastforce simp: bind_eq_Some_conv)+

lemma all_disj_frames:
  "all_disj (call_sound call f L) bs S \<Longrightarrow> \<forall>b\<in>set bs. \<exists>S'\<subseteq>S. call_frame call L b S'"
  using all_disj_in call_sound_frame by metis

lemma live_bodies_sound:
  assumes "all_disj (call_sound call f L) bs S" "live_bodies call st bs after lh l = Some (l', st')"
    and "b \<in> set bs" "path_seq f b tr out"
  shows "label_in L out \<and> sound f L S (live_on st') (cont st after lh out) tr l'"
  using assms(1-3)
proof (induction bs arbitrary: st l S)
  case (Cons c bs)
  obtain A B where AB: "call_sound call f L c A" "all_disj (call_sound call f L) bs B" "A \<inter> B = {}" "S = A \<union> B"
    using Cons.prems(1) by auto
  obtain lc st1 where c: "call st c after lh = Some (lc, st1)"
    and bs: "live_bodies call st1 bs after lh (l \<union> lc) = Some (l', st')"
    using Cons.prems(2) by (auto simp: bind_eq_Some_conv)
  have fr1: "frame L A st st1" using call_frameD [of call L c A st after lh lc st1] call_sound_frame [OF AB(1)] c by blast
  have fr2: "frame L B st1 st'" using live_bodies_frame [OF all_disj_frames [OF AB(2)] bs] .
  show ?case
  proof (cases "b \<in> set bs")
    case True
    from Cons.IH [OF AB(2) bs True] have *: "label_in L out" "sound f L B (live_on st') (cont st1 after lh out) tr l'"
      by simp_all
    then have "sound f L B (live_on st') (cont st after lh out) tr l'" using cont_frame [OF fr1] by simp
    then have "sound f L S (live_on st') (cont st after lh out) tr l'"
      by (rule sound_later) (use AB in auto)
    with * show ?thesis by simp
  next
    case False
    then have "b = c" using Cons.prems(3) by simp
    with call_soundD [OF AB(1) c] assms(4)
    have "label_in L out" "sound f L A (live_on st1) (cont st after lh out) tr lc" by simp_all
    moreover from this(2) have "sound f L S (live_on st') (cont st after lh out) tr l'"
      by (rule sound_later) (use AB live_bodies_grows [OF bs] frame_live_on [OF fr2, of A] in auto)
    ultimately show ?thesis by simp
  qed
qed simp

lemma live_loop_last:
  assumes "call_frame call L b S"
  shows "live_loop n call st vs b after h0 = Some (h, st') \<Longrightarrow>
    \<exists>st1 l. frame L S st st1 \<and> call st1 b after (Some h) = Some (l, st') \<and> l - set vs = h"
proof (induction n arbitrary: st h0)
  case (Suc n)
  from Suc.prems obtain l st1 where c: "call st b after (Some h0) = Some (l, st1)"
    and rest: "(if l - set vs = h0 then Some (h0, st1) else live_loop n call st1 vs b after (l - set vs)) = Some (h, st')"
    by (auto simp: bind_eq_Some_conv)
  have fr: "frame L S st st1" using call_frameD [OF assms c] by simp
  show ?case
  proof (cases "l - set vs = h0")
    case True
    with rest c show ?thesis by (intro exI [of _ st] exI [of _ l]) simp
  next
    case False
    with rest Suc.IH [of st1 "l - set vs"] obtain st2 l2 where
      "frame L S st1 st2" "call st2 b after (Some h) = Some (l2, st')" "l2 - set vs = h" by auto
    with fr show ?thesis by (blast intro: frame_trans)
  qed
qed simp

lemma live_loop_sound:
  assumes sound: "call_sound call f L b S" and loop: "live_loop n call st vs b after h0 = Some (h, st')"
    and path: "path_loop f vs b tr out"
  shows "label_in L out \<and> sound f L S (live_on st') (cont st after None out) tr h"
proof -
  obtain st1 l where fr: "frame L S st st1" and call: "call st1 b after (Some h) = Some (l, st')"
    and h: "l - set vs = h"
    using live_loop_last [OF call_sound_frame [OF sound] loop] by blast
  have body: "label_in L out \<and> sound f L S (live_on st') (cont st after (Some h) out) tr l"
    if "path_seq f b tr out" for tr out
    using call_soundD [OF sound call that] cont_frame [OF fr] by simp
  have "label_in L out \<and> sound f L S (live_on st') (cont st after (Some h) out) tr h"
    using path
  proof (induction rule: path_loop_induct)
    case (last tr out)
    with body [of tr out] h show ?case by (auto simp: sound_def)
  next
    case (again tr tr' out)
    have lo: "sound f L S (live_on st') h tr l" using body [OF again(1)] by (simp add: or_empty_def)
    let ?K = "cont st after (Some h) out"
    have K: "needed f tr' ?K \<subseteq> h" using again(3) by (simp add: sound_def)
    have "needed f tr (needed f tr' ?K) \<subseteq> l" "covered f (live_on st') tr (needed f tr' ?K)"
      using lo needed_mono [OF K, of f tr] covered_mono [OF _ K, of f "live_on st'" tr] by (auto simp: sound_def)
    with again(3) lo h show ?case by (auto simp: sound_def)
  qed
  moreover have "cont st after (Some h) out = cont st after None out"
    using path_loop_not_recur [OF path] by (cases out) simp_all
  ultimately show ?thesis by simp
qed

text \<open>The statement: what is needed before it, on every way through or out of it.\<close>

fun stmt_cont :: "live_state \<Rightarrow> var_id set \<Rightarrow> var_id set \<Rightarrow> var_id set option \<Rightarrow> outcome option \<Rightarrow> var_id set" where
  "stmt_cont st after yl lh None = after"
| "stmt_cont st after yl lh (Some out) = cont st yl lh out"

definition stmt_sound ::
  "lir_fn \<Rightarrow> label_id set \<Rightarrow> stmt_id set \<Rightarrow> live_state \<Rightarrow> live_state \<Rightarrow> var_id set \<Rightarrow> var_id set \<Rightarrow> var_id set option
     \<Rightarrow> var_id set \<Rightarrow> event list \<Rightarrow> outcome option \<Rightarrow> bool" where
  "stmt_sound f L S st st' after yl lh l tr r \<longleftrightarrow>
     (\<forall>out. r = Some out \<longrightarrow> label_in L out) \<and> sound f L S (live_on st') (stmt_cont st after yl lh r) tr l"

lemma live_let_sound:
  assumes stmt: "get_stmt f s = Some (SLet d v df su)"
    and tree: "all_disj (call_sound call f L) (children (SLet d v df su)) S'" "s \<notin> S'" "S = insert s S'"
    and live: "live_stmt n call f st s after yl lh = Some (l, st')"
    and path: "path_stmt f s tr r"
  shows "stmt_sound f L S st st' after yl lh l tr r"
proof -
  let ?after = "after - set (opt_list d)"
  obtain a1 st1 a2 st2 where fail: "live_fail call st (fail_landing v) ?after yl lh = Some (a1, st1)"
    and defect: "live_defect call st1 df a1 yl lh = Some (a2, st2)"
    and st': "st' = st2\<lparr>live_on := (live_on st2)(s \<mapsto> a2)\<rparr>" and l: "l = a2 \<union> set (value_vars v)"
    using live stmt by (auto simp: live_stmt_def Let_def bind_eq_Some_conv)
  obtain A B where AB: "all_disj (call_sound call f L) (map snd (opt_list (fail_landing v))) A"
    "all_disj (call_sound call f L) (opt_list df) B" "A \<inter> B = {}" "S' = A \<union> B"
    using tree(1) by (auto simp: all_disj_append)
  have fr1: "frame L A st st1"
    using all_disj_frames [OF AB(1)] by (intro live_fail_frame [OF _ fail]) (auto simp: opt_list_def)
  have fr2: "frame L B st1 st2"
    using all_disj_frames [OF AB(2)] by (intro live_defect_frame [OF _ defect]) (auto simp: opt_list_def)
  have a1: "?after \<subseteq> a1" using fail by (auto simp: live_fail_def bind_eq_Some_conv split: option.splits)
  have a2: "a1 \<subseteq> a2" using defect by (auto simp: live_defect_def bind_eq_Some_conv split: option.splits)
  have rec: "live_on st' s = Some a2" using st' by simp
  have here: "stmt_sound f L S st st' after yl lh l (ELet s # post) r"
    if "\<forall>out. r = Some out \<longrightarrow> label_in L out" "needed f post (stmt_cont st after yl lh r) \<subseteq> a2"
      "covered f (live_on st') post (stmt_cont st after yl lh r)" "\<forall>s. ELet s \<in> set post \<longrightarrow> s \<in> S" for post
    using that rec l stmt tree(3) by (auto simp: stmt_sound_def sound_def or_empty_def)
  from path show ?thesis
  proof (cases rule: path_stmt.cases)
    case (let_ok d' v' df' su')
    with stmt have "tr = ELet s # dst_events s d" "r = None" by simp_all
    moreover have "needed f (dst_events s d) after = ?after"
      using needed_dst_events [OF stmt] by simp
    moreover have "\<forall>s. ELet s \<notin> set (dst_events s' d)" for s' by (cases d) auto
    ultimately show ?thesis using here [of "dst_events s d"] a1 a2 by auto
  next
    case (let_fail d' v' df' su' e b tr' out)
    with stmt have r: "r = Some out" and tr: "tr = ELet s # EOwn e # tr'" and fl: "fail_landing v = Some (e, b)"
      and p: "path_seq f b tr' out" by simp_all
    have so: "call_sound call f L b A" using AB(1) fl by (auto simp: opt_list_def)
    obtain lb where c: "call st b yl lh = Some (lb, st1)" and a1': "a1 = ?after \<union> (lb - {e})"
      using fail fl by (auto simp: live_fail_def bind_eq_Some_conv)
    note so' = call_soundD [OF so c p]
    have same: "live_on st' s' = live_on st1 s'" if "s' \<in> A" for s'
      using that AB tree(2) frame_live_on [OF fr2 AB(3) that] st' by auto
    have "sound f L S (live_on st') (cont st yl lh out) tr' lb"
      by (rule sound_later [OF so'(2) same]) (use AB tree in auto)
    with so'(1) r a1' a2 show ?thesis unfolding tr by (intro here) (auto simp: sound_def)
  next
    case (let_defect d' v' b su' tr' out)
    with stmt have r: "r = Some out" and tr: "tr = ELet s # tr'" and df: "df = Some b"
      and p: "path_seq f b tr' out" by simp_all
    have so: "call_sound call f L b B" using AB(2) df by (auto simp: opt_list_def)
    obtain lb where c: "call st1 b yl lh = Some (lb, st2)" and a2': "a2 = a1 \<union> lb"
      using defect df by (auto simp: live_defect_def bind_eq_Some_conv)
    note so' = call_soundD [OF so c p]
    have same: "live_on st' s' = live_on st2 s'" if "s' \<in> B" for s'
      using that AB tree(2) st' by auto
    have "sound f L S (live_on st') (cont st1 yl lh out) tr' lb"
      by (rule sound_later [OF so'(2) same]) (use AB tree in auto)
    moreover have "cont st1 yl lh out = cont st yl lh out" using cont_frame [OF fr1 so'(1)] .
    ultimately show ?thesis using so'(1) r a2' unfolding tr by (intro here) (auto simp: sound_def)
  next
    case let_suspend
    then show ?thesis using here [of "[ESuspend s]"] by (auto simp: label_in_def)
  qed (use stmt in auto)
qed

lemma live_branch_sound:
  assumes stmt: "get_stmt f s = Some stmt" "branches stmt = Some (vs, d, bs)"
    and tree: "all_disj (call_sound call f L) bs S'" "S = insert s S'"
    and live: "live_stmt n call f st s after yl lh = Some (l, st')"
    and b: "b \<in> set bs" "path_seq f b tr out"
  shows "label_in L out" and "out = OYield \<Longrightarrow> stmt_sound f L S st st' after yl lh l (ERead vs # tr @ own_events d) None"
    and "out \<noteq> OYield \<Longrightarrow> stmt_sound f L S st st' after yl lh l (ERead vs # tr) (Some out)"
proof -
  let ?after = "after - set (opt_list d)"
  obtain l0 where bodies: "live_bodies call st bs ?after lh {} = Some (l0, st')" and l: "l = l0 \<union> set vs"
    using live stmt
    by (cases stmt) (auto simp: live_stmt_def Let_def bind_eq_Some_conv live_operands_def ops_vars_def)
  from live_bodies_sound [OF tree(1) bodies b]
  have lab: "label_in L out" and so: "sound f L S' (live_on st') (cont st ?after lh out) tr l0" by simp_all
  show "label_in L out" by fact
  show "stmt_sound f L S st st' after yl lh l (ERead vs # tr @ own_events d) None" if "out = OYield"
    using so l tree(2) that by (cases d) (auto simp: stmt_sound_def sound_def opt_list_def)
  show "stmt_sound f L S st st' after yl lh l (ERead vs # tr) (Some out)" if "out \<noteq> OYield"
  proof -
    have "cont st ?after lh out = cont st yl lh out" using that by (cases out) simp_all
    with so l tree(2) lab show ?thesis by (auto simp: stmt_sound_def sound_def)
  qed
qed

lemma live_block_sound:
  assumes stmt: "get_stmt f s = Some (SBlock d lb b)" and lab: "lb \<notin> L"
    and tree: "call_sound call f (insert lb L) b S'" "S = insert s S'"
    and live: "live_stmt n call f st s after yl lh = Some (l, st')"
    and p: "path_seq f b tr out"
  shows "out = OYield \<or> out = OBreak lb \<Longrightarrow> stmt_sound f L S st st' after yl lh l (tr @ own_events d) None"
    and "out \<noteq> OYield \<Longrightarrow> out \<noteq> OBreak lb \<Longrightarrow> stmt_sound f L S st st' after yl lh l tr (Some out)"
proof -
  let ?after = "after - set (opt_list d)"
  let ?st = "st\<lparr>after_label := (after_label st)(lb \<mapsto> ?after)\<rparr>"
  have "call ?st b ?after lh = Some (l, st')" using live stmt by (simp add: live_stmt_def Let_def)
  from call_soundD [OF tree(1) this p]
  have so: "label_in (insert lb L) out" "sound f (insert lb L) S' (live_on st') (cont ?st ?after lh out) tr l" .
  show "stmt_sound f L S st st' after yl lh l (tr @ own_events d) None" if "out = OYield \<or> out = OBreak lb"
  proof -
    have "cont ?st ?after lh out = ?after" using that by (auto simp: or_empty_def)
    with so(2) tree(2) show ?thesis by (cases d) (auto simp: stmt_sound_def sound_def opt_list_def)
  qed
  show "stmt_sound f L S st st' after yl lh l tr (Some out)" if "out \<noteq> OYield" "out \<noteq> OBreak lb"
  proof -
    have "label_in L out" using so(1) that(2) by (auto simp: label_in_def)
    moreover have "cont ?st ?after lh out = cont st yl lh out" using that by (cases out) auto
    ultimately show ?thesis using so(2) tree(2) by (auto simp: stmt_sound_def sound_def)
  qed
qed

lemma live_loop_stmt_sound:
  assumes stmt: "get_stmt f s = Some (SLoop d vs inits b)"
    and tree: "call_sound call f L b S'" "S = insert s S'"
    and live: "live_stmt n call f st s after yl lh = Some (l, st')"
    and p: "path_loop f vs b tr out"
  shows "out = OYield \<Longrightarrow> stmt_sound f L S st st' after yl lh l (EInit inits # tr @ own_events d) None"
    and "out \<noteq> OYield \<Longrightarrow> stmt_sound f L S st st' after yl lh l (EInit inits # tr) (Some out)"
proof -
  let ?after = "after - set (opt_list d)"
  obtain h where loop: "live_loop n call st vs b ?after {} = Some (h, st')" and l: "l = h \<union> set (ops_vars inits)"
    using live stmt by (auto simp: live_stmt_def Let_def bind_eq_Some_conv live_operands_def)
  from live_loop_sound [OF tree(1) loop p]
  have so: "label_in L out" "sound f L S' (live_on st') (cont st ?after None out) tr h" by simp_all
  show "stmt_sound f L S st st' after yl lh l (EInit inits # tr @ own_events d) None" if "out = OYield"
    using so(2) l tree(2) that by (cases d) (auto simp: stmt_sound_def sound_def opt_list_def)
  show "stmt_sound f L S st st' after yl lh l (EInit inits # tr) (Some out)" if "out \<noteq> OYield"
  proof -
    have "cont st ?after None out = cont st yl lh out"
      using that path_loop_not_recur [OF p] by (cases out) simp_all
    with so l tree(2) show ?thesis by (auto simp: stmt_sound_def sound_def)
  qed
qed

lemma live_stmt_sound:
  assumes tree: "tree_stmt (call_sound call f) f L s S"
    and live: "live_stmt n call f st s after yl lh = Some (l, st')" and path: "path_stmt f s tr r"
  shows "stmt_sound f L S st st' after yl lh l tr r"
proof -
  obtain stmt S' where stmt: "get_stmt f s = Some stmt" "\<not> is_protect stmt" "stmt_labels stmt \<inter> L = {}"
    "s \<notin> S'" "S = insert s S'" and ch: "all_disj (call_sound call f (L \<union> stmt_labels stmt)) (children stmt) S'"
    using tree by (auto simp: tree_stmt_def)
  have br: "stmt_labels stmt = {} \<and> bs = children stmt" if "branches stmt = Some (vs, d, bs)" for vs d bs
    using that by (cases stmt) auto
  from path show ?thesis
  proof (cases rule: path_stmt.cases)
    case (branch stmt' vs d bs b tr')
    with stmt(1) have b: "branches stmt = Some (vs, d, bs)" by simp
    from br [OF b] ch have "all_disj (call_sound call f L) bs S'" by simp
    from live_branch_sound(2) [OF stmt(1) b this stmt(5) live branch(5,6)] branch(1,2) show ?thesis by simp
  next
    case (branch_out stmt' vs d bs b tr' out)
    with stmt(1) have b: "branches stmt = Some (vs, d, bs)" by simp
    from br [OF b] ch have "all_disj (call_sound call f L) bs S'" by simp
    from live_branch_sound(3) [OF stmt(1) b this stmt(5) live branch_out(5,6)] branch_out(1,2,7) show ?thesis by simp
  next
    case (block d lb b tr' out)
    with stmt have so: "call_sound call f (insert lb L) b S'" "lb \<notin> L" using ch by auto
    from live_block_sound(1) [OF block(3) so(2,1) stmt(5) live block(4)] block(1,2,5) show ?thesis by simp
  next
    case (block_out d lb b out)
    with stmt have so: "call_sound call f (insert lb L) b S'" "lb \<notin> L" using ch by auto
    from live_block_sound(2) [OF block_out(2) so(2,1) stmt(5) live block_out(3)] block_out show ?thesis by simp
  next
    case (loop d vs inits b tr')
    with stmt have so: "call_sound call f L b S'" using ch by auto
    from live_loop_stmt_sound(1) [OF loop(3) so stmt(5) live loop(4)] loop(1,2) show ?thesis by simp
  next
    case (loop_out d vs inits b tr' out)
    with stmt have so: "call_sound call f L b S'" using ch by auto
    from live_loop_stmt_sound(2) [OF loop_out(3) so stmt(5) live loop_out(4)] loop_out(1,2,5) show ?thesis by simp
  next
    case (dup v)
    with stmt live show ?thesis by (auto simp: stmt_sound_def sound_def live_stmt_def opt_list_def)
  next
    case (drop v)
    with stmt live show ?thesis by (auto simp: stmt_sound_def sound_def live_stmt_def opt_list_def)
  qed (use stmt ch live path live_let_sound [OF _ _ stmt(4,5) live path] in auto)
qed

lemma term_start_cont: "term_start st t yl lh = cont st yl lh (term_outcome t)"
  by (cases t) simp_all

lemma live_stmts_snoc:
  "live_stmts n call f st (ss @ [s]) live yl lh =
     do { (live, st) \<leftarrow> live_stmts n call f st ss live yl lh; live_stmt n call f st s live yl lh }"
  by (induction ss arbitrary: st live) (auto split: Option.bind_splits)

lemma live_stmts_sound:
  assumes "all_disj (tree_stmt (call_sound call f) f L) ss S"
    and "live_stmts n call f st (rev ss) (term_uses t (cont st yl lh (term_outcome t))) yl lh = Some (l, st')"
    and "path_stmts f ss t tr out" "term_labels t \<subseteq> L"
  shows "label_in L out \<and> sound f L S (live_on st') (cont st yl lh out) tr l"
  using assms
proof (induction ss arbitrary: l st' tr S)
  case Nil
  from Nil.prems(3) consider "tr = []" "out = OStop" | "tr = [ETerm t]" "out = term_outcome t"
    by (rule path_stmts_NilE)
  then show ?case
  proof cases
    case 1
    then show ?thesis by (simp add: label_in_def sound_def)
  next
    case 2
    moreover have "label_in L (term_outcome t)" using Nil.prems(4) by (cases t) (auto simp: label_in_def)
    ultimately show ?thesis using Nil.prems(2) term_uses_eq [of t "cont st yl lh (term_outcome t)"]
      by (auto simp: sound_def)
  qed
next
  case (Cons s ss)
  obtain A B where AB: "tree_stmt (call_sound call f) f L s A" "all_disj (tree_stmt (call_sound call f) f L) ss B"
    "A \<inter> B = {}" "S = A \<union> B" using Cons.prems(1) by auto
  obtain l1 st1 where rest: "live_stmts n call f st (rev ss) (term_uses t (cont st yl lh (term_outcome t))) yl lh = Some (l1, st1)"
    and this_stmt: "live_stmt n call f st1 s l1 yl lh = Some (l, st')"
    using Cons.prems(2) by (auto simp: live_stmts_snoc bind_eq_Some_conv)
  have "tree_stmt (call_frame call) f L s A"
    using AB(1) tree_stmt_mono [of "call_sound call f" "call_frame call"] call_sound_frame by blast
  then have frs: "frame L A st1 st'" by (rule live_stmt_frame) (rule this_stmt)
  have "all_disj (tree_stmt (call_frame call) f L) ss B"
    by (rule tree_stmts_mono [OF AB(2)]) (rule call_sound_frame)
  then have frr: "frame L B st st1" using live_stmts_frame [OF _ _ rest] by simp
  from Cons.prems(3) consider "tr = []" "out = OStop"
    | tr1 tr2 where "tr = tr1 @ tr2" "path_stmt f s tr1 None" "path_stmts f ss t tr2 out"
    | "path_stmt f s tr (Some out)"
    by (rule path_stmts_ConsE)
  then show ?case
  proof cases
    case 1
    then show ?thesis by (simp add: label_in_def sound_def)
  next
    case (2 tr1 tr2)
    let ?K = "cont st yl lh out"
    from Cons.IH [OF AB(2) rest 2(3) Cons.prems(4)]
    have lab: "label_in L out" and so2: "sound f L B (live_on st1) ?K tr2 l1" by simp_all
    have so2': "sound f L S (live_on st') ?K tr2 l1"
      by (rule sound_later [OF so2]) (use AB frame_live_on [OF frs, of B] in auto)
    have so1: "sound f L A (live_on st') l1 tr1 l"
      using live_stmt_sound [OF AB(1) this_stmt 2(2)] by (simp add: stmt_sound_def)
    have K: "needed f tr2 ?K \<subseteq> l1" using so2 by (simp add: sound_def)
    have "needed f tr1 (needed f tr2 ?K) \<subseteq> l" "covered f (live_on st') tr1 (needed f tr2 ?K)"
      using so1 needed_mono [OF K, of f tr1] covered_mono [OF _ K, of f "live_on st'" tr1] by (auto simp: sound_def)
    with so1 so2' lab AB(4) 2(1) show ?thesis by (auto simp: sound_def)
  next
    case 3
    from live_stmt_sound [OF AB(1) this_stmt 3]
    have lab: "label_in L out" and so: "sound f L A (live_on st') (cont st1 yl lh out) tr l"
      by (simp_all add: stmt_sound_def)
    with cont_frame [OF frr lab] AB(4) show ?thesis by (auto simp: sound_def)
  qed
qed

lemma live_seq_sound: "tree_seq f L i S \<Longrightarrow> call_sound (live_seq n f) f L i S"
proof (induction arbitrary: n rule: tree_seq.induct)
  case (1 i q L S)
  have "all_disj (tree_stmt (tree_seq f) f L) (sq_stmts q) S" by (rule tree_stmts_mono [OF 1(3)]) blast
  with 1 have "tree_seq f L i S" by (blast intro: tree_seq.intros)
  then have "call_frame (live_seq n f) L i S" by (rule live_seq_frame)
  moreover have "label_in L out \<and> sound f L S (live_on st') (cont st yl lh out) tr l"
    if live: "live_seq n f st i yl lh = Some (l, st')" and path: "path_seq f i tr out" for st yl lh l st' tr out
  proof -
    obtain m where m: "n = Suc m" "live_stmts m (live_seq m f) f st (rev (sq_stmts q))
        (term_uses (sq_term q) (cont st yl lh (term_outcome (sq_term q)))) yl lh = Some (l, st')"
      using 1(1) live by (cases n) (auto simp: term_start_cont)
    have "path_stmts f (sq_stmts q) (sq_term q) tr out" using path 1(1) by (auto elim: path_seqE)
    moreover have "all_disj (tree_stmt (call_sound (live_seq m f) f) f L) (sq_stmts q) S"
      by (rule tree_stmts_mono [OF 1(3)]) blast
    ultimately show ?thesis using live_stmts_sound [OF _ m(2)] 1(2) by blast
  qed
  ultimately show ?case by (auto simp: call_sound_def)
qed

section \<open>The analysis returns\<close>

text \<open>
  Whether a variable is live before a sequence depends, monotonically, only on whether the same
  variable is live where the sequence goes to. So a loop needs two rounds: after the first one a
  variable is live at the head or never.
\<close>

type_synonym bits = "var_id \<Rightarrow> (label_id \<Rightarrow> bool) \<Rightarrow> bool \<Rightarrow> bool \<Rightarrow> bool"

definition bits_mono :: "bits \<Rightarrow> bool" where
  "bits_mono g \<longleftrightarrow>
     (\<forall>v a a' y y' h h'. (\<forall>l. a l \<longrightarrow> a' l) \<longrightarrow> (y \<longrightarrow> y') \<longrightarrow> (h \<longrightarrow> h') \<longrightarrow> g v a y h \<longrightarrow> g v a' y' h')"

lemma bits_monoD:
  "bits_mono g \<Longrightarrow> g v a y h \<Longrightarrow> (\<And>l. a l \<Longrightarrow> a' l) \<Longrightarrow> (y \<Longrightarrow> y') \<Longrightarrow> (h \<Longrightarrow> h') \<Longrightarrow> g v a' y' h'"
  unfolding bits_mono_def by blast

definition labs :: "label_id set \<Rightarrow> live_state \<Rightarrow> var_id \<Rightarrow> label_id \<Rightarrow> bool" where
  "labs L st v l \<longleftrightarrow> l \<in> L \<and> v \<in> or_empty (after_label st l)"

text \<open>\<open>returns L st r P\<close>: the result \<open>r\<close> exists, keeps the labels of \<open>L\<close>, and is the set of those in \<open>P\<close>.\<close>

definition returns :: "label_id set \<Rightarrow> live_state \<Rightarrow> (var_id set \<times> live_state) option \<Rightarrow> (var_id \<Rightarrow> bool) \<Rightarrow> bool" where
  "returns L st r P \<longleftrightarrow>
     (\<exists>st'. r = Some (Collect P, st') \<and> (\<forall>l\<in>L. after_label st' l = after_label st l))"

definition call_bits :: "live_call \<Rightarrow> label_id set \<Rightarrow> seq_id \<Rightarrow> bits \<Rightarrow> bool" where
  "call_bits call L i g \<longleftrightarrow>
     (\<forall>st yl lh. returns L st (call st i yl lh) (\<lambda>v. g v (labs L st v) (v \<in> yl) (v \<in> or_empty lh)))"

lemma labs_cong: "\<forall>l\<in>L. after_label st' l = after_label st l \<Longrightarrow> labs L st' v = labs L st v"
  by (auto simp: labs_def fun_eq_iff)

lemma call_bitsE:
  assumes "call_bits call L i g" "\<forall>l\<in>L. after_label st' l = after_label st l"
  obtains st'' where "call st' i yl lh = Some ({v. g v (labs L st v) (v \<in> yl) (v \<in> or_empty lh)}, st'')"
    "\<forall>l\<in>L. after_label st'' l = after_label st l"
proof -
  from assms(1) obtain st'' where
    "call st' i yl lh = Some ({v. g v (labs L st' v) (v \<in> yl) (v \<in> or_empty lh)}, st'')"
    "\<forall>l\<in>L. after_label st'' l = after_label st' l" unfolding call_bits_def returns_def by blast
  with assms(2) show ?thesis using that labs_cong [OF assms(2)] by simp
qed

lemma live_bodies_returns:
  assumes "\<forall>b\<in>set bs. call_bits call L b (g b)"
  shows "\<forall>l\<in>L. after_label st' l = after_label st l \<Longrightarrow>
    returns L st (live_bodies call st' bs after lh acc)
      (\<lambda>v. v \<in> acc \<or> (\<exists>b\<in>set bs. g b v (labs L st v) (v \<in> after) (v \<in> or_empty lh)))"
  using assms
proof (induction bs arbitrary: st' acc)
  case (Cons b bs)
  let ?B = "{v. g b v (labs L st v) (v \<in> after) (v \<in> or_empty lh)}"
  have gb: "call_bits call L b (g b)" using Cons.prems(2) by simp
  obtain st'' where *: "call st' b after lh = Some (?B, st'')" "\<forall>l\<in>L. after_label st'' l = after_label st l"
    by (rule call_bitsE [OF gb Cons.prems(1)])
  from Cons.IH [OF *(2), of "acc \<union> ?B"] Cons.prems(2)
  have "returns L st (live_bodies call st'' bs after lh (acc \<union> ?B))
      (\<lambda>v. v \<in> acc \<union> ?B \<or> (\<exists>b\<in>set bs. g b v (labs L st v) (v \<in> after) (v \<in> or_empty lh)))" by simp
  moreover have "(\<lambda>v. v \<in> acc \<union> ?B \<or> (\<exists>b\<in>set bs. g b v (labs L st v) (v \<in> after) (v \<in> or_empty lh))) =
      (\<lambda>v. v \<in> acc \<or> (\<exists>b\<in>set (b # bs). g b v (labs L st v) (v \<in> after) (v \<in> or_empty lh)))" by auto
  ultimately show ?case using *(1) by simp
qed (simp add: returns_def)

lemma live_loop_returns:
  assumes "call_bits call L b g" "bits_mono g"
  shows "returns L st (live_loop (Suc (Suc n)) call st vs b after {})
    (\<lambda>v. v \<notin> set vs \<and> g v (labs L st v) (v \<in> after) False)"
proof -
  let ?h = "{v. v \<notin> set vs \<and> g v (labs L st v) (v \<in> after) False}"
  obtain st1 where 1: "call st b after (Some {}) = Some ({v. g v (labs L st v) (v \<in> after) False}, st1)"
    "\<forall>l\<in>L. after_label st1 l = after_label st l"
    by (rule call_bitsE [OF assms(1), of st st after "Some {}"]) (simp_all add: or_empty_def)
  obtain st2 where 2: "call st1 b after (Some ?h) = Some ({v. g v (labs L st v) (v \<in> after) (v \<in> ?h)}, st2)"
    "\<forall>l\<in>L. after_label st2 l = after_label st l"
    by (rule call_bitsE [OF assms(1) 1(2), of after "Some ?h"]) (simp_all add: or_empty_def)
  have h: "{v. g v (labs L st v) (v \<in> after) False} - set vs = ?h" by auto
  have "{v. g v (labs L st v) (v \<in> after) (v \<in> ?h)} - set vs = ?h"
  proof (rule set_eqI)
    fix v
    show "v \<in> {v. g v (labs L st v) (v \<in> after) (v \<in> ?h)} - set vs \<longleftrightarrow> v \<in> ?h"
    proof (cases "v \<in> ?h")
      case True
      then have "g v (labs L st v) (v \<in> after) True" using bits_monoD [OF assms(2)] by blast
      with True show ?thesis by simp
    qed auto
  qed
  with 1 2 h show ?thesis by (auto simp: returns_def)
qed

text \<open>The bits of a statement, from those of its sequences; the last argument is liveness after it.\<close>

definition live_after :: "lir_stmt \<Rightarrow> var_id \<Rightarrow> bool \<Rightarrow> bool" where
  "live_after stmt v x \<longleftrightarrow> x \<and> v \<notin> set (opt_list (stmt_dst stmt))"

fun stmt_bits :: "(seq_id \<Rightarrow> bits) \<Rightarrow> lir_stmt \<Rightarrow> var_id \<Rightarrow> (label_id \<Rightarrow> bool) \<Rightarrow> bool \<Rightarrow> bool \<Rightarrow> bool \<Rightarrow> bool" where
  "stmt_bits g (SLet d value df su) v a y h x =
     (v \<in> set (value_vars value) \<or> live_after (SLet d value df su) v x
      \<or> (\<exists>e b. fail_landing value = Some (e, b) \<and> v \<noteq> e \<and> g b v a y h)
      \<or> (\<exists>b. df = Some b \<and> g b v a y h))"
| "stmt_bits g (SIf d c p q) v a y h x =
     (v \<in> set (operand_var c) \<or> g p v a (live_after (SIf d c p q) v x) h
      \<or> g q v a (live_after (SIf d c p q) v x) h)"
| "stmt_bits g (SSwitch d on cs df) v a y h x =
     (v = switch_var on
      \<or> (\<exists>b\<in>set (children (SSwitch d on cs df)). g b v a (live_after (SSwitch d on cs df) v x) h))"
| "stmt_bits g (SBlock d l b) v a y h x =
     g b v (a(l := live_after (SBlock d l b) v x)) (live_after (SBlock d l b) v x) h"
| "stmt_bits g (SLoop d vs inits b) v a y h x =
     (v \<in> set (ops_vars inits) \<or> v \<notin> set vs \<and> g b v a (live_after (SLoop d vs inits b) v x) False)"
| "stmt_bits g (SDup w) v a y h x = (v = w \<or> x)"
| "stmt_bits g (SDrop w) v a y h x = (v = w \<or> x)"
| "stmt_bits g (SProtect d b c) v a y h x = False"

lemma stmt_bits_mono:
  assumes "\<forall>b\<in>set (children stmt). bits_mono (g b)"
    and "stmt_bits g stmt v a y h x" "\<And>l. a l \<Longrightarrow> a' l" "y \<Longrightarrow> y'" "h \<Longrightarrow> h'" "x \<Longrightarrow> x'"
  shows "stmt_bits g stmt v a' y' h' x'"
proof -
  let ?x = "live_after stmt v x" and ?x' = "live_after stmt v x'"
  have la: ?x' if ?x using that assms(6) by (auto simp: live_after_def)
  have up: "g b v b1 b2 b3 \<Longrightarrow> (\<And>l. b1 l \<Longrightarrow> c1 l) \<Longrightarrow> (b2 \<Longrightarrow> c2) \<Longrightarrow> (b3 \<Longrightarrow> c3) \<Longrightarrow> g b v c1 c2 c3"
    if "b \<in> set (children stmt)" for b b1 b2 b3 c1 c2 c3
    using assms(1) that bits_monoD [of "g b" v b1 b2 b3 c1 c2 c3] by blast
  have up1: "g b v a' y' h'" if "b \<in> set (children stmt)" "g b v a y h" for b
    using up [OF that, of a' y' h'] assms(3-5) by blast
  have up2: "g b v a' ?x' h'" if "b \<in> set (children stmt)" "g b v a ?x h" for b
    using up [OF that, of a' ?x' h'] assms(3,5) la by blast
  have up3: "g b v (a'(l := ?x')) ?x' h'" if "b \<in> set (children stmt)" "g b v (a(l := ?x)) ?x h" for b l
    using up [OF that, of "a'(l := ?x')" ?x' h'] assms(3,5) la by (auto split: if_splits)
  have up4: "g b v a' ?x' False" if "b \<in> set (children stmt)" "g b v a ?x False" for b
    using up [OF that, of a' ?x' False] assms(3) la by blast
  show ?thesis
  proof (cases stmt)
    case (SLet d val df su)
    have "\<And>e b. fail_landing val = Some (e, b) \<Longrightarrow> b \<in> set (children stmt)"
      "\<And>b. df = Some b \<Longrightarrow> b \<in> set (children stmt)" using SLet by (auto simp: opt_list_def)
    with up1 la assms(2) show ?thesis unfolding SLet stmt_bits.simps by blast
  next
    case (SSwitch d on cs df)
    with up2 assms(2) show ?thesis unfolding SSwitch stmt_bits.simps by blast
  qed (use assms(2,6) up2 up3 up4 in auto)
qed

lemma returns_Collect:
  assumes "\<forall>l\<in>L. after_label st' l = after_label st l" "r = Some (A, st')" "\<And>v. v \<in> A \<longleftrightarrow> P v"
  shows "returns L st r P"
proof -
  have "A = Collect P" using assms(3) by auto
  with assms(1,2) show ?thesis by (auto simp: returns_def)
qed

lemma live_let_returns:
  assumes stmt: "get_stmt f s = Some (SLet d val df su)"
    and g: "\<forall>b\<in>set (children (SLet d val df su)). call_bits call L b (g b)"
    and st: "\<forall>l\<in>L. after_label st' l = after_label st l"
  shows "returns L st (live_stmt n call f st' s after yl lh)
    (\<lambda>v. stmt_bits g (SLet d val df su) v (labs L st v) (v \<in> yl) (v \<in> or_empty lh) (v \<in> after))"
proof -
  let ?b = "\<lambda>b. {v. g b v (labs L st v) (v \<in> yl) (v \<in> or_empty lh)}"
  let ?after = "after - set (opt_list d)"
  let ?a1 = "?after \<union> (case fail_landing val of None \<Rightarrow> {} | Some (e, b) \<Rightarrow> ?b b - {e})"
  let ?a2 = "?a1 \<union> (case df of None \<Rightarrow> {} | Some b \<Rightarrow> ?b b)"
  have "\<exists>st1. live_fail call st' (fail_landing val) ?after yl lh = Some (?a1, st1)
      \<and> (\<forall>l\<in>L. after_label st1 l = after_label st l)"
  proof (cases "fail_landing val")
    case (Some p)
    obtain e b where p: "p = (e, b)" by fastforce
    have "call_bits call L b (g b)" using g Some p by (simp add: opt_list_def)
    from call_bitsE [OF this st, of yl lh] obtain st1 where
      "call st' b yl lh = Some (?b b, st1)" "\<forall>l\<in>L. after_label st1 l = after_label st l" by blast
    with Some p show ?thesis by (simp add: live_fail_def)
  qed (use st in \<open>simp add: live_fail_def\<close>)
  then obtain st1 where st1: "live_fail call st' (fail_landing val) ?after yl lh = Some (?a1, st1)"
    "\<forall>l\<in>L. after_label st1 l = after_label st l" by blast
  have "\<exists>st2. live_defect call st1 df ?a1 yl lh = Some (?a2, st2)
      \<and> (\<forall>l\<in>L. after_label st2 l = after_label st l)"
  proof (cases df)
    case (Some b)
    have "call_bits call L b (g b)" using g Some by (simp add: opt_list_def)
    from call_bitsE [OF this st1(2), of yl lh] obtain st2 where
      "call st1 b yl lh = Some (?b b, st2)" "\<forall>l\<in>L. after_label st2 l = after_label st l" by blast
    with Some show ?thesis by (simp add: live_defect_def)
  qed (use st1 in \<open>simp add: live_defect_def\<close>)
  then obtain st2 where st2: "live_defect call st1 df ?a1 yl lh = Some (?a2, st2)"
    "\<forall>l\<in>L. after_label st2 l = after_label st l" by blast
  let ?st3 = "st2\<lparr>live_on := (live_on st2)(s \<mapsto> ?a2)\<rparr>"
  have res: "live_stmt n call f st' s after yl lh = Some (?a2 \<union> set (value_vars val), ?st3)"
    unfolding live_stmt_def stmt using st1(1) st2(1) by (simp add: Let_def)
  show ?thesis
  proof (rule returns_Collect [OF _ res])
    show "\<forall>l\<in>L. after_label ?st3 l = after_label st l" using st2(2) by simp
    show "v \<in> ?a2 \<union> set (value_vars val) \<longleftrightarrow>
        stmt_bits g (SLet d val df su) v (labs L st v) (v \<in> yl) (v \<in> or_empty lh) (v \<in> after)" for v
      by (auto simp: live_after_def split: option.splits)
  qed
qed

lemma live_stmt_returns:
  assumes stmt: "get_stmt f s = Some stmt" "\<not> is_protect stmt" "stmt_labels stmt \<inter> L = {}"
    and g: "\<forall>b\<in>set (children stmt). call_bits call (L \<union> stmt_labels stmt) b (g b) \<and> bits_mono (g b)"
    and st: "\<forall>l\<in>L. after_label st' l = after_label st l" and n: "2 \<le> n"
  shows "returns L st (live_stmt n call f st' s after yl lh)
    (\<lambda>v. stmt_bits g stmt v (labs L st v) (v \<in> yl) (v \<in> or_empty lh) (v \<in> after))"
proof (cases stmt)
  case (SLet d val df su)
  with live_let_returns [OF _ _ st] stmt g show ?thesis by simp
next
  case (SIf d c p q)
  let ?after = "after - set (opt_list d)"
  let ?b = "\<lambda>b. {v. g b v (labs L st v) (v \<in> ?after) (v \<in> or_empty lh)}"
  have pq: "call_bits call L p (g p)" "call_bits call L q (g q)" using g SIf by auto
  obtain st1 where st1: "call st' p ?after lh = Some (?b p, st1)" "\<forall>l\<in>L. after_label st1 l = after_label st l"
    by (rule call_bitsE [OF pq(1) st])
  obtain st2 where st2: "call st1 q ?after lh = Some (?b q, st2)" "\<forall>l\<in>L. after_label st2 l = after_label st l"
    by (rule call_bitsE [OF pq(2) st1(2)])
  have "live_stmt n call f st' s after yl lh = Some (?b p \<union> ?b q \<union> set (operand_var c), st2)"
    using stmt(1) SIf st1(1) st2(1) by (simp add: live_stmt_def Let_def live_operands_def ops_vars_def)
  with st2(2) show ?thesis by (rule returns_Collect) (auto simp: SIf live_after_def)
next
  case (SSwitch d on cs df)
  let ?after = "after - set (opt_list d)"
  have "\<forall>b\<in>set (children stmt). call_bits call L b (g b)" using g SSwitch by simp
  from live_bodies_returns [OF this st, of ?after lh "{}"] obtain st2 where
    r: "live_bodies call st' (children stmt) ?after lh {} =
      Some ({v. \<exists>b\<in>set (children stmt). g b v (labs L st v) (v \<in> ?after) (v \<in> or_empty lh)}, st2)"
    and st2: "\<forall>l\<in>L. after_label st2 l = after_label st l" by (auto simp: returns_def)
  from r have "live_stmt n call f st' s after yl lh =
      Some (insert (switch_var on) {v. \<exists>b\<in>set (children stmt). g b v (labs L st v) (v \<in> ?after) (v \<in> or_empty lh)}, st2)"
    using stmt(1) SSwitch by (simp add: live_stmt_def Let_def)
  with st2 show ?thesis by (rule returns_Collect) (auto simp: SSwitch live_after_def)
next
  case (SLoop d vs inits b)
  let ?after = "after - set (opt_list d)"
  define m where "m = n - 2"
  then have m: "n = Suc (Suc m)" using n by simp
  have b: "call_bits call L b (g b)" "bits_mono (g b)" using g SLoop by auto
  from live_loop_returns [OF b, of st' m vs ?after] obtain st2 where
    r: "live_loop n call st' vs b ?after {} = Some ({v. v \<notin> set vs \<and> g b v (labs L st v) (v \<in> ?after) False}, st2)"
    and st2: "\<forall>l\<in>L. after_label st2 l = after_label st l"
    using m st labs_cong [OF st] by (auto simp: returns_def)
  have "live_stmt n call f st' s after yl lh =
      Some ({v. v \<notin> set vs \<and> g b v (labs L st v) (v \<in> ?after) False} \<union> set (ops_vars inits), st2)"
    using stmt(1) SLoop r by (simp add: live_stmt_def Let_def live_operands_def)
  with st2 show ?thesis by (rule returns_Collect) (auto simp: SLoop live_after_def)
next
  case (SBlock d l b)
  let ?after = "after - set (opt_list d)"
  let ?st = "st\<lparr>after_label := (after_label st)(l \<mapsto> ?after)\<rparr>"
  have "call_bits call (insert l L) b (g b)" using g SBlock by simp
  moreover have "\<forall>l'\<in>insert l L. after_label (st'\<lparr>after_label := (after_label st')(l \<mapsto> ?after)\<rparr>) l' = after_label ?st l'"
    using st by simp
  ultimately obtain st2 where
    r: "call (st'\<lparr>after_label := (after_label st')(l \<mapsto> ?after)\<rparr>) b ?after lh =
      Some ({v. g b v (labs (insert l L) ?st v) (v \<in> ?after) (v \<in> or_empty lh)}, st2)"
    and st2: "\<forall>l'\<in>insert l L. after_label st2 l' = after_label ?st l'" by (rule call_bitsE)
  have keep: "\<forall>l'\<in>L. after_label st2 l' = after_label st l'" using st2 stmt(3) SBlock by auto
  have res: "live_stmt n call f st' s after yl lh =
      Some ({v. g b v (labs (insert l L) ?st v) (v \<in> ?after) (v \<in> or_empty lh)}, st2)"
    using stmt(1) SBlock r by (simp add: live_stmt_def Let_def)
  have labs: "labs (insert l L) ?st v = (labs L st v)(l := v \<in> ?after)" for v
    by (auto simp: labs_def fun_eq_iff or_empty_def)
  show ?thesis by (rule returns_Collect [OF keep res]) (simp add: SBlock live_after_def labs)
next
  case (SDup w)
  with st stmt show ?thesis
    by (intro returns_Collect [of L st' st _ "insert w after"]) (auto simp: live_stmt_def opt_list_def)
next
  case (SDrop w)
  with st stmt show ?thesis
    by (intro returns_Collect [of L st' st _ "insert w after"]) (auto simp: live_stmt_def opt_list_def)
qed (use stmt in simp)

text \<open>Enough fuel, for a sequence, a statement and a list of statements.\<close>

definition seq_returns :: "lir_fn \<Rightarrow> label_id set \<Rightarrow> seq_id \<Rightarrow> bool" where
  "seq_returns f L i \<longleftrightarrow> (\<exists>N g. bits_mono g \<and> (\<forall>n\<ge>N. call_bits (live_seq n f) L i g))"

definition bits4_mono :: "(var_id \<Rightarrow> (label_id \<Rightarrow> bool) \<Rightarrow> bool \<Rightarrow> bool \<Rightarrow> bool \<Rightarrow> bool) \<Rightarrow> bool" where
  "bits4_mono G \<longleftrightarrow>
     (\<forall>v a a' y y' h h' x x'. (\<forall>l. a l \<longrightarrow> a' l) \<longrightarrow> (y \<longrightarrow> y') \<longrightarrow> (h \<longrightarrow> h') \<longrightarrow> (x \<longrightarrow> x') \<longrightarrow>
        G v a y h x \<longrightarrow> G v a' y' h' x')"

definition stmts_bits :: "lir_fn \<Rightarrow> label_id set \<Rightarrow> stmt_id list \<Rightarrow> nat
    \<Rightarrow> (var_id \<Rightarrow> (label_id \<Rightarrow> bool) \<Rightarrow> bool \<Rightarrow> bool \<Rightarrow> bool \<Rightarrow> bool) \<Rightarrow> bool" where
  "stmts_bits f L ss n G \<longleftrightarrow>
     (\<forall>st st' live yl lh. (\<forall>l\<in>L. after_label st' l = after_label st l) \<longrightarrow>
        returns L st (live_stmts n (live_seq n f) f st' ss live yl lh)
          (\<lambda>v. G v (labs L st v) (v \<in> yl) (v \<in> or_empty lh) (v \<in> live)))"

definition stmts_return :: "lir_fn \<Rightarrow> label_id set \<Rightarrow> stmt_id list \<Rightarrow> bool" where
  "stmts_return f L ss \<longleftrightarrow> (\<exists>N G. bits4_mono G \<and> (\<forall>n\<ge>N. stmts_bits f L ss n G))"

lemma bits4_monoD:
  assumes "bits4_mono G" "G v a y h x" "\<And>l. a l \<Longrightarrow> a' l" "y \<Longrightarrow> y'" "h \<Longrightarrow> h'" "x \<Longrightarrow> x'"
  shows "G v a' y' h' x'"
proof -
  note spec [of _ v, THEN spec [of _ a, THEN spec [of _ a', THEN spec [of _ y, THEN spec [of _ y',
    THEN spec [of _ h, THEN spec [of _ h', THEN spec [of _ x, THEN spec [of _ x']]]]]]]]]
  from this [OF assms(1) [unfolded bits4_mono_def]] assms(2-) show ?thesis by simp
qed

lemma bits4_monoI:
  assumes "\<And>v a a' y y' h h' x x'. \<forall>l. a l \<longrightarrow> a' l \<Longrightarrow> y \<longrightarrow> y' \<Longrightarrow> h \<longrightarrow> h' \<Longrightarrow> x \<longrightarrow> x' \<Longrightarrow>
     G v a y h x \<Longrightarrow> G v a' y' h' x'"
  shows "bits4_mono G"
  unfolding bits4_mono_def by (intro allI impI) (rule assms)

lemma stmts_bitsE:
  assumes "stmts_bits f L ss n G" "\<forall>l\<in>L. after_label st' l = after_label st l"
  obtains st'' where "live_stmts n (live_seq n f) f st' ss live yl lh =
      Some ({v. G v (labs L st v) (v \<in> yl) (v \<in> or_empty lh) (v \<in> live)}, st'')"
    "\<forall>l\<in>L. after_label st'' l = after_label st l"
  using assms unfolding stmts_bits_def returns_def by blast

lemma stmts_return_Nil: "stmts_return f L []"
  unfolding stmts_return_def stmts_bits_def
  by (intro exI [of _ 0] exI [of _ "\<lambda>v a y h x. x"]) (auto simp: returns_def bits4_mono_def)

lemma children_return:
  assumes "\<forall>b\<in>set bs. seq_returns f L b"
  shows "\<exists>N g. \<forall>b\<in>set bs. bits_mono (g b) \<and> (\<forall>n\<ge>N. call_bits (live_seq n f) L b (g b))"
proof -
  obtain M g where M: "\<forall>b\<in>set bs. bits_mono (g b) \<and> (\<forall>n\<ge>M b. call_bits (live_seq n f) L b (g b))"
    using assms unfolding seq_returns_def by metis
  have "call_bits (live_seq n f) L b (g b)" if "b \<in> set bs" "sum_list (map M bs) \<le> n" for b n
    using M that member_le_sum_list [of "M b" "map M bs"] by force
  with M show ?thesis by blast
qed

lemma stmt_returns:
  assumes "tree_stmt (\<lambda>L i S. seq_returns f L i) f L s S"
  shows "stmts_return f L [s]"
proof -
  obtain stmt S' where stmt: "get_stmt f s = Some stmt" "\<not> is_protect stmt" "stmt_labels stmt \<inter> L = {}"
    and "s \<notin> S'" "S = insert s S'" and ch: "all_disj (\<lambda>i S. seq_returns f (L \<union> stmt_labels stmt) i) (children stmt) S'"
    by (rule tree_stmtE [OF assms])
  from all_disj_in [OF ch] have "\<forall>b\<in>set (children stmt). seq_returns f (L \<union> stmt_labels stmt) b" by blast
  from children_return [OF this] obtain N g where
    g: "\<forall>b\<in>set (children stmt). bits_mono (g b) \<and> (\<forall>n\<ge>N. call_bits (live_seq n f) (L \<union> stmt_labels stmt) b (g b))"
    by blast
  have one: "live_stmts n call f st' [s] live yl lh = live_stmt n call f st' s live yl lh" for n call st' live yl lh
    by (auto split: Option.bind_splits)
  have ret: "stmts_bits f L [s] n (stmt_bits g stmt)" if n: "N + 2 \<le> n" for n
    unfolding stmts_bits_def one
  proof (intro allI impI)
    fix st st' :: live_state and live yl lh assume "\<forall>l\<in>L. after_label st' l = after_label st l"
    then show "returns L st (live_stmt n (live_seq n f) f st' s live yl lh)
        (\<lambda>v. stmt_bits g stmt v (labs L st v) (v \<in> yl) (v \<in> or_empty lh) (v \<in> live))"
      using g n by (intro live_stmt_returns [OF stmt]) auto
  qed
  have "bits4_mono (stmt_bits g stmt)"
  proof (rule bits4_monoI)
    fix v a a' y y' h h' x x'
    assume "\<forall>l. a l \<longrightarrow> (a' l :: bool)" "y \<longrightarrow> (y' :: bool)" "h \<longrightarrow> (h' :: bool)" "x \<longrightarrow> (x' :: bool)"
      and "stmt_bits g stmt v a y h x"
    moreover have "\<forall>b\<in>set (children stmt). bits_mono (g b)" using g by simp
    ultimately show "stmt_bits g stmt v a' y' h' x'"
      using stmt_bits_mono [where a = a and a' = a' and y = y and y' = y' and h = h and h' = h' and x = x and x' = x'
          and v = v and g = g and stmt = stmt] by simp
  qed
  with ret show ?thesis unfolding stmts_return_def by blast
qed

lemma live_stmts_append:
  "live_stmts n call f st (ss @ ts) live yl lh =
     do { (live, st) \<leftarrow> live_stmts n call f st ss live yl lh; live_stmts n call f st ts live yl lh }"
  by (induction ss arbitrary: st live) (auto split: Option.bind_splits)

lemma stmts_return_append:
  assumes "stmts_return f L ss" "stmts_return f L ts"
  shows "stmts_return f L (ss @ ts)"
proof -
  obtain M G where G: "bits4_mono G" "\<And>n. M \<le> n \<Longrightarrow> stmts_bits f L ss n G"
    using assms(1) unfolding stmts_return_def by blast
  obtain N H where H: "bits4_mono H" "\<And>n. N \<le> n \<Longrightarrow> stmts_bits f L ts n H"
    using assms(2) unfolding stmts_return_def by blast
  let ?GH = "\<lambda>v a y h x. H v a y h (G v a y h x)"
  have ret: "stmts_bits f L (ss @ ts) n ?GH" if n: "M + N \<le> n" for n
    unfolding stmts_bits_def
  proof (intro allI impI)
    fix st st' :: live_state and live yl lh assume st: "\<forall>l\<in>L. after_label st' l = after_label st l"
    have Gn: "stmts_bits f L ss n G" and Hn: "stmts_bits f L ts n H" using n G(2) H(2) by simp_all
    let ?l = "{v. G v (labs L st v) (v \<in> yl) (v \<in> or_empty lh) (v \<in> live)}"
    obtain st1 where 1: "live_stmts n (live_seq n f) f st' ss live yl lh = Some (?l, st1)"
      "\<forall>l\<in>L. after_label st1 l = after_label st l" by (rule stmts_bitsE [OF Gn st])
    obtain st2 where 2: "live_stmts n (live_seq n f) f st1 ts ?l yl lh =
        Some ({v. H v (labs L st v) (v \<in> yl) (v \<in> or_empty lh) (v \<in> ?l)}, st2)"
      "\<forall>l\<in>L. after_label st2 l = after_label st l" by (rule stmts_bitsE [OF Hn 1(2)])
    from 1(1) 2(1) have "live_stmts n (live_seq n f) f st' (ss @ ts) live yl lh =
        Some ({v. H v (labs L st v) (v \<in> yl) (v \<in> or_empty lh) (v \<in> ?l)}, st2)"
      by (simp add: live_stmts_append)
    from returns_Collect [OF 2(2) this]
    show "returns L st (live_stmts n (live_seq n f) f st' (ss @ ts) live yl lh)
        (\<lambda>v. ?GH v (labs L st v) (v \<in> yl) (v \<in> or_empty lh) (v \<in> live))" by simp
  qed
  have "bits4_mono ?GH"
  proof (rule bits4_monoI)
    fix v a a' y y' h h' x x'
    assume le: "\<forall>l. a l \<longrightarrow> (a' l :: bool)" "y \<longrightarrow> (y' :: bool)" "h \<longrightarrow> (h' :: bool)" "x \<longrightarrow> (x' :: bool)"
      and "H v a y h (G v a y h x)"
    moreover have "G v a' y' h' x'" if "G v a y h x" using bits4_monoD [OF G(1) that, of a' y' h' x'] le by simp
    ultimately show "H v a' y' h' (G v a' y' h' x')"
      using bits4_monoD [OF H(1), of v a y h "G v a y h x" a' y' h' "G v a' y' h' x'"] by simp
  qed
  with ret show ?thesis unfolding stmts_return_def by blast
qed

lemma stmts_return_list:
  "\<forall>s\<in>set ss. stmts_return f L [s] \<Longrightarrow> stmts_return f L ss"
proof (induction ss)
  case (Cons s ss)
  then show ?case using stmts_return_append [of f L "[s]" ss] by simp
qed (simp add: stmts_return_Nil)

lemma seq_returns: "tree_seq f L i S \<Longrightarrow> seq_returns f L i"
proof (induction rule: tree_seq.induct)
  case (1 i q L S)
  have "all_disj (tree_stmt (\<lambda>L i S. seq_returns f L i) f L) (sq_stmts q) S"
    by (rule tree_stmts_mono [OF 1(3)]) blast
  then have "\<forall>s\<in>set (sq_stmts q). stmts_return f L [s]" using all_disj_in stmt_returns by metis
  then have "stmts_return f L (rev (sq_stmts q))" by (intro stmts_return_list) simp
  then obtain N G where G: "bits4_mono G" "\<And>n. N \<le> n \<Longrightarrow> stmts_bits f L (rev (sq_stmts q)) n G"
    unfolding stmts_return_def by blast
  let ?t = "sq_term q"
  define tb where "tb v a y h \<longleftrightarrow> v \<in> term_uses ?t {} \<or>
    (case term_outcome ?t of OYield \<Rightarrow> y | OBreak l \<Rightarrow> a l | ORecur \<Rightarrow> h | _ \<Rightarrow> False)"
    for v and a :: "label_id \<Rightarrow> bool" and y h
  let ?g = "\<lambda>v a y h. G v a y h (tb v a y h)"
  have start: "v \<in> term_uses ?t (term_start st ?t yl lh) \<longleftrightarrow> tb v (labs L st v) (v \<in> yl) (v \<in> or_empty lh)"
    for v st yl lh
    unfolding term_uses_eq [of ?t "term_start st ?t yl lh"] tb_def using 1(2)
    by (cases ?t) (auto simp: labs_def)
  have "call_bits (live_seq n f) L i ?g" if n: "Suc N \<le> n" for n
    unfolding call_bits_def
  proof (intro allI)
    fix st :: live_state and yl lh
    obtain m where m: "n = Suc m" "N \<le> m" using n by (cases n) auto
    let ?l = "term_uses ?t (term_start st ?t yl lh)"
    obtain st' where r: "live_stmts m (live_seq m f) f st (rev (sq_stmts q)) ?l yl lh =
        Some ({v. G v (labs L st v) (v \<in> yl) (v \<in> or_empty lh) (v \<in> ?l)}, st')"
      "\<forall>l\<in>L. after_label st' l = after_label st l"
      by (rule stmts_bitsE [OF G(2) [OF m(2)], of st st]) simp
    from r(1) m(1) 1(1) have "live_seq n f st i yl lh =
        Some ({v. G v (labs L st v) (v \<in> yl) (v \<in> or_empty lh) (v \<in> ?l)}, st')" by simp
    from returns_Collect [OF r(2) this]
    show "returns L st (live_seq n f st i yl lh) (\<lambda>v. ?g v (labs L st v) (v \<in> yl) (v \<in> or_empty lh))"
      by (simp add: start)
  qed
  moreover have "bits_mono ?g"
    unfolding bits_mono_def
  proof (intro allI impI)
    fix v a a' y y' h h'
    assume le: "\<forall>l. a l \<longrightarrow> (a' l :: bool)" "y \<longrightarrow> (y' :: bool)" "h \<longrightarrow> (h' :: bool)" and g: "?g v a y h"
    moreover have "tb v a' y' h'" if "tb v a y h"
      using that le unfolding tb_def by (auto split: outcome.splits)
    ultimately show "?g v a' y' h'"
      using bits4_monoD [OF G(1), of v a y h "tb v a y h" a' y' h' "tb v a' y' h'"] by simp
  qed
  ultimately show ?case unfolding seq_returns_def by blast
qed

text \<open>More fuel does not change a result.\<close>

definition call_le :: "live_call \<Rightarrow> live_call \<Rightarrow> bool" where
  "call_le c c' \<longleftrightarrow> (\<forall>st i yl lh r. c st i yl lh = Some r \<longrightarrow> c' st i yl lh = Some r)"

lemma call_leD: "call_le c c' \<Longrightarrow> c st i yl lh = Some r \<Longrightarrow> c' st i yl lh = Some r"
  unfolding call_le_def by blast

lemma live_bodies_le:
  "call_le c c' \<Longrightarrow> live_bodies c st bs after lh l = Some r \<Longrightarrow> live_bodies c' st bs after lh l = Some r"
proof (induction bs arbitrary: st l)
  case (Cons b bs)
  then obtain lb st1 where "c st b after lh = Some (lb, st1)" "live_bodies c st1 bs after lh (l \<union> lb) = Some r"
    by (auto simp: bind_eq_Some_conv)
  with Cons show ?case by (simp add: call_leD)
qed simp

lemma live_loop_le:
  "call_le c c' \<Longrightarrow> n \<le> n' \<Longrightarrow> live_loop n c st vs b after h = Some r \<Longrightarrow> live_loop n' c' st vs b after h = Some r"
proof (induction n arbitrary: n' st h)
  case (Suc n)
  then obtain m where m: "n' = Suc m" "n \<le> m" by (cases n') auto
  from Suc.prems(3) obtain l st1 where "c st b after (Some h) = Some (l, st1)"
    "(if l - set vs = h then Some (h, st1) else live_loop n c st1 vs b after (l - set vs)) = Some r"
    by (auto simp: bind_eq_Some_conv)
  with Suc.IH [OF Suc.prems(1) m(2)] Suc.prems(1) m(1) show ?case by (auto simp: call_leD split: if_splits)
qed simp

lemma live_fail_le:
  "call_le c c' \<Longrightarrow> live_fail c st fl after yl lh = Some r \<Longrightarrow> live_fail c' st fl after yl lh = Some r"
  by (auto simp: live_fail_def bind_eq_Some_conv call_le_def split: option.splits)

lemma live_defect_le:
  "call_le c c' \<Longrightarrow> live_defect c st df after yl lh = Some r \<Longrightarrow> live_defect c' st df after yl lh = Some r"
  by (auto simp: live_defect_def bind_eq_Some_conv call_le_def split: option.splits)

lemma live_stmt_le:
  assumes le: "call_le c c'" "n \<le> n'" and r: "live_stmt n c f st s after yl lh = Some r"
  shows "live_stmt n' c' f st s after yl lh = Some r"
proof -
  obtain stmt where stmt: "get_stmt f s = Some stmt" using r by (auto simp: live_stmt_def bind_eq_Some_conv)
  note le' = call_leD [OF le(1)] live_fail_le [OF le(1)] live_defect_le [OF le(1)]
    live_bodies_le [OF le(1)] live_loop_le [OF le]
  show ?thesis
    using r stmt unfolding live_stmt_def
    by (cases stmt) (auto simp: Let_def bind_eq_Some_conv dest!: le')
qed

lemma live_stmts_le:
  assumes le: "call_le c c'" "n \<le> n'"
  shows "live_stmts n c f st ss live yl lh = Some r \<Longrightarrow> live_stmts n' c' f st ss live yl lh = Some r"
proof (induction ss arbitrary: st live)
  case (Cons s ss)
  then obtain l1 st1 where "live_stmt n c f st s live yl lh = Some (l1, st1)"
    "live_stmts n c f st1 ss l1 yl lh = Some r" by (auto simp: bind_eq_Some_conv)
  with Cons.IH live_stmt_le [OF le] show ?case by simp
qed simp

lemma live_seq_le: "n \<le> n' \<Longrightarrow> call_le (live_seq n f) (live_seq n' f)"
proof (induction n arbitrary: n')
  case (Suc n)
  then obtain m where m: "n' = Suc m" "n \<le> m" by (cases n') auto
  show ?case unfolding call_le_def m(1)
    using live_stmts_le [OF Suc.IH [OF m(2)] m(2)] by (auto simp: bind_eq_Some_conv)
qed (simp add: call_le_def)

section \<open>Theorems\<close>

lemma live_on_lets_stable:
  assumes "tree_fn f"
  shows "\<exists>N m. \<forall>n\<ge>N. live_on_lets n f = Some m"
proof -
  obtain b S where b: "f_body f = Some b" "tree_seq f {} b S" using assms by (auto simp: tree_fn_def)
  let ?st = "\<lparr>after_label = Map.empty, live_on = Map.empty\<rparr>"
  obtain N g where "call_bits (live_seq N f) {} b g" using seq_returns [OF b(2)] unfolding seq_returns_def by blast
  then obtain l st where r: "live_seq N f ?st b {} None = Some (l, st)"
    unfolding call_bits_def returns_def by blast
  have "live_on_lets n f = Some (live_on st)" if "N \<le> n" for n
    using call_leD [OF live_seq_le [OF that] r] b(1) by (simp add: live_on_lets_def)
  then show ?thesis by blast
qed

text \<open>
  The liveness analysis returns on every function of the verified shape: from some fuel on, that
  is some bound on the nesting and on the rounds of each loop, it gives one and the same result.
\<close>

theorem live_on_lets_returns:
  assumes "tree_fn f"
  shows "\<exists>N m. \<forall>n\<ge>N. live_on_lets n f = Some m"
  using assms by (rule live_on_lets_stable)

lemma live_on_lets_covers:
  assumes "tree_fn f" "live_on_lets n f = Some m" "fn_path f (pre @ ELet s # post) out"
  shows "\<exists>X. m s = Some X \<and> needed f post {} \<subseteq> X"
proof -
  obtain b S where b: "f_body f = Some b" "tree_seq f {} b S" using assms(1) by (auto simp: tree_fn_def)
  let ?st = "\<lparr>after_label = Map.empty, live_on = Map.empty\<rparr>"
  obtain l st where r: "live_seq n f ?st b {} None = Some (l, st)" "m = live_on st"
    using assms(2) b(1) by (auto simp: live_on_lets_def bind_eq_Some_conv)
  have "path_seq f b (pre @ ELet s # post) out" using assms(3) b(1) by (simp add: fn_path_def)
  from call_soundD(2) [OF live_seq_sound [OF b(2)] r(1) this]
  have "covered f m (pre @ ELet s # post) (cont ?st {} None out)" by (simp add: sound_def r(2))
  from covered_split [OF this] have *: "needed f post (cont ?st {} None out) \<subseteq> or_empty (m s)" "m s \<noteq> None" by simp_all
  have "needed f post {} \<subseteq> needed f post (cont ?st {} None out)" by (rule needed_mono) simp
  with * show ?thesis by (auto simp: or_empty_def)
qed

text \<open>
  C11: the analysis misses nothing. On every path of a function of the verified shape, every variable
  that is used after a \<open>let\<close> before it is defined again, on the normal way on or in a landing, is in
  the set the analysis records for that \<open>let\<close>: what a suspension saves is all the resumed function
  reads.
\<close>

theorem live_on_lets_sound:
  assumes "tree_fn f" "live_on_lets n f = Some m" "fn_path f (pre @ ELet s # post) out"
  shows "\<exists>X. m s = Some X \<and> needed f post {} \<subseteq> X"
  using assms by (rule live_on_lets_covers)

section \<open>An example\<close>

text \<open>\<open>loop i = n { let y = f(i); if y { } else { return x }; recur y }\<close> with the variables \<open>n\<close>, \<open>x\<close>, \<open>y\<close>, \<open>i\<close>.\<close>

definition toy_live :: lir_fn where
  "toy_live = (fn_new ''toy'')
     \<lparr>f_params := [0, 1], f_body := Some 0,
      f_stmts := [SLoop None [3] [OVar 0] 1, SLet (Some 2) (VCall (Direct 0) [OVar 3] True None) None None,
                  SIf None (OVar 2) 2 3],
      f_seqs := [\<lparr>sq_stmts = [0], sq_term = Unreachable\<rparr>, \<lparr>sq_stmts = [1, 2], sq_term = Recur [OVar 2]\<rparr>,
                 \<lparr>sq_stmts = [], sq_term = Yield None\<rparr>, \<lparr>sq_stmts = [], sq_term = Return (Some (OVar 1))\<rparr>]\<rparr>"

lemma toy_live_seqs:
  "get_seq toy_live 0 = Some \<lparr>sq_stmts = [0], sq_term = Unreachable\<rparr>"
  "get_seq toy_live 1 = Some \<lparr>sq_stmts = [1, 2], sq_term = Recur [OVar 2]\<rparr>"
  "get_seq toy_live 2 = Some \<lparr>sq_stmts = [], sq_term = Yield None\<rparr>"
  "get_seq toy_live 3 = Some \<lparr>sq_stmts = [], sq_term = Return (Some (OVar 1))\<rparr>"
  "get_stmt toy_live 0 = Some (SLoop None [3] [OVar 0] 1)"
  "get_stmt toy_live 1 = Some (SLet (Some 2) (VCall (Direct 0) [OVar 3] True None) None None)"
  "get_stmt toy_live 2 = Some (SIf None (OVar 2) 2 3)"
  "f_body toy_live = Some 0"
  by (simp_all add: toy_live_def get_seq_def get_stmt_def)

lemmas toy_live_eval = toy_live_seqs toy_live_seqs [unfolded One_nat_def]

lemma toy_live_tree: "tree_fn toy_live"
proof -
  have 2: "tree_seq toy_live {} 2 {}" by (rule tree_seq.intros [OF toy_live_seqs(3)]) simp_all
  have 3: "tree_seq toy_live {} 3 {}" by (rule tree_seq.intros [OF toy_live_seqs(4)]) simp_all
  have s1: "tree_stmt (tree_seq toy_live) toy_live {} 1 {1}"
    by (simp add: tree_stmt_def toy_live_eval opt_list_def)
  have s2: "tree_stmt (tree_seq toy_live) toy_live {} 2 {2}"
    using 2 3 by (auto simp: tree_stmt_def toy_live_eval intro!: exI [of _ "{}"])
  have "all_disj (tree_stmt (tree_seq toy_live) toy_live {}) [1, 2] ({1} \<union> ({2} \<union> {}))"
    by (intro all_disj_ConsI s1 s2) simp_all
  then have 1: "tree_seq toy_live {} 1 {1, 2}"
    by (intro tree_seq.intros [OF toy_live_seqs(2)]) (simp_all add: insert_commute)
  then have "all_disj (tree_seq toy_live {}) [1] ({1, 2} \<union> {})" by (intro all_disj_ConsI) simp_all
  then have s0: "tree_stmt (tree_seq toy_live) toy_live {} 0 (insert 0 {1, 2})"
    unfolding tree_stmt_def toy_live_seqs by (intro exI [of _ "{1, 2}"] exI conjI) (rule refl | simp)+
  then have "all_disj (tree_stmt (tree_seq toy_live) toy_live {}) [0] (insert 0 {1, 2} \<union> {})"
    by (intro all_disj_ConsI) simp_all
  then have "tree_seq toy_live {} 0 (insert 0 {1, 2} \<union> {})"
    by (intro tree_seq.intros [OF toy_live_seqs(1)]) simp_all
  then show ?thesis using toy_live_seqs(8) unfolding tree_fn_def by blast
qed

lemma toy_live_result:
  "\<exists>m. live_on_lets (Suc (Suc (Suc (Suc 0)))) toy_live = Some m"
  by (simp add: live_on_lets_def toy_live_eval live_stmt_def live_fail_def live_defect_def live_operands_def
      ops_vars_def opt_list_def or_empty_def Let_def)

theorem live_on_lets_returns_witness: "\<exists>N m. \<not> (\<exists>n. N \<le> n \<and> live_on_lets n toy_live \<noteq> Some m)"
proof -
  from live_on_lets_returns [OF toy_live_tree] obtain N m where "\<forall>n\<ge>N. live_on_lets n toy_live = Some m" by blast
  then show ?thesis by (intro exI [of _ N] exI [of _ m]) simp
qed

lemma toy_live_path:
  "fn_path toy_live ([EInit [OVar 0], EOwn 3] @ ELet 1 # [EDst 1, ERead [2], ETerm (Return (Some (OVar 1)))]) OLeave"
proof -
  have 3: "path_seq toy_live 3 [ETerm (Return (Some (OVar 1)))] OLeave"
    using path_seq_path_stmts_path_stmt_path_loop.finish [of toy_live "Return (Some (OVar 1))"]
    by (intro path_seq_path_stmts_path_stmt_path_loop.seq [OF toy_live_seqs(4)]) simp
  have l: "path_stmt toy_live 1 [ELet 1, EDst 1] None"
    using path_seq_path_stmts_path_stmt_path_loop.let_ok [OF toy_live_seqs(6)] by simp
  have i: "path_stmt toy_live 2 [ERead [2], ETerm (Return (Some (OVar 1)))] (Some OLeave)"
    by (rule path_seq_path_stmts_path_stmt_path_loop.branch_out [OF toy_live_seqs(7) _ _ 3,
          where vs = "[2]" and d = None and bs = "[2, 3]"]) simp_all
  have 1: "path_seq toy_live 1 ([ELet 1, EDst 1] @ [ERead [2], ETerm (Return (Some (OVar 1)))]) OLeave"
    by (rule path_seq_path_stmts_path_stmt_path_loop.seq [OF toy_live_seqs(2)])
       (use path_seq_path_stmts_path_stmt_path_loop.step [OF l path_seq_path_stmts_path_stmt_path_loop.leave [OF i]] in simp)
  have "path_stmt toy_live 0 (EInit [OVar 0] # map EOwn [3] @ [ELet 1, EDst 1] @ [ERead [2], ETerm (Return (Some (OVar 1)))])
      (Some OLeave)"
    by (rule path_seq_path_stmts_path_stmt_path_loop.loop_out [OF toy_live_seqs(5)
          path_seq_path_stmts_path_stmt_path_loop.last [OF 1]]) simp_all
  then have "path_seq toy_live 0 (EInit [OVar 0] # map EOwn [3] @ [ELet 1, EDst 1] @ [ERead [2], ETerm (Return (Some (OVar 1)))]) OLeave"
    by (intro path_seq_path_stmts_path_stmt_path_loop.seq [OF toy_live_seqs(1)])
       (simp add: path_seq_path_stmts_path_stmt_path_loop.leave)
  then show ?thesis using toy_live_seqs(8) by (simp add: fn_path_def)
qed

theorem live_on_lets_sound_witness:
  "\<exists>m X. live_on_lets (Suc (Suc (Suc (Suc 0)))) toy_live = Some m \<and> m 1 = Some X \<and> 1 \<in> X"
proof -
  obtain m where m: "live_on_lets (Suc (Suc (Suc (Suc 0)))) toy_live = Some m" using toy_live_result by blast
  from live_on_lets_sound [OF toy_live_tree m toy_live_path] obtain X where
    "m 1 = Some X" "needed toy_live [EDst 1, ERead [2], ETerm (Return (Some (OVar 1)))] {} \<subseteq> X"
    by (elim exE conjE)
  from this(2) have "{Suc 0, 2} - {2} \<subseteq> X"
    by (simp add: toy_live_eval live_operands_def ops_vars_def opt_list_def)
  then have "1 \<in> X" by force
  with \<open>m 1 = Some X\<close> m show ?thesis by (intro exI [of _ m] exI [of _ X] conjI)
qed

end
