(* ===== verification/Lir_Ownership.thy ===== *)
theory Lir_Ownership
  imports Lir_Path
begin

text \<open>
  Who owns what: the ownership rules of reference counting (the first part of
  \<open>crates/emela-lir/src/heap/rc.rs\<close>), shared by the pass that inserts \<open>dup\<close> and \<open>drop\<close> and by the
  balance check, and what they mean for a path: a reference count per variable.

  A variable out of range, where the source would panic, counts as not counted.
\<close>

section \<open>The rules\<close>

datatype mode = Consume | Borrow

definition counted :: "lir_fn \<Rightarrow> var_id \<Rightarrow> bool" where
  "counted f v \<longleftrightarrow> v < length (f_vars f) \<and> vd_repr (f_vars f ! v) = Ref"

definition borrowed_param :: "lir_fn \<Rightarrow> var_id \<Rightarrow> bool" where
  "borrowed_param f v \<longleftrightarrow> f_env f \<noteq> None \<and> (case f_params f of p # ps \<Rightarrow> p = v | [] \<Rightarrow> False)"

fun is_view :: "lir_fn \<Rightarrow> lir_value \<Rightarrow> bool" where
  "is_view f (VField _ _ _) = True"
| "is_view f (VTupleGet _ _) = True"
| "is_view f (VListHead _) = True"
| "is_view f (VListTail _) = True"
| "is_view f (VEnvGet _ _) = True"
| "is_view f (VEvLookup _ _) = True"
| "is_view f (VAsError _ _) = True"
| "is_view f (VCoerce x) = counted f x"
| "is_view f _ = False"

definition counted_of :: "lir_fn \<Rightarrow> var_id list \<Rightarrow> var_id set" where
  "counted_of f vs = set (filter (counted f) vs)"

definition operand_vars :: "lir_fn \<Rightarrow> operand list \<Rightarrow> var_id list" where
  "operand_vars f os = filter (counted f) (ops_vars os)"

text \<open>The closures \<open>one\<close> and \<open>each\<close> of \<open>value_uses\<close>.\<close>

definition use_ones :: "lir_fn \<Rightarrow> mode \<Rightarrow> var_id list \<Rightarrow> (var_id \<times> mode) list" where
  "use_ones f mode xs = map (\<lambda>x. (x, mode)) (filter (counted f) xs)"

definition use_each :: "lir_fn \<Rightarrow> mode \<Rightarrow> operand list \<Rightarrow> (var_id \<times> mode) list" where
  "use_each f mode os = use_ones f mode (ops_vars os)"

definition is_external :: "lir_module \<Rightarrow> fn_id \<Rightarrow> bool" where
  "is_external m g \<longleftrightarrow> g < length (m_functions m) \<and> f_external (m_functions m ! g) \<noteq> None"

fun value_uses :: "lir_module \<Rightarrow> lir_fn \<Rightarrow> lir_value \<Rightarrow> (var_id \<times> mode) list" where
  "value_uses m f (VConst _) = []"
| "value_uses m f (VFnRef _) = []"
| "value_uses m f (VBuiltin op args) =
     (if op = BArraySet then use_each f Consume (take 1 args) @ use_each f Borrow (drop 1 args)
      else use_each f Borrow args)"
| "value_uses m f (VPrim _ _ args) = use_each f Borrow args"
| "value_uses m f (VFiber _ args _) = use_each f Borrow args"
| "value_uses m f (VCall (Direct g) args _ _) =
     use_each f (if is_external m g then Borrow else Consume) args"
| "value_uses m f (VCall (Indirect c) args _ _) = use_ones f Borrow [c] @ use_each f Consume args"
| "value_uses m f (VCall (CallOp c _ _) args _ _) = use_ones f Borrow [c] @ use_each f Consume args"
| "value_uses m f (VMake _ args) = use_each f Consume args"
| "value_uses m f (VTuple args) = use_each f Consume args"
| "value_uses m f (VList elems tail) = use_each f Consume elems @ use_each f Consume (opt_list tail)"
| "value_uses m f (VField x _ _) = use_ones f Borrow [x]"
| "value_uses m f (VTupleGet x _) = use_ones f Borrow [x]"
| "value_uses m f (VListHead x) = use_ones f Borrow [x]"
| "value_uses m f (VListTail x) = use_ones f Borrow [x]"
| "value_uses m f (VEnvGet x _) = use_ones f Borrow [x]"
| "value_uses m f (VEvLookup x _) = use_ones f Borrow [x]"
| "value_uses m f (VAsError x _) = use_ones f Borrow [x]"
| "value_uses m f (VTag x) = use_ones f Borrow [x]"
| "value_uses m f (VListIsEmpty x) = use_ones f Borrow [x]"
| "value_uses m f (VIsError x _) = use_ones f Borrow [x]"
| "value_uses m f (VCoerce x) = use_ones f Borrow [x]"
| "value_uses m f (VClosure c) = use_ones f Consume (cl_captures c)"
| "value_uses m f (VMakeClosure _ captures) = use_ones f Consume captures"
| "value_uses m f (VEvExtend base bindings) =
     use_ones f Consume (opt_list base) @ use_ones f Consume (map snd bindings)"
| "value_uses m f (VHandler _ _ ops) = use_ones f Consume ops"
| "value_uses m f (VRuntime op args) =
     use_each f (if op = RDefectResume then Consume else Borrow) args"

fun term_consumes :: "lir_fn \<Rightarrow> lir_term \<Rightarrow> var_id list" where
  "term_consumes f (Yield v) = operand_vars f (opt_list v)"
| "term_consumes f (Return v) = operand_vars f (opt_list v)"
| "term_consumes f (Break l v) = operand_vars f (opt_list v)"
| "term_consumes f (Fail v) = operand_vars f [v]"
| "term_consumes f (Defect v l) = operand_vars f [v]"
| "term_consumes f (Recur args) = operand_vars f args"
| "term_consumes f Unwind = []"
| "term_consumes f Unreachable = []"

fun landings :: "lir_stmt \<Rightarrow> (var_id \<times> seq_id) option \<times> seq_id option" where
  "landings (SLet d val df su) = (fail_landing val, df)"
| "landings _ = (None, None)"

fun suspend_saved :: "lir_fn \<Rightarrow> lir_stmt \<Rightarrow> var_id list" where
  "suspend_saved f (SLet d val df (Some su)) = filter (counted f) (su_saved su)"
| "suspend_saved f _ = []"

text \<open>The rules cover the variables of a value: the uses are its counted variables, in order.\<close>

lemma map_fst_use_ones [simp]: "map fst (use_ones f mode xs) = filter (counted f) xs"
  by (simp add: use_ones_def comp_def)

lemma use_each_vars [simp]: "map fst (use_each f mode os) = filter (counted f) (ops_vars os)"
  by (simp add: use_each_def)

lemma ops_vars_append [simp]: "ops_vars (xs @ ys) = ops_vars xs @ ops_vars ys"
  by (simp add: ops_vars_def)

lemma value_uses_vars: "map fst (value_uses m f v) = filter (counted f) (value_vars v)"
proof (cases v)
  case (VCall c args s fl)
  then show ?thesis by (cases c) simp_all
next
  case (VBuiltin op args)
  have "ops_vars (take 1 args) @ ops_vars (drop 1 args) = ops_vars args"
    using ops_vars_append [of "take 1 args" "drop 1 args"] by simp
  with VBuiltin show ?thesis by (simp flip: filter_append)
qed simp_all

lemma value_uses_cong: "f_vars g = f_vars f \<Longrightarrow> value_uses m g v = value_uses m f v"
proof -
  assume "f_vars g = f_vars f"
  then have [simp]: "counted g = counted f" by (simp add: fun_eq_iff counted_def)
  show ?thesis
  proof (cases v)
    case (VCall c args s fl)
    then show ?thesis by (cases c) (simp_all add: use_each_def use_ones_def)
  qed (simp_all add: use_each_def use_ones_def)
qed

section \<open>Reference counts on a path\<close>

type_synonym counts = "var_id \<Rightarrow> int"

text \<open>Taking references one after the other; \<open>None\<close> is a reference taken that is not there.\<close>

fun take_all :: "var_id list \<Rightarrow> counts \<Rightarrow> counts option" where
  "take_all [] C = Some C"
| "take_all (v # vs) C = (if C v < 1 then None else take_all vs (C(v := C v - 1)))"

definition borrow_ok :: "lir_fn \<Rightarrow> counts \<Rightarrow> var_id \<Rightarrow> bool" where
  "borrow_ok f C v \<longleftrightarrow> 1 \<le> C v \<or> borrowed_param f v"

text \<open>A definition starts the life of a variable, so no reference of an earlier life may be left.\<close>

definition own :: "lir_fn \<Rightarrow> var_id \<Rightarrow> int \<Rightarrow> counts \<Rightarrow> counts option" where
  "own f v n C = (if \<not> counted f v then Some C else if C v = 0 then Some (C(v := n)) else None)"

definition consumed_by :: "lir_module \<Rightarrow> lir_fn \<Rightarrow> lir_value \<Rightarrow> var_id list" where
  "consumed_by m f v = map fst (filter (\<lambda>u. snd u = Consume) (value_uses m f v))"

definition borrowed_by :: "lir_module \<Rightarrow> lir_fn \<Rightarrow> lir_value \<Rightarrow> var_id list" where
  "borrowed_by m f v = map fst (filter (\<lambda>u. snd u = Borrow) (value_uses m f v))"

fun count_event :: "lir_module \<Rightarrow> lir_fn \<Rightarrow> event \<Rightarrow> counts \<Rightarrow> counts option" where
  "count_event m f (ELet s) C =
     (case get_stmt f s of
        Some (SLet d val df su) \<Rightarrow>
          do { C \<leftarrow> take_all (consumed_by m f val) C;
               if list_all (borrow_ok f C) (borrowed_by m f val) then Some C else None }
      | _ \<Rightarrow> None)"
| "count_event m f (EDst s) C =
     (case get_stmt f s of
        Some (SLet (Some d) val df su) \<Rightarrow> own f d (if is_view f val then 0 else 1) C
      | _ \<Rightarrow> None)"
| "count_event m f (ESuspend s) C =
     do { stmt \<leftarrow> get_stmt f s; take_all (suspend_saved f stmt) C }"
| "count_event m f (EOwn v) C = own f v 1 C"
| "count_event m f (ERead vs) C =
     (if list_all (\<lambda>v. counted f v \<longrightarrow> borrow_ok f C v) vs then Some C else None)"
| "count_event m f (EInit os) C = take_all (operand_vars f os) C"
| "count_event m f (EDup v) C = Some (C(v := C v + 1))"
| "count_event m f (EDrop v) C = take_all [v] C"
| "count_event m f (ETerm t) C = take_all (term_consumes f t) C"

fun count_path :: "lir_module \<Rightarrow> lir_fn \<Rightarrow> event list \<Rightarrow> counts \<Rightarrow> counts option" where
  "count_path m f [] C = Some C"
| "count_path m f (e # tr) C = do { C \<leftarrow> count_event m f e C; count_path m f tr C }"

lemma count_path_append:
  "count_path m f (tr @ tr') C = do { C \<leftarrow> count_path m f tr C; count_path m f tr' C }"
  by (induction tr arbitrary: C) (auto split: Option.bind_splits)

text \<open>What a function starts with: one reference per counted parameter, none for the environment.\<close>

definition entry_counts :: "lir_fn \<Rightarrow> counts" where
  "entry_counts f v =
     (if v \<in> set (f_params f) \<and> counted f v \<and> \<not> borrowed_param f v then 1 else 0)"

text \<open>A path is balanced: nothing is taken that is not there, and leaving leaves nothing behind.\<close>

definition balanced :: "lir_module \<Rightarrow> lir_fn \<Rightarrow> event list \<Rightarrow> outcome \<Rightarrow> bool" where
  "balanced m f tr out \<longleftrightarrow>
     (\<exists>C. count_path m f tr (entry_counts f) = Some C \<and> (out = OLeave \<longrightarrow> C = (\<lambda>v. 0)))"

end
