(* ===== verification/Lir_Suspend.thy ===== *)
theory Lir_Suspend
  imports Lir_Live Lir_Ownership
begin

text \<open>
  The edges of the suspend state machines (\<open>mark\<close> and what it calls in
  \<open>crates/emela-lir/src/heap/suspend.rs\<close>) and the check of the verifier for them (\<open>saved_errors\<close> of
  \<open>crates/emela-lir/src/verify.rs\<close>). An edge saves the variables that the resumed function still
  needs; the theorems say that none is forgotten.

  Fuel bounds the nesting; \<open>None\<close> is the end of the fuel or a panic.
\<close>

section \<open>The pass\<close>

fun may_suspend :: "lir_value \<Rightarrow> bool" where
  "may_suspend (VCall c args suspends fl) = suspends"
| "may_suspend (VFiber op args fl) = fiber_suspends op"
| "may_suspend (VRuntime op args) = (op \<in> {RYield, RYieldPerform})"
| "may_suspend _ = False"

fun preorder :: "nat \<Rightarrow> lir_fn \<Rightarrow> seq_id \<Rightarrow> stmt_id list option" where
  "preorder 0 f i = None"
| "preorder (Suc n) f i =
     do { q \<leftarrow> get_seq f i;
          xss \<leftarrow> those (map (\<lambda>s. do { stmt \<leftarrow> get_stmt f s;
                                     yss \<leftarrow> those (map (preorder n f) (children stmt));
                                     Some (s # concat yss) }) (sq_stmts q));
          Some (concat xss) }"

definition saved_vars :: "lir_module \<Rightarrow> lir_fn \<Rightarrow> lir_value \<Rightarrow> var_id set \<Rightarrow> var_id list" where
  "saved_vars m f v live = sorted_list_of_set (live \<union> set (borrowed_by m f v))"

fun mark_loop :: "lir_module \<Rightarrow> (stmt_id \<rightharpoonup> var_id set) \<Rightarrow> stmt_id list \<Rightarrow> nat \<Rightarrow> lir_fn \<Rightarrow> lir_fn option" where
  "mark_loop m live [] state f = Some f"
| "mark_loop m live (s # ss) state f =
     (case get_stmt f s of
        None \<Rightarrow> None
      | Some (SLet d v df su) \<Rightarrow>
          (if may_suspend v then
             (case live s of
                None \<Rightarrow> None
              | Some x \<Rightarrow>
                  mark_loop m live ss (state + 1)
                    (f\<lparr>f_stmts := (f_stmts f)[s := SLet d v df (Some \<lparr>su_state = state, su_saved = saved_vars m f v x\<rparr>)]\<rparr>))
           else mark_loop m live ss state f)
      | Some _ \<Rightarrow> mark_loop m live ss state f)"

definition mark :: "nat \<Rightarrow> lir_module \<Rightarrow> lir_fn \<Rightarrow> lir_fn option" where
  "mark n m f =
     do { live \<leftarrow> live_on_lets n f; b \<leftarrow> f_body f; order \<leftarrow> preorder n f b; mark_loop m live order 0 f }"

section \<open>The check\<close>

text \<open>The states and variables of the messages of \<open>saved_errors\<close>.\<close>

definition edge_errors :: "lir_module \<Rightarrow> lir_fn \<Rightarrow> (stmt_id \<rightharpoonup> var_id set) \<Rightarrow> stmt_id \<Rightarrow> (nat \<times> var_id) list" where
  "edge_errors m f live s =
     (case get_stmt f s of
        Some (SLet d v df (Some edge)) \<Rightarrow>
          (case live s of
             None \<Rightarrow> []
           | Some x \<Rightarrow> map (Pair (su_state edge)) (filter (\<lambda>y. y \<notin> set (su_saved edge)) (saved_vars m f v x)))
      | _ \<Rightarrow> [])"

definition saved_errors :: "nat \<Rightarrow> lir_module \<Rightarrow> lir_fn \<Rightarrow> (nat \<times> var_id) list option" where
  "saved_errors n m f =
     do { live \<leftarrow> live_on_lets n f; Some (concat (map (edge_errors m f live) [0..<length (f_stmts f)])) }"

section \<open>Functions that differ in their edges only\<close>

fun no_edge :: "lir_stmt \<Rightarrow> lir_stmt" where
  "no_edge (SLet d v df su) = SLet d v df None"
| "no_edge stmt = stmt"

definition same_but_edges :: "lir_fn \<Rightarrow> lir_fn \<Rightarrow> bool" where
  "same_but_edges f g \<longleftrightarrow>
     g\<lparr>f_stmts := []\<rparr> = f\<lparr>f_stmts := []\<rparr> \<and> map no_edge (f_stmts g) = map no_edge (f_stmts f)"

lemma same_refl [simp]: "same_but_edges f f"
  by (simp add: same_but_edges_def)

lemma same_trans: "same_but_edges f g \<Longrightarrow> same_but_edges g h \<Longrightarrow> same_but_edges f h"
  by (simp add: same_but_edges_def)

lemma same_fields:
  assumes "same_but_edges f g"
  shows "f_body g = f_body f" "f_seqs g = f_seqs f" "f_vars g = f_vars f" "length (f_stmts g) = length (f_stmts f)"
proof -
  have "f_body (g\<lparr>f_stmts := []\<rparr>) = f_body (f\<lparr>f_stmts := []\<rparr>)" "f_seqs (g\<lparr>f_stmts := []\<rparr>) = f_seqs (f\<lparr>f_stmts := []\<rparr>)"
    "f_vars (g\<lparr>f_stmts := []\<rparr>) = f_vars (f\<lparr>f_stmts := []\<rparr>)"
    using assms by (simp_all only: same_but_edges_def)
  moreover have "length (map no_edge (f_stmts g)) = length (map no_edge (f_stmts f))"
    using assms by (simp only: same_but_edges_def)
  ultimately show "f_body g = f_body f" "f_seqs g = f_seqs f" "f_vars g = f_vars f" "length (f_stmts g) = length (f_stmts f)"
    by simp_all
qed

lemma same_get_seq: "same_but_edges f g \<Longrightarrow> get_seq g i = get_seq f i"
  by (simp add: get_seq_def same_fields)

lemma same_get_stmt:
  assumes "same_but_edges f g"
  shows "map_option no_edge (get_stmt g s) = map_option no_edge (get_stmt f s)"
proof -
  have "map no_edge (f_stmts g) ! s = map no_edge (f_stmts f) ! s" using assms by (simp add: same_but_edges_def)
  then show ?thesis using same_fields(4) [OF assms] by (auto simp: get_stmt_def)
qed

lemma same_let:
  assumes "same_but_edges f g" "get_stmt f s = Some (SLet d v df su)"
  obtains su' where "get_stmt g s = Some (SLet d v df su')"
proof -
  from same_get_stmt [OF assms(1), of s] assms(2) obtain stmt where "get_stmt g s = Some stmt" "no_edge stmt = SLet d v df None"
    by auto
  with that show ?thesis by (cases stmt) auto
qed

lemma same_other:
  assumes "same_but_edges f g" "get_stmt f s = Some stmt" "\<And>d v df su. stmt \<noteq> SLet d v df su"
  shows "get_stmt g s = Some stmt"
proof -
  from same_get_stmt [OF assms(1), of s] assms(2) obtain stmt' where "get_stmt g s = Some stmt'" "no_edge stmt' = no_edge stmt" by auto
  moreover have "no_edge stmt = stmt" using assms(3) by (cases stmt) auto
  ultimately show ?thesis using assms(3) by (cases stmt') auto
qed

lemma same_sym: "same_but_edges f g \<Longrightarrow> same_but_edges g f"
  by (simp add: same_but_edges_def)

lemma same_children:
  assumes "same_but_edges f g" "get_stmt f s = Some stmt"
  obtains stmt' where "get_stmt g s = Some stmt'" "children stmt' = children stmt" "stmt_labels stmt' = stmt_labels stmt"
    "is_protect stmt' = is_protect stmt"
proof (cases "\<exists>d v df su. stmt = SLet d v df su")
  case True
  then obtain d v df su where stmt: "stmt = SLet d v df su" by blast
  obtain su' where "get_stmt g s = Some (SLet d v df su')" using same_let [OF assms(1)] assms(2) stmt by blast
  then show ?thesis by (rule that) (simp_all add: stmt)
next
  case False
  have "get_stmt g s = Some stmt" by (rule same_other [OF assms]) (use False in blast)
  then show ?thesis by (rule that) (rule refl)+
qed

lemma same_tree:
  assumes same: "same_but_edges f g" and "tree_seq f L i S"
  shows "tree_seq g L i S"
  using assms(2)
proof (induction rule: tree_seq.induct)
  case (1 i q L S)
  have "tree_stmt (tree_seq g) g L s S" if t: "tree_stmt (\<lambda>L i S. tree_seq f L i S \<and> tree_seq g L i S) f L s S" for s S
  proof (rule tree_stmtE [OF t])
    fix stmt S'
    assume st: "get_stmt f s = Some stmt" "\<not> is_protect stmt" "stmt_labels stmt \<inter> L = {}" "s \<notin> S'" "S = insert s S'"
      and cs: "all_disj (\<lambda>i S. tree_seq f (L \<union> stmt_labels stmt) i S \<and> tree_seq g (L \<union> stmt_labels stmt) i S) (children stmt) S'"
    obtain stmt' where s': "get_stmt g s = Some stmt'" "children stmt' = children stmt" "stmt_labels stmt' = stmt_labels stmt"
      "is_protect stmt' = is_protect stmt" by (rule same_children [OF same st(1)])
    have "all_disj (tree_seq g (L \<union> stmt_labels stmt)) (children stmt) S'"
      by (rule all_disj_mono [rule_format, OF _ cs]) simp
    with st s' show "tree_stmt (tree_seq g) g L s S" unfolding tree_stmt_def by (intro exI [of _ stmt'] exI [of _ S']) simp
  qed
  then have "all_disj (tree_stmt (tree_seq g) g L) (sq_stmts q) S"
    by (intro all_disj_mono [rule_format, OF _ 1(3)])
  with 1(1,2) same_get_seq [OF same] show ?case by (intro tree_seq.intros) simp_all
qed

lemma same_tree_fn: "same_but_edges f g \<Longrightarrow> tree_fn f \<Longrightarrow> tree_fn g"
  using same_tree same_fields(1) by (force simp: tree_fn_def)

lemma same_live_stmt:
  assumes "same_but_edges f g"
  shows "live_stmt n call g st s after yl lh = live_stmt n call f st s after yl lh"
proof (cases "get_stmt f s")
  case None
  with same_get_stmt [OF assms, of s] show ?thesis by (simp add: live_stmt_def)
next
  case (Some stmt)
  show ?thesis
  proof (cases "\<exists>d v df su. stmt = SLet d v df su")
    case True
    then obtain d v df su where stmt: "stmt = SLet d v df su" by blast
    obtain su' where "get_stmt g s = Some (SLet d v df su')" using same_let [OF assms] Some stmt by blast
    with Some stmt show ?thesis by (simp add: live_stmt_def)
  next
    case False
    with same_other [OF assms Some] have "get_stmt g s = Some stmt" by blast
    with Some show ?thesis by (simp add: live_stmt_def)
  qed
qed

lemma same_live_stmts:
  "same_but_edges f g \<Longrightarrow> live_stmts n call g st ss live yl lh = live_stmts n call f st ss live yl lh"
proof (induction ss arbitrary: st live)
  case (Cons s ss)
  then show ?case by (simp add: same_live_stmt [OF Cons.prems])
qed simp

lemma same_live_seq: "same_but_edges f g \<Longrightarrow> live_seq n g = live_seq n f"
proof (induction n)
  case (Suc n)
  have "live_seq (Suc n) g st i yl lh = live_seq (Suc n) f st i yl lh" for st i yl lh
    unfolding live_seq.simps Suc.IH [OF Suc.prems] same_get_seq [OF Suc.prems] same_live_stmts [OF Suc.prems] by (rule refl)
  then show ?case by (intro ext)
qed (simp add: fun_eq_iff)

lemma same_live: "same_but_edges f g \<Longrightarrow> live_on_lets n g = live_on_lets n f"
  unfolding live_on_lets_def by (simp only: same_live_seq same_fields(1))

lemma same_saved_vars: "same_but_edges f g \<Longrightarrow> saved_vars m g v = saved_vars m f v"
  by (simp add: fun_eq_iff saved_vars_def borrowed_by_def value_uses_cong [OF same_fields(3)])

section \<open>Finite sets\<close>

definition fin_state :: "live_state \<Rightarrow> bool" where
  "fin_state st \<longleftrightarrow> (\<forall>l X. after_label st l = Some X \<longrightarrow> finite X) \<and> (\<forall>s X. live_on st s = Some X \<longrightarrow> finite X)"

definition call_fin :: "live_call \<Rightarrow> bool" where
  "call_fin call \<longleftrightarrow>
     (\<forall>st i yl lh l st'. call st i yl lh = Some (l, st') \<longrightarrow> fin_state st \<longrightarrow> finite yl \<longrightarrow> finite (or_empty lh) \<longrightarrow>
        finite l \<and> fin_state st')"

lemma call_finD:
  "call_fin call \<Longrightarrow> call st i yl lh = Some (l, st') \<Longrightarrow> fin_state st \<Longrightarrow> finite yl \<Longrightarrow> finite (or_empty lh) \<Longrightarrow>
   finite l \<and> fin_state st'"
  unfolding call_fin_def by blast

lemma live_bodies_fin:
  "call_fin call \<Longrightarrow> live_bodies call st bs after lh l = Some (l', st') \<Longrightarrow> fin_state st \<Longrightarrow> finite after \<Longrightarrow>
   finite (or_empty lh) \<Longrightarrow> finite l \<Longrightarrow> finite l' \<and> fin_state st'"
proof (induction bs arbitrary: st l)
  case (Cons b bs)
  from Cons.prems(2) obtain l1 st1 where r: "call st b after lh = Some (l1, st1)" "live_bodies call st1 bs after lh (l \<union> l1) = Some (l', st')"
    by (auto simp: bind_eq_Some_conv)
  from call_finD [OF Cons.prems(1) r(1) Cons.prems(3-5)] Cons.IH [OF Cons.prems(1) r(2)] Cons.prems show ?case by simp
qed simp

lemma live_loop_fin:
  "call_fin call \<Longrightarrow> live_loop n call st vs b after h = Some (h', st') \<Longrightarrow> fin_state st \<Longrightarrow> finite after \<Longrightarrow> finite h \<Longrightarrow>
   finite h' \<and> fin_state st'"
proof (induction n arbitrary: st h)
  case (Suc n)
  from Suc.prems(2) obtain l1 st1 where r: "call st b after (Some h) = Some (l1, st1)"
    "(if l1 - set vs = h then Some (h, st1) else live_loop n call st1 vs b after (l1 - set vs)) = Some (h', st')"
    by (auto simp: bind_eq_Some_conv)
  from call_finD [OF Suc.prems(1) r(1)] Suc.prems have "finite l1" "fin_state st1" by (simp_all add: or_empty_def)
  with r(2) Suc.IH [OF Suc.prems(1), of st1 "l1 - set vs"] Suc.prems show ?case by (auto split: if_splits)
qed simp

lemma live_landings_fin:
  assumes "call_fin call" "fin_state st" "finite after" "finite yl" "finite (or_empty lh)"
  shows "live_fail call st fl after yl lh = Some (x, st') \<Longrightarrow> finite x \<and> fin_state st'"
    and "live_defect call st df after yl lh = Some (x, st') \<Longrightarrow> finite x \<and> fin_state st'"
  using call_finD [OF assms(1) _ assms(2,4,5)] assms
  by (auto simp: live_fail_def live_defect_def bind_eq_Some_conv split: option.splits)

lemma live_stmt_fin:
  assumes c: "call_fin call" and r: "live_stmt n call f st s after yl lh = Some (l, st')"
    and fin: "fin_state st" "finite after" "finite yl" "finite (or_empty lh)"
  shows "finite l \<and> fin_state st'"
proof -
  obtain stmt where stmt: "get_stmt f s = Some stmt" using r by (auto simp: live_stmt_def bind_eq_Some_conv)
  let ?after = "after - set (opt_list (stmt_dst stmt))"
  have fa: "finite ?after" using fin(2) by simp
  show ?thesis
  proof (cases stmt)
    case (SLet d v df su)
    then obtain a1 st1 a2 st2 where x: "live_fail call st (fail_landing v) ?after yl lh = Some (a1, st1)"
      "live_defect call st1 df a1 yl lh = Some (a2, st2)" "l = a2 \<union> set (value_vars v)" "st' = st2\<lparr>live_on := (live_on st2)(s \<mapsto> a2)\<rparr>"
      using r stmt by (auto simp: live_stmt_def bind_eq_Some_conv Let_def)
    from live_landings_fin(1) [OF c fin(1) fa fin(3,4) x(1)] have "finite a1" "fin_state st1" by simp_all
    from live_landings_fin(2) [OF c this(2,1) fin(3,4) x(2)] have "finite a2" "fin_state st2" by simp_all
    then show ?thesis using x(3,4) by (simp add: fin_state_def)
  next
    case (SIf d cond a b)
    then obtain l1 st1 l2 where x: "call st a ?after lh = Some (l1, st1)" "call st1 b ?after lh = Some (l2, st')"
      "l = live_operands [cond] (l1 \<union> l2)" using r stmt by (auto simp: live_stmt_def bind_eq_Some_conv Let_def)
    from call_finD [OF c x(1) fin(1) fa fin(4)] have "finite l1" "fin_state st1" by simp_all
    with call_finD [OF c x(2) _ fa fin(4)] x(3) show ?thesis by (simp add: live_operands_def)
  next
    case (SSwitch d on cs df)
    then obtain l1 where x: "live_bodies call st (map sc_body cs @ opt_list df) ?after lh {} = Some (l1, st')" "l = insert (switch_var on) l1"
      using r stmt by (auto simp: live_stmt_def bind_eq_Some_conv Let_def)
    from live_bodies_fin [OF c x(1) fin(1) fa fin(4)] x(2) show ?thesis by simp
  next
    case (SBlock d k b)
    then have x: "call (st\<lparr>after_label := (after_label st)(k \<mapsto> ?after)\<rparr>) b ?after lh = Some (l, st')"
      using r stmt by (auto simp: live_stmt_def bind_eq_Some_conv Let_def)
    have "fin_state (st\<lparr>after_label := (after_label st)(k \<mapsto> ?after)\<rparr>)" using fin(1) fa by (auto simp: fin_state_def)
    from call_finD [OF c x this fa fin(4)] show ?thesis .
  next
    case (SLoop d vs inits b)
    then obtain h where x: "live_loop n call st vs b ?after {} = Some (h, st')" "l = live_operands inits h"
      using r stmt by (auto simp: live_stmt_def bind_eq_Some_conv Let_def)
    from live_loop_fin [OF c x(1) fin(1) fa] x(2) show ?thesis by (simp add: live_operands_def)
  next
    case (SProtect d b cl)
    then obtain l1 st1 l2 where x: "call st cl ?after lh = Some (l1, st1)" "call st1 b l1 lh = Some (l2, st')" "l = l2 \<union> l1"
      using r stmt by (auto simp: live_stmt_def bind_eq_Some_conv Let_def)
    from call_finD [OF c x(1) fin(1) fa fin(4)] have "finite l1" "fin_state st1" by simp_all
    with call_finD [OF c x(2) _ _ fin(4)] x(3) show ?thesis by simp
  qed (use r stmt fin fa in \<open>auto simp: live_stmt_def Let_def\<close>)
qed

lemma live_stmts_fin:
  "call_fin call \<Longrightarrow> live_stmts n call f st ss live yl lh = Some (l, st') \<Longrightarrow> fin_state st \<Longrightarrow> finite live \<Longrightarrow>
   finite yl \<Longrightarrow> finite (or_empty lh) \<Longrightarrow> finite l \<and> fin_state st'"
proof (induction ss arbitrary: st live)
  case (Cons s ss)
  from Cons.prems(2) obtain l1 st1 where r: "live_stmt n call f st s live yl lh = Some (l1, st1)"
    "live_stmts n call f st1 ss l1 yl lh = Some (l, st')" by (auto simp: bind_eq_Some_conv)
  from live_stmt_fin [OF Cons.prems(1) r(1) Cons.prems(3-6)] Cons.IH [OF Cons.prems(1) r(2)] Cons.prems show ?case by simp
qed simp

lemma live_seq_fin: "call_fin (live_seq n f)"
proof (induction n)
  case (Suc n)
  have start: "finite (term_uses t (term_start st t yl lh))" if "fin_state st" "finite yl" "finite (or_empty lh)" for t st yl lh
    using that by (cases t) (auto simp: live_operands_def fin_state_def or_empty_def split: option.splits)
  have "finite l \<and> fin_state st'"
    if r: "live_seq (Suc n) f st i yl lh = Some (l, st')" and fin: "fin_state st" "finite yl" "finite (or_empty lh)"
    for st i yl lh l st'
  proof -
    from r obtain q where "get_seq f i = Some q" by (auto simp: bind_eq_Some_conv)
    with r have "live_stmts n (live_seq n f) f st (rev (sq_stmts q)) (term_uses (sq_term q) (term_start st (sq_term q) yl lh)) yl lh
        = Some (l, st')" by simp
    from live_stmts_fin [OF Suc this fin(1) start [OF fin] fin(2,3)] show ?thesis .
  qed
  then show ?case unfolding call_fin_def by blast
qed (simp add: call_fin_def)

lemma live_on_lets_fin:
  assumes "live_on_lets n f = Some live" "live s = Some X"
  shows "finite X"
proof (cases "f_body f")
  case (Some b)
  with assms obtain l st where r: "live_seq n f \<lparr>after_label = Map.empty, live_on = Map.empty\<rparr> b {} None = Some (l, st)" "live = live_on st"
    by (auto simp: live_on_lets_def bind_eq_Some_conv)
  have "fin_state st" using call_finD [OF live_seq_fin r(1)] by (simp add: fin_state_def or_empty_def)
  with assms(2) r(2) show ?thesis by (simp add: fin_state_def)
qed (use assms in \<open>auto simp: live_on_lets_def\<close>)

lemma set_saved_vars: "finite X \<Longrightarrow> set (saved_vars m f v X) = X \<union> set (borrowed_by m f v)"
  by (simp add: saved_vars_def)

section \<open>The order of the statements\<close>

lemma those_SomeD: "those (map p xs) = Some ys \<Longrightarrow> x \<in> set xs \<Longrightarrow> \<exists>y \<in> set ys. p x = Some y"
proof (induction xs arbitrary: ys)
  case (Cons a xs)
  then obtain y zs where yz: "p a = Some y" "those (map p xs) = Some zs" "ys = y # zs"
    by (auto split: option.splits simp: map_option_case)
  with Cons show ?case by auto
qed simp

lemma those_Some_image: "those (map p xs) = Some ys \<Longrightarrow> y \<in> set ys \<Longrightarrow> \<exists>x \<in> set xs. p x = Some y"
proof (induction xs arbitrary: ys)
  case (Cons a xs)
  then obtain z zs where "p a = Some z" "those (map p xs) = Some zs" "ys = z # zs"
    by (auto split: option.splits simp: map_option_case)
  with Cons show ?case by auto
qed simp

lemma those_SomeI: "(\<And>x. x \<in> set xs \<Longrightarrow> \<exists>y. p x = Some y) \<Longrightarrow> \<exists>ys. those (map p xs) = Some ys"
proof (induction xs)
  case (Cons a xs)
  then obtain ys where "those (map p xs) = Some ys" by auto
  moreover obtain y where "p a = Some y" using Cons.prems [of a] by auto
  ultimately show ?case by simp
qed simp

lemma preorderE:
  assumes "preorder n f i = Some order"
  obtains k q where "n = Suc k" "get_seq f i = Some q"
    "\<And>s. s \<in> set (sq_stmts q) \<Longrightarrow> s \<in> set order \<and>
       (\<exists>stmt. get_stmt f s = Some stmt \<and> (\<forall>c\<in>set (children stmt). \<exists>r. preorder k f c = Some r \<and> set r \<subseteq> set order))"
proof -
  let ?p = "\<lambda>k s. do { stmt \<leftarrow> get_stmt f s; yss \<leftarrow> those (map (preorder k f) (children stmt)); Some (s # concat yss) }"
  obtain k where n: "n = Suc k" using assms by (cases n) auto
  with assms obtain q xss where q: "get_seq f i = Some q" "those (map (?p k) (sq_stmts q)) = Some xss" "order = concat xss"
    by (auto simp: bind_eq_Some_conv)
  have "s \<in> set order \<and> (\<exists>stmt. get_stmt f s = Some stmt \<and> (\<forall>c\<in>set (children stmt). \<exists>r. preorder k f c = Some r \<and> set r \<subseteq> set order))"
    if s: "s \<in> set (sq_stmts q)" for s
  proof -
    from those_SomeD [OF q(2) s] obtain xs where xs: "xs \<in> set xss" "?p k s = Some xs" by blast
    then obtain stmt yss where st: "get_stmt f s = Some stmt" "those (map (preorder k f) (children stmt)) = Some yss" "xs = s # concat yss"
      by (auto simp: bind_eq_Some_conv)
    have sub: "set xs \<subseteq> set order" using xs(1) q(3) by auto
    have "\<exists>r. preorder k f c = Some r \<and> set r \<subseteq> set order" if "c \<in> set (children stmt)" for c
      using those_SomeD [OF st(2) that] st(3) sub by fastforce
    with st sub show ?thesis by auto
  qed
  with n q(1) that show ?thesis by blast
qed

text \<open>The statements of a part of the function are in the order of the whole.\<close>

definition ordered :: "lir_fn \<Rightarrow> stmt_id set \<Rightarrow> stmt_id \<Rightarrow> bool" where
  "ordered f X s \<longleftrightarrow>
     s \<in> X \<and> (\<exists>stmt. get_stmt f s = Some stmt \<and> (\<forall>c\<in>set (children stmt). \<exists>k r. preorder k f c = Some r \<and> set r \<subseteq> X))"

definition lets :: "event list \<Rightarrow> stmt_id set" where
  "lets tr = {s. ELet s \<in> set tr}"

lemma lets_simps [simp]:
  "lets [] = {}" "lets (tr @ tr') = lets tr \<union> lets tr'" "lets (ELet s # tr) = insert s (lets tr)"
  "lets (map EOwn vs) = {}" "lets (own_events d) = {}" "lets (dst_events s d) = {}"
  "(\<And>s. e \<noteq> ELet s) \<Longrightarrow> lets (e # tr) = lets tr"
  by (cases d; auto simp: lets_def)+

lemma branches_children: "branches stmt = Some (vs, d, bs) \<Longrightarrow> children stmt = bs"
  by (cases stmt) auto

lemma ordered_child:
  assumes "ordered f X s" "get_stmt f s = Some stmt" "c \<in> set (children stmt)" "\<forall>n r. preorder n f c = Some r \<longrightarrow> A \<subseteq> set r"
  shows "A \<subseteq> X"
proof -
  from assms(1-3) obtain k r where "preorder k f c = Some r" "set r \<subseteq> X" by (auto simp: ordered_def)
  with assms(4) show ?thesis by blast
qed

lemma ordered_in: "ordered f X s \<Longrightarrow> s \<in> X"
  by (simp add: ordered_def)

lemma path_lets:
  "path_seq f i tr out \<Longrightarrow> (\<forall>n r. preorder n f i = Some r \<longrightarrow> lets tr \<subseteq> set r)"
  "path_stmts f ss t tr out \<Longrightarrow> (\<forall>X. (\<forall>s\<in>set ss. ordered f X s) \<longrightarrow> lets tr \<subseteq> X)"
  "path_stmt f s tr out' \<Longrightarrow> (\<forall>X. ordered f X s \<longrightarrow> lets tr \<subseteq> X)"
  "path_loop f vs b tr out \<Longrightarrow> (\<forall>n r. preorder n f b = Some r \<longrightarrow> lets tr \<subseteq> set r)"
proof (induction rule: path_seq_path_stmts_path_stmt_path_loop.inducts)
  case (seq i q tr out)
  show ?case
  proof (intro allI impI)
    fix n r assume "preorder n f i = Some r"
    then show "lets tr \<subseteq> set r"
    proof (rule preorderE)
      fix k q'
      assume "get_seq f i = Some q'" and *: "\<And>s. s \<in> set (sq_stmts q') \<Longrightarrow> s \<in> set r \<and>
        (\<exists>stmt. get_stmt f s = Some stmt \<and> (\<forall>c\<in>set (children stmt). \<exists>r'. preorder k f c = Some r' \<and> set r' \<subseteq> set r))"
      then have "\<forall>s\<in>set (sq_stmts q). ordered f (set r) s" using seq(1) unfolding ordered_def by (metis option.inject)
      with seq(3) show ?thesis by blast
    qed
  qed
next
  case (let_fail s d v df su e b tr out)
  with ordered_child [OF _ let_fail(1), of _ b "lets tr"] show ?case by (auto simp: opt_list_def ordered_in)
next
  case (let_defect s d v b su tr out)
  with ordered_child [OF _ let_defect(1), of _ b "lets tr"] show ?case by (auto simp: opt_list_def ordered_in)
next
  case (branch s stmt vs d bs b tr)
  with ordered_child [OF _ branch(1), of _ b "lets tr"] show ?case by (auto simp: branches_children)
next
  case (branch_out s stmt vs d bs b tr out)
  with ordered_child [OF _ branch_out(1), of _ b "lets tr"] show ?case by (auto simp: branches_children)
next
  case (block s d l b tr out)
  with ordered_child [OF _ block(1), of _ b "lets tr"] show ?case by auto
next
  case (block_out s d l b tr out)
  with ordered_child [OF _ block_out(1), of _ b "lets tr"] show ?case by auto
next
  case (loop s d vs inits b tr)
  with ordered_child [OF _ loop(1), of _ b "lets tr"] show ?case by auto
next
  case (loop_out s d vs inits b tr out)
  with ordered_child [OF _ loop_out(1), of _ b "lets tr"] show ?case by auto
qed (auto simp: ordered_in)

section \<open>Every \<open>let\<close> is recorded\<close>

definition recorded :: "lir_fn \<Rightarrow> live_state \<Rightarrow> stmt_id set \<Rightarrow> bool" where
  "recorded f st X \<longleftrightarrow> (\<forall>s\<in>X. (\<exists>d v df su. get_stmt f s = Some (SLet d v df su)) \<longrightarrow> live_on st s \<noteq> None)"

lemma recorded_mono: "recorded f st X \<Longrightarrow> dom (live_on st) \<subseteq> dom (live_on st') \<Longrightarrow> recorded f st' X"
  unfolding recorded_def by blast

definition call_records :: "live_call \<Rightarrow> lir_fn \<Rightarrow> bool" where
  "call_records call f \<longleftrightarrow>
     (\<forall>st i yl lh l st'. call st i yl lh = Some (l, st') \<longrightarrow>
        dom (live_on st) \<subseteq> dom (live_on st') \<and> (\<forall>n r. preorder n f i = Some r \<longrightarrow> recorded f st' (set r)))"

lemma call_recordsD:
  assumes "call_records call f" "call st i yl lh = Some (l, st')"
  shows "dom (live_on st) \<subseteq> dom (live_on st')" "preorder n f i = Some r \<Longrightarrow> recorded f st' (set r)"
  using assms unfolding call_records_def by blast+

definition records :: "lir_fn \<Rightarrow> live_state \<Rightarrow> live_state \<Rightarrow> seq_id list \<Rightarrow> bool" where
  "records f st st' cs \<longleftrightarrow>
     dom (live_on st) \<subseteq> dom (live_on st') \<and> (\<forall>c\<in>set cs. \<forall>n r. preorder n f c = Some r \<longrightarrow> recorded f st' (set r))"

lemma call_records_one: "call_records call f \<Longrightarrow> call st i yl lh = Some (l, st') \<Longrightarrow> records f st st' [i]"
  using call_recordsD [of call f st i yl lh l st'] by (simp add: records_def)

lemma records_refl [simp]: "records f st st []"
  by (simp add: records_def)

lemma records_append:
  assumes "records f st st1 cs" "records f st1 st2 cs'"
  shows "records f st st2 (cs @ cs')"
proof -
  have sub: "dom (live_on st1) \<subseteq> dom (live_on st2)" using assms(2) by (simp add: records_def)
  moreover have "dom (live_on st) \<subseteq> dom (live_on st1)" using assms(1) by (simp add: records_def)
  ultimately have "dom (live_on st) \<subseteq> dom (live_on st2)" by (rule order_trans [rotated])
  with assms recorded_mono [OF _ sub, of f] show ?thesis by (simp add: records_def ball_Un)
qed

lemma live_bodies_records:
  "call_records call f \<Longrightarrow> live_bodies call st bs after lh l = Some (l', st') \<Longrightarrow> records f st st' bs"
proof (induction bs arbitrary: st l)
  case (Cons b bs)
  from Cons.prems(2) obtain l1 st1 where r: "call st b after lh = Some (l1, st1)" "live_bodies call st1 bs after lh (l \<union> l1) = Some (l', st')"
    by (auto simp: bind_eq_Some_conv)
  from records_append [OF call_records_one [OF Cons.prems(1) r(1)] Cons.IH [OF Cons.prems(1) r(2)]] show ?case by simp
qed simp

lemma live_loop_records:
  "call_records call f \<Longrightarrow> live_loop n call st vs b after h = Some (h', st') \<Longrightarrow> records f st st' [b]"
proof (induction n arbitrary: st h)
  case (Suc n)
  from Suc.prems(2) obtain l1 st1 where r: "call st b after (Some h) = Some (l1, st1)"
    "(if l1 - set vs = h then Some (h, st1) else live_loop n call st1 vs b after (l1 - set vs)) = Some (h', st')"
    by (auto simp: bind_eq_Some_conv)
  note one = call_records_one [OF Suc.prems(1) r(1)]
  show ?case
  proof (cases "l1 - set vs = h")
    case True
    with r(2) one show ?thesis by simp
  next
    case False
    with r(2) Suc.IH [OF Suc.prems(1), of st1 "l1 - set vs"] have "records f st1 st' [b]" by simp
    from records_append [OF one this] show ?thesis by (simp add: records_def)
  qed
qed simp

lemma live_landings_records:
  assumes "call_records call f"
  shows "live_fail call st fl after yl lh = Some (x, st') \<Longrightarrow> records f st st' (map snd (opt_list fl))"
    and "live_defect call st df after yl lh = Some (x, st') \<Longrightarrow> records f st st' (opt_list df)"
  using call_records_one [OF assms]
  by (auto simp: live_fail_def live_defect_def bind_eq_Some_conv opt_list_def split: option.splits)

lemma live_stmt_records:
  assumes c: "call_records call f" and r: "live_stmt n call f st s after yl lh = Some (l, st')" and stmt: "get_stmt f s = Some stmt"
  shows "records f st st' (children stmt)" "stmt = SLet d v df su \<Longrightarrow> live_on st' s \<noteq> None"
proof -
  let ?after = "after - set (opt_list (stmt_dst stmt))"
  have "records f st st' (children stmt) \<and> (stmt = SLet d v df su \<longrightarrow> live_on st' s \<noteq> None)"
  proof (cases stmt)
    case (SLet d v df su)
    then obtain a1 st1 a2 st2 where x: "live_fail call st (fail_landing v) ?after yl lh = Some (a1, st1)"
      "live_defect call st1 df a1 yl lh = Some (a2, st2)" "st' = st2\<lparr>live_on := (live_on st2)(s \<mapsto> a2)\<rparr>"
      using r stmt by (auto simp: live_stmt_def bind_eq_Some_conv Let_def)
    have "records f st2 st' []" using x(3) by (auto simp: records_def)
    from records_append [OF records_append [OF live_landings_records(1) [OF c x(1)] live_landings_records(2) [OF c x(2)]] this] x(3) SLet
    show ?thesis by simp
  next
    case (SIf d cond a b)
    then obtain l1 st1 l2 where x: "call st a ?after lh = Some (l1, st1)" "call st1 b ?after lh = Some (l2, st')"
      using r stmt by (auto simp: live_stmt_def bind_eq_Some_conv Let_def)
    from records_append [OF call_records_one [OF c x(1)] call_records_one [OF c x(2)]] SIf show ?thesis by simp
  next
    case (SSwitch d on cs df)
    then obtain l1 where "live_bodies call st (map sc_body cs @ opt_list df) ?after lh {} = Some (l1, st')"
      using r stmt by (auto simp: live_stmt_def bind_eq_Some_conv Let_def)
    from live_bodies_records [OF c this] SSwitch show ?thesis by simp
  next
    case (SBlock d k b)
    then have x: "call (st\<lparr>after_label := (after_label st)(k \<mapsto> ?after)\<rparr>) b ?after lh = Some (l, st')"
      using r stmt by (auto simp: live_stmt_def bind_eq_Some_conv Let_def)
    from call_records_one [OF c x] SBlock show ?thesis by (simp add: records_def)
  next
    case (SLoop d vs inits b)
    then obtain h where x: "live_loop n call st vs b ?after {} = Some (h, st')"
      using r stmt by (auto simp: live_stmt_def bind_eq_Some_conv Let_def)
    from live_loop_records [OF c x] SLoop show ?thesis by simp
  next
    case (SProtect d b cl)
    then obtain l1 st1 l2 where x: "call st cl ?after lh = Some (l1, st1)" "call st1 b l1 lh = Some (l2, st')"
      using r stmt by (auto simp: live_stmt_def bind_eq_Some_conv Let_def)
    from records_append [OF call_records_one [OF c x(1)] call_records_one [OF c x(2)]] SProtect show ?thesis
      by (auto simp: records_def)
  qed (use r stmt in \<open>auto simp: live_stmt_def Let_def\<close>)
  then show "records f st st' (children stmt)" "stmt = SLet d v df su \<Longrightarrow> live_on st' s \<noteq> None" by simp_all
qed

lemma live_stmts_records:
  assumes c: "call_records call f"
  shows "live_stmts n call f st ss live yl lh = Some (l, st') \<Longrightarrow>
    dom (live_on st) \<subseteq> dom (live_on st')
    \<and> (\<forall>s\<in>set ss. \<forall>stmt. get_stmt f s = Some stmt \<longrightarrow> recorded f st' {s} \<and> records f st st' (children stmt))"
proof (induction ss arbitrary: st live)
  case (Cons s ss)
  from Cons.prems obtain l1 st1 where r: "live_stmt n call f st s live yl lh = Some (l1, st1)"
    "live_stmts n call f st1 ss l1 yl lh = Some (l, st')" by (auto simp: bind_eq_Some_conv)
  obtain stmt where stmt: "get_stmt f s = Some stmt" using r(1) by (auto simp: live_stmt_def bind_eq_Some_conv)
  note one = live_stmt_records [OF c r(1) stmt] and rest = Cons.IH [OF r(2)]
  have doms: "dom (live_on st) \<subseteq> dom (live_on st1)" using one(1) by (simp add: records_def)
  have here: "recorded f st1 {s}" using one(2) stmt by (auto simp: recorded_def)
  have "records f st1 st' []" using rest by (simp add: records_def)
  from records_append [OF one(1) this] have cs: "records f st st' (children stmt)" by simp
  have later: "records f st st' (children stmt')" if "s' \<in> set ss" "get_stmt f s' = Some stmt'" for s' stmt'
    using rest that doms unfolding records_def by (meson order_trans)
  have "dom (live_on st) \<subseteq> dom (live_on st')" using rest doms by (meson order_trans)
  then show ?case using rest recorded_mono [OF here] cs later stmt by simp
qed simp

lemma live_seq_records: "call_records (live_seq k f) f"
proof (induction k)
  case (Suc k)
  have "dom (live_on st) \<subseteq> dom (live_on st') \<and> (\<forall>n r. preorder n f i = Some r \<longrightarrow> recorded f st' (set r))"
    if run: "live_seq (Suc k) f st i yl lh = Some (l, st')" for st i yl lh l st'
  proof -
    from run obtain q where q: "get_seq f i = Some q" by (auto simp: bind_eq_Some_conv)
    with run have "live_stmts k (live_seq k f) f st (rev (sq_stmts q)) (term_uses (sq_term q) (term_start st (sq_term q) yl lh)) yl lh
        = Some (l, st')" by simp
    from live_stmts_records [OF Suc this] have doms: "dom (live_on st) \<subseteq> dom (live_on st')"
      and all: "\<And>s stmt. s \<in> set (sq_stmts q) \<Longrightarrow> get_stmt f s = Some stmt \<Longrightarrow> recorded f st' {s} \<and> records f st st' (children stmt)"
      by auto
    have "recorded f st' (set r)" if r: "preorder (Suc n) f i = Some r" for n r
    proof -
      let ?p = "\<lambda>s. do { stmt \<leftarrow> get_stmt f s; yss \<leftarrow> those (map (preorder n f) (children stmt)); Some (s # concat yss) }"
      from r q obtain xss where xss: "those (map ?p (sq_stmts q)) = Some xss" "r = concat xss" by (auto simp: bind_eq_Some_conv)
      have "recorded f st' (set xs)" if "s \<in> set (sq_stmts q)" "?p s = Some xs" for s xs
      proof -
        from that(2) obtain stmt yss where st: "get_stmt f s = Some stmt" "those (map (preorder n f) (children stmt)) = Some yss"
          "xs = s # concat yss" by (auto simp: bind_eq_Some_conv)
        have "recorded f st' (set ys)" if "ys \<in> set yss" for ys
          using those_Some_image [OF st(2) that] all [OF \<open>s \<in> set (sq_stmts q)\<close> st(1)] by (auto simp: records_def)
        with all [OF that(1) st(1)] st(3) show ?thesis by (auto simp: recorded_def)
      qed
      with those_Some_image [OF xss(1)] xss(2) show ?thesis unfolding recorded_def by fastforce
    qed
    then have "recorded f st' (set r)" if "preorder n f i = Some r" for n r using that by (cases n) auto
    with doms show ?thesis by blast
  qed
  then show ?case unfolding call_records_def by blast
qed (simp add: call_records_def)

lemma live_on_lets_records:
  assumes "live_on_lets n f = Some live" "f_body f = Some b" "preorder k f b = Some r" "s \<in> set r" "get_stmt f s = Some (SLet d v df su)"
  shows "live s \<noteq> None"
proof -
  obtain l st where x: "live_seq n f \<lparr>after_label = Map.empty, live_on = Map.empty\<rparr> b {} None = Some (l, st)" "live = live_on st"
    using assms(1,2) by (auto simp: live_on_lets_def bind_eq_Some_conv)
  from call_recordsD(2) [OF live_seq_records x(1) assms(3)] assms(4,5) x(2) show ?thesis by (auto simp: recorded_def)
qed

section \<open>The order of a tree\<close>

lemma all_disj_concat:
  assumes "all_disj P xs S" "those (map p xs) = Some ys"
    and "\<And>x A y. x \<in> set xs \<Longrightarrow> P x A \<Longrightarrow> p x = Some y \<Longrightarrow> set y = A \<and> distinct y"
  shows "set (concat ys) = S \<and> distinct (concat ys)"
  using assms
proof (induction xs arbitrary: S ys)
  case (Cons x xs)
  from Cons.prems(1) obtain A B where AB: "P x A" "all_disj P xs B" "A \<inter> B = {}" "S = A \<union> B" by auto
  from Cons.prems(2) obtain y zs where yz: "p x = Some y" "those (map p xs) = Some zs" "ys = y # zs"
    by (auto split: option.splits simp: map_option_case)
  have "set y = A \<and> distinct y" using Cons.prems(3) [of x] AB(1) yz(1) by simp
  moreover have "set (concat zs) = B \<and> distinct (concat zs)" by (rule Cons.IH [OF AB(2) yz(2)], rule Cons.prems(3)) simp_all
  ultimately show ?case using AB(3,4) yz(3) by auto
qed simp

lemma tree_preorder: "tree_seq f L i S \<Longrightarrow> preorder n f i = Some r \<Longrightarrow> set r = S \<and> distinct r"
proof (induction arbitrary: n r rule: tree_seq.induct)
  case (1 i q L S)
  obtain k where n: "n = Suc k" using 1(4) by (cases n) auto
  let ?p = "\<lambda>s. do { stmt \<leftarrow> get_stmt f s; yss \<leftarrow> those (map (preorder k f) (children stmt)); Some (s # concat yss) }"
  from 1(1,4) n obtain xss where xss: "those (map ?p (sq_stmts q)) = Some xss" "r = concat xss" by (auto simp: bind_eq_Some_conv)
  have key: "set xs = A \<and> distinct xs"
    if t: "tree_stmt (\<lambda>L i S. tree_seq f L i S \<and> (\<forall>n r. preorder n f i = Some r \<longrightarrow> set r = S \<and> distinct r)) f L s A"
      and xs: "?p s = Some xs" for s A xs
  proof (rule tree_stmtE [OF t])
    fix stmt S'
    assume st: "get_stmt f s = Some stmt" "s \<notin> S'" "A = insert s S'"
      and cs: "all_disj (\<lambda>i S. tree_seq f (L \<union> stmt_labels stmt) i S \<and> (\<forall>n r. preorder n f i = Some r \<longrightarrow> set r = S \<and> distinct r))
        (children stmt) S'"
    from xs st(1) obtain yss where yss: "those (map (preorder k f) (children stmt)) = Some yss" "xs = s # concat yss"
      by (auto simp: bind_eq_Some_conv)
    have "set (concat yss) = S' \<and> distinct (concat yss)" by (rule all_disj_concat [OF cs yss(1)], drule conjunct2, drule spec, drule spec, erule mp)
    with st yss(2) show ?thesis by auto
  qed
  show ?case unfolding xss(2) by (rule all_disj_concat [OF 1(3) xss(1)], rule key)
qed

lemma tree_preorder_returns: "tree_seq f L i S \<Longrightarrow> eventually (\<lambda>n. \<exists>r. preorder n f i = Some r) sequentially"
proof (induction rule: tree_seq.induct)
  case (1 i q L S)
  have "eventually (\<lambda>n. \<exists>stmt. get_stmt f s = Some stmt \<and> (\<forall>c\<in>set (children stmt). \<exists>r. preorder n f c = Some r)) sequentially"
    if s: "s \<in> set (sq_stmts q)" for s
  proof -
    from all_disj_in [OF 1(3) s] obtain A
      where "tree_stmt (\<lambda>L i S. tree_seq f L i S \<and> eventually (\<lambda>n. \<exists>r. preorder n f i = Some r) sequentially) f L s A" by blast
    then obtain stmt S' where st: "get_stmt f s = Some stmt"
      "all_disj (\<lambda>i S. tree_seq f (L \<union> stmt_labels stmt) i S \<and> eventually (\<lambda>n. \<exists>r. preorder n f i = Some r) sequentially) (children stmt) S'"
      by (rule tree_stmtE) blast
    have "eventually (\<lambda>n. \<exists>r. preorder n f c = Some r) sequentially" if "c \<in> set (children stmt)" for c
      using all_disj_in [OF st(2) that] by blast
    then have "eventually (\<lambda>n. \<forall>c\<in>set (children stmt). \<exists>r. preorder n f c = Some r) sequentially"
      by (intro eventually_ball_finite) auto
    with st(1) show ?thesis by simp
  qed
  then have "eventually (\<lambda>n. \<forall>s\<in>set (sq_stmts q). \<exists>stmt. get_stmt f s = Some stmt \<and>
      (\<forall>c\<in>set (children stmt). \<exists>r. preorder n f c = Some r)) sequentially"
    by (intro eventually_ball_finite) auto
  then have "eventually (\<lambda>n. \<exists>r. preorder (Suc n) f i = Some r) sequentially"
  proof (rule eventually_mono)
    fix n
    let ?p = "\<lambda>s. do { stmt \<leftarrow> get_stmt f s; yss \<leftarrow> those (map (preorder n f) (children stmt)); Some (s # concat yss) }"
    assume all: "\<forall>s\<in>set (sq_stmts q). \<exists>stmt. get_stmt f s = Some stmt \<and> (\<forall>c\<in>set (children stmt). \<exists>r. preorder n f c = Some r)"
    have "\<exists>xs. ?p s = Some xs" if s: "s \<in> set (sq_stmts q)" for s
    proof -
      from all s obtain stmt where st: "get_stmt f s = Some stmt" "\<forall>c\<in>set (children stmt). \<exists>r. preorder n f c = Some r" by blast
      then obtain yss where "those (map (preorder n f) (children stmt)) = Some yss" using those_SomeI [of "children stmt" "preorder n f"] by blast
      with st(1) show ?thesis by simp
    qed
    then obtain xss where "those (map ?p (sq_stmts q)) = Some xss" using those_SomeI [of "sq_stmts q" ?p] by blast
    with 1(1) show "\<exists>r. preorder (Suc n) f i = Some r" by simp
  qed
  then show ?case by (rule eventually_sequentially_Suc [where P = "\<lambda>n. \<exists>r. preorder n f i = Some r", THEN iffD1])
qed

section \<open>The edges\<close>

definition edge_at :: "lir_fn \<Rightarrow> stmt_id \<Rightarrow> suspend option" where
  "edge_at f s = (case get_stmt f s of Some (SLet d v df su) \<Rightarrow> su | _ \<Rightarrow> None)"

lemma same_update:
  assumes "get_stmt f s = Some (SLet d v df su)"
  shows "same_but_edges f (f\<lparr>f_stmts := (f_stmts f)[s := SLet d v df su']\<rparr>)"
    and "get_stmt (f\<lparr>f_stmts := (f_stmts f)[s := SLet d v df su']\<rparr>) t = (if t = s then Some (SLet d v df su') else get_stmt f t)"
proof -
  have s: "s < length (f_stmts f)" "f_stmts f ! s = SLet d v df su" using assms by (auto simp: get_stmt_def split: if_splits)
  then have "map no_edge ((f_stmts f)[s := SLet d v df su']) = map no_edge (f_stmts f)"
    by (intro nth_equalityI) (auto simp: nth_list_update)
  then show "same_but_edges f (f\<lparr>f_stmts := (f_stmts f)[s := SLet d v df su']\<rparr>)" by (simp add: same_but_edges_def)
  show "get_stmt (f\<lparr>f_stmts := (f_stmts f)[s := SLet d v df su']\<rparr>) t = (if t = s then Some (SLet d v df su') else get_stmt f t)"
    using s by (auto simp: get_stmt_def)
qed

lemma mark_loop_spec:
  assumes "mark_loop m live ss k f = Some g" "distinct ss"
  shows "same_but_edges f g"
    and "s \<notin> set ss \<Longrightarrow> get_stmt g s = get_stmt f s"
    and "s \<in> set ss \<Longrightarrow> get_stmt f s = Some (SLet d v df su) \<Longrightarrow> \<not> may_suspend v \<Longrightarrow> get_stmt g s = get_stmt f s"
    and "s \<in> set ss \<Longrightarrow> get_stmt f s = Some (SLet d v df su) \<Longrightarrow> may_suspend v \<Longrightarrow>
      \<exists>x j. k \<le> j \<and> live s = Some x \<and> get_stmt g s = Some (SLet d v df (Some \<lparr>su_state = j, su_saved = saved_vars m f v x\<rparr>))"
proof -
  have "same_but_edges f g \<and> (\<forall>s. s \<notin> set ss \<longrightarrow> get_stmt g s = get_stmt f s)
    \<and> (\<forall>s\<in>set ss. \<forall>d v df su. get_stmt f s = Some (SLet d v df su) \<longrightarrow>
        (\<not> may_suspend v \<longrightarrow> get_stmt g s = get_stmt f s)
        \<and> (may_suspend v \<longrightarrow> (\<exists>x j. k \<le> j \<and> live s = Some x
             \<and> get_stmt g s = Some (SLet d v df (Some \<lparr>su_state = j, su_saved = saved_vars m f v x\<rparr>)))))"
    using assms
  proof (induction ss arbitrary: k f)
    case (Cons t ss)
    show ?case
    proof (cases "\<exists>d v df su. get_stmt f t = Some (SLet d v df su) \<and> may_suspend v")
      case True
      then obtain d v df su where t: "get_stmt f t = Some (SLet d v df su)" "may_suspend v" by blast
      then obtain x where x: "live t = Some x" using Cons.prems(1) by (auto split: option.splits)
      let ?f = "f\<lparr>f_stmts := (f_stmts f)[t := SLet d v df (Some \<lparr>su_state = k, su_saved = saved_vars m f v x\<rparr>)]\<rparr>"
      have run: "mark_loop m live ss (Suc k) ?f = Some g" using Cons.prems(1) t x by simp
      note up = same_update [OF t(1), where su' = "Some \<lparr>su_state = k, su_saved = saved_vars m f v x\<rparr>"]
      note IH = Cons.IH [OF run] and sv = same_saved_vars [OF up(1), of m]
      have d: "distinct ss" "t \<notin> set ss" using Cons.prems(2) by simp_all
      have "\<exists>x j. k \<le> j \<and> live s = Some x \<and> get_stmt g s = Some (SLet d' v' df' (Some \<lparr>su_state = j, su_saved = saved_vars m f v' x\<rparr>))"
        if "s \<in> set (t # ss)" "get_stmt f s = Some (SLet d' v' df' su')" "may_suspend v'" for s d' v' df' su'
      proof (cases "s = t")
        case True
        with IH d up(2) t that x show ?thesis by auto
      next
        case False
        have s: "s \<in> set ss" "get_stmt ?f s = Some (SLet d' v' df' su')" using that(1,2) False up(2) [of s] by simp_all
        have "\<exists>x j. Suc k \<le> j \<and> live s = Some x
            \<and> get_stmt g s = Some (SLet d' v' df' (Some \<lparr>su_state = j, su_saved = saved_vars m ?f v' x\<rparr>))"
          using IH [OF d(1)] s that(3) by blast
        then obtain x j where "Suc k \<le> j" "live s = Some x"
          "get_stmt g s = Some (SLet d' v' df' (Some \<lparr>su_state = j, su_saved = saved_vars m f v' x\<rparr>))" unfolding sv by blast
        then show ?thesis by (intro exI [of _ x] exI [of _ j]) simp
      qed
      moreover have "get_stmt g s = get_stmt f s" if "s \<notin> set (t # ss)" for s using IH d up(2) [of s] that by auto
      moreover have "get_stmt g s = get_stmt f s"
        if p: "s \<in> set (t # ss)" "get_stmt f s = Some (SLet d' v' df' su')" "\<not> may_suspend v'" for s d' v' df' su'
      proof -
        have "s \<noteq> t" using p(2,3) t by auto
        then have s: "s \<in> set ss" "get_stmt ?f s = Some (SLet d' v' df' su')" using p(1,2) up(2) [of s] by simp_all
        then have "get_stmt g s = get_stmt ?f s" using IH [OF d(1)] p(3) by blast
        with s(2) p(2) show ?thesis by simp
      qed
      ultimately show ?thesis using same_trans [OF up(1)] IH d by blast
    next
      case False
      have "mark_loop m live ss k f = Some g"
        using Cons.prems(1) False by (auto split: option.splits lir_stmt.splits if_splits)
      note IH = Cons.IH [OF this]
      have "distinct ss" "t \<notin> set ss" using Cons.prems(2) by simp_all
      with IH False show ?thesis by auto
    qed
  qed simp
  then show "same_but_edges f g"
    and "s \<notin> set ss \<Longrightarrow> get_stmt g s = get_stmt f s"
    and "s \<in> set ss \<Longrightarrow> get_stmt f s = Some (SLet d v df su) \<Longrightarrow> \<not> may_suspend v \<Longrightarrow> get_stmt g s = get_stmt f s"
    and "s \<in> set ss \<Longrightarrow> get_stmt f s = Some (SLet d v df su) \<Longrightarrow> may_suspend v \<Longrightarrow>
      \<exists>x j. k \<le> j \<and> live s = Some x \<and> get_stmt g s = Some (SLet d v df (Some \<lparr>su_state = j, su_saved = saved_vars m f v x\<rparr>))"
    by blast+
qed

lemma mark_loop_states:
  assumes "mark_loop m live ss k f = Some g" "distinct ss"
    and "s \<in> set ss" "get_stmt f s = Some (SLet d v df su)" "may_suspend v" "edge_at g s = Some e"
    and "s' \<in> set ss" "get_stmt f s' = Some (SLet d' v' df' su')" "may_suspend v'" "edge_at g s' = Some e'"
    and "su_state e = su_state e'"
  shows "s = s'"
  using assms
proof (induction ss arbitrary: k f su su')
  case (Cons t ss)
  have d: "distinct ss" "t \<notin> set ss" using Cons.prems(2) by simp_all
  show ?case
  proof (cases "\<exists>d v df su. get_stmt f t = Some (SLet d v df su) \<and> may_suspend v")
    case True
    then obtain dt vt dft sut where t: "get_stmt f t = Some (SLet dt vt dft sut)" "may_suspend vt" by blast
    then obtain x where x: "live t = Some x" using Cons.prems(1) by (auto split: option.splits)
    let ?e = "\<lparr>su_state = k, su_saved = saved_vars m f vt x\<rparr>"
    let ?f = "f\<lparr>f_stmts := (f_stmts f)[t := SLet dt vt dft (Some ?e)]\<rparr>"
    have run: "mark_loop m live ss (Suc k) ?f = Some g" using Cons.prems(1) t x by simp
    note up = same_update(2) [OF t(1), where su' = "Some ?e"]
    have head: "edge_at g t = Some ?e" using mark_loop_spec(2) [OF run d] up [of t] by (simp add: edge_at_def)
    have tail: "Suc k \<le> su_state r"
      if "u \<in> set ss" "get_stmt f u = Some (SLet a b c h)" "may_suspend b" "edge_at g u = Some r" for u a b c h r
    proof -
      have "get_stmt ?f u = Some (SLet a b c h)" using that(1,2) d(2) up [of u] by auto
      from mark_loop_spec(4) [OF run d(1) that(1) this that(3)] that(4) show ?thesis by (auto simp: edge_at_def)
    qed
    show ?thesis
    proof (cases "s = t \<or> s' = t")
      case True
      then show ?thesis
        using head Cons.prems(3-11) tail [of s d v df su e] tail [of s' d' v' df' su' e'] by auto
    next
      case False
      have "get_stmt ?f s = Some (SLet d v df su)" "get_stmt ?f s' = Some (SLet d' v' df' su')"
        using up [of s] up [of s'] False Cons.prems(4,8) by simp_all
      with Cons.IH [OF run d(1)] Cons.prems False show ?thesis by auto
    qed
  next
    case False
    have run: "mark_loop m live ss k f = Some g"
      using Cons.prems(1) False by (auto split: option.splits lir_stmt.splits if_splits)
    have "s \<noteq> t" "s' \<noteq> t" using False Cons.prems(4,5,8,9) by auto
    with Cons.IH [OF run d(1)] Cons.prems show ?thesis by auto
  qed
qed simp

lemma mark_loop_returns:
  assumes "\<And>s. s \<in> set ss \<Longrightarrow> s < length (f_stmts f)"
    and "\<And>s d v df su. s \<in> set ss \<Longrightarrow> get_stmt f s = Some (SLet d v df su) \<Longrightarrow> live s \<noteq> None" "distinct ss"
  shows "\<exists>g. mark_loop m live ss k f = Some g"
  using assms
proof (induction ss arbitrary: k f)
  case (Cons t ss)
  have t: "t < length (f_stmts f)" "distinct ss" "t \<notin> set ss" using Cons.prems by simp_all
  then obtain stmt where stmt: "get_stmt f t = Some stmt" by (simp add: get_stmt_def)
  have skip: "\<exists>g. mark_loop m live ss k f = Some g" for k
    by (rule Cons.IH) (use Cons.prems in auto)
  show ?case
  proof (cases "\<exists>d v df su. stmt = SLet d v df su \<and> may_suspend v")
    case True
    then obtain d v df su where st: "stmt = SLet d v df su" "may_suspend v" by blast
    with stmt Cons.prems(2) [of t] obtain x where x: "live t = Some x" by auto
    let ?f = "f\<lparr>f_stmts := (f_stmts f)[t := SLet d v df (Some \<lparr>su_state = k, su_saved = saved_vars m f v x\<rparr>)]\<rparr>"
    have up: "get_stmt ?f s = get_stmt f s" if "s \<in> set ss" for s
      using same_update(2) [OF stmt [unfolded st(1)], of _ s] that t(3) by auto
    have "\<exists>g. mark_loop m live ss (Suc k) ?f = Some g"
      by (rule Cons.IH) (use Cons.prems t up in auto)
    with stmt st x show ?thesis by simp
  next
    case False
    with stmt skip show ?thesis by (cases stmt) auto
  qed
qed simp

lemma preorder_in_range: "preorder n f i = Some r \<Longrightarrow> s \<in> set r \<Longrightarrow> s < length (f_stmts f)"
proof (induction n arbitrary: i r)
  case (Suc n)
  let ?p = "\<lambda>s. do { stmt \<leftarrow> get_stmt f s; yss \<leftarrow> those (map (preorder n f) (children stmt)); Some (s # concat yss) }"
  from Suc.prems(1) obtain q where "get_seq f i = Some q" by (auto simp: bind_eq_Some_conv)
  with Suc.prems(1) obtain xss where q: "those (map ?p (sq_stmts q)) = Some xss" "r = concat xss" by (auto simp: bind_eq_Some_conv)
  with Suc.prems(2) obtain xs where xs: "xs \<in> set xss" "s \<in> set xs" by auto
  from those_Some_image [OF q(1) xs(1)] obtain t where "?p t = Some xs" by blast
  then obtain stmt yss where st: "get_stmt f t = Some stmt" "those (map (preorder n f) (children stmt)) = Some yss" "xs = t # concat yss"
    by (auto simp: bind_eq_Some_conv)
  show ?case
  proof (cases "s = t")
    case True
    with st(1) show ?thesis by (auto simp: get_stmt_def split: if_splits)
  next
    case False
    with st(3) xs(2) obtain ys where ys: "ys \<in> set yss" "s \<in> set ys" by auto
    from those_Some_image [OF st(2) ys(1)] obtain c where "preorder n f c = Some ys" by blast
    from Suc.IH [OF this ys(2)] show ?thesis .
  qed
qed simp

lemma same_preorder:
  assumes "same_but_edges f g"
  shows "preorder n g i = preorder n f i"
proof (induction n arbitrary: i)
  case (Suc n)
  have "preorder n g = preorder n f" by (intro ext) (rule Suc.IH)
  moreover have "do { stmt \<leftarrow> get_stmt g s; yss \<leftarrow> those (map p (children stmt)); Some (s # concat yss) }
      = do { stmt \<leftarrow> get_stmt f s; yss \<leftarrow> those (map p (children stmt)); Some (s # concat yss) }" for s p
  proof (cases "get_stmt f s")
    case None
    with same_get_stmt [OF assms, of s] show ?thesis by simp
  next
    case (Some stmt)
    then obtain stmt' where "get_stmt g s = Some stmt'" "children stmt' = children stmt" by (rule same_children [OF assms])
    with Some show ?thesis by simp
  qed
  ultimately show ?case by (simp only: preorder.simps same_get_seq [OF assms])
qed simp

section \<open>Theorems\<close>

lemma edge_errors_empty:
  assumes "saved_errors n m f = Some []" "live_on_lets n f = Some live"
    and "get_stmt f s = Some (SLet d v df (Some e))" "live s = Some x"
  shows "set (saved_vars m f v x) \<subseteq> set (su_saved e)"
proof -
  have "s < length (f_stmts f)" using assms(3) by (auto simp: get_stmt_def split: if_splits)
  then have "edge_errors m f live s = []" using assms(1,2) by (auto simp: saved_errors_def)
  then show ?thesis using assms(3,4) by (auto simp: edge_errors_def filter_empty_conv)
qed

text \<open>
  C14: a function the verifier finds no missing saved variable in loses nothing when it is suspended:
  on every path through a \<open>let\<close> with a suspension edge, the edge saves all that is used after the
  value before it is defined again, in the rest of the function and in the landings, and the
  references the value borrows.
\<close>

theorem saved_errors_sound:
  assumes "tree_fn f" "saved_errors n m f = Some []" "fn_path f (pre @ ELet s # post) out"
    and "get_stmt f s = Some (SLet d v df (Some e))"
  shows "needed f post {} \<union> set (borrowed_by m f v) \<subseteq> set (su_saved e)"
proof -
  obtain live where live: "live_on_lets n f = Some live" using assms(2) by (auto simp: saved_errors_def bind_eq_Some_conv)
  obtain x where x: "live s = Some x" "needed f post {} \<subseteq> x" using live_on_lets_covers [OF assms(1) live assms(3)] by blast
  have "set (saved_vars m f v x) = x \<union> set (borrowed_by m f v)" using set_saved_vars [OF live_on_lets_fin [OF live x(1)]] .
  with edge_errors_empty [OF assms(2) live assms(4) x(1)] x(2) show ?thesis by blast
qed

lemma mark_runs:
  assumes "tree_fn f"
  obtains N where "\<And>n. N \<le> n \<Longrightarrow> \<exists>g. mark n m f = Some g"
proof -
  obtain b S where b: "f_body f = Some b" "tree_seq f {} b S" using assms by (auto simp: tree_fn_def)
  obtain N1 live where live: "\<And>n. N1 \<le> n \<Longrightarrow> live_on_lets n f = Some live" using live_on_lets_stable [OF assms] by blast
  obtain N2 where ord: "\<And>n. N2 \<le> n \<Longrightarrow> \<exists>r. preorder n f b = Some r"
    using tree_preorder_returns [OF b(2)] by (auto simp: eventually_sequentially)
  have "\<exists>g. mark n m f = Some g" if n: "max N1 N2 \<le> n" for n
  proof -
    obtain r where r: "preorder n f b = Some r" using ord n by auto
    have "\<exists>g. mark_loop m live r 0 f = Some g"
    proof (rule mark_loop_returns)
      show "distinct r" using tree_preorder [OF b(2) r] by simp
      show "live s \<noteq> None" if "s \<in> set r" "get_stmt f s = Some (SLet d v df su)" for s d v df su
        using live_on_lets_records [OF live [of n] b(1) r that] n by simp
      show "s < length (f_stmts f)" if "s \<in> set r" for s
        using preorder_in_range [OF r that] .
    qed
    with live [of n] n b(1) r show ?thesis by (simp add: mark_def)
  qed
  with that show ?thesis by blast
qed

text \<open>
  The edges of a function: exactly the values that may suspend have one, wherever a path comes, and
  no two have the same state.
\<close>

definition edged :: "lir_fn \<Rightarrow> bool" where
  "edged g \<longleftrightarrow>
     (\<forall>pre s post out d v df su. fn_path g (pre @ ELet s # post) out \<longrightarrow> get_stmt g s = Some (SLet d v df su) \<longrightarrow>
        (su \<noteq> None \<longleftrightarrow> may_suspend v))
     \<and> (\<forall>s s' e e'. edge_at g s = Some e \<longrightarrow> edge_at g s' = Some e' \<longrightarrow> su_state e = su_state e' \<longrightarrow> s = s')"

lemma mark_edges:
  assumes "tree_fn f" "\<And>s. edge_at f s = None" "mark n m f = Some g"
  shows "same_but_edges f g \<and> saved_errors n m g = Some [] \<and> edged g"
proof -
  obtain b S where b: "f_body f = Some b" "tree_seq f {} b S" using assms(1) by (auto simp: tree_fn_def)
  obtain live r where run: "live_on_lets n f = Some live" "preorder n f b = Some r" "mark_loop m live r 0 f = Some g"
    using assms(3) b(1) by (auto simp: mark_def bind_eq_Some_conv)
  have dist: "distinct r" using tree_preorder [OF b(2) run(2)] by simp
  note spec = mark_loop_spec [OF run(3) dist]
  have unedged: "su = None" if "get_stmt f s = Some (SLet d v df su)" for s d v df su
    using assms(2) [of s] that by (simp add: edge_at_def)
  have edge: "s \<in> set r \<and> (\<exists>su'. get_stmt f s = Some (SLet d v df su')) \<and> may_suspend v
      \<and> (\<exists>x. live s = Some x \<and> su_saved e = saved_vars m f v x)"
    if g: "get_stmt g s = Some (SLet d v df (Some e))" for s d v df e
  proof -
    obtain su' where f: "get_stmt f s = Some (SLet d v df su')" using same_let [OF same_sym [OF spec(1)] g] .
    with unedged have "su' = None" by blast
    with g f spec(2,3) [of s] have "s \<in> set r" "may_suspend v" by fastforce+
    with f g spec(4) [OF this(1) f this(2)] show ?thesis by auto
  qed
  have "edge_errors m g live s = []" for s
  proof (cases "edge_at g s")
    case (Some e)
    then obtain d v df where g: "get_stmt g s = Some (SLet d v df (Some e))"
      by (auto simp: edge_at_def split: option.splits lir_stmt.splits)
    with edge [OF g] same_saved_vars [OF spec(1), of m] show ?thesis
      by (auto simp: edge_errors_def filter_empty_conv)
  qed (auto simp: edge_errors_def edge_at_def split: option.splits lir_stmt.splits)
  then have "saved_errors n m g = Some []"
    using run(1) same_live [OF spec(1), of n] by (simp add: saved_errors_def comp_def)
  moreover have "su \<noteq> None \<longleftrightarrow> may_suspend v"
    if p: "fn_path g (pre @ ELet s # post) out" "get_stmt g s = Some (SLet d v df su)" for pre s post out d v df su
  proof
    show "may_suspend v" if "su \<noteq> None" using edge [of s d v df] p(2) that by auto
    assume v: "may_suspend v"
    have "preorder n g b = Some r" using run(2) same_preorder [OF spec(1)] by simp
    moreover have "path_seq g b (pre @ ELet s # post) out" using p(1) b(1) same_fields(1) [OF spec(1)] by (simp add: fn_path_def)
    ultimately have "s \<in> set r" using path_lets(1) [of g b "pre @ ELet s # post" out] by auto
    moreover obtain su' where "get_stmt f s = Some (SLet d v df su')" using same_let [OF same_sym [OF spec(1)] p(2)] .
    ultimately show "su \<noteq> None" using spec(4) [of s d v df su'] v p(2) by auto
  qed
  moreover have "s = s'" if e: "edge_at g s = Some e" "edge_at g s' = Some e'" "su_state e = su_state e'" for s s' e e'
  proof -
    obtain d v df where g: "get_stmt g s = Some (SLet d v df (Some e))"
      using e(1) by (auto simp: edge_at_def split: option.splits lir_stmt.splits)
    obtain d' v' df' where g': "get_stmt g s' = Some (SLet d' v' df' (Some e'))"
      using e(2) by (auto simp: edge_at_def split: option.splits lir_stmt.splits)
    from edge [OF g] edge [OF g'] mark_loop_states [OF run(3) dist] e show ?thesis by metis
  qed
  ultimately show ?thesis using spec(1) unfolding edged_def by blast
qed


section \<open>An example\<close>

text \<open>The loop of the liveness example, whose call may suspend, before and after the pass.\<close>

definition toy_module :: lir_module where
  "toy_module = module_new \<lparr>core_enums = [], core_effects = [], core_types = \<lparr>types = [], param_flags = [], ids = Map.empty\<rparr>\<rparr>"

definition toy_suspend :: lir_fn where
  "toy_suspend = toy_live\<lparr>f_stmts := (f_stmts toy_live)
     [1 := SLet (Some 2) (VCall (Direct 0) [OVar 3] True None) None (Some \<lparr>su_state = 0, su_saved = [1]\<rparr>)]\<rparr>"

lemma toy_no_edges: "edge_at toy_live s = None"
proof -
  consider "s = 0" | "s = 1" | "s = 2" | "2 < s" by linarith
  then show ?thesis by cases (simp_all add: edge_at_def toy_live_eval, simp add: get_stmt_def toy_live_def)
qed

lemma toy_suspend_same: "same_but_edges toy_live toy_suspend"
  and toy_suspend_stmts: "get_stmt toy_suspend t =
    (if t = 1 then Some (SLet (Some 2) (VCall (Direct 0) [OVar 3] True None) None (Some \<lparr>su_state = 0, su_saved = [1]\<rparr>))
     else get_stmt toy_live t)"
  unfolding toy_suspend_def by (rule same_update [OF toy_live_seqs(6)])+

text \<open>A path without edges is one with them.\<close>

lemma same_path:
  assumes "same_but_edges f g" "\<And>s. edge_at f s = None"
  shows "path_seq f i tr out \<Longrightarrow> path_seq g i tr out"
    "path_stmts f ss t tr out \<Longrightarrow> path_stmts g ss t tr out"
    "path_stmt f s tr out' \<Longrightarrow> path_stmt g s tr out'"
    "path_loop f vs b tr out \<Longrightarrow> path_loop g vs b tr out"
proof (induction rule: path_seq_path_stmts_path_stmt_path_loop.inducts)
  case (let_ok s d v df su)
  then obtain su' where "get_stmt g s = Some (SLet d v df su')" by (rule same_let [OF assms(1)])
  then show ?case by (rule path_seq_path_stmts_path_stmt_path_loop.let_ok)
next
  case (let_fail s d v df su e b tr out)
  obtain su' where "get_stmt g s = Some (SLet d v df su')" using let_fail(1) by (rule same_let [OF assms(1)])
  from path_seq_path_stmts_path_stmt_path_loop.let_fail [OF this let_fail(4,3,5)] show ?case .
next
  case (let_defect s d v b su tr out)
  obtain su' where "get_stmt g s = Some (SLet d v (Some b) su')" using let_defect(1) by (rule same_let [OF assms(1)])
  from path_seq_path_stmts_path_stmt_path_loop.let_defect [OF this let_defect(3,4)] show ?case .
next
  case (let_suspend s d v df su)
  with assms(2) [of s] show ?case by (simp add: edge_at_def)
next
  case (branch s stmt vs d bs b tr)
  have "get_stmt g s = Some stmt" by (rule same_other [OF assms(1) branch(1)]) (use branch(4) in auto)
  from path_seq_path_stmts_path_stmt_path_loop.branch [OF this branch(4,5,3)] show ?case .
next
  case (branch_out s stmt vs d bs b tr out)
  have "get_stmt g s = Some stmt" by (rule same_other [OF assms(1) branch_out(1)]) (use branch_out(4) in auto)
  from path_seq_path_stmts_path_stmt_path_loop.branch_out [OF this branch_out(4,5,3,6)] show ?case .
qed (auto intro: path_seq_path_stmts_path_stmt_path_loop.intros simp: same_get_seq [OF assms(1)] same_other [OF assms(1)])

lemma toy_live_value: "live_on_lets (Suc (Suc (Suc (Suc 0)))) toy_live = Some [1 \<mapsto> {1}]"
  by (simp add: live_on_lets_def toy_live_eval live_stmt_def live_fail_def live_defect_def live_operands_def
      ops_vars_def opt_list_def or_empty_def Let_def fun_upd_def fun_eq_iff)

lemma toy_suspend_verified: "saved_errors (Suc (Suc (Suc (Suc 0)))) toy_module toy_suspend = Some []"
proof -
  have "borrowed_by toy_module toy_suspend (VCall (Direct 0) [OVar 3] True None) = []"
    by (simp add: borrowed_by_def use_each_def use_ones_def ops_vars_def is_external_def toy_module_def module_new_def)
  then have "edge_errors toy_module toy_suspend [1 \<mapsto> {1}] t = []" for t
    by (auto simp: edge_errors_def toy_suspend_stmts saved_vars_def split: option.splits lir_stmt.splits)
  then show ?thesis using same_live [OF toy_suspend_same] toy_live_value by (simp add: saved_errors_def comp_def)
qed


theorem saved_errors_sound_witness:
  "saved_errors (Suc (Suc (Suc (Suc 0)))) toy_module toy_suspend = Some []
   \<and> needed toy_suspend [EDst 1, ERead [2], ETerm (Return (Some (OVar 1)))] {} \<subseteq> {1}"
proof -
  have "fn_path toy_suspend ([EInit [OVar 0], EOwn 3] @ ELet 1 # [EDst 1, ERead [2], ETerm (Return (Some (OVar 1)))]) OLeave"
    using toy_live_path same_path(1) [OF toy_suspend_same toy_no_edges] same_fields(1) [OF toy_suspend_same] by (auto simp: fn_path_def)
  from saved_errors_sound [OF same_tree_fn [OF toy_suspend_same toy_live_tree] toy_suspend_verified this, of "Some 2"
      "VCall (Direct 0) [OVar 3] True None" None "\<lparr>su_state = 0, su_saved = [1]\<rparr>"] toy_suspend_verified
  show ?thesis by (simp add: toy_suspend_stmts)
qed

end
