(* ===== verification/Lir_Rc_Check.thy ===== *)
theory Lir_Rc_Check
  imports Lir_Ownership
begin

text \<open>
  The balance check of the verifier for reference-counted code
  (\<open>crates/emela-lir/src/heap/rc_check.rs\<close>): it follows the structured control once, counting the
  references of every variable, and reports what does not balance.

  A message is a value of \<open>rc_error\<close> instead of its text. \<open>None\<close> is a panic or the end of the fuel,
  which bounds the nesting.
\<close>

section \<open>The check\<close>

datatype rc_error =
    NotOwned string var_id      \<comment> \<open>\<open>{what} {name}, which owns no reference\<close>\<close>
  | UsedWithout var_id
  | LeavesScope var_id int
  | Differ var_id
  | ProtectFound

type_synonym tokens = counts

record slot =
  sl_mark :: nat
  sl_expected :: "int list option"

record rc_check =
  rc_scope :: "var_id list"
  rc_slots :: "slot list"
  rc_labels :: "label_id \<rightharpoonup> nat"
  rc_errors :: "rc_error list"

definition rc_error_push :: "rc_error \<Rightarrow> rc_check \<Rightarrow> rc_check" where
  "rc_error_push e c = c\<lparr>rc_errors := rc_errors c @ [e]\<rparr>"

definition rc_define :: "lir_fn \<Rightarrow> rc_check \<Rightarrow> tokens \<Rightarrow> var_id \<Rightarrow> int \<Rightarrow> rc_check \<times> tokens" where
  "rc_define f c T v n =
     (if counted f v then (c\<lparr>rc_scope := rc_scope c @ [v]\<rparr>, T(v := n)) else (c, T))"

definition rc_take :: "string \<Rightarrow> rc_check \<times> tokens \<Rightarrow> var_id \<Rightarrow> rc_check \<times> tokens" where
  "rc_take what ct v =
     (case ct of (c, T) \<Rightarrow>
        if T v - 1 < 0 then (rc_error_push (NotOwned what v) c, T(v := 0)) else (c, T(v := T v - 1)))"

definition rc_borrow :: "lir_fn \<Rightarrow> tokens \<Rightarrow> rc_check \<Rightarrow> var_id \<Rightarrow> rc_check" where
  "rc_borrow f T c v =
     (if T v < 1 \<and> \<not> borrowed_param f v then rc_error_push (UsedWithout v) c else c)"

definition leave_error :: "tokens \<Rightarrow> rc_check \<Rightarrow> var_id \<Rightarrow> rc_check" where
  "leave_error T c v = (if T v \<noteq> 0 then rc_error_push (LeavesScope v (T v)) c else c)"

definition deliver_expected :: "nat \<Rightarrow> int list \<Rightarrow> int list \<Rightarrow> rc_check \<Rightarrow> rc_check" where
  "deliver_expected mark expected outer c =
     foldl (\<lambda>c v. rc_error_push (Differ v) c) c
       (map fst (filter (\<lambda>(v, a, b). a \<noteq> b) (zip (take mark (rc_scope c)) (zip expected outer))))"

definition rc_deliver :: "nat option \<Rightarrow> tokens \<Rightarrow> rc_check \<Rightarrow> rc_check option" where
  "rc_deliver target T c =
     (case target of
        None \<Rightarrow> Some (foldl (leave_error T) c (rc_scope c))
      | Some s \<Rightarrow>
          if s < length (rc_slots c) \<and> sl_mark (rc_slots c ! s) \<le> length (rc_scope c) then
            (let mark = sl_mark (rc_slots c ! s);
                 c = foldl (leave_error T) c (drop mark (rc_scope c));
                 outer = map T (take mark (rc_scope c)) in
             case sl_expected (rc_slots c ! s) of
               None \<Rightarrow> Some (c\<lparr>rc_slots := (rc_slots c)[s := (rc_slots c ! s)\<lparr>sl_expected := Some outer\<rparr>]\<rparr>)
             | Some expected \<Rightarrow> Some (deliver_expected mark expected outer c))
          else None)"

fun set_tokens :: "(var_id \<times> int) list \<Rightarrow> tokens \<Rightarrow> tokens" where
  "set_tokens [] T = T"
| "set_tokens ((v, n) # vs) T = set_tokens vs (T(v := n))"

definition rc_joined :: "rc_check \<Rightarrow> nat \<Rightarrow> tokens \<Rightarrow> tokens option" where
  "rc_joined c s T =
     do { e \<leftarrow> sl_expected (rc_slots c ! s);
          Some (set_tokens (zip (take (sl_mark (rc_slots c ! s)) (rc_scope c)) e) T) }"

definition new_slot :: "rc_check \<Rightarrow> nat \<times> rc_check" where
  "new_slot c =
     (length (rc_slots c), c\<lparr>rc_slots := rc_slots c @ [\<lparr>sl_mark = length (rc_scope c), sl_expected = None\<rparr>]\<rparr>)"

definition rc_after ::
  "lir_fn \<Rightarrow> rc_check \<Rightarrow> nat \<Rightarrow> tokens \<Rightarrow> var_id option \<Rightarrow> tokens option \<times> rc_check" where
  "rc_after f c s T dst =
     (case rc_joined c s T of
        None \<Rightarrow> (None, c)
      | Some T \<Rightarrow>
          (case dst of
             None \<Rightarrow> (Some T, c)
           | Some d \<Rightarrow> (case rc_define f c T d 1 of (c, T) \<Rightarrow> (Some T, c))))"

text \<open>\<open>call\<close> stands for the calls of \<open>seq_with\<close> in \<open>stmt\<close>; \<open>rc_seq\<close> ties the knot.\<close>

type_synonym rc_call =
  "rc_check \<Rightarrow> seq_id \<Rightarrow> tokens \<Rightarrow> (var_id \<times> int) list \<Rightarrow> nat option \<Rightarrow> nat option \<Rightarrow> rc_check option"

fun rc_bodies ::
  "rc_call \<Rightarrow> rc_check \<Rightarrow> seq_id list \<Rightarrow> tokens \<Rightarrow> nat option \<Rightarrow> nat option \<Rightarrow> rc_check option" where
  "rc_bodies call c [] T yt lh = Some c"
| "rc_bodies call c (b # bs) T yt lh = do { c \<leftarrow> call c b T [] yt lh; rc_bodies call c bs T yt lh }"

definition rc_let ::
  "rc_call \<Rightarrow> lir_module \<Rightarrow> lir_fn \<Rightarrow> rc_check \<Rightarrow> lir_stmt \<Rightarrow> var_id option \<Rightarrow> lir_value \<Rightarrow> suspend option
     \<Rightarrow> tokens \<Rightarrow> nat option \<Rightarrow> (tokens option \<times> rc_check) option" where
  "rc_let call m f c stmt dst val su T lh =
     (case foldl (rc_take ''a consuming use of'') (c, T) (consumed_by m f val) of (c, T) \<Rightarrow>
      let c = foldl (rc_borrow f T) c (borrowed_by m f val) in
      do { c \<leftarrow> (case su of
                   None \<Rightarrow> Some c
                 | Some _ \<Rightarrow>
                     (case foldl (rc_take ''a suspension edge saves'') (c, T) (suspend_saved f stmt) of
                        (c, T') \<Rightarrow> rc_deliver None T' c));
           c \<leftarrow> (case fst (landings stmt) of None \<Rightarrow> Some c | Some (e, b) \<Rightarrow> call c b T [(e, 1)] None lh);
           c \<leftarrow> (case snd (landings stmt) of None \<Rightarrow> Some c | Some b \<Rightarrow> call c b T [] None lh);
           (case dst of
              None \<Rightarrow> Some (Some T, c)
            | Some d \<Rightarrow> (case rc_define f c T d (if is_view f val then 0 else 1) of (c, T) \<Rightarrow> Some (Some T, c))) })"

definition rc_stmt ::
  "rc_call \<Rightarrow> lir_module \<Rightarrow> lir_fn \<Rightarrow> rc_check \<Rightarrow> stmt_id \<Rightarrow> tokens \<Rightarrow> nat option \<Rightarrow> (tokens option \<times> rc_check) option" where
  "rc_stmt call m f c s T lh =
     do { stmt \<leftarrow> get_stmt f s;
          case stmt of
            SLet dst val df su \<Rightarrow> rc_let call m f c stmt dst val su T lh
          | SDup v \<Rightarrow> Some (Some (T(v := T v + 1)), c)
          | SDrop v \<Rightarrow> (case rc_take ''drop of'' (c, T) v of (c, T) \<Rightarrow> Some (Some T, c))
          | SIf dst cond a b \<Rightarrow>
              (case new_slot c of (slot, c) \<Rightarrow>
               do { c \<leftarrow> call c a T [] (Some slot) lh;
                    c \<leftarrow> call c b T [] (Some slot) lh;
                    Some (rc_after f c slot T dst) })
          | SSwitch dst on cases dflt \<Rightarrow>
              (let c = (if counted f (switch_var on) then rc_borrow f T c (switch_var on) else c) in
               case new_slot c of (slot, c) \<Rightarrow>
               do { c \<leftarrow> rc_bodies call c (map sc_body cases @ opt_list dflt) T (Some slot) lh;
                    Some (rc_after f c slot T dst) })
          | SBlock dst label b \<Rightarrow>
              (case new_slot c of (slot, c) \<Rightarrow>
               do { c \<leftarrow> call (c\<lparr>rc_labels := (rc_labels c)(label \<mapsto> slot)\<rparr>) b T [] (Some slot) lh;
                    Some (rc_after f c slot T dst) })
          | SLoop dst vs inits b \<Rightarrow>
              (case foldl (rc_take ''a loop's initial value consumes'') (c, T) (operand_vars f inits) of (c, T) \<Rightarrow>
               case new_slot c of (exit, c) \<Rightarrow>
               case new_slot c of (at_head, c) \<Rightarrow>
               let c = c\<lparr>rc_slots := (rc_slots c)
                     [at_head := (rc_slots c ! at_head)\<lparr>sl_expected := Some (map T (rc_scope c))\<rparr>]\<rparr> in
               do { c \<leftarrow> call c b T (map (\<lambda>v. (v, 1)) vs) (Some exit) (Some at_head);
                    Some (rc_after f c exit T dst) })
          | SProtect _ _ _ \<Rightarrow> Some (None, rc_error_push ProtectFound c) }"

fun rc_stmts ::
  "rc_call \<Rightarrow> lir_module \<Rightarrow> lir_fn \<Rightarrow> rc_check \<Rightarrow> stmt_id list \<Rightarrow> tokens option \<Rightarrow> nat option
     \<Rightarrow> (tokens option \<times> rc_check) option" where
  "rc_stmts call m f c [] T lh = Some (T, c)"
| "rc_stmts call m f c (s # ss) None lh = Some (None, c)"
| "rc_stmts call m f c (s # ss) (Some T) lh =
     do { (T, c) \<leftarrow> rc_stmt call m f c s T lh; rc_stmts call m f c ss T lh }"

fun rc_defs :: "lir_fn \<Rightarrow> rc_check \<Rightarrow> tokens \<Rightarrow> (var_id \<times> int) list \<Rightarrow> rc_check \<times> tokens" where
  "rc_defs f c T [] = (c, T)"
| "rc_defs f c T ((v, n) # ds) = (case rc_define f c T v n of (c, T) \<Rightarrow> rc_defs f c T ds)"

fun rc_term_deliver :: "lir_term \<Rightarrow> tokens \<Rightarrow> nat option \<Rightarrow> nat option \<Rightarrow> rc_check \<Rightarrow> rc_check option" where
  "rc_term_deliver (Yield v) T yt lh c = rc_deliver yt T c"
| "rc_term_deliver (Break l v) T yt lh c =
     (case rc_labels c l of None \<Rightarrow> Some c | Some s \<Rightarrow> rc_deliver (Some s) T c)"
| "rc_term_deliver (Recur args) T yt lh c =
     (case lh of None \<Rightarrow> Some c | Some s \<Rightarrow> rc_deliver (Some s) T c)"
| "rc_term_deliver (Return v) T yt lh c = rc_deliver None T c"
| "rc_term_deliver (Fail v) T yt lh c = rc_deliver None T c"
| "rc_term_deliver Unwind T yt lh c = rc_deliver None T c"
| "rc_term_deliver (Defect v l) T yt lh c = rc_deliver None T c"
| "rc_term_deliver Unreachable T yt lh c = Some c"

definition rc_term ::
  "lir_fn \<Rightarrow> lir_term \<Rightarrow> tokens option \<Rightarrow> nat option \<Rightarrow> nat option \<Rightarrow> rc_check \<Rightarrow> rc_check option" where
  "rc_term f t T yt lh c =
     (case T of
        None \<Rightarrow> Some c
      | Some T \<Rightarrow>
          (case foldl (rc_take ''the terminator consumes'') (c, T) (term_consumes f t) of
             (c, T) \<Rightarrow> rc_term_deliver t T yt lh c))"

fun rc_seq :: "nat \<Rightarrow> lir_module \<Rightarrow> lir_fn \<Rightarrow> rc_call" where
  "rc_seq 0 m f c i T ds yt lh = None"
| "rc_seq (Suc n) m f c i T ds yt lh =
     do { q \<leftarrow> get_seq f i;
          case rc_defs f c T ds of (c1, T) \<Rightarrow>
          do { (T, c2) \<leftarrow> rc_stmts (rc_seq n m f) m f c1 (sq_stmts q) (Some T) lh;
               c3 \<leftarrow> rc_term f (sq_term q) T yt lh c2;
               Some (c3\<lparr>rc_scope := take (length (rc_scope c)) (rc_scope c3)\<rparr>) } }"

definition rc_check_fn :: "nat \<Rightarrow> lir_module \<Rightarrow> lir_fn \<Rightarrow> rc_error list option" where
  "rc_check_fn n m f =
     (case f_body f of
        None \<Rightarrow> Some []
      | Some b \<Rightarrow>
          (let ps = map (\<lambda>p. (p, if borrowed_param f p then 0 else 1)) (filter (counted f) (f_params f));
               c = \<lparr>rc_scope = map fst ps, rc_slots = [], rc_labels = Map.empty, rc_errors = []\<rparr> in
           do { c \<leftarrow> rc_seq n m f c b (set_tokens ps (\<lambda>v. 0)) [] None None; Some (rc_errors c) }))"

section \<open>The shape of reference-counted code\<close>

text \<open>
  \<open>wf_seq f L V i\<close>: what the verifier has established of the sequence \<open>i\<close> before the balance check,
  where the labels \<open>L\<close> and the counted variables \<open>V\<close> are in scope: \<open>break\<close> targets an enclosing block,
  a definition is of a variable not in scope, conditions are not references, \<open>dup\<close> is of a reference in
  scope, and there is no \<open>protect\<close>.
\<close>

fun wf_stmt :: "(label_id set \<Rightarrow> var_id set \<Rightarrow> seq_id \<Rightarrow> bool) \<Rightarrow> lir_fn \<Rightarrow> label_id set \<Rightarrow> var_id set \<Rightarrow> lir_stmt \<Rightarrow> bool" where
  "wf_stmt W f L V (SLet d val df su) \<longleftrightarrow>
     counted_of f (opt_list d) \<inter> V = {}
     \<and> (\<forall>e b. fail_landing val = Some (e, b) \<longrightarrow> counted_of f [e] \<inter> V = {} \<and> W L (V \<union> counted_of f [e]) b)
     \<and> (\<forall>b. df = Some b \<longrightarrow> W L V b)"
| "wf_stmt W f L V (SIf d c a b) \<longleftrightarrow>
     counted_of f (opt_list d) \<inter> V = {} \<and> counted_of f (operand_var c) = {} \<and> W L V a \<and> W L V b"
| "wf_stmt W f L V (SSwitch d on cs df) \<longleftrightarrow>
     counted_of f (opt_list d) \<inter> V = {} \<and> (\<forall>b\<in>set (map sc_body cs @ opt_list df). W L V b)"
| "wf_stmt W f L V (SBlock d l b) \<longleftrightarrow>
     counted_of f (opt_list d) \<inter> V = {} \<and> l \<notin> L \<and> W (insert l L) V b"
| "wf_stmt W f L V (SLoop d vs inits b) \<longleftrightarrow>
     counted_of f (opt_list d) \<inter> V = {} \<and> distinct vs \<and> counted_of f vs \<inter> V = {} \<and> W L (V \<union> counted_of f vs) b"
| "wf_stmt W f L V (SDup v) \<longleftrightarrow> v \<in> V"
| "wf_stmt W f L V (SDrop v) \<longleftrightarrow> True"
| "wf_stmt W f L V (SProtect d b c) \<longleftrightarrow> False"

fun wf_stmts :: "(label_id set \<Rightarrow> var_id set \<Rightarrow> seq_id \<Rightarrow> bool) \<Rightarrow> lir_fn \<Rightarrow> label_id set \<Rightarrow> var_id set \<Rightarrow> stmt_id list \<Rightarrow> bool" where
  "wf_stmts W f L V [] \<longleftrightarrow> True"
| "wf_stmts W f L V (s # ss) \<longleftrightarrow>
     (\<exists>stmt. get_stmt f s = Some stmt \<and> wf_stmt W f L V stmt
        \<and> wf_stmts W f L (V \<union> counted_of f (opt_list (stmt_dst stmt))) ss)"

lemma wf_stmt_mono:
  "(\<And>L V i. W L V i \<longrightarrow> X L V i) \<Longrightarrow> wf_stmt W f L V stmt \<longrightarrow> wf_stmt X f L V stmt"
  by (cases stmt) auto

lemma wf_stmts_mono [mono]:
  assumes "\<And>L V i. W L V i \<longrightarrow> X L V i"
  shows "wf_stmts W f L V ss \<longrightarrow> wf_stmts X f L V ss"
proof (induction ss arbitrary: V)
  case (Cons s ss)
  show ?case
  proof
    assume "wf_stmts W f L V (s # ss)"
    then obtain stmt where "get_stmt f s = Some stmt" "wf_stmt W f L V stmt"
      "wf_stmts W f L (V \<union> counted_of f (opt_list (stmt_dst stmt))) ss" by auto
    then show "wf_stmts X f L V (s # ss)" using Cons wf_stmt_mono [OF assms] by auto
  qed
qed simp

inductive wf_seq :: "lir_fn \<Rightarrow> label_id set \<Rightarrow> var_id set \<Rightarrow> seq_id \<Rightarrow> bool" for f where
  "get_seq f i = Some q \<Longrightarrow> term_labels (sq_term q) \<subseteq> L \<Longrightarrow> wf_stmts (wf_seq f) f L V (sq_stmts q) \<Longrightarrow>
   wf_seq f L V i"

definition wf_fn :: "lir_fn \<Rightarrow> bool" where
  "wf_fn f \<longleftrightarrow> (\<exists>b. f_body f = Some b \<and> wf_seq f {} (counted_of f (f_params f)) b)"

section \<open>Steps of the check\<close>

text \<open>\<open>later L c c'\<close>: the check went on from \<open>c\<close> to \<open>c'\<close>.\<close>

definition slot_le :: "slot \<Rightarrow> slot \<Rightarrow> bool" where
  "slot_le s s' \<longleftrightarrow>
     sl_mark s' = sl_mark s \<and> (sl_expected s' = sl_expected s
       \<or> (\<exists>E. sl_expected s = None \<and> sl_expected s' = Some E \<and> length E = sl_mark s))"

definition later :: "label_id set \<Rightarrow> rc_check \<Rightarrow> rc_check \<Rightarrow> bool" where
  "later L c c' \<longleftrightarrow>
     prefix (rc_errors c) (rc_errors c') \<and> prefix (rc_scope c) (rc_scope c')
     \<and> (\<forall>l\<in>L. rc_labels c' l = rc_labels c l)
     \<and> (\<forall>k<length (rc_slots c). k < length (rc_slots c') \<and> slot_le (rc_slots c ! k) (rc_slots c' ! k))"

lemma slot_le_refl [simp]: "slot_le s s"
  by (simp add: slot_le_def)

lemma slot_le_trans: "slot_le a b \<Longrightarrow> slot_le b c \<Longrightarrow> slot_le a c"
  by (auto simp: slot_le_def)

lemma later_refl [simp]: "later L c c"
  by (simp add: later_def)

lemma later_trans: "later L c c' \<Longrightarrow> later L c' c'' \<Longrightarrow> later L c c''"
  unfolding later_def
proof (elim conjE, intro conjI)
  assume "\<forall>k<length (rc_slots c). k < length (rc_slots c') \<and> slot_le (rc_slots c ! k) (rc_slots c' ! k)"
    "\<forall>k<length (rc_slots c'). k < length (rc_slots c'') \<and> slot_le (rc_slots c' ! k) (rc_slots c'' ! k)"
  then show "\<forall>k<length (rc_slots c). k < length (rc_slots c'') \<and> slot_le (rc_slots c ! k) (rc_slots c'' ! k)"
    using slot_le_trans by blast
qed auto

lemma later_clean: "later L c c' \<Longrightarrow> rc_errors c' = [] \<Longrightarrow> rc_errors c = []"
  by (auto simp: later_def)

lemma later_mono: "later L' c c' \<Longrightarrow> L \<subseteq> L' \<Longrightarrow> later L c c'"
  by (auto simp: later_def)

lemma rc_error_push_simps [simp]:
  "rc_scope (rc_error_push e c) = rc_scope c" "rc_slots (rc_error_push e c) = rc_slots c"
  "rc_labels (rc_error_push e c) = rc_labels c" "rc_errors (rc_error_push e c) = rc_errors c @ [e]"
  by (simp_all add: rc_error_push_def)

text \<open>The steps that only report: with no report, the state is the same.\<close>

definition reports :: "rc_check \<Rightarrow> rc_check \<Rightarrow> bool" where
  "reports c c' \<longleftrightarrow>
     rc_scope c' = rc_scope c \<and> rc_slots c' = rc_slots c \<and> rc_labels c' = rc_labels c
     \<and> prefix (rc_errors c) (rc_errors c') \<and> (rc_errors c' = rc_errors c \<longrightarrow> c' = c)"

lemma reports_refl [simp]: "reports c c"
  by (simp add: reports_def)

lemma reports_push [simp]: "reports c (rc_error_push e c)"
  by (simp add: reports_def)

lemma reports_trans: "reports c c' \<Longrightarrow> reports c' c'' \<Longrightarrow> reports c c''"
  by (auto simp: reports_def prefix_def)

lemma reports_later: "reports c c' \<Longrightarrow> later L c c'"
  by (simp add: reports_def later_def)

lemma reports_clean: "reports c c' \<Longrightarrow> rc_errors c' = [] \<Longrightarrow> c' = c"
  by (auto simp: reports_def prefix_def)

lemma reports_foldl:
  assumes "\<And>c x. reports c (g c x)"
  shows "reports c (foldl g c xs)"
  by (induction xs arbitrary: c) (auto intro: assms reports_trans)

lemma rc_take_simps:
  "T v < 1 \<Longrightarrow> rc_take w (c, T) v = (rc_error_push (NotOwned w v) c, T(v := 0))"
  "\<not> T v < 1 \<Longrightarrow> rc_take w (c, T) v = (c, T(v := T v - 1))"
  by (simp_all add: rc_take_def)

lemma rc_takes_reports: "foldl (rc_take w) (c, T) vs = (c', T') \<Longrightarrow> reports c c'"
proof (induction vs arbitrary: c T)
  case (Cons v vs)
  then show ?case
    by (cases "T v < 1") (auto simp: rc_take_simps intro: reports_trans [OF reports_push])
qed simp

lemma rc_takes_take_all:
  "foldl (rc_take w) (c, T) vs = (c', T') \<Longrightarrow> rc_errors c' = [] \<Longrightarrow> c' = c \<and> take_all vs T = Some T'"
proof (induction vs arbitrary: c T)
  case (Cons v vs)
  have clean: "rc_errors c = []"
    using rc_takes_reports [OF Cons.prems(1)] Cons.prems(2) by (auto simp: reports_def)
  show ?case
  proof (cases "T v < 1")
    case True
    with Cons.prems have "foldl (rc_take w) (rc_error_push (NotOwned w v) c, T(v := 0)) vs = (c', T')"
      by (simp add: rc_take_simps)
    from rc_takes_reports [OF this] Cons.prems(2) show ?thesis by (auto simp: reports_def)
  next
    case False
    with Cons.prems have "foldl (rc_take w) (c, T(v := T v - 1)) vs = (c', T')" by (simp add: rc_take_simps)
    from Cons.IH [OF this Cons.prems(2)] False show ?thesis by (simp del: fun_upd_apply)
  qed
qed simp

lemma rc_borrow_reports: "reports c (foldl (rc_borrow f T) c vs)"
  by (rule reports_foldl) (simp add: rc_borrow_def)

lemma rc_borrows_ok:
  "rc_errors (foldl (rc_borrow f T) c vs) = [] \<Longrightarrow> foldl (rc_borrow f T) c vs = c \<and> list_all (borrow_ok f T) vs"
proof (induction vs arbitrary: c)
  case (Cons v vs)
  have "rc_errors (rc_borrow f T c v) = []"
    using rc_borrow_reports [of "rc_borrow f T c v" f T vs] Cons.prems by (auto simp: reports_def)
  then have "borrow_ok f T v" "rc_borrow f T c v = c"
    by (auto simp: rc_borrow_def borrow_ok_def split: if_splits)
  with Cons show ?case by simp
qed simp

lemma leaves_reports: "reports c (foldl (leave_error T) c vs)"
  by (rule reports_foldl) (simp add: leave_error_def)

lemma leaves_zero:
  "rc_errors (foldl (leave_error T) c vs) = [] \<Longrightarrow> foldl (leave_error T) c vs = c \<and> (\<forall>v\<in>set vs. T v = 0)"
proof (induction vs arbitrary: c)
  case (Cons v vs)
  have "rc_errors (leave_error T c v) = []"
    using leaves_reports [of "leave_error T c v" T vs] Cons.prems by (auto simp: reports_def)
  then have "T v = 0" "leave_error T c v = c" by (auto simp: leave_error_def split: if_splits)
  with Cons show ?case by simp
qed simp

text \<open>A join point in use, and the counts an edge brings into it.\<close>

definition slot_ok :: "rc_check \<Rightarrow> nat \<Rightarrow> bool" where
  "slot_ok c k \<longleftrightarrow>
     k < length (rc_slots c) \<and> sl_mark (rc_slots c ! k) \<le> length (rc_scope c)
     \<and> (\<forall>E. sl_expected (rc_slots c ! k) = Some E \<longrightarrow> length E = sl_mark (rc_slots c ! k))"

definition delivered :: "rc_check \<Rightarrow> nat \<Rightarrow> counts \<Rightarrow> bool" where
  "delivered c k C \<longleftrightarrow>
     k < length (rc_slots c) \<and> sl_mark (rc_slots c ! k) \<le> length (rc_scope c)
     \<and> sl_expected (rc_slots c ! k) = Some (map C (take (sl_mark (rc_slots c ! k)) (rc_scope c)))
     \<and> (\<forall>v. v \<notin> set (take (sl_mark (rc_slots c ! k)) (rc_scope c)) \<longrightarrow> C v = 0)"

definition zero_out :: "rc_check \<Rightarrow> counts \<Rightarrow> bool" where
  "zero_out c T \<longleftrightarrow> (\<forall>v. v \<notin> set (rc_scope c) \<longrightarrow> T v = 0)"

lemma later_slot:
  assumes "later L c c'" "k < length (rc_slots c)"
  shows "k < length (rc_slots c')" "slot_le (rc_slots c ! k) (rc_slots c' ! k)"
  using assms by (simp_all add: later_def)

lemma later_scope:
  assumes "later L c c'"
  shows "length (rc_scope c) \<le> length (rc_scope c')"
    and "n \<le> length (rc_scope c) \<Longrightarrow> take n (rc_scope c') = take n (rc_scope c)"
  using assms by (auto simp: later_def prefix_def)

lemma slot_ok_later: "slot_ok c k \<Longrightarrow> later L c c' \<Longrightarrow> slot_ok c' k"
  using later_slot [of L c c' k] later_scope(1) [of L c c'] by (auto simp: slot_ok_def slot_le_def)

lemma delivered_later: "delivered c k C \<Longrightarrow> later L c c' \<Longrightarrow> delivered c' k C"
  using later_slot [of L c c' k] later_scope [of L c c'] by (auto simp: delivered_def slot_le_def)

lemma delivered_cut:
  assumes "delivered c k C" "sl_mark (rc_slots c ! k) \<le> n"
  shows "delivered (c\<lparr>rc_scope := take n (rc_scope c)\<rparr>) k C"
  using assms by (simp add: delivered_def min_def)

lemma differ_reports: "reports c (foldl (\<lambda>c v. rc_error_push (Differ v) c) c vs)"
  by (rule reports_foldl) simp

lemma foldl_differ_clean: "rc_errors (foldl (\<lambda>c v. rc_error_push (Differ v) c) c vs) = [] \<Longrightarrow> vs = []"
proof (cases vs)
  case (Cons v ws)
  assume "rc_errors (foldl (\<lambda>c v. rc_error_push (Differ v) c) c vs) = []"
  with differ_reports [of "rc_error_push (Differ v) c" ws] Cons show ?thesis by (auto simp: reports_def)
qed

lemma deliver_expected_same:
  assumes "rc_errors (deliver_expected mark E O' c) = []"
    and "length E = length (take mark (rc_scope c))" "length O' = length (take mark (rc_scope c))"
  shows "E = O'"
proof -
  let ?z = "zip (take mark (rc_scope c)) (zip E O')"
  have "filter (\<lambda>(v, a, b). a \<noteq> b) ?z = []"
    using foldl_differ_clean [OF assms(1) [unfolded deliver_expected_def]] by simp
  then have eq: "a = b" if "(v, a, b) \<in> set ?z" for v a b
    using that by (auto simp: filter_empty_conv)
  show ?thesis
  proof (rule nth_equalityI)
    show "length E = length O'" using assms(2,3) by simp
    fix i assume "i < length E"
    then have "(take mark (rc_scope c) ! i, E ! i, O' ! i) \<in> set ?z"
      using assms(2,3) by (auto simp: set_zip intro!: exI [of _ i])
    then show "E ! i = O' ! i" by (rule eq)
  qed
qed

lemma rc_deliver_later:
  assumes "rc_deliver tgt T c = Some c'"
  shows "later L c c'" "rc_scope c' = rc_scope c"
proof -
  have "later L c c' \<and> rc_scope c' = rc_scope c"
  proof (cases tgt)
    case None
    with assms leaves_reports [of c T "rc_scope c"] show ?thesis
      by (auto simp: rc_deliver_def reports_later) (simp add: reports_def)
  next
    case (Some s)
    let ?mark = "sl_mark (rc_slots c ! s)"
    let ?c = "foldl (leave_error T) c (drop ?mark (rc_scope c))"
    have s: "s < length (rc_slots c)" "?mark \<le> length (rc_scope c)"
      using assms Some by (auto simp: rc_deliver_def split: if_splits)
    have rep: "reports c ?c" by (rule leaves_reports)
    then have same: "rc_slots ?c = rc_slots c" "rc_scope ?c = rc_scope c" "rc_labels ?c = rc_labels c"
      by (simp_all add: reports_def)
    show ?thesis
    proof (cases "sl_expected (rc_slots c ! s)")
      case None
      have c': "c' = ?c\<lparr>rc_slots := (rc_slots c)[s := (rc_slots c ! s)\<lparr>sl_expected := Some (map T (take ?mark (rc_scope c)))\<rparr>]\<rparr>"
        using assms Some s None same by (simp add: rc_deliver_def Let_def)
      have "later L ?c c'" unfolding c' later_def
        using s None same by (auto simp: nth_list_update slot_le_def)
      from later_trans [OF reports_later [OF rep] this] c' same(2) show ?thesis by simp
    next
      case (Some E)
      have c': "c' = deliver_expected ?mark E (map T (take ?mark (rc_scope c))) ?c"
        using assms \<open>tgt = Some s\<close> s Some same by (simp add: rc_deliver_def Let_def)
      have "reports ?c c'" unfolding c' deliver_expected_def by (rule differ_reports)
      with rep have "reports c c'" by (rule reports_trans)
      then show ?thesis by (simp add: reports_later) (simp add: reports_def)
    qed
  qed
  then show "later L c c'" "rc_scope c' = rc_scope c" by simp_all
qed

lemma rc_deliver_out:
  assumes "rc_deliver None T c = Some c'" "rc_errors c' = []" "zero_out c T"
  shows "T = (\<lambda>v. 0)"
  using assms leaves_zero [of T c "rc_scope c"] by (auto simp: rc_deliver_def zero_out_def fun_eq_iff)

lemma rc_deliver_slot:
  assumes del: "rc_deliver (Some s) T c = Some c'" and clean: "rc_errors c' = []" and "zero_out c T" "slot_ok c s"
  shows "delivered c' s T"
proof -
  let ?mark = "sl_mark (rc_slots c ! s)"
  let ?c = "foldl (leave_error T) c (drop ?mark (rc_scope c))"
  have s: "s < length (rc_slots c)" "?mark \<le> length (rc_scope c)" using assms(4) by (simp_all add: slot_ok_def)
  have rep: "reports c ?c" by (rule leaves_reports)
  then have same: "rc_slots ?c = rc_slots c" "rc_scope ?c = rc_scope c" by (simp_all add: reports_def)
  have zero: "T v = 0" if "?c = c" "\<forall>v\<in>set (drop ?mark (rc_scope c)). T v = 0"
    "v \<notin> set (take ?mark (rc_scope c))" for v
    using that assms(3) by (metis zero_out_def append_take_drop_id Un_iff set_append)
  show ?thesis
  proof (cases "sl_expected (rc_slots c ! s)")
    case None
    have c': "c' = ?c\<lparr>rc_slots := (rc_slots c)[s := (rc_slots c ! s)\<lparr>sl_expected := Some (map T (take ?mark (rc_scope c)))\<rparr>]\<rparr>"
      using del s None same by (simp add: rc_deliver_def Let_def)
    then have "rc_errors ?c = []" using clean by simp
    from leaves_zero [OF this] have z: "?c = c" "\<forall>v\<in>set (drop ?mark (rc_scope c)). T v = 0" by simp_all
    show ?thesis using s zero [OF z] unfolding c' by (simp add: delivered_def same)
  next
    case (Some E)
    have c': "c' = deliver_expected ?mark E (map T (take ?mark (rc_scope c))) ?c"
      using del s Some same by (simp add: rc_deliver_def Let_def)
    have "reports ?c c'" unfolding c' deliver_expected_def by (rule differ_reports)
    then have cc: "c' = ?c" "rc_errors ?c = []" using clean by (auto simp: reports_def prefix_def)
    from leaves_zero [OF cc(2)] have z: "?c = c" "\<forall>v\<in>set (drop ?mark (rc_scope c)). T v = 0" by simp_all
    have "length E = ?mark" using assms(4) Some by (simp add: slot_ok_def)
    then have "E = map T (take ?mark (rc_scope c))"
      using clean s unfolding c' z(1) by (intro deliver_expected_same [of ?mark E _ c]) (simp_all add: min_def)
    with s Some zero [OF z] show ?thesis unfolding cc(1) z(1) by (simp add: delivered_def)
  qed
qed

section \<open>Soundness\<close>

text \<open>How an edge ends: out of the function with no reference left, or at its join point.\<close>

fun ended :: "rc_check \<Rightarrow> nat option \<Rightarrow> nat option \<Rightarrow> label_id set \<Rightarrow> outcome \<Rightarrow> counts \<Rightarrow> bool" where
  "ended c yt lh L OLeave C \<longleftrightarrow> C = (\<lambda>v. 0)"
| "ended c yt lh L OYield C \<longleftrightarrow> (case yt of None \<Rightarrow> C = (\<lambda>v. 0) | Some s \<Rightarrow> delivered c s C)"
| "ended c yt lh L (OBreak l) C \<longleftrightarrow> l \<in> L \<and> (\<forall>s. rc_labels c l = Some s \<longrightarrow> delivered c s C)"
| "ended c yt lh L ORecur C \<longleftrightarrow> (\<forall>s. lh = Some s \<longrightarrow> delivered c s C)"
| "ended c yt lh L OStop C \<longleftrightarrow> True"

lemma ended_later: "ended c yt lh L out C \<Longrightarrow> later L c c' \<Longrightarrow> ended c' yt lh L out C"
proof (cases out)
  case (OBreak l)
  assume "ended c yt lh L out C" "later L c c'"
  with OBreak show ?thesis using delivered_later [of c _ C L c'] by (auto simp: later_def)
qed (auto split: option.splits intro: delivered_later)

lemma ended_out: "ended c yt lh L out C \<Longrightarrow> out \<noteq> OYield \<Longrightarrow> ended c yt' lh L out C"
  by (cases out) auto

lemma ended_unloop: "ended c yt lh L out C \<Longrightarrow> out \<noteq> ORecur \<Longrightarrow> ended c yt lh' L out C"
  by (cases out) auto

lemma ended_unblock: "ended c yt lh (insert l L) out C \<Longrightarrow> out \<noteq> OBreak l \<Longrightarrow> ended c yt lh L out C"
  by (cases out) auto

text \<open>The join points in use where a sequence is checked.\<close>

definition slots_ok :: "label_id set \<Rightarrow> nat option \<Rightarrow> nat option \<Rightarrow> rc_check \<Rightarrow> bool" where
  "slots_ok L yt lh c \<longleftrightarrow>
     (\<forall>s. yt = Some s \<longrightarrow> slot_ok c s) \<and> (\<forall>s. lh = Some s \<longrightarrow> slot_ok c s)
     \<and> (\<forall>l\<in>L. \<exists>s. rc_labels c l = Some s \<and> slot_ok c s)"

lemma slots_ok_later: "slots_ok L yt lh c \<Longrightarrow> later L c c' \<Longrightarrow> slots_ok L yt lh c'"
  unfolding slots_ok_def using slot_ok_later [of c _ L c'] by (auto simp: later_def)

lemma slots_ok_none: "slots_ok L yt lh c \<Longrightarrow> slots_ok L None lh c"
  by (simp add: slots_ok_def)

lemma ended_cut:
  assumes "ended c' yt lh L out C" "slots_ok L yt lh c" "later L c c'" "n = length (rc_scope c)"
  shows "ended (c'\<lparr>rc_scope := take n (rc_scope c')\<rparr>) yt lh L out C"
proof -
  have cut: "delivered (c'\<lparr>rc_scope := take n (rc_scope c')\<rparr>) s C" if "delivered c' s C" "slot_ok c s" for s
    using that assms(3,4) later_slot [of L c c' s] by (intro delivered_cut) (auto simp: slot_ok_def slot_le_def)
  show ?thesis
  proof (cases out)
    case (OBreak l)
    with assms(1) have l: "l \<in> L" by simp
    with assms(2) obtain s where "rc_labels c l = Some s" "slot_ok c s" by (auto simp: slots_ok_def)
    moreover have "rc_labels c' l = rc_labels c l" using assms(3) l by (simp add: later_def)
    ultimately show ?thesis using assms(1) OBreak cut [of s] by simp
  qed (use assms cut in \<open>auto simp: slots_ok_def split: option.splits\<close>)
qed

text \<open>What the check of a sequence establishes.\<close>

definition rc_sound :: "rc_call \<Rightarrow> lir_module \<Rightarrow> lir_fn \<Rightarrow> label_id set \<Rightarrow> var_id set \<Rightarrow> seq_id \<Rightarrow> bool" where
  "rc_sound call m f L V i \<longleftrightarrow>
     (\<forall>c T ds yt lh c'. call c i T ds yt lh = Some c' \<longrightarrow>
        later L c c' \<and> rc_scope c' = rc_scope c
        \<and> (\<forall>tr out. rc_errors c' = [] \<longrightarrow> set (rc_scope (fst (rc_defs f c T ds))) = V \<longrightarrow> zero_out c T \<longrightarrow>
             slots_ok L yt lh c \<longrightarrow> path_seq f i tr out \<longrightarrow>
             (\<exists>C. count_path m f tr (snd (rc_defs f c T ds)) = Some C \<and> ended c' yt lh L out C)))"

lemma rc_soundD:
  assumes "rc_sound call m f L V i" "call c i T ds yt lh = Some c'"
  shows "later L c c'" "rc_scope c' = rc_scope c"
  using assms unfolding rc_sound_def by blast+

lemma rc_sound_path:
  assumes "rc_sound call m f L V i" "call c i T ds yt lh = Some c'" "rc_errors c' = []"
    "rc_defs f c T ds = (c1, T1)" "set (rc_scope c1) = V" "zero_out c T" "slots_ok L yt lh c" "path_seq f i tr out"
  obtains C where "count_path m f tr T1 = Some C" "ended c' yt lh L out C"
proof -
  have "\<exists>C. count_path m f tr (snd (rc_defs f c T ds)) = Some C \<and> ended c' yt lh L out C"
    using assms(1) [unfolded rc_sound_def, rule_format, of c T ds yt lh c'] assms(2-8) by simp
  with assms(4) that show ?thesis by auto
qed

text \<open>Definitions.\<close>

lemma rc_define_later: "rc_define f c T v n = (c', T') \<Longrightarrow> later L c c'"
  by (auto simp: rc_define_def later_def split: if_splits)

lemma rc_define_scope: "rc_define f c T v n = (c', T') \<Longrightarrow> rc_scope c' = rc_scope c @ filter (counted f) [v]"
  by (auto simp: rc_define_def split: if_splits)

lemma rc_define_own:
  assumes "rc_define f c T v n = (c', T')" "zero_out c T" "counted_of f [v] \<inter> set (rc_scope c) = {}"
  shows "own f v n T = Some T'" "zero_out c' T'"
  using assms by (auto simp: rc_define_def own_def zero_out_def counted_of_def split: if_splits)

lemma rc_defs_later: "rc_defs f c T ds = (c', T') \<Longrightarrow> later L c c'"
proof (induction f c T ds rule: rc_defs.induct)
  case (2 f c T v n ds)
  obtain c1 T1 where d: "rc_define f c T v n = (c1, T1)" by fastforce
  with 2 show ?case using later_trans [OF rc_define_later [OF d]] by simp
qed simp

lemma rc_defs_scope: "rc_defs f c T ds = (c', T') \<Longrightarrow> rc_scope c' = rc_scope c @ filter (counted f) (map fst ds)"
proof (induction f c T ds rule: rc_defs.induct)
  case (2 f c T v n ds)
  obtain c1 T1 where d: "rc_define f c T v n = (c1, T1)" by fastforce
  with 2 show ?case using rc_define_scope [OF d] by simp
qed simp

lemma rc_defs_zero_out: "rc_defs f c T ds = (c', T') \<Longrightarrow> zero_out c T \<Longrightarrow> zero_out c' T'"
proof (induction f c T ds rule: rc_defs.induct)
  case (2 f c T v n ds)
  obtain c1 T1 where d: "rc_define f c T v n = (c1, T1)" by fastforce
  then have "zero_out c1 T1" using 2 by (auto simp: rc_define_def zero_out_def split: if_splits)
  with 2 d show ?case by simp
qed simp

lemma rc_defs_own:
  assumes "rc_defs f c T (map (\<lambda>v. (v, 1)) vs) = (c', T')" "zero_out c T" "distinct vs"
    "counted_of f vs \<inter> set (rc_scope c) = {}"
  shows "count_path m f (map EOwn vs) T = Some T'"
  using assms
proof (induction vs arbitrary: c T)
  case (Cons v vs)
  obtain c1 T1 where d: "rc_define f c T v 1 = (c1, T1)" by fastforce
  have "counted_of f [v] \<inter> set (rc_scope c) = {}" using Cons.prems(4) by (auto simp: counted_of_def)
  note rc_define_own [OF d Cons.prems(2) this]
  moreover have "counted_of f vs \<inter> set (rc_scope c1) = {}"
    using rc_define_scope [OF d] Cons.prems(3,4) by (auto simp: counted_of_def)
  ultimately show ?case using Cons.IH [of c1 T1] Cons.prems(1,3) d by (simp del: fun_upd_apply)
qed simp

lemma take_all_zero_out: "take_all vs T = Some T' \<Longrightarrow> zero_out c T \<Longrightarrow> zero_out c T'"
proof (induction vs arbitrary: T)
  case (Cons v vs)
  then have "zero_out c (T(v := T v - 1))" by (auto simp: zero_out_def split: if_splits)
  with Cons show ?case by (auto split: if_splits)
qed simp

text \<open>Join points.\<close>

lemma set_tokens_zip: "set_tokens (zip vs (map C vs)) T = (\<lambda>v. if v \<in> set vs then C v else T v)"
  by (induction vs arbitrary: T) (auto simp: fun_eq_iff)

lemma rc_joined_delivered:
  assumes "delivered c s C" "sl_mark (rc_slots c ! s) = length (rc_scope c)" "zero_out c T"
  shows "rc_joined c s T = Some C"
proof -
  have "rc_joined c s T = Some (set_tokens (zip (rc_scope c) (map C (rc_scope c))) T)"
    using assms by (simp add: rc_joined_def delivered_def)
  moreover have "set_tokens (zip (rc_scope c) (map C (rc_scope c))) T = C"
    using assms unfolding set_tokens_zip by (auto simp: fun_eq_iff delivered_def zero_out_def)
  ultimately show ?thesis by simp
qed

lemma rc_after_later:
  assumes "rc_after f c s T d = (T', c')"
  shows "later L c c'" "T' \<noteq> None \<Longrightarrow> rc_scope c' = rc_scope c @ filter (counted f) (opt_list d)"
  using assms
  by (auto simp: rc_after_def opt_list_def rc_define_later rc_define_scope split: option.splits prod.splits)

lemma count_path_Nil [simp]: "count_path m f [] = Some"
  by (simp add: fun_eq_iff)

lemma rc_after_own:
  assumes "rc_after f c s T d = (T', c')" "delivered c s C" "sl_mark (rc_slots c ! s) = length (rc_scope c)" "zero_out c T"
    "counted_of f (opt_list d) \<inter> set (rc_scope c) = {}"
  obtains C' where "count_path m f (own_events d) C = Some C'" "T' = Some C'" "zero_out c' C'"
proof -
  have j: "rc_joined c s T = Some C" using assms(2-4) by (rule rc_joined_delivered)
  have z: "zero_out c C" using assms(2,3) by (simp add: delivered_def zero_out_def)
  show ?thesis
  proof (cases d)
    case None
    with assms(1) j z show ?thesis by (intro that [of C]) (auto simp: rc_after_def)
  next
    case (Some v)
    obtain c1 C1 where d: "rc_define f c C v 1 = (c1, C1)" by fastforce
    with rc_define_own [OF d z] assms(1,5) Some j show ?thesis
      by (intro that [of C1]) (auto simp: rc_after_def opt_list_def)
  qed
qed

lemma new_slot_later:
  assumes "new_slot c = (s, c')"
  shows "later L c c'" "rc_scope c' = rc_scope c" "s = length (rc_slots c)" "slot_ok c' s"
    "sl_mark (rc_slots c' ! s) = length (rc_scope c)" "rc_errors c' = rc_errors c" "rc_labels c' = rc_labels c"
    "s < length (rc_slots c')"
  using assms by (auto simp: new_slot_def later_def slot_ok_def nth_append)

lemma later_mark:
  "later L c c' \<Longrightarrow> s < length (rc_slots c) \<Longrightarrow> sl_mark (rc_slots c' ! s) = sl_mark (rc_slots c ! s)"
  by (simp add: later_def slot_le_def)

lemma zero_out_scope: "rc_scope c' = rc_scope c \<Longrightarrow> zero_out c' T = zero_out c T"
  by (simp add: zero_out_def)

text \<open>The statements, over sequences whose check is sound.\<close>

definition stmt_sound ::
  "lir_module \<Rightarrow> lir_fn \<Rightarrow> label_id set \<Rightarrow> rc_check \<Rightarrow> counts \<Rightarrow> nat option \<Rightarrow> stmt_id \<Rightarrow> counts option \<Rightarrow> rc_check \<Rightarrow> bool" where
  "stmt_sound m f L c T lh s T' c' \<longleftrightarrow>
     (\<forall>tr out. path_stmt f s tr out \<longrightarrow>
        (\<exists>C. count_path m f tr T = Some C
           \<and> (case out of None \<Rightarrow> T' = Some C \<and> zero_out c' C | Some r \<Rightarrow> ended c' None lh L r C)))"

lemma stmt_soundI:
  assumes "\<And>tr. path_stmt f s tr None \<Longrightarrow> \<exists>C. count_path m f tr T = Some C \<and> T' = Some C \<and> zero_out c' C"
    and "\<And>tr r. path_stmt f s tr (Some r) \<Longrightarrow> \<exists>C. count_path m f tr T = Some C \<and> ended c' None lh L r C"
  shows "stmt_sound m f L c T lh s T' c'"
  unfolding stmt_sound_def
proof (intro allI impI)
  fix tr out assume "path_stmt f s tr out"
  then show "\<exists>C. count_path m f tr T = Some C
      \<and> (case out of None \<Rightarrow> T' = Some C \<and> zero_out c' C | Some r \<Rightarrow> ended c' None lh L r C)"
    using assms(1) [of tr] assms(2) [of tr] by (cases out) simp_all
qed

lemma rc_bodies_later:
  assumes "\<And>b. b \<in> set bs \<Longrightarrow> rc_sound call m f L V b" "rc_bodies call c bs T yt lh = Some c'"
  shows "later L c c'" "rc_scope c' = rc_scope c"
proof -
  have "later L c c' \<and> rc_scope c' = rc_scope c"
    using assms
  proof (induction bs arbitrary: c)
    case (Cons b bs)
    then obtain c1 where c1: "call c b T [] yt lh = Some c1" "rc_bodies call c1 bs T yt lh = Some c'"
      by (auto split: Option.bind_splits)
    have "rc_sound call m f L V b" using Cons.prems(1) by simp
    from rc_soundD [OF this c1(1)] have b: "later L c c1" "rc_scope c1 = rc_scope c" .
    have "later L c1 c' \<and> rc_scope c' = rc_scope c1" using Cons.IH [OF _ c1(2)] Cons.prems(1) by simp
    with b show ?case using later_trans [of L c c1 c'] by simp
  qed simp
  then show "later L c c'" "rc_scope c' = rc_scope c" by simp_all
qed

lemma rc_bodies_path:
  assumes "\<And>b. b \<in> set bs \<Longrightarrow> rc_sound call m f L V b" "rc_bodies call c bs T yt lh = Some c'" "rc_errors c' = []"
    "set (rc_scope c) = V" "zero_out c T" "slots_ok L yt lh c" "b \<in> set bs" "path_seq f b tr out"
  shows "\<exists>C. count_path m f tr T = Some C \<and> ended c' yt lh L out C"
  using assms
proof (induction bs arbitrary: c)
  case (Cons a bs)
  then obtain c1 where c1: "call c a T [] yt lh = Some c1" "rc_bodies call c1 bs T yt lh = Some c'"
    by (auto split: Option.bind_splits)
  have a: "rc_sound call m f L V a" and bs: "\<And>b. b \<in> set bs \<Longrightarrow> rc_sound call m f L V b"
    using Cons.prems(1) by simp_all
  note l1 = rc_soundD [OF a c1(1)] and l2 = rc_bodies_later [OF bs c1(2)]
  show ?case
  proof (cases "b = a")
    case True
    obtain C where "count_path m f tr T = Some C" "ended c1 yt lh L out C"
      using rc_sound_path [OF a c1(1) later_clean [OF l2(1) Cons.prems(3)], of c T tr out] Cons.prems True by auto
    with ended_later [OF _ l2(1)] show ?thesis by blast
  next
    case False
    show ?thesis
      by (rule Cons.IH [OF bs c1(2)])
        (use Cons.prems False l1 slots_ok_later [OF _ l1(1)] zero_out_scope [OF l1(2)] in auto)
  qed
qed simp

lemma rc_branches_sound:
  assumes bs: "\<And>b. b \<in> set bs \<Longrightarrow> rc_sound call m f L (set (rc_scope c)) b"
    and br: "get_stmt f s = Some stmt" "branches stmt = Some (vs, d, bs)"
    and run: "new_slot c = (k, c1)" "rc_bodies call c1 bs T (Some k) lh = Some c2" "rc_after f c2 k T d = (T', c')"
    and ok: "rc_errors c' = []" "zero_out c T" "slots_ok L yt lh c" "counted_of f (opt_list d) \<inter> set (rc_scope c) = {}"
    and read: "count_event m f (ERead vs) T = Some T"
  shows "stmt_sound m f L c T lh s T' c'"
proof -
  note n = new_slot_later [OF run(1)]
  have bs': "\<And>b. b \<in> set bs \<Longrightarrow> rc_sound call m f L (set (rc_scope c1)) b" using bs n(2) by simp
  note b = rc_bodies_later [OF bs' run(2)] and a = rc_after_later [OF run(3)]
  have ok1: "slots_ok L (Some k) lh c1" "zero_out c1 T" "zero_out c2 T"
    using slots_ok_later [OF ok(3) n(1)] n(4) ok(2) n(2) b(2) by (auto simp: slots_ok_def zero_out_def)
  have clean2: "rc_errors c2 = []" using a(1) ok(1) by (rule later_clean)
  have mark: "sl_mark (rc_slots c2 ! k) = length (rc_scope c2)" using later_mark [OF b(1) n(8)] n(2,5) b(2) by simp
  have body: "\<exists>C. count_path m f tr T = Some C \<and> ended c2 (Some k) lh L out C"
    if "x \<in> set bs" "path_seq f x tr out" for x tr out
    by (rule rc_bodies_path [OF bs' run(2) clean2 refl ok1(2,1) that])
  show ?thesis
  proof (rule stmt_soundI)
    fix tr assume "path_stmt f s tr None"
    then obtain x tr' where x: "x \<in> set bs" "path_seq f x tr' OYield" "tr = ERead vs # tr' @ own_events d"
      using br by (auto elim!: path_stmtE)
    from body [OF x(1,2)] obtain C where C: "count_path m f tr' T = Some C" "delivered c2 k C" by auto
    obtain C' where "count_path m f (own_events d) C = Some C'" "T' = Some C'" "zero_out c' C'"
      using rc_after_own [OF run(3) C(2) mark ok1(3)] ok(4) n(2) b(2) by auto
    with C x(3) read show "\<exists>C. count_path m f tr T = Some C \<and> T' = Some C \<and> zero_out c' C"
      by (simp add: count_path_append)
  next
    fix tr r assume "path_stmt f s tr (Some r)"
    then obtain x tr' where x: "x \<in> set bs" "path_seq f x tr' r" "tr = ERead vs # tr'" "r \<noteq> OYield"
      using br by (auto elim!: path_stmtE)
    from body [OF x(1,2)] obtain C where C: "count_path m f tr' T = Some C" "ended c2 (Some k) lh L r C" by auto
    from ended_later [OF ended_out [OF C(2) x(4)] a(1)] have "ended c' None lh L r C" .
    with C x(3) read show "\<exists>C. count_path m f tr T = Some C \<and> ended c' None lh L r C" by simp
  qed
qed

lemma rc_block_sound:
  assumes b: "rc_sound call m f (insert l L) (set (rc_scope c)) b"
    and br: "get_stmt f s = Some (SBlock d l b)" "l \<notin> L"
    and run: "new_slot c = (k, c1)" "call (c1\<lparr>rc_labels := (rc_labels c1)(l \<mapsto> k)\<rparr>) b T [] (Some k) lh = Some c2"
      "rc_after f c2 k T d = (T', c')"
    and ok: "rc_errors c' = []" "zero_out c T" "slots_ok L yt lh c" "counted_of f (opt_list d) \<inter> set (rc_scope c) = {}"
  shows "stmt_sound m f L c T lh s T' c'"
proof -
  let ?c = "c1\<lparr>rc_labels := (rc_labels c1)(l \<mapsto> k)\<rparr>"
  note n = new_slot_later [OF run(1)] and bd = rc_soundD [OF b run(2)] and a = rc_after_later [OF run(3)]
  have lt: "later L c1 ?c" using br(2) by (auto simp: later_def)
  have sk: "slot_ok ?c k" using n(4) by (simp add: slot_ok_def)
  have ok1: "slots_ok (insert l L) (Some k) lh ?c"
    using slots_ok_later [OF slots_ok_later [OF ok(3) n(1)] lt] sk unfolding slots_ok_def by auto
  have scope: "rc_scope ?c = rc_scope c" "rc_scope c2 = rc_scope c" using n(2) bd(2) by simp_all
  have zo: "zero_out ?c T" "zero_out c2 T" using ok(2) scope by (simp_all add: zero_out_def)
  have clean2: "rc_errors c2 = []" using a(1) ok(1) by (rule later_clean)
  have mark: "sl_mark (rc_slots c2 ! k) = length (rc_scope c2)" using later_mark [OF bd(1), of k] n(5,8) scope by simp
  have lab: "rc_labels c2 l = Some k" using bd(1) by (simp add: later_def)
  have body: "\<exists>C. count_path m f tr T = Some C \<and> ended c2 (Some k) lh (insert l L) out C"
    if "path_seq f b tr out" for tr out
    using rc_sound_path [OF b run(2) clean2 _ _ zo(1) ok1 that, of ?c T] scope by auto
  show ?thesis
  proof (rule stmt_soundI)
    fix tr assume "path_stmt f s tr None"
    then obtain tr' out where x: "path_seq f b tr' out" "out = OYield \<or> out = OBreak l" "tr = tr' @ own_events d"
      using br by (auto elim!: path_stmtE)
    from body [OF x(1)] x(2) lab obtain C where C: "count_path m f tr' T = Some C" "delivered c2 k C" by auto
    obtain C' where "count_path m f (own_events d) C = Some C'" "T' = Some C'" "zero_out c' C'"
      using rc_after_own [OF run(3) C(2) mark zo(2)] ok(4) scope by auto
    with C x(3) show "\<exists>C. count_path m f tr T = Some C \<and> T' = Some C \<and> zero_out c' C"
      by (simp add: count_path_append)
  next
    fix tr r assume "path_stmt f s tr (Some r)"
    then have x: "path_seq f b tr r" "r \<noteq> OYield" "r \<noteq> OBreak l"
      using br by (auto elim!: path_stmtE)
    from body [OF x(1)] obtain C where C: "count_path m f tr T = Some C" "ended c2 (Some k) lh (insert l L) r C" by auto
    from ended_later [OF ended_unblock [OF ended_out [OF C(2) x(2)] x(3)] a(1)] C(1)
    show "\<exists>C. count_path m f tr T = Some C \<and> ended c' None lh L r C" by blast
  qed
qed

text \<open>A loop: the head expects the counts of the entry, so every iteration starts with them.\<close>

lemma rc_loop_paths:
  assumes b: "rc_sound call m f L V b"
    and run: "call c b T (map (\<lambda>v. (v, 1)) vs) (Some k) (Some h) = Some c2" "rc_errors c2 = []"
    and ok: "zero_out c T" "slots_ok L (Some k) (Some h) c" "distinct vs" "counted_of f vs \<inter> set (rc_scope c) = {}"
      "V = set (rc_scope c) \<union> counted_of f vs"
    and hd: "h < length (rc_slots c)" "sl_mark (rc_slots c ! h) = length (rc_scope c)"
      "sl_expected (rc_slots c ! h) = Some (map T (rc_scope c))"
    and path: "path_loop f vs b tr out"
  shows "\<exists>C. count_path m f tr T = Some C \<and> ended c2 (Some k) (Some h) L out C"
proof -
  obtain c1 T1 where ds: "rc_defs f c T (map (\<lambda>v. (v, 1)) vs) = (c1, T1)" by fastforce
  have own: "count_path m f (map EOwn vs) T = Some T1" by (rule rc_defs_own [OF ds ok(1,3,4)])
  have scope: "set (rc_scope c1) = V" using rc_defs_scope [OF ds] ok(5) by (auto simp: counted_of_def comp_def)
  note bd = rc_soundD [OF b run(1)]
  have iter: "\<exists>C. count_path m f tr T1 = Some C \<and> ended c2 (Some k) (Some h) L out C" if "path_seq f b tr out" for tr out
    using rc_sound_path [OF b run(1,2) ds scope ok(1,2) that] by blast
  have again: "C = T" if "delivered c2 h C" for C
  proof -
    have "slot_le (rc_slots c ! h) (rc_slots c2 ! h)" by (rule later_slot(2) [OF bd(1) hd(1)])
    then have "map C (rc_scope c) = map T (rc_scope c)" "\<forall>v. v \<notin> set (rc_scope c) \<longrightarrow> C v = 0"
      using that hd bd(2) by (auto simp: slot_le_def delivered_def)
    then show "C = T" using ok(1) by (auto simp: fun_eq_iff zero_out_def)
  qed
  from path show ?thesis
  proof (induction rule: path_loop_induct)
    case (last tr out)
    with iter own show ?case by (simp add: count_path_append)
  next
    case (again tr tr' out)
    from iter [OF again(1)] obtain C where "count_path m f tr T1 = Some C" "delivered c2 h C" by auto
    with \<open>delivered c2 h C \<Longrightarrow> C = T\<close> own again(3) show ?case by (simp add: count_path_append)
  qed
qed

lemma rc_loop_sound:
  assumes b: "rc_sound call m f L (set (rc_scope c) \<union> counted_of f vs) b"
    and br: "get_stmt f s = Some (SLoop d vs inits b)"
    and run: "foldl (rc_take w) (c, T) (operand_vars f inits) = (c0, T0)" "new_slot c0 = (k, c1)" "new_slot c1 = (h, c2)"
      "c3 = c2\<lparr>rc_slots := (rc_slots c2)[h := (rc_slots c2 ! h)\<lparr>sl_expected := Some (map T0 (rc_scope c2))\<rparr>]\<rparr>"
      "call c3 b T0 (map (\<lambda>v. (v, 1)) vs) (Some k) (Some h) = Some c4" "rc_after f c4 k T0 d = (T', c')"
    and ok: "rc_errors c' = []" "zero_out c T" "slots_ok L yt lh c" "counted_of f (opt_list d) \<inter> set (rc_scope c) = {}"
      "distinct vs" "counted_of f vs \<inter> set (rc_scope c) = {}"
  shows "stmt_sound m f L c T lh s T' c'"
proof -
  note n1 = new_slot_later [OF run(2)] and n2 = new_slot_later [OF run(3)]
    and bd = rc_soundD [OF b run(5)] and a = rc_after_later [OF run(6)]
  have l3: "later L c2 c3"
    using n2 by (auto simp: run(4) later_def nth_list_update slot_le_def)
      (use run(3) in \<open>auto simp: new_slot_def\<close>)
  have l03: "later L c0 c3" using later_trans [OF later_trans [OF n1(1) n2(1)] l3] .
  have clean4: "rc_errors c4 = []" using a(1) ok(1) by (rule later_clean)
  then have "rc_errors c0 = []" using later_clean [OF later_trans [OF l03 bd(1)]] by simp
  from rc_takes_take_all [OF run(1) this] have c0: "c0 = c" and t0: "take_all (operand_vars f inits) T = Some T0" by simp_all
  have scope: "rc_scope c3 = rc_scope c" "rc_scope c4 = rc_scope c" "rc_scope c2 = rc_scope c"
    using n1(2) n2(2) bd(2) c0 by (simp_all add: run(4))
  have zo: "zero_out c3 T0" "zero_out c4 T0" using take_all_zero_out [OF t0 ok(2)] scope by (simp_all add: zero_out_def)
  have "slots_ok L None None c3" using slots_ok_later [OF ok(3)] l03 c0 by (auto simp: slots_ok_def)
  moreover have "slot_ok c3 k" "slot_ok c3 h"
    using slot_ok_later [OF n1(4) later_trans [OF n2(1) l3]] slot_ok_later [OF n2(4) l3] by simp_all
  ultimately have sok: "slots_ok L (Some k) (Some h) c3" by (simp add: slots_ok_def)
  have hd: "h < length (rc_slots c3)" "sl_mark (rc_slots c3 ! h) = length (rc_scope c3)"
    "sl_expected (rc_slots c3 ! h) = Some (map T0 (rc_scope c3))" using n2(2,5,8) by (simp_all add: run(4))
  have mark: "sl_mark (rc_slots c4 ! k) = length (rc_scope c4)"
    using later_mark [OF later_trans [OF later_trans [OF n2(1) l3] bd(1)] n1(8)] n1(5) scope c0 by simp
  have body: "\<exists>C. count_path m f tr T0 = Some C \<and> ended c4 (Some k) (Some h) L out C" if "path_loop f vs b tr out" for tr out
    using rc_loop_paths [OF b run(5) clean4 zo(1) sok ok(5) _ _ hd that] ok(6) scope by simp
  show ?thesis
  proof (rule stmt_soundI)
    fix tr assume "path_stmt f s tr None"
    then obtain tr' where x: "path_loop f vs b tr' OYield" "tr = EInit inits # tr' @ own_events d"
      using br by (auto elim!: path_stmtE)
    from body [OF x(1)] obtain C where C: "count_path m f tr' T0 = Some C" "delivered c4 k C" by auto
    obtain C' where "count_path m f (own_events d) C = Some C'" "T' = Some C'" "zero_out c' C'"
      using rc_after_own [OF run(6) C(2) mark zo(2)] ok(4) scope by auto
    with C x(2) t0 show "\<exists>C. count_path m f tr T = Some C \<and> T' = Some C \<and> zero_out c' C"
      by (simp add: count_path_append)
  next
    fix tr r assume "path_stmt f s tr (Some r)"
    then obtain tr' where x: "path_loop f vs b tr' r" "tr = EInit inits # tr'" "r \<noteq> OYield"
      using br by (auto elim!: path_stmtE)
    from body [OF x(1)] obtain C where C: "count_path m f tr' T0 = Some C" "ended c4 (Some k) (Some h) L r C" by auto
    from ended_later [OF ended_unloop [OF ended_out [OF C(2) x(3)] path_loop_not_recur [OF x(1)]] a(1)]
    have "ended c' None lh L r C" .
    with C x(2) t0 show "\<exists>C. count_path m f tr T = Some C \<and> ended c' None lh L r C" by auto
  qed
qed

lemma rc_letE:
  assumes "rc_let call m f c (SLet d val df su) d val su T lh = Some (T', c')"
  obtains c1 T1 c2 c3 c4 c5 T5 where
    "foldl (rc_take ''a consuming use of'') (c, T) (consumed_by m f val) = (c1, T1)"
    "c2 = foldl (rc_borrow f T1) c1 (borrowed_by m f val)"
    "case su of None \<Rightarrow> c3 = c2 | Some _ \<Rightarrow> \<exists>c2' T2. foldl (rc_take ''a suspension edge saves'') (c2, T1)
       (suspend_saved f (SLet d val df su)) = (c2', T2) \<and> rc_deliver None T2 c2' = Some c3"
    "case fail_landing val of None \<Rightarrow> c4 = c3 | Some (e, b) \<Rightarrow> call c3 b T1 [(e, 1)] None lh = Some c4"
    "case df of None \<Rightarrow> c5 = c4 | Some b \<Rightarrow> call c4 b T1 [] None lh = Some c5"
    "T' = Some T5" "case d of None \<Rightarrow> c' = c5 \<and> T5 = T1 | Some x \<Rightarrow> rc_define f c5 T1 x (if is_view f val then 0 else 1) = (c', T5)"
proof -
  obtain c1 T1 where t: "foldl (rc_take ''a consuming use of'') (c, T) (consumed_by m f val) = (c1, T1)" by fastforce
  let ?c2 = "foldl (rc_borrow f T1) c1 (borrowed_by m f val)"
  obtain c2' T2 where t2: "foldl (rc_take ''a suspension edge saves'') (?c2, T1) (suspend_saved f (SLet d val df su)) = (c2', T2)"
    by fastforce
  obtain c3 where c3: "(case su of None \<Rightarrow> Some ?c2 | Some _ \<Rightarrow> rc_deliver None T2 c2') = Some c3"
    using assms t t2 by (cases su) (auto simp: rc_let_def Let_def split: Option.bind_splits split del: if_split)
  obtain c4 where c4: "(case fail_landing val of None \<Rightarrow> Some c3 | Some (e, b) \<Rightarrow> call c3 b T1 [(e, 1)] None lh) = Some c4"
    using assms t t2 c3 by (cases su) (auto simp: rc_let_def Let_def split: Option.bind_splits split del: if_split)
  obtain c5 where c5: "(case df of None \<Rightarrow> Some c4 | Some b \<Rightarrow> call c4 b T1 [] None lh) = Some c5"
    using assms t t2 c3 c4 by (cases su) (auto simp: rc_let_def Let_def split: Option.bind_splits split del: if_split)
  have fin: "(case d of None \<Rightarrow> Some (Some T1, c5)
      | Some x \<Rightarrow> (case rc_define f c5 T1 x (if is_view f val then 0 else 1) of (c, T) \<Rightarrow> Some (Some T, c))) = Some (T', c')"
    using assms t t2 c3 c4 c5 by (cases su) (auto simp: rc_let_def Let_def split: Option.bind_splits split del: if_split)
  then obtain T5 where "T' = Some T5"
    "case d of None \<Rightarrow> c' = c5 \<and> T5 = T1 | Some x \<Rightarrow> rc_define f c5 T1 x (if is_view f val then 0 else 1) = (c', T5)"
    by (auto split: option.splits prod.splits)
  moreover have "case su of None \<Rightarrow> c3 = ?c2 | Some _ \<Rightarrow> \<exists>c2' T2. foldl (rc_take ''a suspension edge saves'') (?c2, T1)
       (suspend_saved f (SLet d val df su)) = (c2', T2) \<and> rc_deliver None T2 c2' = Some c3"
    using c3 t2 by (cases su) auto
  moreover have "case fail_landing val of None \<Rightarrow> c4 = c3 | Some (e, b) \<Rightarrow> call c3 b T1 [(e, 1)] None lh = Some c4"
    using c4 by (cases "fail_landing val") auto
  moreover have "case df of None \<Rightarrow> c5 = c4 | Some b \<Rightarrow> call c4 b T1 [] None lh = Some c5"
    using c5 by (cases df) auto
  ultimately show ?thesis using that [OF t refl] by blast
qed

lemma rc_let_later:
  assumes fl: "\<And>e b. fail_landing val = Some (e, b) \<Longrightarrow> rc_sound call m f L (V \<union> counted_of f [e]) b"
    and df: "\<And>b. df = Some b \<Longrightarrow> rc_sound call m f L V b"
    and run: "rc_let call m f c (SLet d val df su) d val su T lh = Some (T', c')"
  obtains c1 T1 c3 c4 c5 T5 where
    "foldl (rc_take ''a consuming use of'') (c, T) (consumed_by m f val) = (c1, T1)"
    "later L c c1" "later L (foldl (rc_borrow f T1) c1 (borrowed_by m f val)) c3"
    "later L c1 (foldl (rc_borrow f T1) c1 (borrowed_by m f val))"
    "later L c3 c4" "later L c4 c5" "later L c5 c'"
    "rc_scope c3 = rc_scope c" "rc_scope c4 = rc_scope c" "rc_scope c5 = rc_scope c"
    "rc_scope c' = rc_scope c @ filter (counted f) (opt_list d)"
    "su \<noteq> None \<Longrightarrow> \<exists>c2' T2. foldl (rc_take ''a suspension edge saves'') (foldl (rc_borrow f T1) c1 (borrowed_by m f val), T1)
       (suspend_saved f (SLet d val df su)) = (c2', T2) \<and> rc_deliver None T2 c2' = Some c3"
    "\<And>e b. fail_landing val = Some (e, b) \<Longrightarrow> call c3 b T1 [(e, 1)] None lh = Some c4"
    "\<And>b. df = Some b \<Longrightarrow> call c4 b T1 [] None lh = Some c5"
    "T' = Some T5" "case d of None \<Rightarrow> c' = c5 \<and> T5 = T1 | Some x \<Rightarrow> rc_define f c5 T1 x (if is_view f val then 0 else 1) = (c', T5)"
  using run
proof (rule rc_letE, goal_cases)
  case (1 c1 T1 c2 c3 c4 c5 T5)
  have r1: "reports c c1" by (rule rc_takes_reports [OF 1(2)])
  have r2: "reports c1 c2" unfolding 1(3) by (rule rc_borrow_reports)
  have s2: "rc_scope c2 = rc_scope c" using r1 r2 by (simp add: reports_def)
  have l3: "later L c2 c3 \<and> rc_scope c3 = rc_scope c2"
  proof (cases su)
    case None
    with 1(4) show ?thesis by simp
  next
    case (Some x)
    with 1(4) obtain c2' T2 where t: "foldl (rc_take ''a suspension edge saves'') (c2, T1)
       (suspend_saved f (SLet d val df su)) = (c2', T2)" "rc_deliver None T2 c2' = Some c3" by auto
    note r = rc_takes_reports [OF t(1)] and dl = rc_deliver_later [OF t(2)]
    from later_trans [OF reports_later [OF r] dl(1)] r dl(2) show ?thesis by (simp add: reports_def)
  qed
  have l4: "later L c3 c4 \<and> rc_scope c4 = rc_scope c3"
  proof (cases "fail_landing val")
    case None
    with 1(5) show ?thesis by simp
  next
    case (Some eb)
    obtain e b where "eb = (e, b)" by (cases eb)
    with 1(5) Some rc_soundD [OF fl, of e b c3 T1 "[(e, 1)]" None lh c4] show ?thesis by simp
  qed
  have l5: "later L c4 c5 \<and> rc_scope c5 = rc_scope c4"
  proof (cases df)
    case None
    with 1(6) show ?thesis by simp
  next
    case (Some b)
    with 1(6) rc_soundD [OF df, of b c4 T1 "[]" None lh c5] show ?thesis by simp
  qed
  have l6: "later L c5 c' \<and> rc_scope c' = rc_scope c5 @ filter (counted f) (opt_list d)"
    using 1(8) by (auto simp: opt_list_def rc_define_later rc_define_scope split: option.splits)
  show ?case
    by (rule 1(1) [of c1 T1 c3 c4 c5 T5])
      (use 1(2-8) s2 l3 l4 l5 l6 reports_later [OF r1] reports_later [OF r2] in \<open>auto split: option.splits\<close>)
qed

lemma rc_let_sound:
  assumes fl: "\<And>e b. fail_landing val = Some (e, b) \<Longrightarrow> rc_sound call m f L (set (rc_scope c) \<union> counted_of f [e]) b"
    and df: "\<And>b. df = Some b \<Longrightarrow> rc_sound call m f L (set (rc_scope c)) b"
    and run: "rc_let call m f c (SLet d val df su) d val su T lh = Some (T', c')"
    and br: "get_stmt f s = Some (SLet d val df su)"
    and ok: "rc_errors c' = []" "zero_out c T" "slots_ok L yt lh c" "counted_of f (opt_list d) \<inter> set (rc_scope c) = {}"
      "\<And>e b. fail_landing val = Some (e, b) \<Longrightarrow> counted_of f [e] \<inter> set (rc_scope c) = {}"
  shows "stmt_sound m f L c T lh s T' c'"
proof (rule rc_let_later [OF fl df run], assumption, assumption, goal_cases)
  case (1 c1 T1 c3 c4 c5 T5)
  let ?c2 = "foldl (rc_borrow f T1) c1 (borrowed_by m f val)"
  have clean5: "rc_errors c5 = []" by (rule later_clean [OF 1(7) ok(1)])
  have clean4: "rc_errors c4 = []" by (rule later_clean [OF 1(6) clean5])
  have clean3: "rc_errors c3 = []" by (rule later_clean [OF 1(5) clean4])
  have clean2: "rc_errors ?c2 = []" by (rule later_clean [OF 1(3) clean3])
  have "rc_errors c1 = []" by (rule later_clean [OF 1(4) clean2])
  from rc_takes_take_all [OF 1(1) this] have c1: "c1 = c" and t1: "take_all (consumed_by m f val) T = Some T1" by simp_all
  from rc_borrows_ok [OF clean2] have c2: "?c2 = c" and bo: "list_all (borrow_ok f T1) (borrowed_by m f val)"
    using c1 by simp_all
  have ev: "count_event m f (ELet s) T = Some T1" using br t1 bo by simp
  have l3: "later L c c3" and l4: "later L c c4" and l53: "later L c3 c'" and l54: "later L c4 c'"
    using 1(3,5,6,7) c2 later_trans by (simp, metis, metis, metis)
  have zo: "zero_out c T1" by (rule take_all_zero_out [OF t1 ok(2)])
  have zos: "zero_out c3 T1" "zero_out c4 T1" "zero_out c5 T1" using zo 1(8-10) by (simp_all add: zero_out_def)
  show ?thesis
  proof (rule stmt_soundI)
    fix tr assume "path_stmt f s tr None"
    then have tr: "tr = ELet s # dst_events s d" using br by (auto elim!: path_stmtE)
    show "\<exists>C. count_path m f tr T = Some C \<and> T' = Some C \<and> zero_out c' C"
    proof (cases d)
      case None
      with tr ev zos(3) 1(15,16) show ?thesis by simp
    next
      case (Some x)
      with 1(16) have dfn: "rc_define f c5 T1 x (if is_view f val then 0 else 1) = (c', T5)" by simp
      have "counted_of f [x] \<inter> set (rc_scope c5) = {}" using ok(4) Some 1(10) by (simp add: opt_list_def)
      from rc_define_own [OF dfn zos(3) this] Some tr ev br 1(15) show ?thesis by simp
    qed
  next
    fix tr r assume "path_stmt f s tr (Some r)"
    then consider
        (fail) e b tr' where "fail_landing val = Some (e, b)" "path_seq f b tr' r" "r \<noteq> OYield" "tr = ELet s # EOwn e # tr'"
      | (defect) b tr' where "df = Some b" "path_seq f b tr' r" "r \<noteq> OYield" "tr = ELet s # tr'"
      | (suspend) "su \<noteq> None" "tr = [ELet s, ESuspend s]" "r = OLeave"
      using br by (auto elim!: path_stmtE)
    then show "\<exists>C. count_path m f tr T = Some C \<and> ended c' None lh L r C"
    proof cases
      case fail
      obtain c6 T6 where ds: "rc_defs f c3 T1 [(e, 1)] = (c6, T6)" by fastforce
      have "count_path m f (map EOwn [e]) T1 = Some T6"
        using ds ok(5) [OF fail(1)] 1(8) by (intro rc_defs_own [of f c3]) (simp_all add: zos)
      moreover have "set (rc_scope c6) = set (rc_scope c) \<union> counted_of f [e]"
        using rc_defs_scope [OF ds] 1(8) by (simp add: counted_of_def)
      moreover have "slots_ok L None lh c3" by (rule slots_ok_later [OF slots_ok_none [OF ok(3)] l3])
      ultimately obtain C where "count_path m f tr' T6 = Some C" "ended c4 None lh L r C" "own f e 1 T1 = Some T6"
        using rc_sound_path [OF fl [OF fail(1)] 1(13) [OF fail(1)] clean4 ds _ zos(1) _ fail(2)] by auto
      with ended_later [OF _ l54] fail(4) ev show ?thesis by simp
    next
      case defect
      have "slots_ok L None lh c4" by (rule slots_ok_later [OF slots_ok_none [OF ok(3)] l4])
      then obtain C where "count_path m f tr' T1 = Some C" "ended c5 None lh L r C"
        using rc_sound_path [OF df [OF defect(1)] 1(14) [OF defect(1)] clean5, of c4 T1] 1(9) zos(2) defect(2) by auto
      with ended_later [OF _ 1(7)] defect(4) ev show ?thesis by auto
    next
      case suspend
      from 1(12) [OF suspend(1)] obtain c2' T2 where t: "foldl (rc_take ''a suspension edge saves'') (c, T1)
          (suspend_saved f (SLet d val df su)) = (c2', T2)" "rc_deliver None T2 c2' = Some c3" using c2 by auto
      have "rc_errors c2' = []" by (rule later_clean [OF rc_deliver_later(1) [OF t(2)] clean3])
      from rc_takes_take_all [OF t(1) this]
      have t2: "c2' = c" "take_all (suspend_saved f (SLet d val df su)) T1 = Some T2" by simp_all
      have "T2 = (\<lambda>v. 0)" using rc_deliver_out [OF t(2) clean3] take_all_zero_out [OF t2(2) zo] t2(1) by simp
      with suspend ev br t2(2) show ?thesis by simp
    qed
  qed
qed

definition stmt_done ::
  "lir_module \<Rightarrow> lir_fn \<Rightarrow> label_id set \<Rightarrow> var_id set \<Rightarrow> rc_check \<Rightarrow> counts \<Rightarrow> nat option \<Rightarrow> stmt_id \<Rightarrow> lir_stmt
     \<Rightarrow> counts option \<Rightarrow> rc_check \<Rightarrow> bool" where
  "stmt_done m f L V c T lh s stmt T' c' \<longleftrightarrow>
     later L c c' \<and> (T' \<noteq> None \<longrightarrow> rc_scope c' = rc_scope c @ filter (counted f) (opt_list (stmt_dst stmt)))
     \<and> (rc_errors c' = [] \<longrightarrow> zero_out c T \<longrightarrow> slots_ok L None lh c \<longrightarrow> set (rc_scope c) = V \<longrightarrow>
         stmt_sound m f L c T lh s T' c')"

lemma rc_branches_done:
  assumes bs: "\<And>b. b \<in> set bs \<Longrightarrow> rc_sound call m f L V b"
    and br: "get_stmt f s = Some stmt" "branches stmt = Some (vs, d, bs)"
    and run: "new_slot c = (k, c1)" "rc_bodies call c1 bs T (Some k) lh = Some c2" "rc_after f c2 k T d = (T', c')"
    and ok: "counted_of f (opt_list d) \<inter> V = {}" "rc_errors c' = [] \<Longrightarrow> count_event m f (ERead vs) T = Some T"
  shows "stmt_done m f L V c T lh s stmt T' c'"
proof -
  note n = new_slot_later [OF run(1)] and b = rc_bodies_later [OF bs run(2)] and a = rc_after_later [OF run(3)]
  have "later L c c'" by (rule later_trans [OF later_trans [OF n(1) b(1)] a(1)]) simp_all
  moreover have "stmt_dst stmt = d" using br(2) by (cases stmt) auto
  then have "rc_scope c' = rc_scope c @ filter (counted f) (opt_list (stmt_dst stmt))" if "T' \<noteq> None"
    using a(2) [OF that] b(2) n(2) by simp
  moreover have "stmt_sound m f L c T lh s T' c'"
    if "rc_errors c' = []" "zero_out c T" "slots_ok L None lh c" "set (rc_scope c) = V"
    by (rule rc_branches_sound [OF _ br run that(1-3)]) (use bs ok that in simp_all)
  ultimately show ?thesis by (simp add: stmt_done_def)
qed

lemma rc_stmt_done:
  assumes W: "\<And>L V b. W L V b \<Longrightarrow> rc_sound call m f L V b"
    and st: "get_stmt f s = Some stmt" "wf_stmt W f L V stmt" and run: "rc_stmt call m f c s T lh = Some (T', c')"
  shows "stmt_done m f L V c T lh s stmt T' c'"
proof (cases stmt)
  case (SLet d val df su)
  have run': "rc_let call m f c (SLet d val df su) d val su T lh = Some (T', c')"
    using run st(1) SLet by (simp add: rc_stmt_def)
  have fl: "rc_sound call m f L (V \<union> counted_of f [e]) b" "counted_of f [e] \<inter> V = {}" if "fail_landing val = Some (e, b)" for e b
    using st(2) SLet that W by simp_all
  have df: "rc_sound call m f L V b" if "df = Some b" for b using st(2) SLet that W by simp
  have "later L c c' \<and> rc_scope c' = rc_scope c @ filter (counted f) (opt_list d)"
    by (rule rc_let_later [OF fl(1) df run']) (simp_all, metis later_trans)
  moreover have "stmt_sound m f L c T lh s T' c'"
    if "rc_errors c' = []" "zero_out c T" "slots_ok L None lh c" "set (rc_scope c) = V"
    by (rule rc_let_sound [OF _ _ run' st(1) [unfolded SLet] that(1-3)]) (use fl df that st(2) SLet in simp_all)
  ultimately show ?thesis using SLet by (simp add: stmt_done_def)
next
  case (SDup v)
  then have c': "c' = c" "T' = Some (T(v := T v + 1))" using run st(1) by (auto simp: rc_stmt_def)
  have "stmt_sound m f L c T lh s T' c'" if "zero_out c T" "set (rc_scope c) = V"
    by (rule stmt_soundI) (use that st SDup c' in \<open>auto elim!: path_stmtE simp: zero_out_def\<close>)
  with SDup c' show ?thesis by (simp add: stmt_done_def opt_list_def)
next
  case (SDrop v)
  obtain c1 T1 where t: "rc_take ''drop of'' (c, T) v = (c1, T1)" by fastforce
  then have c': "c' = c1" "T' = Some T1" using run st(1) SDrop by (auto simp: rc_stmt_def)
  have r: "reports c c'" using rc_takes_reports [of "''drop of''" c T "[v]"] t c' by simp
  have "stmt_sound m f L c T lh s T' c'" if "rc_errors c' = []" "zero_out c T"
  proof -
    have "take_all [v] T = Some T1" "c' = c" using rc_takes_take_all [of "''drop of''" c T "[v]" c1 T1] t that(1) c' by simp_all
    with take_all_zero_out [OF this(1) that(2)] st SDrop c'
    show ?thesis by (intro stmt_soundI) (auto elim!: path_stmtE)
  qed
  with SDrop c' reports_later [OF r] r show ?thesis by (simp add: stmt_done_def opt_list_def reports_def)
next
  case (SIf d cond a b)
  obtain k c1 where n: "new_slot c = (k, c1)" by fastforce
  obtain c2 where c2: "rc_bodies call c1 [a, b] T (Some k) lh = Some c2" "rc_after f c2 k T d = (T', c')"
    using run st(1) SIf n by (auto simp: rc_stmt_def split: Option.bind_splits)
  show ?thesis
    by (rule rc_branches_done [OF _ st(1) _ n c2])
      (use SIf st(2) W in \<open>auto simp: counted_of_def list_all_iff filter_empty_conv\<close>)
next
  case (SSwitch d on cs df)
  let ?v = "switch_var on"
  let ?c = "if counted f ?v then rc_borrow f T c ?v else c"
  obtain k c1 where n: "new_slot ?c = (k, c1)" by fastforce
  obtain c2 where c2: "rc_bodies call c1 (map sc_body cs @ opt_list df) T (Some k) lh = Some c2" "rc_after f c2 k T d = (T', c')"
    using run st(1) SSwitch n by (auto simp: rc_stmt_def Let_def split: Option.bind_splits)
  have bs: "rc_sound call m f L V b" if "b \<in> set (map sc_body cs @ opt_list df)" for b
    using that st(2) SSwitch W by auto
  have r: "reports c ?c" by (simp add: rc_borrow_def)
  have l: "later L ?c c'"
    using later_trans [OF later_trans [OF new_slot_later(1) [OF n] rc_bodies_later(1) [OF bs c2(1)]] rc_after_later(1) [OF c2(2)]] .
  have read: "count_event m f (ERead [?v]) T = Some T" "?c = c" if "rc_errors c' = []"
    using later_clean [OF l that] by (auto simp: rc_borrow_def borrow_ok_def split: if_splits)
  have "stmt_done m f L V ?c T lh s stmt T' c'"
    by (rule rc_branches_done [OF bs st(1) _ n c2 _ read(1)]) (use SSwitch st(2) in auto)
  then show ?thesis using r read(2) later_trans [OF reports_later [OF r]] by (auto simp: stmt_done_def reports_def)
next
  case (SBlock d l b)
  obtain k c1 where n: "new_slot c = (k, c1)" by fastforce
  let ?c1 = "c1\<lparr>rc_labels := (rc_labels c1)(l \<mapsto> k)\<rparr>"
  obtain c2 where c2: "call ?c1 b T [] (Some k) lh = Some c2" "rc_after f c2 k T d = (T', c')"
    using run st(1) SBlock n by (auto simp: rc_stmt_def split: Option.bind_splits)
  have b: "rc_sound call m f (insert l L) V b" "l \<notin> L" using st(2) SBlock W by simp_all
  have "later L c1 ?c1" using b(2) by (auto simp: later_def)
  moreover have "later L ?c1 c2" by (rule later_mono [OF rc_soundD(1) [OF b(1) c2(1)]]) auto
  ultimately have "later L c c'"
    using new_slot_later(1) [OF n, of L] rc_after_later(1) [OF c2(2), of L] later_trans by blast
  moreover have "rc_scope c' = rc_scope c @ filter (counted f) (opt_list d)" if "T' \<noteq> None"
    using rc_after_later(2) [OF c2(2) that] rc_soundD(2) [OF b(1) c2(1)] new_slot_later(2) [OF n] by simp
  moreover have "stmt_sound m f L c T lh s T' c'"
    if "rc_errors c' = []" "zero_out c T" "slots_ok L None lh c" "set (rc_scope c) = V"
    by (rule rc_block_sound [OF b(1) [folded that(4)] st(1) [unfolded SBlock] b(2) n c2 that(1-3)]) (use b that st(2) SBlock in simp_all)
  ultimately show ?thesis using SBlock by (simp add: stmt_done_def)
next
  case (SLoop d vs inits b)
  let ?w = "''a loop's initial value consumes''"
  obtain c0 T0 where t: "foldl (rc_take ?w) (c, T) (operand_vars f inits) = (c0, T0)" by fastforce
  obtain k c1 where n1: "new_slot c0 = (k, c1)" by fastforce
  obtain h c2 where n2: "new_slot c1 = (h, c2)" by fastforce
  let ?c3 = "c2\<lparr>rc_slots := (rc_slots c2)[h := (rc_slots c2 ! h)\<lparr>sl_expected := Some (map T0 (rc_scope c2))\<rparr>]\<rparr>"
  obtain c4 where c4: "call ?c3 b T0 (map (\<lambda>v. (v, 1)) vs) (Some k) (Some h) = Some c4" "rc_after f c4 k T0 d = (T', c')"
    using run st(1) SLoop t n1 n2 by (auto simp: rc_stmt_def Let_def split: Option.bind_splits)
  have b: "rc_sound call m f L (V \<union> counted_of f vs) b" using st(2) SLoop W by simp
  have r: "reports c c0" by (rule rc_takes_reports [OF t])
  have "later L c2 ?c3"
    using new_slot_later(5,8) [OF n2] n2 by (auto simp: later_def nth_list_update slot_le_def new_slot_def)
  then have "later L c c4"
    using reports_later [OF r, of L] new_slot_later(1) [OF n1, of L] new_slot_later(1) [OF n2, of L]
      rc_soundD(1) [OF b c4(1)] later_trans by blast
  then have "later L c c'" using rc_after_later(1) [OF c4(2), of L] later_trans by blast
  moreover have "rc_scope c' = rc_scope c @ filter (counted f) (opt_list d)" if "T' \<noteq> None"
    using rc_after_later(2) [OF c4(2) that] rc_soundD(2) [OF b c4(1)] new_slot_later(2) [OF n1] new_slot_later(2) [OF n2] r
    by (simp add: reports_def)
  moreover have "stmt_sound m f L c T lh s T' c'"
    if "rc_errors c' = []" "zero_out c T" "slots_ok L None lh c" "set (rc_scope c) = V"
    by (rule rc_loop_sound [OF b [folded that(4)] st(1) [unfolded SLoop] t n1 n2 refl c4 that(1-3)]) (use b that st(2) SLoop in simp_all)
  ultimately show ?thesis using SLoop by (simp add: stmt_done_def)
next
  case (SProtect d b cl)
  with st(2) show ?thesis by simp
qed

lemma rc_term_later:
  assumes "rc_term f t T yt lh c = Some c'"
  shows "later L c c'" "rc_scope c' = rc_scope c"
proof -
  have "later L c c' \<and> rc_scope c' = rc_scope c"
  proof (cases T)
    case None
    with assms show ?thesis by (simp add: rc_term_def)
  next
    case (Some T1)
    obtain c1 T2 where t: "foldl (rc_take ''the terminator consumes'') (c, T1) (term_consumes f t) = (c1, T2)" by fastforce
    note r = rc_takes_reports [OF t]
    have "rc_term_deliver t T2 yt lh c1 = Some c'" using assms Some t by (simp add: rc_term_def)
    then have "later L c1 c' \<and> rc_scope c' = rc_scope c1"
      by (cases t) (auto split: option.splits intro: rc_deliver_later)
    with r later_trans [OF reports_later [OF r], of L c'] show ?thesis by (simp add: reports_def)
  qed
  then show "later L c c'" "rc_scope c' = rc_scope c" by simp_all
qed

lemma rc_term_sound:
  assumes "rc_term f t (Some T) yt lh c = Some c'" "rc_errors c' = []" "zero_out c T" "slots_ok L yt lh c" "term_labels t \<subseteq> L"
  shows "\<exists>C. take_all (term_consumes f t) T = Some C \<and> ended c' yt lh L (term_outcome t) C"
proof -
  obtain c1 T1 where t: "foldl (rc_take ''the terminator consumes'') (c, T) (term_consumes f t) = (c1, T1)" by fastforce
  have d: "rc_term_deliver t T1 yt lh c1 = Some c'" using assms(1) t by (simp add: rc_term_def)
  then have l: "later L c1 c'" by (cases t) (auto split: option.splits intro: rc_deliver_later)
  from rc_takes_take_all [OF t later_clean [OF l assms(2)]]
  have t1: "c1 = c" "take_all (term_consumes f t) T = Some T1" by simp_all
  have zo: "zero_out c1 T1" using take_all_zero_out [OF t1(2) assms(3)] t1(1) by simp
  have out: "T1 = (\<lambda>v. 0)" if "rc_deliver None T1 c1 = Some c'" by (rule rc_deliver_out [OF that assms(2) zo])
  have slot: "delivered c' s T1" if "rc_deliver (Some s) T1 c1 = Some c'" "slot_ok c s" for s
    using rc_deliver_slot [OF that(1) assms(2) zo] that(2) t1(1) by simp
  have "ended c' yt lh L (term_outcome t) T1"
  proof (cases t)
    case (Break k v)
    with assms(4,5) obtain s where s: "rc_labels c k = Some s" "slot_ok c s" "k \<in> L" by (auto simp: slots_ok_def)
    moreover have "rc_labels c' k = rc_labels c k" using l s(3) t1(1) by (simp add: later_def)
    ultimately show ?thesis using Break d t1(1) slot [of s] by simp
  qed (use d out slot assms(4) in \<open>auto simp: slots_ok_def split: option.splits\<close>)
  with t1(2) show ?thesis by simp
qed

lemma rc_stmts_None: "rc_stmts call m f c ss None lh = Some (None, c)"
  by (cases ss) simp_all

lemma rc_stmts_later:
  assumes W: "\<And>L V b. W L V b \<Longrightarrow> rc_sound call m f L V b"
    and "wf_stmts W f L V ss" "rc_stmts call m f c ss T lh = Some (T', c')"
  shows "later L c c'"
  using assms(2,3)
proof (induction ss arbitrary: c T V)
  case (Cons s ss)
  then obtain stmt where st: "get_stmt f s = Some stmt" "wf_stmt W f L V stmt"
    "wf_stmts W f L (V \<union> counted_of f (opt_list (stmt_dst stmt))) ss" by auto
  show ?case
  proof (cases T)
    case (Some T0)
    with Cons.prems(2) obtain T1 c1 where r: "rc_stmt call m f c s T0 lh = Some (T1, c1)" "rc_stmts call m f c1 ss T1 lh = Some (T', c')"
      by (auto split: Option.bind_splits)
    have "later L c c1" using rc_stmt_done [OF W st(1,2) r(1)] by (simp add: stmt_done_def)
    with Cons.IH [OF st(3) r(2)] show ?thesis using later_trans by blast
  qed (use Cons.prems in simp)
qed simp

lemma rc_stmts_sound:
  assumes W: "\<And>L V b. W L V b \<Longrightarrow> rc_sound call m f L V b"
    and "wf_stmts W f L V ss" "term_labels t \<subseteq> L"
    and "rc_stmts call m f c ss (Some T) lh = Some (T', c')" "rc_term f t T' yt lh c' = Some c''"
    and "rc_errors c'' = []" "zero_out c T" "slots_ok L yt lh c" "set (rc_scope c) = V" "path_stmts f ss t tr out"
  shows "\<exists>C. count_path m f tr T = Some C \<and> ended c'' yt lh L out C"
  using assms(2,4,7-)
proof (induction ss arbitrary: c T V tr)
  case Nil
  from Nil(6) consider "tr = []" "out = OStop" | "tr = [ETerm t]" "out = term_outcome t"
    by (rule path_stmts_NilE)
  then show ?case using rc_term_sound [of f t T yt lh c c'' L] assms(3,5,6) Nil by cases auto
next
  case (Cons s ss)
  then obtain stmt where st: "get_stmt f s = Some stmt" "wf_stmt W f L V stmt"
    "wf_stmts W f L (V \<union> counted_of f (opt_list (stmt_dst stmt))) ss" by auto
  from Cons.prems(2) obtain T1 c1 where r: "rc_stmt call m f c s T lh = Some (T1, c1)" "rc_stmts call m f c1 ss T1 lh = Some (T', c')"
    by (auto split: Option.bind_splits)
  have l1: "later L c1 c'" by (rule rc_stmts_later [OF W st(3) r(2)])
  have l2: "later L c1 c''" by (rule later_trans [OF l1 rc_term_later(1) [OF assms(5)]])
  have dn: "later L c c1" "T1 \<noteq> None \<Longrightarrow> rc_scope c1 = rc_scope c @ filter (counted f) (opt_list (stmt_dst stmt))"
    "stmt_sound m f L c T lh s T1 c1"
    using rc_stmt_done [OF W st(1,2) r(1)] later_clean [OF l2 assms(6)] Cons.prems slots_ok_none
    by (simp_all add: stmt_done_def)
  from Cons.prems(6) consider (stop) "tr = []" "out = OStop"
    | (step) tr1 tr2 where "path_stmt f s tr1 None" "path_stmts f ss t tr2 out" "tr = tr1 @ tr2"
    | (leave) "path_stmt f s tr (Some out)"
    by (rule path_stmts_ConsE)
  then show ?case
  proof cases
    case stop
    then show ?thesis by simp
  next
    case step
    from dn(3) [unfolded stmt_sound_def, rule_format, OF step(1)]
    obtain C where C: "count_path m f tr1 T = Some C" "T1 = Some C" "zero_out c1 C" by auto
    have "\<exists>D. count_path m f tr2 C = Some D \<and> ended c'' yt lh L out D"
      by (rule Cons.IH [OF st(3)])
        (use r(2) C dn(1,2) slots_ok_later [OF Cons.prems(4)] Cons.prems(5) step(2) in \<open>auto simp: counted_of_def\<close>)
    with C(1) step(3) show ?thesis by (auto simp: count_path_append)
  next
    case leave
    from dn(3) [unfolded stmt_sound_def, rule_format, OF leave]
    obtain C where C: "count_path m f tr T = Some C" "ended c1 None lh L out C" by auto
    have "out \<noteq> OYield" using leave by (auto elim!: path_stmtE)
    from ended_later [OF ended_out [OF C(2) this] l2] C(1) show ?thesis by blast
  qed
qed

lemma later_cut:
  assumes "later L c c'" "n = length (rc_scope c)"
  shows "later L c (c'\<lparr>rc_scope := take n (rc_scope c')\<rparr>)" "take n (rc_scope c') = rc_scope c"
  using assms by (auto simp: later_def prefix_def)

lemma rc_seqE:
  assumes "rc_seq (Suc n) m f c i T ds yt lh = Some c'" "get_seq f i = Some q"
  obtains c1 T1 T2 c2 c3 where "rc_defs f c T ds = (c1, T1)"
    "rc_stmts (rc_seq n m f) m f c1 (sq_stmts q) (Some T1) lh = Some (T2, c2)" "rc_term f (sq_term q) T2 yt lh c2 = Some c3"
    "c' = c3\<lparr>rc_scope := take (length (rc_scope c)) (rc_scope c3)\<rparr>"
  using assms by (auto split: Option.bind_splits prod.splits)

lemma rc_seq_sound: "wf_seq f L V i \<Longrightarrow> rc_sound (rc_seq n m f) m f L V i"
proof (induction n arbitrary: L V i)
  case 0
  show ?case by (simp add: rc_sound_def)
next
  case (Suc n)
  from Suc.prems obtain q where q: "get_seq f i = Some q" "term_labels (sq_term q) \<subseteq> L"
    "wf_stmts (wf_seq f) f L V (sq_stmts q)" by (auto elim: wf_seq.cases)
  have "later L c c' \<and> rc_scope c' = rc_scope c
      \<and> (\<forall>tr out. rc_errors c' = [] \<longrightarrow> set (rc_scope (fst (rc_defs f c T ds))) = V \<longrightarrow> zero_out c T \<longrightarrow>
           slots_ok L yt lh c \<longrightarrow> path_seq f i tr out \<longrightarrow>
           (\<exists>C. count_path m f tr (snd (rc_defs f c T ds)) = Some C \<and> ended c' yt lh L out C))"
    if run: "rc_seq (Suc n) m f c i T ds yt lh = Some c'" for c T ds yt lh c'
  proof -
    obtain c1 T1 T2 c2 c3 where r: "rc_defs f c T ds = (c1, T1)"
      "rc_stmts (rc_seq n m f) m f c1 (sq_stmts q) (Some T1) lh = Some (T2, c2)" "rc_term f (sq_term q) T2 yt lh c2 = Some c3"
      and c': "c' = c3\<lparr>rc_scope := take (length (rc_scope c)) (rc_scope c3)\<rparr>"
      using rc_seqE [OF run q(1)] .
    have l1: "later L c c1" by (rule rc_defs_later [OF r(1)])
    have l3: "later L c c3"
      using l1 rc_stmts_later [OF Suc.IH q(3) r(2)] rc_term_later(1) [OF r(3), of L] later_trans by blast
    have "\<exists>C. count_path m f tr T1 = Some C \<and> ended c' yt lh L out C"
      if p: "rc_errors c' = []" "set (rc_scope c1) = V" "zero_out c T" "slots_ok L yt lh c" "path_seq f i tr out" for tr out
    proof -
      have "path_stmts f (sq_stmts q) (sq_term q) tr out" using p(5) q(1) by (auto elim: path_seqE)
      moreover have "rc_errors c3 = []" using p(1) c' by simp
      ultimately obtain C where "count_path m f tr T1 = Some C" "ended c3 yt lh L out C"
        using rc_stmts_sound [OF Suc.IH q(3,2) r(2,3) _ rc_defs_zero_out [OF r(1) p(3)] slots_ok_later [OF p(4) l1] p(2)]
        by blast
      with ended_cut [OF _ p(4) l3 refl] c' show ?thesis by blast
    qed
    with r(1) later_cut [OF l3 refl] c' show ?thesis by simp
  qed
  then show ?case unfolding rc_sound_def by blast
qed

section \<open>The check returns\<close>

definition call_returns :: "rc_call \<Rightarrow> label_id set \<Rightarrow> seq_id \<Rightarrow> bool" where
  "call_returns call L i \<longleftrightarrow> (\<forall>c T ds yt lh. slots_ok L yt lh c \<longrightarrow> call c i T ds yt lh \<noteq> None)"

lemma call_returnsD:
  assumes "call_returns call L i" "slots_ok L yt lh c"
  obtains c' where "call c i T ds yt lh = Some c'"
  using assms(1) [unfolded call_returns_def, rule_format, OF assms(2), of T ds] by blast

lemma rc_deliver_returns: "\<forall>s. tgt = Some s \<longrightarrow> slot_ok c s \<Longrightarrow> \<exists>c'. rc_deliver tgt T c = Some c'"
  by (cases tgt) (auto simp: rc_deliver_def slot_ok_def Let_def split: option.splits)

lemma rc_term_returns:
  assumes "slots_ok L yt lh c" "term_labels t \<subseteq> L"
  shows "\<exists>c'. rc_term f t T yt lh c = Some c'"
proof (cases T)
  case (Some T1)
  obtain c1 T2 where t: "foldl (rc_take ''the terminator consumes'') (c, T1) (term_consumes f t) = (c1, T2)" by fastforce
  have "slots_ok L yt lh c1" by (rule slots_ok_later [OF assms(1) reports_later [OF rc_takes_reports [OF t]]])
  then have "\<exists>c'. rc_term_deliver t T2 yt lh c1 = Some c'"
    using assms(2) by (cases t) (auto simp: slots_ok_def split: option.splits intro!: rc_deliver_returns)
  with Some t show ?thesis by (simp add: rc_term_def)
qed (simp add: rc_term_def)

lemma rc_bodies_returns:
  assumes "\<And>b. b \<in> set bs \<Longrightarrow> rc_sound call m f L V b \<and> call_returns call L b" "slots_ok L yt lh c"
  shows "\<exists>c'. rc_bodies call c bs T yt lh = Some c'"
  using assms
proof (induction bs arbitrary: c)
  case (Cons b bs)
  have b: "rc_sound call m f L V b" "call_returns call L b" using Cons.prems(1) by simp_all
  obtain c1 where c1: "call c b T [] yt lh = Some c1" using call_returnsD [OF b(2) Cons.prems(2)] .
  have "slots_ok L yt lh c1" by (rule slots_ok_later [OF Cons.prems(2) rc_soundD(1) [OF b(1) c1]])
  with Cons.IH [of c1] Cons.prems(1) c1 show ?case by simp
qed simp

lemma slots_ok_fresh:
  assumes "new_slot c = (k, c1)" "slots_ok L None lh c"
  shows "slots_ok L (Some k) lh c1"
  using slots_ok_later [OF assms(2) new_slot_later(1) [OF assms(1)]] new_slot_later(4) [OF assms(1)]
  by (simp add: slots_ok_def)

lemma rc_let_returns:
  assumes fl: "\<And>e b. fail_landing val = Some (e, b) \<Longrightarrow> rc_sound call m f L (V \<union> counted_of f [e]) b \<and> call_returns call L b"
    and df: "\<And>b. df = Some b \<Longrightarrow> rc_sound call m f L V b \<and> call_returns call L b"
    and ok: "slots_ok L None lh c"
  shows "\<exists>r. rc_let call m f c (SLet d val df su) d val su T lh = Some r"
proof -
  obtain c1 T1 where t: "foldl (rc_take ''a consuming use of'') (c, T) (consumed_by m f val) = (c1, T1)" by fastforce
  let ?c2 = "foldl (rc_borrow f T1) c1 (borrowed_by m f val)"
  have ok2: "slots_ok L None lh ?c2"
    using slots_ok_later [OF slots_ok_later [OF ok reports_later [OF rc_takes_reports [OF t]]] reports_later [OF rc_borrow_reports]] .
  obtain c2' T2 where t2: "foldl (rc_take ''a suspension edge saves'') (?c2, T1) (suspend_saved f (SLet d val df su)) = (c2', T2)"
    by fastforce
  obtain c3 where c3: "(case su of None \<Rightarrow> Some ?c2 | Some _ \<Rightarrow> rc_deliver None T2 c2') = Some c3" "slots_ok L None lh c3"
  proof (cases su)
    case (Some x)
    obtain c3 where c3: "rc_deliver None T2 c2' = Some c3" using rc_deliver_returns [of None] by auto
    have "slots_ok L None lh c3"
      using slots_ok_later [OF slots_ok_later [OF ok2 reports_later [OF rc_takes_reports [OF t2]]] rc_deliver_later(1) [OF c3]] .
    with c3 Some that show ?thesis by simp
  qed (use ok2 that in simp)
  obtain c4 where c4: "(case fail_landing val of None \<Rightarrow> Some c3 | Some (e, b) \<Rightarrow> call c3 b T1 [(e, 1)] None lh) = Some c4"
    "slots_ok L None lh c4"
  proof (cases "fail_landing val")
    case (Some eb)
    obtain e b where eb: "fail_landing val = Some (e, b)" using Some by (cases eb) simp
    from fl [OF this] have b: "rc_sound call m f L (V \<union> counted_of f [e]) b" "call_returns call L b" by simp_all
    obtain c4 where c4: "call c3 b T1 [(e, 1)] None lh = Some c4" using call_returnsD [OF b(2) c3(2)] .
    with slots_ok_later [OF c3(2) rc_soundD(1) [OF b(1) c4]] eb that show ?thesis by simp
  qed (use c3(2) that in simp)
  obtain c5 where c5: "(case df of None \<Rightarrow> Some c4 | Some b \<Rightarrow> call c4 b T1 [] None lh) = Some c5"
  proof (cases df)
    case (Some b)
    with df call_returnsD [OF _ c4(2), of call b T1 "[]"] that show ?thesis by auto
  qed (use that in simp)
  show ?thesis
    using t t2 c3(1) c4(1) c5
    by (cases su; cases d) (auto simp: rc_let_def Let_def split: prod.splits split del: if_split)
qed

lemma rc_stmt_returns:
  assumes W: "\<And>L V b. W L V b \<Longrightarrow> rc_sound call m f L V b \<and> call_returns call L b"
    and st: "get_stmt f s = Some stmt" "wf_stmt W f L V stmt" and ok: "slots_ok L None lh c"
  shows "\<exists>r. rc_stmt call m f c s T lh = Some r"
proof (cases stmt)
  case (SLet d val df su)
  have "\<exists>r. rc_let call m f c (SLet d val df su) d val su T lh = Some r"
  proof (rule rc_let_returns [of val call m f L V df])
    show "rc_sound call m f L (V \<union> counted_of f [e]) b \<and> call_returns call L b" if "fail_landing val = Some (e, b)" for e b
      using W [of L "V \<union> counted_of f [e]" b] st(2) SLet that by simp
    show "rc_sound call m f L V b \<and> call_returns call L b" if "df = Some b" for b
      using W [of L V b] st(2) SLet that by simp
  qed (rule ok)
  with st(1) SLet show ?thesis by (simp add: rc_stmt_def)
next
  case (SIf d cond a b)
  obtain k c1 where n: "new_slot c = (k, c1)" by fastforce
  have "\<exists>c2. rc_bodies call c1 [a, b] T (Some k) lh = Some c2"
    by (rule rc_bodies_returns [of _ call m f L V]) (use st(2) SIf W slots_ok_fresh [OF n ok] in auto)
  with st(1) SIf n show ?thesis by (auto simp: rc_stmt_def split: Option.bind_splits)
next
  case (SSwitch d on cs df)
  let ?c = "if counted f (switch_var on) then rc_borrow f T c (switch_var on) else c"
  have "slots_ok L None lh ?c" by (rule slots_ok_later [OF ok reports_later]) (simp add: rc_borrow_def)
  obtain k c1 where n: "new_slot ?c = (k, c1)" by fastforce
  have bs: "rc_sound call m f L V b \<and> call_returns call L b" if "b \<in> set (map sc_body cs @ opt_list df)" for b
    using that W [of L V b] st(2) SSwitch by auto
  have "\<exists>c2. rc_bodies call c1 (map sc_body cs @ opt_list df) T (Some k) lh = Some c2"
    by (rule rc_bodies_returns [of _ call m f L V])
      (use bs slots_ok_fresh [OF n \<open>slots_ok L None lh ?c\<close>] in blast)+
  with st(1) SSwitch n show ?thesis by (auto simp: rc_stmt_def Let_def)
next
  case (SBlock d l b)
  obtain k c1 where n: "new_slot c = (k, c1)" by fastforce
  let ?c1 = "c1\<lparr>rc_labels := (rc_labels c1)(l \<mapsto> k)\<rparr>"
  have b: "call_returns call (insert l L) b" using W [of "insert l L" V b] st(2) SBlock by simp
  have "slots_ok (insert l L) (Some k) lh ?c1"
    using slots_ok_fresh [OF n ok] by (auto simp: slots_ok_def slot_ok_def)
  then obtain c2 where "call ?c1 b T [] (Some k) lh = Some c2" using call_returnsD [OF b] by blast
  with st(1) SBlock n show ?thesis by (simp add: rc_stmt_def)
next
  case (SLoop d vs inits b)
  let ?w = "''a loop's initial value consumes''"
  obtain c0 T0 where t: "foldl (rc_take ?w) (c, T) (operand_vars f inits) = (c0, T0)" by fastforce
  obtain k c1 where n1: "new_slot c0 = (k, c1)" by fastforce
  obtain h c2 where n2: "new_slot c1 = (h, c2)" by fastforce
  let ?c3 = "c2\<lparr>rc_slots := (rc_slots c2)[h := (rc_slots c2 ! h)\<lparr>sl_expected := Some (map T0 (rc_scope c2))\<rparr>]\<rparr>"
  have "slots_ok L None lh c0" by (rule slots_ok_later [OF ok reports_later [OF rc_takes_reports [OF t]]])
  then have ok1: "slots_ok L (Some k) lh c1" by (rule slots_ok_fresh [OF n1])
  have l3: "later L c2 ?c3"
    using new_slot_later(5,8) [OF n2] n2 by (auto simp: later_def nth_list_update slot_le_def new_slot_def)
  have "slots_ok L (Some k) lh ?c3" by (rule slots_ok_later [OF ok1 later_trans [OF new_slot_later(1) [OF n2] l3]])
  moreover have "slot_ok ?c3 h" by (rule slot_ok_later [OF new_slot_later(4) [OF n2] l3])
  ultimately have "slots_ok L (Some k) (Some h) ?c3" by (simp add: slots_ok_def)
  moreover have "call_returns call L b" using W [of L "V \<union> counted_of f vs" b] st(2) SLoop by simp
  ultimately obtain c4 where "call ?c3 b T0 (map (\<lambda>v. (v, 1)) vs) (Some k) (Some h) = Some c4"
    using call_returnsD [of call L b] by blast
  with st(1) SLoop t n1 n2 show ?thesis by (simp add: rc_stmt_def Let_def)
qed (use st in \<open>auto simp: rc_stmt_def split: prod.splits\<close>)

lemma rc_stmts_returns:
  assumes W: "\<And>L V b. W L V b \<Longrightarrow> rc_sound call m f L V b \<and> call_returns call L b"
    and "wf_stmts W f L V ss" "slots_ok L None lh c"
  shows "\<exists>r. rc_stmts call m f c ss T lh = Some r"
  using assms(2,3)
proof (induction ss arbitrary: c T V)
  case (Cons s ss)
  then obtain stmt where st: "get_stmt f s = Some stmt" "wf_stmt W f L V stmt"
    "wf_stmts W f L (V \<union> counted_of f (opt_list (stmt_dst stmt))) ss" by auto
  have W1: "W L V b \<Longrightarrow> rc_sound call m f L V b" for L V b using W by blast
  show ?case
  proof (cases T)
    case (Some T0)
    obtain T1 c1 where r: "rc_stmt call m f c s T0 lh = Some (T1, c1)"
      using rc_stmt_returns [OF W st(1,2) Cons.prems(2)] by fastforce
    have "later L c c1" using rc_stmt_done [OF W1 st(1,2) r] by (simp add: stmt_done_def)
    from Cons.IH [OF st(3) slots_ok_later [OF Cons.prems(2) this]] r Some show ?thesis by simp
  qed simp
qed simp

text \<open>Enough fuel is a matter of the nesting, which is finite.\<close>

lemma wf_stmt_eventually:
  "wf_stmt (\<lambda>L V b. eventually (\<lambda>k. P k L V b) F) f L V stmt \<Longrightarrow> eventually (\<lambda>k. wf_stmt (P k) f L V stmt) F"
proof (cases stmt)
  case (SLet d val df su)
  assume wf: "wf_stmt (\<lambda>L V b. eventually (\<lambda>k. P k L V b) F) f L V stmt"
  have "eventually (\<lambda>k. \<forall>e b. fail_landing val = Some (e, b) \<longrightarrow> counted_of f [e] \<inter> V = {} \<and> P k L (V \<union> counted_of f [e]) b) F"
    using wf SLet by (cases "fail_landing val") (auto simp: eventually_conj_iff)
  moreover have "eventually (\<lambda>k. \<forall>b. df = Some b \<longrightarrow> P k L V b) F" using wf SLet by (cases df) auto
  ultimately show ?thesis using wf SLet by (simp add: eventually_conj_iff)
qed (auto simp: eventually_conj_iff eventually_ball_finite)

lemma wf_stmts_eventually:
  "wf_stmts (\<lambda>L V b. eventually (\<lambda>k. P k L V b) F) f L V ss \<Longrightarrow> eventually (\<lambda>k. wf_stmts (P k) f L V ss) F"
proof (induction ss arbitrary: V)
  case (Cons s ss)
  then obtain stmt where st: "get_stmt f s = Some stmt" "wf_stmt (\<lambda>L V b. eventually (\<lambda>k. P k L V b) F) f L V stmt"
    "wf_stmts (\<lambda>L V b. eventually (\<lambda>k. P k L V b) F) f L (V \<union> counted_of f (opt_list (stmt_dst stmt))) ss" by auto
  from eventually_conj [OF wf_stmt_eventually [OF st(2)] Cons.IH [OF st(3)]] st(1) show ?case by simp
qed simp

lemma rc_seq_returns: "wf_seq f L V i \<Longrightarrow> eventually (\<lambda>n. call_returns (rc_seq n m f) L i) sequentially"
proof (induction rule: wf_seq.induct)
  case (1 i q L V)
  let ?P = "\<lambda>n L V b. wf_seq f L V b \<and> call_returns (rc_seq n m f) L b"
  have "wf_stmts (\<lambda>L V b. eventually (\<lambda>n. ?P n L V b) sequentially) f L V (sq_stmts q)"
    by (rule wf_stmts_mono [rule_format, OF _ 1(3)]) (simp add: eventually_conj_iff)
  then have "eventually (\<lambda>n. wf_stmts (?P n) f L V (sq_stmts q)) sequentially" by (rule wf_stmts_eventually)
  then have "eventually (\<lambda>n. call_returns (rc_seq (Suc n) m f) L i) sequentially"
  proof (rule eventually_mono)
    fix n assume wf: "wf_stmts (?P n) f L V (sq_stmts q)"
    show "call_returns (rc_seq (Suc n) m f) L i"
      unfolding call_returns_def
    proof (intro allI impI)
      fix c T ds yt lh assume ok: "slots_ok L yt lh c"
      obtain c1 T1 where ds: "rc_defs f c T ds = (c1, T1)" by fastforce
      have ok1: "slots_ok L yt lh c1" by (rule slots_ok_later [OF ok rc_defs_later [OF ds]])
      have P: "?P n L V b \<Longrightarrow> rc_sound (rc_seq n m f) m f L V b \<and> call_returns (rc_seq n m f) L b" for L V b
        using rc_seq_sound by blast
      then have P1: "?P n L V b \<Longrightarrow> rc_sound (rc_seq n m f) m f L V b" for L V b by blast
      obtain T2 c2 where st: "rc_stmts (rc_seq n m f) m f c1 (sq_stmts q) (Some T1) lh = Some (T2, c2)"
        using rc_stmts_returns [OF P wf slots_ok_none [OF ok1]] by fastforce
      have "slots_ok L yt lh c2" by (rule slots_ok_later [OF ok1 rc_stmts_later [OF P1 wf st]])
      from rc_term_returns [OF this 1(2)] obtain c3 where "rc_term f (sq_term q) T2 yt lh c2 = Some c3" by blast
      with 1(1) ds st show "rc_seq (Suc n) m f c i T ds yt lh \<noteq> None" by simp
    qed
  qed
  then show ?case
    by (rule eventually_sequentially_Suc [where P = "\<lambda>n. call_returns (rc_seq n m f) L i", THEN iffD1])
qed

section \<open>The check of a function\<close>

lemma set_tokens_map: "set_tokens (map (\<lambda>p. (p, g p)) ps) T = (\<lambda>v. if v \<in> set ps then g v else T v)"
  by (induction ps arbitrary: T) (auto simp: fun_eq_iff)

lemma entry_tokens:
  "set_tokens (map (\<lambda>p. (p, if borrowed_param f p then 0 else 1)) (filter (counted f) (f_params f))) (\<lambda>v. 0) = entry_counts f"
  unfolding set_tokens_map by (auto simp: fun_eq_iff entry_counts_def)

lemma slots_ok_empty: "slots_ok {} None None c"
  by (simp add: slots_ok_def)

text \<open>
  C4: a function whose check reports nothing is balanced on every path: whatever branches, landings,
  loop iterations and suspensions it takes, no reference is taken that is not there, nothing is used
  without a reference, and leaving the function leaves no reference behind.
\<close>

theorem rc_check_sound:
  assumes "wf_fn f" "rc_check_fn n m f = Some []" "fn_path f tr out"
  shows "balanced m f tr out"
proof -
  obtain b where b: "f_body f = Some b" "wf_seq f {} (counted_of f (f_params f)) b" using assms(1) by (auto simp: wf_fn_def)
  let ?c = "\<lparr>rc_scope = filter (counted f) (f_params f), rc_slots = [], rc_labels = Map.empty, rc_errors = []\<rparr>"
  obtain c' where run: "rc_seq n m f ?c b (entry_counts f) [] None None = Some c'" "rc_errors c' = []"
    using assms(2) b(1) by (auto simp: rc_check_fn_def Let_def comp_def entry_tokens split: Option.bind_splits)
  have path: "path_seq f b tr out" using assms(3) b(1) by (auto simp: fn_path_def)
  have zo: "zero_out ?c (entry_counts f)" by (auto simp: zero_out_def entry_counts_def)
  obtain C where C: "count_path m f tr (entry_counts f) = Some C" "ended c' None None {} out C"
    by (rule rc_sound_path [OF rc_seq_sound [OF b(2)] run _ _ zo slots_ok_empty path, of ?c "entry_counts f"])
      (simp_all add: counted_of_def)
  then show ?thesis by (cases out) (auto simp: balanced_def)
qed


section \<open>An example\<close>

text \<open>\<open>f(x) = { dup x; p = (x, x); r = if true { yield p } else { drop p; s = "x"; yield s }; return r }\<close>.\<close>

definition toy_rc :: lir_fn where
  "toy_rc = (fn_new ''toy'')
     \<lparr>f_params := [0], f_body := Some 0,
      f_vars := map (\<lambda>h. \<lparr>vd_hint = h, vd_repr = Ref, vd_ty = 0\<rparr>) [''x'', ''p'', ''r'', ''s''],
      f_stmts := [SDup 0, SLet (Some 1) (VTuple [OVar 0, OVar 0]) None None, SIf (Some 2) (OConst (CBool True)) 1 2,
                  SDrop 1, SLet (Some 3) (VConst (CString ''x'')) None None],
      f_seqs := [\<lparr>sq_stmts = [0, 1, 2], sq_term = Return (Some (OVar 2))\<rparr>,
                 \<lparr>sq_stmts = [], sq_term = Yield (Some (OVar 1))\<rparr>,
                 \<lparr>sq_stmts = [3, 4], sq_term = Yield (Some (OVar 3))\<rparr>]\<rparr>"

definition toy_rc_module :: lir_module where
  "toy_rc_module = module_new \<lparr>core_enums = [], core_effects = [], core_types = \<lparr>types = [], param_flags = [], ids = Map.empty\<rparr>\<rparr>"

lemma toy_rc_parts:
  "get_seq toy_rc 0 = Some \<lparr>sq_stmts = [0, 1, 2], sq_term = Return (Some (OVar 2))\<rparr>"
  "get_seq toy_rc 1 = Some \<lparr>sq_stmts = [], sq_term = Yield (Some (OVar 1))\<rparr>"
  "get_seq toy_rc 2 = Some \<lparr>sq_stmts = [3, 4], sq_term = Yield (Some (OVar 3))\<rparr>"
  "get_stmt toy_rc 0 = Some (SDup 0)"
  "get_stmt toy_rc 1 = Some (SLet (Some 1) (VTuple [OVar 0, OVar 0]) None None)"
  "get_stmt toy_rc 2 = Some (SIf (Some 2) (OConst (CBool True)) 1 2)"
  "get_stmt toy_rc 3 = Some (SDrop 1)"
  "get_stmt toy_rc 4 = Some (SLet (Some 3) (VConst (CString ''x'')) None None)"
  "f_body toy_rc = Some 0" "f_params toy_rc = [0]" "f_env toy_rc = None"
  "counted toy_rc 0" "counted toy_rc 1" "counted toy_rc 2" "counted toy_rc 3"
  by (simp_all add: toy_rc_def get_seq_def get_stmt_def fn_new_def counted_def numeral_2_eq_2 numeral_3_eq_3)

lemmas toy_rc_eval = toy_rc_parts toy_rc_parts [unfolded One_nat_def]

lemma counted_of_one: "counted_of f [v] = (if counted f v then {v} else {})" "counted_of f [] = {}"
  by (simp_all add: counted_of_def)

lemma toy_rc_wf: "wf_fn toy_rc"
proof -
  have 1: "wf_seq toy_rc {} V 1" for V by (rule wf_seq.intros [OF toy_rc_parts(2)]) simp_all
  have 2: "wf_seq toy_rc {} {0, 1} 2"
    by (rule wf_seq.intros [OF toy_rc_parts(3)]) (simp_all add: toy_rc_eval counted_of_def opt_list_def)
  have "wf_seq toy_rc {} {0} 0"
    by (rule wf_seq.intros [OF toy_rc_parts(1)])
       (use 1 2 in \<open>simp_all add: toy_rc_eval counted_of_one opt_list_def insert_commute\<close>)
  then show ?thesis by (simp add: wf_fn_def toy_rc_eval counted_of_def)
qed

lemma toy_rc_accepted: "rc_check_fn (Suc (Suc 0)) toy_rc_module toy_rc = Some []"
  by (simp add: rc_check_fn_def toy_rc_eval borrowed_param_def rc_stmt_def rc_let_def rc_take_def rc_define_def consumed_by_def
      borrowed_by_def use_each_def use_ones_def ops_vars_def is_view.simps new_slot_def rc_after_def rc_joined_def rc_term_def
      operand_vars_def opt_list_def rc_deliver_def deliver_expected_def leave_error_def Let_def)

lemma toy_rc_path:
  "fn_path toy_rc ([EDup 0, ELet 1, EDst 1, ERead [], EDrop 1, ELet 4, EDst 4, ETerm (Yield (Some (OVar 3))), EOwn 2,
     ETerm (Return (Some (OVar 2)))]) OLeave"
proof -
  note step = path_seq_path_stmts_path_stmt_path_loop.step and finish = path_seq_path_stmts_path_stmt_path_loop.finish
    and let_ok = path_seq_path_stmts_path_stmt_path_loop.let_ok
  have "path_stmts toy_rc [3, 4] (Yield (Some (OVar 3)))
      ([EDrop 1] @ (ELet 4 # dst_events 4 (Some 3)) @ [ETerm (Yield (Some (OVar 3)))]) (term_outcome (Yield (Some (OVar 3))))"
    by (intro step finish let_ok [OF toy_rc_parts(8)] path_seq_path_stmts_path_stmt_path_loop.drop [OF toy_rc_parts(7)])
  then have 2: "path_seq toy_rc 2 [EDrop 1, ELet 4, EDst 4, ETerm (Yield (Some (OVar 3)))] OYield"
    by (intro path_seq_path_stmts_path_stmt_path_loop.seq [OF toy_rc_parts(3)]) simp
  have i: "path_stmt toy_rc 2 (ERead [] # [EDrop 1, ELet 4, EDst 4, ETerm (Yield (Some (OVar 3)))] @ own_events (Some 2)) None"
    by (rule path_seq_path_stmts_path_stmt_path_loop.branch [OF toy_rc_parts(6) _ _ 2, where bs = "[1, 2]"]) simp_all
  have "path_stmts toy_rc [0, 1, 2] (Return (Some (OVar 2))) ([EDup 0] @ (ELet 1 # dst_events 1 (Some 1))
      @ (ERead [] # [EDrop 1, ELet 4, EDst 4, ETerm (Yield (Some (OVar 3)))] @ own_events (Some 2))
      @ [ETerm (Return (Some (OVar 2)))]) (term_outcome (Return (Some (OVar 2))))"
    by (intro step finish i let_ok [OF toy_rc_parts(5)] path_seq_path_stmts_path_stmt_path_loop.dup [OF toy_rc_parts(4)])
  then show ?thesis
    unfolding fn_path_def toy_rc_parts(9)
    by (intro exI [of _ 0] conjI path_seq_path_stmts_path_stmt_path_loop.seq [OF toy_rc_parts(1)]) simp_all
qed

theorem rc_check_sound_witness:
  "rc_check_fn (Suc (Suc 0)) toy_rc_module toy_rc = Some []
   \<and> balanced toy_rc_module toy_rc [EDup 0, ELet 1, EDst 1, ERead [], EDrop 1, ELet 4, EDst 4, ETerm (Yield (Some (OVar 3))),
       EOwn 2, ETerm (Return (Some (OVar 2)))] OLeave"
  using toy_rc_accepted rc_check_sound [OF toy_rc_wf toy_rc_accepted toy_rc_path] by (rule conjI)


end
