(* ===== verification/Lir_Rc_Pass.thy ===== *)
theory Lir_Rc_Pass
  imports Lir_Ownership
begin

text \<open>
  The pass that inserts \<open>dup\<close> and \<open>drop\<close> (\<open>insert_rc\<close> and \<open>Counter\<close> of
  \<open>crates/emela-lir/src/heap/rc.rs\<close>): a liveness analysis of the counted variables, then a rewriting of
  every sequence along what was recorded.

  A set is a set, so the order of a hash set does not appear. The vector \<open>live\<close>, which has an entry for
  every sequence, is a function. \<open>None\<close> is a panic or the end of the fuel, which bounds the nesting and
  the rounds of a loop. A \<open>debug_assert\<close> that fails only clears \<open>rk_asserts\<close>, since a release build goes on.
\<close>

section \<open>The state\<close>

record rc_counter =
  rk_live :: "seq_id \<Rightarrow> var_id set"
  rk_heads :: "stmt_id \<rightharpoonup> var_id set"
  rk_after_label :: "label_id \<rightharpoonup> var_id set"
  rk_label_target :: "label_id \<rightharpoonup> var_id set"
  rk_asserts :: bool

definition rc_counter_new :: rc_counter where
  "rc_counter_new = \<lparr>rk_live = (\<lambda>_. {}), rk_heads = Map.empty, rk_after_label = Map.empty,
     rk_label_target = Map.empty, rk_asserts = True\<rparr>"

definition set_or_empty :: "'a set option \<Rightarrow> 'a set" where
  "set_or_empty x = (case x of None \<Rightarrow> {} | Some s \<Rightarrow> s)"

lemma set_or_empty_simps [simp]: "set_or_empty None = {}" "set_or_empty (Some X) = X"
  by (simp_all add: set_or_empty_def)

section \<open>Liveness\<close>

text \<open>The sequences inside a statement, each with the variables defined at its start.\<close>

fun scoped_children :: "lir_stmt \<Rightarrow> (var_id list \<times> seq_id) list" where
  "scoped_children (SLet d val df su) =
     map (\<lambda>(e, b). ([e], b)) (opt_list (fail_landing val)) @ map (Pair []) (opt_list df)"
| "scoped_children (SLoop d vs inits b) = [(vs, b)]"
| "scoped_children stmt = map (Pair []) (children stmt)"

fun rk_exit_live :: "rc_counter \<Rightarrow> lir_term \<Rightarrow> var_id set \<Rightarrow> var_id set option \<Rightarrow> var_id set" where
  "rk_exit_live K (Yield v) yl lh = yl"
| "rk_exit_live K (Break l v) yl lh = set_or_empty (rk_after_label K l)"
| "rk_exit_live K (Recur args) yl lh = set_or_empty lh"
| "rk_exit_live K _ yl lh = {}"

definition rk_term_live ::
  "lir_fn \<Rightarrow> rc_counter \<Rightarrow> lir_term \<Rightarrow> var_id set \<Rightarrow> var_id set option \<Rightarrow> var_id set" where
  "rk_term_live f K t yl lh = rk_exit_live K t yl lh \<union> set (term_consumes f t)"

text \<open>\<open>call\<close> stands for the calls of \<open>live_seq\<close> in \<open>live_stmt\<close>; \<open>rk_live_seq\<close> ties the knot.\<close>

type_synonym rk_live_call =
  "rc_counter \<Rightarrow> seq_id \<Rightarrow> var_id set \<Rightarrow> var_id set option \<Rightarrow> (var_id set \<times> rc_counter) option"

fun rk_live_bodies ::
  "rk_live_call \<Rightarrow> rc_counter \<Rightarrow> (var_id list \<times> seq_id) list \<Rightarrow> var_id set \<Rightarrow> var_id set option \<Rightarrow> var_id set
     \<Rightarrow> (var_id set \<times> rc_counter) option" where
  "rk_live_bodies call K [] yl lh acc = Some (acc, K)"
| "rk_live_bodies call K ((ds, b) # bs) yl lh acc =
     do { (l, K) \<leftarrow> call K b yl lh; rk_live_bodies call K bs yl lh (acc \<union> (l - set ds)) }"

fun rk_live_loop ::
  "nat \<Rightarrow> rk_live_call \<Rightarrow> rc_counter \<Rightarrow> var_id list \<Rightarrow> seq_id \<Rightarrow> var_id set \<Rightarrow> var_id set
     \<Rightarrow> (var_id set \<times> rc_counter) option" where
  "rk_live_loop 0 call K vs b after h = None"
| "rk_live_loop (Suc n) call K vs b after h =
     do { (l, K) \<leftarrow> call K b after (Some h);
          if l - set vs = h then Some (h, K) else rk_live_loop n call K vs b after (l - set vs) }"

definition switch_read :: "lir_fn \<Rightarrow> switch_on \<Rightarrow> var_id set" where
  "switch_read f on = (if counted f (switch_var on) then {switch_var on} else {})"

definition rk_live_stmt ::
  "nat \<Rightarrow> rk_live_call \<Rightarrow> lir_module \<Rightarrow> lir_fn \<Rightarrow> rc_counter \<Rightarrow> stmt_id \<Rightarrow> var_id set \<Rightarrow> var_id set \<Rightarrow> var_id set option
     \<Rightarrow> (var_id set \<times> rc_counter) option" where
  "rk_live_stmt n call m f K s after yl lh =
     do { stmt \<leftarrow> get_stmt f s;
          let after = after - set (opt_list (stmt_dst stmt));
          case stmt of
            SLet d val df su \<Rightarrow>
              do { (l, K) \<leftarrow> rk_live_bodies call K (scoped_children stmt) yl lh after;
                   Some (l \<union> set (map fst (value_uses m f val)) \<union> set (suspend_saved f stmt), K) }
          | SDup v \<Rightarrow> Some (insert v after, K)
          | SDrop v \<Rightarrow> Some (insert v after, K)
          | SIf d c a b \<Rightarrow> rk_live_bodies call K (scoped_children stmt) after lh {}
          | SSwitch d on cases dflt \<Rightarrow>
              do { (l, K) \<leftarrow> rk_live_bodies call K (scoped_children stmt) after lh {};
                   Some (l \<union> switch_read f on, K) }
          | SBlock d label b \<Rightarrow>
              call (K\<lparr>rk_after_label := (rk_after_label K)(label \<mapsto> after)\<rparr>) b after lh
          | SLoop d vs inits b \<Rightarrow>
              do { (h, K) \<leftarrow> rk_live_loop n call K vs b after {};
                   Some (h \<union> set (operand_vars f inits), K\<lparr>rk_heads := (rk_heads K)(s \<mapsto> h)\<rparr>) }
          | SProtect d b cleanup \<Rightarrow> None }"

fun rk_live_stmts ::
  "nat \<Rightarrow> rk_live_call \<Rightarrow> lir_module \<Rightarrow> lir_fn \<Rightarrow> rc_counter \<Rightarrow> stmt_id list \<Rightarrow> var_id set \<Rightarrow> var_id set \<Rightarrow> var_id set option
     \<Rightarrow> (var_id set \<times> rc_counter) option" where
  "rk_live_stmts n call m f K [] live yl lh = Some (live, K)"
| "rk_live_stmts n call m f K (s # ss) live yl lh =
     do { (live, K) \<leftarrow> rk_live_stmts n call m f K ss live yl lh; rk_live_stmt n call m f K s live yl lh }"

fun rk_live_seq :: "nat \<Rightarrow> lir_module \<Rightarrow> lir_fn \<Rightarrow> rk_live_call" where
  "rk_live_seq 0 m f K i yl lh = None"
| "rk_live_seq (Suc n) m f K i yl lh =
     do { q \<leftarrow> get_seq f i;
          (l, K) \<leftarrow> rk_live_stmts n (rk_live_seq n m f) m f K (sq_stmts q) (rk_term_live f K (sq_term q) yl lh) yl lh;
          Some (l, K\<lparr>rk_live := (rk_live K)(i := l)\<rparr>) }"

text \<open>\<open>live_before\<close> and \<open>afters\<close>: the same from what was recorded, for one sequence.\<close>

definition recorded_children :: "rc_counter \<Rightarrow> lir_stmt \<Rightarrow> var_id set" where
  "recorded_children K stmt = (\<Union>(ds, b)\<in>set (scoped_children stmt). rk_live K b - set ds)"

definition rk_live_before ::
  "lir_module \<Rightarrow> lir_fn \<Rightarrow> rc_counter \<Rightarrow> stmt_id \<Rightarrow> var_id set \<Rightarrow> var_id set option" where
  "rk_live_before m f K s after =
     do { stmt \<leftarrow> get_stmt f s;
          let after = after - set (opt_list (stmt_dst stmt));
          case stmt of
            SLet d val df su \<Rightarrow>
              Some (after \<union> recorded_children K stmt \<union> set (map fst (value_uses m f val)) \<union> set (suspend_saved f stmt))
          | SDup v \<Rightarrow> Some (insert v after)
          | SDrop v \<Rightarrow> Some (insert v after)
          | SIf d c a b \<Rightarrow> Some (recorded_children K stmt)
          | SSwitch d on cases dflt \<Rightarrow> Some (recorded_children K stmt \<union> switch_read f on)
          | SBlock d label b \<Rightarrow> Some (rk_live K b)
          | SLoop d vs inits b \<Rightarrow> do { h \<leftarrow> rk_heads K s; Some (h \<union> set (operand_vars f inits)) }
          | SProtect d b cleanup \<Rightarrow> None }"

fun rk_afters_from ::
  "lir_module \<Rightarrow> lir_fn \<Rightarrow> rc_counter \<Rightarrow> var_id set \<Rightarrow> stmt_id list \<Rightarrow> (var_id set list \<times> var_id set) option" where
  "rk_afters_from m f K live [] = Some ([], live)"
| "rk_afters_from m f K live (s # ss) =
     do { (out, live) \<leftarrow> rk_afters_from m f K live ss;
          before \<leftarrow> rk_live_before m f K s live;
          Some (live # out, before) }"

definition rk_afters ::
  "lir_module \<Rightarrow> lir_fn \<Rightarrow> rc_counter \<Rightarrow> lir_seq \<Rightarrow> var_id set \<Rightarrow> var_id set option \<Rightarrow> var_id set list option" where
  "rk_afters m f K q yl lh =
     map_option fst (rk_afters_from m f K (rk_term_live f K (sq_term q) yl lh) (sq_stmts q))"

section \<open>Rewriting\<close>

definition rk_new_stmt :: "lir_fn \<times> stmt_id list \<Rightarrow> lir_stmt \<Rightarrow> lir_fn \<times> stmt_id list" where
  "rk_new_stmt fo stmt =
     (case fo of (f, out) \<Rightarrow> (f\<lparr>f_stmts := f_stmts f @ [stmt]\<rparr>, out @ [length (f_stmts f)]))"

definition rk_drop_except ::
  "lir_fn \<Rightarrow> var_id set \<Rightarrow> var_id set \<Rightarrow> stmt_id list \<Rightarrow> lir_fn \<times> var_id set \<times> stmt_id list" where
  "rk_drop_except f owned keep out =
     (let dead = owned - keep;
          (f, out) = foldl rk_new_stmt (f, out) (map SDrop (sorted_list_of_set dead)) in
      (f, owned - dead, out))"

fun bump :: "var_id \<Rightarrow> (var_id \<times> nat) list \<Rightarrow> (var_id \<times> nat) list" where
  "bump v [] = [(v, 1)]"
| "bump v ((x, k) # cs) = (if x = v then (x, k + 1) # cs else (x, k) # bump v cs)"

definition use_counts :: "var_id list \<Rightarrow> (var_id \<times> nat) list" where
  "use_counts vs = foldl (\<lambda>cs v. bump v cs) [] vs"

fun rk_consume_counts ::
  "lir_fn \<Rightarrow> var_id set \<Rightarrow> (var_id \<times> nat) list \<Rightarrow> (var_id \<Rightarrow> bool) \<Rightarrow> stmt_id list
     \<Rightarrow> lir_fn \<times> var_id set \<times> stmt_id list" where
  "rk_consume_counts f owned [] keep out = (f, owned, out)"
| "rk_consume_counts f owned ((v, k) # cs) keep out =
     (let give_up = v \<in> owned \<and> \<not> keep v;
          dups = (if give_up then k - 1 else k);
          (f, out) = foldl rk_new_stmt (f, out) (replicate dups (SDup v)) in
      rk_consume_counts f (if give_up then owned - {v} else owned) cs keep out)"

definition rk_consume ::
  "lir_fn \<Rightarrow> var_id set \<Rightarrow> var_id list \<Rightarrow> (var_id \<Rightarrow> bool) \<Rightarrow> stmt_id list \<Rightarrow> lir_fn \<times> var_id set \<times> stmt_id list" where
  "rk_consume f owned consumed keep out = rk_consume_counts f owned (use_counts consumed) keep out"

definition rk_target :: "var_id set \<Rightarrow> var_id set \<Rightarrow> var_id option \<Rightarrow> var_id set" where
  "rk_target owned after dst = {v \<in> owned. v \<in> after \<and> Some v \<noteq> dst}"

text \<open>The destination of a statement if it is counted.\<close>

definition counted_dst :: "lir_fn \<Rightarrow> lir_stmt \<Rightarrow> var_id option" where
  "counted_dst f stmt =
     (case stmt_dst stmt of None \<Rightarrow> None | Some d \<Rightarrow> if counted f d then Some d else None)"

text \<open>\<open>call\<close> stands for the calls of \<open>seq\<close> in \<open>stmt\<close>; \<open>rk_seq\<close> ties the knot.\<close>

type_synonym rk_call =
  "lir_fn \<times> rc_counter \<Rightarrow> seq_id \<Rightarrow> var_id set \<Rightarrow> var_id set \<Rightarrow> var_id set option \<Rightarrow> (lir_fn \<times> rc_counter) option"

fun rk_bodies ::
  "rk_call \<Rightarrow> lir_fn \<times> rc_counter \<Rightarrow> (var_id list \<times> seq_id) list \<Rightarrow> var_id set \<Rightarrow> var_id set \<Rightarrow> var_id set option
     \<Rightarrow> (lir_fn \<times> rc_counter) option" where
  "rk_bodies call fk [] owned yt lt = Some fk"
| "rk_bodies call fk ((ds, b) # bs) owned yt lt =
     do { fk \<leftarrow> call fk b (owned \<union> set ds) yt lt; rk_bodies call fk bs owned yt lt }"

definition rk_live_on :: "lir_fn \<Rightarrow> rc_counter \<Rightarrow> lir_stmt \<Rightarrow> var_id set \<Rightarrow> var_id set" where
  "rk_live_on f K stmt after =
     (after - set (opt_list (counted_dst f stmt))) \<union> recorded_children K stmt"

definition rk_define_dst ::
  "lir_fn \<Rightarrow> lir_stmt \<Rightarrow> lir_value \<Rightarrow> var_id set \<Rightarrow> var_id set \<Rightarrow> stmt_id list \<Rightarrow> lir_fn \<times> var_id set \<times> stmt_id list" where
  "rk_define_dst f stmt val owned after out =
     (case counted_dst f stmt of
        None \<Rightarrow> (f, owned, out)
      | Some d \<Rightarrow>
          if \<not> is_view f val then (f, insert d owned, out)
          else if d \<in> after
          then (case rk_new_stmt (f, out) (SDup d) of (f, out) \<Rightarrow> (f, insert d owned, out))
          else (f, owned, out))"

definition rk_let ::
  "rk_call \<Rightarrow> lir_module \<Rightarrow> lir_fn \<Rightarrow> rc_counter \<Rightarrow> stmt_id \<Rightarrow> lir_stmt \<Rightarrow> lir_value \<Rightarrow> suspend option \<Rightarrow> var_id set
     \<Rightarrow> var_id set \<Rightarrow> var_id set option \<Rightarrow> stmt_id list \<Rightarrow> ((lir_fn \<times> rc_counter) \<times> var_id set \<times> stmt_id list) option" where
  "rk_let call m f K s stmt val su owned after lt out =
     (let live_on = rk_live_on f K stmt after;
          (f, owned, out) = rk_consume f owned (consumed_by m f val)
            (\<lambda>v. v \<in> live_on \<or> v \<in> set (borrowed_by m f val)) out;
          out = out @ [s];
          K = (if su \<noteq> None \<and> set (suspend_saved f stmt) \<noteq> owned then K\<lparr>rk_asserts := False\<rparr> else K) in
      do { (f, K) \<leftarrow> rk_bodies call (f, K) (scoped_children stmt) owned {} lt;
           let (f, owned, out) = rk_define_dst f stmt val owned after out;
           Some ((f, K), owned, out) })"

definition rk_compound ::
  "rk_call \<Rightarrow> lir_fn \<Rightarrow> rc_counter \<Rightarrow> stmt_id \<Rightarrow> lir_stmt \<Rightarrow> var_id set \<Rightarrow> var_id set \<Rightarrow> var_id set option \<Rightarrow> stmt_id list
     \<Rightarrow> ((lir_fn \<times> rc_counter) \<times> var_id set \<times> stmt_id list) option" where
  "rk_compound call f K s stmt entry target lt out =
     do { (f, K) \<leftarrow> rk_bodies call (f, K) (scoped_children stmt) entry target lt;
          Some ((f, K), target \<union> set (opt_list (counted_dst f stmt)), out @ [s]) }"

definition rk_loop ::
  "rk_call \<Rightarrow> lir_fn \<Rightarrow> rc_counter \<Rightarrow> stmt_id \<Rightarrow> lir_stmt \<Rightarrow> var_id list \<Rightarrow> operand list \<Rightarrow> seq_id \<Rightarrow> var_id set \<Rightarrow> var_id set
     \<Rightarrow> stmt_id list \<Rightarrow> ((lir_fn \<times> rc_counter) \<times> var_id set \<times> stmt_id list) option" where
  "rk_loop call f K s stmt vs inits b owned after out =
     do { h \<leftarrow> rk_heads K s;
          let (f, owned, out) = rk_consume f owned (operand_vars f inits) (\<lambda>v. v \<in> h) out;
          let (f, at_head, out) = rk_drop_except f owned h out;
          let target = rk_target at_head after (counted_dst f stmt);
          (f, K) \<leftarrow> call (f, K) b (at_head \<union> set (filter (counted f) vs)) target (Some at_head);
          Some ((f, K), target \<union> set (opt_list (counted_dst f stmt)), out @ [s]) }"

definition rk_stmt ::
  "rk_call \<Rightarrow> lir_module \<Rightarrow> lir_fn \<Rightarrow> rc_counter \<Rightarrow> stmt_id \<Rightarrow> var_id set \<Rightarrow> var_id set \<Rightarrow> var_id set option \<Rightarrow> stmt_id list
     \<Rightarrow> ((lir_fn \<times> rc_counter) \<times> var_id set \<times> stmt_id list) option" where
  "rk_stmt call m f K s owned after lt out =
     do { stmt \<leftarrow> get_stmt f s;
          let target = rk_target owned after (counted_dst f stmt);
          ((f, K), owned, out) \<leftarrow>
            (case stmt of
               SLet d val df su \<Rightarrow> rk_let call m f K s stmt val su owned after lt out
             | SDup v \<Rightarrow> Some ((f, K), owned, out @ [s])
             | SDrop v \<Rightarrow> Some ((f, K), owned, out @ [s])
             | SIf d c a b \<Rightarrow> rk_compound call f K s stmt owned target lt out
             | SSwitch d on cases dflt \<Rightarrow> rk_compound call f K s stmt owned target lt out
             | SBlock d label b \<Rightarrow>
                 rk_compound call f (K\<lparr>rk_label_target := (rk_label_target K)(label \<mapsto> target)\<rparr>) s stmt
                   owned target lt out
             | SLoop d vs inits b \<Rightarrow> rk_loop call f K s stmt vs inits b owned after out
             | SProtect d b cleanup \<Rightarrow> None);
          let (f, owned, out) = rk_drop_except f owned after out;
          Some ((f, K), owned, out) }"

fun rk_stmts ::
  "rk_call \<Rightarrow> lir_module \<Rightarrow> lir_fn \<times> rc_counter \<Rightarrow> (stmt_id \<times> var_id set) list \<Rightarrow> var_id set \<Rightarrow> var_id set option
     \<Rightarrow> stmt_id list \<Rightarrow> ((lir_fn \<times> rc_counter) \<times> var_id set \<times> stmt_id list) option" where
  "rk_stmts call m fk [] owned lt out = Some (fk, owned, out)"
| "rk_stmts call m fk ((s, after) # ss) owned lt out =
     do { (fk, owned, out) \<leftarrow> rk_stmt call m (fst fk) (snd fk) s owned after lt out;
          rk_stmts call m fk ss owned lt out }"

text \<open>The outer \<open>None\<close> is a label without target, the inner one that the terminator wants nothing.\<close>

fun rk_term_target ::
  "rc_counter \<Rightarrow> lir_term \<Rightarrow> var_id set \<Rightarrow> var_id set option \<Rightarrow> var_id set option option" where
  "rk_term_target K (Yield v) yt lt = Some (Some yt)"
| "rk_term_target K (Break l v) yt lt = map_option Some (rk_label_target K l)"
| "rk_term_target K (Recur args) yt lt = Some (Some (set_or_empty lt))"
| "rk_term_target K (Return v) yt lt = Some (Some {})"
| "rk_term_target K (Fail v) yt lt = Some (Some {})"
| "rk_term_target K Unwind yt lt = Some (Some {})"
| "rk_term_target K (Defect v l) yt lt = Some (Some {})"
| "rk_term_target K Unreachable yt lt = Some None"

definition rk_term ::
  "lir_fn \<Rightarrow> lir_term \<Rightarrow> var_id set \<Rightarrow> var_id set option \<Rightarrow> stmt_id list \<Rightarrow> lir_fn \<times> stmt_id list" where
  "rk_term f t owned target out =
     (case target of
        None \<Rightarrow> (f, out)
      | Some target \<Rightarrow>
          (let (f, owned, out) = rk_consume f owned (term_consumes f t) (\<lambda>v. v \<in> target) out;
               (f, owned, out) = rk_drop_except f owned target out in
           (f, out)))"

definition set_seq_stmts :: "lir_fn \<Rightarrow> seq_id \<Rightarrow> stmt_id list \<Rightarrow> lir_fn" where
  "set_seq_stmts f i ss = f\<lparr>f_seqs := (f_seqs f)[i := (f_seqs f ! i)\<lparr>sq_stmts := ss\<rparr>]\<rparr>"

fun rk_seq :: "nat \<Rightarrow> lir_module \<Rightarrow> rk_call" where
  "rk_seq 0 m fk i owned yt lt = None"
| "rk_seq (Suc n) m fk i owned yt lt =
     (case fk of (f, K) \<Rightarrow>
      do { q \<leftarrow> get_seq f i;
           let (f, owned, out) = rk_drop_except f owned (rk_live K i) [];
           afters \<leftarrow> rk_afters m f K q yt lt;
           ((f, K), owned, out) \<leftarrow> rk_stmts (rk_seq n m) m (f, K) (zip (sq_stmts q) afters) owned lt out;
           target \<leftarrow> rk_term_target K (sq_term q) yt lt;
           let (f, out) = rk_term f (sq_term q) owned target out;
           Some (set_seq_stmts f i out, K) })"

text \<open>The environment of a suspending function, when a frame may keep it.\<close>

fun saves :: "var_id \<Rightarrow> lir_stmt \<Rightarrow> bool" where
  "saves p (SLet d val df (Some e)) = (p \<in> set (su_saved e))"
| "saves p _ = False"

definition rk_env :: "lir_fn \<Rightarrow> var_id set \<Rightarrow> var_id option" where
  "rk_env f live =
     (case f_params f of
        [] \<Rightarrow> None
      | p # ps \<Rightarrow> if borrowed_param f p \<and> p \<in> live \<and> list_ex (saves p) (f_stmts f) then Some p else None)"

definition rk_env_dup :: "lir_fn \<Rightarrow> seq_id \<Rightarrow> var_id option \<Rightarrow> lir_fn" where
  "rk_env_dup f body env =
     (case env of
        None \<Rightarrow> f
      | Some e \<Rightarrow>
          (case rk_new_stmt (f, []) (SDup e) of
             (f, out) \<Rightarrow> set_seq_stmts f body (out @ sq_stmts (f_seqs f ! body))))"

definition rk_run :: "nat \<Rightarrow> lir_module \<Rightarrow> lir_fn \<Rightarrow> (lir_fn \<times> rc_counter) option" where
  "rk_run n m f =
     do { body \<leftarrow> f_body f;
          (live, K) \<leftarrow> rk_live_seq n m f rc_counter_new body {} None;
          let env = rk_env f live;
          let owned = set (filter (\<lambda>p. counted f p \<and> \<not> borrowed_param f p) (f_params f)) \<union> set (opt_list env);
          (f, K) \<leftarrow> rk_seq n m (f, K) body owned {} None;
          Some (rk_env_dup f body env, K) }"

text \<open>The module, with whether every debug assertion held.\<close>

fun insert_rc_fns :: "nat \<Rightarrow> lir_module \<Rightarrow> fn_id list \<Rightarrow> bool \<Rightarrow> (lir_module \<times> bool) option" where
  "insert_rc_fns n m [] ok = Some (m, ok)"
| "insert_rc_fns n m (i # is) ok =
     (let f = m_functions m ! i in
      if f_body f = None then insert_rc_fns n m is ok
      else do { (f, K) \<leftarrow> rk_run n m f;
                insert_rc_fns n (m\<lparr>m_functions := (m_functions m)[i := f]\<rparr>) is (ok \<and> rk_asserts K) })"

definition insert_rc :: "nat \<Rightarrow> lir_module \<Rightarrow> (lir_module \<times> bool) option" where
  "insert_rc n m =
     (if m_stage m \<noteq> StateMachines then None
      else do { (m, ok) \<leftarrow> insert_rc_fns n m [0..<length (m_functions m)] True;
                Some (m\<lparr>m_stage := RefCounted\<rparr>, ok) })"

end
