(* ===== verification/Lir_Rc_Live.thy ===== *)
theory Lir_Rc_Live
  imports Lir_Rc_Pass
begin

text \<open>
  The shape of a function before reference counting, as the verifier leaves it at the stage
  \<open>StateMachines\<close> (\<open>crates/emela-lir/src/verify.rs\<close>), and the liveness analysis of the pass on it: the
  analysis returns, and what it records is consistent.
\<close>

section \<open>The shape of the input\<close>

datatype node = NSeq seq_id | NStmt stmt_id | NLabel label_id

text \<open>
  What is used is in scope, error variables are references, conditions are not, an edge saves a
  variable once, and there is no \<open>protect\<close>, \<open>dup\<close> or \<open>drop\<close>.
\<close>

fun stmt_fits :: "lir_fn \<Rightarrow> var_id set \<Rightarrow> lir_stmt \<Rightarrow> bool" where
  "stmt_fits f V (SLet d val df su) \<longleftrightarrow>
     counted_of f (value_vars val) \<subseteq> V \<and> list_all (counted f) (map fst (opt_list (fail_landing val)))
     \<and> list_all (\<lambda>e. counted_of f (su_saved e) \<subseteq> V \<and> distinct (su_saved e)) (opt_list su)"
| "stmt_fits f V (SIf d c a b) \<longleftrightarrow> counted_of f (operand_var c) = {}"
| "stmt_fits f V (SSwitch d on cases dflt) \<longleftrightarrow> switch_read f on \<subseteq> V"
| "stmt_fits f V (SLoop d vs inits b) \<longleftrightarrow> set (operand_vars f inits) \<subseteq> V \<and> distinct vs"
| "stmt_fits f V (SBlock d l b) \<longleftrightarrow> True"
| "stmt_fits f V _ \<longleftrightarrow> False"

text \<open>
  \<open>rc_seq_ok f L V i N\<close>: the sequence \<open>i\<close>, inside the blocks with the labels \<open>L\<close> and with the counted
  variables \<open>V\<close> in scope, is a tree in which each node of \<open>N\<close> occurs once.
\<close>

type_synonym seq_shape = "label_id set \<Rightarrow> var_id set \<Rightarrow> seq_id \<Rightarrow> node set \<Rightarrow> bool"

definition children_ok ::
  "seq_shape \<Rightarrow> lir_fn \<Rightarrow> label_id set \<Rightarrow> var_id set \<Rightarrow> (var_id list \<times> seq_id) list \<Rightarrow> node set \<Rightarrow> bool" where
  "children_ok T f L V cs N \<longleftrightarrow> all_disj (\<lambda>c. T L (V \<union> counted_of f (fst c)) (snd c)) cs N"

definition stmt_ok ::
  "seq_shape \<Rightarrow> lir_fn \<Rightarrow> label_id set \<Rightarrow> var_id set \<Rightarrow> stmt_id \<Rightarrow> lir_stmt \<Rightarrow> node set \<Rightarrow> bool" where
  "stmt_ok T f L V s stmt N \<longleftrightarrow>
     stmt_fits f V stmt \<and> stmt_labels stmt \<inter> L = {}
     \<and> counted_of f (opt_list (stmt_dst stmt)) \<inter> V = {}
     \<and> (\<forall>c\<in>set (scoped_children stmt). counted_of f (fst c) \<inter> V = {})
     \<and> (\<exists>N'. N = insert (NStmt s) (NLabel ` stmt_labels stmt \<union> N') \<and> NStmt s \<notin> N'
          \<and> NLabel ` stmt_labels stmt \<inter> N' = {}
          \<and> children_ok T f (L \<union> stmt_labels stmt) V (scoped_children stmt) N')"

fun stmts_ok :: "seq_shape \<Rightarrow> lir_fn \<Rightarrow> label_id set \<Rightarrow> var_id set \<Rightarrow> stmt_id list \<Rightarrow> lir_term \<Rightarrow> node set \<Rightarrow> bool" where
  "stmts_ok T f L V [] t N \<longleftrightarrow> set (term_consumes f t) \<subseteq> V \<and> N = {}"
| "stmts_ok T f L V (s # ss) t N \<longleftrightarrow>
     (\<exists>stmt A B. get_stmt f s = Some stmt \<and> stmt_ok T f L V s stmt A
        \<and> stmts_ok T f L (V \<union> counted_of f (opt_list (stmt_dst stmt))) ss t B \<and> A \<inter> B = {} \<and> N = A \<union> B)"

lemma children_ok_mono:
  assumes "\<And>L V i N. T L V i N \<longrightarrow> U L V i N"
  shows "children_ok T f L V cs N \<longrightarrow> children_ok U f L V cs N"
  unfolding children_ok_def by (rule all_disj_mono) (rule assms)

lemma stmt_ok_mono:
  assumes "\<And>L V i N. T L V i N \<longrightarrow> U L V i N"
  shows "stmt_ok T f L V s stmt N \<longrightarrow> stmt_ok U f L V s stmt N"
proof -
  have "children_ok T f (L \<union> stmt_labels stmt) V (scoped_children stmt) N' \<longrightarrow>
      children_ok U f (L \<union> stmt_labels stmt) V (scoped_children stmt) N'" for N'
    by (rule children_ok_mono) (rule assms)
  then show ?thesis
    unfolding stmt_ok_def by (intro conj_mono ex_mono imp_refl)
qed

lemma stmts_ok_mono [mono]:
  assumes "\<And>L V i N. T L V i N \<longrightarrow> U L V i N"
  shows "stmts_ok T f L V ss t N \<longrightarrow> stmts_ok U f L V ss t N"
proof (induction ss arbitrary: V N)
  case (Cons s ss)
  have "stmt_ok T f L V s stmt A \<longrightarrow> stmt_ok U f L V s stmt A" for stmt A
    by (rule stmt_ok_mono) (rule assms)
  with Cons.IH show ?case unfolding stmts_ok.simps by blast
qed simp

inductive rc_seq_ok :: "lir_fn \<Rightarrow> seq_shape" for f where
  "get_seq f i = Some q \<Longrightarrow> term_labels (sq_term q) \<subseteq> L \<Longrightarrow>
   NSeq i \<notin> N \<Longrightarrow> stmts_ok (rc_seq_ok f) f L V (sq_stmts q) (sq_term q) N \<Longrightarrow> rc_seq_ok f L V i (insert (NSeq i) N)"

text \<open>The function; its environment, if it has one, is a reference.\<close>

definition rc_fn_ok :: "lir_fn \<Rightarrow> bool" where
  "rc_fn_ok f \<longleftrightarrow>
     (\<exists>b N. f_body f = Some b \<and> rc_seq_ok f {} (counted_of f (f_params f)) b N)
     \<and> list_all (\<lambda>p. borrowed_param f p \<longrightarrow> counted f p) (f_params f)"

text \<open>Labels in scope are not declared again.\<close>

lemma children_ok_labels:
  "children_ok (\<lambda>L V i N. NLabel ` L \<inter> N = {}) f L V cs N \<Longrightarrow> NLabel ` L \<inter> N = {}"
  unfolding children_ok_def by (induction cs arbitrary: N) auto

lemma stmts_ok_labels:
  "stmts_ok (\<lambda>L V i N. NLabel ` L \<inter> N = {}) f L V ss t N \<Longrightarrow> NLabel ` L \<inter> N = {}"
proof (induction ss arbitrary: V N)
  case (Cons s ss)
  then obtain stmt A B where *: "stmt_ok (\<lambda>L V i N. NLabel ` L \<inter> N = {}) f L V s stmt A"
    "stmts_ok (\<lambda>L V i N. NLabel ` L \<inter> N = {}) f L (V \<union> counted_of f (opt_list (stmt_dst stmt))) ss t B" "N = A \<union> B" by auto
  from *(1) obtain N' where N': "A = insert (NStmt s) (NLabel ` stmt_labels stmt \<union> N')" "stmt_labels stmt \<inter> L = {}"
    "children_ok (\<lambda>L V i N. NLabel ` L \<inter> N = {}) f (L \<union> stmt_labels stmt) V (scoped_children stmt) N'"
    unfolding stmt_ok_def by blast
  from children_ok_labels [OF N'(3)] N' Cons.IH [OF *(2)] *(3) show ?case by auto
qed simp

lemma rc_seq_ok_labels: "rc_seq_ok f L V i N \<Longrightarrow> NLabel ` L \<inter> N = {}"
proof (induction rule: rc_seq_ok.induct)
  case (1 i q L N V)
  have "stmts_ok (\<lambda>L V i N. NLabel ` L \<inter> N = {}) f L V (sq_stmts q) (sq_term q) N"
    by (rule stmts_ok_mono [rule_format, OF _ 1(4)]) blast
  from stmts_ok_labels [OF this] show ?case by auto
qed

section \<open>What the analysis leaves unchanged\<close>

fun node_same :: "rc_counter \<Rightarrow> rc_counter \<Rightarrow> node \<Rightarrow> bool" where
  "node_same K K' (NSeq i) \<longleftrightarrow> rk_live K' i = rk_live K i"
| "node_same K K' (NStmt s) \<longleftrightarrow> rk_heads K' s = rk_heads K s"
| "node_same K K' (NLabel l) \<longleftrightarrow> rk_after_label K' l = rk_after_label K l"

definition agree :: "node set \<Rightarrow> rc_counter \<Rightarrow> rc_counter \<Rightarrow> bool" where
  "agree S K K' \<longleftrightarrow> (\<forall>x\<in>S. node_same K K' x)"

definition keeps :: "node set \<Rightarrow> rc_counter \<Rightarrow> rc_counter \<Rightarrow> bool" where
  "keeps N K K' \<longleftrightarrow> agree (- N) K K' \<and> rk_asserts K' = rk_asserts K"

lemma agree_refl [simp]: "agree S K K"
proof -
  have "node_same K K x" for x by (cases x) simp_all
  then show ?thesis by (simp add: agree_def)
qed

lemma agree_trans: "agree S K K' \<Longrightarrow> agree S K' K'' \<Longrightarrow> agree S K K''"
proof -
  have "node_same K K' x \<Longrightarrow> node_same K' K'' x \<Longrightarrow> node_same K K'' x" for x by (cases x) simp_all
  then show "agree S K K' \<Longrightarrow> agree S K' K'' \<Longrightarrow> agree S K K''" by (simp add: agree_def)
qed

lemma agree_mono: "agree S K K' \<Longrightarrow> S' \<subseteq> S \<Longrightarrow> agree S' K K'"
  by (auto simp: agree_def)

lemma keeps_refl [simp]: "keeps N K K"
  by (simp add: keeps_def)

lemma keeps_trans: "keeps N K K' \<Longrightarrow> keeps N K' K'' \<Longrightarrow> keeps N K K''"
  by (auto simp: keeps_def intro: agree_trans)

lemma keeps_mono: "keeps N K K' \<Longrightarrow> N \<subseteq> N' \<Longrightarrow> keeps N' K K'"
  by (auto simp: keeps_def intro: agree_mono)

lemma keeps_agree: "keeps N K K' \<Longrightarrow> S \<inter> N = {} \<Longrightarrow> agree S K K'"
  by (auto simp: keeps_def intro: agree_mono)

lemma agree_live: "agree S K K' \<Longrightarrow> NSeq i \<in> S \<Longrightarrow> rk_live K' i = rk_live K i"
  by (force simp: agree_def)

lemma agree_label: "agree S K K' \<Longrightarrow> NLabel l \<in> S \<Longrightarrow> rk_after_label K' l = rk_after_label K l"
  by (force simp: agree_def)

lemma agree_head: "agree S K K' \<Longrightarrow> NStmt s \<in> S \<Longrightarrow> rk_heads K' s = rk_heads K s"
  by (force simp: agree_def)

section \<open>What the analysis records\<close>

text \<open>
  \<open>recorded m K f i yl lh\<close>: in the sequence \<open>i\<close>, analysed with \<open>yl\<close> live where a \<open>yield\<close> goes to and \<open>lh\<close> at
  the head of the loop, every sequence and loop inside has the live variables that follow from what is
  recorded for the others.
\<close>

type_synonym seq_record = "seq_id \<Rightarrow> var_id set \<Rightarrow> var_id set option \<Rightarrow> bool"

abbreviation (input) without_dst :: "var_id set \<Rightarrow> lir_stmt \<Rightarrow> var_id set" where
  "without_dst after stmt \<equiv> after - set (opt_list (stmt_dst stmt))"

fun rec_stmt ::
  "seq_record \<Rightarrow> rc_counter \<Rightarrow> stmt_id \<Rightarrow> lir_stmt \<Rightarrow> var_id set \<Rightarrow> var_id set \<Rightarrow> var_id set option \<Rightarrow> bool" where
  "rec_stmt R K s (SLet d val df su) after yl lh \<longleftrightarrow>
     (\<forall>c\<in>set (scoped_children (SLet d val df su)). R (snd c) yl lh)"
| "rec_stmt R K s (SBlock d l b) after yl lh \<longleftrightarrow>
     rk_after_label K l = Some (after - set (opt_list d)) \<and> R b (after - set (opt_list d)) lh"
| "rec_stmt R K s (SLoop d vs inits b) after yl lh \<longleftrightarrow>
     rk_heads K s = Some (rk_live K b - set vs) \<and> R b (after - set (opt_list d)) (Some (rk_live K b - set vs))"
| "rec_stmt R K s stmt after yl lh \<longleftrightarrow>
     (\<forall>c\<in>set (scoped_children stmt). R (snd c) (without_dst after stmt) lh)"

fun rec_stmts ::
  "seq_record \<Rightarrow> lir_module \<Rightarrow> rc_counter \<Rightarrow> lir_fn \<Rightarrow> stmt_id list \<Rightarrow> var_id set \<Rightarrow> var_id set \<Rightarrow> var_id set option
     \<Rightarrow> var_id set \<Rightarrow> bool" where
  "rec_stmts R m K f [] live yl lh l \<longleftrightarrow> l = live"
| "rec_stmts R m K f (s # ss) live yl lh l \<longleftrightarrow>
     (\<exists>stmt after. get_stmt f s = Some stmt \<and> rec_stmts R m K f ss live yl lh after
        \<and> rec_stmt R K s stmt after yl lh \<and> rk_live_before m f K s after = Some l)"

lemma rec_stmt_mono:
  assumes "\<And>i yl lh. R i yl lh \<longrightarrow> R' i yl lh"
  shows "rec_stmt R K s stmt after yl lh \<longrightarrow> rec_stmt R' K s stmt after yl lh"
  using assms by (cases stmt) auto

lemma rec_stmts_mono [mono]:
  assumes "\<And>i yl lh. R i yl lh \<longrightarrow> R' i yl lh"
  shows "rec_stmts R m K f ss live yl lh l \<longrightarrow> rec_stmts R' m K f ss live yl lh l"
proof (induction ss arbitrary: l)
  case (Cons s ss)
  have "rec_stmt R K s stmt after yl lh \<longrightarrow> rec_stmt R' K s stmt after yl lh" for stmt after
    by (rule rec_stmt_mono) (rule assms)
  with Cons.IH show ?case unfolding rec_stmts.simps by blast
qed simp

inductive recorded :: "lir_module \<Rightarrow> rc_counter \<Rightarrow> lir_fn \<Rightarrow> seq_record" for m K f where
  "get_seq f i = Some q \<Longrightarrow>
   rec_stmts (recorded m K f) m K f (sq_stmts q) (rk_term_live f K (sq_term q) yl lh) yl lh (rk_live K i) \<Longrightarrow>
   recorded m K f i yl lh"

inductive_cases recordedE: "recorded m K f i yl lh"

lemma children_ok_in:
  "children_ok T f L V cs N \<Longrightarrow> c \<in> set cs \<Longrightarrow> \<exists>A\<subseteq>N. T L (V \<union> counted_of f (fst c)) (snd c) A"
  unfolding children_ok_def by (rule all_disj_in)

lemma stmt_okE:
  assumes "stmt_ok T f L V s stmt N"
  obtains N' where "N = insert (NStmt s) (NLabel ` stmt_labels stmt \<union> N')" "NStmt s \<notin> N'"
    "NLabel ` stmt_labels stmt \<inter> N' = {}" "children_ok T f (L \<union> stmt_labels stmt) V (scoped_children stmt) N'"
    "stmt_fits f V stmt" "stmt_labels stmt \<inter> L = {}" "counted_of f (opt_list (stmt_dst stmt)) \<inter> V = {}"
    "\<forall>c\<in>set (scoped_children stmt). counted_of f (fst c) \<inter> V = {}"
  using assms unfolding stmt_ok_def by blast

lemma rc_seq_ok_self: "rc_seq_ok f L V i N \<Longrightarrow> NSeq i \<in> N"
  by (erule rc_seq_ok.cases) simp

lemma live_before_agree:
  assumes "get_stmt f s = Some stmt" "\<forall>c\<in>set (scoped_children stmt). rk_live K' (snd c) = rk_live K (snd c)"
    and "rk_heads K' s = rk_heads K s"
  shows "rk_live_before m f K' s = rk_live_before m f K s"
proof -
  have "recorded_children K' stmt = recorded_children K stmt"
    using assms(2) unfolding recorded_children_def by (intro SUP_cong) auto
  with assms show ?thesis by (cases stmt) (simp_all add: rk_live_before_def fun_eq_iff)
qed

lemma rec_stmt_agree:
  assumes "rec_stmt R K s stmt after yl lh"
    and "\<And>c y h. c \<in> set (scoped_children stmt) \<Longrightarrow> R (snd c) y h \<Longrightarrow> R' (snd c) y h"
    and "\<forall>c\<in>set (scoped_children stmt). rk_live K' (snd c) = rk_live K (snd c)"
    and "rk_heads K' s = rk_heads K s" "\<forall>l\<in>stmt_labels stmt. rk_after_label K' l = rk_after_label K l"
  shows "rec_stmt R' K' s stmt after yl lh"
  using assms by (cases stmt) (auto simp del: scoped_children.simps(1), auto)

lemma term_live_agree:
  assumes "term_labels t \<subseteq> L" "\<forall>l\<in>L. rk_after_label K' l = rk_after_label K l"
  shows "rk_term_live f K' t yl lh = rk_term_live f K t yl lh"
  using assms by (cases t) (auto simp: rk_term_live_def)

text \<open>Later parts of the analysis do not touch what was recorded.\<close>

definition stays :: "lir_module \<Rightarrow> lir_fn \<Rightarrow> seq_shape" where
  "stays m f L V i N \<longleftrightarrow> NSeq i \<in> N \<and>
     (\<forall>K K' yl lh. recorded m K f i yl lh \<longrightarrow> agree (N \<union> NLabel ` L) K K' \<longrightarrow> recorded m K' f i yl lh)"

lemma staysD: "stays m f L V i N \<Longrightarrow> recorded m K f i yl lh \<Longrightarrow> agree S K K' \<Longrightarrow> N \<union> NLabel ` L \<subseteq> S \<Longrightarrow> recorded m K' f i yl lh"
  unfolding stays_def using agree_mono by blast

lemma stmt_stays:
  assumes "stmt_ok (stays m f) f L V s stmt N" "agree (N \<union> NLabel ` L) K K'"
  shows "c \<in> set (scoped_children stmt) \<Longrightarrow> rk_live K' (snd c) = rk_live K (snd c)"
    and "c \<in> set (scoped_children stmt) \<Longrightarrow> recorded m K f (snd c) yl lh \<Longrightarrow> recorded m K' f (snd c) yl lh"
    and "rk_heads K' s = rk_heads K s" "\<forall>l\<in>stmt_labels stmt. rk_after_label K' l = rk_after_label K l"
proof -
  from assms(1) obtain N' where N': "N = insert (NStmt s) (NLabel ` stmt_labels stmt \<union> N')"
    "children_ok (stays m f) f (L \<union> stmt_labels stmt) V (scoped_children stmt) N'" by (rule stmt_okE)
  have ch: "\<exists>A\<subseteq>N'. stays m f (L \<union> stmt_labels stmt) (V \<union> counted_of f (fst c)) (snd c) A" if "c \<in> set (scoped_children stmt)" for c
    by (rule children_ok_in [OF N'(2) that])
  show "rk_live K' (snd c) = rk_live K (snd c)" if "c \<in> set (scoped_children stmt)"
    using ch [OF that] N'(1) by (intro agree_live [OF assms(2)]) (auto simp: stays_def)
  show "recorded m K' f (snd c) yl lh" if "c \<in> set (scoped_children stmt)" "recorded m K f (snd c) yl lh"
    using ch [OF that(1)] staysD [OF _ that(2) assms(2)] N'(1) by blast
  show "rk_heads K' s = rk_heads K s" using N'(1) by (intro agree_head [OF assms(2)]) simp
  show "\<forall>l\<in>stmt_labels stmt. rk_after_label K' l = rk_after_label K l"
    using N'(1) by (auto intro!: agree_label [OF assms(2)])
qed

lemma rec_stmts_stay:
  assumes "stmts_ok (stays m f) f L V ss t N" "agree (N \<union> NLabel ` L) K K'"
    and "rec_stmts (recorded m K f) m K f ss live yl lh l"
  shows "rec_stmts (recorded m K' f) m K' f ss live yl lh l"
  using assms
proof (induction ss arbitrary: V N l)
  case (Cons s ss)
  from Cons.prems(1) obtain stmt A B where ok: "get_stmt f s = Some stmt" "stmt_ok (stays m f) f L V s stmt A"
    "stmts_ok (stays m f) f L (V \<union> counted_of f (opt_list (stmt_dst stmt))) ss t B" "N = A \<union> B" by auto
  from Cons.prems(3) ok(1) obtain after where r: "rec_stmts (recorded m K f) m K f ss live yl lh after"
    "rec_stmt (recorded m K f) K s stmt after yl lh" "rk_live_before m f K s after = Some l" by auto
  have ag: "agree (A \<union> NLabel ` L) K K'" "agree (B \<union> NLabel ` L) K K'"
    using Cons.prems(2) ok(4) by (auto intro: agree_mono)
  note st = stmt_stays [OF ok(2) ag(1)]
  have "rk_live_before m f K' s after = Some l" using live_before_agree [OF ok(1), of K' K m] st(1,3) r(3) by simp
  moreover have "rec_stmt (recorded m K' f) K' s stmt after yl lh"
    by (rule rec_stmt_agree [OF r(2)]) (use st in auto)
  ultimately show ?case using Cons.IH [OF ok(3) ag(2) r(1)] ok(1) by auto
qed simp

lemma rc_seq_stays: "rc_seq_ok f L V i N \<Longrightarrow> stays m f L V i N"
proof (induction rule: rc_seq_ok.induct)
  case (1 i q L N V)
  have ok: "stmts_ok (stays m f) f L V (sq_stmts q) (sq_term q) N"
    by (rule stmts_ok_mono [rule_format, OF _ 1(4)]) blast
  show ?case unfolding stays_def
  proof (intro conjI allI impI)
    fix K K' yl lh assume r: "recorded m K f i yl lh" and ag: "agree (insert (NSeq i) N \<union> NLabel ` L) K K'"
    from r 1(1) have "rec_stmts (recorded m K f) m K f (sq_stmts q) (rk_term_live f K (sq_term q) yl lh) yl lh (rk_live K i)"
      by (auto elim: recordedE)
    from rec_stmts_stay [OF ok agree_mono [OF ag] this]
    have "rec_stmts (recorded m K' f) m K' f (sq_stmts q) (rk_term_live f K (sq_term q) yl lh) yl lh (rk_live K i)" by auto
    moreover have "rk_term_live f K' (sq_term q) yl lh = rk_term_live f K (sq_term q) yl lh"
      by (rule term_live_agree [OF 1(2)]) (auto intro: agree_label [OF ag])
    moreover have "rk_live K' i = rk_live K i" by (rule agree_live [OF ag]) simp
    ultimately show "recorded m K' f i yl lh" by (intro recorded.intros [OF 1(1)]) (simp only:)
  qed simp
qed

text \<open>What one call of the analysis does: it changes only the nodes of its sequence and records them.\<close>

definition call_rec :: "rk_live_call \<Rightarrow> lir_module \<Rightarrow> lir_fn \<Rightarrow> seq_shape" where
  "call_rec call m f L V i N \<longleftrightarrow> rc_seq_ok f L V i N \<and>
     (\<forall>K yl lh l K'. call K i yl lh = Some (l, K') \<longrightarrow>
        keeps N K K' \<and> recorded m K' f i yl lh \<and> rk_live K' i = l)"

lemma call_recD:
  assumes "call_rec call m f L V i N" "call K i yl lh = Some (l, K')"
  shows "keeps N K K'" "recorded m K' f i yl lh" "rk_live K' i = l"
  using assms unfolding call_rec_def by blast+

lemma call_rec_ok: "call_rec call m f L V i N \<Longrightarrow> rc_seq_ok f L V i N"
  by (simp add: call_rec_def)

lemma call_rec_labels:
  assumes "children_ok (call_rec call m f) f L V cs N"
  shows "NLabel ` L \<inter> N = {}"
proof -
  have "children_ok (\<lambda>L V i N. NLabel ` L \<inter> N = {}) f L V cs N"
    by (rule children_ok_mono [rule_format, OF _ assms]) (auto dest!: call_rec_ok rc_seq_ok_labels)
  then show ?thesis by (rule children_ok_labels)
qed

lemma children_ok_Cons:
  "children_ok T f L V (c # cs) N \<longleftrightarrow>
     (\<exists>A B. T L (V \<union> counted_of f (fst c)) (snd c) A \<and> children_ok T f L V cs B \<and> A \<inter> B = {} \<and> N = A \<union> B)"
  by (simp add: children_ok_def)

lemma live_bodies_rec:
  assumes "children_ok (call_rec call m f) f L V cs N" "rk_live_bodies call K cs yl lh acc = Some (l, K')"
  shows "keeps N K K' \<and> (\<forall>c\<in>set cs. recorded m K' f (snd c) yl lh)
     \<and> l = acc \<union> (\<Union>(ds, b)\<in>set cs. rk_live K' b - set ds)"
  using assms
proof (induction cs arbitrary: K acc N)
  case (Cons c cs)
  obtain ds b where c: "c = (ds, b)" by fastforce
  from Cons.prems(1) c obtain A B where AB: "call_rec call m f L (V \<union> counted_of f ds) b A"
    "children_ok (call_rec call m f) f L V cs B" "A \<inter> B = {}" "N = A \<union> B" by (auto simp: children_ok_Cons)
  from Cons.prems(2) c obtain lb K1 where call: "call K b yl lh = Some (lb, K1)"
    and rest: "rk_live_bodies call K1 cs yl lh (acc \<union> (lb - set ds)) = Some (l, K')" by (auto simp: bind_eq_Some_conv)
  note b = call_recD [OF AB(1) call] and IH = Cons.IH [OF AB(2) rest]
  have "keeps B K1 K'" using IH by blast
  then have ag: "agree (A \<union> NLabel ` L) K1 K'"
    using AB(3) call_rec_labels [OF AB(2)] by (intro keeps_agree) auto
  have "recorded m K' f b yl lh"
    using staysD [OF rc_seq_stays [OF call_rec_ok [OF AB(1)]] b(2) ag] by blast
  moreover have "rk_live K' b = lb"
    using agree_live [OF ag] b(3) rc_seq_ok_self [OF call_rec_ok [OF AB(1)]] by simp
  moreover have "keeps N K K'"
    using keeps_mono [OF b(1)] keeps_mono [OF \<open>keeps B K1 K'\<close>] AB(4) by (blast intro: keeps_trans)
  ultimately show ?case using IH c by auto
qed simp

lemma live_loop_rec:
  assumes "call_rec call m f L V b N"
  shows "rk_live_loop n call K vs b after h0 = Some (h, K') \<Longrightarrow>
    keeps N K K' \<and> recorded m K' f b after (Some h) \<and> h = rk_live K' b - set vs"
proof (induction n arbitrary: K h0)
  case (Suc n)
  from Suc.prems obtain l K1 where call: "call K b after (Some h0) = Some (l, K1)"
    and rest: "(if l - set vs = h0 then Some (h0, K1) else rk_live_loop n call K1 vs b after (l - set vs)) = Some (h, K')"
    by (auto simp: bind_eq_Some_conv)
  note b = call_recD [OF assms call]
  show ?case
  proof (cases "l - set vs = h0")
    case True
    with rest b show ?thesis by auto
  next
    case False
    with rest Suc.IH [of K1 "l - set vs"] b(1) show ?thesis by (auto intro: keeps_trans)
  qed
qed simp

lemma live_before_eq:
  assumes "get_stmt f s = Some stmt"
  shows "rk_live_before m f K s after =
    (let after = without_dst after stmt in
     case stmt of
       SLet d val df su \<Rightarrow>
         Some (after \<union> recorded_children K stmt \<union> set (map fst (value_uses m f val)) \<union> set (suspend_saved f stmt))
     | SDup v \<Rightarrow> Some (insert v after)
     | SDrop v \<Rightarrow> Some (insert v after)
     | SIf d c a b \<Rightarrow> Some (recorded_children K stmt)
     | SSwitch d on cases dflt \<Rightarrow> Some (recorded_children K stmt \<union> switch_read f on)
     | SBlock d label b \<Rightarrow> Some (rk_live K b)
     | SLoop d vs inits b \<Rightarrow> do { h \<leftarrow> rk_heads K s; Some (h \<union> set (operand_vars f inits)) }
     | SProtect d b cleanup \<Rightarrow> None)"
  using assms by (simp add: rk_live_before_def)

lemma live_stmt_rec:
  assumes ok: "stmt_ok (call_rec call m f) f L V s stmt N" and stmt: "get_stmt f s = Some stmt"
    and live: "rk_live_stmt n call m f K s after yl lh = Some (l, K')"
  shows "keeps N K K' \<and> rec_stmt (recorded m K' f) K' s stmt after yl lh \<and> rk_live_before m f K' s after = Some l"
proof -
  from ok obtain N' where N': "N = insert (NStmt s) (NLabel ` stmt_labels stmt \<union> N')" "NStmt s \<notin> N'"
    "NLabel ` stmt_labels stmt \<inter> N' = {}"
    and ch: "children_ok (call_rec call m f) f (L \<union> stmt_labels stmt) V (scoped_children stmt) N'"
    and fits: "stmt_fits f V stmt" by (rule stmt_okE)
  have sub: "keeps N' K K' \<Longrightarrow> keeps N K K'" for K by (rule keeps_mono) (use N'(1) in auto)
  note bodies = live_bodies_rec [OF ch]
  show ?thesis
  proof (cases stmt)
    case (SLet d val df su)
    from live stmt SLet obtain l0 where l0: "rk_live_bodies call K (scoped_children stmt) yl lh (without_dst after stmt) = Some (l0, K')"
      "l = l0 \<union> set (map fst (value_uses m f val)) \<union> set (suspend_saved f stmt)"
      by (auto simp: rk_live_stmt_def Let_def bind_eq_Some_conv)
    note b = bodies [OF l0(1)]
    from b have "rec_stmt (recorded m K' f) K' s stmt after yl lh" unfolding SLet rec_stmt.simps by blast
    with b l0(2) sub [of K] SLet show ?thesis by (simp add: live_before_eq [OF stmt] recorded_children_def del: scoped_children.simps)
  next
    case (SIf d c a b)
    from live stmt SIf have l0: "rk_live_bodies call K (scoped_children stmt) (without_dst after stmt) lh {} = Some (l, K')"
      by (simp add: rk_live_stmt_def Let_def)
    from bodies [OF l0] sub [of K] SIf show ?thesis by (simp add: live_before_eq [OF stmt] recorded_children_def)
  next
    case (SSwitch d on cs df)
    from live stmt SSwitch obtain l0 where l0: "rk_live_bodies call K (scoped_children stmt) (without_dst after stmt) lh {} = Some (l0, K')"
      "l = l0 \<union> switch_read f on"
      by (auto simp: rk_live_stmt_def Let_def bind_eq_Some_conv)
    from bodies [OF l0(1)] l0(2) sub [of K] SSwitch show ?thesis
      by (simp add: live_before_eq [OF stmt] recorded_children_def)
  next
    case (SBlock d lb b)
    let ?a = "without_dst after stmt"
    let ?K = "K\<lparr>rk_after_label := (rk_after_label K)(lb \<mapsto> ?a)\<rparr>"
    from live stmt SBlock have call: "call ?K b ?a lh = Some (l, K')" by (simp add: rk_live_stmt_def Let_def)
    from ch SBlock have "call_rec call m f (insert lb L) V b N'" by (simp add: children_ok_Cons children_ok_def counted_of_def)
    note b = call_recD [OF this call]
    have "agree (- N) K ?K"
      unfolding agree_def
    proof
      fix x assume "x \<in> - N"
      with N'(1) SBlock show "node_same K ?K x" by (cases x) auto
    qed
    moreover have "keeps N ?K K'" by (rule keeps_mono [OF b(1)]) (use N'(1) in auto)
    ultimately have "keeps N K K'" by (auto simp: keeps_def intro: agree_trans)
    moreover have "rk_after_label K' lb = Some ?a"
      using N'(3) SBlock agree_label [OF keeps_agree [OF b(1), of "{NLabel lb}"], of lb] by simp
    ultimately show ?thesis using b SBlock by (simp add: live_before_eq [OF stmt])
  next
    case (SLoop d vs inits b)
    from live stmt SLoop obtain h K1 where loop: "rk_live_loop n call K vs b (without_dst after stmt) {} = Some (h, K1)"
      and K': "K' = K1\<lparr>rk_heads := (rk_heads K1)(s \<mapsto> h)\<rparr>" and l: "l = h \<union> set (operand_vars f inits)"
      by (auto simp: rk_live_stmt_def Let_def bind_eq_Some_conv)
    from ch SLoop have cr: "call_rec call m f L (V \<union> counted_of f vs) b N'" by (simp add: children_ok_Cons children_ok_def)
    note b = live_loop_rec [OF cr loop]
    have "agree (- {NStmt s}) K1 K'"
      unfolding agree_def
    proof
      fix x assume "x \<in> - {NStmt s}"
      with K' show "node_same K1 K' x" by (cases x) auto
    qed
    then have ag: "agree (N' \<union> NLabel ` L) K1 K'" and kp: "keeps N K1 K'"
      using N'(1,2) K' by (auto simp: keeps_def intro: agree_mono)
    have "keeps N K K'" using b kp keeps_mono [of N' K K1 N] N'(1) by (blast intro: keeps_trans)
    moreover have "recorded m K' f b (without_dst after stmt) (Some h)"
      using staysD [OF rc_seq_stays [OF call_rec_ok [OF cr]] _ ag] b by blast
    moreover have "rk_live K' b = rk_live K1 b" using K' by simp
    ultimately show ?thesis using b SLoop K' l by (simp add: live_before_eq [OF stmt])
  qed (use fits in simp_all)
qed

lemma live_stmts_rec:
  assumes "stmts_ok (call_rec call m f) f L V ss t N" "rk_live_stmts n call m f K ss live yl lh = Some (l, K')"
    and "NLabel ` L \<inter> N = {}"
  shows "keeps N K K' \<and> rec_stmts (recorded m K' f) m K' f ss live yl lh l"
  using assms
proof (induction ss arbitrary: V N l K')
  case (Cons s ss)
  from Cons.prems(1) obtain stmt A B where ok: "get_stmt f s = Some stmt" "stmt_ok (call_rec call m f) f L V s stmt A"
    "stmts_ok (call_rec call m f) f L (V \<union> counted_of f (opt_list (stmt_dst stmt))) ss t B" "A \<inter> B = {}" "N = A \<union> B" by auto
  from Cons.prems(2) obtain l1 K1 where rest: "rk_live_stmts n call m f K ss live yl lh = Some (l1, K1)"
    and s: "rk_live_stmt n call m f K1 s l1 yl lh = Some (l, K')" by (auto simp: bind_eq_Some_conv)
  note IH = Cons.IH [OF ok(3) rest] and st = live_stmt_rec [OF ok(2,1) s]
  have "stmts_ok (stays m f) f L (V \<union> counted_of f (opt_list (stmt_dst stmt))) ss t B"
    by (rule stmts_ok_mono [rule_format, OF _ ok(3)]) (intro impI rc_seq_stays call_rec_ok)
  moreover have "agree (B \<union> NLabel ` L) K1 K'"
    using st ok(4,5) Cons.prems(3) by (intro keeps_agree [of A]) auto
  ultimately have "rec_stmts (recorded m K' f) m K' f ss live yl lh l1"
    by (rule rec_stmts_stay) (use IH ok(5) Cons.prems(3) in auto)
  moreover have "keeps N K K'"
    using IH st ok(5) Cons.prems(3) keeps_mono [of B K K1 N] keeps_mono [of A K1 K' N] by (auto intro: keeps_trans)
  ultimately show ?case using ok(1) st by auto
qed simp

text \<open>The analysis of a sequence records it.\<close>

lemma live_seq_rec: "rc_seq_ok f L V i N \<Longrightarrow> call_rec (rk_live_seq n m f) m f L V i N"
proof (induction arbitrary: n rule: rc_seq_ok.induct)
  case (1 i q L N V)
  have seq: "rc_seq_ok f L V i (insert (NSeq i) N)"
    by (rule rc_seq_ok.intros [OF 1(1-3)]) (rule stmts_ok_mono [rule_format, OF _ 1(4)], blast)
  have lab: "NLabel ` L \<inter> N = {}" using rc_seq_ok_labels [OF seq] by auto
  show ?case unfolding call_rec_def
  proof (intro conjI allI impI seq)
    fix K yl lh l K' assume "rk_live_seq n m f K i yl lh = Some (l, K')"
    then obtain k K1 where k: "n = Suc k" and st: "rk_live_stmts k (rk_live_seq k m f) m f K (sq_stmts q)
        (rk_term_live f K (sq_term q) yl lh) yl lh = Some (l, K1)" and K': "K' = K1\<lparr>rk_live := (rk_live K1)(i := l)\<rparr>"
      using 1(1) by (cases n) (auto simp: bind_eq_Some_conv)
    have ok: "stmts_ok (call_rec (rk_live_seq k m f) m f) f L V (sq_stmts q) (sq_term q) N"
      by (rule stmts_ok_mono [rule_format, OF _ 1(4)]) blast
    note r = live_stmts_rec [OF ok st lab]
    have "agree (- {NSeq i}) K1 K'"
      unfolding agree_def
    proof
      fix x assume "x \<in> - {NSeq i}"
      with K' show "node_same K1 K' x" by (cases x) auto
    qed
    then have ag: "agree (N \<union> NLabel ` L) K1 K'" and kp: "keeps (insert (NSeq i) N) K1 K'"
      using 1(3) K' by (auto simp: keeps_def intro: agree_mono)
    show "keeps (insert (NSeq i) N) K K'"
      using r kp keeps_mono [of N K K1 "insert (NSeq i) N"] by (blast intro: keeps_trans)
    show live: "rk_live K' i = l" using K' by simp
    have "stmts_ok (stays m f) f L V (sq_stmts q) (sq_term q) N"
      by (rule stmts_ok_mono [rule_format, OF _ 1(4)]) (intro impI rc_seq_stays, blast)
    from rec_stmts_stay [OF this ag] r
    have "rec_stmts (recorded m K' f) m K' f (sq_stmts q) (rk_term_live f K (sq_term q) yl lh) yl lh l" by blast
    moreover have "rk_term_live f K' (sq_term q) yl lh = rk_term_live f K (sq_term q) yl lh"
    proof (rule term_live_agree [OF 1(2)], rule ballI)
      fix l assume l: "l \<in> L"
      have "agree (NLabel ` L) K K1" using r lab by (blast intro: keeps_agree)
      then show "rk_after_label K' l = rk_after_label K l"
        using l agree_label [OF ag, of l] agree_label [of "NLabel ` L" K K1 l] by simp
    qed
    ultimately show "recorded m K' f i yl lh"
      by (intro recorded.intros [OF 1(1)]) (simp only: live)
  qed
qed

section \<open>The analysis returns\<close>

text \<open>
  A reference without state that goes through each loop once, with nothing live at its head. Whether a
  variable is live depends only on whether the same variable is live where a sequence goes to, so the
  fixpoint at a loop is reached after the first round.
\<close>

type_synonym once_call = "seq_id \<Rightarrow> (label_id \<Rightarrow> var_id set) \<Rightarrow> var_id set \<Rightarrow> var_id set \<Rightarrow> var_id set"

definition once_children ::
  "once_call \<Rightarrow> lir_stmt \<Rightarrow> (label_id \<Rightarrow> var_id set) \<Rightarrow> var_id set \<Rightarrow> var_id set \<Rightarrow> var_id set" where
  "once_children call stmt a yl h = (\<Union>(ds, b)\<in>set (scoped_children stmt). call b a yl h - set ds)"

definition once_stmt ::
  "once_call \<Rightarrow> lir_module \<Rightarrow> lir_fn \<Rightarrow> (label_id \<Rightarrow> var_id set) \<Rightarrow> lir_stmt \<Rightarrow> var_id set \<Rightarrow> var_id set \<Rightarrow> var_id set \<Rightarrow> var_id set" where
  "once_stmt call m f a stmt after yl h =
     (let after = without_dst after stmt in
      case stmt of
        SLet d val df su \<Rightarrow>
          after \<union> once_children call stmt a yl h \<union> set (map fst (value_uses m f val)) \<union> set (suspend_saved f stmt)
      | SDup v \<Rightarrow> insert v after
      | SDrop v \<Rightarrow> insert v after
      | SIf d c x y \<Rightarrow> once_children call stmt a after h
      | SSwitch d on cases dflt \<Rightarrow> once_children call stmt a after h \<union> switch_read f on
      | SBlock d l b \<Rightarrow> call b (a(l := after)) after h
      | SLoop d vs inits b \<Rightarrow> (call b a after {} - set vs) \<union> set (operand_vars f inits)
      | SProtect d b cleanup \<Rightarrow> {})"

fun once_stmts ::
  "once_call \<Rightarrow> lir_module \<Rightarrow> lir_fn \<Rightarrow> (label_id \<Rightarrow> var_id set) \<Rightarrow> stmt_id list \<Rightarrow> var_id set \<Rightarrow> var_id set \<Rightarrow> var_id set \<Rightarrow> var_id set" where
  "once_stmts call m f a [] live yl h = live"
| "once_stmts call m f a (s # ss) live yl h =
     (case get_stmt f s of
        None \<Rightarrow> {}
      | Some stmt \<Rightarrow> once_stmt call m f a stmt (once_stmts call m f a ss live yl h) yl h)"

fun once_term :: "lir_fn \<Rightarrow> (label_id \<Rightarrow> var_id set) \<Rightarrow> lir_term \<Rightarrow> var_id set \<Rightarrow> var_id set \<Rightarrow> var_id set" where
  "once_term f a (Yield v) yl h = yl \<union> set (term_consumes f (Yield v))"
| "once_term f a (Break l v) yl h = a l \<union> set (term_consumes f (Break l v))"
| "once_term f a (Recur args) yl h = h \<union> set (term_consumes f (Recur args))"
| "once_term f a t yl h = set (term_consumes f t)"

fun once_seq :: "nat \<Rightarrow> lir_module \<Rightarrow> lir_fn \<Rightarrow> once_call" where
  "once_seq 0 m f i a yl h = {}"
| "once_seq (Suc n) m f i a yl h =
     (case get_seq f i of
        None \<Rightarrow> {}
      | Some q \<Rightarrow> once_stmts (once_seq n m f) m f a (sq_stmts q) (once_term f a (sq_term q) yl h) yl h)"

text \<open>Each variable by itself, and monotone.\<close>

definition pointwise :: "once_call \<Rightarrow> bool" where
  "pointwise call \<longleftrightarrow>
     (\<forall>v i a a' y y' h h'. v \<in> call i a y h \<longrightarrow> (\<forall>l. v \<in> a l \<longrightarrow> v \<in> a' l) \<longrightarrow> (v \<in> y \<longrightarrow> v \<in> y') \<longrightarrow>
        (v \<in> h \<longrightarrow> v \<in> h') \<longrightarrow> v \<in> call i a' y' h')"

lemma pointwiseD:
  "pointwise call \<Longrightarrow> v \<in> call i a y h \<Longrightarrow> (\<And>l. v \<in> a l \<Longrightarrow> v \<in> a' l) \<Longrightarrow> (v \<in> y \<Longrightarrow> v \<in> y') \<Longrightarrow> (v \<in> h \<Longrightarrow> v \<in> h') \<Longrightarrow>
   v \<in> call i a' y' h'"
  unfolding pointwise_def by blast

lemma once_children_pointwise:
  assumes "pointwise call" "v \<in> once_children call stmt a y h" "\<And>l. v \<in> a l \<Longrightarrow> v \<in> a' l" "v \<in> y \<Longrightarrow> v \<in> y'" "v \<in> h \<Longrightarrow> v \<in> h'"
  shows "v \<in> once_children call stmt a' y' h'"
  using assms(2) pointwiseD [OF assms(1) _ assms(3-5)] unfolding once_children_def by fastforce

lemma once_stmt_pointwise:
  assumes call: "pointwise call" and v: "v \<in> once_stmt call m f a stmt x y h"
    and le: "\<And>l. v \<in> a l \<Longrightarrow> v \<in> a' l" "v \<in> x \<Longrightarrow> v \<in> x'" "v \<in> y \<Longrightarrow> v \<in> y'" "v \<in> h \<Longrightarrow> v \<in> h'"
  shows "v \<in> once_stmt call m f a' stmt x' y' h'"
proof -
  have after: "v \<in> without_dst x stmt \<Longrightarrow> v \<in> without_dst x' stmt" using le(2) by auto
  note ch = once_children_pointwise [OF call, where v = v and a = a and a' = a' and h = h and h' = h']
  show ?thesis
  proof (cases stmt)
    case (SLet d val df su)
    have "v \<in> once_children call stmt a y h \<Longrightarrow> v \<in> once_children call stmt a' y' h'"
      by (erule ch) (use le in auto)
    with v after SLet show ?thesis by (auto simp: once_stmt_def)
  next
    case (SBlock d l b)
    with v have "v \<in> call b (a(l := without_dst x stmt)) (without_dst x stmt) h" by (simp add: once_stmt_def Let_def)
    then have "v \<in> call b (a'(l := without_dst x' stmt)) (without_dst x' stmt) h'"
      by (rule pointwiseD [OF call]) (use after le in \<open>auto split: if_splits\<close>)
    with SBlock show ?thesis by (simp add: once_stmt_def Let_def)
  next
    case (SLoop d vs inits b)
    with v pointwiseD [OF call, of v b a "without_dst x stmt" "{}" a' "without_dst x' stmt" "{}"] after le
    show ?thesis by (auto simp: once_stmt_def)
  next
    case (SIf d c p q)
    with v show ?thesis using ch [of stmt "without_dst x stmt" "without_dst x' stmt"] after le
      by (auto simp: once_stmt_def)
  next
    case (SSwitch d on cs df)
    with v show ?thesis using ch [of stmt "without_dst x stmt" "without_dst x' stmt"] after le
      by (auto simp: once_stmt_def)
  qed (use v after in \<open>auto simp: once_stmt_def\<close>)
qed

lemma once_seq_pointwise: "pointwise (once_seq n m f)"
proof (induction n)
  case (Suc n)
  have stmts: "v \<in> once_stmts (once_seq n m f) m f a ss x y h \<Longrightarrow> (\<And>l. v \<in> a l \<Longrightarrow> v \<in> a' l) \<Longrightarrow> (v \<in> x \<Longrightarrow> v \<in> x') \<Longrightarrow>
      (v \<in> y \<Longrightarrow> v \<in> y') \<Longrightarrow> (v \<in> h \<Longrightarrow> v \<in> h') \<Longrightarrow> v \<in> once_stmts (once_seq n m f) m f a' ss x' y' h'" for v a a' ss x x' y y' h h'
  proof (induction ss)
    case (Cons s ss)
    then show ?case
      using once_stmt_pointwise [OF Suc, where v = v and a = a and a' = a' and y = y and y' = y' and h = h and h' = h']
      by (auto split: option.splits)
  qed simp
  have tm: "v \<in> once_term f a t y h \<Longrightarrow> (\<And>l. v \<in> a l \<Longrightarrow> v \<in> a' l) \<Longrightarrow> (v \<in> y \<Longrightarrow> v \<in> y') \<Longrightarrow> (v \<in> h \<Longrightarrow> v \<in> h') \<Longrightarrow>
      v \<in> once_term f a' t y' h'" for v a a' t y y' h h'
    by (cases t) auto
  show ?case unfolding pointwise_def
  proof (intro allI impI)
    fix v i a a' y y' h h'
    assume "v \<in> once_seq (Suc n) m f i a y h" and le: "\<forall>l. v \<in> a l \<longrightarrow> v \<in> a' l" "v \<in> y \<longrightarrow> v \<in> y'" "v \<in> h \<longrightarrow> v \<in> h'"
    then obtain q where q: "get_seq f i = Some q"
      "v \<in> once_stmts (once_seq n m f) m f a (sq_stmts q) (once_term f a (sq_term q) y h) y h"
      by (auto split: option.splits)
    from stmts [OF q(2), of a' "once_term f a' (sq_term q) y' h'" y' h'] tm [of v a "sq_term q" y h a' y' h'] le q(1)
    show "v \<in> once_seq (Suc n) m f i a' y' h'" by simp
  qed
qed (simp add: pointwise_def)

text \<open>The analysis gives what the reference gives, and keeps the labels in scope.\<close>

definition scope_labels :: "label_id set \<Rightarrow> rc_counter \<Rightarrow> label_id \<Rightarrow> var_id set" where
  "scope_labels L K l = (if l \<in> L then set_or_empty (rk_after_label K l) else {})"

definition same_labels :: "label_id set \<Rightarrow> rc_counter \<Rightarrow> rc_counter \<Rightarrow> bool" where
  "same_labels L K K' \<longleftrightarrow> (\<forall>l\<in>L. rk_after_label K' l = rk_after_label K l)"

definition call_once :: "rk_live_call \<Rightarrow> once_call \<Rightarrow> label_id set \<Rightarrow> seq_id \<Rightarrow> bool" where
  "call_once call once L i \<longleftrightarrow>
     (\<forall>K yl lh. \<exists>K'. call K i yl lh = Some (once i (scope_labels L K) yl (set_or_empty lh), K') \<and> same_labels L K K')"

lemma scope_labels_cong: "same_labels L K K' \<Longrightarrow> scope_labels L K' = scope_labels L K"
  by (auto simp: scope_labels_def same_labels_def fun_eq_iff)

lemma same_labels_refl [simp]: "same_labels L K K"
  by (simp add: same_labels_def)

lemma same_labels_trans: "same_labels L K K' \<Longrightarrow> same_labels L K' K'' \<Longrightarrow> same_labels L K K''"
  by (simp add: same_labels_def)

lemma call_onceE:
  assumes "call_once call once L i" "same_labels L K0 K"
  obtains K' where "call K i yl lh = Some (once i (scope_labels L K0) yl (set_or_empty lh), K')" "same_labels L K0 K'"
  using assms scope_labels_cong [OF assms(2)] same_labels_trans [OF assms(2)] unfolding call_once_def by metis

lemma live_bodies_once:
  assumes "\<forall>c\<in>set cs. call_once call once L (snd c)" "same_labels L K0 K"
  shows "\<exists>K'. rk_live_bodies call K cs yl lh acc =
      Some (acc \<union> (\<Union>(ds, b)\<in>set cs. once b (scope_labels L K0) yl (set_or_empty lh) - set ds), K') \<and> same_labels L K0 K'"
  using assms
proof (induction cs arbitrary: K acc)
  case (Cons c cs)
  obtain ds b where c: "c = (ds, b)" by fastforce
  have b: "call_once call once L b" using Cons.prems(1) c by simp
  let ?l = "once b (scope_labels L K0) yl (set_or_empty lh)"
  obtain K1 where K1: "call K b yl lh = Some (?l, K1)" "same_labels L K0 K1" by (rule call_onceE [OF b Cons.prems(2)])
  from Cons.IH [OF _ K1(2), of "acc \<union> (?l - set ds)"] Cons.prems(1) obtain K' where
    "rk_live_bodies call K1 cs yl lh (acc \<union> (?l - set ds)) = Some (acc \<union> (?l - set ds) \<union>
       (\<Union>(ds, b)\<in>set cs. once b (scope_labels L K0) yl (set_or_empty lh) - set ds), K')" "same_labels L K0 K'" by auto
  with K1(1) c show ?case by (simp add: Un_assoc)
qed simp

lemma live_loop_once:
  assumes "call_once call once L b" "pointwise once" "same_labels L K0 K" "2 \<le> n"
  shows "\<exists>K'. rk_live_loop n call K vs b after {} =
      Some (once b (scope_labels L K0) after {} - set vs, K') \<and> same_labels L K0 K'"
proof -
  obtain k where n: "n = Suc (Suc k)" using assms(4) by (metis add_2_eq_Suc le_Suc_ex)
  let ?l = "\<lambda>h. once b (scope_labels L K0) after h" and ?h = "once b (scope_labels L K0) after {} - set vs"
  obtain K1 where 1: "call K b after (Some {}) = Some (?l {}, K1)" "same_labels L K0 K1"
    by (rule call_onceE [OF assms(1,3), of after "Some {}"]) simp
  obtain K2 where 2: "call K1 b after (Some ?h) = Some (?l ?h, K2)" "same_labels L K0 K2"
    by (rule call_onceE [OF assms(1) 1(2), of after "Some ?h"]) simp
  have "?l ?h - set vs = ?h"
  proof (rule set_eqI)
    fix v
    have "v \<in> ?l {} \<Longrightarrow> v \<in> ?l ?h" by (rule pointwiseD [OF assms(2)]) auto
    moreover have "v \<in> ?l {}" if "v \<in> ?l ?h" "v \<notin> ?h" by (rule pointwiseD [OF assms(2) that(1)]) (use that(2) in auto)
    ultimately show "v \<in> ?l ?h - set vs \<longleftrightarrow> v \<in> ?h" by blast
  qed
  with 1 2 n show ?thesis by simp
qed

lemma live_stmt_once:
  assumes stmt: "get_stmt f s = Some stmt" "stmt_fits f V stmt" "stmt_labels stmt \<inter> L = {}"
    and ch: "\<forall>c\<in>set (scoped_children stmt). call_once call once (L \<union> stmt_labels stmt) (snd c)"
    and pw: "pointwise once" and K: "same_labels L K0 K" and n: "2 \<le> n"
  shows "\<exists>K'. rk_live_stmt n call m f K s after yl lh =
      Some (once_stmt once m f (scope_labels L K0) stmt after yl (set_or_empty lh), K') \<and> same_labels L K0 K'"
proof (cases stmt)
  case (SBlock d l b)
  let ?a = "without_dst after stmt"
  let ?K = "K\<lparr>rk_after_label := (rk_after_label K)(l \<mapsto> ?a)\<rparr>"
  have "call_once call once (insert l L) b" using ch SBlock by simp
  then obtain K' where K': "call ?K b ?a lh = Some (once b (scope_labels (insert l L) ?K) ?a (set_or_empty lh), K')"
    "same_labels (insert l L) ?K K'" unfolding call_once_def by blast
  have "scope_labels (insert l L) ?K = (scope_labels L K0)(l := ?a)"
    using K by (auto simp: scope_labels_def same_labels_def fun_eq_iff)
  moreover have "same_labels L K0 K'" using K K'(2) stmt(3) SBlock by (auto simp: same_labels_def)
  ultimately show ?thesis using stmt(1) SBlock K'(1) by (simp add: rk_live_stmt_def once_stmt_def Let_def)
next
  case (SLoop d vs inits b)
  have "call_once call once L b" using ch SLoop by simp
  from live_loop_once [OF this pw K n, of vs "without_dst after stmt"] obtain K1 where
    K1: "rk_live_loop n call K vs b (without_dst after stmt) {} =
      Some (once b (scope_labels L K0) (without_dst after stmt) {} - set vs, K1)" "same_labels L K0 K1" by blast
  from K1(2) have "same_labels L K0 (K1\<lparr>rk_heads := (rk_heads K1)(s \<mapsto> h)\<rparr>)" for h by (simp add: same_labels_def)
  with stmt(1) SLoop K1(1) show ?thesis by (simp add: rk_live_stmt_def once_stmt_def Let_def)
next
  case (SLet d val df su)
  have "\<forall>c\<in>set (scoped_children stmt). call_once call once L (snd c)" using ch SLet by simp
  from live_bodies_once [OF this K, of yl lh "without_dst after stmt"] stmt(1) SLet show ?thesis
    by (auto simp: rk_live_stmt_def once_stmt_def once_children_def Let_def simp del: scoped_children.simps)
next
  case (SIf d c a b)
  have "\<forall>c\<in>set (scoped_children stmt). call_once call once L (snd c)" using ch SIf by simp
  from live_bodies_once [OF this K, of "without_dst after stmt" lh "{}"] stmt(1) SIf show ?thesis
    by (auto simp: rk_live_stmt_def once_stmt_def once_children_def Let_def simp del: scoped_children.simps)
next
  case (SSwitch d on cs df)
  have "\<forall>c\<in>set (scoped_children stmt). call_once call once L (snd c)" using ch SSwitch by simp
  from live_bodies_once [OF this K, of "without_dst after stmt" lh "{}"] stmt(1) SSwitch show ?thesis
    by (auto simp: rk_live_stmt_def once_stmt_def once_children_def Let_def simp del: scoped_children.simps)
qed (use stmt(2) in simp_all)

text \<open>Which sequences a list of statements calls, each with the labels around it.\<close>

definition stmts_calls :: "lir_fn \<Rightarrow> label_id set \<Rightarrow> stmt_id list \<Rightarrow> (label_id set \<times> seq_id) set" where
  "stmts_calls f L ss =
     (\<Union>s\<in>set ss. \<Union>stmt\<in>set_option (get_stmt f s). (\<lambda>c. (L \<union> stmt_labels stmt, snd c)) ` set (scoped_children stmt))"

lemma stmts_calls_finite: "finite (stmts_calls f L ss)"
  unfolding stmts_calls_def by auto

lemma stmts_ok_calls:
  "stmts_ok T f L V ss t N \<Longrightarrow> (L', b) \<in> stmts_calls f L ss \<Longrightarrow> \<exists>V' N'. T L' V' b N'"
proof (induction ss arbitrary: V N)
  case (Cons s ss)
  then obtain stmt A B where ok: "get_stmt f s = Some stmt" "stmt_ok T f L V s stmt A"
    "stmts_ok T f L (V \<union> counted_of f (opt_list (stmt_dst stmt))) ss t B" by auto
  from ok(2) obtain N' where N': "children_ok T f (L \<union> stmt_labels stmt) V (scoped_children stmt) N'" by (rule stmt_okE)
  from Cons.prems(2) ok(1) consider c where "c \<in> set (scoped_children stmt)" "L' = L \<union> stmt_labels stmt" "b = snd c"
    | "(L', b) \<in> stmts_calls f L ss"
    by (auto simp: stmts_calls_def)
  then show ?case
  proof cases
    case 1
    with children_ok_in [OF N' 1(1)] show ?thesis by blast
  next
    case 2
    from Cons.IH [OF ok(3) 2] show ?thesis .
  qed
qed (simp add: stmts_calls_def)

lemma live_stmts_once:
  assumes "stmts_ok T f L V ss t N" "\<forall>(L', b)\<in>stmts_calls f L ss. call_once call once L' b"
    and "pointwise once" "same_labels L K0 K" "2 \<le> n"
  shows "\<exists>K'. rk_live_stmts n call m f K ss live yl lh =
      Some (once_stmts once m f (scope_labels L K0) ss live yl (set_or_empty lh), K') \<and> same_labels L K0 K'"
  using assms(1,2)
proof (induction ss arbitrary: V N)
  case (Cons s ss)
  from Cons.prems(1) obtain stmt A B where ok: "get_stmt f s = Some stmt" "stmt_ok T f L V s stmt A"
    "stmts_ok T f L (V \<union> counted_of f (opt_list (stmt_dst stmt))) ss t B" by auto
  from ok(2) have fits: "stmt_fits f V stmt" "stmt_labels stmt \<inter> L = {}" by (auto elim: stmt_okE)
  have "\<forall>c\<in>set (scoped_children stmt). call_once call once (L \<union> stmt_labels stmt) (snd c)"
    "\<forall>(L', b)\<in>stmts_calls f L ss. call_once call once L' b"
    using Cons.prems(2) ok(1) by (auto simp: stmts_calls_def)
  note ch = this
  from Cons.IH [OF ok(3) ch(2)] obtain K1 where K1:
    "rk_live_stmts n call m f K ss live yl lh = Some (once_stmts once m f (scope_labels L K0) ss live yl (set_or_empty lh), K1)"
    "same_labels L K0 K1" by blast
  from live_stmt_once [OF ok(1) fits ch(1) assms(3) K1(2) assms(5), of m
      "once_stmts once m f (scope_labels L K0) ss live yl (set_or_empty lh)" yl lh] K1(1) ok(1)
  show ?case by auto
qed (use assms(4) in simp)

lemma live_seq_once:
  "rc_seq_ok f L V i N \<Longrightarrow> eventually (\<lambda>n. call_once (rk_live_seq n m f) (once_seq n m f) L i) sequentially"
proof (induction rule: rc_seq_ok.induct)
  case (1 i q L N V)
  have "\<forall>(L', b)\<in>stmts_calls f L (sq_stmts q). eventually (\<lambda>n. call_once (rk_live_seq n m f) (once_seq n m f) L' b) sequentially"
    using stmts_ok_calls [OF 1(4)] by blast
  then have "eventually (\<lambda>n. \<forall>(L', b)\<in>stmts_calls f L (sq_stmts q). call_once (rk_live_seq n m f) (once_seq n m f) L' b) sequentially"
    by (intro eventually_ball_finite [OF stmts_calls_finite, THEN eventually_mono]) (auto simp: case_prod_beta)
  moreover have "eventually (\<lambda>n. 2 \<le> n) sequentially" by (rule eventually_ge_at_top)
  ultimately have "eventually (\<lambda>n. call_once (rk_live_seq (Suc n) m f) (once_seq (Suc n) m f) L i) sequentially"
  proof eventually_elim
    case (elim n)
    show ?case unfolding call_once_def
    proof (intro allI)
      fix K yl lh
      have "rk_term_live f K (sq_term q) yl lh = once_term f (scope_labels L K) (sq_term q) yl (set_or_empty lh)"
        using 1(2) by (cases "sq_term q") (auto simp: rk_term_live_def scope_labels_def)
      with live_stmts_once [OF 1(4) elim(1) once_seq_pointwise same_labels_refl elim(2), of m K
          "rk_term_live f K (sq_term q) yl lh" yl lh] 1(1)
      show "\<exists>K'. rk_live_seq (Suc n) m f K i yl lh =
          Some (once_seq (Suc n) m f i (scope_labels L K) yl (set_or_empty lh), K') \<and> same_labels L K K'"
        by (force simp: same_labels_def)
    qed
  qed
  then show ?case
    by (rule eventually_sequentially_Suc [where P = "\<lambda>n. call_once (rk_live_seq n m f) (once_seq n m f) L i", THEN iffD1])
qed

end
