(* ===== verification/Lir_Rc_Balance.thy ===== *)
theory Lir_Rc_Balance
  imports Lir_Rc_Live
begin

text \<open>
  When a function is balanced, by its structure: a judgement that follows the control like a type
  system, with the references wanted at every exit. A function it holds of is balanced on every path.
  The effect of the statements that the pass inserts is computed here too.
\<close>

section \<open>The judgement\<close>

fun own_all :: "lir_fn \<Rightarrow> var_id list \<Rightarrow> counts \<Rightarrow> counts option" where
  "own_all f [] C = Some C"
| "own_all f (v # vs) C = do { C \<leftarrow> own f v 1 C; own_all f vs C }"

definition own_dst :: "lir_fn \<Rightarrow> lir_value \<Rightarrow> var_id option \<Rightarrow> counts \<Rightarrow> counts option" where
  "own_dst f val dst C = (case dst of None \<Rightarrow> Some C | Some d \<Rightarrow> own f d (if is_view f val then 0 else 1) C)"

text \<open>
  \<open>bal_seq m g R T C i\<close>: from the counts \<open>C\<close> every way through the sequence \<open>i\<close> is balanced, leaves by an
  exit of \<open>R\<close>, and brings the counts \<open>T x\<close> to the exit \<open>x\<close>.
\<close>

inductive bal_seq :: "lir_module \<Rightarrow> lir_fn \<Rightarrow> outcome set \<Rightarrow> (outcome \<Rightarrow> counts) \<Rightarrow> counts \<Rightarrow> seq_id \<Rightarrow> bool"
  and bal_stmts :: "lir_module \<Rightarrow> lir_fn \<Rightarrow> outcome set \<Rightarrow> (outcome \<Rightarrow> counts) \<Rightarrow> counts \<Rightarrow> stmt_id list \<Rightarrow> lir_term \<Rightarrow> bool"
  for m g where
  bal_seq: "get_seq g i = Some q \<Longrightarrow> bal_stmts m g R T C (sq_stmts q) (sq_term q) \<Longrightarrow> bal_seq m g R T C i"
| bal_unreachable: "bal_stmts m g R T C [] Unreachable"
| bal_term: "take_all (term_consumes g t) C = Some (T (term_outcome t)) \<Longrightarrow> term_outcome t \<in> R \<Longrightarrow>
    bal_stmts m g R T C [] t"
| bal_dup: "get_stmt g s = Some (SDup v) \<Longrightarrow> bal_stmts m g R T (C(v := C v + 1)) ss t \<Longrightarrow> bal_stmts m g R T C (s # ss) t"
| bal_drop: "get_stmt g s = Some (SDrop v) \<Longrightarrow> 1 \<le> C v \<Longrightarrow> bal_stmts m g R T (C(v := C v - 1)) ss t \<Longrightarrow>
    bal_stmts m g R T C (s # ss) t"
| bal_let: "get_stmt g s = Some (SLet d val df su) \<Longrightarrow> take_all (consumed_by m g val) C = Some C1 \<Longrightarrow>
    list_all (borrow_ok g C1) (borrowed_by m g val) \<Longrightarrow>
    su \<noteq> None \<longrightarrow> take_all (suspend_saved g (SLet d val df su)) C1 = Some (T OLeave) \<Longrightarrow>
    \<forall>c\<in>set (scoped_children (SLet d val df su)). \<exists>C2. own_all g (fst c) C1 = Some C2
      \<and> bal_seq m g (insert OYield R) (T(OYield := Cy)) C2 (snd c) \<Longrightarrow>
    own_dst g val d C1 = Some C3 \<Longrightarrow> bal_stmts m g R T C3 ss t \<Longrightarrow> bal_stmts m g R T C (s # ss) t"
| bal_branch: "get_stmt g s = Some stmt \<Longrightarrow> branches stmt = Some (vs, d, bs) \<Longrightarrow>
    list_all (\<lambda>v. counted g v \<longrightarrow> borrow_ok g C v) vs \<Longrightarrow>
    \<forall>b\<in>set bs. bal_seq m g R' (T(OYield := Cy)) C b \<Longrightarrow> R' - {OYield} \<subseteq> R \<Longrightarrow>
    OYield \<in> R' \<longrightarrow> (\<exists>C2. own_all g (opt_list d) Cy = Some C2 \<and> bal_stmts m g R T C2 ss t) \<Longrightarrow>
    bal_stmts m g R T C (s # ss) t"
| bal_block: "get_stmt g s = Some (SBlock d l b) \<Longrightarrow>
    bal_seq m g R' (T(OYield := Cy, OBreak l := Cy)) C b \<Longrightarrow> R' - {OYield, OBreak l} \<subseteq> R \<Longrightarrow>
    R' \<inter> {OYield, OBreak l} \<noteq> {} \<longrightarrow> (\<exists>C2. own_all g (opt_list d) Cy = Some C2 \<and> bal_stmts m g R T C2 ss t) \<Longrightarrow>
    bal_stmts m g R T C (s # ss) t"
| bal_loop: "get_stmt g s = Some (SLoop d vs inits b) \<Longrightarrow> take_all (operand_vars g inits) C = Some Ch \<Longrightarrow>
    own_all g vs Ch = Some C2 \<Longrightarrow>
    bal_seq m g R' (T(OYield := Cy, ORecur := Ch)) C2 b \<Longrightarrow> R' - {OYield, ORecur} \<subseteq> R \<Longrightarrow>
    OYield \<in> R' \<longrightarrow> (\<exists>C3. own_all g (opt_list d) Cy = Some C3 \<and> bal_stmts m g R T C3 ss t) \<Longrightarrow>
    bal_stmts m g R T C (s # ss) t"

inductive_cases bal_seqE: "bal_seq m g R T C i"
inductive_cases bal_stmts_NilE: "bal_stmts m g R T C [] t"
inductive_cases bal_stmts_ConsE: "bal_stmts m g R T C (s # ss) t"

section \<open>The judgement is sound\<close>

definition path_ends ::
  "lir_module \<Rightarrow> lir_fn \<Rightarrow> outcome set \<Rightarrow> (outcome \<Rightarrow> counts) \<Rightarrow> counts \<Rightarrow> event list \<Rightarrow> outcome \<Rightarrow> bool" where
  "path_ends m g R T C tr out \<longleftrightarrow>
     (\<exists>C'. count_path m g tr C = Some C' \<and> (out \<noteq> OStop \<longrightarrow> C' = T out \<and> (out \<in> R \<or> out = OLeave)))"

lemma count_owns: "count_path m g (map EOwn vs) C = own_all g vs C"
  by (induction vs arbitrary: C) (auto split: Option.bind_splits)

lemma count_own_events: "count_path m g (own_events d) C = own_all g (opt_list d) C"
  by (cases d) (auto simp: opt_list_def split: Option.bind_splits)

lemma count_dst_events:
  "get_stmt g s = Some (SLet d val df su) \<Longrightarrow> count_path m g (dst_events s d) C = own_dst g val d C"
  by (cases d) (auto simp: own_dst_def split: Option.bind_splits)

lemma path_ends_prefix:
  "count_path m g tr C = Some C1 \<Longrightarrow> path_ends m g R T C1 tr' out \<Longrightarrow> path_ends m g R T C (tr @ tr') out"
  by (auto simp: path_ends_def count_path_append)

lemma path_ends_outer:
  assumes "path_ends m g R' T' C tr out" "out \<in> X \<longrightarrow> out = OStop" "\<And>x. x \<notin> X \<Longrightarrow> T' x = T x" "R' - X \<subseteq> R"
  shows "path_ends m g R T C tr out"
  using assms unfolding path_ends_def by blast

lemma count_let:
  assumes "get_stmt g s = Some (SLet d val df su)" "take_all (consumed_by m g val) C = Some C1"
    and "list_all (borrow_ok g C1) (borrowed_by m g val)"
  shows "count_event m g (ELet s) C = Some C1"
  using assms by simp

lemma bal_path:
  "path_seq g i tr1 o1 \<Longrightarrow> bal_seq m g R T C i \<Longrightarrow> path_ends m g R T C tr1 o1"
  "path_stmts g ss t tr2 o2 \<Longrightarrow> bal_stmts m g R T C ss t \<Longrightarrow> path_ends m g R T C tr2 o2"
  "path_stmt g s tr3 r \<Longrightarrow> bal_stmts m g R T C (s # ss') t' \<Longrightarrow>
     (case r of None \<Rightarrow> \<exists>C'. count_path m g tr3 C = Some C' \<and> bal_stmts m g R T C' ss' t'
      | Some out \<Rightarrow> path_ends m g R T C tr3 out)"
  "path_loop g vs b tr4 o4 \<Longrightarrow> own_all g vs (T ORecur) = Some C2 \<Longrightarrow> bal_seq m g R T C2 b \<Longrightarrow> path_ends m g R T (T ORecur) tr4 o4"
proof (induction arbitrary: R T C and R T C and R T C ss' t' and R T C2 rule: path_seq_path_stmts_path_stmt_path_loop.inducts)
  case (seq i q tr out)
  then show ?case by (auto elim: bal_seqE)
next
  case (stop ss t)
  then show ?case by (simp add: path_ends_def)
next
  case (finish t)
  from finish.prems show ?case
    by (rule bal_stmts_NilE) (auto simp: path_ends_def)
next
  case (step s tr ss t tr' out)
  from step.IH(2) [OF step.prems] obtain C' where "count_path m g tr C = Some C'" "bal_stmts m g R T C' ss t" by auto
  with step.IH(4) show ?case by (blast intro: path_ends_prefix)
next
  case (leave s tr out ss t)
  from leave.IH(2) [OF leave.prems] show ?case by simp
next
  case (let_ok s d v df su)
  from let_ok.prems show ?case
    by (rule bal_stmts_ConsE) (use let_ok(1) count_let [OF let_ok(1)] count_dst_events [OF let_ok(1)] in auto)
next
  case (let_fail s d v df su e b tr out)
  from let_fail.prems show ?case
  proof (rule bal_stmts_ConsE)
    fix d' val' df' su' C1 Cy C3
    assume st: "get_stmt g s = Some (SLet d' val' df' su')" "take_all (consumed_by m g val') C = Some C1"
      "list_all (borrow_ok g C1) (borrowed_by m g val')"
      and kids: "\<forall>c\<in>(\<lambda>(e, y). ([e], y)) ` set (opt_list (fail_landing val')) \<union> Pair [] ` set (opt_list df'). \<exists>C2. own_all g (fst c) C1 = Some C2 \<and>
        bal_seq m g (insert OYield R) (T(OYield := Cy)) C2 (snd c)"
    from st(1) let_fail(1,4) have "fail_landing val' = Some (e, b)" by simp
    then have "([e], b) \<in> (\<lambda>(e, y). ([e], y)) ` set (opt_list (fail_landing val'))" by (simp add: opt_list_def)
    with kids obtain C2 where C2: "own_all g [e] C1 = Some C2" "bal_seq m g (insert OYield R) (T(OYield := Cy)) C2 b" by force
    have "path_ends m g R T C2 tr out"
      by (rule path_ends_outer [OF let_fail(3) [OF C2(2)], of "{OYield}"]) (use let_fail(1,2,4,5) in auto)
    moreover have "count_path m g [ELet s, EOwn e] C = Some C2"
      using count_let [OF st] C2(1) by (auto split: Option.bind_splits)
    ultimately show ?case using path_ends_prefix [of m g "[ELet s, EOwn e]" C C2 R T tr out] by simp
  qed (use let_fail(1,2,4,5) in auto)
next
  case (let_defect s d v b su tr out)
  from let_defect.prems show ?case
  proof (rule bal_stmts_ConsE)
    fix d' val' df' su' C1 Cy C3
    assume st: "get_stmt g s = Some (SLet d' val' df' su')" "take_all (consumed_by m g val') C = Some C1"
      "list_all (borrow_ok g C1) (borrowed_by m g val')"
      and kids: "\<forall>c\<in>(\<lambda>(e, y). ([e], y)) ` set (opt_list (fail_landing val')) \<union> Pair [] ` set (opt_list df'). \<exists>C2. own_all g (fst c) C1 = Some C2 \<and>
        bal_seq m g (insert OYield R) (T(OYield := Cy)) C2 (snd c)"
    from st(1) let_defect(1) have "df' = Some b" by simp
    then have "([], b) \<in> Pair [] ` set (opt_list df')" by (simp add: opt_list_def)
    with kids have C2: "bal_seq m g (insert OYield R) (T(OYield := Cy)) C1 b" by force
    have "path_ends m g R T C1 tr out"
      by (rule path_ends_outer [OF let_defect(3) [OF C2], of "{OYield}"]) (use let_defect(1,2,4) in auto)
    then show ?case using path_ends_prefix [of m g "[ELet s]" C C1 R T tr out] count_let [OF st] by simp
  qed (use let_defect(1,2,4) in auto)
next
  case (let_suspend s d v df su)
  from let_suspend.prems show ?case
    by (rule bal_stmts_ConsE) (use let_suspend(1) count_let [OF let_suspend(1)] in \<open>auto simp: path_ends_def\<close>)
next
  case (dup s v)
  from dup.prems show ?case by (rule bal_stmts_ConsE) (use dup(1) in auto)
next
  case (drop s v)
  from drop.prems show ?case by (rule bal_stmts_ConsE) (use drop(1) in auto)
next
  case (branch s stmt vs d bs b tr)
  from branch.prems show ?case
  proof (rule bal_stmts_ConsE)
    fix stmt' vs' d' bs' R' Cy
    assume st: "get_stmt g s = Some stmt'" "branches stmt' = Some (vs', d', bs')"
      "list_all (\<lambda>v. counted g v \<longrightarrow> borrow_ok g C v) vs'"
      and kids: "Ball (set bs') (bal_seq m g R' (T(OYield := Cy)) C)"
      and rest: "OYield \<in> R' \<longrightarrow> (\<exists>C2. own_all g (opt_list d') Cy = Some C2 \<and> bal_stmts m g R T C2 ss' t')"
    from st branch(1,4,5) have eq: "vs' = vs" "d' = d" "bs' = bs" by simp_all
    have "path_ends m g R' (T(OYield := Cy)) C tr OYield" using branch(3) kids branch(5) eq by blast
    then have "count_path m g tr C = Some Cy" "OYield \<in> R'" by (auto simp: path_ends_def)
    with rest st eq show ?case by (auto simp: count_path_append count_own_events)
  qed (use branch(1,4,5) in auto)
next
  case (branch_out s stmt vs d bs b tr out)
  from branch_out.prems show ?case
  proof (rule bal_stmts_ConsE)
    fix stmt' vs' d' bs' R' Cy
    assume st: "get_stmt g s = Some stmt'" "branches stmt' = Some (vs', d', bs')"
      "list_all (\<lambda>v. counted g v \<longrightarrow> borrow_ok g C v) vs'"
      and kids: "Ball (set bs') (bal_seq m g R' (T(OYield := Cy)) C)" and sub: "R' - {OYield} \<subseteq> R"
    from st branch_out(1,4,5,6) have eq: "vs' = vs" "bs' = bs" by simp_all
    have "path_ends m g R T C tr out"
      by (rule path_ends_outer [of m g R' "T(OYield := Cy)" _ _ _ "{OYield}"])
        (use branch_out(3) kids branch_out(1,4,5,6) eq sub in auto)
    moreover have "count_path m g [ERead vs] C = Some C" using st(3) eq by simp
    ultimately show ?case using path_ends_prefix [of m g "[ERead vs]" C C R T tr out] by simp
  qed (use branch_out(1,4,5,6) in auto)
next
  case (block s d l b tr out)
  from block.prems show ?case
  proof (rule bal_stmts_ConsE)
    fix d' l' b' R' Cy
    assume st: "get_stmt g s = Some (SBlock d' l' b')"
      and body: "bal_seq m g R' (T(OYield := Cy, OBreak l' := Cy)) C b'"
      and rest: "OYield \<in> R' \<longrightarrow> (\<exists>C2. own_all g (opt_list d') Cy = Some C2 \<and> bal_stmts m g R T C2 ss' t')"
        "OBreak l' \<in> R' \<longrightarrow> (\<exists>C2. own_all g (opt_list d') Cy = Some C2 \<and> bal_stmts m g R T C2 ss' t')"
    from st block(1,4) have eq: "d' = d" "l' = l" "b' = b" by simp_all
    have "path_ends m g R' (T(OYield := Cy, OBreak l := Cy)) C tr out" using block(3) body eq by blast
    with block(4) have "count_path m g tr C = Some Cy" "OYield \<in> R' \<or> OBreak l \<in> R'" by (auto simp: path_ends_def)
    with rest eq show ?case by (auto simp: count_path_append count_own_events)
  qed (use block(1,4) in auto)
next
  case (block_out s d l b tr out)
  from block_out.prems show ?case
  proof (rule bal_stmts_ConsE)
    fix d' l' b' R' Cy
    assume st: "get_stmt g s = Some (SBlock d' l' b')"
      and body: "bal_seq m g R' (T(OYield := Cy, OBreak l' := Cy)) C b'" and sub: "R' - {OYield, OBreak l'} \<subseteq> R"
    from st block_out(1,4,5) have eq: "l' = l" "b' = b" by simp_all
    have "path_ends m g R T C tr out"
      by (rule path_ends_outer [of m g R' "T(OYield := Cy, OBreak l := Cy)" _ _ _ "{OYield, OBreak l}"])
        (use block_out(3) body block_out(1,4,5) eq sub in auto)
    then show ?case by simp
  qed (use block_out(1,4,5) in auto)
next
  case (loop s d vs inits b tr)
  from loop.prems show ?case
  proof (rule bal_stmts_ConsE)
    fix d' vs' inits' b' Ch C2 R' Cy
    assume st: "get_stmt g s = Some (SLoop d' vs' inits' b')" "take_all (operand_vars g inits') C = Some Ch"
      "own_all g vs' Ch = Some C2"
      and body: "bal_seq m g R' (T(OYield := Cy, ORecur := Ch)) C2 b'"
      and rest: "OYield \<in> R' \<longrightarrow> (\<exists>C3. own_all g (opt_list d') Cy = Some C3 \<and> bal_stmts m g R T C3 ss' t')"
    from st loop(1) have eq: "d' = d" "vs' = vs" "inits' = inits" "b' = b" by simp_all
    let ?T = "T(OYield := Cy, ORecur := Ch)"
    have "path_ends m g R' ?T (?T ORecur) tr OYield"
      by (rule loop(3)) (use st(3) body eq in \<open>simp_all only: fun_upd_same\<close>)
    then have "path_ends m g R' ?T Ch tr OYield" by (simp only: fun_upd_same)
    then have "count_path m g tr Ch = Some Cy" "OYield \<in> R'" by (auto simp: path_ends_def)
    with rest st eq show ?case by (auto simp: count_path_append count_own_events)
  qed (use loop(1) in auto)
next
  case (loop_out s d vs inits b tr out)
  from loop_out.prems show ?case
  proof (rule bal_stmts_ConsE)
    fix d' vs' inits' b' Ch C2 R' Cy
    assume st: "get_stmt g s = Some (SLoop d' vs' inits' b')" "take_all (operand_vars g inits') C = Some Ch"
      "own_all g vs' Ch = Some C2"
      and body: "bal_seq m g R' (T(OYield := Cy, ORecur := Ch)) C2 b'" and sub: "R' - {OYield, ORecur} \<subseteq> R"
    from st loop_out(1,4) have eq: "vs' = vs" "inits' = inits" "b' = b" by simp_all
    let ?T = "T(OYield := Cy, ORecur := Ch)"
    have "path_ends m g R' ?T (?T ORecur) tr out"
      by (rule loop_out(3)) (use st(3) body eq in \<open>simp_all only: fun_upd_same\<close>)
    then have "path_ends m g R' ?T Ch tr out" by (simp only: fun_upd_same)
    moreover have "out \<noteq> ORecur" using path_loop_not_recur loop_out(2) by blast
    ultimately have "path_ends m g R T Ch tr out"
      by (rule_tac path_ends_outer [of m g R' "T(OYield := Cy, ORecur := Ch)" _ _ _ "{OYield, ORecur}"])
        (use loop_out(1,4) sub in auto)
    moreover have "count_path m g [EInit inits] C = Some Ch" using st(2) eq by simp
    ultimately show ?case using path_ends_prefix [of m g "[EInit inits]" C Ch R T tr out] by simp
  qed (use loop_out(1,4) in auto)
next
  case (last b tr out vs)
  have "path_ends m g R T C2 tr out" by (rule last.IH(2)) fact
  then show ?case using path_ends_prefix [of m g "map EOwn vs" "T ORecur" C2] last.prems(1) by (simp add: count_owns)
next
  case (again b tr vs tr' out)
  have "path_ends m g R T C2 tr ORecur" by (rule again.IH(2)) fact
  then have "count_path m g tr C2 = Some (T ORecur)" by (auto simp: path_ends_def)
  then have "count_path m g (map EOwn vs @ tr) (T ORecur) = Some (T ORecur)"
    using again.prems(1) by (simp add: count_path_append count_owns)
  moreover have "path_ends m g R T (T ORecur) tr' out" by (rule again.IH(4)) fact+
  ultimately show ?case using path_ends_prefix [of m g "map EOwn vs @ tr" "T ORecur" "T ORecur"] by simp
qed

section \<open>Growing a function\<close>

text \<open>\<open>same_sig\<close>: what the ownership rules look at is the same.\<close>

definition same_sig :: "lir_fn \<Rightarrow> lir_fn \<Rightarrow> bool" where
  "same_sig f g \<longleftrightarrow> f_vars g = f_vars f \<and> f_params g = f_params f \<and> f_env g = f_env f"

lemma same_sig_rules:
  assumes "same_sig f g"
  shows "counted g = counted f" "borrowed_param g = borrowed_param f" "operand_vars g = operand_vars f"
    "value_uses m g = value_uses m f" "term_consumes g = term_consumes f" "suspend_saved g = suspend_saved f"
    "is_view g = is_view f" "counted_of g = counted_of f" "counted_dst g = counted_dst f"
    "consumed_by m g = consumed_by m f" "borrowed_by m g = borrowed_by m f" "borrow_ok g = borrow_ok f"
    "own g = own f" "own_all g = own_all f" "own_dst g = own_dst f" "switch_read g = switch_read f"
proof -
  show c: "counted g = counted f" using assms by (simp add: same_sig_def fun_eq_iff counted_def)
  show b: "borrowed_param g = borrowed_param f" using assms by (simp add: same_sig_def fun_eq_iff borrowed_param_def)
  show o: "operand_vars g = operand_vars f" by (simp add: fun_eq_iff operand_vars_def c)
  show u: "value_uses m g = value_uses m f"
    using assms by (intro ext value_uses_cong) (simp add: same_sig_def)
  show "term_consumes g = term_consumes f"
  proof
    fix t show "term_consumes g t = term_consumes f t" by (cases t) (simp_all add: o)
  qed
  show "suspend_saved g = suspend_saved f"
  proof
    fix stmt show "suspend_saved g stmt = suspend_saved f stmt" by (cases "(f, stmt)" rule: suspend_saved.cases) (simp_all add: c)
  qed
  show v: "is_view g = is_view f"
  proof
    fix x show "is_view g x = is_view f x" by (cases x) (simp_all add: c)
  qed
  show "counted_of g = counted_of f" by (simp add: fun_eq_iff counted_of_def c)
  show "counted_dst g = counted_dst f" by (simp add: fun_eq_iff counted_dst_def c split: option.split)
  show "consumed_by m g = consumed_by m f" "borrowed_by m g = borrowed_by m f"
    by (simp_all add: fun_eq_iff consumed_by_def borrowed_by_def u)
  show "borrow_ok g = borrow_ok f" by (simp add: fun_eq_iff borrow_ok_def b)
  show w: "own g = own f" by (simp add: fun_eq_iff own_def c)
  show "own_all g = own_all f"
  proof (intro ext)
    fix vs C show "own_all g vs C = own_all f vs C"
    proof (induction vs arbitrary: C)
      case (Cons v vs)
      then have "own_all g vs = own_all f vs" by (simp add: fun_eq_iff)
      then show ?case by (simp add: w)
    qed simp
  qed
  show "own_dst g = own_dst f" by (simp add: fun_eq_iff own_dst_def w v split: option.split)
  show "switch_read g = switch_read f" by (simp add: fun_eq_iff switch_read_def c)
qed

text \<open>\<open>extends Q f g\<close>: the statements of \<open>f\<close> and its sequences in \<open>Q\<close> are in \<open>g\<close> too.\<close>

definition extends :: "seq_id set \<Rightarrow> lir_fn \<Rightarrow> lir_fn \<Rightarrow> bool" where
  "extends Q f g \<longleftrightarrow> same_sig f g \<and> (\<exists>ext. f_stmts g = f_stmts f @ ext) \<and> (\<forall>i\<in>Q. get_seq g i = get_seq f i)"

text \<open>\<open>grows P f f'\<close>: only sequences in \<open>P\<close> change, and statements are added.\<close>

definition grows :: "seq_id set \<Rightarrow> lir_fn \<Rightarrow> lir_fn \<Rightarrow> bool" where
  "grows P f f' \<longleftrightarrow> extends (- P) f f' \<and> length (f_seqs f') = length (f_seqs f)"

lemma same_sig_refl [simp]: "same_sig f f"
  by (simp add: same_sig_def)

lemma same_sig_trans: "same_sig f g \<Longrightarrow> same_sig g h \<Longrightarrow> same_sig f h"
  by (simp add: same_sig_def)

lemma fn_extends_refl [simp]: "extends Q f f"
  by (simp add: extends_def)

lemma fn_extends_trans: "extends Q f g \<Longrightarrow> extends Q g h \<Longrightarrow> extends Q f h"
  unfolding extends_def by (auto intro: same_sig_trans)

lemma extends_mono: "extends Q f g \<Longrightarrow> Q' \<subseteq> Q \<Longrightarrow> extends Q' f g"
  by (auto simp: extends_def)

lemma extends_sig: "extends Q f g \<Longrightarrow> same_sig f g"
  by (simp add: extends_def)

lemma extends_stmt: "extends Q f g \<Longrightarrow> get_stmt f s = Some stmt \<Longrightarrow> get_stmt g s = Some stmt"
  by (auto simp: extends_def get_stmt_def nth_append split: if_splits)

lemma extends_seq: "extends Q f g \<Longrightarrow> i \<in> Q \<Longrightarrow> get_seq g i = get_seq f i"
  by (simp add: extends_def)

lemma grows_refl [simp]: "grows P f f"
  by (simp add: grows_def)

lemma grows_trans: "grows P f g \<Longrightarrow> grows P g h \<Longrightarrow> grows P f h"
  by (auto simp: grows_def intro: fn_extends_trans)

lemma grows_mono: "grows P f g \<Longrightarrow> P \<subseteq> P' \<Longrightarrow> grows P' f g"
  by (auto simp: grows_def intro: extends_mono)

lemma grows_extends: "grows P f g \<Longrightarrow> Q \<inter> P = {} \<Longrightarrow> extends Q f g"
  by (auto simp: grows_def intro: extends_mono)

section \<open>What the inserted statements do\<close>

definition emit :: "lir_fn \<Rightarrow> lir_stmt list \<Rightarrow> lir_fn" where
  "emit f ss = f\<lparr>f_stmts := f_stmts f @ ss\<rparr>"

definition emit_ids :: "lir_fn \<Rightarrow> lir_stmt list \<Rightarrow> stmt_id list" where
  "emit_ids f ss = [length (f_stmts f)..<length (f_stmts f) + length ss]"

lemma emit_Nil [simp]: "emit f [] = f" "emit_ids f [] = []"
  by (simp_all add: emit_def emit_ids_def)

lemma emit_Cons: "emit (emit f [x]) ss = emit f (x # ss)" "emit_ids f (x # ss) = length (f_stmts f) # emit_ids (emit f [x]) ss"
  by (simp_all add: emit_def emit_ids_def upt_conv_Cons del: upt_Suc)

lemma emit_append:
  "emit f (xs @ ys) = emit (emit f xs) ys" "emit_ids f (xs @ ys) = emit_ids f xs @ emit_ids (emit f xs) ys"
  using upt_add_eq_append [of "length (f_stmts f)" "length (f_stmts f) + length xs" "length ys"]
  by (simp_all add: emit_def emit_ids_def add.assoc)

lemma new_stmt_emit: "rk_new_stmt (f, out) stmt = (emit f [stmt], out @ emit_ids f [stmt])"
  by (simp add: rk_new_stmt_def emit_def emit_ids_def)

lemma new_stmts_emit: "foldl rk_new_stmt (f, out) ss = (emit f ss, out @ emit_ids f ss)"
  by (induction ss arbitrary: f out) (simp_all add: new_stmt_emit emit_Cons)

lemma emit_grows: "grows {} f (emit f ss)"
  by (simp add: grows_def extends_def same_sig_def emit_def get_seq_def)

text \<open>\<open>dup\<close> and \<open>drop\<close> as a change of the counts.\<close>

fun rc_effect :: "lir_stmt list \<Rightarrow> counts \<Rightarrow> counts option" where
  "rc_effect [] C = Some C"
| "rc_effect (SDup v # ss) C = rc_effect ss (C(v := C v + 1))"
| "rc_effect (SDrop v # ss) C = (if C v < 1 then None else rc_effect ss (C(v := C v - 1)))"
| "rc_effect (stmt # ss) C = None"

lemma rc_effect_append: "rc_effect (xs @ ys) C = do { C \<leftarrow> rc_effect xs C; rc_effect ys C }"
proof (induction xs arbitrary: C)
  case (Cons x xs)
  then show ?case by (cases x) (simp_all del: fun_upd_apply)
qed simp

text \<open>
  \<open>step_ok m g T R r C es C'\<close>: the statements \<open>es\<close> lead from \<open>C\<close> to \<open>C'\<close>, if their end is reached (\<open>r\<close>),
  and leave otherwise by the exits \<open>R\<close>.
\<close>

definition step_ok ::
  "lir_module \<Rightarrow> lir_fn \<Rightarrow> (outcome \<Rightarrow> counts) \<Rightarrow> outcome set \<Rightarrow> bool \<Rightarrow> counts \<Rightarrow> stmt_id list \<Rightarrow> counts \<Rightarrow> bool" where
  "step_ok m g T R r C es C' \<longleftrightarrow>
     (\<forall>R' rest t. R \<subseteq> R' \<longrightarrow> (r \<longrightarrow> bal_stmts m g R' T C' rest t) \<longrightarrow> bal_stmts m g R' T C (es @ rest) t)"

lemma step_ok_Nil [simp]: "step_ok m g T {} True C [] C"
  by (simp add: step_ok_def)

lemma step_ok_append:
  "step_ok m g T R r C es C' \<Longrightarrow> (r \<Longrightarrow> step_ok m g T R' r' C' es' C'') \<Longrightarrow>
   step_ok m g T (R \<union> (if r then R' else {})) (r \<and> r') C (es @ es') C''"
  unfolding step_ok_def by (cases r) simp_all

lemma step_ok_mono: "step_ok m g T R r C es C' \<Longrightarrow> R \<subseteq> R' \<Longrightarrow> (r \<Longrightarrow> r') \<Longrightarrow> step_ok m g T R' r' C es C'"
  unfolding step_ok_def by (meson order_trans)

lemma emit_step:
  assumes "rc_effect ss C = Some C'" "extends Q (emit f ss) g"
  shows "step_ok m g T {} True C (emit_ids f ss) C'"
  using assms
proof (induction ss arbitrary: f C)
  case (Cons x ss)
  have ext: "extends Q (emit (emit f [x]) ss) g" using Cons.prems(2) by (simp add: emit_Cons)
  have "get_stmt (emit f (x # ss)) (length (f_stmts f)) = Some x" by (simp add: get_stmt_def emit_def nth_append)
  then have get: "get_stmt g (length (f_stmts f)) = Some x" by (rule extends_stmt [OF Cons.prems(2)])
  show ?case
  proof (cases x)
    case (SDup v)
    with Cons.IH [OF _ ext, of "C(v := C v + 1)"] Cons.prems(1) get show ?thesis
      by (auto simp: emit_Cons step_ok_def simp del: fun_upd_apply intro: bal_dup)
  next
    case (SDrop v)
    with Cons.IH [OF _ ext, of "C(v := C v - 1)"] Cons.prems(1) get show ?thesis
      by (auto simp: emit_Cons step_ok_def simp del: fun_upd_apply intro: bal_drop split: if_splits)
  qed (use Cons.prems(1) in simp_all)
qed simp

text \<open>The counts of a set of owned variables, with one reference each.\<close>

definition ind :: "var_id set \<Rightarrow> counts" where
  "ind S v = (if v \<in> S then 1 else 0)"

lemma ind_empty: "ind {} = (\<lambda>v. 0)"
  by (simp add: ind_def fun_eq_iff)

lemma drop_effect:
  "distinct vs \<Longrightarrow> \<forall>v\<in>set vs. 1 \<le> C v \<Longrightarrow>
   rc_effect (map SDrop vs) C = Some (\<lambda>v. if v \<in> set vs then C v - 1 else C v)"
proof (induction vs arbitrary: C)
  case (Cons v vs)
  then have "rc_effect (map SDrop vs) (C(v := C v - 1)) =
      Some (\<lambda>x. if x \<in> set vs then (C(v := C v - 1)) x - 1 else (C(v := C v - 1)) x)" by (intro Cons.IH) auto
  moreover have "(\<lambda>x. if x \<in> set vs then (C(v := C v - 1)) x - 1 else (C(v := C v - 1)) x) =
      (\<lambda>x. if x \<in> set (v # vs) then C x - 1 else C x)" using Cons.prems(1) by auto
  ultimately show ?case using Cons.prems(2) by simp
qed simp

lemma dup_effect: "rc_effect (replicate k (SDup v)) C = Some (C(v := C v + int k))"
  by (induction k arbitrary: C) (simp_all add: fun_eq_iff)

definition drops :: "var_id set \<Rightarrow> var_id set \<Rightarrow> lir_stmt list" where
  "drops owned keep = map SDrop (sorted_list_of_set (owned - keep))"

lemma drop_except_emit:
  "rk_drop_except f owned keep out = (emit f (drops owned keep), owned \<inter> keep, out @ emit_ids f (drops owned keep))"
  by (auto simp: rk_drop_except_def new_stmts_emit drops_def Let_def)

lemma drops_effect:
  assumes "finite owned" "\<forall>v. 0 \<le> X v"
  shows "rc_effect (drops owned keep) (\<lambda>v. ind owned v + X v) = Some (\<lambda>v. ind (owned \<inter> keep) v + X v)"
  unfolding drops_def using assms by (subst drop_effect) (auto simp: ind_def fun_eq_iff)

lemma map_of_bump:
  "map_of (bump v cs) x = (if x = v then Some (Suc (case map_of cs v of None \<Rightarrow> 0 | Some k \<Rightarrow> k)) else map_of cs x)"
  by (induction cs) auto

lemma bump_keys: "set (map fst (bump v cs)) = insert v (set (map fst cs))"
proof (induction cs)
  case (Cons c cs)
  then show ?case by (cases c) auto
qed simp

lemma bump_distinct: "distinct (map fst cs) \<Longrightarrow> distinct (map fst (bump v cs))"
proof (induction cs)
  case (Cons c cs)
  then show ?case using bump_keys [of v cs] by (cases c) auto
qed simp

lemma use_counts_props:
  "distinct (map fst (use_counts vs))
   \<and> (\<forall>x. map_of (use_counts vs) x = (if x \<in> set vs then Some (count_list vs x) else None))"
proof (induction vs rule: rev_induct)
  case (snoc v vs)
  have b: "use_counts (vs @ [v]) = bump v (use_counts vs)" by (simp add: use_counts_def)
  show ?case
    using snoc bump_distinct [of "use_counts vs" v] by (auto simp: b map_of_bump)
qed (simp add: use_counts_def)

lemma consume_counts_effect:
  "distinct (map fst cs) \<Longrightarrow> (\<forall>(x, k)\<in>set cs. 0 < k) \<Longrightarrow>
   \<exists>ss. rk_consume_counts f owned cs keep out =
       (emit f ss, owned - {v \<in> set (map fst cs). \<not> keep v}, out @ emit_ids f ss)
     \<and> (\<forall>C. rc_effect ss C = Some (\<lambda>v. case map_of cs v of None \<Rightarrow> C v
            | Some k \<Rightarrow> C v + int k - (if v \<in> owned \<and> \<not> keep v then 1 else 0)))"
proof (induction cs arbitrary: f owned out)
  case (Cons c cs)
  obtain v k where c: "c = (v, k)" by fastforce
  define up where "up \<longleftrightarrow> v \<in> owned \<and> \<not> keep v"
  define dups where "dups = (if up then k - 1 else k)"
  let ?owned = "if up then owned - {v} else owned" and ?d = "replicate dups (SDup v)"
  obtain ss where ss: "rk_consume_counts (emit f ?d) ?owned cs keep (out @ emit_ids f ?d) =
      (emit (emit f ?d) ss, ?owned - {v \<in> set (map fst cs). \<not> keep v}, (out @ emit_ids f ?d) @ emit_ids (emit f ?d) ss)"
    "\<And>C. rc_effect ss C = Some (\<lambda>v. case map_of cs v of None \<Rightarrow> C v
            | Some k \<Rightarrow> C v + int k - (if v \<in> ?owned \<and> \<not> keep v then 1 else 0))"
    using Cons.IH [of "emit f ?d" ?owned "out @ emit_ids f ?d"] Cons.prems by auto
  have nv: "map_of cs v = None" using Cons.prems(1) c by (simp add: map_of_eq_None_iff)
  have k: "0 < k" using Cons.prems(2) c by simp
  have owned: "?owned - {v \<in> set (map fst cs). \<not> keep v} = owned - {v \<in> set (map fst (c # cs)). \<not> keep v}"
    using c by (auto simp: up_def)
  have eff: "rc_effect (?d @ ss) C = Some (\<lambda>x. case map_of (c # cs) x of None \<Rightarrow> C x
            | Some k \<Rightarrow> C x + int k - (if x \<in> owned \<and> \<not> keep x then 1 else 0))" for C
    unfolding rc_effect_append dup_effect
    using nv k by (auto simp: ss(2) c dups_def up_def fun_eq_iff of_nat_diff split: option.splits)
  have "rk_consume_counts f owned (c # cs) keep out =
      (emit f (?d @ ss), owned - {v \<in> set (map fst (c # cs)). \<not> keep v}, out @ emit_ids f (?d @ ss))"
    using ss(1) owned by (simp add: c emit_append new_stmts_emit Let_def up_def [symmetric] dups_def [symmetric])
  with eff show ?case by blast
qed (intro exI [of _ "[]"], simp)

lemma consume_effect:
  obtains ss where "rk_consume f owned vs keep out = (emit f ss, owned - {v \<in> set vs. \<not> keep v}, out @ emit_ids f ss)"
    "rc_effect ss (ind owned) = Some (\<lambda>v. ind (owned - {v \<in> set vs. \<not> keep v}) v + int (count_list vs v))"
proof -
  let ?cs = "use_counts vs"
  have d: "distinct (map fst ?cs)" and m: "\<And>v. map_of ?cs v = (if v \<in> set vs then Some (count_list vs v) else None)"
    using use_counts_props [of vs] by auto
  have s: "set (map fst ?cs) = set vs"
    using m by (auto simp: set_eq_iff dom_map_of_conv_image_fst [symmetric] domIff split: if_splits)
  have k0: "\<forall>(x, k)\<in>set ?cs. 0 < k"
  proof clarify
    fix x k assume "(x, k) \<in> set ?cs"
    then have "map_of ?cs x = Some k" using d by simp
    then show "0 < k" using m [of x] count_list_0_iff [of vs x] by (auto split: if_splits)
  qed
  from consume_counts_effect [OF d k0, of f owned keep out] obtain ss where
    ss: "rk_consume_counts f owned ?cs keep out = (emit f ss, owned - {v \<in> set (map fst ?cs). \<not> keep v}, out @ emit_ids f ss)"
    "\<And>C. rc_effect ss C = Some (\<lambda>v. case map_of ?cs v of None \<Rightarrow> C v
            | Some k \<Rightarrow> C v + int k - (if v \<in> owned \<and> \<not> keep v then 1 else 0))" by blast
  have "rc_effect ss (ind owned) = Some (\<lambda>v. ind (owned - {v \<in> set vs. \<not> keep v}) v + int (count_list vs v))"
    unfolding ss(2) by (auto simp: m ind_def fun_eq_iff)
  with that [of ss] ss(1) s show ?thesis by (simp add: rk_consume_def)
qed

lemma take_all_counts:
  "\<forall>v. 0 \<le> D v \<Longrightarrow> take_all vs (\<lambda>v. D v + int (count_list vs v)) = Some D"
proof (induction vs)
  case (Cons v vs)
  let ?C = "\<lambda>x. D x + int (count_list (v # vs) x)"
  have "?C(v := ?C v - 1) = (\<lambda>x. D x + int (count_list vs x))" by (auto simp: fun_eq_iff)
  moreover have "\<not> ?C v < 1" using Cons.prems [THEN spec, of v] by simp
  ultimately show ?case using Cons by simp
qed simp

end
