(* ===== verification/Lir_Rc_Insert.thy ===== *)
theory Lir_Rc_Insert
  imports Lir_Rc_Balance
begin

text \<open>
  The rewriting of the pass is right: the functions it leaves are balanced on every path. The proof goes
  along the tree of the function; at every point the owned variables are in scope, and they are all that
  is live but the borrowed environment.
\<close>

section \<open>What the rewriting leaves unchanged\<close>

definition seqs_of :: "node set \<Rightarrow> seq_id set" where
  "seqs_of N = {i. NSeq i \<in> N}"

definition rewritten :: "node set \<Rightarrow> rc_counter \<Rightarrow> rc_counter \<Rightarrow> bool" where
  "rewritten N K K' \<longleftrightarrow>
     rk_live K' = rk_live K \<and> rk_heads K' = rk_heads K \<and> rk_after_label K' = rk_after_label K
     \<and> (\<forall>l. NLabel l \<notin> N \<longrightarrow> rk_label_target K' l = rk_label_target K l) \<and> (rk_asserts K' \<longrightarrow> rk_asserts K)"

lemma seqs_of_simps [simp]:
  "seqs_of (A \<union> B) = seqs_of A \<union> seqs_of B" "seqs_of (insert (NSeq i) A) = insert i (seqs_of A)"
  "seqs_of (insert (NStmt s) A) = seqs_of A" "seqs_of (insert (NLabel l) A) = seqs_of A" "seqs_of (NLabel ` X) = {}" "seqs_of {} = {}"
  by (auto simp: seqs_of_def)

lemma seqs_of_disjoint: "A \<inter> B = {} \<Longrightarrow> seqs_of A \<inter> seqs_of B = {}"
  by (auto simp: seqs_of_def)

lemma rewritten_refl [simp]: "rewritten N K K"
  by (simp add: rewritten_def)

lemma rewritten_trans: "rewritten N K K' \<Longrightarrow> rewritten N K' K'' \<Longrightarrow> rewritten N K K''"
  by (auto simp: rewritten_def)

lemma rewritten_mono: "rewritten N K K' \<Longrightarrow> N \<subseteq> N' \<Longrightarrow> rewritten N' K K'"
  by (auto simp: rewritten_def)

lemma rewritten_agree: "rewritten N K K' \<Longrightarrow> agree S K K'"
  unfolding agree_def
proof
  fix x assume "rewritten N K K'"
  then show "node_same K K' x" by (cases x) (simp_all add: rewritten_def)
qed

lemma rewritten_recorded:
  assumes "rc_seq_ok f L V i N" "rewritten N' K K'" "recorded m K f i yl lh"
  shows "recorded m K' f i yl lh"
  by (rule staysD [OF rc_seq_stays [OF assms(1)] assms(3) rewritten_agree [OF assms(2), of UNIV]]) simp

lemma rewritten_live_before: "rewritten N K K' \<Longrightarrow> rk_live_before m f K' s = rk_live_before m f K s"
  by (cases "get_stmt f s") (simp add: rk_live_before_def fun_eq_iff, simp add: live_before_agree rewritten_def)

section \<open>The exits of a sequence\<close>

fun exit_live :: "rc_counter \<Rightarrow> var_id set \<Rightarrow> var_id set option \<Rightarrow> outcome \<Rightarrow> var_id set" where
  "exit_live K yl lh OYield = yl"
| "exit_live K yl lh (OBreak l) = set_or_empty (rk_after_label K l)"
| "exit_live K yl lh ORecur = set_or_empty lh"
| "exit_live K yl lh _ = {}"

lemma exit_live_rewritten: "rewritten N K K' \<Longrightarrow> exit_live K' yl lh = exit_live K yl lh"
proof
  fix x assume "rewritten N K K'"
  then show "exit_live K' yl lh x = exit_live K yl lh x" by (cases x) (simp_all add: rewritten_def)
qed

text \<open>
  \<open>exits_ok f E V L K T yt lt yl lh\<close>: the counts \<open>T\<close> wanted at the exits are those of the owned variables
  that the rewriting aims at, which are in scope, live there and not in the borrowed environment \<open>E\<close>.
\<close>

definition exits_ok ::
  "lir_fn \<Rightarrow> var_id set \<Rightarrow> var_id set \<Rightarrow> label_id set \<Rightarrow> rc_counter \<Rightarrow> (outcome \<Rightarrow> counts) \<Rightarrow> var_id set \<Rightarrow> var_id set option
     \<Rightarrow> var_id set \<Rightarrow> var_id set option \<Rightarrow> bool" where
  "exits_ok f E V L K T yt lt yl lh \<longleftrightarrow>
     V \<subseteq> Collect (counted f) \<and> E \<subseteq> V \<and> E \<subseteq> Collect (borrowed_param f) \<and> T OLeave = ind {}
     \<and> T OYield = ind yt \<and> yt \<subseteq> yl \<inter> V - E
     \<and> T ORecur = ind (set_or_empty lt) \<and> set_or_empty lt \<subseteq> set_or_empty lh \<inter> V - E
     \<and> (\<forall>l\<in>L. \<exists>X. rk_label_target K l = Some X \<and> T (OBreak l) = ind X
          \<and> X \<subseteq> set_or_empty (rk_after_label K l) \<inter> V - E)"

lemma exits_ok_rewritten:
  assumes "exits_ok f E V L K T yt lt yl lh" "rewritten N K K'" "NLabel ` L \<inter> N = {}"
  shows "exits_ok f E V L K' T yt lt yl lh"
proof -
  have "rk_label_target K' l = rk_label_target K l" if "l \<in> L" for l
    using assms(2,3) that by (auto simp: rewritten_def)
  moreover have "rk_after_label K' = rk_after_label K" using assms(2) by (simp add: rewritten_def)
  ultimately show ?thesis using assms(1) unfolding exits_ok_def by simp
qed

lemma exits_ok_scope:
  "exits_ok f E V L K T yt lt yl lh \<Longrightarrow> V \<subseteq> V' \<Longrightarrow> V' \<subseteq> Collect (counted f) \<Longrightarrow> exits_ok f E V' L K T yt lt yl lh"
  unfolding exits_ok_def
  by (elim conjE, intro conjI ballI) (assumption | blast | (drule bspec, assumption, blast))+

lemma exits_ok_yield:
  assumes "exits_ok f E V L K T yt lt yl lh" "yt' \<subseteq> yl' \<inter> V - E"
  shows "exits_ok f E V L K (T(OYield := ind yt')) yt' lt yl' lh"
  using assms unfolding exits_ok_def by auto

lemma bal_mono:
  "bal_seq m g R T C i \<Longrightarrow> R \<subseteq> R1 \<Longrightarrow> bal_seq m g R1 T C i"
  "bal_stmts m g R T C ss t \<Longrightarrow> R \<subseteq> R1 \<Longrightarrow> bal_stmts m g R1 T C ss t"
proof (induction arbitrary: R1 and R1 rule: bal_seq_bal_stmts.inducts)
  case (bal_let s d val df su C C1 T R Cy C3 ss t)
  have sub: "insert OYield R \<subseteq> insert OYield R1" using bal_let.prems by blast
  show ?case
  proof (rule bal_seq_bal_stmts.bal_let [where T = T and Cy = Cy, OF bal_let(1-4) _ bal_let(6)])
    show "\<forall>c\<in>set (scoped_children (SLet d val df su)). \<exists>C2. own_all g (fst c) C1 = Some C2
        \<and> bal_seq m g (insert OYield R1) (T(OYield := Cy)) C2 (snd c)"
    proof
      fix c assume "c \<in> set (scoped_children (SLet d val df su))"
      with bal_let(5) sub show "\<exists>C2. own_all g (fst c) C1 = Some C2
        \<and> bal_seq m g (insert OYield R1) (T(OYield := Cy)) C2 (snd c)" by meson
    qed
    show "bal_stmts m g R1 T C3 ss t" by (rule bal_let(8)) (rule bal_let.prems)
  qed
next
  case (bal_branch s stmt vs d bs C R' T Cy R ss t)
  show ?case
    by (rule bal_seq_bal_stmts.bal_branch [where T = T and R' = R' and Cy = Cy, OF bal_branch(1,5,2)])
      (use bal_branch(3) bal_branch(6,7) bal_branch(4,7) in blast)+
next
  case (bal_block s d l b R' T Cy C R ss t)
  show ?case
    by (rule bal_seq_bal_stmts.bal_block [where T = T and R' = R' and Cy = Cy, OF bal_block(1,2)])
      (use bal_block(4-) in blast)+
next
  case (bal_loop s d vs inits b C Ch C2 R' T Cy R ss t)
  show ?case
    by (rule bal_seq_bal_stmts.bal_loop [where T = T and R' = R' and Cy = Cy, OF bal_loop(1-4)])
      (use bal_loop(6-) in blast)+
qed (blast intro: bal_seq_bal_stmts.intros)+

section \<open>What a call owes\<close>

text \<open>
  \<open>seq_balanced\<close>: whatever is added later outside the nodes of the sequence, it is balanced, and every exit
  it takes was counted as live by the analysis.
\<close>

definition seq_balanced ::
  "lir_module \<Rightarrow> lir_fn \<Rightarrow> var_id set \<Rightarrow> node set \<Rightarrow> rc_counter \<Rightarrow> lir_fn \<Rightarrow> (outcome \<Rightarrow> counts) \<Rightarrow> var_id set \<Rightarrow> var_id set
     \<Rightarrow> var_id set option \<Rightarrow> seq_id \<Rightarrow> bool" where
  "seq_balanced m f V N K f' T owned yl lh i \<longleftrightarrow>
     (\<forall>g. extends (seqs_of N) f' g \<longrightarrow>
        (\<exists>R. bal_seq m g R T (ind owned) i \<and> (\<forall>x\<in>R. exit_live K yl lh x \<inter> V \<subseteq> rk_live K i)))"

definition call_bal :: "rk_call \<Rightarrow> lir_module \<Rightarrow> lir_fn \<Rightarrow> seq_shape" where
  "call_bal call m f L V i N \<longleftrightarrow> rc_seq_ok f L V i N \<and>
     (\<forall>f1 K owned yt lt f2 K2. call (f1, K) i owned yt lt = Some (f2, K2) \<longrightarrow> extends (seqs_of N) f f1 \<longrightarrow>
        grows (seqs_of N) f1 f2 \<and> rewritten N K K2
        \<and> (\<forall>E T yl lh. recorded m K f i yl lh \<longrightarrow> exits_ok f E V L K T yt lt yl lh \<longrightarrow>
             finite owned \<longrightarrow> owned \<subseteq> V - E \<longrightarrow> rk_live K i \<inter> V \<subseteq> owned \<union> E \<longrightarrow> rk_asserts K2 \<longrightarrow>
             seq_balanced m f V N K f2 T owned yl lh i))"

lemma call_bal_ok: "call_bal call m f L V i N \<Longrightarrow> rc_seq_ok f L V i N"
  by (simp add: call_bal_def)

lemma call_bal_frame:
  assumes "call_bal call m f L V i N" "call (f1, K) i owned yt lt = Some (f2, K2)" "extends (seqs_of N) f f1"
  shows "grows (seqs_of N) f1 f2" "rewritten N K K2"
  using assms unfolding call_bal_def by blast+

lemma call_balD:
  assumes "call_bal call m f L V i N" "call (f1, K) i owned yt lt = Some (f2, K2)" "extends (seqs_of N) f f1"
    and "recorded m K f i yl lh" "exits_ok f E V L K T yt lt yl lh" "finite owned" "owned \<subseteq> V - E"
    and "rk_live K i \<inter> V \<subseteq> owned \<union> E" "rk_asserts K2"
  shows "seq_balanced m f V N K f2 T owned yl lh i"
  using assms unfolding call_bal_def by blast

lemma children_bal_labels:
  assumes "children_ok (call_bal call m f) f L V cs N"
  shows "NLabel ` L \<inter> N = {}"
proof -
  have "children_ok (\<lambda>L V i N. NLabel ` L \<inter> N = {}) f L V cs N"
    by (rule children_ok_mono [rule_format, OF _ assms]) (auto dest!: call_bal_ok rc_seq_ok_labels)
  then show ?thesis by (rule children_ok_labels)
qed

lemma bodies_frame:
  assumes "children_ok (call_bal call m f) f L V cs N" "rk_bodies call (f1, K) cs owned yt lt = Some (f2, K2)"
    and "extends (seqs_of N) f f1"
  shows "grows (seqs_of N) f1 f2 \<and> rewritten N K K2"
  using assms
proof (induction cs arbitrary: f1 K N)
  case (Cons c cs)
  obtain ds b where c: "c = (ds, b)" by fastforce
  from Cons.prems(1) c obtain A B where AB: "call_bal call m f L (V \<union> counted_of f ds) b A"
    "children_ok (call_bal call m f) f L V cs B" "A \<inter> B = {}" "N = A \<union> B" by (auto simp: children_ok_Cons)
  from Cons.prems(2) c obtain f3 K3 where call: "call (f1, K) b (owned \<union> set ds) yt lt = Some (f3, K3)"
    and rest: "rk_bodies call (f3, K3) cs owned yt lt = Some (f2, K2)" by (auto simp: bind_eq_Some_conv)
  have ext: "extends (seqs_of A) f f1" "extends (seqs_of B) f f1"
    using Cons.prems(3) AB(4) by (auto intro: extends_mono)
  note fr = call_bal_frame [OF AB(1) call ext(1)]
  have "extends (seqs_of B) f f3"
    using fn_extends_trans [OF ext(2) grows_extends [OF fr(1)]] seqs_of_disjoint [OF AB(3)] by blast
  from Cons.IH [OF AB(2) rest this] fr AB(4) show ?case
    by (auto intro: grows_trans grows_mono rewritten_trans rewritten_mono)
qed simp

text \<open>The sequences of a statement, one after the other, all entered with the same owned variables.\<close>

lemma bodies_bal:
  assumes "children_ok (call_bal call m f) f L V cs N" "rk_bodies call (f1, K) cs owned yt lt = Some (f2, K2)"
    and "extends (seqs_of N) f f1" "exits_ok f E V L K T yt lt yl lh" "finite owned" "owned \<subseteq> V - E" "rk_asserts K2"
    and "\<And>c. c \<in> set cs \<Longrightarrow> recorded m K f (snd c) yl lh \<and> list_all (counted f) (fst c) \<and> set (fst c) \<inter> V = {}
        \<and> (rk_live K (snd c) - set (fst c)) \<inter> V \<subseteq> owned \<union> E"
    and g: "extends (seqs_of N) f2 g"
  shows "\<exists>R. (\<forall>c\<in>set cs. bal_seq m g R T (ind (owned \<union> set (fst c))) (snd c))
     \<and> (\<forall>x\<in>R. \<exists>c\<in>set cs. exit_live K yl lh x \<inter> V \<subseteq> rk_live K (snd c) - set (fst c))"
  using assms
proof (induction cs arbitrary: f1 K N)
  case (Cons c cs)
  obtain ds b where c: "c = (ds, b)" by fastforce
  from Cons.prems(1) c obtain A B where AB: "call_bal call m f L (V \<union> counted_of f ds) b A"
    "children_ok (call_bal call m f) f L V cs B" "A \<inter> B = {}" "N = A \<union> B" by (auto simp: children_ok_Cons)
  from Cons.prems(2) c obtain f3 K3 where call: "call (f1, K) b (owned \<union> set ds) yt lt = Some (f3, K3)"
    and rest: "rk_bodies call (f3, K3) cs owned yt lt = Some (f2, K2)" by (auto simp: bind_eq_Some_conv)
  have ext: "extends (seqs_of A) f f1" "extends (seqs_of B) f f1"
    using Cons.prems(3) AB(4) by (auto intro: extends_mono)
  note fr = call_bal_frame [OF AB(1) call ext(1)]
  have extB: "extends (seqs_of B) f f3"
    using fn_extends_trans [OF ext(2) grows_extends [OF fr(1)]] seqs_of_disjoint [OF AB(3)] by blast
  have fr2: "grows (seqs_of B) f3 f2 \<and> rewritten B K3 K2" by (rule bodies_frame [OF AB(2) rest extB])
  have here: "recorded m K f b yl lh" "list_all (counted f) ds" "set ds \<inter> V = {}"
    "(rk_live K b - set ds) \<inter> V \<subseteq> owned \<union> E" using Cons.prems(8) [of c] c by auto
  have ds: "counted_of f ds = set ds" using here(2) by (auto simp: counted_of_def list_all_iff)
  have EV: "E \<subseteq> V" using Cons.prems(4) by (simp add: exits_ok_def)
  have "seq_balanced m f (V \<union> set ds) A K f3 T (owned \<union> set ds) yl lh b"
    by (rule call_balD [OF AB(1) [unfolded ds] call ext(1) here(1) exits_ok_scope [OF Cons.prems(4)]])
      (use Cons.prems(4-7) here(2-4) EV fr2 in \<open>auto simp: rewritten_def exits_ok_def list_all_iff\<close>)
  moreover have "extends (seqs_of A) f3 g"
    using Cons.prems(9) AB(3,4) fr2 grows_extends [of "seqs_of B" f3 f2 "seqs_of A"] seqs_of_disjoint [OF AB(3)]
    by (auto intro: fn_extends_trans extends_mono)
  ultimately obtain R1 where R1: "bal_seq m g R1 T (ind (owned \<union> set ds)) b"
    "\<forall>x\<in>R1. exit_live K yl lh x \<inter> (V \<union> set ds) \<subseteq> rk_live K b" unfolding seq_balanced_def by blast
  have lab: "NLabel ` L \<inter> A = {}" using rc_seq_ok_labels [OF call_bal_ok [OF AB(1)]] .
  have same: "rk_live K3 = rk_live K" "exit_live K3 yl lh = exit_live K yl lh"
    using fr(2) exit_live_rewritten [OF fr(2)] by (simp_all add: rewritten_def)
  have "\<exists>R. (\<forall>c\<in>set cs. bal_seq m g R T (ind (owned \<union> set (fst c))) (snd c))
     \<and> (\<forall>x\<in>R. \<exists>c\<in>set cs. exit_live K3 yl lh x \<inter> V \<subseteq> rk_live K3 (snd c) - set (fst c))"
  proof (rule Cons.IH [OF AB(2) rest extB exits_ok_rewritten [OF Cons.prems(4) fr(2) lab] Cons.prems(5-7)])
    fix c' assume "c' \<in> set cs"
    then obtain V' N' where "rc_seq_ok f L V' (snd c') N'"
      using children_ok_in [OF AB(2)] call_bal_ok by blast
    with Cons.prems(8) [of c'] \<open>c' \<in> set cs\<close> rewritten_recorded [OF _ fr(2)] same
    show "recorded m K3 f (snd c') yl lh \<and> list_all (counted f) (fst c') \<and> set (fst c') \<inter> V = {}
        \<and> (rk_live K3 (snd c') - set (fst c')) \<inter> V \<subseteq> owned \<union> E" by auto
  next
    show "extends (seqs_of B) f2 g" using Cons.prems(9) AB(4) by (auto intro: extends_mono)
  qed
  then obtain R2 where R2: "\<forall>c\<in>set cs. bal_seq m g R2 T (ind (owned \<union> set (fst c))) (snd c)"
    "\<forall>x\<in>R2. \<exists>c\<in>set cs. exit_live K yl lh x \<inter> V \<subseteq> rk_live K (snd c) - set (fst c)" unfolding same by blast
  have "\<forall>x\<in>R1. exit_live K yl lh x \<inter> V \<subseteq> rk_live K b - set ds" using R1(2) here(3) by blast
  with R2(2) c have ex: "\<forall>x\<in>R1 \<union> R2. \<exists>c\<in>set (c # cs). exit_live K yl lh x \<inter> V \<subseteq> rk_live K (snd c) - set (fst c)"
    by force
  have "\<forall>c\<in>set (c # cs). bal_seq m g (R1 \<union> R2) T (ind (owned \<union> set (fst c))) (snd c)"
    using bal_mono(1) [OF R1(1), of "R1 \<union> R2"] R2(1) bal_mono(1) [where R = R2 and ?R1.0 = "R1 \<union> R2"] c by auto
  with ex show ?case by blast
qed auto

section \<open>Statements\<close>

lemma own_all_ind:
  "distinct vs \<Longrightarrow> counted_of f vs \<inter> owned = {} \<Longrightarrow> own_all f vs (ind owned) = Some (ind (owned \<union> counted_of f vs))"
proof (induction vs arbitrary: owned)
  case (Cons v vs)
  show ?case
  proof (cases "counted f v")
    case True
    with Cons.prems have "v \<notin> owned" "v \<notin> set vs" "counted_of f vs \<inter> insert v owned = {}" by (auto simp: counted_of_def)
    moreover have "(ind owned)(v := 1) = ind (insert v owned)" by (auto simp: ind_def fun_eq_iff)
    moreover have "insert v owned \<union> counted_of f vs = owned \<union> counted_of f (v # vs)" using True by (auto simp: counted_of_def)
    moreover have "own_all f vs (ind (insert v owned)) = Some (ind (insert v owned \<union> counted_of f vs))"
      using Cons.prems(1) calculation(3) by (intro Cons.IH) simp_all
    ultimately show ?thesis using True by (simp add: own_def ind_def [of owned v])
  next
    case False
    with Cons show ?thesis by (simp add: own_def counted_of_def)
  qed
qed (simp add: counted_of_def)

lemma counted_of_opt:
  "counted_of f (opt_list d) = (case d of None \<Rightarrow> {} | Some x \<Rightarrow> if counted f x then {x} else {})"
  by (auto simp: counted_of_def opt_list_def split: option.splits)

lemma own_dst_ind:
  assumes "counted_of f (opt_list d) \<inter> owned = {}"
  shows "own_dst f val d (ind owned) = Some (ind (owned \<union> (if is_view f val then {} else counted_of f (opt_list d))))"
proof -
  have "(ind owned)(x := 0) = ind owned" "(ind owned)(x := 1) = ind (insert x owned)" if "x \<notin> owned" for x
    using that by (auto simp: ind_def fun_eq_iff)
  then show ?thesis using assms
    by (cases d) (auto simp: own_dst_def own_def opt_list_def counted_of_def ind_def)
qed

text \<open>
  \<open>stmt_balanced\<close>: the statements \<open>es\<close> that replace one statement lead from the owned variables before it to
  those after it; if their end is reached, what is live there is owned.
\<close>

definition stmt_balanced ::
  "lir_module \<Rightarrow> node set \<Rightarrow> rc_counter \<Rightarrow> lir_fn \<Rightarrow> (outcome \<Rightarrow> counts) \<Rightarrow> var_id set \<Rightarrow> var_id set \<Rightarrow> var_id set \<Rightarrow> var_id set \<Rightarrow> var_id set
     \<Rightarrow> stmt_id list \<Rightarrow> var_id set \<Rightarrow> var_id set option \<Rightarrow> var_id set \<Rightarrow> var_id set \<Rightarrow> var_id set \<Rightarrow> bool" where
  "stmt_balanced m N K f2 T E V V' owned owned' es yl lh before after_an after \<longleftrightarrow>
     finite owned' \<and> owned' \<subseteq> V' - E
     \<and> (\<forall>g. extends (seqs_of N) f2 g \<longrightarrow>
          (\<exists>R r. step_ok m g T R r (ind owned) es (ind owned')
             \<and> (\<forall>x\<in>R. exit_live K yl lh x \<inter> V \<subseteq> before)
             \<and> (r \<longrightarrow> after_an \<inter> V \<subseteq> before \<and> after \<inter> V' \<subseteq> owned' \<union> E)))"

lemma let_run:
  assumes "rk_let call m f1 K s stmt val su owned after lt out = Some ((f2, K2), owned2, out2)"
  obtains ss owned1 f3 ss2 where
    "owned1 = owned - {v \<in> set (consumed_by m f1 val). \<not> (v \<in> rk_live_on f1 K stmt after \<or> v \<in> set (borrowed_by m f1 val))}"
    "rc_effect ss (ind owned) = Some (\<lambda>v. ind owned1 v + int (count_list (consumed_by m f1 val) v))"
    "rk_bodies call (emit f1 ss, if su \<noteq> None \<and> set (suspend_saved f1 stmt) \<noteq> owned1 then K\<lparr>rk_asserts := False\<rparr> else K)
       (scoped_children stmt) owned1 {} lt = Some (f3, K2)"
    "f2 = emit f3 ss2" "out2 = out @ emit_ids f1 ss @ [s] @ emit_ids f3 ss2"
    "(ss2, owned2) = (case counted_dst f3 stmt of None \<Rightarrow> ([], owned1)
       | Some d \<Rightarrow> if \<not> is_view f3 val then ([], insert d owned1)
           else if d \<in> after then ([SDup d], insert d owned1) else ([], owned1))"
proof -
  define keep where "keep = (\<lambda>v. v \<in> rk_live_on f1 K stmt after \<or> v \<in> set (borrowed_by m f1 val))"
  define owned1 where "owned1 = owned - {v \<in> set (consumed_by m f1 val). \<not> keep v}"
  obtain ss where ss: "rk_consume f1 owned (consumed_by m f1 val) keep out = (emit f1 ss, owned1, out @ emit_ids f1 ss)"
    "rc_effect ss (ind owned) = Some (\<lambda>v. ind owned1 v + int (count_list (consumed_by m f1 val) v))"
    unfolding owned1_def by (rule consume_effect)
  have sig: "suspend_saved (emit f1 ss) = suspend_saved f1"
    by (rule same_sig_rules) (simp add: same_sig_def emit_def)
  from assms obtain f3 where run: "rk_bodies call (emit f1 ss,
      if su \<noteq> None \<and> set (suspend_saved f1 stmt) \<noteq> owned1 then K\<lparr>rk_asserts := False\<rparr> else K)
       (scoped_children stmt) owned1 {} lt = Some (f3, K2)"
    and dst: "rk_define_dst f3 stmt val owned1 after (out @ emit_ids f1 ss @ [s]) = (f2, owned2, out2)"
    unfolding rk_let_def keep_def [symmetric] ss Let_def prod.case sig
    by (auto simp: bind_eq_Some_conv case_prod_beta prod_eq_iff)
  note that' = that [OF owned1_def [unfolded keep_def] ss(2) run]
  show ?thesis
  proof (cases "counted_dst f3 stmt")
    case None
    with dst show ?thesis by (intro that' [of "[]"]) (simp_all add: rk_define_dst_def)
  next
    case (Some d)
    consider "\<not> is_view f3 val" | "is_view f3 val" "d \<in> after" | "is_view f3 val" "d \<notin> after" by blast
    then show ?thesis
    proof cases
      case 1
      with dst Some show ?thesis by (intro that' [of "[]"]) (simp_all add: rk_define_dst_def)
    next
      case 2
      with dst Some show ?thesis by (intro that' [of "[SDup d]"]) (simp_all add: rk_define_dst_def new_stmt_emit)
    next
      case 3
      with dst Some show ?thesis by (intro that' [of "[]"]) (simp_all add: rk_define_dst_def)
    qed
  qed
qed

lemma count_list_distinct: "distinct xs \<Longrightarrow> count_list xs v = (if v \<in> set xs then 1 else 0)"
  by (induction xs) auto

lemma scoped_let:
  assumes "stmt_fits f V (SLet d val df su)" "c \<in> set (scoped_children (SLet d val df su))"
  shows "list_all (counted f) (fst c)" "distinct (fst c)"
  using assms by (auto simp: opt_list_def split: option.splits)

lemma counted_dst_set: "set (opt_list (counted_dst f stmt)) = counted_of f (opt_list (stmt_dst stmt))"
  by (auto simp: counted_dst_def counted_of_def opt_list_def split: option.splits)

text \<open>The \<open>let\<close> itself, between the references for what it consumes and those for its destination.\<close>

lemma let_step:
  assumes stmt: "get_stmt f s = Some (SLet d val df su)" and fits: "stmt_fits f V (SLet d val df su)"
    and g: "extends Q f g" and owned1: "owned1 \<subseteq> V" "counted_of f (opt_list d) \<inter> owned1 = {}"
    and borrow: "\<forall>v\<in>set (borrowed_by m f val). v \<in> owned1 \<or> borrowed_param f v"
    and saved: "su \<noteq> None \<longrightarrow> set (suspend_saved f (SLet d val df su)) = owned1" and leave: "T OLeave = ind {}"
    and kids: "\<forall>c\<in>set (scoped_children (SLet d val df su)). set (fst c) \<inter> V = {}
        \<and> bal_seq m g R (T(OYield := ind {})) (ind (owned1 \<union> set (fst c))) (snd c)"
  shows "step_ok m g T (R - {OYield}) True (\<lambda>v. ind owned1 v + int (count_list (consumed_by m f val) v)) [s]
    (ind (owned1 \<union> (if is_view f val then {} else counted_of f (opt_list d))))"
  unfolding step_ok_def
proof (intro allI impI)
  fix R' rest t
  assume R': "R - {OYield} \<subseteq> R'"
    and rest: "True \<longrightarrow> bal_stmts m g R' T (ind (owned1 \<union> (if is_view f val then {} else counted_of f (opt_list d)))) rest t"
  note sig = same_sig_rules [OF extends_sig [OF g]]
  let ?C = "\<lambda>v. ind owned1 v + int (count_list (consumed_by m f val) v)" and ?s = "SLet d val df su"
  have "bal_stmts m g R' T ?C (s # rest) t"
  proof (rule bal_let [where T = T and Cy = "ind {}"])
    show "get_stmt g s = Some ?s" by (rule extends_stmt [OF g stmt])
    show "take_all (consumed_by m g val) ?C = Some (ind owned1)" unfolding sig
      by (rule take_all_counts) (simp add: ind_def)
    show "list_all (borrow_ok g (ind owned1)) (borrowed_by m g val)"
      using borrow by (auto simp: sig list_all_iff borrow_ok_def ind_def)
    show "su \<noteq> None \<longrightarrow> take_all (suspend_saved g ?s) (ind owned1) = Some (T OLeave)"
    proof
      assume su: "su \<noteq> None"
      then have "distinct (suspend_saved f ?s)" using fits by (auto simp: opt_list_def)
      then have "ind owned1 = (\<lambda>v. ind {} v + int (count_list (suspend_saved f ?s) v))"
        using saved su by (simp add: fun_eq_iff ind_def count_list_distinct)
      then show "take_all (suspend_saved g ?s) (ind owned1) = Some (T OLeave)"
        unfolding sig leave using take_all_counts [of "ind {}" "suspend_saved f ?s"] by (simp add: ind_def)
    qed
    show "\<forall>c\<in>set (scoped_children ?s). \<exists>C2. own_all g (fst c) (ind owned1) = Some C2
        \<and> bal_seq m g (insert OYield R') (T(OYield := ind {})) C2 (snd c)"
    proof
      fix c assume c: "c \<in> set (scoped_children ?s)"
      note sc = scoped_let [OF fits c]
      have ds: "counted_of f (fst c) = set (fst c)" using sc(1) by (auto simp: counted_of_def list_all_iff)
      have "own_all f (fst c) (ind owned1) = Some (ind (owned1 \<union> counted_of f (fst c)))"
        by (rule own_all_ind [OF sc(2)]) (use kids c owned1(1) ds in fastforce)
      moreover have "bal_seq m g (insert OYield R') (T(OYield := ind {})) (ind (owned1 \<union> set (fst c))) (snd c)"
        by (rule bal_mono(1) [where R = R]) (use kids c R' in auto)
      ultimately show "\<exists>C2. own_all g (fst c) (ind owned1) = Some C2
        \<and> bal_seq m g (insert OYield R') (T(OYield := ind {})) C2 (snd c)" unfolding sig ds by blast
    qed
    show "own_dst g val d (ind owned1) =
        Some (ind (owned1 \<union> (if is_view f val then {} else counted_of f (opt_list d))))"
      unfolding sig by (rule own_dst_ind [OF owned1(2)])
    show "bal_stmts m g R' T (ind (owned1 \<union> (if is_view f val then {} else counted_of f (opt_list d)))) rest t"
      using rest by simp
  qed
  then show "bal_stmts m g R' T ?C ([s] @ rest) t" by simp
qed

text \<open>What the rewriting of one statement owes.\<close>

abbreviation (input) scope_after :: "lir_fn \<Rightarrow> var_id set \<Rightarrow> lir_stmt \<Rightarrow> var_id set" where
  "scope_after f V stmt \<equiv> V \<union> counted_of f (opt_list (stmt_dst stmt))"

definition stmt_done ::
  "lir_module \<Rightarrow> lir_fn \<Rightarrow> label_id set \<Rightarrow> var_id set \<Rightarrow> stmt_id \<Rightarrow> lir_stmt \<Rightarrow> node set \<Rightarrow> var_id set option \<Rightarrow> lir_fn \<Rightarrow> rc_counter
     \<Rightarrow> var_id set \<Rightarrow> var_id set \<Rightarrow> lir_fn \<Rightarrow> rc_counter \<Rightarrow> var_id set \<Rightarrow> stmt_id list \<Rightarrow> bool" where
  "stmt_done m f L V s stmt N lt f1 K owned after f2 K2 owned2 es \<longleftrightarrow>
     grows (seqs_of N) f1 f2 \<and> rewritten N K K2
     \<and> (\<forall>E T yt yl lh after_an before before_rw. rec_stmt (recorded m K f) K s stmt after_an yl lh \<longrightarrow>
          rk_live_before m f K s after_an = Some before \<longrightarrow> rk_live_before m f K s after = Some before_rw \<longrightarrow>
          after \<subseteq> after_an \<longrightarrow> exits_ok f E V L K T yt lt yl lh \<longrightarrow> finite owned \<longrightarrow> owned \<subseteq> V - E \<longrightarrow>
          before_rw \<inter> V \<subseteq> owned \<union> E \<longrightarrow> rk_asserts K2 \<longrightarrow>
          stmt_balanced m N K f2 T E V (scope_after f V stmt) owned owned2 es yl lh before after_an after)"

lemma stmt_doneI:
  assumes "grows (seqs_of N) f1 f2" "rewritten N K K2"
    and "\<And>E T yt yl lh after_an before before_rw. rec_stmt (recorded m K f) K s stmt after_an yl lh \<Longrightarrow>
      rk_live_before m f K s after_an = Some before \<Longrightarrow> rk_live_before m f K s after = Some before_rw \<Longrightarrow>
      after \<subseteq> after_an \<Longrightarrow> exits_ok f E V L K T yt lt yl lh \<Longrightarrow> finite owned \<Longrightarrow> owned \<subseteq> V - E \<Longrightarrow>
      before_rw \<inter> V \<subseteq> owned \<union> E \<Longrightarrow> rk_asserts K2 \<Longrightarrow>
      stmt_balanced m N K f2 T E V (scope_after f V stmt) owned owned2 es yl lh before after_an after"
  shows "stmt_done m f L V s stmt N lt f1 K owned after f2 K2 owned2 es"
  using assms unfolding stmt_done_def by blast

lemma stmt_balancedI:
  assumes "finite owned'" "owned' \<subseteq> V' - E"
    and "\<And>g. extends (seqs_of N) f2 g \<Longrightarrow> \<exists>R r. step_ok m g T R r (ind owned) es (ind owned')
      \<and> (\<forall>x\<in>R. exit_live K yl lh x \<inter> V \<subseteq> before) \<and> (r \<longrightarrow> after_an \<inter> V \<subseteq> before \<and> after \<inter> V' \<subseteq> owned' \<union> E)"
  shows "stmt_balanced m N K f2 T E V V' owned owned' es yl lh before after_an after"
  using assms unfolding stmt_balanced_def by blast

lemma step_ok_True_append:
  "step_ok m g T R True C es C' \<Longrightarrow> step_ok m g T R' r C' es' C'' \<Longrightarrow> step_ok m g T (R \<union> R') r C (es @ es') C''"
  using step_ok_append [of m g T R True C es C' R' r es' C''] by simp

lemma recorded_childrenI: "c \<in> set (scoped_children stmt) \<Longrightarrow> rk_live K (snd c) - set (fst c) \<subseteq> recorded_children K stmt"
  by (force simp: recorded_children_def)

lemma rewritten_asserts: "rewritten N K (if b then K\<lparr>rk_asserts := False\<rparr> else K)"
  by (simp add: rewritten_def)

lemma let_done:
  assumes ok: "stmt_ok (call_bal call m f) f L V s stmt N" and stmt: "get_stmt f s = Some stmt"
    and SLet: "stmt = SLet d val df su" and ext: "extends (seqs_of N) f f1"
    and run: "rk_let call m f1 K s stmt val su owned after lt out = Some ((f2, K2), owned2, out2)"
  shows "\<exists>es. out2 = out @ es \<and> stmt_done m f L V s stmt N lt f1 K owned after f2 K2 owned2 es"
proof -
  note sig = same_sig_rules [OF extends_sig [OF ext]]
  obtain ss owned1 f3 ss2 where
    owned1: "owned1 = owned - {v \<in> set (consumed_by m f val). \<not> (v \<in> rk_live_on f1 K stmt after \<or> v \<in> set (borrowed_by m f val))}"
    and eff: "rc_effect ss (ind owned) = Some (\<lambda>v. ind owned1 v + int (count_list (consumed_by m f val) v))"
    and bodies: "rk_bodies call (emit f1 ss, if su \<noteq> None \<and> set (suspend_saved f stmt) \<noteq> owned1 then K\<lparr>rk_asserts := False\<rparr> else K)
       (scoped_children stmt) owned1 {} lt = Some (f3, K2)"
    and f2: "f2 = emit f3 ss2" and out2: "out2 = out @ emit_ids f1 ss @ [s] @ emit_ids f3 ss2"
    and dst: "(ss2, owned2) = (case counted_dst f3 stmt of None \<Rightarrow> ([], owned1)
       | Some d \<Rightarrow> if \<not> is_view f3 val then ([], insert d owned1)
           else if d \<in> after then ([SDup d], insert d owned1) else ([], owned1))"
    by (rule let_run [OF run, unfolded sig])
  let ?K = "if su \<noteq> None \<and> set (suspend_saved f stmt) \<noteq> owned1 then K\<lparr>rk_asserts := False\<rparr> else K"
  from ok obtain N' where N': "N = insert (NStmt s) (NLabel ` stmt_labels stmt \<union> N')"
    and ch: "children_ok (call_bal call m f) f (L \<union> stmt_labels stmt) V (scoped_children stmt) N'"
    and fits: "stmt_fits f V stmt" and dV: "counted_of f (opt_list (stmt_dst stmt)) \<inter> V = {}"
    and cV: "\<forall>c\<in>set (scoped_children stmt). counted_of f (fst c) \<inter> V = {}" by (rule stmt_okE)
  have ch': "children_ok (call_bal call m f) f L V (scoped_children stmt) N'" using ch SLet by simp
  have seqs: "seqs_of N = seqs_of N'" using N' SLet by simp
  have g1: "grows (seqs_of N) f1 (emit f1 ss)" using grows_mono [OF emit_grows] by blast
  have g3: "grows (seqs_of N) f3 f2" using grows_mono [OF emit_grows] f2 by blast
  have ext1: "extends (seqs_of N') f (emit f1 ss)"
    using fn_extends_trans [OF ext [unfolded seqs] grows_extends [OF emit_grows]] by simp
  from bodies_frame [OF ch' bodies ext1] have fr: "grows (seqs_of N) (emit f1 ss) f3" "rewritten N' ?K K2" unfolding seqs by blast+
  have grow: "grows (seqs_of N) f1 f2" using g1 fr(1) g3 by (blast intro: grows_trans)
  have rw: "rewritten N K K2"
    using rewritten_trans [OF rewritten_asserts [of N K] rewritten_mono [OF fr(2), of N]] N' by auto
  have same3: "same_sig f f3"
    using extends_sig [OF ext] fr(1) g1 by (auto simp: grows_def extends_def intro: same_sig_trans)
  note sig3 = same_sig_rules [OF same3]
  let ?es = "emit_ids f1 ss @ [s] @ emit_ids f3 ss2" and ?d = "counted_of f (opt_list d)"
  have "stmt_done m f L V s stmt N lt f1 K owned after f2 K2 owned2 ?es"
  proof (rule stmt_doneI [OF grow rw])
    fix E T yt yl lh after_an before before_rw
    assume rec: "rec_stmt (recorded m K f) K s stmt after_an yl lh" and b: "rk_live_before m f K s after_an = Some before"
      and brw: "rk_live_before m f K s after = Some before_rw" and ex: "exits_ok f E V L K T yt lt yl lh"
      and fin: "finite owned" and owned: "owned \<subseteq> V - E" and live: "before_rw \<inter> V \<subseteq> owned \<union> E" and asserts: "rk_asserts K2"
    have before: "before = (after_an - set (opt_list d)) \<union> recorded_children K stmt
        \<union> set (map fst (value_uses m f val)) \<union> set (suspend_saved f stmt)"
      and before_rw: "before_rw = (after - set (opt_list d)) \<union> recorded_children K stmt
        \<union> set (map fst (value_uses m f val)) \<union> set (suspend_saved f stmt)"
      using b brw SLet by (simp_all add: live_before_eq [OF stmt])
    have K: "?K = K" "su \<noteq> None \<longrightarrow> set (suspend_saved f stmt) = owned1"
      using asserts fr(2) by (auto simp: rewritten_def split: if_splits)
    have ex': "exits_ok f E V L K (T(OYield := ind {})) {} lt yl lh" by (rule exits_ok_yield [OF ex]) simp
    have EV: "E \<subseteq> V" "V \<subseteq> Collect (counted f)" "E \<subseteq> Collect (borrowed_param f)" using ex by (auto simp: exits_ok_def)
    have o1: "finite owned1" "owned1 \<subseteq> V - E" using fin owned owned1 by auto
    have keep: "v \<in> owned1" if "v \<in> owned" "v \<in> rk_live_on f1 K stmt after \<or> v \<in> set (borrowed_by m f val)" for v
      using that owned1 by blast
    have on: "rk_live_on f1 K stmt after = (after - ?d) \<union> recorded_children K stmt"
      using SLet by (simp add: rk_live_on_def sig counted_dst_set)
    have bV: "set (borrowed_by m f val) \<subseteq> V \<inter> before_rw"
    proof -
      have "set (map fst (value_uses m f val)) \<subseteq> V" unfolding value_uses_vars using fits SLet by (simp add: counted_of_def)
      moreover have "set (borrowed_by m f val) \<subseteq> set (map fst (value_uses m f val))" by (auto simp: borrowed_by_def)
      ultimately show ?thesis using before_rw by blast
    qed
    have kids: "recorded m ?K f (snd c) yl lh \<and> list_all (counted f) (fst c) \<and> set (fst c) \<inter> V = {}
        \<and> (rk_live ?K (snd c) - set (fst c)) \<inter> V \<subseteq> owned1 \<union> E" if c: "c \<in> set (scoped_children stmt)" for c
    proof -
      have "recorded m K f (snd c) yl lh" using rec SLet c by simp
      moreover have cc: "list_all (counted f) (fst c)" using scoped_let [OF fits [unfolded SLet]] c SLet by blast
      moreover have "set (fst c) \<inter> V = {}" using cV c cc by (auto simp: counted_of_def list_all_iff)
      moreover have "(rk_live K (snd c) - set (fst c)) \<inter> V \<subseteq> owned1 \<union> E"
        using recorded_childrenI [OF c, of K] live before_rw keep on by blast
      ultimately show ?thesis unfolding K by blast
    qed
    have owned2: "owned2 = owned1 \<union> (if is_view f val \<and> d \<notin> Some ` after then {} else ?d)"
      and ss2: "rc_effect ss2 (ind (owned1 \<union> (if is_view f val then {} else ?d))) = Some (ind owned2)"
    proof -
      have d1: "?d \<inter> owned1 = {}" using dV o1(2) SLet by auto
      have "(ind owned1)(x := ind owned1 x + 1) = ind (insert x owned1)" if "x \<notin> owned1" for x
        using that by (auto simp: ind_def fun_eq_iff)
      then show "owned2 = owned1 \<union> (if is_view f val \<and> d \<notin> Some ` after then {} else ?d)"
        "rc_effect ss2 (ind (owned1 \<union> (if is_view f val then {} else ?d))) = Some (ind owned2)"
        using dst d1 SLet unfolding sig3
        by (auto simp: counted_dst_def counted_of_opt split: option.splits if_splits)
    qed
    show "stmt_balanced m N K f2 T E V (scope_after f V stmt) owned owned2 ?es yl lh before after_an after"
    proof (rule stmt_balancedI)
      show "finite owned2" using o1(1) owned2 by (auto simp: counted_of_def)
      show "owned2 \<subseteq> scope_after f V stmt - E" using o1(2) owned2 SLet dV EV(1) by (auto split: if_splits)
      fix g assume g: "extends (seqs_of N) f2 g"
      have g3': "extends (seqs_of N') f3 g"
        using grows_extends [OF emit_grows, of "seqs_of N'" f3 ss2] g seqs f2 by (auto intro: fn_extends_trans)
      from bodies_bal [OF ch' bodies ext1 _ o1 asserts kids g3', unfolded K, OF ex'] obtain R where
        R: "\<forall>c\<in>set (scoped_children stmt). bal_seq m g R (T(OYield := ind {})) (ind (owned1 \<union> set (fst c))) (snd c)"
        "\<forall>x\<in>R. \<exists>c\<in>set (scoped_children stmt). exit_live K yl lh x \<inter> V \<subseteq> rk_live K (snd c) - set (fst c)" by blast
      have e1: "extends {} (emit f1 ss) g"
        using grows_extends [OF fr(1), of "{}"] extends_mono [OF g3', of "{}"] by (auto intro: fn_extends_trans)
      have st1: "step_ok m g T {} True (ind owned) (emit_ids f1 ss) (\<lambda>v. ind owned1 v + int (count_list (consumed_by m f val) v))"
        by (rule emit_step [OF eff e1])
      have st2: "step_ok m g T (R - {OYield}) True (\<lambda>v. ind owned1 v + int (count_list (consumed_by m f val) v)) [s]
          (ind (owned1 \<union> (if is_view f val then {} else ?d)))"
      proof (rule let_step [OF stmt [unfolded SLet] fits [unfolded SLet], of "{}"])
        show "extends {} f g" using fn_extends_trans [OF extends_mono [OF ext1, of "{}"] e1] by simp
        show "owned1 \<subseteq> V" "?d \<inter> owned1 = {}" using o1(2) dV SLet by auto
        show "\<forall>v\<in>set (borrowed_by m f val). v \<in> owned1 \<or> borrowed_param f v"
          using bV live keep EV(3) by blast
        show "su \<noteq> None \<longrightarrow> set (suspend_saved f (SLet d val df su)) = owned1" using K(2) SLet by simp
        show "T OLeave = ind {}" using ex by (simp add: exits_ok_def)
        show "\<forall>c\<in>set (scoped_children (SLet d val df su)). set (fst c) \<inter> V = {}
            \<and> bal_seq m g R (T(OYield := ind {})) (ind (owned1 \<union> set (fst c))) (snd c)"
          using R(1) kids SLet by blast
      qed
      have st3: "step_ok m g T {} True (ind (owned1 \<union> (if is_view f val then {} else ?d))) (emit_ids f3 ss2) (ind owned2)"
        by (rule emit_step [OF ss2, of "seqs_of N"]) (use g f2 in simp)
      have "step_ok m g T (R - {OYield}) True (ind owned) ?es (ind owned2)"
        using step_ok_True_append [OF st1 step_ok_True_append [OF st2 st3]] by simp
      moreover have "\<forall>x\<in>R - {OYield}. exit_live K yl lh x \<inter> V \<subseteq> before"
        using R(2) recorded_childrenI [of _ stmt K] before by blast
      moreover have "after_an \<inter> V \<subseteq> before"
        using before dV EV(2) SLet by (auto simp: counted_of_def opt_list_def split: option.splits)
      moreover have "after \<inter> (V \<union> ?d) \<subseteq> owned2 \<union> E"
      proof
        fix v assume v: "v \<in> after \<inter> (V \<union> ?d)"
        show "v \<in> owned2 \<union> E"
        proof (cases "v \<in> ?d")
          case True
          then have "d = Some v" by (auto simp: counted_of_def opt_list_def split: option.splits)
          with v True owned2 show ?thesis by auto
        next
          case False
          with v EV(2) have "v \<in> before_rw \<inter> V" "v \<in> rk_live_on f1 K stmt after"
            using before_rw on by (auto simp: counted_of_def)
          with live keep owned2 show ?thesis by blast
        qed
      qed
      ultimately show "\<exists>R r. step_ok m g T R r (ind owned) ?es (ind owned2)
          \<and> (\<forall>x\<in>R. exit_live K yl lh x \<inter> V \<subseteq> before)
          \<and> (r \<longrightarrow> after_an \<inter> V \<subseteq> before \<and> after \<inter> scope_after f V stmt \<subseteq> owned2 \<union> E)"
        using SLet by auto
    qed
  qed
  with out2 show ?thesis by blast
qed

text \<open>The target of a compound statement: what is owned before it and live after it.\<close>

lemma target_props:
  assumes "rk_target owned after (counted_dst f stmt) = target" "exits_ok f E V L K T yt lt yl lh"
    and "owned \<subseteq> V - E" "after \<subseteq> after_an" "counted_of f (opt_list (stmt_dst stmt)) \<inter> V = {}"
  shows "target = owned \<inter> after" "target \<subseteq> without_dst after_an stmt \<inter> V - E"
    and "after_an \<inter> V = without_dst after_an stmt \<inter> V"
    and "own_all f (opt_list (stmt_dst stmt)) (ind target) = Some (ind (target \<union> counted_of f (opt_list (stmt_dst stmt))))"
proof -
  have V: "V \<subseteq> Collect (counted f)" using assms(2) by (simp add: exits_ok_def)
  have dV: "v \<notin> V" if "stmt_dst stmt = Some v" for v
    using that assms(5) V by (auto simp: counted_of_opt split: if_splits)
  show t: "target = owned \<inter> after"
    using assms(1,3) dV by (auto simp: rk_target_def counted_dst_def split: option.splits if_splits)
  show "target \<subseteq> without_dst after_an stmt \<inter> V - E" "after_an \<inter> V = without_dst after_an stmt \<inter> V"
    using t assms(3,4) dV by (auto simp: opt_list_def split: option.splits)
  show "own_all f (opt_list (stmt_dst stmt)) (ind target) = Some (ind (target \<union> counted_of f (opt_list (stmt_dst stmt))))"
    by (rule own_all_ind) (use t assms(3,5) in \<open>auto simp: opt_list_def split: option.splits\<close>)
qed

lemma exit_live_other: "x \<noteq> OYield \<Longrightarrow> exit_live K yl lh x = exit_live K yl' lh x"
  by (cases x) simp_all

lemma branch_reads:
  assumes "branches stmt = Some (vs, d, bs)" "stmt_fits f V stmt" "get_stmt f s = Some stmt"
  shows "counted_of f vs \<subseteq> V" "rk_live_before m f K s a = Some (recorded_children K stmt \<union> counted_of f vs)"
proof (atomize (full), cases stmt)
  case (SIf d c p q)
  then show "counted_of f vs \<subseteq> V \<and> rk_live_before m f K s a = Some (recorded_children K stmt \<union> counted_of f vs)"
    using assms by (simp add: live_before_eq [OF assms(3)])
next
  case (SSwitch d on cs df)
  then show "counted_of f vs \<subseteq> V \<and> rk_live_before m f K s a = Some (recorded_children K stmt \<union> counted_of f vs)"
    using assms by (auto simp: live_before_eq [OF assms(3)] switch_read_def counted_of_def)
qed (use assms(1) in simp_all)

lemma branch_done:
  assumes ok: "stmt_ok (call_bal call m f) f L V s stmt N" and stmt: "get_stmt f s = Some stmt"
    and br: "branches stmt = Some (vs, d, bs)" and ext: "extends (seqs_of N) f f1"
    and run: "rk_compound call f1 K s stmt owned (rk_target owned after (counted_dst f1 stmt)) lt out = Some ((f2, K2), owned2, out2)"
  shows "\<exists>es. out2 = out @ es \<and> stmt_done m f L V s stmt N lt f1 K owned after f2 K2 owned2 es"
proof -
  note sig = same_sig_rules [OF extends_sig [OF ext]]
  define target where "target = rk_target owned after (counted_dst f stmt)"
  from run have bodies: "rk_bodies call (f1, K) (scoped_children stmt) owned target lt = Some (f2, K2)"
    and out2: "out2 = out @ [s]" and owned2: "owned2 = target \<union> set (opt_list (counted_dst f2 stmt))"
    by (auto simp: rk_compound_def bind_eq_Some_conv sig target_def)
  have shape: "scoped_children stmt = map (Pair []) bs" "stmt_dst stmt = d" "stmt_labels stmt = {}"
    using br by (cases stmt; auto)+
  from ok obtain N' where N': "N = insert (NStmt s) (NLabel ` stmt_labels stmt \<union> N')"
    and ch: "children_ok (call_bal call m f) f (L \<union> stmt_labels stmt) V (scoped_children stmt) N'"
    and fits: "stmt_fits f V stmt" and dV: "counted_of f (opt_list (stmt_dst stmt)) \<inter> V = {}" by (rule stmt_okE)
  have ch': "children_ok (call_bal call m f) f L V (scoped_children stmt) N'" and seqs: "seqs_of N = seqs_of N'"
    using ch N' shape by simp_all
  from bodies_frame [OF ch' bodies] ext seqs have fr: "grows (seqs_of N) f1 f2" "rewritten N' K K2" by simp_all
  have rw: "rewritten N K K2" using rewritten_mono [OF fr(2), of N] N' by auto
  have same2: "same_sig f f2" using extends_sig [OF ext] fr(1) by (auto simp: grows_def extends_def intro: same_sig_trans)
  have owned2: "owned2 = target \<union> counted_of f (opt_list (stmt_dst stmt))"
    using owned2 unfolding same_sig_rules [OF same2] counted_dst_set .
  have "stmt_done m f L V s stmt N lt f1 K owned after f2 K2 owned2 [s]"
  proof (rule stmt_doneI [OF fr(1) rw])
    fix E T yt yl lh after_an before before_rw
    assume rec: "rec_stmt (recorded m K f) K s stmt after_an yl lh" and b: "rk_live_before m f K s after_an = Some before"
      and brw: "rk_live_before m f K s after = Some before_rw" and sub: "after \<subseteq> after_an" and ex: "exits_ok f E V L K T yt lt yl lh"
      and fin: "finite owned" and owned: "owned \<subseteq> V - E" and live: "before_rw \<inter> V \<subseteq> owned \<union> E" and asserts: "rk_asserts K2"
    note tp = target_props [OF target_def [symmetric] ex owned sub dV]
    have reads: "counted_of f vs \<subseteq> V" "before = recorded_children K stmt \<union> counted_of f vs" "before_rw = before"
      using branch_reads [OF br fits stmt] b brw by auto
    have EV: "E \<subseteq> V" "E \<subseteq> Collect (borrowed_param f)" using ex by (auto simp: exits_ok_def)
    let ?yl = "without_dst after_an stmt"
    have ex': "exits_ok f E V L K (T(OYield := ind target)) target lt ?yl lh" by (rule exits_ok_yield [OF ex tp(2)])
    have kids: "recorded m K f (snd c) ?yl lh \<and> list_all (counted f) (fst c) \<and> set (fst c) \<inter> V = {}
        \<and> (rk_live K (snd c) - set (fst c)) \<inter> V \<subseteq> owned \<union> E" if c: "c \<in> set (scoped_children stmt)" for c
    proof -
      have "recorded m K f (snd c) ?yl lh" using rec c br by (cases stmt) auto
      moreover have "fst c = []" using c shape by auto
      ultimately show ?thesis using recorded_childrenI [OF c, of K] live reads(2,3) by auto
    qed
    show "stmt_balanced m N K f2 T E V (scope_after f V stmt) owned owned2 [s] yl lh before after_an after"
    proof (rule stmt_balancedI)
      show "finite owned2" using fin tp(1) owned2 by (auto simp: counted_of_def)
      show "owned2 \<subseteq> scope_after f V stmt - E" using owned tp(1) owned2 dV EV(1) by auto
      fix g assume g: "extends (seqs_of N) f2 g"
      have ext': "extends (seqs_of N') f f1" "extends (seqs_of N') f2 g" using ext g seqs by simp_all
      from bodies_bal [OF ch' bodies ext'(1) ex' fin owned asserts kids ext'(2)] obtain R where
        R: "\<forall>c\<in>set (scoped_children stmt). bal_seq m g R (T(OYield := ind target)) (ind (owned \<union> set (fst c))) (snd c)"
        "\<forall>x\<in>R. \<exists>c\<in>set (scoped_children stmt). exit_live K ?yl lh x \<inter> V \<subseteq> rk_live K (snd c) - set (fst c)" by blast
      have fg: "extends {} f g"
        using ext grows_extends [OF fr(1), of "{}"] g by (blast intro: fn_extends_trans extends_mono)
      note gsig = same_sig_rules [OF extends_sig [OF fg]]
      have "step_ok m g T (R - {OYield}) (OYield \<in> R) (ind owned) [s] (ind owned2)"
        unfolding step_ok_def
      proof (intro allI impI)
        fix R' rest t assume sub: "R - {OYield} \<subseteq> R'" and rest: "OYield \<in> R \<longrightarrow> bal_stmts m g R' T (ind owned2) rest t"
        have "bal_stmts m g R' T (ind owned) (s # rest) t"
        proof (rule bal_branch [where T = T and Cy = "ind target", OF extends_stmt [OF fg stmt] br])
          show "list_all (\<lambda>v. counted g v \<longrightarrow> borrow_ok g (ind owned) v) vs"
            using reads live EV(2) by (auto simp: gsig list_all_iff borrow_ok_def ind_def counted_of_def)
          show "\<forall>b\<in>set bs. bal_seq m g R (T(OYield := ind target)) (ind owned) b" using R(1) shape(1) by auto
          show "OYield \<in> R \<longrightarrow> (\<exists>C2. own_all g (opt_list d) (ind target) = Some C2 \<and> bal_stmts m g R' T C2 rest t)"
            using rest tp(4) owned2 shape(2) by (simp add: gsig)
        qed (rule sub)
        then show "bal_stmts m g R' T (ind owned) ([s] @ rest) t" by simp
      qed
      moreover have bef: "exit_live K ?yl lh x \<inter> V \<subseteq> before" if "x \<in> R" for x
        using R(2) that recorded_childrenI [of _ stmt K] reads(2) by blast
      moreover have "\<forall>x\<in>R - {OYield}. exit_live K yl lh x \<inter> V \<subseteq> before"
        using bef exit_live_other [of _ K yl lh ?yl] by auto
      moreover have "after_an \<inter> V \<subseteq> before" "after \<inter> scope_after f V stmt \<subseteq> owned2 \<union> E" if "OYield \<in> R"
      proof -
        show "after_an \<inter> V \<subseteq> before" using bef [OF that] tp(3) by simp
        then show "after \<inter> scope_after f V stmt \<subseteq> owned2 \<union> E" using live reads(3) sub owned2 tp(1) by blast
      qed
      ultimately show "\<exists>R r. step_ok m g T R r (ind owned) [s] (ind owned2) \<and> (\<forall>x\<in>R. exit_live K yl lh x \<inter> V \<subseteq> before)
          \<and> (r \<longrightarrow> after_an \<inter> V \<subseteq> before \<and> after \<inter> scope_after f V stmt \<subseteq> owned2 \<union> E)" by blast
    qed
  qed
  with out2 show ?thesis by blast
qed

lemma block_done:
  assumes ok: "stmt_ok (call_bal call m f) f L V s stmt N" and stmt: "get_stmt f s = Some stmt"
    and SBlock: "stmt = SBlock d l b" and ext: "extends (seqs_of N) f f1"
    and run: "rk_compound call f1 (K\<lparr>rk_label_target := (rk_label_target K)(l \<mapsto> rk_target owned after (counted_dst f1 stmt))\<rparr>) s stmt
      owned (rk_target owned after (counted_dst f1 stmt)) lt out = Some ((f2, K2), owned2, out2)"
  shows "\<exists>es. out2 = out @ es \<and> stmt_done m f L V s stmt N lt f1 K owned after f2 K2 owned2 es"
proof -
  note sig = same_sig_rules [OF extends_sig [OF ext]]
  define target where "target = rk_target owned after (counted_dst f stmt)"
  let ?K = "K\<lparr>rk_label_target := (rk_label_target K)(l \<mapsto> target)\<rparr>"
  from run SBlock have call: "call (f1, ?K) b owned target lt = Some (f2, K2)"
    and out2: "out2 = out @ [s]" and owned2: "owned2 = target \<union> set (opt_list (counted_dst f2 stmt))"
    by (auto simp: rk_compound_def bind_eq_Some_conv sig target_def)
  from ok obtain N' where N': "N = insert (NStmt s) (NLabel ` stmt_labels stmt \<union> N')"
    and ch: "children_ok (call_bal call m f) f (L \<union> stmt_labels stmt) V (scoped_children stmt) N'"
    and lL: "stmt_labels stmt \<inter> L = {}" and dV: "counted_of f (opt_list (stmt_dst stmt)) \<inter> V = {}" by (rule stmt_okE)
  have body: "call_bal call m f (insert l L) V b N'" and seqs: "seqs_of N = seqs_of N'"
    using ch N' SBlock by (simp_all add: children_ok_Cons children_ok_def counted_of_def)
  have ext': "extends (seqs_of N') f f1" using ext seqs by simp
  note fr = call_bal_frame [OF body call ext']
  have rwK: "rewritten N K ?K" using N' SBlock by (auto simp: rewritten_def)
  have rw: "rewritten N K K2" using rewritten_trans [OF rwK rewritten_mono [OF fr(2)]] N' by blast
  have gr: "grows (seqs_of N) f1 f2" using fr(1) seqs by simp
  have same2: "same_sig f f2" using extends_sig [OF ext] gr by (auto simp: grows_def extends_def intro: same_sig_trans)
  have owned2: "owned2 = target \<union> counted_of f (opt_list (stmt_dst stmt))"
    using owned2 unfolding same_sig_rules [OF same2] counted_dst_set .
  have "stmt_done m f L V s stmt N lt f1 K owned after f2 K2 owned2 [s]"
  proof (rule stmt_doneI [OF gr rw])
    fix E T yt yl lh after_an before before_rw
    assume rec: "rec_stmt (recorded m K f) K s stmt after_an yl lh" and b: "rk_live_before m f K s after_an = Some before"
      and brw: "rk_live_before m f K s after = Some before_rw" and sub: "after \<subseteq> after_an" and ex: "exits_ok f E V L K T yt lt yl lh"
      and fin: "finite owned" and owned: "owned \<subseteq> V - E" and live: "before_rw \<inter> V \<subseteq> owned \<union> E" and asserts: "rk_asserts K2"
    note tp = target_props [OF target_def [symmetric] ex owned sub dV]
    let ?yl = "without_dst after_an stmt" and ?T = "T(OYield := ind target, OBreak l := ind target)"
    have before: "before = rk_live K b" "before_rw = rk_live K b"
      using b brw SBlock by (simp_all add: live_before_eq [OF stmt])
    have al: "rk_after_label K l = Some ?yl" and rec': "recorded m ?K f b ?yl lh"
      using rec SBlock rewritten_recorded [OF call_bal_ok [OF body] rwK] by simp_all
    have E: "E \<subseteq> V" using ex by (simp add: exits_ok_def)
    have ex': "exits_ok f E V (insert l L) ?K ?T target lt ?yl lh"
      using exits_ok_yield [OF ex tp(2)] al tp(2) lL SBlock unfolding exits_ok_def by auto
    have same: "rk_live ?K = rk_live K" "exit_live ?K ?yl lh = exit_live K ?yl lh"
      using exit_live_rewritten [OF rwK] by simp_all
    have sb: "seq_balanced m f V N' ?K f2 ?T owned ?yl lh b"
      by (rule call_balD [OF body call ext' rec' ex' fin owned _ asserts]) (use live before in simp)
    show "stmt_balanced m N K f2 T E V (scope_after f V stmt) owned owned2 [s] yl lh before after_an after"
    proof (rule stmt_balancedI)
      show "finite owned2" using fin tp(1) owned2 by (auto simp: counted_of_def)
      show "owned2 \<subseteq> scope_after f V stmt - E" using owned tp(1) owned2 dV E by auto
      fix g assume g: "extends (seqs_of N) f2 g"
      from sb g seqs same obtain R where R: "bal_seq m g R ?T (ind owned) b"
        "\<And>x. x \<in> R \<Longrightarrow> exit_live K ?yl lh x \<inter> V \<subseteq> before" unfolding seq_balanced_def before by metis
      have fg: "extends {} f g"
        using ext grows_extends [OF gr, of "{}"] g by (blast intro: fn_extends_trans extends_mono)
      note gsig = same_sig_rules [OF extends_sig [OF fg]]
      let ?r = "R \<inter> {OYield, OBreak l} \<noteq> {}"
      have "step_ok m g T (R - {OYield, OBreak l}) ?r (ind owned) [s] (ind owned2)"
        unfolding step_ok_def
      proof (intro allI impI)
        fix R' rest t assume sub: "R - {OYield, OBreak l} \<subseteq> R'" and rest: "?r \<longrightarrow> bal_stmts m g R' T (ind owned2) rest t"
        have "bal_stmts m g R' T (ind owned) (s # rest) t"
          by (rule bal_block [where T = T and Cy = "ind target", OF extends_stmt [OF fg stmt [unfolded SBlock]] R(1) sub])
            (use rest tp(4) owned2 SBlock in \<open>simp add: gsig\<close>)
        then show "bal_stmts m g R' T (ind owned) ([s] @ rest) t" by simp
      qed
      moreover have "\<forall>x\<in>R - {OYield, OBreak l}. exit_live K yl lh x \<inter> V \<subseteq> before"
        using R(2) exit_live_other [of _ K yl lh ?yl] by auto
      moreover have "after_an \<inter> V \<subseteq> before" "after \<inter> scope_after f V stmt \<subseteq> owned2 \<union> E" if ?r
      proof -
        have "?yl \<inter> V \<subseteq> before" using that R(2) [of OYield] R(2) [of "OBreak l"] al by auto
        then show "after_an \<inter> V \<subseteq> before" using tp(3) by simp
        then show "after \<inter> scope_after f V stmt \<subseteq> owned2 \<union> E" using live before sub owned2 tp(1) by blast
      qed
      ultimately show "\<exists>R r. step_ok m g T R r (ind owned) [s] (ind owned2) \<and> (\<forall>x\<in>R. exit_live K yl lh x \<inter> V \<subseteq> before)
          \<and> (r \<longrightarrow> after_an \<inter> V \<subseteq> before \<and> after \<inter> scope_after f V stmt \<subseteq> owned2 \<union> E)" by blast
    qed
  qed
  with out2 show ?thesis by blast
qed

text \<open>Consuming and then dropping what is not wanted, before a loop and before a terminator.\<close>

lemma consume_drop:
  assumes "rk_consume f owned vs (\<lambda>v. v \<in> keep) out = (f1, owned1, out1)" "rk_drop_except f1 owned1 keep out1 = (f2, owned2, out2)"
  obtains ss where "f2 = emit f ss" "owned2 = owned \<inter> keep" "out2 = out @ emit_ids f ss"
    "finite owned \<longrightarrow> rc_effect ss (ind owned) = Some (\<lambda>v. ind (owned \<inter> keep) v + int (count_list vs v))"
proof -
  let ?o = "owned - {v \<in> set vs. v \<notin> keep}"
  obtain ss1 where c: "rk_consume f owned vs (\<lambda>v. v \<in> keep) out = (emit f ss1, ?o, out @ emit_ids f ss1)"
    "rc_effect ss1 (ind owned) = Some (\<lambda>v. ind ?o v + int (count_list vs v))" by (rule consume_effect)
  have eq: "?o \<inter> keep = owned \<inter> keep" by auto
  show ?thesis
  proof (rule that [of "ss1 @ drops ?o keep"])
    show "f2 = emit f (ss1 @ drops ?o keep)" "owned2 = owned \<inter> keep" "out2 = out @ emit_ids f (ss1 @ drops ?o keep)"
      using assms c(1) eq by (auto simp: emit_append drop_except_emit)
    show "finite owned \<longrightarrow> rc_effect (ss1 @ drops ?o keep) (ind owned) = Some (\<lambda>v. ind (owned \<inter> keep) v + int (count_list vs v))"
      using c(2) drops_effect [of ?o "\<lambda>v. int (count_list vs v)" keep] eq by (simp add: rc_effect_append)
  qed
qed

lemma loop_run:
  assumes "rk_loop call f1 K s stmt vs inits b owned after out = Some ((f2, K2), owned2, out2)"
  obtains h ss where "rk_heads K s = Some h"
    "finite owned \<longrightarrow> rc_effect ss (ind owned) = Some (\<lambda>v. ind (owned \<inter> h) v + int (count_list (operand_vars f1 inits) v))"
    "call (emit f1 ss, K) b ((owned \<inter> h) \<union> counted_of f1 vs) (rk_target (owned \<inter> h) after (counted_dst f1 stmt)) (Some (owned \<inter> h))
       = Some (f2, K2)"
    "owned2 = rk_target (owned \<inter> h) after (counted_dst f1 stmt) \<union> set (opt_list (counted_dst f2 stmt))"
    "out2 = out @ emit_ids f1 ss @ [s]"
proof -
  from assms obtain h where h: "rk_heads K s = Some h" by (auto simp: rk_loop_def bind_eq_Some_conv)
  obtain f3 o3 out3 where c: "rk_consume f1 owned (operand_vars f1 inits) (\<lambda>v. v \<in> h) out = (f3, o3, out3)" by (metis prod_cases3)
  obtain f4 o4 out4 where d: "rk_drop_except f3 o3 h out3 = (f4, o4, out4)" by (metis prod_cases3)
  obtain ss where ss: "f4 = emit f1 ss" "o4 = owned \<inter> h" "out4 = out @ emit_ids f1 ss"
    "finite owned \<longrightarrow> rc_effect ss (ind owned) = Some (\<lambda>v. ind (owned \<inter> h) v + int (count_list (operand_vars f1 inits) v))"
    by (rule consume_drop [OF c d])
  have sig: "counted_dst (emit f1 ss) = counted_dst f1" "counted_of (emit f1 ss) = counted_of f1"
    by (rule same_sig_rules, simp add: same_sig_def emit_def)+
  from assms obtain f5 where call: "call (emit f1 ss, K) b ((owned \<inter> h) \<union> counted_of f1 vs)
      (rk_target (owned \<inter> h) after (counted_dst f1 stmt)) (Some (owned \<inter> h)) = Some (f5, K2)" "f2 = f5"
    "owned2 = rk_target (owned \<inter> h) after (counted_dst f1 stmt) \<union> set (opt_list (counted_dst f5 stmt))"
    "out2 = out @ emit_ids f1 ss @ [s]"
    unfolding rk_loop_def h bind.bind_lunit c d ss(1-3) Let_def prod.case counted_of_def [symmetric] sig
    by (auto simp: bind_eq_Some_conv)
  with that [OF h ss(4)] show ?thesis by simp
qed

lemma loop_done:
  assumes ok: "stmt_ok (call_bal call m f) f L V s stmt N" and stmt: "get_stmt f s = Some stmt"
    and SLoop: "stmt = SLoop d vs inits b" and ext: "extends (seqs_of N) f f1"
    and run: "rk_loop call f1 K s stmt vs inits b owned after out = Some ((f2, K2), owned2, out2)"
  shows "\<exists>es. out2 = out @ es \<and> stmt_done m f L V s stmt N lt f1 K owned after f2 K2 owned2 es"
proof -
  note sig = same_sig_rules [OF extends_sig [OF ext]]
  obtain h ss where h: "rk_heads K s = Some h"
    and eff: "finite owned \<longrightarrow> rc_effect ss (ind owned) = Some (\<lambda>v. ind (owned \<inter> h) v + int (count_list (operand_vars f inits) v))"
    and call: "call (emit f1 ss, K) b ((owned \<inter> h) \<union> counted_of f vs) (rk_target (owned \<inter> h) after (counted_dst f stmt)) (Some (owned \<inter> h))
       = Some (f2, K2)"
    and o2: "owned2 = rk_target (owned \<inter> h) after (counted_dst f stmt) \<union> set (opt_list (counted_dst f2 stmt))"
    and out2: "out2 = out @ emit_ids f1 ss @ [s]"
    by (rule loop_run [OF run, unfolded sig])
  define target where "target = rk_target (owned \<inter> h) after (counted_dst f stmt)"
  let ?head = "owned \<inter> h" and ?W = "V \<union> counted_of f vs"
  from ok obtain N' where N': "N = insert (NStmt s) (NLabel ` stmt_labels stmt \<union> N')"
    and ch: "children_ok (call_bal call m f) f (L \<union> stmt_labels stmt) V (scoped_children stmt) N'"
    and fits: "stmt_fits f V stmt" and dV: "counted_of f (opt_list (stmt_dst stmt)) \<inter> V = {}"
    and cV: "\<forall>c\<in>set (scoped_children stmt). counted_of f (fst c) \<inter> V = {}" by (rule stmt_okE)
  have body: "call_bal call m f L ?W b N'" and seqs: "seqs_of N = seqs_of N'" and vV: "counted_of f vs \<inter> V = {}" and dist: "distinct vs"
    using ch N' SLoop cV fits by (simp_all add: children_ok_Cons children_ok_def)
  have ext1: "extends (seqs_of N') f (emit f1 ss)"
    using fn_extends_trans [OF ext [unfolded seqs] grows_extends [OF emit_grows]] by simp
  note fr = call_bal_frame [OF body call ext1]
  have rw: "rewritten N K K2" using rewritten_mono [OF fr(2), of N] N' by auto
  have gr: "grows (seqs_of N) f1 f2" using grows_trans [OF grows_mono [OF emit_grows] fr(1)] seqs by simp
  have same2: "same_sig f f2" using extends_sig [OF ext] gr by (auto simp: grows_def extends_def intro: same_sig_trans)
  have owned2: "owned2 = rk_target (owned \<inter> h) after (counted_dst f stmt) \<union> counted_of f (opt_list (stmt_dst stmt))"
    using o2 unfolding same_sig_rules [OF same2] counted_dst_set .
  have "stmt_done m f L V s stmt N lt f1 K owned after f2 K2 owned2 (emit_ids f1 ss @ [s])"
  proof (rule stmt_doneI [OF gr rw])
    fix E T yt yl lh after_an before before_rw
    assume rec: "rec_stmt (recorded m K f) K s stmt after_an yl lh" and b: "rk_live_before m f K s after_an = Some before"
      and brw: "rk_live_before m f K s after = Some before_rw" and sub: "after \<subseteq> after_an" and ex: "exits_ok f E V L K T yt lt yl lh"
      and fin: "finite owned" and owned: "owned \<subseteq> V - E" and live: "before_rw \<inter> V \<subseteq> owned \<union> E" and asserts: "rk_asserts K2"
    have head: "?head \<subseteq> V - E" "finite ?head" using owned fin by auto
    note tp = target_props [OF target_def [symmetric] ex head(1) sub dV]
    let ?yl = "without_dst after_an stmt" and ?T = "T(OYield := ind target, ORecur := ind ?head)"
    have hb: "h = rk_live K b - set vs" and rec': "recorded m K f b ?yl (Some h)" using rec SLoop h by auto
    have before: "h \<subseteq> before" "h \<subseteq> before_rw" using b brw SLoop h by (auto simp: live_before_eq [OF stmt])
    have V: "V \<subseteq> Collect (counted f)" "E \<subseteq> V" using ex by (simp_all add: exits_ok_def)
    have vs: "v \<notin> set vs" if "v \<in> V" for v using that vV V(1) by (auto simp: counted_of_def)
    have "exits_ok f E V L K ?T target (Some ?head) ?yl (Some h)"
      using exits_ok_yield [OF ex tp(2)] head(1) unfolding exits_ok_def by auto
    then have ex': "exits_ok f E ?W L K ?T target (Some ?head) ?yl (Some h)"
      by (rule exits_ok_scope) (use V in \<open>auto simp: counted_of_def\<close>)
    have sb: "seq_balanced m f ?W N' K f2 ?T (?head \<union> counted_of f vs) ?yl (Some h) b"
    proof (rule call_balD [OF body call ext1 rec' ex' [unfolded target_def] _ _ _ asserts, folded target_def])
      show "finite (?head \<union> counted_of f vs)" using head(2) by (simp add: counted_of_def)
      show "?head \<union> counted_of f vs \<subseteq> ?W - E" using head(1) vV V(2) by blast
      show "rk_live K b \<inter> ?W \<subseteq> ?head \<union> counted_of f vs \<union> E" using live before(2) hb vs by blast
    qed
    show "stmt_balanced m N K f2 T E V (scope_after f V stmt) owned owned2 (emit_ids f1 ss @ [s]) yl lh before after_an after"
    proof (rule stmt_balancedI)
      show "finite owned2" using head(2) tp(1) owned2 target_def by (auto simp: counted_of_def)
      show "owned2 \<subseteq> scope_after f V stmt - E" using head(1) tp(1) owned2 target_def dV V(2) by auto
      fix g assume g: "extends (seqs_of N) f2 g"
      from sb g seqs obtain R where R: "bal_seq m g R ?T (ind (?head \<union> counted_of f vs)) b"
        "\<And>x. x \<in> R \<Longrightarrow> exit_live K ?yl (Some h) x \<inter> ?W \<subseteq> rk_live K b" unfolding seq_balanced_def by metis
      have e1: "extends {} (emit f1 ss) g" using grows_extends [OF fr(1), of "{}"] g by (blast intro: fn_extends_trans extends_mono)
      have fg: "extends {} f g" using fn_extends_trans [OF extends_mono [OF ext1, of "{}"] e1] by simp
      note gsig = same_sig_rules [OF extends_sig [OF fg]]
      let ?C = "\<lambda>v. ind ?head v + int (count_list (operand_vars f inits) v)"
      have st1: "step_ok m g T {} True (ind owned) (emit_ids f1 ss) ?C" by (rule emit_step [OF eff [rule_format, OF fin] e1])
      have st2: "step_ok m g T (R - {OYield, ORecur}) (OYield \<in> R) ?C [s] (ind owned2)"
        unfolding step_ok_def
      proof (intro allI impI)
        fix R' rest t assume sub: "R - {OYield, ORecur} \<subseteq> R'" and rest: "OYield \<in> R \<longrightarrow> bal_stmts m g R' T (ind owned2) rest t"
        have "bal_stmts m g R' T ?C (s # rest) t"
        proof (rule bal_loop [where T = T and Cy = "ind target", OF extends_stmt [OF fg stmt [unfolded SLoop]] _ _ R(1) sub])
          show "take_all (operand_vars g inits) ?C = Some (ind ?head)" unfolding gsig by (rule take_all_counts) (simp add: ind_def)
          show "own_all g vs (ind ?head) = Some (ind (?head \<union> counted_of f vs))"
            unfolding gsig by (rule own_all_ind [OF dist]) (use vV head(1) in blast)
          show "OYield \<in> R \<longrightarrow> (\<exists>C3. own_all g (opt_list d) (ind target) = Some C3 \<and> bal_stmts m g R' T C3 rest t)"
            using rest tp(4) owned2 target_def SLoop by (simp add: gsig)
        qed
        then show "bal_stmts m g R' T ?C ([s] @ rest) t" by simp
      qed
      have hsub: "exit_live K ?yl (Some h) x \<inter> V \<subseteq> h" if "x \<in> R" for x using R(2) [OF that] hb vs by blast
      have "exit_live K yl lh x = exit_live K ?yl (Some h) x" if "x \<notin> {OYield, ORecur}" for x using that by (cases x) simp_all
      then have "\<forall>x\<in>R - {OYield, ORecur}. exit_live K yl lh x \<inter> V \<subseteq> before"
        using order_trans [OF hsub before(1)] by simp
      moreover have "after_an \<inter> V \<subseteq> before" "after \<inter> scope_after f V stmt \<subseteq> owned2 \<union> E" if "OYield \<in> R"
      proof -
        have yh: "after_an \<inter> V \<subseteq> h" using hsub [OF that] tp(3) by simp
        then show "after_an \<inter> V \<subseteq> before" using before(1) by blast
        show "after \<inter> scope_after f V stmt \<subseteq> owned2 \<union> E"
          using yh live before(2) sub owned2 target_def tp(1) by blast
      qed
      ultimately show "\<exists>R r. step_ok m g T R r (ind owned) (emit_ids f1 ss @ [s]) (ind owned2)
          \<and> (\<forall>x\<in>R. exit_live K yl lh x \<inter> V \<subseteq> before)
          \<and> (r \<longrightarrow> after_an \<inter> V \<subseteq> before \<and> after \<inter> scope_after f V stmt \<subseteq> owned2 \<union> E)"
        using step_ok_True_append [OF st1 st2] by auto
    qed
  qed
  with out2 show ?thesis by blast
qed

end
