(* ===== verification/Lir_Rc_Adds.thy ===== *)
theory Lir_Rc_Adds
  imports Lir_Rc_Insert
begin

text \<open>
  What the pass may change (\<open>Counter::seq\<close> and \<open>Counter::stmt\<close> of \<open>crates/emela-lir/src/heap/rc.rs\<close>):
  it appends \<open>dup\<close> and \<open>drop\<close> to the statements of a function and puts them into its sequences, and leaves
  everything else. Without suspension edges no debug assertion can fail.
\<close>

fun is_rc :: "lir_stmt \<Rightarrow> bool" where
  "is_rc (SDup v) = True"
| "is_rc (SDrop v) = True"
| "is_rc _ = False"

fun has_edge :: "lir_stmt \<Rightarrow> bool" where
  "has_edge (SLet d val df (Some e)) = True"
| "has_edge _ = False"

definition no_edges :: "lir_fn \<Rightarrow> bool" where
  "no_edges f \<longleftrightarrow> list_all (\<lambda>stmt. \<not> has_edge stmt) (f_stmts f)"

text \<open>The statements of a sequence that were in \<open>f\<close> already.\<close>

definition old_of :: "lir_fn \<Rightarrow> stmt_id list \<Rightarrow> stmt_id list" where
  "old_of f ss = filter (\<lambda>s. s < length (f_stmts f)) ss"

definition adds_rc :: "lir_fn \<Rightarrow> lir_fn \<Rightarrow> bool" where
  "adds_rc f g \<longleftrightarrow>
     g\<lparr>f_stmts := f_stmts f, f_seqs := f_seqs f\<rparr> = f \<and> (\<exists>ext. f_stmts g = f_stmts f @ ext \<and> list_all is_rc ext)
     \<and> list_all2 (\<lambda>q q'. sq_term q' = sq_term q \<and> old_of f (sq_stmts q') = old_of f (sq_stmts q)) (f_seqs f) (f_seqs g)"

lemma old_of_simps [simp]: "old_of f [] = []" "old_of f (xs @ ys) = old_of f xs @ old_of f ys"
  "old_of f (x # xs) = (if x < length (f_stmts f) then x # old_of f xs else old_of f xs)"
  by (simp_all add: old_of_def)

lemma old_of_old: "length (f_stmts f) \<le> length (f_stmts g) \<Longrightarrow> old_of f (old_of g xs) = old_of f xs"
  by (auto simp: old_of_def intro: filter_cong)

lemma adds_refl [simp]: "adds_rc f f"
  by (simp add: adds_rc_def list_all2_refl)

lemma adds_len: "adds_rc f g \<Longrightarrow> length (f_stmts f) \<le> length (f_stmts g)"
  by (auto simp: adds_rc_def)

lemma adds_trans:
  assumes "adds_rc f g" "adds_rc g h"
  shows "adds_rc f h"
proof -
  have "f = h\<lparr>f_stmts := f_stmts f, f_seqs := f_seqs f\<rparr>"
  proof -
    have fg: "g\<lparr>f_stmts := f_stmts f, f_seqs := f_seqs f\<rparr> = f" and gh: "h\<lparr>f_stmts := f_stmts g, f_seqs := f_seqs g\<rparr> = g"
      using assms by (simp_all add: adds_rc_def)
    have "f = h\<lparr>f_stmts := f_stmts g, f_seqs := f_seqs g\<rparr>\<lparr>f_stmts := f_stmts f, f_seqs := f_seqs f\<rparr>" unfolding gh fg ..
    then show ?thesis by simp
  qed
  moreover have "\<exists>ext. f_stmts h = f_stmts f @ ext \<and> list_all is_rc ext"
  proof -
    from assms obtain e e' where "f_stmts g = f_stmts f @ e" "f_stmts h = f_stmts g @ e'" "list_all is_rc e" "list_all is_rc e'"
      by (auto simp: adds_rc_def)
    then show ?thesis by (intro exI [of _ "e @ e'"]) simp
  qed
  moreover have "list_all2 (\<lambda>q q'. sq_term q' = sq_term q \<and> old_of f (sq_stmts q') = old_of f (sq_stmts q)) (f_seqs f) (f_seqs h)"
  proof (rule list_all2_trans)
    show "list_all2 (\<lambda>q q'. sq_term q' = sq_term q \<and> old_of f (sq_stmts q') = old_of f (sq_stmts q)) (f_seqs f) (f_seqs g)"
      "list_all2 (\<lambda>q q'. sq_term q' = sq_term q \<and> old_of g (sq_stmts q') = old_of g (sq_stmts q)) (f_seqs g) (f_seqs h)"
      using assms by (simp_all add: adds_rc_def)
    fix p q r :: lir_seq
    assume "sq_term q = sq_term p \<and> old_of f (sq_stmts q) = old_of f (sq_stmts p)"
      "sq_term r = sq_term q \<and> old_of g (sq_stmts r) = old_of g (sq_stmts q)"
    then show "sq_term r = sq_term p \<and> old_of f (sq_stmts r) = old_of f (sq_stmts p)"
      using old_of_old [OF adds_len [OF assms(1)]] by metis
  qed
  ultimately show ?thesis by (simp add: adds_rc_def)
qed

lemma adds_emit: "list_all is_rc ss \<Longrightarrow> adds_rc f (emit f ss)"
  by (simp add: adds_rc_def emit_def list_all2_refl)

lemma adds_set_seq:
  assumes "adds_rc f g" "get_seq f i = Some q" "old_of f ss = old_of f (sq_stmts q)"
  shows "adds_rc f (set_seq_stmts g i ss)"
proof -
  let ?P = "\<lambda>q q'. sq_term q' = sq_term q \<and> old_of f (sq_stmts q') = old_of f (sq_stmts q)"
  have l: "list_all2 ?P (f_seqs f) (f_seqs g)" and i: "i < length (f_seqs f)" "q = f_seqs f ! i"
    using assms(1,2) by (auto simp: adds_rc_def get_seq_def split: if_splits)
  have "list_all2 ?P ((f_seqs f)[i := f_seqs f ! i]) ((f_seqs g)[i := (f_seqs g ! i)\<lparr>sq_stmts := ss\<rparr>])"
    by (rule list_all2_update_cong [OF l]) (use list_all2_nthD [OF l i(1)] assms(3) i(2) in simp)
  with assms(1) show ?thesis by (simp add: adds_rc_def set_seq_stmts_def)
qed

lemma adds_new: "adds_rc f g \<Longrightarrow> old_of f (emit_ids g ss) = []"
  using adds_len [of f g] by (auto simp: old_of_def emit_ids_def filter_empty_conv)

lemma adds_edges: "adds_rc f g \<Longrightarrow> no_edges f \<Longrightarrow> no_edges g"
proof -
  have "\<not> has_edge stmt" if "is_rc stmt" for stmt using that by (cases stmt) simp_all
  then show "adds_rc f g \<Longrightarrow> no_edges f \<Longrightarrow> no_edges g"
    by (auto simp: adds_rc_def no_edges_def list_all_iff)
qed

lemma rc_effect_rc: "rc_effect ss C = Some C' \<Longrightarrow> list_all is_rc ss"
proof (induction ss arbitrary: C)
  case (Cons x ss)
  then show ?case by (cases x) (auto simp del: fun_upd_apply split: if_splits)
qed simp

lemma drops_rc: "list_all is_rc (drops owned keep)"
  by (simp add: drops_def list_all_iff)

section \<open>The operations\<close>

lemma afters_length: "rk_afters_from m f K live ss = Some (afters, b) \<Longrightarrow> length afters = length ss"
  by (induction ss arbitrary: afters b) (auto simp: bind_eq_Some_conv)

definition call_adds :: "rk_call \<Rightarrow> bool" where
  "call_adds call \<longleftrightarrow>
     (\<forall>f K i owned yt lt f2 K2. call (f, K) i owned yt lt = Some (f2, K2) \<longrightarrow>
        adds_rc f f2 \<and> (no_edges f \<longrightarrow> rk_asserts K2 = rk_asserts K))"

lemma call_addsD:
  assumes "call_adds call" "call (f, K) i owned yt lt = Some (f2, K2)"
  shows "adds_rc f f2" "no_edges f \<Longrightarrow> rk_asserts K2 = rk_asserts K"
  using assms unfolding call_adds_def by blast+

lemma bodies_adds:
  assumes "call_adds call" "rk_bodies call (f, K) cs owned yt lt = Some (f2, K2)"
  shows "adds_rc f f2 \<and> (no_edges f \<longrightarrow> rk_asserts K2 = rk_asserts K)"
  using assms(2)
proof (induction cs arbitrary: f K)
  case (Cons c cs)
  obtain ds b where c: "c = (ds, b)" by fastforce
  with Cons.prems obtain f3 K3 where call: "call (f, K) b (owned \<union> set ds) yt lt = Some (f3, K3)"
    and rest: "rk_bodies call (f3, K3) cs owned yt lt = Some (f2, K2)" by (auto simp: bind_eq_Some_conv)
  from call_addsD [OF assms(1) call] Cons.IH [OF rest] show ?case by (auto intro: adds_trans adds_edges)
qed simp

text \<open>What the rewriting of a statement adds, with the statement itself in its place.\<close>

definition stmt_adds :: "lir_fn \<Rightarrow> rc_counter \<Rightarrow> stmt_id \<Rightarrow> lir_fn \<Rightarrow> rc_counter \<Rightarrow> stmt_id list \<Rightarrow> stmt_id list \<Rightarrow> bool" where
  "stmt_adds f K s f2 K2 out out2 \<longleftrightarrow>
     adds_rc f f2 \<and> (no_edges f \<longrightarrow> rk_asserts K2 = rk_asserts K)
     \<and> (\<forall>f0. adds_rc f0 f \<longrightarrow> old_of f0 out2 = old_of f0 (out @ [s]))"

lemma let_adds:
  assumes "call_adds call" "get_stmt f s = Some (SLet d val df su)"
    and "rk_let call m f K s (SLet d val df su) val su owned after lt out = Some ((f2, K2), owned2, out2)"
  shows "stmt_adds f K s f2 K2 out out2"
proof (rule let_run [OF assms(3)])
  fix ss owned1 f3 ss2
  let ?stmt = "SLet d val df su"
  let ?K = "if su \<noteq> None \<and> set (suspend_saved f ?stmt) \<noteq> owned1 then K\<lparr>rk_asserts := False\<rparr> else K"
  assume eff: "rc_effect ss (ind owned) = Some (\<lambda>v. ind owned1 v + int (count_list (consumed_by m f val) v))"
    and bodies: "rk_bodies call (emit f ss, ?K) (scoped_children ?stmt) owned1 {} lt = Some (f3, K2)"
    and f2: "f2 = emit f3 ss2" and out2: "out2 = out @ emit_ids f ss @ [s] @ emit_ids f3 ss2"
    and dst: "(ss2, owned2) = (case counted_dst f3 ?stmt of None \<Rightarrow> ([], owned1)
       | Some d \<Rightarrow> if \<not> is_view f3 val then ([], insert d owned1)
           else if d \<in> after then ([SDup d], insert d owned1) else ([], owned1))"
  have e1: "adds_rc f (emit f ss)" by (rule adds_emit [OF rc_effect_rc [OF eff]])
  note b = bodies_adds [OF assms(1) bodies]
  have f3: "adds_rc f f3" using e1 b by (blast intro: adds_trans)
  have "list_all is_rc ss2" using dst by (auto split: option.splits if_splits)
  then have "adds_rc f f2" using f3 f2 adds_emit by (blast intro: adds_trans)
  moreover have "rk_asserts K2 = rk_asserts K" if ne: "no_edges f"
  proof -
    have "?stmt \<in> set (f_stmts f)" using assms(2) by (force simp: get_stmt_def in_set_conv_nth split: if_splits)
    then have "su = None" using ne by (cases su) (auto simp: no_edges_def list_all_iff)
    with b adds_edges [OF e1 ne] show ?thesis by simp
  qed
  moreover have "old_of f0 out2 = old_of f0 (out @ [s])" if "adds_rc f0 f" for f0
    using out2 adds_new [OF that] adds_new [OF adds_trans [OF that f3]] by simp
  ultimately show ?thesis by (simp add: stmt_adds_def)
qed

lemma compound_adds:
  assumes "call_adds call" "rk_compound call f K s stmt entry target lt out = Some ((f2, K2), owned2, out2)"
  shows "stmt_adds f K s f2 K2 out out2"
proof -
  from assms(2) have "rk_bodies call (f, K) (scoped_children stmt) entry target lt = Some (f2, K2)" "out2 = out @ [s]"
    by (auto simp: rk_compound_def bind_eq_Some_conv)
  with bodies_adds [OF assms(1)] show ?thesis by (auto simp: stmt_adds_def)
qed

lemma loop_adds:
  assumes "call_adds call" "rk_loop call f K s stmt vs inits b owned after out = Some ((f2, K2), owned2, out2)"
  shows "stmt_adds f K s f2 K2 out out2"
proof -
  from assms(2) obtain h where h: "rk_heads K s = Some h" by (auto simp: rk_loop_def bind_eq_Some_conv)
  let ?o = "owned - {v \<in> set (operand_vars f inits). v \<notin> h}"
  obtain ss where ss: "rk_consume f owned (operand_vars f inits) (\<lambda>v. v \<in> h) out = (emit f ss, ?o, out @ emit_ids f ss)"
    "rc_effect ss (ind owned) = Some (\<lambda>v. ind ?o v + int (count_list (operand_vars f inits) v))" by (rule consume_effect)
  let ?f = "emit (emit f ss) (drops ?o h)"
  from assms(2) obtain e t lt where call: "call (?f, K) b e t lt = Some (f2, K2)"
    and out2: "out2 = out @ emit_ids f ss @ emit_ids (emit f ss) (drops ?o h) @ [s]"
    unfolding rk_loop_def h bind.bind_lunit ss(1) Let_def prod.case drop_except_emit by (auto simp: bind_eq_Some_conv)
  have e1: "adds_rc f (emit f ss)" by (rule adds_emit [OF rc_effect_rc [OF ss(2)]])
  have e2: "adds_rc f ?f" using adds_trans [OF e1 adds_emit [OF drops_rc]] .
  note c = call_addsD [OF assms(1) call]
  have "old_of f0 out2 = old_of f0 (out @ [s])" if "adds_rc f0 f" for f0
    using out2 adds_new [OF that] adds_new [OF adds_trans [OF that e1]] by simp
  then show ?thesis using adds_trans [OF e2 c(1)] c(2) adds_edges [OF e2] by (simp add: stmt_adds_def)
qed

lemma stmt_adds_drop:
  "stmt_adds f K s f3 K2 out out3 \<Longrightarrow> stmt_adds f K s (emit f3 (drops owned after)) K2 out (out3 @ emit_ids f3 (drops owned after))"
  unfolding stmt_adds_def by (auto simp: adds_new intro: adds_trans adds_emit drops_rc dest: adds_trans)

lemma stmt_adds_run:
  assumes "call_adds call" "rk_stmt call m f K s owned after lt out = Some ((f2, K2), owned2, out2)"
  shows "stmt_adds f K s f2 K2 out out2"
proof -
  from assms(2) obtain stmt where stmt: "get_stmt f s = Some stmt" by (auto simp: rk_stmt_def bind_eq_Some_conv)
  have "\<exists>f3 owned3 out3. rk_drop_except f3 owned3 after out3 = (f2, owned2, out2) \<and> stmt_adds f K s f3 K2 out out3"
  proof (cases stmt)
    case (SLet d val df su)
    with assms(2) stmt let_adds [OF assms(1)] show ?thesis
      by (fastforce simp: rk_stmt_def Let_def bind_eq_Some_conv drop_except_emit)
  next
    case (SIf d c a b)
    with assms(2) stmt compound_adds [OF assms(1)] show ?thesis
      by (fastforce simp: rk_stmt_def Let_def bind_eq_Some_conv drop_except_emit)
  next
    case (SSwitch d on cs df)
    with assms(2) stmt compound_adds [OF assms(1)] show ?thesis
      by (fastforce simp: rk_stmt_def Let_def bind_eq_Some_conv drop_except_emit)
  next
    case (SLoop d vs inits b)
    with assms(2) stmt loop_adds [OF assms(1)] show ?thesis
      by (fastforce simp: rk_stmt_def Let_def bind_eq_Some_conv drop_except_emit)
  next
    case (SBlock d l b)
    with assms(2) stmt obtain f3 owned3 out3 t where
      r: "rk_compound call f (K\<lparr>rk_label_target := t\<rparr>) s stmt owned (rk_target owned after (counted_dst f stmt)) lt out = Some ((f3, K2), owned3, out3)"
      "rk_drop_except f3 owned3 after out3 = (f2, owned2, out2)"
      by (auto simp: rk_stmt_def Let_def bind_eq_Some_conv drop_except_emit)
    have "stmt_adds f K s f3 K2 out out3" using compound_adds [OF assms(1) r(1)] by (simp add: stmt_adds_def)
    with r(2) show ?thesis by blast
  next
    case (SDup v)
    then have "rk_drop_except f owned after (out @ [s]) = (f2, owned2, out2)" "K2 = K"
      using assms(2) stmt by (auto simp: rk_stmt_def drop_except_emit)
    then show ?thesis by (intro exI) (auto simp: stmt_adds_def)
  next
    case (SDrop v)
    then have "rk_drop_except f owned after (out @ [s]) = (f2, owned2, out2)" "K2 = K"
      using assms(2) stmt by (auto simp: rk_stmt_def drop_except_emit)
    then show ?thesis by (intro exI) (auto simp: stmt_adds_def)
  qed (use assms(2) stmt in \<open>simp_all add: rk_stmt_def\<close>)
  then show ?thesis using stmt_adds_drop by (fastforce simp: drop_except_emit)
qed

lemma stmts_adds:
  assumes "call_adds call" "rk_stmts call m (f, K) sas owned lt out = Some ((f2, K2), owned2, out2)"
  shows "adds_rc f f2 \<and> (no_edges f \<longrightarrow> rk_asserts K2 = rk_asserts K)
    \<and> (\<forall>f0. adds_rc f0 f \<longrightarrow> old_of f0 out2 = old_of f0 (out @ map fst sas))"
  using assms(2)
proof (induction sas arbitrary: f K owned out)
  case (Cons sa sas)
  obtain s a where sa: "sa = (s, a)" by fastforce
  with Cons.prems obtain f3 K3 owned3 out3 where
    run: "rk_stmt call m f K s owned a lt out = Some ((f3, K3), owned3, out3)"
    and rest: "rk_stmts call m (f3, K3) sas owned3 lt out3 = Some ((f2, K2), owned2, out2)"
    by (auto simp: bind_eq_Some_conv)
  have a: "adds_rc f f3" "no_edges f \<Longrightarrow> rk_asserts K3 = rk_asserts K"
    "\<And>f0. adds_rc f0 f \<Longrightarrow> old_of f0 out3 = old_of f0 (out @ [s])"
    using stmt_adds_run [OF assms(1) run] by (simp_all add: stmt_adds_def)
  have b: "adds_rc f3 f2" "no_edges f3 \<Longrightarrow> rk_asserts K2 = rk_asserts K3"
    "\<And>f0. adds_rc f0 f3 \<Longrightarrow> old_of f0 out2 = old_of f0 (out3 @ map fst sas)" using Cons.IH [OF rest] by blast+
  have "old_of f0 out2 = old_of f0 (out @ map fst (sa # sas))" if "adds_rc f0 f" for f0
    using a(3) [OF that] b(3) [OF adds_trans [OF that a(1)]] sa by simp
  with adds_trans [OF a(1) b(1)] a(2) b(2) adds_edges [OF a(1)] show ?case by simp
qed simp

lemma term_adds:
  assumes "rk_term f t owned target out = (f', out')"
  shows "\<exists>ts. f' = emit f ts \<and> out' = out @ emit_ids f ts \<and> list_all is_rc ts"
proof (cases target)
  case None
  with assms show ?thesis by (intro exI [of _ "[]"]) (simp add: rk_term_def)
next
  case (Some X)
  let ?o = "owned - {v \<in> set (term_consumes f t). v \<notin> X}"
  obtain ss where ss: "rk_consume f owned (term_consumes f t) (\<lambda>v. v \<in> X) out = (emit f ss, ?o, out @ emit_ids f ss)"
    "rc_effect ss (ind owned) = Some (\<lambda>v. ind ?o v + int (count_list (term_consumes f t) v))" by (rule consume_effect)
  with assms Some show ?thesis
    by (intro exI [of _ "ss @ drops ?o X"]) (auto simp: rk_term_def drop_except_emit emit_append drops_rc rc_effect_rc)
qed

lemma seq_split:
  assumes "rk_seq n m (f1, K) i owned yt lt = Some (f2, K2)" "get_seq f1 i = Some q"
  obtains k afters b f3 owned3 out3 target f4 out4 where "n = Suc k"
    "rk_afters_from m (emit f1 (drops owned (rk_live K i))) K
       (rk_term_live (emit f1 (drops owned (rk_live K i))) K (sq_term q) yt lt) (sq_stmts q) = Some (afters, b)"
    "rk_stmts (rk_seq k m) m (emit f1 (drops owned (rk_live K i)), K) (zip (sq_stmts q) afters) (owned \<inter> rk_live K i) lt
       (emit_ids f1 (drops owned (rk_live K i))) = Some ((f3, K2), owned3, out3)"
    "rk_term_target K2 (sq_term q) yt lt = Some target" "rk_term f3 (sq_term q) owned3 target out3 = (f4, out4)"
    "f2 = set_seq_stmts f4 i out4"
proof -
  obtain k where k: "n = Suc k" using assms(1) by (cases n) simp_all
  from assms k obtain afters b f3 owned3 out3 target where *: "n = Suc k"
    "rk_afters_from m (emit f1 (drops owned (rk_live K i))) K
       (rk_term_live (emit f1 (drops owned (rk_live K i))) K (sq_term q) yt lt) (sq_stmts q) = Some (afters, b)"
    "rk_stmts (rk_seq k m) m (emit f1 (drops owned (rk_live K i)), K) (zip (sq_stmts q) afters) (owned \<inter> rk_live K i) lt
       (emit_ids f1 (drops owned (rk_live K i))) = Some ((f3, K2), owned3, out3)"
    "rk_term_target K2 (sq_term q) yt lt = Some target"
    "(case rk_term f3 (sq_term q) owned3 target out3 of (f, out) \<Rightarrow> set_seq_stmts f i out) = f2"
    by (auto simp: bind_eq_Some_conv drop_except_emit rk_afters_def case_prod_beta)
  from *(5) that [OF *(1-4)] show ?thesis by (cases "rk_term f3 (sq_term q) owned3 target out3") simp
qed

lemma seq_adds: "call_adds (rk_seq n m)"
proof (induction n)
  case 0
  then show ?case by (simp add: call_adds_def)
next
  case (Suc n)
  show ?case unfolding call_adds_def
  proof (intro allI impI)
    fix f K i owned yt lt f2 K2
    assume run: "rk_seq (Suc n) m (f, K) i owned yt lt = Some (f2, K2)"
    then obtain q where q: "get_seq f i = Some q" by (auto simp: bind_eq_Some_conv)
    obtain k afters b f3 owned3 out3 target f4 out4 where k: "Suc n = Suc k"
      and af: "rk_afters_from m (emit f (drops owned (rk_live K i))) K
        (rk_term_live (emit f (drops owned (rk_live K i))) K (sq_term q) yt lt) (sq_stmts q) = Some (afters, b)"
      and st: "rk_stmts (rk_seq k m) m (emit f (drops owned (rk_live K i)), K) (zip (sq_stmts q) afters) (owned \<inter> rk_live K i) lt
        (emit_ids f (drops owned (rk_live K i))) = Some ((f3, K2), owned3, out3)"
      and tm: "rk_term f3 (sq_term q) owned3 target out3 = (f4, out4)" and f2: "f2 = set_seq_stmts f4 i out4"
      by (rule seq_split [OF run q])
    let ?f = "emit f (drops owned (rk_live K i))"
    have e: "adds_rc f ?f" by (rule adds_emit [OF drops_rc])
    have sa: "adds_rc ?f f3" "no_edges ?f \<Longrightarrow> rk_asserts K2 = rk_asserts K"
      "\<And>f0. adds_rc f0 ?f \<Longrightarrow> old_of f0 out3 = old_of f0 (emit_ids f (drops owned (rk_live K i)) @ map fst (zip (sq_stmts q) afters))"
      using stmts_adds [OF _ st] Suc k by auto
    from term_adds [OF tm] obtain ts where ts: "f4 = emit f3 ts" "out4 = out3 @ emit_ids f3 ts" "list_all is_rc ts" by blast
    have f3: "adds_rc f f3" by (rule adds_trans [OF e sa(1)])
    have len: "length afters = length (sq_stmts q)" by (rule afters_length [OF af])
    have "old_of f out4 = old_of f (sq_stmts q)"
      using sa(3) [OF e] ts(2) adds_new [OF f3] adds_new [OF adds_refl] len by simp
    from adds_set_seq [OF adds_trans [OF f3 adds_emit [OF ts(3)]] q this]
    show "adds_rc f f2 \<and> (no_edges f \<longrightarrow> rk_asserts K2 = rk_asserts K)"
      using f2 ts(1) sa(2) adds_edges [OF e] by simp
  qed
qed

end
