(* ===== verification/Lir_Rc_Run.thy ===== *)
theory Lir_Rc_Run
  imports Lir_Rc_Adds
begin

text \<open>
  The pass on a whole function (\<open>Counter::seq\<close> and \<open>Counter::run\<close> of
  \<open>crates/emela-lir/src/heap/rc.rs\<close>): the statements of a sequence one after the other, its terminator,
  and the function, whose result is balanced on every path.
\<close>

section \<open>A statement and its successors\<close>

text \<open>What is owned after a statement but not live there is dropped.\<close>

lemma stmt_done_drop:
  assumes "stmt_done m f L V s stmt N lt f1 K owned after f3 K2 owned3 es"
  shows "stmt_done m f L V s stmt N lt f1 K owned after (emit f3 (drops owned3 after)) K2 (owned3 \<inter> after)
    (es @ emit_ids f3 (drops owned3 after))"
proof (rule stmt_doneI)
  let ?f = "emit f3 (drops owned3 after)"
  show "grows (seqs_of N) f1 ?f" "rewritten N K K2"
    using assms grows_mono [OF emit_grows [of f3 "drops owned3 after"]] by (auto simp: stmt_done_def intro: grows_trans)
  fix E T yt yl lh after_an before before_rw
  assume "rec_stmt (recorded m K f) K s stmt after_an yl lh" "rk_live_before m f K s after_an = Some before"
    "rk_live_before m f K s after = Some before_rw" "after \<subseteq> after_an" "exits_ok f E V L K T yt lt yl lh" "finite owned"
    "owned \<subseteq> V - E" "before_rw \<inter> V \<subseteq> owned \<union> E" "rk_asserts K2"
  then have b: "stmt_balanced m N K f3 T E V (scope_after f V stmt) owned owned3 es yl lh before after_an after"
    using assms unfolding stmt_done_def by blast
  show "stmt_balanced m N K ?f T E V (scope_after f V stmt) owned (owned3 \<inter> after) (es @ emit_ids f3 (drops owned3 after))
      yl lh before after_an after"
  proof (rule stmt_balancedI)
    show "finite (owned3 \<inter> after)" "owned3 \<inter> after \<subseteq> scope_after f V stmt - E" using b by (auto simp: stmt_balanced_def)
    fix g assume g: "extends (seqs_of N) ?f g"
    then have "extends (seqs_of N) f3 g"
      using grows_extends [OF emit_grows, of "seqs_of N" f3 "drops owned3 after"] by (auto intro: fn_extends_trans)
    with b obtain R r where R: "step_ok m g T R r (ind owned) es (ind owned3)"
      "\<forall>x\<in>R. exit_live K yl lh x \<inter> V \<subseteq> before" "r \<longrightarrow> after_an \<inter> V \<subseteq> before \<and> after \<inter> scope_after f V stmt \<subseteq> owned3 \<union> E"
      unfolding stmt_balanced_def by blast
    have "rc_effect (drops owned3 after) (ind owned3) = Some (ind (owned3 \<inter> after))"
      using drops_effect [of owned3 "\<lambda>v. 0" after] b by (simp add: stmt_balanced_def)
    from step_ok_append [OF R(1) emit_step [OF this g]]
    have "step_ok m g T R r (ind owned) (es @ emit_ids f3 (drops owned3 after)) (ind (owned3 \<inter> after))" by simp
    with R(2,3) show "\<exists>R r. step_ok m g T R r (ind owned) (es @ emit_ids f3 (drops owned3 after)) (ind (owned3 \<inter> after))
        \<and> (\<forall>x\<in>R. exit_live K yl lh x \<inter> V \<subseteq> before)
        \<and> (r \<longrightarrow> after_an \<inter> V \<subseteq> before \<and> after \<inter> scope_after f V stmt \<subseteq> owned3 \<inter> after \<union> E)" by blast
  qed
qed

lemma stmt_run:
  assumes ok: "stmt_ok (call_bal call m f) f L V s stmt N" and stmt: "get_stmt f s = Some stmt"
    and ext: "extends (seqs_of N) f f1"
    and run: "rk_stmt call m f1 K s owned after lt out = Some ((f2, K2), owned2, out2)"
  shows "\<exists>es. out2 = out @ es \<and> stmt_done m f L V s stmt N lt f1 K owned after f2 K2 owned2 es"
proof -
  have fits: "stmt_fits f V stmt" using ok by (rule stmt_okE)
  have stmt1: "get_stmt f1 s = Some stmt" by (rule extends_stmt [OF ext stmt])
  let ?t = "rk_target owned after (counted_dst f1 stmt)"
  have "\<exists>f3 owned3 out3 es. rk_drop_except f3 owned3 after out3 = (f2, owned2, out2) \<and> out3 = out @ es
      \<and> stmt_done m f L V s stmt N lt f1 K owned after f3 K2 owned3 es"
  proof (cases stmt)
    case (SLet d val df su)
    from run stmt1 SLet obtain f3 owned3 out3 where
      r: "rk_let call m f1 K s stmt val su owned after lt out = Some ((f3, K2), owned3, out3)"
      "rk_drop_except f3 owned3 after out3 = (f2, owned2, out2)"
      by (auto simp: rk_stmt_def Let_def bind_eq_Some_conv drop_except_emit)
    from let_done [OF ok stmt SLet ext r(1)] r(2) show ?thesis by blast
  next
    case (SIf d c a b)
    from run stmt1 SIf obtain f3 owned3 out3 where
      r: "rk_compound call f1 K s stmt owned ?t lt out = Some ((f3, K2), owned3, out3)"
      "rk_drop_except f3 owned3 after out3 = (f2, owned2, out2)"
      by (auto simp: rk_stmt_def Let_def bind_eq_Some_conv drop_except_emit)
    have "branches stmt = Some (operand_var c, d, [a, b])" by (simp add: SIf)
    from branch_done [OF ok stmt this ext r(1)] r(2) show ?thesis by blast
  next
    case (SSwitch d on cs df)
    from run stmt1 SSwitch obtain f3 owned3 out3 where
      r: "rk_compound call f1 K s stmt owned ?t lt out = Some ((f3, K2), owned3, out3)"
      "rk_drop_except f3 owned3 after out3 = (f2, owned2, out2)"
      by (auto simp: rk_stmt_def Let_def bind_eq_Some_conv drop_except_emit)
    obtain vs d' bs where "branches stmt = Some (vs, d', bs)" by (simp add: SSwitch)
    from branch_done [OF ok stmt this ext r(1)] r(2) show ?thesis by blast
  next
    case (SBlock d l b)
    from run stmt1 SBlock obtain f3 owned3 out3 where
      r: "rk_compound call f1 (K\<lparr>rk_label_target := (rk_label_target K)(l \<mapsto> ?t)\<rparr>) s stmt owned ?t lt out = Some ((f3, K2), owned3, out3)"
      "rk_drop_except f3 owned3 after out3 = (f2, owned2, out2)"
      by (auto simp: rk_stmt_def Let_def bind_eq_Some_conv drop_except_emit)
    from block_done [OF ok stmt SBlock ext r(1)] r(2) show ?thesis by blast
  next
    case (SLoop d vs inits b)
    from run stmt1 SLoop obtain f3 owned3 out3 where
      r: "rk_loop call f1 K s stmt vs inits b owned after out = Some ((f3, K2), owned3, out3)"
      "rk_drop_except f3 owned3 after out3 = (f2, owned2, out2)"
      by (auto simp: rk_stmt_def Let_def bind_eq_Some_conv drop_except_emit)
    from loop_done [OF ok stmt SLoop ext r(1), of lt] r(2) show ?thesis by blast
  qed (use fits in simp_all)
  then show ?thesis using stmt_done_drop by (fastforce simp: drop_except_emit)
qed

section \<open>A sequence\<close>

text \<open>As \<open>stmt_balanced\<close>, for several statements; what is owned at their end matters only if it is reached.\<close>

definition stmts_balanced ::
  "lir_module \<Rightarrow> node set \<Rightarrow> rc_counter \<Rightarrow> lir_fn \<Rightarrow> (outcome \<Rightarrow> counts) \<Rightarrow> var_id set \<Rightarrow> var_id set \<Rightarrow> var_id set \<Rightarrow> var_id set \<Rightarrow> var_id set
     \<Rightarrow> stmt_id list \<Rightarrow> var_id set \<Rightarrow> var_id set option \<Rightarrow> var_id set \<Rightarrow> var_id set \<Rightarrow> var_id set \<Rightarrow> bool" where
  "stmts_balanced m N K f2 T E V V' owned owned' es yl lh before after_an after \<longleftrightarrow>
     (\<forall>g. extends (seqs_of N) f2 g \<longrightarrow>
        (\<exists>R r. step_ok m g T R r (ind owned) es (ind owned')
           \<and> (\<forall>x\<in>R. exit_live K yl lh x \<inter> V \<subseteq> before)
           \<and> (r \<longrightarrow> after_an \<inter> V \<subseteq> before \<and> after \<inter> V' \<subseteq> owned' \<union> E \<and> finite owned' \<and> owned' \<subseteq> V' - E)))"

lemma stmts_balanced_Cons:
  assumes st: "stmt_balanced m A K f3 T E V V1 owned owned1 es yl lh b0 a1_an a1" and V1: "V \<subseteq> V1"
    and gr: "grows (seqs_of B) f3 f2" and disj: "A \<inter> B = {}"
    and rest: "a1 \<inter> V1 \<subseteq> owned1 \<union> E \<Longrightarrow> stmts_balanced m B K f2 T E V1 V2 owned1 owned2 es' yl lh a1_an a2_an a2"
  shows "stmts_balanced m (A \<union> B) K f2 T E V V2 owned owned2 (es @ es') yl lh b0 a2_an a2"
  unfolding stmts_balanced_def
proof (intro allI impI)
  fix g assume g: "extends (seqs_of (A \<union> B)) f2 g"
  then have gB: "extends (seqs_of B) f2 g" and gA: "extends (seqs_of A) f3 g"
    using grows_extends [OF gr seqs_of_disjoint [OF disj]] by (auto intro: fn_extends_trans extends_mono)
  from st gA obtain R r where R: "step_ok m g T R r (ind owned) es (ind owned1)" "\<forall>x\<in>R. exit_live K yl lh x \<inter> V \<subseteq> b0"
    "r \<longrightarrow> a1_an \<inter> V \<subseteq> b0 \<and> a1 \<inter> V1 \<subseteq> owned1 \<union> E" unfolding stmt_balanced_def by blast
  show "\<exists>R r. step_ok m g T R r (ind owned) (es @ es') (ind owned2) \<and> (\<forall>x\<in>R. exit_live K yl lh x \<inter> V \<subseteq> b0)
      \<and> (r \<longrightarrow> a2_an \<inter> V \<subseteq> b0 \<and> a2 \<inter> V2 \<subseteq> owned2 \<union> E \<and> finite owned2 \<and> owned2 \<subseteq> V2 - E)"
  proof (cases r)
    case True
    with R(3) rest gB obtain R' r' where R': "step_ok m g T R' r' (ind owned1) es' (ind owned2)"
      "\<forall>x\<in>R'. exit_live K yl lh x \<inter> V1 \<subseteq> a1_an"
      "r' \<longrightarrow> a2_an \<inter> V1 \<subseteq> a1_an \<and> a2 \<inter> V2 \<subseteq> owned2 \<union> E \<and> finite owned2 \<and> owned2 \<subseteq> V2 - E"
      unfolding stmts_balanced_def by blast
    have "step_ok m g T (R \<union> R') r' (ind owned) (es @ es') (ind owned2)"
      using step_ok_append [OF R(1) R'(1)] True by simp
    moreover have "\<forall>x\<in>R \<union> R'. exit_live K yl lh x \<inter> V \<subseteq> b0" using R(2,3) R'(2) True V1 by blast
    moreover have "r' \<longrightarrow> a2_an \<inter> V \<subseteq> b0 \<and> a2 \<inter> V2 \<subseteq> owned2 \<union> E \<and> finite owned2 \<and> owned2 \<subseteq> V2 - E"
      using R(3) R'(3) True V1 by blast
    ultimately show ?thesis by blast
  next
    case False
    then have "step_ok m g T R False (ind owned) (es @ es') (ind owned2)" using R(1) by (simp add: step_ok_def)
    with R(2) show ?thesis by blast
  qed
qed

lemma live_before_mono:
  assumes "rk_live_before m f K s after = Some b" "rk_live_before m f K s after' = Some b'" "after \<subseteq> after'"
  shows "b \<subseteq> b'"
proof (cases "get_stmt f s")
  case (Some stmt)
  show ?thesis using assms by (cases stmt) (auto simp: live_before_eq [OF Some] bind_eq_Some_conv)
qed (use assms in \<open>simp add: rk_live_before_def\<close>)

lemma afters_mono:
  assumes "rk_afters_from m f K live ss = Some (afters, b)" "rec_stmts R m K f ss live' yl lh b'" "live \<subseteq> live'"
  shows "b \<subseteq> b'"
  using assms
proof (induction ss arbitrary: afters b b')
  case (Cons s ss)
  from Cons.prems(1) obtain a as where a: "rk_afters_from m f K live ss = Some (as, a)" "rk_live_before m f K s a = Some b"
    by (auto simp: bind_eq_Some_conv)
  from Cons.prems(2) obtain a' where a': "rec_stmts R m K f ss live' yl lh a'" "rk_live_before m f K s a' = Some b'" by auto
  from live_before_mono [OF a(2) a'(2) Cons.IH [OF a(1) a'(1) assms(3)]] show ?case .
qed simp

lemma afters_same:
  assumes "stmts_ok S f L V ss t N" "extends Q f f1"
  shows "rk_afters_from m f1 K live ss = rk_afters_from m f K live ss"
  using assms(1)
proof (induction ss arbitrary: V N)
  case (Cons s ss)
  from Cons.prems obtain stmt A B where ok: "get_stmt f s = Some stmt"
    "stmts_ok S f L (V \<union> counted_of f (opt_list (stmt_dst stmt))) ss t B" by auto
  have "rk_live_before m f1 K s = rk_live_before m f K s"
    unfolding fun_eq_iff live_before_eq [OF ok(1)] live_before_eq [OF extends_stmt [OF assms(2) ok(1)]]
      same_sig_rules [OF extends_sig [OF assms(2)]] by blast
  with Cons.IH [OF ok(2)] show ?case by simp
qed simp

lemma afters_rewritten:
  assumes "rewritten N K K'"
  shows "rk_afters_from m f K' live ss = rk_afters_from m f K live ss"
  by (induction ss) (simp_all add: rewritten_live_before [OF assms])

lemma stmts_balanced_rewritten:
  "rewritten N' K K' \<Longrightarrow> stmts_balanced m N K' f2 T E V V' owned owned' es yl lh b a_an a \<longleftrightarrow>
   stmts_balanced m N K f2 T E V V' owned owned' es yl lh b a_an a"
  by (simp add: stmts_balanced_def exit_live_rewritten)

text \<open>The statements of a sequence.\<close>

lemma stmts_run:
  assumes "stmts_ok (call_bal call m f) f L V ss t N" "extends (seqs_of N) f f1"
    and "rk_afters_from m f K live ss = Some (afters, b)"
    and "rk_stmts call m (f1, K) (zip ss afters) owned lt out = Some ((f2, K2), owned2, out2)" "NLabel ` L \<inter> N = {}"
  shows "\<exists>es V'. out2 = out @ es \<and> grows (seqs_of N) f1 f2 \<and> rewritten N K K2 \<and> V \<subseteq> V'
     \<and> (\<forall>E T yt yl lh live_an b_an. rec_stmts (recorded m K f) m K f ss live_an yl lh b_an \<longrightarrow> live \<subseteq> live_an \<longrightarrow>
          exits_ok f E V L K T yt lt yl lh \<longrightarrow> finite owned \<longrightarrow> owned \<subseteq> V - E \<longrightarrow> b \<inter> V \<subseteq> owned \<union> E \<longrightarrow> rk_asserts K2 \<longrightarrow>
          stmts_balanced m N K f2 T E V V' owned owned2 es yl lh b_an live_an live)"
  using assms
proof (induction ss arbitrary: V N f1 K afters b owned out)
  case Nil
  then show ?case
    by (intro exI [of _ "[]"] exI [of _ V]) (auto simp: stmts_balanced_def intro!: exI [of _ "{}"] exI [of _ True])
next
  case (Cons s ss)
  from Cons.prems(1) obtain stmt A B where stmt: "get_stmt f s = Some stmt" and ok: "stmt_ok (call_bal call m f) f L V s stmt A"
    "stmts_ok (call_bal call m f) f L (scope_after f V stmt) ss t B" and AB: "A \<inter> B = {}" "N = A \<union> B" by auto
  from Cons.prems(3) obtain a afters' where af: "rk_afters_from m f K live ss = Some (afters', a)"
    "rk_live_before m f K s a = Some b" "afters = a # afters'" by (auto simp: bind_eq_Some_conv)
  from Cons.prems(4) af(3) obtain f3 K3 owned3 out3 where
    run: "rk_stmt call m f1 K s owned a lt out = Some ((f3, K3), owned3, out3)"
    and rest: "rk_stmts call m (f3, K3) (zip ss afters') owned3 lt out3 = Some ((f2, K2), owned2, out2)"
    by (auto simp: bind_eq_Some_conv)
  have extA: "extends (seqs_of A) f f1" using Cons.prems(2) AB(2) by (auto intro: extends_mono)
  from stmt_run [OF ok(1) stmt extA run] obtain es where es: "out3 = out @ es"
    and dn: "stmt_done m f L V s stmt A lt f1 K owned a f3 K3 owned3 es" by blast
  have fr: "grows (seqs_of A) f1 f3" "rewritten A K K3" using dn by (simp_all add: stmt_done_def)
  have "seqs_of B \<inter> seqs_of A = {}" using seqs_of_disjoint [OF AB(1)] by blast
  then have extB: "extends (seqs_of B) f f3"
    using Cons.prems(2) AB(2) grows_extends [OF fr(1)] by (auto intro: fn_extends_trans extends_mono)
  have labA: "NLabel ` L \<inter> A = {}" and labB: "NLabel ` L \<inter> B = {}" using Cons.prems(5) AB(2) by auto
  have af3: "rk_afters_from m f K3 live ss = Some (afters', a)" using af(1) afters_rewritten [OF fr(2)] by simp
  from Cons.IH [OF ok(2) extB af3 rest labB] obtain es' V' where es': "out2 = out3 @ es'" "grows (seqs_of B) f3 f2"
    "rewritten B K3 K2" "scope_after f V stmt \<subseteq> V'"
    and IH: "\<And>E T yt yl lh live_an b_an. rec_stmts (recorded m K3 f) m K3 f ss live_an yl lh b_an \<Longrightarrow> live \<subseteq> live_an \<Longrightarrow>
      exits_ok f E (scope_after f V stmt) L K3 T yt lt yl lh \<Longrightarrow> finite owned3 \<Longrightarrow> owned3 \<subseteq> scope_after f V stmt - E \<Longrightarrow>
      a \<inter> scope_after f V stmt \<subseteq> owned3 \<union> E \<Longrightarrow> rk_asserts K2 \<Longrightarrow>
      stmts_balanced m B K3 f2 T E (scope_after f V stmt) V' owned3 owned2 es' yl lh b_an live_an live" by blast
  have gr: "grows (seqs_of N) f1 f2"
    using grows_mono [OF fr(1), of "seqs_of N"] grows_mono [OF es'(2), of "seqs_of N"] AB(2) by (auto intro: grows_trans)
  have rw: "rewritten N K K2"
    using rewritten_mono [OF fr(2), of N] rewritten_mono [OF es'(3), of N] AB(2) by (auto intro: rewritten_trans)
  have "stmts_balanced m N K f2 T E V V' owned owned2 (es @ es') yl lh b_an live_an live"
    if rec: "rec_stmts (recorded m K f) m K f (s # ss) live_an yl lh b_an" and sub: "live \<subseteq> live_an"
      and ex: "exits_ok f E V L K T yt lt yl lh" and owned: "finite owned" "owned \<subseteq> V - E" "b \<inter> V \<subseteq> owned \<union> E" and asserts: "rk_asserts K2"
    for E T yt yl lh live_an b_an
  proof -
    from rec stmt obtain a_an where r: "rec_stmts (recorded m K f) m K f ss live_an yl lh a_an"
      "rec_stmt (recorded m K f) K s stmt a_an yl lh" "rk_live_before m f K s a_an = Some b_an" by auto
    have asub: "a \<subseteq> a_an" by (rule afters_mono [OF af(1) r(1) sub])
    have asserts3: "rk_asserts K3" using es'(3) asserts by (simp add: rewritten_def)
    have st: "stmt_balanced m A K f3 T E V (scope_after f V stmt) owned owned3 es yl lh b_an a_an a"
      using dn r(2,3) af(2) asub ex owned asserts3 unfolding stmt_done_def by blast
    have "V \<subseteq> Collect (counted f)" using ex by (simp add: exits_ok_def)
    then have ex3: "exits_ok f E (scope_after f V stmt) L K3 T yt lt yl lh"
      by (intro exits_ok_scope [OF exits_ok_rewritten [OF ex fr(2) labA]]) (auto simp: counted_of_def)
    have "stmts_ok (stays m f) f L (scope_after f V stmt) ss t B"
      by (rule stmts_ok_mono [rule_format, OF _ ok(2)]) (intro impI rc_seq_stays call_bal_ok)
    from rec_stmts_stay [OF this rewritten_agree [OF fr(2)] r(1)]
    have r3: "rec_stmts (recorded m K3 f) m K3 f ss live_an yl lh a_an" .
    show ?thesis unfolding AB(2)
    proof (rule stmts_balanced_Cons [OF st _ es'(2) AB(1)])
      assume "a \<inter> scope_after f V stmt \<subseteq> owned3 \<union> E"
      with IH [OF r3 sub ex3] st asserts
      have "stmts_balanced m B K3 f2 T E (scope_after f V stmt) V' owned3 owned2 es' yl lh a_an live_an live"
        by (simp add: stmt_balanced_def)
      then show "stmts_balanced m B K f2 T E (scope_after f V stmt) V' owned3 owned2 es' yl lh a_an live_an live"
        by (simp add: stmts_balanced_rewritten [OF fr(2)])
    qed simp
  qed
  then show ?case using es es'(1,4) gr rw by (intro exI [of _ "es @ es'"] exI [of _ V']) auto
qed

text \<open>The terminator: its target is what the exit wants.\<close>

lemma term_target_props:
  assumes "exits_ok f E V L K T yt lt yl lh" "term_labels t \<subseteq> L" "rk_term_target K t yt lt = Some (Some X)"
  shows "T (term_outcome t) = ind X \<and> X \<subseteq> rk_exit_live K t yt lt \<inter> V - E"
proof (cases t)
  case (Break l v)
  then have "l \<in> L" using assms(2) by simp
  with assms(1) obtain Y where "rk_label_target K l = Some Y" "T (OBreak l) = ind Y"
    "Y \<subseteq> set_or_empty (rk_after_label K l) \<inter> V - E" unfolding exits_ok_def by blast
  with assms(3) Break show ?thesis by simp
qed (use assms(1,3) in \<open>auto simp: exits_ok_def\<close>)

lemma term_live_mono:
  assumes "exits_ok f E V L K T yt lt yl lh"
  shows "rk_term_live f K t yt lt \<subseteq> rk_term_live f K t yl lh"
  using assms by (cases t) (auto simp: rk_term_live_def exits_ok_def)

lemma exit_live_term: "exit_live K yl lh (term_outcome t) \<subseteq> rk_term_live f K t yl lh"
  by (cases t) (simp_all add: rk_term_live_def)

lemma term_run:
  assumes "rk_term f t owned target out = (f', out')"
  obtains ts where "f' = emit f ts" "out' = out @ emit_ids f ts"
    "\<And>X. target = Some X \<Longrightarrow> finite owned \<Longrightarrow>
       rc_effect ts (ind owned) = Some (\<lambda>v. ind (owned \<inter> X) v + int (count_list (term_consumes f t) v))"
    "target = None \<Longrightarrow> ts = []"
proof (cases target)
  case None
  with assms that [of "[]"] show ?thesis by (simp add: rk_term_def)
next
  case (Some X)
  obtain f1 o1 out1 where c: "rk_consume f owned (term_consumes f t) (\<lambda>v. v \<in> X) out = (f1, o1, out1)" by (metis prod_cases3)
  obtain f2 o2 out2 where d: "rk_drop_except f1 o1 X out1 = (f2, o2, out2)" by (metis prod_cases3)
  from assms Some c d have eq: "f' = f2" "out' = out2" by (simp_all add: rk_term_def)
  show ?thesis
  proof (rule consume_drop [OF c d])
    fix ss assume "f2 = emit f ss" "out2 = out @ emit_ids f ss"
      "finite owned \<longrightarrow> rc_effect ss (ind owned) = Some (\<lambda>v. ind (owned \<inter> X) v + int (count_list (term_consumes f t) v))"
    then show ?thesis by (intro that [of ss]) (use eq Some in auto)
  qed
qed

lemma term_balanced:
  assumes ex: "exits_ok f E V L K T yt lt yl lh" and lab: "term_labels t \<subseteq> L" and target: "rk_term_target K t yt lt = Some target"
    and run: "rk_term f1 t owned target out = (f2, out2)" and sig: "same_sig f f1" and g: "extends Q f2 g"
    and owned: "finite owned" "rk_term_live f K t yt lt \<inter> V' \<subseteq> owned \<union> E" and V: "V \<subseteq> V'"
    and R: "t \<noteq> Unreachable \<Longrightarrow> term_outcome t \<in> R" and out2: "out2 = out @ es"
  shows "bal_stmts m g R T (ind owned) es t"
proof (rule term_run [OF run])
  fix ts assume ts: "f2 = emit f1 ts" "out2 = out @ emit_ids f1 ts"
    "\<And>X. target = Some X \<Longrightarrow> finite owned \<Longrightarrow>
       rc_effect ts (ind owned) = Some (\<lambda>v. ind (owned \<inter> X) v + int (count_list (term_consumes f1 t) v))"
    "target = None \<Longrightarrow> ts = []"
  show ?thesis
  proof (cases target)
    case None
    then have "t = Unreachable" using target by (cases t) auto
    with ts None out2 show ?thesis by (auto intro: bal_unreachable)
  next
    case (Some X)
    have tp: "T (term_outcome t) = ind X" "X \<subseteq> rk_exit_live K t yt lt \<inter> V - E"
      using term_target_props [OF ex lab target [unfolded Some]] by simp_all
    have "X \<subseteq> owned" using tp(2) owned(2) V by (auto simp: rk_term_live_def)
    then have X: "owned \<inter> X = X" by blast
    have sig': "term_consumes g = term_consumes f1"
      using same_sig_rules [OF extends_sig [OF g]] same_sig_rules [of f1 "emit f1 ts"] ts(1)
      by (simp add: same_sig_def emit_def)
    have step: "step_ok m g T {} True (ind owned) (emit_ids f1 ts) (\<lambda>v. ind X v + int (count_list (term_consumes f1 t) v))"
      using emit_step [OF ts(3) [OF Some owned(1)], of Q f1 g m T] g ts(1) X by simp
    have "bal_stmts m g R T (\<lambda>v. ind X v + int (count_list (term_consumes f1 t) v)) [] t"
    proof (rule bal_term)
      show "take_all (term_consumes g t) (\<lambda>v. ind X v + int (count_list (term_consumes f1 t) v)) = Some (T (term_outcome t))"
        unfolding sig' tp(1) by (rule take_all_counts) (simp add: ind_def)
      show "term_outcome t \<in> R" by (rule R) (use Some target in auto)
    qed
    with step out2 ts(2) show ?thesis unfolding step_ok_def by (metis append_Nil2 append_same_eq empty_subsetI same_append_eq)
  qed
qed

lemma set_seq_grows:
  assumes "get_seq f i = Some q"
  shows "grows {i} f (set_seq_stmts f i ss)" "get_seq (set_seq_stmts f i ss) i = Some (q\<lparr>sq_stmts := ss\<rparr>)"
  using assms by (auto simp: grows_def extends_def same_sig_def set_seq_stmts_def get_seq_def split: if_splits)

lemma emit_get_seq: "get_seq (emit f ss) i = get_seq f i"
  by (simp add: emit_def get_seq_def)

text \<open>One sequence, the calls for the sequences inside being right.\<close>

lemma seq_step:
  assumes run: "rk_seq n m (f1, K) i owned yt lt = Some (f2, K2)" and q: "get_seq f i = Some q" "term_labels (sq_term q) \<subseteq> L"
    and ok: "\<And>k. stmts_ok (call_bal (rk_seq k m) m f) f L V (sq_stmts q) (sq_term q) N" and lab: "NLabel ` L \<inter> N = {}"
    and new: "NSeq i \<notin> N" and ext: "extends (insert i (seqs_of N)) f f1"
  shows "\<exists>ss. get_seq f2 i = Some (q\<lparr>sq_stmts := ss\<rparr>) \<and> grows (insert i (seqs_of N)) f1 f2 \<and> rewritten N K K2
     \<and> (\<forall>E T yl lh g. recorded m K f i yl lh \<longrightarrow> exits_ok f E V L K T yt lt yl lh \<longrightarrow> finite owned \<longrightarrow> owned \<subseteq> V - E \<longrightarrow>
          rk_live K i \<inter> V \<subseteq> owned \<union> E \<longrightarrow> rk_asserts K2 \<longrightarrow> extends (seqs_of N) f2 g \<longrightarrow>
          (\<exists>R. bal_stmts m g R T (ind owned) ss (sq_term q) \<and> (\<forall>x\<in>R. exit_live K yl lh x \<inter> V \<subseteq> rk_live K i)))"
proof -
  let ?d = "drops owned (rk_live K i)" and ?t = "sq_term q"
  let ?f = "emit f1 ?d" and ?o = "owned \<inter> rk_live K i"
  have q1: "get_seq f1 i = Some q" using extends_seq [OF ext, of i] q(1) by simp
  obtain k afters b f3 owned3 out3 target f4 out4 where
    af: "rk_afters_from m ?f K (rk_term_live ?f K ?t yt lt) (sq_stmts q) = Some (afters, b)"
    and st: "rk_stmts (rk_seq k m) m (?f, K) (zip (sq_stmts q) afters) ?o lt (emit_ids f1 ?d) = Some ((f3, K2), owned3, out3)"
    and tt: "rk_term_target K2 ?t yt lt = Some target" and tm: "rk_term f3 ?t owned3 target out3 = (f4, out4)"
    and f2: "f2 = set_seq_stmts f4 i out4" by (rule seq_split [OF run q1])
  have ext': "extends (insert i (seqs_of N)) f ?f" using ext grows_extends [OF emit_grows] by (auto intro: fn_extends_trans)
  have extN: "extends (seqs_of N) f ?f" by (rule extends_mono [OF ext']) blast
  let ?live = "rk_term_live f K ?t yt lt"
  have af': "rk_afters_from m f K ?live (sq_stmts q) = Some (afters, b)"
    using af afters_same [OF ok ext'] same_sig_rules [OF extends_sig [OF ext']] by (simp add: rk_term_live_def)
  from stmts_run [OF ok extN af' st lab] obtain es V' where es: "out3 = emit_ids f1 ?d @ es" "grows (seqs_of N) ?f f3"
    "rewritten N K K2" "V \<subseteq> V'"
    and bal: "\<And>E T yt yl lh live_an b_an. rec_stmts (recorded m K f) m K f (sq_stmts q) live_an yl lh b_an \<Longrightarrow> ?live \<subseteq> live_an \<Longrightarrow>
      exits_ok f E V L K T yt lt yl lh \<Longrightarrow> finite ?o \<Longrightarrow> ?o \<subseteq> V - E \<Longrightarrow> b \<inter> V \<subseteq> ?o \<union> E \<Longrightarrow> rk_asserts K2 \<Longrightarrow>
      stmts_balanced m N K f3 T E V V' ?o owned3 es yl lh b_an live_an ?live" by blast
  obtain ts where ts: "f4 = emit f3 ts" "out4 = out3 @ emit_ids f3 ts" by (rule term_run [OF tm])
  have new': "i \<notin> seqs_of N" using new by (simp add: seqs_of_def)
  have "get_seq f3 i = Some q"
    using extends_seq [OF grows_extends [OF es(2), of "{i}"], of i] new' q1 by (simp add: emit_get_seq)
  then have "get_seq f4 i = Some q" by (simp add: ts(1) emit_get_seq)
  note sg = set_seq_grows [OF this, of out4, folded f2]
  have g4: "grows (insert i (seqs_of N)) f1 f4"
    using grows_mono [OF es(2), of "insert i (seqs_of N)"] grows_mono [OF emit_grows, of "insert i (seqs_of N)"] ts(1)
    by (blast intro: grows_trans)
  have gr: "grows (insert i (seqs_of N)) f1 f2" using g4 grows_mono [OF sg(1)] by (blast intro: grows_trans)
  have "\<exists>R. bal_stmts m g R T (ind owned) out4 ?t \<and> (\<forall>x\<in>R. exit_live K yl lh x \<inter> V \<subseteq> rk_live K i)"
    if rec: "recorded m K f i yl lh" and ex: "exits_ok f E V L K T yt lt yl lh" and owned: "finite owned" "owned \<subseteq> V - E"
      "rk_live K i \<inter> V \<subseteq> owned \<union> E" and asserts: "rk_asserts K2" and g: "extends (seqs_of N) f2 g" for E T yl lh g
  proof -
    have ext4: "extends (seqs_of N) f4 g" using grows_extends [OF sg(1), of "seqs_of N"] new' g by (auto intro: fn_extends_trans)
    have ext3: "extends (seqs_of N) f3 g" using grows_extends [OF emit_grows, of "seqs_of N" f3 ts] ext4 ts(1) by (auto intro: fn_extends_trans)
    have ext1: "extends {} ?f g"
      using grows_extends [OF es(2), of "{}"] extends_mono [OF ext3, of "{}"] by (auto intro: fn_extends_trans)
    let ?live_an = "rk_term_live f K ?t yl lh"
    from rec q(1) have r: "rec_stmts (recorded m K f) m K f (sq_stmts q) ?live_an yl lh (rk_live K i)" by (auto elim: recordedE)
    have sub: "?live \<subseteq> ?live_an" by (rule term_live_mono [OF ex])
    have "b \<subseteq> rk_live K i" by (rule afters_mono [OF af' r sub])
    then have "stmts_balanced m N K f3 T E V V' ?o owned3 es yl lh (rk_live K i) ?live_an ?live"
      using bal [OF r sub ex] owned asserts by blast
    with ext3 obtain R r where R: "step_ok m g T R r (ind ?o) es (ind owned3)" "\<forall>x\<in>R. exit_live K yl lh x \<inter> V \<subseteq> rk_live K i"
      "r \<longrightarrow> ?live_an \<inter> V \<subseteq> rk_live K i \<and> ?live \<inter> V' \<subseteq> owned3 \<union> E \<and> finite owned3" unfolding stmts_balanced_def by blast
    have "rc_effect ?d (ind owned) = Some (ind ?o)"
      using drops_effect [of owned "\<lambda>v. 0" "rk_live K i"] owned(1) by simp
    from step_ok_True_append [OF emit_step [OF this ext1] R(1)]
    have step: "step_ok m g T R r (ind owned) out3 (ind owned3)" using es(1) by simp
    define R' where "R' = R \<union> (if r \<and> ?t \<noteq> Unreachable then {term_outcome ?t} else {})"
    have tl: "rk_term_live f K2 ?t yt lt = ?live" using es(3) by (cases ?t) (simp_all add: rk_term_live_def rewritten_def)
    have "bal_stmts m g R' T (ind owned3) (emit_ids f3 ts) ?t" if r
    proof (rule term_balanced [OF exits_ok_rewritten [OF ex es(3) lab] q(2) tt tm _ ext4 _ _ es(4) _ ts(2)])
      show "same_sig f f3" using extN es(2) by (auto simp: extends_def grows_def intro: same_sig_trans)
      show "finite owned3" "rk_term_live f K2 ?t yt lt \<inter> V' \<subseteq> owned3 \<union> E" using R(3) that tl by simp_all
      show "term_outcome ?t \<in> R'" if "?t \<noteq> Unreachable" using that \<open>r\<close> by (simp add: R'_def)
    qed
    then have "bal_stmts m g R' T (ind owned) out4 ?t" using step ts(2) unfolding step_ok_def R'_def by auto
    moreover have "\<forall>x\<in>R'. exit_live K yl lh x \<inter> V \<subseteq> rk_live K i"
      using R(2,3) exit_live_term [of K yl lh ?t f] by (auto simp: R'_def split: if_splits)
    ultimately show ?thesis by blast
  qed
  with sg(2) gr es(3) show ?thesis by blast
qed

lemma rc_seq_ok_intro:
  assumes "get_seq f i = Some q" "term_labels (sq_term q) \<subseteq> L" "NSeq i \<notin> N"
    and "stmts_ok (\<lambda>L V i N. rc_seq_ok f L V i N \<and> P L V i N) f L V (sq_stmts q) (sq_term q) N"
  shows "rc_seq_ok f L V i (insert (NSeq i) N)" "NLabel ` L \<inter> N = {}"
proof -
  show ok: "rc_seq_ok f L V i (insert (NSeq i) N)"
    by (rule rc_seq_ok.intros [OF assms(1-3)]) (rule stmts_ok_mono [rule_format, OF _ assms(4)], blast)
  show "NLabel ` L \<inter> N = {}" using rc_seq_ok_labels [OF ok] by auto
qed

lemma seq_run: "rc_seq_ok f L V i N \<Longrightarrow> call_bal (rk_seq n m) m f L V i N"
proof (induction arbitrary: n rule: rc_seq_ok.induct)
  case (1 i q L N V)
  note sq = rc_seq_ok_intro [OF 1]
  have ok: "stmts_ok (call_bal (rk_seq k m) m f) f L V (sq_stmts q) (sq_term q) N" for k
    by (rule stmts_ok_mono [rule_format, OF _ 1(4)]) blast
  let ?N = "insert (NSeq i) N"
  have "grows (seqs_of ?N) f1 f2 \<and> rewritten ?N K K2
     \<and> (\<forall>E T yl lh. recorded m K f i yl lh \<longrightarrow> exits_ok f E V L K T yt lt yl lh \<longrightarrow>
          finite owned \<longrightarrow> owned \<subseteq> V - E \<longrightarrow> rk_live K i \<inter> V \<subseteq> owned \<union> E \<longrightarrow> rk_asserts K2 \<longrightarrow>
          seq_balanced m f V ?N K f2 T owned yl lh i)"
    if run: "rk_seq n m (f1, K) i owned yt lt = Some (f2, K2)" and ext: "extends (seqs_of ?N) f f1" for f1 K owned yt lt f2 K2
  proof -
    from seq_step [OF run 1(1,2) ok sq(2) 1(3)] ext obtain ss where
      ss: "get_seq f2 i = Some (q\<lparr>sq_stmts := ss\<rparr>)" "grows (seqs_of ?N) f1 f2" "rewritten N K K2"
      and bal: "\<And>E T yl lh g. recorded m K f i yl lh \<Longrightarrow> exits_ok f E V L K T yt lt yl lh \<Longrightarrow> finite owned \<Longrightarrow> owned \<subseteq> V - E \<Longrightarrow>
          rk_live K i \<inter> V \<subseteq> owned \<union> E \<Longrightarrow> rk_asserts K2 \<Longrightarrow> extends (seqs_of N) f2 g \<Longrightarrow>
          \<exists>R. bal_stmts m g R T (ind owned) ss (sq_term q) \<and> (\<forall>x\<in>R. exit_live K yl lh x \<inter> V \<subseteq> rk_live K i)" by auto
    have "seq_balanced m f V ?N K f2 T owned yl lh i"
      if h: "recorded m K f i yl lh" "exits_ok f E V L K T yt lt yl lh" "finite owned" "owned \<subseteq> V - E"
        "rk_live K i \<inter> V \<subseteq> owned \<union> E" "rk_asserts K2" for E T yl lh
      unfolding seq_balanced_def
    proof (intro allI impI)
      fix g assume g: "extends (seqs_of ?N) f2 g"
      have "get_seq g i = Some (q\<lparr>sq_stmts := ss\<rparr>)" using extends_seq [OF g, of i] ss(1) by simp
      moreover from bal [OF h extends_mono [OF g]] obtain R where "bal_stmts m g R T (ind owned) ss (sq_term q)"
        "\<forall>x\<in>R. exit_live K yl lh x \<inter> V \<subseteq> rk_live K i" by auto
      ultimately show "\<exists>R. bal_seq m g R T (ind owned) i \<and> (\<forall>x\<in>R. exit_live K yl lh x \<inter> V \<subseteq> rk_live K i)"
        by (intro exI [of _ R]) (auto intro: bal_seq)
    qed
    with ss(2) rewritten_mono [OF ss(3), of ?N] show ?thesis by blast
  qed
  with sq(1) show ?case unfolding call_bal_def by blast
qed

section \<open>The function\<close>

text \<open>The owned variables at the start: the parameters, and the environment if a frame may keep it.\<close>

lemma rk_env_props:
  assumes "rk_env f live = Some e"
  shows "borrowed_param f e" "e \<in> set (f_params f)"
  using assms by (auto simp: rk_env_def split: list.splits if_splits)

lemma entry_counts_ind:
  assumes "same_sig f g"
  shows "entry_counts g = ind {p \<in> counted_of f (f_params f). \<not> borrowed_param f p}"
proof -
  have "f_params g = f_params f" using assms by (simp add: same_sig_def)
  with same_sig_rules [OF assms] show ?thesis by (auto simp: fun_eq_iff entry_counts_def ind_def counted_of_def)
qed

lemma bal_balanced:
  assumes "get_seq g b = Some q" "f_body g = Some b" "bal_stmts m g R (\<lambda>x. ind {}) (entry_counts g) (sq_stmts q) (sq_term q)"
    and "fn_path g tr out"
  shows "balanced m g tr out"
proof -
  have "path_seq g b tr out" using assms(2,4) by (simp add: fn_path_def)
  from bal_path(1) [OF this bal_seq [OF assms(1,3)]] show ?thesis
    by (auto simp: path_ends_def balanced_def ind_empty)
qed

definition start_owned :: "lir_fn \<Rightarrow> var_id option \<Rightarrow> var_id set" where
  "start_owned f env = {p \<in> counted_of f (f_params f). \<not> borrowed_param f p} \<union> set (opt_list env)"

lemma run_split:
  assumes "rk_run n m f = Some (f', K')"
  obtains b live K f2 where "f_body f = Some b" "rk_live_seq n m f rc_counter_new b {} None = Some (live, K)"
    "rk_seq n m (f, K) b (start_owned f (rk_env f live)) {} None = Some (f2, K')" "f' = rk_env_dup f2 b (rk_env f live)"
proof -
  have "set (filter (\<lambda>p. counted f p \<and> \<not> borrowed_param f p) (f_params f)) \<union> set (opt_list e) = start_owned f e" for e
    by (auto simp: start_owned_def counted_of_def)
  with assms that show ?thesis by (auto simp: rk_run_def bind_eq_Some_conv Let_def)
qed

lemma rc_fn_okE:
  assumes "rc_fn_ok f" "f_body f = Some b"
  obtains q N where "get_seq f b = Some q" "term_labels (sq_term q) \<subseteq> {}" "NSeq b \<notin> N"
    "stmts_ok (rc_seq_ok f) f {} (counted_of f (f_params f)) (sq_stmts q) (sq_term q) N"
    "rc_seq_ok f {} (counted_of f (f_params f)) b (insert (NSeq b) N)"
    "\<And>p. p \<in> set (f_params f) \<Longrightarrow> borrowed_param f p \<Longrightarrow> counted f p"
proof -
  from assms obtain N where N: "rc_seq_ok f {} (counted_of f (f_params f)) b N" unfolding rc_fn_ok_def by auto
  have p: "\<And>p. p \<in> set (f_params f) \<Longrightarrow> borrowed_param f p \<Longrightarrow> counted f p"
    using assms(1) by (auto simp: rc_fn_ok_def list_all_iff)
  from N show ?thesis
  proof (cases rule: rc_seq_ok.cases)
    case (1 q N')
    with that [OF 1(2-5) _ p] N show ?thesis by simp
  qed
qed

text \<open>The \<open>dup\<close> of the environment, put in front.\<close>

lemma env_dup_adds:
  assumes "get_seq f b = Some q"
  shows "adds_rc f (rk_env_dup f b env)"
proof (cases env)
  case (Some e)
  let ?f = "emit f [SDup e]"
  have "f_seqs ?f ! b = q" using assms by (auto simp: emit_def get_seq_def split: if_splits)
  then have "rk_env_dup f b env = set_seq_stmts ?f b (emit_ids f [SDup e] @ sq_stmts q)"
    using Some by (simp add: rk_env_dup_def new_stmt_emit)
  moreover have "adds_rc f ?f" by (rule adds_emit) simp
  ultimately show ?thesis using adds_set_seq [OF _ assms] adds_new [OF adds_refl, of f "[SDup e]"] by simp
qed (simp add: rk_env_dup_def)

lemma env_dup_balanced:
  assumes "get_seq f b = Some q" "b \<notin> Q"
    and "\<And>g. extends Q f g \<Longrightarrow> \<exists>R. bal_stmts m g R T (ind (start \<union> set (opt_list env))) (sq_stmts q) (sq_term q)"
    and "set (opt_list env) \<inter> start = {}"
  shows "\<exists>R q'. get_seq (rk_env_dup f b env) b = Some q' \<and> same_sig f (rk_env_dup f b env)
    \<and> bal_stmts m (rk_env_dup f b env) R T (ind start) (sq_stmts q') (sq_term q')"
proof (cases env)
  case None
  with assms(3) [OF fn_extends_refl] assms(1) show ?thesis by (auto simp: rk_env_dup_def opt_list_def)
next
  case (Some e)
  let ?f = "emit f [SDup e]" and ?s = "length (f_stmts f)"
  let ?g = "set_seq_stmts ?f b (?s # sq_stmts q)"
  have fb: "get_seq ?f b = Some q" using assms(1) by (simp add: emit_get_seq)
  then have "f_seqs ?f ! b = q" by (auto simp: get_seq_def split: if_splits)
  then have g: "rk_env_dup f b env = ?g" using Some by (simp add: rk_env_dup_def new_stmt_emit emit_ids_def)
  note sg = set_seq_grows [OF fb, of "?s # sq_stmts q"]
  have ext: "extends Q f ?g" using grows_extends [OF emit_grows, of Q f "[SDup e]"] grows_extends [OF sg(1), of Q] assms(2)
    by (auto intro: fn_extends_trans)
  have "extends {} ?f ?g" by (rule grows_extends [OF sg(1)]) simp
  then have dup: "get_stmt ?g ?s = Some (SDup e)" by (rule extends_stmt) (simp add: emit_def get_stmt_def)
  from assms(3) [OF ext] obtain R where R: "bal_stmts m ?g R T (ind (insert e start)) (sq_stmts q) (sq_term q)"
    using Some by (auto simp: opt_list_def)
  have "(ind start)(e := ind start e + 1) = ind (insert e start)" using assms(4) Some by (auto simp: opt_list_def ind_def fun_eq_iff)
  with bal_dup [OF dup, of m R T "ind start"] R have "bal_stmts m ?g R T (ind start) (?s # sq_stmts q) (sq_term q)" by simp
  with sg(2) extends_sig [OF ext] show ?thesis unfolding g by auto
qed

lemma adds_body: "adds_rc f g \<Longrightarrow> f_body g = f_body f"
proof -
  assume "adds_rc f g"
  then have "g\<lparr>f_stmts := f_stmts f, f_seqs := f_seqs f\<rparr> = f" by (simp add: adds_rc_def)
  then have "f_body (g\<lparr>f_stmts := f_stmts f, f_seqs := f_seqs f\<rparr>) = f_body f" by (rule arg_cong)
  then show ?thesis by simp
qed

lemma run_balanced:
  assumes ok: "rc_fn_ok f" and run: "rk_run n m f = Some (f', K')" and asserts: "rk_asserts K'"
  shows "\<exists>b q R. f_body f' = Some b \<and> get_seq f' b = Some q
    \<and> bal_stmts m f' R (\<lambda>x. ind {}) (entry_counts f') (sq_stmts q) (sq_term q)"
proof -
  obtain b live K f2 where b: "f_body f = Some b" and live: "rk_live_seq n m f rc_counter_new b {} None = Some (live, K)"
    and seq: "rk_seq n m (f, K) b (start_owned f (rk_env f live)) {} None = Some (f2, K')" and f': "f' = rk_env_dup f2 b (rk_env f live)"
    by (rule run_split [OF run])
  let ?V = "counted_of f (f_params f)" and ?T = "\<lambda>x::outcome. ind {}"
  define env where "env = rk_env f live"
  obtain q N where q: "get_seq f b = Some q" "term_labels (sq_term q) \<subseteq> {}" "NSeq b \<notin> N"
    and st: "stmts_ok (rc_seq_ok f) f {} ?V (sq_stmts q) (sq_term q) N" and sq: "rc_seq_ok f {} ?V b (insert (NSeq b) N)"
    and p: "\<And>p. p \<in> set (f_params f) \<Longrightarrow> borrowed_param f p \<Longrightarrow> counted f p" using rc_fn_okE [OF ok b] by blast
  have rec: "recorded m K f b {} None" by (rule call_recD(2) [OF live_seq_rec [OF sq] live])
  have calls: "stmts_ok (call_bal (rk_seq k m) m f) f {} ?V (sq_stmts q) (sq_term q) N" for k
    by (rule stmts_ok_mono [rule_format, OF _ st]) (intro impI seq_run)
  have lab: "NLabel ` {} \<inter> N = {}" by simp
  obtain ss where ss: "get_seq f2 b = Some (q\<lparr>sq_stmts := ss\<rparr>)"
    "grows (insert b (seqs_of N)) f f2"
    and bal: "\<And>E T yl lh g. recorded m K f b yl lh \<Longrightarrow> exits_ok f E ?V {} K T {} None yl lh \<Longrightarrow> finite (start_owned f env) \<Longrightarrow>
      start_owned f env \<subseteq> ?V - E \<Longrightarrow> rk_live K b \<inter> ?V \<subseteq> start_owned f env \<union> E \<Longrightarrow> rk_asserts K' \<Longrightarrow> extends (seqs_of N) f2 g \<Longrightarrow>
      \<exists>R. bal_stmts m g R T (ind (start_owned f env)) ss (sq_term q) \<and> (\<forall>x\<in>R. exit_live K yl lh x \<inter> ?V \<subseteq> rk_live K b)"
    using seq_step [OF seq q(1,2) calls lab q(3) fn_extends_refl, folded env_def] by blast
  let ?E = "{p \<in> ?V. borrowed_param f p} - set (opt_list env)" and ?start = "{p \<in> ?V. \<not> borrowed_param f p}"
  have env: "set (opt_list env) \<subseteq> {p \<in> ?V. borrowed_param f p}"
    using rk_env_props [of f live] p by (auto simp: env_def opt_list_def counted_of_def split: option.splits)
  have ex: "exits_ok f ?E ?V {} K ?T {} None {} None" by (auto simp: exits_ok_def counted_of_def)
  have fin: "finite (start_owned f env)" by (simp add: start_owned_def counted_of_def)
  have sub: "start_owned f env \<subseteq> ?V - ?E" "rk_live K b \<inter> ?V \<subseteq> start_owned f env \<union> ?E" using env by (auto simp: start_owned_def)
  have "\<exists>R q'. get_seq f' b = Some q' \<and> same_sig f2 f' \<and> bal_stmts m f' R ?T (ind ?start) (sq_stmts q') (sq_term q')"
    unfolding f' env_def [symmetric]
  proof (rule env_dup_balanced [OF ss(1), of "seqs_of N"])
    show "b \<notin> seqs_of N" using q(3) by (simp add: seqs_of_def)
    show "set (opt_list env) \<inter> ?start = {}" using env by auto
    show "\<exists>R. bal_stmts m g R ?T (ind (?start \<union> set (opt_list env))) (sq_stmts (q\<lparr>sq_stmts := ss\<rparr>)) (sq_term (q\<lparr>sq_stmts := ss\<rparr>))"
      if "extends (seqs_of N) f2 g" for g
      using bal [OF rec ex fin sub asserts that] by (auto simp: start_owned_def)
  qed
  then obtain R q' where r: "get_seq f' b = Some q'" "same_sig f2 f'" "bal_stmts m f' R ?T (ind ?start) (sq_stmts q') (sq_term q')" by blast
  have "same_sig f f'" using ss(2) r(2) by (auto simp: grows_def extends_def intro: same_sig_trans)
  from entry_counts_ind [OF this] r(3) have "bal_stmts m f' R ?T (entry_counts f') (sq_stmts q') (sq_term q')" by simp
  moreover have "f_body f' = Some b"
    using adds_body [OF adds_trans [OF call_addsD(1) [OF seq_adds seq] env_dup_adds [OF ss(1)]]] b f' by simp
  ultimately show ?thesis using r(1) by blast
qed

end
