(* ===== verification/Lir_Rc_Whole.thy ===== *)
theory Lir_Rc_Whole
  imports Lir_Rc_Run
begin

text \<open>
  The rewriting of the pass returns on every function of the shape \<open>rc_fn_ok\<close> (\<open>Counter::seq\<close> of
  \<open>crates/emela-lir/src/heap/rc.rs\<close>): nothing is looked up that was not recorded before.
\<close>

section \<open>The rewriting returns\<close>

text \<open>A call returns on what was recorded if every label in scope has its target.\<close>

definition has_targets :: "label_id set \<Rightarrow> rc_counter \<Rightarrow> bool" where
  "has_targets L K \<longleftrightarrow> (\<forall>l\<in>L. rk_label_target K l \<noteq> None)"

definition call_ret :: "rk_call \<Rightarrow> lir_module \<Rightarrow> lir_fn \<Rightarrow> seq_shape" where
  "call_ret call m f L V i N \<longleftrightarrow> call_bal call m f L V i N \<and>
     (\<forall>f1 K owned yt lt yl lh. extends (seqs_of N) f f1 \<longrightarrow> recorded m K f i yl lh \<longrightarrow> has_targets L K \<longrightarrow>
        call (f1, K) i owned yt lt \<noteq> None)"

lemma call_ret_bal: "call_ret call m f L V i N \<Longrightarrow> call_bal call m f L V i N"
  by (simp add: call_ret_def)

lemma call_retE:
  assumes "call_ret call m f L V i N" "extends (seqs_of N) f f1" "recorded m K f i yl lh" "has_targets L K"
  obtains f2 K2 where "call (f1, K) i owned yt lt = Some (f2, K2)"
  using assms unfolding call_ret_def by (metis option.exhaust prod.exhaust)

lemma has_targets_rewritten: "has_targets L K \<Longrightarrow> rewritten N K K' \<Longrightarrow> NLabel ` L \<inter> N = {} \<Longrightarrow> has_targets L K'"
  unfolding has_targets_def rewritten_def by (metis disjoint_iff image_eqI)

lemma rec_stmt_children:
  "rec_stmt R K s stmt a yl lh \<Longrightarrow> c \<in> set (scoped_children stmt) \<Longrightarrow> \<exists>yl lh. R (snd c) yl lh"
  by (cases stmt) ((simp only: rec_stmt.simps, blast) | auto)+

lemma bodies_ret:
  assumes "children_ok (call_ret call m f) f L V cs N" "extends (seqs_of N) f f1"
    and "\<forall>c\<in>set cs. \<exists>yl lh. recorded m K f (snd c) yl lh" "has_targets L K"
  shows "\<exists>f2 K2. rk_bodies call (f1, K) cs owned yt lt = Some (f2, K2)"
  using assms
proof (induction cs arbitrary: f1 K N)
  case (Cons c cs)
  obtain ds b where c: "c = (ds, b)" by fastforce
  from Cons.prems(1) c obtain A B where AB: "call_ret call m f L (V \<union> counted_of f ds) b A"
    "children_ok (call_ret call m f) f L V cs B" "A \<inter> B = {}" "N = A \<union> B" by (auto simp: children_ok_Cons)
  have ext: "extends (seqs_of A) f f1" "extends (seqs_of B) f f1"
    using Cons.prems(2) AB(4) by (auto intro: extends_mono)
  from Cons.prems(3) c obtain yl lh where rec: "recorded m K f b yl lh" by auto
  obtain f3 K3 where call: "call (f1, K) b (owned \<union> set ds) yt lt = Some (f3, K3)"
    by (rule call_retE [OF AB(1) ext(1) rec Cons.prems(4)])
  note fr = call_bal_frame [OF call_ret_bal [OF AB(1)] call ext(1)]
  have extB: "extends (seqs_of B) f f3"
    using fn_extends_trans [OF ext(2) grows_extends [OF fr(1)]] seqs_of_disjoint [OF AB(3)] by blast
  have rec3: "\<forall>c\<in>set cs. \<exists>yl lh. recorded m K3 f (snd c) yl lh"
  proof
    fix c' assume c': "c' \<in> set cs"
    with Cons.prems(3) obtain yl lh where r: "recorded m K f (snd c') yl lh" by auto
    from children_ok_in [OF AB(2) c'] obtain A' where "call_ret call m f L (V \<union> counted_of f (fst c')) (snd c') A'" by blast
    from rewritten_recorded [OF call_bal_ok [OF call_ret_bal [OF this]] fr(2) r]
    show "\<exists>yl lh. recorded m K3 f (snd c') yl lh" by blast
  qed
  have "NLabel ` L \<inter> A = {}" by (rule rc_seq_ok_labels [OF call_bal_ok [OF call_ret_bal [OF AB(1)]]])
  from Cons.IH [OF AB(2) extB rec3 has_targets_rewritten [OF Cons.prems(4) fr(2) this]] call c show ?case by auto
qed simp

lemma stmt_ret:
  assumes ok: "stmt_ok (call_ret call m f) f L V s stmt N" and stmt: "get_stmt f s = Some stmt" and ext: "extends (seqs_of N) f f1"
    and rec: "rec_stmt (recorded m K f) K s stmt after_an yl lh" and tg: "has_targets L K"
  shows "\<exists>f2 K2 owned2 out2. rk_stmt call m f1 K s owned after lt out = Some ((f2, K2), owned2, out2)"
proof -
  from ok obtain N' where N': "N = insert (NStmt s) (NLabel ` stmt_labels stmt \<union> N')"
    and ch: "children_ok (call_ret call m f) f (L \<union> stmt_labels stmt) V (scoped_children stmt) N'"
    and fits: "stmt_fits f V stmt" by (rule stmt_okE)
  have seqs: "seqs_of N = seqs_of N'" using N' by simp
  have ext': "extends (seqs_of N') f (emit f1 ss)" for ss
    using fn_extends_trans [OF ext [unfolded seqs] grows_extends [OF emit_grows]] by simp
  have ext1: "extends (seqs_of N') f f1" using ext seqs by simp
  have stmt1: "get_stmt f1 s = Some stmt" by (rule extends_stmt [OF ext stmt])
  have kids: "\<forall>c\<in>set (scoped_children stmt). \<exists>yl lh. recorded m K' f (snd c) yl lh" if "rewritten M K K'" for K' M
  proof
    fix c assume c: "c \<in> set (scoped_children stmt)"
    with rec_stmt_children [OF rec] obtain yl lh where r: "recorded m K f (snd c) yl lh" by blast
    from children_ok_in [OF ch c] obtain A V' where "call_ret call m f (L \<union> stmt_labels stmt) V' (snd c) A" by blast
    from rewritten_recorded [OF call_bal_ok [OF call_ret_bal [OF this]] that r] show "\<exists>yl lh. recorded m K' f (snd c) yl lh" by blast
  qed
  have compound: "\<exists>f2 K2 owned2 out2. rk_compound call f1 K' s stmt owned t lt out = Some ((f2, K2), owned2, out2)"
    if K': "rewritten M K K'" "has_targets (L \<union> stmt_labels stmt) K'" for K' M t
  proof -
    from bodies_ret [OF ch ext1 kids [OF K'(1)] K'(2)] obtain f2 K2 where
      "rk_bodies call (f1, K') (scoped_children stmt) owned t lt = Some (f2, K2)" by blast
    then show ?thesis by (simp add: rk_compound_def)
  qed
  show ?thesis
  proof (cases stmt)
    case (SLet d val df su)
    have "\<exists>f2 K2 owned2 out2. rk_let call m f1 K s stmt val su owned after lt out = Some ((f2, K2), owned2, out2)"
    proof -
      let ?keep = "\<lambda>v. v \<in> rk_live_on f1 K stmt after \<or> v \<in> set (borrowed_by m f1 val)"
      obtain ss o1 where c: "rk_consume f1 owned (consumed_by m f1 val) ?keep out = (emit f1 ss, o1, out @ emit_ids f1 ss)"
        by (rule consume_effect)
      let ?K = "if su \<noteq> None \<and> set (suspend_saved (emit f1 ss) stmt) \<noteq> o1 then K\<lparr>rk_asserts := False\<rparr> else K"
      have "has_targets (L \<union> stmt_labels stmt) ?K" using tg SLet by (simp add: has_targets_def)
      from bodies_ret [OF ch ext' kids [OF rewritten_asserts] this] obtain f2 K2 where
        "rk_bodies call (emit f1 ss, ?K) (scoped_children stmt) o1 {} lt = Some (f2, K2)" by blast
      then show ?thesis unfolding rk_let_def c Let_def prod.case by (auto simp: case_prod_beta)
    qed
    then show ?thesis using stmt1 SLet by (auto simp: rk_stmt_def drop_except_emit)
  next
    case (SIf d c a b)
    from compound [OF rewritten_refl] tg SIf have "\<exists>f2 K2 owned2 out2. rk_compound call f1 K s stmt owned t lt out = Some ((f2, K2), owned2, out2)" for t
      by simp
    from this [of "rk_target owned after (counted_dst f1 stmt)"] show ?thesis using stmt1 SIf by (auto simp: rk_stmt_def drop_except_emit)
  next
    case (SSwitch d on cs df)
    from compound [OF rewritten_refl] tg SSwitch have "\<exists>f2 K2 owned2 out2. rk_compound call f1 K s stmt owned t lt out = Some ((f2, K2), owned2, out2)" for t
      by simp
    from this [of "rk_target owned after (counted_dst f1 stmt)"] show ?thesis using stmt1 SSwitch by (auto simp: rk_stmt_def drop_except_emit)
  next
    case (SBlock d l b)
    let ?t = "rk_target owned after (counted_dst f1 stmt)"
    let ?K = "K\<lparr>rk_label_target := (rk_label_target K)(l \<mapsto> ?t)\<rparr>"
    have "rewritten {NLabel l} K ?K" by (auto simp: rewritten_def)
    moreover have "has_targets (L \<union> stmt_labels stmt) ?K" using tg SBlock by (simp add: has_targets_def)
    ultimately have "\<exists>f2 K2 owned2 out2. rk_compound call f1 ?K s stmt owned ?t lt out = Some ((f2, K2), owned2, out2)" by (rule compound)
    then show ?thesis using stmt1 SBlock by (auto simp: rk_stmt_def drop_except_emit Let_def)
  next
    case (SLoop d vs inits b)
    from rec SLoop obtain h yb hb where h: "rk_heads K s = Some h" and r: "recorded m K f b yb hb" by auto
    have body: "call_ret call m f L (V \<union> counted_of f vs) b N'" using ch SLoop by (simp add: children_ok_Cons children_ok_def)
    obtain ss o1 where c: "rk_consume f1 owned (operand_vars f1 inits) (\<lambda>v. v \<in> h) out = (emit f1 ss, o1, out @ emit_ids f1 ss)"
      by (rule consume_effect)
    let ?f = "emit f1 (ss @ drops o1 h)"
    let ?t = "rk_target (o1 \<inter> h) after (counted_dst ?f stmt)"
    obtain f2 K2 where "call (?f, K) b (o1 \<inter> h \<union> set (filter (counted ?f) vs)) ?t (Some (o1 \<inter> h)) = Some (f2, K2)"
      by (rule call_retE [OF body ext' r tg])
    then have "\<exists>f2 K2 owned2 out2. rk_loop call f1 K s stmt vs inits b owned after out = Some ((f2, K2), owned2, out2)"
      unfolding rk_loop_def h bind.bind_lunit c Let_def prod.case drop_except_emit emit_append by simp
    then show ?thesis using stmt1 SLoop by (auto simp: rk_stmt_def drop_except_emit)
  qed (use fits in simp_all)
qed

lemma live_before_total:
  assumes "rk_live_before m f K s a = Some b"
  shows "\<exists>b'. rk_live_before m f K s a' = Some b'"
proof (cases "get_stmt f s")
  case (Some stmt)
  show ?thesis using assms by (cases stmt) (auto simp: live_before_eq [OF Some] bind_eq_Some_conv)
qed (use assms in \<open>simp add: rk_live_before_def\<close>)

lemma afters_ret:
  assumes "rec_stmts R m K f ss live_an yl lh b_an"
  shows "\<exists>afters b. rk_afters_from m f K live ss = Some (afters, b)"
  using assms
proof (induction ss arbitrary: b_an)
  case (Cons s ss)
  then obtain a where "rec_stmts R m K f ss live_an yl lh a" and b: "rk_live_before m f K s a = Some b_an" by auto
  from Cons.IH [OF this(1)] obtain afters a' where "rk_afters_from m f K live ss = Some (afters, a')" by blast
  with live_before_total [OF b, of a'] show ?case by auto
qed simp

lemma stmts_ret:
  assumes "stmts_ok (call_ret call m f) f L V ss t N" "extends (seqs_of N) f f1"
    and "rec_stmts (recorded m K f) m K f ss live_an yl lh b_an" "has_targets L K" "NLabel ` L \<inter> N = {}" "length afters = length ss"
  shows "\<exists>f2 K2 owned2 out2. rk_stmts call m (f1, K) (zip ss afters) owned lt out = Some ((f2, K2), owned2, out2)"
  using assms
proof (induction ss arbitrary: V N f1 K b_an afters owned out)
  case (Cons s ss)
  from Cons.prems(1) obtain stmt A B where stmt: "get_stmt f s = Some stmt" and ok: "stmt_ok (call_ret call m f) f L V s stmt A"
    "stmts_ok (call_ret call m f) f L (scope_after f V stmt) ss t B" and AB: "A \<inter> B = {}" "N = A \<union> B" by auto
  obtain a afters' where af: "afters = a # afters'" "length afters' = length ss" using Cons.prems(6) by (cases afters) auto
  from Cons.prems(3) stmt obtain a_an where r: "rec_stmts (recorded m K f) m K f ss live_an yl lh a_an"
    "rec_stmt (recorded m K f) K s stmt a_an yl lh" by auto
  have extA: "extends (seqs_of A) f f1" using Cons.prems(2) AB(2) by (auto intro: extends_mono)
  obtain f3 K3 owned3 out3 where run: "rk_stmt call m f1 K s owned a lt out = Some ((f3, K3), owned3, out3)"
    using stmt_ret [OF ok(1) stmt extA r(2) Cons.prems(4)] by blast
  have "stmt_ok (call_bal call m f) f L V s stmt A"
    by (rule stmt_ok_mono [rule_format, OF _ ok(1)]) (intro impI call_ret_bal)
  from stmt_run [OF this stmt extA run] have fr: "grows (seqs_of A) f1 f3" "rewritten A K K3" by (auto simp: stmt_done_def)
  have "seqs_of B \<inter> seqs_of A = {}" using seqs_of_disjoint [OF AB(1)] by blast
  then have extB: "extends (seqs_of B) f f3"
    using Cons.prems(2) AB(2) grows_extends [OF fr(1)] by (auto intro: fn_extends_trans extends_mono)
  have "stmts_ok (stays m f) f L (scope_after f V stmt) ss t B"
    by (rule stmts_ok_mono [rule_format, OF _ ok(2)]) (intro impI rc_seq_stays call_bal_ok call_ret_bal)
  note r3 = rec_stmts_stay [OF this rewritten_agree [OF fr(2)] r(1)]
  have lab: "NLabel ` L \<inter> A = {}" "NLabel ` L \<inter> B = {}" using Cons.prems(5) AB(2) by auto
  have "\<exists>f2 K2 owned2 out2. rk_stmts call m (f3, K3) (zip ss afters') owned3 lt out3 = Some ((f2, K2), owned2, out2)"
    by (rule Cons.IH [OF ok(2) extB r3 has_targets_rewritten [OF Cons.prems(4) fr(2) lab(1)] lab(2) af(2)])
  with run af(1) show ?case by simp
qed simp

lemma seq_ret_step:
  assumes q: "get_seq f i = Some q" "term_labels (sq_term q) \<subseteq> L" "NSeq i \<notin> N" and lab: "NLabel ` L \<inter> N = {}"
    and ok: "stmts_ok (call_ret (rk_seq n m) m f) f L V (sq_stmts q) (sq_term q) N"
    and ext: "extends (insert i (seqs_of N)) f f1" and rec: "recorded m K f i yl lh" and tg: "has_targets L K"
  shows "rk_seq (Suc n) m (f1, K) i owned yt lt \<noteq> None"
proof -
  let ?d = "drops owned (rk_live K i)" and ?t = "sq_term q"
  let ?f = "emit f1 ?d" and ?o = "owned \<inter> rk_live K i"
  have q1: "get_seq f1 i = Some q" using extends_seq [OF ext, of i] q(1) by simp
  have ext': "extends (insert i (seqs_of N)) f ?f" using ext grows_extends [OF emit_grows] by (auto intro: fn_extends_trans)
  have extN: "extends (seqs_of N) f ?f" by (rule extends_mono [OF ext']) blast
  from rec q(1) have r: "rec_stmts (recorded m K f) m K f (sq_stmts q) (rk_term_live f K ?t yl lh) yl lh (rk_live K i)"
    by (auto elim: recordedE)
  have bal: "stmts_ok (call_bal (rk_seq n m) m f) f L V (sq_stmts q) ?t N"
    by (rule stmts_ok_mono [rule_format, OF _ ok]) (intro impI call_ret_bal)
  obtain afters b where af: "rk_afters_from m f K (rk_term_live ?f K ?t yt lt) (sq_stmts q) = Some (afters, b)"
    using afters_ret [OF r] by blast
  obtain f3 K3 owned3 out3 where
    st: "rk_stmts (rk_seq n m) m (?f, K) (zip (sq_stmts q) afters) ?o lt (emit_ids f1 ?d) = Some ((f3, K3), owned3, out3)"
    using stmts_ret [OF ok extN r tg lab afters_length [OF af]] by blast
  from stmts_run [OF bal extN af st lab] have rw: "rewritten N K K3" by blast
  have "has_targets L K3" by (rule has_targets_rewritten [OF tg rw lab])
  then obtain target where tt: "rk_term_target K3 ?t yt lt = Some target"
    using q(2) by (cases ?t) (auto simp: has_targets_def)
  have "rk_afters m ?f K q yt lt = Some afters" using af afters_same [OF ok ext'] by (simp add: rk_afters_def)
  with q1 st tt show ?thesis by (simp add: drop_except_emit case_prod_beta)
qed

text \<open>Enough fuel for every sequence inside is enough for all of them.\<close>

lemma children_ok_eventually:
  "children_ok (\<lambda>L V i N. eventually (\<lambda>n. T n L V i N) F) f L V cs N \<Longrightarrow> eventually (\<lambda>n. children_ok (T n) f L V cs N) F"
proof (induction cs arbitrary: N)
  case (Cons c cs)
  then obtain A B where AB: "eventually (\<lambda>n. T n L (V \<union> counted_of f (fst c)) (snd c) A) F" "A \<inter> B = {}" "N = A \<union> B"
    and cs: "children_ok (\<lambda>L V i N. eventually (\<lambda>n. T n L V i N) F) f L V cs B" by (auto simp: children_ok_Cons)
  from AB(1) Cons.IH [OF cs] show ?case
    by eventually_elim (use AB(2,3) in \<open>auto simp: children_ok_Cons\<close>)
qed (simp add: children_ok_def)

lemma stmts_ok_eventually:
  "stmts_ok (\<lambda>L V i N. eventually (\<lambda>n. T n L V i N) F) f L V ss t N \<Longrightarrow> eventually (\<lambda>n. stmts_ok (T n) f L V ss t N) F"
proof (induction ss arbitrary: V N)
  case (Cons s ss)
  let ?E = "\<lambda>L V i N. eventually (\<lambda>n. T n L V i N) F"
  from Cons.prems obtain stmt A B where stmt: "get_stmt f s = Some stmt" and ok: "stmt_ok ?E f L V s stmt A"
    "stmts_ok ?E f L (scope_after f V stmt) ss t B" and AB: "A \<inter> B = {}" "N = A \<union> B" by auto
  from ok(1) obtain N' where N': "A = insert (NStmt s) (NLabel ` stmt_labels stmt \<union> N')" "NStmt s \<notin> N'"
    "NLabel ` stmt_labels stmt \<inter> N' = {}" "children_ok ?E f (L \<union> stmt_labels stmt) V (scoped_children stmt) N'"
    "stmt_fits f V stmt" "stmt_labels stmt \<inter> L = {}" "counted_of f (opt_list (stmt_dst stmt)) \<inter> V = {}"
    "\<forall>c\<in>set (scoped_children stmt). counted_of f (fst c) \<inter> V = {}" by (rule stmt_okE)
  from children_ok_eventually [OF N'(4)] Cons.IH [OF ok(2)] show ?case
  proof eventually_elim
    case (elim n)
    have "stmt_ok (T n) f L V s stmt A" unfolding stmt_ok_def using N' elim(1) by blast
    with stmt elim(2) AB show ?case by auto
  qed
qed simp

lemma seq_ret: "rc_seq_ok f L V i N \<Longrightarrow> eventually (\<lambda>n. call_ret (rk_seq n m) m f L V i N) sequentially"
proof (induction rule: rc_seq_ok.induct)
  case (1 i q L N V)
  note sq = rc_seq_ok_intro [OF 1]
  have "stmts_ok (\<lambda>L V i N. eventually (\<lambda>n. call_ret (rk_seq n m) m f L V i N) sequentially) f L V (sq_stmts q) (sq_term q) N"
    by (rule stmts_ok_mono [rule_format, OF _ 1(4)]) blast
  from stmts_ok_eventually [OF this]
  have "eventually (\<lambda>n. call_ret (rk_seq (Suc n) m) m f L V i (insert (NSeq i) N)) sequentially"
  proof eventually_elim
    case (elim n)
    show ?case unfolding call_ret_def
    proof (intro conjI allI impI)
      show "call_bal (rk_seq (Suc n) m) m f L V i (insert (NSeq i) N)" by (rule seq_run [OF sq(1)])
      fix f1 K owned yt lt yl lh
      assume "extends (seqs_of (insert (NSeq i) N)) f f1" and r: "recorded m K f i yl lh" "has_targets L K"
      then have "extends (insert i (seqs_of N)) f f1" by simp
      from seq_ret_step [OF 1(1-3) sq(2) elim this r] show "rk_seq (Suc n) m (f1, K) i owned yt lt \<noteq> None" .
    qed
  qed
  then show ?case
    by (rule eventually_sequentially_Suc [where P = "\<lambda>n. call_ret (rk_seq n m) m f L V i (insert (NSeq i) N)", THEN iffD1])
qed

end
