(* ===== verification/Lir_Rc_Module.thy ===== *)
theory Lir_Rc_Module
  imports Lir_Rc_Whole
begin

text \<open>
  The pass on a module (\<open>insert_rc\<close> of \<open>crates/emela-lir/src/heap/rc.rs\<close>). While it runs, functions that
  it has rewritten call functions that it has not; the ownership rules only look at whether a callee is
  external, which does not change, so every function is rewritten as in the module at the start.
\<close>

section \<open>What the pass reads of the module\<close>

lemma value_uses_ext: "is_external m1 = is_external m2 \<Longrightarrow> value_uses m1 f v = value_uses m2 f v"
proof (cases v)
  case (VCall c args s fl)
  then show "is_external m1 = is_external m2 \<Longrightarrow> value_uses m1 f v = value_uses m2 f v" by (cases c) simp_all
qed simp_all

lemma uses_ext:
  assumes "is_external m1 = is_external m2"
  shows "value_uses m1 = value_uses m2" "consumed_by m1 = consumed_by m2" "borrowed_by m1 = borrowed_by m2"
  using value_uses_ext [OF assms] by (simp_all add: fun_eq_iff consumed_by_def borrowed_by_def)

lemma live_stmt_ext: "is_external m1 = is_external m2 \<Longrightarrow> rk_live_stmt n call m1 f = rk_live_stmt n call m2 f"
  by (intro ext) (simp only: rk_live_stmt_def uses_ext [of m1 m2])

lemma live_stmts_ext:
  assumes "is_external m1 = is_external m2"
  shows "rk_live_stmts n call m1 f K ss live yl lh = rk_live_stmts n call m2 f K ss live yl lh"
  by (induction ss) (simp_all add: live_stmt_ext [OF assms])

lemma live_seq_ext:
  assumes "is_external m1 = is_external m2"
  shows "rk_live_seq n m1 f = rk_live_seq n m2 f"
proof (induction n)
  case (Suc n)
  show ?case by (intro ext) (simp add: Suc live_stmts_ext [OF assms])
qed (simp add: fun_eq_iff)

lemma live_before_ext: "is_external m1 = is_external m2 \<Longrightarrow> rk_live_before m1 f K s = rk_live_before m2 f K s"
  by (intro ext) (simp only: rk_live_before_def uses_ext [of m1 m2])

lemma afters_ext:
  assumes "is_external m1 = is_external m2"
  shows "rk_afters m1 f K q yt lt = rk_afters m2 f K q yt lt"
proof -
  have "rk_afters_from m1 f K live ss = rk_afters_from m2 f K live ss" for live ss
    by (induction ss) (simp_all add: live_before_ext [OF assms])
  then show ?thesis by (simp add: rk_afters_def)
qed

lemma stmt_ext: "is_external m1 = is_external m2 \<Longrightarrow> rk_stmt call m1 = rk_stmt call m2"
  by (intro ext) (simp only: rk_stmt_def rk_let_def uses_ext [of m1 m2])

lemma stmts_ext:
  assumes "is_external m1 = is_external m2"
  shows "rk_stmts call m1 fk ss owned lt out = rk_stmts call m2 fk ss owned lt out"
proof (induction ss arbitrary: fk owned out)
  case (Cons sa ss)
  obtain s a where "sa = (s, a)" by fastforce
  then show ?case by (auto simp: stmt_ext [OF assms] Cons intro!: Option.bind_cong)
qed simp

lemma seq_ext:
  assumes "is_external m1 = is_external m2"
  shows "rk_seq n m1 = rk_seq n m2"
proof (induction n)
  case (Suc n)
  show ?case by (intro ext) (simp add: Suc stmts_ext [OF assms] afters_ext [OF assms])
qed (simp add: fun_eq_iff)

lemma run_ext: "is_external m1 = is_external m2 \<Longrightarrow> rk_run n m1 f = rk_run n m2 f"
  by (simp add: rk_run_def live_seq_ext [of m1 m2] seq_ext [of m1 m2])

lemma balanced_ext:
  assumes "is_external m1 = is_external m2"
  shows "balanced m1 f tr out \<longleftrightarrow> balanced m2 f tr out"
proof -
  have event: "count_event m1 f e C = count_event m2 f e C" for e C
    by (cases e) (simp_all only: count_event.simps uses_ext [OF assms])
  have "count_path m1 f tr = count_path m2 f tr"
  proof (induction tr)
    case (Cons e tr)
    show ?case by (intro ext) (simp add: event Cons)
  qed (simp add: fun_eq_iff)
  then show ?thesis by (simp add: balanced_def)
qed

section \<open>The loop over the functions\<close>

text \<open>What becomes of one function.\<close>

definition rc_fn_result :: "nat \<Rightarrow> lir_module \<Rightarrow> bool \<Rightarrow> lir_fn \<Rightarrow> lir_fn \<Rightarrow> bool" where
  "rc_fn_result n m ok f f' \<longleftrightarrow>
     (if f_body f = None then f' = f else \<exists>K. rk_run n m f = Some (f', K) \<and> (ok \<longrightarrow> rk_asserts K))"

lemma run_adds:
  assumes "rk_run n m f = Some (f', K)"
  shows "adds_rc f f'"
proof -
  obtain b live K1 f2 where b: "f_body f = Some b" and live: "rk_live_seq n m f rc_counter_new b {} None = Some (live, K1)"
    and seq: "rk_seq n m (f, K1) b (start_owned f (rk_env f live)) {} None = Some (f2, K)"
    and f': "f' = rk_env_dup f2 b (rk_env f live)" by (rule run_split [OF assms])
  note c = call_addsD [OF seq_adds seq]
  obtain q where q: "get_seq f b = Some q" using seq by (cases n) (auto simp: bind_eq_Some_conv)
  then obtain q' where "get_seq f2 b = Some q'"
    using c(1) list_all2_lengthD [of _ "f_seqs f" "f_seqs f2"] by (fastforce simp: adds_rc_def get_seq_def split: if_splits)
  from adds_trans [OF c(1) env_dup_adds [OF this]] f' show ?thesis by simp
qed

lemma run_asserts:
  assumes "rk_run n m f = Some (f', K)" "rc_fn_ok f" "no_edges f"
  shows "rk_asserts K"
proof -
  obtain b live K1 f2 where b: "f_body f = Some b" and live: "rk_live_seq n m f rc_counter_new b {} None = Some (live, K1)"
    and seq: "rk_seq n m (f, K1) b (start_owned f (rk_env f live)) {} None = Some (f2, K)" by (rule run_split [OF assms(1)])
  from assms(2) b obtain N where "rc_seq_ok f {} (counted_of f (f_params f)) b N" by (auto simp: rc_fn_ok_def)
  from call_recD(1) [OF live_seq_rec [OF this] live] call_addsD(2) [OF seq_adds seq assms(3)] show ?thesis
    by (simp add: keeps_def rc_counter_new_def)
qed

lemma run_ret:
  assumes "rc_fn_ok f"
  shows "eventually (\<lambda>n. \<exists>f' K. rk_run n m f = Some (f', K)) sequentially"
proof -
  from assms obtain b N where b: "f_body f = Some b" and ok: "rc_seq_ok f {} (counted_of f (f_params f)) b N" by (auto simp: rc_fn_ok_def)
  from live_seq_once [OF ok, of m] seq_ret [OF ok, of m] show ?thesis
  proof eventually_elim
    case (elim n)
    from elim(1) obtain live K where live: "rk_live_seq n m f rc_counter_new b {} None = Some (live, K)"
      unfolding call_once_def by blast
    have rec: "recorded m K f b {} None" by (rule call_recD(2) [OF live_seq_rec [OF ok] live])
    obtain f2 K2 where "rk_seq n m (f, K) b (set (filter (\<lambda>p. counted f p \<and> \<not> borrowed_param f p) (f_params f))
        \<union> set (opt_list (rk_env f live))) {} None = Some (f2, K2)"
      by (rule call_retE [OF elim(2) fn_extends_refl rec]) (simp add: has_targets_def)
    with b live show ?case by (simp add: rk_run_def Let_def)
  qed
qed

lemma adds_external: "adds_rc f g \<Longrightarrow> f_external g = f_external f"
proof -
  assume "adds_rc f g"
  then have "g\<lparr>f_stmts := f_stmts f, f_seqs := f_seqs f\<rparr> = f" by (simp add: adds_rc_def)
  then have "f_external (g\<lparr>f_stmts := f_stmts f, f_seqs := f_seqs f\<rparr>) = f_external f" by (rule arg_cong)
  then show ?thesis by simp
qed

lemma external_update:
  assumes "i < length (m_functions m)" "adds_rc (m_functions m ! i) g"
  shows "is_external (m\<lparr>m_functions := (m_functions m)[i := g]\<rparr>) = is_external m"
  using adds_external [OF assms(2)] assms(1) by (auto simp: fun_eq_iff is_external_def nth_list_update)

lemma insert_fns_run:
  assumes "insert_rc_fns n m is ok = Some (m', ok')" "distinct is" "\<forall>i\<in>set is. i < length (m_functions m)"
  shows "m'\<lparr>m_functions := m_functions m\<rparr> = m \<and> is_external m' = is_external m \<and> length (m_functions m') = length (m_functions m)
     \<and> (ok' \<longrightarrow> ok) \<and> (\<forall>j. j \<notin> set is \<longrightarrow> m_functions m' ! j = m_functions m ! j)
     \<and> (\<forall>i\<in>set is. rc_fn_result n m ok' (m_functions m ! i) (m_functions m' ! i))"
  using assms
proof (induction "is" arbitrary: m ok)
  case (Cons i js)
  let ?f = "m_functions m ! i"
  have i: "i < length (m_functions m)" "i \<notin> set js" using Cons.prems by auto
  show ?case
  proof (cases "f_body ?f = None")
    case True
    then have run: "insert_rc_fns n m js ok = Some (m', ok')" using Cons.prems(1) by simp
    from Cons.IH [OF run] Cons.prems(2,3) True i(2) show ?thesis by (auto simp: rc_fn_result_def)
  next
    case False
    with Cons.prems(1) obtain g K where g: "rk_run n m ?f = Some (g, K)"
      and run: "insert_rc_fns n (m\<lparr>m_functions := (m_functions m)[i := g]\<rparr>) js (ok \<and> rk_asserts K) = Some (m', ok')"
      by (auto simp: bind_eq_Some_conv)
    let ?m = "m\<lparr>m_functions := (m_functions m)[i := g]\<rparr>"
    note ext = external_update [OF i(1) run_adds [OF g]]
    have IH: "m'\<lparr>m_functions := m_functions ?m\<rparr> = ?m" "is_external m' = is_external ?m" "length (m_functions m') = length (m_functions ?m)"
      "ok' \<longrightarrow> ok \<and> rk_asserts K" "\<forall>j. j \<notin> set js \<longrightarrow> m_functions m' ! j = m_functions ?m ! j"
      "\<forall>i\<in>set js. rc_fn_result n ?m ok' (m_functions ?m ! i) (m_functions m' ! i)"
      using Cons.IH [OF run] Cons.prems(2,3) by simp_all
    have "m'\<lparr>m_functions := m_functions m\<rparr> = m"
    proof -
      have "m'\<lparr>m_functions := m_functions ?m\<rparr>\<lparr>m_functions := m_functions m\<rparr> = m" unfolding IH(1) by simp
      then show ?thesis by simp
    qed
    moreover have "rc_fn_result n m ok' ?f (m_functions m' ! i)"
      using IH(4,5) i g False by (auto simp: rc_fn_result_def)
    moreover have "rc_fn_result n m ok' (m_functions m ! j) (m_functions m' ! j)" if j: "j \<in> set js" for j
    proof -
      have "m_functions ?m ! j = m_functions m ! j" using j i(2) by (cases "j = i") simp_all
      with IH(6) j have "rc_fn_result n ?m ok' (m_functions m ! j) (m_functions m' ! j)" by metis
      then show ?thesis by (simp only: rc_fn_result_def run_ext [OF ext])
    qed
    ultimately show ?thesis using IH(2-5) ext i by (auto simp: nth_list_update)
  qed
qed simp

lemma insert_rc_run:
  assumes "insert_rc n m = Some (m', ok)"
  shows "m'\<lparr>m_functions := m_functions m, m_stage := m_stage m\<rparr> = m" "is_external m' = is_external m" "m_stage m' = RefCounted"
    "list_all2 (rc_fn_result n m ok) (m_functions m) (m_functions m')"
proof -
  from assms obtain m1 where run: "insert_rc_fns n m [0..<length (m_functions m)] True = Some (m1, ok)"
    and m': "m' = m1\<lparr>m_stage := RefCounted\<rparr>" by (auto simp: insert_rc_def bind_eq_Some_conv split: if_splits)
  from insert_fns_run [OF run] have *: "m1\<lparr>m_functions := m_functions m\<rparr> = m" "is_external m1 = is_external m"
    "length (m_functions m1) = length (m_functions m)"
    "\<forall>i<length (m_functions m). rc_fn_result n m ok (m_functions m ! i) (m_functions m1 ! i)" by auto
  have "m1\<lparr>m_functions := m_functions m\<rparr>\<lparr>m_stage := m_stage m\<rparr> = m" unfolding *(1) by simp
  then show "m'\<lparr>m_functions := m_functions m, m_stage := m_stage m\<rparr> = m" using m' by simp
  show "is_external m' = is_external m" using *(2) m' by (simp add: fun_eq_iff is_external_def)
  show "m_stage m' = RefCounted" using m' by simp
  show "list_all2 (rc_fn_result n m ok) (m_functions m) (m_functions m')" using *(3,4) m' by (simp add: list_all2_conv_all_nth)
qed

lemma insert_fns_ret:
  assumes "distinct is" "\<forall>i\<in>set is. i < length (m_functions m) \<and> (f_body (m_functions m ! i) \<noteq> None \<longrightarrow>
      rc_fn_ok (m_functions m ! i) \<and> (\<exists>f' K. rk_run n m (m_functions m ! i) = Some (f', K)))"
  shows "\<exists>m' ok'. insert_rc_fns n m is ok = Some (m', ok') \<and> (ok \<and> (\<forall>i\<in>set is. no_edges (m_functions m ! i)) \<longrightarrow> ok')"
  using assms
proof (induction "is" arbitrary: m ok)
  case (Cons i js)
  let ?f = "m_functions m ! i"
  have i: "i < length (m_functions m)" "i \<notin> set js" using Cons.prems by auto
  show ?case
  proof (cases "f_body ?f = None")
    case True
    from Cons.IH [of m ok] Cons.prems True show ?thesis by auto
  next
    case False
    with Cons.prems(2) obtain g K where g: "rk_run n m ?f = Some (g, K)" and ok: "rc_fn_ok ?f" by auto
    let ?m = "m\<lparr>m_functions := (m_functions m)[i := g]\<rparr>"
    note run = run_ext [OF external_update [OF i(1) run_adds [OF g]]]
    have same: "m_functions ?m ! j = m_functions m ! j" if "j \<in> set js" for j using that i(2) by (cases "j = i") simp_all
    have "\<exists>m' ok'. insert_rc_fns n ?m js (ok \<and> rk_asserts K) = Some (m', ok')
        \<and> ((ok \<and> rk_asserts K) \<and> (\<forall>i\<in>set js. no_edges (m_functions ?m ! i)) \<longrightarrow> ok')"
    proof (rule Cons.IH)
      show "distinct js" using Cons.prems(1) by simp
      show "\<forall>i\<in>set js. i < length (m_functions ?m) \<and> (f_body (m_functions ?m ! i) \<noteq> None \<longrightarrow>
          rc_fn_ok (m_functions ?m ! i) \<and> (\<exists>f' K. rk_run n ?m (m_functions ?m ! i) = Some (f', K)))"
        unfolding run using Cons.prems(2) same by (simp del: lir_module.simps(7))
    qed
    then obtain m' ok' where m': "insert_rc_fns n ?m js (ok \<and> rk_asserts K) = Some (m', ok')"
      "(ok \<and> rk_asserts K) \<and> (\<forall>i\<in>set js. no_edges (m_functions m ! i)) \<longrightarrow> ok'" using same by (metis (no_types, lifting))
    with run_asserts [OF g ok] g False show ?thesis by auto
  qed
qed simp

section \<open>The pass on a module\<close>

definition rc_module_ok :: "lir_module \<Rightarrow> bool" where
  "rc_module_ok m \<longleftrightarrow> m_stage m = StateMachines \<and> list_all (\<lambda>f. f_body f \<noteq> None \<longrightarrow> rc_fn_ok f) (m_functions m)"

text \<open>
  C2: every function of a module after the pass is balanced: on every path from its start, through branches,
  loops, breaks, landings and suspensions, every reference taken is there, and when the path leaves the function
  each reference has been given away or dropped exactly once. The module is at the stage of the state machines, the sequences
  of each function form a tree in which variables are used in their scope, and the debug assertions of the pass hold.
\<close>

theorem insert_rc_balanced:
  assumes "rc_module_ok m" "insert_rc n m = Some (m', True)" "f' \<in> set (m_functions m')" "fn_path f' tr out"
  shows "balanced m' f' tr out"
proof -
  note run = insert_rc_run [OF assms(2)]
  from run(4) assms(3) obtain f where f: "f \<in> set (m_functions m)" "rc_fn_result n m True f f'"
    by (fastforce simp: list_all2_conv_all_nth in_set_conv_nth)
  have body: "f_body f \<noteq> None" using f(2) assms(4) by (auto simp: rc_fn_result_def fn_path_def split: if_splits)
  with f(2) obtain K where K: "rk_run n m f = Some (f', K)" "rk_asserts K" by (auto simp: rc_fn_result_def split: if_splits)
  have "rc_fn_ok f" using assms(1) f(1) body by (auto simp: rc_module_ok_def list_all_iff)
  from run_balanced [OF this K] obtain b q R where "f_body f' = Some b" "get_seq f' b = Some q"
    "bal_stmts m f' R (\<lambda>x. ind {}) (entry_counts f') (sq_stmts q) (sq_term q)" by blast
  from bal_balanced [OF this(2,1,3) assms(4)] show ?thesis by (simp add: balanced_ext [OF run(2)])
qed


text \<open>
  C16: the pass changes no computation: each function keeps everything but its statements and sequences, the
  new statements are only \<open>dup\<close> and \<open>drop\<close>, and without them each sequence has its old statements in their
  order and its terminator. The module is at the next stage and has nothing else changed.
\<close>

theorem insert_rc_adds:
  assumes "insert_rc n m = Some (m', ok)"
  shows "list_all2 adds_rc (m_functions m) (m_functions m') \<and> m_stage m' = RefCounted
    \<and> m'\<lparr>m_functions := m_functions m, m_stage := m_stage m\<rparr> = m"
proof -
  have "adds_rc f f'" if "rc_fn_result n m ok f f'" for f f'
    using that run_adds by (auto simp: rc_fn_result_def split: if_splits)
  with insert_rc_run [OF assms] show ?thesis by (auto intro: list_all2_mono)
qed

section \<open>An example\<close>

text \<open>\<open>f(x) = { p = (x, x); r = if true { yield p } else { s = "x"; yield s }; return r }\<close>.\<close>

definition plain_fn :: lir_fn where
  "plain_fn = (fn_new ''plain'')
     \<lparr>f_params := [0], f_body := Some 0,
      f_vars := map (\<lambda>h. \<lparr>vd_hint = h, vd_repr = Ref, vd_ty = 0\<rparr>) [''x'', ''p'', ''r'', ''s''],
      f_stmts := [SLet (Some 1) (VTuple [OVar 0, OVar 0]) None None, SIf (Some 2) (OConst (CBool True)) 1 2,
                  SLet (Some 3) (VConst (CString ''x'')) None None],
      f_seqs := [\<lparr>sq_stmts = [0, 1], sq_term = Return (Some (OVar 2))\<rparr>,
                 \<lparr>sq_stmts = [], sq_term = Yield (Some (OVar 1))\<rparr>,
                 \<lparr>sq_stmts = [2], sq_term = Yield (Some (OVar 3))\<rparr>]\<rparr>"

definition counted_fn :: lir_fn where
  "counted_fn = plain_fn
     \<lparr>f_stmts := f_stmts plain_fn @ [SDup 0, SDrop 1],
      f_seqs := [\<lparr>sq_stmts = [3, 0, 1], sq_term = Return (Some (OVar 2))\<rparr>,
                 \<lparr>sq_stmts = [], sq_term = Yield (Some (OVar 1))\<rparr>,
                 \<lparr>sq_stmts = [4, 2], sq_term = Yield (Some (OVar 3))\<rparr>]\<rparr>"

definition plain_module :: lir_module where
  "plain_module = (module_new \<lparr>core_enums = [], core_effects = [], core_types = \<lparr>types = [], param_flags = [], ids = Map.empty\<rparr>\<rparr>)
     \<lparr>m_functions := [plain_fn], m_stage := StateMachines\<rparr>"

definition counted_module :: lir_module where
  "counted_module = plain_module\<lparr>m_functions := [counted_fn], m_stage := RefCounted\<rparr>"

lemma plain_run: "map_option (\<lambda>(f, K). (f, rk_asserts K)) (rk_run 4 plain_module plain_fn) = Some (counted_fn, True)"
  by code_simp

lemma plain_insert: "insert_rc 4 plain_module = Some (counted_module, True)"
proof -
  from plain_run obtain K where "rk_run 4 plain_module plain_fn = Some (counted_fn, K)" "rk_asserts K" by auto
  moreover have "f_body plain_fn = Some 0" "m_functions plain_module = [plain_fn]" "m_stage plain_module = StateMachines"
    by (simp_all add: plain_fn_def plain_module_def)
  ultimately show ?thesis by (simp add: insert_rc_def counted_module_def)
qed

lemma plain_parts:
  "get_seq plain_fn 0 = Some \<lparr>sq_stmts = [0, 1], sq_term = Return (Some (OVar 2))\<rparr>"
  "get_seq plain_fn 1 = Some \<lparr>sq_stmts = [], sq_term = Yield (Some (OVar 1))\<rparr>"
  "get_seq plain_fn 2 = Some \<lparr>sq_stmts = [2], sq_term = Yield (Some (OVar 3))\<rparr>"
  "get_stmt plain_fn 0 = Some (SLet (Some 1) (VTuple [OVar 0, OVar 0]) None None)"
  "get_stmt plain_fn 1 = Some (SIf (Some 2) (OConst (CBool True)) 1 2)"
  "get_stmt plain_fn 2 = Some (SLet (Some 3) (VConst (CString ''x'')) None None)"
  "f_body plain_fn = Some 0" "f_params plain_fn = [0]" "f_env plain_fn = None"
  "counted plain_fn 0" "counted plain_fn 1" "counted plain_fn 2" "counted plain_fn 3"
  by (simp_all add: plain_fn_def get_seq_def get_stmt_def fn_new_def counted_def numeral_2_eq_2 numeral_3_eq_3)

lemmas plain_eval = plain_parts plain_parts [unfolded One_nat_def] counted_of_def opt_list_def operand_vars_def ops_vars_def

lemma children_ok_ConsI:
  "T L (V \<union> counted_of f (fst c)) (snd c) A \<Longrightarrow> children_ok T f L V cs B \<Longrightarrow> A \<inter> B = {} \<Longrightarrow> children_ok T f L V (c # cs) (A \<union> B)"
  by (auto simp: children_ok_Cons)

lemma children_ok_Nil: "children_ok T f L V [] {}"
  by (simp add: children_ok_def)

lemma stmts_ok_ConsI:
  "get_stmt f s = Some stmt \<Longrightarrow> stmt_ok T f L V s stmt A \<Longrightarrow> stmts_ok T f L (V \<union> counted_of f (opt_list (stmt_dst stmt))) ss t B \<Longrightarrow>
   A \<inter> B = {} \<Longrightarrow> stmts_ok T f L V (s # ss) t (A \<union> B)"
  by auto

lemma plain_ok: "rc_fn_ok plain_fn"
proof -
  have 1: "rc_seq_ok plain_fn {} {0, 1} 1 {NSeq 1}"
    by (rule rc_seq_ok.intros [OF plain_parts(2), of _ "{}"]) (simp_all add: plain_eval)
  have 2: "rc_seq_ok plain_fn {} {0, 1} 2 (insert (NSeq 2) {NStmt 2})"
    by (rule rc_seq_ok.intros [OF plain_parts(3)]) (simp_all add: plain_eval stmt_ok_def children_ok_def)
  have s: "stmt_ok (rc_seq_ok plain_fn) plain_fn {} {0, 1} 1 (SIf (Some 2) (OConst (CBool True)) 1 2)
      (insert (NStmt 1) {NSeq 1, NSeq 2, NStmt 2})"
    unfolding stmt_ok_def
  proof (intro conjI exI [of _ "{NSeq 1, NSeq 2, NStmt 2}"])
    show "children_ok (rc_seq_ok plain_fn) plain_fn ({} \<union> stmt_labels (SIf (Some 2) (OConst (CBool True)) 1 2)) {0, 1}
        (scoped_children (SIf (Some 2) (OConst (CBool True)) 1 2)) {NSeq 1, NSeq 2, NStmt 2}"
      using children_ok_ConsI [of "rc_seq_ok plain_fn" "{}" "{0, 1}" plain_fn "([], 1)" "{NSeq 1}",
          OF _ children_ok_ConsI [of "rc_seq_ok plain_fn" "{}" "{0, 1}" plain_fn "([], 2)" "{NSeq 2, NStmt 2}", OF _ children_ok_Nil]] 1 2
      by (simp add: counted_of_def insert_commute)
  qed (simp_all add: plain_eval)
  have s0: "stmt_ok (rc_seq_ok plain_fn) plain_fn {} {0} 0 (SLet (Some 1) (VTuple [OVar 0, OVar 0]) None None) {NStmt 0}"
    by (simp add: stmt_ok_def children_ok_def plain_eval)
  have "stmts_ok (rc_seq_ok plain_fn) plain_fn {} {0} [0, 1] (Return (Some (OVar 2)))
      ({NStmt 0} \<union> ({NStmt 1, NSeq 1, NSeq 2, NStmt 2} \<union> {}))"
  proof (rule stmts_ok_ConsI [OF plain_parts(4) s0])
    have "{0} \<union> counted_of plain_fn (opt_list (stmt_dst (SLet (Some 1) (VTuple [OVar 0, OVar 0]) None None))) = {0, 1}"
      by (simp add: plain_eval insert_commute)
    moreover have "stmts_ok (rc_seq_ok plain_fn) plain_fn {} {0, 1} [1] (Return (Some (OVar 2))) ({NStmt 1, NSeq 1, NSeq 2, NStmt 2} \<union> {})"
      by (rule stmts_ok_ConsI [OF plain_parts(5) s]) (simp_all add: plain_eval)
    ultimately show "stmts_ok (rc_seq_ok plain_fn) plain_fn {}
        ({0} \<union> counted_of plain_fn (opt_list (stmt_dst (SLet (Some 1) (VTuple [OVar 0, OVar 0]) None None)))) [1]
        (Return (Some (OVar 2))) ({NStmt 1, NSeq 1, NSeq 2, NStmt 2} \<union> {})" by (simp only:)
  qed simp
  then have "rc_seq_ok plain_fn {} {0} 0 (insert (NSeq 0) ({NStmt 0} \<union> ({NStmt 1, NSeq 1, NSeq 2, NStmt 2} \<union> {})))"
    by (intro rc_seq_ok.intros [OF plain_parts(1)]) (simp_all del: stmts_ok.simps)
  then show ?thesis by (auto simp: rc_fn_ok_def plain_eval borrowed_param_def)
qed

lemma counted_parts:
  "get_seq counted_fn 0 = Some \<lparr>sq_stmts = [3, 0, 1], sq_term = Return (Some (OVar 2))\<rparr>"
  "get_seq counted_fn 2 = Some \<lparr>sq_stmts = [4, 2], sq_term = Yield (Some (OVar 3))\<rparr>"
  "get_stmt counted_fn 0 = Some (SLet (Some 1) (VTuple [OVar 0, OVar 0]) None None)"
  "get_stmt counted_fn 1 = Some (SIf (Some 2) (OConst (CBool True)) 1 2)"
  "get_stmt counted_fn 2 = Some (SLet (Some 3) (VConst (CString ''x'')) None None)"
  "get_stmt counted_fn 3 = Some (SDup 0)" "get_stmt counted_fn 4 = Some (SDrop 1)" "f_body counted_fn = Some 0"
  by (simp_all add: counted_fn_def plain_fn_def get_seq_def get_stmt_def fn_new_def numeral_2_eq_2 numeral_3_eq_3)

lemma counted_path:
  "fn_path counted_fn [EDup 0, ELet 0, EDst 0, ERead [], EDrop 1, ELet 2, EDst 2, ETerm (Yield (Some (OVar 3))), EOwn 2,
     ETerm (Return (Some (OVar 2)))] OLeave"
proof -
  note step = path_seq_path_stmts_path_stmt_path_loop.step and finish = path_seq_path_stmts_path_stmt_path_loop.finish
    and let_ok = path_seq_path_stmts_path_stmt_path_loop.let_ok
  have "path_stmts counted_fn [4, 2] (Yield (Some (OVar 3)))
      ([EDrop 1] @ (ELet 2 # dst_events 2 (Some 3)) @ [ETerm (Yield (Some (OVar 3)))]) (term_outcome (Yield (Some (OVar 3))))"
    by (intro step finish let_ok [OF counted_parts(5)] path_seq_path_stmts_path_stmt_path_loop.drop [OF counted_parts(7)])
  then have 2: "path_seq counted_fn 2 [EDrop 1, ELet 2, EDst 2, ETerm (Yield (Some (OVar 3)))] OYield"
    by (intro path_seq_path_stmts_path_stmt_path_loop.seq [OF counted_parts(2)]) simp
  have i: "path_stmt counted_fn 1 (ERead [] # [EDrop 1, ELet 2, EDst 2, ETerm (Yield (Some (OVar 3)))] @ own_events (Some 2)) None"
    by (rule path_seq_path_stmts_path_stmt_path_loop.branch [OF counted_parts(4) _ _ 2, where bs = "[1, 2]"]) simp_all
  have "path_stmts counted_fn [3, 0, 1] (Return (Some (OVar 2))) ([EDup 0] @ (ELet 0 # dst_events 0 (Some 1))
      @ (ERead [] # [EDrop 1, ELet 2, EDst 2, ETerm (Yield (Some (OVar 3)))] @ own_events (Some 2))
      @ [ETerm (Return (Some (OVar 2)))]) (term_outcome (Return (Some (OVar 2))))"
    by (intro step finish i let_ok [OF counted_parts(3)] path_seq_path_stmts_path_stmt_path_loop.dup [OF counted_parts(6)])
  then show ?thesis
    unfolding fn_path_def counted_parts(8)
    by (intro exI [of _ 0] conjI path_seq_path_stmts_path_stmt_path_loop.seq [OF counted_parts(1)]) simp_all
qed

lemma plain_module_ok: "rc_module_ok plain_module"
  using plain_ok by (simp add: rc_module_ok_def plain_module_def)

theorem insert_rc_balanced_witness:
  "insert_rc 4 plain_module = Some (counted_module, True)
   \<and> balanced counted_module counted_fn [EDup 0, ELet 0, EDst 0, ERead [], EDrop 1, ELet 2, EDst 2, ETerm (Yield (Some (OVar 3))),
       EOwn 2, ETerm (Return (Some (OVar 2)))] OLeave"
  using plain_insert insert_rc_balanced [OF plain_module_ok plain_insert _ counted_path] by (simp add: counted_module_def)


theorem insert_rc_adds_witness:
  "list_all2 adds_rc (m_functions plain_module) (m_functions counted_module) \<and> m_stage counted_module = RefCounted"
  using insert_rc_adds [OF plain_insert] by simp

end
