(* ===== verification/Types_Ty.thy ===== *)
theory Types_Ty
  imports Emela_Prelude "HOL-Library.Product_Lexorder"
begin

text \<open>
  The types of the type checker: \<open>crates/emela-types/src/ty.rs\<close>, the error and effect sets of
  \<open>row.rs\<close>, the type schemes of \<open>scheme.rs\<close>, and the substitutions at the end of \<open>infer.rs\<close>.

  \<open>Box\<close> has no counterpart, the fields of \<open>FnTy\<close> and of \<open>Tag\<close> are the arguments of the
  constructors that hold them, and \<open>Ty::for_each_child\<close> is the list of the types it visits.
  Indices are natural numbers; where the code truncates a \<open>usize\<close> to \<open>u32\<close> the model does too.
\<close>

section \<open>Types and sets\<close>

type_synonym def_id = nat
type_synonym ty_con_id = nat
type_synonym ty_var = nat
type_synonym row_var = nat

datatype prim = PInt | PInt64 | PFloat | PBool | PString | PUnit

datatype set_kind = Errors | Effects

datatype ty =
    TPrim prim
  | TNever
  | TVar ty_var
  | TBound nat
  | TFn "ty list" ty "row_elem list" "row_elem list"
  | TTuple "ty list"
  | TList ty
  | TNamed ty_con_id "ty list"
  | TSet set_kind "row_elem list"
  | TCap def_id "ty list"
  | TError
and row_elem =
    ETag def_id "ty list"
  | EBound nat
  | EOf ty
  | EVar row_var

type_synonym row = "row_elem list"
type_synonym tag = "def_id \<times> ty list"

text \<open>The sort key of \<open>Row\<close>.\<close>

fun row_order :: "row_elem \<Rightarrow> nat \<times> nat" where
  "row_order (ETag d args) = (0, d)"
| "row_order (EBound i) = (1, i)"
| "row_order (EOf ty) = (2, 0)"
| "row_order (EVar v) = (3, v)"

definition row_insert :: "row \<Rightarrow> row_elem \<Rightarrow> row" where
  "row_insert row e =
     (if e \<in> set row then row
      else takeWhile (\<lambda>x. \<not> row_order x > row_order e) row @ e #
           dropWhile (\<lambda>x. \<not> row_order x > row_order e) row)"

definition row_extend :: "row \<Rightarrow> row \<Rightarrow> row" where
  "row_extend row other = foldl row_insert row other"

definition row_union :: "row \<Rightarrow> row \<Rightarrow> row" where
  "row_union row other = row_extend row other"

definition row_from_elems :: "row_elem list \<Rightarrow> row" where
  "row_from_elems elems = foldl row_insert [] elems"

definition row_tag :: "def_id \<Rightarrow> row" where
  "row_tag d = row_from_elems [ETag d []]"

definition row_of_tag :: "tag \<Rightarrow> row" where
  "row_of_tag t = row_from_elems [ETag (fst t) (snd t)]"

definition row_var :: "row_var \<Rightarrow> row" where
  "row_var v = row_from_elems [EVar v]"

definition row_contains :: "row \<Rightarrow> row_elem \<Rightarrow> bool" where
  "row_contains row e \<longleftrightarrow> e \<in> set row"

definition row_tags :: "row \<Rightarrow> tag list" where
  "row_tags row = List.map_filter (\<lambda>e. case e of ETag d args \<Rightarrow> Some (d, args) | _ \<Rightarrow> None) row"

definition row_vars :: "row \<Rightarrow> row_var list" where
  "row_vars row = List.map_filter (\<lambda>e. case e of EVar v \<Rightarrow> Some v | _ \<Rightarrow> None) row"

text \<open>The types that \<open>Row::for_each_ty\<close> visits, in its order.\<close>

fun elem_tys :: "row_elem \<Rightarrow> ty list" where
  "elem_tys (EOf ty) = [ty]"
| "elem_tys (ETag d args) = args"
| "elem_tys (EBound i) = []"
| "elem_tys (EVar v) = []"

definition row_tys :: "row \<Rightarrow> ty list" where
  "row_tys row = concat (map elem_tys row)"

fun elem_map_tys :: "(ty \<Rightarrow> ty) \<Rightarrow> row_elem \<Rightarrow> row_elem" where
  "elem_map_tys f (EOf ty) = EOf (f ty)"
| "elem_map_tys f (ETag d args) = ETag d (map f args)"
| "elem_map_tys f (EBound i) = EBound i"
| "elem_map_tys f (EVar v) = EVar v"

definition row_map_tys :: "(ty \<Rightarrow> ty) \<Rightarrow> row \<Rightarrow> row" where
  "row_map_tys f row = row_from_elems (map (elem_map_tys f) row)"

definition row_flat_map :: "(row_elem \<Rightarrow> row) \<Rightarrow> row \<Rightarrow> row" where
  "row_flat_map f row = foldl (\<lambda>out e. row_extend out (f e)) [] row"

definition func :: "ty list \<Rightarrow> ty \<Rightarrow> ty" where
  "func params ret = TFn params ret [] []"

text \<open>\<open>Ty::for_each_child\<close> and \<open>Ty::map_children\<close>.\<close>

fun ty_children :: "ty \<Rightarrow> ty list" where
  "ty_children (TCap d args) = args"
| "ty_children (TFn params ret fails uses) = params @ [ret] @ row_tys fails @ row_tys uses"
| "ty_children (TSet k row) = row_tys row"
| "ty_children (TTuple elems) = elems"
| "ty_children (TNamed c args) = args"
| "ty_children (TList elem) = [elem]"
| "ty_children (TPrim p) = []"
| "ty_children TNever = []"
| "ty_children (TVar v) = []"
| "ty_children (TBound i) = []"
| "ty_children TError = []"

fun ty_map_children :: "(ty \<Rightarrow> ty) \<Rightarrow> ty \<Rightarrow> ty" where
  "ty_map_children f (TCap d args) = TCap d (map f args)"
| "ty_map_children f (TFn params ret fails uses) =
     TFn (map f params) (f ret) (row_map_tys f fails) (row_map_tys f uses)"
| "ty_map_children f (TSet k row) = TSet k (row_map_tys f row)"
| "ty_map_children f (TTuple elems) = TTuple (map f elems)"
| "ty_map_children f (TNamed c args) = TNamed c (map f args)"
| "ty_map_children f (TList elem) = TList (f elem)"
| "ty_map_children f (TPrim p) = TPrim p"
| "ty_map_children f TNever = TNever"
| "ty_map_children f (TVar v) = TVar v"
| "ty_map_children f (TBound i) = TBound i"
| "ty_map_children f TError = TError"

text \<open>
  The same with a closure that may run out of fuel; the whole call then does.
\<close>

definition row_map_tys_opt :: "(ty \<Rightarrow> ty option) \<Rightarrow> row \<Rightarrow> row option" where
  "row_map_tys_opt f row =
     (if list_all (\<lambda>c. f c \<noteq> None) (row_tys row) then Some (row_map_tys (the \<circ> f) row) else None)"

definition row_flat_map_opt :: "(row_elem \<Rightarrow> row option) \<Rightarrow> row \<Rightarrow> row option" where
  "row_flat_map_opt f row =
     (if list_all (\<lambda>e. f e \<noteq> None) row then Some (row_flat_map (the \<circ> f) row) else None)"

definition ty_map_children_opt :: "(ty \<Rightarrow> ty option) \<Rightarrow> ty \<Rightarrow> ty option" where
  "ty_map_children_opt f ty =
     (if list_all (\<lambda>c. f c \<noteq> None) (ty_children ty) then Some (ty_map_children (the \<circ> f) ty)
      else None)"

text \<open>\<open>Tag::map_args\<close> and the argument lists of functions, likewise.\<close>

definition map_opt :: "('a \<Rightarrow> 'b option) \<Rightarrow> 'a list \<Rightarrow> 'b list option" where
  "map_opt f xs = (if list_all (\<lambda>x. f x \<noteq> None) xs then Some (map (the \<circ> f) xs) else None)"

text \<open>
  Substitution of type parameters (\<open>substitute\<close>, \<open>substitute_row\<close>, \<open>substitute_bound\<close>) and the
  replacement of inference variables by type parameters (\<open>replace_vars\<close>). The congruence rules give
  their termination: a recursive call is on a child of the type.
\<close>

lemma row_flat_map_cong [fundef_cong]:
  assumes "row = row'" and "\<And>e. e \<in> set row' \<Longrightarrow> f e = g e"
  shows "row_flat_map f row = row_flat_map g row'"
  unfolding row_flat_map_def assms(1) using assms(2) by (intro foldl_cong) auto

lemma elem_map_tys_cong [fundef_cong]:
  assumes "e = e'" and "\<And>t. t \<in> set (elem_tys e') \<Longrightarrow> f t = g t"
  shows "elem_map_tys f e = elem_map_tys g e'"
  using assms by (cases e') auto

lemma row_map_tys_cong [fundef_cong]:
  assumes "row = row'" and "\<And>t. t \<in> set (row_tys row') \<Longrightarrow> f t = g t"
  shows "row_map_tys f row = row_map_tys g row'"
proof -
  have "elem_map_tys f e = elem_map_tys g e" if "e \<in> set row'" for e
    using that assms(2) by (intro elem_map_tys_cong) (auto simp: row_tys_def)
  then have "map (elem_map_tys f) row' = map (elem_map_tys g) row'"
    by simp
  then show ?thesis by (simp only: row_map_tys_def assms(1))
qed

lemma ty_map_children_cong [fundef_cong]:
  assumes "ty = ty'" and "\<And>c. c \<in> set (ty_children ty') \<Longrightarrow> f c = g c"
  shows "ty_map_children f ty = ty_map_children g ty'"
  using assms by (cases ty') (auto intro!: row_map_tys_cong)

lemma size_elem_tys: "t \<in> set (elem_tys e) \<Longrightarrow> size t < size e"
  by (cases e) (auto simp: less_Suc_eq_le dest: size_list_estimation' [where f = size and y = "size t"])

lemma size_row_tys: "t \<in> set (row_tys row) \<Longrightarrow> size t < size_list size row"
proof -
  assume "t \<in> set (row_tys row)"
  then obtain e where e: "e \<in> set row" "t \<in> set (elem_tys e)" by (auto simp: row_tys_def)
  then show ?thesis
    using size_elem_tys [OF e(2)] size_list_estimation [OF e(1), of "size t" size] by simp
qed

lemma size_row_tag: "ETag d args \<in> set row \<Longrightarrow> t \<in> set args \<Longrightarrow> size t < size_list size row"
  by (rule size_row_tys) (force simp: row_tys_def)

lemma size_row_of: "EOf t \<in> set row \<Longrightarrow> size t < size_list size row"
  by (rule size_row_tys) (force simp: row_tys_def)

lemma size_ty_children: "c \<in> set (ty_children ty) \<Longrightarrow> size c < size ty"
  by (cases ty)
    (auto simp: less_Suc_eq_le dest: size_list_estimation' [where f = size and y = "size c"]
       dest!: size_row_tys)

function substitute :: "ty list \<Rightarrow> row list \<Rightarrow> ty \<Rightarrow> ty"
  and substitute_row :: "ty list \<Rightarrow> row list \<Rightarrow> row \<Rightarrow> row"
where
  "substitute tys rows ty =
     (case ty of
        TBound i \<Rightarrow> if i < length tys then tys ! i else ty
      | TFn params ret fails uses \<Rightarrow>
          TFn (map (\<lambda>p. substitute tys rows p) params) (substitute tys rows ret)
            (substitute_row tys rows fails) (substitute_row tys rows uses)
      | TSet k row \<Rightarrow> TSet k (substitute_row tys rows row)
      | _ \<Rightarrow> ty_map_children (\<lambda>c. substitute tys rows c) ty)"
| "substitute_row tys rows row =
     row_flat_map
       (\<lambda>e. case e of
          EBound i \<Rightarrow> if i < length rows then rows ! i else row_from_elems [e]
        | EOf t \<Rightarrow> row_from_elems [EOf (substitute tys rows t)]
        | ETag d args \<Rightarrow> row_of_tag (d, map (\<lambda>a. substitute tys rows a) args)
        | _ \<Rightarrow> row_from_elems [e]) row"
  by pat_completeness auto
termination
  by (relation "measure (case_sum (\<lambda>(_, _, ty). size ty) (\<lambda>(_, _, row). size_list size row))")
    (auto simp: less_Suc_eq_le size_list_estimation' trans_le_add1 trans_le_add2
       dest: size_ty_children size_row_tag size_row_of)

definition substitute_bound :: "ty \<Rightarrow> ty list \<Rightarrow> ty" where
  "substitute_bound ty args =
     substitute args
       (map (\<lambda>(i, a). case a of TSet k row \<Rightarrow> row | _ \<Rightarrow> row_from_elems [EBound (i mod 2 ^ 32)])
          (enumerate 0 args)) ty"

function replace_vars :: "(ty_var \<rightharpoonup> nat) \<Rightarrow> (row_var \<rightharpoonup> nat) \<Rightarrow> ty \<Rightarrow> ty"
  and replace_row :: "(ty_var \<rightharpoonup> nat) \<Rightarrow> (row_var \<rightharpoonup> nat) \<Rightarrow> row \<Rightarrow> row"
where
  "replace_vars tm rm ty =
     (case ty of
        TVar v \<Rightarrow> (case tm v of Some i \<Rightarrow> TBound i | None \<Rightarrow> ty)
      | TSet k row \<Rightarrow> TSet k (replace_row tm rm row)
      | TFn params ret fails uses \<Rightarrow>
          TFn (map (\<lambda>p. replace_vars tm rm p) params) (replace_vars tm rm ret)
            (replace_row tm rm fails) (replace_row tm rm uses)
      | _ \<Rightarrow> ty_map_children (\<lambda>c. replace_vars tm rm c) ty)"
| "replace_row tm rm row =
     row_flat_map
       (\<lambda>e. case e of
          EVar v \<Rightarrow> (case rm v of Some i \<Rightarrow> row_from_elems [EBound i] | None \<Rightarrow> row_var v)
        | EOf t \<Rightarrow> row_from_elems [EOf (replace_vars tm rm t)]
        | ETag d args \<Rightarrow> row_of_tag (d, map (\<lambda>a. replace_vars tm rm a) args)
        | _ \<Rightarrow> row_from_elems [e]) row"
  by pat_completeness auto
termination
  by (relation "measure (case_sum (\<lambda>(_, _, ty). size ty) (\<lambda>(_, _, row). size_list size row))")
    (auto simp: less_Suc_eq_le size_list_estimation' trans_le_add1 trans_le_add2
       dest: size_ty_children size_row_tag size_row_of)

text \<open>\<open>free_row_vars\<close>: the set variables of a type with their kinds, in order of first occurrence.\<close>

definition add_row_vars ::
    "set_kind \<Rightarrow> row \<Rightarrow> (row_var \<times> set_kind) list \<Rightarrow> (row_var \<times> set_kind) list" where
  "add_row_vars k row out =
     foldl (\<lambda>out v. if v \<in> fst ` set out then out else out @ [(v, k)]) out (row_vars row)"

function collect_row_vars :: "ty \<Rightarrow> (row_var \<times> set_kind) list \<Rightarrow> (row_var \<times> set_kind) list" where
  "collect_row_vars ty out =
     foldl (\<lambda>out c. collect_row_vars c out)
       (case ty of
          TFn params ret fails uses \<Rightarrow> add_row_vars Effects uses (add_row_vars Errors fails out)
        | TSet k row \<Rightarrow> add_row_vars k row out
        | _ \<Rightarrow> out) (ty_children ty)"
  by pat_completeness auto
termination
  by (relation "measure (\<lambda>(ty, _). size ty)") (auto dest: size_ty_children)

definition free_row_vars :: "ty \<Rightarrow> (row_var \<times> set_kind) list" where
  "free_row_vars ty = collect_row_vars ty []"

declare replace_vars.simps [simp del] replace_row.simps [simp del] collect_row_vars.simps [simp del]
declare substitute.simps [simp del] substitute_row.simps [simp del]

text \<open>Type parameters and schemes.\<close>

datatype param_kind = KType | KSet

record ty_param =
  tp_name :: string
  tp_bounds :: "string list"
  tp_traits :: "def_id list"
  tp_kind :: param_kind

definition ty_param_new :: "string \<Rightarrow> ty_param" where
  "ty_param_new name = \<lparr>tp_name = name, tp_bounds = [], tp_traits = [], tp_kind = KType\<rparr>"

definition ty_param_set :: "string \<Rightarrow> ty_param" where
  "ty_param_set name = (ty_param_new name)\<lparr>tp_kind := KSet\<rparr>"

record scheme =
  sc_params :: "ty_param list"
  sc_ty :: ty

definition param_name :: "nat \<Rightarrow> string" where
  "param_name i = (if i < 26 then [char_of (byte (CHR ''A'') + i)] else ''T'' @ show_nat i)"

definition set_param_name :: "string \<Rightarrow> nat \<Rightarrow> string" where
  "set_param_name pre i = (if i = 0 then pre else pre @ show_nat i)"

section \<open>Lemmas\<close>

lemma set_row_insert [simp]: "set (row_insert row e) = insert e (set row)"
  by (auto simp: row_insert_def dest: set_takeWhileD set_dropWhileD)
    (metis Un_iff set_append takeWhile_dropWhile_id)

lemma set_foldl_row_insert [simp]: "set (foldl row_insert row es) = set row \<union> set es"
  by (induction es arbitrary: row) auto

lemma set_row_extend [simp]: "set (row_extend row other) = set row \<union> set other"
  by (simp add: row_extend_def)

lemma set_row_from_elems [simp]: "set (row_from_elems es) = set es"
  by (simp add: row_from_elems_def)

lemma set_foldl_row_extend:
  "set (foldl (\<lambda>out e. row_extend out (f e)) row es) = set row \<union> (\<Union>e\<in>set es. set (f e))"
  by (induction es arbitrary: row) auto

lemma set_row_flat_map [simp]: "set (row_flat_map f row) = (\<Union>e\<in>set row. set (f e))"
  by (simp add: row_flat_map_def set_foldl_row_extend)

lemma set_row_map_tys [simp]: "set (row_map_tys f row) = elem_map_tys f ` set row"
  by (simp add: row_map_tys_def)

end
