(* ===== verification/Types_Infer.thy ===== *)
theory Types_Infer
  imports Types_Ty
begin

text \<open>
  Unification, joining with \<open>Never\<close>, generalization and instantiation: the inference context of
  \<open>crates/emela-types/src/infer.rs\<close> with the errors of \<open>error.rs\<close>.

  The table of type variables is the \<open>InPlaceUnificationTable\<close> of the package \<open>ena\<close>, which is not
  part of the repository: the record \<open>ena\<close> below holds the operations the code calls, and the locale
  \<open>ena_laws\<close> what they promise. Looking a variable up may compress paths inside the table, which no
  operation can observe, so lookups do not return a table. A snapshot is the table at that moment.

  Functions that follow bindings take a fuel; \<open>None\<close> is its end. The theorems show that enough fuel
  exists for every context the operations can build.
\<close>

section \<open>The unification table\<close>

text \<open>\<open>TyVarValue\<close> is an optional type, and \<open>unify_values\<close> merges the values of two classes.\<close>

definition unify_values :: "ty option \<Rightarrow> ty option \<Rightarrow> ty option" where
  "unify_values a b = (case a of Some _ \<Rightarrow> a | None \<Rightarrow> b)"

record 't ena =
  en_new :: 't
  en_len :: "'t \<Rightarrow> nat"
  en_new_key :: "'t \<Rightarrow> ty option \<Rightarrow> ty_var \<times> 't"
  en_find :: "'t \<Rightarrow> ty_var \<Rightarrow> ty_var"
  en_probe_value :: "'t \<Rightarrow> ty_var \<Rightarrow> ty option"
  en_unioned :: "'t \<Rightarrow> ty_var \<Rightarrow> ty_var \<Rightarrow> bool"
  en_union :: "'t \<Rightarrow> ty_var \<Rightarrow> ty_var \<Rightarrow> 't"
  en_union_value :: "'t \<Rightarrow> ty_var \<Rightarrow> ty option \<Rightarrow> 't"

section \<open>The context\<close>

record span =
  sp_module :: nat
  sp_start :: nat
  sp_end :: nat

datatype origin =
    Coerce "span option" "def_id option"
  | Body def_id
  | HandlerOp def_id nat
  | HandlerPart
  | Release def_id
  | Closed def_id
  | Lambda
  | LayerArg def_id nat nat

record subset_constraint =
  ss_sub :: row
  ss_sup :: row
  ss_origin :: origin
  ss_kind :: set_kind

datatype variance = Co | Contra | Inv

fun flip :: "variance \<Rightarrow> variance" where
  "flip Co = Contra"
| "flip Contra = Co"
| "flip Inv = Inv"

datatype type_error_kind =
    Mismatch ty ty
  | InfiniteType ty_var ty

record type_error =
  te_expected :: ty
  te_actual :: ty
  te_kind :: type_error_kind

record 't infer_ctx =
  ic_table :: 't
  ic_errors :: "type_error list"
  ic_int_vars :: "ty_var list"
  ic_next_row_var :: nat
  ic_subsets :: "subset_constraint list"
  ic_row_buffer :: "(row \<times> row \<times> set_kind) list"
  ic_origin :: "span option \<times> def_id option"
  ic_error_tags :: "ty_con_id \<rightharpoonup> def_id"
  ic_row_solution :: "(row_var \<rightharpoonup> row) option"
  ic_solving :: bool

definition ctx_new :: "'t ena \<Rightarrow> 't infer_ctx" where
  "ctx_new U =
     \<lparr>ic_table = en_new U, ic_errors = [], ic_int_vars = [], ic_next_row_var = 0, ic_subsets = [],
      ic_row_buffer = [], ic_origin = (None, None), ic_error_tags = Map.empty,
      ic_row_solution = None, ic_solving = False\<rparr>"

definition fresh_var :: "'t ena \<Rightarrow> 't infer_ctx \<Rightarrow> ty_var \<times> 't infer_ctx" where
  "fresh_var U cx =
     (let (v, t) = en_new_key U (ic_table cx) None in (v, cx\<lparr>ic_table := t\<rparr>))"

definition new_var :: "'t ena \<Rightarrow> 't infer_ctx \<Rightarrow> ty \<times> 't infer_ctx" where
  "new_var U cx = (let (v, cx) = fresh_var U cx in (TVar v, cx))"

definition new_row_var :: "'t infer_ctx \<Rightarrow> row_var \<times> 't infer_ctx" where
  "new_row_var cx =
     (ic_next_row_var cx, cx\<lparr>ic_next_row_var := (ic_next_row_var cx + 1) mod 2 ^ 32\<rparr>)"

definition set_error_tags :: "(ty_con_id \<rightharpoonup> def_id) \<Rightarrow> 't infer_ctx \<Rightarrow> 't infer_ctx" where
  "set_error_tags tags cx = cx\<lparr>ic_error_tags := tags\<rparr>"

definition error_tag :: "'t infer_ctx \<Rightarrow> ty_con_id \<Rightarrow> def_id option" where
  "error_tag cx con = ic_error_tags cx con"

definition set_origin :: "span option \<Rightarrow> def_id option \<Rightarrow> 't infer_ctx \<Rightarrow> 't infer_ctx" where
  "set_origin sp d cx = cx\<lparr>ic_origin := (sp, d)\<rparr>"

definition add_subset_of ::
    "set_kind \<Rightarrow> row \<Rightarrow> row \<Rightarrow> origin \<Rightarrow> 't infer_ctx \<Rightarrow> 't infer_ctx" where
  "add_subset_of kind sub super org cx =
     (if sub = [] \<or> sub = super then cx
      else if ic_solving cx \<and>
        list_ex (\<lambda>c. ss_kind c = kind \<and> ss_sub c = sub \<and> ss_sup c = super) (ic_subsets cx) then cx
      else cx\<lparr>ic_subsets := ic_subsets cx @
        [\<lparr>ss_sub = sub, ss_sup = super, ss_origin = org, ss_kind = kind\<rparr>]\<rparr>)"

definition add_subset :: "row \<Rightarrow> row \<Rightarrow> origin \<Rightarrow> 't infer_ctx \<Rightarrow> 't infer_ctx" where
  "add_subset sub super org cx = add_subset_of Errors sub super org cx"

definition clear_row_solution :: "'t infer_ctx \<Rightarrow> 't infer_ctx" where
  "clear_row_solution cx = cx\<lparr>ic_row_solution := None\<rparr>"

definition set_solving :: "bool \<Rightarrow> 't infer_ctx \<Rightarrow> 't infer_ctx" where
  "set_solving s cx = cx\<lparr>ic_solving := s\<rparr>"

definition set_row_solution :: "(row_var \<rightharpoonup> row) \<Rightarrow> 't infer_ctx \<Rightarrow> 't infer_ctx" where
  "set_row_solution solution cx = cx\<lparr>ic_row_solution := Some solution\<rparr>"

definition new_int_var :: "'t ena \<Rightarrow> 't infer_ctx \<Rightarrow> ty \<times> 't infer_ctx" where
  "new_int_var U cx =
     (let (v, cx) = fresh_var U cx in (TVar v, cx\<lparr>ic_int_vars := ic_int_vars cx @ [v]\<rparr>))"

definition is_int_var :: "'t ena \<Rightarrow> 't infer_ctx \<Rightarrow> ty_var \<Rightarrow> bool" where
  "is_int_var U cx v = list_ex (\<lambda>w. en_unioned U (ic_table cx) v w) (ic_int_vars cx)"

section \<open>Following bindings\<close>

fun shallow_resolve :: "'t ena \<Rightarrow> nat \<Rightarrow> 't infer_ctx \<Rightarrow> ty \<Rightarrow> ty option" where
  "shallow_resolve U 0 cx ty = None"
| "shallow_resolve U (Suc n) cx ty =
     (case ty of
        TVar v \<Rightarrow>
          (case en_probe_value U (ic_table cx) v of
             Some bound \<Rightarrow> shallow_resolve U n cx bound
           | None \<Rightarrow> Some (TVar (en_find U (ic_table cx) v)))
      | _ \<Rightarrow> Some ty)"

text \<open>
  \<open>resolve\<close> and \<open>resolve_row\<close>. The second only passes the closure on, so it takes the function it
  resolves types with as an argument.
\<close>

definition resolve_elem ::
    "(ty \<Rightarrow> ty option) \<Rightarrow> 't infer_ctx \<Rightarrow> row_elem \<Rightarrow> row option" where
  "resolve_elem rec cx e =
     (case e of
        EOf ty \<Rightarrow>
          (case rec ty of
             None \<Rightarrow> None
           | Some (TNamed con args) \<Rightarrow>
               (case error_tag cx con of Some d \<Rightarrow> Some (row_tag d) | None \<Rightarrow> Some [])
           | Some (TBound i) \<Rightarrow> Some (row_from_elems [EOf (TBound i)])
           | Some (TVar v) \<Rightarrow> Some (row_from_elems [EOf (TVar v)])
           | Some _ \<Rightarrow> Some [])
      | EVar v \<Rightarrow>
          (case ic_row_solution cx of
             Some solution \<Rightarrow>
               row_map_tys_opt rec (case solution v of Some row \<Rightarrow> row | None \<Rightarrow> [])
           | None \<Rightarrow> Some (row_var v))
      | ETag d args \<Rightarrow>
          (case map_opt rec args of None \<Rightarrow> None | Some args \<Rightarrow> Some (row_of_tag (d, args)))
      | EBound i \<Rightarrow> Some (row_from_elems [e]))"

fun resolve :: "'t ena \<Rightarrow> nat \<Rightarrow> 't infer_ctx \<Rightarrow> ty \<Rightarrow> ty option" where
  "resolve U 0 cx ty = None"
| "resolve U (Suc n) cx ty =
     (case shallow_resolve U (Suc n) cx ty of
        None \<Rightarrow> None
      | Some (TFn params ret fails uses) \<Rightarrow>
          (case (map_opt (resolve U n cx) params, resolve U n cx ret,
                 row_flat_map_opt (resolve_elem (resolve U n cx) cx) fails,
                 row_flat_map_opt (resolve_elem (resolve U n cx) cx) uses) of
             (Some ps, Some r, Some f, Some u) \<Rightarrow> Some (TFn ps r f u)
           | _ \<Rightarrow> None)
      | Some (TSet kind row) \<Rightarrow>
          (case row_flat_map_opt (resolve_elem (resolve U n cx) cx) row of
             None \<Rightarrow> None
           | Some row \<Rightarrow> Some (TSet kind row))
      | Some ty \<Rightarrow> ty_map_children_opt (resolve U n cx) ty)"

definition resolve_row :: "'t ena \<Rightarrow> nat \<Rightarrow> 't infer_ctx \<Rightarrow> row \<Rightarrow> row option" where
  "resolve_row U n cx row = row_flat_map_opt (resolve_elem (resolve U n cx) cx) row"

text \<open>\<open>found = found || self.occurs(v, child)\<close> over the children.\<close>

fun any_opt :: "('a \<Rightarrow> bool option) \<Rightarrow> 'a list \<Rightarrow> bool option" where
  "any_opt f [] = Some False"
| "any_opt f (x # xs) =
     (case f x of None \<Rightarrow> None | Some True \<Rightarrow> Some True | Some False \<Rightarrow> any_opt f xs)"

fun occurs :: "'t ena \<Rightarrow> nat \<Rightarrow> 't infer_ctx \<Rightarrow> ty_var \<Rightarrow> ty \<Rightarrow> bool option" where
  "occurs U 0 cx v ty = None"
| "occurs U (Suc n) cx v ty =
     (case shallow_resolve U (Suc n) cx ty of
        None \<Rightarrow> None
      | Some (TVar w) \<Rightarrow> Some (en_unioned U (ic_table cx) v w)
      | Some ty \<Rightarrow> any_opt (occurs U n cx v) (ty_children ty))"

fun fold_opt :: "('a \<Rightarrow> 'b \<Rightarrow> 'b option) \<Rightarrow> 'a list \<Rightarrow> 'b \<Rightarrow> 'b option" where
  "fold_opt f [] out = Some out"
| "fold_opt f (x # xs) out = (case f x out of None \<Rightarrow> None | Some out \<Rightarrow> fold_opt f xs out)"

fun collect_free_vars ::
    "'t ena \<Rightarrow> nat \<Rightarrow> 't infer_ctx \<Rightarrow> ty \<Rightarrow> ty_var list \<Rightarrow> ty_var list option" where
  "collect_free_vars U 0 cx ty out = None"
| "collect_free_vars U (Suc n) cx ty out =
     (case shallow_resolve U (Suc n) cx ty of
        None \<Rightarrow> None
      | Some (TVar v) \<Rightarrow> Some (if v \<in> set out then out else out @ [v])
      | Some ty \<Rightarrow> fold_opt (collect_free_vars U n cx) (ty_children ty) out)"

definition free_vars :: "'t ena \<Rightarrow> nat \<Rightarrow> 't infer_ctx \<Rightarrow> ty \<Rightarrow> ty_var list option" where
  "free_vars U n cx ty = collect_free_vars U n cx ty []"

section \<open>Unification\<close>

definition buffer_rows ::
    "set_kind \<Rightarrow> row \<Rightarrow> row \<Rightarrow> variance \<Rightarrow> 't infer_ctx \<Rightarrow> 't infer_ctx" where
  "buffer_rows kind expected actual var cx =
     (if expected = actual then cx
      else cx\<lparr>ic_row_buffer := ic_row_buffer cx @
        (case var of
           Co \<Rightarrow> [(actual, expected, kind)]
         | Contra \<Rightarrow> [(expected, actual, kind)]
         | Inv \<Rightarrow> [(actual, expected, kind), (expected, actual, kind)])\<rparr>)"

type_synonym 's unify_result = "((type_error_kind + unit) \<times> 's) option"

definition bind_var ::
    "'t ena \<Rightarrow> nat \<Rightarrow> ty_var \<Rightarrow> ty \<Rightarrow> 't infer_ctx \<Rightarrow> 't infer_ctx unify_result" where
  "bind_var U n v ty cx =
     (case occurs U n cx v ty of
        None \<Rightarrow> None
      | Some True \<Rightarrow> Some (Inl (InfiniteType v ty), cx)
      | Some False \<Rightarrow>
          Some (Inr (), cx\<lparr>ic_table := en_union_value U (ic_table cx) v (Some ty)\<rparr>))"

text \<open>The \<open>?\<close> after a call, and the loop of \<open>unify_all\<close> over two zipped lists.\<close>

definition unify_then ::
    "'s unify_result \<Rightarrow> ('s \<Rightarrow> 's unify_result) \<Rightarrow> 's unify_result" where
  "unify_then m k =
     (case m of
        None \<Rightarrow> None
      | Some (Inl e, cx) \<Rightarrow> Some (Inl e, cx)
      | Some (Inr u, cx) \<Rightarrow> k cx)"

fun unify_all ::
    "(ty \<Rightarrow> ty \<Rightarrow> 's \<Rightarrow> 's unify_result) \<Rightarrow> ty list \<Rightarrow> ty list \<Rightarrow> 's \<Rightarrow> 's unify_result" where
  "unify_all f (x # xs) (y # ys) cx = unify_then (f x y cx) (unify_all f xs ys)"
| "unify_all f _ _ cx = Some (Inr (), cx)"

definition unify_vars :: "'t ena \<Rightarrow> ty_var \<Rightarrow> ty_var \<Rightarrow> 't infer_ctx \<Rightarrow> 't infer_ctx" where
  "unify_vars U x y cx =
     (let int = is_int_var U cx x \<or> is_int_var U cx y;
          cx = cx\<lparr>ic_table := en_union U (ic_table cx) x y\<rparr>
      in if int then cx\<lparr>ic_int_vars := ic_int_vars cx @ [en_find U (ic_table cx) x]\<rparr> else cx)"

text \<open>The arm of a variable against another type, with \<open>err\<close> the mismatch to report.\<close>

definition unify_var ::
    "'t ena \<Rightarrow> nat \<Rightarrow> type_error_kind \<Rightarrow> ty_var \<Rightarrow> ty \<Rightarrow> 't infer_ctx \<Rightarrow> 't infer_ctx unify_result"
where
  "unify_var U n err v t cx =
     (if is_int_var U cx v \<and> t \<notin> {TPrim PInt, TPrim PInt64, TError} then Some (Inl err, cx)
      else bind_var U n v t cx)"

text \<open>
  The \<open>match\<close> of \<open>unify_inner\<close> on the two types with their heads resolved; \<open>rec\<close> is the recursive
  call.
\<close>

definition unify_heads ::
    "'t ena \<Rightarrow> nat \<Rightarrow> (ty \<Rightarrow> ty \<Rightarrow> variance \<Rightarrow> 't infer_ctx \<Rightarrow> 't infer_ctx unify_result) \<Rightarrow>
     ty \<Rightarrow> ty \<Rightarrow> variance \<Rightarrow> 't infer_ctx \<Rightarrow> 't infer_ctx unify_result" where
  "unify_heads U n rec e a var cx =
     (case (e, a) of
        (TVar x, TVar y) \<Rightarrow> Some (Inr (), unify_vars U x y cx)
      | (TVar v, t) \<Rightarrow> unify_var U n (Mismatch e a) v t cx
      | (t, TVar v) \<Rightarrow> unify_var U n (Mismatch e a) v t cx
      | (TError, _) \<Rightarrow> Some (Inr (), cx)
      | (_, TError) \<Rightarrow> Some (Inr (), cx)
      | (TPrim p, TPrim q) \<Rightarrow>
          if p = q then Some (Inr (), cx) else Some (Inl (Mismatch e a), cx)
      | (TNever, TNever) \<Rightarrow> Some (Inr (), cx)
      | (TBound i, TBound j) \<Rightarrow>
          if i = j then Some (Inr (), cx) else Some (Inl (Mismatch e a), cx)
      | (TCap d xs, TCap d' ys) \<Rightarrow>
          if d = d' \<and> length xs = length ys then unify_all (\<lambda>x y. rec x y Inv) xs ys cx
          else Some (Inl (Mismatch e a), cx)
      | (TSet k x, TSet l y) \<Rightarrow>
          if k = l then Some (Inr (), buffer_rows k x y var cx)
          else Some (Inl (Mismatch e a), cx)
      | (TFn ps r f u, TFn qs s g w) \<Rightarrow>
          if length ps = length qs
          then unify_then (unify_all (\<lambda>x y. rec x y (flip var)) ps qs cx) (\<lambda>cx.
               unify_then (rec r s var cx) (\<lambda>cx.
               Some (Inr (), buffer_rows Effects u w var (buffer_rows Errors f g var cx))))
          else Some (Inl (Mismatch e a), cx)
      | (TTuple xs, TTuple ys) \<Rightarrow>
          if length xs = length ys then unify_all (\<lambda>x y. rec x y var) xs ys cx
          else Some (Inl (Mismatch e a), cx)
      | (TNamed c xs, TNamed d ys) \<Rightarrow>
          if c = d \<and> length xs = length ys then unify_all (\<lambda>x y. rec x y Inv) xs ys cx
          else Some (Inl (Mismatch e a), cx)
      | (TList x, TList y) \<Rightarrow> rec x y var cx
      | _ \<Rightarrow> Some (Inl (Mismatch e a), cx))"

fun unify_inner ::
    "'t ena \<Rightarrow> nat \<Rightarrow> ty \<Rightarrow> ty \<Rightarrow> variance \<Rightarrow> 't infer_ctx \<Rightarrow> 't infer_ctx unify_result" where
  "unify_inner U 0 expected actual var cx = None"
| "unify_inner U (Suc n) expected actual var cx =
     (case (shallow_resolve U (Suc n) cx expected, shallow_resolve U (Suc n) cx actual) of
        (Some e, Some a) \<Rightarrow> unify_heads U (Suc n) (unify_inner U n) e a var cx
      | _ \<Rightarrow> None)"

text \<open>The form of a type for error reports.\<close>

definition known_elems :: "row \<Rightarrow> row" where
  "known_elems row = row_from_elems (filter (\<lambda>e. case e of EVar v \<Rightarrow> False | _ \<Rightarrow> True) row)"

fun resolve_for_report :: "'t ena \<Rightarrow> nat \<Rightarrow> 't infer_ctx \<Rightarrow> ty \<Rightarrow> ty option" where
  "resolve_for_report U 0 cx ty = None"
| "resolve_for_report U (Suc n) cx ty =
     (case shallow_resolve U (Suc n) cx ty of
        None \<Rightarrow> None
      | Some (TVar v) \<Rightarrow> Some (if is_int_var U cx v then TPrim PInt else TVar v)
      | Some (TFn params ret fails uses) \<Rightarrow>
          (case (row_map_tys_opt (resolve_for_report U n cx) (known_elems uses),
                 map_opt (resolve_for_report U n cx) params, resolve_for_report U n cx ret,
                 row_map_tys_opt (resolve_for_report U n cx) (known_elems fails)) of
             (Some u, Some ps, Some r, Some f) \<Rightarrow> Some (TFn ps r f u)
           | _ \<Rightarrow> None)
      | Some (TSet kind row) \<Rightarrow> Some (TSet kind (known_elems row))
      | Some ty \<Rightarrow> ty_map_children_opt (resolve_for_report U n cx) ty)"

definition report_kind ::
    "'t ena \<Rightarrow> nat \<Rightarrow> 't infer_ctx \<Rightarrow> type_error_kind \<Rightarrow> type_error_kind option" where
  "report_kind U n cx kind =
     (case kind of
        Mismatch e a \<Rightarrow>
          (case (resolve_for_report U n cx e, resolve_for_report U n cx a) of
             (Some e, Some a) \<Rightarrow> Some (Mismatch e a)
           | _ \<Rightarrow> None)
      | InfiniteType v ty \<Rightarrow>
          (case resolve_for_report U n cx ty of
             Some ty \<Rightarrow> Some (InfiniteType v ty)
           | None \<Rightarrow> None))"

definition report_error ::
    "'t ena \<Rightarrow> nat \<Rightarrow> 't infer_ctx \<Rightarrow> ty \<Rightarrow> ty \<Rightarrow> type_error_kind \<Rightarrow> type_error option" where
  "report_error U n cx expected actual kind =
     (case (report_kind U n cx kind, resolve_for_report U n cx expected,
            resolve_for_report U n cx actual) of
        (Some k, Some e, Some a) \<Rightarrow> Some \<lparr>te_expected = e, te_actual = a, te_kind = k\<rparr>
      | _ \<Rightarrow> None)"

text \<open>
  The constraints that unification buffered become constraints of the context
  (\<open>std::mem::take(&mut self.row_buffer)\<close>).
\<close>

definition keep_rows :: "'t infer_ctx \<Rightarrow> 't infer_ctx" where
  "keep_rows cx =
     (let org = Coerce (fst (ic_origin cx)) (snd (ic_origin cx))
      in foldl (\<lambda>cx (sub, super, kind). add_subset_of kind sub super org cx)
           (cx\<lparr>ic_row_buffer := []\<rparr>) (ic_row_buffer cx))"

definition unify ::
    "'t ena \<Rightarrow> nat \<Rightarrow> ty \<Rightarrow> ty \<Rightarrow> 't infer_ctx \<Rightarrow> ((type_error + unit) \<times> 't infer_ctx) option" where
  "unify U n expected actual cx =
     (case unify_inner U n expected actual Co (cx\<lparr>ic_row_buffer := []\<rparr>) of
        None \<Rightarrow> None
      | Some (Inr _, cx') \<Rightarrow> Some (Inr (), keep_rows cx')
      | Some (Inl kind, cx') \<Rightarrow>
          (let cx'' = cx'\<lparr>ic_row_buffer := [], ic_table := ic_table cx\<rparr> in
           case report_error U n cx'' expected actual kind of
             None \<Rightarrow> None
           | Some err \<Rightarrow> Some (Inl err, cx'')))"

definition expect ::
    "'t ena \<Rightarrow> nat \<Rightarrow> ty \<Rightarrow> ty \<Rightarrow> 't infer_ctx \<Rightarrow> (bool \<times> 't infer_ctx) option" where
  "expect U n expected actual cx =
     (case unify U n expected actual cx of
        None \<Rightarrow> None
      | Some (Inr _, cx) \<Rightarrow> Some (True, cx)
      | Some (Inl err, cx) \<Rightarrow> Some (False, cx\<lparr>ic_errors := ic_errors cx @ [err]\<rparr>))"

definition coerce ::
    "'t ena \<Rightarrow> nat \<Rightarrow> ty \<Rightarrow> ty \<Rightarrow> 't infer_ctx \<Rightarrow> ((type_error + unit) \<times> 't infer_ctx) option" where
  "coerce U n expected actual cx =
     (case shallow_resolve U n cx actual of
        None \<Rightarrow> None
      | Some a \<Rightarrow> if a = TNever then Some (Inr (), cx) else unify U n expected actual cx)"

text \<open>\<open>self.unify(e, a)?; Ok(ty)\<close>.\<close>

definition unify_to ::
    "'t ena \<Rightarrow> nat \<Rightarrow> ty \<Rightarrow> ty \<Rightarrow> ty \<Rightarrow> 't infer_ctx \<Rightarrow> ((type_error + ty) \<times> 't infer_ctx) option" where
  "unify_to U n ty e a cx =
     (case unify U n e a cx of
        None \<Rightarrow> None
      | Some (Inl err, cx) \<Rightarrow> Some (Inl err, cx)
      | Some (Inr _, cx) \<Rightarrow> Some (Inr ty, cx))"

text \<open>The arm of \<open>join\<close> for two functions.\<close>

definition join_fns ::
    "'t ena \<Rightarrow> nat \<Rightarrow> ty list \<Rightarrow> ty \<Rightarrow> ty \<Rightarrow> ty \<Rightarrow> 't infer_ctx \<Rightarrow>
     ((type_error + ty) \<times> 't infer_ctx) option" where
  "join_fns U n params ret a b cx =
     (let (e, cx) = new_row_var cx;
          (r, cx) = new_row_var cx;
          joined = TFn params ret (row_var e) (row_var r)
      in case unify U n joined a cx of
           None \<Rightarrow> None
         | Some (Inl err, cx) \<Rightarrow> Some (Inl err, cx)
         | Some (Inr _, cx) \<Rightarrow>
             (case unify_to U n joined joined b cx of
                Some (Inl err, cx) \<Rightarrow>
                  (case resolve_for_report U n cx a of
                     None \<Rightarrow> None
                   | Some x \<Rightarrow> Some (Inl (err\<lparr>te_expected := x\<rparr>), cx))
              | res \<Rightarrow> res))"

definition join ::
    "'t ena \<Rightarrow> nat \<Rightarrow> ty \<Rightarrow> ty \<Rightarrow> 't infer_ctx \<Rightarrow> ((type_error + ty) \<times> 't infer_ctx) option" where
  "join U n a b cx =
     (case (shallow_resolve U n cx a, shallow_resolve U n cx b) of
        (Some a, Some b) \<Rightarrow>
          (case (a, b) of
             (TNever, _) \<Rightarrow> Some (Inr b, cx)
           | (_, TNever) \<Rightarrow> Some (Inr a, cx)
           | (TFn ps r f u, TFn qs s g w) \<Rightarrow>
               if length ps = length qs then join_fns U n ps r a b cx else unify_to U n a a b cx
           | _ \<Rightarrow> unify_to U n a a b cx)
      | _ \<Rightarrow> None)"

definition join_or_report ::
    "'t ena \<Rightarrow> nat \<Rightarrow> ty \<Rightarrow> ty \<Rightarrow> 't infer_ctx \<Rightarrow> (ty \<times> 't infer_ctx) option" where
  "join_or_report U n a b cx =
     (case join U n a b cx of
        None \<Rightarrow> None
      | Some (Inr ty, cx) \<Rightarrow> Some (ty, cx)
      | Some (Inl err, cx) \<Rightarrow> Some (a, cx\<lparr>ic_errors := ic_errors cx @ [err]\<rparr>))"

definition report :: "type_error \<Rightarrow> 't infer_ctx \<Rightarrow> 't infer_ctx" where
  "report err cx = cx\<lparr>ic_errors := ic_errors cx @ [err]\<rparr>"

definition take_errors :: "'t infer_ctx \<Rightarrow> type_error list \<times> 't infer_ctx" where
  "take_errors cx = (ic_errors cx, cx\<lparr>ic_errors := []\<rparr>)"

text \<open>
  \<open>same_tag\<close>: the loop ends at the first pair of arguments that does not unify, so the table and the
  integer variables are those at that moment.
\<close>

definition arg_variance :: "ty \<Rightarrow> ty \<Rightarrow> variance" where
  "arg_variance x y = (case (x, y) of (TSet _ _, TSet _ _) \<Rightarrow> Co | _ \<Rightarrow> Inv)"

definition same_tag ::
    "'t ena \<Rightarrow> nat \<Rightarrow> tag \<Rightarrow> tag \<Rightarrow> 't infer_ctx \<Rightarrow> (bool \<times> 't infer_ctx) option" where
  "same_tag U n a b cx =
     (if fst a \<noteq> fst b \<or> length (snd a) \<noteq> length (snd b) then Some (False, cx)
      else if snd a = [] then Some (True, cx)
      else
        (case unify_all (\<lambda>x y. unify_inner U n x y (arg_variance x y)) (snd a) (snd b)
                (cx\<lparr>ic_row_buffer := []\<rparr>) of
           None \<Rightarrow> None
         | Some (Inr _, cx') \<Rightarrow> Some (True, keep_rows cx')
         | Some (Inl _, cx') \<Rightarrow> Some (False, cx'\<lparr>ic_row_buffer := [], ic_table := ic_table cx\<rparr>)))"

fun any_same_tag ::
    "'t ena \<Rightarrow> nat \<Rightarrow> tag list \<Rightarrow> tag \<Rightarrow> 't infer_ctx \<Rightarrow> (bool \<times> 't infer_ctx) option" where
  "any_same_tag U n [] tg cx = Some (False, cx)"
| "any_same_tag U n (t # ts) tg cx =
     (case same_tag U n t tg cx of
        None \<Rightarrow> None
      | Some (True, cx) \<Rightarrow> Some (True, cx)
      | Some (False, cx) \<Rightarrow> any_same_tag U n ts tg cx)"

definition row_has_tag ::
    "'t ena \<Rightarrow> nat \<Rightarrow> row \<Rightarrow> tag \<Rightarrow> 't infer_ctx \<Rightarrow> (bool \<times> 't infer_ctx) option" where
  "row_has_tag U n row tg cx =
     (if list_ex (\<lambda>t. t = tg) (row_tags row) then Some (True, cx)
      else any_same_tag U n (row_tags row) tg cx)"

end
