(* ===== verification/Types_Table.thy ===== *)
theory Types_Table
  imports Types_Infer
begin

text \<open>
  The meaning of the table of type variables of \<open>crates/emela-types/src/infer.rs\<close>: the laws of the
  package that provides it, the assignments that satisfy its bindings (\<open>models\<close>), the most general
  one (\<open>solved\<close>), the invariant of the inference context (\<open>ctx_ok\<close>), and what resolving a head, the
  occurs check, joining two variables and binding one do to them.
\<close>

section \<open>Substitution of type variables\<close>

primrec inst :: "(ty_var \<Rightarrow> ty) \<Rightarrow> ty \<Rightarrow> ty"
  and inst_elem :: "(ty_var \<Rightarrow> ty) \<Rightarrow> row_elem \<Rightarrow> row_elem" where
  "inst s (TPrim p) = TPrim p"
| "inst s TNever = TNever"
| "inst s (TVar v) = s v"
| "inst s (TBound i) = TBound i"
| "inst s (TFn ps r f u) =
     TFn (map (inst s) ps) (inst s r) (map (inst_elem s) f) (map (inst_elem s) u)"
| "inst s (TTuple ts) = TTuple (map (inst s) ts)"
| "inst s (TList t) = TList (inst s t)"
| "inst s (TNamed c ts) = TNamed c (map (inst s) ts)"
| "inst s (TSet k row) = TSet k (map (inst_elem s) row)"
| "inst s (TCap d ts) = TCap d (map (inst s) ts)"
| "inst s TError = TError"
| "inst_elem s (ETag d ts) = ETag d (map (inst s) ts)"
| "inst_elem s (EBound i) = EBound i"
| "inst_elem s (EOf t) = EOf (inst s t)"
| "inst_elem s (EVar v) = EVar v"

primrec ty_vars :: "ty \<Rightarrow> ty_var set" and elem_vars :: "row_elem \<Rightarrow> ty_var set" where
  "ty_vars (TPrim p) = {}"
| "ty_vars TNever = {}"
| "ty_vars (TVar v) = {v}"
| "ty_vars (TBound i) = {}"
| "ty_vars (TFn ps r f u) =
     \<Union> (set (map ty_vars ps)) \<union> ty_vars r \<union> \<Union> (set (map elem_vars f)) \<union> \<Union> (set (map elem_vars u))"
| "ty_vars (TTuple ts) = \<Union> (set (map ty_vars ts))"
| "ty_vars (TList t) = ty_vars t"
| "ty_vars (TNamed c ts) = \<Union> (set (map ty_vars ts))"
| "ty_vars (TSet k row) = \<Union> (set (map elem_vars row))"
| "ty_vars (TCap d ts) = \<Union> (set (map ty_vars ts))"
| "ty_vars TError = {}"
| "elem_vars (ETag d ts) = \<Union> (set (map ty_vars ts))"
| "elem_vars (EBound i) = {}"
| "elem_vars (EOf t) = ty_vars t"
| "elem_vars (EVar v) = {}"

definition row_ty_vars :: "row \<Rightarrow> ty_var set" where
  "row_ty_vars row = (\<Union>e\<in>set row. elem_vars e)"

definition inst_row :: "(ty_var \<Rightarrow> ty) \<Rightarrow> row \<Rightarrow> row" where
  "inst_row s row = map (inst_elem s) row"

definition is_var :: "ty \<Rightarrow> bool" where
  "is_var t \<longleftrightarrow> (case t of TVar _ \<Rightarrow> True | _ \<Rightarrow> False)"

lemma is_var_simps [simp]:
  "is_var (TVar v)" "\<not> is_var (TPrim p)" "\<not> is_var TNever" "\<not> is_var (TBound i)"
  "\<not> is_var (TFn ps r f u)" "\<not> is_var (TTuple ts)" "\<not> is_var (TList t)" "\<not> is_var (TNamed c ts)"
  "\<not> is_var (TSet k row)" "\<not> is_var (TCap d ts)" "\<not> is_var TError"
  by (simp_all add: is_var_def)

lemma inst_inst:
  "inst r (inst s t) = inst (\<lambda>v. inst r (s v)) t"
  "inst_elem r (inst_elem s e) = inst_elem (\<lambda>v. inst r (s v)) e"
  by (induction t and e) auto

lemma inst_cong_on:
  "(\<forall>v\<in>ty_vars t. r v = s v) \<longrightarrow> inst r t = inst s t"
  "(\<forall>v\<in>elem_vars e. r v = s v) \<longrightarrow> inst_elem r e = inst_elem s e"
  by (induction t and e) (simp_all add: ball_Un)

lemma inst_cong: "(\<And>v. v \<in> ty_vars t \<Longrightarrow> r v = s v) \<Longrightarrow> inst r t = inst s t"
  using inst_cong_on(1) by blast

lemma inst_TVar [simp]: "inst TVar t = t" "inst_elem TVar e = e"
  by (induction t and e) (auto simp: map_idI)

lemma ty_vars_inst:
  "ty_vars (inst s t) = (\<Union>v\<in>ty_vars t. ty_vars (s v))"
  "elem_vars (inst_elem s e) = (\<Union>v\<in>elem_vars e. ty_vars (s v))"
  by (induction t and e) auto

lemma elem_tys_inst: "elem_tys (inst_elem s e) = map (inst s) (elem_tys e)"
  by (cases e) auto

lemma row_tys_inst: "row_tys (map (inst_elem s) row) = map (inst s) (row_tys row)"
  by (induction row) (simp_all add: row_tys_def elem_tys_inst)

lemma ty_children_inst: "\<not> is_var t \<Longrightarrow> ty_children (inst s t) = map (inst s) (ty_children t)"
  by (cases t) (simp_all add: row_tys_inst)

lemma elem_vars_tys: "elem_vars e = (\<Union>t\<in>set (elem_tys e). ty_vars t)"
  by (cases e) auto

lemma row_tys_vars: "(\<Union>t\<in>set (row_tys row). ty_vars t) = (\<Union>e\<in>set row. elem_vars e)"
  by (auto simp: row_tys_def elem_vars_tys)

lemma ty_vars_children: "\<not> is_var t \<Longrightarrow> ty_vars t = (\<Union>c\<in>set (ty_children t). ty_vars c)"
  by (cases t) (auto simp: row_tys_vars)

lemma size_inst_var: "v \<in> ty_vars t \<Longrightarrow> size (s v) \<le> size (inst s t)"
proof (induction t rule: measure_induct_rule [where f = size])
  case (less t)
  show ?case
  proof (cases "is_var t")
    case True
    with less.prems show ?thesis by (cases t) auto
  next
    case False
    with less.prems obtain c where c: "c \<in> set (ty_children t)" "v \<in> ty_vars c"
      by (auto simp: ty_vars_children)
    have "size (s v) \<le> size (inst s c)"
      using less.IH [OF size_ty_children [OF c(1)] c(2)] .
    also have "\<dots> < size (inst s t)"
      using c(1) ty_children_inst [OF False, of s] by (intro size_ty_children) simp
    finally show ?thesis by simp
  qed
qed

lemma size_inst_var_less:
  assumes "v \<in> ty_vars t" and "\<not> is_var t"
  shows "size (s v) < size (inst s t)"
proof -
  obtain c where c: "c \<in> set (ty_children t)" "v \<in> ty_vars c"
    using assms by (auto simp: ty_vars_children)
  have "size (inst s c) < size (inst s t)"
    using c(1) ty_children_inst [OF assms(2), of s] by (intro size_ty_children) simp
  with size_inst_var [OF c(2), of s] show ?thesis by simp
qed

lemma is_var_inst: "\<not> is_var t \<Longrightarrow> \<not> is_var (inst s t)"
  by (cases t) auto

section \<open>The laws of the table\<close>

text \<open>
  What the documentation of \<open>ena\<close> promises of a table whose values merge with \<open>unify_values\<close>. Keys
  are numbered from zero; \<open>ok\<close> are the tables its operations build.
\<close>

locale ena_laws =
  fixes U :: "'t ena" and ok :: "'t \<Rightarrow> bool"
  assumes ok_new: "ok (en_new U)" "en_len U (en_new U) = 0"
    and new_key: "ok t \<Longrightarrow> en_new_key U t val = (v, t') \<Longrightarrow>
          ok t' \<and> v = en_len U t \<and> en_len U t' = Suc (en_len U t) \<and>
          en_find U t' v = v \<and> en_probe_value U t' v = val \<and>
          (\<forall>w < en_len U t. en_find U t' w = en_find U t w \<and>
             en_probe_value U t' w = en_probe_value U t w)"
    and find: "ok t \<Longrightarrow> v < en_len U t \<Longrightarrow>
          en_find U t v < en_len U t \<and> en_find U t (en_find U t v) = en_find U t v \<and>
          en_probe_value U t (en_find U t v) = en_probe_value U t v"
    and unioned: "ok t \<Longrightarrow> v < en_len U t \<Longrightarrow> w < en_len U t \<Longrightarrow>
          en_unioned U t v w \<longleftrightarrow> en_find U t v = en_find U t w"
    and union: "ok t \<Longrightarrow> x < en_len U t \<Longrightarrow> y < en_len U t \<Longrightarrow> t' = en_union U t x y \<Longrightarrow>
          ok t' \<and> en_len U t' = en_len U t \<and>
          (\<exists>r \<in> {en_find U t x, en_find U t y}. \<forall>v < en_len U t.
             en_find U t' v =
               (if en_find U t v \<in> {en_find U t x, en_find U t y} then r else en_find U t v) \<and>
             en_probe_value U t' v =
               (if en_find U t v \<in> {en_find U t x, en_find U t y}
                then unify_values (en_probe_value U t x) (en_probe_value U t y)
                else en_probe_value U t v))"
    and union_value: "ok t \<Longrightarrow> x < en_len U t \<Longrightarrow> t' = en_union_value U t x val \<Longrightarrow>
          ok t' \<and> en_len U t' = en_len U t \<and>
          (\<forall>v < en_len U t. en_find U t' v = en_find U t v \<and>
             en_probe_value U t' v =
               (if en_find U t v = en_find U t x
                then unify_values (en_probe_value U t x) val else en_probe_value U t v))"

section \<open>Models of a context\<close>

definition int_ty :: "ty \<Rightarrow> bool" where
  "int_ty t \<longleftrightarrow> t \<in> {TPrim PInt, TPrim PInt64, TError}"

definition scoped :: "'t ena \<Rightarrow> 't \<Rightarrow> ty \<Rightarrow> bool" where
  "scoped U t ty \<longleftrightarrow> ty_vars ty \<subseteq> {..<en_len U t}"

definition table_model :: "'t ena \<Rightarrow> 't \<Rightarrow> (ty_var \<Rightarrow> ty) \<Rightarrow> bool" where
  "table_model U t s \<longleftrightarrow>
     (\<forall>v < en_len U t. s (en_find U t v) = s v \<and>
        (\<forall>b. en_probe_value U t v = Some b \<longrightarrow> s v = inst s b))"

definition models :: "'t ena \<Rightarrow> 't infer_ctx \<Rightarrow> (ty_var \<Rightarrow> ty) \<Rightarrow> bool" where
  "models U cx s \<longleftrightarrow> table_model U (ic_table cx) s \<and> (\<forall>v\<in>set (ic_int_vars cx). int_ty (s v))"

definition unbound :: "'t ena \<Rightarrow> 't \<Rightarrow> ty_var set" where
  "unbound U t = {v. v < en_len U t \<and> en_find U t v = v \<and> en_probe_value U t v = None}"

text \<open>The most general model: an unbound representative stands for itself.\<close>

definition solved :: "'t ena \<Rightarrow> 't \<Rightarrow> (ty_var \<Rightarrow> ty) \<Rightarrow> bool" where
  "solved U t s \<longleftrightarrow>
     table_model U t s \<and> (\<forall>v\<in>unbound U t. s v = TVar v) \<and>
     (\<forall>v < en_len U t. ty_vars (s v) \<subseteq> unbound U t)"

text \<open>
  The invariant of the context: a variable is bound to a type with a head, over variables of the
  table, without cycles, and an integer variable to an integer type.
\<close>

definition table_ok :: "'t ena \<Rightarrow> ('t \<Rightarrow> bool) \<Rightarrow> 't \<Rightarrow> bool" where
  "table_ok U ok t \<longleftrightarrow>
     ok t \<and>
     (\<forall>v < en_len U t. \<forall>b. en_probe_value U t v = Some b \<longrightarrow> \<not> is_var b \<and> scoped U t b) \<and>
     (\<exists>s. solved U t s)"

definition ctx_ok :: "'t ena \<Rightarrow> ('t \<Rightarrow> bool) \<Rightarrow> 't infer_ctx \<Rightarrow> bool" where
  "ctx_ok U ok cx \<longleftrightarrow>
     table_ok U ok (ic_table cx) \<and>
     (\<forall>v\<in>set (ic_int_vars cx). v < en_len U (ic_table cx) \<and>
        (\<forall>b. en_probe_value U (ic_table cx) v = Some b \<longrightarrow> int_ty b))"

lemma scoped_children:
  "\<not> is_var ty \<Longrightarrow> scoped U t ty \<longleftrightarrow> (\<forall>c\<in>set (ty_children ty). scoped U t c)"
  by (auto simp: scoped_def ty_vars_children)

lemma scoped_TVar [simp]: "scoped U t (TVar v) \<longleftrightarrow> v < en_len U t"
  by (simp add: scoped_def)

lemma ctx_ok_buffer [simp]: "ctx_ok U ok (cx\<lparr>ic_row_buffer := b\<rparr>) = ctx_ok U ok cx"
  by (simp add: ctx_ok_def)

lemma models_buffer [simp]: "models U (cx\<lparr>ic_row_buffer := b\<rparr>) s = models U cx s"
  by (simp add: models_def)

context ena_laws
begin

lemma find_less: "ok t \<Longrightarrow> v < en_len U t \<Longrightarrow> en_find U t v < en_len U t"
  using find by blast

lemma find_unbound:
  "ok t \<Longrightarrow> v < en_len U t \<Longrightarrow> en_probe_value U t v = None \<Longrightarrow> en_find U t v \<in> unbound U t"
  using find [of t v] by (simp add: unbound_def)

lemma finite_unbound: "finite (unbound U t)"
  by (simp add: unbound_def)

text \<open>Every model of a table factors through the most general one.\<close>

lemma solved_factor:
  assumes t: "table_ok U ok t" and s: "solved U t s" and r: "table_model U t r"
  shows "v < en_len U t \<Longrightarrow> inst r (s v) = r v"
proof (induction "s v" arbitrary: v rule: measure_induct_rule [where f = size])
  case less
  show ?case
  proof (cases "en_probe_value U t v")
    case None
    then have u: "en_find U t v \<in> unbound U t"
      using find_unbound less.prems t by (simp add: table_ok_def)
    have "s v = TVar (en_find U t v)"
      using s u less.prems unfolding solved_def table_model_def by metis
    moreover have "r (en_find U t v) = r v"
      using r less.prems by (simp add: table_model_def)
    ultimately show ?thesis by simp
  next
    case (Some b)
    then have b: "\<not> is_var b" "scoped U t b" and sv: "s v = inst s b" and rv: "r v = inst r b"
      using t s r less.prems by (auto simp: table_ok_def solved_def table_model_def)
    have "inst r (s w) = r w" if "w \<in> ty_vars b" for w
      using that b less.hyps [of w] size_inst_var_less [of w b s]
      by (auto simp: sv scoped_def)
    then show ?thesis
      by (simp add: sv rv inst_inst) (rule inst_cong)
  qed
qed

lemma solved_factor_ty:
  assumes "table_ok U ok t" "solved U t s" "table_model U t r" "scoped U t ty"
  shows "inst r (inst s ty) = inst r ty"
  using assms by (auto simp: inst_inst scoped_def intro!: inst_cong solved_factor)

lemma solved_vars: "solved U t s \<Longrightarrow> scoped U t ty \<Longrightarrow> ty_vars (inst s ty) \<subseteq> unbound U t"
  by (auto simp: solved_def scoped_def ty_vars_inst)

text \<open>Resolving the head of a type.\<close>

lemma shallow_resolve_sound:
  assumes t: "table_ok U ok (ic_table cx)" and ty: "scoped U (ic_table cx) ty"
    and res: "shallow_resolve U n cx ty = Some r"
  shows "scoped U (ic_table cx) r"
    and "table_model U (ic_table cx) s \<Longrightarrow> inst s r = inst s ty"
    and "is_var r \<Longrightarrow> \<exists>v\<in>unbound U (ic_table cx). r = TVar v"
proof -
  have "scoped U (ic_table cx) r \<and> (table_model U (ic_table cx) s \<longrightarrow> inst s r = inst s ty) \<and>
      (is_var r \<longrightarrow> (\<exists>v\<in>unbound U (ic_table cx). r = TVar v))"
    using ty res
  proof (induction n arbitrary: ty)
    case (Suc n)
    show ?case
    proof (cases ty)
      case (TVar v)
      then have v: "v < en_len U (ic_table cx)" using Suc.prems by simp
      show ?thesis
      proof (cases "en_probe_value U (ic_table cx) v")
        case None
        then show ?thesis
          using Suc.prems v TVar t find_unbound [of "ic_table cx" v] find_less [of "ic_table cx" v]
          by (auto simp: table_ok_def table_model_def)
      next
        case (Some b)
        then have "scoped U (ic_table cx) b" using t v by (simp add: table_ok_def)
        from Suc.IH [OF this] show ?thesis
          using Suc.prems(2) TVar Some v by (auto simp: table_model_def)
      qed
    qed (use Suc.prems in auto)
  qed simp
  then show "scoped U (ic_table cx) r"
    and "table_model U (ic_table cx) s \<Longrightarrow> inst s r = inst s ty"
    and "is_var r \<Longrightarrow> \<exists>v\<in>unbound U (ic_table cx). r = TVar v"
    by auto
qed

lemma shallow_resolve_returns:
  assumes t: "table_ok U ok (ic_table cx)" and ty: "scoped U (ic_table cx) ty"
  shows "\<exists>r. shallow_resolve U (Suc (Suc n)) cx ty = Some r"
proof (cases ty)
  case (TVar v)
  show ?thesis
  proof (cases "en_probe_value U (ic_table cx) v")
    case (Some b)
    then have "\<not> is_var b" using t ty TVar by (simp add: table_ok_def)
    then show ?thesis using TVar Some by (cases b) auto
  qed (simp add: TVar)
qed auto

end

lemma shallow_resolve_mono:
  "shallow_resolve U n cx ty = Some r \<Longrightarrow> n \<le> m \<Longrightarrow> shallow_resolve U m cx ty = Some r"
proof (induction n arbitrary: m ty)
  case (Suc n)
  then obtain k where m: "m = Suc k" "n \<le> k" by (cases m) auto
  show ?case using Suc.prems Suc.IH m by (auto split: ty.splits option.splits)
qed simp

lemma any_opt_correct:
  assumes "any_opt f xs = Some b" and "\<And>x c. x \<in> set xs \<Longrightarrow> f x = Some c \<Longrightarrow> c = P x"
  shows "b \<longleftrightarrow> (\<exists>x\<in>set xs. P x)"
  using assms
proof (induction xs)
  case (Cons x xs)
  then obtain c where c: "f x = Some c" by (auto split: option.splits)
  then have "c = P x" using Cons.prems(2) [of x c] by simp
  then show ?case using Cons c by (auto split: bool.splits)
qed simp

lemma any_opt_returns: "(\<And>x. x \<in> set xs \<Longrightarrow> f x \<noteq> None) \<Longrightarrow> \<exists>b. any_opt f xs = Some b"
  by (induction xs) (force split: option.splits bool.splits)+

lemma any_opt_mono:
  assumes "any_opt f xs = Some b" and "\<And>x c. f x = Some c \<Longrightarrow> g x = Some c"
  shows "any_opt g xs = Some b"
  using assms(1) by (induction xs) (auto split: option.splits bool.splits dest: assms(2))

lemma occurs_head:
  assumes "shallow_resolve U (Suc n) cx ty = Some r" and "\<not> is_var r"
  shows "occurs U (Suc n) cx v ty = any_opt (occurs U n cx v) (ty_children r)"
  unfolding occurs.simps assms(1)
  using assms(2) by (cases r) (simp_all del: ty_children.simps any_opt.simps)

lemma occurs_head_var:
  assumes "shallow_resolve U (Suc n) cx ty = Some (TVar w)"
  shows "occurs U (Suc n) cx v ty = Some (en_unioned U (ic_table cx) v w)"
  unfolding occurs.simps assms by simp

lemma occurs_mono: "occurs U n cx v ty = Some b \<Longrightarrow> n \<le> m \<Longrightarrow> occurs U m cx v ty = Some b"
proof (induction n arbitrary: m ty b)
  case (Suc n)
  then obtain k where m: "m = Suc k" "n \<le> k" by (cases m) auto
  from Suc.prems(1) obtain r where r: "shallow_resolve U (Suc n) cx ty = Some r"
    by (auto split: option.splits)
  have r': "shallow_resolve U m cx ty = Some r"
    using shallow_resolve_mono [OF r Suc.prems(2)] .
  have any: "any_opt (occurs U k cx v) xs = Some b" if "any_opt (occurs U n cx v) xs = Some b" for xs
    using that by (rule any_opt_mono) (use Suc.IH m in blast)
  show ?case
  proof (cases "is_var r")
    case True
    then obtain w where w: "r = TVar w" by (cases r) auto
    show ?thesis
      using Suc.prems(1) occurs_head_var [OF r [unfolded w]] occurs_head_var [OF r' [unfolded w m(1)]]
        m(1) by simp
  next
    case False
    show ?thesis
      using Suc.prems(1) occurs_head [OF r False] occurs_head [OF r' [unfolded m(1)] False] m(1) any
      by simp
  qed
qed simp

context ena_laws
begin

lemma occurs_correct:
  assumes t: "table_ok U ok (ic_table cx)" and s: "solved U (ic_table cx) s"
    and v: "v \<in> unbound U (ic_table cx)"
  shows "scoped U (ic_table cx) ty \<Longrightarrow> occurs U n cx v ty = Some b \<Longrightarrow> b \<longleftrightarrow> v \<in> ty_vars (inst s ty)"
proof (induction n arbitrary: ty b)
  case (Suc n)
  from Suc.prems(2) obtain r where r: "shallow_resolve U (Suc n) cx ty = Some r"
    by (auto split: option.splits)
  note sound = shallow_resolve_sound [OF t Suc.prems(1) r]
  have inst: "inst s r = inst s ty" using sound(2) s by (simp add: solved_def)
  show ?case
  proof (cases "is_var r")
    case True
    then obtain w where w: "r = TVar w" "w \<in> unbound U (ic_table cx)" using sound(3) by blast
    have "b = en_unioned U (ic_table cx) v w"
      using Suc.prems(2) occurs_head_var [OF r [unfolded w(1)]] by simp
    also have "\<dots> \<longleftrightarrow> v = w"
      using v w(2) t unioned [of "ic_table cx" v w] by (auto simp: unbound_def table_ok_def)
    finally show ?thesis using w s inst [symmetric] by (simp add: solved_def)
  next
    case False
    then have any: "any_opt (occurs U n cx v) (ty_children r) = Some b"
      using Suc.prems(2) occurs_head [OF r False] by simp
    have "b \<longleftrightarrow> (\<exists>c\<in>set (ty_children r). v \<in> ty_vars (inst s c))"
    proof (rule any_opt_correct [OF any])
      fix c d
      assume c: "c \<in> set (ty_children r)" and d: "occurs U n cx v c = Some d"
      have "scoped U (ic_table cx) c"
        using sound(1) scoped_children [OF False, of U "ic_table cx"] c by simp
      from Suc.IH [OF this d] show "d = (v \<in> ty_vars (inst s c))" .
    qed
    then show ?thesis
      using inst [symmetric] ty_vars_children [OF is_var_inst [OF False], of s]
        ty_children_inst [OF False, of s] by simp
  qed
qed simp

lemma occurs_returns:
  assumes t: "table_ok U ok (ic_table cx)" and s: "solved U (ic_table cx) s"
  shows "scoped U (ic_table cx) ty \<Longrightarrow> size (inst s ty) + 2 \<le> n \<Longrightarrow> \<exists>b. occurs U n cx v ty = Some b"
proof (induction n arbitrary: ty)
  case (Suc n)
  then obtain k where k: "n = Suc k" by (cases n) auto
  obtain r where r: "shallow_resolve U (Suc n) cx ty = Some r"
    using shallow_resolve_returns [OF t Suc.prems(1), of k] k by blast
  note sound = shallow_resolve_sound [OF t Suc.prems(1) r]
  have inst: "inst s r = inst s ty" using sound(2) s by (simp add: solved_def)
  show ?case
  proof (cases "is_var r")
    case True
    then obtain w where "r = TVar w" using sound(3) by blast
    then show ?thesis using occurs_head_var r by blast
  next
    case False
    have "occurs U n cx v c \<noteq> None" if c: "c \<in> set (ty_children r)" for c
    proof -
      have "inst s c \<in> set (ty_children (inst s r))"
        using c ty_children_inst [OF False, of s] by simp
      then have "size (inst s c) < size (inst s ty)"
        using size_ty_children inst by metis
      then show ?thesis
        using Suc.IH [of c] Suc.prems(2) c sound(1) scoped_children [OF False, of U "ic_table cx"]
        by auto
    qed
    from any_opt_returns [OF this] show ?thesis using occurs_head [OF r False] by simp
  qed
qed simp

text \<open>Joining two unbound variables.\<close>

lemma union_unbound:
  assumes t: "ok t" and x: "x \<in> unbound U t" and y: "y \<in> unbound U t"
  obtains r where "r \<in> {x, y}" and "ok (en_union U t x y)"
    and "en_len U (en_union U t x y) = en_len U t"
    and "\<And>v. v < en_len U t \<Longrightarrow>
      en_find U (en_union U t x y) v = (if en_find U t v \<in> {x, y} then r else en_find U t v)"
    and "\<And>v. v < en_len U t \<Longrightarrow> en_probe_value U (en_union U t x y) v = en_probe_value U t v"
proof -
  have xy: "x < en_len U t" "en_find U t x = x" "en_probe_value U t x = None"
    "y < en_len U t" "en_find U t y = y" "en_probe_value U t y = None"
    using x y by (auto simp: unbound_def)
  have none: "en_probe_value U t v = None" if "v < en_len U t" "en_find U t v \<in> {x, y}" for v
    using that xy find [OF t that(1)] by auto
  have uv: "unify_values None None = None" by (simp add: unify_values_def)
  from union [OF t xy(1,4) refl, unfolded xy uv] obtain r where r: "r \<in> {x, y}" "ok (en_union U t x y)"
    "en_len U (en_union U t x y) = en_len U t"
    "\<And>v. v < en_len U t \<Longrightarrow>
      en_find U (en_union U t x y) v = (if en_find U t v \<in> {x, y} then r else en_find U t v) \<and>
      en_probe_value U (en_union U t x y) v =
        (if en_find U t v \<in> {x, y} then None else en_probe_value U t v)"
    by blast
  show thesis by (rule that [of r]) (use r none in auto)
qed

lemma union_model:
  assumes "ok t" "x \<in> unbound U t" "y \<in> unbound U t"
  shows "table_model U (en_union U t x y) s \<longleftrightarrow> table_model U t s \<and> s x = s y"
proof -
  obtain r where r: "r \<in> {x, y}" "en_len U (en_union U t x y) = en_len U t"
    "\<And>v. v < en_len U t \<Longrightarrow>
      en_find U (en_union U t x y) v = (if en_find U t v \<in> {x, y} then r else en_find U t v)"
    "\<And>v. v < en_len U t \<Longrightarrow> en_probe_value U (en_union U t x y) v = en_probe_value U t v"
    using union_unbound [OF assms] by metis
  have xy: "x < en_len U t" "en_find U t x = x" "y < en_len U t" "en_find U t y = y"
    using assms by (auto simp: unbound_def)
  show ?thesis
  proof
    assume m: "table_model U (en_union U t x y) s"
    then have fnd: "s (if en_find U t v \<in> {x, y} then r else en_find U t v) = s v"
      if "v < en_len U t" for v
    proof -
      have "s (en_find U (en_union U t x y) v) = s v"
        using m that r(2) by (simp add: table_model_def)
      then show ?thesis by (simp only: r(3) [OF that])
    qed
    have "s x = s r" "s y = s r" using fnd [of x] fnd [of y] xy by simp_all
    then have "s (en_find U t v) = s v" if "v < en_len U t" for v
      using fnd [OF that] by (auto split: if_splits)
    then show "table_model U t s \<and> s x = s y"
      using m r \<open>s x = s r\<close> \<open>s y = s r\<close> by (simp add: table_model_def)
  next
    assume "table_model U t s \<and> s x = s y"
    moreover from this have "s r = s x" using r(1) by auto
    ultimately show "table_model U (en_union U t x y) s"
      unfolding table_model_def r(2) using r(3,4) by (metis insertE singletonD)
  qed
qed

lemma unbound_union:
  assumes "ok t" "x \<in> unbound U t" "y \<in> unbound U t"
  shows "\<exists>r\<in>{x, y}. unbound U (en_union U t x y) = unbound U t - {x, y} \<union> {r} \<and>
    en_find U (en_union U t x y) x = r"
proof -
  obtain r where r: "r \<in> {x, y}" "en_len U (en_union U t x y) = en_len U t"
    "\<And>v. v < en_len U t \<Longrightarrow>
      en_find U (en_union U t x y) v = (if en_find U t v \<in> {x, y} then r else en_find U t v)"
    "\<And>v. v < en_len U t \<Longrightarrow> en_probe_value U (en_union U t x y) v = en_probe_value U t v"
    using union_unbound [OF assms] by metis
  have "unbound U (en_union U t x y) = unbound U t - {x, y} \<union> {r}"
    using assms(2,3) r by (auto simp: unbound_def split: if_splits)
  moreover have "en_find U (en_union U t x y) x = r"
    using assms(2) r by (auto simp: unbound_def)
  ultimately show ?thesis using r(1) by blast
qed

text \<open>Binding an unbound variable.\<close>

lemma bind_unbound:
  assumes t: "ok t" and x: "x \<in> unbound U t"
  shows "ok (en_union_value U t x (Some b))"
    and "en_len U (en_union_value U t x (Some b)) = en_len U t"
    and "v < en_len U t \<Longrightarrow> en_find U (en_union_value U t x (Some b)) v = en_find U t v"
    and "v < en_len U t \<Longrightarrow> en_probe_value U (en_union_value U t x (Some b)) v =
      (if en_find U t v = x then Some b else en_probe_value U t v)"
  using union_value [OF t _ refl, of x "Some b"] x by (auto simp: unbound_def unify_values_def)

lemma bind_model:
  assumes t: "ok t" and x: "x \<in> unbound U t"
  shows "table_model U (en_union_value U t x (Some b)) s \<longleftrightarrow> table_model U t s \<and> s x = inst s b"
proof -
  have x': "x < en_len U t" "en_find U t x = x" "en_probe_value U t x = None"
    using x by (auto simp: unbound_def)
  have none: "en_probe_value U t v = None" if "v < en_len U t" "en_find U t v = x" for v
    using that x' find [OF t that(1)] by auto
  show ?thesis
    using x' none by (auto simp: table_model_def bind_unbound [OF t x])
qed

lemma unbound_bind:
  assumes "ok t" "x \<in> unbound U t"
  shows "unbound U (en_union_value U t x (Some b)) = unbound U t - {x}"
  using assms(2) by (auto simp: unbound_def bind_unbound [OF assms] split: if_splits)

end

end
