(* ===== verification/Types_Unify.thy ===== *)
theory Types_Unify
  imports Types_Table
begin

text \<open>
  Correctness of the unification of \<open>crates/emela-types/src/infer.rs\<close>.

  One type \<^emph>\<open>fits\<close> another when they agree everywhere but in their sets, which must be contained as
  the variance says, and in broken types (\<open>fits\<close>). Unification is sound (every model of the result
  that satisfies the collected constraints makes the actual type fit the expected one), most general
  (it loses no model that makes the two types equal), fails only when there is no such model, and
  returns.
\<close>

section \<open>When a type fits another\<close>

text \<open>
  \<open>den k row\<close> is what a set of kind \<open>k\<close> denotes. The theorems hold for every \<open>den\<close> in which the
  empty set denotes nothing, in particular for the solution the constraints get later.
\<close>

type_synonym 'a denotation = "set_kind \<Rightarrow> row \<Rightarrow> 'a set"

fun rows_fit :: "'a denotation \<Rightarrow> set_kind \<Rightarrow> variance \<Rightarrow> row \<Rightarrow> row \<Rightarrow> bool" where
  "rows_fit den k Co e a \<longleftrightarrow> den k a \<subseteq> den k e"
| "rows_fit den k Contra e a \<longleftrightarrow> den k e \<subseteq> den k a"
| "rows_fit den k Inv e a \<longleftrightarrow> den k e = den k a"

inductive fits :: "'a denotation \<Rightarrow> variance \<Rightarrow> ty \<Rightarrow> ty \<Rightarrow> bool" for den where
  fits_error: "e = TError \<or> a = TError \<Longrightarrow> fits den var e a"
| fits_refl: "fits den var e e"
| fits_cap: "list_all2 (fits den Inv) xs ys \<Longrightarrow> fits den var (TCap d xs) (TCap d ys)"
| fits_set: "rows_fit den k var x y \<Longrightarrow> fits den var (TSet k x) (TSet k y)"
| fits_fn: "list_all2 (fits den (flip var)) ps qs \<Longrightarrow> fits den var r s \<Longrightarrow>
    rows_fit den Errors var f g \<Longrightarrow> rows_fit den Effects var u w \<Longrightarrow>
    fits den var (TFn ps r f u) (TFn qs s g w)"
| fits_tuple: "list_all2 (fits den var) xs ys \<Longrightarrow> fits den var (TTuple xs) (TTuple ys)"
| fits_named: "list_all2 (fits den Inv) xs ys \<Longrightarrow> fits den var (TNamed c xs) (TNamed c ys)"
| fits_list: "fits den var x y \<Longrightarrow> fits den var (TList x) (TList y)"

definition holds :: "'a denotation \<Rightarrow> (ty_var \<Rightarrow> ty) \<Rightarrow> row \<times> row \<times> set_kind \<Rightarrow> bool" where
  "holds den s c \<longleftrightarrow> (case c of (sub, super, k) \<Rightarrow> den k (inst_row s sub) \<subseteq> den k (inst_row s super))"

section \<open>The invariant of the table\<close>

lemma scoped_simps [simp]:
  "scoped U t (TCap d xs) \<longleftrightarrow> (\<forall>x\<in>set xs. scoped U t x)"
  "scoped U t (TTuple xs) \<longleftrightarrow> (\<forall>x\<in>set xs. scoped U t x)"
  "scoped U t (TNamed c xs) \<longleftrightarrow> (\<forall>x\<in>set xs. scoped U t x)"
  "scoped U t (TList x) \<longleftrightarrow> scoped U t x"
  by (auto simp: scoped_def)

lemma table_model_compose:
  assumes "table_model U t s"
  shows "table_model U t (\<lambda>v. inst r (s v))"
  unfolding table_model_def
proof (intro allI impI conjI)
  fix v
  assume v: "v < en_len U t"
  show "inst r (s (en_find U t v)) = inst r (s v)"
    using assms v by (simp add: table_model_def)
  fix b
  assume "en_probe_value U t v = Some b"
  then have "s v = inst s b" using assms v by (simp add: table_model_def)
  then show "inst r (s v) = inst (\<lambda>v. inst r (s v)) b" by (simp add: inst_inst)
qed

context ena_laws
begin

lemma table_ok_union:
  assumes t: "table_ok U ok t" and x: "x \<in> unbound U t" and y: "y \<in> unbound U t"
  shows "table_ok U ok (en_union U t x y)"
proof -
  have "ok t" using t by (simp add: table_ok_def)
  obtain s where s: "solved U t s" using t by (auto simp: table_ok_def)
  obtain r where r: "r \<in> {x, y}" "unbound U (en_union U t x y) = unbound U t - {x, y} \<union> {r}"
    using unbound_union [OF \<open>ok t\<close> x y] by blast
  obtain u: "ok (en_union U t x y)" "en_len U (en_union U t x y) = en_len U t"
    "\<And>v. v < en_len U t \<Longrightarrow> en_probe_value U (en_union U t x y) v = en_probe_value U t v"
    using union_unbound [OF \<open>ok t\<close> x y] by metis
  define q where "q = TVar(x := TVar r, y := TVar r)"
  have q: "ty_vars (q v) \<subseteq> unbound U t - {x, y} \<union> {r}" if "v \<in> unbound U t" for v
    using that by (auto simp: q_def)
  have "solved U (en_union U t x y) (\<lambda>v. inst q (s v))"
    unfolding solved_def union_model [OF \<open>ok t\<close> x y] r(2) u(2)
  proof (intro conjI ballI allI impI)
    show "table_model U t (\<lambda>v. inst q (s v))"
      by (rule table_model_compose) (use s in \<open>simp add: solved_def\<close>)
    show "inst q (s x) = inst q (s y)"
      using s x y by (simp add: solved_def q_def)
    fix v
    show "inst q (s v) = TVar v" if "v \<in> unbound U t - {x, y} \<union> {r}"
      using that s x y r(1) by (auto simp: solved_def q_def)
    show "ty_vars (inst q (s v)) \<subseteq> unbound U t - {x, y} \<union> {r}" if "v < en_len U t"
      unfolding ty_vars_inst using q s that by (fastforce simp: solved_def)
  qed
  then show ?thesis
    using t u by (auto simp: table_ok_def scoped_def)
qed

lemma table_ok_bind:
  assumes t: "table_ok U ok t" and x: "x \<in> unbound U t"
    and b: "\<not> is_var b" "scoped U t b" and s: "solved U t s" and occ: "x \<notin> ty_vars (inst s b)"
  shows "table_ok U ok (en_union_value U t x (Some b))"
proof -
  have "ok t" using t by (simp add: table_ok_def)
  note u = bind_unbound [OF \<open>ok t\<close> x]
  define q where "q = TVar(x := inst s b)"
  have q: "ty_vars (q v) \<subseteq> unbound U t - {x}" if "v \<in> unbound U t" for v
    using that occ solved_vars [OF s b(2)] by (auto simp: q_def)
  have qb: "inst q (inst s b) = inst s b"
  proof -
    have "inst q (inst s b) = inst TVar (inst s b)"
      by (rule inst_cong) (use occ in \<open>auto simp: q_def\<close>)
    then show ?thesis by simp
  qed
  have "solved U (en_union_value U t x (Some b)) (\<lambda>v. inst q (s v))"
    unfolding solved_def bind_model [OF \<open>ok t\<close> x] unbound_bind [OF \<open>ok t\<close> x] u(2)
  proof (intro conjI ballI allI impI)
    show "table_model U t (\<lambda>v. inst q (s v))"
      by (rule table_model_compose) (use s in \<open>simp add: solved_def\<close>)
    have "inst q (s x) = inst s b" using s x by (simp add: solved_def q_def)
    also have "\<dots> = inst (\<lambda>v. inst q (s v)) b" using qb by (simp add: inst_inst)
    finally show "inst q (s x) = inst (\<lambda>v. inst q (s v)) b" .
    fix v
    show "inst q (s v) = TVar v" if "v \<in> unbound U t - {x}"
      using that s by (auto simp: solved_def q_def)
    show "ty_vars (inst q (s v)) \<subseteq> unbound U t - {x}" if "v < en_len U t"
      unfolding ty_vars_inst using q s that by (fastforce simp: solved_def)
  qed
  moreover have "\<not> is_var c \<and> scoped U (en_union_value U t x (Some b)) c"
    if "v < en_len U t" "en_probe_value U (en_union_value U t x (Some b)) v = Some c" for v c
    using that t b u(2) by (auto simp: u(4) table_ok_def scoped_def split: if_splits)
  ultimately show ?thesis
    using u(1,2) by (auto simp: table_ok_def)
qed

lemma table_ok_new_key:
  assumes t: "table_ok U ok t" and n: "en_new_key U t None = (v, t')"
  shows "table_ok U ok t'" and "v \<in> unbound U t'"
proof -
  have nk: "ok t'" "v = en_len U t" "en_len U t' = Suc (en_len U t)" "en_find U t' v = v"
    "en_probe_value U t' v = None"
    "\<And>w. w < en_len U t \<Longrightarrow> en_find U t' w = en_find U t w \<and>
       en_probe_value U t' w = en_probe_value U t w"
    using new_key [OF _ n] t by (auto simp: table_ok_def)
  show v: "v \<in> unbound U t'" using nk by (simp add: unbound_def)
  obtain s where s: "solved U t s" using t by (auto simp: table_ok_def)
  have "ok t" using t by (simp add: table_ok_def)
  have unb: "unbound U t' = insert v (unbound U t)"
    using nk by (auto simp: unbound_def less_Suc_eq)
  have len: "w < en_len U t \<or> w = v" if "w < en_len U t'" for w using that nk(2,3) by auto
  have same: "inst (s(v := TVar v)) b = inst s b" if "scoped U t b" for b
    using that nk(2) by (intro inst_cong) (auto simp: scoped_def)
  have "table_model U t' (s(v := TVar v))"
    unfolding table_model_def
  proof (intro allI impI conjI)
    fix w assume w: "w < en_len U t'"
    show "(s(v := TVar v)) (en_find U t' w) = (s(v := TVar v)) w"
    proof (cases "w = v")
      case False
      then have w': "w < en_len U t" using len [OF w] by simp
      then have "en_find U t w \<noteq> v" "s (en_find U t w) = s w"
        using find_less [OF \<open>ok t\<close> w'] nk(2) s by (auto simp: solved_def table_model_def)
      with False nk(6) [OF w'] show ?thesis by simp
    qed (simp add: nk(4))
    fix b assume "en_probe_value U t' w = Some b"
    with nk len [OF w] have "w < en_len U t" "en_probe_value U t w = Some b" by auto
    moreover from this have "s w = inst s b" "scoped U t b"
      using s t by (auto simp: solved_def table_model_def table_ok_def)
    ultimately show "(s(v := TVar v)) w = inst (s(v := TVar v)) b"
      using same nk(2) by auto
  qed
  then have "solved U t' (s(v := TVar v))"
    using s len nk(2) by (auto simp: solved_def unb)
  moreover have "\<not> is_var b \<and> scoped U t' b"
    if w: "w < en_len U t'" and b: "en_probe_value U t' w = Some b" for w b
  proof -
    have "w < en_len U t" "en_probe_value U t w = Some b" using nk len [OF w] b by auto
    then have "\<not> is_var b \<and> scoped U t b" using t by (simp add: table_ok_def)
    then show ?thesis using nk(3) by (auto simp: scoped_def)
  qed
  ultimately show "table_ok U ok t'"
    using nk(1) by (auto simp: table_ok_def)
qed

end

section \<open>The cases of unification\<close>

text \<open>Whether two types without variables in their heads have the same one.\<close>

definition same_head :: "ty \<Rightarrow> ty \<Rightarrow> bool" where
  "same_head e a \<longleftrightarrow>
     (case (e, a) of
        (TPrim p, TPrim q) \<Rightarrow> p = q
      | (TNever, TNever) \<Rightarrow> True
      | (TBound i, TBound j) \<Rightarrow> i = j
      | (TCap d xs, TCap d' ys) \<Rightarrow> d = d' \<and> length xs = length ys
      | (TSet k x, TSet l y) \<Rightarrow> k = l
      | (TFn ps r f u, TFn qs s g w) \<Rightarrow> length ps = length qs
      | (TTuple xs, TTuple ys) \<Rightarrow> length xs = length ys
      | (TNamed c xs, TNamed d ys) \<Rightarrow> c = d \<and> length xs = length ys
      | (TList x, TList y) \<Rightarrow> True
      | _ \<Rightarrow> False)"

lemma same_head_inst:
  assumes "inst s e = inst s a" "\<not> is_var e" "\<not> is_var a" "e \<noteq> TError"
  shows "same_head e a"
  using assms
  by (cases e; cases a) (auto simp: same_head_def dest: map_eq_imp_length_eq)

lemma unify_heads_clash:
  assumes "\<not> same_head e a" "\<not> is_var e" "\<not> is_var a" "e \<noteq> TError" "a \<noteq> TError"
  shows "unify_heads U n rec e a var cx = Some (Inl (Mismatch e a), cx)"
  using assms by (cases e; cases a) (auto simp: unify_heads_def same_head_def)

lemma unify_heads_error:
  assumes "e = TError \<or> a = TError" "\<not> is_var e" "\<not> is_var a"
  shows "unify_heads U n rec e a var cx = Some (Inr (), cx)"
  using assms by (cases e; cases a) (simp_all add: unify_heads_def)

lemma unify_heads_var:
  "\<not> is_var t \<Longrightarrow> unify_heads U n rec (TVar v) t var cx = unify_var U n (Mismatch (TVar v) t) v t cx"
  "\<not> is_var t \<Longrightarrow> unify_heads U n rec t (TVar v) var cx = unify_var U n (Mismatch t (TVar v)) v t cx"
  by (cases t; simp add: unify_heads_def)+

lemma unify_heads_cases:
  obtains
    (vars) x y where "e = TVar x" "a = TVar y"
      "\<And>n rec var cx. unify_heads U n rec e a var cx = Some (Inr (), unify_vars U x y cx)"
  | (var) v t where "e = TVar v \<and> a = t \<or> a = TVar v \<and> e = t" "\<not> is_var t"
      "\<And>n rec var cx. unify_heads U n rec e a var cx = unify_var U n (Mismatch e a) v t cx"
  | (error) "e = TError \<or> a = TError" "\<And>n rec var cx. unify_heads U n rec e a var cx = Some (Inr (), cx)"
  | (same) "e = a" "\<And>n rec var cx. unify_heads U n rec e a var cx = Some (Inr (), cx)"
  | (clash) "\<And>s. inst s e \<noteq> inst s a"
      "\<And>n rec var cx. unify_heads U n rec e a var cx = Some (Inl (Mismatch e a), cx)"
  | (cap) d xs ys where "e = TCap d xs" "a = TCap d ys" "length xs = length ys"
      "\<And>n rec var cx. unify_heads U n rec e a var cx = unify_all (\<lambda>x y. rec x y Inv) xs ys cx"
  | (set) k x y where "e = TSet k x" "a = TSet k y"
      "\<And>n rec var cx. unify_heads U n rec e a var cx = Some (Inr (), buffer_rows k x y var cx)"
  | (fn) ps r f u qs s g w where "e = TFn ps r f u" "a = TFn qs s g w" "length ps = length qs"
      "\<And>n rec var cx. unify_heads U n rec e a var cx =
         unify_then (unify_all (\<lambda>x y. rec x y (flip var)) ps qs cx) (\<lambda>cx.
         unify_then (rec r s var cx) (\<lambda>cx.
         Some (Inr (), buffer_rows Effects u w var (buffer_rows Errors f g var cx))))"
  | (tuple) xs ys where "e = TTuple xs" "a = TTuple ys" "length xs = length ys"
      "\<And>n rec var cx. unify_heads U n rec e a var cx = unify_all (\<lambda>x y. rec x y var) xs ys cx"
  | (named) c xs ys where "e = TNamed c xs" "a = TNamed c ys" "length xs = length ys"
      "\<And>n rec var cx. unify_heads U n rec e a var cx = unify_all (\<lambda>x y. rec x y Inv) xs ys cx"
  | (list) x y where "e = TList x" "a = TList y"
      "\<And>n rec var cx. unify_heads U n rec e a var cx = rec x y var cx"
proof -
  consider "is_var e" "is_var a" | "is_var e" "\<not> is_var a" | "\<not> is_var e" "is_var a"
    | (err) "\<not> is_var e" "\<not> is_var a" "e = TError \<or> a = TError"
    | (no) "\<not> is_var e" "\<not> is_var a" "e \<noteq> TError" "a \<noteq> TError" "\<not> same_head e a"
    | (yes) "\<not> is_var e" "\<not> is_var a" "e \<noteq> TError" "a \<noteq> TError" "same_head e a"
    by blast
  then show thesis
  proof cases
    case 1
    then obtain x y where "e = TVar x" "a = TVar y" by (cases e; cases a) auto
    then show thesis by (intro vars) (simp_all add: unify_heads_def)
  next
    case 2
    then obtain v where "e = TVar v" by (cases e) auto
    then show thesis using 2 by (intro var [of v a]) (simp_all add: unify_heads_var)
  next
    case 3
    then obtain v where "a = TVar v" by (cases a) auto
    then show thesis using 3 by (intro var [of v e]) (simp_all add: unify_heads_var)
  next
    case err
    then show thesis using error unify_heads_error by blast
  next
    case no
    show thesis
      by (rule clash) (use no same_head_inst unify_heads_clash in blast)+
  next
    case yes
    show thesis
    proof (cases e)
      case (TPrim p)
      with yes show thesis by (intro same) (auto simp: same_head_def unify_heads_def split: ty.splits)
    next
      case TNever
      with yes show thesis by (intro same) (auto simp: same_head_def unify_heads_def split: ty.splits)
    next
      case (TBound i)
      with yes show thesis by (intro same) (auto simp: same_head_def unify_heads_def split: ty.splits)
    next
      case (TFn ps r f u)
      with yes obtain qs s g w where "a = TFn qs s g w" "length ps = length qs"
        by (auto simp: same_head_def split: ty.splits)
      with TFn show thesis by (intro fn) (auto simp: unify_heads_def)
    next
      case (TTuple xs)
      with yes obtain ys where "a = TTuple ys" "length xs = length ys"
        by (auto simp: same_head_def split: ty.splits)
      with TTuple show thesis by (intro tuple) (auto simp: unify_heads_def)
    next
      case (TList x)
      with yes obtain y where "a = TList y"
        by (auto simp: same_head_def split: ty.splits)
      with TList show thesis by (intro list) (auto simp: unify_heads_def)
    next
      case (TNamed c xs)
      with yes obtain ys where "a = TNamed c ys" "length xs = length ys"
        by (auto simp: same_head_def split: ty.splits)
      with TNamed show thesis by (intro named) (auto simp: unify_heads_def)
    next
      case (TSet k x)
      with yes obtain y where "a = TSet k y"
        by (auto simp: same_head_def split: ty.splits)
      with TSet show thesis by (intro set) (auto simp: unify_heads_def)
    next
      case (TCap d xs)
      with yes obtain ys where "a = TCap d ys" "length xs = length ys"
        by (auto simp: same_head_def split: ty.splits)
      with TCap show thesis by (intro cap) (auto simp: unify_heads_def)
    qed (use yes in auto)
  qed
qed

section \<open>How a context grows\<close>

definition ctx_frame where
  "ctx_frame cx = (ic_errors cx, ic_next_row_var cx, ic_subsets cx, ic_origin cx, ic_error_tags cx,
     ic_row_solution cx, ic_solving cx)"

text \<open>Nothing a lookup can tell has changed.\<close>

definition same_table :: "'t ena \<Rightarrow> 't \<Rightarrow> 't \<Rightarrow> bool" where
  "same_table U t t' \<longleftrightarrow> en_len U t' = en_len U t \<and>
     (\<forall>v < en_len U t. en_find U t' v = en_find U t v \<and> en_probe_value U t' v = en_probe_value U t v)"

definition ctx_ext :: "'t ena \<Rightarrow> ('t \<Rightarrow> bool) \<Rightarrow> 't infer_ctx \<Rightarrow> 't infer_ctx \<Rightarrow> bool" where
  "ctx_ext U ok cx cx' \<longleftrightarrow>
     ctx_ok U ok cx' \<and> en_len U (ic_table cx') = en_len U (ic_table cx) \<and>
     (\<forall>s. models U cx' s \<longrightarrow> models U cx s) \<and>
     (\<exists>zs. ic_row_buffer cx' = ic_row_buffer cx @ zs) \<and> ctx_frame cx' = ctx_frame cx \<and>
     (\<forall>v < en_len U (ic_table cx). \<forall>b. en_probe_value U (ic_table cx) v = Some b \<longrightarrow>
        en_probe_value U (ic_table cx') v = Some b) \<and>
     (\<forall>v\<in>set (ic_int_vars cx'). v \<in> set (ic_int_vars cx) \<or>
        v < en_len U (ic_table cx) \<and> en_probe_value U (ic_table cx) v = None) \<and>
     (\<exists>zs. ic_int_vars cx' = ic_int_vars cx @ zs) \<and>
     (same_table U (ic_table cx) (ic_table cx') \<or>
      card (unbound U (ic_table cx')) < card (unbound U (ic_table cx)))"

lemma ctx_ext_refl: "ctx_ok U ok cx \<Longrightarrow> ctx_ext U ok cx cx"
  by (simp add: ctx_ext_def same_table_def)

lemma unbound_same: "same_table U t t' \<Longrightarrow> unbound U t' = unbound U t"
  by (auto simp: same_table_def unbound_def)

lemma same_table_trans: "same_table U t t' \<Longrightarrow> same_table U t' t'' \<Longrightarrow> same_table U t t''"
  by (simp add: same_table_def)

lemma ctx_ext_trans:
  assumes "ctx_ext U ok cx cx'" "ctx_ext U ok cx' cx''"
  shows "ctx_ext U ok cx cx''"
proof -
  let ?t = "ic_table cx" and ?t' = "ic_table cx'" and ?t'' = "ic_table cx''"
  have a: "same_table U ?t ?t' \<or> card (unbound U ?t') < card (unbound U ?t)"
    and b: "same_table U ?t' ?t'' \<or> card (unbound U ?t'') < card (unbound U ?t')"
    using assms by (simp_all add: ctx_ext_def)
  have "same_table U ?t ?t'' \<or> card (unbound U ?t'') < card (unbound U ?t)"
    using a b same_table_trans [of U ?t ?t' ?t''] unbound_same [of U ?t ?t'] unbound_same [of U ?t' ?t'']
    by auto
  moreover have "v \<in> set (ic_int_vars cx) \<or>
      v < en_len U (ic_table cx) \<and> en_probe_value U (ic_table cx) v = None"
    if "v \<in> set (ic_int_vars cx'')" for v
    using assms that unfolding ctx_ext_def by (metis option.exhaust)
  ultimately show ?thesis using assms unfolding ctx_ext_def by auto
qed

lemma ctx_ext_scoped:
  "ctx_ext U ok cx cx' \<Longrightarrow> scoped U (ic_table cx') ty \<longleftrightarrow> scoped U (ic_table cx) ty"
  by (simp add: ctx_ext_def scoped_def)

lemma ctx_ext_ok: "ctx_ext U ok cx cx' \<Longrightarrow> ctx_ok U ok cx'"
  by (simp add: ctx_ext_def)

lemma ctx_ext_models: "ctx_ext U ok cx cx' \<Longrightarrow> models U cx' s \<Longrightarrow> models U cx s"
  by (simp add: ctx_ext_def)

lemma ctx_ext_buffer: "ctx_ext U ok cx cx' \<Longrightarrow> set (ic_row_buffer cx) \<subseteq> set (ic_row_buffer cx')"
  by (auto simp: ctx_ext_def)

lemma buffer_rows_ext: "ctx_ok U ok cx \<Longrightarrow> ctx_ext U ok cx (buffer_rows k x y var cx)"
  by (auto simp: buffer_rows_def ctx_ext_def ctx_frame_def same_table_def)

lemma unify_then_Some:
  assumes "unify_then m k = Some (r, cx')"
  obtains (fail) e where "m = Some (Inl e, cx')" "r = Inl e"
  | (go) cx1 where "m = Some (Inr (), cx1)" "k cx1 = Some (r, cx')"
  using assms by (auto simp: unify_then_def split: option.splits sum.splits)

lemma unify_vars_table [simp]: "ic_table (unify_vars U x y cx) = en_union U (ic_table cx) x y"
  by (simp add: unify_vars_def Let_def)

lemma unify_all_ext:
  assumes f: "\<And>x y cx r cx'. x \<in> set xs \<Longrightarrow> y \<in> set ys \<Longrightarrow> ctx_ok U ok cx \<Longrightarrow>
      scoped U (ic_table cx) x \<Longrightarrow> scoped U (ic_table cx) y \<Longrightarrow> f x y cx = Some (r, cx') \<Longrightarrow>
      ctx_ext U ok cx cx'"
  shows "ctx_ok U ok cx \<Longrightarrow> \<forall>x\<in>set xs. scoped U (ic_table cx) x \<Longrightarrow>
    \<forall>y\<in>set ys. scoped U (ic_table cx) y \<Longrightarrow> unify_all f xs ys cx = Some (r, cx') \<Longrightarrow>
    ctx_ext U ok cx cx'"
  using f
proof (induction f xs ys cx rule: unify_all.induct)
  case (1 f x xs y ys cx)
  from "1.prems"(4) show ?case unfolding unify_all.simps
  proof (cases rule: unify_then_Some)
    case (fail e)
    then show ?thesis using "1.prems"(2,3) "1.prems"(5) [OF _ _ "1.prems"(1) _ _ fail(1)] by auto
  next
    case (go cx1)
    have e1: "ctx_ext U ok cx cx1"
      using "1.prems"(2,3) "1.prems"(5) [OF _ _ "1.prems"(1) _ _ go(1)] by auto
    have "ctx_ext U ok cx1 cx'"
    proof (rule "1.IH" [OF ctx_ext_ok [OF e1] _ _ go(2)])
      fix xa ya cx r cx'
      assume "xa \<in> set xs" "ya \<in> set ys" "ctx_ok U ok cx" "scoped U (ic_table cx) xa"
        "scoped U (ic_table cx) ya" "f xa ya cx = Some (r, cx')"
      then show "ctx_ext U ok cx cx'" by (intro "1.prems"(5)) auto
    qed (use "1.prems"(2,3) ctx_ext_scoped [OF e1] in auto)
    with e1 show ?thesis by (rule ctx_ext_trans)
  qed
qed (auto simp: ctx_ext_refl)

context ena_laws
begin

lemma is_int_var_iff:
  assumes "ctx_ok U ok cx" "v \<in> unbound U (ic_table cx)"
  shows "is_int_var U cx v \<longleftrightarrow> (\<exists>w\<in>set (ic_int_vars cx). en_find U (ic_table cx) w = v)"
  using assms unioned [of "ic_table cx" v]
  by (auto simp: is_int_var_def list_ex_iff ctx_ok_def table_ok_def unbound_def)

lemma unify_vars_ext:
  assumes ok: "ctx_ok U ok cx" and x: "x \<in> unbound U (ic_table cx)" and y: "y \<in> unbound U (ic_table cx)"
  shows "ctx_ext U ok cx (unify_vars U x y cx)"
proof -
  let ?t = "ic_table cx" and ?t' = "en_union U (ic_table cx) x y"
  have t: "table_ok U ok ?t" and "ok ?t" using ok by (auto simp: ctx_ok_def table_ok_def)
  obtain r where r: "r \<in> {x, y}" "unbound U ?t' = unbound U ?t - {x, y} \<union> {r}"
      "en_find U ?t' x = r"
    using unbound_union [OF \<open>ok ?t\<close> x y] by blast
  obtain q where q: "q \<in> {x, y}" "en_len U ?t' = en_len U ?t"
    "\<And>v. v < en_len U ?t \<Longrightarrow> en_find U ?t' v = (if en_find U ?t v \<in> {x, y} then q else en_find U ?t v)"
    "\<And>v. v < en_len U ?t \<Longrightarrow> en_probe_value U ?t' v = en_probe_value U ?t v"
    using union_unbound [OF \<open>ok ?t\<close> x y] by metis
  have rt: "r < en_len U ?t" "en_probe_value U ?t r = None"
    using r(1) x y by (auto simp: unbound_def)
  have tab: "ic_table (unify_vars U x y cx) = ?t'" "ctx_frame (unify_vars U x y cx) = ctx_frame cx"
    "ic_row_buffer (unify_vars U x y cx) = ic_row_buffer cx"
    by (simp_all add: unify_vars_def Let_def ctx_frame_def)
  obtain zs where ints: "ic_int_vars (unify_vars U x y cx) = ic_int_vars cx @ zs" "set zs \<subseteq> {r}"
    using r(3) by (cases "is_int_var U cx x \<or> is_int_var U cx y") (auto simp: unify_vars_def Let_def)
  have "same_table U ?t ?t' \<or> card (unbound U ?t') < card (unbound U ?t)"
  proof (cases "x = y")
    case True
    then show ?thesis using q x by (auto simp: same_table_def)
  next
    case False
    have "card (unbound U ?t') < card (unbound U ?t)"
      by (rule psubset_card_mono [OF finite_unbound]) (use False r x y in auto)
    then show ?thesis by simp
  qed
  moreover have "ctx_ok U ok (unify_vars U x y cx)"
    using ok table_ok_union [OF t x y] ints q(2,4) rt by (auto simp: ctx_ok_def tab)
  moreover have "models U cx s" if "models U (unify_vars U x y cx) s" for s
    using that ints by (auto simp: models_def tab union_model [OF \<open>ok ?t\<close> x y])
  ultimately show ?thesis
    using ints rt q(2,4) by (auto simp: ctx_ext_def tab)
qed

lemma bind_var_Some:
  assumes "bind_var U n v t cx = Some (r, cx')"
  obtains (infinite) "occurs U n cx v t = Some True" "r = Inl (InfiniteType v t)" "cx' = cx"
  | (bound) "occurs U n cx v t = Some False" "r = Inr ()"
      "cx' = cx\<lparr>ic_table := en_union_value U (ic_table cx) v (Some t)\<rparr>"
  using assms by (auto simp: bind_var_def split: option.splits bool.splits)

lemma unify_var_Some:
  assumes "unify_var U n err v t cx = Some (r, cx')"
  obtains (mismatch) "is_int_var U cx v" "\<not> int_ty t" "r = Inl err" "cx' = cx"
  | (bind) "is_int_var U cx v \<longrightarrow> int_ty t" "bind_var U n v t cx = Some (r, cx')"
  using assms by (auto simp: unify_var_def int_ty_def split: if_splits)

lemma unify_var_ext:
  assumes ok: "ctx_ok U ok cx" and v: "v \<in> unbound U (ic_table cx)"
    and t: "\<not> is_var t" "scoped U (ic_table cx) t"
    and res: "unify_var U n err v t cx = Some (r, cx')"
  shows "ctx_ext U ok cx cx'"
  using res
proof (cases rule: unify_var_Some)
  case bind
  from bind(2) show ?thesis
  proof (cases rule: bind_var_Some)
    case bound
    let ?t = "ic_table cx" and ?t' = "en_union_value U (ic_table cx) v (Some t)"
    have tok: "table_ok U ok ?t" and "ok ?t" using ok by (auto simp: ctx_ok_def table_ok_def)
    obtain s where s: "solved U ?t s" using tok by (auto simp: table_ok_def)
    have "v \<notin> ty_vars (inst s t)" using occurs_correct [OF tok s v t(2) bound(1)] by simp
    note tok' = table_ok_bind [OF tok v t s this]
    note u = bind_unbound [OF \<open>ok ?t\<close> v, where b = t]
    have none: "en_probe_value U ?t w = None" if "w < en_len U ?t" "en_find U ?t w = v" for w
      using that v find [OF \<open>ok ?t\<close> that(1)] by (auto simp: unbound_def)
    have "int_ty b" if "w \<in> set (ic_int_vars cx)" "en_probe_value U ?t' w = Some b" for w b
      using that ok bind(1) is_int_var_iff [OF ok v] u(4) [of w] by (auto simp: ctx_ok_def split: if_splits)
    then have "ctx_ok U ok cx'" using ok tok' u(2) by (auto simp: ctx_ok_def bound(3))
    moreover have "card (unbound U ?t') < card (unbound U ?t)"
      unfolding unbound_bind [OF \<open>ok ?t\<close> v] by (rule card_Diff1_less [OF finite_unbound v])
    moreover have "models U cx s" if "models U cx' s" for s
      using that by (simp add: models_def bound(3) bind_model [OF \<open>ok ?t\<close> v])
    ultimately show ?thesis
      using u(2,4) none ok by (auto simp: ctx_ext_def bound(3) ctx_frame_def ctx_ok_def)
  qed (use ok ctx_ext_refl in auto)
qed (use ok ctx_ext_refl in auto)

lemma unify_heads_ext:
  assumes rec: "\<And>x y var cx r cx'. ctx_ok U ok cx \<Longrightarrow> scoped U (ic_table cx) x \<Longrightarrow>
      scoped U (ic_table cx) y \<Longrightarrow> rec x y var cx = Some (r, cx') \<Longrightarrow> ctx_ext U ok cx cx'"
    and ok: "ctx_ok U ok cx" and e: "scoped U (ic_table cx) e" and a: "scoped U (ic_table cx) a"
    and ev: "is_var e \<Longrightarrow> \<exists>v\<in>unbound U (ic_table cx). e = TVar v"
    and av: "is_var a \<Longrightarrow> \<exists>v\<in>unbound U (ic_table cx). a = TVar v"
    and res: "unify_heads U n rec e a var cx = Some (r, cx')"
  shows "ctx_ext U ok cx cx'"
proof -
  have all: "ctx_ext U ok cx cx'"
    if "unify_all (\<lambda>x y. rec x y v) xs ys cx = Some (r, cx')" "\<forall>x\<in>set xs. scoped U (ic_table cx) x"
      "\<forall>y\<in>set ys. scoped U (ic_table cx) y" for v xs ys r cx'
    by (rule unify_all_ext [OF _ ok that(2,3,1)]) (rule rec)
  show ?thesis
  proof (cases rule: unify_heads_cases [of e a U])
    case (vars x y)
    then show ?thesis using res ok unify_vars_ext ev av by auto
  next
    case (var v t)
    then have "v \<in> unbound U (ic_table cx)" "scoped U (ic_table cx) t" using e a ev av by auto
    then show ?thesis using unify_var_ext [OF ok _ var(2)] res var(3) by auto
  next
    case (fn ps q f u qs s g w)
    have sc: "\<forall>x\<in>set ps. scoped U (ic_table cx) x" "\<forall>y\<in>set qs. scoped U (ic_table cx) y"
      "scoped U (ic_table cx) q" "scoped U (ic_table cx) s"
      using e a fn(1,2) by (auto simp: scoped_def)
    from res show ?thesis unfolding fn(4)
    proof (cases rule: unify_then_Some)
      case (go cx1)
      have e1: "ctx_ext U ok cx cx1" using all [OF go(1) sc(1,2)] .
      note ok1 = ctx_ext_ok [OF e1]
      from go(2) show ?thesis
      proof (cases rule: unify_then_Some)
        case (fail err)
        then show ?thesis
          using rec [OF ok1 _ _ fail(1)] sc ctx_ext_scoped [OF e1] ctx_ext_trans [OF e1] by auto
      next
        case (go cx2)
        have e2: "ctx_ext U ok cx1 cx2"
          using rec [OF ok1 _ _ go(1)] sc ctx_ext_scoped [OF e1] by auto
        note e3 = buffer_rows_ext [OF ctx_ext_ok [OF e2], of Errors f g var]
        note e4 = buffer_rows_ext [OF ctx_ext_ok [OF e3], of Effects u w var]
        have "cx' = buffer_rows Effects u w var (buffer_rows Errors f g var cx2)" using go(2) by simp
        then show ?thesis
          using ctx_ext_trans [OF e1 ctx_ext_trans [OF e2 ctx_ext_trans [OF e3 e4]]] by simp
      qed
    qed (use all sc in auto)
  next
    case (cap d xs ys)
    then show ?thesis using res e a all [of Inv xs ys] by simp
  next
    case (tuple xs ys)
    then show ?thesis using res e a all [of var xs ys] by simp
  next
    case (named c xs ys)
    then show ?thesis using res e a all [of Inv xs ys] by simp
  next
    case (list x y)
    then show ?thesis using res e a rec [OF ok, of x y] by simp
  next
    case (set k x y)
    then show ?thesis using res buffer_rows_ext [OF ok] by auto
  qed (use res ok ctx_ext_refl in auto)
qed

lemma unify_inner_Some:
  assumes "unify_inner U (Suc n) expected actual var cx = Some (r, cx')"
  obtains e a where "shallow_resolve U (Suc n) cx expected = Some e"
    "shallow_resolve U (Suc n) cx actual = Some a"
    "unify_heads U (Suc n) (unify_inner U n) e a var cx = Some (r, cx')"
  using assms by (auto simp del: shallow_resolve.simps split: option.splits)

lemma unify_inner_ext:
  "ctx_ok U ok cx \<Longrightarrow> scoped U (ic_table cx) e \<Longrightarrow> scoped U (ic_table cx) a \<Longrightarrow>
   unify_inner U n e a var cx = Some (r, cx') \<Longrightarrow> ctx_ext U ok cx cx'"
proof (induction n arbitrary: e a var cx r cx')
  case (Suc n)
  obtain e' a' where ea: "shallow_resolve U (Suc n) cx e = Some e'"
    "shallow_resolve U (Suc n) cx a = Some a'"
    "unify_heads U (Suc n) (unify_inner U n) e' a' var cx = Some (r, cx')"
    using Suc.prems(4) by (rule unify_inner_Some)
  have t: "table_ok U ok (ic_table cx)" using Suc.prems(1) by (simp add: ctx_ok_def)
  note se = shallow_resolve_sound [OF t Suc.prems(2) ea(1)]
    and sa = shallow_resolve_sound [OF t Suc.prems(3) ea(2)]
  show ?case
    by (rule unify_heads_ext [OF Suc.IH Suc.prems(1) se(1) sa(1) se(3) sa(3) ea(3)])
qed simp

end

section \<open>Soundness\<close>

lemma buffer_rows_sound:
  assumes "\<forall>c\<in>set (ic_row_buffer (buffer_rows k x y var cx)). holds den s c"
  shows "rows_fit den k var (inst_row s x) (inst_row s y)"
  using assms by (cases var) (auto simp: buffer_rows_def holds_def split: if_splits)

lemma unify_all_sound:
  assumes ext: "\<And>x y cx r cx'. ctx_ok U ok cx \<Longrightarrow> scoped U (ic_table cx) x \<Longrightarrow>
      scoped U (ic_table cx) y \<Longrightarrow> f x y cx = Some (r, cx') \<Longrightarrow> ctx_ext U ok cx cx'"
    and sound: "\<And>x y cx cx'. ctx_ok U ok cx \<Longrightarrow> scoped U (ic_table cx) x \<Longrightarrow>
      scoped U (ic_table cx) y \<Longrightarrow> f x y cx = Some (Inr (), cx') \<Longrightarrow> models U cx' s \<Longrightarrow>
      \<forall>c\<in>set (ic_row_buffer cx'). holds den s c \<Longrightarrow> P x y"
    and s: "models U cx' s" "\<forall>c\<in>set (ic_row_buffer cx'). holds den s c"
  shows "length xs = length ys \<Longrightarrow> ctx_ok U ok cx \<Longrightarrow> \<forall>x\<in>set xs. scoped U (ic_table cx) x \<Longrightarrow>
    \<forall>y\<in>set ys. scoped U (ic_table cx) y \<Longrightarrow> unify_all f xs ys cx = Some (Inr (), cx') \<Longrightarrow>
    list_all2 P xs ys"
proof (induction xs ys arbitrary: cx rule: list_induct2)
  case (Cons x xs y ys)
  from Cons.prems(4) show ?case unfolding unify_all.simps
  proof (cases rule: unify_then_Some)
    case (go cx1)
    have e1: "ctx_ext U ok cx cx1" using ext [OF Cons.prems(1) _ _ go(1)] Cons.prems(2,3) by simp
    have sc: "\<forall>x\<in>set xs. scoped U (ic_table cx1) x" "\<forall>y\<in>set ys. scoped U (ic_table cx1) y"
      using Cons.prems(2,3) ctx_ext_scoped [OF e1] by auto
    have e2: "ctx_ext U ok cx1 cx'"
      by (rule unify_all_ext [OF ext ctx_ext_ok [OF e1] sc go(2)])
    have "P x y"
      using sound [OF Cons.prems(1) _ _ go(1)] Cons.prems(2,3) ctx_ext_models [OF e2 s(1)]
        ctx_ext_buffer [OF e2] s(2) by auto
    with Cons.IH [OF ctx_ext_ok [OF e1] sc go(2)] show ?thesis by simp
  qed simp
qed simp

context ena_laws
begin

lemma unify_heads_sound:
  assumes ext: "\<And>x y var cx r cx'. ctx_ok U ok cx \<Longrightarrow> scoped U (ic_table cx) x \<Longrightarrow>
      scoped U (ic_table cx) y \<Longrightarrow> rec x y var cx = Some (r, cx') \<Longrightarrow> ctx_ext U ok cx cx'"
    and rec: "\<And>x y var cx cx'. ctx_ok U ok cx \<Longrightarrow> scoped U (ic_table cx) x \<Longrightarrow>
      scoped U (ic_table cx) y \<Longrightarrow> rec x y var cx = Some (Inr (), cx') \<Longrightarrow> models U cx' s \<Longrightarrow>
      \<forall>c\<in>set (ic_row_buffer cx'). holds den s c \<Longrightarrow> fits den var (inst s x) (inst s y)"
    and ok: "ctx_ok U ok cx" and e: "scoped U (ic_table cx) e" and a: "scoped U (ic_table cx) a"
    and ev: "is_var e \<Longrightarrow> \<exists>v\<in>unbound U (ic_table cx). e = TVar v"
    and av: "is_var a \<Longrightarrow> \<exists>v\<in>unbound U (ic_table cx). a = TVar v"
    and res: "unify_heads U n rec e a var cx = Some (Inr (), cx')"
    and s: "models U cx' s" "\<forall>c\<in>set (ic_row_buffer cx'). holds den s c"
  shows "fits den var (inst s e) (inst s a)"
proof -
  have okt: "ok (ic_table cx)" using ok by (simp add: ctx_ok_def table_ok_def)
  have all: "list_all2 (fits den v) (map (inst s) xs) (map (inst s) ys)"
    if "unify_all (\<lambda>x y. rec x y v) xs ys cx = Some (Inr (), cx1)" "length xs = length ys"
      "\<forall>x\<in>set xs. scoped U (ic_table cx) x" "\<forall>y\<in>set ys. scoped U (ic_table cx) y"
      "models U cx1 s" "\<forall>c\<in>set (ic_row_buffer cx1). holds den s c" for v xs ys cx1
    unfolding list_all2_map1 list_all2_map2
    by (rule unify_all_sound [OF ext rec that(5,6,2) ok that(3,4,1)])
  show ?thesis
  proof (cases rule: unify_heads_cases [of e a U])
    case (vars x y)
    have "table_model U (en_union U (ic_table cx) x y) s"
      using s(1) res vars(3) by (auto simp: models_def)
    then have "s x = s y"
      using union_model [OF okt] ev av vars(1,2) by auto
    then show ?thesis by (simp add: vars fits_refl)
  next
    case (var v t)
    then have v: "v \<in> unbound U (ic_table cx)" using ev av by auto
    have "unify_var U n (Mismatch e a) v t cx = Some (Inr (), cx')" using res var(3) by simp
    then have "s v = inst s t"
    proof (cases rule: unify_var_Some)
      case bind
      from bind(2) show ?thesis
      proof (cases rule: bind_var_Some)
        case bound
        then show ?thesis using s(1) bind_model [OF okt v] by (simp add: models_def)
      qed simp
    qed simp
    then show ?thesis using var(1) by (auto intro: fits_refl)
  next
    case (fn ps q f u qs r g w)
    have sc: "\<forall>x\<in>set ps. scoped U (ic_table cx) x" "\<forall>y\<in>set qs. scoped U (ic_table cx) y"
      "scoped U (ic_table cx) q" "scoped U (ic_table cx) r"
      using e a fn(1,2) by (auto simp: scoped_def)
    from res show ?thesis unfolding fn(4)
    proof (cases rule: unify_then_Some)
      case (go cx1)
      have e1: "ctx_ext U ok cx cx1"
        by (rule unify_all_ext [OF ext ok sc(1,2) go(1)])
      note ok1 = ctx_ext_ok [OF e1]
      from go(2) show ?thesis
      proof (cases rule: unify_then_Some)
        case go2: (go cx2)
        have sc1: "scoped U (ic_table cx1) q" "scoped U (ic_table cx1) r"
          using sc ctx_ext_scoped [OF e1] by auto
        have e2: "ctx_ext U ok cx1 cx2" by (rule ext [OF ok1 sc1 go2(1)])
        let ?cx3 = "buffer_rows Errors f g var cx2"
        have cx': "cx' = buffer_rows Effects u w var ?cx3" using go2(2) by simp
        note e3 = buffer_rows_ext [OF ctx_ext_ok [OF e2], of Errors f g var]
        note e4 = buffer_rows_ext [OF ctx_ext_ok [OF e3], of Effects u w var, folded cx']
        note e24 = ctx_ext_trans [OF e2 ctx_ext_trans [OF e3 e4]] and e34 = ctx_ext_trans [OF e3 e4]
        have "list_all2 (fits den (flip var)) (map (inst s) ps) (map (inst s) qs)"
          using all [OF go(1) fn(3) sc(1,2)] ctx_ext_models [OF e24 s(1)] ctx_ext_buffer [OF e24] s(2)
          by blast
        moreover have "fits den var (inst s q) (inst s r)"
          using rec [OF ok1 sc1 go2(1)] ctx_ext_models [OF e34 s(1)] ctx_ext_buffer [OF e34] s(2)
          by blast
        moreover have "rows_fit den Errors var (inst_row s f) (inst_row s g)"
          by (rule buffer_rows_sound [of Errors f g var cx2]) (use ctx_ext_buffer [OF e4] s(2) in blast)
        moreover have "rows_fit den Effects var (inst_row s u) (inst_row s w)"
          by (rule buffer_rows_sound [of Effects u w var ?cx3]) (use s(2) cx' in simp)
        ultimately show ?thesis
          unfolding fn(1,2) by (auto simp: inst_row_def intro: fits_fn)
      qed simp
    qed simp
  next
    case (cap d xs ys)
    have "list_all2 (fits den Inv) (map (inst s) xs) (map (inst s) ys)"
      by (rule all [OF _ cap(3) _ _ s]) (use res cap e a in simp_all)
    then show ?thesis by (simp add: cap(1,2) fits_cap)
  next
    case (tuple xs ys)
    have "list_all2 (fits den var) (map (inst s) xs) (map (inst s) ys)"
      by (rule all [OF _ tuple(3) _ _ s]) (use res tuple e a in simp_all)
    then show ?thesis by (simp add: tuple(1,2) fits_tuple)
  next
    case (named c xs ys)
    have "list_all2 (fits den Inv) (map (inst s) xs) (map (inst s) ys)"
      by (rule all [OF _ named(3) _ _ s]) (use res named e a in simp_all)
    then show ?thesis by (simp add: named(1,2) fits_named)
  next
    case (list x y)
    have "fits den var (inst s x) (inst s y)"
      by (rule rec [OF ok _ _ _ s]) (use res list e a in simp_all)
    then show ?thesis by (simp add: list(1,2) fits_list)
  next
    case (set k x y)
    have "rows_fit den k var (inst_row s x) (inst_row s y)"
      by (rule buffer_rows_sound [of k x y var cx]) (use s(2) res set(3) in auto)
    then show ?thesis by (simp add: set(1,2) inst_row_def fits_set)
  next
    case error
    then show ?thesis by (auto intro: fits_error)
  next
    case same
    then show ?thesis by (simp add: fits_refl)
  next
    case clash
    then show ?thesis using res by simp
  qed
qed

lemma unify_inner_sound:
  assumes "ctx_ok U ok cx" "scoped U (ic_table cx) e" "scoped U (ic_table cx) a"
    and "unify_inner U n e a var cx = Some (Inr (), cx')"
    and "models U cx' s" "\<forall>c\<in>set (ic_row_buffer cx'). holds den s c"
  shows "fits den var (inst s e) (inst s a)"
  using assms
proof (induction n arbitrary: e a var cx cx')
  case (Suc n)
  obtain e' a' where ea: "shallow_resolve U (Suc n) cx e = Some e'"
    "shallow_resolve U (Suc n) cx a = Some a'"
    "unify_heads U (Suc n) (unify_inner U n) e' a' var cx = Some (Inr (), cx')"
    using Suc.prems(4) by (rule unify_inner_Some)
  have t: "table_ok U ok (ic_table cx)" using Suc.prems(1) by (simp add: ctx_ok_def)
  note se = shallow_resolve_sound [OF t Suc.prems(2) ea(1)]
    and sa = shallow_resolve_sound [OF t Suc.prems(3) ea(2)]
  have "table_model U (ic_table cx) s"
    using ctx_ext_models [OF unify_inner_ext [OF Suc.prems(1-4)] Suc.prems(5)]
    by (simp add: models_def)
  then have "inst s e' = inst s e" "inst s a' = inst s a" using se(2) sa(2) by auto
  moreover have "fits den var (inst s e') (inst s a')"
    by (rule unify_heads_sound [OF unify_inner_ext Suc.IH Suc.prems(1) se(1) sa(1) se(3) sa(3) ea(3)
          Suc.prems(5,6)])
  ultimately show ?case by simp
qed simp

end

section \<open>Generality\<close>

text \<open>A model is kept, and makes the two sides of every new constraint equal.\<close>

definition tight :: "(ty_var \<Rightarrow> ty) \<Rightarrow> row \<times> row \<times> set_kind \<Rightarrow> bool" where
  "tight s c \<longleftrightarrow> (case c of (sub, super, k) \<Rightarrow> inst_row s sub = inst_row s super)"

definition keeps_model :: "'t ena \<Rightarrow> (ty_var \<Rightarrow> ty) \<Rightarrow> 't infer_ctx \<Rightarrow> 't infer_ctx \<Rightarrow> bool" where
  "keeps_model U s cx cx' \<longleftrightarrow>
     models U cx' s \<and> (\<forall>c\<in>set (ic_row_buffer cx'). c \<in> set (ic_row_buffer cx) \<or> tight s c)"

lemma keeps_model_refl: "models U cx s \<Longrightarrow> keeps_model U s cx cx"
  by (simp add: keeps_model_def)

lemma keeps_model_trans: "keeps_model U s cx cx' \<Longrightarrow> keeps_model U s cx' cx'' \<Longrightarrow> keeps_model U s cx cx''"
  by (auto simp: keeps_model_def)

lemma keeps_model_models: "keeps_model U s cx cx' \<Longrightarrow> models U cx' s"
  by (simp add: keeps_model_def)

lemma buffer_rows_keeps:
  "models U cx s \<Longrightarrow> map (inst_elem s) x = map (inst_elem s) y \<Longrightarrow>
   keeps_model U s cx (buffer_rows k x y var cx)"
  by (cases var) (auto simp: keeps_model_def buffer_rows_def tight_def inst_row_def)

lemma unify_all_complete:
  assumes ext: "\<And>x y cx r cx'. ctx_ok U ok cx \<Longrightarrow> scoped U (ic_table cx) x \<Longrightarrow>
      scoped U (ic_table cx) y \<Longrightarrow> f x y cx = Some (r, cx') \<Longrightarrow> ctx_ext U ok cx cx'"
    and rec: "\<And>x y cx r cx'. ctx_ok U ok cx \<Longrightarrow> scoped U (ic_table cx) x \<Longrightarrow>
      scoped U (ic_table cx) y \<Longrightarrow> f x y cx = Some (r, cx') \<Longrightarrow> models U cx s \<Longrightarrow>
      inst s x = inst s y \<Longrightarrow> r = Inr () \<and> keeps_model U s cx cx'"
  shows "length xs = length ys \<Longrightarrow> ctx_ok U ok cx \<Longrightarrow> \<forall>x\<in>set xs. scoped U (ic_table cx) x \<Longrightarrow>
    \<forall>y\<in>set ys. scoped U (ic_table cx) y \<Longrightarrow> unify_all f xs ys cx = Some (r, cx') \<Longrightarrow>
    models U cx s \<Longrightarrow> map (inst s) xs = map (inst s) ys \<Longrightarrow> r = Inr () \<and> keeps_model U s cx cx'"
proof (induction xs ys arbitrary: cx rule: list_induct2)
  case (Cons x xs y ys)
  have xy: "inst s x = inst s y" "map (inst s) xs = map (inst s) ys" using Cons.prems(6) by simp_all
  from Cons.prems(4) show ?case unfolding unify_all.simps
  proof (cases rule: unify_then_Some)
    case (fail err)
    then show ?thesis
      using rec [OF Cons.prems(1) _ _ fail(1) Cons.prems(5) xy(1)] Cons.prems(2,3) by simp
  next
    case (go cx1)
    have e1: "ctx_ext U ok cx cx1" using ext [OF Cons.prems(1) _ _ go(1)] Cons.prems(2,3) by simp
    have k1: "keeps_model U s cx cx1"
      using rec [OF Cons.prems(1) _ _ go(1) Cons.prems(5) xy(1)] Cons.prems(2,3) by simp
    have "\<forall>x\<in>set xs. scoped U (ic_table cx1) x" "\<forall>y\<in>set ys. scoped U (ic_table cx1) y"
      using Cons.prems(2,3) ctx_ext_scoped [OF e1] by auto
    from Cons.IH [OF ctx_ext_ok [OF e1] this go(2) keeps_model_models [OF k1] xy(2)] show ?thesis
      using keeps_model_trans [OF k1] by blast
  qed
qed (simp add: keeps_model_refl)

context ena_laws
begin

lemma unify_vars_complete:
  assumes ok: "ctx_ok U ok cx" and x: "x \<in> unbound U (ic_table cx)" and y: "y \<in> unbound U (ic_table cx)"
    and s: "models U cx s" and eq: "s x = s y"
  shows "keeps_model U s cx (unify_vars U x y cx)"
proof -
  have okt: "ok (ic_table cx)" using ok by (simp add: ctx_ok_def table_ok_def)
  have m: "table_model U (en_union U (ic_table cx) x y) s"
    using union_model [OF okt x y] s eq by (simp add: models_def)
  obtain r where r: "r \<in> {x, y}" "en_find U (en_union U (ic_table cx) x y) x = r"
    using unbound_union [OF okt x y] by blast
  have int: "int_ty (s r)" if i: "is_int_var U cx x \<or> is_int_var U cx y"
  proof -
    obtain w where w: "w \<in> set (ic_int_vars cx)" "en_find U (ic_table cx) w \<in> {x, y}"
      using i is_int_var_iff [OF ok x] is_int_var_iff [OF ok y] by blast
    then have "s (en_find U (ic_table cx) w) = s w" "int_ty (s w)"
      using s ok by (auto simp: models_def table_model_def ctx_ok_def)
    then show ?thesis using w(2) r(1) eq by auto
  qed
  then have "models U (unify_vars U x y cx) s"
    using m s r(2) by (auto simp: models_def unify_vars_def Let_def)
  moreover have "ic_row_buffer (unify_vars U x y cx) = ic_row_buffer cx"
    by (simp add: unify_vars_def Let_def)
  ultimately show ?thesis by (simp add: keeps_model_def)
qed

lemma unify_var_complete:
  assumes ok: "ctx_ok U ok cx" and v: "v \<in> unbound U (ic_table cx)"
    and t: "\<not> is_var t" "scoped U (ic_table cx) t"
    and res: "unify_var U n err v t cx = Some (r, cx')"
    and s: "models U cx s" and eq: "s v = inst s t"
  shows "r = Inr () \<and> keeps_model U s cx cx'"
proof -
  have tok: "table_ok U ok (ic_table cx)" and okt: "ok (ic_table cx)"
    using ok by (auto simp: ctx_ok_def table_ok_def)
  from res show ?thesis
  proof (cases rule: unify_var_Some)
    case mismatch
    obtain w where w: "w \<in> set (ic_int_vars cx)" "en_find U (ic_table cx) w = v"
      using mismatch(1) is_int_var_iff [OF ok v] by blast
    then have "int_ty (inst s t)"
      using s ok eq by (auto simp: models_def table_model_def ctx_ok_def)
    then have "int_ty t" using t(1) by (cases t) (auto simp: int_ty_def)
    with mismatch(2) show ?thesis by simp
  next
    case bind
    from bind(2) show ?thesis
    proof (cases rule: bind_var_Some)
      case infinite
      obtain q where q: "solved U (ic_table cx) q" using tok by (auto simp: table_ok_def)
      have "v \<in> ty_vars (inst q t)" using occurs_correct [OF tok q v t(2) infinite(1)] by simp
      then have "size (s v) < size (inst s (inst q t))"
        by (rule size_inst_var_less) (rule is_var_inst [OF t(1)])
      also have "inst s (inst q t) = inst s t"
        using solved_factor_ty [OF tok q _ t(2)] s by (simp add: models_def)
      finally show ?thesis using eq by simp
    next
      case bound
      then show ?thesis
        using s eq bind_model [OF okt v] by (simp add: keeps_model_def models_def)
    qed
  qed
qed

lemma unify_heads_complete:
  assumes ext: "\<And>x y var cx r cx'. ctx_ok U ok cx \<Longrightarrow> scoped U (ic_table cx) x \<Longrightarrow>
      scoped U (ic_table cx) y \<Longrightarrow> rec x y var cx = Some (r, cx') \<Longrightarrow> ctx_ext U ok cx cx'"
    and rec: "\<And>x y var cx r cx'. ctx_ok U ok cx \<Longrightarrow> scoped U (ic_table cx) x \<Longrightarrow>
      scoped U (ic_table cx) y \<Longrightarrow> rec x y var cx = Some (r, cx') \<Longrightarrow> models U cx s \<Longrightarrow>
      inst s x = inst s y \<Longrightarrow> r = Inr () \<and> keeps_model U s cx cx'"
    and ok: "ctx_ok U ok cx" and e: "scoped U (ic_table cx) e" and a: "scoped U (ic_table cx) a"
    and ev: "is_var e \<Longrightarrow> \<exists>v\<in>unbound U (ic_table cx). e = TVar v"
    and av: "is_var a \<Longrightarrow> \<exists>v\<in>unbound U (ic_table cx). a = TVar v"
    and res: "unify_heads U n rec e a var cx = Some (r, cx')"
    and s: "models U cx s" and eq: "inst s e = inst s a"
  shows "r = Inr () \<and> keeps_model U s cx cx'"
proof -
  have all: "r = Inr () \<and> keeps_model U s cx cx'"
    if "unify_all (\<lambda>x y. rec x y v) xs ys cx = Some (r, cx')" "map (inst s) xs = map (inst s) ys"
      "\<forall>x\<in>set xs. scoped U (ic_table cx) x" "\<forall>y\<in>set ys. scoped U (ic_table cx) y" for v xs ys r cx'
    by (rule unify_all_complete [OF ext rec map_eq_imp_length_eq [OF that(2)] ok that(3,4,1) s that(2)])
  show ?thesis
  proof (cases rule: unify_heads_cases [of e a U])
    case (vars x y)
    then show ?thesis using res unify_vars_complete [OF ok _ _ s, of x y] ev av eq by auto
  next
    case (var v t)
    then have "v \<in> unbound U (ic_table cx)" "scoped U (ic_table cx) t" "s v = inst s t"
      using e a ev av eq by auto
    then show ?thesis using unify_var_complete [OF ok _ var(2) _ _ s] res var(3) by simp
  next
    case (fn ps q f u qs p g w)
    have sc: "\<forall>x\<in>set ps. scoped U (ic_table cx) x" "\<forall>y\<in>set qs. scoped U (ic_table cx) y"
      "scoped U (ic_table cx) q" "scoped U (ic_table cx) p"
      using e a fn(1,2) by (auto simp: scoped_def)
    have eqs: "map (inst s) ps = map (inst s) qs" "inst s q = inst s p"
      "map (inst_elem s) f = map (inst_elem s) g" "map (inst_elem s) u = map (inst_elem s) w"
      using eq fn(1,2) by simp_all
    from res show ?thesis unfolding fn(4)
    proof (cases rule: unify_then_Some)
      case (fail err)
      then show ?thesis using all [OF fail(1) eqs(1) sc(1,2)] by simp
    next
      case (go cx1)
      have e1: "ctx_ext U ok cx cx1"
        by (rule unify_all_ext [OF ext ok sc(1,2) go(1)])
      have k1: "keeps_model U s cx cx1" using all [OF go(1) eqs(1) sc(1,2)] by simp
      have sc1: "scoped U (ic_table cx1) q" "scoped U (ic_table cx1) p"
        using sc ctx_ext_scoped [OF e1] by auto
      note r2 = rec [OF ctx_ext_ok [OF e1] sc1 _ keeps_model_models [OF k1] eqs(2)]
      from go(2) show ?thesis
      proof (cases rule: unify_then_Some)
        case (fail err)
        then show ?thesis using r2 by blast
      next
        case go2: (go cx2)
        have k2: "keeps_model U s cx1 cx2" using r2 [OF go2(1)] by simp
        note k3 = buffer_rows_keeps [OF keeps_model_models [OF k2] eqs(3), of Errors var]
        note k4 = buffer_rows_keeps [OF keeps_model_models [OF k3] eqs(4), of Effects var]
        show ?thesis
          using go2(2) keeps_model_trans [OF k1 keeps_model_trans [OF k2 keeps_model_trans [OF k3 k4]]]
          by simp
      qed
    qed
  next
    case (cap d xs ys)
    then show ?thesis using res e a eq all [of Inv xs ys] by simp
  next
    case (tuple xs ys)
    then show ?thesis using res e a eq all [of var xs ys] by simp
  next
    case (named c xs ys)
    then show ?thesis using res e a eq all [of Inv xs ys] by simp
  next
    case (list x y)
    then show ?thesis using res e a eq rec [OF ok, of x y] s by simp
  next
    case (set k x y)
    then show ?thesis using res buffer_rows_keeps [OF s, of x y k var] eq by auto
  qed (use res eq s keeps_model_refl in auto)
qed

lemma unify_inner_complete:
  assumes "ctx_ok U ok cx" "scoped U (ic_table cx) e" "scoped U (ic_table cx) a"
    and "unify_inner U n e a var cx = Some (r, cx')" and "models U cx s" and "inst s e = inst s a"
  shows "r = Inr () \<and> keeps_model U s cx cx'"
  using assms
proof (induction n arbitrary: e a var cx r cx')
  case (Suc n)
  obtain e' a' where ea: "shallow_resolve U (Suc n) cx e = Some e'"
    "shallow_resolve U (Suc n) cx a = Some a'"
    "unify_heads U (Suc n) (unify_inner U n) e' a' var cx = Some (r, cx')"
    using Suc.prems(4) by (rule unify_inner_Some)
  have t: "table_ok U ok (ic_table cx)" using Suc.prems(1) by (simp add: ctx_ok_def)
  note se = shallow_resolve_sound [OF t Suc.prems(2) ea(1)]
    and sa = shallow_resolve_sound [OF t Suc.prems(3) ea(2)]
  have "inst s e' = inst s a'"
    using se(2) sa(2) Suc.prems(5,6) by (simp add: models_def)
  from unify_heads_complete [OF unify_inner_ext Suc.IH Suc.prems(1) se(1) sa(1) se(3) sa(3) ea(3)
      Suc.prems(5) this] show ?case .
qed simp

end

section \<open>Termination\<close>

lemma unify_then_mono:
  assumes "unify_then m k = Some z" and "\<And>z. m = Some z \<Longrightarrow> m' = Some z"
    and "\<And>cx z. k cx = Some z \<Longrightarrow> k' cx = Some z"
  shows "unify_then m' k' = Some z"
proof (cases z)
  case (Pair r cx')
  then show ?thesis using assms by (auto simp: unify_then_def split: option.splits sum.splits)
qed

lemma unify_all_mono:
  assumes "unify_all f xs ys cx = Some z" and "\<And>x y cx z. f x y cx = Some z \<Longrightarrow> g x y cx = Some z"
  shows "unify_all g xs ys cx = Some z"
  using assms
proof (induction f xs ys cx arbitrary: z rule: unify_all.induct)
  case (1 f x xs y ys cx)
  from "1.prems"(1) show ?case unfolding unify_all.simps
  proof (rule unify_then_mono)
    show "f x y cx = Some z \<Longrightarrow> g x y cx = Some z" for z by (rule "1.prems"(2))
    show "unify_all f xs ys cx' = Some z \<Longrightarrow> unify_all g xs ys cx' = Some z" for cx' z
      using "1.IH" "1.prems"(2) by blast
  qed
qed auto

lemma unify_var_mono:
  assumes "unify_var U n err v t cx = Some z" "n \<le> m"
  shows "unify_var U m err v t cx = Some z"
  using assms occurs_mono [of U n cx v t _ m]
  by (auto simp: unify_var_def bind_var_def split: if_splits option.splits bool.splits)

lemma unify_heads_mono:
  assumes res: "unify_heads U n rec e a var cx = Some z" and "n \<le> m"
    and rec: "\<And>x y var cx z. rec x y var cx = Some z \<Longrightarrow> rec' x y var cx = Some z"
  shows "unify_heads U m rec' e a var cx = Some z"
proof (cases rule: unify_heads_cases [of e a U])
  case (var v t)
  have "unify_var U n (Mismatch e a) v t cx = Some z" using res by (simp only: var(3))
  from unify_var_mono [OF this assms(2)] show ?thesis by (simp only: var(3))
next
  case (fn ps r f u qs s g w)
  from res show ?thesis unfolding fn(4)
    by (rule unify_then_mono) (erule unify_all_mono unify_then_mono, auto intro: rec)+
next
  case (cap d xs ys)
  from res show ?thesis unfolding cap(4) by (rule unify_all_mono) (rule rec)
next
  case (tuple xs ys)
  from res show ?thesis unfolding tuple(4) by (rule unify_all_mono) (rule rec)
next
  case (named c xs ys)
  from res show ?thesis unfolding named(4) by (rule unify_all_mono) (rule rec)
next
  case (list x y)
  from res show ?thesis unfolding list(3) by (rule rec)
qed (use res in simp_all)

lemma unify_inner_mono:
  "unify_inner U n e a var cx = Some z \<Longrightarrow> n \<le> m \<Longrightarrow> unify_inner U m e a var cx = Some z"
proof (induction n arbitrary: m e a var cx z)
  case (Suc n)
  then obtain k where m: "m = Suc k" "n \<le> k" by (cases m) auto
  obtain e' a' where ea: "shallow_resolve U (Suc n) cx e = Some e'"
    "shallow_resolve U (Suc n) cx a = Some a'"
    "unify_heads U (Suc n) (unify_inner U n) e' a' var cx = Some z"
    using Suc.prems(1) by (auto simp del: shallow_resolve.simps split: option.splits)
  have "unify_heads U (Suc k) (unify_inner U k) e' a' var cx = Some z"
    by (rule unify_heads_mono [OF ea(3)]) (use m in simp, rule Suc.IH [OF _ m(2)])
  then show ?case
    using shallow_resolve_mono [OF ea(1), of m] shallow_resolve_mono [OF ea(2), of m] Suc.prems(2) m(1)
    by (simp del: shallow_resolve.simps)
qed simp

lemma solved_same: "same_table U t t' \<Longrightarrow> solved U t s \<Longrightarrow> solved U t' s"
  by (simp add: solved_def unbound_same) (simp add: table_model_def same_table_def)

context ena_laws
begin

lemma unify_all_returns:
  assumes f: "\<And>x y cx. x \<in> set xs \<Longrightarrow> y \<in> set ys \<Longrightarrow> ctx_ext U ok cx0 cx \<Longrightarrow>
      \<exists>n z. unify_inner U n x y (g x y) cx = Some z"
    and sc: "\<forall>x\<in>set xs. scoped U (ic_table cx0) x" "\<forall>y\<in>set ys. scoped U (ic_table cx0) y"
    and cx: "ctx_ext U ok cx0 cx"
  shows "\<exists>n z. unify_all (\<lambda>x y. unify_inner U n x y (g x y)) xs ys cx = Some z"
  using f sc cx
proof (induction xs arbitrary: ys cx)
  case (Cons x xs)
  show ?case
  proof (cases ys)
    case [simp]: (Cons y ys')
    obtain n r cx1 where n: "unify_inner U n x y (g x y) cx = Some (r, cx1)"
      using Cons.prems(1) [of x y cx] Cons.prems(4) by auto
    show ?thesis
    proof (cases r)
      case (Inl err)
      then have "unify_all (\<lambda>x y. unify_inner U n x y (g x y)) (x # xs) ys cx = Some (Inl err, cx1)"
        using n by (simp add: unify_then_def)
      then show ?thesis by blast
    next
      case (Inr u)
      have "ctx_ext U ok cx cx1"
        by (rule unify_inner_ext [OF ctx_ext_ok [OF Cons.prems(4)] _ _ n])
          (use Cons.prems(2,3) ctx_ext_scoped [OF Cons.prems(4)] in auto)
      with Cons.prems(4) have e1: "ctx_ext U ok cx0 cx1" by (rule ctx_ext_trans)
      obtain k z where k: "unify_all (\<lambda>x y. unify_inner U k x y (g x y)) xs ys' cx1 = Some z"
        using Cons.IH [OF Cons.prems(1) _ _ e1, of ys'] Cons.prems(2,3) by auto
      let ?m = "max n k"
      have "unify_inner U ?m x y (g x y) cx = Some (r, cx1)" using n by (rule unify_inner_mono) simp
      moreover have "unify_all (\<lambda>x y. unify_inner U ?m x y (g x y)) xs ys' cx1 = Some z"
        using k by (rule unify_all_mono) (erule unify_inner_mono, simp)
      ultimately have "unify_all (\<lambda>x y. unify_inner U ?m x y (g x y)) (x # xs) ys cx = Some z"
        using Inr by (simp add: unify_then_def)
      then show ?thesis by blast
    qed
  qed simp
qed simp

lemma unify_var_returns:
  assumes "ctx_ok U ok cx" "scoped U (ic_table cx) t"
  shows "\<exists>n z. unify_var U n err v t cx = Some z"
proof -
  have tok: "table_ok U ok (ic_table cx)" using assms(1) by (simp add: ctx_ok_def)
  then obtain s where s: "solved U (ic_table cx) s" by (auto simp: table_ok_def)
  obtain b where "occurs U (size (inst s t) + 2) cx v t = Some b"
    using occurs_returns [OF tok s assms(2) order_refl] by blast
  then have "\<exists>z. unify_var U (size (inst s t) + 2) err v t cx = Some z"
    by (cases b) (auto simp: unify_var_def bind_var_def)
  then show ?thesis by blast
qed

lemma unify_inner_returns:
  "ctx_ok U ok cx \<Longrightarrow> scoped U (ic_table cx) e \<Longrightarrow> scoped U (ic_table cx) a \<Longrightarrow>
   solved U (ic_table cx) s \<Longrightarrow> \<exists>n z. unify_inner U n e a var cx = Some z"
proof (induction "(card (unbound U (ic_table cx)), size (inst s e))" arbitrary: cx s e a var
    rule: wf_induct_rule [OF wf_lex_prod [OF wf_less_than wf_less_than]])
  case 1
  note ok = "1.prems"(1) and sol = "1.prems"(4)
  have tok: "table_ok U ok (ic_table cx)" using ok by (simp add: ctx_ok_def)
  obtain e' a' where ea: "shallow_resolve U 2 cx e = Some e'" "shallow_resolve U 2 cx a = Some a'"
    using shallow_resolve_returns [OF tok "1.prems"(2), of 0]
      shallow_resolve_returns [OF tok "1.prems"(3), of 0] by (auto simp: numeral_2_eq_2)
  note se = shallow_resolve_sound [OF tok "1.prems"(2) ea(1)]
    and sa = shallow_resolve_sound [OF tok "1.prems"(3) ea(2)]
  have inst: "inst s e' = inst s e" using se(2) sol by (simp add: solved_def)
  have IH: "\<exists>n z. unify_inner U n x y v cx1 = Some z"
    if x: "x \<in> set (ty_children e')" and sx: "scoped U (ic_table cx) x" and sy: "scoped U (ic_table cx) y"
      and e1: "ctx_ext U ok cx cx1" and nv: "\<not> is_var e'" for x y v cx1
  proof -
    have sc: "scoped U (ic_table cx1) x" "scoped U (ic_table cx1) y"
      using sx sy ctx_ext_scoped [OF e1] by auto
    note ok1 = ctx_ext_ok [OF e1]
    have "same_table U (ic_table cx) (ic_table cx1) \<or>
        card (unbound U (ic_table cx1)) < card (unbound U (ic_table cx))"
      using e1 by (simp add: ctx_ext_def)
    then show ?thesis
    proof
      assume same: "same_table U (ic_table cx) (ic_table cx1)"
      have "inst s x \<in> set (ty_children (inst s e'))" using x ty_children_inst [OF nv, of s] by simp
      then have "size (inst s x) < size (inst s e)" using size_ty_children inst by metis
      then show ?thesis
        by (intro "1.hyps" [OF _ ok1 sc solved_same [OF same sol]]) (simp add: unbound_same [OF same])
    next
      assume less: "card (unbound U (ic_table cx1)) < card (unbound U (ic_table cx))"
      obtain s1 where "solved U (ic_table cx1) s1" using ok1 by (auto simp: ctx_ok_def table_ok_def)
      then show ?thesis by (intro "1.hyps" [OF _ ok1 sc]) (simp add: less)
    qed
  qed
  have all: "\<exists>n z. unify_all (\<lambda>x y. unify_inner U n x y v) xs ys cx = Some z"
    if "set xs \<subseteq> set (ty_children e')" "\<forall>x\<in>set xs. scoped U (ic_table cx) x"
      "\<forall>y\<in>set ys. scoped U (ic_table cx) y" "\<not> is_var e'" for v xs ys
    by (rule unify_all_returns [OF _ that(2,3) ctx_ext_refl [OF ok], where g = "\<lambda>x y. v"])
      (rule IH, use that in auto)
  have "\<exists>n z. unify_heads U (Suc n) (unify_inner U n) e' a' var cx = Some z"
  proof (cases rule: unify_heads_cases [of e' a' U])
    case (var v t)
    then have "scoped U (ic_table cx) t" using se(1) sa(1) by auto
    then obtain n z where "unify_var U n (Mismatch e' a') v t cx = Some z"
      using unify_var_returns [OF ok] by blast
    then have "unify_var U (Suc n) (Mismatch e' a') v t cx = Some z" by (rule unify_var_mono) simp
    then show ?thesis unfolding var(3) by blast
  next
    case (fn ps q f u qs p g w)
    have sc: "\<forall>x\<in>set ps. scoped U (ic_table cx) x" "\<forall>y\<in>set qs. scoped U (ic_table cx) y"
      "scoped U (ic_table cx) q" "scoped U (ic_table cx) p"
      using se(1) sa(1) fn(1,2) by (auto simp: scoped_def)
    obtain n r cx1 where n: "unify_all (\<lambda>x y. unify_inner U n x y (flip var)) ps qs cx = Some (r, cx1)"
      using all [OF _ sc(1,2), of "flip var"] fn(1) by auto
    show ?thesis
    proof (cases r)
      case (Inl err)
      then have "unify_heads U (Suc n) (unify_inner U n) e' a' var cx = Some (Inl err, cx1)"
        using n by (simp add: fn(4) unify_then_def)
      then show ?thesis by blast
    next
      case (Inr unit)
      have e1: "ctx_ext U ok cx cx1" by (rule unify_all_ext [OF unify_inner_ext ok sc(1,2) n])
      obtain k r' cx2 where k: "unify_inner U k q p var cx1 = Some (r', cx2)"
        using IH [OF _ sc(3,4) e1, of var] fn(1) by auto
      let ?m = "max n k"
      have "unify_all (\<lambda>x y. unify_inner U ?m x y (flip var)) ps qs cx = Some (r, cx1)"
        using n by (rule unify_all_mono) (erule unify_inner_mono, simp)
      moreover have "unify_inner U ?m q p var cx1 = Some (r', cx2)"
        using k by (rule unify_inner_mono) simp
      ultimately have "\<exists>z. unify_heads U (Suc ?m) (unify_inner U ?m) e' a' var cx = Some z"
        using Inr by (cases r') (simp_all add: fn(4) unify_then_def)
      then show ?thesis by blast
    qed
  next
    case (cap d xs ys)
    then show ?thesis using all [of xs ys Inv] se(1) sa(1) by simp
  next
    case (tuple xs ys)
    then show ?thesis using all [of xs ys var] se(1) sa(1) by simp
  next
    case (named c xs ys)
    then show ?thesis using all [of xs ys Inv] se(1) sa(1) by simp
  next
    case (list x y)
    then show ?thesis using IH [of x y cx var] ctx_ext_refl [OF ok] se(1) sa(1) by simp
  qed auto
  then obtain n z where n: "unify_heads U (Suc n) (unify_inner U n) e' a' var cx = Some z" by blast
  let ?m = "Suc (max n 1)"
  have "unify_heads U ?m (unify_inner U (max n 1)) e' a' var cx = Some z"
    by (rule unify_heads_mono [OF n]) (simp, erule unify_inner_mono, simp)
  then have "unify_inner U ?m e a var cx = Some z"
    using shallow_resolve_mono [OF ea(1), of ?m] shallow_resolve_mono [OF ea(2), of ?m]
    by (simp del: shallow_resolve.simps)
  then show ?case by blast
qed

end

section \<open>The types a failure reports\<close>

definition kind_scoped :: "'t ena \<Rightarrow> 't \<Rightarrow> type_error_kind \<Rightarrow> bool" where
  "kind_scoped U t k \<longleftrightarrow>
     (case k of Mismatch e a \<Rightarrow> scoped U t e \<and> scoped U t a | InfiniteType v ty \<Rightarrow> scoped U t ty)"

lemma unify_all_kind:
  assumes ext: "\<And>x y cx r cx'. ctx_ok U ok cx \<Longrightarrow> scoped U (ic_table cx) x \<Longrightarrow>
      scoped U (ic_table cx) y \<Longrightarrow> f x y cx = Some (r, cx') \<Longrightarrow> ctx_ext U ok cx cx'"
    and kind: "\<And>x y cx k cx'. ctx_ok U ok cx \<Longrightarrow> scoped U (ic_table cx) x \<Longrightarrow>
      scoped U (ic_table cx) y \<Longrightarrow> f x y cx = Some (Inl k, cx') \<Longrightarrow> kind_scoped U (ic_table cx) k"
  shows "ctx_ok U ok cx \<Longrightarrow> \<forall>x\<in>set xs. scoped U (ic_table cx) x \<Longrightarrow>
    \<forall>y\<in>set ys. scoped U (ic_table cx) y \<Longrightarrow> unify_all f xs ys cx = Some (Inl k, cx') \<Longrightarrow>
    kind_scoped U (ic_table cx) k"
proof (induction xs arbitrary: ys cx)
  case (Cons x xs)
  from Cons.prems(4) obtain y ys' where [simp]: "ys = y # ys'" by (cases ys) auto
  from Cons.prems(4) show ?case unfolding \<open>ys = _\<close> unify_all.simps
  proof (cases rule: unify_then_Some)
    case (fail err)
    then show ?thesis using kind [OF Cons.prems(1) _ _ fail(1)] Cons.prems(2,3) by simp
  next
    case (go cx1)
    have e1: "ctx_ext U ok cx cx1" using ext [OF Cons.prems(1) _ _ go(1)] Cons.prems(2,3) by simp
    have "kind_scoped U (ic_table cx1) k"
      by (rule Cons.IH [OF ctx_ext_ok [OF e1] _ _ go(2)])
        (use Cons.prems(2,3) ctx_ext_scoped [OF e1] in auto)
    then show ?thesis
      using ctx_ext_scoped [OF e1] by (auto simp: kind_scoped_def split: type_error_kind.splits)
  qed
qed simp

context ena_laws
begin

lemma unify_inner_kind:
  "ctx_ok U ok cx \<Longrightarrow> scoped U (ic_table cx) e \<Longrightarrow> scoped U (ic_table cx) a \<Longrightarrow>
   unify_inner U n e a var cx = Some (Inl k, cx') \<Longrightarrow> kind_scoped U (ic_table cx) k"
proof (induction n arbitrary: e a var cx k cx')
  case (Suc n)
  note ok = Suc.prems(1)
  obtain e' a' where ea: "shallow_resolve U (Suc n) cx e = Some e'"
    "shallow_resolve U (Suc n) cx a = Some a'"
    "unify_heads U (Suc n) (unify_inner U n) e' a' var cx = Some (Inl k, cx')"
    using Suc.prems(4) by (rule unify_inner_Some)
  have t: "table_ok U ok (ic_table cx)" using ok by (simp add: ctx_ok_def)
  note se = shallow_resolve_sound(1) [OF t Suc.prems(2) ea(1)]
    and sa = shallow_resolve_sound(1) [OF t Suc.prems(3) ea(2)]
  have all: "kind_scoped U (ic_table cx) k"
    if "unify_all (\<lambda>x y. unify_inner U n x y v) xs ys cx = Some (Inl k, cx')"
      "\<forall>x\<in>set xs. scoped U (ic_table cx) x" "\<forall>y\<in>set ys. scoped U (ic_table cx) y" for v xs ys k cx'
    by (rule unify_all_kind [OF unify_inner_ext Suc.IH ok that(2,3,1)])
  show ?case
  proof (cases rule: unify_heads_cases [of e' a' U])
    case (var v ty)
    have "unify_var U (Suc n) (Mismatch e' a') v ty cx = Some (Inl k, cx')" using ea(3) var(3) by simp
    then have "k = Mismatch e' a' \<or> k = InfiniteType v ty"
      by (auto simp: unify_var_def bind_var_def split: if_splits option.splits bool.splits)
    then show ?thesis using se sa var(1) by (auto simp: kind_scoped_def)
  next
    case clash
    then have "k = Mismatch e' a'" using ea(3) by simp
    then show ?thesis using se sa by (simp add: kind_scoped_def)
  next
    case (fn ps q f u qs p g w)
    have sc: "\<forall>x\<in>set ps. scoped U (ic_table cx) x" "\<forall>y\<in>set qs. scoped U (ic_table cx) y"
      "scoped U (ic_table cx) q" "scoped U (ic_table cx) p"
      using se sa fn(1,2) by (auto simp: scoped_def)
    from ea(3) show ?thesis unfolding fn(4)
    proof (cases rule: unify_then_Some)
      case (fail err)
      then show ?thesis using all [OF _ sc(1,2)] by simp
    next
      case (go cx1)
      have e1: "ctx_ext U ok cx cx1" by (rule unify_all_ext [OF unify_inner_ext ok sc(1,2) go(1)])
      have sc1: "scoped U (ic_table cx1) q" "scoped U (ic_table cx1) p"
        using sc ctx_ext_scoped [OF e1] by auto
      from go(2) have "kind_scoped U (ic_table cx1) k"
      proof (cases rule: unify_then_Some)
        case (fail err)
        then show ?thesis using Suc.IH [OF ctx_ext_ok [OF e1] sc1] by simp
      qed simp
      then show ?thesis
        using ctx_ext_scoped [OF e1] by (auto simp: kind_scoped_def split: type_error_kind.splits)
    qed
  next
    case (cap d xs ys)
    then show ?thesis using ea(3) se sa all by simp
  next
    case (tuple xs ys)
    then show ?thesis using ea(3) se sa all by simp
  next
    case (named c xs ys)
    then show ?thesis using ea(3) se sa all by simp
  next
    case (list x y)
    then show ?thesis using ea(3) se sa Suc.IH [OF ok] by simp
  qed (use ea(3) in simp_all)
qed simp

lemma row_tys_known: "set (row_tys (known_elems row)) \<subseteq> set (row_tys row)"
  by (auto simp: row_tys_def known_elems_def)

lemma resolve_for_report_returns:
  assumes t: "table_ok U ok (ic_table cx)" and s: "solved U (ic_table cx) s"
  shows "scoped U (ic_table cx) ty \<Longrightarrow> size (inst s ty) + 2 \<le> n \<Longrightarrow>
    resolve_for_report U n cx ty \<noteq> None"
proof (induction n arbitrary: ty)
  case (Suc n)
  then obtain k where k: "n = Suc k" by (cases n) auto
  obtain r where r: "shallow_resolve U (Suc n) cx ty = Some r"
    using shallow_resolve_returns [OF t Suc.prems(1), of k] k by blast
  note sound = shallow_resolve_sound [OF t Suc.prems(1) r]
  have inst: "inst s r = inst s ty" using sound(2) s by (simp add: solved_def)
  have child: "resolve_for_report U n cx c \<noteq> None" if c: "c \<in> set (ty_children r)" "\<not> is_var r" for c
  proof -
    have "inst s c \<in> set (ty_children (inst s r))" using c ty_children_inst [OF c(2), of s] by simp
    then have "size (inst s c) < size (inst s ty)" using size_ty_children inst by metis
    then show ?thesis
      using Suc.IH [of c] Suc.prems(2) c sound(1) scoped_children [OF c(2), of U "ic_table cx"] by simp
  qed
  have "ty_map_children_opt (resolve_for_report U n cx) r \<noteq> None" if "\<not> is_var r"
    using child that by (auto simp: ty_map_children_opt_def list_all_iff)
  moreover have "map_opt (resolve_for_report U n cx) ps \<noteq> None"
    "resolve_for_report U n cx q \<noteq> None"
    "row_map_tys_opt (resolve_for_report U n cx) (known_elems f) \<noteq> None"
    "row_map_tys_opt (resolve_for_report U n cx) (known_elems u) \<noteq> None"
    if "r = TFn ps q f u" for ps q f u
    using child that row_tys_known [of f] row_tys_known [of u]
    by (auto simp: map_opt_def row_map_tys_opt_def list_all_iff)
  ultimately show ?case
    unfolding resolve_for_report.simps r
    by (cases r) (auto simp del: ty_children.simps split: option.splits)
qed simp

lemma report_error_returns:
  assumes t: "table_ok U ok (ic_table cx)"
    and sc: "scoped U (ic_table cx) e" "scoped U (ic_table cx) a" "kind_scoped U (ic_table cx) k"
  shows "\<exists>n0. \<forall>n\<ge>n0. report_error U n cx e a k \<noteq> None"
proof -
  obtain s where s: "solved U (ic_table cx) s" using t by (auto simp: table_ok_def)
  note ret = resolve_for_report_returns [OF t s]
  define m where "m = (\<lambda>ty. size (inst s ty) + 2)"
  have k: "\<exists>n0. \<forall>n\<ge>n0. report_kind U n cx k \<noteq> None"
  proof (cases k)
    case (Mismatch x y)
    then have "report_kind U n cx k \<noteq> None" if "m x \<le> n" "m y \<le> n" for n
      using that sc(3) ret [of x n] ret [of y n] by (auto simp: m_def report_kind_def kind_scoped_def)
    then show ?thesis by (intro exI [of _ "max (m x) (m y)"]) simp
  next
    case (InfiniteType v x)
    then have "report_kind U n cx k \<noteq> None" if "m x \<le> n" for n
      using that sc(3) ret [of x n] by (auto simp: m_def report_kind_def kind_scoped_def)
    then show ?thesis by blast
  qed
  then obtain n0 where n0: "\<And>n. n0 \<le> n \<Longrightarrow> report_kind U n cx k \<noteq> None" by blast
  have "report_error U n cx e a k \<noteq> None" if "n0 \<le> n" "m e \<le> n" "m a \<le> n" for n
    using that n0 [of n] ret [OF sc(1), of n] ret [OF sc(2), of n]
    by (auto simp: m_def report_error_def)
  then show ?thesis by (intro exI [of _ "max n0 (max (m e) (m a))"]) simp
qed

end

end
