(* ===== verification/Types_Context.thy ===== *)
theory Types_Context
  imports Types_Unify
begin

text \<open>
  What the operations of the inference context promise: \<open>unify\<close>, \<open>coerce\<close>, \<open>join\<close>, \<open>same_tag\<close> and
  the rest of \<open>crates/emela-types/src/infer.rs\<close> keep the invariant, and unification is sound, most
  general and total. The laws of the table hold for a table that keeps the representative of every
  key, on which the witnesses run.
\<close>

section \<open>A table that keeps representatives\<close>

type_synonym rep_table = "(ty_var \<times> ty option) list"

definition rep_union :: "rep_table \<Rightarrow> ty_var \<Rightarrow> ty_var \<Rightarrow> rep_table" where
  "rep_union t x y =
     map (\<lambda>(r, val). if r = fst (t ! x) \<or> r = fst (t ! y)
                     then (fst (t ! y), unify_values (snd (t ! x)) (snd (t ! y))) else (r, val)) t"

definition rep_union_value :: "rep_table \<Rightarrow> ty_var \<Rightarrow> ty option \<Rightarrow> rep_table" where
  "rep_union_value t x b =
     map (\<lambda>(r, val). if r = fst (t ! x) then (r, unify_values (snd (t ! x)) b) else (r, val)) t"

definition rep_ena :: "rep_table ena" where
  "rep_ena =
     \<lparr>en_new = [], en_len = length, en_new_key = (\<lambda>t val. (length t, t @ [(length t, val)])),
      en_find = (\<lambda>t v. fst (t ! v)), en_probe_value = (\<lambda>t v. snd (t ! v)),
      en_unioned = (\<lambda>t v w. fst (t ! v) = fst (t ! w)), en_union = rep_union,
      en_union_value = rep_union_value\<rparr>"

definition rep_ok :: "rep_table \<Rightarrow> bool" where
  "rep_ok t \<longleftrightarrow> (\<forall>(r, val)\<in>set t. r < length t \<and> t ! r = (r, val))"

lemma rep_okD:
  assumes "rep_ok t" "v < length t"
  shows "fst (t ! v) < length t" "t ! fst (t ! v) = t ! v"
proof -
  obtain r val where rv: "t ! v = (r, val)" by (cases "t ! v")
  then have "(r, val) \<in> set t" using assms(2) nth_mem by metis
  then have "r < length t \<and> t ! r = (r, val)" using assms(1) by (auto simp: rep_ok_def)
  then show "fst (t ! v) < length t" "t ! fst (t ! v) = t ! v" using rv by simp_all
qed

lemma rep_okI:
  assumes "\<And>v. v < length t \<Longrightarrow> fst (t ! v) < length t \<and> t ! fst (t ! v) = t ! v"
  shows "rep_ok t"
  using assms by (fastforce simp: rep_ok_def in_set_conv_nth)

lemma rep_union_nth:
  "v < length t \<Longrightarrow> rep_union t x y ! v =
     (if fst (t ! v) = fst (t ! x) \<or> fst (t ! v) = fst (t ! y)
      then (fst (t ! y), unify_values (snd (t ! x)) (snd (t ! y))) else t ! v)"
  by (simp add: rep_union_def split_beta)

lemma rep_union_value_nth:
  "v < length t \<Longrightarrow> rep_union_value t x b ! v =
     (if fst (t ! v) = fst (t ! x) then (fst (t ! v), unify_values (snd (t ! x)) b) else t ! v)"
  by (simp add: rep_union_value_def split_beta)

lemma rep_length [simp]: "length (rep_union t x y) = length t" "length (rep_union_value t x b) = length t"
  by (simp_all add: rep_union_def rep_union_value_def)

lemma rep_ok_union:
  assumes t: "rep_ok t" and x: "x < length t" and y: "y < length t"
  shows "rep_ok (rep_union t x y)"
proof (rule rep_okI)
  fix v
  assume "v < length (rep_union t x y)"
  then have v: "v < length t" by simp
  note d = rep_okD [OF t v] rep_okD [OF t x] rep_okD [OF t y]
  show "fst (rep_union t x y ! v) < length (rep_union t x y) \<and>
      rep_union t x y ! fst (rep_union t x y ! v) = rep_union t x y ! v"
    using v y d by (auto simp: rep_union_nth)
qed

lemma rep_ok_union_value:
  assumes t: "rep_ok t" and x: "x < length t"
  shows "rep_ok (rep_union_value t x b)"
proof (rule rep_okI)
  fix v
  assume "v < length (rep_union_value t x b)"
  then have v: "v < length t" by simp
  note d = rep_okD [OF t v] rep_okD [OF t x]
  show "fst (rep_union_value t x b ! v) < length (rep_union_value t x b) \<and>
      rep_union_value t x b ! fst (rep_union_value t x b ! v) = rep_union_value t x b ! v"
    using v d by (auto simp: rep_union_value_nth)
qed

lemma rep_ok_new:
  assumes t: "rep_ok t"
  shows "rep_ok (t @ [(length t, val)])"
proof (rule rep_okI)
  fix v
  assume v: "v < length (t @ [(length t, val)])"
  let ?t = "t @ [(length t, val)]"
  show "fst (?t ! v) < length ?t \<and> ?t ! fst (?t ! v) = ?t ! v"
  proof (cases "v < length t")
    case True
    then show ?thesis using rep_okD [OF t True] by (simp add: nth_append)
  next
    case False
    then have "v = length t" using v by simp
    then show ?thesis by simp
  qed
qed

interpretation rep: ena_laws rep_ena rep_ok
proof unfold_locales
  fix t x y t'
  assume t: "rep_ok t" and x: "x < en_len rep_ena t" and y: "y < en_len rep_ena t"
    and t': "t' = en_union rep_ena t x y"
  show "rep_ok t' \<and> en_len rep_ena t' = en_len rep_ena t \<and>
     (\<exists>r\<in>{en_find rep_ena t x, en_find rep_ena t y}. \<forall>v<en_len rep_ena t.
        en_find rep_ena t' v =
          (if en_find rep_ena t v \<in> {en_find rep_ena t x, en_find rep_ena t y} then r
           else en_find rep_ena t v) \<and>
        en_probe_value rep_ena t' v =
          (if en_find rep_ena t v \<in> {en_find rep_ena t x, en_find rep_ena t y}
           then unify_values (en_probe_value rep_ena t x) (en_probe_value rep_ena t y)
           else en_probe_value rep_ena t v))"
    using t x y rep_ok_union by (simp add: t' rep_ena_def rep_union_nth)
next
  fix t x t' val
  assume "rep_ok t" and "x < en_len rep_ena t" and "t' = en_union_value rep_ena t x val"
  then show "rep_ok t' \<and> en_len rep_ena t' = en_len rep_ena t \<and>
     (\<forall>v<en_len rep_ena t. en_find rep_ena t' v = en_find rep_ena t v \<and>
        en_probe_value rep_ena t' v =
          (if en_find rep_ena t v = en_find rep_ena t x
           then unify_values (en_probe_value rep_ena t x) val else en_probe_value rep_ena t v))"
    using rep_ok_union_value by (simp add: rep_ena_def rep_union_value_nth)
next
  show "rep_ok (en_new rep_ena)" by (simp add: rep_ena_def rep_ok_def)
  show "en_len rep_ena (en_new rep_ena) = 0" by (simp add: rep_ena_def)
  fix t val v t'
  assume "rep_ok t" "en_new_key rep_ena t val = (v, t')"
  then show "rep_ok t' \<and> v = en_len rep_ena t \<and> en_len rep_ena t' = Suc (en_len rep_ena t) \<and>
      en_find rep_ena t' v = v \<and> en_probe_value rep_ena t' v = val \<and>
      (\<forall>w<en_len rep_ena t. en_find rep_ena t' w = en_find rep_ena t w \<and>
         en_probe_value rep_ena t' w = en_probe_value rep_ena t w)"
    using rep_ok_new by (auto simp: rep_ena_def nth_append)
next
  fix t v
  assume "rep_ok t" "v < en_len rep_ena t"
  then show "en_find rep_ena t v < en_len rep_ena t \<and>
      en_find rep_ena t (en_find rep_ena t v) = en_find rep_ena t v \<and>
      en_probe_value rep_ena t (en_find rep_ena t v) = en_probe_value rep_ena t v"
    using rep_okD [of t v] by (simp add: rep_ena_def)
next
  fix t v w
  show "en_unioned rep_ena t v w = (en_find rep_ena t v = en_find rep_ena t w)"
    by (simp add: rep_ena_def)
qed

section \<open>Constraints\<close>

definition subset_holds :: "'a denotation \<Rightarrow> (ty_var \<Rightarrow> ty) \<Rightarrow> subset_constraint \<Rightarrow> bool" where
  "subset_holds den s c \<longleftrightarrow> holds den s (ss_sub c, ss_sup c, ss_kind c)"

lemma add_subset_of_fields [simp]:
  "ic_table (add_subset_of k a b org cx) = ic_table cx"
  "ic_int_vars (add_subset_of k a b org cx) = ic_int_vars cx"
  "ic_row_buffer (add_subset_of k a b org cx) = ic_row_buffer cx"
  "ic_errors (add_subset_of k a b org cx) = ic_errors cx"
  by (simp_all add: add_subset_of_def)

lemma add_subset_of_subsets: "set (ic_subsets cx) \<subseteq> set (ic_subsets (add_subset_of k a b org cx))"
  by (auto simp: add_subset_of_def)

lemma add_subset_of_holds:
  assumes "\<forall>c\<in>set (ic_subsets (add_subset_of k a b org cx)). subset_holds den s c"
    and "\<forall>k. den k [] = {}"
  shows "holds den s (a, b, k)"
  using assms
  by (auto simp: add_subset_of_def subset_holds_def holds_def inst_row_def list_ex_iff split: if_splits)

lemma add_subset_of_tight:
  assumes "tight s (a, b, k)" "c \<in> set (ic_subsets (add_subset_of k a b org cx))"
  shows "c \<in> set (ic_subsets cx) \<or> tight s (ss_sub c, ss_sup c, ss_kind c)"
  using assms by (auto simp: add_subset_of_def tight_def split: if_splits)

abbreviation add_rows ::
    "origin \<Rightarrow> 't infer_ctx \<Rightarrow> (row \<times> row \<times> set_kind) list \<Rightarrow> 't infer_ctx" where
  "add_rows org cx cs \<equiv> foldl (\<lambda>cx (a, b, k). add_subset_of k a b org cx) cx cs"

lemma add_rows_fields:
  "ic_table (add_rows org cx cs) = ic_table cx"
  "ic_int_vars (add_rows org cx cs) = ic_int_vars cx"
  "ic_errors (add_rows org cx cs) = ic_errors cx"
  by (induction cs arbitrary: cx) auto

lemma add_rows_subsets: "set (ic_subsets cx) \<subseteq> set (ic_subsets (add_rows org cx cs))"
proof (induction cs arbitrary: cx)
  case (Cons c cs)
  obtain a b k where "c = (a, b, k)" by (cases c)
  then show ?case
    using add_subset_of_subsets [of cx k a b org] Cons.IH [of "add_subset_of k a b org cx"] by simp
qed simp

lemma add_rows_holds:
  assumes "\<forall>c\<in>set (ic_subsets (add_rows org cx cs)). subset_holds den s c"
    and "\<forall>k. den k [] = {}" and "c \<in> set cs"
  shows "holds den s c"
  using assms(1,3)
proof (induction cs arbitrary: cx)
  case (Cons d cs)
  obtain a b k where d: "d = (a, b, k)" by (cases d)
  show ?case
  proof (cases "c = d")
    case True
    have "\<forall>c\<in>set (ic_subsets (add_subset_of k a b org cx)). subset_holds den s c"
      using Cons.prems(1) add_rows_subsets [of "add_subset_of k a b org cx" org cs] by (auto simp: d)
    from add_subset_of_holds [OF this assms(2)] show ?thesis using True d by simp
  qed (use Cons in \<open>auto simp: d\<close>)
qed simp

lemma add_rows_tight:
  assumes "\<forall>c\<in>set cs. tight s c"
    and "c \<in> set (ic_subsets (add_rows org cx cs))"
  shows "c \<in> set (ic_subsets cx) \<or> tight s (ss_sub c, ss_sup c, ss_kind c)"
  using assms
proof (induction cs arbitrary: cx)
  case (Cons d cs)
  obtain a b k where d: "d = (a, b, k)" by (cases d)
  show ?case
    using Cons.IH [of "add_subset_of k a b org cx"] Cons.prems add_subset_of_tight [of s a b k c org cx]
    by (auto simp: d)
qed simp

lemma keep_rows_fields [simp]:
  "ic_table (keep_rows cx) = ic_table cx" "ic_int_vars (keep_rows cx) = ic_int_vars cx"
  "ic_errors (keep_rows cx) = ic_errors cx"
  "set (ic_subsets cx) \<subseteq> set (ic_subsets (keep_rows cx))"
  using add_rows_subsets [of "cx\<lparr>ic_row_buffer := []\<rparr>"]
  by (simp_all add: keep_rows_def Let_def add_rows_fields)

lemma keep_rows_holds:
  assumes "\<forall>c\<in>set (ic_subsets (keep_rows cx)). subset_holds den s c" and "\<forall>k. den k [] = {}"
  shows "\<forall>c\<in>set (ic_row_buffer cx). holds den s c"
  using assms add_rows_holds unfolding keep_rows_def Let_def by blast

lemma keep_rows_tight:
  assumes "\<forall>c\<in>set (ic_row_buffer cx). tight s c" "c \<in> set (ic_subsets (keep_rows cx))"
  shows "c \<in> set (ic_subsets cx) \<or> tight s (ss_sub c, ss_sup c, ss_kind c)"
  using add_rows_tight [OF assms(1), of c] assms(2) by (fastforce simp: keep_rows_def Let_def)

lemma ctx_ok_cong:
  "ic_table cx' = ic_table cx \<Longrightarrow> ic_int_vars cx' = ic_int_vars cx \<Longrightarrow> ctx_ok U ok cx' = ctx_ok U ok cx"
  by (simp add: ctx_ok_def)

lemma models_cong:
  "ic_table cx' = ic_table cx \<Longrightarrow> ic_int_vars cx' = ic_int_vars cx \<Longrightarrow> models U cx' s = models U cx s"
  by (simp add: models_def)

section \<open>Unification\<close>

lemma unify_Some:
  assumes "unify U n e a cx = Some (r, cx')"
  obtains (succeeds) cx1 where "unify_inner U n e a Co (cx\<lparr>ic_row_buffer := []\<rparr>) = Some (Inr (), cx1)"
      "r = Inr ()" "cx' = keep_rows cx1"
  | (fails) k err cx1 where "unify_inner U n e a Co (cx\<lparr>ic_row_buffer := []\<rparr>) = Some (Inl k, cx1)"
      "r = Inl err" "cx' = cx1\<lparr>ic_row_buffer := [], ic_table := ic_table cx\<rparr>"
  using assms by (auto simp: unify_def Let_def split: option.splits sum.splits)

lemma ctx_ok_rollback:
  assumes ok: "ctx_ok U ok cx" and e: "ctx_ext U ok (cx\<lparr>ic_row_buffer := b\<rparr>) cx1"
  shows "ctx_ok U ok (cx1\<lparr>ic_row_buffer := c, ic_table := ic_table cx\<rparr>)"
proof -
  have "v \<in> set (ic_int_vars cx) \<or> v < en_len U (ic_table cx) \<and> en_probe_value U (ic_table cx) v = None"
    if "v \<in> set (ic_int_vars cx1)" for v
    using e that by (auto simp: ctx_ext_def)
  then show ?thesis using ok by (fastforce simp: ctx_ok_def)
qed

text \<open>What a step that unifies may do to a context.\<close>

definition unify_ext :: "'t ena \<Rightarrow> ('t \<Rightarrow> bool) \<Rightarrow> 't infer_ctx \<Rightarrow> 't infer_ctx \<Rightarrow> bool" where
  "unify_ext U ok cx cx' \<longleftrightarrow>
     ctx_ok U ok cx' \<and> en_len U (ic_table cx') = en_len U (ic_table cx) \<and>
     (\<forall>s. models U cx' s \<longrightarrow> models U cx s) \<and> set (ic_subsets cx) \<subseteq> set (ic_subsets cx')"

lemma unify_ext_refl: "ctx_ok U ok cx \<Longrightarrow> unify_ext U ok cx cx"
  by (simp add: unify_ext_def)

lemma unify_ext_trans: "unify_ext U ok cx cx' \<Longrightarrow> unify_ext U ok cx' cx'' \<Longrightarrow> unify_ext U ok cx cx''"
  by (auto simp: unify_ext_def)

lemma unify_ext_ok: "unify_ext U ok cx cx' \<Longrightarrow> ctx_ok U ok cx'"
  by (simp add: unify_ext_def)

lemma unify_ext_scoped: "unify_ext U ok cx cx' \<Longrightarrow> scoped U (ic_table cx') ty = scoped U (ic_table cx) ty"
  by (simp add: unify_ext_def scoped_def)

lemma ctx_ext_kept:
  assumes "ctx_ext U ok (cx\<lparr>ic_row_buffer := []\<rparr>) cx1"
  shows "unify_ext U ok cx (keep_rows cx1)"
  using assms keep_rows_fields(4) [of cx1] ctx_ok_cong [of "keep_rows cx1" cx1 U ok]
    models_cong [of "keep_rows cx1" cx1 U]
  by (auto simp: ctx_ext_def unify_ext_def ctx_frame_def)

lemma ctx_ext_rolled_back:
  assumes ok: "ctx_ok U ok cx" and e: "ctx_ext U ok (cx\<lparr>ic_row_buffer := []\<rparr>) cx1"
  shows "unify_ext U ok cx (cx1\<lparr>ic_row_buffer := [], ic_table := ic_table cx\<rparr>)"
proof -
  obtain zs where "ic_int_vars cx1 = ic_int_vars cx @ zs" "ic_subsets cx1 = ic_subsets cx"
    using e by (auto simp: ctx_ext_def ctx_frame_def)
  then show ?thesis using ctx_ok_rollback [OF ok e] by (auto simp: unify_ext_def models_def)
qed

context ena_laws
begin

lemma unify_unify_ext:
  assumes ok: "ctx_ok U ok cx" and sc: "scoped U (ic_table cx) e" "scoped U (ic_table cx) a"
    and res: "unify U n e a cx = Some (r, cx')"
  shows "unify_ext U ok cx cx'"
proof -
  let ?cx = "cx\<lparr>ic_row_buffer := []\<rparr>"
  have ext: "ctx_ext U ok ?cx cx1" if "unify_inner U n e a Co ?cx = Some (r1, cx1)" for r1 cx1
    by (rule unify_inner_ext [OF _ _ _ that]) (use ok sc in simp_all)
  from res show ?thesis
  proof (cases rule: unify_Some)
    case (succeeds cx1)
    then show ?thesis using ctx_ext_kept ext by simp
  next
    case (fails k err cx1)
    then show ?thesis using ctx_ext_rolled_back [OF ok] ext by simp
  qed
qed

lemma unify_fits:
  assumes ok: "ctx_ok U ok cx" and sc: "scoped U (ic_table cx) e" "scoped U (ic_table cx) a"
    and res: "unify U n e a cx = Some (Inr (), cx')"
    and s: "models U cx' s" "\<forall>c\<in>set (ic_subsets cx'). subset_holds den s c" "\<forall>k. den k [] = {}"
  shows "fits den Co (inst s e) (inst s a)"
  using res
proof (cases rule: unify_Some)
  case (succeeds cx1)
  have "models U cx1 s" using s(1) models_cong [of "keep_rows cx1" cx1] succeeds(3) by simp
  moreover have "\<forall>c\<in>set (ic_row_buffer cx1). holds den s c"
    using keep_rows_holds s(2,3) succeeds(3) by blast
  ultimately show ?thesis
    using unify_inner_sound [OF _ _ _ succeeds(1)] ok sc by simp
qed simp

lemma unify_keeps_unifier:
  assumes ok: "ctx_ok U ok cx" and sc: "scoped U (ic_table cx) e" "scoped U (ic_table cx) a"
    and res: "unify U n e a cx = Some (r, cx')" and s: "models U cx s" and eq: "inst s e = inst s a"
  shows "r = Inr () \<and> models U cx' s \<and>
    (\<forall>c\<in>set (ic_subsets cx'). c \<in> set (ic_subsets cx) \<or> inst_row s (ss_sub c) = inst_row s (ss_sup c))"
proof -
  let ?cx = "cx\<lparr>ic_row_buffer := []\<rparr>"
  have inner: "r1 = Inr () \<and> keeps_model U s ?cx cx1" and ext: "ctx_ext U ok ?cx cx1"
    if "unify_inner U n e a Co ?cx = Some (r1, cx1)" for r1 cx1
    using unify_inner_complete [OF _ _ _ that _ eq] unify_inner_ext [OF _ _ _ that] ok sc s by simp_all
  from res show ?thesis
  proof (cases rule: unify_Some)
    case (succeeds cx1)
    have "ic_subsets cx1 = ic_subsets cx" using ext [OF succeeds(1)] by (simp add: ctx_ext_def ctx_frame_def)
    moreover have "\<forall>c\<in>set (ic_row_buffer cx1). tight s c" "models U cx1 s"
      using inner [OF succeeds(1)] by (auto simp: keeps_model_def)
    ultimately show ?thesis
      using keep_rows_tight [of cx1 s] models_cong [of "keep_rows cx1" cx1] succeeds(2,3)
      by (auto simp: tight_def)
  next
    case (fails k err cx1)
    then show ?thesis using inner [OF fails(1)] by simp
  qed
qed

lemma unify_total:
  assumes ok: "ctx_ok U ok cx" and sc: "scoped U (ic_table cx) e" "scoped U (ic_table cx) a"
  shows "\<exists>n0. \<forall>n\<ge>n0. \<exists>r cx'. unify U n e a cx = Some (r, cx')"
proof -
  let ?cx = "cx\<lparr>ic_row_buffer := []\<rparr>"
  have t: "table_ok U ok (ic_table cx)" using ok by (simp add: ctx_ok_def)
  obtain s where "solved U (ic_table cx) s" using t by (auto simp: table_ok_def)
  then obtain m r cx1 where m: "unify_inner U m e a Co ?cx = Some (r, cx1)"
    using unify_inner_returns [of ?cx e a s Co] ok sc by auto
  show ?thesis
  proof (cases r)
    case (Inr u)
    have "unify U n e a cx = Some (Inr (), keep_rows cx1)" if "m \<le> n" for n
      using unify_inner_mono [OF m that] Inr by (simp add: unify_def)
    then show ?thesis by blast
  next
    case (Inl k)
    let ?cx2 = "cx1\<lparr>ic_row_buffer := [], ic_table := ic_table cx\<rparr>"
    have "kind_scoped U (ic_table cx) k" using unify_inner_kind [OF _ _ _ m [unfolded Inl]] ok sc by simp
    then obtain n0 where n0: "\<And>n. n0 \<le> n \<Longrightarrow> report_error U n ?cx2 e a k \<noteq> None"
      using report_error_returns [of ?cx2 e a k] t sc by auto
    have "\<exists>r cx'. unify U n e a cx = Some (r, cx')" if "m \<le> n" "n0 \<le> n" for n
      using unify_inner_mono [OF m that(1)] n0 [OF that(2)] Inl by (auto simp: unify_def)
    then show ?thesis by (intro exI [of _ "max m n0"]) simp
  qed
qed

end

section \<open>The other operations\<close>

lemma new_row_var_unify_ext:
  "ctx_ok U ok cx \<Longrightarrow> unify_ext U ok cx (snd (new_row_var cx))"
  by (simp add: new_row_var_def unify_ext_def ctx_ok_def models_def)

lemma unify_to_Some:
  assumes "unify_to U n ty e a cx = Some (r, cx')"
  obtains r1 where "unify U n e a cx = Some (r1, cx')" "\<forall>t. r = Inr t \<longrightarrow> t = ty \<and> r1 = Inr ()"
  using assms by (auto simp: unify_to_def split: option.splits sum.splits)

lemma join_Some:
  assumes "join U n a b cx = Some (r, cx')"
  obtains (never) a' b' where "shallow_resolve U n cx a = Some a'" "shallow_resolve U n cx b = Some b'"
      "a' = TNever \<and> r = Inr b' \<or> b' = TNever \<and> r = Inr a'" "cx' = cx"
  | (fns) ps q f u b' where "shallow_resolve U n cx a = Some (TFn ps q f u)"
      "shallow_resolve U n cx b = Some b'" "join_fns U n ps q (TFn ps q f u) b' cx = Some (r, cx')"
  | (unify) a' b' where "shallow_resolve U n cx a = Some a'" "shallow_resolve U n cx b = Some b'"
      "unify_to U n a' a' b' cx = Some (r, cx')"
proof -
  obtain a' b' where ab: "shallow_resolve U n cx a = Some a'" "shallow_resolve U n cx b = Some b'"
    using assms by (auto simp: join_def split: option.splits)
  consider "a' = TNever \<or> b' = TNever" | (fn) ps q f u qs s g w where "a' \<noteq> TNever" "b' \<noteq> TNever"
      "a' = TFn ps q f u" "b' = TFn qs s g w" "length ps = length qs"
    | (other) "a' \<noteq> TNever" "b' \<noteq> TNever"
      "\<And>ps q f u qs s g w. a' = TFn ps q f u \<Longrightarrow> b' = TFn qs s g w \<Longrightarrow> length ps \<noteq> length qs"
    by metis
  then show thesis
  proof cases
    case 1
    then show thesis using assms ab never [OF ab] by (cases a'; cases b') (auto simp: join_def)
  next
    case fn
    then show thesis using assms ab fns [of ps q f u b'] by (simp add: join_def)
  next
    case other
    then show thesis using assms ab unify [OF ab] by (cases a'; cases b') (auto simp: join_def)
  qed
qed

lemma join_fns_Some:
  assumes "join_fns U n ps q a b cx = Some (r, cx')"
  obtains e v r1 cx1 where "unify U n (TFn ps q (row_var e) (row_var v)) a
      (snd (new_row_var (snd (new_row_var cx)))) = Some (r1, cx1)"
    and "r1 = Inr () \<and> (\<exists>r2. unify_to U n (TFn ps q (row_var e) (row_var v))
        (TFn ps q (row_var e) (row_var v)) b cx1 = Some (r2, cx') \<and> (\<forall>t. r = Inr t \<longrightarrow> r2 = Inr t)) \<or>
      cx' = cx1 \<and> (\<exists>err. r = Inl err)"
proof -
  define c1 where "c1 = snd (new_row_var cx)"
  define c2 where "c2 = snd (new_row_var c1)"
  define j where "j = TFn ps q (row_var (fst (new_row_var cx))) (row_var (fst (new_row_var c1)))"
  have res: "(case unify U n j a c2 of
           None \<Rightarrow> None
         | Some (Inl err, cx) \<Rightarrow> Some (Inl err, cx)
         | Some (Inr _, cx) \<Rightarrow>
             (case unify_to U n j j b cx of
                Some (Inl err, cx) \<Rightarrow>
                  (case resolve_for_report U n cx a of
                     None \<Rightarrow> None
                   | Some x \<Rightarrow> Some (Inl (err\<lparr>te_expected := x\<rparr>), cx))
              | res \<Rightarrow> res)) = Some (r, cx')"
    using assms unfolding join_fns_def c1_def c2_def j_def by (simp add: split_beta Let_def)
  then obtain r1 cx1 where u: "unify U n j a c2 = Some (r1, cx1)" by (auto split: option.splits)
  show thesis
    by (rule that [OF u [unfolded j_def c2_def c1_def]])
      (use res u in \<open>auto simp: j_def c1_def split: option.splits sum.splits\<close>)
qed

lemma scoped_joined:
  "scoped U t (TFn ps q f u) \<Longrightarrow> scoped U t (TFn ps q (row_var e) (row_var v))"
  by (auto simp: scoped_def row_var_def row_from_elems_def row_insert_def)

definition placed :: "'a denotation \<Rightarrow> ty \<Rightarrow> ty \<Rightarrow> bool" where
  "placed den e a \<longleftrightarrow> a = TNever \<or> fits den Co e a"

context ena_laws
begin

lemma join_fns_ok:
  assumes ok: "ctx_ok U ok cx" and sc: "scoped U (ic_table cx) (TFn ps q f u)" "scoped U (ic_table cx) b"
    and res: "join_fns U n ps q (TFn ps q f u) b cx = Some (r, cx')"
  shows "unify_ext U ok cx cx'"
    and "r = Inr ty \<Longrightarrow> scoped U (ic_table cx') ty"
    and "r = Inr ty \<Longrightarrow> models U cx' s \<Longrightarrow> \<forall>c\<in>set (ic_subsets cx'). subset_holds den s c \<Longrightarrow>
      \<forall>k. den k [] = {} \<Longrightarrow> fits den Co (inst s ty) (inst s (TFn ps q f u)) \<and> fits den Co (inst s ty) (inst s b)"
proof -
  let ?c = "snd (new_row_var (snd (new_row_var cx)))"
  obtain e v r1 cx1 where u1: "unify U n (TFn ps q (row_var e) (row_var v)) (TFn ps q f u) ?c = Some (r1, cx1)"
    and rest: "r1 = Inr () \<and> (\<exists>r2. unify_to U n (TFn ps q (row_var e) (row_var v))
        (TFn ps q (row_var e) (row_var v)) b cx1 = Some (r2, cx') \<and> (\<forall>t. r = Inr t \<longrightarrow> r2 = Inr t)) \<or>
      cx' = cx1 \<and> (\<exists>err. r = Inl err)"
    using res by (rule join_fns_Some)
  let ?j = "TFn ps q (row_var e) (row_var v)"
  have e0: "unify_ext U ok cx ?c"
    using unify_ext_trans [OF new_row_var_unify_ext [OF ok]] new_row_var_unify_ext [OF unify_ext_ok]
      new_row_var_unify_ext [OF ok] by blast
  have sc0: "scoped U (ic_table ?c) ?j" "scoped U (ic_table ?c) (TFn ps q f u)" "scoped U (ic_table ?c) b"
    using sc scoped_joined [OF sc(1)] unify_ext_scoped [OF e0] by simp_all
  have e1: "unify_ext U ok ?c cx1" by (rule unify_unify_ext [OF unify_ext_ok [OF e0] sc0(1,2) u1])
  have sc1: "scoped U (ic_table cx1) ?j" "scoped U (ic_table cx1) b"
    using sc0 unify_ext_scoped [OF e1] by simp_all
  have e2: "unify_ext U ok cx1 cx'"
    using rest unify_ext_refl [OF unify_ext_ok [OF e1]] unify_unify_ext [OF unify_ext_ok [OF e1] sc1]
    by (auto elim: unify_to_Some)
  show "unify_ext U ok cx cx'" using e0 e1 e2 unify_ext_trans by blast
  have succ: "r1 = Inr ()" "ty = ?j" "unify U n ?j b cx1 = Some (Inr (), cx')" if "r = Inr ty"
  proof -
    have "unify_to U n ?j ?j b cx1 = Some (Inr ty, cx')" and "r1 = Inr ()" using rest that by auto
    then show "r1 = Inr ()" "ty = ?j" "unify U n ?j b cx1 = Some (Inr (), cx')"
      by (auto elim!: unify_to_Some)
  qed
  show "scoped U (ic_table cx') ty" if "r = Inr ty"
    using succ(2) [OF that] sc1(1) unify_ext_scoped [OF e2] by simp
  assume r: "r = Inr ty" and s: "models U cx' s" "\<forall>c\<in>set (ic_subsets cx'). subset_holds den s c"
    "\<forall>k. den k [] = {}"
  have s1: "models U cx1 s" "\<forall>c\<in>set (ic_subsets cx1). subset_holds den s c"
    using s e2 by (auto simp: unify_ext_def)
  show "fits den Co (inst s ty) (inst s (TFn ps q f u)) \<and> fits den Co (inst s ty) (inst s b)"
    using unify_fits [OF unify_ext_ok [OF e0] sc0(1,2) u1 [unfolded succ(1) [OF r]] s1 s(3)]
      unify_fits [OF unify_ext_ok [OF e1] sc1 succ(3) [OF r] s] succ(2) [OF r] by simp
qed

lemma join_ok:
  assumes ok: "ctx_ok U ok cx" and sc: "scoped U (ic_table cx) a" "scoped U (ic_table cx) b"
    and res: "join U n a b cx = Some (r, cx')"
  shows "unify_ext U ok cx cx'"
    and "r = Inr ty \<Longrightarrow> scoped U (ic_table cx') ty"
    and "r = Inr ty \<Longrightarrow> models U cx' s \<Longrightarrow> \<forall>c\<in>set (ic_subsets cx'). subset_holds den s c \<Longrightarrow>
      \<forall>k. den k [] = {} \<Longrightarrow> placed den (inst s ty) (inst s a) \<and> placed den (inst s ty) (inst s b)"
proof -
  have t: "table_ok U ok (ic_table cx)" using ok by (simp add: ctx_ok_def)
  have main: "unify_ext U ok cx cx' \<and> (r = Inr ty \<longrightarrow> scoped U (ic_table cx') ty \<and>
    (models U cx' s \<and> (\<forall>c\<in>set (ic_subsets cx'). subset_holds den s c) \<and> (\<forall>k. den k [] = {}) \<longrightarrow>
      placed den (inst s ty) (inst s a') \<and> placed den (inst s ty) (inst s b')))"
    if a: "shallow_resolve U n cx a = Some a'" and b: "shallow_resolve U n cx b = Some b'"
      and h: "(a' = TNever \<and> r = Inr b' \<or> b' = TNever \<and> r = Inr a') \<and> cx' = cx \<or>
        (\<exists>ps q f u. a' = TFn ps q f u \<and> join_fns U n ps q (TFn ps q f u) b' cx = Some (r, cx')) \<or>
        unify_to U n a' a' b' cx = Some (r, cx')" for a' b'
  proof -
    have sc': "scoped U (ic_table cx) a'" "scoped U (ic_table cx) b'"
      using shallow_resolve_sound(1) [OF t sc(1) a] shallow_resolve_sound(1) [OF t sc(2) b] by auto
    from h consider "a' = TNever \<and> r = Inr b' \<or> b' = TNever \<and> r = Inr a'" "cx' = cx"
      | ps q f u where "a' = TFn ps q f u" "join_fns U n ps q (TFn ps q f u) b' cx = Some (r, cx')"
      | "unify_to U n a' a' b' cx = Some (r, cx')" by blast
    then show ?thesis
    proof cases
      case 1
      then show ?thesis using unify_ext_refl [OF ok] sc' by (auto simp: placed_def fits_refl)
    next
      case 2
      note f = join_fns_ok [OF ok _ sc'(2) 2(2)]
      show ?thesis using f sc'(1) unfolding 2(1) placed_def by blast
    next
      case 3
      from 3 obtain r1 where r1: "unify U n a' b' cx = Some (r1, cx')" "\<forall>t. r = Inr t \<longrightarrow> t = a' \<and> r1 = Inr ()"
        by (rule unify_to_Some)
      have e: "unify_ext U ok cx cx'" by (rule unify_unify_ext [OF ok sc' r1(1)])
      show ?thesis
        using e r1 sc'(1) unify_ext_scoped [OF e] unify_fits [OF ok sc', of n cx' s den]
        by (auto simp: placed_def fits_refl)
    qed
  qed
  have "\<exists>a' b'. shallow_resolve U n cx a = Some a' \<and> shallow_resolve U n cx b = Some b' \<and>
      ((a' = TNever \<and> r = Inr b' \<or> b' = TNever \<and> r = Inr a') \<and> cx' = cx \<or>
        (\<exists>ps q f u. a' = TFn ps q f u \<and> join_fns U n ps q (TFn ps q f u) b' cx = Some (r, cx')) \<or>
        unify_to U n a' a' b' cx = Some (r, cx'))"
    using res by (cases rule: join_Some) auto
  then obtain a' b' where ab: "shallow_resolve U n cx a = Some a'" "shallow_resolve U n cx b = Some b'"
    and h: "(a' = TNever \<and> r = Inr b' \<or> b' = TNever \<and> r = Inr a') \<and> cx' = cx \<or>
        (\<exists>ps q f u. a' = TFn ps q f u \<and> join_fns U n ps q (TFn ps q f u) b' cx = Some (r, cx')) \<or>
        unify_to U n a' a' b' cx = Some (r, cx')" by blast
  note m = main [OF ab h]
  show e: "unify_ext U ok cx cx'" using m by blast
  show "r = Inr ty \<Longrightarrow> scoped U (ic_table cx') ty" using m by blast
  assume s: "r = Inr ty" "models U cx' s" "\<forall>c\<in>set (ic_subsets cx'). subset_holds den s c" "\<forall>k. den k [] = {}"
  have "table_model U (ic_table cx) s" using e s(2) by (simp add: unify_ext_def models_def)
  then have "inst s a' = inst s a" "inst s b' = inst s b"
    using shallow_resolve_sound(2) [OF t sc(1) ab(1)] shallow_resolve_sound(2) [OF t sc(2) ab(2)] by auto
  then show "placed den (inst s ty) (inst s a) \<and> placed den (inst s ty) (inst s b)" using m s by simp
qed

end

section \<open>Runs of the context\<close>

text \<open>One operation on a context, on types over its variables.\<close>

inductive infer_step :: "'t ena \<Rightarrow> 't infer_ctx \<Rightarrow> 't infer_ctx \<Rightarrow> bool" for U where
  step_fresh: "fresh_var U cx = (v, cx') \<Longrightarrow> infer_step U cx cx'"
| step_int: "new_int_var U cx = (ty, cx') \<Longrightarrow> infer_step U cx cx'"
| step_row: "new_row_var cx = (v, cx') \<Longrightarrow> infer_step U cx cx'"
| step_subset: "infer_step U cx (add_subset_of k a b org cx)"
| step_tags: "infer_step U cx (set_error_tags tags cx)"
| step_origin: "infer_step U cx (set_origin sp d cx)"
| step_solution: "infer_step U cx (set_row_solution sol cx)"
| step_clear: "infer_step U cx (clear_row_solution cx)"
| step_solving: "infer_step U cx (set_solving b cx)"
| step_report: "infer_step U cx (report err cx)"
| step_take: "take_errors cx = (errs, cx') \<Longrightarrow> infer_step U cx cx'"
| step_unify: "scoped U (ic_table cx) e \<Longrightarrow> scoped U (ic_table cx) a \<Longrightarrow>
    unify U n e a cx = Some (r, cx') \<Longrightarrow> infer_step U cx cx'"
| step_expect: "scoped U (ic_table cx) e \<Longrightarrow> scoped U (ic_table cx) a \<Longrightarrow>
    expect U n e a cx = Some (c, cx') \<Longrightarrow> infer_step U cx cx'"
| step_coerce: "scoped U (ic_table cx) e \<Longrightarrow> scoped U (ic_table cx) a \<Longrightarrow>
    coerce U n e a cx = Some (r, cx') \<Longrightarrow> infer_step U cx cx'"
| step_join: "scoped U (ic_table cx) e \<Longrightarrow> scoped U (ic_table cx) a \<Longrightarrow>
    join U n e a cx = Some (q, cx') \<Longrightarrow> infer_step U cx cx'"
| step_join_or_report: "scoped U (ic_table cx) e \<Longrightarrow> scoped U (ic_table cx) a \<Longrightarrow>
    join_or_report U n e a cx = Some (ty, cx') \<Longrightarrow> infer_step U cx cx'"
| step_has_tag: "\<forall>t\<in>set (row_tys row). scoped U (ic_table cx) t \<Longrightarrow>
    \<forall>t\<in>set (snd tg). scoped U (ic_table cx) t \<Longrightarrow>
    row_has_tag U n row tg cx = Some (c, cx') \<Longrightarrow> infer_step U cx cx'"

context ena_laws
begin

lemma same_tag_unify_ext:
  assumes ok: "ctx_ok U ok cx" and sc: "\<forall>t\<in>set (snd a). scoped U (ic_table cx) t"
      "\<forall>t\<in>set (snd b). scoped U (ic_table cx) t"
    and res: "same_tag U n a b cx = Some (r, cx')"
  shows "unify_ext U ok cx cx'"
proof -
  let ?f = "\<lambda>x y. unify_inner U n x y (arg_variance x y)"
  let ?cx = "cx\<lparr>ic_row_buffer := []\<rparr>"
  have ext: "ctx_ext U ok ?cx cx1" if "unify_all ?f (snd a) (snd b) ?cx = Some (r1, cx1)" for r1 cx1
    by (rule unify_all_ext [OF unify_inner_ext _ _ _ that]) (use ok sc in simp_all)
  show ?thesis
    using res unify_ext_refl [OF ok] ctx_ext_kept ext ctx_ext_rolled_back [OF ok]
    by (auto simp: same_tag_def split: if_splits option.splits sum.splits)
qed

lemma any_same_tag_unify_ext:
  "ctx_ok U ok cx \<Longrightarrow> \<forall>a\<in>set ts. \<forall>t\<in>set (snd a). scoped U (ic_table cx) t \<Longrightarrow>
   \<forall>t\<in>set (snd b). scoped U (ic_table cx) t \<Longrightarrow> any_same_tag U n ts b cx = Some (r, cx') \<Longrightarrow>
   unify_ext U ok cx cx'"
proof (induction ts arbitrary: cx)
  case (Cons t ts)
  from Cons.prems(4) obtain r1 cx1 where r1: "same_tag U n t b cx = Some (r1, cx1)"
    by (auto split: option.splits)
  have e1: "unify_ext U ok cx cx1"
    by (rule same_tag_unify_ext [OF Cons.prems(1) _ Cons.prems(3) r1]) (use Cons.prems(2) in simp)
  show ?case
  proof (cases r1)
    case True
    then show ?thesis using r1 e1 Cons.prems(4) by simp
  next
    case False
    then have "any_same_tag U n ts b cx1 = Some (r, cx')" using r1 Cons.prems(4) by simp
    from Cons.IH [OF unify_ext_ok [OF e1] _ _ this] have "unify_ext U ok cx1 cx'"
      using Cons.prems(2,3) unify_ext_scoped [OF e1] by simp
    with e1 show ?thesis by (rule unify_ext_trans)
  qed
qed (simp add: unify_ext_refl)

lemma row_tags_scoped:
  assumes "\<forall>t\<in>set (row_tys row). scoped U (ic_table cx) t" "a \<in> set (row_tags row)" "t \<in> set (snd a)"
  shows "scoped U (ic_table cx) t"
proof -
  obtain d args where "a = (d, args)" "ETag d args \<in> set row"
    using assms(2) by (auto simp: row_tags_def map_filter_def split: row_elem.splits)
  then show ?thesis using assms(1,3) by (force simp: row_tys_def)
qed

lemma fresh_var_ok:
  assumes "ctx_ok U ok cx" "fresh_var U cx = (v, cx')"
  shows "ctx_ok U ok cx'" "v \<in> unbound U (ic_table cx')" "ic_int_vars cx' = ic_int_vars cx"
proof -
  obtain t' where n: "en_new_key U (ic_table cx) None = (v, t')" "cx' = cx\<lparr>ic_table := t'\<rparr>"
    using assms(2) by (auto simp: fresh_var_def split: prod.splits)
  have t: "table_ok U ok (ic_table cx)" using assms(1) by (simp add: ctx_ok_def)
  then have "ok (ic_table cx)" by (simp add: table_ok_def)
  note k = new_key [OF this n(1)] table_ok_new_key [OF t n(1)]
  show "ctx_ok U ok cx'" using assms(1) k by (auto simp: ctx_ok_def n(2) less_Suc_eq)
  show "v \<in> unbound U (ic_table cx')" "ic_int_vars cx' = ic_int_vars cx" using k n(2) by simp_all
qed

lemma infer_step_ok: "infer_step U cx cx' \<Longrightarrow> ctx_ok U ok cx \<Longrightarrow> ctx_ok U ok cx'"
proof (induction rule: infer_step.induct)
  case (step_fresh cx v cx')
  then show ?case using fresh_var_ok by blast
next
  case (step_int cx ty cx')
  then obtain v c where f: "fresh_var U cx = (v, c)" "cx' = c\<lparr>ic_int_vars := ic_int_vars c @ [v]\<rparr>"
    by (auto simp: new_int_var_def split: prod.splits)
  then show ?case
    using fresh_var_ok [OF step_int(2) f(1)] by (auto simp: ctx_ok_def unbound_def)
next
  case (step_unify cx e a n r cx')
  then show ?case using unify_unify_ext unify_ext_ok by blast
next
  case (step_expect cx e a n c cx')
  then obtain r cx1 where "unify U n e a cx = Some (r, cx1)" "ic_table cx' = ic_table cx1"
      "ic_int_vars cx' = ic_int_vars cx1"
    by (auto simp: expect_def split: option.splits sum.splits)
  then show ?case using step_expect unify_unify_ext unify_ext_ok ctx_ok_cong by metis
next
  case (step_coerce cx e a n r cx')
  then show ?case
    using unify_unify_ext [of cx e a n r cx'] unify_ext_ok
    by (auto simp: coerce_def split: option.splits if_splits)
next
  case (step_join cx e a n q cx')
  then show ?case using join_ok(1) unify_ext_ok by blast
next
  case (step_join_or_report cx e a n ty cx')
  then obtain r cx1 where "join U n e a cx = Some (r, cx1)" "ic_table cx' = ic_table cx1"
      "ic_int_vars cx' = ic_int_vars cx1"
    by (auto simp: join_or_report_def split: option.splits sum.splits)
  then show ?case using step_join_or_report join_ok(1) unify_ext_ok ctx_ok_cong by metis
next
  case (step_has_tag row cx tg n c cx')
  have tags: "\<forall>a\<in>set (row_tags row). \<forall>t\<in>set (snd a). scoped U (ic_table cx) t"
    using row_tags_scoped [OF step_has_tag(1)] by blast
  have "cx' = cx \<or> any_same_tag U n (row_tags row) tg cx = Some (c, cx')"
    using step_has_tag(3) by (auto simp: row_has_tag_def split: if_splits)
  then show ?case
    using any_same_tag_unify_ext [OF step_has_tag(4) tags step_has_tag(2)] unify_ext_ok step_has_tag(4)
    by blast
qed (auto simp: ctx_ok_def new_row_var_def set_error_tags_def set_origin_def set_row_solution_def
  clear_row_solution_def set_solving_def report_def take_errors_def)

lemma ctx_new_ok: "ctx_ok U ok (ctx_new U)"
  using ok_new by (auto simp: ctx_ok_def ctx_new_def table_ok_def solved_def table_model_def unbound_def)

lemma infer_run_ok: "(infer_step U)\<^sup>*\<^sup>* (ctx_new U) cx \<Longrightarrow> ctx_ok U ok cx"
  by (induction rule: rtranclp_induct) (auto intro: ctx_new_ok infer_step_ok)

lemma ctx_ok_model:
  assumes "ctx_ok U ok cx"
  shows "\<exists>s. models U cx s"
proof -
  have t: "table_ok U ok (ic_table cx)" and "ok (ic_table cx)" using assms by (auto simp: ctx_ok_def table_ok_def)
  obtain s where s: "solved U (ic_table cx) s" using t by (auto simp: table_ok_def)
  have "int_ty (inst (\<lambda>_. TPrim PInt) (s v))" if v: "v \<in> set (ic_int_vars cx)" for v
  proof -
    have l: "v < en_len U (ic_table cx)" using assms v by (simp add: ctx_ok_def)
    show ?thesis
    proof (cases "en_probe_value U (ic_table cx) v")
      case None
      have "s v = s (en_find U (ic_table cx) v)" using s l by (simp add: solved_def table_model_def)
      also have "\<dots> = TVar (en_find U (ic_table cx) v)"
        using s find_unbound [OF \<open>ok (ic_table cx)\<close> l None] by (simp add: solved_def)
      finally show ?thesis by (simp add: int_ty_def)
    next
      case (Some b)
      then have "s v = inst s b" "int_ty b"
        using s l assms v by (auto simp: solved_def table_model_def ctx_ok_def)
      then show ?thesis by (auto simp: int_ty_def)
    qed
  qed
  moreover have "table_model U (ic_table cx) (\<lambda>v. inst (\<lambda>_. TPrim PInt) (s v))"
    by (rule table_model_compose) (use s in \<open>simp add: solved_def\<close>)
  ultimately have "models U cx (\<lambda>v. inst (\<lambda>_. TPrim PInt) (s v))" by (simp add: models_def)
  then show ?thesis by blast
qed

end

text \<open>
  A run for the witnesses: with one type variable, a function that may fail with a set variable is
  placed where one that may fail with the error \<open>1\<close> is expected.
\<close>

definition fn_ctx :: "rep_table infer_ctx" where
  "fn_ctx = snd (new_var rep_ena (ctx_new rep_ena))"

definition fn_expected :: ty where
  "fn_expected = TFn [TVar 0] (TVar 0) [ETag 1 []] []"

definition fn_actual :: ty where
  "fn_actual = TFn [TPrim PInt] (TPrim PInt) [EVar 0] []"

definition fn_result :: "rep_table infer_ctx" where
  "fn_result = snd (the (unify rep_ena 4 fn_expected fn_actual fn_ctx))"

definition fn_den :: "nat denotation" where
  "fn_den k row = (\<Union>e\<in>set row. case e of ETag d args \<Rightarrow> {d} | EVar v \<Rightarrow> {1} | _ \<Rightarrow> {})"

definition branch :: "row \<Rightarrow> ty" where
  "branch fails = TFn [] (TPrim PInt) fails []"

definition joined :: ty where
  "joined = TFn [] (TPrim PInt) [EVar 0] [EVar 1]"

definition join_result :: "rep_table infer_ctx" where
  "join_result = fn_ctx\<lparr>ic_next_row_var := 2,
     ic_subsets := [\<lparr>ss_sub = [ETag 1 []], ss_sup = [EVar 0], ss_origin = Coerce None None,
       ss_kind = Errors\<rparr>]\<rparr>"

definition tag_ctx :: "rep_table infer_ctx" where
  "tag_ctx = snd (new_int_var rep_ena (snd (new_var rep_ena (ctx_new rep_ena))))"

lemmas run_defs = new_int_var_def new_var_def fresh_var_def ctx_new_def rep_ena_def
  unify_def unify_then_def unify_heads_def unify_vars_def unify_var_def bind_var_def
  is_int_var_def rep_union_def rep_union_value_def unify_values_def
  report_error_def report_kind_def ty_map_children_opt_def keep_rows_def buffer_rows_def add_subset_of_def

lemma fn_ctx_ok: "ctx_ok rep_ena rep_ok fn_ctx"
  using rep.fresh_var_ok(1) [OF rep.ctx_new_ok] by (auto simp: fn_ctx_def new_var_def split: prod.splits)

lemma fn_scoped: "scoped rep_ena (ic_table fn_ctx) fn_expected" "scoped rep_ena (ic_table fn_ctx) fn_actual"
  by (simp_all add: scoped_def fn_ctx_def fn_expected_def fn_actual_def run_defs)

lemma fn_unify: "unify rep_ena 4 fn_expected fn_actual fn_ctx = Some (Inr (), fn_result)"
  "ic_table fn_result = [(0, Some (TPrim PInt))]" "ic_int_vars fn_result = []"
  "ic_subsets fn_result = [\<lparr>ss_sub = [EVar 0], ss_sup = [ETag 1 []], ss_origin = Coerce None None,
     ss_kind = Errors\<rparr>]"
  by (simp_all add: fn_result_def fn_ctx_def fn_expected_def fn_actual_def run_defs eval_nat_numeral)

lemma join_run_unify:
  "unify rep_ena 4 joined (branch [ETag 1 []]) (fn_ctx\<lparr>ic_next_row_var := 2\<rparr>) = Some (Inr (), join_result)"
  "unify rep_ena 4 joined (branch []) join_result = Some (Inr (), join_result)"
  by (simp_all add: join_result_def joined_def branch_def fn_ctx_def run_defs eval_nat_numeral)

lemma join_run: "join rep_ena 4 (branch [ETag 1 []]) (branch []) fn_ctx = Some (Inr joined, join_result)"
proof -
  have rows: "row_var 0 = [EVar 0]" "row_var 1 = [EVar 1]" "row_var (Suc 0) = [EVar 1]"
    by (simp_all add: row_var_def row_from_elems_def row_insert_def)
  have fresh: "new_row_var fn_ctx = (0, fn_ctx\<lparr>ic_next_row_var := 1\<rparr>)"
    "new_row_var (fn_ctx\<lparr>ic_next_row_var := 1\<rparr>) = (1, fn_ctx\<lparr>ic_next_row_var := 2\<rparr>)"
    by (simp_all add: new_row_var_def fn_ctx_def run_defs)
  have "join_fns rep_ena 4 [] (TPrim PInt) (branch [ETag 1 []]) (branch []) fn_ctx = Some (Inr joined, join_result)"
    unfolding join_fns_def fresh unify_to_def Let_def prod.case rows joined_def [symmetric] join_run_unify
    by (simp add: join_run_unify)
  moreover have "shallow_resolve rep_ena 4 fn_ctx (branch f) = Some (branch f)" for f
    by (simp add: branch_def eval_nat_numeral)
  ultimately show ?thesis by (simp add: join_def) (simp add: branch_def)
qed

section \<open>Properties\<close>

text \<open>
  C3: Unification is sound. When \<open>unify\<close> succeeds, the context keeps its invariant and every
  constraint it had, every assignment that satisfies the new context satisfies the old one, and under
  every assignment and every meaning of sets that satisfy it and its constraints the actual type fits
  the expected one: equal types, with the sets of errors and effects of functions contained in the
  direction of the variance, up to broken types.
\<close>

theorem unify_sound:
  assumes "ena_laws U ok" and "ctx_ok U ok cx"
    and "scoped U (ic_table cx) expected" and "scoped U (ic_table cx) actual"
    and "unify U n expected actual cx = Some (Inr (), cx')"
    and "models U cx' s" and "\<forall>c\<in>set (ic_subsets cx'). subset_holds den s c" and "\<forall>k. den k [] = {}"
  shows "ctx_ok U ok cx' \<and> set (ic_subsets cx) \<subseteq> set (ic_subsets cx') \<and> models U cx s \<and>
    fits den Co (inst s expected) (inst s actual)"
  using ena_laws.unify_unify_ext [OF assms(1-5)] ena_laws.unify_fits [OF assms] assms(6)
  by (simp add: unify_ext_def)

theorem unify_sound_witness:
  "unify rep_ena 4 fn_expected fn_actual fn_ctx = Some (Inr (), fn_result) \<and>
   ctx_ok rep_ena rep_ok fn_result \<and>
   fits fn_den Co (TFn [TPrim PInt] (TPrim PInt) [ETag 1 []] [])
     (TFn [TPrim PInt] (TPrim PInt) [EVar 0] [])"
  using unify_sound [OF rep.ena_laws_axioms fn_ctx_ok fn_scoped fn_unify(1), of "\<lambda>_. TPrim PInt" fn_den]
    fn_unify
  by (simp add: models_def table_model_def subset_holds_def holds_def inst_row_def fn_den_def
    fn_expected_def fn_actual_def rep_ena_def)

text \<open>
  C5: Unification is most general and its failures are real. On a context with an assignment that
  satisfies it and makes the two types equal, \<open>unify\<close> does not fail, the assignment satisfies the
  result, and it makes the two sides of every added constraint equal.
\<close>

theorem unify_most_general:
  assumes "ena_laws U ok" and "ctx_ok U ok cx"
    and "scoped U (ic_table cx) expected" and "scoped U (ic_table cx) actual"
    and "unify U n expected actual cx = Some (r, cx')"
    and "models U cx s" and "inst s expected = inst s actual"
  shows "r = Inr () \<and> models U cx' s \<and>
    (\<forall>c\<in>set (ic_subsets cx').
       c \<in> set (ic_subsets cx) \<or> inst_row s (ss_sub c) = inst_row s (ss_sup c))"
  by (rule ena_laws.unify_keeps_unifier [OF assms])

theorem unify_most_general_witness:
  "(\<exists>cx'. unify rep_ena 4 (TList (TVar 0)) (TList (TPrim PInt)) fn_ctx = Some (Inr (), cx') \<and>
     models rep_ena cx' (\<lambda>_. TPrim PInt))"
proof -
  obtain r cx' where u: "unify rep_ena 4 (TList (TVar 0)) (TList (TPrim PInt)) fn_ctx = Some (r, cx')"
    by (simp add: fn_ctx_def run_defs eval_nat_numeral)
  have "r = Inr () \<and> models rep_ena cx' (\<lambda>_. TPrim PInt)"
    using unify_most_general [OF rep.ena_laws_axioms fn_ctx_ok _ _ u, of "\<lambda>_. TPrim PInt"]
    by (simp add: scoped_def models_def table_model_def fn_ctx_def run_defs)
  with u show ?thesis by blast
qed

text \<open>
  C18: Unification returns: in a context that keeps its invariant, for every two types over its
  variables, there is a fuel from which on \<open>unify\<close> yields a result or an error. The occurs check
  makes this so: without cycles following bindings ends, and every binding leaves fewer unbound
  variables.
\<close>

theorem unify_returns:
  assumes "ena_laws U ok" and "ctx_ok U ok cx"
    and "scoped U (ic_table cx) expected" and "scoped U (ic_table cx) actual"
  shows "\<exists>n0. \<forall>n\<ge>n0. \<exists>r cx'. unify U n expected actual cx = Some (r, cx')"
  by (rule ena_laws.unify_total [OF assms])

theorem unify_returns_witness:
  "\<exists>n0. unify rep_ena n0 fn_expected fn_actual fn_ctx \<noteq> None"
proof -
  obtain n0 where n0: "\<forall>n\<ge>n0. \<exists>r cx'. unify rep_ena n fn_expected fn_actual fn_ctx = Some (r, cx')"
    using unify_returns [OF rep.ena_laws_axioms fn_ctx_ok fn_scoped] by blast
  then have "unify rep_ena n0 fn_expected fn_actual fn_ctx \<noteq> None" by (metis order_refl option.distinct(1))
  then show ?thesis by (rule exI)
qed

text \<open>
  C38: A failed unification restores the table, keeps the constraints, the reported errors and the
  invariant, buffers nothing, and only adds integer variables. No assignment that satisfies the
  context makes the two types equal.
\<close>

theorem failed_unify:
  assumes "ena_laws U ok" and "ctx_ok U ok cx"
    and "scoped U (ic_table cx) expected" and "scoped U (ic_table cx) actual"
    and "unify U n expected actual cx = Some (Inl err, cx')"
  shows "ic_table cx' = ic_table cx \<and> ctx_frame cx' = ctx_frame cx \<and> ic_row_buffer cx' = [] \<and>
    (\<exists>vs. ic_int_vars cx' = ic_int_vars cx @ vs) \<and> ctx_ok U ok cx' \<and>
    \<not> (\<exists>s. models U cx s \<and> inst s expected = inst s actual)"
proof -
  have "ic_table cx' = ic_table cx \<and> ctx_frame cx' = ctx_frame cx \<and> ic_row_buffer cx' = [] \<and>
    (\<exists>vs. ic_int_vars cx' = ic_int_vars cx @ vs)"
    using assms(5)
  proof (cases rule: unify_Some)
    case (fails k err cx1)
    have "ctx_ext U ok (cx\<lparr>ic_row_buffer := []\<rparr>) cx1"
      by (rule ena_laws.unify_inner_ext [OF assms(1) _ _ _ fails(1)]) (use assms(2-4) in simp_all)
    then show ?thesis using fails(3) by (auto simp: ctx_ext_def ctx_frame_def)
  qed simp
  then show ?thesis
    using ena_laws.unify_unify_ext [OF assms] ena_laws.unify_keeps_unifier [OF assms]
    by (auto simp: unify_ext_def)
qed

theorem failed_unify_witness:
  "(\<exists>err cx'. unify rep_ena 4 (TVar 0) (TList (TVar 0)) fn_ctx = Some (Inl err, cx') \<and>
     ic_table cx' = ic_table fn_ctx) \<and>
   \<not> (\<exists>s. models rep_ena fn_ctx s \<and> s 0 = TList (s 0))"
proof -
  obtain err cx' where u: "unify rep_ena 4 (TVar 0) (TList (TVar 0)) fn_ctx = Some (Inl err, cx')"
    by (simp add: fn_ctx_def run_defs eval_nat_numeral)
  from failed_unify [OF rep.ena_laws_axioms fn_ctx_ok _ _ u]
  have "ic_table cx' = ic_table fn_ctx" "\<not> (\<exists>s. models rep_ena fn_ctx s \<and> s 0 = TList (s 0))"
    by (simp_all add: scoped_def fn_ctx_def run_defs)
  with u show ?thesis by blast
qed


text \<open>
  C40: The common type of two branches is one both can be placed at: when \<open>join\<close> succeeds, under every
  assignment and meaning of sets that satisfy the new context, each of the two types fits the result
  or is the type without values. The result is a type over the variables of the context, and the
  context keeps its invariant.
\<close>

theorem join_upper_bound:
  assumes "ena_laws U ok" and "ctx_ok U ok cx" and "scoped U (ic_table cx) a" and "scoped U (ic_table cx) b"
    and "join U n a b cx = Some (Inr ty, cx')"
    and "models U cx' s" and "\<forall>c\<in>set (ic_subsets cx'). subset_holds den s c" and "\<forall>k. den k [] = {}"
  shows "placed den (inst s ty) (inst s a) \<and> placed den (inst s ty) (inst s b) \<and>
    scoped U (ic_table cx') ty \<and> ctx_ok U ok cx'"
  using ena_laws.join_ok [OF assms(1-5)] assms(6-8) by (auto simp: unify_ext_def)

theorem join_upper_bound_witness:
  "join rep_ena 4 (branch [ETag 1 []]) (branch []) fn_ctx = Some (Inr joined, join_result) \<and>
   placed fn_den joined (branch [ETag 1 []]) \<and> placed fn_den joined (branch [])"
  using join_upper_bound [OF rep.ena_laws_axioms fn_ctx_ok _ _ join_run, of TVar fn_den] join_run
  by (simp add: scoped_def branch_def models_def table_model_def subset_holds_def holds_def inst_row_def
    fn_den_def join_result_def fn_ctx_def run_defs)

text \<open>
  C15: Every context that a run of operations on a new context reaches, failed operations included,
  keeps the invariant: bindings have no cycles and stay among the variables of the table, and an
  integer variable is bound to nothing but an integer type or a broken one. It always has an
  assignment that satisfies it.
\<close>

theorem infer_invariant:
  assumes "ena_laws U ok" and "(infer_step U)\<^sup>*\<^sup>* (ctx_new U) cx"
  shows "ctx_ok U ok cx \<and> (\<exists>s. models U cx s)"
  using ena_laws.infer_run_ok [OF assms] ena_laws.ctx_ok_model [OF assms(1)] by blast

theorem infer_invariant_witness:
  "ctx_ok rep_ena rep_ok tag_ctx \<and> (\<exists>s. models rep_ena tag_ctx s)"
proof (rule infer_invariant [OF rep.ena_laws_axioms])
  have "infer_step rep_ena (ctx_new rep_ena) (snd (new_var rep_ena (ctx_new rep_ena)))"
    by (rule step_fresh [of _ _ 0]) (simp add: run_defs)
  moreover have "infer_step rep_ena (snd (new_var rep_ena (ctx_new rep_ena))) tag_ctx"
    by (rule step_int [of _ _ "TVar 1"]) (simp add: tag_ctx_def run_defs)
  ultimately show "(infer_step rep_ena)\<^sup>*\<^sup>* (ctx_new rep_ena) tag_ctx" by simp
qed

end
