(* ===== verification/Types_Scheme.thy ===== *)
theory Types_Scheme
  imports Types_Context
begin

text \<open>
  Generalization and instantiation: \<open>generalize_bounded\<close> and \<open>instantiate_with_args\<close> of
  \<open>crates/emela-types/src/infer.rs\<close>, with the names of \<open>scheme.rs\<close>.

  The hash maps from variables to parameters are association lists in the order of insertion; the
  code sorts them where the order matters. The loop that looks for a free name gets as fuel one more
  than the names taken, which is enough because the candidates differ.
\<close>

section \<open>Generalization\<close>

fun pick_name :: "nat \<Rightarrow> (nat \<Rightarrow> string) \<Rightarrow> ty_param list \<Rightarrow> nat \<Rightarrow> (string \<times> nat) option" where
  "pick_name 0 name params i = None"
| "pick_name (Suc n) name params i =
     (if list_ex (\<lambda>p. tp_name p = name i) params then pick_name n name params (i + 1)
      else Some (name i, i + 1))"

text \<open>The loop over the free type variables.\<close>

fun gen_ty_vars ::
    "ty_var list \<Rightarrow> ty_var list \<Rightarrow> (ty_var \<times> nat) list \<Rightarrow> ty_param list \<Rightarrow> nat \<Rightarrow>
     ((ty_var \<times> nat) list \<times> ty_param list) option" where
  "gen_ty_vars env [] tys params i = Some (tys, params)"
| "gen_ty_vars env (v # vs) tys params i =
     (if v \<in> set env then gen_ty_vars env vs tys params i
      else case pick_name (Suc (length params)) param_name params i of
             None \<Rightarrow> None
           | Some (name, i') \<Rightarrow>
               gen_ty_vars env vs (tys @ [(v, length params mod 2 ^ 32)])
                 (params @ [ty_param_new name]) i')"

definition IMMEDIATE :: string where
  "IMMEDIATE = ''Immediate''"

text \<open>The loop over the free set variables; \<open>i\<close> and \<open>j\<close> count the names for errors and effects.\<close>

fun gen_row_vars ::
    "row_var set \<Rightarrow> (row_var \<times> set_kind) list \<Rightarrow> (row_var \<times> nat) list \<Rightarrow> ty_param list \<Rightarrow> nat \<Rightarrow> nat \<Rightarrow>
     ((row_var \<times> nat) list \<times> ty_param list) option" where
  "gen_row_vars imm [] rows params i j = Some (rows, params)"
| "gen_row_vars imm ((v, k) # vs) rows params i j =
     (case pick_name (Suc (length params)) (set_param_name (if k = Errors then ''E'' else ''R'')) params
             (if k = Errors then i else j) of
        None \<Rightarrow> None
      | Some (name, next) \<Rightarrow>
          (let param = ty_param_set name;
               param = (if v \<in> imm then param\<lparr>tp_bounds := tp_bounds param @ [IMMEDIATE]\<rparr> else param)
           in gen_row_vars imm vs (rows @ [(v, length params mod 2 ^ 32)]) (params @ [param])
                (if k = Errors then next else i) (if k = Errors then j else next)))"

definition generalize_bounded ::
    "'t ena \<Rightarrow> nat \<Rightarrow> 't infer_ctx \<Rightarrow> ty \<Rightarrow> ty_param list \<Rightarrow> ty_var list \<Rightarrow> row_var set \<Rightarrow>
     (scheme \<times> (row_var \<times> nat) list \<times> (ty_var \<times> nat) list) option" where
  "generalize_bounded U n cx ty existing env_vars imm =
     (case fold_opt (\<lambda>v. collect_free_vars U n cx (TVar v)) env_vars [] of
        None \<Rightarrow> None
      | Some env \<Rightarrow>
     (case free_vars U n cx ty of
        None \<Rightarrow> None
      | Some vs \<Rightarrow>
     (case gen_ty_vars env vs [] existing 0 of
        None \<Rightarrow> None
      | Some (tys, params) \<Rightarrow>
     (case resolve U n cx ty of
        None \<Rightarrow> None
      | Some ty \<Rightarrow>
     (case gen_row_vars imm (free_row_vars ty) [] params 0 0 of
        None \<Rightarrow> None
      | Some (rows, params) \<Rightarrow>
          Some (\<lparr>sc_params = params, sc_ty = replace_vars (map_of tys) (map_of rows) ty\<rparr>, rows,
                sort_key snd tys))))))"

definition generalize_with ::
    "'t ena \<Rightarrow> nat \<Rightarrow> 't infer_ctx \<Rightarrow> ty \<Rightarrow> ty_param list \<Rightarrow> ty_var list \<Rightarrow> scheme option" where
  "generalize_with U n cx ty existing env_vars =
     map_option fst (generalize_bounded U n cx ty existing env_vars {})"

definition generalize :: "'t ena \<Rightarrow> nat \<Rightarrow> 't infer_ctx \<Rightarrow> ty \<Rightarrow> ty_var list \<Rightarrow> scheme option" where
  "generalize U n cx ty env_vars = generalize_with U n cx ty [] env_vars"

section \<open>Instantiation\<close>

fun fresh_args ::
    "'t ena \<Rightarrow> ty_param list \<Rightarrow> 't infer_ctx \<Rightarrow> (ty list \<times> row list) \<times> 't infer_ctx" where
  "fresh_args U [] cx = (([], []), cx)"
| "fresh_args U (p # ps) cx =
     (let (ty, cx) = new_var U cx;
          (row, cx) = (case tp_kind p of
                         KType \<Rightarrow> ([], cx)
                       | KSet \<Rightarrow> (let (v, cx) = new_row_var cx in (row_var v, cx)));
          ((tys, rows), cx) = fresh_args U ps cx
      in ((ty # tys, row # rows), cx))"

definition instantiate_with_args ::
    "'t ena \<Rightarrow> scheme \<Rightarrow> 't infer_ctx \<Rightarrow> (ty \<times> ty list) \<times> 't infer_ctx" where
  "instantiate_with_args U sc cx =
     (let ((tys, rows), cx) = fresh_args U (sc_params sc) cx
      in ((substitute tys rows (sc_ty sc), tys), cx))"

definition instantiate :: "'t ena \<Rightarrow> scheme \<Rightarrow> 't infer_ctx \<Rightarrow> ty \<times> 't infer_ctx" where
  "instantiate U sc cx = (let ((ty, tys), cx) = instantiate_with_args U sc cx in (ty, cx))"

section \<open>Rows as sorted sets\<close>

definition row_ok :: "row \<Rightarrow> bool" where
  "row_ok row \<longleftrightarrow> distinct row \<and> sorted (map row_order row)"

primrec ty_ok :: "ty \<Rightarrow> bool" and elem_ok :: "row_elem \<Rightarrow> bool" where
  "ty_ok (TPrim p) = True"
| "ty_ok TNever = True"
| "ty_ok (TVar v) = True"
| "ty_ok (TBound i) = True"
| "ty_ok (TFn ps r f u) =
     (list_all id (map ty_ok ps) \<and> ty_ok r \<and> row_ok f \<and> list_all id (map elem_ok f) \<and>
      row_ok u \<and> list_all id (map elem_ok u))"
| "ty_ok (TTuple ts) = list_all id (map ty_ok ts)"
| "ty_ok (TList t) = ty_ok t"
| "ty_ok (TNamed c ts) = list_all id (map ty_ok ts)"
| "ty_ok (TSet k row) = (row_ok row \<and> list_all id (map elem_ok row))"
| "ty_ok (TCap d ts) = list_all id (map ty_ok ts)"
| "ty_ok TError = True"
| "elem_ok (ETag d ts) = list_all id (map ty_ok ts)"
| "elem_ok (EBound i) = True"
| "elem_ok (EOf t) = ty_ok t"
| "elem_ok (EVar v) = True"

text \<open>The type parameters, of both kinds, a type mentions.\<close>

primrec ty_bounds :: "ty \<Rightarrow> nat set" and elem_bounds :: "row_elem \<Rightarrow> nat set" where
  "ty_bounds (TPrim p) = {}"
| "ty_bounds TNever = {}"
| "ty_bounds (TVar v) = {}"
| "ty_bounds (TBound i) = {i}"
| "ty_bounds (TFn ps r f u) =
     \<Union> (set (map ty_bounds ps)) \<union> ty_bounds r \<union> \<Union> (set (map elem_bounds f)) \<union>
     \<Union> (set (map elem_bounds u))"
| "ty_bounds (TTuple ts) = \<Union> (set (map ty_bounds ts))"
| "ty_bounds (TList t) = ty_bounds t"
| "ty_bounds (TNamed c ts) = \<Union> (set (map ty_bounds ts))"
| "ty_bounds (TSet k row) = \<Union> (set (map elem_bounds row))"
| "ty_bounds (TCap d ts) = \<Union> (set (map ty_bounds ts))"
| "ty_bounds TError = {}"
| "elem_bounds (ETag d ts) = \<Union> (set (map ty_bounds ts))"
| "elem_bounds (EBound i) = {i}"
| "elem_bounds (EOf t) = ty_bounds t"
| "elem_bounds (EVar v) = {}"

lemma dropWhile_greater:
  assumes "sorted (map row_order row)" "y \<in> set (dropWhile (\<lambda>x. \<not> row_order x > row_order e) row)"
  shows "row_order e < row_order y"
  using assms by (induction row) (auto split: if_splits)

lemma row_insert_sorted:
  assumes "sorted (map row_order row)"
  shows "sorted (map row_order (row_insert row e))"
proof (cases "e \<in> set row")
  case False
  let ?P = "\<lambda>x. \<not> row_order x > row_order e"
  have "sorted (map row_order (takeWhile ?P row @ dropWhile ?P row))"
    using assms by simp
  then have "sorted (map row_order (takeWhile ?P row))" "sorted (map row_order (dropWhile ?P row))"
    "\<forall>x\<in>set (takeWhile ?P row). \<forall>y\<in>set (dropWhile ?P row). row_order x \<le> row_order y"
    unfolding map_append sorted_append by auto
  moreover have "\<forall>x\<in>set (takeWhile ?P row). row_order x \<le> row_order e"
    by (auto dest: set_takeWhileD)
  moreover have "\<forall>y\<in>set (dropWhile ?P row). row_order e \<le> row_order y"
    using dropWhile_greater [OF assms] less_imp_le by blast
  ultimately show ?thesis
    using False unfolding row_insert_def by (simp add: sorted_append)
qed (use assms in \<open>simp add: row_insert_def\<close>)

lemma row_insert_ok:
  assumes "row_ok row"
  shows "row_ok (row_insert row e)"
proof (cases "e \<in> set row")
  case False
  let ?P = "\<lambda>x. \<not> row_order x > row_order e"
  have "distinct (takeWhile ?P row @ dropWhile ?P row)" using assms by (simp add: row_ok_def)
  moreover have "e \<notin> set (takeWhile ?P row @ dropWhile ?P row)" using False by simp
  ultimately have "distinct (takeWhile ?P row @ e # dropWhile ?P row)"
    unfolding distinct_append distinct.simps set_append by auto
  then show ?thesis
    using row_insert_sorted [of row e] assms False by (simp add: row_ok_def row_insert_def)
qed (use assms in \<open>simp add: row_insert_def\<close>)

lemma row_from_elems_ok: "row_ok (row_from_elems es)"
proof -
  have "row_ok row \<Longrightarrow> row_ok (foldl row_insert row es)" for row
    by (induction es arbitrary: row) (auto intro: row_insert_ok)
  then show ?thesis by (simp add: row_from_elems_def row_ok_def)
qed

text \<open>Insertion is stable: elements with one sort key keep their order.\<close>

lemma row_insert_filter:
  assumes "sorted (map row_order row)" "e \<notin> set row"
  shows "filter (\<lambda>x. row_order x = k) (row_insert row e) =
    filter (\<lambda>x. row_order x = k) row @ (if row_order e = k then [e] else [])"
proof -
  let ?P = "\<lambda>x. \<not> row_order x > row_order e" and ?k = "\<lambda>x. row_order x = k"
  have split: "filter ?k row = filter ?k (takeWhile ?P row) @ filter ?k (dropWhile ?P row)"
    by (metis filter_append takeWhile_dropWhile_id)
  have "filter ?k (dropWhile ?P row) = []" if "row_order e = k"
  proof (rule filter_False, rule ballI, rule notI)
    fix y
    assume "y \<in> set (dropWhile ?P row)" "row_order y = k"
    then have "k < k" using dropWhile_greater [OF assms(1)] that by metis
    then show False by (rule less_irrefl [THEN notE])
  qed
  then show ?thesis using assms(2) by (auto simp: row_insert_def split)
qed

lemma row_from_elems_filter:
  assumes "distinct es"
  shows "filter (\<lambda>x. row_order x = k) (row_from_elems es) = filter (\<lambda>x. row_order x = k) es"
proof -
  have "filter (\<lambda>x. row_order x = k) (foldl row_insert row es) =
      filter (\<lambda>x. row_order x = k) row @ filter (\<lambda>x. row_order x = k) es"
    if "row_ok row" "distinct (row @ es)" for row
    using that
  proof (induction es arbitrary: row)
    case (Cons e es)
    have "sorted (map row_order row)" "e \<notin> set row" using Cons.prems by (auto simp: row_ok_def)
    from row_insert_filter [OF this] Cons.IH [of "row_insert row e"] Cons.prems row_insert_ok [of row e]
    show ?case by (auto simp: row_ok_def)
  qed simp
  from this [of "[]"] show ?thesis using assms by (simp add: row_from_elems_def row_ok_def)
qed

lemma row_unique:
  assumes "row_ok xs" "row_ok ys" "set xs = set ys"
    and "\<And>k. filter (\<lambda>x. row_order x = k) xs = filter (\<lambda>x. row_order x = k) ys"
  shows "xs = ys"
proof -
  have eq: "(\<lambda>x. row_order k = row_order x) = (\<lambda>x. row_order x = row_order k)" for k
    by (auto simp: fun_eq_iff)
  have "mset ys = mset xs"
    using assms(1-3) set_eq_iff_mset_eq_distinct [of ys xs] by (simp add: row_ok_def)
  then have "sort_key row_order xs = ys"
    by (rule properties_for_sort_key) (use assms(2,4) in \<open>simp_all add: row_ok_def eq\<close>)
  moreover have "sort_key row_order xs = xs"
    by (rule properties_for_sort_key) (use assms(1) in \<open>simp_all add: row_ok_def\<close>)
  ultimately show ?thesis by simp
qed

lemma row_flat_map_single:
  assumes "\<And>e. e \<in> set row \<Longrightarrow> f e = [g e]"
  shows "row_flat_map f row = row_from_elems (map g row)"
proof -
  have "foldl (\<lambda>out e. row_extend out (f e)) out row = foldl row_insert out (map g row)" for out
    using assms by (induction row arbitrary: out) (auto simp: row_extend_def)
  then show ?thesis by (simp add: row_flat_map_def row_from_elems_def)
qed

section \<open>Replacing variables and substituting them back\<close>

lemma row_from_elems_single [simp]: "row_from_elems [x] = [x]"
  by (simp add: row_from_elems_def row_insert_def)

definition rep_elem :: "(ty_var \<rightharpoonup> nat) \<Rightarrow> (row_var \<rightharpoonup> nat) \<Rightarrow> row_elem \<Rightarrow> row_elem" where
  "rep_elem tm rm e =
     (case e of
        EVar v \<Rightarrow> (case rm v of Some i \<Rightarrow> EBound i | None \<Rightarrow> EVar v)
      | EOf t \<Rightarrow> EOf (replace_vars tm rm t)
      | ETag d args \<Rightarrow> ETag d (map (replace_vars tm rm) args)
      | EBound i \<Rightarrow> EBound i)"

definition sub_elem :: "ty list \<Rightarrow> row list \<Rightarrow> row_elem \<Rightarrow> row_elem" where
  "sub_elem tys rows e =
     (case e of
        EBound i \<Rightarrow> if i < length rows then hd (rows ! i) else e
      | EOf t \<Rightarrow> EOf (substitute tys rows t)
      | ETag d args \<Rightarrow> ETag d (map (substitute tys rows) args)
      | EVar v \<Rightarrow> e)"

lemma replace_row_map: "replace_row tm rm row = row_from_elems (map (rep_elem tm rm) row)"
  unfolding replace_row.simps
  by (rule row_flat_map_single)
    (auto simp: rep_elem_def row_var_def row_of_tag_def split: row_elem.splits option.splits)

lemma substitute_row_map:
  assumes "\<And>i. EBound i \<in> set row \<Longrightarrow> i < length rows \<Longrightarrow> \<exists>e. rows ! i = [e]"
  shows "substitute_row tys rows row = row_from_elems (map (sub_elem tys rows) row)"
  unfolding substitute_row.simps
proof (rule row_flat_map_single)
  fix e
  assume e: "e \<in> set row"
  show "(case e of EBound i \<Rightarrow> if i < length rows then rows ! i else row_from_elems [e]
      | EOf t \<Rightarrow> row_from_elems [EOf (substitute tys rows t)]
      | ETag d args \<Rightarrow> row_of_tag (d, map (\<lambda>a. substitute tys rows a) args)
      | _ \<Rightarrow> row_from_elems [e]) = [sub_elem tys rows e]"
  proof (cases e)
    case (EBound i)
    then show ?thesis using assms [of i] e by (cases "i < length rows") (auto simp: sub_elem_def)
  qed (simp_all add: sub_elem_def row_of_tag_def)
qed

lemma row_order_inject: "row_order x = row_order y \<Longrightarrow> fst (row_order x) \<in> {1, 3} \<Longrightarrow> x = y"
  by (cases x; cases y) auto

lemma row_order_class: "fst (row_order x) \<in> {0, 1, 2, 3}"
  by (cases x) auto

lemma singleton_list:
  assumes "distinct xs" "x \<in> set xs" "\<And>y. y \<in> set xs \<Longrightarrow> y = x"
  shows "xs = [x]"
proof -
  have set: "set xs = {x}" using assms(2,3) by blast
  then have "length xs = 1" using distinct_card [OF assms(1)] by simp
  then obtain y where "xs = [y]" by (auto simp: length_Suc_conv)
  then show ?thesis using set by simp
qed

lemma singleton_lists:
  assumes "distinct xs" "distinct ys" "set xs = set ys" "\<And>x y. x \<in> set xs \<Longrightarrow> y \<in> set xs \<Longrightarrow> x = y"
  shows "xs = ys"
proof (cases xs)
  case (Cons x zs)
  then have x: "x \<in> set xs" by simp
  have "xs = [x]" by (rule singleton_list [OF assms(1) x]) (use assms(4) x in blast)
  moreover have "ys = [x]" by (rule singleton_list [OF assms(2)]) (use assms(3,4) x in blast)+
  ultimately show ?thesis by simp
qed (use assms(3) in simp)

lemma round_trip_row:
  assumes row: "row_ok row" and inv: "\<And>e. e \<in> set row \<Longrightarrow> sub (rep e) = e"
    and key: "\<And>e k. e \<in> set row \<Longrightarrow> fst k \<in> {0, 2} \<Longrightarrow> row_order (rep e) = k \<longleftrightarrow> row_order e = k"
  shows "row_from_elems (map sub (row_from_elems (map rep row))) = row"
proof -
  let ?R = "row_from_elems (map rep row)"
  have inj: "inj_on rep (set row)" by (rule inj_on_inverseI [of _ sub]) (rule inv)
  then have d1: "distinct (map rep row)" using row by (simp add: row_ok_def distinct_map)
  have set1: "set ?R = rep ` set row" by simp
  have "inj_on sub (set ?R)" unfolding set1 by (rule inj_on_inverseI [of _ rep]) (use inv in auto)
  moreover have "distinct ?R" using row_from_elems_ok row_ok_def by blast
  ultimately have d2: "distinct (map sub ?R)" by (simp add: distinct_map)
  have set2: "set (map sub ?R) = set row" using inv by force
  show ?thesis
  proof (rule row_unique [OF row_from_elems_ok row])
    show "set (row_from_elems (map sub ?R)) = set row" using set2 by simp
    fix k
    let ?k = "\<lambda>x. row_order x = k"
    have f: "filter ?k (row_from_elems (map sub ?R)) = filter ?k (map sub ?R)"
      by (rule row_from_elems_filter [OF d2])
    show "filter ?k (row_from_elems (map sub ?R)) = filter ?k row"
    proof (cases "fst k \<in> {0, 2}")
      case True
      have "filter ?k (map sub ?R) = map sub (filter (\<lambda>x. row_order (sub x) = k) ?R)"
        by (simp add: filter_map comp_def)
      also have "filter (\<lambda>x. row_order (sub x) = k) ?R = filter ?k ?R"
      proof (rule filter_cong [OF refl])
        fix x
        assume "x \<in> set ?R"
        then obtain e where "e \<in> set row" "x = rep e" using set1 by blast
        then show "(row_order (sub x) = k) = (row_order x = k)" by (simp add: inv key [OF _ True])
      qed
      also have "filter ?k ?R = filter ?k (map rep row)" by (rule row_from_elems_filter [OF d1])
      also have "\<dots> = map rep (filter ?k row)"
        unfolding filter_map comp_def using key [OF _ True] by (auto cong: filter_cong)
      also have "map sub (map rep (filter ?k row)) = filter ?k row"
        using inv by (simp only: map_map, intro map_idI) simp
      finally show ?thesis using f by simp
    next
      case False
      show ?thesis unfolding f
      proof (rule singleton_lists)
        show "distinct (filter ?k (map sub ?R))" using d2 by simp
        show "distinct (filter ?k row)" using row by (simp add: row_ok_def)
        show "set (filter ?k (map sub ?R)) = set (filter ?k row)" using set2 by auto
        fix x y
        assume "x \<in> set (filter ?k (map sub ?R))" "y \<in> set (filter ?k (map sub ?R))"
        then have "row_order x = k" "row_order y = k" by auto
        then show "x = y" using row_order_inject [of x y] row_order_class [of x] False by auto
      qed
    qed
  qed
qed

text \<open>Arguments that put every variable back in its place and leave the first \<open>k\<close> parameters.\<close>

definition puts_back ::
    "nat \<Rightarrow> (ty_var \<rightharpoonup> nat) \<Rightarrow> (row_var \<rightharpoonup> nat) \<Rightarrow> ty list \<Rightarrow> row list \<Rightarrow> bool" where
  "puts_back k tm rm tys rows \<longleftrightarrow>
     k \<le> length tys \<and> k \<le> length rows \<and>
     (\<forall>i < k. tys ! i = TBound i \<and> rows ! i = [EBound i]) \<and>
     (\<forall>v i. tm v = Some i \<longrightarrow> i < length tys \<and> tys ! i = TVar v) \<and>
     (\<forall>v i. rm v = Some i \<longrightarrow> i < length rows \<and> rows ! i = [EVar v])"

lemma round_trip_elems:
  assumes pb: "puts_back k tm rm tys rows" and row: "row_ok row"
    and b: "\<Union> (elem_bounds ` set row) \<subseteq> {..<k}"
    and inv: "\<And>e. e \<in> set row \<Longrightarrow> sub_elem tys rows (rep_elem tm rm e) = e"
  shows "substitute_row tys rows (replace_row tm rm row) = row"
proof -
  have "\<exists>x. rows ! i = [x]" if h: "EBound i \<in> set (row_from_elems (map (rep_elem tm rm) row))" for i
  proof -
    obtain e where "e \<in> set row" "rep_elem tm rm e = EBound i" using h by auto
    then have "EBound i \<in> set row \<or> (\<exists>v. rm v = Some i)"
      by (cases e rule: row_elem.exhaust) (auto simp: rep_elem_def split: option.splits)
    then show ?thesis
    proof
      assume "EBound i \<in> set row"
      then have "i < k" using b by (force simp: UN_subset_iff)
      then show ?thesis using pb by (auto simp: puts_back_def)
    qed (use pb in \<open>auto simp: puts_back_def\<close>)
  qed
  then have "substitute_row tys rows (replace_row tm rm row) =
      row_from_elems (map (sub_elem tys rows) (row_from_elems (map (rep_elem tm rm) row)))"
    unfolding replace_row_map by (intro substitute_row_map) blast
  also have "\<dots> = row"
  proof (rule round_trip_row [OF row])
    show "sub_elem tys rows (rep_elem tm rm e) = e" if "e \<in> set row" for e by (rule inv [OF that])
    show "row_order (rep_elem tm rm e) = j \<longleftrightarrow> row_order e = j" if "fst j \<in> {0, 2}" for e j
      using that by (cases e) (auto simp: rep_elem_def split: option.splits)
  qed
  finally show ?thesis .
qed

lemma round_trip:
  assumes pb: "puts_back k tm rm tys rows"
  shows "ty_ok ty \<and> ty_bounds ty \<subseteq> {..<k} \<longrightarrow> substitute tys rows (replace_vars tm rm ty) = ty"
    and "elem_ok e \<and> elem_bounds e \<subseteq> {..<k} \<longrightarrow> sub_elem tys rows (rep_elem tm rm e) = e"
proof (induction ty and e)
  case (TFn ps r f u)
  show ?case
  proof
    assume a: "ty_ok (TFn ps r f u) \<and> ty_bounds (TFn ps r f u) \<subseteq> {..<k}"
    have "substitute_row tys rows (replace_row tm rm f) = f"
      by (rule round_trip_elems [OF pb]) (use a TFn.IH(3) in \<open>auto simp: list_all_iff UN_subset_iff\<close>)
    moreover have "substitute_row tys rows (replace_row tm rm u) = u"
      by (rule round_trip_elems [OF pb]) (use a TFn.IH(4) in \<open>auto simp: list_all_iff UN_subset_iff\<close>)
    moreover have "map (substitute tys rows \<circ> replace_vars tm rm) ps = ps"
      using a TFn.IH(1) by (intro map_idI) (auto simp: list_all_iff UN_subset_iff)
    moreover have "substitute tys rows (replace_vars tm rm r) = r" using a TFn.IH(2) by simp
    ultimately show "substitute tys rows (replace_vars tm rm (TFn ps r f u)) = TFn ps r f u"
      by (simp add: replace_vars.simps [of tm rm "TFn ps r f u"] substitute.simps [of tys rows "TFn _ _ _ _"])
  qed
next
  case (TSet j row)
  show ?case
  proof
    assume a: "ty_ok (TSet j row) \<and> ty_bounds (TSet j row) \<subseteq> {..<k}"
    have "substitute_row tys rows (replace_row tm rm row) = row"
      by (rule round_trip_elems [OF pb]) (use a TSet.IH in \<open>auto simp: list_all_iff UN_subset_iff\<close>)
    then show "substitute tys rows (replace_vars tm rm (TSet j row)) = TSet j row"
      by (simp add: replace_vars.simps [of tm rm "TSet j row"] substitute.simps [of tys rows "TSet _ _"])
  qed
next
  case (TVar v)
  show ?case using pb
    by (auto simp: replace_vars.simps [of tm rm "TVar v"] substitute.simps [of tys rows "TVar _"]
      substitute.simps [of tys rows "TBound _"] puts_back_def split: option.splits)
next
  case (TBound i)
  show ?case using pb
    by (auto simp: replace_vars.simps [of tm rm "TBound i"] substitute.simps [of tys rows "TBound _"] puts_back_def)
next
  case (EBound i)
  show ?case using pb by (auto simp: rep_elem_def sub_elem_def puts_back_def)
next
  case (EVar v)
  show ?case using pb by (auto simp: rep_elem_def sub_elem_def puts_back_def split: option.splits)
next
  case (ETag d ts)
  then show ?case by (auto simp: rep_elem_def sub_elem_def list_all_iff UN_subset_iff intro!: map_idI)
next
  case (EOf t)
  then show ?case by (auto simp: rep_elem_def sub_elem_def)
next
  case (TTuple ts)
  then show ?case
    by (auto simp: replace_vars.simps [of tm rm "TTuple ts"] substitute.simps [of tys rows "TTuple _"]
      list_all_iff UN_subset_iff intro!: map_idI)
next
  case (TNamed c ts)
  then show ?case
    by (auto simp: replace_vars.simps [of tm rm "TNamed c ts"] substitute.simps [of tys rows "TNamed _ _"]
      list_all_iff UN_subset_iff intro!: map_idI)
next
  case (TCap d ts)
  then show ?case
    by (auto simp: replace_vars.simps [of tm rm "TCap d ts"] substitute.simps [of tys rows "TCap _ _"]
      list_all_iff UN_subset_iff intro!: map_idI)
next
  case (TList t)
  then show ?case
    by (auto simp: replace_vars.simps [of tm rm "TList t"] substitute.simps [of tys rows "TList _"])
qed (auto simp: replace_vars.simps [of tm rm "TPrim _"] substitute.simps [of tys rows "TPrim _"]
  replace_vars.simps [of tm rm TNever] substitute.simps [of tys rows TNever]
  replace_vars.simps [of tm rm TError] substitute.simps [of tys rows TError])

section \<open>Resolved types have sorted sets\<close>

lemma row_flat_map_ok: "row_ok (row_flat_map f row)"
proof -
  have ext: "row_ok out \<Longrightarrow> row_ok (row_extend out other)" for out other
    unfolding row_extend_def by (induction other arbitrary: out) (auto intro: row_insert_ok)
  have "row_ok out \<Longrightarrow> row_ok (foldl (\<lambda>out e. row_extend out (f e)) out row)" for out
    by (induction row arbitrary: out) (auto intro: ext)
  then show ?thesis by (simp add: row_flat_map_def row_ok_def)
qed

lemma elem_map_tys_ok: "(\<And>t. t \<in> set (elem_tys e) \<Longrightarrow> ty_ok (f t)) \<Longrightarrow> elem_ok (elem_map_tys f e)"
  by (cases e) (auto simp: list_all_iff)

lemma resolve_elem_ok:
  assumes res: "resolve_elem rec cx e = Some row" and rec: "\<And>t r. rec t = Some r \<Longrightarrow> ty_ok r"
    and x: "x \<in> set row"
  shows "elem_ok x"
proof (cases e)
  case (ETag d args)
  then obtain ts where "map_opt rec args = Some ts" "x = ETag d ts"
    using res x by (auto simp: resolve_elem_def row_of_tag_def split: option.splits)
  then show ?thesis using rec by (auto simp: map_opt_def list_all_iff split: if_splits)
next
  case (EOf t)
  then show ?thesis
    using res x by (auto simp: resolve_elem_def row_tag_def split: option.splits ty.splits)
next
  case (EVar v)
  show ?thesis
  proof (cases "ic_row_solution cx")
    case None
    then show ?thesis using res x EVar by (auto simp: resolve_elem_def row_var_def)
  next
    case (Some sol)
    define src where "src = (case sol v of Some row \<Rightarrow> row | None \<Rightarrow> [])"
    have "row_map_tys_opt rec src = Some row" using res EVar Some by (simp add: resolve_elem_def src_def)
    then have all: "\<forall>t\<in>set (row_tys src). rec t \<noteq> None" and row: "row = row_map_tys (the \<circ> rec) src"
      by (auto simp: row_map_tys_opt_def list_all_iff split: if_splits)
    obtain y where y: "y \<in> set src" "x = elem_map_tys (the \<circ> rec) y" using x row by auto
    show ?thesis unfolding y(2)
    proof (rule elem_map_tys_ok)
      fix t assume "t \<in> set (elem_tys y)"
      then have "rec t \<noteq> None" using all y(1) by (force simp: row_tys_def)
      then show "ty_ok ((the \<circ> rec) t)" using rec by auto
    qed
  qed
next
  case (EBound i)
  then show ?thesis using res x by (auto simp: resolve_elem_def)
qed

lemma resolve_row_ok:
  assumes "row_flat_map_opt (resolve_elem rec cx) row = Some row'" "\<And>t r. rec t = Some r \<Longrightarrow> ty_ok r"
  shows "row_ok row' \<and> (\<forall>x\<in>set row'. elem_ok x)"
proof -
  have all: "\<forall>e\<in>set row. resolve_elem rec cx e \<noteq> None"
    and row': "row' = row_flat_map (the \<circ> resolve_elem rec cx) row"
    using assms(1) by (auto simp: row_flat_map_opt_def list_all_iff split: if_splits)
  have "elem_ok x" if x: "x \<in> set row'" for x
  proof -
    obtain e where e: "e \<in> set row" "x \<in> set (the (resolve_elem rec cx e))" using x row' by auto
    then obtain r where "resolve_elem rec cx e = Some r" using all by blast
    then show ?thesis using resolve_elem_ok [OF _ assms(2)] e(2) by simp
  qed
  then show ?thesis using row' row_flat_map_ok by simp
qed

lemma resolve_ty_ok: "resolve U n cx ty = Some r \<Longrightarrow> ty_ok r"
proof (induction n arbitrary: ty r)
  case (Suc n)
  from Suc.prems obtain t where t: "shallow_resolve U (Suc n) cx ty = Some t"
    by (auto simp del: shallow_resolve.simps split: option.splits)
  have ms: "list_all ty_ok rs" if "map_opt (resolve U n cx) ts = Some rs" for ts rs
    using that Suc.IH by (auto simp: map_opt_def list_all_iff split: if_splits)
  have kids: "ty_ok q" if "ty_map_children_opt (resolve U n cx) t = Some q" "\<not> is_var t"
    "\<And>ps r f u. t \<noteq> TFn ps r f u" "\<And>k row. t \<noteq> TSet k row" for q
    using that Suc.IH by (cases t) (auto simp: ty_map_children_opt_def list_all_iff split: if_splits)
  have rows: "row_ok row' \<and> (\<forall>x\<in>set row'. elem_ok x)"
    if "row_flat_map_opt (resolve_elem (resolve U n cx) cx) row = Some row'" for row row'
    using resolve_row_ok [OF that Suc.IH] .
  show ?case
  proof (cases t)
    case (TFn ps q f u)
    then show ?thesis
      using Suc.prems t ms rows Suc.IH
      by (auto simp del: shallow_resolve.simps simp: list_all_iff split: option.splits)
  next
    case (TSet k row)
    then show ?thesis
      using Suc.prems t rows
      by (auto simp del: shallow_resolve.simps simp: list_all_iff split: option.splits)
  next
    case (TVar v)
    then show ?thesis
      using Suc.prems t by (auto simp del: shallow_resolve.simps simp: ty_map_children_opt_def)
  qed (use Suc.prems t kids in \<open>auto simp del: shallow_resolve.simps ty_map_children.simps\<close>)
qed simp

section \<open>The parameters of a scheme\<close>

lemma gen_ty_vars_params:
  assumes "gen_ty_vars env vs tys params i = Some (tys', params')" "length params' \<le> 2 ^ 32"
  shows "\<exists>ps. params' = params @ ps"
    and "(v, j) \<in> set tys' \<Longrightarrow> (v, j) \<in> set tys \<or> length params \<le> j \<and> j < length params'"
    and "length params' + length tys = length params + length tys'"
proof -
  have "(\<exists>ps. params' = params @ ps) \<and>
      ((v, j) \<in> set tys' \<longrightarrow> (v, j) \<in> set tys \<or> length params \<le> j \<and> j < length params') \<and>
      length params' + length tys = length params + length tys'"
    using assms
  proof (induction env vs tys params i rule: gen_ty_vars.induct)
    case (2 env w vs tys params i)
    show ?case
    proof (cases "w \<in> set env")
      case True
      then show ?thesis using 2 by simp
    next
      case False
      then obtain name i' where p: "pick_name (Suc (length params)) param_name params i = Some (name, i')"
        and g: "gen_ty_vars env vs (tys @ [(w, length params mod 2 ^ 32)]) (params @ [ty_param_new name]) i' =
          Some (tys', params')"
        using "2.prems"(1) by (auto simp del: pick_name.simps split: option.splits)
      note ih = "2.IH"(2) [OF False p refl g "2.prems"(2)]
      then have "length params < 2 ^ 32" using "2.prems"(2) by auto
      then show ?thesis using ih by auto
    qed
  qed simp
  then show "\<exists>ps. params' = params @ ps"
    and "(v, j) \<in> set tys' \<Longrightarrow> (v, j) \<in> set tys \<or> length params \<le> j \<and> j < length params'"
    and "length params' + length tys = length params + length tys'" by auto
qed

lemma gen_row_vars_params:
  assumes "gen_row_vars imm vs rows params i j = Some (rows', params')" "length params' \<le> 2 ^ 32"
  shows "\<exists>ps. params' = params @ ps"
    and "(v, l) \<in> set rows' \<Longrightarrow> (v, l) \<in> set rows \<or> length params \<le> l \<and> l < length params'"
    and "length params' + length rows = length params + length rows'"
proof -
  have "(\<exists>ps. params' = params @ ps) \<and>
      ((v, l) \<in> set rows' \<longrightarrow> (v, l) \<in> set rows \<or> length params \<le> l \<and> l < length params') \<and>
      length params' + length rows = length params + length rows'"
    using assms
  proof (induction vs arbitrary: rows params i j)
    case (Cons vk vs)
    obtain w k where [simp]: "vk = (w, k)" by (cases vk)
    from Cons.prems(1) obtain p i' j' where
      g: "gen_row_vars imm vs (rows @ [(w, length params mod 2 ^ 32)]) (params @ [p]) i' j' = Some (rows', params')"
      by (auto simp del: pick_name.simps simp: Let_def split: option.splits)
    note ih = Cons.IH [OF g Cons.prems(2)]
    then have "length params < 2 ^ 32" using Cons.prems(2) by auto
    then show ?case using ih by auto
  qed simp
  then show "\<exists>ps. params' = params @ ps"
    and "(v, l) \<in> set rows' \<Longrightarrow> (v, l) \<in> set rows \<or> length params \<le> l \<and> l < length params'"
    and "length params' + length rows = length params + length rows'" by auto
qed

text \<open>Names: the candidates differ, so one of them is free.\<close>

lemma param_name_inj: "inj param_name"
proof (rule injI)
  fix i j
  assume eq: "param_name i = param_name j"
  have len: "length (param_name k) = 1 \<longleftrightarrow> k < 26" for k
    using show_nat_not_Nil [of k] by (simp add: param_name_def)
  show "i = j"
  proof (cases "i < 26")
    case True
    then have j: "j < 26" using len eq by metis
    have b: "byte (CHR ''A'') = 65" by (simp add: byte_def)
    have "byte (char_of (65 + i)) = byte (char_of (65 + j))"
      using eq True j by (simp add: param_name_def b)
    then show ?thesis using True j by (simp add: byte_char_of)
  next
    case False
    then have "\<not> j < 26" using len eq by metis
    then show ?thesis using eq False by (simp add: param_name_def show_nat_inject)
  qed
qed

lemma set_param_name_inj: "inj (set_param_name pre)"
  by (rule injI) (auto simp: set_param_name_def show_nat_inject split: if_splits)

lemma pick_name_None:
  "pick_name n name params i = None \<Longrightarrow> j < n \<Longrightarrow> name (i + j) \<in> tp_name ` set params"
proof (induction n arbitrary: i j)
  case (Suc n)
  then obtain p where "p \<in> set params" "tp_name p = name i" "pick_name n name params (i + 1) = None"
    by (auto simp: list_ex_iff split: if_splits)
  then have taken: "name i \<in> tp_name ` set params" "pick_name n name params (i + 1) = None"
    by (metis image_eqI)+
  show ?case
  proof (cases j)
    case (Suc k)
    then show ?thesis using Suc.IH [OF taken(2), of k] Suc.prems(2) by simp
  qed (use taken in simp)
qed simp

lemma pick_name_total:
  assumes "inj name"
  shows "\<exists>s i'. pick_name (Suc (length params)) name params i = Some (s, i')"
proof (rule ccontr)
  assume "\<nexists>s i'. pick_name (Suc (length params)) name params i = Some (s, i')"
  then have "pick_name (Suc (length params)) name params i = None"
    by (cases "pick_name (Suc (length params)) name params i") auto
  from pick_name_None [OF this] have "(\<lambda>j. name (i + j)) ` {..<Suc (length params)} \<subseteq> tp_name ` set params"
    by auto
  then have "card ((\<lambda>j. name (i + j)) ` {..<Suc (length params)}) \<le> card (tp_name ` set params)"
    by (intro card_mono) simp_all
  also have "\<dots> \<le> card (set params)" by (rule card_image_le) simp
  also have "\<dots> \<le> length params" by (rule card_length)
  also have "card ((\<lambda>j. name (i + j)) ` {..<Suc (length params)}) = Suc (length params)"
    by (subst card_image) (auto intro!: inj_onI dest!: injD [OF assms])
  finally show False by simp
qed

lemma pick_name_free:
  "pick_name n name params i = Some (s, i') \<Longrightarrow> s \<notin> tp_name ` set params"
  by (induction n arbitrary: i) (auto simp: list_ex_iff split: if_splits)

lemma gen_ty_vars_names:
  "gen_ty_vars env vs tys params i = Some (tys', params') \<Longrightarrow> distinct (map tp_name params) \<Longrightarrow>
   distinct (map tp_name params')"
proof (induction env vs tys params i rule: gen_ty_vars.induct)
  case (2 env w vs tys params i)
  then show ?case
    by (auto simp del: pick_name.simps simp: ty_param_new_def split: if_splits option.splits
      dest: pick_name_free)
qed simp

lemma gen_row_vars_names:
  "gen_row_vars imm vs rows params i j = Some (rows', params') \<Longrightarrow> distinct (map tp_name params) \<Longrightarrow>
   distinct (map tp_name params')"
proof (induction vs arbitrary: rows params i j)
  case (Cons vk vs)
  obtain w k where [simp]: "vk = (w, k)" by (cases vk)
  from Cons.prems(1) obtain name nxt where
    n: "pick_name (Suc (length params)) (set_param_name (if k = Errors then ''E'' else ''R'')) params
          (if k = Errors then i else j) = Some (name, nxt)"
    by (auto simp del: pick_name.simps split: option.splits)
  define p where "p = (if w \<in> imm then (ty_param_set name)\<lparr>tp_bounds := [IMMEDIATE]\<rparr> else ty_param_set name)"
  have name: "tp_name p = name" by (simp add: p_def ty_param_set_def ty_param_new_def)
  have g: "gen_row_vars imm vs (rows @ [(w, length params mod 2 ^ 32)]) (params @ [p])
      (if k = Errors then nxt else i) (if k = Errors then j else nxt) = Some (rows', params')"
    using Cons.prems(1) n
    by (cases "k = Errors"; cases "w \<in> imm")
      (simp_all del: pick_name.simps add: Let_def p_def ty_param_set_def ty_param_new_def)
  show ?case by (rule Cons.IH [OF g]) (use Cons.prems(2) name pick_name_free [OF n] in auto)
qed simp

lemma gen_ty_vars_total: "\<exists>tys' params'. gen_ty_vars env vs tys params i = Some (tys', params')"
proof (induction vs arbitrary: tys params i)
  case (Cons v vs)
  obtain s i' where "pick_name (Suc (length params)) param_name params i = Some (s, i')"
    using pick_name_total [OF param_name_inj] by blast
  then show ?case using Cons.IH by (simp del: pick_name.simps)
qed simp

lemma gen_row_vars_total: "\<exists>rows' params'. gen_row_vars imm vs rows params i j = Some (rows', params')"
proof (induction vs arbitrary: rows params i j)
  case (Cons vk vs)
  obtain w k where [simp]: "vk = (w, k)" by (cases vk)
  obtain s n where "pick_name (Suc (length params)) (set_param_name (if k = Errors then ''E'' else ''R''))
      params (if k = Errors then i else j) = Some (s, n)"
    using pick_name_total [OF set_param_name_inj] by blast
  then show ?case using Cons.IH by (simp del: pick_name.simps add: Let_def)
qed simp

lemma generalize_bounded_Some:
  assumes "generalize_bounded U n cx ty existing env_vars imm = Some (sc, rows, tys)"
  obtains env vs al params ty' where "gen_ty_vars env vs [] existing 0 = Some (al, params)"
    "resolve U n cx ty = Some ty'"
    "gen_row_vars imm (free_row_vars ty') [] params 0 0 = Some (rows, sc_params sc)"
    "sc_ty sc = replace_vars (map_of al) (map_of rows) ty'" "tys = sort_key snd al"
  using assms by (auto simp: generalize_bounded_def split: option.splits)

text \<open>What a substitution leaves of the variables and the parameters of a type.\<close>

definition subst_elem :: "ty list \<Rightarrow> row list \<Rightarrow> row_elem \<Rightarrow> row" where
  "subst_elem tys rows e =
     (case e of
        EBound i \<Rightarrow> if i < length rows then rows ! i else [e]
      | EOf t \<Rightarrow> [EOf (substitute tys rows t)]
      | ETag d args \<Rightarrow> [ETag d (map (substitute tys rows) args)]
      | EVar v \<Rightarrow> [e])"

lemma set_substitute_row:
  "set (substitute_row tys rows row) = (\<Union>e\<in>set row. set (subst_elem tys rows e))"
proof -
  have "substitute_row tys rows row = row_flat_map (subst_elem tys rows) row"
    unfolding substitute_row.simps
    by (rule row_flat_map_cong [OF refl])
      (auto simp: subst_elem_def row_of_tag_def split: row_elem.splits)
  then show ?thesis by simp
qed

lemma substitute_fresh:
  assumes tys: "\<forall>t\<in>set tys. ty_vars t \<subseteq> V \<and> ty_bounds t = {}"
    and rows: "\<forall>row\<in>set rows. row_ty_vars row = {} \<and> (\<forall>e\<in>set row. elem_bounds e = {})"
    and k: "length tys = k" "length rows = k"
  shows "ty_vars ty = {} \<and> ty_bounds ty \<subseteq> {..<k} \<longrightarrow>
      ty_vars (substitute tys rows ty) \<subseteq> V \<and> ty_bounds (substitute tys rows ty) = {}"
    and "elem_vars e = {} \<and> elem_bounds e \<subseteq> {..<k} \<longrightarrow>
      (\<forall>x\<in>set (subst_elem tys rows e). elem_vars x \<subseteq> V \<and> elem_bounds x = {})"
proof (induction ty and e)
  case (TBound i)
  show ?case using tys k by (auto simp: substitute.simps [of tys rows "TBound i"])
next
  case (TFn ps r f u)
  then show ?case
    by (simp add: substitute.simps [of tys rows "TFn ps r f u"] set_substitute_row UN_subset_iff)
next
  case (TSet j row)
  then show ?case
    by (simp add: substitute.simps [of tys rows "TSet j row"] set_substitute_row UN_subset_iff)
next
  case (TTuple ts)
  then show ?case by (auto simp: substitute.simps [of tys rows "TTuple ts"] UN_subset_iff)
next
  case (TNamed c ts)
  then show ?case by (auto simp: substitute.simps [of tys rows "TNamed c ts"] UN_subset_iff)
next
  case (TCap d ts)
  then show ?case by (auto simp: substitute.simps [of tys rows "TCap d ts"] UN_subset_iff)
next
  case (TList t)
  then show ?case by (simp add: substitute.simps [of tys rows "TList t"])
next
  case (EBound i)
  show ?case using rows k by (fastforce simp: subst_elem_def row_ty_vars_def)
next
  case (ETag d ts)
  then show ?case by (auto simp: subst_elem_def UN_subset_iff)
qed (simp_all add: subst_elem_def substitute.simps [of tys rows "TPrim _"]
  substitute.simps [of tys rows TNever] substitute.simps [of tys rows TError])

lemma fresh_args_step:
  assumes "fresh_args U (p # ps) cx = ((tys, rows), cx')"
  obtains v cx1 cx2 row tys' rows' where "fresh_var U cx = (v, cx1)" "ic_table cx2 = ic_table cx1"
    "ic_int_vars cx2 = ic_int_vars cx1" "fresh_args U ps cx2 = ((tys', rows'), cx')"
    "tys = TVar v # tys'" "rows = row # rows'" "row_ty_vars row = {}"
    "\<forall>e\<in>set row. elem_bounds e = {}"
proof -
  obtain v cx1 where v: "fresh_var U cx = (v, cx1)" by (cases "fresh_var U cx")
  show thesis
  proof (cases "tp_kind p")
    case KType
    obtain tys' rows' cx3 where r: "fresh_args U ps cx1 = ((tys', rows'), cx3)"
      by (metis surj_pair)
    show thesis
      by (rule that [of v cx1 cx1 tys' rows' "[]"])
        (use assms v r KType in \<open>auto simp: new_var_def row_ty_vars_def\<close>)
  next
    case KSet
    obtain w cx2 where w: "new_row_var cx1 = (w, cx2)" by (cases "new_row_var cx1")
    obtain tys' rows' cx3 where r: "fresh_args U ps cx2 = ((tys', rows'), cx3)"
      by (metis surj_pair)
    have "ic_table cx2 = ic_table cx1" "ic_int_vars cx2 = ic_int_vars cx1"
      using w by (auto simp: new_row_var_def)
    then show thesis
      by (rule that [of v cx1 cx2 tys' rows' "row_var w", OF v])
        (use assms v w r KSet in \<open>auto simp: new_var_def row_ty_vars_def row_var_def\<close>)
  qed
qed

context ena_laws
begin

lemma fresh_args_ok:
  assumes "ctx_ok U ok cx" "fresh_args U ps cx = ((tys, rows), cx')"
  shows "ctx_ok U ok cx' \<and> en_len U (ic_table cx) \<le> en_len U (ic_table cx') \<and>
    length tys = length ps \<and> length rows = length ps \<and>
    (\<forall>t\<in>set tys. \<exists>v. t = TVar v \<and> en_len U (ic_table cx) \<le> v \<and> v < en_len U (ic_table cx')) \<and>
    distinct tys \<and> (\<forall>row\<in>set rows. row_ty_vars row = {} \<and> (\<forall>e\<in>set row. elem_bounds e = {}))"
  using assms
proof (induction ps arbitrary: cx tys rows)
  case (Cons p ps)
  obtain v cx1 cx2 row tys' rows' where f: "fresh_var U cx = (v, cx1)" "ic_table cx2 = ic_table cx1"
    "ic_int_vars cx2 = ic_int_vars cx1" "fresh_args U ps cx2 = ((tys', rows'), cx')"
    "tys = TVar v # tys'" "rows = row # rows'" "row_ty_vars row = {}"
    "\<forall>e\<in>set row. elem_bounds e = {}"
    using Cons.prems(2) by (rule fresh_args_step)
  obtain t' where "en_new_key U (ic_table cx) None = (v, t')" "ic_table cx1 = t'"
    using f(1) by (auto simp: fresh_var_def split: prod.splits)
  then have v: "v = en_len U (ic_table cx)" "en_len U (ic_table cx1) = Suc (en_len U (ic_table cx))"
    using new_key [of "ic_table cx" None v t'] Cons.prems(1) by (auto simp: ctx_ok_def table_ok_def)
  have "ctx_ok U ok cx2"
    using fresh_var_ok(1) [OF Cons.prems(1) f(1)] ctx_ok_cong [OF f(2,3)] by simp
  from Cons.IH [OF this f(4)] show ?case using v f(2,5,6,7,8) by fastforce
qed simp

end

text \<open>A scheme for the witnesses: the type of a function from a list of some type to it, which may fail.\<close>

definition list_ty :: ty where
  "list_ty = TFn [TList (TVar 0)] (TVar 0) [EVar 3] []"

definition list_scheme :: scheme where
  "list_scheme = \<lparr>sc_params = [ty_param_new ''A'', ty_param_set ''E''],
     sc_ty = TFn [TList (TBound 0)] (TBound 0) [EBound 1] []\<rparr>"

lemma list_resolve: "resolve rep_ena 4 fn_ctx list_ty = Some list_ty"
  by (simp add: list_ty_def fn_ctx_def run_defs eval_nat_numeral map_opt_def row_flat_map_opt_def
    row_flat_map_def resolve_elem_def row_extend_def row_insert_def row_var_def)

lemma list_generalize:
  "generalize_bounded rep_ena 4 fn_ctx list_ty [] [] {} = Some (list_scheme, [(3, 1)], [(0, 0)])"
proof -
  have free: "free_vars rep_ena 4 fn_ctx list_ty = Some [0]"
    by (simp add: free_vars_def list_ty_def fn_ctx_def run_defs eval_nat_numeral row_tys_def)
  have rows: "free_row_vars list_ty = [(3, Errors)]"
    by (simp add: free_row_vars_def list_ty_def collect_row_vars.simps [of "TFn _ _ _ _"]
      collect_row_vars.simps [of "TList _"] collect_row_vars.simps [of "TVar _"] add_row_vars_def
      row_vars_def map_filter_def row_tys_def)
  have names: "param_name 0 = ''A''" "set_param_name ''E'' 0 = ''E''"
    unfolding param_name_def set_param_name_def byte_def by (simp_all only: add_0_right char_of_char) simp_all
  have repl: "replace_vars (map_of [(0, 0)]) (map_of [(3, 1)]) list_ty = sc_ty list_scheme"
    by (simp add: list_ty_def list_scheme_def replace_vars.simps [of _ _ "TFn _ _ _ _"]
      replace_vars.simps [of _ _ "TList _"] replace_vars.simps [of _ _ "TVar _"] replace_row_map
      rep_elem_def row_from_elems_def row_insert_def)
  have g: "gen_ty_vars [] [0] [] [] 0 = Some ([(0, 0)], [ty_param_new ''A''])"
    by (simp add: names)
  have r: "gen_row_vars {} [(3, Errors)] [] [ty_param_new ''A''] 0 0 =
      Some ([(3, 1)], [ty_param_new ''A'', ty_param_set ''E''])"
    by (simp add: names ty_param_new_def)
  show ?thesis
    unfolding generalize_bounded_def fold_opt.simps option.case free list_resolve g prod.case rows r repl
    by (simp add: list_scheme_def)
qed

section \<open>Properties\<close>

text \<open>
  C19: Generalizing a type and instantiating the scheme with the variables it quantified gives the
  resolved type back, sets included: every variable goes to a parameter of its own and no two are
  confused. The names of the parameters differ, and there is one parameter for each variable besides
  the existing ones.
\<close>

theorem generalize_round_trip:
  assumes gen: "generalize_bounded U n cx ty existing env_vars imm = Some (sc, rows, tys)"
    and len: "length (sc_params sc) \<le> 2 ^ 32"
    and res: "resolve U n cx ty = Some ty'" and bounds: "ty_bounds ty' \<subseteq> {..<length existing}"
    and targs: "length targs = length (sc_params sc)" "length rargs = length (sc_params sc)"
    and old: "\<forall>i<length existing. targs ! i = TBound i \<and> rargs ! i = [EBound i]"
    and new: "\<forall>(v, i)\<in>set tys. targs ! i = TVar v" "\<forall>(v, i)\<in>set rows. rargs ! i = [EVar v]"
  shows "substitute targs rargs (sc_ty sc) = ty' \<and>
    (distinct (map tp_name existing) \<longrightarrow> distinct (map tp_name (sc_params sc))) \<and>
    length (sc_params sc) = length existing + length tys + length rows"
proof -
  obtain env vs al params where g: "gen_ty_vars env vs [] existing 0 = Some (al, params)"
    and r: "gen_row_vars imm (free_row_vars ty') [] params 0 0 = Some (rows, sc_params sc)"
    and sc: "sc_ty sc = replace_vars (map_of al) (map_of rows) ty'" and tys: "tys = sort_key snd al"
    using gen res by (auto elim!: generalize_bounded_Some)
  obtain ps where ps: "sc_params sc = params @ ps" using gen_row_vars_params(1) [OF r len] by blast
  then have len': "length params \<le> 2 ^ 32" using len by simp
  obtain qs where qs: "params = existing @ qs" using gen_ty_vars_params(1) [OF g len'] by blast
  have "puts_back (length existing) (map_of al) (map_of rows) targs rargs"
    unfolding puts_back_def
  proof (intro conjI allI impI)
    fix v i
    assume "map_of al v = Some i"
    then have "(v, i) \<in> set al" by (rule map_of_SomeD)
    then show "i < length targs" "targs ! i = TVar v"
      using gen_ty_vars_params(2) [OF g len', of v i] new(1) targs ps by (auto simp: tys)
  next
    fix v i
    assume "map_of rows v = Some i"
    then have "(v, i) \<in> set rows" by (rule map_of_SomeD)
    then show "i < length rargs" "rargs ! i = [EVar v]"
      using gen_row_vars_params(2) [OF r len, of v i] new(2) targs by auto
  qed (use old targs ps qs in auto)
  from round_trip(1) [OF this] have "substitute targs rargs (sc_ty sc) = ty'"
    using resolve_ty_ok [OF res] bounds sc by simp
  moreover have "distinct (map tp_name (sc_params sc))" if "distinct (map tp_name existing)"
    using gen_row_vars_names [OF r gen_ty_vars_names [OF g that]] .
  moreover have "length (sc_params sc) = length existing + length tys + length rows"
    using gen_ty_vars_params(3) [OF g len'] gen_row_vars_params(3) [OF r len] by (simp add: tys)
  ultimately show ?thesis by blast
qed

theorem generalize_round_trip_witness:
  "generalize_bounded rep_ena 4 fn_ctx list_ty [] [] {} = Some (list_scheme, [(3, 1)], [(0, 0)]) \<and>
   substitute [TVar 0, TVar 9] [[], [EVar 3]] (sc_ty list_scheme) = list_ty"
  using generalize_round_trip [OF list_generalize _ list_resolve, of "[TVar 0, TVar 9]" "[[], [EVar 3]]"]
    list_generalize
  by (simp add: list_scheme_def list_ty_def)

text \<open>
  An instance of a closed scheme is fresh: its type variables are new to the context, one for each
  parameter and all different, no parameter is left in it, and the context keeps its invariant.
\<close>

theorem instantiate_fresh:
  assumes "ena_laws U ok" and "ctx_ok U ok cx"
    and "ty_vars (sc_ty sc) = {}" and "ty_bounds (sc_ty sc) \<subseteq> {..<length (sc_params sc)}"
    and "instantiate_with_args U sc cx = ((ty, tys), cx')"
  shows "ctx_ok U ok cx' \<and>
    ty_vars ty \<subseteq> {en_len U (ic_table cx)..<en_len U (ic_table cx')} \<and> ty_bounds ty = {} \<and>
    length tys = length (sc_params sc) \<and> distinct tys"
proof -
  obtain rows where f: "fresh_args U (sc_params sc) cx = ((tys, rows), cx')"
    and ty: "ty = substitute tys rows (sc_ty sc)"
    using assms(5) by (auto simp: instantiate_with_args_def split: prod.splits)
  note fa = ena_laws.fresh_args_ok [OF assms(1,2) f]
  have "ty_vars ty \<subseteq> {en_len U (ic_table cx)..<en_len U (ic_table cx')} \<and> ty_bounds ty = {}"
    using substitute_fresh(1) [of tys "{en_len U (ic_table cx)..<en_len U (ic_table cx')}" rows
        "length (sc_params sc)" "sc_ty sc"] fa assms(3,4) ty by fastforce
  then show ?thesis using fa by blast
qed

theorem instantiate_fresh_witness:
  "\<exists>ty tys cx'. instantiate_with_args rep_ena list_scheme fn_ctx = ((ty, tys), cx') \<and> ty_bounds ty = {} \<and>
     ctx_ok rep_ena rep_ok cx' \<and> length tys = 2"
proof -
  obtain ty tys cx' where i: "instantiate_with_args rep_ena list_scheme fn_ctx = ((ty, tys), cx')"
    by (metis surj_pair)
  from instantiate_fresh [OF rep.ena_laws_axioms fn_ctx_ok _ _ i] have
    "ty_bounds ty = {} \<and> ctx_ok rep_ena rep_ok cx' \<and> length tys = 2"
    by (simp add: list_scheme_def)
  with i show ?thesis by blast
qed

end
