(* ===== verification/Spec2Isabelle.thy ===== *)
theory Spec2Isabelle
  imports Emela_Prelude Pome_Version Pome_Source_Path Pome_Mvs Pome_Hash Pome_Lock Core_Types Sumdb_Tlog
    Types_Exhaustiveness Emela_Utf8 Sumdb_Note Sumdb_Record Sumdb_Client Fetch_World Fetch_Sources Pome_Config Pome_Manifest
    Pome_Fetch Lir_Live Lir_Suspend Lir_Rc_Check Lir_Rc_Module Types_Scheme
begin

text \<open>
  A verification library for the Emela compiler and its package manager, the Rust workspace under
  \<open>crates/\<close>. Emela is a functional language with typed errors and effects that compiles to
  JavaScript, WebAssembly and C. A program goes through the crates \<open>emela-syntax\<close>,
  \<open>emela-resolve\<close>, \<open>emela-types\<close>, \<open>emela-core\<close> and \<open>emela-lir\<close> to a code generator;
  \<open>emela-pome\<close> resolves and fetches its dependencies, the Pomes, and \<open>emela-driver\<close> runs the
  passes. The library models the parts whose answers the others trust.

  \<^bold>\<open>How code becomes definitions.\<close> A struct is a \<open>record\<close>, an enum a \<open>datatype\<close>, a map a
  partial function or the list of its entries. A string is the list of its UTF-8 bytes. A panic is \<open>None\<close>, an error
  \<open>Inl\<close>. A loop is a recursive function; where it can run forever it is a partial function or takes fuel, and
  a theorem says that it returns. Third-party code (SHA-256, base64, Ed25519, TOML, JSON, tar) and the outside (network, git,
  file system) are arguments, with what is documented of them as named hypotheses.

  \<^bold>\<open>The prelude.\<close> \<open>Emela_Prelude\<close> has what the sources use of Rust's standard library (strings,
  decimal numbers, orderings, stable sorting) with the locale \<open>total_cmp\<close> of a total comparison, which the
  comparisons of versions, paths and locks interpret. \<open>Emela_Utf8\<close> has UTF-8 decoding and trimming.

  \<^bold>\<open>Names and versions\<close> (\<open>emela-pome/src/version.rs\<close>, \<open>source_path.rs\<close>, \<open>mvs.rs\<close>).
  \<open>Pome_Version\<close>: parsing accepts exactly the canonical tags, and the precedence is a total order.
  \<open>Pome_Source_Path\<close>: a path is recomposed from its parts, majors are apart, escaping is injective even on a file
  system that ignores case. \<open>Pome_Mvs\<close>: minimal version selection returns on every finite graph, and its result is the unique
  selection of the largest version required, whatever the order.

  \<^bold>\<open>Trees, locks and manifests\<close> (\<open>hash.rs\<close>, \<open>lock.rs\<close>, \<open>manifest.rs\<close>). \<open>Pome_Hash\<close>: a
  content hash stands for one tree. \<open>Pome_Lock\<close>: a lock that is read is sorted without duplicates, and locks round-trip.
  \<open>Pome_Manifest\<close>: what is read is well-formed, and everything well-formed can be read.

  \<^bold>\<open>The checksum database\<close> (\<open>sumdb/tlog.rs\<close>, \<open>note.rs\<close>, \<open>record.rs\<close>,
  \<open>fetch/sumdb.rs\<close>). \<open>Sumdb_Tlog\<close>: the Merkle tree of RFC 6962 read through tiles; proofs never panic, honest logs
  are accepted, an accepted inclusion proof is true, and an accepted consistency proof is true below 256 leaves and need not
  be from there on. \<open>Sumdb_Note\<close> and \<open>Sumdb_Record\<close>: signed notes, checkpoints, records and lookups.
  \<open>Sumdb_Client\<close>: an accepted record is in the log that the key signs, and the kept checkpoint only grows.

  \<^bold>\<open>Fetching\<close> (\<open>fetch/transport.rs\<close>, \<open>cache.rs\<close>, \<open>archive.rs\<close>, \<open>direct.rs\<close>,
  \<open>config.rs\<close>, \<open>mod.rs\<close>). \<open>Fetch_World\<close>: the cache and the clock as a state, operations as actions on
  it, and an environment that may answer differently at every tick; the locale \<open>world_order\<close> is what an action keeps of the world. \<open>Fetch_Sources\<close>: the
  limits of an archive and the exact reading of a repository. \<open>Pome_Config\<close>: the environment variables; private prefixes match whole elements.
  \<open>Pome_Fetch\<close>: every operation of the fetcher. The locale \<open>fetch_order\<close> carries a relation of worlds from the three writes
  to all operations; it is interpreted by \<open>dirs_stay\<close> and by the growth of the checkpoint. Two downloads
  that are checked against one honest log agree, what \<open>ensure\<close> puts into the cache has the hash in the lock, and a private Pome
  does not depend on the network.

  \<^bold>\<open>The exhaustiveness checker\<close> (\<open>emela-types/src/exhaustiveness.rs\<close>), \<open>Types_Exhaustiveness\<close>: its answers are
  exact with respect to the values of the types, and every example it reports is a value that is missed.

  \<^bold>\<open>Unification\<close> (\<open>emela-types/src/ty.rs\<close>, \<open>row.rs\<close>, \<open>scheme.rs\<close>, \<open>error.rs\<close>,
  \<open>infer.rs\<close>). \<open>Types_Ty\<close> has types, sets and schemes, \<open>Types_Infer\<close> the state \<open>InferCtx\<close> and its operations. The union-find
  table is that of the crate \<open>ena\<close>, an argument of the operations; its documented laws are the locale \<open>ena_laws\<close> of \<open>Types_Table\<close>,
  which also has the meaning of a state: the substitutions that agree with the table. \<open>Types_Unify\<close> proves inside the locale, and
  \<open>Types_Context\<close> interprets it on a table with explicit representatives: a unification that succeeds adds exactly the constraints that make the two types
  match, one that fails has no solution, every unification returns, and all runs of the operations keep the invariant.
  \<open>Types_Scheme\<close>: generalization and instantiation undo each other, and instances are fresh. Identifiers of variables are unbounded, whereas
  the counter of set variables and the indices of parameters wrap at 32 bits as in the code.

  \<^bold>\<open>The type table\<close> (\<open>emela-core/src/ir.rs\<close>), \<open>Core_Types\<close>: identifiers of hash-consed types are canonical, and
  substitution and the erasure of sets on identifiers implement those on trees.

  \<^bold>\<open>The low-level representation\<close> (\<open>emela-lir/src/ir.rs\<close>, \<open>repr.rs\<close>, \<open>live.rs\<close>, \<open>heap/\<close>).
  \<open>Lir_Ir\<close> has its data and traversals and \<open>Lir_Path\<close> the paths of a function, the reference that the analyses are judged by.
  \<open>Lir_Live\<close>: liveness returns and covers what any path still needs. \<open>Lir_Suspend\<close>: the edges of suspending values
  save all that is needed after them. \<open>Lir_Ownership\<close> and \<open>Lir_Rc_Check\<close>: a function that the balance check accepts is
  balanced on every path. \<open>Lir_Rc_Pass\<close> is the pass that inserts the reference counts (\<open>heap/rc.rs\<close>), a liveness analysis and a
  rewriting along it. \<open>Lir_Rc_Live\<close>: the shape of its input, and what the analysis records. \<open>Lir_Rc_Balance\<close>: a judgement on
  the structure of a function, with the references wanted at every exit, that makes it balanced. \<open>Lir_Rc_Adds\<close>: the pass adds only \<open>dup\<close>
  and \<open>drop\<close>. \<open>Lir_Rc_Insert\<close>, \<open>Lir_Rc_Run\<close> and \<open>Lir_Rc_Whole\<close>: the judgement holds of its result, and it returns.
  \<open>Lir_Rc_Module\<close>: the same for a module. A debug assertion of the pass compares what a suspension edge saves with what is owned; that it
  holds is a hypothesis where there are such edges, and a theorem where there are none.

  \<^bold>\<open>Fuel.\<close> The traversals of nested sequences and types take fuel that counts calls, and the theorems on returning show
  that every sufficiently large fuel gives the result.

  \<^bold>\<open>Not modelled.\<close> The lexer and parser, name resolution, the checking of bodies and signatures (which calls unification and solves the
  containments of sets that it leaves), lowering and monomorphisation are not modelled, and neither are the rest of the LIR verifier and the project operations of the package manager. The command line, the
  driver, the language server and the formatter read and print; the code generators print text and bytes whose meaning is
  that of JavaScript, C and WebAssembly.
\<close>

end
